(* ===== verification/Prelude.thy ===== *)
theory Prelude
  imports Main "HOL-Library.Word"
begin

text \<open>
  Shared vocabulary of the development: names for Rust's fixed-width integers, Rust's
  saturating and checked arithmetic on them, the pieces of \<^verbatim>\<open>format!\<close> that the error
  messages of \<^verbatim>\<open>ruau-bytecode\<close> use, indexed iteration (\<^verbatim>\<open>iter().enumerate()\<close>), and
  generic lemmas on lists and words.

  Signed and unsigned Rust integers of one width share one word type; a signed value is read
  with \<open>sint\<close>, an unsigned one with \<open>unat\<close> or \<open>uint\<close>. Arithmetic on words wraps, which is what
  the release profile of the crate does. \<^verbatim>\<open>usize\<close> is 64 bits wide; indices and lengths of
  in-memory vectors are \<open>nat\<close>.
\<close>

section \<open>Machine integers\<close>

unbundle bit_operations_syntax

type_synonym u8 = "8 word"
type_synonym u16 = "16 word"
type_synonym i16 = "16 word"
type_synonym u32 = "32 word"
type_synonym i32 = "32 word"
type_synonym u64 = "64 word"
type_synonym i64 = "64 word"
type_synonym bytes = "u8 list"

named_theorems wire_step \<open>reading back one writer call at the front of a run\<close>
named_theorems wire_sound \<open>what the values of a reader satisfy\<close>
named_theorems errs_simps \<open>when a validator step records no error\<close>
named_theorems frame_simps \<open>what a step leaves unchanged\<close>

definition saturating_add :: "'a::len word \<Rightarrow> 'a word \<Rightarrow> 'a word" where
  "saturating_add x y = (if unat x + unat y < 2 ^ LENGTH('a) then x + y else - 1)"

definition saturating_sub :: "'a::len word \<Rightarrow> 'a word \<Rightarrow> 'a word" where
  "saturating_sub x y = (if x < y then 0 else x - y)"

definition checked_add :: "'a::len word \<Rightarrow> 'a word \<Rightarrow> 'a word option" where
  "checked_add x y = (if unat x + unat y < 2 ^ LENGTH('a) then Some (x + y) else None)"

definition checked_sub :: "'a::len word \<Rightarrow> 'a word \<Rightarrow> 'a word option" where
  "checked_sub x y = (if x < y then None else Some (x - y))"

lemma unat_saturating_sub [simp]: "unat (saturating_sub x y) = unat x - unat y"
  by (cases "x < y") (auto simp: saturating_sub_def word_less_nat_alt not_less intro: unat_sub [unfolded word_le_nat_alt])

lemma unat_saturating_add: "unat (saturating_add x (y :: 'a::len word)) = min (unat x + unat y) (2 ^ LENGTH('a) - 1)"
proof (cases "unat x + unat y < 2 ^ LENGTH('a)")
  case True
  then show ?thesis by (simp add: saturating_add_def unat_word_ariths)
next
  case False
  then have "2 ^ LENGTH('a) - 1 \<le> unat x + unat y" by linarith
  with False show ?thesis
    by (simp add: saturating_add_def unsigned_minus_1_eq_mask mask_eq_exp_minus_1 min.absorb2)
qed

lemma checked_add_eq_Some:
  "checked_add x (y :: 'a::len word) = Some z \<longleftrightarrow> unat x + unat y < 2 ^ LENGTH('a) \<and> z = x + y"
  by (auto simp: checked_add_def)

lemma checked_sub_eq_Some: "checked_sub x y = Some z \<longleftrightarrow> y \<le> x \<and> z = x - y"
  by (auto simp: checked_sub_def)

lemma unat_of_nat_eq: "n < 2 ^ LENGTH('a) \<Longrightarrow> unat (of_nat n :: 'a::len word) = n"
  by (rule of_nat_inverse [OF refl])

lemma unat_add_of_nat:
  assumes "unat k + m < 2 ^ LENGTH('a)"
  shows "unat (k + of_nat m :: 'a::len word) = unat k + m"
proof -
  have "unat (of_nat m :: 'a word) = m" using assms by (simp add: unat_of_nat_eq)
  then show ?thesis using assms by (simp add: unat_word_ariths)
qed

lemma unat_bounds [simp]:
  "unat (b :: u8) < 256" "unat (h :: u16) < 65536" "unat (w :: u32) < 4294967296"
  "unat (q :: u64) < 18446744073709551616"
  using unsigned_less [of b, where ?'a = nat] unsigned_less [of h, where ?'a = nat]
    unsigned_less [of w, where ?'a = nat] unsigned_less [of q, where ?'a = nat] by simp_all

lemma unat_ucast_u32_u64 [simp]: "unat (ucast (w :: u32) :: u64) = unat w"
  by (simp add: unsigned_ucast_eq take_bit_nat_eq_self_iff order_less_trans [OF unat_bounds(3)])

lemma u8_bit_beyond [simp]: "8 \<le> n \<Longrightarrow> \<not> bit (w :: u8) n"
  using bit_imp_le_length [of w n] by auto

text \<open>Rust's \<^verbatim>\<open>i32::try_from\<close>, \<^verbatim>\<open>u32::try_from\<close> and friends between the widths used here.\<close>

definition u32_try_from_i32 :: "i32 \<Rightarrow> u32 option" where
  "u32_try_from_i32 x = (if sint x < 0 then None else Some x)"

definition u32_try_from_i16 :: "i16 \<Rightarrow> u32 option" where
  "u32_try_from_i16 x = (if sint x < 0 then None else Some (ucast x))"

definition i32_from_i16 :: "i16 \<Rightarrow> i32" where
  "i32_from_i16 x = scast x"

definition i16_try_from_i32 :: "i32 \<Rightarrow> i16 option" where
  "i16_try_from_i32 x = (if - (2 ^ 15) \<le> sint x \<and> sint x < 2 ^ 15 then Some (ucast x) else None)"

definition u32_try_from_u64 :: "u64 \<Rightarrow> u32 option" where
  "u32_try_from_u64 x = (if unat x < 2 ^ 32 then Some (ucast x) else None)"

definition u8_try_from_u32 :: "u32 \<Rightarrow> u8 option" where
  "u8_try_from_u32 x = (if unat x < 2 ^ 8 then Some (ucast x) else None)"

section \<open>Rust's message formatting\<close>

text \<open>\<^verbatim>\<open>{}\<close> on an unsigned integer: its decimal digits.\<close>

fun show_nat :: "nat \<Rightarrow> string" where
  "show_nat n =
     (if n < 10 then [''0123456789'' ! n] else show_nat (n div 10) @ [''0123456789'' ! (n mod 10)])"

declare show_nat.simps [simp del]

definition show_int :: "int \<Rightarrow> string" where
  "show_int i = (if i < 0 then ''-'' @ show_nat (nat (- i)) else show_nat (nat i))"

abbreviation show_word :: "'a::len word \<Rightarrow> string" where
  "show_word w \<equiv> show_nat (unat w)"

text \<open>\<^verbatim>\<open>{:#010x}\<close>: eight hexadecimal digits after \<^verbatim>\<open>0x\<close>.\<close>

fun hex_digits :: "nat \<Rightarrow> nat \<Rightarrow> string" where
  "hex_digits 0 n = []"
| "hex_digits (Suc k) n = hex_digits k (n div 16) @ [''0123456789abcdef'' ! (n mod 16)]"

definition show_hex_010 :: "u32 \<Rightarrow> string" where
  "show_hex_010 w = ''0x'' @ hex_digits 8 (unat w)"

section \<open>Indexed iteration\<close>

text \<open>\<^verbatim>\<open>for (index, item) in items.iter().enumerate()\<close> over a mutable state.\<close>

fun fold_idx :: "(nat \<Rightarrow> 'a \<Rightarrow> 's \<Rightarrow> 's) \<Rightarrow> nat \<Rightarrow> 'a list \<Rightarrow> 's \<Rightarrow> 's" where
  "fold_idx f i [] s = s"
| "fold_idx f i (x # xs) s = fold_idx f (Suc i) xs (f i x s)"

definition get :: "'a list \<Rightarrow> nat \<Rightarrow> 'a option" where
  "get xs i = (if i < length xs then Some (xs ! i) else None)"

lemma get_eq_Some: "get xs i = Some x \<longleftrightarrow> i < length xs \<and> xs ! i = x"
  by (auto simp: get_def)

lemma get_eq_None: "get xs i = None \<longleftrightarrow> length xs \<le> i"
  by (auto simp: get_def)

lemma get_append_left: "i < length xs \<Longrightarrow> get (xs @ ys) i = get xs i"
  by (simp add: get_def nth_append)

lemma all_idx_Cons:
  "(\<forall>j < length (x # xs). P (i + j) ((x # xs) ! j)) \<longleftrightarrow>
     P i x \<and> (\<forall>j < length xs. P (Suc i + j) (xs ! j))"
  using less_Suc_eq_0_disj by auto

end
