(* ===== verification/Opcodes.thy ===== *)
theory Opcodes
  imports Prelude
begin

text \<open>
  The numeric tags of the bytecode format, \<^verbatim>\<open>crates/ruau-bytecode/src/opcodes.rs\<close>: the opcode
  enumeration with its byte encoding and word length, the constant, capture and feedback tags,
  the builtin-function ids of the fastcall family, and the masks and shifts of the packed AUX and
  import words. A Rust variant \<^verbatim>\<open>Opcode::LoadK\<close> is the constructor \<open>Op_LoadK\<close>.
\<close>

section \<open>Opcodes\<close>

datatype (plugins only: size) opcode =
    Op_Nop | Op_Break | Op_LoadNil | Op_LoadB | Op_LoadN | Op_LoadK | Op_Move | Op_GetGlobal
    | Op_SetGlobal | Op_GetUpval | Op_SetUpval | Op_CloseUpvals | Op_GetImport | Op_GetTable
    | Op_SetTable | Op_GetTableKs | Op_SetTableKs | Op_GetTableN | Op_SetTableN | Op_NewClosure
    | Op_NameCall | Op_Call | Op_Return | Op_Jump | Op_JumpBack | Op_JumpIf | Op_JumpIfNot
    | Op_JumpIfEq | Op_JumpIfLe | Op_JumpIfLt | Op_JumpIfNotEq | Op_JumpIfNotLe
    | Op_JumpIfNotLt | Op_Add | Op_Sub | Op_Mul | Op_Div | Op_Mod | Op_Pow | Op_AddK | Op_SubK
    | Op_MulK | Op_DivK | Op_ModK | Op_PowK | Op_And | Op_Or | Op_AndK | Op_OrK | Op_Concat
    | Op_Not | Op_Minus | Op_Length | Op_NewTable | Op_DupTable | Op_SetList | Op_ForNPrep
    | Op_ForNLoop | Op_ForGLoop | Op_ForGPrepInext | Op_FastCall3 | Op_ForGPrepNext
    | Op_NativeCall | Op_GetVarargs | Op_DupClosure | Op_PrepVarargs | Op_LoadKx | Op_JumpX
    | Op_FastCall | Op_Coverage | Op_Capture | Op_SubRk | Op_DivRk | Op_FastCall1
    | Op_FastCall2 | Op_FastCall2K | Op_ForGPrep | Op_JumpXEqKNil | Op_JumpXEqKB | Op_JumpXEqKN
    | Op_JumpXEqKS | Op_IDiv | Op_IDivK | Op_GetUdataKs | Op_SetUdataKs | Op_NameCallUdata
    | Op_NewClassMember | Op_CallFb | Op_CmpProto | Op_NewClass

primrec opcode_byte :: "opcode \<Rightarrow> u8" where
  "opcode_byte Op_Nop = 0"
| "opcode_byte Op_Break = 1"
| "opcode_byte Op_LoadNil = 2"
| "opcode_byte Op_LoadB = 3"
| "opcode_byte Op_LoadN = 4"
| "opcode_byte Op_LoadK = 5"
| "opcode_byte Op_Move = 6"
| "opcode_byte Op_GetGlobal = 7"
| "opcode_byte Op_SetGlobal = 8"
| "opcode_byte Op_GetUpval = 9"
| "opcode_byte Op_SetUpval = 10"
| "opcode_byte Op_CloseUpvals = 11"
| "opcode_byte Op_GetImport = 12"
| "opcode_byte Op_GetTable = 13"
| "opcode_byte Op_SetTable = 14"
| "opcode_byte Op_GetTableKs = 15"
| "opcode_byte Op_SetTableKs = 16"
| "opcode_byte Op_GetTableN = 17"
| "opcode_byte Op_SetTableN = 18"
| "opcode_byte Op_NewClosure = 19"
| "opcode_byte Op_NameCall = 20"
| "opcode_byte Op_Call = 21"
| "opcode_byte Op_Return = 22"
| "opcode_byte Op_Jump = 23"
| "opcode_byte Op_JumpBack = 24"
| "opcode_byte Op_JumpIf = 25"
| "opcode_byte Op_JumpIfNot = 26"
| "opcode_byte Op_JumpIfEq = 27"
| "opcode_byte Op_JumpIfLe = 28"
| "opcode_byte Op_JumpIfLt = 29"
| "opcode_byte Op_JumpIfNotEq = 30"
| "opcode_byte Op_JumpIfNotLe = 31"
| "opcode_byte Op_JumpIfNotLt = 32"
| "opcode_byte Op_Add = 33"
| "opcode_byte Op_Sub = 34"
| "opcode_byte Op_Mul = 35"
| "opcode_byte Op_Div = 36"
| "opcode_byte Op_Mod = 37"
| "opcode_byte Op_Pow = 38"
| "opcode_byte Op_AddK = 39"
| "opcode_byte Op_SubK = 40"
| "opcode_byte Op_MulK = 41"
| "opcode_byte Op_DivK = 42"
| "opcode_byte Op_ModK = 43"
| "opcode_byte Op_PowK = 44"
| "opcode_byte Op_And = 45"
| "opcode_byte Op_Or = 46"
| "opcode_byte Op_AndK = 47"
| "opcode_byte Op_OrK = 48"
| "opcode_byte Op_Concat = 49"
| "opcode_byte Op_Not = 50"
| "opcode_byte Op_Minus = 51"
| "opcode_byte Op_Length = 52"
| "opcode_byte Op_NewTable = 53"
| "opcode_byte Op_DupTable = 54"
| "opcode_byte Op_SetList = 55"
| "opcode_byte Op_ForNPrep = 56"
| "opcode_byte Op_ForNLoop = 57"
| "opcode_byte Op_ForGLoop = 58"
| "opcode_byte Op_ForGPrepInext = 59"
| "opcode_byte Op_FastCall3 = 60"
| "opcode_byte Op_ForGPrepNext = 61"
| "opcode_byte Op_NativeCall = 62"
| "opcode_byte Op_GetVarargs = 63"
| "opcode_byte Op_DupClosure = 64"
| "opcode_byte Op_PrepVarargs = 65"
| "opcode_byte Op_LoadKx = 66"
| "opcode_byte Op_JumpX = 67"
| "opcode_byte Op_FastCall = 68"
| "opcode_byte Op_Coverage = 69"
| "opcode_byte Op_Capture = 70"
| "opcode_byte Op_SubRk = 71"
| "opcode_byte Op_DivRk = 72"
| "opcode_byte Op_FastCall1 = 73"
| "opcode_byte Op_FastCall2 = 74"
| "opcode_byte Op_FastCall2K = 75"
| "opcode_byte Op_ForGPrep = 76"
| "opcode_byte Op_JumpXEqKNil = 77"
| "opcode_byte Op_JumpXEqKB = 78"
| "opcode_byte Op_JumpXEqKN = 79"
| "opcode_byte Op_JumpXEqKS = 80"
| "opcode_byte Op_IDiv = 81"
| "opcode_byte Op_IDivK = 82"
| "opcode_byte Op_GetUdataKs = 83"
| "opcode_byte Op_SetUdataKs = 84"
| "opcode_byte Op_NameCallUdata = 85"
| "opcode_byte Op_NewClassMember = 86"
| "opcode_byte Op_CallFb = 87"
| "opcode_byte Op_CmpProto = 88"
| "opcode_byte Op_NewClass = 89"

definition opcode_table :: "(u8 \<times> opcode) list" where
  "opcode_table =
    [(0, Op_Nop), (1, Op_Break), (2, Op_LoadNil), (3, Op_LoadB), (4, Op_LoadN), (5, Op_LoadK),
     (6, Op_Move), (7, Op_GetGlobal), (8, Op_SetGlobal), (9, Op_GetUpval), (10, Op_SetUpval),
     (11, Op_CloseUpvals), (12, Op_GetImport), (13, Op_GetTable), (14, Op_SetTable),
     (15, Op_GetTableKs), (16, Op_SetTableKs), (17, Op_GetTableN), (18, Op_SetTableN),
     (19, Op_NewClosure), (20, Op_NameCall), (21, Op_Call), (22, Op_Return), (23, Op_Jump),
     (24, Op_JumpBack), (25, Op_JumpIf), (26, Op_JumpIfNot), (27, Op_JumpIfEq),
     (28, Op_JumpIfLe), (29, Op_JumpIfLt), (30, Op_JumpIfNotEq), (31, Op_JumpIfNotLe),
     (32, Op_JumpIfNotLt), (33, Op_Add), (34, Op_Sub), (35, Op_Mul), (36, Op_Div),
     (37, Op_Mod), (38, Op_Pow), (39, Op_AddK), (40, Op_SubK), (41, Op_MulK), (42, Op_DivK),
     (43, Op_ModK), (44, Op_PowK), (45, Op_And), (46, Op_Or), (47, Op_AndK), (48, Op_OrK),
     (49, Op_Concat), (50, Op_Not), (51, Op_Minus), (52, Op_Length), (53, Op_NewTable),
     (54, Op_DupTable), (55, Op_SetList), (56, Op_ForNPrep), (57, Op_ForNLoop),
     (58, Op_ForGLoop), (59, Op_ForGPrepInext), (60, Op_FastCall3), (61, Op_ForGPrepNext),
     (62, Op_NativeCall), (63, Op_GetVarargs), (64, Op_DupClosure), (65, Op_PrepVarargs),
     (66, Op_LoadKx), (67, Op_JumpX), (68, Op_FastCall), (69, Op_Coverage), (70, Op_Capture),
     (71, Op_SubRk), (72, Op_DivRk), (73, Op_FastCall1), (74, Op_FastCall2),
     (75, Op_FastCall2K), (76, Op_ForGPrep), (77, Op_JumpXEqKNil), (78, Op_JumpXEqKB),
     (79, Op_JumpXEqKN), (80, Op_JumpXEqKS), (81, Op_IDiv), (82, Op_IDivK),
     (83, Op_GetUdataKs), (84, Op_SetUdataKs), (85, Op_NameCallUdata), (86, Op_NewClassMember),
     (87, Op_CallFb), (88, Op_CmpProto), (89, Op_NewClass)]"

definition opcode_from_byte :: "u8 \<Rightarrow> opcode option" where
  "opcode_from_byte value = map_of opcode_table value"

definition opcode_count :: u8 where
  "opcode_count = 90"

text \<open>
  The enumeration derives \<^verbatim>\<open>Eq\<close>; opcodes are compared by their discriminant, which keeps the
  executable equality of the ninety constructors linear.
\<close>

lemma opcode_from_byte_byte [simp]: "opcode_from_byte (opcode_byte op) = Some op"
  by (cases op) (simp_all add: opcode_from_byte_def opcode_table_def)

lemma opcode_byte_inject [simp]: "opcode_byte x = opcode_byte y \<longleftrightarrow> x = y"
  by (metis opcode_from_byte_byte option.inject)

instantiation opcode :: equal
begin

definition equal_opcode :: "opcode \<Rightarrow> opcode \<Rightarrow> bool" where
  "equal_opcode x y \<longleftrightarrow> opcode_byte x = opcode_byte y"

instance
  by standard (simp add: equal_opcode_def)

end

text \<open>Number of 32-bit words an instruction occupies.\<close>

definition instruction_len :: "opcode \<Rightarrow> nat" where
  "instruction_len op =
    (if op \<in> set
      [Op_GetGlobal, Op_SetGlobal, Op_GetImport, Op_GetTableKs, Op_SetTableKs, Op_NameCall,
       Op_JumpIfEq, Op_JumpIfLe, Op_JumpIfLt, Op_JumpIfNotEq, Op_JumpIfNotLe, Op_JumpIfNotLt,
       Op_NewTable, Op_SetList, Op_ForGLoop, Op_LoadKx, Op_FastCall2, Op_FastCall2K,
       Op_FastCall3, Op_JumpXEqKNil, Op_JumpXEqKB, Op_JumpXEqKN, Op_JumpXEqKS, Op_GetUdataKs,
       Op_SetUdataKs, Op_NameCallUdata, Op_NewClassMember, Op_CallFb, Op_CmpProto, Op_NewClass]
     then 2 else 1)"

text \<open>\<^verbatim>\<open>{:?}\<close> on an opcode: the derived \<^verbatim>\<open>Debug\<close> prints the variant name.\<close>

primrec show_opcode :: "opcode \<Rightarrow> string" where
  "show_opcode Op_Nop = ''Nop''"
| "show_opcode Op_Break = ''Break''"
| "show_opcode Op_LoadNil = ''LoadNil''"
| "show_opcode Op_LoadB = ''LoadB''"
| "show_opcode Op_LoadN = ''LoadN''"
| "show_opcode Op_LoadK = ''LoadK''"
| "show_opcode Op_Move = ''Move''"
| "show_opcode Op_GetGlobal = ''GetGlobal''"
| "show_opcode Op_SetGlobal = ''SetGlobal''"
| "show_opcode Op_GetUpval = ''GetUpval''"
| "show_opcode Op_SetUpval = ''SetUpval''"
| "show_opcode Op_CloseUpvals = ''CloseUpvals''"
| "show_opcode Op_GetImport = ''GetImport''"
| "show_opcode Op_GetTable = ''GetTable''"
| "show_opcode Op_SetTable = ''SetTable''"
| "show_opcode Op_GetTableKs = ''GetTableKs''"
| "show_opcode Op_SetTableKs = ''SetTableKs''"
| "show_opcode Op_GetTableN = ''GetTableN''"
| "show_opcode Op_SetTableN = ''SetTableN''"
| "show_opcode Op_NewClosure = ''NewClosure''"
| "show_opcode Op_NameCall = ''NameCall''"
| "show_opcode Op_Call = ''Call''"
| "show_opcode Op_Return = ''Return''"
| "show_opcode Op_Jump = ''Jump''"
| "show_opcode Op_JumpBack = ''JumpBack''"
| "show_opcode Op_JumpIf = ''JumpIf''"
| "show_opcode Op_JumpIfNot = ''JumpIfNot''"
| "show_opcode Op_JumpIfEq = ''JumpIfEq''"
| "show_opcode Op_JumpIfLe = ''JumpIfLe''"
| "show_opcode Op_JumpIfLt = ''JumpIfLt''"
| "show_opcode Op_JumpIfNotEq = ''JumpIfNotEq''"
| "show_opcode Op_JumpIfNotLe = ''JumpIfNotLe''"
| "show_opcode Op_JumpIfNotLt = ''JumpIfNotLt''"
| "show_opcode Op_Add = ''Add''"
| "show_opcode Op_Sub = ''Sub''"
| "show_opcode Op_Mul = ''Mul''"
| "show_opcode Op_Div = ''Div''"
| "show_opcode Op_Mod = ''Mod''"
| "show_opcode Op_Pow = ''Pow''"
| "show_opcode Op_AddK = ''AddK''"
| "show_opcode Op_SubK = ''SubK''"
| "show_opcode Op_MulK = ''MulK''"
| "show_opcode Op_DivK = ''DivK''"
| "show_opcode Op_ModK = ''ModK''"
| "show_opcode Op_PowK = ''PowK''"
| "show_opcode Op_And = ''And''"
| "show_opcode Op_Or = ''Or''"
| "show_opcode Op_AndK = ''AndK''"
| "show_opcode Op_OrK = ''OrK''"
| "show_opcode Op_Concat = ''Concat''"
| "show_opcode Op_Not = ''Not''"
| "show_opcode Op_Minus = ''Minus''"
| "show_opcode Op_Length = ''Length''"
| "show_opcode Op_NewTable = ''NewTable''"
| "show_opcode Op_DupTable = ''DupTable''"
| "show_opcode Op_SetList = ''SetList''"
| "show_opcode Op_ForNPrep = ''ForNPrep''"
| "show_opcode Op_ForNLoop = ''ForNLoop''"
| "show_opcode Op_ForGLoop = ''ForGLoop''"
| "show_opcode Op_ForGPrepInext = ''ForGPrepInext''"
| "show_opcode Op_FastCall3 = ''FastCall3''"
| "show_opcode Op_ForGPrepNext = ''ForGPrepNext''"
| "show_opcode Op_NativeCall = ''NativeCall''"
| "show_opcode Op_GetVarargs = ''GetVarargs''"
| "show_opcode Op_DupClosure = ''DupClosure''"
| "show_opcode Op_PrepVarargs = ''PrepVarargs''"
| "show_opcode Op_LoadKx = ''LoadKx''"
| "show_opcode Op_JumpX = ''JumpX''"
| "show_opcode Op_FastCall = ''FastCall''"
| "show_opcode Op_Coverage = ''Coverage''"
| "show_opcode Op_Capture = ''Capture''"
| "show_opcode Op_SubRk = ''SubRk''"
| "show_opcode Op_DivRk = ''DivRk''"
| "show_opcode Op_FastCall1 = ''FastCall1''"
| "show_opcode Op_FastCall2 = ''FastCall2''"
| "show_opcode Op_FastCall2K = ''FastCall2K''"
| "show_opcode Op_ForGPrep = ''ForGPrep''"
| "show_opcode Op_JumpXEqKNil = ''JumpXEqKNil''"
| "show_opcode Op_JumpXEqKB = ''JumpXEqKB''"
| "show_opcode Op_JumpXEqKN = ''JumpXEqKN''"
| "show_opcode Op_JumpXEqKS = ''JumpXEqKS''"
| "show_opcode Op_IDiv = ''IDiv''"
| "show_opcode Op_IDivK = ''IDivK''"
| "show_opcode Op_GetUdataKs = ''GetUdataKs''"
| "show_opcode Op_SetUdataKs = ''SetUdataKs''"
| "show_opcode Op_NameCallUdata = ''NameCallUdata''"
| "show_opcode Op_NewClassMember = ''NewClassMember''"
| "show_opcode Op_CallFb = ''CallFb''"
| "show_opcode Op_CmpProto = ''CmpProto''"
| "show_opcode Op_NewClass = ''NewClass''"

section \<open>Tags of the constant table, captures and feedback slots\<close>

datatype constant_tag =
    Tag_Nil | Tag_Boolean | Tag_Number | Tag_String | Tag_Import | Tag_Table | Tag_Closure
  | Tag_Vector | Tag_TableWithConstants | Tag_Integer | Tag_ClassShape | Tag_VectorDouble

primrec constant_tag_byte :: "constant_tag \<Rightarrow> u8" where
  "constant_tag_byte Tag_Nil = 0"
| "constant_tag_byte Tag_Boolean = 1"
| "constant_tag_byte Tag_Number = 2"
| "constant_tag_byte Tag_String = 3"
| "constant_tag_byte Tag_Import = 4"
| "constant_tag_byte Tag_Table = 5"
| "constant_tag_byte Tag_Closure = 6"
| "constant_tag_byte Tag_Vector = 7"
| "constant_tag_byte Tag_TableWithConstants = 8"
| "constant_tag_byte Tag_Integer = 9"
| "constant_tag_byte Tag_ClassShape = 10"
| "constant_tag_byte Tag_VectorDouble = 11"

definition constant_tag_from_byte :: "u8 \<Rightarrow> constant_tag option" where
  "constant_tag_from_byte value =
     map_of [(0, Tag_Nil), (1, Tag_Boolean), (2, Tag_Number), (3, Tag_String), (4, Tag_Import),
             (5, Tag_Table), (6, Tag_Closure), (7, Tag_Vector), (8, Tag_TableWithConstants),
             (9, Tag_Integer), (10, Tag_ClassShape), (11, Tag_VectorDouble)] value"

datatype capture_type = Capture_Val | Capture_Ref | Capture_Upval

primrec capture_type_byte :: "capture_type \<Rightarrow> u8" where
  "capture_type_byte Capture_Val = 0"
| "capture_type_byte Capture_Ref = 1"
| "capture_type_byte Capture_Upval = 2"

definition capture_type_from_byte :: "u8 \<Rightarrow> capture_type option" where
  "capture_type_from_byte value =
     map_of [(0, Capture_Val), (1, Capture_Ref), (2, Capture_Upval)] value"

datatype feedback_type = CallTarget

primrec feedback_type_byte :: "feedback_type \<Rightarrow> u8" where
  "feedback_type_byte CallTarget = 0"

definition feedback_type_from_byte :: "u8 \<Rightarrow> feedback_type option" where
  "feedback_type_from_byte value = (if value = 0 then Some CallTarget else None)"

section \<open>Type tags\<close>

datatype type_tag =
    Type_Nil | Type_Boolean | Type_Number | Type_String | Type_Table | Type_Function | Type_Thread
  | Type_Userdata | Type_Vector | Type_Buffer | Type_Integer | Type_Any | TaggedUserdataBase
  | TaggedUserdataEnd | OptionalBit | Type_Invalid

primrec type_tag_code :: "type_tag \<Rightarrow> u16" where
  "type_tag_code Type_Nil = 0"
| "type_tag_code Type_Boolean = 1"
| "type_tag_code Type_Number = 2"
| "type_tag_code Type_String = 3"
| "type_tag_code Type_Table = 4"
| "type_tag_code Type_Function = 5"
| "type_tag_code Type_Thread = 6"
| "type_tag_code Type_Userdata = 7"
| "type_tag_code Type_Vector = 8"
| "type_tag_code Type_Buffer = 9"
| "type_tag_code Type_Integer = 10"
| "type_tag_code Type_Any = 15"
| "type_tag_code TaggedUserdataBase = 64"
| "type_tag_code TaggedUserdataEnd = 96"
| "type_tag_code OptionalBit = 128"
| "type_tag_code Type_Invalid = 256"

section \<open>Builtin functions, masks and flags\<close>

text \<open>
  \<^verbatim>\<open>BuiltinFunction\<close> is a namespace of byte constants; only its bounds take part in the
  validator's decisions.
\<close>

definition builtin_functions :: "(string \<times> u8) list" where
  "builtin_functions =
    [(''NONE'', 0), (''ASSERT'', 1), (''MATH_ABS'', 2), (''MATH_ACOS'', 3), (''MATH_ASIN'', 4),
     (''MATH_ATAN2'', 5), (''MATH_ATAN'', 6), (''MATH_CEIL'', 7), (''MATH_COSH'', 8),
     (''MATH_COS'', 9), (''MATH_DEG'', 10), (''MATH_EXP'', 11), (''MATH_FLOOR'', 12),
     (''MATH_FMOD'', 13), (''MATH_FREXP'', 14), (''MATH_LDEXP'', 15), (''MATH_LOG10'', 16),
     (''MATH_LOG'', 17), (''MATH_MAX'', 18), (''MATH_MIN'', 19), (''MATH_MODF'', 20),
     (''MATH_POW'', 21), (''MATH_RAD'', 22), (''MATH_SINH'', 23), (''MATH_SIN'', 24),
     (''MATH_SQRT'', 25), (''MATH_TANH'', 26), (''MATH_TAN'', 27), (''BIT32_ARSHIFT'', 28),
     (''BIT32_BAND'', 29), (''BIT32_BNOT'', 30), (''BIT32_BOR'', 31), (''BIT32_BXOR'', 32),
     (''BIT32_BTEST'', 33), (''BIT32_EXTRACT'', 34), (''BIT32_LROTATE'', 35),
     (''BIT32_LSHIFT'', 36), (''BIT32_REPLACE'', 37), (''BIT32_RROTATE'', 38),
     (''BIT32_RSHIFT'', 39), (''TYPE'', 40), (''STRING_BYTE'', 41), (''STRING_CHAR'', 42),
     (''STRING_LEN'', 43), (''TYPEOF'', 44), (''STRING_SUB'', 45), (''MATH_CLAMP'', 46),
     (''MATH_SIGN'', 47), (''MATH_ROUND'', 48), (''RAWSET'', 49), (''RAWGET'', 50),
     (''RAWEQUAL'', 51), (''TABLE_INSERT'', 52), (''TABLE_UNPACK'', 53), (''VECTOR'', 54),
     (''BIT32_COUNTLZ'', 55), (''BIT32_COUNTRZ'', 56), (''SELECT_VARARG'', 57),
     (''RAWLEN'', 58), (''BIT32_EXTRACTK'', 59), (''GETMETATABLE'', 60),
     (''SETMETATABLE'', 61), (''TONUMBER'', 62), (''TOSTRING'', 63), (''BIT32_BYTESWAP'', 64),
     (''BUFFER_READI8'', 65), (''BUFFER_READU8'', 66), (''BUFFER_WRITEU8'', 67),
     (''BUFFER_READI16'', 68), (''BUFFER_READU16'', 69), (''BUFFER_WRITEU16'', 70),
     (''BUFFER_READI32'', 71), (''BUFFER_READU32'', 72), (''BUFFER_WRITEU32'', 73),
     (''BUFFER_READF32'', 74), (''BUFFER_WRITEF32'', 75), (''BUFFER_READF64'', 76),
     (''BUFFER_WRITEF64'', 77), (''VECTOR_MAGNITUDE'', 78), (''VECTOR_NORMALIZE'', 79),
     (''VECTOR_CROSS'', 80), (''VECTOR_DOT'', 81), (''VECTOR_FLOOR'', 82),
     (''VECTOR_CEIL'', 83), (''VECTOR_ABS'', 84), (''VECTOR_SIGN'', 85),
     (''VECTOR_CLAMP'', 86), (''VECTOR_MIN'', 87), (''VECTOR_MAX'', 88), (''MATH_LERP'', 89),
     (''VECTOR_LERP'', 90), (''MATH_ISNAN'', 91), (''MATH_ISINF'', 92),
     (''MATH_ISFINITE'', 93), (''INTEGER_CREATE'', 94), (''INTEGER_TONUMBER'', 95),
     (''INTEGER_NEG'', 96), (''INTEGER_ADD'', 97), (''INTEGER_SUB'', 98),
     (''INTEGER_MUL'', 99), (''INTEGER_DIV'', 100), (''INTEGER_MIN'', 101),
     (''INTEGER_MAX'', 102), (''INTEGER_REM'', 103), (''INTEGER_IDIV'', 104),
     (''INTEGER_UDIV'', 105), (''INTEGER_UREM'', 106), (''INTEGER_MOD'', 107),
     (''INTEGER_CLAMP'', 108), (''INTEGER_BAND'', 109), (''INTEGER_BOR'', 110),
     (''INTEGER_BNOT'', 111), (''INTEGER_BXOR'', 112), (''INTEGER_LT'', 113),
     (''INTEGER_LE'', 114), (''INTEGER_ULT'', 115), (''INTEGER_ULE'', 116),
     (''INTEGER_GT'', 117), (''INTEGER_GE'', 118), (''INTEGER_UGT'', 119),
     (''INTEGER_UGE'', 120), (''INTEGER_LSHIFT'', 121), (''INTEGER_RSHIFT'', 122),
     (''INTEGER_ARSHIFT'', 123), (''INTEGER_LROTATE'', 124), (''INTEGER_RROTATE'', 125),
     (''INTEGER_EXTRACT'', 126), (''INTEGER_BTEST'', 127), (''INTEGER_COUNTRZ'', 128),
     (''INTEGER_COUNTLZ'', 129), (''INTEGER_BSWAP'', 130), (''BUFFER_READINTEGER'', 131),
     (''BUFFER_WRITEINTEGER'', 132)]"

definition BUILTIN_NONE :: u8 where "BUILTIN_NONE = 0"
definition BUFFER_WRITEINTEGER :: u8 where "BUFFER_WRITEINTEGER = 132"
definition BUILTIN_COUNT :: u8 where "BUILTIN_COUNT = 133"

definition JUMPX_K_NOT_BIT :: u32 where "JUMPX_K_NOT_BIT = push_bit 31 1"
definition JUMPX_K_INDEX_MASK :: u32 where "JUMPX_K_INDEX_MASK = push_bit 24 1 - 1"
definition FORGLOOP_INEXT_BIT :: u32 where "FORGLOOP_INEXT_BIT = push_bit 31 1"
definition FORGLOOP_VARS_MASK :: u32 where "FORGLOOP_VARS_MASK = 0xff"
definition IMPORT_PATH_COUNT_SHIFT :: nat where "IMPORT_PATH_COUNT_SHIFT = 30"
definition IMPORT_PATH_COMPONENT_BITS :: nat where "IMPORT_PATH_COMPONENT_BITS = 10"
definition IMPORT_PATH_COMPONENT_MASK :: u32 where
  "IMPORT_PATH_COMPONENT_MASK = push_bit IMPORT_PATH_COMPONENT_BITS 1 - 1"

definition import_component_shift :: "nat \<Rightarrow> nat" where
  "import_component_shift index =
     IMPORT_PATH_COUNT_SHIFT - IMPORT_PATH_COMPONENT_BITS * (index + 1)"

definition PROTO_INLINABLE :: u8 where "PROTO_INLINABLE = push_bit 3 1"
definition PROTO_USES_EXPORT :: u8 where "PROTO_USES_EXPORT = push_bit 4 1"

lemmas opcode_consts =
  BUILTIN_NONE_def BUFFER_WRITEINTEGER_def BUILTIN_COUNT_def JUMPX_K_NOT_BIT_def
  JUMPX_K_INDEX_MASK_def FORGLOOP_INEXT_BIT_def FORGLOOP_VARS_MASK_def IMPORT_PATH_COUNT_SHIFT_def
  IMPORT_PATH_COMPONENT_BITS_def IMPORT_PATH_COMPONENT_MASK_def import_component_shift_def
  PROTO_INLINABLE_def PROTO_USES_EXPORT_def

section \<open>Byte encodings are inverse to their decoders\<close>

lemma opcode_byte_from_byte: "opcode_from_byte v = Some op \<Longrightarrow> opcode_byte op = v"
  unfolding opcode_from_byte_def
  by (drule map_of_SomeD) (auto simp: opcode_table_def)

lemma constant_tag_from_byte_byte [simp]: "constant_tag_from_byte (constant_tag_byte t) = Some t"
  by (cases t) (simp_all add: constant_tag_from_byte_def)

lemma capture_type_from_byte_byte [simp]: "capture_type_from_byte (capture_type_byte t) = Some t"
  by (cases t) (simp_all add: capture_type_from_byte_def)

lemma feedback_type_from_byte_byte [simp]: "feedback_type_from_byte (feedback_type_byte t) = Some t"
  by (cases t) (simp_all add: feedback_type_from_byte_def)

lemma instruction_len_cases: "instruction_len op = 1 \<or> instruction_len op = 2"
  by (simp add: instruction_len_def)

end
