(* ===== verification/Instructions.thy ===== *)
theory Instructions
  imports Opcodes
begin

text \<open>
  Instructions of \<^verbatim>\<open>crates/ruau-bytecode/src/types.rs\<close>: the header word with its pre-decoded
  operand views, the constructors, jump operands, captures and word offsets.
\<close>

section \<open>The instruction record\<close>

record instruction =
  i_header :: u32
  i_opcode :: opcode
  i_a :: u8
  i_b :: u8
  i_c :: u8
  i_d :: i16
  i_e :: i32
  i_aux :: "u32 option"

definition from_words :: "u32 \<Rightarrow> u32 option \<Rightarrow> instruction option" where
  "from_words header aux =
     (case opcode_from_byte (ucast (header AND 0xff)) of
        None \<Rightarrow> None
      | Some op \<Rightarrow> Some
          \<lparr>i_header = header,
           i_opcode = op,
           i_a = ucast (drop_bit 8 header AND 0xff),
           i_b = ucast (drop_bit 16 header AND 0xff),
           i_c = ucast (drop_bit 24 header AND 0xff),
           i_d = ucast (drop_bit 16 header),
           i_e = signed_drop_bit 8 header,
           i_aux = aux\<rparr>)"

text \<open>
  The constructors re-decode the header they build with \<^verbatim>\<open>from_words(..).expect(..)\<close>. The panic
  of \<^verbatim>\<open>expect\<close> is the missing value below; \<open>from_words_abc_header\<close> shows that it never happens.
\<close>

definition abc_header :: "opcode \<Rightarrow> u8 \<Rightarrow> u8 \<Rightarrow> u8 \<Rightarrow> u32" where
  "abc_header op a b c =
     ucast (opcode_byte op) OR push_bit 8 (ucast a) OR push_bit 16 (ucast b) OR push_bit 24 (ucast c)"

definition ad_header :: "opcode \<Rightarrow> u8 \<Rightarrow> i16 \<Rightarrow> u32" where
  "ad_header op a d = ucast (opcode_byte op) OR push_bit 8 (ucast a) OR push_bit 16 (ucast d)"

definition abc :: "opcode \<Rightarrow> u8 \<Rightarrow> u8 \<Rightarrow> u8 \<Rightarrow> instruction" where
  "abc op a b c = the (from_words (abc_header op a b c) None)"

definition abc_with_aux :: "opcode \<Rightarrow> u8 \<Rightarrow> u8 \<Rightarrow> u8 \<Rightarrow> u32 option \<Rightarrow> instruction" where
  "abc_with_aux op a b c aux = the (from_words (abc_header op a b c) aux)"

definition ad :: "opcode \<Rightarrow> u8 \<Rightarrow> i16 \<Rightarrow> instruction" where
  "ad op a d = the (from_words (ad_header op a d) None)"

section \<open>Jumps, captures and word lengths\<close>

definition jump_offset_words :: "instruction \<Rightarrow> i32 option" where
  "jump_offset_words i =
     (if i_opcode i \<in> set
        [Op_Jump, Op_JumpBack, Op_JumpIf, Op_JumpIfNot, Op_JumpIfEq, Op_JumpIfLe, Op_JumpIfLt,
         Op_JumpIfNotEq, Op_JumpIfNotLe, Op_JumpIfNotLt, Op_ForNPrep, Op_ForNLoop, Op_ForGLoop,
         Op_ForGPrepInext, Op_ForGPrepNext, Op_ForGPrep, Op_JumpXEqKNil, Op_JumpXEqKB,
         Op_JumpXEqKN, Op_JumpXEqKS, Op_CmpProto]
      then Some (i32_from_i16 (i_d i))
      else if i_opcode i = Op_JumpX then Some (i_e i)
      else if i_opcode i \<in> set
        [Op_LoadB, Op_FastCall, Op_FastCall1, Op_FastCall2, Op_FastCall2K, Op_FastCall3]
      then Some (ucast (i_c i))
      else None)"

definition jump_target_word :: "instruction \<Rightarrow> u32 \<Rightarrow> i32 option" where
  "jump_target_word i instruction_word =
     (case jump_offset_words i of
        None \<Rightarrow> None
      | Some offset \<Rightarrow> Some (instruction_word + 1 + offset))"

definition capture_type :: "instruction \<Rightarrow> capture_type option" where
  "capture_type i = (if i_opcode i = Op_Capture then capture_type_from_byte (i_a i) else None)"

definition capture_source :: "instruction \<Rightarrow> u8 option" where
  "capture_source i = map_option (\<lambda>_. i_b i) (capture_type i)"

definition word_len :: "instruction \<Rightarrow> u32" where
  "word_len i = 1 + (if i_aux i = None then 0 else 1)"

definition is_header_consistent :: "instruction \<Rightarrow> bool" where
  "is_header_consistent i =
     (case from_words (i_header i) (i_aux i) of
        None \<Rightarrow> False
      | Some decoded \<Rightarrow> decoded = i)"

definition code_word_count :: "instruction list \<Rightarrow> u32" where
  "code_word_count code = sum_list (map word_len code)"

fun word_offsets_from :: "u32 \<Rightarrow> instruction list \<Rightarrow> u32 list" where
  "word_offsets_from nxt [] = []"
| "word_offsets_from nxt (i # is) = nxt # word_offsets_from (nxt + word_len i) is"

definition instruction_word_offsets :: "instruction list \<Rightarrow> u32 list" where
  "instruction_word_offsets code = word_offsets_from 0 code"

text \<open>\<^verbatim>\<open>Iterator::position\<close>: the first index whose element satisfies the predicate.\<close>

fun position :: "('a \<Rightarrow> bool) \<Rightarrow> 'a list \<Rightarrow> nat option" where
  "position P [] = None"
| "position P (x # xs) = (if P x then Some 0 else map_option Suc (position P xs))"

definition jump_target_instruction_index :: "instruction list \<Rightarrow> nat \<Rightarrow> nat option" where
  "jump_target_instruction_index code instruction_index =
     (let offsets = instruction_word_offsets code in
      case get code instruction_index of
        None \<Rightarrow> None
      | Some instruction \<Rightarrow>
          (case get offsets instruction_index of
             None \<Rightarrow> None
           | Some source_word \<Rightarrow>
               (case jump_target_word instruction source_word of
                  None \<Rightarrow> None
                | Some target \<Rightarrow> position (\<lambda>word. word = target) offsets)))"

section \<open>The header and its views agree\<close>

lemma u32_255_mask: "(255 :: u32) = mask 8"
  by (simp add: mask_eq_exp_minus_1)

lemmas header_bits = u32_255_mask abc_header_def ad_header_def bit_simps

lemma bytes_of_abc_header:
  "ucast (abc_header op a b c AND 0xff) = opcode_byte op"
  "ucast (drop_bit 8 (abc_header op a b c) AND 0xff) = a"
  "ucast (drop_bit 16 (abc_header op a b c) AND 0xff) = b"
  "ucast (drop_bit 24 (abc_header op a b c) AND 0xff) = c"
  by (rule bit_word_eqI; auto simp: header_bits)+

lemma bytes_of_ad_header:
  "ucast (ad_header op a d AND 0xff) = opcode_byte op"
  "ucast (drop_bit 8 (ad_header op a d) AND 0xff) = a"
  "ucast (drop_bit 16 (ad_header op a d)) = d"
  by (rule bit_word_eqI; auto simp: header_bits)+

text \<open>The \<open>expect\<close> of the three constructors never fires.\<close>

lemma from_words_abc_header: "from_words (abc_header op a b c) aux = Some (abc_with_aux op a b c aux)"
  by (simp add: from_words_def abc_with_aux_def bytes_of_abc_header)

lemma from_words_ad_header: "from_words (ad_header op a d) None = Some (ad op a d)"
  by (simp add: from_words_def ad_def bytes_of_ad_header)

lemma abc_eq_abc_with_aux: "abc op a b c = abc_with_aux op a b c None"
  by (simp add: abc_def abc_with_aux_def)

lemma abc_with_aux_fields [simp]:
  "i_header (abc_with_aux op a b c aux) = abc_header op a b c"
  "i_opcode (abc_with_aux op a b c aux) = op"
  "i_a (abc_with_aux op a b c aux) = a"
  "i_b (abc_with_aux op a b c aux) = b"
  "i_c (abc_with_aux op a b c aux) = c"
  "i_aux (abc_with_aux op a b c aux) = aux"
  by (simp_all add: abc_with_aux_def from_words_def bytes_of_abc_header)

lemma abc_fields [simp]:
  "i_header (abc op a b c) = abc_header op a b c"
  "i_opcode (abc op a b c) = op"
  "i_a (abc op a b c) = a"
  "i_b (abc op a b c) = b"
  "i_c (abc op a b c) = c"
  "i_aux (abc op a b c) = None"
  by (simp_all add: abc_eq_abc_with_aux)

lemma ad_fields [simp]:
  "i_header (ad op a d) = ad_header op a d"
  "i_opcode (ad op a d) = op"
  "i_a (ad op a d) = a"
  "i_d (ad op a d) = d"
  "i_aux (ad op a d) = None"
  by (simp_all add: ad_def from_words_def bytes_of_ad_header)

lemma from_words_consistent: "from_words h aux = Some i \<Longrightarrow> is_header_consistent i"
  by (auto simp: is_header_consistent_def from_words_def split: option.splits)

lemma from_words_header: "from_words h aux = Some i \<Longrightarrow> i_header i = h \<and> i_aux i = aux"
  by (auto simp: from_words_def split: option.splits)

lemma is_header_consistent_iff:
  "is_header_consistent i \<longleftrightarrow> from_words (i_header i) (i_aux i) = Some i"
  by (auto simp: is_header_consistent_def split: option.splits)

lemma abc_with_aux_consistent [simp]: "is_header_consistent (abc_with_aux op a b c aux)"
  by (rule from_words_consistent) (rule from_words_abc_header)

lemma abc_consistent [simp]: "is_header_consistent (abc op a b c)"
  by (simp add: abc_eq_abc_with_aux)

lemma ad_consistent [simp]: "is_header_consistent (ad op a d)"
  by (rule from_words_consistent) (rule from_words_ad_header)

text \<open>A header is the disjoint union of its four bytes, so the views determine the word.\<close>

lemma header_is_abc_header:
  assumes "from_words h aux = Some i"
  shows "h = abc_header (i_opcode i) (i_a i) (i_b i) (i_c i)"
proof -
  from assms obtain op where op: "opcode_from_byte (ucast (h AND 0xff)) = Some op"
    and i: "i_opcode i = op" "i_a i = ucast (drop_bit 8 h AND 0xff)"
      "i_b i = ucast (drop_bit 16 h AND 0xff)" "i_c i = ucast (drop_bit 24 h AND 0xff)"
    by (auto simp: from_words_def split: option.splits)
  have byte: "opcode_byte op = ucast (h AND 0xff)"
    using opcode_byte_from_byte [OF op] .
  show ?thesis
  proof (rule bit_word_eqI)
    fix n assume "n < LENGTH(32)"
    then have "n < 8 \<or> (8 \<le> n \<and> n < 16) \<or> (16 \<le> n \<and> n < 24) \<or> (24 \<le> n \<and> n < 32)" by auto
    then show "bit h n = bit (abc_header (i_opcode i) (i_a i) (i_b i) (i_c i)) n"
      by (cases "bit h n"; elim disjE; simp add: i byte header_bits; arith)
  qed
qed

lemma ad_header_abc_header:
  "ad_header op a d = abc_header op a (ucast d) (ucast (drop_bit 8 d))"
proof (rule bit_word_eqI)
  fix n assume "n < LENGTH(32)"
  then have "n < 16 \<or> (16 \<le> n \<and> n < 24) \<or> (24 \<le> n \<and> n < 32)" by auto
  then show "bit (ad_header op a d) n = bit (abc_header op a (ucast d) (ucast (drop_bit 8 d))) n"
    by (auto simp: header_bits)
qed

lemma ad_eq_abc_with_aux: "ad op a d = abc_with_aux op a (ucast d) (ucast (drop_bit 8 d)) None"
  by (simp add: ad_def abc_with_aux_def ad_header_abc_header)

text \<open>The D view of a header whose B and C bytes are the two halves of a 16-bit operand.\<close>

lemma i_d_halves: "i_d (abc_with_aux op a (ucast d) (ucast (drop_bit 8 d)) aux) = d"
  by (simp add: abc_with_aux_def from_words_def bytes_of_ad_header flip: ad_header_abc_header)

lemma low_high_bytes:
  "(ucast (d AND 0xff) :: u8) = ucast (d :: u16)"
  "(ucast (drop_bit 8 d AND 0xff) :: u8) = ucast (drop_bit 8 (d :: u16))"
proof -
  have m: "(255 :: u16) = mask 8" by (simp add: mask_eq_exp_minus_1)
  show "(ucast (d AND 0xff) :: u8) = ucast d"
    "(ucast (drop_bit 8 d AND 0xff) :: u8) = ucast (drop_bit 8 d)"
    by (rule bit_word_eqI; auto simp: m bit_simps)+
qed

section \<open>Word offsets\<close>

text \<open>
  The word offset of instruction \<open>k\<close>, as an unbounded number: what the 32-bit running sum of the
  code holds as long as the code has fewer than \<open>2 ^ 32\<close> words.
\<close>

definition nat_word_len :: "instruction \<Rightarrow> nat" where
  "nat_word_len i = (if i_aux i = None then 1 else 2)"

definition nat_offset :: "instruction list \<Rightarrow> nat \<Rightarrow> nat" where
  "nat_offset code k = sum_list (map nat_word_len (take k code))"

abbreviation nat_words :: "instruction list \<Rightarrow> nat" where
  "nat_words code \<equiv> sum_list (map nat_word_len code)"

lemma word_len_of_nat: "word_len i = of_nat (nat_word_len i)"
  by (simp add: word_len_def nat_word_len_def)

lemma unat_word_len [simp]: "unat (word_len i) = nat_word_len i"
  by (simp add: word_len_def nat_word_len_def)

lemma nat_word_len_pos [simp]: "0 < nat_word_len i"
  by (simp add: nat_word_len_def)

lemma code_word_count_of_nat: "code_word_count code = of_nat (nat_words code)"
  by (induction code) (auto simp: code_word_count_def word_len_of_nat)

lemma unat_code_word_count: "nat_words code < 2 ^ 32 \<Longrightarrow> unat (code_word_count code) = nat_words code"
  by (simp add: code_word_count_of_nat unat_of_nat_eq)

lemma length_word_offsets_from [simp]: "length (word_offsets_from w code) = length code"
  by (induction code arbitrary: w) auto

lemma length_instruction_word_offsets [simp]:
  "length (instruction_word_offsets code) = length code"
  by (simp add: instruction_word_offsets_def)

lemma nat_offset_0 [simp]: "nat_offset code 0 = 0"
  by (simp add: nat_offset_def)

lemma nat_offset_Cons [simp]: "nat_offset (i # is) (Suc k) = nat_word_len i + nat_offset is k"
  by (simp add: nat_offset_def)

lemma nat_offset_length [simp]: "nat_offset code (length code) = nat_words code"
  by (simp add: nat_offset_def)

lemma nth_word_offsets_from:
  "k < length code \<Longrightarrow> word_offsets_from w code ! k = w + of_nat (nat_offset code k)"
proof (induction code arbitrary: w k)
  case Nil
  then show ?case by simp
next
  case (Cons i "is")
  then show ?case
    by (cases k) (simp_all add: word_len_of_nat add.assoc)
qed

lemma nth_instruction_word_offsets:
  "k < length code \<Longrightarrow> instruction_word_offsets code ! k = of_nat (nat_offset code k)"
  by (simp add: instruction_word_offsets_def nth_word_offsets_from)

lemma nat_offset_Suc:
  "k < length code \<Longrightarrow> nat_offset code (Suc k) = nat_offset code k + nat_word_len (code ! k)"
  by (simp add: nat_offset_def take_Suc_conv_app_nth)

lemma nat_offset_mono: "j \<le> k \<Longrightarrow> nat_offset code j \<le> nat_offset code k"
proof -
  assume "j \<le> k"
  then have "take k code = take j code @ take (k - j) (drop j code)"
    by (metis le_add_diff_inverse take_add)
  then show ?thesis by (simp add: nat_offset_def)
qed

lemma nat_offset_strict: "j < k \<Longrightarrow> k \<le> length code \<Longrightarrow> nat_offset code j < nat_offset code k"
proof -
  assume jk: "j < k" "k \<le> length code"
  then have "nat_offset code j < nat_offset code (Suc j)"
    by (simp add: nat_offset_Suc)
  also have "\<dots> \<le> nat_offset code k"
    using jk by (intro nat_offset_mono) simp
  finally show ?thesis .
qed

lemma nat_offset_inj:
  assumes "nat_offset code j = nat_offset code k" "j \<le> length code" "k \<le> length code"
  shows "j = k"
  using assms nat_offset_strict by (metis less_irrefl nat_neq_iff)

lemma nat_offset_less_words: "k < length code \<Longrightarrow> nat_offset code k < nat_words code"
  using nat_offset_strict [of k "length code" code] by simp

lemma unat_nth_offsets:
  assumes "nat_words code < 2 ^ 32" and "k < length code"
  shows "unat (instruction_word_offsets code ! k) = nat_offset code k"
proof -
  have "nat_offset code k < 2 ^ 32"
    using nat_offset_less_words [OF assms(2)] assms(1) by simp
  then show ?thesis
    by (simp add: nth_instruction_word_offsets [OF assms(2)] unat_of_nat_eq)
qed

lemma distinct_word_offsets:
  assumes "nat_words code < 2 ^ 32"
  shows "distinct (instruction_word_offsets code)"
  unfolding distinct_conv_nth length_instruction_word_offsets
proof (intro allI impI)
  fix j k assume jk: "j < length code" "k < length code" "j \<noteq> k"
  show "instruction_word_offsets code ! j \<noteq> instruction_word_offsets code ! k"
  proof
    assume "instruction_word_offsets code ! j = instruction_word_offsets code ! k"
    then have "nat_offset code j = nat_offset code k"
      using unat_nth_offsets [OF assms jk(1)] unat_nth_offsets [OF assms jk(2)] by simp
    with jk show False
      using nat_offset_inj by (metis less_imp_le)
  qed
qed

section \<open>Resolving jumps\<close>

lemma position_Some:
  "position P xs = Some k \<longleftrightarrow> k < length xs \<and> P (xs ! k) \<and> (\<forall>j<k. \<not> P (xs ! j))"
proof (induction xs arbitrary: k)
  case Nil
  then show ?case by simp
next
  case (Cons x xs)
  then show ?case
    by (cases k) (auto simp: All_less_Suc2)
qed

lemma position_None: "position P xs = None \<longleftrightarrow> (\<forall>x\<in>set xs. \<not> P x)"
  by (induction xs) auto

lemma position_distinct:
  assumes "distinct xs" "k < length xs"
  shows "position (\<lambda>x. x = xs ! k) xs = Some k"
proof -
  have "\<forall>j<k. xs ! j \<noteq> xs ! k"
    using assms nth_eq_iff_index_eq [OF assms(1)] by fastforce
  with assms(2) show ?thesis by (simp add: position_Some)
qed

lemma jump_index_iff:
  assumes "nat_words code < 2 ^ 32"
  shows "jump_target_instruction_index code j = Some k \<longleftrightarrow>
     j < length code \<and> k < length code \<and>
     jump_target_word (code ! j) (of_nat (nat_offset code j)) = Some (of_nat (nat_offset code k))"
proof -
  let ?os = "instruction_word_offsets code"
  have pos: "position (\<lambda>w. w = t) ?os = Some k \<longleftrightarrow> k < length code \<and> ?os ! k = t" for t
    using position_distinct [OF distinct_word_offsets [OF assms], of k]
    by (auto simp: position_Some)
  show ?thesis
    by (cases "j < length code")
      (auto simp: jump_target_instruction_index_def Let_def get_def pos
        nth_instruction_word_offsets split: option.splits)
qed

section \<open>Properties of instructions\<close>

text \<open>
  C39: The header and the pre-decoded operand views of an instruction carry the same information.
  An instruction is header-consistent exactly when it is what \<^verbatim>\<open>abc_with_aux\<close> builds from its own
  opcode, A, B, C and AUX fields, so a consistent instruction is determined by those five fields.
\<close>

theorem consistent_iff_rebuilt:
  "is_header_consistent i \<longleftrightarrow>
     abc_with_aux (i_opcode i) (i_a i) (i_b i) (i_c i) (i_aux i) = i"
proof
  assume "is_header_consistent i"
  then have *: "from_words (i_header i) (i_aux i) = Some i"
    by (simp add: is_header_consistent_iff)
  show "abc_with_aux (i_opcode i) (i_a i) (i_b i) (i_c i) (i_aux i) = i"
    using * header_is_abc_header [OF *] by (simp add: abc_with_aux_def)
next
  assume "abc_with_aux (i_opcode i) (i_a i) (i_b i) (i_c i) (i_aux i) = i"
  then show "is_header_consistent i"
    by (metis abc_with_aux_consistent)
qed

text \<open>
  Jump resolution is exact. In code of fewer than \<open>2 ^ 32\<close> words, the resolver returns
  instruction \<open>k\<close> if and only if the source instruction jumps and its target word is the word
  offset at which instruction \<open>k\<close> starts; an AUX word is never a target.
\<close>

theorem jump_resolution_exact:
  assumes "nat_words code < 2 ^ 32"
  shows "jump_target_instruction_index code j = Some k \<longleftrightarrow>
     j < length code \<and> k < length code \<and>
     jump_target_word (code ! j) (of_nat (nat_offset code j)) = Some (of_nat (nat_offset code k))"
  by (rule jump_index_iff [OF assms])

lemma jump_resolution_exact_witness:
  "jump_target_instruction_index
     [ad Op_LoadN 0 1, abc_with_aux Op_JumpIfEq 0 2 0 (Some 0), ad Op_LoadN 1 2, abc Op_Return 0 1 0] 1
   = Some 3"
proof -
  let ?code = "[ad Op_LoadN 0 1, abc_with_aux Op_JumpIfEq 0 2 0 (Some 0), ad Op_LoadN 1 2,
    abc Op_Return 0 1 0]"
  have small: "nat_words ?code < 2 ^ 32"
    by (simp add: nat_word_len_def)
  have d: "i_d (abc_with_aux Op_JumpIfEq 0 2 0 (Some 0)) = 2"
    using i_d_halves [of Op_JumpIfEq 0 2 "Some 0"] by simp
  show ?thesis
    unfolding jump_resolution_exact [OF small]
    by (simp add: nat_offset_def nat_word_len_def jump_target_word_def jump_offset_words_def d
        i32_from_i16_def numeral_2_eq_2 numeral_3_eq_3 nth_Cons')
qed

end
