(* ===== verification/Line_Info.thy ===== *)
theory Line_Info
  imports Prelude
begin

text \<open>
  Line-info packing of \<^verbatim>\<open>LineInfo\<close> in \<^verbatim>\<open>crates/ruau-bytecode/src/types.rs\<close>. Lines are grouped in
  spans of \<open>2 ^ log2_span\<close> instruction words; each span stores its smallest line as a baseline, and
  every word stores the difference of its 8-bit offset to the previous one. The encoder searches
  the largest span (at most \<open>2 ^ 24\<close>) in which every offset fits 8 bits.
\<close>

section \<open>The model\<close>

record line_info =
  log2_span :: u8
  delta_bytes :: bytes
  baseline_deltas :: "i32 list"

function log2_loop :: "nat \<Rightarrow> nat \<Rightarrow> nat" where
  "log2_loop v result =
     (if push_bit result 2 \<le> v then log2_loop v (result + 1) else result)"
  by pat_completeness auto
termination
proof (relation "measure (\<lambda>(v, result). v - result)")
  fix v result :: nat
  assume "push_bit result 2 \<le> v"
  then have "2 * 2 ^ result \<le> v" by (simp add: push_bit_eq_mult)
  moreover have "result < (2::nat) ^ result" by (rule less_exp)
  ultimately have "result < v" by linarith
  then show "((v, result + 1), v, result) \<in> measure (\<lambda>(v, result). v - result)"
    by simp
qed simp

declare log2_loop.simps [simp del]

definition line_info_log2 :: "nat \<Rightarrow> nat" where
  "line_info_log2 v = log2_loop v 0"

definition smin :: "i32 \<Rightarrow> i32 \<Rightarrow> i32" where
  "smin x y = (if sint x \<le> sint y then x else y)"

definition smax :: "i32 \<Rightarrow> i32 \<Rightarrow> i32" where
  "smax x y = (if sint x \<le> sint y then y else x)"

text \<open>The inner loop: how far from \<open>nxt\<close> the lines stay within 255 of each other.\<close>

function scan_span :: "i32 list \<Rightarrow> nat \<Rightarrow> nat \<Rightarrow> i32 \<Rightarrow> i32 \<Rightarrow> nat" where
  "scan_span lines limit nxt mn mx =
     (if nxt < length lines \<and> nxt < limit then
        let mn' = smin mn (lines ! nxt); mx' = smax mx (lines ! nxt) in
        if 255 < sint (mx' - mn') then nxt else scan_span lines limit (nxt + 1) mn' mx'
      else nxt)"
  by pat_completeness auto
termination
  by (relation "measure (\<lambda>(lines, limit, nxt, mn, mx). length lines - nxt)") auto

declare scan_span.simps [simp del]

text \<open>
  The outer loop. The code's \<^verbatim>\<open>span\<close> is always a power of two (\<^verbatim>\<open>1 << 24\<close> at first, then
  \<^verbatim>\<open>1 << line_info_log2(..)\<close>); the model carries its exponent \<open>k\<close>.
\<close>

function find_span :: "i32 list \<Rightarrow> nat \<Rightarrow> nat \<Rightarrow> nat" where
  "find_span lines k offset =
     (if offset < length lines then
        let nxt = scan_span lines (offset + 2 ^ k) offset (lines ! offset) (lines ! offset);
            k' = (if nxt < length lines \<and> nxt - offset < 2 ^ k
                  then line_info_log2 (nxt - offset) else k)
        in find_span lines k' (offset + 2 ^ k')
      else k)"
  by pat_completeness auto
termination
  by (relation "measure (\<lambda>(lines, k, offset). length lines - offset)") (auto simp: Let_def intro!: diff_less_mono2)

declare find_span.simps [simp del]

text \<open>\<^verbatim>\<open>slice::chunks\<close>, and the minimum of a non-empty chunk.\<close>

function chunks :: "nat \<Rightarrow> 'a list \<Rightarrow> 'a list list" where
  "chunks n xs = (if xs = [] \<or> n = 0 then [] else take n xs # chunks n (drop n xs))"
  by pat_completeness auto
termination
  by (relation "measure (\<lambda>(n, xs). length xs)") auto

declare chunks.simps [simp del]

fun chunk_min :: "i32 list \<Rightarrow> i32" where
  "chunk_min [] = 0"
| "chunk_min [x] = x"
| "chunk_min (x # xs) = smin x (chunk_min xs)"

fun pack_deltas :: "i32 list \<Rightarrow> nat \<Rightarrow> nat \<Rightarrow> u8 \<Rightarrow> i32 list \<Rightarrow> bytes" where
  "pack_deltas baselines k index last_offset [] = []"
| "pack_deltas baselines k index last_offset (line # lines) =
     (let baseline = baselines ! drop_bit k index; delta = (ucast (line - baseline) :: u8) in
      (delta - last_offset) # pack_deltas baselines k (index + 1) delta lines)"

fun pack_baselines :: "i32 \<Rightarrow> i32 list \<Rightarrow> i32 list" where
  "pack_baselines last_line [] = []"
| "pack_baselines last_line (b # bs) = (b - last_line) # pack_baselines b bs"

definition from_line_numbers :: "i32 list \<Rightarrow> line_info option" where
  "from_line_numbers lines =
     (if lines = [] then None
      else
        let k = find_span lines 24 0;
            span = 2 ^ k;
            log = line_info_log2 span;
            baselines = map chunk_min (chunks span lines)
        in Some \<lparr>log2_span = of_nat log,
                 delta_bytes = pack_deltas baselines (unat (of_nat log :: u8)) 0 0 lines,
                 baseline_deltas = pack_baselines 0 baselines\<rparr>)"

fun unpack_baselines :: "i32 \<Rightarrow> i32 list \<Rightarrow> i32 list" where
  "unpack_baselines baseline [] = []"
| "unpack_baselines baseline (d # ds) = (baseline + d) # unpack_baselines (baseline + d) ds"

text \<open>
  \<^verbatim>\<open>index >> usize::from(log2_span)\<close> on a 64-bit \<^verbatim>\<open>usize\<close>: the shift amount is taken modulo 64.
\<close>

fun unpack_lines :: "i32 list \<Rightarrow> u8 \<Rightarrow> nat \<Rightarrow> u8 \<Rightarrow> bytes \<Rightarrow> i32 list option" where
  "unpack_lines baselines log index last_offset [] = Some []"
| "unpack_lines baselines log index last_offset (byte # bs) =
     (case get baselines (drop_bit (unat log mod 64) index) of
        None \<Rightarrow> None
      | Some baseline \<Rightarrow>
          (let offset = last_offset + byte in
           map_option (\<lambda>lines. (baseline + ucast offset) # lines)
             (unpack_lines baselines log (index + 1) offset bs)))"

definition to_line_numbers :: "line_info \<Rightarrow> i32 list option" where
  "to_line_numbers li =
     unpack_lines (unpack_baselines 0 (baseline_deltas li)) (log2_span li) 0 0 (delta_bytes li)"

section \<open>Logarithm and scan\<close>

lemma log2_loop_bounds:
  "2 ^ result \<le> v \<Longrightarrow> 2 ^ log2_loop v result \<le> v \<and> v < 2 ^ Suc (log2_loop v result)"
proof (induction v result rule: log2_loop.induct)
  case (1 v result)
  show ?case
  proof (cases "push_bit result 2 \<le> v")
    case True
    then have "2 ^ (result + 1) \<le> v" by (simp add: push_bit_eq_mult mult.commute)
    with "1.IH" [OF True] True show ?thesis by (simp add: log2_loop.simps [of v result])
  next
    case False
    with "1.prems" show ?thesis
      by (simp add: log2_loop.simps [of v result] push_bit_eq_mult mult.commute)
  qed
qed

lemma line_info_log2_bounds:
  assumes "0 < v"
  shows "2 ^ line_info_log2 v \<le> v" and "v < 2 ^ Suc (line_info_log2 v)"
  using log2_loop_bounds [of 0 v] assms by (simp_all add: line_info_log2_def)

lemma line_info_log2_power [simp]: "line_info_log2 (2 ^ k) = k"
proof -
  let ?l = "line_info_log2 (2 ^ k)"
  have "(2::nat) ^ ?l \<le> 2 ^ k" "(2::nat) ^ k < 2 ^ Suc ?l"
    using line_info_log2_bounds [of "2 ^ k"] by simp_all
  then have "?l \<le> k" "k < Suc ?l"
    by (simp, metis one_less_numeral_iff power_strict_increasing_iff semiring_norm(76))
  then show ?thesis by simp
qed

lemma sint_smin [simp]: "sint (smin x y) = min (sint x) (sint y)"
  by (simp add: smin_def min_def)

lemma sint_smax [simp]: "sint (smax x y) = max (sint x) (sint y)"
  by (simp add: smax_def max_def)

lemma sint_i32_bounds: "- (2 ^ 31) \<le> sint (x :: i32)" "sint (x :: i32) < 2 ^ 31"
  using sint_ge [of x] sint_lt [of x] by simp_all

lemma sint_diff_nonneg:
  fixes x y :: i32
  assumes "0 \<le> sint x" "0 \<le> sint y"
  shows "sint (x - y) = sint x - sint y"
  using assms sint_i32_bounds(2) [of x] sint_i32_bounds(2) [of y]
  by (simp add: sint_word_ariths signed_take_bit_int_eq_self)

text \<open>All lines of one stretch lie within 255 of each other.\<close>

definition close :: "i32 list \<Rightarrow> nat \<Rightarrow> nat \<Rightarrow> bool" where
  "close lines i j \<longleftrightarrow> \<bar>sint (lines ! i) - sint (lines ! j)\<bar> \<le> 255"

lemma scan_span_ge: "nxt \<le> scan_span lines limit nxt mn mx"
proof (induction lines limit nxt mn mx rule: scan_span.induct)
  case (1 lines limit nxt mn mx)
  show ?case
    by (subst scan_span.simps) (use "1.IH" in \<open>force simp: Let_def\<close>)
qed

lemma scan_span_progress:
  assumes "offset < length lines" "offset < limit"
  shows "offset < scan_span lines limit offset (lines ! offset) (lines ! offset)"
proof -
  have "scan_span lines limit offset (lines ! offset) (lines ! offset) =
      scan_span lines limit (Suc offset) (lines ! offset) (lines ! offset)"
    using assms by (subst scan_span.simps) (simp add: Let_def smin_def smax_def)
  then show ?thesis
    using scan_span_ge [of "Suc offset"] by (simp add: Suc_le_lessD)
qed

lemma scan_span_close:
  assumes "\<forall>l \<in> set lines. 0 \<le> sint l"
    and "\<forall>i. offset \<le> i \<longrightarrow> i < nxt \<longrightarrow> sint mn \<le> sint (lines ! i) \<and> sint (lines ! i) \<le> sint mx"
    and "0 \<le> sint mn" "0 \<le> sint mx" "sint mx - sint mn \<le> 255" "nxt \<le> length lines"
    and "offset \<le> i" "i < scan_span lines limit nxt mn mx"
    and "offset \<le> j" "j < scan_span lines limit nxt mn mx"
  shows "close lines i j"
  using assms
proof (induction lines limit nxt mn mx rule: scan_span.induct)
  case (1 lines limit nxt mn mx)
  let ?mn = "smin mn (lines ! nxt)" and ?mx = "smax mx (lines ! nxt)"
  show ?case
  proof (cases "nxt < length lines \<and> nxt < limit \<and> \<not> 255 < sint (?mx - ?mn)")
    case True
    then have pos: "0 \<le> sint (lines ! nxt)" using "1.prems"(1) by simp
    have "sint (?mx - ?mn) = sint ?mx - sint ?mn"
      by (rule sint_diff_nonneg) (use pos "1.prems" in auto)
    moreover have "scan_span lines limit nxt mn mx = scan_span lines limit (nxt + 1) ?mn ?mx"
      using True by (subst scan_span.simps) (simp add: Let_def)
    moreover have "\<forall>i. offset \<le> i \<longrightarrow> i < nxt + 1 \<longrightarrow>
        sint ?mn \<le> sint (lines ! i) \<and> sint (lines ! i) \<le> sint ?mx"
      using "1.prems"(2) by (auto simp: less_Suc_eq min_le_iff_disj le_max_iff_disj)
    ultimately show ?thesis
      using True pos "1.prems" by (intro "1.IH" [OF _ refl refl]) auto
  next
    case False
    then have "scan_span lines limit nxt mn mx = nxt"
      by (subst scan_span.simps) (auto simp: Let_def)
    with "1.prems" have "offset \<le> i" "i < nxt" "offset \<le> j" "j < nxt" by simp_all
    with "1.prems"(2) have "sint mn \<le> sint (lines ! i)" "sint (lines ! i) \<le> sint mx"
      "sint mn \<le> sint (lines ! j)" "sint (lines ! j) \<le> sint mx" by blast+
    with "1.prems"(5) show ?thesis
      unfolding close_def by linarith
  qed
qed

section \<open>The chosen span\<close>

definition spans_close :: "i32 list \<Rightarrow> nat \<Rightarrow> nat \<Rightarrow> bool" where
  "spans_close lines k n \<longleftrightarrow>
     (\<forall>i j. i < length lines \<longrightarrow> j < length lines \<longrightarrow> i < n \<longrightarrow> j < n \<longrightarrow>
        i div 2 ^ k = j div 2 ^ k \<longrightarrow> close lines i j)"

lemma div_power_coarser: "(i :: nat) div 2 ^ k' = j div 2 ^ k' \<Longrightarrow> k' \<le> k \<Longrightarrow> i div 2 ^ k = j div 2 ^ k"
  by (metis div_mult2_eq le_add_diff_inverse power_add)

lemma spans_close_finer: "spans_close lines k n \<Longrightarrow> k' \<le> k \<Longrightarrow> spans_close lines k' n"
  unfolding spans_close_def using div_power_coarser by blast

lemma same_span_beyond:
  assumes "2 ^ k dvd offset" "offset \<le> i" "i div 2 ^ k = (j::nat) div 2 ^ k"
  shows "offset \<le> j"
proof -
  obtain q where q: "offset = 2 ^ k * q" using assms(1) by (elim dvdE)
  then have "q \<le> i div 2 ^ k"
    using assms(2) by (metis div_le_mono nonzero_mult_div_cancel_left power_not_zero zero_neq_numeral)
  then have "2 ^ k * q \<le> 2 ^ k * (j div 2 ^ k)" using assms(3) by simp
  also have "\<dots> \<le> j" by simp
  finally show ?thesis using q by simp
qed

lemma spans_close_extend:
  assumes inv: "spans_close lines k offset" and dvd: "2 ^ k dvd offset"
    and new: "\<And>i j. offset \<le> i \<Longrightarrow> i < offset + 2 ^ k \<Longrightarrow> i < length lines \<Longrightarrow>
        offset \<le> j \<Longrightarrow> j < offset + 2 ^ k \<Longrightarrow> j < length lines \<Longrightarrow> close lines i j"
  shows "spans_close lines k (offset + 2 ^ k)"
  unfolding spans_close_def
proof (intro allI impI)
  fix i j assume *: "i < length lines" "j < length lines" "i < offset + 2 ^ k" "j < offset + 2 ^ k"
    "i div 2 ^ k = j div 2 ^ k"
  show "close lines i j"
  proof (cases "offset \<le> i")
    case True
    with * dvd have "offset \<le> j" using same_span_beyond by blast
    with * True show ?thesis by (intro new)
  next
    case False
    then have "\<not> offset \<le> j" using * dvd same_span_beyond by metis
    with False * inv show ?thesis by (auto simp: spans_close_def)
  qed
qed

lemma find_span_step:
  assumes pos: "\<forall>l \<in> set lines. 0 \<le> sint l" and off: "offset < length lines"
    and inv: "spans_close lines k offset" and dvd: "2 ^ k dvd offset"
    and nxt: "nxt = scan_span lines (offset + 2 ^ k) offset (lines ! offset) (lines ! offset)"
    and k': "k' = (if nxt < length lines \<and> nxt - offset < 2 ^ k then line_info_log2 (nxt - offset) else k)"
  shows "spans_close lines k' (offset + 2 ^ k')" and "2 ^ k' dvd offset + 2 ^ k'" and "k' \<le> k"
proof -
  have prog: "offset < nxt"
    unfolding nxt by (rule scan_span_progress) (use off in auto)
  have close: "close lines i j" if "offset \<le> i" "i < nxt" "offset \<le> j" "j < nxt" for i j
    by (rule scan_span_close [OF pos, where offset = offset and nxt = offset and limit = "offset + 2 ^ k"
          and mn = "lines ! offset" and mx = "lines ! offset"])
      (use that off pos in \<open>auto simp: nxt\<close>)
  show le: "k' \<le> k"
  proof (cases "nxt < length lines \<and> nxt - offset < 2 ^ k")
    case True
    then have "(2::nat) ^ k' \<le> nxt - offset" "nxt - offset < 2 ^ k"
      using k' prog line_info_log2_bounds(1) [of "nxt - offset"] by simp_all
    then have "(2::nat) ^ k' < 2 ^ k" by (rule order_le_less_trans)
    then show ?thesis by simp
  qed (use k' in auto)
  have dvd': "2 ^ k' dvd offset"
    using dvd le by (meson dvd_trans le_imp_power_dvd)
  then show "2 ^ k' dvd offset + 2 ^ k'" by simp
  have reach: "i < nxt" if "i < offset + 2 ^ k'" "i < length lines" for i
  proof (cases "nxt < length lines \<and> nxt - offset < 2 ^ k")
    case True
    then show ?thesis
      using that k' prog line_info_log2_bounds(1) [of "nxt - offset"] by simp
  qed (use that k' prog in auto)
  show "spans_close lines k' (offset + 2 ^ k')"
    by (rule spans_close_extend [OF spans_close_finer [OF inv le] dvd']) (use reach close in blast)
qed

lemma find_span_close:
  assumes "\<forall>l \<in> set lines. 0 \<le> sint l" "spans_close lines k offset" "2 ^ k dvd offset"
  shows "spans_close lines (find_span lines k offset) (length lines) \<and> find_span lines k offset \<le> k"
  using assms
proof (induction lines k offset rule: find_span.induct)
  case (1 lines k offset)
  define nxt where "nxt = scan_span lines (offset + 2 ^ k) offset (lines ! offset) (lines ! offset)"
  define k' where "k' = (if nxt < length lines \<and> nxt - offset < 2 ^ k then line_info_log2 (nxt - offset) else k)"
  show ?case
  proof (cases "offset < length lines")
    case True
    note step = find_span_step [OF "1.prems"(1) True "1.prems"(2,3) nxt_def k'_def]
    have "spans_close lines (find_span lines k' (offset + 2 ^ k')) (length lines) \<and>
        find_span lines k' (offset + 2 ^ k') \<le> k'"
      using "1.IH" [OF True nxt_def k'_def] "1.prems" step by blast
    moreover have "find_span lines k offset = find_span lines k' (offset + 2 ^ k')"
      using True by (subst find_span.simps) (simp add: nxt_def k'_def Let_def)
    ultimately show ?thesis using step(3) by simp
  next
    case False
    with "1.prems" show ?thesis
      by (subst (1 2) find_span.simps) (auto simp: spans_close_def)
  qed
qed

section \<open>Baselines and deltas\<close>

lemma chunks_Nil [simp]: "chunks n [] = []"
  by (simp add: chunks.simps)

lemma length_chunks:
  "0 < n \<Longrightarrow> xs \<noteq> [] \<Longrightarrow> length (chunks n xs) = (length xs - 1) div n + 1"
proof (induction n xs rule: chunks.induct)
  case (1 n xs)
  then have l: "length (chunks n xs) = Suc (length (chunks n (drop n xs)))"
    by (simp add: chunks.simps [of n xs])
  show ?case
  proof (cases "n < length xs")
    case True
    then have "length (chunks n (drop n xs)) = (length xs - n - 1) div n + 1"
      using 1 by simp
    moreover have "(length xs - 1) div n = Suc ((length xs - n - 1) div n)"
      using True "1.prems" by (simp add: le_div_geq diff_right_commute)
    ultimately show ?thesis using l by simp
  next
    case False
    moreover have "length xs - 1 < n" using False "1.prems" by (cases xs) auto
    ultimately show ?thesis using l by simp
  qed
qed

lemma nth_chunks:
  "0 < n \<Longrightarrow> q < length (chunks n xs) \<Longrightarrow> chunks n xs ! q = take n (drop (q * n) xs)"
proof (induction n xs arbitrary: q rule: chunks.induct)
  case (1 n xs)
  then have ne: "xs \<noteq> []" by (auto simp: chunks.simps [of n xs])
  show ?case
  proof (cases q)
    case 0
    then show ?thesis using ne "1.prems" by (simp add: chunks.simps [of n xs])
  next
    case (Suc p)
    then have "p < length (chunks n (drop n xs))"
      using ne "1.prems" by (simp add: chunks.simps [of n xs])
    then show ?thesis
      using Suc ne 1 by (simp add: chunks.simps [of n xs] add.commute)
  qed
qed

lemma chunk_min_in: "xs \<noteq> [] \<Longrightarrow> chunk_min xs \<in> set xs"
  by (induction xs rule: chunk_min.induct) (auto simp: smin_def)

lemma chunk_min_le: "x \<in> set xs \<Longrightarrow> sint (chunk_min xs) \<le> sint x"
  by (induction xs rule: chunk_min.induct) auto

lemma baseline_bounds:
  assumes cl: "spans_close lines k (length lines)" and i: "i < length lines"
  defines "b \<equiv> map chunk_min (chunks (2 ^ k) lines) ! (i div 2 ^ k)"
  shows "i div 2 ^ k < length (chunks (2 ^ k) lines)"
    and "b \<in> set lines" and "sint b \<le> sint (lines ! i)" and "sint (lines ! i) - sint b \<le> 255"
proof -
  let ?n = "2 ^ k :: nat" and ?q = "i div 2 ^ k"
  let ?c = "take ?n (drop (?q * ?n) lines)"
  have start: "?q * ?n \<le> i" by simp
  have len: "?q * ?n \<le> length lines"
    by (rule order_trans [OF start]) (use i in simp)
  have "i - ?q * ?n < ?n"
    by (simp add: minus_div_mult_eq_mod)
  then have idx: "i = ?q * ?n + (i - ?q * ?n)" "i - ?q * ?n < ?n" using start by simp_all
  have "?q \<le> (length lines - 1) div ?n" using i by (intro div_le_mono) simp
  moreover have "lines \<noteq> []" using i by auto
  ultimately show q: "?q < length (chunks ?n lines)"
    by (simp add: length_chunks)
  have b: "b = chunk_min ?c"
    using q by (simp add: b_def nth_chunks)
  have in_c: "lines ! i \<in> set ?c"
  proof -
    have "?c ! (i - ?q * ?n) = lines ! (?q * ?n + (i - ?q * ?n))" "i - ?q * ?n < length ?c"
      using idx(2) i nth_drop [OF len] by (simp_all add: diff_less_mono)
    then have "?c ! (i - ?q * ?n) = lines ! i" "i - ?q * ?n < length ?c"
      using start by simp_all
    then show ?thesis by (metis nth_mem)
  qed
  then have "?c \<noteq> []" by auto
  then have "b \<in> set ?c" unfolding b by (rule chunk_min_in)
  then obtain m where m: "m < length ?c" "?c ! m = b" by (auto simp: in_set_conv_nth)
  let ?j = "?q * ?n + m"
  have j: "?j < length lines" "lines ! ?j = b" "m < ?n" using m by (auto simp: min_def split: if_splits)
  show "b \<in> set lines" using j nth_mem by metis
  show "sint b \<le> sint (lines ! i)" unfolding b using in_c by (rule chunk_min_le)
  have "?j div ?n = ?q" using j(3) by simp
  then have "close lines i ?j" using cl i j(1) by (auto simp: spans_close_def)
  then show "sint (lines ! i) - sint b \<le> 255" using j(2) by (simp add: close_def abs_le_iff)
qed

section \<open>Unpacking inverts packing\<close>

lemma unpack_pack_baselines [simp]: "unpack_baselines b (pack_baselines b bs) = bs"
  by (induction bs arbitrary: b) auto

lemma length_pack_baselines [simp]: "length (pack_baselines b bs) = length bs"
  by (induction bs arbitrary: b) auto

lemma length_pack_deltas [simp]: "length (pack_deltas bs k i o' lines) = length lines"
  by (induction lines arbitrary: i o') (auto simp: Let_def)

lemma ucast_small_delta:
  fixes x b :: i32
  assumes "0 \<le> sint b" "sint b \<le> sint x" "sint x - sint b \<le> 255"
  shows "b + ucast (ucast (x - b) :: u8) = x"
proof -
  have d: "sint (x - b) = sint x - sint b"
    using assms by (intro sint_diff_nonneg) auto
  have "uint (x - b) = take_bit 32 (sint x - sint b)"
    using uint_sint [of "x - b"] d by simp
  also have "\<dots> = sint x - sint b"
    using assms by (intro take_bit_int_eq_self) auto
  finally have "uint (x - b) = sint x - sint b" .
  then have "uint (x - b) < 256" using d assms by simp
  then have "(ucast (ucast (x - b) :: u8) :: i32) = x - b"
    by (simp add: word_uint_eq_iff unsigned_ucast_eq unsigned_take_bit_eq take_bit_int_eq_self)
  then show ?thesis by simp
qed

lemma unpack_pack_lines:
  assumes "k = unat log" "k < 64"
    and "\<And>j. j < length lines \<Longrightarrow> drop_bit k (index + j) < length bs"
    and "\<And>j. j < length lines \<Longrightarrow>
      bs ! drop_bit k (index + j) + ucast (ucast (lines ! j - bs ! drop_bit k (index + j)) :: u8) = lines ! j"
  shows "unpack_lines bs log index last_offset (pack_deltas bs k index last_offset lines) = Some lines"
  using assms(3,4)
proof (induction lines arbitrary: index last_offset)
  case Nil
  then show ?case by simp
next
  case (Cons l ls)
  have tl: "unpack_lines bs log (Suc index) o' (pack_deltas bs k (Suc index) o' ls) = Some ls" for o'
  proof (rule Cons.IH)
    fix j assume "j < length ls"
    then show "drop_bit k (Suc index + j) < length bs"
      using Cons.prems(1) [of "Suc j"] by simp
  next
    fix j assume "j < length ls"
    then show "bs ! drop_bit k (Suc index + j) +
        ucast (ucast (ls ! j - bs ! drop_bit k (Suc index + j)) :: u8) = ls ! j"
      using Cons.prems(2) [of "Suc j"] by simp
  qed
  show ?case
    using Cons.prems(1) [of 0] Cons.prems(2) [of 0] assms(1,2) tl
    by (simp add: Let_def get_def)
qed

section \<open>Properties of line info\<close>

lemma find_span_24:
  assumes "\<forall>l \<in> set lines. 0 \<le> sint l"
  shows "spans_close lines (find_span lines 24 0) (length lines)" and "find_span lines 24 0 \<le> 24"
  using find_span_close [OF assms, of 24 0] by (simp_all add: spans_close_def)

text \<open>The shape of packed line info.\<close>

lemma from_line_numbers_shape:
  assumes "from_line_numbers lines = Some li" and "\<forall>l \<in> set lines. 0 \<le> sint l"
  shows "log2_span li \<le> 24 \<and> length (delta_bytes li) = length lines \<and>
    length (baseline_deltas li) = drop_bit (unat (log2_span li)) (length lines - 1) + 1"
proof -
  let ?k = "find_span lines 24 0"
  have ne: "lines \<noteq> []" using assms(1) by (auto simp: from_line_numbers_def)
  have k24: "?k \<le> 24" by (rule find_span_24(2) [OF assms(2)])
  have k: "unat (of_nat ?k :: u8) = ?k" using k24 by (simp add: unat_of_nat_eq)
  from assms(1) have li: "log2_span li = of_nat ?k" "length (delta_bytes li) = length lines"
    "length (baseline_deltas li) = length (chunks (2 ^ ?k) lines)"
    using ne by (auto simp: from_line_numbers_def Let_def)
  then show ?thesis
    using k k24 ne by (simp add: length_chunks drop_bit_eq_div word_le_nat_alt)
qed

lemma to_from_line_numbers:
  assumes "lines \<noteq> []" and "\<forall>l \<in> set lines. 0 \<le> sint l"
  shows "\<exists>li. from_line_numbers lines = Some li \<and> to_line_numbers li = Some lines"
proof -
  let ?k = "find_span lines 24 0"
  let ?bs = "map chunk_min (chunks (2 ^ ?k) lines)"
  note close = find_span_24(1) [OF assms(2)] and k24 = find_span_24(2) [OF assms(2)]
  have k: "unat (of_nat ?k :: u8) = ?k"
    using k24 by (simp add: unat_of_nat_eq)
  have "unpack_lines ?bs (of_nat ?k) 0 0 (pack_deltas ?bs ?k 0 0 lines) = Some lines"
  proof (rule unpack_pack_lines)
    fix j assume j: "j < length lines"
    note b = baseline_bounds [OF close j]
    show "drop_bit ?k (0 + j) < length ?bs"
      using b(1) by (simp add: drop_bit_eq_div)
    have "0 \<le> sint (?bs ! (j div 2 ^ ?k))"
      using b(2) assms(2) by blast
    then show "?bs ! drop_bit ?k (0 + j) +
        ucast (ucast (lines ! j - ?bs ! drop_bit ?k (0 + j)) :: u8) = lines ! j"
      using ucast_small_delta b(3,4) by (simp add: drop_bit_eq_div)
  qed (use k k24 in simp_all)
  then show ?thesis
    using assms(1) k by (simp add: from_line_numbers_def to_line_numbers_def Let_def)
qed

text \<open>
  C32: Line info round-trips. For any non-empty list of non-negative lines the encoder returns a
  packed line info, and decoding it gives back exactly those lines: the span it searches is small
  enough for every 8-bit delta, so no line is truncated.
\<close>

theorem line_info_roundtrip:
  assumes "lines \<noteq> []" and "\<forall>l \<in> set lines. 0 \<le> sint l"
  shows "\<exists>li. from_line_numbers lines = Some li \<and> to_line_numbers li = Some lines"
  by (rule to_from_line_numbers [OF assms])

theorem line_info_roundtrip_witness:
  "\<exists>li. from_line_numbers [1, 2, 300, 301, 302] = Some li
     \<and> to_line_numbers li = Some [1, 2, 300, 301, 302]"
  by (rule line_info_roundtrip) simp_all

end
