(* ===== verification/Chunk.thy ===== *)
theory Chunk
  imports Instructions Line_Info
begin

text \<open>
  The structured representation of one serialized chunk (\<^verbatim>\<open>types.rs\<close>) and the version policy that
  the public and the fixture entry points share (\<^verbatim>\<open>version_policy.rs\<close>).
\<close>

section \<open>Chunk data\<close>

record userdata_type_mapping =
  type_index :: u8
  mapping_name :: u32

record table_entry =
  entry_key :: u32
  entry_value :: i32

record class_shape =
  class_name :: u32
  property_names :: "u32 list"
  method_names :: "u32 list"

datatype bc_constant =
    C_Nil
  | C_Boolean bool
  | C_Number u64
  | C_String u32
  | C_Import u32
  | C_Table "u32 list"
  | C_Closure u32
  | C_Vector u32 u32 u32 u32
  | C_VectorDouble u64 u64 u64 u64
  | C_TableWithConstants "table_entry list"
  | C_Integer i64
  | C_ClassShape class_shape

record debug_local =
  local_name :: u32
  start_pc :: u32
  end_pc :: u32
  local_register :: u8

record debug_info =
  debug_locals :: "debug_local list"
  debug_upvalues :: "u32 list"

record feedback_slot =
  slot_kind :: feedback_type
  slot_pc :: u32

record type_info =
  type_raw :: bytes

record proto =
  max_stack_size :: u8
  num_params :: u8
  num_upvalues :: u8
  is_vararg :: u8
  proto_flags :: u8
  proto_type_info :: type_info
  p_code :: "instruction list"
  p_constants :: "bc_constant list"
  p_child_protos :: "u32 list"
  line_defined :: u32
  debug_name :: u32
  proto_line_info :: "line_info option"
  proto_debug_info :: "debug_info option"
  p_feedback_slots :: "feedback_slot list"
  p_cost :: "u64 option"

record valid_chunk =
  bytecode_version :: u8
  type_version :: u8
  ch_strings :: "bytes list"
  ch_userdata_type_mappings :: "userdata_type_mapping list"
  ch_protos :: "proto list"
  ch_main_proto :: u32

datatype bytecode_chunk = Chunk_Valid valid_chunk | Chunk_Error bytes

section \<open>Version policy\<close>

definition DEFAULT_VERSION :: u8 where "DEFAULT_VERSION = 9"
definition FIXTURE_TOOLING_MAX_VERSION :: u8 where "FIXTURE_TOOLING_MAX_VERSION = 13"
definition FIXTURE_TOOLING_CLASS_VERSION :: u8 where "FIXTURE_TOOLING_CLASS_VERSION = 100"
definition DEFAULT_TYPE_VERSION :: u8 where "DEFAULT_TYPE_VERSION = 3"

lemmas version_consts =
  DEFAULT_VERSION_def FIXTURE_TOOLING_MAX_VERSION_def FIXTURE_TOOLING_CLASS_VERSION_def
  DEFAULT_TYPE_VERSION_def

datatype version_policy = Public | UpstreamFixture

fun accepts :: "version_policy \<Rightarrow> u8 \<Rightarrow> bool" where
  "accepts Public version = (version = DEFAULT_VERSION)"
| "accepts UpstreamFixture version =
     (DEFAULT_VERSION \<le> version \<and> version \<le> FIXTURE_TOOLING_MAX_VERSION
      \<or> version = FIXTURE_TOOLING_CLASS_VERSION)"

fun unsupported_version_message :: "version_policy \<Rightarrow> u8 \<Rightarrow> string" where
  "unsupported_version_message Public version =
     ''unsupported bytecode version '' @ show_word version
     @ ''; Ruau supports only current public bytecode version '' @ show_word DEFAULT_VERSION"
| "unsupported_version_message UpstreamFixture version =
     ''unsupported bytecode version '' @ show_word version
     @ ''; upstream fixture tooling accepts versions '' @ show_word DEFAULT_VERSION @ ''..=''
     @ show_word FIXTURE_TOOLING_MAX_VERSION @ '' and '' @ show_word FIXTURE_TOOLING_CLASS_VERSION"

lemma accepts_nonzero: "accepts p v \<Longrightarrow> v \<noteq> 0"
  by (cases p) (auto simp: version_consts)

lemma accepts_Public_fixture: "accepts Public v \<Longrightarrow> accepts UpstreamFixture v"
  by (simp add: version_consts)

end
