(* ===== verification/Wire.thy ===== *)
theory Wire
  imports Prelude
begin

text \<open>
  The byte cursor \<^verbatim>\<open>Reader\<close>, the byte sink \<^verbatim>\<open>Writer\<close> and the LEB128 varints of
  \<^verbatim>\<open>crates/ruau-bytecode/src/codec.rs\<close>, and the interface \<open>wire_format\<close> under which a pair of an
  encoder and a decoder is used by the sections of a chunk: reading what was written gives the
  value back and moves the cursor just behind it, whatever follows.
\<close>

section \<open>Reader\<close>

datatype decode_error = DecodeError string

record reader =
  rd_bytes :: bytes
  rd_offset :: nat

type_synonym 'a rd = "reader \<Rightarrow> decode_error + 'a \<times> reader"

definition reader_new :: "bytes \<Rightarrow> reader" where
  "reader_new bs = \<lparr>rd_bytes = bs, rd_offset = 0\<rparr>"

definition is_eof :: "reader \<Rightarrow> bool" where
  "is_eof r \<longleftrightarrow> rd_offset r = length (rd_bytes r)"

definition remaining :: "reader \<Rightarrow> nat" where
  "remaining r = length (rd_bytes r) - rd_offset r"

definition cap :: "reader \<Rightarrow> u32 \<Rightarrow> nat" where
  "cap r count = min (unat count) (remaining r)"

text \<open>The \<^verbatim>\<open>?\<close> operator: stop at the first error, else go on with the value and the moved cursor.\<close>

definition rbind :: "'a rd \<Rightarrow> ('a \<Rightarrow> 'b rd) \<Rightarrow> 'b rd" where
  "rbind m f r = (case m r of Inl e \<Rightarrow> Inl e | Inr (x, r') \<Rightarrow> f x r')"

definition rpure :: "'a \<Rightarrow> 'a rd" where
  "rpure x r = Inr (x, r)"

definition rfail :: "string \<Rightarrow> 'a rd" where
  "rfail msg r = Inl (DecodeError msg)"

definition rd_take :: "nat \<Rightarrow> string \<Rightarrow> bytes rd" where
  "rd_take len label r =
     (if remaining r < len then
        Inl (DecodeError (''unexpected end while reading '' @ label @ '': need '' @ show_nat len
          @ '' byte(s), have '' @ show_nat (remaining r)))
      else
        Inr (take len (drop (rd_offset r) (rd_bytes r)), r\<lparr>rd_offset := rd_offset r + len\<rparr>))"

definition rd_u8 :: "string \<Rightarrow> u8 rd" where
  "rd_u8 label = rbind (rd_take 1 label) (\<lambda>bs. rpure (bs ! 0))"

text \<open>\<^verbatim>\<open>uN::from_le_bytes\<close> and \<^verbatim>\<open>to_le_bytes\<close>.\<close>

fun from_le_bytes :: "bytes \<Rightarrow> 'a::len word" where
  "from_le_bytes [] = 0"
| "from_le_bytes (b # bs) = ucast b OR push_bit 8 (from_le_bytes bs)"

fun to_le_bytes :: "nat \<Rightarrow> 'a::len word \<Rightarrow> bytes" where
  "to_le_bytes 0 w = []"
| "to_le_bytes (Suc n) w = ucast w # to_le_bytes n (drop_bit 8 w)"

definition rd_u32 :: "string \<Rightarrow> u32 rd" where
  "rd_u32 label = rbind (rd_take 4 label) (\<lambda>bs. rpure (from_le_bytes bs))"

definition rd_i32 :: "string \<Rightarrow> i32 rd" where
  "rd_i32 label = rbind (rd_take 4 label) (\<lambda>bs. rpure (from_le_bytes bs))"

definition rd_u64 :: "string \<Rightarrow> u64 rd" where
  "rd_u64 label = rbind (rd_take 8 label) (\<lambda>bs. rpure (from_le_bytes bs))"

definition VARINT_PAYLOAD_MASK :: u8 where "VARINT_PAYLOAD_MASK = 0x7f"
definition VARINT_CONTINUATION_BIT :: u8 where "VARINT_CONTINUATION_BIT = 0x80"

function var_u64_loop :: "string \<Rightarrow> u64 \<Rightarrow> nat \<Rightarrow> u64 rd" where
  "var_u64_loop label result shift r =
     (if 64 \<le> shift then Inl (DecodeError (label @ '' varint is too large''))
      else
        (case rd_u8 label r of
           Inl e \<Rightarrow> Inl e
         | Inr (byte, r') \<Rightarrow>
             (let result' = result OR push_bit shift (ucast (byte AND VARINT_PAYLOAD_MASK)) in
              if byte AND VARINT_CONTINUATION_BIT = 0 then Inr (result', r')
              else var_u64_loop label result' (shift + 7) r')))"
  by pat_completeness auto
termination
  by (relation "measure (\<lambda>(label, result, shift, r). 64 - shift)") auto

declare var_u64_loop.simps [simp del]

definition rd_var_u64 :: "string \<Rightarrow> u64 rd" where
  "rd_var_u64 label = var_u64_loop label 0 0"

definition rd_var_u32 :: "string \<Rightarrow> u32 rd" where
  "rd_var_u32 label =
     rbind (rd_var_u64 label) (\<lambda>v.
       case u32_try_from_u64 v of
         Some w \<Rightarrow> rpure w
       | None \<Rightarrow> rfail (label @ '' varint '' @ show_word v @ '' overflows u32''))"

text \<open>
  \<^verbatim>\<open>for index in 0..count { items.push(read(reader, index)?); }\<close>, where most readers do not look at
  the index.
\<close>

fun rd_list_idx :: "nat \<Rightarrow> nat \<Rightarrow> (nat \<Rightarrow> 'a rd) \<Rightarrow> 'a list rd" where
  "rd_list_idx index 0 p = rpure []"
| "rd_list_idx index (Suc n) p =
     rbind (p index) (\<lambda>x. rbind (rd_list_idx (Suc index) n p) (\<lambda>xs. rpure (x # xs)))"

definition rd_list :: "nat \<Rightarrow> 'a rd \<Rightarrow> 'a list rd" where
  "rd_list n p = rd_list_idx 0 n (\<lambda>_. p)"

section \<open>Writer\<close>

type_synonym writer = bytes

definition w_bytes :: "bytes \<Rightarrow> writer \<Rightarrow> writer" where
  "w_bytes bs w = w @ bs"

definition w_u8 :: "u8 \<Rightarrow> writer \<Rightarrow> writer" where
  "w_u8 v w = w @ [v]"

definition w_u32 :: "u32 \<Rightarrow> writer \<Rightarrow> writer" where
  "w_u32 v w = w @ to_le_bytes 4 v"

definition w_i32 :: "i32 \<Rightarrow> writer \<Rightarrow> writer" where
  "w_i32 v w = w @ to_le_bytes 4 v"

definition w_u64 :: "u64 \<Rightarrow> writer \<Rightarrow> writer" where
  "w_u64 v w = w @ to_le_bytes 8 v"

definition varint_byte :: "u64 \<Rightarrow> u8" where
  "varint_byte v =
     ucast (v AND ucast VARINT_PAYLOAD_MASK)
     OR push_bit 7 (if v > ucast VARINT_PAYLOAD_MASK then 1 else 0)"

function write_varint :: "writer \<Rightarrow> u64 \<Rightarrow> writer" where
  "write_varint w v =
     (let w' = w @ [varint_byte v]; v' = drop_bit 7 v in
      if v' = 0 then w' else write_varint w' v')"
  by pat_completeness auto
termination
proof (relation "measure (\<lambda>(w, v). unat v)")
  fix w v and w' :: writer and v' :: u64
  assume v': "v' = drop_bit 7 v" and "v' \<noteq> 0"
  then have "unat v' \<noteq> 0" by (simp add: unat_eq_zero)
  moreover have "unat v' = drop_bit 7 (unat v)"
    unfolding v' by (rule unat_drop_bit_eq)
  ultimately have "unat v' = unat v div 128" "unat v' \<noteq> 0"
    by (simp_all add: drop_bit_eq_div)
  then have "unat v' < unat v" by (simp add: div_eq_0_iff)
  then show "((w', v'), w, v) \<in> measure (\<lambda>(w, v). unat v)" by simp
qed simp

declare write_varint.simps [simp del]

definition w_var_u64 :: "u64 \<Rightarrow> writer \<Rightarrow> writer" where
  "w_var_u64 v w = write_varint w v"

text \<open>\<^verbatim>\<open>items.len() as u64\<close> and \<^verbatim>\<open>u32 as u64\<close> before a varint.\<close>

definition w_len :: "'a list \<Rightarrow> writer \<Rightarrow> writer" where
  "w_len xs w = w_var_u64 (of_nat (length xs)) w"

definition w_var_u32 :: "u32 \<Rightarrow> writer \<Rightarrow> writer" where
  "w_var_u32 v w = w_var_u64 (ucast v) w"

text \<open>A run of writer calls, in order.\<close>

definition w_all :: "(writer \<Rightarrow> writer) list \<Rightarrow> writer \<Rightarrow> writer" where
  "w_all steps w = fold (\<lambda>step. step) steps w"

section \<open>The cursor as the bytes still unread\<close>

definition rest :: "reader \<Rightarrow> bytes" where
  "rest r = drop (rd_offset r) (rd_bytes r)"

definition advance :: "nat \<Rightarrow> reader \<Rightarrow> reader" where
  "advance n r = r\<lparr>rd_offset := rd_offset r + n\<rparr>"

lemma rest_advance [simp]: "rest (advance n r) = drop n (rest r)"
  by (simp add: rest_def advance_def add.commute)

lemma advance_advance [simp]: "advance n (advance m r) = advance (m + n) r"
  by (simp add: advance_def add.assoc)

lemma advance_0 [simp]: "advance 0 r = r"
  by (simp add: advance_def)

lemma length_rest [simp]: "length (rest r) = remaining r"
  by (simp add: rest_def remaining_def)

lemma rest_new [simp]: "rest (reader_new bs) = bs"
  by (simp add: rest_def reader_new_def)

lemma rd_take_eq:
  "rd_take len label r =
     (if remaining r < len then
        Inl (DecodeError (''unexpected end while reading '' @ label @ '': need '' @ show_nat len
          @ '' byte(s), have '' @ show_nat (remaining r)))
      else Inr (take len (rest r), advance len r))"
  by (simp add: rd_take_def rest_def advance_def)

lemma rd_take_append:
  "rest r = bs @ ys \<Longrightarrow> rd_take (length bs) label r = Inr (bs, advance (length bs) r)"
  by (simp add: rd_take_eq flip: length_rest)

lemma rbind_Inr [simp]: "m r = Inr (x, r') \<Longrightarrow> rbind m f r = f x r'"
  by (simp add: rbind_def)

lemma rpure_apply: "rpure x r = Inr (x, r)"
  by (simp add: rpure_def)

lemma rfail_apply: "rfail msg r = Inl (DecodeError msg)"
  by (simp add: rfail_def)

lemma rbind_eq_Inr: "rbind m f r = Inr (y, r'') \<longleftrightarrow> (\<exists>x r'. m r = Inr (x, r') \<and> f x r' = Inr (y, r''))"
  by (auto simp: rbind_def split: sum.splits)

section \<open>Two judgements on readers\<close>

text \<open>
  \<open>parses p bs x\<close>: in front of the bytes \<open>bs\<close>, whatever follows them, \<open>p\<close> returns \<open>x\<close> and moves the
  cursor just behind \<open>bs\<close>.

  \<open>yields p Q\<close>: on an input of fewer than \<open>2 ^ 32\<close> unread bytes, whenever \<open>p\<close> returns a value, the
  cursor has moved forward within the input, and the value and the number of bytes consumed
  satisfy \<open>Q\<close>.
\<close>

definition parses :: "'a rd \<Rightarrow> bytes \<Rightarrow> 'a \<Rightarrow> bool" where
  "parses p bs x \<longleftrightarrow> (\<forall>r ys. rest r = bs @ ys \<longrightarrow> p r = Inr (x, advance (length bs) r))"

definition yields :: "'a rd \<Rightarrow> ('a \<Rightarrow> nat \<Rightarrow> bool) \<Rightarrow> bool" where
  "yields p Q \<longleftrightarrow>
     (\<forall>r x r'. remaining r < 2 ^ 32 \<longrightarrow> p r = Inr (x, r') \<longrightarrow>
        (\<exists>n \<le> remaining r. r' = advance n r \<and> Q x n))"

lemma remaining_advance [simp]: "remaining (advance n r) = remaining r - n"
  by (simp add: remaining_def advance_def)

lemma parsesI: "(\<And>r ys. rest r = bs @ ys \<Longrightarrow> p r = Inr (x, advance (length bs) r)) \<Longrightarrow> parses p bs x"
  by (auto simp: parses_def)

lemma parsesD: "parses p bs x \<Longrightarrow> rest r = bs @ ys \<Longrightarrow> p r = Inr (x, advance (length bs) r)"
  by (auto simp: parses_def)

lemma parses_pure: "parses (rpure x) [] x"
  by (simp add: parses_def rpure_apply)

lemma parses_bind: "parses m bs x \<Longrightarrow> parses (f x) bs' y \<Longrightarrow> parses (rbind m f) (bs @ bs') y"
  by (fastforce simp: parses_def)

lemma parses_bind_end: "parses m bs x \<Longrightarrow> parses (f x) [] y \<Longrightarrow> parses (rbind m f) bs y"
  using parses_bind [of m bs x f "[]" y] by simp

lemma yieldsI:
  assumes "\<And>r x r'. remaining r < 2 ^ 32 \<Longrightarrow> p r = Inr (x, r') \<Longrightarrow>
    \<exists>n \<le> remaining r. r' = advance n r \<and> Q x n"
  shows "yields p Q"
  unfolding yields_def using assms by blast

lemma yieldsD:
  assumes "yields p Q" "remaining r < 2 ^ 32" "p r = Inr (x, r')"
  obtains n where "n \<le> remaining r" "r' = advance n r" "Q x n"
  using assms unfolding yields_def by blast

lemma yields_pure: "Q x 0 \<Longrightarrow> yields (rpure x) Q"
  by (auto simp: yields_def rpure_apply intro: exI [of _ 0])

lemma yields_fail: "yields (rfail msg) Q"
  by (simp add: yields_def rfail_apply)

lemma yields_bind:
  assumes m: "yields m P" and f: "\<And>x n. P x n \<Longrightarrow> yields (f x) (\<lambda>y n'. Q y (n + n'))"
  shows "yields (rbind m f) Q"
proof (rule yieldsI)
  fix r y r'' assume r: "remaining r < 2 ^ 32" and run: "rbind m f r = Inr (y, r'')"
  then obtain x r' where x: "m r = Inr (x, r')" and y: "f x r' = Inr (y, r'')"
    by (auto simp: rbind_eq_Inr)
  from yieldsD [OF m r x] obtain n where n: "n \<le> remaining r" "r' = advance n r" "P x n" .
  then have r': "remaining r' < 2 ^ 32" using r by simp
  from yieldsD [OF f [OF n(3)] r' y] obtain n' where "n' \<le> remaining r'" "r'' = advance n' r'" "Q y (n + n')" .
  with n show "\<exists>n \<le> remaining r. r'' = advance n r \<and> Q y n"
    by (auto intro!: exI [of _ "n + n'"])
qed

lemma yields_mono: "yields p P \<Longrightarrow> (\<And>x n. P x n \<Longrightarrow> Q x n) \<Longrightarrow> yields p Q"
  unfolding yields_def by blast

section \<open>The interface of a wire section\<close>

locale wire_format =
  fixes enc :: "'a \<Rightarrow> writer \<Rightarrow> writer"
    and dec :: "'a rd"
    and fits :: "'a \<Rightarrow> bool"
  assumes enc_append: "enc x w = w @ enc x []"
    and dec_enc: "fits x \<Longrightarrow> parses dec (enc x []) x"
    and dec_sound: "yields dec (\<lambda>x n. fits x \<and> length (enc x []) \<le> n)"

locale indexed_wire_format =
  fixes enc :: "'a \<Rightarrow> writer \<Rightarrow> writer"
    and dec :: "nat \<Rightarrow> 'a rd"
    and fits :: "'a \<Rightarrow> bool"
  assumes at_index: "wire_format enc (dec i) fits"
begin

lemma fold_enc_append: "fold enc xs w = w @ fold enc xs []"
proof (induction xs arbitrary: w)
  case Nil
  then show ?case by simp
next
  case (Cons x xs)
  have "fold enc xs (enc x w) = (w @ enc x []) @ fold enc xs []"
    using Cons [of "enc x w"] wire_format.enc_append [OF at_index, of x w] by simp
  moreover have "fold enc xs (enc x []) = enc x [] @ fold enc xs []"
    by (rule Cons)
  ultimately show ?case by simp
qed

lemma fold_enc_Cons: "fold enc (x # xs) [] = enc x [] @ fold enc xs []"
  using fold_enc_append [of xs "enc x []"] by simp

lemma rd_list_idx_enc:
  "\<forall>x \<in> set xs. fits x \<Longrightarrow> parses (rd_list_idx i (length xs) dec) (fold enc xs []) xs"
proof (induction xs arbitrary: i)
  case Nil
  then show ?case by (simp add: parses_pure)
next
  case (Cons x xs)
  then have x: "parses (dec i) (enc x []) x"
    by (intro wire_format.dec_enc [OF at_index]) simp
  have xs: "parses (rd_list_idx (Suc i) (length xs) dec) (fold enc xs []) xs"
    using Cons by simp
  show ?case
    unfolding fold_enc_Cons length_Cons rd_list_idx.simps
    by (rule parses_bind [OF x parses_bind_end [OF xs parses_pure]])
qed

lemma rd_list_idx_sound:
  "yields (rd_list_idx i n dec)
     (\<lambda>xs k. length xs = n \<and> (\<forall>x \<in> set xs. fits x) \<and> length (fold enc xs []) \<le> k)"
proof (induction n arbitrary: i)
  case 0
  then show ?case by (simp add: yields_pure)
next
  case (Suc n)
  show ?case
    unfolding rd_list_idx.simps
    by (intro yields_bind [OF wire_format.dec_sound [OF at_index]] yields_bind [OF Suc] yields_pure)
      (auto simp: fold_enc_append [of _ "enc _ []"])
qed

end

sublocale wire_format \<subseteq> indexed: indexed_wire_format enc "\<lambda>_. dec" fits
  by unfold_locales (rule enc_append, erule dec_enc, rule dec_sound)

context wire_format
begin

lemma rd_list_enc: "\<forall>x \<in> set xs. fits x \<Longrightarrow> parses (rd_list (length xs) dec) (fold enc xs []) xs"
  unfolding rd_list_def by (rule indexed.rd_list_idx_enc)

lemma rd_list_sound:
  "yields (rd_list n dec)
     (\<lambda>xs k. length xs = n \<and> (\<forall>x \<in> set xs. fits x) \<and> length (fold enc xs []) \<le> k)"
  unfolding rd_list_def by (rule indexed.rd_list_idx_sound)

end

section \<open>Little-endian words and varints round-trip\<close>

lemma length_to_le_bytes [simp]: "length (to_le_bytes n w) = n"
  by (induction n arbitrary: w) auto

lemma from_to_le_bytes: "from_le_bytes (to_le_bytes n w) = take_bit (8 * n) (w :: 'a::len word)"
proof (induction n arbitrary: w)
  case 0
  then show ?case by simp
next
  case (Suc n)
  have "ucast (ucast w :: u8) OR push_bit 8 (take_bit (8 * n) (drop_bit 8 w)) = take_bit (8 * Suc n) w"
  proof (rule bit_word_eqI)
    fix m assume "m < LENGTH('a)"
    then show "bit (ucast (ucast w :: u8) OR push_bit 8 (take_bit (8 * n) (drop_bit 8 w))) m
        = bit (take_bit (8 * Suc n) w) m"
      by (cases "m < 8") (auto simp: bit_simps)
  qed
  with Suc show ?case by simp
qed

lemma take_bit_full [simp]: "take_bit 32 (w :: u32) = w" "take_bit 64 (v :: u64) = v"
  by (rule bit_word_eqI; simp add: bit_simps)+

lemma write_varint_prefix: "write_varint (u @ w) v = u @ write_varint w v"
proof (induction w v rule: write_varint.induct)
  case (1 w v)
  show ?case
    using "1.IH" [OF refl refl]
    by (cases "drop_bit 7 v = 0") (simp_all add: write_varint.simps [of _ v] Let_def)
qed

lemma write_varint_append: "write_varint w v = w @ write_varint [] v"
  using write_varint_prefix [of w "[]" v] by simp

lemma write_varint_Nil:
  "write_varint [] v =
     varint_byte v # (if drop_bit 7 v = 0 then [] else write_varint [] (drop_bit 7 v))"
  using write_varint_append [of "[varint_byte v]"]
  by (subst write_varint.simps) (simp add: Let_def)

lemma mask7: "(0x7f :: u8) = mask 7" "(0x7f :: u64) = mask 7"
  by (simp_all add: mask_eq_exp_minus_1)

lemma above_mask7: "(v :: u64) > 0x7f \<longleftrightarrow> drop_bit 7 v \<noteq> 0"
proof -
  have "drop_bit 7 v = 0 \<longleftrightarrow> unat v div 128 = 0"
    using unat_drop_bit_eq [of 7 v] by (simp add: drop_bit_eq_div flip: unat_eq_zero)
  also have "\<dots> \<longleftrightarrow> \<not> v > 0x7f"
    by (simp add: div_eq_0_iff word_less_nat_alt) linarith
  finally show ?thesis by blast
qed

lemma varint_byte_parts:
  "ucast (varint_byte v AND VARINT_PAYLOAD_MASK) = (v AND mask 7)"
  "varint_byte v AND VARINT_CONTINUATION_BIT = 0 \<longleftrightarrow> drop_bit 7 v = 0"
proof -
  have u: "ucast VARINT_PAYLOAD_MASK = (0x7f :: u64)" by (simp add: VARINT_PAYLOAD_MASK_def)
  show "ucast (varint_byte v AND VARINT_PAYLOAD_MASK) = (v AND mask 7)"
    by (rule bit_word_eqI)
      (auto simp: varint_byte_def VARINT_PAYLOAD_MASK_def mask7 bit_simps split: if_splits)
  have "VARINT_CONTINUATION_BIT = 2 ^ 7" by (simp add: VARINT_CONTINUATION_BIT_def)
  then have "varint_byte v AND VARINT_CONTINUATION_BIT = 0 \<longleftrightarrow> \<not> bit (varint_byte v) 7"
    by (metis and_exp_eq_0_iff_not_bit)
  also have "\<dots> \<longleftrightarrow> \<not> v > 0x7f"
    unfolding varint_byte_def u by (simp add: mask7 bit_simps)
  finally show "varint_byte v AND VARINT_CONTINUATION_BIT = 0 \<longleftrightarrow> drop_bit 7 v = 0"
    using above_mask7 [of v] by blast
qed

lemma rd_u8_Cons: "rest r = b # ys \<Longrightarrow> rd_u8 label r = Inr (b, advance 1 r)"
  using rd_take_append [of r "[b]" ys label] by (simp add: rd_u8_def rpure_apply)

lemma low7_high: "push_bit s (v AND mask 7) OR push_bit (s + 7) (drop_bit 7 v) = push_bit s (v :: u64)"
proof -
  have "(v AND mask 7) OR push_bit 7 (drop_bit 7 v) = v"
  proof (rule bit_word_eqI)
    fix n show "bit ((v AND mask 7) OR push_bit 7 (drop_bit 7 v)) n = bit v n" if "n < LENGTH(64)"
      using that by (cases "n < 7") (auto simp: bit_simps)
  qed
  then have "push_bit s ((v AND mask 7) OR push_bit 7 (drop_bit 7 v)) = push_bit s v" by simp
  then show ?thesis by (simp add: push_bit_or add.commute)
qed

lemma var_u64_loop_enc:
  assumes "unat v < 2 ^ (64 - shift)" "shift < 64" "rest r = write_varint [] v @ ys"
  shows "var_u64_loop label result shift r =
    Inr (result OR push_bit shift v, advance (length (write_varint [] v)) r)"
  using assms
proof (induction "unat v" arbitrary: v result shift r rule: less_induct)
  case less
  let ?v = "drop_bit 7 v" and ?b = "varint_byte v"
  have read: "rd_u8 label r = Inr (?b, advance 1 r)"
    by (rule rd_u8_Cons [of _ _ "(if ?v = 0 then [] else write_varint [] ?v) @ ys"])
      (use less.prems(3) in \<open>simp add: write_varint_Nil [of v]\<close>)
  show ?case
  proof (cases "?v = 0")
    case True
    then have "(v AND mask 7) = v"
      using low7_high [of 0 v] by simp
    with True less.prems(2) read show ?thesis
      by (simp add: var_u64_loop.simps [of _ _ _ r] write_varint_Nil [of v] varint_byte_parts)
  next
    case False
    have uv: "unat ?v = unat v div 128"
      using unat_drop_bit_eq [of 7 v] by (simp add: drop_bit_eq_div)
    have pos: "0 < unat ?v" using False by (simp add: unat_gt_0)
    have "128 \<le> unat v"
      using pos uv by (simp add: div_greater_zero_iff)
    with less.prems(1) have big: "(128::nat) < 2 ^ (64 - shift)" by simp
    then have s7: "7 < 64 - shift"
      using power_less_imp_less_exp [of "2::nat" 7 "64 - shift"] by simp
    have "64 - shift = 7 + (64 - (shift + 7))" using s7 by simp
    then have "(2::nat) ^ (64 - shift) = 2 ^ 7 * 2 ^ (64 - (shift + 7))"
      by (metis power_add)
    then have fit: "unat ?v < 2 ^ (64 - (shift + 7))"
      using uv less.prems(1) by (simp add: less_mult_imp_div_less mult.commute)
    have rest': "rest (advance 1 r) = write_varint [] ?v @ ys"
      using less.prems(3) False by (simp add: write_varint_Nil [of v])
    have "var_u64_loop label result shift r =
        var_u64_loop label (result OR push_bit shift (v AND mask 7)) (shift + 7) (advance 1 r)"
      using less.prems(2) read False
      by (simp add: var_u64_loop.simps [of _ _ shift r] varint_byte_parts)
    also have "\<dots> = Inr ((result OR push_bit shift (v AND mask 7)) OR push_bit (shift + 7) ?v,
        advance (length (write_varint [] ?v)) (advance 1 r))"
      using fit s7 rest' uv pos by (intro less.hyps) auto
    finally show ?thesis
      using False low7_high [of shift v] by (simp add: write_varint_Nil [of v] or.assoc)
  qed
qed

section \<open>The primitive sections\<close>

lemma parses_take: "parses (rd_take (length bs) label) bs bs"
  by (rule parsesI) (rule rd_take_append)

lemma yields_take: "yields (rd_take n label) (\<lambda>bs k. length bs = n \<and> k = n)"
  by (auto simp: yields_def rd_take_eq not_less split: if_splits)

lemma rd_u32_progress: "rd_u32 label r = Inr (b, r') \<Longrightarrow> 4 \<le> remaining r \<and> r' = advance 4 r"
  by (auto simp: rd_u32_def rbind_eq_Inr rd_take_eq rpure_apply split: if_splits)

lemma rd_u8_progress: "rd_u8 label r = Inr (b, r') \<Longrightarrow> 1 \<le> remaining r \<and> r' = advance 1 r"
  by (auto simp: rd_u8_def rbind_eq_Inr rd_take_eq rpure_apply split: if_splits)

text \<open>A varint of \<open>n\<close> bytes carries at most \<open>7 * n\<close> bits, so the writer needs no more bytes for it.\<close>

lemma length_write_varint:
  "\<forall>m \<ge> 7 * n. \<not> bit v m \<Longrightarrow> 0 < n \<Longrightarrow> length (write_varint [] v) \<le> n"
proof (induction n arbitrary: v)
  case (Suc n)
  have zero: "drop_bit 7 v = 0" if "n = 0"
    using that Suc.prems(1) by (intro bit_word_eqI) (simp add: bit_simps)
  show ?case
  proof (cases "n = 0")
    case True
    with zero show ?thesis by (simp add: write_varint_Nil [of v])
  next
    case False
    have "\<forall>m \<ge> 7 * n. \<not> bit (drop_bit 7 v) m" using Suc.prems(1) by (auto simp: bit_simps)
    with Suc.IH [of "drop_bit 7 v"] False show ?thesis by (simp add: write_varint_Nil [of v])
  qed
qed simp

lemma var_u64_loop_sound:
  assumes "var_u64_loop label result shift r = Inr (v, r')" "\<forall>m \<ge> shift. \<not> bit result m"
  shows "\<exists>n \<le> remaining r. r' = advance n r \<and> 0 < n \<and> (\<forall>m \<ge> shift + 7 * n. \<not> bit v m)"
  using assms
proof (induction label result shift r rule: var_u64_loop.induct)
  case (1 label result shift r)
  then obtain b r1 where b: "\<not> 64 \<le> shift" "rd_u8 label r = Inr (b, r1)"
    by (subst (asm) (2) var_u64_loop.simps) (auto split: if_splits sum.splits)
  from rd_u8_progress [OF b(2)] have r1: "1 \<le> remaining r" "r1 = advance 1 r" by simp_all
  let ?result = "result OR push_bit shift (ucast (b AND VARINT_PAYLOAD_MASK))"
  have bits: "\<forall>m \<ge> shift + 7. \<not> bit ?result m"
    using "1.prems"(2) by (auto simp: VARINT_PAYLOAD_MASK_def mask7 bit_simps)
  show ?case
  proof (cases "b AND VARINT_CONTINUATION_BIT = 0")
    case True
    then have "v = ?result" "r' = r1"
      using "1.prems"(1) b by (simp_all add: var_u64_loop.simps [of _ _ shift r] Let_def)
    with r1 bits show ?thesis by (intro exI [of _ 1]) auto
  next
    case False
    have "var_u64_loop label ?result (shift + 7) r1 = Inr (v, r')"
      using "1.prems"(1) b False by (simp add: var_u64_loop.simps [of _ _ shift r] Let_def)
    from "1.IH" [OF b refl refl False this bits] obtain n where
      "n \<le> remaining r1" "r' = advance n r1" "\<forall>m \<ge> shift + 7 + 7 * n. \<not> bit v m" by blast
    with r1 show ?thesis by (intro exI [of _ "1 + n"]) (auto simp: algebra_simps)
  qed
qed

lemma rd_var_u64_sound:
  assumes "rd_var_u64 label r = Inr (v, r')"
  shows "\<exists>n \<le> remaining r. r' = advance n r \<and> length (write_varint [] v) \<le> n"
proof -
  obtain n where "n \<le> remaining r" "r' = advance n r" "0 < n" "\<forall>m \<ge> 7 * n. \<not> bit v m"
    using var_u64_loop_sound [of label 0 0 r v r'] assms by (auto simp: rd_var_u64_def)
  with length_write_varint [of n v] show ?thesis by blast
qed

lemma parses_le: "parses (rbind (rd_take n label) (\<lambda>bs. rpure (from_le_bytes bs)))
    (to_le_bytes n w) (take_bit (8 * n) (w :: 'a::len word))"
  by (rule parses_bind_end [where x = "to_le_bytes n w"])
    (use parses_take [of "to_le_bytes n w" label] in simp, simp add: from_to_le_bytes parses_pure)

lemma yields_le: "yields (rbind (rd_take n label) (\<lambda>bs. rpure (f bs))) (\<lambda>_ k. n \<le> k)"
  by (rule yields_bind [OF yields_take]) (rule yields_pure, simp)

interpretation wf_u8: wire_format w_u8 "rd_u8 label" "\<lambda>_. True" for label
proof unfold_locales
  fix x show "parses (rd_u8 label) (w_u8 x []) x"
    by (rule parsesI) (simp add: w_u8_def rd_u8_Cons [unfolded One_nat_def])
qed (simp_all add: w_u8_def rd_u8_def yields_le)

interpretation wf_u32: wire_format w_u32 "rd_u32 label" "\<lambda>_. True" for label
  using parses_le [where ?'a = 32 and n = 4 and label = label]
  by unfold_locales (simp_all add: w_u32_def rd_u32_def yields_le)

interpretation wf_i32: wire_format w_i32 "rd_i32 label" "\<lambda>_. True" for label
  using parses_le [where ?'a = 32 and n = 4 and label = label]
  by unfold_locales (simp_all add: w_i32_def rd_i32_def yields_le)

interpretation wf_u64: wire_format w_u64 "rd_u64 label" "\<lambda>_. True" for label
  using parses_le [where ?'a = 64 and n = 8 and label = label]
  by unfold_locales (simp_all add: w_u64_def rd_u64_def yields_le)

interpretation wf_var_u64: wire_format w_var_u64 "rd_var_u64 label" "\<lambda>_. True" for label
proof unfold_locales
  fix x w show "w_var_u64 x w = w @ w_var_u64 x []"
    unfolding w_var_u64_def by (rule write_varint_append)
next
  fix x show "parses (rd_var_u64 label) (w_var_u64 x []) x"
    using var_u64_loop_enc [of x 0] by (auto simp: rd_var_u64_def w_var_u64_def intro!: parsesI)
next
  show "yields (rd_var_u64 label) (\<lambda>x n. True \<and> length (w_var_u64 x []) \<le> n)"
    by (rule yieldsI) (auto simp: w_var_u64_def dest: rd_var_u64_sound)
qed

lemma u32_try_from_ucast [simp]: "u32_try_from_u64 (ucast (w :: u32)) = Some w"
proof -
  have "ucast (ucast w :: u64) = w"
    by (rule bit_word_eqI) (auto simp: bit_simps)
  then show ?thesis by (simp add: u32_try_from_u64_def)
qed

lemma u32_try_from_u64_eq: "u32_try_from_u64 v = Some w \<longleftrightarrow> v = ucast w"
proof
  assume "u32_try_from_u64 v = Some w"
  then have "unat v < 2 ^ 32" "w = ucast v" by (auto simp: u32_try_from_u64_def split: if_splits)
  then show "v = ucast w"
    by (simp add: word_unat_eq_iff unsigned_ucast_eq take_bit_nat_eq_self)
qed simp

interpretation wf_var_u32: wire_format w_var_u32 "rd_var_u32 label" "\<lambda>_. True" for label
proof unfold_locales
  fix x w show "w_var_u32 x w = w @ w_var_u32 x []"
    unfolding w_var_u32_def by (rule wf_var_u64.enc_append)
next
  fix x :: u32
  show "parses (rd_var_u32 label) (w_var_u32 x []) x"
    unfolding rd_var_u32_def w_var_u32_def
    by (rule parses_bind_end [OF wf_var_u64.dec_enc]) (simp_all add: parses_pure)
next
  show "yields (rd_var_u32 label) (\<lambda>x n. True \<and> length (w_var_u32 x []) \<le> n)"
    unfolding rd_var_u32_def
    by (rule yields_bind [OF wf_var_u64.dec_sound])
      (auto simp: w_var_u32_def u32_try_from_u64_eq intro!: yields_pure yields_fail split: option.split)
qed

lemma rd_var_u32_progress: "rd_var_u32 label r = Inr (v, r') \<Longrightarrow> remaining r' \<le> remaining r"
  by (auto simp: rd_var_u32_def rbind_eq_Inr rfail_apply rpure_apply
      dest!: rd_var_u64_sound split: option.splits)

section \<open>Counted vectors\<close>

text \<open>
  \<^verbatim>\<open>let count = reader.var_u32(label)?; for _ in 0..count { .. }\<close> and
  \<^verbatim>\<open>writer.var_u64(items.len() as u64); for item in items { .. }\<close>.
\<close>

definition rd_vec_idx :: "string \<Rightarrow> (nat \<Rightarrow> 'a rd) \<Rightarrow> 'a list rd" where
  "rd_vec_idx label p = rbind (rd_var_u32 label) (\<lambda>count. rd_list_idx 0 (unat count) p)"

definition rd_vec :: "string \<Rightarrow> 'a rd \<Rightarrow> 'a list rd" where
  "rd_vec label p = rd_vec_idx label (\<lambda>_. p)"

definition w_vec :: "('a \<Rightarrow> writer \<Rightarrow> writer) \<Rightarrow> 'a list \<Rightarrow> writer \<Rightarrow> writer" where
  "w_vec enc xs w = fold enc xs (w_len xs w)"

definition fits_vec :: "('a \<Rightarrow> bool) \<Rightarrow> 'a list \<Rightarrow> bool" where
  "fits_vec fits xs \<longleftrightarrow> length xs < 2 ^ 32 \<and> (\<forall>x \<in> set xs. fits x)"

text \<open>A length below \<open>2 ^ 32\<close> written as a 64-bit varint is read back by the 32-bit reader.\<close>

lemma w_len_append: "w_len xs w = w @ w_len xs []"
  unfolding w_len_def by (rule wf_var_u64.enc_append)

lemma w_len_var_u32:
  assumes "length xs < 2 ^ 32"
  shows "w_len xs = w_var_u32 (of_nat (length xs))"
proof -
  have "(ucast (of_nat (length xs) :: u32) :: u64) = of_nat (length xs)"
    using assms by (simp add: word_unat_eq_iff unat_of_nat_eq)
  then show ?thesis by (simp add: fun_eq_iff w_len_def w_var_u32_def)
qed

lemma w_len_count: "length xs = unat count \<Longrightarrow> w_len xs = w_var_u32 count"
  by (simp add: w_len_var_u32)

lemma parses_len: "length xs < 2 ^ 32 \<Longrightarrow> parses (rd_var_u32 label) (w_len xs []) (of_nat (length xs))"
  using wf_var_u32.dec_enc by (simp add: w_len_var_u32)

lemma parses_len_unat:
  assumes "length xs < 2 ^ 32" "parses (f (length xs)) bs y"
  shows "parses (rbind (rd_var_u32 label) (\<lambda>count. f (unat count))) (w_len xs [] @ bs) y"
  by (rule parses_bind [OF parses_len [OF assms(1)]]) (use assms in \<open>simp add: unat_of_nat_eq\<close>)

context indexed_wire_format
begin

lemma vec: "wire_format (w_vec enc) (rd_vec_idx label dec) (fits_vec fits)"
proof
  fix xs w
  show "w_vec enc xs w = w @ w_vec enc xs []"
    unfolding w_vec_def using fold_enc_append [of xs "w_len xs w"] fold_enc_append [of xs "w_len xs []"]
      w_len_append [of xs w] by simp
next
  fix xs assume fit: "fits_vec fits xs"
  have "w_vec enc xs [] = w_len xs [] @ fold enc xs []"
    unfolding w_vec_def by (rule fold_enc_append)
  then show "parses (rd_vec_idx label dec) (w_vec enc xs []) xs"
    using fit parses_len_unat [of xs "\<lambda>n. rd_list_idx 0 n dec", OF _ rd_list_idx_enc]
    by (simp add: rd_vec_idx_def fits_vec_def)
next
  show "yields (rd_vec_idx label dec) (\<lambda>xs n. fits_vec fits xs \<and> length (w_vec enc xs []) \<le> n)"
    unfolding rd_vec_idx_def
    by (rule yields_bind [OF wf_var_u32.dec_sound], rule yields_mono [OF rd_list_idx_sound])
      (auto simp: fits_vec_def w_vec_def w_len_count fold_enc_append [of _ "w_var_u32 _ []"])
qed

end

context wire_format
begin

lemma vec: "wire_format (w_vec enc) (rd_vec label dec) (fits_vec fits)"
  unfolding rd_vec_def by (rule indexed.vec)

end

section \<open>Runs of writer calls\<close>

text \<open>A writer call only appends, so a run of calls writes the concatenation of their outputs.\<close>

definition appends :: "(writer \<Rightarrow> writer) \<Rightarrow> bool" where
  "appends f \<longleftrightarrow> (\<forall>w. f w = w @ f [])"

lemma appendsI: "(\<And>w. f w = w @ f []) \<Longrightarrow> appends f"
  unfolding appends_def by blast

lemma appendsD: "appends f \<Longrightarrow> f w = w @ f []"
  unfolding appends_def by blast

lemma w_all_bytes:
  "\<forall>f \<in> set fs. appends f \<Longrightarrow> w_all fs w = w @ concat (map (\<lambda>f. f []) fs)"
proof (induction fs arbitrary: w)
  case Nil
  then show ?case by (simp add: w_all_def)
next
  case (Cons f fs)
  then show ?case
    using appendsD [of f w] by (simp add: w_all_def)
qed

lemma appends_w_all: "\<forall>f \<in> set fs. appends f \<Longrightarrow> appends (w_all fs)"
  by (rule appendsI) (simp add: w_all_bytes)

lemma appends_primitives [simp]:
  "appends (w_bytes bs)" "appends (w_u8 b)" "appends (w_u32 u)" "appends (w_i32 i)" "appends (w_u64 q)"
  "appends (w_var_u64 q)" "appends (w_var_u32 u)" "appends (w_len xs)"
  by (rule appendsI; (rule wf_u8.enc_append wf_u32.enc_append wf_i32.enc_append wf_u64.enc_append
      wf_var_u64.enc_append wf_var_u32.enc_append w_len_append | simp add: w_bytes_def))+

lemma w_bytes_Nil [simp]: "w_bytes bs [] = bs"
  by (simp add: w_bytes_def)

context indexed_wire_format
begin

lemma appends_enc: "appends (enc x)"
  by (rule appendsI) (rule wire_format.enc_append [OF at_index])

lemma appends_fold: "appends (fold enc xs)"
  by (rule appendsI) (rule fold_enc_append)

lemma appends_vec: "appends (w_vec enc xs)"
  by (rule appendsI) (rule wire_format.enc_append [OF vec])

end

section \<open>Reading back a run of writer calls\<close>

definition run_bytes :: "(writer \<Rightarrow> writer) list \<Rightarrow> bytes" where
  "run_bytes fs = concat (map (\<lambda>f. f []) fs)"

lemma w_all_Nil: "\<forall>f \<in> set fs. appends f \<Longrightarrow> w_all fs [] = run_bytes fs"
  by (simp add: w_all_bytes run_bytes_def)

lemma parses_step:
  "parses m (f []) x \<Longrightarrow> parses (k x) (run_bytes fs) y \<Longrightarrow> parses (rbind m k) (run_bytes (f # fs)) y"
  by (simp add: run_bytes_def parses_bind)

lemma parses_stop: "x = y \<Longrightarrow> parses (rpure x) (run_bytes []) y"
  by (simp add: run_bytes_def parses_pure)

lemma parses_skip: "parses m [] x \<Longrightarrow> parses (k x) bs y \<Longrightarrow> parses (rbind m k) bs y"
  using parses_bind [of m "[]" x k bs y] by simp

lemma run_bytes_append: "run_bytes (fs @ gs) = run_bytes fs @ run_bytes gs"
  by (simp add: run_bytes_def)

lemma parses_skip_len:
  assumes "length xs < 2 ^ 32" "parses (k (length xs)) (run_bytes fs) y"
  shows "parses (rbind (rd_var_u32 label) (\<lambda>count. k (unat count))) (run_bytes (w_len xs # fs)) y"
  using parses_len_unat [where f = k, OF assms] by (simp add: run_bytes_def)

text \<open>Reading back the fixed and varint primitives.\<close>

lemmas primitive_dec_enc =
  wf_u8.dec_enc [OF TrueI] wf_u32.dec_enc [OF TrueI] wf_i32.dec_enc [OF TrueI]
  wf_u64.dec_enc [OF TrueI] wf_var_u64.dec_enc [OF TrueI] wf_var_u32.dec_enc [OF TrueI]

lemmas primitive_sound [wire_sound] =
  wf_u8.dec_sound wf_u32.dec_sound wf_i32.dec_sound wf_u64.dec_sound wf_var_u64.dec_sound
  wf_var_u32.dec_sound

lemma take_step [wire_step]:
  "n = length bs \<Longrightarrow> parses (k bs) (run_bytes fs) y \<Longrightarrow>
   parses (rbind (rd_take n label) k) (run_bytes (w_bytes bs # fs)) y"
  by (rule parses_step [where f = "w_bytes bs" and x = bs]) (simp_all add: parses_take)

lemma wire_formatI:
  assumes "\<And>x. appends (enc x)" and "\<And>x. fits x \<Longrightarrow> parses dec (enc x []) x" 
    and "yields dec (\<lambda>x n. fits x \<and> length (enc x []) \<le> n)"
  shows "wire_format enc dec fits"
  by unfold_locales (rule appendsD [OF assms(1)], erule assms(2), rule assms(3))

context wire_format
begin

lemma step:
  "fits x \<Longrightarrow> parses (k x) (run_bytes fs) y \<Longrightarrow> parses (rbind dec k) (run_bytes (enc x # fs)) y"
  by (rule parses_step [where f = "enc x", OF dec_enc])

lemma vec_step:
  "fits_vec fits xs \<Longrightarrow> parses (k xs) (run_bytes fs) y \<Longrightarrow>
   parses (rbind (rd_vec label dec) k) (run_bytes (w_vec enc xs # fs)) y"
  by (rule wire_format.step [OF vec])

lemma list_step:
  "\<forall>x \<in> set xs. fits x \<Longrightarrow> n = length xs \<Longrightarrow> parses (k xs) (run_bytes fs) y \<Longrightarrow>
   parses (rbind (rd_list n dec) k) (run_bytes (fold enc xs # fs)) y"
  by (rule parses_step [where f = "fold enc xs" and x = xs]) (simp_all add: rd_list_enc)

lemma vec_sound: "yields (rd_vec label dec) (\<lambda>xs n. fits_vec fits xs \<and> length (w_vec enc xs []) \<le> n)"
  by (rule wire_format.dec_sound [OF vec])

end

lemmas primitive_step [wire_step] =
  wf_u8.step [OF TrueI] wf_u32.step [OF TrueI] wf_i32.step [OF TrueI] wf_u64.step [OF TrueI]
  wf_var_u64.step [OF TrueI] wf_var_u32.step [OF TrueI]

lemmas var_u32_vec_step [wire_step] = wf_var_u32.vec_step
lemmas var_u32_list_step [wire_step] = wf_var_u32.list_step wf_u8.list_step wf_i32.list_step
lemmas appends_vectors [simp] =
  wf_u8.indexed.appends_fold wf_i32.indexed.appends_fold wf_var_u32.indexed.appends_fold
  wf_var_u32.indexed.appends_vec

lemmas len_step [wire_step] = parses_skip_len

end
