(* ===== verification/Codec.thy ===== *)
theory Codec
  imports Chunk Wire
begin

text \<open>
  Encoder and decoder of whole chunks, \<^verbatim>\<open>crates/ruau-bytecode/src/codec.rs\<close>. Error messages are
  the ones the code formats. Pre-sizing of vectors with \<^verbatim>\<open>Reader::cap\<close> has no effect on results
  and appears as \<open>cap\<close> with its bound only.
\<close>

section \<open>Encoder\<close>

datatype encode_error = EncodeError string

definition has_extended_proto_layout :: "u8 \<Rightarrow> bool" where
  "has_extended_proto_layout version \<longleftrightarrow> 12 \<le> version"

definition w_table_entry :: "table_entry \<Rightarrow> writer \<Rightarrow> writer" where
  "w_table_entry e = w_all [w_var_u32 (entry_key e), w_i32 (entry_value e)]"

fun encode_constant :: "bc_constant \<Rightarrow> writer \<Rightarrow> writer" where
  "encode_constant C_Nil = w_all [w_u8 (constant_tag_byte Tag_Nil)]"
| "encode_constant (C_Boolean v) =
     w_all [w_u8 (constant_tag_byte Tag_Boolean), w_u8 (if v then 1 else 0)]"
| "encode_constant (C_Number bits) = w_all [w_u8 (constant_tag_byte Tag_Number), w_u64 bits]"
| "encode_constant (C_String s) = w_all [w_u8 (constant_tag_byte Tag_String), w_var_u32 s]"
| "encode_constant (C_Import import_id) =
     w_all [w_u8 (constant_tag_byte Tag_Import), w_u32 import_id]"
| "encode_constant (C_Table keys) =
     w_all [w_u8 (constant_tag_byte Tag_Table), w_vec w_var_u32 keys]"
| "encode_constant (C_Closure p) = w_all [w_u8 (constant_tag_byte Tag_Closure), w_var_u32 p]"
| "encode_constant (C_Vector x y z w) =
     w_all [w_u8 (constant_tag_byte Tag_Vector), w_u32 x, w_u32 y, w_u32 z, w_u32 w]"
| "encode_constant (C_VectorDouble x y z w) =
     w_all [w_u8 (constant_tag_byte Tag_VectorDouble), w_u64 x, w_u64 y, w_u64 z, w_u64 w]"
| "encode_constant (C_TableWithConstants entries) =
     w_all [w_u8 (constant_tag_byte Tag_TableWithConstants), w_vec w_table_entry entries]"
| "encode_constant (C_Integer v) =
     w_all (w_u8 (constant_tag_byte Tag_Integer) #
       (if sint v < 0 then [w_u8 1, w_var_u64 (NOT v + 1)] else [w_u8 0, w_var_u64 v]))"
| "encode_constant (C_ClassShape shape) =
     w_all [w_u8 (constant_tag_byte Tag_ClassShape), w_var_u32 (class_name shape),
       w_len (property_names shape), w_len (method_names shape),
       fold w_var_u32 (property_names shape), fold w_var_u32 (method_names shape)]"

text \<open>The instruction loop of \<^verbatim>\<open>encode_proto\<close>: it stops at the first inconsistent instruction.\<close>

definition w_instruction :: "instruction \<Rightarrow> writer \<Rightarrow> writer" where
  "w_instruction i = w_all (w_u32 (i_header i) # (case i_aux i of None \<Rightarrow> [] | Some aux \<Rightarrow> [w_u32 aux]))"

fun encode_code :: "nat \<Rightarrow> nat \<Rightarrow> instruction list \<Rightarrow> writer \<Rightarrow> encode_error + writer" where
  "encode_code proto_index index [] w = Inr w"
| "encode_code proto_index index (i # is) w =
     (if \<not> is_header_consistent i then
        Inl (EncodeError (''proto '' @ show_nat proto_index @ '' instruction '' @ show_nat index
          @ '': decoded operand fields do not match the encoded header word ''
          @ show_hex_010 (i_header i)))
      else encode_code proto_index (Suc index) is (w_instruction i w))"

definition w_line_info :: "line_info \<Rightarrow> writer \<Rightarrow> writer" where
  "w_line_info li =
     w_all [w_u8 (log2_span li), w_bytes (delta_bytes li), fold w_i32 (baseline_deltas li)]"

definition w_debug_local :: "debug_local \<Rightarrow> writer \<Rightarrow> writer" where
  "w_debug_local l =
     w_all [w_var_u32 (local_name l), w_var_u32 (start_pc l), w_var_u32 (end_pc l),
       w_u8 (local_register l)]"

definition w_debug_info :: "debug_info \<Rightarrow> writer \<Rightarrow> writer" where
  "w_debug_info d =
     w_all [w_vec w_debug_local (debug_locals d), w_vec w_var_u32 (debug_upvalues d)]"

definition w_feedback_slot :: "feedback_slot \<Rightarrow> writer \<Rightarrow> writer" where
  "w_feedback_slot s = w_all [w_u8 (feedback_type_byte (slot_kind s)), w_var_u32 (slot_pc s)]"

definition w_proto_head :: "proto \<Rightarrow> writer \<Rightarrow> writer" where
  "w_proto_head p =
     w_all [w_u8 (max_stack_size p), w_u8 (num_params p), w_u8 (num_upvalues p), w_u8 (is_vararg p),
       w_u8 (proto_flags p), w_len (type_raw (proto_type_info p)),
       w_bytes (type_raw (proto_type_info p)), w_var_u64 (ucast (code_word_count (p_code p)))]"

definition w_proto_tail :: "u8 \<Rightarrow> proto \<Rightarrow> writer \<Rightarrow> writer" where
  "w_proto_tail version p =
     w_all
      ([w_vec encode_constant (p_constants p), w_vec w_var_u32 (p_child_protos p),
        w_var_u32 (line_defined p), w_var_u32 (debug_name p)]
       @ (case proto_line_info p of None \<Rightarrow> [w_u8 0] | Some li \<Rightarrow> [w_u8 1, w_line_info li])
       @ (case proto_debug_info p of None \<Rightarrow> [w_u8 0] | Some d \<Rightarrow> [w_u8 1, w_debug_info d])
       @ (if 11 \<le> version then [w_vec w_feedback_slot (p_feedback_slots p)] else []))"

definition encode_proto :: "u8 \<Rightarrow> nat \<Rightarrow> proto \<Rightarrow> writer \<Rightarrow> encode_error + writer" where
  "encode_proto version proto_index p w =
     (case encode_code proto_index 0 (p_code p) (w_proto_head p w) of
        Inl e \<Rightarrow> Inl e
      | Inr w' \<Rightarrow>
          (let w'' = w_proto_tail version p w' in
           if has_extended_proto_layout version \<and> proto_flags p AND PROTO_INLINABLE \<noteq> 0 then
             (case p_cost p of
                None \<Rightarrow> Inl (EncodeError (''proto '' @ show_nat proto_index
                  @ '' is inlinable but has no extended-layout cost''))
              | Some c \<Rightarrow> Inr (w_var_u64 c w''))
           else Inr w''))"

text \<open>The loop over the protos: the extended layout writes each proto as a counted payload.\<close>

definition encode_one_proto :: "u8 \<Rightarrow> nat \<Rightarrow> proto \<Rightarrow> writer \<Rightarrow> encode_error + writer" where
  "encode_one_proto version proto_index p w =
     (if has_extended_proto_layout version then
        (case encode_proto version proto_index p [] of
           Inl e \<Rightarrow> Inl e
         | Inr payload \<Rightarrow> Inr (w_bytes payload (w_len payload w)))
      else encode_proto version proto_index p w)"

fun encode_protos :: "u8 \<Rightarrow> nat \<Rightarrow> proto list \<Rightarrow> writer \<Rightarrow> encode_error + writer" where
  "encode_protos version proto_index [] w = Inr w"
| "encode_protos version proto_index (p # ps) w =
     (case encode_one_proto version proto_index p w of
        Inl e \<Rightarrow> Inl e
      | Inr w' \<Rightarrow> encode_protos version (Suc proto_index) ps w')"

definition w_string :: "bytes \<Rightarrow> writer \<Rightarrow> writer" where
  "w_string s = w_all [w_len s, w_bytes s]"

definition w_mapping :: "userdata_type_mapping \<Rightarrow> writer \<Rightarrow> writer" where
  "w_mapping m = w_all [w_u8 (type_index m), w_var_u32 (mapping_name m)]"

definition encode_chunk_with_policy :: "bytecode_chunk \<Rightarrow> version_policy \<Rightarrow> encode_error + bytes" where
  "encode_chunk_with_policy chunk policy =
     (case chunk of
        Chunk_Error message \<Rightarrow> Inr (w_all [w_u8 0, w_bytes message] [])
      | Chunk_Valid c \<Rightarrow>
          if \<not> accepts policy (bytecode_version c) then
            Inl (EncodeError (unsupported_version_message policy (bytecode_version c)))
          else
            (case encode_protos (bytecode_version c) 0 (ch_protos c)
               (w_all [w_u8 (bytecode_version c), w_u8 (type_version c),
                  w_vec w_string (ch_strings c), fold w_mapping (ch_userdata_type_mappings c), w_u8 0,
                  w_len (ch_protos c)] []) of
               Inl e \<Rightarrow> Inl e
             | Inr w \<Rightarrow> Inr (w_var_u32 (ch_main_proto c) w)))"

definition encode_chunk :: "bytecode_chunk \<Rightarrow> encode_error + bytes" where
  "encode_chunk chunk = encode_chunk_with_policy chunk Public"

definition encode_upstream_fixture_chunk :: "bytecode_chunk \<Rightarrow> encode_error + bytes" where
  "encode_upstream_fixture_chunk chunk = encode_chunk_with_policy chunk UpstreamFixture"

section \<open>Decoder\<close>

definition rd_table_entry :: "table_entry rd" where
  "rd_table_entry =
     rbind (rd_var_u32 ''table entry key'') (\<lambda>key.
     rbind (rd_i32 ''table entry value'') (\<lambda>v.
     rpure \<lparr>entry_key = key, entry_value = v\<rparr>))"

definition decode_class_shape :: "class_shape rd" where
  "decode_class_shape =
     rbind (rd_var_u32 ''class name'') (\<lambda>name.
     rbind (rd_var_u32 ''class property count'') (\<lambda>property_count.
     rbind (rd_var_u32 ''class method count'') (\<lambda>method_count.
     rbind (rd_list (unat property_count) (rd_var_u32 ''class property name'')) (\<lambda>properties.
     rbind (rd_list (unat method_count) (rd_var_u32 ''class method name'')) (\<lambda>methods.
     rpure \<lparr>class_name = name, property_names = properties, method_names = methods\<rparr>)))))"

fun decode_tagged :: "constant_tag \<Rightarrow> bc_constant rd" where
  "decode_tagged Tag_Nil = rpure C_Nil"
| "decode_tagged Tag_Boolean = rbind (rd_u8 ''boolean constant'') (\<lambda>b. rpure (C_Boolean (b \<noteq> 0)))"
| "decode_tagged Tag_Number = rbind (rd_u64 ''number constant'') (\<lambda>bits. rpure (C_Number bits))"
| "decode_tagged Tag_String = rbind (rd_var_u32 ''string constant id'') (\<lambda>s. rpure (C_String s))"
| "decode_tagged Tag_Import = rbind (rd_u32 ''import id'') (\<lambda>i. rpure (C_Import i))"
| "decode_tagged Tag_Table =
     rbind (rd_vec ''table key count'' (rd_var_u32 ''table key'')) (\<lambda>keys. rpure (C_Table keys))"
| "decode_tagged Tag_Closure = rbind (rd_var_u32 ''closure proto id'') (\<lambda>p. rpure (C_Closure p))"
| "decode_tagged Tag_Vector =
     rbind (rd_u32 ''vector component'') (\<lambda>x. rbind (rd_u32 ''vector component'') (\<lambda>y.
     rbind (rd_u32 ''vector component'') (\<lambda>z. rbind (rd_u32 ''vector component'') (\<lambda>w.
     rpure (C_Vector x y z w)))))"
| "decode_tagged Tag_TableWithConstants =
     rbind (rd_vec ''table entry count'' rd_table_entry) (\<lambda>es. rpure (C_TableWithConstants es))"
| "decode_tagged Tag_Integer =
     rbind (rd_u8 ''integer sign'') (\<lambda>sign.
     rbind (rd_var_u64 ''integer magnitude'') (\<lambda>magnitude.
     rpure (C_Integer (if sign \<noteq> 0 then NOT magnitude + 1 else magnitude))))"
| "decode_tagged Tag_ClassShape = rbind decode_class_shape (\<lambda>shape. rpure (C_ClassShape shape))"
| "decode_tagged Tag_VectorDouble =
     rbind (rd_u64 ''double vector component'') (\<lambda>x. rbind (rd_u64 ''double vector component'') (\<lambda>y.
     rbind (rd_u64 ''double vector component'') (\<lambda>z. rbind (rd_u64 ''double vector component'') (\<lambda>w.
     rpure (C_VectorDouble x y z w)))))"

definition decode_constant :: "bc_constant rd" where
  "decode_constant =
     rbind (rd_u8 ''constant tag'') (\<lambda>byte.
       case constant_tag_from_byte byte of
         None \<Rightarrow> rfail ''unknown constant tag''
       | Some tag \<Rightarrow> decode_tagged tag)"

definition line_intervals :: "u32 \<Rightarrow> u8 \<Rightarrow> u32" where
  "line_intervals instruction_words log = drop_bit (unat log) (saturating_sub instruction_words 1) + 1"

definition decode_line_info :: "u32 \<Rightarrow> line_info rd" where
  "decode_line_info instruction_words =
     rbind (rd_u8 ''line info log span'') (\<lambda>log.
     if 32 \<le> log then
       rfail (''line info log span '' @ show_word log @ '' out of range (must be < 32)'')
     else
       rbind (rd_list (unat instruction_words) (rd_u8 ''line info delta'')) (\<lambda>deltas.
       rbind (rd_list (unat (line_intervals instruction_words log)) (rd_i32 ''line info baseline''))
         (\<lambda>baselines.
       rpure \<lparr>log2_span = log, delta_bytes = deltas, baseline_deltas = baselines\<rparr>)))"

definition rd_debug_local :: "debug_local rd" where
  "rd_debug_local =
     rbind (rd_var_u32 ''debug local name'') (\<lambda>name.
     rbind (rd_var_u32 ''debug local start pc'') (\<lambda>start.
     rbind (rd_var_u32 ''debug local end pc'') (\<lambda>stop.
     rbind (rd_u8 ''debug local register'') (\<lambda>register.
     rpure \<lparr>local_name = name, start_pc = start, end_pc = stop, local_register = register\<rparr>))))"

definition decode_debug_info :: "debug_info rd" where
  "decode_debug_info =
     rbind (rd_vec ''debug local count'' rd_debug_local) (\<lambda>locals.
     rbind (rd_vec ''debug upvalue count'' (rd_var_u32 ''debug upvalue name'')) (\<lambda>upvalues.
     rpure \<lparr>debug_locals = locals, debug_upvalues = upvalues\<rparr>))"

definition rd_feedback_slot :: "feedback_slot rd" where
  "rd_feedback_slot =
     rbind (rd_u8 ''feedback slot type'') (\<lambda>byte.
       case feedback_type_from_byte byte of
         None \<Rightarrow> rfail ''unknown feedback slot type''
       | Some kind \<Rightarrow>
           rbind (rd_var_u32 ''feedback slot pc'') (\<lambda>pc. rpure \<lparr>slot_kind = kind, slot_pc = pc\<rparr>))"

definition decode_type_info :: "type_info rd" where
  "decode_type_info =
     rbind (rd_var_u32 ''type info size'') (\<lambda>size.
     rbind (rd_take (unat size) ''type info payload'') (\<lambda>raw.
     rpure \<lparr>type_raw = raw\<rparr>))"

text \<open>
  The instruction loop. The 32-bit word index is compared with the declared word count as the code
  does; every round consumes at least the four bytes of a header, which is why the loop ends.
\<close>

definition rd_aux :: "nat \<Rightarrow> u32 \<Rightarrow> (u32 option \<times> u32) rd" where
  "rd_aux aux_count word_index =
     (if aux_count = 1 then rbind (rd_u32 ''instruction aux'') (\<lambda>w. rpure (Some w, word_index + 1))
      else rpure (None, word_index))"

lemma rd_aux_progress: "rd_aux n k r = Inr (x, r') \<Longrightarrow> remaining r' \<le> remaining r"
  by (auto simp: rd_aux_def rbind_eq_Inr rpure_apply dest!: rd_u32_progress split: if_splits)

function decode_code :: "u32 \<Rightarrow> u32 \<Rightarrow> instruction list \<Rightarrow> instruction list rd" where
  "decode_code code_words word_index code r =
     (if word_index < code_words then
        (case rd_u32 ''instruction header'' r of
           Inl e \<Rightarrow> Inl e
         | Inr (header, r1) \<Rightarrow>
             (let word_index1 = word_index + 1 in
              case opcode_from_byte (ucast (header AND 0xff)) of
                None \<Rightarrow> Inl (DecodeError (''unknown opcode '' @ show_word (header AND 0xff)
                  @ '' at word '' @ show_word (word_index1 - 1)))
              | Some opcode \<Rightarrow>
                  (let aux_count = instruction_len opcode - 1 in
                   if code_words < word_index1 + of_nat aux_count then
                     Inl (DecodeError (show_opcode opcode @ '' at word '' @ show_word (word_index1 - 1)
                       @ '' requires '' @ show_nat aux_count @ '' AUX word(s), past code size ''
                       @ show_word code_words))
                   else
                     (case rd_aux aux_count word_index1 r1 of
                        Inl e \<Rightarrow> Inl e
                      | Inr ((aux, word_index2), r2) \<Rightarrow>
                          (case from_words header aux of
                             None \<Rightarrow> Inl (DecodeError ''opcode disappeared during decode'')
                           | Some i \<Rightarrow> decode_code code_words word_index2 (code @ [i]) r2)))))
      else Inr (code, r))"
  by pat_completeness auto
termination
  by (relation "measure (\<lambda>(_, _, _, r). remaining r)")
    (auto dest!: rd_u32_progress rd_aux_progress)

declare decode_code.simps [simp del]

definition decode_proto :: "u8 \<Rightarrow> proto rd" where
  "decode_proto version =
     rbind (rd_u8 ''proto max stack size'') (\<lambda>max_stack.
     rbind (rd_u8 ''proto parameter count'') (\<lambda>params.
     rbind (rd_u8 ''proto upvalue count'') (\<lambda>upvalues.
     rbind (rd_u8 ''proto vararg flag'') (\<lambda>vararg.
     rbind (rd_u8 ''proto flags'') (\<lambda>flags.
     rbind decode_type_info (\<lambda>ti.
     rbind (rd_var_u32 ''instruction word count'') (\<lambda>code_words.
     rbind (decode_code code_words 0 []) (\<lambda>instrs.
     rbind (rd_vec ''constant count'' decode_constant) (\<lambda>consts.
     rbind (rd_vec ''child proto count'' (rd_var_u32 ''child proto id'')) (\<lambda>children.
     rbind (rd_var_u32 ''line defined'') (\<lambda>line.
     rbind (rd_var_u32 ''debug name'') (\<lambda>name.
     rbind (rd_u8 ''line info flag'') (\<lambda>line_flag.
     rbind (if line_flag \<noteq> 0 then rbind (decode_line_info code_words) (\<lambda>li. rpure (Some li))
            else rpure None) (\<lambda>li.
     rbind (rd_u8 ''debug info flag'') (\<lambda>debug_flag.
     rbind (if debug_flag \<noteq> 0 then rbind decode_debug_info (\<lambda>d. rpure (Some d))
            else rpure None) (\<lambda>d.
     rbind (if 11 \<le> version then rd_vec ''feedback slot count'' rd_feedback_slot
            else rpure []) (\<lambda>slots.
     rbind (if has_extended_proto_layout version \<and> flags AND PROTO_INLINABLE \<noteq> 0
            then rbind (rd_var_u64 ''proto cost'') (\<lambda>c. rpure (Some c)) else rpure None) (\<lambda>c.
     rpure \<lparr>max_stack_size = max_stack, num_params = params, num_upvalues = upvalues,
       is_vararg = vararg, proto_flags = flags, proto_type_info = ti, p_code = instrs,
       p_constants = consts, p_child_protos = children, line_defined = line, debug_name = name,
       proto_line_info = li, proto_debug_info = d, p_feedback_slots = slots, p_cost = c\<rparr>))))))))))))))))))"

definition decode_one_proto :: "u8 \<Rightarrow> nat \<Rightarrow> proto rd" where
  "decode_one_proto version proto_index =
     (if \<not> has_extended_proto_layout version then decode_proto version
      else
        rbind (rd_var_u32 ''proto payload size'') (\<lambda>size.
        rbind (rd_take (unat size) ''proto payload'') (\<lambda>payload r.
          case decode_proto version (reader_new payload) of
            Inl e \<Rightarrow> Inl e
          | Inr (p, proto_reader) \<Rightarrow>
              if \<not> is_eof proto_reader then
                Inl (DecodeError (''proto '' @ show_nat proto_index @ '' has ''
                  @ show_nat (remaining proto_reader) @ '' trailing byte(s) inside its payload''))
              else Inr (p, r))))"

definition rd_string :: "nat \<Rightarrow> bytes rd" where
  "rd_string index =
     rbind (rd_var_u32 ''string length'') (\<lambda>len.
       rd_take (unat len) (''string table entry '' @ show_nat (index + 1)))"

definition decode_string_table :: "bytes list rd" where
  "decode_string_table = rd_vec_idx ''string count'' rd_string"

function decode_mappings :: "userdata_type_mapping list \<Rightarrow> userdata_type_mapping list rd" where
  "decode_mappings acc r =
     (case rd_u8 ''userdata type mapping index'' r of
        Inl e \<Rightarrow> Inl e
      | Inr (index, r1) \<Rightarrow>
          if index = 0 then Inr (acc, r1)
          else
            (case rd_var_u32 ''userdata type name'' r1 of
               Inl e \<Rightarrow> Inl e
             | Inr (name, r2) \<Rightarrow>
                 decode_mappings (acc @ [\<lparr>type_index = index, mapping_name = name\<rparr>]) r2))"
  by pat_completeness auto
termination
  by (relation "measure (\<lambda>(_, r). remaining r)")
    (auto dest!: rd_u8_progress rd_var_u32_progress)

declare decode_mappings.simps [simp del]

definition decode_chunk_with_policy :: "bytes \<Rightarrow> version_policy \<Rightarrow> decode_error + bytecode_chunk" where
  "decode_chunk_with_policy bs policy =
     (case rd_u8 ''bytecode version'' (reader_new bs) of
        Inl e \<Rightarrow> Inl e
      | Inr (version, r) \<Rightarrow>
          if version = 0 then Inr (Chunk_Error (drop 1 bs))
          else if \<not> accepts policy version then
            Inl (DecodeError (unsupported_version_message policy version))
          else
            (case
               rbind (rd_u8 ''type encoding version'') (\<lambda>tv.
               if \<not> (1 \<le> tv \<and> tv \<le> 3) then
                 rfail (''unsupported bytecode type encoding version '' @ show_word tv)
               else
                 rbind decode_string_table (\<lambda>strs.
                 rbind (decode_mappings []) (\<lambda>mappings.
                 rbind (rd_vec_idx ''proto count'' (decode_one_proto version)) (\<lambda>ps.
                 rbind (rd_var_u32 ''main proto id'') (\<lambda>main.
                 rpure \<lparr>bytecode_version = version, type_version = tv, ch_strings = strs,
                   ch_userdata_type_mappings = mappings, ch_protos = ps, ch_main_proto = main\<rparr>))))) r
             of
               Inl e \<Rightarrow> Inl e
             | Inr (c, r') \<Rightarrow>
                 if \<not> is_eof r' then
                   Inl (DecodeError (''trailing '' @ show_nat (remaining r') @ '' byte(s) after main proto''))
                 else Inr (Chunk_Valid c)))"

definition decode_chunk :: "bytes \<Rightarrow> decode_error + bytecode_chunk" where
  "decode_chunk bs = decode_chunk_with_policy bs Public"

definition decode_upstream_fixture_chunk :: "bytes \<Rightarrow> decode_error + bytecode_chunk" where
  "decode_upstream_fixture_chunk bs = decode_chunk_with_policy bs UpstreamFixture"

section \<open>Each section of a proto is a wire format\<close>

lemma primitive_lengths [simp]:
  "length (w_u8 b []) = 1" "length (w_u32 v []) = 4" "length (w_i32 v []) = 4" "length (w_u64 q []) = 8"
  by (simp_all add: w_u8_def w_u32_def w_i32_def w_u64_def)

lemmas wire_size = w_all_Nil run_bytes_def

lemma yields_guard: "(\<not> c \<Longrightarrow> yields m Q) \<Longrightarrow> yields (if c then rfail msg else m) Q"
  by (simp add: yields_fail)

interpretation wf_table_entry: wire_format w_table_entry rd_table_entry "\<lambda>_. True"
proof (rule wire_formatI)
  show "appends (w_table_entry e)" for e
    unfolding w_table_entry_def by (rule appends_w_all) simp
  show "parses rd_table_entry (w_table_entry e []) e" for e
    unfolding rd_table_entry_def w_table_entry_def
    by (subst w_all_Nil, simp, intro wire_step parses_stop, simp)
  show "yields rd_table_entry (\<lambda>x n. True \<and> length (w_table_entry x []) \<le> n)"
    unfolding rd_table_entry_def
    by (rule yields_bind, rule wire_sound)+ (rule yields_pure, simp add: wire_size w_table_entry_def w_debug_local_def)
qed

lemmas table_entry_steps [wire_step] = wf_table_entry.vec_step

lemmas var_u32_vec_sound [wire_sound] =
  wf_var_u32.vec_sound wf_table_entry.vec_sound
  wf_var_u32.rd_list_sound wf_u8.rd_list_sound wf_i32.rd_list_sound

definition fits_class_shape :: "class_shape \<Rightarrow> bool" where
  "fits_class_shape s \<longleftrightarrow> length (property_names s) < 2 ^ 32 \<and> length (method_names s) < 2 ^ 32"

fun fits_constant :: "bc_constant \<Rightarrow> bool" where
  "fits_constant (C_Table keys) = (length keys < 2 ^ 32)"
| "fits_constant (C_TableWithConstants entries) = (length entries < 2 ^ 32)"
| "fits_constant (C_ClassShape s) = fits_class_shape s"
| "fits_constant _ = True"

lemma appends_constant [simp]: "appends (encode_constant k)"
  by (cases k) (auto intro!: appends_w_all simp: wf_table_entry.indexed.appends_vec)

lemma yields_class_shape:
  "yields decode_class_shape (\<lambda>s n. fits_class_shape s \<and> length (encode_constant (C_ClassShape s) []) \<le> 1 + n)"
  unfolding decode_class_shape_def
  by (rule yields_bind, rule wire_sound)+
    (rule yields_pure, auto simp: fits_class_shape_def wire_size w_len_count)

lemma parses_class_shape:
  assumes "fits_class_shape s"
  shows "parses decode_class_shape
    (run_bytes [w_var_u32 (class_name s), w_len (property_names s), w_len (method_names s),
       fold w_var_u32 (property_names s), fold w_var_u32 (method_names s)]) s"
  using assms unfolding decode_class_shape_def fits_class_shape_def
  by (intro wire_step parses_stop) simp_all

text \<open>
  A sign byte and a magnitude outside the range the writer uses denote a value whose own magnitude
  is no longer.
\<close>

lemma length_varint_ge: "bit v k \<Longrightarrow> k div 7 < length (write_varint [] v)"
proof (induction k arbitrary: v rule: less_induct)
  case (less k)
  show ?case
  proof (cases "k < 7")
    case True
    then show ?thesis by (simp add: write_varint_Nil [of v])
  next
    case False
    then have b: "bit (drop_bit 7 v) (k - 7)" using less.prems by (simp add: bit_simps)
    then have "drop_bit 7 v \<noteq> 0" by auto
    moreover have "(k - 7) div 7 < length (write_varint [] (drop_bit 7 v))"
      using False b by (intro less.IH) auto
    moreover have "k div 7 = Suc ((k - 7) div 7)" using False by (simp add: div_if)
    ultimately show ?thesis by (simp add: write_varint_Nil [of v])
  qed
qed

lemma length_varint_max: "length (write_varint [] v) \<le> 10"
  by (rule length_write_varint) (auto dest: bit_imp_le_length)

lemma length_varint_high: "sint m < 0 \<Longrightarrow> length (w_var_u64 v []) \<le> length (w_var_u64 m [])"
  using length_varint_ge [of m 63] length_varint_max [of v] bit_last_iff [of m]
  by (simp add: w_var_u64_def)

lemma integer_magnitude [simp]: "NOT (NOT v + 1) + 1 = (v :: i64)"
  by (simp add: minus_eq_not_plus_1 [symmetric])

lemma negated_magnitude:
  assumes "\<not> sint (NOT m + 1) < 0" "\<not> sint m < 0"
  shows "(m :: i64) = 0"
proof -
  have "sint (- m) = signed_take_bit 63 (- sint m)" by (simp add: sint_word_ariths)
  also have "\<dots> = - sint m"
    using assms(2) sint_lt [of m] by (intro signed_take_bit_int_eq_self) simp_all
  finally have "sint m = 0" using assms by (simp add: minus_eq_not_plus_1 [symmetric])
  then show ?thesis by (simp only: signed_eq_0_iff)
qed

lemma yields_integer:
  "yields (decode_tagged Tag_Integer) (\<lambda>k n. fits_constant k \<and> length (encode_constant k []) \<le> 1 + n)"
  unfolding decode_tagged.simps
proof ((rule yields_bind, rule wire_sound)+, rule yields_pure)
  fix sign :: u8 and m :: u64 and n n' :: nat
  assume "True \<and> length (w_u8 sign []) \<le> n" "True \<and> length (w_var_u64 m []) \<le> n'"
  then show "fits_constant (C_Integer (if sign \<noteq> 0 then NOT m + 1 else m)) \<and>
    length (encode_constant (C_Integer (if sign \<noteq> 0 then NOT m + 1 else m)) []) \<le> 1 + (n + (n' + 0))"
    using negated_magnitude [of m] length_varint_high [of m "NOT m + 1"]
    by (cases "sint m < 0"; cases "sint (NOT m + 1) < 0"; cases "sign = 0") (simp_all add: wire_size)
qed

lemma yields_tagged:
  "yields (decode_tagged tag) (\<lambda>k n. fits_constant k \<and> length (encode_constant k []) \<le> 1 + n)"
proof (cases "tag = Tag_Integer")
  case True
  with yields_integer show ?thesis by simp
next
  case False
  then show ?thesis
    by (cases tag; (simp; fail)?; simp only: decode_tagged.simps)
      (((rule yields_bind, rule wire_sound yields_class_shape)+)?, rule yields_pure,
        auto simp: fits_vec_def wire_size wf_table_entry.indexed.appends_vec; fail)+
qed

lemma class_shape_step:
  assumes "fits_class_shape s"
  shows "parses (rbind decode_class_shape (\<lambda>s. rpure (f s)))
    (run_bytes [w_var_u32 (class_name s), w_len (property_names s), w_len (method_names s),
       fold w_var_u32 (property_names s), fold w_var_u32 (method_names s)]) (f s)"
  by (rule parses_bind_end [OF parses_class_shape [OF assms] parses_pure])

lemma parses_after_tag:
  assumes "\<forall>f \<in> set fs. appends f" and "parses (decode_tagged tag) (run_bytes fs) k"
  shows "parses decode_constant (w_all (w_u8 (constant_tag_byte tag) # fs) []) k"
  unfolding decode_constant_def
  by (subst w_all_Nil, use assms in simp, intro wire_step) (use assms in simp)

lemma parses_integer:
  "parses (decode_tagged Tag_Integer)
     (run_bytes (if sint v < 0 then [w_u8 1, w_var_u64 (NOT v + 1)] else [w_u8 0, w_var_u64 v])) (C_Integer v)"
  by (simp only: decode_tagged.simps, cases "sint v < 0";
      simp only: if_True if_False; intro wire_step parses_stop; simp)

lemma parses_constant: "fits_constant k \<Longrightarrow> parses decode_constant (encode_constant k []) k"
  by (cases k; simp only: encode_constant.simps fits_constant.simps;
      rule parses_after_tag; (simp add: wf_table_entry.indexed.appends_vec; fail)?;
      (rule parses_integer; fail)?; simp only: decode_tagged.simps;
      ((rule class_shape_step; simp; fail) | (intro wire_step parses_stop; simp add: fits_vec_def)))

interpretation wf_constant: wire_format encode_constant decode_constant fits_constant
proof (rule wire_formatI)
  show "yields decode_constant (\<lambda>k n. fits_constant k \<and> length (encode_constant k []) \<le> n)"
    unfolding decode_constant_def
    by (rule yields_bind, rule wire_sound)
      (auto intro: yields_fail yields_mono [OF yields_tagged] split: option.split)
qed (simp_all add: parses_constant)

text \<open>Debug records, feedback slots, type information and strings.\<close>

interpretation wf_debug_local: wire_format w_debug_local rd_debug_local "\<lambda>_. True"
proof (rule wire_formatI)
  show "appends (w_debug_local l)" for l
    unfolding w_debug_local_def by (rule appends_w_all) simp
  show "parses rd_debug_local (w_debug_local l []) l" for l
    unfolding rd_debug_local_def w_debug_local_def
    by (subst w_all_Nil, simp, intro wire_step parses_stop, simp)
  show "yields rd_debug_local (\<lambda>x n. True \<and> length (w_debug_local x []) \<le> n)"
    unfolding rd_debug_local_def
    by (rule yields_bind, rule wire_sound)+ (rule yields_pure, simp add: wire_size w_table_entry_def w_debug_local_def)
qed

definition fits_debug_info :: "debug_info \<Rightarrow> bool" where
  "fits_debug_info d \<longleftrightarrow> length (debug_locals d) < 2 ^ 32 \<and> length (debug_upvalues d) < 2 ^ 32"

interpretation wf_debug_info: wire_format w_debug_info decode_debug_info fits_debug_info
proof (rule wire_formatI)
  show "appends (w_debug_info d)" for d
    unfolding w_debug_info_def
    by (rule appends_w_all) (simp add: wf_debug_local.indexed.appends_vec)
  show "parses decode_debug_info (w_debug_info d []) d" if "fits_debug_info d" for d
    using that unfolding decode_debug_info_def w_debug_info_def fits_debug_info_def
    by (subst w_all_Nil, simp add: wf_debug_local.indexed.appends_vec,
        intro wire_step wf_debug_local.vec_step parses_stop) (simp_all add: fits_vec_def)
  show "yields decode_debug_info (\<lambda>d n. fits_debug_info d \<and> length (w_debug_info d []) \<le> n)"
    unfolding decode_debug_info_def
    by (rule yields_bind, rule wire_sound wf_debug_local.vec_sound)+
      (rule yields_pure, auto simp: fits_debug_info_def fits_vec_def w_debug_info_def wire_size
        wf_debug_local.indexed.appends_vec)
qed

interpretation wf_feedback_slot: wire_format w_feedback_slot rd_feedback_slot "\<lambda>_. True"
proof (rule wire_formatI)
  show "appends (w_feedback_slot l)" for l
    unfolding w_feedback_slot_def by (rule appends_w_all) simp
  show "parses rd_feedback_slot (w_feedback_slot l []) l" for l
    unfolding rd_feedback_slot_def w_feedback_slot_def
    by (subst w_all_Nil, simp, rule wire_step, simp, intro wire_step parses_stop, simp)
  show "yields rd_feedback_slot (\<lambda>x n. True \<and> length (w_feedback_slot x []) \<le> n)"
    unfolding rd_feedback_slot_def
    by (rule yields_bind, rule wire_sound)
      (auto simp: w_feedback_slot_def wire_size split: option.split
        intro!: yields_fail yields_bind [OF wf_var_u32.dec_sound] yields_pure)
qed

definition w_type_info :: "type_info \<Rightarrow> writer \<Rightarrow> writer" where
  "w_type_info t = w_all [w_len (type_raw t), w_bytes (type_raw t)]"

interpretation wf_type_info: wire_format w_type_info decode_type_info "\<lambda>t. length (type_raw t) < 2 ^ 32"
proof (rule wire_formatI)
  show "appends (w_type_info l)" for l
    unfolding w_type_info_def by (rule appends_w_all) simp
  show "parses decode_type_info (w_type_info t []) t" if "length (type_raw t) < 2 ^ 32" for t
    using that unfolding decode_type_info_def w_type_info_def
    by (subst w_all_Nil, simp, intro wire_step parses_stop) simp_all
  show "yields decode_type_info (\<lambda>t n. length (type_raw t) < 2 ^ 32 \<and> length (w_type_info t []) \<le> n)"
    unfolding decode_type_info_def
    by (rule yields_bind, rule wire_sound yields_take)+
      (rule yields_pure, auto simp: w_type_info_def wire_size w_len_count)
qed

interpretation wf_string: indexed_wire_format w_string rd_string "\<lambda>s. length s < 2 ^ 32"
proof (rule indexed_wire_format.intro, rule wire_formatI)
  show "appends (w_string l)" for l
    unfolding w_string_def by (rule appends_w_all) simp
  show "parses (rd_string i) (w_string s []) s" if "length s < 2 ^ 32" for s i
  proof -
    have "parses (rd_string i) (run_bytes [w_len s, w_bytes s]) s"
      unfolding rd_string_def
      by (intro wire_step that) (use parses_take [of s] in \<open>simp add: run_bytes_def\<close>)
    then show ?thesis by (simp add: w_string_def w_all_Nil)
  qed
  show "yields (rd_string i) (\<lambda>t n. length t < 2 ^ 32 \<and> length (w_string t []) \<le> n)" for i
    unfolding rd_string_def
    by (rule yields_bind, rule wire_sound, rule yields_mono, rule yields_take)
      (auto simp: w_string_def wire_size w_len_count)
qed

section \<open>Line information\<close>

definition fits_line_info :: "u32 \<Rightarrow> line_info \<Rightarrow> bool" where
  "fits_line_info n li \<longleftrightarrow> log2_span li < 32 \<and> length (delta_bytes li) = unat n
     \<and> length (baseline_deltas li) = unat (line_intervals n (log2_span li))"

lemma fold_w_u8: "fold w_u8 bs w = w_bytes bs w"
  by (induction bs arbitrary: w) (simp_all add: w_u8_def w_bytes_def)

lemma byte_list_step:
  "n = length bs \<Longrightarrow> parses (k bs) (run_bytes fs) y \<Longrightarrow>
   parses (rbind (rd_list n (rd_u8 label)) k) (run_bytes (w_bytes bs # fs)) y"
  using wf_u8.list_step [of bs n k fs y label] fold_w_u8 [of bs] by (simp cong: map_cong add: run_bytes_def)

interpretation wf_line_info: wire_format w_line_info "decode_line_info n" "fits_line_info n" for n
proof (rule wire_formatI)
  show "appends (w_line_info li)" for li
    unfolding w_line_info_def by (rule appends_w_all) simp
  show "parses (decode_line_info n) (w_line_info li []) li" if "fits_line_info n li" for li
  proof -
    have fit: "\<not> 32 \<le> log2_span li" "unat n = length (delta_bytes li)"
      "unat (line_intervals n (log2_span li)) = length (baseline_deltas li)"
      using that by (simp_all add: fits_line_info_def linorder_not_le)
    show ?thesis
      unfolding decode_line_info_def w_line_info_def
      by (subst w_all_Nil, simp, rule wire_step, simp only: fit(1) if_False,
          intro byte_list_step wire_step parses_stop) (simp_all add: fit)
  qed
  show "yields (decode_line_info n) (\<lambda>li k. fits_line_info n li \<and> length (w_line_info li []) \<le> k)"
    unfolding decode_line_info_def
    by (rule yields_bind, rule wire_sound, rule yields_guard,
        (rule yields_bind, rule wire_sound)+, rule yields_pure)
      (auto simp: fits_line_info_def linorder_not_le w_line_info_def wire_size fold_w_u8)
qed

section \<open>The instruction stream\<close>

definition fits_instruction :: "instruction \<Rightarrow> bool" where
  "fits_instruction i \<longleftrightarrow>
     is_header_consistent i \<and> (i_aux i = None \<longleftrightarrow> instruction_len (i_opcode i) = 1)"

definition fits_code :: "u32 \<Rightarrow> instruction list \<Rightarrow> bool" where
  "fits_code n code \<longleftrightarrow> (\<forall>i \<in> set code. fits_instruction i) \<and> nat_words code = unat n"

lemma instruction_bytes:
  "w_instruction i [] = w_u32 (i_header i) [] @ (case i_aux i of None \<Rightarrow> [] | Some aux \<Rightarrow> w_u32 aux [])"
  unfolding w_instruction_def
  by (cases "i_aux i") (simp_all add: w_all_Nil run_bytes_def)

lemma appends_instruction [simp]: "appends (w_instruction i)"
  unfolding w_instruction_def by (cases "i_aux i") (simp_all add: appends_w_all)

lemma fold_instruction_append: "fold w_instruction code w = w @ fold w_instruction code []"
proof (induction code arbitrary: w)
  case (Cons i code)
  from Cons [of "w_instruction i w"] Cons [of "w_instruction i []"] appendsD [of "w_instruction i" w]
  show ?case by simp
qed simp

lemma appends_code [simp]: "appends (fold w_instruction code)"
  by (rule appendsI) (rule fold_instruction_append)

lemma length_code_bytes: "length (fold w_instruction code []) = 4 * nat_words code"
proof (induction code)
  case (Cons i code)
  have "length (w_instruction i []) = 4 * nat_word_len i"
    by (simp add: instruction_bytes nat_word_len_def split: option.split)
  with Cons fold_instruction_append [of code "w_instruction i []"] show ?case by simp
qed simp

lemma fits_instruction_decode:
  assumes "fits_instruction i"
  shows "opcode_from_byte (ucast (i_header i AND 0xff)) = Some (i_opcode i)"
    and "from_words (i_header i) (i_aux i) = Some i"
    and "nat_word_len i = instruction_len (i_opcode i)"
proof -
  show i: "from_words (i_header i) (i_aux i) = Some i"
    using assms by (simp add: fits_instruction_def is_header_consistent_iff)
  then show "opcode_from_byte (ucast (i_header i AND 0xff)) = Some (i_opcode i)"
    by (auto simp: from_words_def dest: arg_cong [of _ i i_opcode] split: option.splits)
  show "nat_word_len i = instruction_len (i_opcode i)"
    using assms instruction_len_cases [of "i_opcode i"]
    by (auto simp: fits_instruction_def nat_word_len_def)
qed

lemma rd_aux_enc:
  assumes "fits_instruction i" "rest r = (case i_aux i of None \<Rightarrow> [] | Some aux \<Rightarrow> w_u32 aux []) @ ys"
  shows "rd_aux (instruction_len (i_opcode i) - 1) k r =
    Inr ((i_aux i, k + of_nat (nat_word_len i) - 1), advance (4 * (nat_word_len i - 1)) r)"
proof (cases "i_aux i")
  case None
  with assms(1) show ?thesis
    by (simp add: rd_aux_def fits_instruction_def nat_word_len_def rpure_apply)
next
  case (Some aux)
  with assms(1) instruction_len_cases [of "i_opcode i"] have "instruction_len (i_opcode i) - 1 = 1"
    by (simp add: fits_instruction_def)
  moreover have "rd_u32 ''instruction aux'' r = Inr (aux, advance 4 r)"
    using parsesD [OF primitive_dec_enc(2), of r aux ys] assms(2) Some by simp
  ultimately show ?thesis
    using Some by (simp add: rd_aux_def nat_word_len_def rpure_apply)
qed

lemma decode_code_done: "\<not> k < n \<Longrightarrow> decode_code n k acc r = Inr (acc, r)"
  by (simp add: decode_code.simps)

lemma decode_code_enc:
  assumes "\<forall>i \<in> set code. fits_instruction i" "unat n = unat k + nat_words code"
    "rest r = fold w_instruction code [] @ ys"
  shows "decode_code n k acc r = Inr (acc @ code, advance (4 * nat_words code) r)"
  using assms
proof (induction code arbitrary: k acc r)
  case Nil
  then show ?case by (simp add: decode_code_done word_less_nat_alt)
next
  case (Cons i code)
  let ?op = "i_opcode i" and ?k' = "k + of_nat (nat_word_len i)"
  have i: "fits_instruction i" using Cons.prems by simp
  note dec = fits_instruction_decode [OF i]
  have bs: "rest r = w_u32 (i_header i) [] @ (case i_aux i of None \<Rightarrow> [] | Some aux \<Rightarrow> w_u32 aux [])
      @ fold w_instruction code [] @ ys"
    using Cons.prems(3) fold_instruction_append [of code "w_instruction i []"]
    by (simp add: instruction_bytes)
  have k: "k < n" using Cons.prems(2) nat_word_len_pos [of i] by (simp add: word_less_nat_alt)
  have hd: "rd_u32 ''instruction header'' r = Inr (i_header i, advance 4 r)"
    using parsesD [OF primitive_dec_enc(2) bs] by simp
  have aux: "rd_aux (instruction_len ?op - 1) (k + 1) (advance 4 r)
      = Inr ((i_aux i, ?k'), advance (4 * nat_word_len i) r)"
    using rd_aux_enc [OF i, of "advance 4 r" "fold w_instruction code [] @ ys" "k + 1"] bs
      nat_word_len_pos [of i] by (simp add: algebra_simps)
  have nk: "nat_word_len i = Suc (instruction_len ?op - 1)"
    using dec(3) nat_word_len_pos [of i] by simp
  have "unat k + nat_word_len i \<le> unat n" using Cons.prems(2) by simp
  then have k': "unat ?k' = unat k + nat_word_len i"
    using unat_bounds(3) [of n] by (intro unat_add_of_nat) (simp del: unat_bounds)
  then have "\<not> n < k + 1 + of_nat (instruction_len ?op - 1)"
    using Cons.prems(2) nk by (simp add: word_less_nat_alt add.assoc)
  then have "decode_code n k acc r = decode_code n ?k' (acc @ [i]) (advance (4 * nat_word_len i) r)"
    using k hd aux dec by (simp add: decode_code.simps [of n k] Let_def)
  also have "\<dots> = Inr ((acc @ [i]) @ code, advance (4 * nat_words code) (advance (4 * nat_word_len i) r))"
  proof (rule Cons.IH)
    show "rest (advance (4 * nat_word_len i) r) = fold w_instruction code [] @ ys"
      using bs by (auto simp: nat_word_len_def split: option.split)
  qed (use Cons.prems k' in simp_all)
  finally show ?case by (simp add: algebra_simps)
qed

text \<open>
  The 32-bit word index never wraps while the reader has fewer than \<open>2 ^ 32\<close> bytes left, because
  every word it counts has been read as four bytes.
\<close>

lemma decode_code_sound:
  assumes "decode_code n k acc r = Inr (code, r')" "4 * unat k + remaining r < 2 ^ 32" "k \<le> n"
  shows "\<exists>is. code = acc @ is \<and> (\<forall>i \<in> set is. fits_instruction i) \<and> unat n = unat k + nat_words is
     \<and> 4 * nat_words is \<le> remaining r \<and> r' = advance (4 * nat_words is) r"
  using assms
proof (induction n k acc r rule: decode_code.induct)
  case (1 n k acc r)
  show ?case
  proof (cases "k < n")
    case False
    with "1.prems" show ?thesis by (intro exI [of _ "[]"]) (simp add: decode_code_done)
  next
    case True
    from "1.prems"(1) True obtain h r1 op aux k2 r2 i where
      h: "rd_u32 ''instruction header'' r = Inr (h, r1)" and
      op: "opcode_from_byte (ucast (h AND 0xff)) = Some op" and
      aux: "rd_aux (instruction_len op - 1) (k + 1) r1 = Inr ((aux, k2), r2)" and
      i: "from_words h aux = Some i" and
      le: "\<not> n < k + 1 + of_nat (instruction_len op - 1)" and
      go: "decode_code n k2 (acc @ [i]) r2 = Inr (code, r')"
      by (subst (asm) decode_code.simps) (auto simp: Let_def split: sum.splits option.splits if_splits)
    from rd_u32_progress [OF h] have r1: "4 \<le> remaining r" "r1 = advance 4 r" by simp_all
    have i_op: "i_opcode i = op" using i op by (auto simp: from_words_def)
    have aux': "(aux = None) = (instruction_len op = 1) \<and> k2 = k + 1 + of_nat (instruction_len op - 1)
        \<and> 4 * instruction_len op \<le> remaining r \<and> r2 = advance (4 * instruction_len op) r"
      using aux r1 instruction_len_cases [of op]
      by (auto simp: rd_aux_def rbind_eq_Inr rpure_apply dest!: rd_u32_progress)
    have fit: "fits_instruction i"
      using from_words_consistent [OF i] from_words_header [OF i] i_op aux' by (simp add: fits_instruction_def)
    note len = fits_instruction_decode(3) [OF fit, unfolded i_op]
    have k2: "k2 = k + of_nat (nat_word_len i)"
      using aux' len instruction_len_cases [of op] by auto
    have uk2: "unat k2 = unat k + nat_word_len i"
      unfolding k2 using "1.prems"(2) aux' len by (intro unat_add_of_nat) simp
    have "\<exists>is. code = (acc @ [i]) @ is \<and> (\<forall>i \<in> set is. fits_instruction i) \<and> unat n = unat k2 + nat_words is
       \<and> 4 * nat_words is \<le> remaining r2 \<and> r' = advance (4 * nat_words is) r2"
    proof (rule "1.IH" [OF True h refl refl op refl le aux refl refl i go])
      show "4 * unat k2 + remaining r2 < 2 ^ 32" using "1.prems"(2) aux' len uk2 by simp
      show "k2 \<le> n" using le aux' by simp
    qed
    then obtain rest_is where "code = (acc @ [i]) @ rest_is" "\<forall>i \<in> set rest_is. fits_instruction i"
      "unat n = unat k2 + nat_words rest_is" "4 * nat_words rest_is \<le> remaining r2"
      "r' = advance (4 * nat_words rest_is) r2" by blast
    with fit uk2 aux' len show ?thesis
      by (intro exI [of _ "i # rest_is"]) (auto simp: algebra_simps)
  qed
qed

interpretation wf_code: wire_format "fold w_instruction" "decode_code n 0 []" "fits_code n" for n
proof (rule wire_formatI)
  show "parses (decode_code n 0 []) (fold w_instruction code []) code" if "fits_code n code" for code
    using that decode_code_enc [of code n 0 _ _ "[]"]
    by (auto simp: fits_code_def length_code_bytes intro!: parsesI)
  show "yields (decode_code n 0 []) (\<lambda>code k. fits_code n code \<and> length (fold w_instruction code []) \<le> k)"
    by (rule yieldsI) (force simp: fits_code_def length_code_bytes dest: decode_code_sound)
qed simp

section \<open>Protos\<close>

text \<open>What a proto must satisfy to survive the wire: the decoder returns exactly such protos.\<close>

definition needs_cost :: "u8 \<Rightarrow> proto \<Rightarrow> bool" where
  "needs_cost version p \<longleftrightarrow> has_extended_proto_layout version \<and> proto_flags p AND PROTO_INLINABLE \<noteq> 0"

definition wf_proto :: "u8 \<Rightarrow> proto \<Rightarrow> bool" where
  "wf_proto version p \<longleftrightarrow>
     length (type_raw (proto_type_info p)) < 2 ^ 32
     \<and> (\<forall>i \<in> set (p_code p). fits_instruction i) \<and> nat_words (p_code p) < 2 ^ 32
     \<and> fits_vec fits_constant (p_constants p) \<and> length (p_child_protos p) < 2 ^ 32
     \<and> (\<forall>li. proto_line_info p = Some li \<longrightarrow> fits_line_info (code_word_count (p_code p)) li)
     \<and> (\<forall>d. proto_debug_info p = Some d \<longrightarrow> fits_debug_info d)
     \<and> (if 11 \<le> version then length (p_feedback_slots p) < 2 ^ 32 else p_feedback_slots p = [])
     \<and> (p_cost p \<noteq> None \<longleftrightarrow> needs_cost version p)"

lemma wf_protoD:
  assumes "wf_proto version p"
  shows "length (type_raw (proto_type_info p)) < 2 ^ 32"
    and "fits_code (code_word_count (p_code p)) (p_code p)"
    and "fits_vec fits_constant (p_constants p)" and "length (p_child_protos p) < 2 ^ 32"
    and "proto_line_info p = Some li \<Longrightarrow> fits_line_info (code_word_count (p_code p)) li"
    and "proto_debug_info p = Some d \<Longrightarrow> fits_debug_info d"
    and "11 \<le> version \<Longrightarrow> length (p_feedback_slots p) < 2 ^ 32"
    and "\<not> 11 \<le> version \<Longrightarrow> p_feedback_slots p = []"
    and "p_cost p \<noteq> None \<longleftrightarrow> needs_cost version p"
  using assms by (auto simp: wf_proto_def fits_code_def unat_code_word_count)

text \<open>The writer calls of one proto in order, when no instruction is refused and a due cost is there.\<close>

definition proto_calls :: "u8 \<Rightarrow> proto \<Rightarrow> (writer \<Rightarrow> writer) list" where
  "proto_calls version p =
     [w_u8 (max_stack_size p), w_u8 (num_params p), w_u8 (num_upvalues p), w_u8 (is_vararg p),
      w_u8 (proto_flags p), w_len (type_raw (proto_type_info p)), w_bytes (type_raw (proto_type_info p)),
      w_var_u32 (code_word_count (p_code p)), fold w_instruction (p_code p),
      w_vec encode_constant (p_constants p), w_vec w_var_u32 (p_child_protos p),
      w_var_u32 (line_defined p), w_var_u32 (debug_name p)]
     @ (case proto_line_info p of None \<Rightarrow> [w_u8 0] | Some li \<Rightarrow> [w_u8 1, w_line_info li])
     @ (case proto_debug_info p of None \<Rightarrow> [w_u8 0] | Some d \<Rightarrow> [w_u8 1, w_debug_info d])
     @ (if 11 \<le> version then [w_vec w_feedback_slot (p_feedback_slots p)] else [])
     @ (if needs_cost version p then [w_var_u64 (the (p_cost p))] else [])"

lemma encode_code_eq_Inr:
  "encode_code proto_index index code w = Inr w' \<longleftrightarrow>
     (\<forall>i \<in> set code. is_header_consistent i) \<and> w' = fold w_instruction code w"
  by (induction code arbitrary: index w) auto

lemma w_all_append: "w_all (fs @ gs) w = w_all gs (w_all fs w)"
  by (simp add: w_all_def)

lemma encode_proto_eq_Inr:
  "encode_proto version proto_index p w = Inr w' \<longleftrightarrow>
     (\<forall>i \<in> set (p_code p). is_header_consistent i) \<and> (needs_cost version p \<longrightarrow> p_cost p \<noteq> None)
     \<and> w' = w_all (proto_calls version p) w"
proof -
  let ?w = "w_proto_tail version p (fold w_instruction (p_code p) (w_proto_head p w))"
  have calls: "w_all (proto_calls version p) w =
      (if needs_cost version p then w_var_u64 (the (p_cost p)) ?w else ?w)"
    by (simp add: proto_calls_def w_proto_tail_def w_proto_head_def w_all_def w_var_u32_def)
  show ?thesis
  proof (cases "\<forall>i \<in> set (p_code p). is_header_consistent i")
    case True
    then have "encode_code proto_index 0 (p_code p) (w_proto_head p w) =
        Inr (fold w_instruction (p_code p) (w_proto_head p w))"
      by (simp add: encode_code_eq_Inr)
    with True calls show ?thesis
      by (auto simp: encode_proto_def Let_def needs_cost_def split: option.split)
  next
    case False
    then obtain e where "encode_code proto_index 0 (p_code p) (w_proto_head p w) = Inl e"
      using encode_code_eq_Inr by (metis sum.exhaust)
    with False show ?thesis by (simp add: encode_proto_def)
  qed
qed

lemma appends_proto_calls: "\<forall>f \<in> set (proto_calls version p). appends f"
  by (cases "proto_line_info p"; cases "proto_debug_info p")
    (auto simp: proto_calls_def wf_constant.indexed.appends_vec wf_feedback_slot.indexed.appends_vec
      wf_line_info.indexed.appends_enc wf_debug_info.indexed.appends_enc)

text \<open>Optional and version-dependent sections.\<close>

context wire_format
begin

lemma option_step:
  assumes "\<And>v. x = Some v \<Longrightarrow> fits v" and "parses (k x) (run_bytes fs) y"
  shows "parses (rbind (rd_u8 label) (\<lambda>flag.
      rbind (if flag \<noteq> 0 then rbind dec (\<lambda>v. rpure (Some v)) else rpure None) k))
    (run_bytes ((case x of None \<Rightarrow> [w_u8 0] | Some v \<Rightarrow> [w_u8 1, enc v]) @ fs)) y"
proof (cases x)
  case None
  with assms(2) show ?thesis
    by (simp, intro wire_step, simp) (rule parses_skip [OF parses_pure], simp)
next
  case (Some v)
  have "parses (rbind dec (\<lambda>v. rpure (Some v))) (enc v []) (Some v)"
    by (rule parses_bind_end [OF dec_enc [OF assms(1) [OF Some]] parses_pure])
  from parses_step [where f = "enc v", OF this] Some assms(2) show ?thesis
    by (simp, intro wire_step, simp)
qed

end

lemma type_info_step:
  assumes "length (type_raw t) < 2 ^ 32" and "parses (k t) (run_bytes fs) y"
  shows "parses (rbind decode_type_info k) (run_bytes (w_len (type_raw t) # w_bytes (type_raw t) # fs)) y"
proof -
  have "w_type_info t [] = run_bytes [w_len (type_raw t), w_bytes (type_raw t)]"
    by (simp add: w_type_info_def w_all_Nil)
  with wf_type_info.step [of t k fs y] assms show ?thesis by (simp add: run_bytes_def)
qed

lemma conditional_step:
  assumes "c \<Longrightarrow> parses m (f []) x" and "\<not> c \<Longrightarrow> d = x" and "parses (k x) (run_bytes fs) y"
  shows "parses (rbind (if c then m else rpure d) k) (run_bytes ((if c then [f] else []) @ fs)) y"
  using assms by (auto intro: parses_step [where f = f] parses_skip [OF parses_pure])

lemmas conditional_last = conditional_step [where fs = "[]", unfolded append_Nil2]

lemma parses_proto:
  assumes wf: "wf_proto version p"
  shows "parses (decode_proto version) (w_all (proto_calls version p) []) p"
proof -
  note D = wf_protoD [OF wf]
  have cost: "parses (rbind (rd_var_u64 label) (\<lambda>c. rpure (Some c))) (w_var_u64 (the (p_cost p)) []) (p_cost p)"
    if "needs_cost version p" for label
    using that D(9) parses_bind_end [OF primitive_dec_enc(5) parses_pure, of label Some "the (p_cost p)"]
    by auto
  have slots: "parses (rd_vec label rd_feedback_slot) (w_vec w_feedback_slot (p_feedback_slots p) [])
      (p_feedback_slots p)" if "11 \<le> version" for label
    using that D(7) by (intro wire_format.dec_enc [OF wf_feedback_slot.vec]) (simp add: fits_vec_def)
  have no_cost: "None = p_cost p"
    if "\<not> (has_extended_proto_layout version \<and> proto_flags p AND PROTO_INLINABLE \<noteq> 0)"
    using that D(9) unfolding needs_cost_def by auto
  have children: "fits_vec (\<lambda>_. True) (p_child_protos p)"
    using D(4) by (simp add: fits_vec_def)
  have "parses (decode_proto version) (run_bytes (proto_calls version p)) p"
    unfolding decode_proto_def proto_calls_def needs_cost_def append_Cons append_Nil
    by (rule wire_step type_info_step [OF D(1)] wf_code.step [OF D(2)] wf_constant.vec_step [OF D(3)]
        children)+
      (rule wf_line_info.option_step, erule D(5),
       rule wf_debug_info.option_step, erule D(6),
       rule conditional_step, erule slots, simp add: D(8),
       rule conditional_last, rule cost, simp add: needs_cost_def,
       erule no_cost,
       simp add: parses_stop)
  then show ?thesis by (simp add: w_all_Nil appends_proto_calls)
qed

lemma length_run_Cons: "length (run_bytes (f # fs)) = length (f []) + length (run_bytes fs)"
  by (simp add: run_bytes_def)

lemmas length_run = length_run_Cons run_bytes_append length_append

context wire_format
begin

lemma option_sound:
  "yields (if c then rbind dec (\<lambda>v. rpure (Some v)) else rpure None)
    (\<lambda>x n. (\<forall>v. x = Some v \<longrightarrow> fits v) \<and>
       length (run_bytes (case x of None \<Rightarrow> [w_u8 0] | Some v \<Rightarrow> [w_u8 1, enc v])) \<le> 1 + n)"
  by (cases c) (auto intro!: yields_bind [OF dec_sound] yields_pure simp: run_bytes_def)

lemma conditional_vec_sound:
  "yields (if c then rd_vec label dec else rpure [])
    (\<lambda>x n. (if c then fits_vec fits x else x = []) \<and>
       length (run_bytes (if c then [w_vec enc x] else [])) \<le> n)"
  by (cases c) (auto intro!: yields_mono [OF vec_sound] yields_pure simp: run_bytes_def)

end

lemma yields_cost:
  "yields (if c then rbind (rd_var_u64 label) (\<lambda>v. rpure (Some v)) else rpure None)
    (\<lambda>x n. (x \<noteq> None \<longleftrightarrow> c) \<and> length (run_bytes (if c then [w_var_u64 (the x)] else [])) \<le> n)"
  by (cases c) (auto intro!: yields_bind [OF wf_var_u64.dec_sound] yields_pure simp: run_bytes_def)

lemma length_w_type_info:
  "length (w_type_info t []) = length (w_len (type_raw t) []) + length (w_bytes (type_raw t) [])"
  by (simp add: w_type_info_def wire_size)

lemma fits_code_count: "fits_code n code \<Longrightarrow> code_word_count code = n"
  by (simp add: fits_code_def code_word_count_of_nat)

lemma length_run_Nil: "length (run_bytes []) = 0"
  by (simp add: run_bytes_def)

lemma yields_proto:
  "yields (decode_proto version)
     (\<lambda>p n. wf_proto version p \<and> length (w_all (proto_calls version p) []) \<le> n)"
  unfolding decode_proto_def w_all_Nil [OF appends_proto_calls]
  by ((rule yields_bind,
        rule wire_sound wf_type_info.dec_sound wf_code.dec_sound wf_constant.vec_sound
          wf_line_info.option_sound wf_debug_info.option_sound
          wf_feedback_slot.conditional_vec_sound yields_cost)+,
      rule yields_pure, rule conjI,
      (auto simp: wf_proto_def needs_cost_def fits_code_def code_word_count_of_nat fits_vec_def
        split: if_splits)[1],
      elim conjE,
      simp only: proto_calls_def needs_cost_def length_run length_run_Nil length_w_type_info
        fits_code_count proto.simps primitive_lengths)

interpretation wf_proto: wire_format "\<lambda>p. w_all (proto_calls version p)" "decode_proto version"
    "wf_proto version" for version
  by (rule wire_formatI) (simp_all add: appends_w_all appends_proto_calls parses_proto yields_proto)

section \<open>Protos inside a chunk\<close>

definition w_one_proto :: "u8 \<Rightarrow> proto \<Rightarrow> writer \<Rightarrow> writer" where
  "w_one_proto version p =
     (if has_extended_proto_layout version then w_string (w_all (proto_calls version p) [])
      else w_all (proto_calls version p))"

definition fits_one_proto :: "u8 \<Rightarrow> proto \<Rightarrow> bool" where
  "fits_one_proto version p \<longleftrightarrow> wf_proto version p \<and>
     (has_extended_proto_layout version \<longrightarrow> length (w_all (proto_calls version p) []) < 2 ^ 32)"

lemma decode_proto_payload:
  assumes "wf_proto version p"
  shows "decode_proto version (reader_new (w_all (proto_calls version p) []))
    = Inr (p, advance (length (w_all (proto_calls version p) [])) (reader_new (w_all (proto_calls version p) [])))"
  by (rule parsesD [OF parses_proto [OF assms], where ys = "[]"]) simp

lemma is_eof_advance: "is_eof (advance n (reader_new bs)) \<longleftrightarrow> n = length bs"
  by (simp add: is_eof_def advance_def reader_new_def)

lemma parses_payload:
  assumes "decode_proto version (reader_new bs) = Inr (p, advance (length bs) (reader_new bs))"
  shows "parses (\<lambda>r. case decode_proto version (reader_new bs) of Inl e \<Rightarrow> Inl e
      | Inr (p, proto_reader) \<Rightarrow>
          if \<not> is_eof proto_reader then Inl (msg proto_reader) else Inr (p, r)) (run_bytes []) p"
  using assms by (simp add: parses_def run_bytes_def is_eof_advance)

text \<open>The length prefix of a shorter payload is not longer.\<close>

lemma length_write_varint_mono:
  "unat a \<le> unat b \<Longrightarrow> length (write_varint [] a) \<le> length (write_varint [] b)"
proof (induction "unat b" arbitrary: a b rule: less_induct)
  case less
  let ?a = "drop_bit 7 a" and ?b = "drop_bit 7 b"
  have u: "unat ?a = unat a div 128" "unat ?b = unat b div 128"
    using unat_drop_bit_eq [of 7 a] unat_drop_bit_eq [of 7 b] by (simp_all add: drop_bit_eq_div)
  then have le: "unat ?a \<le> unat ?b" using less.prems by (simp add: div_le_mono)
  show ?case
  proof (cases "?b = 0")
    case True
    with le have "?a = 0" by (simp add: unat_eq_zero)
    with True show ?thesis by (simp add: write_varint_Nil [of a] write_varint_Nil [of b])
  next
    case False
    then have "0 < unat ?b" by (simp add: unat_gt_0)
    with u(2) have "unat ?b < unat b" by (cases "unat b = 0") simp_all
    from less.hyps [OF this le] False show ?thesis
      by (simp add: write_varint_Nil [of a] write_varint_Nil [of b])
  qed
qed

lemma length_w_len_mono:
  assumes "length bs \<le> unat sz"
  shows "length (w_len bs []) \<le> length (w_var_u32 sz [])"
proof -
  have "unat (of_nat (length bs) :: u64) \<le> unat (ucast sz :: u64)"
    using assms unat_bounds(3) [of sz] by (subst unat_of_nat_eq) (simp_all del: unat_bounds)
  then show ?thesis
    by (simp add: w_len_def w_var_u32_def w_var_u64_def length_write_varint_mono)
qed

lemma yields_payload:
  assumes ext: "has_extended_proto_layout version" and len: "length bs = unat sz \<and> m = unat sz"
    and sz: "True \<and> length (w_var_u32 sz []) \<le> n"
  shows "yields (\<lambda>r. case decode_proto version (reader_new bs) of Inl e \<Rightarrow> Inl e
      | Inr (p, proto_reader) \<Rightarrow>
          if \<not> is_eof proto_reader then Inl (msg proto_reader) else Inr (p, r))
    (\<lambda>p k. fits_one_proto version p \<and> length (w_one_proto version p []) \<le> n + (m + k))"
proof (rule yieldsI)
  fix r r' :: reader and p
  assume "(case decode_proto version (reader_new bs) of Inl e \<Rightarrow> Inl e
      | Inr (p, proto_reader) \<Rightarrow>
          if \<not> is_eof proto_reader then Inl (msg proto_reader) else Inr (p, r)) = Inr (p, r')"
  then obtain pr where dec: "decode_proto version (reader_new bs) = Inr (p, pr)" and "is_eof pr" and r': "r' = r"
    by (auto split: sum.splits if_splits)
  have "remaining (reader_new bs) < 2 ^ 32" using len by (simp add: remaining_def reader_new_def)
  from yieldsD [OF yields_proto this dec] obtain k where "pr = advance k (reader_new bs)"
    and p: "wf_proto version p" "length (w_all (proto_calls version p) []) \<le> k" by blast
  with \<open>is_eof pr\<close> len have k: "k = unat sz" by (simp add: is_eof_advance)
  have "length (w_len (w_all (proto_calls version p) []) []) \<le> n"
    using length_w_len_mono [of "w_all (proto_calls version p) []" sz] p k sz by simp
  with p k r' ext len show "\<exists>k \<le> remaining r. r' = advance k r \<and>
      fits_one_proto version p \<and> length (w_one_proto version p []) \<le> n + (m + k)"
    by (intro exI [of _ 0])
      (simp add: fits_one_proto_def w_one_proto_def w_string_def wire_size order_le_less_trans [OF _ unat_bounds(3)])
qed

interpretation wf_one_proto:
  indexed_wire_format "w_one_proto version" "decode_one_proto version" "fits_one_proto version" for version
proof (rule indexed_wire_format.intro, rule wire_formatI)
  show "appends (w_one_proto version p)" for p
    by (simp add: w_one_proto_def appends_w_all appends_proto_calls wf_string.appends_enc)
  show "parses (decode_one_proto version i) (w_one_proto version p []) p"
    if "fits_one_proto version p" for p i
  proof (cases "has_extended_proto_layout version")
    case False
    with that show ?thesis
      by (simp add: decode_one_proto_def w_one_proto_def fits_one_proto_def parses_proto)
  next
    case True
    let ?bs = "w_all (proto_calls version p) []"
    have fit: "wf_proto version p" "length ?bs < 2 ^ 32"
      using that True by (simp_all add: fits_one_proto_def)
    have "parses (decode_one_proto version i) (run_bytes [w_len ?bs, w_bytes ?bs]) p"
      unfolding decode_one_proto_def using True
      by (simp only: not_True_eq_False if_False, intro wire_step parses_payload decode_proto_payload fit)
        (simp_all add: fit)
    with True show ?thesis by (simp add: w_one_proto_def w_string_def w_all_Nil)
  qed
  show "yields (decode_one_proto version i)
      (\<lambda>p n. fits_one_proto version p \<and> length (w_one_proto version p []) \<le> n)" for i
  proof (cases "has_extended_proto_layout version")
    case False
    then show ?thesis
      using yields_proto [of version]
      by (simp add: decode_one_proto_def w_one_proto_def fits_one_proto_def)
  next
    case True
    show ?thesis
      unfolding decode_one_proto_def using True
      by (simp only: not_True_eq_False if_False)
        ((rule yields_bind, rule wire_sound yields_take)+, rule yields_payload)
  qed
qed

section \<open>Userdata type mappings\<close>

lemma w_mapping_bytes: "w_mapping m [] = w_u8 (type_index m) [] @ w_var_u32 (mapping_name m) []"
  by (simp add: w_mapping_def wire_size)

lemma appends_mapping [simp]: "appends (w_mapping m)"
  unfolding w_mapping_def by (rule appends_w_all) simp

lemma appends_mapping_fold: "(\<And>x. appends (f x)) \<Longrightarrow> appends (fold f xs)"
proof (induction xs)
  case (Cons x xs)
  then have xs: "appends (fold f xs)" and x: "appends (f x)" by auto
  show ?case
  proof (rule appendsI)
    fix w
    have "fold f xs (f x w) = (w @ f x []) @ fold f xs []"
      using appendsD [OF xs, of "f x w"] appendsD [OF x, of w] by simp
    moreover have "fold f xs (f x []) = f x [] @ fold f xs []" by (rule appendsD [OF xs])
    ultimately show "fold f (x # xs) w = w @ fold f (x # xs) []" by simp
  qed
qed (simp add: appends_def)

lemma rd_u8_w_u8: "rest r = w_u8 b [] @ ys \<Longrightarrow> rd_u8 label r = Inr (b, advance 1 r)"
  using parsesD [OF primitive_dec_enc(1), of r b ys label] by simp

lemma decode_mappings_enc:
  assumes "\<forall>m \<in> set ms. type_index m \<noteq> 0" "rest r = fold w_mapping ms [] @ w_u8 0 [] @ ys"
  shows "decode_mappings acc r = Inr (acc @ ms, advance (length (fold w_mapping ms []) + 1) r)"
  using assms
proof (induction ms arbitrary: acc r)
  case Nil
  then show ?case by (simp add: decode_mappings.simps rd_u8_w_u8)
next
  case (Cons m ms)
  have fold_bytes: "fold w_mapping (m # ms) [] = w_u8 (type_index m) [] @ w_var_u32 (mapping_name m) [] @ fold w_mapping ms []"
    using appendsD [OF appends_mapping_fold [of w_mapping ms], of "w_mapping m []"] by (simp add: w_mapping_bytes)
  let ?r1 = "advance 1 r" and ?n = "length (w_var_u32 (mapping_name m) [])"
  have b: "rd_u8 ''userdata type mapping index'' r = Inr (type_index m, ?r1)"
    using Cons.prems(2) fold_bytes by (intro rd_u8_w_u8) simp
  have r1: "rest ?r1 = w_var_u32 (mapping_name m) [] @ fold w_mapping ms [] @ w_u8 0 [] @ ys"
    using Cons.prems(2) unfolding fold_bytes by (simp add: w_u8_def)
  have "rd_var_u32 ''userdata type name'' ?r1 = Inr (mapping_name m, advance ?n ?r1)"
    by (rule parsesD [OF primitive_dec_enc(6) r1])
  then have "decode_mappings acc r = decode_mappings (acc @ [m]) (advance ?n ?r1)"
    using b Cons.prems(1) by (cases m) (simp add: decode_mappings.simps [of acc r])
  also have "\<dots> = Inr ((acc @ [m]) @ ms, advance (length (fold w_mapping ms []) + 1) (advance ?n ?r1))"
    using Cons.prems(1) r1 by (intro Cons.IH) (simp_all del: advance_advance)
  finally show ?case unfolding fold_bytes by (simp add: algebra_simps)
qed

lemma decode_mappings_sound:
  assumes "decode_mappings acc r = Inr (res, r')" "remaining r < 2 ^ 32"
  shows "\<exists>ms n. res = acc @ ms \<and> (\<forall>m \<in> set ms. type_index m \<noteq> 0) \<and> n \<le> remaining r
     \<and> r' = advance n r \<and> length (fold w_mapping ms []) + 1 \<le> n"
  using assms
proof (induction acc r rule: decode_mappings.induct)
  case (1 acc r)
  from "1.prems"(1) obtain b r1 where b: "rd_u8 ''userdata type mapping index'' r = Inr (b, r1)"
    by (subst (asm) decode_mappings.simps) (auto split: sum.splits)
  note r1 = rd_u8_progress [OF b]
  show ?case
  proof (cases "b = 0")
    case True
    with "1.prems"(1) b r1 show ?thesis
      by (intro exI [of _ "[]"] exI [of _ 1]) (simp add: decode_mappings.simps [of acc r])
  next
    case False
    with "1.prems"(1) b obtain name r2 where name: "rd_var_u32 ''userdata type name'' r1 = Inr (name, r2)"
      and go: "decode_mappings (acc @ [\<lparr>type_index = b, mapping_name = name\<rparr>]) r2 = Inr (res, r')"
      by (subst (asm) decode_mappings.simps) (auto split: sum.splits if_splits)
    have "remaining r1 < 2 ^ 32" using "1.prems"(2) r1 by simp
    from yieldsD [OF wf_var_u32.dec_sound this name] obtain k where
      k: "k \<le> remaining r1" "r2 = advance k r1" "length (w_var_u32 name []) \<le> k" by blast
    have r2: "remaining r2 < 2 ^ 32" using k(2) r1 "1.prems"(2) by simp
    from "1.IH" [OF b refl False name refl go r2] obtain ms n where
      ms: "res = (acc @ [\<lparr>type_index = b, mapping_name = name\<rparr>]) @ ms" "\<forall>m \<in> set ms. type_index m \<noteq> 0"
        "n \<le> remaining r2" "r' = advance n r2" "length (fold w_mapping ms []) + 1 \<le> n" by blast
    let ?ms = "\<lparr>type_index = b, mapping_name = name\<rparr> # ms"
    have "length (fold w_mapping ?ms []) = 1 + length (w_var_u32 name []) + length (fold w_mapping ms [])"
      using appendsD [OF appends_mapping_fold [of w_mapping ms], of "w_mapping \<lparr>type_index = b, mapping_name = name\<rparr> []"]
      by (simp add: w_mapping_bytes)
    with ms k r1 False show ?thesis
      by (intro exI [of _ ?ms] exI [of _ "1 + k + n"]) auto
  qed
qed

definition w_mappings :: "userdata_type_mapping list \<Rightarrow> writer \<Rightarrow> writer" where
  "w_mappings ms = w_all [fold w_mapping ms, w_u8 0]"

interpretation wf_mappings: wire_format w_mappings "decode_mappings []" "\<lambda>ms. \<forall>m \<in> set ms. type_index m \<noteq> 0"
proof (rule wire_formatI)
  show "appends (w_mappings ms)" for ms
    unfolding w_mappings_def by (rule appends_w_all) (simp add: appends_mapping_fold)
  have bytes: "w_mappings ms [] = fold w_mapping ms [] @ w_u8 0 []" for ms
    by (simp add: w_mappings_def wire_size appends_mapping_fold)
  show "parses (decode_mappings []) (w_mappings ms []) ms" if "\<forall>m \<in> set ms. type_index m \<noteq> 0" for ms
    using decode_mappings_enc [OF that, of _ _ "[]"] by (auto simp: bytes intro!: parsesI)
  show "yields (decode_mappings [])
      (\<lambda>ms n. (\<forall>m \<in> set ms. type_index m \<noteq> 0) \<and> length (w_mappings ms []) \<le> n)"
    by (rule yieldsI) (force simp: bytes dest: decode_mappings_sound)
qed

section \<open>Whole chunks\<close>

definition wf_chunk :: "version_policy \<Rightarrow> valid_chunk \<Rightarrow> bool" where
  "wf_chunk policy c \<longleftrightarrow>
     accepts policy (bytecode_version c) \<and> 1 \<le> type_version c \<and> type_version c \<le> 3
     \<and> fits_vec (\<lambda>s. length s < 2 ^ 32) (ch_strings c)
     \<and> (\<forall>m \<in> set (ch_userdata_type_mappings c). type_index m \<noteq> 0)
     \<and> fits_vec (fits_one_proto (bytecode_version c)) (ch_protos c)"

definition chunk_calls :: "valid_chunk \<Rightarrow> (writer \<Rightarrow> writer) list" where
  "chunk_calls c =
     [w_u8 (type_version c), w_vec w_string (ch_strings c), w_mappings (ch_userdata_type_mappings c),
      w_vec (w_one_proto (bytecode_version c)) (ch_protos c), w_var_u32 (ch_main_proto c)]"

lemma appends_chunk_calls: "\<forall>f \<in> set (chunk_calls c). appends f"
  by (simp add: chunk_calls_def wf_string.appends_vec wf_mappings.indexed.appends_enc wf_one_proto.appends_vec)

definition encodable :: "u8 \<Rightarrow> proto \<Rightarrow> bool" where
  "encodable version p \<longleftrightarrow>
     (\<forall>i \<in> set (p_code p). is_header_consistent i) \<and> (needs_cost version p \<longrightarrow> p_cost p \<noteq> None)"

lemma encode_one_proto_eq_Inr:
  "encode_one_proto version k p w = Inr w' \<longleftrightarrow> encodable version p \<and> w' = w_one_proto version p w"
proof (cases "encodable version p")
  case True
  then have "encode_proto version k p u = Inr (w_all (proto_calls version p) u)" for u
    by (simp add: encode_proto_eq_Inr encodable_def)
  with True show ?thesis
    by (auto simp: encode_one_proto_def w_one_proto_def w_string_def w_all_def)
next
  case False
  then have "encode_proto version k p u \<noteq> Inr v" for u v
    by (auto simp: encode_proto_eq_Inr encodable_def)
  then have "\<exists>e. encode_proto version k p u = Inl e" for u
    by (metis sum.exhaust)
  from this [of w] this [of "[]"] False show ?thesis
    by (auto simp: encode_one_proto_def)
qed

lemma encode_protos_eq_Inr:
  "encode_protos version k ps w = Inr w' \<longleftrightarrow>
     (\<forall>p \<in> set ps. encodable version p) \<and> w' = fold (w_one_proto version) ps w"
proof (induction ps arbitrary: k w)
  case (Cons p ps)
  show ?case
  proof (cases "encode_one_proto version k p w")
    case (Inl e)
    then show ?thesis using encode_one_proto_eq_Inr [of version k p w "w_one_proto version p w"] by simp
  next
    case (Inr u)
    then show ?thesis using encode_one_proto_eq_Inr [of version k p w u] by (simp add: Cons)
  qed
qed auto

lemma encode_chunk_eq_Inr:
  "encode_chunk_with_policy (Chunk_Valid c) policy = Inr bs \<longleftrightarrow>
     accepts policy (bytecode_version c) \<and> (\<forall>p \<in> set (ch_protos c). encodable (bytecode_version c) p)
     \<and> bs = w_all (w_u8 (bytecode_version c) # chunk_calls c) []"
proof -
  let ?v = "bytecode_version c"
  let ?w = "w_all [w_u8 ?v, w_u8 (type_version c), w_vec w_string (ch_strings c),
    fold w_mapping (ch_userdata_type_mappings c), w_u8 0, w_len (ch_protos c)] []"
  have "w_all (w_u8 ?v # chunk_calls c) [] = w_var_u32 (ch_main_proto c) (fold (w_one_proto ?v) (ch_protos c) ?w)"
    by (simp add: chunk_calls_def w_all_def w_mappings_def w_vec_def)
  moreover have "encode_chunk_with_policy (Chunk_Valid c) policy = Inr bs \<longleftrightarrow> accepts policy ?v
      \<and> (\<exists>w. encode_protos ?v 0 (ch_protos c) ?w = Inr w \<and> bs = w_var_u32 (ch_main_proto c) w)"
    unfolding encode_chunk_with_policy_def bytecode_chunk.case
    by (cases "encode_protos ?v 0 (ch_protos c) ?w") auto
  ultimately show ?thesis by (simp add: encode_protos_eq_Inr)
qed

text \<open>The part of the decoder behind the version byte.\<close>

definition rd_chunk_body :: "u8 \<Rightarrow> valid_chunk rd" where
  "rd_chunk_body version =
     rbind (rd_u8 ''type encoding version'') (\<lambda>tv.
     if \<not> (1 \<le> tv \<and> tv \<le> 3) then
       rfail (''unsupported bytecode type encoding version '' @ show_word tv)
     else
       rbind decode_string_table (\<lambda>strs.
       rbind (decode_mappings []) (\<lambda>mappings.
       rbind (rd_vec_idx ''proto count'' (decode_one_proto version)) (\<lambda>ps.
       rbind (rd_var_u32 ''main proto id'') (\<lambda>main.
       rpure \<lparr>bytecode_version = version, type_version = tv, ch_strings = strs,
         ch_userdata_type_mappings = mappings, ch_protos = ps, ch_main_proto = main\<rparr>)))))"

lemma parses_chunk_body:
  assumes "wf_chunk policy c"
  shows "parses (rd_chunk_body (bytecode_version c)) (run_bytes (chunk_calls c)) c"
proof -
  have tv: "1 \<le> type_version c \<and> type_version c \<le> 3" and
    fits: "fits_vec (\<lambda>s. length s < 2 ^ 32) (ch_strings c)"
      "\<forall>m \<in> set (ch_userdata_type_mappings c). type_index m \<noteq> 0"
      "fits_vec (fits_one_proto (bytecode_version c)) (ch_protos c)"
    using assms by (simp_all add: wf_chunk_def)
  show ?thesis
    unfolding rd_chunk_body_def chunk_calls_def decode_string_table_def
    by (rule wire_step, simp only: tv simp_thms if_False)
      (intro wire_format.step [OF wf_string.vec fits(1)] wf_mappings.step [OF fits(2)]
        wire_format.step [OF wf_one_proto.vec fits(3)] wire_step parses_stop, simp)
qed

lemma yields_chunk_body:
  "accepts policy version \<Longrightarrow>
   yields (rd_chunk_body version) (\<lambda>c n. wf_chunk policy c \<and> bytecode_version c = version
     \<and> length (run_bytes (chunk_calls c)) \<le> n)"
  unfolding rd_chunk_body_def decode_string_table_def
  by (rule yields_bind, rule wire_sound, rule yields_guard,
      (rule yields_bind, rule wire_sound wire_format.dec_sound [OF wf_string.vec] wf_mappings.dec_sound
        wire_format.dec_sound [OF wf_one_proto.vec])+, rule yields_pure)
    (auto simp: wf_chunk_def chunk_calls_def length_run length_run_Nil)

lemma decode_chunk_cases:
  "decode_chunk_with_policy (version # bs) policy =
     (if version = 0 then Inr (Chunk_Error bs)
      else if \<not> accepts policy version then
        Inl (DecodeError (unsupported_version_message policy version))
      else
        (case rd_chunk_body version (advance 1 (reader_new (version # bs))) of
           Inl e \<Rightarrow> Inl e
         | Inr (c, r) \<Rightarrow>
             if \<not> is_eof r then
               Inl (DecodeError (''trailing '' @ show_nat (remaining r) @ '' byte(s) after main proto''))
             else Inr (Chunk_Valid c)))"
  using rd_u8_Cons [of "reader_new (version # bs)" version bs]
  by (simp add: decode_chunk_with_policy_def rd_chunk_body_def)

lemma wf_chunk_encodable: "wf_chunk policy c \<Longrightarrow> p \<in> set (ch_protos c) \<Longrightarrow> encodable (bytecode_version c) p"
  by (auto simp: wf_chunk_def fits_vec_def fits_one_proto_def wf_proto_def fits_instruction_def encodable_def)

lemma encode_wf_chunk:
  assumes "wf_chunk policy c"
  shows "encode_chunk_with_policy (Chunk_Valid c) policy
    = Inr (bytecode_version c # run_bytes (chunk_calls c))"
proof -
  have "w_all (w_u8 (bytecode_version c) # chunk_calls c) [] = bytecode_version c # run_bytes (chunk_calls c)"
    by (simp add: w_all_Nil appends_chunk_calls run_bytes_def w_u8_def)
  with assms wf_chunk_encodable [OF assms] show ?thesis
    by (simp add: encode_chunk_eq_Inr wf_chunk_def)
qed

lemma decode_chunk_bytes:
  assumes "wf_chunk policy c"
  shows "decode_chunk_with_policy (bytecode_version c # run_bytes (chunk_calls c) @ extra) policy =
    (if extra = [] then Inr (Chunk_Valid c)
     else Inl (DecodeError (''trailing '' @ show_nat (length extra) @ '' byte(s) after main proto'')))"
proof -
  let ?v = "bytecode_version c" and ?bs = "run_bytes (chunk_calls c)"
  let ?r = "reader_new (?v # ?bs @ extra)"
  have acc: "accepts policy ?v" and "?v \<noteq> 0"
    using assms accepts_nonzero [of policy ?v] by (auto simp: wf_chunk_def)
  have "rd_chunk_body ?v (advance 1 ?r) = Inr (c, advance (length ?bs) (advance 1 ?r))"
    by (rule parsesD [OF parses_chunk_body [OF assms], where ys = extra]) simp
  moreover have "is_eof (advance (length ?bs) (advance 1 ?r)) \<longleftrightarrow> extra = []"
    by (simp add: is_eof_advance)
  moreover have "remaining (advance (length ?bs) (advance 1 ?r)) = length extra"
    by (simp add: remaining_def reader_new_def advance_def)
  ultimately show ?thesis
    using acc \<open>?v \<noteq> 0\<close> by (simp only: decode_chunk_cases) simp
qed

lemma decode_chunk_sound:
  assumes "decode_chunk_with_policy bs policy = Inr (Chunk_Valid c)" "length bs < 2 ^ 32"
  shows "wf_chunk policy c \<and> Suc (length (run_bytes (chunk_calls c))) \<le> length bs"
proof (cases bs)
  case Nil
  with assms(1) show ?thesis
    by (simp add: decode_chunk_with_policy_def rd_u8_def rbind_def rd_take_eq remaining_def reader_new_def)
next
  case (Cons v rest_bs)
  let ?r = "advance 1 (reader_new (v # rest_bs))"
  from assms(1) obtain r' where v: "accepts policy v" and run: "rd_chunk_body v ?r = Inr (c, r')"
    unfolding Cons decode_chunk_cases by (auto split: if_splits sum.splits)
  have rem: "remaining ?r = length rest_bs" by (simp add: remaining_def reader_new_def advance_def)
  then have "remaining ?r < 2 ^ 32" using assms(2) Cons by simp
  from yieldsD [OF yields_chunk_body [OF v] this run] rem Cons show ?thesis by fastforce
qed

section \<open>A sample chunk\<close>

definition sample_proto :: proto where
  "sample_proto =
     \<lparr>max_stack_size = 2, num_params = 0, num_upvalues = 0, is_vararg = 1, proto_flags = 0,
      proto_type_info = \<lparr>type_raw = [4, 0, 0, 0]\<rparr>,
      p_code = [abc Op_PrepVarargs 0 0 0, abc_with_aux Op_GetGlobal 0 0 7 (Some 0), ad Op_LoadN 1 (- 3),
        abc Op_Return 0 3 0],
      p_constants = [C_String 1, C_Integer (- 5), C_Table [0, 1], C_ClassShape \<lparr>class_name = 1,
        property_names = [1], method_names = []\<rparr>],
      p_child_protos = [], line_defined = 1, debug_name = 0,
      proto_line_info = Some \<lparr>log2_span = 2, delta_bytes = [0, 0, 0, 1, 0], baseline_deltas = [1, 0]\<rparr>,
      proto_debug_info = Some \<lparr>debug_locals = [\<lparr>local_name = 1, start_pc = 0, end_pc = 5, local_register = 0\<rparr>],
        debug_upvalues = []\<rparr>,
      p_feedback_slots = [], p_cost = None\<rparr>"

definition sample_chunk :: valid_chunk where
  "sample_chunk =
     \<lparr>bytecode_version = 9, type_version = 3, ch_strings = [[112, 114, 105, 110, 116]],
      ch_userdata_type_mappings = [\<lparr>type_index = 1, mapping_name = 1\<rparr>],
      ch_protos = [sample_proto], ch_main_proto = 0\<rparr>"

lemma sample_chunk_wf: "wf_chunk Public sample_chunk"
  by (simp add: wf_chunk_def sample_chunk_def sample_proto_def version_consts fits_vec_def
      fits_one_proto_def wf_proto_def fits_instruction_def instruction_len_def nat_word_len_def
      has_extended_proto_layout_def needs_cost_def fits_line_info_def line_intervals_def
      fits_debug_info_def fits_class_shape_def code_word_count_def word_len_def saturating_sub_def)

text \<open>Running the decoder on concrete bytes.\<close>

lemmas run_decoder =
  decode_chunk_cases rd_chunk_body_def decode_string_table_def rd_string_def rd_list_def rd_vec_def
  rd_vec_idx_def version_consts rbind_def rpure_def rd_u8_def rd_u32_def rd_take_eq rest_def
  remaining_def reader_new_def advance_def is_eof_def rd_var_u32_def rd_var_u64_def
  var_u64_loop.simps decode_mappings.simps u32_try_from_u64_def VARINT_PAYLOAD_MASK_def
  VARINT_CONTINUATION_BIT_def

section \<open>Properties\<close>

text \<open>
  The 64-bit varint reader inverts the varint writer: on a written varint followed by
  anything, it returns the value and stops exactly behind its last byte.
\<close>

theorem varint_roundtrip:
  "rd_var_u64 label (reader_new (write_varint [] v @ ys)) =
     Inr (v, advance (length (write_varint [] v)) (reader_new (write_varint [] v @ ys)))"
  using parsesD [OF primitive_dec_enc(5), of "reader_new (write_varint [] v @ ys)" v ys label]
  by (simp add: w_var_u64_def)

text \<open>
  A varint takes as many bytes as its value has groups of seven bits: it fits in \<open>n + 1\<close> bytes
  exactly when the value is below \<open>2 ^ (7 * (n + 1))\<close>.
\<close>

theorem varint_length: "length (write_varint [] v) \<le> Suc n \<longleftrightarrow> unat v < 2 ^ (7 * Suc n)"
proof (induction n arbitrary: v)
  case 0
  have "drop_bit 7 v = 0 \<longleftrightarrow> unat v div 128 = 0"
    using unat_drop_bit_eq [of 7 v] by (simp add: drop_bit_eq_div flip: unat_eq_zero)
  then show ?case
    by (auto simp: write_varint_Nil [of v] write_varint_Nil [of "drop_bit 7 v"] div_eq_0_iff)
next
  case (Suc n)
  have u: "unat (drop_bit 7 v) = unat v div 128"
    using unat_drop_bit_eq [of 7 v] by (simp add: drop_bit_eq_div)
  have "length (write_varint [] v) \<le> Suc (Suc n) \<longleftrightarrow> drop_bit 7 v = 0 \<or> unat (drop_bit 7 v) < 2 ^ (7 * Suc n)"
    using Suc [of "drop_bit 7 v"] by (auto simp: write_varint_Nil [of v])
  also have "\<dots> \<longleftrightarrow> unat v div 128 < 2 ^ (7 * Suc n)"
    using u by (auto simp flip: unat_eq_zero)
  also have "\<dots> \<longleftrightarrow> unat v < 2 ^ (7 * Suc (Suc n))"
    by (simp add: div_less_iff_less_mult power_add mult.commute)
  finally show ?case .
qed

text \<open>
  C5: Every well-formed chunk is encoded, and decoding the bytes under the same version policy
  gives the chunk back.
\<close>

theorem chunk_roundtrip:
  assumes "wf_chunk policy c"
  shows "\<exists>bs. encode_chunk_with_policy (Chunk_Valid c) policy = Inr bs
     \<and> decode_chunk_with_policy bs policy = Inr (Chunk_Valid c)"
  using encode_wf_chunk [OF assms] decode_chunk_bytes [OF assms, of "[]"] by simp

lemma chunk_roundtrip_witness:
  "\<exists>bs. encode_chunk_with_policy (Chunk_Valid sample_chunk) Public = Inr bs
     \<and> decode_chunk_with_policy bs Public = Inr (Chunk_Valid sample_chunk)"
  by (rule chunk_roundtrip [OF sample_chunk_wf])

text \<open>
  C19: What the decoder returns for an input of less than four gigabytes is well-formed, is accepted
  by the encoder, is not longer when written again, and decodes to the same chunk.
\<close>

theorem decoded_chunk_canonical:
  assumes "length bs < 2 ^ 32" "decode_chunk_with_policy bs policy = Inr (Chunk_Valid c)"
  shows "wf_chunk policy c \<and> (\<exists>bs'. encode_chunk_with_policy (Chunk_Valid c) policy = Inr bs'
     \<and> length bs' \<le> length bs \<and> decode_chunk_with_policy bs' policy = Inr (Chunk_Valid c))"
  using decode_chunk_sound [OF assms(2,1)] encode_wf_chunk [of policy c] decode_chunk_bytes [of policy c "[]"]
  by auto

text \<open>The string count of this input is the over-long varint \<^verbatim>\<open>80 00\<close>.\<close>

lemma decoded_chunk_canonical_witness:
  "\<exists>c bs'. decode_chunk_with_policy [9, 3, 0x80, 0, 1, 5, 0, 0, 0] Public = Inr (Chunk_Valid c)
     \<and> wf_chunk Public c \<and> encode_chunk_with_policy (Chunk_Valid c) Public = Inr bs'
     \<and> length bs' \<le> 9 \<and> decode_chunk_with_policy bs' Public = Inr (Chunk_Valid c)"
proof -
  let ?bs = "[9, 3, 0x80, 0, 1, 5, 0, 0, 0] :: bytes"
  let ?c = "\<lparr>bytecode_version = 9, type_version = 3, ch_strings = [],
    ch_userdata_type_mappings = [\<lparr>type_index = 1, mapping_name = 5\<rparr>], ch_protos = [], ch_main_proto = 0\<rparr>"
  have "decode_chunk_with_policy ?bs Public = Inr (Chunk_Valid ?c)"
    by (simp add: run_decoder)
  with decoded_chunk_canonical [of ?bs Public ?c] show ?thesis by auto
qed

text \<open>
  Bytes after the main proto id of a well-formed chunk make the decoder fail with the number of
  trailing bytes.
\<close>

theorem trailing_bytes_rejected:
  assumes "wf_chunk policy c" "encode_chunk_with_policy (Chunk_Valid c) policy = Inr bs" "extra \<noteq> []"
  shows "decode_chunk_with_policy (bs @ extra) policy =
    Inl (DecodeError (''trailing '' @ show_nat (length extra) @ '' byte(s) after main proto''))"
  using assms(2,3) encode_wf_chunk [OF assms(1)] decode_chunk_bytes [OF assms(1), of extra] by auto

lemma trailing_bytes_rejected_witness:
  "\<exists>bs. encode_chunk_with_policy (Chunk_Valid sample_chunk) Public = Inr bs
     \<and> decode_chunk_with_policy (bs @ [1, 2]) Public =
       Inl (DecodeError (''trailing '' @ show_nat 2 @ '' byte(s) after main proto''))"
  using trailing_bytes_rejected [OF sample_chunk_wf encode_wf_chunk [OF sample_chunk_wf], of "[1, 2]"]
    encode_wf_chunk [OF sample_chunk_wf] by (auto simp: numeral_2_eq_2)

text \<open>
  An error chunk is the zero byte followed by the raw message under every policy, in both
  directions.
\<close>

theorem error_chunk_roundtrip:
  "encode_chunk_with_policy (Chunk_Error message) policy = Inr (0 # message)
   \<and> decode_chunk_with_policy (0 # message) policy = Inr (Chunk_Error message)"
  by (simp add: encode_chunk_with_policy_def decode_chunk_cases w_all_def w_u8_def w_bytes_def)

text \<open>
  The encoder refuses a chunk exactly when its version is not accepted, when an instruction's
  operand fields disagree with its header word, or when an inlinable proto of the extended layout
  has no cost.
\<close>

theorem encode_fails_iff:
  "(\<exists>e. encode_chunk_with_policy (Chunk_Valid c) policy = Inl e) \<longleftrightarrow>
     \<not> accepts policy (bytecode_version c)
     \<or> (\<exists>p i. p \<in> set (ch_protos c) \<and> i \<in> set (p_code p) \<and> \<not> is_header_consistent i)
     \<or> (\<exists>p. p \<in> set (ch_protos c) \<and> 12 \<le> bytecode_version c
           \<and> proto_flags p AND PROTO_INLINABLE \<noteq> 0 \<and> p_cost p = None)"
proof -
  let ?enc = "encode_chunk_with_policy (Chunk_Valid c) policy"
  have "(\<exists>e. ?enc = Inl e) \<longleftrightarrow> \<not> (\<exists>bs. ?enc = Inr bs)"
    by (cases ?enc) auto
  then show ?thesis
    by (auto simp: encode_chunk_eq_Inr encodable_def needs_cost_def has_extended_proto_layout_def)
qed

lemma encode_fails_iff_witness:
  "\<exists>e. encode_chunk_with_policy (Chunk_Valid (sample_chunk\<lparr>bytecode_version := 7\<rparr>)) Public = Inl e"
  by (rule encode_fails_iff [THEN iffD2]) (simp add: version_consts)

end
