(* ===== verification/Input_Safety.thy ===== *)
theory Input_Safety
  imports Codec
begin

text \<open>
  Readers look only at the bytes they consume: a successful run is repeated unchanged when more
  bytes follow. Hence no proper prefix of an encoded chunk decodes. And since writing a decoded
  chunk again needs no more bytes than were read, the size of what the decoder builds is bounded by
  the size of its input, whatever counts the input declares.
\<close>

section \<open>Local readers\<close>

definition local_at :: "'a rd \<Rightarrow> reader \<Rightarrow> bool" where
  "local_at p r \<longleftrightarrow> (\<forall>x r1. p r = Inr (x, r1) \<longrightarrow>
     (\<exists>k \<le> remaining r. r1 = advance k r \<and>
        (\<forall>r' ys. rest r' = rest r @ ys \<longrightarrow> p r' = Inr (x, advance k r'))))"

definition prefix_local :: "'a rd \<Rightarrow> bool" where
  "prefix_local p \<longleftrightarrow> (\<forall>r. local_at p r)"

named_theorems local_intros \<open>readers that look only at what they consume\<close>

lemma local_atI:
  "(\<And>x r1. p r = Inr (x, r1) \<Longrightarrow> \<exists>k \<le> remaining r. r1 = advance k r \<and>
      (\<forall>r' ys. rest r' = rest r @ ys \<longrightarrow> p r' = Inr (x, advance k r'))) \<Longrightarrow> local_at p r"
  unfolding local_at_def by blast

lemma local_atE:
  assumes "local_at p r" "p r = Inr (x, r1)"
  obtains k where "k \<le> remaining r" "r1 = advance k r"
    "\<And>r' ys. rest r' = rest r @ ys \<Longrightarrow> p r' = Inr (x, advance k r')"
  using assms unfolding local_at_def by blast

lemma local_at_bind:
  assumes m: "local_at m r" and f: "\<And>x r1. m r = Inr (x, r1) \<Longrightarrow> local_at (f x) r1"
  shows "local_at (rbind m f) r"
proof (rule local_atI)
  fix y r2 assume "rbind m f r = Inr (y, r2)"
  then obtain x r1 where x: "m r = Inr (x, r1)" and y: "f x r1 = Inr (y, r2)"
    by (auto simp: rbind_eq_Inr)
  from local_atE [OF m x] obtain k where k: "k \<le> remaining r" "r1 = advance k r"
    "\<And>r' ys. rest r' = rest r @ ys \<Longrightarrow> m r' = Inr (x, advance k r')" by blast
  from local_atE [OF f [OF x] y] obtain k' where k': "k' \<le> remaining r1" "r2 = advance k' r1"
    "\<And>r' ys. rest r' = rest r1 @ ys \<Longrightarrow> f x r' = Inr (y, advance k' r')" by blast
  have "rbind m f r' = Inr (y, advance (k + k') r')" if "rest r' = rest r @ ys" for r' ys
  proof -
    have "rest (advance k r') = rest r1 @ ys" using that k(1,2) by simp
    from k'(3) [OF this] k(3) [OF that] show ?thesis by simp
  qed
  with k k' show "\<exists>k \<le> remaining r. r2 = advance k r \<and>
      (\<forall>r' ys. rest r' = rest r @ ys \<longrightarrow> rbind m f r' = Inr (y, advance k r'))"
    by (intro exI [of _ "k + k'"]) auto
qed

lemma local_at_pure: "local_at (rpure x) r"
  by (auto simp: local_at_def rpure_apply intro: exI [of _ 0])

lemma local_at_fail: "local_at (rfail msg) r"
  by (simp add: local_at_def rfail_apply)

lemma prefix_local_at: "prefix_local p \<Longrightarrow> local_at p r"
  by (simp add: prefix_local_def)

lemma prefix_localE:
  assumes "prefix_local p" "p r = Inr (x, r1)" "rest r' = rest r @ ys"
  obtains k where "k \<le> remaining r" "p r' = Inr (x, advance k r')"
  using local_atE [OF prefix_local_at [OF assms(1)] assms(2)] assms(3) by metis

lemma local_bind [local_intros]:
  "prefix_local m \<Longrightarrow> (\<And>x. prefix_local (f x)) \<Longrightarrow> prefix_local (rbind m f)"
  by (simp add: prefix_local_def local_at_bind)

lemma local_pure [local_intros]: "prefix_local (rpure x)"
  by (simp add: prefix_local_def local_at_pure)

lemma local_fail [local_intros]: "prefix_local (rfail msg)"
  by (simp add: prefix_local_def local_at_fail)

lemma local_if [local_intros]:
  "(c \<Longrightarrow> prefix_local p) \<Longrightarrow> (\<not> c \<Longrightarrow> prefix_local q) \<Longrightarrow> prefix_local (if c then p else q)"
  by simp

lemma local_option [local_intros]:
  "prefix_local p \<Longrightarrow> (\<And>x. prefix_local (f x)) \<Longrightarrow> prefix_local (case o' of None \<Rightarrow> p | Some x \<Rightarrow> f x)"
  by (simp split: option.split)

lemma local_take [local_intros]: "prefix_local (rd_take n label)"
  unfolding prefix_local_def
proof (intro allI local_atI)
  fix r x r1 assume "rd_take n label r = Inr (x, r1)"
  then have n: "n \<le> remaining r" "x = take n (rest r)" "r1 = advance n r"
    by (auto simp: rd_take_eq split: if_splits)
  have "rd_take n label r' = Inr (x, advance n r')" if "rest r' = rest r @ ys" for r' ys
  proof -
    have "remaining r' = remaining r + length ys"
      using that by (metis length_append length_rest)
    with n that show ?thesis by (simp add: rd_take_eq)
  qed
  with n show "\<exists>k \<le> remaining r. r1 = advance k r \<and>
      (\<forall>r' ys. rest r' = rest r @ ys \<longrightarrow> rd_take n label r' = Inr (x, advance k r'))" by blast
qed

section \<open>The primitive and list readers\<close>

lemma local_fixed [local_intros]:
  "prefix_local (rd_u8 label)" "prefix_local (rd_u32 label)" "prefix_local (rd_i32 label)" "prefix_local (rd_u64 label)"
  unfolding rd_u8_def rd_u32_def rd_i32_def rd_u64_def by (intro local_intros)+

lemma var_u64_loop_bind:
  "var_u64_loop label result shift =
     (if 64 \<le> shift then rfail (label @ '' varint is too large'')
      else rbind (rd_u8 label) (\<lambda>byte.
        if byte AND VARINT_CONTINUATION_BIT = 0
        then rpure (result OR push_bit shift (ucast (byte AND VARINT_PAYLOAD_MASK)))
        else var_u64_loop label (result OR push_bit shift (ucast (byte AND VARINT_PAYLOAD_MASK))) (shift + 7)))"
  by (rule ext) (auto simp: var_u64_loop.simps [of label result shift] rbind_def rpure_def rfail_def Let_def
      split: sum.split)

lemma local_var_u64_loop: "prefix_local (var_u64_loop label result shift)"
proof (induction "64 - shift" arbitrary: result shift rule: less_induct)
  case less
  then show ?case
    by (subst var_u64_loop_bind) (intro local_intros less, auto)
qed

lemma local_varints [local_intros]: "prefix_local (rd_var_u64 label)" "prefix_local (rd_var_u32 label)"
  unfolding rd_var_u32_def rd_var_u64_def by (intro local_intros local_var_u64_loop)+

lemma local_list_idx [local_intros]: "(\<And>i. prefix_local (p i)) \<Longrightarrow> prefix_local (rd_list_idx i n p)"
  by (induction n arbitrary: i) (auto intro!: local_intros)

lemma local_vectors [local_intros]:
  "prefix_local p \<Longrightarrow> prefix_local (rd_list n p)"
  "prefix_local p \<Longrightarrow> prefix_local (rd_vec label p)"
  "(\<And>i. prefix_local (q i)) \<Longrightarrow> prefix_local (rd_vec_idx label q)"
  unfolding rd_list_def rd_vec_def rd_vec_idx_def by (intro local_intros; assumption)+

section \<open>The sections of a chunk\<close>

lemma local_constant [local_intros]: "prefix_local decode_constant"
proof -
  have "prefix_local (decode_tagged tag)" for tag
    by (cases tag; simp only: decode_tagged.simps rd_table_entry_def decode_class_shape_def;
        intro local_intros)
  then show ?thesis
    unfolding decode_constant_def by (intro local_intros)
qed

lemma local_debug [local_intros]:
  "prefix_local (decode_line_info n)" "prefix_local decode_debug_info" "prefix_local rd_feedback_slot"
  "prefix_local decode_type_info" "prefix_local (rd_string i)" "prefix_local decode_string_table"
  unfolding decode_line_info_def decode_debug_info_def rd_debug_local_def rd_feedback_slot_def
    decode_type_info_def rd_string_def decode_string_table_def
  by (intro local_intros)+

lemma local_aux [local_intros]: "prefix_local (rd_aux n k)"
  unfolding rd_aux_def by (intro local_intros)

lemma decode_code_bind:
  "decode_code n k acc =
     (if k < n then
        rbind (rd_u32 ''instruction header'') (\<lambda>header.
          case opcode_from_byte (ucast (header AND 0xff)) of
            None \<Rightarrow> rfail (''unknown opcode '' @ show_word (header AND 0xff) @ '' at word '' @ show_word (k + 1 - 1))
          | Some opcode \<Rightarrow>
              if n < k + 1 + of_nat (instruction_len opcode - 1) then
                rfail (show_opcode opcode @ '' at word '' @ show_word (k + 1 - 1) @ '' requires ''
                  @ show_nat (instruction_len opcode - 1) @ '' AUX word(s), past code size '' @ show_word n)
              else
                rbind (rd_aux (instruction_len opcode - 1) (k + 1)) (\<lambda>ak.
                  case from_words header (fst ak) of
                    None \<Rightarrow> rfail ''opcode disappeared during decode''
                  | Some i \<Rightarrow> decode_code n (snd ak) (acc @ [i])))
      else rpure acc)"
  by (rule ext) (subst decode_code.simps, simp add: rbind_def rfail_def rpure_def Let_def
      split: sum.split option.split prod.split)

lemma local_at_code: "local_at (decode_code n k acc) r"
proof (induction n k acc r rule: decode_code.induct)
  case (1 n k acc r)
  show ?case
  proof (cases "k < n")
    case False
    then show ?thesis by (subst decode_code_bind) (simp add: local_at_pure)
  next
    case True
    have step: "local_at (decode_code n k2 (acc @ [i])) r2"
      if "rd_u32 ''instruction header'' r = Inr (h, r1)"
        "opcode_from_byte (ucast (h AND 0xff)) = Some op"
        "\<not> n < k + 1 + of_nat (instruction_len op - Suc 0)"
        "rd_aux (instruction_len op - Suc 0) (k + 1) r1 = Inr ((aux, k2), r2)"
        "from_words h aux = Some i" for h r1 op aux k2 r2 i
      by (rule "1.IH" [OF True that(1) refl refl that(2) refl _ _ refl refl that(5)])
        (use that(3,4) in simp_all)
    show ?thesis
      by (subst decode_code_bind, simp only: True if_True)
        (rule local_at_bind, rule prefix_local_at, rule local_intros,
          auto intro!: local_at_fail local_at_bind [OF prefix_local_at [OF local_aux]] step
            split: option.split)
  qed
qed

lemma local_code [local_intros]: "prefix_local (decode_code n k acc)"
  by (simp add: prefix_local_def local_at_code)

lemma decode_mappings_bind:
  "decode_mappings acc =
     rbind (rd_u8 ''userdata type mapping index'') (\<lambda>index.
       if index = 0 then rpure acc
       else rbind (rd_var_u32 ''userdata type name'') (\<lambda>name.
         decode_mappings (acc @ [\<lparr>type_index = index, mapping_name = name\<rparr>])))"
  by (rule ext) (subst decode_mappings.simps, simp add: rbind_def rpure_def split: sum.split prod.split)

lemma local_at_mappings: "local_at (decode_mappings acc) r"
proof (induction acc r rule: decode_mappings.induct)
  case (1 acc r)
  show ?case
    by (subst decode_mappings_bind)
      (auto intro!: local_at_bind [OF prefix_local_at [OF local_fixed(1)]] local_at_pure
        local_at_bind [OF prefix_local_at [OF local_varints(2)]] intro: "1.IH" [OF _ refl _ _ refl])
qed

lemma local_mappings [local_intros]: "prefix_local (decode_mappings acc)"
  by (simp add: prefix_local_def local_at_mappings)

lemma local_proto [local_intros]: "prefix_local (decode_proto version)"
  unfolding decode_proto_def by (rule local_intros)+

lemma local_payload:
  "prefix_local (\<lambda>r. case decode_proto version (reader_new bs) of Inl e \<Rightarrow> Inl e
      | Inr (p, proto_reader) \<Rightarrow>
          if \<not> is_eof proto_reader then Inl (msg proto_reader) else Inr (p, r))"
  by (auto simp: prefix_local_def local_at_def split: sum.splits intro: exI [of _ 0])

lemma local_one_proto [local_intros]: "prefix_local (decode_one_proto version i)"
  unfolding decode_one_proto_def by (intro local_intros local_payload)

lemma local_chunk_body: "prefix_local (rd_chunk_body version)"
  unfolding rd_chunk_body_def by (intro local_intros)

section \<open>Truncated input\<close>

lemma decode_chunk_Nil: "\<exists>e. decode_chunk_with_policy [] policy = Inl e"
  by (simp add: decode_chunk_with_policy_def rd_u8_def rbind_def rd_take_eq remaining_def reader_new_def)

text \<open>
  C33: No proper prefix of the bytes of an encoded well-formed valid chunk decodes: cutting the input
  anywhere, between or inside sections, makes the decoder return an error. An encoded error chunk is
  different: it is a zero byte and a message that may end anywhere.
\<close>

theorem truncated_input_rejected:
  assumes "wf_chunk policy c" "encode_chunk_with_policy (Chunk_Valid c) policy = Inr bs" "n < length bs"
  shows "\<exists>e. decode_chunk_with_policy (take n bs) policy = Inl e"
proof -
  let ?v = "bytecode_version c" and ?body = "run_bytes (chunk_calls c)"
  have bs: "bs = ?v # ?body" using assms(2) encode_wf_chunk [OF assms(1)] by simp
  have v: "accepts policy ?v" "?v \<noteq> 0"
    using assms(1) accepts_nonzero [of policy ?v] by (auto simp: wf_chunk_def)
  show ?thesis
  proof (cases n)
    case 0
    then show ?thesis by (simp add: decode_chunk_Nil)
  next
    case (Suc m)
    let ?r = "advance 1 (reader_new (?v # take m ?body))" and ?r' = "advance 1 (reader_new bs)"
    have m: "m < length ?body" using assms(3) Suc bs by simp
    have "rd_chunk_body ?v ?r \<noteq> Inr (x, r1)" for x r1
    proof
      assume "rd_chunk_body ?v ?r = Inr (x, r1)"
      moreover have "rest ?r' = rest ?r @ drop m ?body" by (simp add: bs)
      ultimately obtain k where k: "k \<le> remaining ?r" "rd_chunk_body ?v ?r' = Inr (x, advance k ?r')"
        by (rule prefix_localE [OF local_chunk_body])
      note k(2)
      moreover have "rd_chunk_body ?v ?r' = Inr (c, advance (length ?body) ?r')"
        by (rule parsesD [OF parses_chunk_body [OF assms(1)], where ys = "[]"]) (simp add: bs)
      ultimately have "k = length ?body" by (simp add: advance_def reader_new_def)
      moreover have "remaining ?r = m" using m by (simp add: remaining_def advance_def reader_new_def)
      ultimately show False using k(1) m by simp
    qed
    then obtain e where e: "rd_chunk_body ?v ?r = Inl e"
      by (cases "rd_chunk_body ?v ?r") auto
    have "take n bs = ?v # take m ?body" by (simp add: bs Suc)
    with v e show ?thesis by (simp add: decode_chunk_cases)
  qed
qed

lemma truncated_input_rejected_witness:
  "\<exists>bs. encode_chunk_with_policy (Chunk_Valid sample_chunk) Public = Inr bs
     \<and> (\<exists>e. decode_chunk_with_policy (take 1 bs) Public = Inl e)"
proof -
  have "1 < length (bytecode_version sample_chunk # run_bytes (chunk_calls sample_chunk))"
    by (simp add: chunk_calls_def length_run w_u8_def)
  from truncated_input_rejected [OF sample_chunk_wf encode_wf_chunk [OF sample_chunk_wf] this]
  show ?thesis using encode_wf_chunk [OF sample_chunk_wf] by simp
qed

section \<open>Size of the decoded data\<close>

lemma w_len_nonempty: "1 \<le> length (w_len xs [])"
  by (simp add: w_len_def w_var_u64_def write_varint_Nil)

context indexed_wire_format
begin

lemma fold_size:
  assumes "\<And>x. x \<in> set xs \<Longrightarrow> f x \<le> length (enc x [])"
  shows "sum_list (map f xs) \<le> length (fold enc xs [])"
  using assms
proof (induction xs)
  case (Cons x xs)
  then show ?case unfolding fold_enc_Cons by (simp add: add_mono)
qed simp

lemma vec_size:
  assumes "\<And>x. x \<in> set xs \<Longrightarrow> f x \<le> length (enc x [])"
  shows "sum_list (map f xs) + 1 \<le> length (w_vec enc xs [])"
  unfolding w_vec_def using fold_size [of xs f, OF assms] fold_enc_append [of xs "w_len xs []"] w_len_nonempty [of xs] by simp

end

text \<open>
  The room of what the decoder builds, counted in elements of its lists with the bytes of an element
  where it has a fixed size: all that grows with the input.
\<close>

fun constant_size :: "bc_constant \<Rightarrow> nat" where
  "constant_size (C_Number _) = 9"
| "constant_size (C_Import _) = 5"
| "constant_size (C_Table keys) = 1 + length keys"
| "constant_size (C_Vector _ _ _ _) = 17"
| "constant_size (C_VectorDouble _ _ _ _) = 33"
| "constant_size (C_TableWithConstants entries) = 1 + 5 * length entries"
| "constant_size (C_ClassShape shape) = 1 + length (property_names shape) + length (method_names shape)"
| "constant_size _ = 1"

definition line_info_size :: "line_info \<Rightarrow> nat" where
  "line_info_size li = 1 + length (delta_bytes li) + 4 * length (baseline_deltas li)"

definition debug_info_size :: "debug_info \<Rightarrow> nat" where
  "debug_info_size d = 4 * length (debug_locals d) + length (debug_upvalues d)"

definition option_size :: "('a \<Rightarrow> nat) \<Rightarrow> 'a option \<Rightarrow> nat" where
  "option_size f x = (case x of None \<Rightarrow> 0 | Some y \<Rightarrow> f y)"

definition proto_size :: "proto \<Rightarrow> nat" where
  "proto_size p = 4 * nat_words (p_code p) + sum_list (map constant_size (p_constants p)) + length (p_child_protos p)
     + length (type_raw (proto_type_info p)) + option_size line_info_size (proto_line_info p)
     + option_size debug_info_size (proto_debug_info p) + 2 * length (p_feedback_slots p)"

definition chunk_size :: "valid_chunk \<Rightarrow> nat" where
  "chunk_size c = sum_list (map (\<lambda>s. length s + 1) (ch_strings c)) + 2 * length (ch_userdata_type_mappings c)
     + sum_list (map proto_size (ch_protos c))"

lemma var_u32_size: "1 \<le> length (w_var_u32 k [])"
  by (simp add: w_var_u32_def w_var_u64_def write_varint_Nil)

lemma element_sizes:
  "length ks \<le> length (fold w_var_u32 ks [])" "length ks + 1 \<le> length (w_vec w_var_u32 ks [])"
  "5 * length es + 1 \<le> length (w_vec w_table_entry es [])" "4 * length ls + 1 \<le> length (w_vec w_debug_local ls [])"
  "2 * length fs + 1 \<le> length (w_vec w_feedback_slot fs [])" "4 * length bs \<le> length (fold w_i32 bs [])"
proof -
  have e: "5 \<le> length (w_table_entry x [])" "4 \<le> length (w_debug_local y [])" "2 \<le> length (w_feedback_slot z [])" for x y z
    using var_u32_size [of "entry_key x"] var_u32_size [of "local_name y"] var_u32_size [of "start_pc y"] var_u32_size [of "end_pc y"]
      var_u32_size [of "slot_pc z"] by (simp_all add: w_table_entry_def w_debug_local_def w_feedback_slot_def wire_size)
  show "length ks \<le> length (fold w_var_u32 ks [])"
    using wf_var_u32.indexed.fold_size [where f = "\<lambda>_. 1" and xs = ks] var_u32_size by (simp add: sum_list_triv)
  show "length ks + 1 \<le> length (w_vec w_var_u32 ks [])"
    using wf_var_u32.indexed.vec_size [where f = "\<lambda>_. 1" and xs = ks] var_u32_size by (simp add: sum_list_triv)
  show "5 * length es + 1 \<le> length (w_vec w_table_entry es [])"
    using wf_table_entry.indexed.vec_size [where f = "\<lambda>_. 5" and xs = es] e(1) by (simp add: sum_list_triv mult.commute)
  show "4 * length ls + 1 \<le> length (w_vec w_debug_local ls [])"
    using wf_debug_local.indexed.vec_size [where f = "\<lambda>_. 4" and xs = ls] e(2) by (simp add: sum_list_triv mult.commute)
  show "2 * length fs + 1 \<le> length (w_vec w_feedback_slot fs [])"
    using wf_feedback_slot.indexed.vec_size [where f = "\<lambda>_. 2" and xs = fs] e(3) by (simp add: sum_list_triv mult.commute)
  show "4 * length bs \<le> length (fold w_i32 bs [])"
    using wf_i32.indexed.fold_size [where f = "\<lambda>_. 4" and xs = bs] by (simp add: sum_list_triv mult.commute)
qed

lemma constant_size_le: "constant_size k \<le> length (encode_constant k [])"
proof (cases k)
  case (C_Table keys)
  then show ?thesis using element_sizes(2) [of keys] by (simp add: wire_size wf_var_u32.indexed.appends_vec)
next
  case (C_TableWithConstants entries)
  then show ?thesis using element_sizes(3) [of entries] by (simp add: wire_size wf_table_entry.indexed.appends_vec)
next
  case (C_ClassShape shape)
  then show ?thesis using element_sizes(1) [of "property_names shape"] element_sizes(1) [of "method_names shape"] by (simp add: wire_size)
qed (simp_all add: wire_size)

lemma line_info_size_le: "line_info_size li \<le> length (w_line_info li [])"
  using element_sizes(6) [of "baseline_deltas li"] by (simp add: line_info_size_def w_line_info_def wire_size)

lemma debug_info_size_le: "debug_info_size d \<le> length (w_debug_info d [])"
  using element_sizes(2) [of "debug_upvalues d"] element_sizes(4) [of "debug_locals d"]
  by (simp add: debug_info_size_def w_debug_info_def wire_size wf_debug_local.indexed.appends_vec)

lemma proto_calls_size:
  assumes "wf_proto version p"
  shows "proto_size p \<le> length (w_all (proto_calls version p) [])"
proof -
  have "sum_list (map constant_size (p_constants p)) + 1 \<le> length (w_vec encode_constant (p_constants p) [])"
    by (rule wf_constant.indexed.vec_size) (rule constant_size_le)
  moreover have "length (p_child_protos p) + 1 \<le> length (w_vec w_var_u32 (p_child_protos p) [])" by (rule element_sizes)
  moreover have "option_size line_info_size (proto_line_info p)
      \<le> length (run_bytes (case proto_line_info p of None \<Rightarrow> [w_u8 0] | Some li \<Rightarrow> [w_u8 1, w_line_info li]))"
    using line_info_size_le by (cases "proto_line_info p") (auto simp: option_size_def length_run length_run_Nil intro: le_SucI)
  moreover have "option_size debug_info_size (proto_debug_info p)
      \<le> length (run_bytes (case proto_debug_info p of None \<Rightarrow> [w_u8 0] | Some d \<Rightarrow> [w_u8 1, w_debug_info d]))"
    using debug_info_size_le by (cases "proto_debug_info p") (auto simp: option_size_def length_run length_run_Nil intro: le_SucI)
  moreover have "2 * length (p_feedback_slots p)
      \<le> length (run_bytes (if 11 \<le> version then [w_vec w_feedback_slot (p_feedback_slots p)] else []))"
    using assms element_sizes(5) [of "p_feedback_slots p"] by (auto simp: wf_proto_def length_run length_run_Nil)
  ultimately show ?thesis
    unfolding w_all_Nil [OF appends_proto_calls] unfolding proto_calls_def
    by (simp only: length_run length_code_bytes w_bytes_Nil proto_size_def)
qed

lemma one_proto_size:
  assumes "wf_proto version p"
  shows "proto_size p \<le> length (w_one_proto version p [])"
  using proto_calls_size [OF assms] by (simp add: w_one_proto_def w_string_def wire_size)

lemma string_size: "length s + 1 \<le> length (w_string s [])"
  using w_len_nonempty [of s] by (simp add: w_string_def wire_size)

lemma mappings_size: "2 * length ms \<le> length (w_mappings ms [])"
proof -
  have one: "2 \<le> length (w_mapping m [])" for m using var_u32_size [of "mapping_name m"] by (simp add: w_mapping_bytes)
  have "2 * length ms \<le> length (fold w_mapping ms [])"
  proof (induction ms)
    case (Cons m ms)
    then show ?case using one [of m] appendsD [OF appends_mapping_fold [of w_mapping ms], of "w_mapping m []"] by simp
  qed simp
  then show ?thesis by (simp add: w_mappings_def wire_size appends_mapping_fold)
qed

text \<open>
  C38: Whatever element counts an input of less than four gigabytes declares, what the decoder builds
  takes no more room than the input had bytes: all strings, userdata type mappings, code, constants with
  the keys, entries and names in them, child lists, type information, line information, debug information
  and feedback slots together.
\<close>

theorem decoded_size_bound:
  assumes "length bs < 2 ^ 32" "decode_chunk_with_policy bs policy = Inr (Chunk_Valid c)"
  shows "chunk_size c \<le> length bs"
proof -
  have wf: "wf_chunk policy c" and read: "Suc (length (run_bytes (chunk_calls c))) \<le> length bs"
    using decode_chunk_sound [OF assms(2,1)] by blast+
  have "sum_list (map (\<lambda>s. length s + 1) (ch_strings c)) + 1 \<le> length (w_vec w_string (ch_strings c) [])"
    by (rule wf_string.vec_size) (rule string_size)
  moreover have "sum_list (map proto_size (ch_protos c)) + 1
      \<le> length (w_vec (w_one_proto (bytecode_version c)) (ch_protos c) [])"
    by (rule wf_one_proto.vec_size, rule one_proto_size) (use wf in \<open>auto simp: wf_chunk_def fits_vec_def fits_one_proto_def\<close>)
  ultimately show ?thesis
    using read mappings_size [of "ch_userdata_type_mappings c"]
    unfolding chunk_calls_def by (simp only: length_run chunk_size_def)
qed

lemma decoded_size_bound_witness:
  "\<exists>c. decode_chunk_with_policy
       [9, 3, 1, 2, 104, 105, 1, 1, 0, 1, 1, 0, 0, 0, 0, 0, 1, 22, 0, 1, 0, 1, 5, 1, 0, 0, 0, 0, 1, 0, 7, 1, 0, 0, 0, 0, 0] Public
       = Inr (Chunk_Valid c) \<and> chunk_size c = 17 \<and> chunk_size c \<le> 37"
proof -
  let ?bs = "[9, 3, 1, 2, 104, 105, 1, 1, 0, 1, 1, 0, 0, 0, 0, 0, 1, 22, 0, 1, 0, 1, 5, 1, 0, 0, 0, 0, 1, 0, 7, 1, 0, 0, 0, 0, 0] :: bytes"
  let ?p = "\<lparr>max_stack_size = 1, num_params = 0, num_upvalues = 0, is_vararg = 0, proto_flags = 0,
    proto_type_info = \<lparr>type_raw = []\<rparr>, p_code = [abc Op_Return 0 1 0], p_constants = [C_Table [0]],
    p_child_protos = [], line_defined = 0, debug_name = 0,
    proto_line_info = Some \<lparr>log2_span = 0, delta_bytes = [7], baseline_deltas = [1]\<rparr>,
    proto_debug_info = None, p_feedback_slots = [], p_cost = None\<rparr>"
  let ?c = "\<lparr>bytecode_version = 9, type_version = 3, ch_strings = [[104, 105]],
    ch_userdata_type_mappings = [\<lparr>type_index = 1, mapping_name = 1\<rparr>], ch_protos = [?p], ch_main_proto = 0\<rparr>"
  have d: "decode_chunk_with_policy ?bs Public = Inr (Chunk_Valid ?c)"
    by (simp add: run_decoder decode_one_proto_def has_extended_proto_layout_def decode_proto_def
        decode_type_info_def decode_code.simps rd_aux_def opcode_from_byte_def opcode_table_def
        instruction_len_def from_words_def abc_def abc_header_def decode_constant_def constant_tag_from_byte_def
        decode_line_info_def line_intervals_def rd_i32_def saturating_sub_def)
  have "chunk_size ?c = 17"
    by (simp add: chunk_size_def proto_size_def option_size_def line_info_size_def abc_def nat_word_len_def
        from_words_def abc_header_def opcode_from_byte_def opcode_table_def)
  with decoded_size_bound [OF _ d] d show ?thesis by auto
qed

end
