(* ===== verification/Validate.thy ===== *)
theory Validate
  imports Chunk
begin

text \<open>
  The structural validator, \<^verbatim>\<open>crates/ruau-bytecode/src/validate.rs\<close>: the functions of
  \<^verbatim>\<open>Validator\<close> thread its state, which collects errors and reads the string and proto tables.
  Test-only probe counters are left out.
\<close>

section \<open>Errors and state\<close>

datatype validation_error_kind =
    UnsupportedVersion | InvalidProtoReference | InvalidStringReference | InvalidConstantReference
  | InconsistentInstruction | InvalidAuxArity | InvalidAuxPayload | InvalidJumpTarget
  | InvalidRegister | InvalidLineInfo | InvalidDebugInfo | InvalidFeedbackSlot
  | InvalidClosureCapture | InvalidProtoMetadata

record validation_error =
  err_proto_index :: "nat option"
  err_instruction_index :: "nat option"
  err_kind :: validation_error_kind
  err_message :: string

record validator =
  v_strings :: "bytes list"
  v_protos :: "proto list"
  v_errors :: "validation_error list"

definition push :: "nat option \<Rightarrow> nat option \<Rightarrow> validation_error_kind \<Rightarrow> string \<Rightarrow> validator \<Rightarrow> validator" where
  "push proto_index instruction_index kind message v =
     v\<lparr>v_errors := v_errors v @ [\<lparr>err_proto_index = proto_index,
       err_instruction_index = instruction_index, err_kind = kind, err_message = message\<rparr>]\<rparr>"

definition push_chunk :: "validation_error_kind \<Rightarrow> string \<Rightarrow> validator \<Rightarrow> validator" where
  "push_chunk kind message = push None None kind message"

definition push_proto :: "nat \<Rightarrow> validation_error_kind \<Rightarrow> string \<Rightarrow> validator \<Rightarrow> validator" where
  "push_proto proto_index kind message = push (Some proto_index) None kind message"

definition push_instruction ::
  "nat \<Rightarrow> nat \<Rightarrow> validation_error_kind \<Rightarrow> string \<Rightarrow> validator \<Rightarrow> validator" where
  "push_instruction proto_index instruction_index kind message =
     push (Some proto_index) (Some instruction_index) kind message"

section \<open>Instruction boundaries\<close>

record instruction_boundary_index =
  word_offsets :: "u32 list"
  instruction_words :: "bool list"
  code_words :: u32

text \<open>The checked sum of the word lengths: the offset of every instruction and the total.\<close>

fun boundary_offsets :: "u32 \<Rightarrow> instruction list \<Rightarrow> (u32 list \<times> u32) option" where
  "boundary_offsets next_word [] = Some ([], next_word)"
| "boundary_offsets next_word (i # is) =
     (case checked_add next_word (word_len i) of
        None \<Rightarrow> None
      | Some n \<Rightarrow> map_option (\<lambda>(offsets, total). (next_word # offsets, total)) (boundary_offsets n is))"

definition boundary_index_new :: "instruction list \<Rightarrow> string + instruction_boundary_index" where
  "boundary_index_new code =
     (case boundary_offsets 0 code of
        None \<Rightarrow> Inl ''proto code is too large''
      | Some (offsets, next_word) \<Rightarrow>
          Inr \<lparr>word_offsets = offsets,
               instruction_words =
                 fold (\<lambda>word words. words[unat word := True]) offsets (replicate (unat next_word) False),
               code_words = next_word\<rparr>)"

definition word_offset :: "instruction_boundary_index \<Rightarrow> nat \<Rightarrow> u32 option" where
  "word_offset b instruction_index = get (word_offsets b) instruction_index"

definition contains_instruction_word :: "instruction_boundary_index \<Rightarrow> u32 \<Rightarrow> bool" where
  "contains_instruction_word b word =
     (case get (instruction_words b) (unat word) of None \<Rightarrow> False | Some x \<Rightarrow> x)"

definition is_instruction_word :: "instruction_boundary_index \<Rightarrow> u32 \<Rightarrow> bool" where
  "is_instruction_word b word = contains_instruction_word b word"

definition is_instruction_word_i32 :: "instruction_boundary_index \<Rightarrow> i32 \<Rightarrow> bool" where
  "is_instruction_word_i32 b word =
     (case u32_try_from_i32 word of None \<Rightarrow> False | Some w \<Rightarrow> contains_instruction_word b w)"

definition invalid_jump_target ::
  "instruction list \<Rightarrow> instruction_boundary_index \<Rightarrow> nat \<Rightarrow> i32 option" where
  "invalid_jump_target code b instruction_index =
     (case get code instruction_index of
        None \<Rightarrow> None
      | Some instruction \<Rightarrow>
          (case jump_offset_words instruction of
             None \<Rightarrow> None
           | Some _ \<Rightarrow>
               (case word_offset b instruction_index of
                  None \<Rightarrow> None
                | Some source_word \<Rightarrow>
                    (case jump_target_word instruction source_word of
                       None \<Rightarrow> None
                     | Some target \<Rightarrow>
                         if u32_try_from_i32 target = Some (code_words b)
                            \<and> code \<noteq> [] \<and> i_opcode (last code) = Op_Return
                         then None
                         else if \<not> is_instruction_word_i32 b target then Some target
                         else None))))"

section \<open>Policies by opcode\<close>

datatype register_policy_kind =
    RP_None | RP_FastCall0 | RP_FastCall1 | RP_FastCall2 | RP_FastCall3 | RP_Capture | RP_Call
  | RP_Return | RP_NameCall | RP_NumericFor | RP_GenericForLoop | RP_LoadNil | RP_SetList
  | RP_CompareJump | RP_NewClass | RP_A | RP_AB | RP_ABC | RP_AC

datatype reference_policy_kind =
    RF_None | RF_DConstant | RF_DImportConstant | RF_LoadKx | RF_AuxStringConstant
  | RF_NewClosureChild | RF_DupClosureConstant | RF_CConstant | RF_BConstant | RF_FastCall2K
  | RF_JumpXEqKConstant | RF_CallFb | RF_BUpvalue | RF_AuxClassShapeConstant

primrec register_policy :: "opcode \<Rightarrow> register_policy_kind" where
  "register_policy Op_Nop = RP_None"
| "register_policy Op_Break = RP_None"
| "register_policy Op_Jump = RP_None"
| "register_policy Op_JumpBack = RP_None"
| "register_policy Op_Coverage = RP_None"
| "register_policy Op_NativeCall = RP_None"
| "register_policy Op_ForGPrepInext = RP_None"
| "register_policy Op_ForGPrepNext = RP_None"
| "register_policy Op_ForGPrep = RP_None"
| "register_policy Op_PrepVarargs = RP_None"
| "register_policy Op_JumpX = RP_None"
| "register_policy Op_FastCall = RP_FastCall0"
| "register_policy Op_FastCall1 = RP_FastCall1"
| "register_policy Op_FastCall2 = RP_FastCall2"
| "register_policy Op_FastCall2K = RP_FastCall2"
| "register_policy Op_FastCall3 = RP_FastCall3"
| "register_policy Op_Capture = RP_Capture"
| "register_policy Op_Call = RP_Call"
| "register_policy Op_CallFb = RP_Call"
| "register_policy Op_Return = RP_Return"
| "register_policy Op_NameCall = RP_NameCall"
| "register_policy Op_NameCallUdata = RP_NameCall"
| "register_policy Op_ForNPrep = RP_NumericFor"
| "register_policy Op_ForNLoop = RP_NumericFor"
| "register_policy Op_ForGLoop = RP_GenericForLoop"
| "register_policy Op_LoadNil = RP_LoadNil"
| "register_policy Op_SetList = RP_SetList"
| "register_policy Op_NewClass = RP_NewClass"
| "register_policy Op_LoadB = RP_A"
| "register_policy Op_LoadN = RP_A"
| "register_policy Op_LoadK = RP_A"
| "register_policy Op_GetGlobal = RP_A"
| "register_policy Op_SetGlobal = RP_A"
| "register_policy Op_GetUpval = RP_A"
| "register_policy Op_SetUpval = RP_A"
| "register_policy Op_CloseUpvals = RP_A"
| "register_policy Op_GetImport = RP_A"
| "register_policy Op_GetVarargs = RP_A"
| "register_policy Op_NewClosure = RP_A"
| "register_policy Op_DupClosure = RP_A"
| "register_policy Op_LoadKx = RP_A"
| "register_policy Op_NewTable = RP_A"
| "register_policy Op_DupTable = RP_A"
| "register_policy Op_JumpIf = RP_A"
| "register_policy Op_JumpIfNot = RP_A"
| "register_policy Op_JumpXEqKNil = RP_A"
| "register_policy Op_JumpXEqKB = RP_A"
| "register_policy Op_JumpXEqKN = RP_A"
| "register_policy Op_JumpXEqKS = RP_A"
| "register_policy Op_CmpProto = RP_A"
| "register_policy Op_NewClassMember = RP_A"
| "register_policy Op_GetUdataKs = RP_A"
| "register_policy Op_SetUdataKs = RP_A"
| "register_policy Op_Move = RP_AB"
| "register_policy Op_GetTableKs = RP_AB"
| "register_policy Op_SetTableKs = RP_AB"
| "register_policy Op_GetTableN = RP_AB"
| "register_policy Op_SetTableN = RP_AB"
| "register_policy Op_Not = RP_AB"
| "register_policy Op_Minus = RP_AB"
| "register_policy Op_Length = RP_AB"
| "register_policy Op_And = RP_AB"
| "register_policy Op_Or = RP_AB"
| "register_policy Op_AndK = RP_AB"
| "register_policy Op_OrK = RP_AB"
| "register_policy Op_AddK = RP_AB"
| "register_policy Op_SubK = RP_AB"
| "register_policy Op_MulK = RP_AB"
| "register_policy Op_DivK = RP_AB"
| "register_policy Op_ModK = RP_AB"
| "register_policy Op_PowK = RP_AB"
| "register_policy Op_IDivK = RP_AB"
| "register_policy Op_GetTable = RP_ABC"
| "register_policy Op_SetTable = RP_ABC"
| "register_policy Op_Add = RP_ABC"
| "register_policy Op_Sub = RP_ABC"
| "register_policy Op_Mul = RP_ABC"
| "register_policy Op_Div = RP_ABC"
| "register_policy Op_Mod = RP_ABC"
| "register_policy Op_Pow = RP_ABC"
| "register_policy Op_IDiv = RP_ABC"
| "register_policy Op_Concat = RP_ABC"
| "register_policy Op_JumpIfEq = RP_CompareJump"
| "register_policy Op_JumpIfLe = RP_CompareJump"
| "register_policy Op_JumpIfLt = RP_CompareJump"
| "register_policy Op_JumpIfNotEq = RP_CompareJump"
| "register_policy Op_JumpIfNotLe = RP_CompareJump"
| "register_policy Op_JumpIfNotLt = RP_CompareJump"
| "register_policy Op_SubRk = RP_AC"
| "register_policy Op_DivRk = RP_AC"

primrec reference_policy :: "opcode \<Rightarrow> reference_policy_kind" where
  "reference_policy Op_Nop = RF_None"
| "reference_policy Op_Break = RF_None"
| "reference_policy Op_LoadNil = RF_None"
| "reference_policy Op_LoadB = RF_None"
| "reference_policy Op_LoadN = RF_None"
| "reference_policy Op_Move = RF_None"
| "reference_policy Op_CloseUpvals = RF_None"
| "reference_policy Op_GetTable = RF_None"
| "reference_policy Op_SetTable = RF_None"
| "reference_policy Op_GetTableN = RF_None"
| "reference_policy Op_SetTableN = RF_None"
| "reference_policy Op_Call = RF_None"
| "reference_policy Op_Return = RF_None"
| "reference_policy Op_Jump = RF_None"
| "reference_policy Op_JumpBack = RF_None"
| "reference_policy Op_JumpIf = RF_None"
| "reference_policy Op_JumpIfNot = RF_None"
| "reference_policy Op_JumpIfEq = RF_None"
| "reference_policy Op_JumpIfLe = RF_None"
| "reference_policy Op_JumpIfLt = RF_None"
| "reference_policy Op_JumpIfNotEq = RF_None"
| "reference_policy Op_JumpIfNotLe = RF_None"
| "reference_policy Op_JumpIfNotLt = RF_None"
| "reference_policy Op_Add = RF_None"
| "reference_policy Op_Sub = RF_None"
| "reference_policy Op_Mul = RF_None"
| "reference_policy Op_Div = RF_None"
| "reference_policy Op_Mod = RF_None"
| "reference_policy Op_Pow = RF_None"
| "reference_policy Op_And = RF_None"
| "reference_policy Op_Or = RF_None"
| "reference_policy Op_Concat = RF_None"
| "reference_policy Op_Not = RF_None"
| "reference_policy Op_Minus = RF_None"
| "reference_policy Op_Length = RF_None"
| "reference_policy Op_NewTable = RF_None"
| "reference_policy Op_DupTable = RF_None"
| "reference_policy Op_SetList = RF_None"
| "reference_policy Op_ForNPrep = RF_None"
| "reference_policy Op_ForNLoop = RF_None"
| "reference_policy Op_ForGLoop = RF_None"
| "reference_policy Op_ForGPrepInext = RF_None"
| "reference_policy Op_FastCall3 = RF_None"
| "reference_policy Op_ForGPrepNext = RF_None"
| "reference_policy Op_NativeCall = RF_None"
| "reference_policy Op_GetVarargs = RF_None"
| "reference_policy Op_PrepVarargs = RF_None"
| "reference_policy Op_JumpX = RF_None"
| "reference_policy Op_FastCall = RF_None"
| "reference_policy Op_FastCall1 = RF_None"
| "reference_policy Op_FastCall2 = RF_None"
| "reference_policy Op_Coverage = RF_None"
| "reference_policy Op_Capture = RF_None"
| "reference_policy Op_ForGPrep = RF_None"
| "reference_policy Op_JumpXEqKNil = RF_None"
| "reference_policy Op_JumpXEqKB = RF_None"
| "reference_policy Op_IDiv = RF_None"
| "reference_policy Op_CmpProto = RF_None"
| "reference_policy Op_NewClass = RF_AuxClassShapeConstant"
| "reference_policy Op_LoadK = RF_DConstant"
| "reference_policy Op_GetImport = RF_DImportConstant"
| "reference_policy Op_DupClosure = RF_DupClosureConstant"
| "reference_policy Op_LoadKx = RF_LoadKx"
| "reference_policy Op_GetGlobal = RF_AuxStringConstant"
| "reference_policy Op_SetGlobal = RF_AuxStringConstant"
| "reference_policy Op_GetTableKs = RF_AuxStringConstant"
| "reference_policy Op_SetTableKs = RF_AuxStringConstant"
| "reference_policy Op_NameCall = RF_AuxStringConstant"
| "reference_policy Op_GetUdataKs = RF_AuxStringConstant"
| "reference_policy Op_SetUdataKs = RF_AuxStringConstant"
| "reference_policy Op_NameCallUdata = RF_AuxStringConstant"
| "reference_policy Op_NewClassMember = RF_AuxStringConstant"
| "reference_policy Op_NewClosure = RF_NewClosureChild"
| "reference_policy Op_AddK = RF_CConstant"
| "reference_policy Op_SubK = RF_CConstant"
| "reference_policy Op_MulK = RF_CConstant"
| "reference_policy Op_DivK = RF_CConstant"
| "reference_policy Op_ModK = RF_CConstant"
| "reference_policy Op_PowK = RF_CConstant"
| "reference_policy Op_AndK = RF_CConstant"
| "reference_policy Op_OrK = RF_CConstant"
| "reference_policy Op_IDivK = RF_CConstant"
| "reference_policy Op_FastCall2K = RF_FastCall2K"
| "reference_policy Op_JumpXEqKN = RF_JumpXEqKConstant"
| "reference_policy Op_JumpXEqKS = RF_JumpXEqKConstant"
| "reference_policy Op_SubRk = RF_BConstant"
| "reference_policy Op_DivRk = RF_BConstant"
| "reference_policy Op_CallFb = RF_CallFb"
| "reference_policy Op_GetUpval = RF_BUpvalue"
| "reference_policy Op_SetUpval = RF_BUpvalue"

section \<open>Elementary checks\<close>

definition proto_id_is_valid :: "u32 \<Rightarrow> proto list \<Rightarrow> bool" where
  "proto_id_is_valid p protos \<longleftrightarrow> unat p < length protos"

definition generic_for_loop_variable_count :: "u32 \<Rightarrow> u8" where
  "generic_for_loop_variable_count aux = ucast (min (aux AND NOT FORGLOOP_INEXT_BIT) 255)"

definition check_constant_id :: "nat \<Rightarrow> proto \<Rightarrow> u32 \<Rightarrow> string \<Rightarrow> validator \<Rightarrow> validator" where
  "check_constant_id proto_index p ident context v =
     (if length (p_constants p) \<le> unat ident then
        push_proto proto_index InvalidConstantReference
          (context @ '' constant id '' @ show_word ident @ '' is outside ''
           @ show_nat (length (p_constants p)) @ '' constants'') v
      else v)"

fun is_string_constant :: "bc_constant \<Rightarrow> bool" where
  "is_string_constant (C_String _) = True"
| "is_string_constant _ = False"

definition check_string_constant_id :: "nat \<Rightarrow> proto \<Rightarrow> u32 \<Rightarrow> string \<Rightarrow> validator \<Rightarrow> validator" where
  "check_string_constant_id proto_index p ident context v =
     (case get (p_constants p) (unat ident) of
        None \<Rightarrow>
          push_proto proto_index InvalidConstantReference
            (context @ '' string constant id '' @ show_word ident @ '' is outside ''
             @ show_nat (length (p_constants p)) @ '' constants'') v
      | Some k \<Rightarrow>
          if \<not> is_string_constant k then
            push_proto proto_index InvalidConstantReference
              (context @ '' constant id '' @ show_word ident @ '' is not a string constant'') v
          else v)"

definition check_string_id ::
  "nat option \<Rightarrow> nat option \<Rightarrow> u32 \<Rightarrow> string \<Rightarrow> validator \<Rightarrow> validator" where
  "check_string_id proto_index instruction_index ident context v =
     (if length (v_strings v) < unat ident then
        push proto_index instruction_index InvalidStringReference
          (context @ '' string id '' @ show_word ident @ '' is outside ''
           @ show_nat (length (v_strings v)) @ '' strings'') v
      else v)"

definition check_register ::
  "nat option \<Rightarrow> nat option \<Rightarrow> proto \<Rightarrow> u8 \<Rightarrow> string \<Rightarrow> validator \<Rightarrow> validator" where
  "check_register proto_index instruction_index p register context v =
     (if max_stack_size p \<le> register then
        push proto_index instruction_index InvalidRegister
          (context @ '' register '' @ show_word register @ '' exceeds max_stack_size ''
           @ show_word (max_stack_size p)) v
      else v)"

definition check_register_range ::
  "nat option \<Rightarrow> nat option \<Rightarrow> proto \<Rightarrow> u8 \<Rightarrow> u8 \<Rightarrow> string \<Rightarrow> validator \<Rightarrow> validator" where
  "check_register_range proto_index instruction_index p start count context v =
     (if count = 0 then v
      else
        (let stop = ucast start + ucast count - 1 :: u16 in
         if ucast (max_stack_size p) \<le> stop then
           push proto_index instruction_index InvalidRegister
             (context @ '' register range '' @ show_word start @ ''..='' @ show_word stop
              @ '' exceeds max_stack_size '' @ show_word (max_stack_size p)) v
         else v))"

definition check_register_u32 ::
  "nat option \<Rightarrow> nat option \<Rightarrow> proto \<Rightarrow> u32 \<Rightarrow> string \<Rightarrow> validator \<Rightarrow> validator" where
  "check_register_u32 proto_index instruction_index p register context v =
     (if ucast (max_stack_size p) \<le> register then
        push proto_index instruction_index InvalidRegister
          (context @ '' register '' @ show_word register @ '' exceeds max_stack_size ''
           @ show_word (max_stack_size p)) v
      else v)"

definition check_upvalue :: "nat \<Rightarrow> nat \<Rightarrow> proto \<Rightarrow> u8 \<Rightarrow> string \<Rightarrow> validator \<Rightarrow> validator" where
  "check_upvalue proto_index instruction_index p upvalue context v =
     (if num_upvalues p \<le> upvalue then
        push_instruction proto_index instruction_index InvalidProtoMetadata
          (context @ '' '' @ show_word upvalue @ '' exceeds proto num_upvalues ''
           @ show_word (num_upvalues p)) v
      else v)"

section \<open>Constants\<close>

definition validate_constant :: "nat \<Rightarrow> proto \<Rightarrow> nat \<Rightarrow> bc_constant \<Rightarrow> validator \<Rightarrow> validator" where
  "validate_constant proto_index p constant_index k v =
     (case k of
        C_String s \<Rightarrow> check_string_id (Some proto_index) None s ''string constant'' v
      | C_Import import_id \<Rightarrow>
          (let count = drop_bit IMPORT_PATH_COUNT_SHIFT import_id in
           if \<not> (1 \<le> count \<and> count \<le> 3) then
             push_proto proto_index InvalidConstantReference
               (''import constant '' @ show_nat constant_index @ '' has path count '' @ show_word count) v
           else
             fold (\<lambda>index.
                 check_string_constant_id proto_index p
                   (drop_bit (import_component_shift index) import_id AND IMPORT_PATH_COMPONENT_MASK)
                   ''import path component'')
               [0..<unat count] v)
      | C_Table keys \<Rightarrow> fold (\<lambda>key. check_constant_id proto_index p key ''table key'') keys v
      | C_Closure c \<Rightarrow>
          if \<not> proto_id_is_valid c (v_protos v) then
            push_proto proto_index InvalidProtoReference
              (''closure constant '' @ show_nat constant_index @ '' proto id '' @ show_word c
               @ '' is outside '' @ show_nat (length (v_protos v)) @ '' protos'') v
          else v
      | C_TableWithConstants entries \<Rightarrow>
          fold (\<lambda>entry v.
              let v1 = check_constant_id proto_index p (entry_key entry) ''table-with-constants key'' v in
              if 0 \<le> sint (entry_value entry) then
                check_constant_id proto_index p (entry_value entry) ''table-with-constants value'' v1
              else v1)
            entries v
      | C_ClassShape shape \<Rightarrow>
          (let v1 = check_string_constant_id proto_index p (class_name shape) ''class shape name'' v;
               v2 = fold (\<lambda>name. check_string_constant_id proto_index p name ''class shape property'')
                      (property_names shape) v1
           in fold (\<lambda>name. check_string_constant_id proto_index p name ''class shape method'')
                (method_names shape) v2)
      | _ \<Rightarrow> v)"

section \<open>Register operands\<close>

definition validate_register_operands ::
  "nat \<Rightarrow> proto \<Rightarrow> nat \<Rightarrow> instruction \<Rightarrow> validator \<Rightarrow> validator" where
  "validate_register_operands proto_index p instruction_index i v =
     (let reg = check_register (Some proto_index) (Some instruction_index) p;
          range = check_register_range (Some proto_index) (Some instruction_index) p in
      case register_policy (i_opcode i) of
        RP_None \<Rightarrow> v
      | RP_FastCall0 \<Rightarrow> v
      | RP_Capture \<Rightarrow> v
      | RP_FastCall1 \<Rightarrow> reg (i_b i) ''fastcall argument'' v
      | RP_FastCall2 \<Rightarrow>
          (let v1 = reg (i_b i) ''fastcall first argument'' v in
           if i_opcode i = Op_FastCall2 then
             (case i_aux i of
                None \<Rightarrow> v1
              | Some aux \<Rightarrow> reg (ucast (aux AND 0xff)) ''fastcall second argument'' v1)
           else v1)
      | RP_FastCall3 \<Rightarrow>
          (let v1 = reg (i_b i) ''fastcall first argument'' v in
           case i_aux i of
             None \<Rightarrow> v1
           | Some aux \<Rightarrow>
               reg (ucast (drop_bit 8 aux AND 0xff)) ''fastcall third argument''
                 (reg (ucast (aux AND 0xff)) ''fastcall second argument'' v1))
      | RP_Call \<Rightarrow>
          (let v1 = reg (i_a i) ''call function'' v;
               v2 = range (i_a i) (saturating_sub (i_b i) 1) ''call arguments'' v1
           in if 0 < i_c i then range (i_a i) (saturating_sub (i_c i) 1) ''call results'' v2 else v2)
      | RP_Return \<Rightarrow> range (i_a i) (saturating_sub (i_b i) 1) ''return values'' v
      | RP_NameCall \<Rightarrow> reg (i_b i) ''namecall receiver'' (range (i_a i) 2 ''namecall output'' v)
      | RP_NumericFor \<Rightarrow> range (i_a i) 3 ''numeric for registers'' v
      | RP_GenericForLoop \<Rightarrow>
          (let variable_count =
                 (case i_aux i of None \<Rightarrow> 0 | Some aux \<Rightarrow> generic_for_loop_variable_count aux)
           in range (i_a i) (saturating_add variable_count 3) ''generic for registers'' v)
      | RP_LoadNil \<Rightarrow> range (i_a i) (saturating_add (i_b i) 1) ''loadnil range'' v
      | RP_SetList \<Rightarrow>
          (let v1 = reg (i_a i) ''setlist table'' v in
           if 0 < i_c i then range (i_b i) (saturating_sub (i_c i) 1) ''setlist values'' v1
           else reg (i_b i) ''setlist first value'' v1)
      | RP_CompareJump \<Rightarrow>
          (let v1 = reg (i_a i) ''compare jump left operand'' v in
           case i_aux i of
             None \<Rightarrow> v1
           | Some aux \<Rightarrow>
               check_register_u32 (Some proto_index) (Some instruction_index) p aux
                 ''compare jump right operand'' v1)
      | RP_NewClass \<Rightarrow>
          (let v1 = reg (i_a i) ''new class output'' v in
           if i_b i \<noteq> 255 then reg (i_b i) ''new class superclass'' v1 else v1)
      | RP_A \<Rightarrow> reg (i_a i) ''A operand'' v
      | RP_AB \<Rightarrow> reg (i_b i) ''B operand'' (reg (i_a i) ''A operand'' v)
      | RP_ABC \<Rightarrow> reg (i_c i) ''C operand'' (reg (i_b i) ''B operand'' (reg (i_a i) ''A operand'' v))
      | RP_AC \<Rightarrow> reg (i_c i) ''C operand'' (reg (i_a i) ''A operand'' v))"

section \<open>References and payloads\<close>

fun is_closure_constant :: "bc_constant \<Rightarrow> bool" where
  "is_closure_constant (C_Closure _) = True"
| "is_closure_constant _ = False"

fun is_class_shape_constant :: "bc_constant \<Rightarrow> bool" where
  "is_class_shape_constant (C_ClassShape _) = True"
| "is_class_shape_constant _ = False"

definition matches :: "('a \<Rightarrow> bool) \<Rightarrow> 'a option \<Rightarrow> bool" where
  "matches P x = (case x of None \<Rightarrow> False | Some y \<Rightarrow> P y)"

definition validate_opcode_specific_payload ::
  "nat \<Rightarrow> proto \<Rightarrow> nat \<Rightarrow> instruction \<Rightarrow> validator \<Rightarrow> validator" where
  "validate_opcode_specific_payload proto_index p instruction_index i v =
     (let fail = push_instruction proto_index instruction_index;
          v1 =
            (if i_opcode i \<in> set [Op_FastCall, Op_FastCall1, Op_FastCall2, Op_FastCall2K, Op_FastCall3] then
               (let v1 =
                      (if i_a i = BUILTIN_NONE \<or> BUFFER_WRITEINTEGER < i_a i then
                         fail InvalidAuxPayload (''fastcall builtin id '' @ show_word (i_a i) @ '' is invalid'') v
                       else v)
                in if i_c i = 0 then fail InvalidJumpTarget ''fastcall skip offset is zero'' v1 else v1)
             else v) in
      if i_opcode i = Op_Capture \<and> capture_type_from_byte (i_a i) = None then
        fail InvalidAuxPayload (''capture kind '' @ show_word (i_a i) @ '' is invalid'') v1
      else
        (let v2 =
               (if i_opcode i = Op_Capture then
                  (case capture_type_from_byte (i_a i) of
                     None \<Rightarrow> v1
                   | Some Capture_Upval \<Rightarrow>
                       check_upvalue proto_index instruction_index p (i_b i) ''capture source upvalue'' v1
                   | Some _ \<Rightarrow>
                       check_register (Some proto_index) (Some instruction_index) p (i_b i)
                         ''capture source'' v1)
                else v1)
         in if i_opcode i = Op_NewClass \<and> 1 < i_c i then
              fail InvalidAuxPayload (''NEWCLASS flags '' @ show_word (i_c i) @ '' use reserved bits'') v2
            else v2))"

text \<open>
  The reference checks. \<open>Inl\<close> marks the branches that return before the opcode-specific payload
  is looked at.
\<close>

definition validate_references ::
  "nat \<Rightarrow> proto \<Rightarrow> nat \<Rightarrow> instruction \<Rightarrow> validator \<Rightarrow> validator + validator" where
  "validate_references proto_index p instruction_index i v =
     (let fail = push_instruction proto_index instruction_index;
          const = check_constant_id proto_index p in
      case reference_policy (i_opcode i) of
        RF_None \<Rightarrow> Inr v
      | RF_DConstant \<Rightarrow>
          (case u32_try_from_i16 (i_d i) of
             None \<Rightarrow> Inl (fail InvalidConstantReference ''D constant operand is negative'' v)
           | Some constant_id \<Rightarrow> Inr (const constant_id ''D constant operand'' v))
      | RF_DImportConstant \<Rightarrow>
          (case u32_try_from_i16 (i_d i) of
             None \<Rightarrow> Inl (fail InvalidConstantReference ''GETIMPORT D constant operand is negative'' v)
           | Some constant_id \<Rightarrow>
               (let v1 = const constant_id ''GETIMPORT D constant'' v in
                Inr (case get (p_constants p) (unat constant_id) of
                       Some (C_Import import_id) \<Rightarrow>
                         if i_aux i \<noteq> Some import_id then
                           fail InvalidAuxPayload ''GETIMPORT AUX does not match its import constant'' v1
                         else v1
                     | Some _ \<Rightarrow>
                         fail InvalidConstantReference
                           (''GETIMPORT constant id '' @ show_word constant_id @ '' is not an import'') v1
                     | None \<Rightarrow> v1)))
      | RF_LoadKx \<Rightarrow>
          Inr (case i_aux i of None \<Rightarrow> v | Some k \<Rightarrow> const k ''LOADKX constant'' v)
      | RF_AuxStringConstant \<Rightarrow>
          Inr (case i_aux i of
                 None \<Rightarrow> v
               | Some s \<Rightarrow> check_string_constant_id proto_index p s ''string AUX'' v)
      | RF_NewClosureChild \<Rightarrow>
          if sint (i_d i) < 0 then
            Inl (fail InvalidProtoReference ''NEWCLOSURE child index is negative'' v)
          else
            (let child_index = nat (sint (i_d i)) in
             Inr (if length (p_child_protos p) \<le> child_index then
                    fail InvalidProtoReference
                      (''NEWCLOSURE child index '' @ show_nat child_index @ '' outside ''
                       @ show_nat (length (p_child_protos p)) @ '' child protos'') v
                  else v))
      | RF_DupClosureConstant \<Rightarrow>
          (case u32_try_from_i16 (i_d i) of
             None \<Rightarrow> Inl (fail InvalidConstantReference ''D closure constant operand is negative'' v)
           | Some constant_id \<Rightarrow>
               (let v1 = const constant_id ''D closure constant'' v in
                Inr (if \<not> matches is_closure_constant (get (p_constants p) (unat constant_id)) then
                       fail InvalidConstantReference
                         (''D closure constant id '' @ show_word constant_id @ '' is not a closure constant'') v1
                     else v1)))
      | RF_CConstant \<Rightarrow> Inr (const (ucast (i_c i)) ''C constant operand'' v)
      | RF_FastCall2K \<Rightarrow>
          Inr (case i_aux i of None \<Rightarrow> v | Some k \<Rightarrow> const k ''fastcall constant AUX'' v)
      | RF_JumpXEqKConstant \<Rightarrow>
          Inr (case i_aux i of
                 None \<Rightarrow> v
               | Some k \<Rightarrow> const (k AND JUMPX_K_INDEX_MASK) ''jump constant AUX'' v)
      | RF_BConstant \<Rightarrow> Inr (const (ucast (i_b i)) ''B constant operand'' v)
      | RF_CallFb \<Rightarrow>
          Inr (case i_aux i of
                 None \<Rightarrow> v
               | Some slot \<Rightarrow>
                   if length (p_feedback_slots p) \<le> unat slot then
                     fail InvalidFeedbackSlot
                       (''CALLFB slot '' @ show_word slot @ '' outside ''
                        @ show_nat (length (p_feedback_slots p)) @ '' feedback slots'') v
                   else v)
      | RF_BUpvalue \<Rightarrow> Inr (check_upvalue proto_index instruction_index p (i_b i) ''B upvalue operand'' v)
      | RF_AuxClassShapeConstant \<Rightarrow>
          Inr (case i_aux i of
                 None \<Rightarrow> v
               | Some constant_id \<Rightarrow>
                   (let v1 = const constant_id ''NEWCLASS class-shape AUX'' v in
                    if \<not> matches is_class_shape_constant (get (p_constants p) (unat constant_id)) then
                      fail InvalidConstantReference
                        (''NEWCLASS AUX constant id '' @ show_word constant_id @ '' is not a class shape'') v1
                    else v1)))"

definition validate_instruction_references ::
  "nat \<Rightarrow> proto \<Rightarrow> nat \<Rightarrow> instruction \<Rightarrow> validator \<Rightarrow> validator" where
  "validate_instruction_references proto_index p instruction_index i v =
     (case validate_references proto_index p instruction_index i v of
        Inl v' \<Rightarrow> v'
      | Inr v' \<Rightarrow> validate_opcode_specific_payload proto_index p instruction_index i v')"

section \<open>Instructions\<close>

definition validate_instruction ::
  "nat \<Rightarrow> proto \<Rightarrow> instruction_boundary_index \<Rightarrow> nat \<Rightarrow> instruction \<Rightarrow> validator \<Rightarrow> validator" where
  "validate_instruction proto_index p b instruction_index i v =
     (if \<not> is_header_consistent i then
        push_instruction proto_index instruction_index InconsistentInstruction
          (show_opcode (i_opcode i) @ '' decoded operand fields do not match encoded header word ''
           @ show_hex_010 (i_header i)) v
      else
        (let expected_aux = instruction_len (i_opcode i) - 1;
             aux_words = (if i_aux i = None then 0 else 1) in
         if aux_words \<noteq> expected_aux then
           push_instruction proto_index instruction_index InvalidAuxArity
             (show_opcode (i_opcode i) @ '' has '' @ show_nat aux_words @ '' AUX words, expected ''
              @ show_nat expected_aux) v
         else
           (let v1 =
                  (case invalid_jump_target (p_code p) b instruction_index of
                     None \<Rightarrow> v
                   | Some target \<Rightarrow>
                       push_instruction proto_index instruction_index InvalidJumpTarget
                         (show_opcode (i_opcode i) @ '' jumps to word '' @ show_int (sint target)
                          @ '', outside instruction boundaries 0..'' @ show_word (code_words b)) v)
            in validate_instruction_references proto_index p instruction_index i
                 (validate_register_operands proto_index p instruction_index i v1))))"

section \<open>Closure captures\<close>

definition closure_child_proto_id :: "proto \<Rightarrow> instruction \<Rightarrow> u32 option" where
  "closure_child_proto_id p i =
     (if i_opcode i = Op_NewClosure then get (p_child_protos p) (unat (i_d i))
      else if i_opcode i = Op_DupClosure then
        (case get (p_constants p) (unat (i_d i)) of Some (C_Closure c) \<Rightarrow> Some c | _ \<Rightarrow> None)
      else None)"

text \<open>
  The loop over the captures of one closure instruction, \<open>todo\<close> of them from \<open>capture_offset\<close> on;
  it breaks at the end of the code and at an instruction that is not a capture.
\<close>

fun capture_loop ::
  "nat \<Rightarrow> proto \<Rightarrow> nat \<Rightarrow> instruction \<Rightarrow> u32 \<Rightarrow> nat \<Rightarrow> nat \<Rightarrow> nat \<Rightarrow> bool list \<times> validator \<Rightarrow> bool list \<times> validator"
where
  "capture_loop proto_index p instruction_index i child_proto_id expected capture_offset 0 s = s"
| "capture_loop proto_index p instruction_index i child_proto_id expected capture_offset (Suc todo) (marks, v) =
     (let capture_index = instruction_index + 1 + capture_offset in
      case get (p_code p) capture_index of
        None \<Rightarrow>
          (marks, push_instruction proto_index instruction_index InvalidClosureCapture
             (show_opcode (i_opcode i) @ '' for child proto '' @ show_word child_proto_id @ '' expects ''
              @ show_nat expected @ '' capture instruction(s), but code ended after ''
              @ show_nat capture_offset) v)
      | Some capture \<Rightarrow>
          if i_opcode capture \<noteq> Op_Capture then
            (marks, push_instruction proto_index capture_index InvalidClosureCapture
               (show_opcode (i_opcode i) @ '' for child proto '' @ show_word child_proto_id
                @ '' expects CAPTURE at instruction '' @ show_nat capture_index @ '', found ''
                @ show_opcode (i_opcode capture)) v)
          else
            capture_loop proto_index p instruction_index i child_proto_id expected (capture_offset + 1) todo
              (marks[capture_index := True], v))"

definition mark_captures ::
  "nat \<Rightarrow> proto \<Rightarrow> nat \<Rightarrow> instruction \<Rightarrow> bool list \<times> validator \<Rightarrow> bool list \<times> validator" where
  "mark_captures proto_index p instruction_index i s =
     (case closure_child_proto_id p i of
        None \<Rightarrow> s
      | Some child_proto_id \<Rightarrow>
          (case get (v_protos (snd s)) (unat child_proto_id) of
             None \<Rightarrow> s
           | Some child_proto \<Rightarrow>
               capture_loop proto_index p instruction_index i child_proto_id
                 (unat (num_upvalues child_proto)) 0 (unat (num_upvalues child_proto)) s))"

definition validate_closure_captures :: "nat \<Rightarrow> proto \<Rightarrow> validator \<Rightarrow> validator" where
  "validate_closure_captures proto_index p v =
     (let (expected_capture, v1) =
            fold_idx (mark_captures proto_index p) 0 (p_code p) (replicate (length (p_code p)) False, v)
      in fold_idx (\<lambda>instruction_index i v.
             if i_opcode i = Op_Capture \<and> \<not> expected_capture ! instruction_index then
               push_instruction proto_index instruction_index InvalidClosureCapture
                 ''CAPTURE instruction is not attached to a closure instruction'' v
             else v)
           0 (p_code p) v1)"

section \<open>Protos and chunks\<close>

definition validate_line_info :: "nat \<Rightarrow> u32 \<Rightarrow> line_info \<Rightarrow> validator \<Rightarrow> validator" where
  "validate_line_info proto_index words li v =
     (let v1 =
            (if (of_nat (length (delta_bytes li)) :: u32) \<noteq> words then
               push_proto proto_index InvalidLineInfo
                 (''line info has '' @ show_nat (length (delta_bytes li)) @ '' deltas for ''
                  @ show_word words @ '' instruction words'') v
             else v)
      in case to_line_numbers li of
           Some lines \<Rightarrow>
             if (of_nat (length lines) :: u32) = words then v1
             else
               push_proto proto_index InvalidLineInfo
                 (''line info decodes to '' @ show_nat (length lines) @ '' lines for ''
                  @ show_word words @ '' instruction words'') v1
         | None \<Rightarrow> push_proto proto_index InvalidLineInfo ''line info does not decode'' v1)"

definition validate_debug_local :: "nat \<Rightarrow> proto \<Rightarrow> u32 \<Rightarrow> debug_local \<Rightarrow> validator \<Rightarrow> validator" where
  "validate_debug_local proto_index p words l v =
     (let v1 = check_string_id (Some proto_index) None (local_name l) ''debug local name'' v;
          v2 = check_register (Some proto_index) None p (local_register l) ''debug local'' v1
      in if end_pc l < start_pc l \<or> words < end_pc l then
           push_proto proto_index InvalidDebugInfo
             (''debug local pc range '' @ show_word (start_pc l) @ ''..'' @ show_word (end_pc l)
              @ '' is outside 0..'' @ show_word words) v2
         else v2)"

definition validate_debug_info :: "nat \<Rightarrow> proto \<Rightarrow> u32 \<Rightarrow> debug_info \<Rightarrow> validator \<Rightarrow> validator" where
  "validate_debug_info proto_index p words d v =
     (let v1 =
            (if length (debug_upvalues d) \<noteq> unat (num_upvalues p) then
               push_proto proto_index InvalidDebugInfo
                 (''debug info has '' @ show_nat (length (debug_upvalues d))
                  @ '' upvalues for proto num_upvalues '' @ show_word (num_upvalues p)) v
             else v);
          v2 = fold (\<lambda>name. check_string_id (Some proto_index) None name ''debug upvalue name'')
                 (debug_upvalues d) v1
      in fold (validate_debug_local proto_index p words) (debug_locals d) v2)"

definition validate_feedback_slot ::
  "nat \<Rightarrow> instruction_boundary_index \<Rightarrow> nat \<Rightarrow> feedback_slot \<Rightarrow> validator \<Rightarrow> validator" where
  "validate_feedback_slot proto_index b slot_index slot v =
     (if \<not> is_instruction_word b (slot_pc slot) then
        push_proto proto_index InvalidFeedbackSlot
          (''feedback slot '' @ show_nat slot_index @ '' pc '' @ show_word (slot_pc slot)
           @ '' is not an instruction'') v
      else v)"

definition validate_child :: "nat \<Rightarrow> u32 \<Rightarrow> validator \<Rightarrow> validator" where
  "validate_child proto_index child v =
     (if \<not> proto_id_is_valid child (v_protos v) then
        push_proto proto_index InvalidProtoReference
          (''child proto id '' @ show_word child @ '' is outside '' @ show_nat (length (v_protos v))
           @ '' protos'') v
      else v)"

definition validate_proto :: "nat \<Rightarrow> proto \<Rightarrow> validator \<Rightarrow> validator" where
  "validate_proto proto_index p v =
     (let v1 =
            (if max_stack_size p < num_params p then
               push_proto proto_index InvalidProtoMetadata
                 (''num_params '' @ show_word (num_params p) @ '' exceeds max_stack_size ''
                  @ show_word (max_stack_size p)) v
             else v);
          v2 = check_string_id (Some proto_index) None (debug_name p) ''debug name'' v1;
          v3 = fold (validate_child proto_index) (p_child_protos p) v2;
          v4 = fold_idx (validate_constant proto_index p) 0 (p_constants p) v3
      in case boundary_index_new (p_code p) of
           Inl message \<Rightarrow> push_proto proto_index InvalidProtoMetadata message v4
         | Inr b \<Rightarrow>
             (let words = code_words b;
                  v5 = fold_idx (validate_instruction proto_index p b) 0 (p_code p) v4;
                  v6 = (case proto_line_info p of
                          None \<Rightarrow> v5
                        | Some li \<Rightarrow> validate_line_info proto_index words li v5);
                  v7 = (case proto_debug_info p of
                          None \<Rightarrow> v6
                        | Some d \<Rightarrow> validate_debug_info proto_index p words d v6);
                  v8 = fold_idx (validate_feedback_slot proto_index b) 0 (p_feedback_slots p) v7
              in validate_closure_captures proto_index p v8))"

definition validate_chunk_inner :: "bytecode_chunk \<Rightarrow> version_policy \<Rightarrow> validation_error list" where
  "validate_chunk_inner chunk policy =
     (case chunk of
        Chunk_Error _ \<Rightarrow> []
      | Chunk_Valid c \<Rightarrow>
          if \<not> accepts policy (bytecode_version c) then
            [\<lparr>err_proto_index = None, err_instruction_index = None, err_kind = UnsupportedVersion,
              err_message = unsupported_version_message policy (bytecode_version c)\<rparr>]
          else
            (let v = \<lparr>v_strings = ch_strings c, v_protos = ch_protos c, v_errors = []\<rparr>;
                 v1 =
                   (if \<not> proto_id_is_valid (ch_main_proto c) (ch_protos c) then
                      push_chunk InvalidProtoReference
                        (''main proto id '' @ show_word (ch_main_proto c) @ '' is outside ''
                         @ show_nat (length (ch_protos c)) @ '' protos'') v
                    else v);
                 v2 = fold (\<lambda>m. check_string_id None None (mapping_name m) ''userdata type mapping name'')
                        (ch_userdata_type_mappings c) v1
             in v_errors (fold_idx validate_proto 0 (ch_protos c) v2)))"

definition validate_chunk :: "bytecode_chunk \<Rightarrow> validation_error list" where
  "validate_chunk chunk = validate_chunk_inner chunk Public"

definition validate_upstream_fixture_chunk :: "bytecode_chunk \<Rightarrow> validation_error list" where
  "validate_upstream_fixture_chunk chunk = validate_chunk_inner chunk UpstreamFixture"

end
