(* ===== verification/Validate_Spec.thy ===== *)
theory Validate_Spec
  imports Validate
begin

text \<open>
  What the validator promises: a declarative account of a structurally valid chunk, and the proof
  that the validator reports no error exactly for those. Every pass of the validator appends errors
  and leaves its tables alone, which is the interface \<open>checker\<close>; the passes over lists are proved
  once from it.
\<close>

section \<open>Steps that only append errors\<close>

definition add_errors :: "validation_error list \<Rightarrow> validator \<Rightarrow> validator" where
  "add_errors es v = v\<lparr>v_errors := v_errors v @ es\<rparr>"

text \<open>\<open>checked v w P\<close>: \<open>w\<close> is \<open>v\<close> with errors appended, none exactly when \<open>P\<close> holds.\<close>

definition checked :: "validator \<Rightarrow> validator \<Rightarrow> bool \<Rightarrow> bool" where
  "checked v w P \<longleftrightarrow> (\<exists>es. w = add_errors es v \<and> (es = [] \<longleftrightarrow> P))"

named_theorems checks \<open>steps that append errors exactly when a condition fails\<close>

lemma checked_refl: "checked v v True"
  by (simp add: checked_def add_errors_def)

lemma checked_frame: "checked v w P \<Longrightarrow> v_strings w = v_strings v" "checked v w P \<Longrightarrow> v_protos w = v_protos v"
  by (auto simp: checked_def add_errors_def)

lemma checked_errors: "checked v w P \<Longrightarrow> v_errors v = [] \<Longrightarrow> v_errors w = [] \<longleftrightarrow> P"
  by (auto simp: checked_def add_errors_def)

lemma checked_conseq: "checked v w P \<Longrightarrow> P = Q \<Longrightarrow> checked v w Q"
  by simp

lemma checked_push: "checked v w P \<Longrightarrow> checked v (push a b k m w) False"
  by (auto simp: checked_def add_errors_def push_def)

lemma checked_pushes [checks]:
  "checked v w P \<Longrightarrow> checked v (push_chunk k m w) False"
  "checked v w P \<Longrightarrow> checked v (push_proto a k m w) False"
  "checked v w P \<Longrightarrow> checked v (push_instruction a b k m w) False"
  by (simp_all add: push_chunk_def push_proto_def push_instruction_def checked_push)

lemma checked_fail:
  "checked v w P \<Longrightarrow> checked v (if c then push a b k m w else w) (P \<and> \<not> c)"
  by (auto intro: checked_conseq [OF checked_push])

lemma checked_if:
  "(c \<Longrightarrow> checked v w1 P1) \<Longrightarrow> (\<not> c \<Longrightarrow> checked v w2 P2) \<Longrightarrow>
   checked v (if c then w1 else w2) (if c then P1 else P2)"
  by simp

lemma checked_trans: "checked u v P \<Longrightarrow> checked v w Q \<Longrightarrow> checked u w (P \<and> Q)"
  by (force simp: checked_def add_errors_def)

section \<open>The interface of a pass\<close>

locale checker =
  fixes check :: "'a \<Rightarrow> validator \<Rightarrow> validator"
    and ok :: "'a \<Rightarrow> bytes list \<Rightarrow> proto list \<Rightarrow> bool"
  assumes check: "checked w (check x w) (ok x (v_strings w) (v_protos w))"
begin

lemma step: "checked v w P \<Longrightarrow> checked v (check x w) (P \<and> ok x (v_strings v) (v_protos v))"
  using checked_trans [OF _ check] checked_frame by metis

lemma fold_step:
  "checked v w P \<Longrightarrow> checked v (fold check xs w) (P \<and> (\<forall>x \<in> set xs. ok x (v_strings v) (v_protos v)))"
proof (induction xs arbitrary: w P)
  case (Cons x xs)
  from Cons.IH [OF step [OF Cons.prems]] show ?case
    by (auto elim!: checked_conseq)
qed simp

end

locale indexed_checker =
  fixes check :: "nat \<Rightarrow> 'a \<Rightarrow> validator \<Rightarrow> validator"
    and ok :: "nat \<Rightarrow> 'a \<Rightarrow> bytes list \<Rightarrow> proto list \<Rightarrow> bool"
  assumes at_index: "checker (check i) (ok i)"
begin

lemma step: "checked v w P \<Longrightarrow> checked v (check i x w) (P \<and> ok i x (v_strings v) (v_protos v))"
  by (rule checker.step [OF at_index])

lemma fold_idx_step:
  "checked v w P \<Longrightarrow> checked v (fold_idx check i xs w)
     (P \<and> (\<forall>j < length xs. ok (i + j) (xs ! j) (v_strings v) (v_protos v)))"
proof (induction xs arbitrary: i w P)
  case (Cons x xs)
  from Cons.IH [OF step [OF Cons.prems], of "Suc i"] show ?case
    unfolding fold_idx.simps
    by (rule checked_conseq) (simp only: all_idx_Cons [where P = "\<lambda>k y. ok k y _ _"] conj_assoc)
qed simp

end

section \<open>Elementary checks\<close>

lemma check_constant_id_step [checks]:
  "checked v w P \<Longrightarrow> checked v (check_constant_id pi p k ctx w) (P \<and> unat k < length (p_constants p))"
  unfolding check_constant_id_def push_proto_def not_le [symmetric] by (rule checked_fail)

definition string_constant_at :: "proto \<Rightarrow> u32 \<Rightarrow> bool" where
  "string_constant_at p k \<longleftrightarrow> (\<exists>s. get (p_constants p) (unat k) = Some (C_String s))"

lemma is_string_constant_iff: "is_string_constant k \<longleftrightarrow> (\<exists>s. k = C_String s)"
  by (cases k) auto

lemma check_string_constant_id_step [checks]:
  "checked v w P \<Longrightarrow> checked v (check_string_constant_id pi p k ctx w) (P \<and> string_constant_at p k)"
  unfolding check_string_constant_id_def string_constant_at_def
  by (auto simp: is_string_constant_iff intro: checked_conseq [OF checked_pushes(2)] split: option.split)

lemma check_string_id_step [checks]:
  "checked v w P \<Longrightarrow> checked v (check_string_id pi ii k ctx w) (P \<and> unat k \<le> length (v_strings v))"
  unfolding check_string_id_def not_less [symmetric]
  by (frule checked_frame(1)) (simp only: checked_fail)

lemma check_register_step [checks]:
  "checked v w P \<Longrightarrow> checked v (check_register pi ii p r ctx w) (P \<and> unat r < unat (max_stack_size p))"
  unfolding check_register_def not_le [symmetric] word_le_nat_alt by (rule checked_fail)

lemma check_register_u32_step [checks]:
  "checked v w P \<Longrightarrow> checked v (check_register_u32 pi ii p r ctx w) (P \<and> unat r < unat (max_stack_size p))"
proof -
  assume c: "checked v w P"
  have "unat (ucast (max_stack_size p) :: u32) = unat (max_stack_size p)"
    by (simp add: unsigned_ucast_eq take_bit_nat_eq_self_iff order_less_trans [OF unat_bounds(1)])
  with c show ?thesis
    unfolding check_register_u32_def not_le [symmetric] word_le_nat_alt by (simp only: checked_fail)
qed

text \<open>The 16-bit end of a register range does not wrap.\<close>

lemma register_range_end:
  fixes start count m :: u8
  assumes "count \<noteq> 0"
  shows "(ucast m :: u16) \<le> ucast start + ucast count - 1 \<longleftrightarrow> unat m < unat start + unat count"
proof -
  have u: "unat (ucast b :: u16) = unat b" for b :: u8
    by (simp add: unsigned_ucast_eq take_bit_nat_eq_self_iff order_less_trans [OF unat_bounds(1)])
  have c: "0 < unat count" using assms by (simp add: unat_gt_0)
  have s: "unat (ucast start + ucast count :: u16) = unat start + unat count"
    using unat_bounds(1) [of start] unat_bounds(1) [of count] by (simp add: unat_word_ariths u del: unat_bounds)
  have "(ucast start + ucast count :: u16) \<noteq> 0" using s c by auto
  then have "unat (ucast start + ucast count - 1 :: u16) = unat start + unat count - 1"
    using s by (simp add: unat_minus_one)
  with c show ?thesis by (simp add: word_le_nat_alt u) linarith
qed

lemma interval_below:
  fixes c :: nat
  assumes "0 < c"
  shows "(\<forall>r \<in> {s ..< s + c}. r < m) \<longleftrightarrow> s + c \<le> m"
proof
  assume "\<forall>r \<in> {s ..< s + c}. r < m"
  then have "s + c - 1 < m" using assms by (auto dest: bspec [of _ _ "s + c - 1"])
  then show "s + c \<le> m" by simp
qed auto

lemma check_register_range_step [checks]:
  assumes "checked v w P"
  shows "checked v (check_register_range pi ii p start count ctx w)
    (P \<and> (\<forall>r \<in> {unat start ..< unat start + unat count}. r < unat (max_stack_size p)))"
proof (cases "count = 0")
  case True
  with assms show ?thesis by (simp add: check_register_range_def)
next
  case False
  then have "0 < unat count" by (simp add: unat_gt_0)
  then have "(\<forall>r \<in> {unat start ..< unat start + unat count}. r < unat (max_stack_size p)) \<longleftrightarrow>
      \<not> unat (max_stack_size p) < unat start + unat count"
    by (simp add: interval_below not_less)
  with False assms show ?thesis
    by (simp add: check_register_range_def register_range_end Let_def checked_fail)
qed

lemma check_upvalue_step [checks]:
  "checked v w P \<Longrightarrow> checked v (check_upvalue pi ii p r ctx w) (P \<and> unat r < unat (num_upvalues p))"
  unfolding check_upvalue_def push_instruction_def not_le [symmetric] word_le_nat_alt by (rule checked_fail)

section \<open>Constants\<close>

text \<open>The constant ids an import path packs, ten bits each below the two count bits.\<close>

definition import_path :: "u32 \<Rightarrow> u32 list" where
  "import_path import_id =
     map (\<lambda>j. drop_bit (20 - 10 * j) import_id AND 0x3ff) [0..<unat (drop_bit 30 import_id)]"

fun constant_ok :: "bytes list \<Rightarrow> proto list \<Rightarrow> proto \<Rightarrow> bc_constant \<Rightarrow> bool" where
  "constant_ok strs ps p (C_String s) = (unat s \<le> length strs)"
| "constant_ok strs ps p (C_Import import_id) =
     (import_path import_id \<noteq> [] \<and> (\<forall>k \<in> set (import_path import_id). string_constant_at p k))"
| "constant_ok strs ps p (C_Table keys) = (\<forall>k \<in> set keys. unat k < length (p_constants p))"
| "constant_ok strs ps p (C_Closure c) = (unat c < length ps)"
| "constant_ok strs ps p (C_TableWithConstants entries) =
     (\<forall>e \<in> set entries. unat (entry_key e) < length (p_constants p)
        \<and> (0 \<le> sint (entry_value e) \<longrightarrow> unat (entry_value e) < length (p_constants p)))"
| "constant_ok strs ps p (C_ClassShape shape) =
     (\<forall>k \<in> set (class_name shape # property_names shape @ method_names shape). string_constant_at p k)"
| "constant_ok strs ps p _ = True"

interpretation string_constants: checker "\<lambda>k. check_string_constant_id pi p k ctx"
    "\<lambda>k _ _. string_constant_at p k" for pi p ctx
  by unfold_locales (rule checked_conseq [OF check_string_constant_id_step [OF checked_refl]], simp)

interpretation constant_ids: checker "\<lambda>k. check_constant_id pi p k ctx"
    "\<lambda>k _ _. unat k < length (p_constants p)" for pi p ctx
  by unfold_locales (rule checked_conseq [OF check_constant_id_step [OF checked_refl]], simp)

interpretation import_components: checker
    "\<lambda>j. check_string_constant_id pi p (drop_bit (import_component_shift j) import_id AND IMPORT_PATH_COMPONENT_MASK) ctx"
    "\<lambda>j _ _. string_constant_at p (drop_bit (import_component_shift j) import_id AND IMPORT_PATH_COMPONENT_MASK)"
    for pi p import_id ctx
  by unfold_locales (rule checked_conseq [OF check_string_constant_id_step [OF checked_refl]], simp)

interpretation table_entries: checker
    "\<lambda>entry v.
      if 0 \<le> sint (entry_value entry) then
        check_constant_id pi p (entry_value entry) ''table-with-constants value''
          (check_constant_id pi p (entry_key entry) ''table-with-constants key'' v)
      else check_constant_id pi p (entry_key entry) ''table-with-constants key'' v"
    "\<lambda>e _ _. unat (entry_key e) < length (p_constants p)
        \<and> (0 \<le> sint (entry_value e) \<longrightarrow> unat (entry_value e) < length (p_constants p))" for pi p
  by unfold_locales
    (auto intro!: checked_conseq [OF check_constant_id_step [OF check_constant_id_step [OF checked_refl]]]
      checked_conseq [OF check_constant_id_step [OF checked_refl]])

lemma drop_bit_30_le_3: "drop_bit 30 (w :: u32) \<le> 3"
proof -
  have "unat (drop_bit 30 w) = unat w div 2 ^ 30"
    using unat_drop_bit_eq [of 30 w] by (simp add: drop_bit_eq_div)
  then show ?thesis using unat_bounds(3) [of w] by (simp add: word_le_nat_alt less_mult_imp_div_less del: unat_bounds)
qed

lemma validate_constant_step:
  assumes "checked v w P"
  shows "checked v (validate_constant pi p ci k w) (P \<and> constant_ok (v_strings v) (v_protos v) p k)"
proof (cases k)
  case (C_Import import_id)
  let ?n = "drop_bit 30 import_id"
  have "1 \<le> ?n \<longleftrightarrow> unat ?n \<noteq> 0" by (simp add: word_le_nat_alt) linarith
  then show ?thesis
    using import_components.fold_step [OF assms, where xs = "[0..<unat ?n]" and pi = pi and p = p] drop_bit_30_le_3 [of import_id]
    by (auto simp: C_Import validate_constant_def Let_def opcode_consts import_path_def
        intro: checked_conseq [OF checked_pushes(2) [OF assms]] elim!: checked_conseq)
qed (use assms in \<open>auto simp: validate_constant_def Let_def proto_id_is_valid_def checked_frame
    intro!: checked_conseq [OF checked_pushes(2) [OF assms]]
    intro: checked_conseq [OF check_string_id_step [OF assms]] checked_conseq [OF constant_ids.fold_step [OF assms]]
      checked_conseq [OF table_entries.fold_step [OF assms]]
      checked_conseq [OF string_constants.fold_step [OF string_constants.fold_step [OF check_string_constant_id_step [OF assms]]]]\<close>)

interpretation constants: indexed_checker "validate_constant pi p" "\<lambda>_ k strs ps. constant_ok strs ps p k" for pi p
  by (rule indexed_checker.intro, rule checker.intro)
    (rule checked_conseq [OF validate_constant_step [OF checked_refl]], simp)

section \<open>Register operands\<close>

text \<open>The registers the validator holds an instruction to, by its opcode's policy.\<close>

definition register_range :: "u8 \<Rightarrow> nat \<Rightarrow> nat set" where
  "register_range start count = {unat start ..< unat start + count}"

definition generic_for_registers :: "u32 \<Rightarrow> nat" where
  "generic_for_registers aux = min (unat (take_bit 31 aux) + 3) 255"

definition checked_registers :: "instruction \<Rightarrow> nat set" where
  "checked_registers i =
     (let a = unat (i_a i); b = unat (i_b i); c = unat (i_c i);
          aux = (case i_aux i of None \<Rightarrow> 0 | Some x \<Rightarrow> x) in
      case register_policy (i_opcode i) of
        RP_None \<Rightarrow> {}
      | RP_FastCall0 \<Rightarrow> {}
      | RP_Capture \<Rightarrow> {}
      | RP_FastCall1 \<Rightarrow> {b}
      | RP_FastCall2 \<Rightarrow>
          (if i_opcode i = Op_FastCall2 then {b, unat (take_bit 8 aux)} else {b})
      | RP_FastCall3 \<Rightarrow> {b, unat (take_bit 8 aux), unat (take_bit 8 (drop_bit 8 aux))}
      | RP_Call \<Rightarrow> {a} \<union> register_range (i_a i) (b - 1) \<union> register_range (i_a i) (c - 1)
      | RP_Return \<Rightarrow> register_range (i_a i) (b - 1)
      | RP_NameCall \<Rightarrow> {a, a + 1, b}
      | RP_NumericFor \<Rightarrow> {a, a + 1, a + 2}
      | RP_GenericForLoop \<Rightarrow> register_range (i_a i) (generic_for_registers aux)
      | RP_LoadNil \<Rightarrow> register_range (i_a i) (min (b + 1) 255)
      | RP_SetList \<Rightarrow> {a} \<union> (if c = 0 then {b} else register_range (i_b i) (c - 1))
      | RP_CompareJump \<Rightarrow> {a, unat aux}
      | RP_NewClass \<Rightarrow> (if b = 255 then {a} else {a, b})
      | RP_A \<Rightarrow> {a}
      | RP_AB \<Rightarrow> {a, b}
      | RP_ABC \<Rightarrow> {a, b, c}
      | RP_AC \<Rightarrow> {a, c})"

lemma and_255: "(w :: u32) AND 0xff = take_bit 8 w"
  by (simp add: take_bit_eq_mask mask_eq_exp_minus_1)

lemma unat_low_byte: "unat (ucast (w AND 0xff :: u32) :: u8) = unat (take_bit 8 w)"
proof -
  have "unat (take_bit 8 w) < 256"
    using take_bit_nat_less_exp [of 8 "unat w"] by (simp add: unsigned_take_bit_eq)
  then show ?thesis
    by (simp add: and_255 unsigned_ucast_eq take_bit_nat_eq_self)
qed

lemma unat_variable_count:
  "unat (saturating_add (generic_for_loop_variable_count aux) 3) = generic_for_registers aux"
proof -
  have "aux AND NOT FORGLOOP_INEXT_BIT = take_bit 31 aux"
  proof (rule bit_word_eqI)
    fix n assume n: "n < LENGTH(32)"
    then have "bit FORGLOOP_INEXT_BIT n \<longleftrightarrow> n = 31"
      unfolding FORGLOOP_INEXT_BIT_def bit_push_bit_iff by (auto simp only: bit_1_iff possible_bit_word)
    with n show "bit (aux AND NOT FORGLOOP_INEXT_BIT) n = bit (take_bit 31 aux) n"
      by (auto simp: bit_simps)
  qed
  moreover have "unat (ucast (min x 255) :: u8) = min (unat x) 255" for x :: u32
  proof -
    have "unat (min x 255) = min (unat x) 255" by (simp add: min_def word_le_nat_alt)
    then show ?thesis by (simp add: unsigned_ucast_eq take_bit_nat_eq_self)
  qed
  ultimately show ?thesis
    by (simp add: unat_saturating_add generic_for_loop_variable_count_def generic_for_registers_def)
qed

lemma aux_policies:
  "register_policy op = RP_FastCall2 \<Longrightarrow> instruction_len op = 2"
  "register_policy op = RP_FastCall3 \<Longrightarrow> instruction_len op = 2"
  "register_policy op = RP_GenericForLoop \<Longrightarrow> instruction_len op = 2"
  "register_policy op = RP_CompareJump \<Longrightarrow> instruction_len op = 2"
  by (cases op; simp add: instruction_len_def)+

lemma conj_ball_insert: "(P \<and> x < m) \<and> (\<forall>r \<in> A. r < m) \<longleftrightarrow> P \<and> (\<forall>r \<in> insert x A. r < (m :: nat))"
  by auto

lemma u8_pos_iff: "0 < (b :: u8) \<longleftrightarrow> unat b \<noteq> 0"
  by (simp add: word_less_nat_alt)

lemma u8_max_iff: "(b :: u8) = 255 \<longleftrightarrow> unat b = 255"
  by (simp add: word_unat_eq_iff)

lemma validate_register_operands_step:
  assumes c: "checked v w P" and aux: "i_aux i = None \<longleftrightarrow> instruction_len (i_opcode i) = 1"
  shows "checked v (validate_register_operands pi p k i w)
    (P \<and> (\<forall>r \<in> checked_registers i. r < unat (max_stack_size p)))"
proof -
  have aux2: "\<exists>x. i_aux i = Some x" if "instruction_len (i_opcode i) = 2"
    using that aux by auto
  show ?thesis
  proof (cases "register_policy (i_opcode i)")
    case RP_FastCall2
    then obtain x where "i_aux i = Some x" using aux2 aux_policies by blast
    with RP_FastCall2 show ?thesis
      unfolding validate_register_operands_def
      by (auto simp: Let_def checked_registers_def unat_low_byte
          intro!: checked_conseq [OF check_register_step [OF check_register_step [OF c]]]
            checked_conseq [OF check_register_step [OF c]])
  next
    case RP_FastCall3
    then obtain x where "i_aux i = Some x" using aux2 aux_policies by blast
    with RP_FastCall3 show ?thesis
      unfolding validate_register_operands_def
      by (auto simp: Let_def checked_registers_def unat_low_byte
          intro!: checked_conseq [OF check_register_step [OF check_register_step [OF check_register_step [OF c]]]])
  next
    case RP_GenericForLoop
    then obtain x where "i_aux i = Some x" using aux2 aux_policies by blast
    with RP_GenericForLoop show ?thesis
      unfolding validate_register_operands_def
      by (auto simp: Let_def checked_registers_def register_range_def unat_variable_count
          intro!: checked_conseq [OF check_register_range_step [OF c]])
  next
    case RP_CompareJump
    then obtain x where "i_aux i = Some x" using aux2 aux_policies by blast
    with RP_CompareJump show ?thesis
      unfolding validate_register_operands_def
      by (auto simp: Let_def checked_registers_def
          intro!: checked_conseq [OF check_register_u32_step [OF check_register_step [OF c]]])
  next
    case RP_Call
    then show ?thesis
      unfolding validate_register_operands_def
      by (auto simp: Let_def checked_registers_def register_range_def u8_pos_iff
          intro!: checked_conseq [OF check_register_range_step [OF check_register_range_step [OF check_register_step [OF c]]]]
            checked_conseq [OF check_register_range_step [OF check_register_step [OF c]]])
  next
    case RP_SetList
    then show ?thesis
      unfolding validate_register_operands_def
      by (auto simp: Let_def checked_registers_def register_range_def u8_pos_iff
          intro!: checked_conseq [OF check_register_range_step [OF check_register_step [OF c]]]
            checked_conseq [OF check_register_step [OF check_register_step [OF c]]])
  next
    case RP_NewClass
    then show ?thesis
      unfolding validate_register_operands_def
      by (auto simp: Let_def checked_registers_def u8_max_iff
          intro!: checked_conseq [OF check_register_step [OF c]]
            checked_conseq [OF check_register_step [OF check_register_step [OF c]]])
  next
    case RP_NameCall
    have "{unat (i_a i) ..< unat (i_a i) + unat (2 :: u8)} = {unat (i_a i), unat (i_a i) + 1}" by auto
    with RP_NameCall show ?thesis
      unfolding validate_register_operands_def
      by (auto simp: Let_def checked_registers_def
          intro!: checked_conseq [OF check_register_step [OF check_register_range_step [OF c]]])
  next
    case RP_NumericFor
    have "{unat (i_a i) ..< unat (i_a i) + unat (3 :: u8)} = {unat (i_a i), unat (i_a i) + 1, unat (i_a i) + 2}" by auto
    with RP_NumericFor show ?thesis
      unfolding validate_register_operands_def
      by (auto simp: Let_def checked_registers_def
          intro!: checked_conseq [OF check_register_range_step [OF c]])
  qed (use c in \<open>auto simp: validate_register_operands_def Let_def checked_registers_def register_range_def unat_saturating_add
      intro: checked_conseq [OF check_register_range_step [OF c]] checked_conseq [OF check_register_step [OF c]]
        checked_conseq [OF check_register_step [OF check_register_step [OF c]]]
        checked_conseq [OF check_register_step [OF check_register_step [OF check_register_step [OF c]]]]\<close>)
qed

section \<open>References and payloads\<close>

definition aux_word :: "instruction \<Rightarrow> u32" where
  "aux_word i = (case i_aux i of None \<Rightarrow> 0 | Some x \<Rightarrow> x)"

definition constant_at :: "proto \<Rightarrow> nat \<Rightarrow> (bc_constant \<Rightarrow> bool) \<Rightarrow> bool" where
  "constant_at p k Q \<longleftrightarrow> k < length (p_constants p) \<and> Q (p_constants p ! k)"

definition reference_ok :: "proto \<Rightarrow> instruction \<Rightarrow> bool" where
  "reference_ok p i =
     (let d = sint (i_d i); aux = aux_word i; n = length (p_constants p) in
      case reference_policy (i_opcode i) of
        RF_None \<Rightarrow> True
      | RF_DConstant \<Rightarrow> 0 \<le> d \<and> nat d < n
      | RF_DImportConstant \<Rightarrow> 0 \<le> d \<and> constant_at p (nat d) (\<lambda>k. k = C_Import aux)
      | RF_LoadKx \<Rightarrow> unat aux < n
      | RF_AuxStringConstant \<Rightarrow> constant_at p (unat aux) is_string_constant
      | RF_NewClosureChild \<Rightarrow> 0 \<le> d \<and> nat d < length (p_child_protos p)
      | RF_DupClosureConstant \<Rightarrow> 0 \<le> d \<and> constant_at p (nat d) is_closure_constant
      | RF_CConstant \<Rightarrow> unat (i_c i) < n
      | RF_FastCall2K \<Rightarrow> unat aux < n
      | RF_JumpXEqKConstant \<Rightarrow> unat (take_bit 24 aux) < n
      | RF_BConstant \<Rightarrow> unat (i_b i) < n
      | RF_CallFb \<Rightarrow> unat aux < length (p_feedback_slots p)
      | RF_BUpvalue \<Rightarrow> unat (i_b i) < unat (num_upvalues p)
      | RF_AuxClassShapeConstant \<Rightarrow> constant_at p (unat aux) is_class_shape_constant)"

definition payload_ok :: "proto \<Rightarrow> instruction \<Rightarrow> bool" where
  "payload_ok p i \<longleftrightarrow>
     (i_opcode i \<in> {Op_FastCall, Op_FastCall1, Op_FastCall2, Op_FastCall2K, Op_FastCall3} \<longrightarrow>
        1 \<le> unat (i_a i) \<and> unat (i_a i) \<le> 132 \<and> i_c i \<noteq> 0)
     \<and> (i_opcode i = Op_Capture \<longrightarrow>
        (unat (i_a i) \<le> 1 \<and> unat (i_b i) < unat (max_stack_size p)
         \<or> unat (i_a i) = 2 \<and> unat (i_b i) < unat (num_upvalues p)))
     \<and> (i_opcode i = Op_NewClass \<longrightarrow> unat (i_c i) \<le> 1)"

lemma string_constant_at_iff: "string_constant_at p k \<longleftrightarrow> constant_at p (unat k) is_string_constant"
  by (auto simp: string_constant_at_def constant_at_def get_eq_Some is_string_constant_iff)

lemma matches_get: "matches Q (get (p_constants p) k) \<longleftrightarrow> constant_at p k Q"
  by (simp add: matches_def constant_at_def get_def)

lemma sint_nonneg_unat:
  fixes d :: "'a::len word"
  assumes "0 \<le> sint d"
  shows "nat (sint d) = unat d"
proof -
  have "\<not> bit d (LENGTH('a) - Suc 0)" using assms bit_last_iff [of d] by simp
  then have "sint d = uint d"
    by (simp add: sint_uint signed_take_bit_eq_if_positive bit_unsigned_iff take_bit_eq_mod
        mod_pos_pos_trivial signed_take_bit_eq_take_bit_minus) 
  then show ?thesis by simp
qed

lemma unat_ucast_u16_u32: "unat (ucast (d :: i16) :: u32) = unat d"
  by (simp add: unsigned_ucast_eq take_bit_nat_eq_self_iff order_less_trans [OF unat_bounds(2)])

lemma unat_ucast_u8_u32: "unat (ucast (d :: u8) :: u32) = unat d"
  by (simp add: unsigned_ucast_eq take_bit_nat_eq_self_iff order_less_trans [OF unat_bounds(1)])

lemma u32_try_from_i16_cases:
  "u32_try_from_i16 d = (if 0 \<le> sint d then Some (ucast d) else None)"
  by (simp add: u32_try_from_i16_def)

lemma aux_references:
  "reference_policy op \<in> {RF_LoadKx, RF_AuxStringConstant, RF_FastCall2K, RF_JumpXEqKConstant, RF_CallFb,
     RF_AuxClassShapeConstant, RF_DImportConstant} \<Longrightarrow> instruction_len op = 2"
  by (cases op; simp add: instruction_len_def)

lemma and_index_mask: "(k :: u32) AND JUMPX_K_INDEX_MASK = take_bit 24 k"
  by (simp add: JUMPX_K_INDEX_MASK_def take_bit_eq_mask mask_eq_exp_minus_1)

definition references_result :: "validator \<Rightarrow> bool \<Rightarrow> bool \<Rightarrow> validator + validator \<Rightarrow> bool" where
  "references_result v P ok r \<longleftrightarrow>
     (case r of Inl w \<Rightarrow> checked v w False \<and> \<not> ok | Inr w \<Rightarrow> checked v w (P \<and> ok))"

lemma validate_references_step:
  assumes c: "checked v w P" and aux: "i_aux i = None \<longleftrightarrow> instruction_len (i_opcode i) = 1"
  shows "references_result v P (reference_ok p i) (validate_references pi p k i w)"
proof -
  have aux2: "\<exists>x. i_aux i = Some x \<and> aux_word i = x" if "instruction_len (i_opcode i) = 2"
    using that aux by (auto simp: aux_word_def)
  note unfolds = validate_references_def reference_ok_def references_result_def Let_def
    u32_try_from_i16_cases unat_ucast_u16_u32 unat_ucast_u8_u32 sint_nonneg_unat
  show ?thesis
  proof (cases "reference_policy (i_opcode i)")
    case RF_DImportConstant
    then obtain x where "i_aux i = Some x" "aux_word i = x"
      using aux2 aux_references [of "i_opcode i"] by auto
    with RF_DImportConstant show ?thesis
      unfolding unfolds
      by (auto simp: constant_at_def get_def unat_ucast_u16_u32 sint_nonneg_unat
          intro!: checked_pushes(3) [OF c] checked_conseq [OF checked_pushes(3) [OF check_constant_id_step [OF c]]]
            checked_conseq [OF check_constant_id_step [OF c]] split: bc_constant.splits)
  next
    case RF_DupClosureConstant
    then show ?thesis
      unfolding unfolds
      by (auto simp: matches_get constant_at_def unat_ucast_u16_u32 sint_nonneg_unat
          intro!: checked_pushes(3) [OF c] checked_conseq [OF checked_pushes(3) [OF check_constant_id_step [OF c]]]
            checked_conseq [OF check_constant_id_step [OF c]])
  next
    case RF_AuxClassShapeConstant
    then obtain x where "i_aux i = Some x" "aux_word i = x"
      using aux2 aux_references [of "i_opcode i"] by auto
    with RF_AuxClassShapeConstant show ?thesis
      unfolding unfolds
      by (auto simp: matches_get constant_at_def
          intro!: checked_conseq [OF checked_pushes(3) [OF check_constant_id_step [OF c]]]
            checked_conseq [OF check_constant_id_step [OF c]])
  qed
    (use c aux2 aux_references [of "i_opcode i"] in
      \<open>auto simp: unfolds string_constant_at_iff and_index_mask
        intro: checked_pushes(3) [OF c] checked_conseq [OF checked_pushes(3) [OF c]]
          checked_conseq [OF check_constant_id_step [OF c]] checked_conseq [OF check_upvalue_step [OF c]]
          checked_conseq [OF check_string_constant_id_step [OF c]]\<close>)
qed

lemma capture_type_cases:
  "capture_type_from_byte b =
     (if b = 0 then Some Capture_Val else if b = 1 then Some Capture_Ref
      else if b = 2 then Some Capture_Upval else None)"
  by (simp add: capture_type_from_byte_def)

lemma u8_le_1: "unat (b :: u8) \<le> Suc 0 \<longleftrightarrow> b = 0 \<or> b = 1"
  by (auto simp: word_unat_eq_iff)

lemma u8_eq_2: "unat (b :: u8) = 2 \<longleftrightarrow> b = 2"
  by (auto simp: word_unat_eq_iff)

lemma builtin_bounds:
  "1 \<le> unat (b :: u8) \<and> unat b \<le> 132 \<longleftrightarrow> \<not> (b = BUILTIN_NONE \<or> BUFFER_WRITEINTEGER < b)"
  by (auto simp: opcode_consts word_less_nat_alt not_less word_unat_eq_iff)

lemma payload_capture:
  "i_opcode i = Op_Capture \<Longrightarrow> payload_ok p i \<longleftrightarrow>
     (case capture_type_from_byte (i_a i) of
        None \<Rightarrow> False
      | Some Capture_Upval \<Rightarrow> unat (i_b i) < unat (num_upvalues p)
      | Some _ \<Rightarrow> unat (i_b i) < unat (max_stack_size p))"
  by (auto simp: payload_ok_def capture_type_cases u8_le_1 u8_eq_2)

lemma validate_payload_step:
  assumes c: "checked v w P"
  shows "checked v (validate_opcode_specific_payload pi p k i w) (P \<and> payload_ok p i)"
proof (cases "i_opcode i = Op_Capture")
  case True
  then show ?thesis
    by (auto simp: validate_opcode_specific_payload_def Let_def payload_capture
        intro: checked_conseq [OF checked_pushes(3) [OF c]] checked_conseq [OF check_upvalue_step [OF c]]
          checked_conseq [OF check_register_step [OF c]] split: option.split capture_type.split)
next
  case no_capture: False
  show ?thesis
  proof (cases "i_opcode i = Op_NewClass")
    case True
    then show ?thesis
      using checked_fail [OF c, of "1 < i_c i"]
      by (auto simp: validate_opcode_specific_payload_def Let_def payload_ok_def push_instruction_def
          word_less_nat_alt intro: checked_conseq [OF checked_push [OF c]] checked_conseq [OF c])
  next
    case False
    have "checked v (validate_opcode_specific_payload pi p k i w)
       (P \<and> (i_opcode i \<in> set [Op_FastCall, Op_FastCall1, Op_FastCall2, Op_FastCall2K, Op_FastCall3] \<longrightarrow>
          \<not> (i_a i = BUILTIN_NONE \<or> BUFFER_WRITEINTEGER < i_a i) \<and> i_c i \<noteq> 0))"
    proof (cases "i_opcode i \<in> set [Op_FastCall, Op_FastCall1, Op_FastCall2, Op_FastCall2K, Op_FastCall3]")
      case True
      have "checked v (validate_opcode_specific_payload pi p k i w)
          ((P \<and> \<not> (i_a i = BUILTIN_NONE \<or> BUFFER_WRITEINTEGER < i_a i)) \<and> \<not> i_c i = 0)"
        unfolding validate_opcode_specific_payload_def Let_def push_instruction_def if_P [OF True]
        using no_capture False by (simp only: simp_thms if_False, intro checked_fail c)
      then show ?thesis by (rule checked_conseq) (use True in auto)
    next
      case outside: False
      then show ?thesis
        unfolding validate_opcode_specific_payload_def Let_def if_not_P [OF outside]
        using no_capture False c by (simp only: simp_thms if_False outside)
    qed
    then show ?thesis
      by (rule checked_conseq) (use no_capture False builtin_bounds [of "i_a i"] in \<open>auto simp: payload_ok_def\<close>)
  qed
qed

lemma validate_instruction_references_step:
  assumes "checked v w P" and "i_aux i = None \<longleftrightarrow> instruction_len (i_opcode i) = 1"
  shows "checked v (validate_instruction_references pi p k i w) (P \<and> reference_ok p i \<and> payload_ok p i)"
  using validate_references_step [OF assms, of p pi k]
  by (auto simp: validate_instruction_references_def references_result_def
      intro: checked_conseq [OF validate_payload_step] elim!: checked_conseq split: sum.splits)

section \<open>Instruction boundaries\<close>

text \<open>The boundary bitmap against the word offsets of the instructions.\<close>

lemma boundary_offsets_eq:
  "boundary_offsets k code =
     (if unat k + nat_words code < 2 ^ 32 then Some (word_offsets_from k code, k + code_word_count code) else None)"
proof (induction code arbitrary: k)
  case Nil
  then show ?case by (simp add: code_word_count_def)
next
  case (Cons i code)
  show ?case
  proof (cases "unat k + nat_word_len i < 2 ^ 32")
    case True
    then have "checked_add k (word_len i) = Some (k + word_len i)"
      by (simp add: checked_add_def)
    moreover have "unat (k + word_len i) = unat k + nat_word_len i"
      using True by (simp add: word_len_of_nat unat_add_of_nat)
    moreover have "code_word_count (i # code) = word_len i + code_word_count code"
      by (simp add: code_word_count_def)
    ultimately show ?thesis using Cons [of "k + word_len i"] by (simp add: algebra_simps)
  next
    case False
    then have "checked_add k (word_len i) = None" by (simp add: checked_add_def)
    with False show ?thesis by simp
  qed
qed

lemma nth_update_within: "n < length ws \<Longrightarrow> ws[m := x] ! n = (if n = m then x else ws ! n)"
  by (cases "n = m") auto

lemma length_fold_update: "length (fold (\<lambda>w ws. ws[f w := True]) xs ws) = length ws"
  by (induction xs arbitrary: ws) auto

lemma nth_fold_update:
  "n < length ws \<Longrightarrow> fold (\<lambda>w ws. ws[f w := True]) xs ws ! n \<longleftrightarrow> ws ! n \<or> n \<in> f ` set xs"
  by (induction xs arbitrary: ws) (auto simp: nth_update_within)

definition boundary_index :: "instruction list \<Rightarrow> instruction_boundary_index" where
  "boundary_index code =
     \<lparr>word_offsets = instruction_word_offsets code,
      instruction_words = map (\<lambda>n. \<exists>j < length code. n = nat_offset code j) [0..<nat_words code],
      code_words = code_word_count code\<rparr>"

lemma boundary_index_new_eq:
  "boundary_index_new code =
     (if nat_words code < 2 ^ 32 then Inr (boundary_index code) else Inl ''proto code is too large'')"
proof (cases "nat_words code < 2 ^ 32")
  case True
  let ?os = "instruction_word_offsets code"
  let ?ws = "fold (\<lambda>word words. words[unat word := True]) ?os (replicate (nat_words code) False)"
  have set_os: "unat ` set ?os = {nat_offset code j |j. j < length code}"
    using unat_nth_offsets [OF True]
    by (force simp: set_conv_nth image_iff)
  have "?ws = map (\<lambda>n. \<exists>j < length code. n = nat_offset code j) [0..<nat_words code]"
    by (rule nth_equalityI) (auto simp: length_fold_update nth_fold_update set_os)
  with True unat_code_word_count [OF True] show ?thesis
    by (simp add: boundary_index_new_def boundary_offsets_eq boundary_index_def instruction_word_offsets_def)
qed (simp add: boundary_index_new_def boundary_offsets_eq)

lemma code_words_boundary_index [simp]: "code_words (boundary_index code) = code_word_count code"
  by (simp add: boundary_index_def)

lemma contains_instruction_word_iff:
  "contains_instruction_word (boundary_index code) w \<longleftrightarrow> (\<exists>j < length code. unat w = nat_offset code j)"
proof -
  have "nat_offset code j < nat_words code" if "j < length code" for j
    using nat_offset_less_words [OF that] .
  then show ?thesis
    by (auto simp: contains_instruction_word_def boundary_index_def get_def)
qed

section \<open>Jumps\<close>

definition boundary :: "instruction list \<Rightarrow> nat \<Rightarrow> bool" where
  "boundary code n \<longleftrightarrow> (\<exists>j < length code. n = nat_offset code j)"

definition jump_ok :: "instruction list \<Rightarrow> nat \<Rightarrow> bool" where
  "jump_ok code k \<longleftrightarrow>
     (case jump_target_word (code ! k) (of_nat (nat_offset code k)) of
        None \<Rightarrow> True
      | Some t \<Rightarrow> 0 \<le> sint t \<and>
          (boundary code (unat t) \<or> unat t = nat_words code \<and> i_opcode (last code) = Op_Return))"

lemma invalid_jump_target_iff:
  assumes "nat_words code < 2 ^ 32" "k < length code"
  shows "invalid_jump_target code (boundary_index code) k = None \<longleftrightarrow> jump_ok code k"
proof -
  have off: "word_offset (boundary_index code) k = Some (of_nat (nat_offset code k))"
    using assms(2) by (simp add: word_offset_def boundary_index_def get_def nth_instruction_word_offsets)
  have eq: "t = code_word_count code \<longleftrightarrow> unat t = nat_words code" for t :: u32
    using unat_code_word_count [OF assms(1)] by (simp add: word_unat_eq_iff)
  have ne: "code \<noteq> []" using assms(2) by auto
  show ?thesis
  proof (cases "jump_offset_words (code ! k)")
    case None
    then show ?thesis using assms(2)
      by (simp add: invalid_jump_target_def jump_ok_def jump_target_word_def get_def)
  next
    case (Some d)
    then obtain t where "jump_target_word (code ! k) (of_nat (nat_offset code k)) = Some t"
      by (simp add: jump_target_word_def)
    with Some off assms(2) ne eq [of t] show ?thesis
      by (auto simp: invalid_jump_target_def jump_ok_def get_def is_instruction_word_i32_def
          u32_try_from_i32_def contains_instruction_word_iff boundary_def)
  qed
qed

section \<open>Instructions\<close>

definition instruction_ok :: "proto \<Rightarrow> nat \<Rightarrow> instruction \<Rightarrow> bool" where
  "instruction_ok p k i \<longleftrightarrow>
     is_header_consistent i \<and> (i_aux i = None \<longleftrightarrow> instruction_len (i_opcode i) = 1)
     \<and> jump_ok (p_code p) k
     \<and> (\<forall>r \<in> checked_registers i. r < unat (max_stack_size p))
     \<and> reference_ok p i \<and> payload_ok p i"

lemma validate_instruction_step:
  assumes c: "checked v w P" and words: "nat_words (p_code p) < 2 ^ 32" and k: "k < length (p_code p)"
  shows "checked v (validate_instruction pi p (boundary_index (p_code p)) k i w) (P \<and> instruction_ok p k i)"
proof (cases "is_header_consistent i \<and> (i_aux i = None \<longleftrightarrow> instruction_len (i_opcode i) = 1)")
  case False
  then show ?thesis
    using instruction_len_cases [of "i_opcode i"]
    by (auto simp: validate_instruction_def Let_def instruction_ok_def
        intro!: checked_conseq [OF checked_pushes(3) [OF c]])
next
  case True
  then have hc: "is_header_consistent i" and aux: "i_aux i = None \<longleftrightarrow> instruction_len (i_opcode i) = 1" by auto
  let ?jump = "case invalid_jump_target (p_code p) (boundary_index (p_code p)) k of None \<Rightarrow> w
    | Some target \<Rightarrow> push_instruction pi k InvalidJumpTarget
        (show_opcode (i_opcode i) @ '' jumps to word '' @ show_int (sint target)
         @ '', outside instruction boundaries 0..'' @ show_word (code_words (boundary_index (p_code p)))) w"
  have "checked v ?jump (P \<and> jump_ok (p_code p) k)"
    using invalid_jump_target_iff [OF words k] c
    by (auto intro: checked_conseq [OF c] checked_conseq [OF checked_pushes(3) [OF c]] split: option.split)
  from validate_instruction_references_step [OF validate_register_operands_step [OF this aux] aux]
  have "checked v (validate_instruction_references pi p k i (validate_register_operands pi p k i ?jump))
     (P \<and> instruction_ok p k i)"
    by (rule checked_conseq) (use True in \<open>auto simp: instruction_ok_def\<close>)
  moreover have "(if i_aux i = None then 0 else 1) = instruction_len (i_opcode i) - 1"
    using aux instruction_len_cases [of "i_opcode i"] by auto
  ultimately show ?thesis
    using hc by (simp add: validate_instruction_def Let_def)
qed

lemma validate_code_step:
  assumes words: "nat_words (p_code p) < 2 ^ 32"
  shows "checked v w P \<Longrightarrow> k + length is \<le> length (p_code p) \<Longrightarrow>
    checked v (fold_idx (validate_instruction pi p (boundary_index (p_code p))) k is w)
      (P \<and> (\<forall>j < length is. instruction_ok p (k + j) (is ! j)))"
proof (induction "is" arbitrary: k w P)
  case (Cons i "is")
  have "checked v (validate_instruction pi p (boundary_index (p_code p)) k i w) (P \<and> instruction_ok p k i)"
    using Cons.prems by (intro validate_instruction_step words) simp_all
  from Cons.IH [OF this, of "Suc k"] Cons.prems(2)
  have "checked v (fold_idx (validate_instruction pi p (boundary_index (p_code p))) k (i # is) w)
      ((P \<and> instruction_ok p k i) \<and> (\<forall>j < length is. instruction_ok p (Suc k + j) (is ! j)))"
    by simp
  then show ?case
    by (rule checked_conseq) (simp only: all_idx_Cons [where P = "\<lambda>k y. instruction_ok p k y"] conj_assoc)
qed simp

section \<open>Closure captures\<close>

text \<open>
  The captures a closure instruction announces: as many instructions behind it as the child proto
  has upvalues.
\<close>

definition captures_of :: "proto list \<Rightarrow> proto \<Rightarrow> nat \<Rightarrow> nat set" where
  "captures_of ps p k =
     (case closure_child_proto_id p (p_code p ! k) of
        None \<Rightarrow> {}
      | Some c \<Rightarrow> if unat c < length ps then {k + 1 ..< k + 1 + unat (num_upvalues (ps ! unat c))} else {})"

definition announced :: "proto list \<Rightarrow> proto \<Rightarrow> nat set" where
  "announced ps p = (\<Union>k \<in> {..<length (p_code p)}. captures_of ps p k)"

definition captures_ok :: "proto list \<Rightarrow> proto \<Rightarrow> bool" where
  "captures_ok ps p \<longleftrightarrow>
     announced ps p = {m. m < length (p_code p) \<and> i_opcode (p_code p ! m) = Op_Capture}"

definition is_capture_at :: "proto \<Rightarrow> nat \<Rightarrow> bool" where
  "is_capture_at p m \<longleftrightarrow> m < length (p_code p) \<and> i_opcode (p_code p ! m) = Op_Capture"

text \<open>The marking pass: an error unless all announced places hold captures, then exactly these are marked.\<close>

lemma capture_loop_step:
  assumes "checked v w P" "length marks = length (p_code p)"
  shows "\<exists>marks' w'. capture_loop pi p k i c e off n (marks, w) = (marks', w')
     \<and> length marks' = length (p_code p)
     \<and> checked v w' (P \<and> (\<forall>m \<in> {k + 1 + off ..< k + 1 + off + n}. is_capture_at p m))
     \<and> ((\<forall>m \<in> {k + 1 + off ..< k + 1 + off + n}. is_capture_at p m) \<longrightarrow>
         (\<forall>m < length (p_code p). marks' ! m \<longleftrightarrow> marks ! m \<or> m \<in> {k + 1 + off ..< k + 1 + off + n}))"
  using assms(2)
proof (induction n arbitrary: off marks)
  case 0
  with assms(1) show ?case by simp
next
  case (Suc n)
  let ?m = "k + 1 + off"
  have split: "{?m ..< ?m + Suc n} = insert ?m {k + 1 + Suc off ..< k + 1 + Suc off + n}" by auto
  show ?case
  proof (cases "is_capture_at p ?m")
    case False
    have "\<exists>w'. capture_loop pi p k i c e off (Suc n) (marks, w) = (marks, w') \<and> checked v w' False"
      using False by (auto simp: Let_def get_def is_capture_at_def
          intro: checked_pushes(3) [OF assms(1)] split: option.split)
    with False Suc.prems show ?thesis unfolding split by auto
  next
    case True
    then have step: "capture_loop pi p k i c e off (Suc n) (marks, w)
        = capture_loop pi p k i c e (Suc off) n (marks[?m := True], w)"
      by (simp add: Let_def get_def is_capture_at_def)
    have "length (marks[?m := True]) = length (p_code p)" using Suc.prems by simp
    from Suc.IH [OF this, of "Suc off"] obtain marks' w' where
      IH: "capture_loop pi p k i c e (Suc off) n (marks[?m := True], w) = (marks', w')"
        "length marks' = length (p_code p)"
        "checked v w' (P \<and> (\<forall>m \<in> {k + 1 + Suc off ..< k + 1 + Suc off + n}. is_capture_at p m))"
        "(\<forall>m \<in> {k + 1 + Suc off ..< k + 1 + Suc off + n}. is_capture_at p m) \<longrightarrow>
           (\<forall>m < length (p_code p). marks' ! m \<longleftrightarrow> marks[?m := True] ! m
              \<or> m \<in> {k + 1 + Suc off ..< k + 1 + Suc off + n})"
      by blast
    show ?thesis
      unfolding split step IH(1)
      using IH(2,3,4) True Suc.prems by (auto simp: nth_update_within elim!: checked_conseq)
  qed
qed

definition captures_hold :: "proto list \<Rightarrow> proto \<Rightarrow> nat \<Rightarrow> bool" where
  "captures_hold ps p k \<longleftrightarrow> (\<forall>m \<in> captures_of ps p k. is_capture_at p m)"

lemma mark_captures_step:
  assumes "checked v w P" "length marks = length (p_code p)"
  shows "\<exists>marks' w'. mark_captures pi p k (p_code p ! k) (marks, w) = (marks', w')
     \<and> length marks' = length (p_code p)
     \<and> checked v w' (P \<and> captures_hold (v_protos v) p k)
     \<and> (captures_hold (v_protos v) p k \<longrightarrow>
         (\<forall>m < length (p_code p). marks' ! m \<longleftrightarrow> marks ! m \<or> m \<in> captures_of (v_protos v) p k))"
proof (cases "closure_child_proto_id p (p_code p ! k)")
  case None
  with assms show ?thesis by (simp add: mark_captures_def captures_hold_def captures_of_def)
next
  case (Some c)
  note frame = checked_frame(2) [OF assms(1)]
  show ?thesis
  proof (cases "unat c < length (v_protos v)")
    case True
    with Some capture_loop_step [OF assms, of pi k "p_code p ! k" c
        "unat (num_upvalues (v_protos v ! unat c))" 0 "unat (num_upvalues (v_protos v ! unat c))"]
    show ?thesis
      by (simp add: mark_captures_def captures_hold_def captures_of_def get_def frame)
  next
    case False
    with Some assms frame show ?thesis
      by (simp add: mark_captures_def captures_hold_def captures_of_def get_def)
  qed
qed

lemma mark_pass_step:
  assumes "checked v w P" "length marks = length (p_code p)" "\<forall>j < length is. is ! j = p_code p ! (k + j)"
  shows "\<exists>marks' w'. fold_idx (mark_captures pi p) k is (marks, w) = (marks', w')
     \<and> length marks' = length (p_code p)
     \<and> checked v w' (P \<and> (\<forall>j < length is. captures_hold (v_protos v) p (k + j)))
     \<and> ((\<forall>j < length is. captures_hold (v_protos v) p (k + j)) \<longrightarrow>
         (\<forall>m < length (p_code p). marks' ! m \<longleftrightarrow>
            marks ! m \<or> (\<exists>j < length is. m \<in> captures_of (v_protos v) p (k + j))))"
  using assms
proof (induction "is" arbitrary: k w P marks)
  case (Cons i "is")
  have i: "i = p_code p ! k" using Cons.prems(3) by force
  from mark_captures_step [OF Cons.prems(1,2), of pi k] obtain marks1 w1 where
    s1: "mark_captures pi p k i (marks, w) = (marks1, w1)" "length marks1 = length (p_code p)"
      "checked v w1 (P \<and> captures_hold (v_protos v) p k)"
      "captures_hold (v_protos v) p k \<longrightarrow>
         (\<forall>m < length (p_code p). marks1 ! m \<longleftrightarrow> marks ! m \<or> m \<in> captures_of (v_protos v) p k)"
    unfolding i by blast
  have "\<forall>j < length is. is ! j = p_code p ! (Suc k + j)" using Cons.prems(3) by force
  from Cons.IH [OF s1(3,2) this] obtain marks2 w2 where
    s2: "fold_idx (mark_captures pi p) (Suc k) is (marks1, w1) = (marks2, w2)" "length marks2 = length (p_code p)"
      "checked v w2 ((P \<and> captures_hold (v_protos v) p k) \<and> (\<forall>j < length is. captures_hold (v_protos v) p (Suc k + j)))"
      "(\<forall>j < length is. captures_hold (v_protos v) p (Suc k + j)) \<longrightarrow>
         (\<forall>m < length (p_code p). marks2 ! m \<longleftrightarrow>
            marks1 ! m \<or> (\<exists>j < length is. m \<in> captures_of (v_protos v) p (Suc k + j)))"
    by blast
  have all: "(\<forall>j < length (i # is). captures_hold (v_protos v) p (k + j)) \<longleftrightarrow>
      captures_hold (v_protos v) p k \<and> (\<forall>j < length is. captures_hold (v_protos v) p (Suc k + j))"
    by (rule all_idx_Cons [where P = "\<lambda>k _. captures_hold (v_protos v) p k"])
  have ex: "(\<exists>j < length (i # is). m \<in> captures_of (v_protos v) p (k + j)) \<longleftrightarrow>
      m \<in> captures_of (v_protos v) p k \<or> (\<exists>j < length is. m \<in> captures_of (v_protos v) p (Suc k + j))" for m
    using all_idx_Cons [where P = "\<lambda>k _. m \<notin> captures_of (v_protos v) p k" and x = i and xs = "is" and i = k] by blast
  show ?case
    unfolding fold_idx.simps s1(1) s2(1) all ex
    using s1(4) s2(2,3,4) by (auto simp: conj_assoc)
qed simp

interpretation unattached: indexed_checker
    "\<lambda>k i v. if i_opcode i = Op_Capture \<and> \<not> marks ! k then
       push_instruction pi k InvalidClosureCapture ''CAPTURE instruction is not attached to a closure instruction'' v
     else v"
    "\<lambda>k i _ _. i_opcode i = Op_Capture \<longrightarrow> marks ! k" for pi marks
  unfolding push_instruction_def
  by (rule indexed_checker.intro, rule checker.intro) (rule checked_conseq [OF checked_fail [OF checked_refl]], auto)

lemma validate_closure_captures_step:
  assumes "checked v w P"
  shows "checked v (validate_closure_captures pi p w) (P \<and> captures_ok (v_protos v) p)"
proof -
  let ?n = "length (p_code p)" and ?ps = "v_protos v"
  obtain marks w1 where
    pass: "fold_idx (mark_captures pi p) 0 (p_code p) (replicate ?n False, w) = (marks, w1)"
      "checked v w1 (P \<and> (\<forall>k < ?n. captures_hold ?ps p k))"
      "(\<forall>k < ?n. captures_hold ?ps p k) \<longrightarrow>
         (\<forall>m < ?n. marks ! m \<longleftrightarrow> (\<exists>k < ?n. m \<in> captures_of ?ps p k))"
    using mark_pass_step [OF assms, of "replicate ?n False" p "p_code p" 0 pi] by auto
  have "captures_ok ?ps p \<longleftrightarrow> (\<forall>k < ?n. captures_hold ?ps p k) \<and>
      (\<forall>m < ?n. i_opcode (p_code p ! m) = Op_Capture \<longrightarrow> (\<exists>k < ?n. m \<in> captures_of ?ps p k))"
    unfolding captures_ok_def announced_def captures_hold_def is_capture_at_def by blast
  also have "\<dots> \<longleftrightarrow> (\<forall>k < ?n. captures_hold ?ps p k) \<and>
      (\<forall>m < ?n. i_opcode (p_code p ! m) = Op_Capture \<longrightarrow> marks ! m)"
    using pass(3) by blast
  finally show ?thesis
    using unattached.fold_idx_step [OF pass(2), of marks pi 0 "p_code p"] pass(1)
    by (simp add: validate_closure_captures_def conj_assoc)
qed

section \<open>Protos\<close>

definition line_info_ok :: "proto \<Rightarrow> line_info \<Rightarrow> bool" where
  "line_info_ok p li \<longleftrightarrow>
     (of_nat (length (delta_bytes li)) :: u32) = code_word_count (p_code p) \<and> to_line_numbers li \<noteq> None"

definition debug_local_ok :: "bytes list \<Rightarrow> proto \<Rightarrow> debug_local \<Rightarrow> bool" where
  "debug_local_ok strs p l \<longleftrightarrow>
     unat (local_name l) \<le> length strs \<and> unat (local_register l) < unat (max_stack_size p)
     \<and> start_pc l \<le> end_pc l \<and> end_pc l \<le> code_word_count (p_code p)"

definition debug_info_ok :: "bytes list \<Rightarrow> proto \<Rightarrow> debug_info \<Rightarrow> bool" where
  "debug_info_ok strs p d \<longleftrightarrow>
     length (debug_upvalues d) = unat (num_upvalues p)
     \<and> (\<forall>k \<in> set (debug_upvalues d). unat k \<le> length strs)
     \<and> (\<forall>l \<in> set (debug_locals d). debug_local_ok strs p l)"

definition proto_ok :: "bytes list \<Rightarrow> proto list \<Rightarrow> proto \<Rightarrow> bool" where
  "proto_ok strs ps p \<longleftrightarrow>
     num_params p \<le> max_stack_size p \<and> unat (debug_name p) \<le> length strs
     \<and> (\<forall>c \<in> set (p_child_protos p). unat c < length ps)
     \<and> (\<forall>k \<in> set (p_constants p). constant_ok strs ps p k)
     \<and> nat_words (p_code p) < 2 ^ 32
     \<and> (\<forall>k < length (p_code p). instruction_ok p k (p_code p ! k))
     \<and> (\<forall>li. proto_line_info p = Some li \<longrightarrow> line_info_ok p li)
     \<and> (\<forall>d. proto_debug_info p = Some d \<longrightarrow> debug_info_ok strs p d)
     \<and> (\<forall>slot \<in> set (p_feedback_slots p). boundary (p_code p) (unat (slot_pc slot)))
     \<and> captures_ok ps p"

lemma length_unpack_lines: "unpack_lines bls lg k off bs = Some ls \<Longrightarrow> length ls = length bs"
  by (induction bls lg k off bs arbitrary: ls rule: unpack_lines.induct) (auto simp: Let_def split: option.splits)

lemma length_to_line_numbers: "to_line_numbers li = Some ls \<Longrightarrow> length ls = length (delta_bytes li)"
  unfolding to_line_numbers_def by (rule length_unpack_lines)

lemma validate_line_info_step:
  assumes "checked v w P"
  shows "checked v (validate_line_info pi (code_word_count (p_code p)) li w) (P \<and> line_info_ok p li)"
  using assms
  by (auto simp: validate_line_info_def Let_def line_info_ok_def length_to_line_numbers
      intro!: checked_conseq [OF checked_pushes(2) [OF assms]]
        checked_conseq [OF checked_pushes(2) [OF checked_pushes(2) [OF assms]]]
      elim: checked_conseq split: option.split)

interpretation debug_local_checks: checker "validate_debug_local pi p (code_word_count (p_code p))"
    "\<lambda>l strs _. debug_local_ok strs p l" for pi p
  unfolding validate_debug_local_def Let_def push_proto_def
  by unfold_locales
    (rule checked_conseq [OF checked_fail [OF check_register_step [OF check_string_id_step [OF checked_refl]]]],
     auto simp: debug_local_ok_def not_less)

interpretation string_ids: checker "\<lambda>k. check_string_id pi ii k ctx" "\<lambda>k strs _. unat k \<le> length strs" for pi ii ctx
  by unfold_locales (rule checked_conseq [OF check_string_id_step [OF checked_refl]], simp)

lemma validate_debug_info_step:
  assumes "checked v w P"
  shows "checked v (validate_debug_info pi p (code_word_count (p_code p)) d w) (P \<and> debug_info_ok (v_strings v) p d)"
  unfolding validate_debug_info_def Let_def push_proto_def
  by (rule checked_conseq [OF debug_local_checks.fold_step [OF string_ids.fold_step [OF checked_fail [OF assms]]]])
    (auto simp: debug_info_ok_def)

interpretation feedback_slots: indexed_checker "validate_feedback_slot pi (boundary_index code)"
    "\<lambda>_ slot _ _. boundary code (unat (slot_pc slot))" for pi code
  unfolding validate_feedback_slot_def push_proto_def
  by (rule indexed_checker.intro, rule checker.intro)
    (rule checked_conseq [OF checked_fail [OF checked_refl]],
     simp add: is_instruction_word_def contains_instruction_word_iff boundary_def)

interpretation children: checker "validate_child pi" "\<lambda>c _ ps. unat c < length ps" for pi
  unfolding validate_child_def push_proto_def
  by unfold_locales (rule checked_conseq [OF checked_fail [OF checked_refl]], simp add: proto_id_is_valid_def)

lemma ball_nth: "(\<forall>j < length xs. Q (xs ! j)) \<longleftrightarrow> (\<forall>x \<in> set xs. Q x)"
  by (auto simp: set_conv_nth)

lemma validate_proto_step:
  assumes c: "checked v w P"
  shows "checked v (validate_proto pi p w) (P \<and> proto_ok (v_strings v) (v_protos v) p)"
proof -
  let ?b = "boundary_index (p_code p)"
  define v4 where "v4 = fold_idx (validate_constant pi p) 0 (p_constants p)
    (fold (validate_child pi) (p_child_protos p)
      (check_string_id (Some pi) None (debug_name p) ''debug name''
        (if max_stack_size p < num_params p then
           push_proto pi InvalidProtoMetadata
             (''num_params '' @ show_word (num_params p) @ '' exceeds max_stack_size '' @ show_word (max_stack_size p)) w
         else w)))"
  let ?head = "num_params p \<le> max_stack_size p \<and> unat (debug_name p) \<le> length (v_strings v)
    \<and> (\<forall>c \<in> set (p_child_protos p). unat c < length (v_protos v))
    \<and> (\<forall>k \<in> set (p_constants p). constant_ok (v_strings v) (v_protos v) p k)"
  have v4: "checked v v4 (P \<and> ?head)"
    unfolding v4_def push_proto_def
    by (rule checked_conseq [OF constants.fold_idx_step [OF children.fold_step
            [OF check_string_id_step [OF checked_fail [OF c]]]]])
      (simp only: add_0 ball_nth, auto simp: not_less)
  show ?thesis
  proof (cases "nat_words (p_code p) < 2 ^ 32")
    case False
    then show ?thesis
      unfolding validate_proto_def Let_def boundary_index_new_eq v4_def [symmetric]
      by (auto simp: proto_ok_def intro: checked_conseq [OF checked_pushes(2) [OF v4]])
  next
    case True
    define v5 where "v5 = fold_idx (validate_instruction pi p ?b) 0 (p_code p) v4"
    define v6 where "v6 = (case proto_line_info p of None \<Rightarrow> v5
      | Some li \<Rightarrow> validate_line_info pi (code_word_count (p_code p)) li v5)"
    define v7 where "v7 = (case proto_debug_info p of None \<Rightarrow> v6
      | Some d \<Rightarrow> validate_debug_info pi p (code_word_count (p_code p)) d v6)"
    have v5: "checked v v5 ((P \<and> ?head) \<and> (\<forall>k < length (p_code p). instruction_ok p k (p_code p ! k)))"
      unfolding v5_def using validate_code_step [OF True v4, of 0 "p_code p" pi] by simp
    have v6: "checked v v6 (((P \<and> ?head) \<and> (\<forall>k < length (p_code p). instruction_ok p k (p_code p ! k)))
        \<and> (\<forall>li. proto_line_info p = Some li \<longrightarrow> line_info_ok p li))"
      unfolding v6_def using v5 validate_line_info_step [OF v5] by (cases "proto_line_info p") auto
    have v7: "checked v v7 ((((P \<and> ?head) \<and> (\<forall>k < length (p_code p). instruction_ok p k (p_code p ! k)))
        \<and> (\<forall>li. proto_line_info p = Some li \<longrightarrow> line_info_ok p li))
        \<and> (\<forall>d. proto_debug_info p = Some d \<longrightarrow> debug_info_ok (v_strings v) p d))"
      unfolding v7_def using v6 validate_debug_info_step [OF v6] by (cases "proto_debug_info p") auto
    have "validate_proto pi p w =
        validate_closure_captures pi p (fold_idx (validate_feedback_slot pi ?b) 0 (p_feedback_slots p) v7)"
      unfolding validate_proto_def Let_def boundary_index_new_eq if_P [OF True] sum.case
        v7_def v6_def v5_def v4_def code_words_boundary_index ..
    moreover note validate_closure_captures_step [OF feedback_slots.fold_idx_step [OF v7], of pi p pi "p_code p" 0 "p_feedback_slots p"]
    ultimately show ?thesis
      using ball_nth [of "p_feedback_slots p" "\<lambda>slot. boundary (p_code p) (unat (slot_pc slot))"] True
      by (auto simp: proto_ok_def elim!: checked_conseq)
  qed
qed

interpretation protos: indexed_checker validate_proto "\<lambda>_ p strs ps. proto_ok strs ps p"
  by (rule indexed_checker.intro, rule checker.intro)
    (rule checked_conseq [OF validate_proto_step [OF checked_refl]], simp)

section \<open>Chunks\<close>

definition chunk_ok :: "valid_chunk \<Rightarrow> bool" where
  "chunk_ok c \<longleftrightarrow>
     unat (ch_main_proto c) < length (ch_protos c)
     \<and> (\<forall>m \<in> set (ch_userdata_type_mappings c). unat (mapping_name m) \<le> length (ch_strings c))
     \<and> (\<forall>p \<in> set (ch_protos c). proto_ok (ch_strings c) (ch_protos c) p)"

interpretation mapping_names: checker "\<lambda>m. check_string_id None None (mapping_name m) ctx"
    "\<lambda>m strs _. unat (mapping_name m) \<le> length strs" for ctx
  by unfold_locales (rule checked_conseq [OF check_string_id_step [OF checked_refl]], simp)

lemma validate_chunk_inner_iff:
  "validate_chunk_inner (Chunk_Valid c) policy = [] \<longleftrightarrow> accepts policy (bytecode_version c) \<and> chunk_ok c"
proof (cases "accepts policy (bytecode_version c)")
  case True
  let ?v = "\<lparr>v_strings = ch_strings c, v_protos = ch_protos c, v_errors = []\<rparr>"
  define w where "w = fold_idx validate_proto 0 (ch_protos c)
    (fold (\<lambda>m. check_string_id None None (mapping_name m) ''userdata type mapping name'')
      (ch_userdata_type_mappings c)
      (if \<not> proto_id_is_valid (ch_main_proto c) (ch_protos c) then
         push_chunk InvalidProtoReference
           (''main proto id '' @ show_word (ch_main_proto c) @ '' is outside ''
            @ show_nat (length (ch_protos c)) @ '' protos'') ?v
       else ?v))"
  have "checked ?v w (chunk_ok c)"
    unfolding w_def push_chunk_def
    by (rule checked_conseq [OF protos.fold_idx_step [OF mapping_names.fold_step [OF checked_fail [OF checked_refl]]]])
      (simp add: chunk_ok_def proto_id_is_valid_def ball_nth [where Q = "proto_ok _ _"])
  from checked_errors [OF this] True show ?thesis
    by (simp add: validate_chunk_inner_def Let_def w_def)
qed (simp add: validate_chunk_inner_def)

section \<open>Properties\<close>

text \<open>
  C4: The validator reports no error exactly for the chunks of an accepted version that satisfy
  the declarative account: every id in range and of the right kind, every jump on an instruction
  boundary, every checked register inside the frame, line and debug information matching the code,
  and the captures of every closure in place.
\<close>

theorem validate_chunk_exact:
  "validate_chunk (Chunk_Valid c) = [] \<longleftrightarrow> bytecode_version c = DEFAULT_VERSION \<and> chunk_ok c"
  by (simp add: validate_chunk_def validate_chunk_inner_iff)

text \<open>
  The boundary index is exact: it is built exactly for code of fewer than \<open>2 ^ 32\<close> words, and
  then its bitmap says of every word whether an instruction starts there.
\<close>

theorem boundary_index_exact:
  "case boundary_index_new code of
     Inl _ \<Rightarrow> 2 ^ 32 \<le> nat_words code
   | Inr b \<Rightarrow> nat_words code = unat (code_words b)
       \<and> (\<forall>w. is_instruction_word b w = (w \<in> set (instruction_word_offsets code)))"
proof (cases "nat_words code < 2 ^ 32")
  case True
  have "w \<in> set (instruction_word_offsets code) \<longleftrightarrow> (\<exists>j < length code. unat w = nat_offset code j)" for w
    using unat_nth_offsets [OF True] by (auto simp: in_set_conv_nth word_unat_eq_iff)
  with True show ?thesis
    by (simp add: boundary_index_new_eq is_instruction_word_def contains_instruction_word_iff unat_code_word_count)
qed (simp add: boundary_index_new_eq)

end
