(* ===== verification/Validated.thy ===== *)
theory Validated
  imports Validate_Spec
begin

text \<open>
  What an execution engine may rely on in a chunk for which the validator reports no error, and
  what it may not.
\<close>

section \<open>Sample chunks\<close>

definition child_proto :: proto where
  "child_proto =
     \<lparr>max_stack_size = 1, num_params = 0, num_upvalues = 1, is_vararg = 0, proto_flags = 0,
      proto_type_info = \<lparr>type_raw = []\<rparr>,
      p_code = [abc Op_GetUpval 0 0 0, abc Op_Return 0 2 0], p_constants = [],
      p_child_protos = [], line_defined = 0, debug_name = 0, proto_line_info = None,
      proto_debug_info = None, p_feedback_slots = [], p_cost = None\<rparr>"

definition closure_proto :: proto where
  "closure_proto =
     \<lparr>max_stack_size = 2, num_params = 0, num_upvalues = 0, is_vararg = 0, proto_flags = 0,
      proto_type_info = \<lparr>type_raw = []\<rparr>,
      p_code = [ad Op_LoadN 0 1, ad Op_NewClosure 1 0, abc Op_Capture 0 0 0, ad Op_JumpIfNot 0 (- 4),
        abc Op_Return 0 1 0],
      p_constants = [C_String 1], p_child_protos = [1], line_defined = 0, debug_name = 1,
      proto_line_info = None, proto_debug_info = None, p_feedback_slots = [], p_cost = None\<rparr>"

definition closure_chunk :: valid_chunk where
  "closure_chunk =
     \<lparr>bytecode_version = 9, type_version = 3, ch_strings = [[102]], ch_userdata_type_mappings = [],
      ch_protos = [closure_proto, child_proto], ch_main_proto = 0\<rparr>"


lemma child_proto_ok: "proto_ok strs ps child_proto"
proof -
  have "captures_ok ps child_proto"
    by (auto simp: captures_ok_def announced_def captures_of_def child_proto_def closure_child_proto_id_def
        less_Suc_eq)
  then show ?thesis
    by (simp add: proto_ok_def child_proto_def All_less_Suc2 instruction_ok_def instruction_len_def
      nat_word_len_def jump_ok_def jump_target_word_def jump_offset_words_def checked_registers_def
      register_range_def reference_ok_def payload_ok_def Let_def)
qed

lemma closure_proto_ok: "proto_ok [[102]] [closure_proto, child_proto] closure_proto"
proof -
  have "captures_ok [closure_proto, child_proto] closure_proto"
    by (auto simp: captures_ok_def announced_def captures_of_def closure_proto_def child_proto_def
        closure_child_proto_id_def get_def less_Suc_eq)
  moreover have "boundary (p_code closure_proto) 0"
    by (auto simp: boundary_def closure_proto_def intro: exI [of _ 0])
  moreover have "jump_ok (p_code closure_proto) 3"
    using calculation(2)
    by (simp add: jump_ok_def closure_proto_def jump_target_word_def jump_offset_words_def
      nat_offset_def nat_word_len_def i32_from_i16_def numeral_3_eq_3)
  ultimately show ?thesis
    by (simp add: proto_ok_def closure_proto_def All_less_Suc2 instruction_ok_def instruction_len_def
      nat_word_len_def checked_registers_def
      register_range_def reference_ok_def payload_ok_def Let_def numeral_3_eq_3
      jump_ok_def [of _ 0] jump_ok_def [of _ "Suc 0"]  jump_ok_def [of _ "Suc (Suc 0)"]  jump_ok_def [of _ "Suc (Suc (Suc (Suc 0)))"]
      jump_target_word_def jump_offset_words_def)
qed

lemma closure_chunk_valid: "validate_chunk (Chunk_Valid closure_chunk) = []"
  by (simp add: validate_chunk_def validate_chunk_inner_iff chunk_ok_def closure_chunk_def version_consts
      closure_proto_ok child_proto_ok)

definition sample_main :: "u8 \<Rightarrow> bc_constant list \<Rightarrow> instruction list \<Rightarrow> proto" where
  "sample_main stack pool code =
     \<lparr>max_stack_size = stack, num_params = 0, num_upvalues = 0, is_vararg = 1, proto_flags = 0,
      proto_type_info = \<lparr>type_raw = []\<rparr>, p_code = code, p_constants = pool, p_child_protos = [],
      line_defined = 0, debug_name = 0, proto_line_info = None, proto_debug_info = None,
      p_feedback_slots = [], p_cost = None\<rparr>"

definition sample_module :: "u8 \<Rightarrow> bc_constant list \<Rightarrow> instruction list \<Rightarrow> valid_chunk" where
  "sample_module stack pool code =
     \<lparr>bytecode_version = 9, type_version = 3, ch_strings = [[112]], ch_userdata_type_mappings = [],
      ch_protos = [sample_main stack pool code], ch_main_proto = 0\<rparr>"

lemma sample_module_valid:
  assumes "\<forall>i \<in> set code. i_opcode i \<notin> {Op_Capture, Op_NewClosure, Op_DupClosure}"
    and "nat_words code < 2 ^ 32"
    and "\<forall>k < length code. instruction_ok (sample_main stack pool code) k (code ! k)"
    and "\<forall>k \<in> set pool. constant_ok [[112]] [sample_main stack pool code] (sample_main stack pool code) k"
  shows "validate_chunk (Chunk_Valid (sample_module stack pool code)) = []"
proof -
  have "captures_ok [sample_main stack pool code] (sample_main stack pool code)"
    using assms(1) by (fastforce simp: captures_ok_def announced_def captures_of_def sample_main_def
        closure_child_proto_id_def)
  with assms(2,3,4) show ?thesis
    by (simp add: validate_chunk_def validate_chunk_inner_iff chunk_ok_def sample_module_def proto_ok_def
        version_consts) (simp add: sample_main_def)
qed

lemmas run_instruction_ok =
  All_less_Suc2 instruction_ok_def instruction_len_def nat_word_len_def jump_ok_def
  jump_target_word_def jump_offset_words_def checked_registers_def register_range_def
  reference_ok_def payload_ok_def Let_def sample_main_def

section \<open>Guarantees\<close>

lemma validated_proto:
  assumes "validate_chunk (Chunk_Valid c) = []" "p \<in> set (ch_protos c)"
  shows "proto_ok (ch_strings c) (ch_protos c) p"
  using assms by (simp add: validate_chunk_def validate_chunk_inner_iff chunk_ok_def)

text \<open>
  C21: In a chunk without validation errors every jump is resolved: its target is the start of an
  instruction of the same proto, found by the jump resolver, or the word just behind a final return.
\<close>

theorem validated_jump_lands:
  assumes "validate_chunk (Chunk_Valid c) = []" "p \<in> set (ch_protos c)" "k < length (p_code p)"
    "jump_offset_words (p_code p ! k) \<noteq> None"
  shows "(\<exists>j < length (p_code p). jump_target_instruction_index (p_code p) k = Some j)
     \<or> jump_target_word (p_code p ! k) (of_nat (nat_offset (p_code p) k)) = Some (code_word_count (p_code p))
       \<and> i_opcode (last (p_code p)) = Op_Return"
proof -
  let ?code = "p_code p"
  have ok: "nat_words ?code < 2 ^ 32" "jump_ok ?code k"
    using validated_proto [OF assms(1,2)] assms(3) by (auto simp: proto_ok_def instruction_ok_def)
  from assms(4) obtain t where t: "jump_target_word (?code ! k) (of_nat (nat_offset ?code k)) = Some t"
    by (auto simp: jump_target_word_def)
  with ok(2) have "0 \<le> sint t" and land: "boundary ?code (unat t) \<or> unat t = nat_words ?code \<and> i_opcode (last ?code) = Op_Return"
    by (auto simp: jump_ok_def)
  from land show ?thesis
  proof
    assume "boundary ?code (unat t)"
    then obtain j where j: "j < length ?code" "unat t = nat_offset ?code j" by (auto simp: boundary_def)
    have "t = of_nat (unat t)" by simp
    then have "t = of_nat (nat_offset ?code j)" by (simp only: j(2))
    then have "jump_target_instruction_index ?code k = Some j"
      using t j(1) assms(3) jump_index_iff [OF ok(1)] by simp
    with j(1) show ?thesis by blast
  next
    assume "unat t = nat_words ?code \<and> i_opcode (last ?code) = Op_Return"
    then show ?thesis using t unat_code_word_count [OF ok(1)] by (auto simp: word_unat_eq_iff)
  qed
qed

lemma validated_jump_lands_witness:
  "(\<exists>j < 5. jump_target_instruction_index (p_code closure_proto) 3 = Some j)
   \<or> jump_target_word (p_code closure_proto ! 3) 3 = Some (code_word_count (p_code closure_proto))
     \<and> i_opcode (last (p_code closure_proto)) = Op_Return"
proof -
  have "closure_proto \<in> set (ch_protos closure_chunk)" "3 < length (p_code closure_proto)"
    "jump_offset_words (p_code closure_proto ! 3) \<noteq> None"
    by (simp_all add: closure_chunk_def closure_proto_def jump_offset_words_def numeral_3_eq_3)
  moreover have "nat_offset (p_code closure_proto) 3 = 3" "length (p_code closure_proto) = 5"
    by (simp_all add: closure_proto_def nat_offset_def nat_word_len_def numeral_3_eq_3)
  ultimately show ?thesis
    using validated_jump_lands [OF closure_chunk_valid, of closure_proto 3] by simp
qed

text \<open>
  C29: Behind every closure instruction of a chunk without validation errors stand the captures of
  its child: the child exists, each of its upvalues has a capture instruction of the same proto, and
  the capture's source is a register of the frame or an upvalue of the enclosing closure.
\<close>

theorem validated_closure_captures:
  assumes "validate_chunk (Chunk_Valid c) = []" "p \<in> set (ch_protos c)" "k < length (p_code p)"
    "i_opcode (p_code p ! k) = Op_NewClosure \<or> i_opcode (p_code p ! k) = Op_DupClosure"
  shows "\<exists>child. closure_child_proto_id p (p_code p ! k) = Some child \<and> unat child < length (ch_protos c)
     \<and> (\<forall>j < unat (num_upvalues (ch_protos c ! unat child)).
          k + 1 + j < length (p_code p)
          \<and> (let i = p_code p ! (k + 1 + j) in
             i_opcode i = Op_Capture
             \<and> (unat (i_a i) \<le> 1 \<and> unat (i_b i) < unat (max_stack_size p)
                \<or> unat (i_a i) = 2 \<and> unat (i_b i) < unat (num_upvalues p))))"
proof -
  let ?code = "p_code p" and ?ps = "ch_protos c"
  have ok: "proto_ok (ch_strings c) ?ps p" by (rule validated_proto [OF assms(1,2)])
  then have ref: "reference_ok p (?code ! k)" and "captures_ok ?ps p"
    and pay: "\<And>m. m < length ?code \<Longrightarrow> payload_ok p (?code ! m)"
    using assms(3) by (auto simp: proto_ok_def instruction_ok_def)
  have child: "\<exists>child. closure_child_proto_id p (?code ! k) = Some child \<and> unat child < length ?ps"
    using assms(4)
  proof
    assume op: "i_opcode (?code ! k) = Op_NewClosure"
    with ref have "unat (i_d (?code ! k)) < length (p_child_protos p)"
      by (auto simp: reference_ok_def Let_def sint_nonneg_unat)
    with op ok show ?thesis by (auto simp: closure_child_proto_id_def get_def proto_ok_def)
  next
    assume op: "i_opcode (?code ! k) = Op_DupClosure"
    with ref have at: "constant_at p (unat (i_d (?code ! k))) is_closure_constant"
      by (auto simp: reference_ok_def Let_def sint_nonneg_unat)
    then obtain ch where "p_constants p ! unat (i_d (?code ! k)) = C_Closure ch"
      by (auto simp: constant_at_def elim: is_closure_constant.elims)
    moreover from this at ok have "constant_ok (ch_strings c) ?ps p (C_Closure ch)"
      unfolding proto_ok_def constant_at_def by (metis nth_mem)
    ultimately show ?thesis using op at by (simp add: closure_child_proto_id_def get_def constant_at_def)
  qed
  then obtain child where c: "closure_child_proto_id p (?code ! k) = Some child" "unat child < length ?ps" by blast
  have "m < length ?code \<and> i_opcode (?code ! m) = Op_Capture"
    if "m \<in> {k + 1 ..< k + 1 + unat (num_upvalues (?ps ! unat child))}" for m
  proof -
    have "m \<in> announced ?ps p" using that c assms(3) by (force simp: announced_def captures_of_def)
    with \<open>captures_ok ?ps p\<close> show ?thesis by (simp add: captures_ok_def)
  qed
  with c pay show ?thesis
    by (intro exI [of _ child]) (auto simp: payload_ok_def Let_def)
qed

lemma validated_closure_captures_witness:
  "\<exists>child. closure_child_proto_id closure_proto (p_code closure_proto ! 1) = Some child
     \<and> unat child < length [closure_proto, child_proto]
     \<and> (\<forall>j < unat (num_upvalues ([closure_proto, child_proto] ! unat child)).
          1 + 1 + j < length (p_code closure_proto)
          \<and> (let i = p_code closure_proto ! (1 + 1 + j) in
             i_opcode i = Op_Capture
             \<and> (unat (i_a i) \<le> 1 \<and> unat (i_b i) < unat (max_stack_size closure_proto)
                \<or> unat (i_a i) = 2 \<and> unat (i_b i) < unat (num_upvalues closure_proto))))"
proof -
  have "closure_proto \<in> set (ch_protos closure_chunk)" "1 < length (p_code closure_proto)"
    "i_opcode (p_code closure_proto ! 1) = Op_NewClosure"
    by (simp_all add: closure_chunk_def closure_proto_def)
  moreover have "ch_protos closure_chunk = [closure_proto, child_proto]" by (simp add: closure_chunk_def)
  ultimately show ?thesis
    using validated_closure_captures [OF closure_chunk_valid, of closure_proto 1] by simp
qed

text \<open>
  Every GETIMPORT of a chunk without validation errors names an import constant of its proto,
  carries the same packed path in its AUX word, and the path has one to three components that are
  string constants.
\<close>

theorem validated_import:
  assumes "validate_chunk (Chunk_Valid c) = []" "p \<in> set (ch_protos c)" "i \<in> set (p_code p)"
    "i_opcode i = Op_GetImport"
  shows "\<exists>import_id. p_constants p ! unat (i_d i) = C_Import import_id \<and> unat (i_d i) < length (p_constants p)
     \<and> i_aux i = Some import_id \<and> import_path import_id \<noteq> [] \<and> length (import_path import_id) \<le> 3
     \<and> (\<forall>k \<in> set (import_path import_id). \<exists>s. get (p_constants p) (unat k) = Some (C_String s))"
proof -
  have ok: "proto_ok (ch_strings c) (ch_protos c) p" by (rule validated_proto [OF assms(1,2)])
  obtain m where "m < length (p_code p)" "i = p_code p ! m" using assms(3) by (metis in_set_conv_nth)
  with ok have ref: "reference_ok p i" and aux: "i_aux i = None \<longleftrightarrow> instruction_len (i_opcode i) = 1"
    by (auto simp: proto_ok_def instruction_ok_def)
  from aux assms(4) obtain x where x: "i_aux i = Some x"
    by (cases "i_aux i") (simp_all add: instruction_len_def)
  with ref assms(4) have k: "p_constants p ! unat (i_d i) = C_Import x" "unat (i_d i) < length (p_constants p)"
    by (auto simp: reference_ok_def Let_def sint_nonneg_unat constant_at_def aux_word_def)
  then have "constant_ok (ch_strings c) (ch_protos c) p (C_Import x)"
    using ok unfolding proto_ok_def by (metis nth_mem)
  moreover have "length (import_path x) \<le> 3"
    using drop_bit_30_le_3 [of x] by (simp add: import_path_def word_le_nat_alt)
  ultimately show ?thesis using k x by (auto simp: string_constant_at_def)
qed

lemma validated_import_witness:
  "\<exists>import_id. [C_String 1, C_Import 0x40000000] ! 1 = C_Import import_id
     \<and> length (import_path import_id) \<le> 3
     \<and> (\<forall>k \<in> set (import_path import_id). \<exists>s. get [C_String 1, C_Import 0x40000000] (unat k) = Some (C_String s))"
proof -
  let ?get = "abc_with_aux Op_GetImport 0 1 0 (Some 0x40000000)"
  let ?code = "[?get, abc Op_Return 0 1 0]" and ?pool = "[C_String 1, C_Import 0x40000000]"
  have d: "i_d ?get = 1" using i_d_halves [of Op_GetImport 0 1 "Some 0x40000000"] by simp
  have "validate_chunk (Chunk_Valid (sample_module 1 ?pool ?code)) = []"
    by (rule sample_module_valid)
      (simp_all add: run_instruction_ok d constant_at_def aux_word_def import_path_def string_constant_at_def get_def)
  from validated_import [OF this, of "sample_main 1 ?pool ?code" ?get] d show ?thesis
    by (auto simp: sample_module_def sample_main_def)
qed

section \<open>What validation does not cover\<close>

text \<open>
  The interpreter reads the arguments of a call from the registers behind the function register
  (\<^verbatim>\<open>callee_base = func_reg + 1\<close> in \<^verbatim>\<open>crates/ruau-vm/src/call.rs\<close>), that is from \<open>A + 1\<close> to
  \<open>A + B - 1\<close>; the validator checks the range that starts at \<open>A\<close> and so leaves out the last one.
\<close>

text \<open>
  A call whose only argument lies outside the frame passes validation: with a frame of one
  register, \<^verbatim>\<open>CALL A=0 B=2\<close> passes the value of register 1.
\<close>

theorem call_last_argument_unchecked:
  "\<exists>c p i. validate_chunk (Chunk_Valid c) = [] \<and> p \<in> set (ch_protos c) \<and> i \<in> set (p_code p)
     \<and> i_opcode i = Op_Call \<and> 2 \<le> unat (i_b i)
     \<and> unat (max_stack_size p) \<le> unat (i_a i) + unat (i_b i) - 1"
proof -
  let ?call = "abc Op_Call 0 2 1" and ?ret = "abc Op_Return 0 1 0"
  let ?p = "sample_main 1 [] [?call, ?ret]"
  have "validate_chunk (Chunk_Valid (sample_module 1 [] [?call, ?ret])) = []"
    by (rule sample_module_valid)
      (simp_all add: run_instruction_ok)
  then show ?thesis
    by (intro exI [of _ "sample_module 1 [] [?call, ?ret]"] exI [of _ ?p] exI [of _ ?call])
      (simp add: sample_module_def sample_main_def)
qed

text \<open>
  A GETVARARGS with a fixed count writes \<open>B - 1\<close> registers from \<open>A\<close> on; validation looks at the
  first of them only.
\<close>

theorem getvarargs_targets_unchecked:
  "\<exists>c p i. validate_chunk (Chunk_Valid c) = [] \<and> p \<in> set (ch_protos c) \<and> i \<in> set (p_code p)
     \<and> i_opcode i = Op_GetVarargs \<and> 2 \<le> unat (i_b i)
     \<and> unat (max_stack_size p) \<le> unat (i_a i) + unat (i_b i) - 2"
proof -
  let ?get = "abc Op_GetVarargs 0 200 0" and ?ret = "abc Op_Return 0 1 0"
  let ?p = "sample_main 1 [] [?get, ?ret]"
  have "validate_chunk (Chunk_Valid (sample_module 1 [] [?get, ?ret])) = []"
    by (rule sample_module_valid)
      (simp_all add: run_instruction_ok)
  then show ?thesis
    by (intro exI [of _ "sample_module 1 [] [?get, ?ret]"] exI [of _ ?p] exI [of _ ?get])
      (simp add: sample_module_def sample_main_def)
qed

end
