(* ===== verification/Builder.thy ===== *)
theory Builder
  imports Chunk Wire
begin

text \<open>
  The order-preserving chunk builder of \<^verbatim>\<open>crates/ruau-bytecode/src/builder.rs\<close>: the proto under
  construction (\<^verbatim>\<open>ProtoWork\<close>), the chunk (\<^verbatim>\<open>ChunkBuilder\<close>), the jump folding pass and the type-info
  payload. Hash maps are partial maps. The loop of \<^verbatim>\<open>fold_jumps\<close> that follows a chain of jumps is a
  partial function whose value \<open>None\<close> stands for a run that does not end.
\<close>

section \<open>State\<close>

record typed_local =
  type_tag :: u8
  typed_reg :: u8
  startpc :: u32
  endpc :: u32

record proto_work =
  bw_child_protos :: "u32 list"
  bw_constants :: "bc_constant list"
  bw_constant_ids :: "bc_constant \<rightharpoonup> u32"
  bw_code :: "instruction list"
  bw_code_word_offsets :: "u32 list"
  bw_next_code_word_offset :: u32
  bw_code_lines :: "i32 list"
  bw_feedback_slots :: "feedback_slot list"
  bw_max_stack_size :: u8
  bw_current_line :: i32
  bw_implicit_return_line_delta :: u8
  bw_implicit_return_line_base :: "i32 option"
  bw_proto_flags :: u8
  bw_implicit_prepvarargs :: bool
  bw_function_type_info :: bytes
  bw_typed_upvalues :: bytes
  bw_typed_locals :: "typed_local list"
  bw_debug_locals :: "debug_local list"
  bw_debug_upvalues :: "u32 list"

record proto_metadata =
  md_num_params :: u8
  md_num_upvalues :: u8
  md_is_vararg :: bool
  md_flags :: u8
  md_line_defined :: u32
  md_debug_name :: u32
  md_debug_level :: u8

record chunk_builder =
  cb_strings :: "bytes list"
  cb_string_ids :: "bytes \<rightharpoonup> u32"
  cb_protos :: "proto list"
  cb_current :: proto_work
  cb_bytecode_version :: u8

text \<open>\<^verbatim>\<open>ProtoWork::default()\<close>, \<^verbatim>\<open>new\<close> and \<^verbatim>\<open>new_function\<close>.\<close>

definition proto_work_default :: proto_work where
  "proto_work_default =
     \<lparr>bw_child_protos = [], bw_constants = [], bw_constant_ids = Map.empty, bw_code = [],
      bw_code_word_offsets = [], bw_next_code_word_offset = 0, bw_code_lines = [],
      bw_feedback_slots = [], bw_max_stack_size = 0, bw_current_line = 0,
      bw_implicit_return_line_delta = 0, bw_implicit_return_line_base = None, bw_proto_flags = 0,
      bw_implicit_prepvarargs = False, bw_function_type_info = [], bw_typed_upvalues = [],
      bw_typed_locals = [], bw_debug_locals = [], bw_debug_upvalues = []\<rparr>"

definition proto_work_new :: proto_work where
  "proto_work_new =
     proto_work_default\<lparr>bw_current_line := 1, bw_proto_flags := 2, bw_implicit_prepvarargs := True\<rparr>"

definition new_function :: proto_work where
  "new_function = proto_work_default\<lparr>bw_current_line := 1, bw_proto_flags := 2\<rparr>"

definition chunk_builder_new :: chunk_builder where
  "chunk_builder_new =
     \<lparr>cb_strings = [], cb_string_ids = Map.empty, cb_protos = [], cb_current = proto_work_new,
      cb_bytecode_version = DEFAULT_VERSION\<rparr>"

abbreviation with_current :: "(proto_work \<Rightarrow> proto_work) \<Rightarrow> chunk_builder \<Rightarrow> chunk_builder" where
  "with_current f b \<equiv> b\<lparr>cb_current := f (cb_current b)\<rparr>"

section \<open>Setters and type, debug and feedback records\<close>

definition begin_proto :: "chunk_builder \<Rightarrow> proto_work \<times> chunk_builder" where
  "begin_proto b = (cb_current b, b\<lparr>cb_current := new_function\<rparr>)"

definition end_proto :: "proto_work \<Rightarrow> chunk_builder \<Rightarrow> proto_work \<times> chunk_builder" where
  "end_proto previous b = (cb_current b, b\<lparr>cb_current := previous\<rparr>)"

definition set_bytecode_version :: "u8 \<Rightarrow> chunk_builder \<Rightarrow> chunk_builder" where
  "set_bytecode_version version b = b\<lparr>cb_bytecode_version := version\<rparr>"

definition set_max_stack_size :: "u8 \<Rightarrow> chunk_builder \<Rightarrow> chunk_builder" where
  "set_max_stack_size v = with_current (\<lambda>w. w\<lparr>bw_max_stack_size := max (bw_max_stack_size w) v\<rparr>)"

definition set_proto_flags :: "u8 \<Rightarrow> chunk_builder \<Rightarrow> chunk_builder" where
  "set_proto_flags v = with_current (\<lambda>w. w\<lparr>bw_proto_flags := v\<rparr>)"

definition set_implicit_return_line_delta :: "u8 \<Rightarrow> chunk_builder \<Rightarrow> chunk_builder" where
  "set_implicit_return_line_delta v = with_current (\<lambda>w. w\<lparr>bw_implicit_return_line_delta := v\<rparr>)"

definition set_implicit_return_line_base :: "u32 \<Rightarrow> chunk_builder \<Rightarrow> chunk_builder" where
  "set_implicit_return_line_base line = with_current (\<lambda>w. w\<lparr>bw_implicit_return_line_base := Some line\<rparr>)"

definition set_debug_line :: "u32 \<Rightarrow> chunk_builder \<Rightarrow> chunk_builder" where
  "set_debug_line line = with_current (\<lambda>w. w\<lparr>bw_current_line := line\<rparr>)"

definition push_local_type_info :: "u8 \<Rightarrow> u8 \<Rightarrow> u32 \<Rightarrow> u32 \<Rightarrow> chunk_builder \<Rightarrow> chunk_builder" where
  "push_local_type_info tag reg start stop =
     with_current (\<lambda>w. w\<lparr>bw_typed_locals := bw_typed_locals w
       @ [\<lparr>type_tag = tag, typed_reg = reg, startpc = start, endpc = stop\<rparr>]\<rparr>)"

definition set_function_type_info :: "bytes \<Rightarrow> chunk_builder \<Rightarrow> chunk_builder" where
  "set_function_type_info ti = with_current (\<lambda>w. w\<lparr>bw_function_type_info := ti\<rparr>)"

definition push_upvalue_type_info :: "u8 \<Rightarrow> chunk_builder \<Rightarrow> chunk_builder" where
  "push_upvalue_type_info tag =
     with_current (\<lambda>w. w\<lparr>bw_typed_upvalues := bw_typed_upvalues w @ [tag]\<rparr>)"

definition push_debug_local :: "u32 \<Rightarrow> u32 \<Rightarrow> u32 \<Rightarrow> u8 \<Rightarrow> chunk_builder \<Rightarrow> chunk_builder" where
  "push_debug_local name start stop register =
     with_current (\<lambda>w. w\<lparr>bw_debug_locals := bw_debug_locals w
       @ [\<lparr>local_name = name, start_pc = start, end_pc = stop, local_register = register\<rparr>]\<rparr>)"

definition push_debug_upvalue :: "u32 \<Rightarrow> chunk_builder \<Rightarrow> chunk_builder" where
  "push_debug_upvalue name =
     with_current (\<lambda>w. w\<lparr>bw_debug_upvalues := bw_debug_upvalues w @ [name]\<rparr>)"

definition push_feedback_slot :: "feedback_slot \<Rightarrow> chunk_builder \<Rightarrow> u32 \<times> chunk_builder" where
  "push_feedback_slot slot b =
     (of_nat (length (bw_feedback_slots (cb_current b))),
      with_current (\<lambda>w. w\<lparr>bw_feedback_slots := bw_feedback_slots w @ [slot]\<rparr>) b)"

definition current_code :: "chunk_builder \<Rightarrow> instruction list" where
  "current_code b = bw_code (cb_current b)"

definition current_proto_flags :: "chunk_builder \<Rightarrow> u8" where
  "current_proto_flags b = bw_proto_flags (cb_current b)"

definition current_max_stack_size :: "chunk_builder \<Rightarrow> u8" where
  "current_max_stack_size b = bw_max_stack_size (cb_current b)"

section \<open>Strings of the syntax tree\<close>

text \<open>
  A Rust string is its list of Unicode scalar values. \<^verbatim>\<open>char::encode_utf8\<close>, \<^verbatim>\<open>char::len_utf8\<close> and
  \<^verbatim>\<open>u8::from_str_radix(_, 16)\<close>, which accepts one leading plus sign.
\<close>

definition encode_utf8 :: "nat \<Rightarrow> bytes" where
  "encode_utf8 c =
     (if c < 0x80 then [of_nat c]
      else if c < 0x800 then [of_nat (0xc0 + c div 0x40), of_nat (0x80 + c mod 0x40)]
      else if c < 0x10000 then
        [of_nat (0xe0 + c div 0x1000), of_nat (0x80 + c div 0x40 mod 0x40), of_nat (0x80 + c mod 0x40)]
      else
        [of_nat (0xf0 + c div 0x40000), of_nat (0x80 + c div 0x1000 mod 0x40),
         of_nat (0x80 + c div 0x40 mod 0x40), of_nat (0x80 + c mod 0x40)])"

definition hex_digit :: "nat \<Rightarrow> nat option" where
  "hex_digit c =
     (if 48 \<le> c \<and> c \<le> 57 then Some (c - 48)
      else if 97 \<le> c \<and> c \<le> 102 then Some (c - 87)
      else if 65 \<le> c \<and> c \<le> 70 then Some (c - 55)
      else None)"

fun hex_number :: "nat \<Rightarrow> nat list \<Rightarrow> nat option" where
  "hex_number acc [] = Some acc"
| "hex_number acc (c # cs) =
     (case hex_digit c of None \<Rightarrow> None | Some d \<Rightarrow> hex_number (16 * acc + d) cs)"

definition u8_from_str_radix_16 :: "nat list \<Rightarrow> u8 option" where
  "u8_from_str_radix_16 cs =
     (let digits = (if cs \<noteq> [] \<and> hd cs = 43 \<and> tl cs \<noteq> [] then tl cs else cs) in
      if digits = [] then None
      else (case hex_number 0 digits of
              None \<Rightarrow> None
            | Some n \<Rightarrow> if n < 256 then Some (of_nat n) else None))"

text \<open>The byte behind the marker U+FFFF, if the next four characters are \<^verbatim>\<open>ff\<close> and its digits.\<close>

definition marked_byte :: "nat list \<Rightarrow> u8 option" where
  "marked_byte rest_chars =
     (let tail = take 4 rest_chars in
      if take 2 tail = [102, 102] then
        (let hex = drop 2 tail in
         if sum_list (map (\<lambda>c. length (encode_utf8 c)) hex) = 2 then u8_from_str_radix_16 hex else None)
      else None)"

function decode_ast_string_bytes :: "nat list \<Rightarrow> bytes" where
  "decode_ast_string_bytes [] = []"
| "decode_ast_string_bytes (ch # cs) =
     (case (if ch = 0xffff then marked_byte cs else None) of
        Some byte \<Rightarrow> byte # decode_ast_string_bytes (drop 4 cs)
      | None \<Rightarrow> encode_utf8 ch @ decode_ast_string_bytes cs)"
  by pat_completeness auto
termination by (relation "measure length") auto

section \<open>Strings, constants, protos\<close>

definition add_string :: "nat list \<Rightarrow> chunk_builder \<Rightarrow> u32 \<times> chunk_builder" where
  "add_string s b =
     (let bs = decode_ast_string_bytes s in
      case cb_string_ids b bs of
        Some index \<Rightarrow> (index, b)
      | None \<Rightarrow>
          (let strs = cb_strings b @ [bs]; index = of_nat (length strs) in
           (index, b\<lparr>cb_strings := strs, cb_string_ids := (cb_string_ids b)(bs \<mapsto> index)\<rparr>)))"

definition add_constant :: "bc_constant \<Rightarrow> chunk_builder \<Rightarrow> u32 \<times> chunk_builder" where
  "add_constant k b =
     (case bw_constant_ids (cb_current b) k of
        Some index \<Rightarrow> (index, b)
      | None \<Rightarrow>
          (let index = of_nat (length (bw_constants (cb_current b))) in
           (index, with_current (\<lambda>w. w\<lparr>bw_constants := bw_constants w @ [k],
              bw_constant_ids := (bw_constant_ids w)(k \<mapsto> index)\<rparr>) b)))"

text \<open>\<^verbatim>\<open>f64::to_bits\<close> is applied by the caller: a number is its bit pattern.\<close>

definition add_number :: "u64 \<Rightarrow> chunk_builder \<Rightarrow> u32 \<times> chunk_builder" where
  "add_number bits = add_constant (C_Number bits)"

definition add_string_constant :: "nat list \<Rightarrow> chunk_builder \<Rightarrow> u32 \<times> chunk_builder" where
  "add_string_constant s b = (let (string_id, b1) = add_string s b in add_constant (C_String string_id) b1)"

definition add_nil :: "chunk_builder \<Rightarrow> u32 \<times> chunk_builder" where
  "add_nil = add_constant C_Nil"

definition add_boolean :: "bool \<Rightarrow> chunk_builder \<Rightarrow> u32 \<times> chunk_builder" where
  "add_boolean v = add_constant (C_Boolean v)"

definition add_vector_bits :: "u32 \<Rightarrow> u32 \<Rightarrow> u32 \<Rightarrow> u32 \<Rightarrow> chunk_builder \<Rightarrow> u32 \<times> chunk_builder" where
  "add_vector_bits x y z w = add_constant (C_Vector x y z w)"

definition add_integer :: "i64 \<Rightarrow> chunk_builder \<Rightarrow> u32 \<times> chunk_builder" where
  "add_integer v = add_constant (C_Integer v)"

definition add_import :: "u32 \<Rightarrow> chunk_builder \<Rightarrow> u32 \<times> chunk_builder" where
  "add_import import_id = add_constant (C_Import import_id)"

definition add_table_shape :: "u32 list \<Rightarrow> chunk_builder \<Rightarrow> u32 \<times> chunk_builder" where
  "add_table_shape keys = add_constant (C_Table keys)"

definition add_table_with_constants :: "table_entry list \<Rightarrow> chunk_builder \<Rightarrow> u32 \<times> chunk_builder" where
  "add_table_with_constants entries = add_constant (C_TableWithConstants entries)"

definition add_class_shape :: "class_shape \<Rightarrow> chunk_builder \<Rightarrow> u32 \<times> chunk_builder" where
  "add_class_shape shape = add_constant (C_ClassShape shape)"

definition add_closure :: "u32 \<Rightarrow> chunk_builder \<Rightarrow> u32 \<times> chunk_builder" where
  "add_closure p = add_constant (C_Closure p)"

definition add_child_proto :: "u32 \<Rightarrow> chunk_builder \<Rightarrow> i16 \<times> chunk_builder" where
  "add_child_proto p b =
     (case position (\<lambda>existing. existing = p) (bw_child_protos (cb_current b)) of
        Some index \<Rightarrow> (of_nat index, b)
      | None \<Rightarrow>
          (of_nat (length (bw_child_protos (cb_current b))),
           with_current (\<lambda>w. w\<lparr>bw_child_protos := bw_child_protos w @ [p]\<rparr>) b))"

definition add_proto :: "proto \<Rightarrow> chunk_builder \<Rightarrow> u32 \<times> chunk_builder" where
  "add_proto p b = (of_nat (length (cb_protos b)), b\<lparr>cb_protos := cb_protos b @ [p]\<rparr>)"

section \<open>Emitting and patching code\<close>

definition emit_at_line :: "instruction \<Rightarrow> i32 \<Rightarrow> chunk_builder \<Rightarrow> nat \<times> chunk_builder" where
  "emit_at_line i line b =
     (length (bw_code (cb_current b)),
      with_current (\<lambda>w. w\<lparr>bw_code_lines := bw_code_lines w @ replicate (unat (word_len i)) line,
        bw_code_word_offsets := bw_code_word_offsets w @ [bw_next_code_word_offset w],
        bw_next_code_word_offset := bw_next_code_word_offset w + word_len i,
        bw_code := bw_code w @ [i]\<rparr>) b)"

definition emit :: "instruction \<Rightarrow> chunk_builder \<Rightarrow> nat \<times> chunk_builder" where
  "emit i b = emit_at_line i (bw_current_line (cb_current b)) b"

text \<open>\<^verbatim>\<open>i32::saturating_add\<close> with a non-negative right operand.\<close>

definition i32_saturating_add_u8 :: "i32 \<Rightarrow> u8 \<Rightarrow> i32" where
  "i32_saturating_add_u8 x d =
     (if 2 ^ 31 \<le> sint x + int (unat d) then 0x7fffffff else x + ucast d)"

definition implicit_return_line :: "chunk_builder \<Rightarrow> i32" where
  "implicit_return_line b =
     (let w = cb_current b;
          base = (case bw_implicit_return_line_base w of
                    Some line \<Rightarrow> line
                  | None \<Rightarrow> if bw_code_lines w = [] then 1 else last (bw_code_lines w))
      in i32_saturating_add_u8 base (bw_implicit_return_line_delta w))"

definition emit_implicit_return :: "chunk_builder \<Rightarrow> nat \<times> chunk_builder" where
  "emit_implicit_return b = emit_at_line (abc Op_Return 0 1 0) (implicit_return_line b) b"

text \<open>Indexing out of range panics, which is the value \<open>None\<close> here.\<close>

definition set_code_at :: "nat \<Rightarrow> instruction \<Rightarrow> chunk_builder \<Rightarrow> chunk_builder option" where
  "set_code_at index i b =
     (if index < length (bw_code (cb_current b))
      then Some (with_current (\<lambda>w. w\<lparr>bw_code := (bw_code w)[index := i]\<rparr>) b) else None)"

definition patch_ad :: "nat \<Rightarrow> opcode \<Rightarrow> u8 \<Rightarrow> i16 \<Rightarrow> chunk_builder \<Rightarrow> chunk_builder option" where
  "patch_ad index op a d = set_code_at index (ad op a d)"

definition patch_ad_with_aux ::
  "nat \<Rightarrow> opcode \<Rightarrow> u8 \<Rightarrow> i16 \<Rightarrow> u32 option \<Rightarrow> chunk_builder \<Rightarrow> chunk_builder option" where
  "patch_ad_with_aux index op a d aux =
     set_code_at index (abc_with_aux op a (ucast (d AND 0xff)) (ucast (drop_bit 8 d AND 0xff)) aux)"

definition current_word_offset :: "chunk_builder \<Rightarrow> u32" where
  "current_word_offset b = bw_next_code_word_offset (cb_current b)"

definition instruction_word_offset :: "nat \<Rightarrow> chunk_builder \<Rightarrow> u32 option" where
  "instruction_word_offset index b = get (bw_code_word_offsets (cb_current b)) index"

definition patch_skip_c_to_current :: "nat \<Rightarrow> chunk_builder \<Rightarrow> (bool \<times> chunk_builder) option" where
  "patch_skip_c_to_current index b =
     (case instruction_word_offset index b of
        None \<Rightarrow> None
      | Some source \<Rightarrow>
          (case checked_sub (current_word_offset b) (source + 1) of
             None \<Rightarrow> Some (False, b)
           | Some offset \<Rightarrow>
               (case u8_try_from_u32 offset of
                  None \<Rightarrow> Some (False, b)
                | Some c \<Rightarrow>
                    (case get (bw_code (cb_current b)) index of
                       None \<Rightarrow> None
                     | Some i \<Rightarrow>
                         map_option (Pair True)
                           (set_code_at index (abc_with_aux (i_opcode i) (i_a i) (i_b i) c (i_aux i)) b)))))"

definition needs_implicit_prepvarargs :: "chunk_builder \<Rightarrow> bool" where
  "needs_implicit_prepvarargs b =
     (let w = cb_current b in
      bw_implicit_prepvarargs w \<and> (bw_code w = [] \<or> i_opcode (hd (bw_code w)) \<noteq> Op_PrepVarargs))"

definition current_type_info_pc :: "chunk_builder \<Rightarrow> u32" where
  "current_type_info_pc b =
     current_word_offset b
     + (if bw_implicit_prepvarargs (cb_current b) \<and> needs_implicit_prepvarargs b then 1 else 0)"

section \<open>Folding jumps\<close>

text \<open>\<^verbatim>\<open>slice::binary_search\<close> on the strictly increasing offsets: bisection of \<open>[lo, hi)\<close>.\<close>

function bisect :: "u32 list \<Rightarrow> u32 \<Rightarrow> nat \<Rightarrow> nat \<Rightarrow> nat option" where
  "bisect xs x lo hi =
     (if hi \<le> lo then None
      else
        (let mid = (lo + hi) div 2 in
         if xs ! mid = x then Some mid
         else if xs ! mid < x then bisect xs x (mid + 1) hi
         else bisect xs x lo mid))"
  by pat_completeness auto
termination by (relation "measure (\<lambda>(xs, x, lo, hi). hi - lo)") auto

declare bisect.simps [simp del]

definition instruction_index_for_word :: "u32 list \<Rightarrow> u32 \<Rightarrow> nat option" where
  "instruction_index_for_word offsets word = bisect offsets word 0 (length offsets)"

definition is_foldable_jump_d :: "opcode \<Rightarrow> bool" where
  "is_foldable_jump_d op \<longleftrightarrow> op \<in> set
     [Op_Jump, Op_JumpBack, Op_JumpIf, Op_JumpIfNot, Op_JumpIfEq, Op_JumpIfLe, Op_JumpIfLt,
      Op_JumpIfNotEq, Op_JumpIfNotLe, Op_JumpIfNotLt, Op_ForNPrep, Op_ForNLoop, Op_ForGLoop,
      Op_ForGPrepInext, Op_ForGPrepNext, Op_ForGPrep, Op_JumpXEqKNil, Op_JumpXEqKB, Op_JumpXEqKN,
      Op_JumpXEqKS, Op_CmpProto]"

definition patch_jump_d_instruction :: "instruction \<Rightarrow> i16 \<Rightarrow> instruction" where
  "patch_jump_d_instruction i offset =
     (if i_aux i = None then ad (i_opcode i) (i_a i) offset
      else abc_with_aux (i_opcode i) (i_a i) (ucast (offset AND 0xff))
             (ucast (drop_bit 8 offset AND 0xff)) (i_aux i))"

text \<open>
  The resolver of one jump: the word an instruction jumps to and the index of the instruction that
  starts there, if the word is not negative and an instruction starts there.
\<close>

definition jump_destination :: "instruction list \<Rightarrow> u32 list \<Rightarrow> nat \<Rightarrow> (i32 \<times> nat) option" where
  "jump_destination code offsets index =
     (case jump_target_word (code ! index) (offsets ! index) of
        None \<Rightarrow> None
      | Some word \<Rightarrow>
          if sint word < 0 then None
          else map_option (Pair word) (instruction_index_for_word offsets word))"

partial_function (option) follow_jumps ::
  "instruction list \<Rightarrow> u32 list \<Rightarrow> i32 \<Rightarrow> nat \<Rightarrow> (i32 \<times> nat) option" where
  "follow_jumps code offsets target_word target_index =
     (if i_opcode (code ! target_index) = Op_Jump \<and> 0 \<le> sint (i_d (code ! target_index)) then
        (case jump_destination code offsets target_index of
           None \<Rightarrow> Some (target_word, target_index)
         | Some (next_target, next_index) \<Rightarrow> follow_jumps code offsets next_target next_index)
      else Some (target_word, target_index))"

function skip_equal_returns ::
  "instruction list \<Rightarrow> u32 list \<Rightarrow> i32 \<Rightarrow> nat \<Rightarrow> i32 \<times> nat" where
  "skip_equal_returns code offsets target_word target_index =
     (if target_index + 1 < length code \<and> code ! (target_index + 1) = code ! target_index
      then skip_equal_returns code offsets (offsets ! (target_index + 1)) (target_index + 1)
      else (target_word, target_index))"
  by pat_completeness auto
termination by (relation "measure (\<lambda>(code, offsets, w, i). length code - i)") auto

declare skip_equal_returns.simps [simp del]

definition fold_jump_at :: "u32 list \<Rightarrow> nat \<Rightarrow> instruction list \<Rightarrow> instruction list option" where
  "fold_jump_at offsets index code =
     (if \<not> is_foldable_jump_d (i_opcode (code ! index)) then Some code
      else
        (case jump_destination code offsets index of
           None \<Rightarrow> Some code
         | Some (target_word0, target_index0) \<Rightarrow>
             (case follow_jumps code offsets target_word0 target_index0 of
                None \<Rightarrow> None
              | Some (target_word1, target_index1) \<Rightarrow>
                  (let (target_word, target_index) =
                         (if i_opcode (code ! index) \<noteq> Op_Jump
                             \<and> i_opcode (code ! target_index1) = Op_Return
                          then skip_equal_returns code offsets target_word1 target_index1
                          else (target_word1, target_index1));
                       offset = target_word - offsets ! index - 1
                   in if i_opcode (code ! index) = Op_Jump \<and> i_opcode (code ! target_index) = Op_Return
                      then Some (code[index := code ! target_index])
                      else
                        (case i16_try_from_i32 offset of
                           Some d \<Rightarrow> Some (code[index := patch_jump_d_instruction (code ! index) d])
                         | None \<Rightarrow> Some code)))))"

fun fold_jumps_from :: "u32 list \<Rightarrow> nat \<Rightarrow> nat \<Rightarrow> instruction list \<Rightarrow> instruction list option" where
  "fold_jumps_from offsets index 0 code = Some code"
| "fold_jumps_from offsets index (Suc n) code =
     (case fold_jump_at offsets index code of
        None \<Rightarrow> None
      | Some code' \<Rightarrow> fold_jumps_from offsets (Suc index) n code')"

definition fold_jumps :: "proto_work \<Rightarrow> proto_work option" where
  "fold_jumps w =
     map_option (\<lambda>code. w\<lparr>bw_code := code\<rparr>)
       (fold_jumps_from (instruction_word_offsets (bw_code w)) 0 (length (bw_code w)) (bw_code w))"

section \<open>Finishing\<close>

definition w_typed_local :: "typed_local \<Rightarrow> bytes \<Rightarrow> bytes" where
  "w_typed_local l bs =
     write_varint (write_varint (bs @ [type_tag l, typed_reg l]) (ucast (startpc l)))
       (ucast (saturating_sub (endpc l) (startpc l)))"

definition type_info_payload :: "bytes \<Rightarrow> bytes \<Rightarrow> typed_local list \<Rightarrow> bytes" where
  "type_info_payload function_type_info typed_upvalues typed_locals =
     (if function_type_info = [] \<and> typed_upvalues = [] \<and> typed_locals = [] then []
      else
        (let bs = write_varint [] (of_nat (length function_type_info));
             bs = write_varint bs (of_nat (length typed_upvalues));
             bs = write_varint bs (of_nat (length typed_locals))
         in fold w_typed_local typed_locals (bs @ function_type_info @ typed_upvalues)))"

definition into_proto :: "proto_metadata \<Rightarrow> proto_work \<Rightarrow> proto" where
  "into_proto md w =
     \<lparr>max_stack_size = bw_max_stack_size w, num_params = md_num_params md,
      num_upvalues = md_num_upvalues md, is_vararg = (if md_is_vararg md then 1 else 0),
      proto_flags = md_flags md,
      proto_type_info = \<lparr>type_raw = type_info_payload (bw_function_type_info w) (bw_typed_upvalues w)
        (bw_typed_locals w)\<rparr>,
      p_code = bw_code w, p_constants = bw_constants w, p_child_protos = bw_child_protos w,
      line_defined = md_line_defined md, debug_name = md_debug_name md,
      proto_line_info = (if 1 \<le> md_debug_level md then from_line_numbers (bw_code_lines w) else None),
      proto_debug_info =
        (if 2 \<le> md_debug_level md \<and> (bw_debug_locals w \<noteq> [] \<or> bw_debug_upvalues w \<noteq> [])
         then Some \<lparr>debug_locals = bw_debug_locals w, debug_upvalues = bw_debug_upvalues w\<rparr> else None),
      p_feedback_slots = bw_feedback_slots w, p_cost = None\<rparr>"

definition insert_prepvarargs :: "chunk_builder \<Rightarrow> chunk_builder" where
  "insert_prepvarargs b =
     (if needs_implicit_prepvarargs b then
        with_current (\<lambda>w. w\<lparr>bw_code := abc Op_PrepVarargs 0 0 0 # bw_code w,
          bw_code_lines := 1 # bw_code_lines w,
          bw_code_word_offsets := 0 # map (\<lambda>offset. offset + 1) (bw_code_word_offsets w),
          bw_next_code_word_offset := bw_next_code_word_offset w + 1\<rparr>) b
      else b)"

definition close_with_return :: "chunk_builder \<Rightarrow> chunk_builder" where
  "close_with_return b =
     (let code = bw_code (cb_current b) in
      if code = [] \<or> i_opcode (last code) \<noteq> Op_Return then snd (emit_implicit_return b) else b)"

definition finish :: "u8 \<Rightarrow> bool \<Rightarrow> chunk_builder \<Rightarrow> bytecode_chunk option" where
  "finish debug_level fold_flag b =
     (let b1 = close_with_return (insert_prepvarargs b) in
      case (if fold_flag then fold_jumps (cb_current b1) else Some (cb_current b1)) of
        None \<Rightarrow> None
      | Some current \<Rightarrow>
          (let p = into_proto
                 \<lparr>md_num_params = 0, md_num_upvalues = 0, md_is_vararg = True,
                  md_flags = bw_proto_flags current, md_line_defined = 1, md_debug_name = 0,
                  md_debug_level = debug_level\<rparr> current
           in Some (Chunk_Valid
                \<lparr>bytecode_version = cb_bytecode_version b1, type_version = DEFAULT_TYPE_VERSION,
                 ch_strings = cb_strings b1, ch_userdata_type_mappings = [],
                 ch_protos = cb_protos b1 @ [p], ch_main_proto = of_nat (length (cb_protos b1))\<rparr>)))"

end
