(* ===== verification/Jump_Folding.thy ===== *)
theory Jump_Folding
  imports Builder
begin

text \<open>
  Correctness of \<^verbatim>\<open>ProtoWork::fold_jumps\<close>: the bisection of the word offsets finds exactly the
  instruction that starts at a word, the chain of forward jumps ends, the pass keeps every word
  offset, and control reaches the same instructions before and after it.
\<close>

section \<open>Bisection\<close>

definition increasing :: "u32 list \<Rightarrow> bool" where
  "increasing xs \<longleftrightarrow> (\<forall>i j. i < j \<longrightarrow> j < length xs \<longrightarrow> xs ! i < xs ! j)"

lemma increasing_less: "increasing xs \<Longrightarrow> i < j \<Longrightarrow> j < length xs \<Longrightarrow> xs ! i < xs ! j"
  by (simp add: increasing_def)

lemma increasing_le_iff:
  "increasing xs \<Longrightarrow> i < length xs \<Longrightarrow> j < length xs \<Longrightarrow> xs ! i < xs ! j \<longleftrightarrow> i < j"
  by (metis increasing_less less_asym' linorder_neqE_nat)

lemma bisect_iff:
  assumes "increasing xs" "hi \<le> length xs"
  shows "bisect xs x lo hi = Some m \<longleftrightarrow> lo \<le> m \<and> m < hi \<and> xs ! m = x"
  using assms
proof (induction xs x lo hi rule: bisect.induct)
  case (1 xs x lo hi)
  show ?case
  proof (cases "hi \<le> lo")
    case True
    then show ?thesis by (simp add: bisect.simps [of xs x lo hi])
  next
    case False
    let ?mid = "(lo + hi) div 2"
    have mid: "lo \<le> ?mid" "?mid < hi" "?mid < length xs" using False "1.prems" by auto
    have cmp: "xs ! m < xs ! ?mid \<longleftrightarrow> m < ?mid" "xs ! ?mid < xs ! m \<longleftrightarrow> ?mid < m" if "m < hi"
      using increasing_le_iff [OF "1.prems"(1)] mid that "1.prems"(2) by auto
    consider "xs ! ?mid = x" | "xs ! ?mid < x" | "x < xs ! ?mid" by (metis linorder_less_linear)
    then show ?thesis
    proof cases
      case 1
      moreover have "xs ! m = xs ! ?mid \<longleftrightarrow> m = ?mid" if "m < hi"
        using cmp [OF that] by (metis less_irrefl linorder_neqE_nat)
      ultimately show ?thesis using False mid
        by (subst bisect.simps) (auto simp: Let_def)
    next
      case 2
      then have "bisect xs x lo hi = bisect xs x (?mid + 1) hi"
        using False by (subst bisect.simps) (auto simp: Let_def)
      then show ?thesis using "1.IH"(1) [OF False refl] 2 "1.prems" mid cmp by auto
    next
      case 3
      then have "bisect xs x lo hi = bisect xs x lo ?mid"
        using False by (subst bisect.simps) (auto simp: Let_def)
      then show ?thesis using "1.IH"(2) [OF False refl] 3 "1.prems" mid cmp by auto
    qed
  qed
qed

lemma offsets_increasing:
  assumes "nat_words code < 2 ^ 32"
  shows "increasing (instruction_word_offsets code)"
  unfolding increasing_def
proof (intro allI impI)
  fix i j assume "i < j" "j < length (instruction_word_offsets code)"
  then show "instruction_word_offsets code ! i < instruction_word_offsets code ! j"
    using unat_nth_offsets [OF assms] nat_offset_strict [of i j code] by (simp add: word_less_nat_alt)
qed

lemma instruction_index_iff:
  assumes "nat_words code < 2 ^ 32"
  shows "instruction_index_for_word (instruction_word_offsets code) word = Some k \<longleftrightarrow>
    k < length code \<and> instruction_word_offsets code ! k = word"
  using bisect_iff [OF offsets_increasing [OF assms] order_refl]
  by (simp add: instruction_index_for_word_def)

section \<open>Where a jump goes\<close>

text \<open>
  The pass works on code of less than \<open>2 ^ 31\<close> words in which jumps and returns have no AUX word, which
  is how every one of them is emitted.
\<close>

definition foldable_code :: "instruction list \<Rightarrow> bool" where
  "foldable_code code \<longleftrightarrow> nat_words code < 2 ^ 31 \<and>
     (\<forall>i \<in> set code. i_opcode i \<in> {Op_Jump, Op_Return} \<longrightarrow> i_aux i = None)"

abbreviation jump_index :: "instruction list \<Rightarrow> nat \<Rightarrow> nat option" where
  "jump_index \<equiv> jump_target_instruction_index"

lemma foldable_words: "foldable_code code \<Longrightarrow> nat_words code < 2 ^ 31"
  by (simp add: foldable_code_def)

lemma foldable_words_32: "foldable_code code \<Longrightarrow> nat_words code < 2 ^ 32"
  by (simp add: foldable_code_def)

lemma sint_offset:
  assumes "foldable_code code" "k < length code"
  shows "sint (instruction_word_offsets code ! k) = int (nat_offset code k)"
proof -
  have "nat_offset code k < 2 ^ 31"
    using foldable_words [OF assms(1)] nat_offset_less_words [OF assms(2)] by simp
  then show ?thesis
    by (simp add: nth_instruction_word_offsets [OF assms(2)] signed_of_nat signed_take_bit_int_eq_self_iff)
qed

lemma jump_destination_iff:
  assumes "foldable_code code" "k < length code"
  shows "jump_destination code (instruction_word_offsets code) k = Some (w, t) \<longleftrightarrow>
    jump_index code k = Some t \<and> w = instruction_word_offsets code ! t"
proof -
  have nonneg: "t < length code \<Longrightarrow> \<not> sint (instruction_word_offsets code ! t) < 0"
    using sint_offset [OF assms(1)] by simp
  show ?thesis
    unfolding jump_index_iff [OF foldable_words_32 [OF assms(1)]] jump_destination_def
    using assms(2) nonneg instruction_index_iff [OF foldable_words_32 [OF assms(1)]]
    by (auto simp: nth_instruction_word_offsets split: option.splits if_splits)
qed

lemma jump_destination_None_iff:
  assumes "foldable_code code" "k < length code"
  shows "jump_destination code (instruction_word_offsets code) k = None \<longleftrightarrow> jump_index code k = None"
  using jump_destination_iff [OF assms] by (metis not_Some_eq surj_pair)

lemma jump_index_less: "jump_index code k = Some t \<Longrightarrow> nat_words code < 2 ^ 32 \<Longrightarrow> k < length code \<and> t < length code"
  by (simp add: jump_index_iff)

text \<open>A jump with a non-negative offset goes to a later instruction.\<close>

lemma forward_jump_later:
  assumes "foldable_code code" "jump_index code k = Some t" "i_opcode (code ! k) = Op_Jump"
    "0 \<le> sint (i_d (code ! k))"
  shows "k < t"
proof -
  have kt: "k < length code" "t < length code"
    using jump_index_less [OF assms(2) foldable_words_32 [OF assms(1)]] by auto
  let ?d = "i_d (code ! k)" and ?n = "nat (sint (i_d (code ! k)))"
  have "i32_from_i16 ?d = of_nat ?n"
    using assms(4) by (simp add: i32_from_i16_def of_nat_nat)
  then have "of_nat (nat_offset code k + 1 + ?n) = (of_nat (nat_offset code t) :: u32)"
    using assms(2,3) by (simp add: jump_index_iff [OF foldable_words_32 [OF assms(1)]]
        jump_target_word_def jump_offset_words_def ac_simps)
  then have "unat (of_nat (nat_offset code k + 1 + ?n) :: u32) = unat (of_nat (nat_offset code t) :: u32)"
    by (rule arg_cong)
  moreover have "nat_offset code k + 1 + ?n < 2 ^ LENGTH(32)" "nat_offset code t < 2 ^ LENGTH(32)"
    using foldable_words [OF assms(1)] nat_offset_less_words [OF kt(1)] nat_offset_less_words [OF kt(2)]
      sint_less [of ?d] by simp_all
  ultimately have "nat_offset code k < nat_offset code t"
    using unat_of_nat_eq [where ?'a = 32] by (metis add.assoc less_add_Suc1 plus_1_eq_Suc add.commute)
  then show ?thesis
    using nat_offset_mono [of t k code] by (meson leD le_less_linear)
qed

section \<open>Following a chain of jumps\<close>

inductive forward :: "instruction list \<Rightarrow> nat \<Rightarrow> nat \<Rightarrow> bool" for code where
  forward_refl: "forward code t t"
| forward_hop: "\<lbrakk>i_opcode (code ! t) = Op_Jump; 0 \<le> sint (i_d (code ! t)); jump_index code t = Some t';
    forward code t' t''\<rbrakk> \<Longrightarrow> forward code t t''"

text \<open>The chain of forward jumps ends, at the word of an instruction that it reaches.\<close>

lemma follow_jumps_ends:
  assumes "foldable_code code" "t < length code"
  shows "\<exists>t'. follow_jumps code (instruction_word_offsets code) (instruction_word_offsets code ! t) t
      = Some (instruction_word_offsets code ! t', t') \<and> t' < length code \<and> forward code t t'"
  using assms(2)
proof (induction "length code - t" arbitrary: t rule: less_induct)
  case less
  let ?os = "instruction_word_offsets code"
  show ?case
  proof (cases "i_opcode (code ! t) = Op_Jump \<and> 0 \<le> sint (i_d (code ! t)) \<and> jump_index code t \<noteq> None")
    case True
    then obtain t2 where t2: "jump_index code t = Some t2" by auto
    then have dest: "jump_destination code ?os t = Some (?os ! t2, t2)"
      using jump_destination_iff [OF assms(1) less.prems] by simp
    have later: "t < t2" "t2 < length code"
      using forward_jump_later [OF assms(1) t2] True jump_index_less [OF t2 foldable_words_32 [OF assms(1)]]
      by auto
    then obtain t' where "follow_jumps code ?os (?os ! t2) t2 = Some (?os ! t', t')"
      "t' < length code" "forward code t2 t'"
      using less.hyps [of t2] less.prems by (meson diff_less_mono2)
    then show ?thesis
      using True dest t2 by (subst follow_jumps.simps) (auto intro: forward_hop)
  next
    case False
    then have "follow_jumps code ?os (?os ! t) t = Some (?os ! t, t)"
      using jump_destination_None_iff [OF assms(1) less.prems]
      by (subst follow_jumps.simps) auto
    then show ?thesis using less.prems by (auto intro: forward_refl)
  qed
qed

text \<open>A forward chain that starts behind an instruction never comes back to it.\<close>

lemma forward_later: "forward code t t' \<Longrightarrow> foldable_code code \<Longrightarrow> t \<le> t'"
proof (induction rule: forward.induct)
  case (forward_hop t t' t'')
  then show ?case using forward_jump_later by fastforce
qed simp

text \<open>The last of a run of equal instructions.\<close>

lemma skip_equal_returns_run:
  assumes "t < length code"
  shows "\<exists>t'. skip_equal_returns code os (os ! t) t = (os ! t', t') \<and> t \<le> t' \<and> t' < length code
    \<and> code ! t' = code ! t"
  using assms
proof (induction "length code - t" arbitrary: t rule: less_induct)
  case less
  show ?case
  proof (cases "t + 1 < length code \<and> code ! (t + 1) = code ! t")
    case True
    then have step: "skip_equal_returns code os (os ! t) t = skip_equal_returns code os (os ! (t + 1)) (t + 1)"
      by (subst skip_equal_returns.simps) simp
    then show ?thesis using less.hyps [of "t + 1"] less.prems True by fastforce
  next
    case False
    then have "skip_equal_returns code os (os ! t) t = (os ! t, t)"
      by (subst skip_equal_returns.simps) auto
    then show ?thesis using less.prems by blast
  qed
qed

section \<open>What control reaches\<close>

text \<open>
  Control that is transferred to an instruction passes through unconditional jumps. It ends in a
  return, of which only the instruction matters, or it runs another instruction, which is known by
  its index. A cycle of jumps reaches nothing.
\<close>

datatype landing = Returns instruction | Runs nat

inductive lands :: "instruction list \<Rightarrow> nat \<Rightarrow> landing \<Rightarrow> bool" for code where
  lands_return: "t < length code \<Longrightarrow> i_opcode (code ! t) = Op_Return \<Longrightarrow> lands code t (Returns (code ! t))"
| lands_run: "t < length code \<Longrightarrow> i_opcode (code ! t) \<notin> {Op_Return, Op_Jump} \<Longrightarrow> lands code t (Runs t)"
| lands_stuck: "t < length code \<Longrightarrow> i_opcode (code ! t) = Op_Jump \<Longrightarrow> jump_index code t = None \<Longrightarrow>
    lands code t (Runs t)"
| lands_hop: "t < length code \<Longrightarrow> i_opcode (code ! t) = Op_Jump \<Longrightarrow> jump_index code t = Some t' \<Longrightarrow>
    lands code t' out \<Longrightarrow> lands code t out"

inductive_cases landsE: "lands code t out"

definition reaches :: "instruction list \<Rightarrow> nat \<Rightarrow> landing \<Rightarrow> bool" where
  "reaches code k out \<longleftrightarrow> (\<exists>t. jump_index code k = Some t \<and> lands code t out)"

lemma lands_jump:
  "t < length code \<Longrightarrow> i_opcode (code ! t) = Op_Jump \<Longrightarrow> jump_index code t = Some t' \<Longrightarrow>
    lands code t out \<longleftrightarrow> lands code t' out"
  by (rule iffI, erule landsE) (auto intro: lands_hop)

lemma lands_at_return:
  "t < length code \<Longrightarrow> i_opcode (code ! t) = Op_Return \<Longrightarrow> lands code t out \<longleftrightarrow> out = Returns (code ! t)"
  by (auto elim: landsE intro: lands_return)

lemma forward_lands:
  "forward code t t' \<Longrightarrow> nat_words code < 2 ^ 32 \<Longrightarrow> lands code t out \<longleftrightarrow> lands code t' out"
proof (induction rule: forward.induct)
  case (forward_hop t t' t'')
  then show ?case using lands_jump [of t code t'] jump_index_less [of code t t'] by simp
qed simp

section \<open>Replacing one instruction\<close>

lemma map_word_len_update:
  "k < length code \<Longrightarrow> nat_word_len i = nat_word_len (code ! k) \<Longrightarrow>
    map nat_word_len (code[k := i]) = map nat_word_len code"
  by (metis list_update_id map_update)

lemma nat_offset_cong: "map nat_word_len code' = map nat_word_len code \<Longrightarrow> nat_offset code' j = nat_offset code j"
  by (simp add: nat_offset_def flip: take_map)

lemma offsets_cong:
  assumes "map nat_word_len code' = map nat_word_len code"
  shows "instruction_word_offsets code' = instruction_word_offsets code"
proof (rule nth_equalityI)
  show "length (instruction_word_offsets code') = length (instruction_word_offsets code)"
    using map_eq_imp_length_eq [OF assms] by simp
qed (use map_eq_imp_length_eq [OF assms] nat_offset_cong [OF assms] in
  \<open>simp add: nth_instruction_word_offsets\<close>)

lemma jump_index_cong:
  assumes "map nat_word_len code' = map nat_word_len code" "code' ! j = code ! j"
  shows "jump_index code' j = jump_index code j"
  using map_eq_imp_length_eq [OF assms(1)] assms(2)
  by (simp add: jump_target_instruction_index_def offsets_cong [OF assms(1)] get_def)

lemma narrow_i16:
  assumes "i16_try_from_i32 x = Some d"
  shows "i32_from_i16 d = x"
proof -
  from assms have x: "- (2 ^ 15) \<le> sint x" "sint x < 2 ^ 15" "d = ucast x"
    by (auto simp: i16_try_from_i32_def split: if_splits)
  have "sint d = signed_take_bit 15 (uint x)"
    unfolding x(3) by (simp add: signed_ucast_eq)
  also have "\<dots> = signed_take_bit 15 (sint x)"
    by (simp add: sint_uint signed_take_bit_signed_take_bit)
  also have "\<dots> = sint x" using x(1,2) by (simp add: signed_take_bit_int_eq_self_iff)
  finally show ?thesis by (metis i32_from_i16_def of_int_sint scast_id)
qed

lemma patch_jump_fields [simp]:
  "i_opcode (patch_jump_d_instruction i d) = i_opcode i"
  "i_a (patch_jump_d_instruction i d) = i_a i"
  "i_d (patch_jump_d_instruction i d) = d"
  "i_aux (patch_jump_d_instruction i d) = i_aux i"
  "is_header_consistent (patch_jump_d_instruction i d)"
  by (simp_all add: patch_jump_d_instruction_def low_high_bytes i_d_halves)

lemma nat_word_len_patch [simp]: "nat_word_len (patch_jump_d_instruction i d) = nat_word_len i"
  by (simp add: nat_word_len_def)

text \<open>A patched jump goes where it was patched to.\<close>

lemma jump_index_patched:
  assumes "nat_words code < 2 ^ 32" "k < length code" "t < length code"
    "is_foldable_jump_d (i_opcode (code ! k))"
    "i16_try_from_i32 (instruction_word_offsets code ! t - instruction_word_offsets code ! k - 1) = Some d"
  shows "jump_index (code[k := patch_jump_d_instruction (code ! k) d]) k = Some t"
proof -
  let ?code = "code[k := patch_jump_d_instruction (code ! k) d]"
  have len: "map nat_word_len ?code = map nat_word_len code"
    using assms(2) by (simp add: map_word_len_update)
  have off: "jump_offset_words (patch_jump_d_instruction (code ! k) d) = Some (i32_from_i16 d)"
    using assms(4) by (simp add: is_foldable_jump_d_def jump_offset_words_def)
  show ?thesis
    using assms(1,2,3) narrow_i16 [OF assms(5)] off nat_offset_cong [OF len]
    by (simp add: jump_index_iff len jump_target_word_def nth_instruction_word_offsets)
qed

lemma foldable_code_update:
  assumes "foldable_code code" "k < length code" "nat_word_len i = nat_word_len (code ! k)"
    "i_opcode i \<in> {Op_Jump, Op_Return} \<Longrightarrow> i_aux i = None"
  shows "foldable_code (code[k := i])"
  using assms set_update_subset_insert [of code k i]
  by (auto simp: foldable_code_def map_word_len_update)

text \<open>What control reaches carries over when one instruction is replaced.\<close>

lemma lands_transfer:
  assumes "lands code t out" and len: "length code' = length code"
    and same: "\<And>j. j \<noteq> k \<Longrightarrow> code' ! j = code ! j \<and> jump_index code' j = jump_index code j"
    and ret: "i_opcode (code ! k) = Op_Return \<Longrightarrow> lands code' k (Returns (code ! k))"
    and run: "i_opcode (code ! k) \<notin> {Op_Return, Op_Jump} \<Longrightarrow> lands code' k (Runs k)"
    and stuck: "i_opcode (code ! k) = Op_Jump \<Longrightarrow> jump_index code k = None \<Longrightarrow> lands code' k (Runs k)"
    and hop: "\<And>t' out. i_opcode (code ! k) = Op_Jump \<Longrightarrow> jump_index code k = Some t' \<Longrightarrow>
      lands code t' out \<Longrightarrow> lands code' t' out \<Longrightarrow> lands code' k out"
  shows "lands code' t out"
  using assms(1)
proof (induction rule: lands.induct)
  case (lands_return t)
  then show ?case using ret same len lands.lands_return [of t code'] by (cases "t = k") auto
next
  case (lands_run t)
  then show ?case using run same len lands.lands_run [of t code'] by (cases "t = k") auto
next
  case (lands_stuck t)
  then show ?case using stuck same len lands.lands_stuck [of t code'] by (cases "t = k") auto
next
  case (lands_hop t t' out)
  then show ?case using hop same len lands.lands_hop [of t code' t'] by (cases "t = k") auto
qed

lemma forward_transfer:
  assumes "forward code t t'" "foldable_code code" "k < t \<or> \<not> 0 \<le> sint (i_d (code ! k))"
    and same: "\<And>j. j \<noteq> k \<Longrightarrow> code' ! j = code ! j \<and> jump_index code' j = jump_index code j"
  shows "forward code' t t'"
  using assms(1,3)
proof (induction rule: forward.induct)
  case (forward_refl t)
  show ?case by (rule forward.forward_refl)
next
  case (forward_hop t t2 t3)
  have "t < t2" using forward_jump_later [OF assms(2)] forward_hop by blast
  moreover have "t \<noteq> k" using forward_hop by auto
  ultimately show ?case
    using forward_hop same [of t] forward.forward_hop [of code' t t2 t3] by auto
qed

section \<open>The pass preserves control flow\<close>

text \<open>
  Instruction \<open>k\<close> before and after the pass: an unconditional jump stays one or becomes a return;
  any other instruction keeps its opcode, A and AUX operands and reaches what it reached before.
\<close>

definition same_instruction :: "instruction list \<Rightarrow> instruction list \<Rightarrow> nat \<Rightarrow> bool" where
  "same_instruction code code' k \<longleftrightarrow>
     (if i_opcode (code ! k) = Op_Jump then i_opcode (code' ! k) \<in> {Op_Jump, Op_Return}
      else i_opcode (code' ! k) = i_opcode (code ! k) \<and> i_a (code' ! k) = i_a (code ! k)
        \<and> i_aux (code' ! k) = i_aux (code ! k)
        \<and> (jump_index code' k = None \<longleftrightarrow> jump_index code k = None)
        \<and> (\<forall>out. reaches code' k out \<longleftrightarrow> reaches code k out)
        \<and> (\<not> is_foldable_jump_d (i_opcode (code ! k)) \<longrightarrow> code' ! k = code ! k))"

definition same_flow :: "instruction list \<Rightarrow> instruction list \<Rightarrow> bool" where
  "same_flow code code' \<longleftrightarrow>
     map nat_word_len code' = map nat_word_len code
     \<and> (\<forall>t out. lands code' t out \<longleftrightarrow> lands code t out)
     \<and> (\<forall>k < length code. same_instruction code code' k)"

lemma same_flow_refl: "same_flow code code"
  by (simp add: same_flow_def same_instruction_def)

lemma same_flow_length: "same_flow code code' \<Longrightarrow> length code' = length code"
  by (auto simp: same_flow_def dest: map_eq_imp_length_eq)

text \<open>A return is never turned back into a jump: its instruction is all that control reaches.\<close>

lemma same_flow_return:
  assumes "same_flow code code'" "k < length code" "i_opcode (code ! k) = Op_Return"
  shows "code' ! k = code ! k"
  using assms by (auto simp: same_flow_def same_instruction_def is_foldable_jump_d_def)

lemma same_flow_trans:
  assumes "same_flow code code'" "same_flow code' code''"
  shows "same_flow code code''"
proof -
  have "same_instruction code code'' k" if k: "k < length code" for k
  proof -
    have s: "same_instruction code code' k" "same_instruction code' code'' k"
      using assms k same_flow_length [OF assms(1)] by (auto simp: same_flow_def)
    moreover have "code'' ! k = code' ! k" if "i_opcode (code' ! k) = Op_Return"
      using same_flow_return [OF assms(2)] that k same_flow_length [OF assms(1)] by simp
    ultimately show ?thesis by (auto simp: same_instruction_def split: if_splits)
  qed
  then show ?thesis using assms by (auto simp: same_flow_def)
qed

lemma same_flow_update:
  assumes "k < length code" "nat_word_len i = nat_word_len (code ! k)"
    "\<And>t out. lands (code[k := i]) t out \<longleftrightarrow> lands code t out"
    "same_instruction code (code[k := i]) k"
  shows "same_flow code (code[k := i])"
proof -
  have len: "map nat_word_len (code[k := i]) = map nat_word_len code"
    using assms(1,2) by (rule map_word_len_update)
  have "same_instruction code (code[k := i]) j" if "j < length code" for j
  proof (cases "j = k")
    case False
    then have "code[k := i] ! j = code ! j" by simp
    with jump_index_cong [OF len this] assms(3) show ?thesis
      by (simp add: same_instruction_def reaches_def)
  qed (use assms(4) in simp)
  with len assms(3) show ?thesis by (simp add: same_flow_def)
qed

text \<open>The three ways in which the pass replaces an instruction.\<close>

lemma update_same:
  assumes "k < length code" "nat_word_len i = nat_word_len (code ! k)" "j \<noteq> k"
  shows "code[k := i] ! j = code ! j \<and> jump_index (code[k := i]) j = jump_index code j"
  using jump_index_cong [OF map_word_len_update [OF assms(1,2)]] assms(3) by simp

lemma retarget_branch:
  assumes code: "foldable_code code" "k < length code"
    and op: "i_opcode (code ! k) \<notin> {Op_Jump, Op_Return}"
    and i: "i_opcode i = i_opcode (code ! k)" "i_a i = i_a (code ! k)" "i_aux i = i_aux (code ! k)"
      "is_foldable_jump_d (i_opcode i)"
    and j: "jump_index code k = Some t" "jump_index (code[k := i]) k = Some t'"
    and same: "\<And>out. lands code t' out \<longleftrightarrow> lands code t out"
  shows "same_flow code (code[k := i])"
proof (rule same_flow_update [OF code(2)])
  let ?code = "code[k := i]"
  show len: "nat_word_len i = nat_word_len (code ! k)" by (simp add: nat_word_len_def i)
  note other = update_same [OF code(2) len]
  have run: "lands ?code k (Runs k)" "lands code k (Runs k)"
    using op code(2) i by (auto intro!: lands_run)
  show lands: "lands ?code t out \<longleftrightarrow> lands code t out" for t out
  proof
    assume "lands ?code t out"
    then show "lands code t out"
      by (rule lands_transfer [where k = k]) (use op code(2) i other run in auto)
  next
    assume "lands code t out"
    then show "lands ?code t out"
      by (rule lands_transfer [where k = k]) (use op code(2) i other run in auto)
  qed
  show "same_instruction code ?code k"
    using op code(2) i j lands same by (simp add: same_instruction_def reaches_def)
qed

lemma jump_to_return:
  assumes code: "foldable_code code" "k < length code"
    and op: "i_opcode (code ! k) = Op_Jump"
    and j: "jump_index code k = Some t" "forward code t t'" "t' < length code"
      "i_opcode (code ! t') = Op_Return"
  shows "same_flow code (code[k := code ! t'])"
proof (rule same_flow_update [OF code(2)])
  let ?code = "code[k := code ! t']"
  have aux: "i_aux (code ! k) = None" "i_aux (code ! t') = None"
    using code op j by (auto simp: foldable_code_def)
  then show len: "nat_word_len (code ! t') = nat_word_len (code ! k)" by (simp add: nat_word_len_def)
  note other = update_same [OF code(2) len]
  have lands_t: "lands code t out \<longleftrightarrow> out = Returns (code ! t')" for out
    using forward_lands [OF j(2) foldable_words_32 [OF code(1)]] lands_at_return [OF j(3,4)] by simp
  have k': "lands ?code k (Returns (code ! t'))"
    using lands_return [of k ?code] code(2) j(4) by simp
  have k: "lands code k (Returns (code ! t'))"
    using lands_jump [OF code(2) op j(1)] lands_t by simp
  show "lands ?code s out \<longleftrightarrow> lands code s out" for s out
  proof
    assume "lands ?code s out"
    then show "lands code s out"
      by (rule lands_transfer [where k = k]) (use code(2) j(4) other k in auto)
  next
    assume "lands code s out"
    then show "lands ?code s out"
      by (rule lands_transfer [where k = k]) (use op j(1) other lands_t k' in auto)
  qed
  show "same_instruction code ?code k"
    using op code(2) j(4) by (simp add: same_instruction_def)
qed

lemma retarget_jump:
  assumes code: "foldable_code code" "k < length code"
    and op: "i_opcode (code ! k) = Op_Jump" "i_opcode i = Op_Jump" "i_aux i = i_aux (code ! k)"
    and j: "jump_index code k = Some t" "forward code t t'" "jump_index (code[k := i]) k = Some t'"
  shows "same_flow code (code[k := i])"
proof (rule same_flow_update [OF code(2)])
  let ?code = "code[k := i]"
  show len: "nat_word_len i = nat_word_len (code ! k)" by (simp add: nat_word_len_def op)
  note other = update_same [OF code(2) len]
  have words: "nat_words ?code < 2 ^ 32"
    using foldable_words_32 [OF code(1)] map_word_len_update [OF code(2) len] by simp
  have "k < t \<or> \<not> 0 \<le> sint (i_d (code ! k))"
    using forward_jump_later [OF code(1) j(1) op(1)] by blast
  then have chain: "lands ?code t out \<longleftrightarrow> lands ?code t' out" for out
    using forward_transfer [OF j(2) code(1) _ other] forward_lands [OF _ words] by blast
  have jump: "lands ?code k out \<longleftrightarrow> lands ?code t' out" for out
    by (rule lands_jump) (use code(2) op j(3) in simp_all)
  show "lands ?code s out \<longleftrightarrow> lands code s out" for s out
  proof
    assume "lands ?code s out"
    then show "lands code s out"
    proof (rule lands_transfer [where k = k])
      fix t2 out assume "jump_index ?code k = Some t2" "lands code t2 out"
      then show "lands code k out"
        using j forward_lands [OF j(2) foldable_words_32 [OF code(1)]] lands_jump [OF code(2) op(1) j(1)] by simp
    qed (use code(2) op j(3) other in auto)
  next
    assume "lands code s out"
    then show "lands ?code s out"
      by (rule lands_transfer [where k = k]) (use op(1) j(1) other chain jump in auto)
  qed
  show "same_instruction code ?code k"
    using op code(2) by (simp add: same_instruction_def)
qed

text \<open>One round of the pass.\<close>

lemma chosen_target:
  assumes code: "foldable_code code" "k < length code" "jump_index code k = Some t0"
    and r: "(if i_opcode (code ! k) \<noteq> Op_Jump \<and> i_opcode (code ! t1) = Op_Return
             then skip_equal_returns code (instruction_word_offsets code) (instruction_word_offsets code ! t1) t1
             else (instruction_word_offsets code ! t1, t1)) = (w, t)"
    and t1: "t1 < length code" "forward code t0 t1"
  shows "w = instruction_word_offsets code ! t" "t < length code"
    "i_opcode (code ! k) = Op_Jump \<Longrightarrow> t = t1" "lands code t out \<longleftrightarrow> lands code t0 out"
proof -
  obtain t2 where t2: "skip_equal_returns code (instruction_word_offsets code) (instruction_word_offsets code ! t1) t1
      = (instruction_word_offsets code ! t2, t2)" "t2 < length code" "code ! t2 = code ! t1"
    using skip_equal_returns_run [OF t1(1)] by blast
  with r t1 show "w = instruction_word_offsets code ! t" "t < length code"
    "i_opcode (code ! k) = Op_Jump \<Longrightarrow> t = t1"
    by (auto split: if_splits)
  have "lands code t out \<longleftrightarrow> lands code t1 out"
  proof (cases "t = t1")
    case False
    then have "t = t2" "i_opcode (code ! t1) = Op_Return" using r t2 by (auto split: if_splits)
    then show ?thesis
      using lands_at_return [OF t2(2)] lands_at_return [OF t1(1)] t2(3) by simp
  qed simp
  then show "lands code t out \<longleftrightarrow> lands code t0 out"
    using forward_lands [OF t1(2) foldable_words_32 [OF code(1)]] by simp
qed

lemma fold_jump_at_cases:
  assumes code: "foldable_code code" "k < length code"
  shows "\<exists>code'. fold_jump_at (instruction_word_offsets code) k code = Some code' \<and>
    (code' = code
     \<or> (\<exists>t. t < length code \<and> i_opcode (code ! k) = Op_Jump \<and> i_opcode (code ! t) = Op_Return
           \<and> code' = code[k := code ! t] \<and> same_flow code code')
     \<or> (\<exists>d. code' = code[k := patch_jump_d_instruction (code ! k) d] \<and> same_flow code code'))"
proof (cases "is_foldable_jump_d (i_opcode (code ! k)) \<and> jump_index code k \<noteq> None")
  case False
  then show ?thesis
    using jump_destination_None_iff [OF code] by (auto simp: fold_jump_at_def split: option.splits)
next
  case True
  let ?os = "instruction_word_offsets code"
  obtain t0 where t0: "jump_index code k = Some t0" using True by auto
  then have dest: "jump_destination code ?os k = Some (?os ! t0, t0)"
    using jump_destination_iff [OF code] by simp
  have "t0 < length code" using jump_index_less [OF t0 foldable_words_32 [OF code(1)]] by simp
  from follow_jumps_ends [OF code(1) this] obtain t1 where
    t1: "follow_jumps code ?os (?os ! t0) t0 = Some (?os ! t1, t1)" "t1 < length code" "forward code t0 t1"
    by blast
  obtain w t where wt: "(if i_opcode (code ! k) \<noteq> Op_Jump \<and> i_opcode (code ! t1) = Op_Return
      then skip_equal_returns code ?os (?os ! t1) t1 else (?os ! t1, t1)) = (w, t)"
    by (meson surj_pair)
  note t = chosen_target [OF code t0 wt t1(2,3)]
  let ?fold = "fold_jump_at ?os k code"
  have fold: "?fold = (if i_opcode (code ! k) = Op_Jump \<and> i_opcode (code ! t) = Op_Return
      then Some (code[k := code ! t])
      else case i16_try_from_i32 (?os ! t - ?os ! k - 1) of
        Some d \<Rightarrow> Some (code[k := patch_jump_d_instruction (code ! k) d]) | None \<Rightarrow> Some code)"
    using True dest t1(1) wt t(1) by (simp add: fold_jump_at_def)
  show ?thesis
  proof (cases "i_opcode (code ! k) = Op_Jump \<and> i_opcode (code ! t) = Op_Return")
    case True
    then have "same_flow code (code[k := code ! t])"
      using jump_to_return [OF code _ t0 t1(3) t1(2)] t(3) by simp
    then show ?thesis using fold True t(2) by auto
  next
    case no_return: False
    show ?thesis
    proof (cases "i16_try_from_i32 (?os ! t - ?os ! k - 1)")
      case None
      then show ?thesis using fold no_return by simp
    next
      case (Some d)
      let ?i = "patch_jump_d_instruction (code ! k) d"
      have idx: "jump_index (code[k := ?i]) k = Some t"
        using jump_index_patched [OF foldable_words_32 [OF code(1)] code(2) t(2) _ Some] True by simp
      have "same_flow code (code[k := ?i])"
      proof (cases "i_opcode (code ! k) = Op_Jump")
        case True
        then show ?thesis
          using retarget_jump [OF code True _ _ t0 t1(3)] idx t(3) by simp
      next
        case False
        moreover have "i_opcode (code ! k) \<noteq> Op_Return"
          using True by (auto simp: is_foldable_jump_d_def)
        ultimately show ?thesis
          using retarget_branch [OF code _ _ _ _ _ t0 idx t(4)] True by simp
      qed
      then show ?thesis using fold no_return Some by auto
    qed
  qed
qed

text \<open>
  Every instruction of the result is one of the input, possibly with another jump offset, so the
  pass keeps whatever does not depend on jump offsets.
\<close>

definition only_offsets :: "instruction list \<Rightarrow> instruction list \<Rightarrow> bool" where
  "only_offsets code code' \<longleftrightarrow>
     (\<forall>i \<in> set code'. \<exists>j \<in> set code. i = j \<or> (\<exists>d. i = patch_jump_d_instruction j d))"

lemma only_offsets_refl: "only_offsets code code"
  by (auto simp: only_offsets_def)

lemma patch_patch: "patch_jump_d_instruction (patch_jump_d_instruction i d) d' = patch_jump_d_instruction i d'"
  by (simp add: patch_jump_d_instruction_def)

lemma only_offsets_trans: "only_offsets code code' \<Longrightarrow> only_offsets code' code'' \<Longrightarrow> only_offsets code code''"
  unfolding only_offsets_def by (metis patch_patch)

lemma only_offsets_update:
  assumes "i \<in> set code \<or> (\<exists>j \<in> set code. \<exists>d. i = patch_jump_d_instruction j d)"
  shows "only_offsets code (code[k := i])"
  using assms set_update_subset_insert [of code k i] by (auto simp: only_offsets_def)

lemma only_offsets_all:
  assumes "only_offsets code code'" "\<forall>i \<in> set code. P i" "\<And>i d. P i \<Longrightarrow> P (patch_jump_d_instruction i d)"
  shows "\<forall>i \<in> set code'. P i"
  using assms unfolding only_offsets_def by metis

lemma fold_jump_at_step:
  assumes code: "foldable_code code" "k < length code"
  shows "\<exists>code'. fold_jump_at (instruction_word_offsets code) k code = Some code' \<and>
    same_flow code code' \<and> foldable_code code' \<and> only_offsets code code'"
proof -
  from fold_jump_at_cases [OF code] obtain code' where
    code': "fold_jump_at (instruction_word_offsets code) k code = Some code'" and
    "code' = code \<or> (\<exists>t. t < length code \<and> i_opcode (code ! k) = Op_Jump \<and> i_opcode (code ! t) = Op_Return
           \<and> code' = code[k := code ! t] \<and> same_flow code code')
     \<or> (\<exists>d. code' = code[k := patch_jump_d_instruction (code ! k) d] \<and> same_flow code code')"
    by blast
  then consider "code' = code"
    | t where "t < length code" "code' = code[k := code ! t]" "same_flow code code'"
    | d where "code' = code[k := patch_jump_d_instruction (code ! k) d]" "same_flow code code'"
    by blast
  then have flow: "same_flow code code'" and only: "only_offsets code code'"
    using code(2) by (cases; auto simp: same_flow_refl only_offsets_refl intro!: only_offsets_update)+
  have "\<forall>i \<in> set code'. i_opcode i \<in> {Op_Jump, Op_Return} \<longrightarrow> i_aux i = None"
    using code(1) by (intro only_offsets_all [OF only]) (auto simp: foldable_code_def)
  then have "foldable_code code'"
    using flow code(1) by (simp add: foldable_code_def same_flow_def)
  with code' flow only show ?thesis by blast
qed

lemma fold_jumps_from_steps:
  assumes "foldable_code code" "k + n \<le> length code"
  shows "\<exists>code'. fold_jumps_from (instruction_word_offsets code) k n code = Some code' \<and>
    same_flow code code' \<and> only_offsets code code'"
  using assms
proof (induction n arbitrary: k code)
  case 0
  then show ?case by (simp add: same_flow_refl only_offsets_refl)
next
  case (Suc n)
  then obtain code1 where c1: "fold_jump_at (instruction_word_offsets code) k code = Some code1"
    "same_flow code code1" "foldable_code code1" "only_offsets code code1"
    using fold_jump_at_step [of code k] by auto
  have os: "instruction_word_offsets code1 = instruction_word_offsets code"
    using c1(2) by (intro offsets_cong) (simp add: same_flow_def)
  from Suc.IH [OF c1(3), of "Suc k"] obtain code2 where
    "fold_jumps_from (instruction_word_offsets code) (Suc k) n code1 = Some code2"
    "same_flow code1 code2" "only_offsets code1 code2"
    using Suc.prems same_flow_length [OF c1(2)] by (auto simp: os)
  then show ?case
    using c1 by (auto intro: same_flow_trans only_offsets_trans)
qed

lemma fold_jumps_flow:
  assumes "foldable_code (bw_code w)"
  shows "\<exists>code'. fold_jumps w = Some (w\<lparr>bw_code := code'\<rparr>) \<and> same_flow (bw_code w) code'
    \<and> only_offsets (bw_code w) code'"
  using fold_jumps_from_steps [OF assms, of 0 "length (bw_code w)"] by (auto simp: fold_jumps_def)

section \<open>Properties of jump folding\<close>

text \<open>
  C16: Jump folding ends and preserves control flow. On code of less than \<open>2 ^ 31\<close> words whose jumps and
  returns have no AUX word, the pass returns; it changes nothing but the code, keeps every word
  offset, control that enters at any instruction runs into the same instruction or the same return
  as before, and every instruction that is not an unconditional jump keeps its opcode, A and AUX
  operands and reaches what it reached before.
\<close>

theorem fold_jumps_preserves_flow:
  assumes "foldable_code (bw_code w)"
  shows "\<exists>code'. fold_jumps w = Some (w\<lparr>bw_code := code'\<rparr>)
     \<and> instruction_word_offsets code' = instruction_word_offsets (bw_code w)
     \<and> (\<forall>t out. lands code' t out \<longleftrightarrow> lands (bw_code w) t out)
     \<and> (\<forall>k < length (bw_code w). same_instruction (bw_code w) code' k)"
proof -
  obtain code' where code': "fold_jumps w = Some (w\<lparr>bw_code := code'\<rparr>)" "same_flow (bw_code w) code'"
    using fold_jumps_flow [OF assms] by blast
  moreover have "instruction_word_offsets code' = instruction_word_offsets (bw_code w)"
    using code'(2) by (intro offsets_cong) (simp add: same_flow_def)
  ultimately show ?thesis unfolding same_flow_def by blast
qed

text \<open>The code of the crate's own test: a jump over a jump to a return.\<close>

definition chain_code :: "instruction list" where
  "chain_code =
     [ad Op_JumpIfNot 1 2, abc Op_LoadN 0 1 0, ad Op_Jump 0 0, ad Op_Jump 0 1, abc Op_LoadN 0 0 0,
      abc Op_Return 0 2 0]"

lemma chain_code_foldable: "foldable_code chain_code"
  by (simp add: foldable_code_def chain_code_def nat_word_len_def)

lemma chain_code_jumps: "jump_index chain_code 2 = Some 3" "jump_index chain_code 3 = Some 5"
proof -
  have small: "nat_words chain_code < 2 ^ 32" by (simp add: chain_code_def nat_word_len_def)
  show "jump_index chain_code 2 = Some 3" "jump_index chain_code 3 = Some 5"
    unfolding jump_index_iff [OF small]
    by (simp_all add: chain_code_def nat_offset_def nat_word_len_def jump_target_word_def
        jump_offset_words_def i32_from_i16_def eval_nat_numeral)
qed

lemma chain_code_lands: "lands chain_code 2 (Returns (abc Op_Return 0 2 0))"
proof -
  have "lands chain_code 5 (Returns (abc Op_Return 0 2 0))"
    using lands_return [of 5 chain_code] by (simp add: chain_code_def)
  then have "lands chain_code 3 (Returns (abc Op_Return 0 2 0))"
    using chain_code_jumps(2) by (intro lands_hop [of 3]) (simp_all add: chain_code_def)
  then show ?thesis
    using chain_code_jumps(1) by (intro lands_hop [of 2]) (simp_all add: chain_code_def)
qed

theorem fold_jumps_preserves_flow_witness:
  "\<exists>code'. fold_jumps (proto_work_new\<lparr>bw_code := chain_code\<rparr>)
       = Some (proto_work_new\<lparr>bw_code := chain_code\<rparr>\<lparr>bw_code := code'\<rparr>)
     \<and> lands code' 2 (Returns (abc Op_Return 0 2 0)) \<and> same_instruction chain_code code' 0"
  using fold_jumps_preserves_flow [of "proto_work_new\<lparr>bw_code := chain_code\<rparr>"]
    chain_code_foldable chain_code_lands
  by (auto simp: chain_code_def)

lemma bisect_unfold:
  "bisect xs x lo hi =
     (if hi \<le> lo then None
      else if xs ! ((lo + hi) div 2) = x then Some ((lo + hi) div 2)
      else if xs ! ((lo + hi) div 2) < x then bisect xs x ((lo + hi) div 2 + 1) hi
      else bisect xs x lo ((lo + hi) div 2))"
  by (subst bisect.simps) (simp add: Let_def)

lemmas run_fold_jumps =
  fold_jumps_def fold_jump_at_def is_foldable_jump_d_def jump_destination_def jump_target_word_def
  jump_offset_words_def i32_from_i16_def instruction_index_for_word_def bisect_unfold follow_jumps.simps
  skip_equal_returns.simps i16_try_from_i32_def patch_jump_d_instruction_def
  instruction_word_offsets_def word_len_def

text \<open>
  The pass does fold. On the code of the crate's test the conditional jump goes straight to the
  return, and both unconditional jumps become copies of it.
\<close>

theorem fold_jumps_folds_chain:
  "map_option bw_code (fold_jumps (proto_work_new\<lparr>bw_code := chain_code\<rparr>)) =
   Some [ad Op_JumpIfNot 1 4, abc Op_LoadN 0 1 0, abc Op_Return 0 2 0, abc Op_Return 0 2 0,
     abc Op_LoadN 0 0 0, abc Op_Return 0 2 0]"
  by (simp add: run_fold_jumps chain_code_def eval_nat_numeral(3) [symmetric])

text \<open>
  The bisection of the word offsets finds an instruction exactly when it starts at the given word,
  in code of fewer than \<open>2 ^ 32\<close> words.
\<close>

theorem binary_search_exact:
  assumes "nat_words code < 2 ^ 32"
  shows "instruction_index_for_word (instruction_word_offsets code) word =
    position (\<lambda>offset. offset = word) (instruction_word_offsets code)"
proof -
  let ?os = "instruction_word_offsets code"
  have "position (\<lambda>w. w = word) ?os = Some k \<longleftrightarrow> k < length code \<and> ?os ! k = word" for k
    using position_distinct [OF distinct_word_offsets [OF assms], of k]
    by (auto simp: position_Some)
  then have "instruction_index_for_word ?os word = Some k \<longleftrightarrow> position (\<lambda>w. w = word) ?os = Some k" for k
    using instruction_index_iff [OF assms] by simp
  then show ?thesis by (metis option.exhaust)
qed

theorem binary_search_exact_witness:
  "instruction_index_for_word (instruction_word_offsets chain_code) 4 = Some 4"
proof -
  have small: "nat_words chain_code < 2 ^ 32" by (simp add: chain_code_def nat_word_len_def)
  have os: "instruction_word_offsets chain_code = [0, 1, 2, 3, 4, 5]"
    by (simp add: chain_code_def instruction_word_offsets_def word_len_def)
  show ?thesis
    using binary_search_exact [OF small, of 4] by (simp add: os)
qed

end
