(* ===== verification/Builder_Spec.thy ===== *)
theory Builder_Spec
  imports Builder Jump_Folding Codec
begin

text \<open>
  What the chunk builder promises its callers. The string table and the constant pools are interning
  tables, stated once as a locale and interpreted on both. A run of the builder is a sequence of
  operations from \<^verbatim>\<open>ChunkBuilder::new\<close>, with a stack of suspended protos for nested functions;
  an invariant of every run ties the word offsets and lines to the code, and what \<^verbatim>\<open>finish\<close> returns
  is a chunk the codec writes and reads back.
\<close>

section \<open>Interning tables\<close>

text \<open>
  A table of items with a map from an item to its number, where numbers start at \<open>base\<close>. The provider
  gives the number of a known item and leaves the table alone, or appends the item.
\<close>

definition item_id :: "nat \<Rightarrow> nat \<Rightarrow> u32" where
  "item_id base k = of_nat (base + k)"

lemma unat_item_id: "base + k < 2 ^ 32 \<Longrightarrow> unat (item_id base k) = base + k"
  unfolding item_id_def by (rule unat_of_nat_eq) simp

definition interned :: "nat \<Rightarrow> 'a list \<Rightarrow> ('a \<rightharpoonup> u32) \<Rightarrow> bool" where
  "interned base items ids \<longleftrightarrow>
     (\<forall>x n. ids x = Some n \<longleftrightarrow> (\<exists>k < length items. items ! k = x \<and> n = item_id base k))"

locale interner =
  fixes base :: nat
    and key :: "'k \<Rightarrow> 'a"
    and items :: "'s \<Rightarrow> 'a list"
    and ids :: "'s \<Rightarrow> 'a \<rightharpoonup> u32"
    and intern :: "'k \<Rightarrow> 's \<Rightarrow> u32 \<times> 's"
  assumes known: "ids s (key x) = Some n \<Longrightarrow> intern x s = (n, s)"
    and fresh_id: "ids s (key x) = None \<Longrightarrow> fst (intern x s) = item_id base (length (items s))"
    and fresh_items: "ids s (key x) = None \<Longrightarrow> items (snd (intern x s)) = items s @ [key x]"
    and fresh_ids: "ids s (key x) = None \<Longrightarrow>
      ids (snd (intern x s)) = (ids s)(key x \<mapsto> item_id base (length (items s)))"
begin

abbreviation tracked :: "'s \<Rightarrow> bool" where
  "tracked s \<equiv> interned base (items s) (ids s)"

lemma tracked_None: "tracked s \<Longrightarrow> ids s x = None \<longleftrightarrow> x \<notin> set (items s)"
  unfolding interned_def by (metis in_set_conv_nth option.exhaust option.distinct(1))

lemma intern_tracked:
  assumes "tracked s"
  shows "tracked (snd (intern x s))"
proof (cases "ids s (key x)")
  case None
  then have new: "key x \<notin> set (items s)" using tracked_None [OF assms] by simp
  have "(\<exists>k < length (items s @ [key x]). (items s @ [key x]) ! k = y \<and> n = item_id base k) \<longleftrightarrow>
      (if y = key x then n = item_id base (length (items s))
       else \<exists>k < length (items s). items s ! k = y \<and> n = item_id base k)" for y n
    using new by (auto simp: less_Suc_eq nth_append in_set_conv_nth)
  then show ?thesis
    using assms by (auto simp: interned_def fresh_items [OF None] fresh_ids [OF None])
next
  case (Some n)
  then show ?thesis using assms known by simp
qed

lemma intern_grows: "\<exists>ys. items (snd (intern x s)) = items s @ ys"
  by (cases "ids s (key x)") (auto simp: fresh_items known)

lemma intern_lookup:
  assumes "tracked s" "base + length (items s) < 2 ^ 32"
  shows "\<exists>k < length (items (snd (intern x s))). unat (fst (intern x s)) = base + k
    \<and> items (snd (intern x s)) ! k = key x"
proof (cases "ids s (key x)")
  case None
  then show ?thesis
    using assms(2) by (auto simp: fresh_items fresh_id unat_item_id nth_append intro!: exI [of _ "length (items s)"])
next
  case (Some n)
  then obtain k where "k < length (items s)" "items s ! k = key x" "n = item_id base k"
    using assms(1) unfolding interned_def by blast
  then show ?thesis using assms(2) known [OF Some] by (auto simp: unat_item_id intro!: exI [of _ k])
qed

lemma intern_again:
  assumes "tracked s"
  shows "intern x (snd (intern x s)) = (fst (intern x s), snd (intern x s))"
  by (cases "ids s (key x)") (auto simp: known fresh_ids fresh_id intro!: known)

lemma tracked_nth: "tracked s \<Longrightarrow> k < length (items s) \<Longrightarrow> ids s (items s ! k) = Some (item_id base k)"
  by (auto simp: interned_def)

lemma tracked_distinct:
  assumes "tracked s" "base + length (items s) < 2 ^ 32"
  shows "distinct (items s)"
  unfolding distinct_conv_nth
proof (intro allI impI notI)
  fix i j assume ij: "i < length (items s)" "j < length (items s)" "i \<noteq> j" "items s ! i = items s ! j"
  then have "unat (item_id base i) = unat (item_id base j)"
    using tracked_nth [OF assms(1)] by (metis option.inject)
  with ij assms(2) show False by (simp add: unat_item_id)
qed

end

interpretation string_table: interner 1 decode_ast_string_bytes cb_strings cb_string_ids add_string
  by unfold_locales (simp_all add: add_string_def Let_def item_id_def)

interpretation constant_pool: interner 0 "\<lambda>k. k" "\<lambda>b. bw_constants (cb_current b)"
  "\<lambda>b. bw_constant_ids (cb_current b)" add_constant
  by unfold_locales (simp_all add: add_constant_def Let_def item_id_def)

section \<open>What one proto under construction satisfies\<close>

text \<open>
  The bookkeeping of a proto: word offsets and the next offset follow from the code, there is one line
  per code word, constants are interned, and the code is what the codec can write,
  with \<open>slack\<close> words left below the limit of a function.
\<close>

definition work_ok :: "nat \<Rightarrow> proto_work \<Rightarrow> bool" where
  "work_ok slack w \<longleftrightarrow>
     bw_code_word_offsets w = instruction_word_offsets (bw_code w)
     \<and> bw_next_code_word_offset w = code_word_count (bw_code w)
     \<and> length (bw_code_lines w) = nat_words (bw_code w)
     \<and> interned 0 (bw_constants w) (bw_constant_ids w)
     \<and> distinct (bw_child_protos w)
     \<and> (\<forall>i \<in> set (bw_code w). fits_instruction i)
     \<and> nat_words (bw_code w) + slack < 2 ^ 31
     \<and> (\<forall>l \<in> set (bw_code_lines w). 0 \<le> sint l) \<and> 0 \<le> sint (bw_current_line w)
     \<and> (\<forall>l. bw_implicit_return_line_base w = Some l \<longrightarrow> 0 \<le> sint l)"

lemma word_offsets_from_append:
  "word_offsets_from n (xs @ ys) = word_offsets_from n xs @ word_offsets_from (n + sum_list (map word_len xs)) ys"
  by (induction xs arbitrary: n) (simp_all add: add.assoc)

lemma instruction_word_offsets_snoc:
  "instruction_word_offsets (code @ [i]) = instruction_word_offsets code @ [code_word_count code]"
  by (simp add: instruction_word_offsets_def word_offsets_from_append code_word_count_def)

lemma code_word_count_snoc: "code_word_count (code @ [i]) = code_word_count code + word_len i"
  by (simp add: code_word_count_def)

lemma code_word_count_cong:
  "map nat_word_len code' = map nat_word_len code \<Longrightarrow> code_word_count code' = code_word_count code"
  by (simp add: code_word_count_of_nat)

lemma new_work_ok: "work_ok 2 proto_work_new" "work_ok 2 new_function"
  by (simp_all add: work_ok_def proto_work_new_def new_function_def proto_work_default_def interned_def
      instruction_word_offsets_def code_word_count_def)

text \<open>Appending an instruction with its line.\<close>

lemma emit_at_line_ok:
  assumes "work_ok slack (cb_current b)" "emit_at_line i line b = (n, b')" "fits_instruction i" "0 \<le> sint line"
    "nat_words (current_code b) + nat_word_len i + slack < 2 ^ 31"
  shows "work_ok slack (cb_current b')"
  using assms
  by (auto simp: work_ok_def emit_at_line_def current_code_def instruction_word_offsets_snoc
      code_word_count_snoc)

text \<open>Replacing an instruction by one of the same length.\<close>

lemma set_code_at_ok:
  assumes "work_ok slack (cb_current b)" "set_code_at k i b = Some b'" "fits_instruction i"
    "get (current_code b) k = Some j" "i_aux j = None \<longleftrightarrow> i_aux i = None"
  shows "work_ok slack (cb_current b')"
proof -
  have k: "k < length (bw_code (cb_current b))" "bw_code (cb_current b) ! k = j"
    and b': "b' = b\<lparr>cb_current := (cb_current b)\<lparr>bw_code := (bw_code (cb_current b))[k := i]\<rparr>\<rparr>"
    using assms(2,4) by (auto simp: set_code_at_def current_code_def get_def split: if_splits)
  have len: "map nat_word_len ((bw_code (cb_current b))[k := i]) = map nat_word_len (bw_code (cb_current b))"
    using k assms(5) by (intro map_word_len_update) (simp_all add: nat_word_len_def)
  have fits: "\<forall>x \<in> set ((bw_code (cb_current b))[k := i]). fits_instruction x"
    using assms(1,3) set_update_subset_insert [of "bw_code (cb_current b)" k i] by (auto simp: work_ok_def)
  show ?thesis
    using assms(1) fits len offsets_cong [OF len] code_word_count_cong [OF len]
    by (simp add: work_ok_def b')
qed

lemma patch_skip_ok:
  assumes "work_ok slack (cb_current b)" "patch_skip_c_to_current k b = Some (ok, b')"
  shows "work_ok slack (cb_current b')"
proof (cases "b' = b")
  case False
  then obtain i c where i: "get (current_code b) k = Some i"
    and b': "set_code_at k (abc_with_aux (i_opcode i) (i_a i) (i_b i) c (i_aux i)) b = Some b'"
    using assms(2) by (auto simp: patch_skip_c_to_current_def current_code_def split: option.splits)
  have "fits_instruction i"
    using assms(1) i by (auto simp: work_ok_def current_code_def get_eq_Some)
  then show ?thesis
    by (intro set_code_at_ok [OF assms(1) b' _ i]) (simp_all add: fits_instruction_def)
qed (use assms in simp)

text \<open>The line of the implicit return is not negative.\<close>

lemma saturating_add_nonneg:
  assumes "0 \<le> sint x"
  shows "0 \<le> sint (i32_saturating_add_u8 x d)"
proof (cases "2 ^ 31 \<le> sint x + int (unat d)")
  case False
  have "uint d < 256" "0 \<le> uint d" using uint_lt2p [of d] by simp_all
  then have "sint (ucast d :: i32) = int (unat d)"
    using uint_ge_0 [of d] by (simp add: signed_ucast_eq signed_take_bit_int_eq_self_iff order_trans [of _ 0] del: uint_ge_0)
  then have sum: "sint (x + ucast d) = signed_take_bit 31 (sint x + int (unat d))"
    by (simp add: sint_word_ariths)
  have nonneg: "0 \<le> sint x + int (unat d)" using assms by (intro add_nonneg_nonneg) simp_all
  then have "- (2 ^ 31) \<le> sint x + int (unat d)" by (rule order_trans [rotated]) simp
  then have "signed_take_bit 31 (sint x + int (unat d)) = sint x + int (unat d)"
    using False by (simp add: signed_take_bit_int_eq_self_iff)
  with sum nonneg False show ?thesis by (simp add: i32_saturating_add_u8_def)
qed (simp add: i32_saturating_add_u8_def)

lemma implicit_return_line_nonneg:
  assumes "work_ok slack (cb_current b)"
  shows "0 \<le> sint (implicit_return_line b)"
  using assms unfolding implicit_return_line_def Let_def
  by (intro saturating_add_nonneg) (auto simp: work_ok_def split: option.splits)

lemma return_fits: "fits_instruction (abc Op_Return 0 1 0)" "fits_instruction (abc Op_PrepVarargs 0 0 0)"
  by (simp_all add: fits_instruction_def instruction_len_def)

lemma emit_implicit_return_ok:
  assumes "work_ok slack (cb_current b)" "emit_implicit_return b = (n, b')" "nat_words (current_code b) + 1 + slack < 2 ^ 31"
  shows "work_ok slack (cb_current b')"
  using assms implicit_return_line_nonneg [OF assms(1)] return_fits(1)
  by (auto simp: emit_implicit_return_def nat_word_len_def elim!: emit_at_line_ok)

lemma add_constant_ok:
  assumes "work_ok slack (cb_current b)" "add_constant k b = (n, b')"
  shows "work_ok slack (cb_current b')"
proof -
  have "interned 0 (bw_constants (cb_current b')) (bw_constant_ids (cb_current b'))"
    using constant_pool.intern_tracked [of b k] assms by (simp add: work_ok_def)
  then show ?thesis
    using assms by (auto simp: work_ok_def add_constant_def Let_def split: option.splits)
qed

lemma add_child_proto_ok:
  assumes "work_ok slack (cb_current b)" "add_child_proto p b = (n, b')"
  shows "work_ok slack (cb_current b')"
  using assms by (auto simp: work_ok_def add_child_proto_def position_None split: option.splits)

lemma fits_plain_jumps: "fits_instruction i \<Longrightarrow> i_opcode i \<in> {Op_Jump, Op_Return} \<Longrightarrow> i_aux i = None"
  by (auto simp: fits_instruction_def instruction_len_def)

lemma work_ok_foldable: "work_ok slack w \<Longrightarrow> foldable_code (bw_code w)"
  using fits_plain_jumps by (auto simp: work_ok_def foldable_code_def)

lemma fold_jumps_ok:
  assumes "work_ok slack w" "fold_jumps w = Some w'"
  shows "work_ok slack w'" "length (bw_code w') = length (bw_code w)"
    "\<And>k. k < length (bw_code w) \<Longrightarrow> i_opcode (bw_code w ! k) \<in> {Op_Return, Op_PrepVarargs} \<Longrightarrow> bw_code w' ! k = bw_code w ! k"
proof -
  obtain code' where w': "w' = w\<lparr>bw_code := code'\<rparr>" and flow: "same_flow (bw_code w) code'"
    and only: "only_offsets (bw_code w) code'"
    using fold_jumps_flow [OF work_ok_foldable [OF assms(1)]] assms(2) by auto
  have len: "map nat_word_len code' = map nat_word_len (bw_code w)"
    using flow by (simp add: same_flow_def)
  have fits: "\<forall>i \<in> set code'. fits_instruction i"
    by (rule only_offsets_all [OF only]) (use assms(1) in \<open>auto simp: work_ok_def fits_instruction_def\<close>)
  show "work_ok slack w'"
    using assms(1) fits len offsets_cong [OF len] code_word_count_cong [OF len]
    by (simp add: work_ok_def w')
  show "length (bw_code w') = length (bw_code w)" using same_flow_length [OF flow] by (simp add: w')
  show "bw_code w' ! k = bw_code w ! k"
    if "k < length (bw_code w)" "i_opcode (bw_code w ! k) \<in> {Op_Return, Op_PrepVarargs}" for k
    using flow that by (auto simp: w' same_flow_def same_instruction_def is_foldable_jump_d_def)
qed

lemma fold_jumps_total: "work_ok slack w \<Longrightarrow> \<exists>w'. fold_jumps w = Some w'"
  using fold_jumps_flow [OF work_ok_foldable] by blast

section \<open>What one finished proto satisfies\<close>

text \<open>
  Everything the wire format asks of a proto apart from the sizes of its tables, and line information
  that decodes to one line per code word.
\<close>

definition proto_built :: "proto \<Rightarrow> bool" where
  "proto_built p \<longleftrightarrow>
     (\<forall>i \<in> set (p_code p). fits_instruction i) \<and> nat_words (p_code p) < 2 ^ 31
     \<and> (\<forall>li. proto_line_info p = Some li \<longrightarrow>
          fits_line_info (code_word_count (p_code p)) li
          \<and> (\<exists>lines. to_line_numbers li = Some lines \<and> length lines = nat_words (p_code p)))
     \<and> (length (p_constants p) < 2 ^ 32 \<longrightarrow> distinct (p_constants p))
     \<and> p_cost p = None"

lemma interned_distinct: "interned 0 xs ids \<Longrightarrow> length xs < 2 ^ 32 \<Longrightarrow> distinct xs"
  unfolding distinct_conv_nth
proof (intro allI impI notI)
  fix i j assume a: "interned 0 xs ids" "length xs < 2 ^ 32" "i < length xs" "j < length xs" "i \<noteq> j" "xs ! i = xs ! j"
  then have "ids (xs ! i) = Some (item_id 0 i)" "ids (xs ! i) = Some (item_id 0 j)"
    by (auto simp: interned_def)
  then have "unat (item_id 0 i) = unat (item_id 0 j)" by simp
  with a show False by (simp add: unat_item_id)
qed

lemma unat_line_intervals:
  assumes "length (baseline_deltas li) = drop_bit (unat (log2_span li)) (unat n - 1) + 1"
  shows "length (baseline_deltas li) = unat (line_intervals n (log2_span li))"
proof -
  let ?k = "unat (log2_span li)"
  have d: "unat (drop_bit ?k (saturating_sub n 1)) = drop_bit ?k (unat n - 1)"
    by (simp add: unat_drop_bit_eq)
  have "drop_bit ?k (unat n - 1) \<le> unat n - 1" by (simp add: drop_bit_eq_div)
  then have "drop_bit ?k (unat n - 1) + 1 < 2 ^ 32"
    using unsigned_less [of n, where ?'a = nat] by (cases "unat n = 0") (simp_all del: unat_bounds, linarith?)
  then show ?thesis
    using assms unat_add_of_nat [of "drop_bit ?k (saturating_sub n 1)" 1] by (simp add: line_intervals_def d)
qed

lemma into_proto_built:
  assumes "work_ok slack w"
  shows "proto_built (into_proto md w)"
proof -
  have words: "unat (code_word_count (bw_code w)) = nat_words (bw_code w)"
    using assms by (intro unat_code_word_count) (simp add: work_ok_def)
  have lines: "fits_line_info (code_word_count (bw_code w)) li \<and>
      (\<exists>ls. to_line_numbers li = Some ls \<and> length ls = nat_words (bw_code w))"
    if li: "from_line_numbers (bw_code_lines w) = Some li" for li
  proof -
    have nonneg: "\<forall>l \<in> set (bw_code_lines w). 0 \<le> sint l" and len: "length (bw_code_lines w) = nat_words (bw_code w)"
      using assms by (simp_all add: work_ok_def)
    have ne: "bw_code_lines w \<noteq> []" using li by (auto simp: from_line_numbers_def)
    note shape = from_line_numbers_shape [OF li nonneg]
    then have "fits_line_info (code_word_count (bw_code w)) li"
      using unat_line_intervals [of li "code_word_count (bw_code w)"] words len
      by (auto simp: fits_line_info_def word_le_nat_alt word_less_nat_alt)
    then show ?thesis using to_from_line_numbers [OF ne nonneg] li len by auto
  qed
  show ?thesis
    using assms lines interned_distinct by (auto simp: proto_built_def into_proto_def work_ok_def)
qed

end
