(* ===== verification/Builder_Runs.thy ===== *)
theory Builder_Runs
  imports Builder_Spec
begin

text \<open>
  Runs of the chunk builder. \<open>building ws b\<close> says that \<open>b\<close> is a builder state reached from
  \<^verbatim>\<open>ChunkBuilder::new\<close> by any sequence of the builder's operations, where \<open>ws\<close> are the suspended
  protos of the enclosing functions, innermost first. The guards are what the compiler keeps to:
  emitted instructions come from the constructors with the AUX word their opcode has, a patch keeps
  the presence of the AUX word, lines fit a signed 32-bit integer, and a function has less than
  \<open>2 ^ 31\<close> code words.
\<close>

section \<open>Steps\<close>

text \<open>Operations that only record metadata.\<close>

inductive annotates :: "chunk_builder \<Rightarrow> chunk_builder \<Rightarrow> bool" where
  "annotates b (set_bytecode_version v b)"
| "annotates b (set_max_stack_size n b)"
| "annotates b (set_proto_flags f b)"
| "annotates b (set_implicit_return_line_delta d b)"
| "0 \<le> sint line \<Longrightarrow> annotates b (set_implicit_return_line_base line b)"
| "0 \<le> sint line \<Longrightarrow> annotates b (set_debug_line line b)"
| "annotates b (push_local_type_info tag reg start stop b)"
| "annotates b (set_function_type_info ti b)"
| "annotates b (push_upvalue_type_info tag b)"
| "annotates b (push_debug_local name start stop reg b)"
| "annotates b (push_debug_upvalue name b)"
| "annotates b (snd (push_feedback_slot slot b))"

inductive building :: "proto_work list \<Rightarrow> chunk_builder \<Rightarrow> bool" where
  start: "building [] chunk_builder_new"
| annotate: "building ws b \<Longrightarrow> annotates b b' \<Longrightarrow> building ws b'"
| begin_function: "building ws b \<Longrightarrow> begin_proto b = (w, b') \<Longrightarrow> building (w # ws) b'"
| end_function: "building (w # ws) b \<Longrightarrow> end_proto w b = (f, b1) \<Longrightarrow> f' = f \<or> fold_jumps f = Some f' \<Longrightarrow>
    add_proto (into_proto md f') b1 = (index, b2) \<Longrightarrow> building ws b2"
| intern_string: "building ws b \<Longrightarrow> add_string s b = (index, b') \<Longrightarrow> building ws b'"
| intern_constant: "building ws b \<Longrightarrow> add_constant k b = (index, b') \<Longrightarrow> building ws b'"
| child: "building ws b \<Longrightarrow> add_child_proto p b = (index', b') \<Longrightarrow> building ws b'"
| emit_one: "building ws b \<Longrightarrow> fits_instruction i \<Longrightarrow>
    nat_words (current_code b) + nat_word_len i + 2 < 2 ^ 31 \<Longrightarrow> emit i b = (n, b') \<Longrightarrow> building ws b'"
| emit_return: "building ws b \<Longrightarrow> nat_words (current_code b) + 1 + 2 < 2 ^ 31 \<Longrightarrow>
    emit_implicit_return b = (n, b') \<Longrightarrow> building ws b'"
| patch_plain: "building ws b \<Longrightarrow> get (current_code b) n = Some i \<Longrightarrow> i_aux i = None \<Longrightarrow>
    fits_instruction (ad op a d) \<Longrightarrow> patch_ad n op a d b = Some b' \<Longrightarrow> building ws b'"
| patch_aux: "building ws b \<Longrightarrow> get (current_code b) n = Some i \<Longrightarrow> (i_aux i = None \<longleftrightarrow> aux = None) \<Longrightarrow>
    (aux = None \<longleftrightarrow> instruction_len op = 1) \<Longrightarrow> patch_ad_with_aux n op a d aux b = Some b' \<Longrightarrow> building ws b'"
| patch_skip: "building ws b \<Longrightarrow> patch_skip_c_to_current n b = Some (ok, b') \<Longrightarrow> building ws b'"

section \<open>The invariant\<close>

text \<open>
  Every proto under construction keeps its books, the string table is interned, every finished proto
  is ready for the codec, and the outermost proto is the one with the implicit varargs prologue.
\<close>

definition builder_ok :: "proto_work list \<Rightarrow> chunk_builder \<Rightarrow> bool" where
  "builder_ok ws b \<longleftrightarrow>
     (\<forall>w \<in> set (cb_current b # ws). work_ok 2 w)
     \<and> interned 1 (cb_strings b) (cb_string_ids b)
     \<and> (\<forall>p \<in> set (cb_protos b). proto_built p)
     \<and> bw_implicit_prepvarargs (last (cb_current b # ws))"

text \<open>What an operation on the current proto leaves alone.\<close>

definition kept :: "chunk_builder \<Rightarrow> chunk_builder \<Rightarrow> bool" where
  "kept b b' \<longleftrightarrow> cb_strings b' = cb_strings b \<and> cb_string_ids b' = cb_string_ids b
    \<and> cb_protos b' = cb_protos b
    \<and> bw_implicit_prepvarargs (cb_current b') = bw_implicit_prepvarargs (cb_current b)"

lemma builder_okI: "builder_ok ws b \<Longrightarrow> work_ok 2 (cb_current b') \<Longrightarrow> kept b b' \<Longrightarrow> builder_ok ws b'"
  by (auto simp: builder_ok_def kept_def)

lemma kept_refl [simp]: "kept b b"
  by (simp add: kept_def)

lemma builder_okD: "builder_ok ws b \<Longrightarrow> work_ok 2 (cb_current b)"
  by (simp add: builder_ok_def)

lemmas annotation_defs =
  set_bytecode_version_def set_max_stack_size_def set_proto_flags_def set_implicit_return_line_delta_def
  set_implicit_return_line_base_def set_debug_line_def push_local_type_info_def set_function_type_info_def
  push_upvalue_type_info_def push_debug_local_def push_debug_upvalue_def push_feedback_slot_def

lemma annotates_work: "annotates b b' \<Longrightarrow> work_ok 2 (cb_current b) \<Longrightarrow> work_ok 2 (cb_current b')"
  by (induction rule: annotates.induct) (simp_all add: work_ok_def annotation_defs)

lemma annotates_frame:
  "annotates b b' \<Longrightarrow> kept b b'"
  by (induction rule: annotates.induct) (simp_all add: annotation_defs kept_def)

lemma annotates_ok: "annotates b b' \<Longrightarrow> builder_ok ws b \<Longrightarrow> builder_ok ws b'"
  using builder_okI [of ws b b'] annotates_frame [of b b'] annotates_work [of b b'] builder_okD [of ws b] by blast

lemma emit_frame:
  "emit_at_line i line b = (n, b') \<Longrightarrow> kept b b'"
  by (auto simp: emit_at_line_def kept_def)

lemma set_code_at_frame:
  "set_code_at k i b = Some b' \<Longrightarrow> kept b b'"
  by (auto simp: set_code_at_def kept_def split: if_splits)

lemma patch_skip_frame:
  "patch_skip_c_to_current k b = Some (ok, b') \<Longrightarrow> kept b b'"
  by (auto simp: patch_skip_c_to_current_def dest: set_code_at_frame split: option.splits)

lemma intern_constant_frame: "add_constant k b = (n, b') \<Longrightarrow> kept b b'"
  by (cases "bw_constant_ids (cb_current b) k") (auto simp: add_constant_def Let_def kept_def)

lemma add_child_frame: "add_child_proto p b = (n, b') \<Longrightarrow> kept b b'"
  by (auto simp: add_child_proto_def kept_def split: option.splits)

lemma building_ok: "building ws b \<Longrightarrow> builder_ok ws b"
proof (induction rule: building.induct)
  case start
  then show ?case
    using new_work_ok by (simp add: builder_ok_def chunk_builder_new_def interned_def proto_work_new_def)
next
  case (annotate ws b b')
  then show ?case by (blast intro: annotates_ok)
next
  case (begin_function ws b w b')
  then show ?case using new_work_ok by (auto simp: builder_ok_def begin_proto_def)
next
  case (end_function w ws b f b1 f' md index b2)
  then have "work_ok 2 f'" by (auto simp: builder_ok_def end_proto_def dest: fold_jumps_ok(1))
  then have "proto_built (into_proto md f')" by (rule into_proto_built)
  with end_function show ?case by (auto simp: builder_ok_def end_proto_def add_proto_def)
next
  case (intern_string ws b s index b')
  then show ?case
    using string_table.intern_tracked [of b s]
    by (auto simp: builder_ok_def add_string_def Let_def split: option.splits)
next
  case (intern_constant ws b k index b')
  note op = intern_constant.hyps(2)
  show ?case
    by (rule builder_okI [OF intern_constant.IH add_constant_ok [OF builder_okD op] intern_constant_frame [OF op]])
      (rule intern_constant.IH)
next
  case (child ws b p index' b')
  note op = child.hyps(2)
  show ?case
    by (rule builder_okI [OF child.IH add_child_proto_ok [OF builder_okD op] add_child_frame [OF op]])
      (rule child.IH)
next
  case (emit_one ws b i n b')
  note op = emit_one.hyps(4) [unfolded emit_def]
  have "0 \<le> sint (bw_current_line (cb_current b))"
    using builder_okD [OF emit_one.IH] by (simp add: work_ok_def)
  note ok = emit_at_line_ok [OF builder_okD [OF emit_one.IH] op emit_one.hyps(2) this emit_one.hyps(3)]
  show ?case by (rule builder_okI [OF emit_one.IH ok emit_frame [OF op]])
next
  case (emit_return ws b n b')
  note op = emit_return.hyps(3)
  note ok = emit_implicit_return_ok [OF builder_okD [OF emit_return.IH] op emit_return.hyps(2)]
  show ?case
    by (rule builder_okI [OF emit_return.IH ok emit_frame [OF op [unfolded emit_implicit_return_def]]])
next
  case (patch_plain ws b n i op a d b')
  note step = patch_plain.hyps(5) [unfolded patch_ad_def]
  have "work_ok 2 (cb_current b')"
    using patch_plain.hyps(3,4) by (intro set_code_at_ok [OF builder_okD [OF patch_plain.IH] step _ patch_plain.hyps(2)]) simp_all
  then show ?case by (rule builder_okI [OF patch_plain.IH _ set_code_at_frame [OF step]])
next
  case (patch_aux ws b n i aux op a d b')
  note step = patch_aux.hyps(5) [unfolded patch_ad_with_aux_def]
  have "work_ok 2 (cb_current b')"
    using patch_aux.hyps(3,4)
    by (intro set_code_at_ok [OF builder_okD [OF patch_aux.IH] step _ patch_aux.hyps(2)])
      (simp_all add: fits_instruction_def)
  then show ?case by (rule builder_okI [OF patch_aux.IH _ set_code_at_frame [OF step]])
next
  case (patch_skip ws b n ok b')
  note op = patch_skip.hyps(2)
  show ?case
    by (rule builder_okI [OF patch_skip.IH patch_skip_ok [OF builder_okD op] patch_skip_frame [OF op]])
      (rule patch_skip.IH)
qed

section \<open>Finishing\<close>

lemma word_offsets_from_shift: "word_offsets_from (n + m) code = map (\<lambda>w. w + n) (word_offsets_from m code)"
proof (induction code arbitrary: m)
  case (Cons i "is")
  have "n + m + word_len i = n + (m + word_len i)" by (simp add: add.assoc)
  then show ?case using Cons [of "m + word_len i"] by (simp add: ac_simps)
qed simp

lemma insert_prepvarargs_ok:
  assumes "work_ok 2 (cb_current b)"
  shows "work_ok 1 (cb_current (insert_prepvarargs b))"
proof (cases "needs_implicit_prepvarargs b")
  case True
  let ?w = "cb_current b" and ?i = "abc Op_PrepVarargs 0 0 0"
  have "instruction_word_offsets (?i # bw_code ?w) = 0 # map (\<lambda>w. w + 1) (instruction_word_offsets (bw_code ?w))"
    using word_offsets_from_shift [of 1 0 "bw_code ?w"]
    by (simp add: instruction_word_offsets_def word_len_def)
  moreover have "code_word_count (?i # bw_code ?w) = code_word_count (bw_code ?w) + 1"
    by (simp add: code_word_count_def word_len_def)
  ultimately show ?thesis
    using assms True return_fits(2) by (auto simp: insert_prepvarargs_def work_ok_def nat_word_len_def)
qed (use assms in \<open>auto simp: insert_prepvarargs_def work_ok_def\<close>)

lemma work_ok_mono: "work_ok n w \<Longrightarrow> m \<le> n \<Longrightarrow> work_ok m w"
  by (auto simp: work_ok_def)

lemma close_with_return_ok:
  assumes "work_ok 1 (cb_current b)"
  shows "work_ok 0 (cb_current (close_with_return b))"
    and "bw_code (cb_current (close_with_return b)) \<noteq> []"
    and "i_opcode (last (bw_code (cb_current (close_with_return b)))) = Op_Return"
    and "bw_code (cb_current b) \<noteq> [] \<Longrightarrow> hd (bw_code (cb_current (close_with_return b))) = hd (bw_code (cb_current b))"
proof -
  let ?b = "close_with_return b"
  have small: "nat_words (current_code b) + 1 + 0 < 2 ^ 31"
    using assms by (simp add: work_ok_def current_code_def)
  obtain n b' where ret: "emit_implicit_return b = (n, b')" by fastforce
  have "work_ok 0 (cb_current (snd (emit_implicit_return b)))"
    using emit_implicit_return_ok [OF work_ok_mono [OF assms] ret small] ret by simp
  then show "work_ok 0 (cb_current ?b)"
    using work_ok_mono [OF assms, of 0] by (simp add: close_with_return_def Let_def)
  show "bw_code (cb_current ?b) \<noteq> []" "i_opcode (last (bw_code (cb_current ?b))) = Op_Return"
    "bw_code (cb_current b) \<noteq> [] \<Longrightarrow> hd (bw_code (cb_current ?b)) = hd (bw_code (cb_current b))"
    by (auto simp: close_with_return_def emit_implicit_return_def emit_at_line_def Let_def)
qed

lemma insert_prepvarargs_first:
  assumes "bw_implicit_prepvarargs (cb_current b)"
  shows "bw_code (cb_current (insert_prepvarargs b)) \<noteq> []"
    and "i_opcode (hd (bw_code (cb_current (insert_prepvarargs b)))) = Op_PrepVarargs"
  using assms by (auto simp: insert_prepvarargs_def needs_implicit_prepvarargs_def Let_def)

lemma finish_frame:
  "cb_strings (close_with_return (insert_prepvarargs b)) = cb_strings b"
  "cb_protos (close_with_return (insert_prepvarargs b)) = cb_protos b"
  "cb_bytecode_version (close_with_return (insert_prepvarargs b)) = cb_bytecode_version b"
  by (simp_all add: close_with_return_def insert_prepvarargs_def emit_implicit_return_def emit_at_line_def)

text \<open>What finishing a run gives: the finished protos and a main proto that is ready for the codec.\<close>

lemma finish_built:
  assumes "building [] b"
  shows "\<exists>c p. finish debug_level fold_flag b = Some (Chunk_Valid c)
    \<and> bytecode_version c = cb_bytecode_version b \<and> type_version c = DEFAULT_TYPE_VERSION
    \<and> ch_strings c = cb_strings b \<and> ch_userdata_type_mappings c = []
    \<and> ch_protos c = cb_protos b @ [p] \<and> ch_main_proto c = of_nat (length (cb_protos b))
    \<and> proto_built p \<and> p_code p \<noteq> []
    \<and> i_opcode (hd (p_code p)) = Op_PrepVarargs \<and> i_opcode (last (p_code p)) = Op_Return"
proof -
  have ok: "builder_ok [] b" by (rule building_ok [OF assms])
  let ?b = "close_with_return (insert_prepvarargs b)"
  let ?w = "cb_current ?b"
  have flag: "bw_implicit_prepvarargs (cb_current b)" using ok by (simp add: builder_ok_def)
  note first = insert_prepvarargs_first [OF flag]
  note ok1 = insert_prepvarargs_ok [OF builder_okD [OF ok]]
  note closed = close_with_return_ok [OF ok1]
  have hd: "i_opcode (hd (bw_code ?w)) = Op_PrepVarargs" using closed(4) first by simp
  obtain w where w: "(if fold_flag then fold_jumps ?w else Some ?w) = Some w"
    using fold_jumps_total [OF closed(1)] by (cases fold_flag) auto
  have ends: "work_ok 0 w \<and> bw_code w \<noteq> [] \<and> i_opcode (hd (bw_code w)) = Op_PrepVarargs
      \<and> i_opcode (last (bw_code w)) = Op_Return"
  proof (cases fold_flag)
    case True
    then have fold: "fold_jumps ?w = Some w" using w by simp
    note f = fold_jumps_ok [OF closed(1) fold]
    have ne: "bw_code w \<noteq> []" using f(2) closed(2) by auto
    have "hd (bw_code w) = hd (bw_code ?w)"
      using f(3) [of 0] closed(2) hd ne by (simp add: hd_conv_nth)
    moreover have "last (bw_code w) = last (bw_code ?w)"
      using f(3) [of "length (bw_code ?w) - 1"] f(2) closed(2,3) ne by (simp add: last_conv_nth)
    ultimately show ?thesis using f(1) ne hd closed(3) by simp
  qed (use w closed hd in auto)
  let ?p = "into_proto \<lparr>md_num_params = 0, md_num_upvalues = 0, md_is_vararg = True,
    md_flags = bw_proto_flags w, md_line_defined = 1, md_debug_name = 0, md_debug_level = debug_level\<rparr> w"
  have code: "p_code ?p = bw_code w" by (simp add: into_proto_def)
  have "proto_built ?p" using ends into_proto_built by blast
  moreover have "finish debug_level fold_flag b = Some (Chunk_Valid
      \<lparr>bytecode_version = cb_bytecode_version b, type_version = DEFAULT_TYPE_VERSION,
       ch_strings = cb_strings b, ch_userdata_type_mappings = [], ch_protos = cb_protos b @ [?p],
       ch_main_proto = of_nat (length (cb_protos b))\<rparr>)"
    using w by (simp add: finish_def Let_def finish_frame)
  ultimately show ?thesis using ends code by auto
qed

section \<open>Properties of the builder\<close>

text \<open>
  C30: At every point of every run, the builder's books agree with the code of the proto under
  construction: the recorded offset of instruction \<open>n\<close> is the word at which it starts, the next offset is
  the number of code words, and there is one source line per code word.
\<close>

theorem builder_books:
  assumes "building ws b"
  shows "(\<forall>n < length (current_code b). \<exists>w. instruction_word_offset n b = Some w \<and> unat w = nat_offset (current_code b) n)
    \<and> unat (current_word_offset b) = nat_words (current_code b)
    \<and> length (bw_code_lines (cb_current b)) = nat_words (current_code b)"
proof -
  have ok: "work_ok 2 (cb_current b)" using building_ok [OF assms] by (rule builder_okD)
  then have small: "nat_words (current_code b) < 2 ^ 32" by (simp add: work_ok_def current_code_def)
  have "\<exists>w. instruction_word_offset n b = Some w \<and> unat w = nat_offset (current_code b) n"
    if "n < length (current_code b)" for n
    using ok that unat_nth_offsets [OF small that]
    by (simp add: instruction_word_offset_def get_def work_ok_def current_code_def)
  moreover have "unat (current_word_offset b) = nat_words (current_code b)"
    using ok unat_code_word_count [OF small] by (simp add: current_word_offset_def work_ok_def current_code_def)
  ultimately show ?thesis using ok by (simp add: work_ok_def current_code_def)
qed

text \<open>
  Every run can be finished, with or without jump folding. The chunk has the builder's version,
  strings and finished protos in order, its last proto is the main proto, which starts with the varargs
  prologue and ends with a return, and all constants of a proto are distinct.
\<close>

theorem finish_shape:
  assumes "building [] b"
  shows "\<exists>c p. finish debug_level fold_flag b = Some (Chunk_Valid c)
    \<and> bytecode_version c = cb_bytecode_version b \<and> ch_strings c = cb_strings b
    \<and> ch_protos c = cb_protos b @ [p] \<and> ch_main_proto c = of_nat (length (cb_protos b))
    \<and> i_opcode (hd (p_code p)) = Op_PrepVarargs \<and> i_opcode (last (p_code p)) = Op_Return
    \<and> (\<forall>q \<in> set (ch_protos c). length (p_constants q) < 2 ^ 32 \<longrightarrow> distinct (p_constants q))"
proof -
  have old: "\<forall>p \<in> set (cb_protos b). proto_built p"
    using building_ok [OF assms] by (simp add: builder_ok_def)
  obtain c p where c: "finish debug_level fold_flag b = Some (Chunk_Valid c)"
      "bytecode_version c = cb_bytecode_version b" "ch_strings c = cb_strings b"
      "ch_protos c = cb_protos b @ [p]" "ch_main_proto c = of_nat (length (cb_protos b))"
      "i_opcode (hd (p_code p)) = Op_PrepVarargs" "i_opcode (last (p_code p)) = Op_Return"
    and p: "proto_built p"
    using finish_built [OF assms, of debug_level fold_flag] by blast
  have "length (p_constants q) < 2 ^ 32 \<longrightarrow> distinct (p_constants q)" if "q \<in> set (ch_protos c)" for q
    using that old p c(4) by (auto simp: proto_built_def)
  with c show ?thesis by blast
qed

text \<open>A short run: one instruction and one string constant.\<close>

definition demo_builder :: chunk_builder where
  "demo_builder =
     snd (add_constant (C_String 1) (snd (add_string [97]
       (snd (emit (ad Op_LoadN 0 5) (set_max_stack_size 1 chunk_builder_new))))))"

lemma demo_building: "building [] demo_builder"
  unfolding demo_builder_def
proof (rule intern_constant [OF _ surjective_pairing], rule intern_string [OF _ surjective_pairing],
    rule emit_one [OF _ _ _ surjective_pairing])
  show "building [] (set_max_stack_size 1 chunk_builder_new)"
    by (rule annotate [OF start]) (rule annotates.intros)
  show "fits_instruction (ad Op_LoadN 0 5)" by (simp add: fits_instruction_def instruction_len_def)
  show "nat_words (current_code (set_max_stack_size 1 chunk_builder_new)) + nat_word_len (ad Op_LoadN 0 5) + 2
      < 2 ^ 31"
    by (simp add: current_code_def set_max_stack_size_def chunk_builder_new_def proto_work_new_def
        proto_work_default_def nat_word_len_def)
qed

lemmas run_demo =
  demo_builder_def add_constant_def add_string_def decode_ast_string_bytes.simps encode_utf8_def emit_def
  emit_at_line_def set_max_stack_size_def chunk_builder_new_def proto_work_new_def proto_work_default_def
  Let_def word_len_def

lemma demo_code: "current_code demo_builder = [ad Op_LoadN 0 5]"
  by (simp add: run_demo current_code_def)

theorem builder_books_witness:
  "instruction_word_offset 0 demo_builder = Some 0 \<and> unat (current_word_offset demo_builder) = 1"
  using builder_books [OF demo_building]
  by (auto simp: demo_code nat_word_len_def word_unat_eq_iff)

theorem finish_shape_witness:
  "\<exists>c p. finish 1 True demo_builder = Some (Chunk_Valid c) \<and> ch_strings c = [[97]]
    \<and> ch_protos c = [p] \<and> i_opcode (hd (p_code p)) = Op_PrepVarargs \<and> i_opcode (last (p_code p)) = Op_Return"
  using finish_shape [OF demo_building, of 1 True] by (auto simp: run_demo)

text \<open>
  What the wire format can express: sizes below \<open>2\<^sup>32\<close>, feedback slots from version 11 on, and from version 12 on
  functions whose bytes have such a size and none of which is marked inlinable, for which the format
  wants a cost that the builder does not set.
\<close>

definition sizes_ok :: "valid_chunk \<Rightarrow> bool" where
  "sizes_ok c \<longleftrightarrow>
     fits_vec (\<lambda>s. length s < 2 ^ 32) (ch_strings c) \<and> length (ch_protos c) < 2 ^ 32
     \<and> (\<forall>p \<in> set (ch_protos c). length (type_raw (proto_type_info p)) < 2 ^ 32
         \<and> fits_vec fits_constant (p_constants p) \<and> length (p_child_protos p) < 2 ^ 32
         \<and> (\<forall>d. proto_debug_info p = Some d \<longrightarrow> fits_debug_info d)
         \<and> (if 11 \<le> bytecode_version c then length (p_feedback_slots p) < 2 ^ 32 else p_feedback_slots p = [])
         \<and> \<not> needs_cost (bytecode_version c) p
         \<and> (has_extended_proto_layout (bytecode_version c) \<longrightarrow> length (w_all (proto_calls (bytecode_version c) p) []) < 2 ^ 32))"

lemma proto_built_wf:
  assumes "proto_built p" "length (type_raw (proto_type_info p)) < 2 ^ 32" "fits_vec fits_constant (p_constants p)"
    "length (p_child_protos p) < 2 ^ 32" "\<forall>d. proto_debug_info p = Some d \<longrightarrow> fits_debug_info d"
    "if 11 \<le> version then length (p_feedback_slots p) < 2 ^ 32 else p_feedback_slots p = []" "\<not> needs_cost version p"
    "has_extended_proto_layout version \<longrightarrow> length (w_all (proto_calls version p) []) < 2 ^ 32"
  shows "fits_one_proto version p"
  using assms by (auto simp: fits_one_proto_def wf_proto_def proto_built_def)

text \<open>
  C18: Whatever the compiler builds, the codec carries. The valid chunk that a run finishes to is encoded, and
  decoding the bytes gives that chunk, under any policy that accepts the version the run has set (the
  public one accepts the default version only), if its tables have sizes the wire format of that version
  can express, it uses no feedback slots before version 11, and from version 12 on it marks no function
  inlinable.
\<close>

theorem built_chunk_roundtrip:
  assumes "building [] b" "accepts policy (cb_bytecode_version b)"
    "finish debug_level fold_flag b = Some (Chunk_Valid c)" "sizes_ok c"
  shows "\<exists>bs. encode_chunk_with_policy (Chunk_Valid c) policy = Inr bs \<and> decode_chunk_with_policy bs policy = Inr (Chunk_Valid c)"
proof -
  have built: "\<forall>p \<in> set (ch_protos c). proto_built p"
    using finish_built [OF assms(1), of debug_level fold_flag] assms(3) building_ok [OF assms(1)]
    by (auto simp: builder_ok_def)
  have head: "bytecode_version c = cb_bytecode_version b" "type_version c = DEFAULT_TYPE_VERSION"
    "ch_userdata_type_mappings c = []"
    using finish_built [OF assms(1), of debug_level fold_flag] assms(3) by auto
  have "fits_one_proto (bytecode_version c) p" if "p \<in> set (ch_protos c)" for p
    using built assms(4) that by (intro proto_built_wf) (auto simp: sizes_ok_def)
  then have "wf_chunk policy c"
    using head assms(2,4) by (simp add: wf_chunk_def sizes_ok_def DEFAULT_TYPE_VERSION_def fits_vec_def)
  then show ?thesis
    using encode_wf_chunk [of policy c] decode_chunk_bytes [of policy c "[]"] by simp
qed

text \<open>The short run, continued as a chunk of version 11 with a feedback slot.\<close>

definition demo_builder11 :: chunk_builder where
  "demo_builder11 = snd (push_feedback_slot \<lparr>slot_kind = CallTarget, slot_pc = 1\<rparr> (set_bytecode_version 11 demo_builder))"

lemma demo_building11: "building [] demo_builder11"
  unfolding demo_builder11_def by (rule annotate [OF annotate [OF demo_building annotates.intros(1)] annotates.intros(12)])

lemma demo_finish11:
  "\<exists>c. finish 0 False demo_builder11 = Some (Chunk_Valid c) \<and> sizes_ok c \<and> bytecode_version c = 11 \<and>
     p_feedback_slots (hd (ch_protos c)) \<noteq> []"
  by (simp add: finish_def insert_prepvarargs_def needs_implicit_prepvarargs_def close_with_return_def
      emit_implicit_return_def into_proto_def type_info_payload_def sizes_ok_def fits_vec_def run_demo demo_builder11_def
      push_feedback_slot_def set_bytecode_version_def needs_cost_def has_extended_proto_layout_def)

theorem built_chunk_roundtrip_witness:
  "\<exists>c bs. finish 0 False demo_builder11 = Some (Chunk_Valid c) \<and> p_feedback_slots (hd (ch_protos c)) \<noteq> [] \<and>
    encode_chunk_with_policy (Chunk_Valid c) UpstreamFixture = Inr bs \<and>
    decode_chunk_with_policy bs UpstreamFixture = Inr (Chunk_Valid c)"
proof -
  obtain c where c: "finish 0 False demo_builder11 = Some (Chunk_Valid c)" "sizes_ok c" "p_feedback_slots (hd (ch_protos c)) \<noteq> []"
    using demo_finish11 by blast
  have "accepts UpstreamFixture (cb_bytecode_version demo_builder11)"
    by (simp add: demo_builder11_def push_feedback_slot_def set_bytecode_version_def version_consts)
  from built_chunk_roundtrip [OF demo_building11 this c(1,2)] c show ?thesis by blast
qed

text \<open>
  The line information of every function in a finished chunk decodes to exactly one source line
  per code word.
\<close>

theorem built_line_info:
  assumes "building [] b" "finish debug_level fold_flag b = Some (Chunk_Valid c)" "p \<in> set (ch_protos c)"
    "proto_line_info p = Some li"
  shows "\<exists>lines. to_line_numbers li = Some lines \<and> length lines = nat_words (p_code p)"
proof -
  have "proto_built p"
    using finish_built [OF assms(1), of debug_level fold_flag] assms(2,3) building_ok [OF assms(1)]
    by (auto simp: builder_ok_def)
  then show ?thesis using assms(4) by (simp add: proto_built_def)
qed

theorem built_line_info_witness:
  "\<exists>c p li lines. finish 1 False demo_builder = Some (Chunk_Valid c) \<and> p \<in> set (ch_protos c)
    \<and> proto_line_info p = Some li \<and> to_line_numbers li = Some lines \<and> length lines = nat_words (p_code p)"
proof -
  obtain c p li where c: "finish 1 False demo_builder = Some (Chunk_Valid c)" "p \<in> set (ch_protos c)"
    "proto_line_info p = Some li"
    by (simp add: finish_def insert_prepvarargs_def needs_implicit_prepvarargs_def close_with_return_def
        emit_implicit_return_def into_proto_def from_line_numbers_def run_demo)
  from built_line_info [OF demo_building c] c show ?thesis by blast
qed

text \<open>
  Interning strings. In any run with room for one more string, adding a string gives a one-based id
  at which the table holds the decoded bytes, earlier entries keep their ids, adding the string again
  changes nothing and gives the same id, and no two entries of the table are equal.
\<close>

theorem add_string_interns:
  assumes "building ws b" "length (cb_strings b) + 2 < 2 ^ 32" "add_string s b = (n, b')"
  shows "(\<exists>k < length (cb_strings b'). unat n = k + 1 \<and> cb_strings b' ! k = decode_ast_string_bytes s)
    \<and> (\<exists>more. cb_strings b' = cb_strings b @ more) \<and> add_string s b' = (n, b') \<and> distinct (cb_strings b')"
proof -
  have t: "string_table.tracked b" using building_ok [OF assms(1)] by (simp add: builder_ok_def)
  have t': "string_table.tracked b'" using string_table.intern_tracked [OF t, of s] assms(3) by simp
  have "length (cb_strings b') \<le> length (cb_strings b) + 1"
    using assms(3) by (auto simp: add_string_def Let_def split: option.splits)
  then have "distinct (cb_strings b')" using string_table.tracked_distinct [OF t'] assms(2) by simp
  then show ?thesis
    using string_table.intern_lookup [OF t, of s] string_table.intern_grows [of s b]
      string_table.intern_again [OF t, of s] assms(2,3) by auto
qed

theorem add_string_interns_witness:
  "add_string [97] demo_builder = (1, demo_builder) \<and> distinct (cb_strings demo_builder)"
proof -
  have op: "add_string [97] demo_builder = (1, demo_builder)" by (simp add: run_demo)
  have "length (cb_strings demo_builder) + 2 < 2 ^ 32" by (simp add: run_demo)
  from add_string_interns [OF demo_building this op] op show ?thesis by simp
qed

text \<open>
  Interning constants. In any run, adding a constant gives the index at which the pool of the
  current proto holds it, earlier constants keep their indices, adding it again changes nothing and
  gives the same index.
\<close>

theorem add_constant_interns:
  assumes "building ws b" "length (bw_constants (cb_current b)) < 2 ^ 32" "add_constant k b = (n, b')"
  shows "get (bw_constants (cb_current b')) (unat n) = Some k
    \<and> (\<exists>more. bw_constants (cb_current b') = bw_constants (cb_current b) @ more)
    \<and> add_constant k b' = (n, b')"
proof -
  have t: "constant_pool.tracked b"
    using builder_okD [OF building_ok [OF assms(1)]] by (simp add: work_ok_def)
  show ?thesis
    using constant_pool.intern_lookup [OF t, of k] constant_pool.intern_grows [of k b]
      constant_pool.intern_again [OF t, of k] assms(2,3) by (auto simp: get_eq_Some)
qed

theorem add_constant_interns_witness:
  "add_constant (C_String 1) demo_builder = (0, demo_builder)
   \<and> get (bw_constants (cb_current demo_builder)) 0 = Some (C_String 1)"
proof -
  have op: "add_constant (C_String 1) demo_builder = (0, demo_builder)" by (simp add: run_demo)
  have "length (bw_constants (cb_current demo_builder)) < 2 ^ 32" by (simp add: run_demo)
  from add_constant_interns [OF demo_building this op] op show ?thesis by simp
qed

text \<open>
  Patching a fast call. When \<^verbatim>\<open>patch_skip_c_to_current\<close> succeeds on a fast-call instruction, that
  instruction jumps to the word the next emitted instruction will start at; when it reports failure
  nothing changed.
\<close>

theorem patch_skip_lands:
  assumes "building ws b" "patch_skip_c_to_current n b = Some (ok, b')"
    "i_opcode (current_code b ! n) \<in> {Op_FastCall, Op_FastCall1, Op_FastCall2, Op_FastCall2K, Op_FastCall3}"
  shows "if ok then \<exists>source. instruction_word_offset n b' = Some source \<and>
      jump_target_word (current_code b' ! n) source = Some (current_word_offset b')
    else b' = b"
proof (cases ok)
  case False
  then show ?thesis
    using assms(2) by (auto simp: patch_skip_c_to_current_def split: option.splits)
next
  case True
  then obtain source offset c i where src: "instruction_word_offset n b = Some source"
    and sub: "checked_sub (current_word_offset b) (source + 1) = Some offset"
    and c: "u8_try_from_u32 offset = Some c" and i: "get (current_code b) n = Some i"
    and b': "set_code_at n (abc_with_aux (i_opcode i) (i_a i) (i_b i) c (i_aux i)) b = Some b'"
    using assms(2) by (auto simp: patch_skip_c_to_current_def current_code_def split: option.splits)
  let ?i = "abc_with_aux (i_opcode i) (i_a i) (i_b i) c (i_aux i)"
  have "c = ucast offset" "unat offset < 2 ^ 8"
    using c by (auto simp: u8_try_from_u32_def split: if_splits)
  then have "take_bit 8 offset = offset"
    by (simp add: word_unat_eq_iff unsigned_take_bit_eq take_bit_nat_eq_self_iff)
  with \<open>c = ucast offset\<close> have "unat (ucast c :: u32) = unat offset"
    by (simp add: unsigned_ucast_eq)
  with sub have offset: "offset = current_word_offset b - (source + 1)" "ucast c = offset"
    by (simp_all add: checked_sub_eq_Some word_unat_eq_iff)
  have frame: "instruction_word_offset n b' = Some source" "current_word_offset b' = current_word_offset b"
    "current_code b' ! n = ?i"
    using b' src i by (auto simp: set_code_at_def instruction_word_offset_def current_word_offset_def
        current_code_def split: if_splits)
  have "jump_target_word ?i source = Some (current_word_offset b)"
    using assms(3) i offset by (auto simp: jump_target_word_def jump_offset_words_def get_eq_Some)
  with True frame show ?thesis by simp
qed

text \<open>A fast call with the instruction it skips.\<close>

definition fastcall_builder :: chunk_builder where
  "fastcall_builder = snd (emit (abc Op_Move 3 1 0) (snd (emit (abc Op_FastCall 29 1 0) chunk_builder_new)))"

lemma fastcall_building: "building [] fastcall_builder"
  unfolding fastcall_builder_def
  by (intro emit_one [OF _ _ _ surjective_pairing] start)
    (simp_all add: fits_instruction_def instruction_len_def current_code_def nat_word_len_def run_demo)

theorem patch_skip_lands_witness:
  "\<exists>b' source. patch_skip_c_to_current 0 fastcall_builder = Some (True, b')
     \<and> instruction_word_offset 0 b' = Some source
     \<and> jump_target_word (current_code b' ! 0) source = Some (current_word_offset b')"
proof -
  obtain b' where op: "patch_skip_c_to_current 0 fastcall_builder = Some (True, b')"
    by (simp add: fastcall_builder_def patch_skip_c_to_current_def instruction_word_offset_def
        current_word_offset_def get_def checked_sub_def u8_try_from_u32_def set_code_at_def run_demo)
  have "i_opcode (current_code fastcall_builder ! 0) = Op_FastCall"
    by (simp add: fastcall_builder_def current_code_def run_demo)
  then show ?thesis using patch_skip_lands [OF fastcall_building op] op by simp
qed

end
