(* ===== verification/String_Literals.thy ===== *)
theory String_Literals
  imports Builder
begin

text \<open>
  String literals of the parser, \<^verbatim>\<open>crates/ruau-syntax/src/parser/common.rs\<close>: escape sequences of quoted
  strings, newlines of long strings, and the text form in which the syntax tree keeps a byte string
  (\<^verbatim>\<open>ast_string_from_bytes\<close>). The chunk builder turns that text back into bytes
  (\<^verbatim>\<open>decode_ast_string_bytes\<close>); the properties at the end are about the two together.

  A loop over \<^verbatim>\<open>data[index..]\<close> is a recursion over the remaining bytes.
\<close>

section \<open>Escapes\<close>

definition hex_value :: "u8 \<Rightarrow> u8 option" where
  "hex_value b =
     (if 48 \<le> b \<and> b \<le> 57 then Some (b - 48)
      else if 97 \<le> b \<and> b \<le> 102 then Some (b - 97 + 10)
      else if 65 \<le> b \<and> b \<le> 70 then Some (b - 65 + 10)
      else None)"

definition is_luau_space :: "u8 \<Rightarrow> bool" where
  "is_luau_space b \<longleftrightarrow> b \<in> set [32, 10, 13, 9, 11, 12]"

definition unescape_luau_byte :: "u8 \<Rightarrow> u8" where
  "unescape_luau_byte b =
     (if b = 97 then 7 else if b = 98 then 8 else if b = 102 then 12 else if b = 110 then 10
      else if b = 114 then 13 else if b = 116 then 9 else if b = 118 then 11 else b)"

definition encode_luau_codepoint :: "u32 \<Rightarrow> bytes \<Rightarrow> bytes option" where
  "encode_luau_codepoint code out =
     (if code \<le> 0x7f then Some (out @ [ucast code])
      else if code \<le> 0x7ff then
        Some (out @ [0xc0 OR ucast (drop_bit 6 code), 0x80 OR ucast (code AND 0x3f)])
      else if code \<le> 0xffff then
        Some (out @ [0xe0 OR ucast (drop_bit 12 code), 0x80 OR ucast (drop_bit 6 code AND 0x3f),
          0x80 OR ucast (code AND 0x3f)])
      else if code \<le> 0x10ffff then
        Some (out @ [0xf0 OR ucast (drop_bit 18 code), 0x80 OR ucast (drop_bit 12 code AND 0x3f),
          0x80 OR ucast (drop_bit 6 code AND 0x3f), 0x80 OR ucast (code AND 0x3f)])
      else None)"

text \<open>The digits of \<^verbatim>\<open>\u{...}\<close>: at most 16 of them, each step with checked arithmetic.\<close>

definition checked_mul :: "'a::len word \<Rightarrow> 'a word \<Rightarrow> 'a word option" where
  "checked_mul x y = (if unat x * unat y < 2 ^ LENGTH('a) then Some (x * y) else None)"

fun unicode_digits :: "nat \<Rightarrow> u32 \<Rightarrow> bytes \<Rightarrow> (u32 \<times> bytes) option" where
  "unicode_digits 0 code tail = Some (code, tail)"
| "unicode_digits (Suc n) code [] = None"
| "unicode_digits (Suc n) code (b # tail) =
     (if b = 125 then Some (code, b # tail)
      else
        (case checked_mul code 16 of
           None \<Rightarrow> None
         | Some c \<Rightarrow>
             (case hex_value b of
                None \<Rightarrow> None
              | Some d \<Rightarrow>
                  (case checked_add c (ucast d) of
                     None \<Rightarrow> None
                   | Some c' \<Rightarrow> unicode_digits n c' tail))))"

text \<open>At most two tail decimal digits.\<close>

fun decimal_digits :: "nat \<Rightarrow> u32 \<Rightarrow> bytes \<Rightarrow> u32 \<times> bytes" where
  "decimal_digits 0 code tail = (code, tail)"
| "decimal_digits (Suc n) code [] = (code, [])"
| "decimal_digits (Suc n) code (b # tail) =
     (if 48 \<le> b \<and> b \<le> 57 then decimal_digits n (code * 10 + ucast (b - 48)) tail else (code, b # tail))"

text \<open>One escape: the bytes it adds to the output and the input behind it.\<close>

definition apply_escape :: "u8 \<Rightarrow> bytes \<Rightarrow> bytes \<Rightarrow> (bytes \<times> bytes) option" where
  "apply_escape escape tail out =
     (if escape = 10 then Some (out @ [10], tail)
      else if escape = 13 then
        Some (out @ [10], if tail \<noteq> [] \<and> hd tail = 10 then tl tail else tail)
      else if escape = 0 then None
      else if escape = 120 then
        (case tail of
           h # l # tail' \<Rightarrow>
             (case hex_value h of
                None \<Rightarrow> None
              | Some high \<Rightarrow>
                  (case hex_value l of
                     None \<Rightarrow> None
                   | Some low \<Rightarrow> Some (out @ [high * 16 + low], tail')))
         | _ \<Rightarrow> None)
      else if escape = 122 then Some (out, dropWhile is_luau_space tail)
      else if escape = 117 then
        (case tail of
           b # tail' \<Rightarrow>
             if b \<noteq> 123 then None
             else if tail' \<noteq> [] \<and> hd tail' = 125 then None
             else
               (case unicode_digits 16 0 tail' of
                  Some (code, c # tail'') \<Rightarrow>
                    if c \<noteq> 125 then None
                    else map_option (\<lambda>out'. (out', tail'')) (encode_luau_codepoint code out)
                | _ \<Rightarrow> None)
         | [] \<Rightarrow> None)
      else if 48 \<le> escape \<and> escape \<le> 57 then
        (let (code, tail') = decimal_digits 2 (ucast (escape - 48)) tail in
         if 255 < code then None else Some (out @ [ucast code], tail'))
      else Some (out @ [unescape_luau_byte escape], tail))"

lemma unicode_digits_length: "unicode_digits n code tail = Some (c, tail') \<Longrightarrow> length tail' \<le> length tail"
  by (induction n code tail rule: unicode_digits.induct) (fastforce split: if_splits option.splits)+

lemma decimal_digits_length: "decimal_digits n code tail = (c, tail') \<Longrightarrow> length tail' \<le> length tail"
  by (induction n code tail rule: decimal_digits.induct) (fastforce split: if_splits)+

lemma apply_escape_length: "apply_escape e tail out = Some (out', tail') \<Longrightarrow> length tail' \<le> length tail"
  unfolding apply_escape_def
  by (auto simp: Let_def length_dropWhile_le dest!: unicode_digits_length decimal_digits_length
      split: if_splits list.splits option.splits prod.splits)

function fixup_quoted_loop :: "bytes \<Rightarrow> bytes \<Rightarrow> bytes option" where
  "fixup_quoted_loop [] out = Some out"
| "fixup_quoted_loop (b # tail) out =
     (if b \<noteq> 92 then fixup_quoted_loop tail (out @ [b])
      else
        (case tail of
           [] \<Rightarrow> None
         | escape # tail' \<Rightarrow>
             (case apply_escape escape tail' out of
                None \<Rightarrow> None
              | Some (out', tail'') \<Rightarrow> fixup_quoted_loop tail'' out')))"
  by pat_completeness auto
termination
  by (relation "measure (\<lambda>(tail, out). length tail)") (auto dest!: apply_escape_length)

declare fixup_quoted_loop.simps [simp del]

definition fixup_quoted_string_bytes :: "bytes \<Rightarrow> bytes option" where
  "fixup_quoted_string_bytes data = fixup_quoted_loop data []"

section \<open>Long strings\<close>

fun multiline_loop :: "bytes \<Rightarrow> bytes" where
  "multiline_loop [] = []"
| "multiline_loop [b] = [b]"
| "multiline_loop (b # c # tail) =
     (if b = 13 \<and> c = 10 then 10 # multiline_loop tail else b # multiline_loop (c # tail))"

definition fixup_multiline_string_bytes :: "bytes \<Rightarrow> bytes" where
  "fixup_multiline_string_bytes data =
     multiline_loop
       (if take 2 data = [13, 10] then drop 2 data else if take 1 data = [10] then drop 1 data else data)"

section \<open>The text form of a byte string\<close>

text \<open>
  \<^verbatim>\<open>str::from_utf8\<close>: the first character of a byte string with its length, or the length of the
  invalid sequence (\<^verbatim>\<open>error_len\<close>), where \<open>None\<close> says that the input ends inside a character.
\<close>

definition continuation :: "u8 \<Rightarrow> bool" where
  "continuation b \<longleftrightarrow> 0x80 \<le> unat b \<and> unat b \<le> 0xbf"

text \<open>The bounds of the second byte of a character of three or four bytes.\<close>

definition second_ok :: "nat \<Rightarrow> nat \<Rightarrow> bool" where
  "second_ok b0 b1 \<longleftrightarrow>
     (if b0 = 0xe0 then 0xa0 \<le> b1 \<and> b1 \<le> 0xbf
      else if b0 = 0xed then 0x80 \<le> b1 \<and> b1 \<le> 0x9f
      else if b0 = 0xf0 then 0x90 \<le> b1 \<and> b1 \<le> 0xbf
      else if b0 = 0xf4 then 0x80 \<le> b1 \<and> b1 \<le> 0x8f
      else 0x80 \<le> b1 \<and> b1 \<le> 0xbf)"

definition char_width :: "u8 \<Rightarrow> nat" where
  "char_width b =
     (if unat b < 0x80 then 1 else if 0xc2 \<le> unat b \<and> unat b \<le> 0xdf then 2
      else if 0xe0 \<le> unat b \<and> unat b \<le> 0xef then 3
      else if 0xf0 \<le> unat b \<and> unat b \<le> 0xf4 then 4 else 0)"

text \<open>The scalar value of a character of the given bytes.\<close>

fun scalar :: "bytes \<Rightarrow> nat" where
  "scalar [a] = unat a"
| "scalar [a, b] = (unat a - 0xc0) * 0x40 + (unat b - 0x80)"
| "scalar [a, b, c] = (unat a - 0xe0) * 0x1000 + (unat b - 0x80) * 0x40 + (unat c - 0x80)"
| "scalar [a, b, c, d] =
     (unat a - 0xf0) * 0x40000 + (unat b - 0x80) * 0x1000 + (unat c - 0x80) * 0x40 + (unat d - 0x80)"
| "scalar _ = 0"

text \<open>The number of bytes of a valid character at the front, or the length of the error.\<close>

definition utf8_front :: "bytes \<Rightarrow> nat option + nat" where
  "utf8_front bs =
     (let w = char_width (hd bs) in
      if w = 0 then Inl (Some 1)
      else if w = 1 then Inr 1
      else if length bs < 2 then Inl None
      else if w = 2 then (if continuation (bs ! 1) then Inr 2 else Inl (Some 1))
      else if \<not> second_ok (unat (hd bs)) (unat (bs ! 1)) then Inl (Some 1)
      else if length bs < 3 then Inl None
      else if \<not> continuation (bs ! 2) then Inl (Some 2)
      else if w = 3 then Inr 3
      else if length bs < 4 then Inl None
      else if \<not> continuation (bs ! 3) then Inl (Some 3)
      else Inr 4)"

text \<open>Rust's \<^verbatim>\<open>{byte:02x}\<close>.\<close>

definition hex_char :: "nat \<Rightarrow> nat" where
  "hex_char d = (if d < 10 then 48 + d else 87 + d)"

definition byte_marker :: "u8 \<Rightarrow> nat list" where
  "byte_marker b = [0xffff, 102, 102, hex_char (unat b div 16), hex_char (unat b mod 16)]"

lemma utf8_front_bounds:
  assumes "bs \<noteq> []"
  shows "utf8_front bs = Inr n \<Longrightarrow> 0 < n \<and> n \<le> length bs"
    and "utf8_front bs = Inl (Some n) \<Longrightarrow> 0 < n \<and> n \<le> length bs"
  using assms by (auto simp: utf8_front_def Let_def Suc_le_eq length_greater_0_conv [symmetric] simp del: length_greater_0_conv
      split: if_splits)

text \<open>
  The outer loop pushes the longest valid prefix and then a marker for every byte of the invalid
  sequence behind it; here one character or one invalid sequence at a time.
\<close>

function ast_string_from_bytes :: "bytes \<Rightarrow> nat list" where
  "ast_string_from_bytes bs =
     (if bs = [] then []
      else
        (case utf8_front bs of
           Inr n \<Rightarrow> scalar (take n bs) # ast_string_from_bytes (drop n bs)
         | Inl error_len \<Rightarrow>
             (let n = (case error_len of Some n \<Rightarrow> n | None \<Rightarrow> length bs) in
              concat (map byte_marker (take n bs)) @ ast_string_from_bytes (drop n bs))))"
  by pat_completeness auto
termination
proof (relation "measure length", goal_cases)
  case (2 bs)
  then show ?case using utf8_front_bounds(2) [of bs] by (auto split: option.splits)
next
  case (3 bs n)
  then show ?case using utf8_front_bounds(1) [of bs n] by simp
qed simp

declare ast_string_from_bytes.simps [simp del]

section \<open>From text back to bytes\<close>

lemma hex_digit_char: "d < 16 \<Longrightarrow> hex_digit (hex_char d) = Some d"
  by (auto simp: hex_digit_def hex_char_def)

lemma hex_char_ascii: "d < 16 \<Longrightarrow> 48 \<le> hex_char d \<and> hex_char d < 128"
  by (auto simp: hex_char_def)

lemma marked_byte_marker: "marked_byte ([102, 102, hex_char (unat b div 16), hex_char (unat b mod 16)] @ cs) = Some b"
proof -
  let ?h = "unat b div 16" and ?l = "unat b mod 16"
  have h: "?h < 16" "?l < 16" using unat_bounds(1) [of b] by (simp_all add: div_less_iff_less_mult)
  have "hex_char ?h \<noteq> 43" using hex_char_ascii [OF h(1)] by simp
  moreover have "16 * ?h + ?l = unat b" by simp
  ultimately show ?thesis
    using h hex_char_ascii [OF h(1)] hex_char_ascii [OF h(2)]
    by (simp add: marked_byte_def encode_utf8_def u8_from_str_radix_16_def hex_digit_char)
qed

lemma decode_marker: "decode_ast_string_bytes (byte_marker b @ cs) = b # decode_ast_string_bytes cs"
  using marked_byte_marker [of b cs] by (simp add: byte_marker_def)

lemma decode_markers: "decode_ast_string_bytes (concat (map byte_marker bs) @ cs) = bs @ decode_ast_string_bytes cs"
  by (induction bs) (simp_all add: decode_marker)

lemma decode_plain: "c \<noteq> 0xffff \<Longrightarrow> decode_ast_string_bytes (c # cs) = encode_utf8 c @ decode_ast_string_bytes cs"
  by simp

text \<open>The bytes of a valid character are the UTF-8 encoding of its scalar value.\<close>

lemma utf8_front_shape:
  assumes "bs \<noteq> []" "utf8_front bs = Inr n"
  obtains (one) a t where "bs = a # t" "n = 1" "unat a < 0x80"
  | (two) a b t x y where "bs = a # b # t" "n = 2" "unat a = 0xc0 + x" "unat b = 0x80 + y" "2 \<le> x" "x < 32" "y < 64"
  | (three) a b c t x y z where "bs = a # b # c # t" "n = 3" "unat a = 0xe0 + x" "unat b = 0x80 + y"
      "unat c = 0x80 + z" "x < 16" "y < 64" "z < 64" "x = 0 \<Longrightarrow> 32 \<le> y"
  | (four) a b c d t x y z u where "bs = a # b # c # d # t" "n = 4" "unat a = 0xf0 + x" "unat b = 0x80 + y"
      "unat c = 0x80 + z" "unat d = 0x80 + u" "x < 5" "y < 64" "z < 64" "u < 64" "x = 0 \<Longrightarrow> 16 \<le> y" "x = 4 \<Longrightarrow> y < 16"
proof -
  have "n = 1 \<and> unat (hd bs) < 0x80
      \<or> n = 2 \<and> 2 \<le> length bs \<and> 0xc2 \<le> unat (hd bs) \<and> unat (hd bs) \<le> 0xdf \<and> continuation (bs ! 1)
      \<or> n = 3 \<and> 3 \<le> length bs \<and> 0xe0 \<le> unat (hd bs) \<and> unat (hd bs) \<le> 0xef
          \<and> second_ok (unat (hd bs)) (unat (bs ! 1)) \<and> continuation (bs ! 2)
      \<or> n = 4 \<and> 4 \<le> length bs \<and> 0xf0 \<le> unat (hd bs) \<and> unat (hd bs) \<le> 0xf4
          \<and> second_ok (unat (hd bs)) (unat (bs ! 1)) \<and> continuation (bs ! 2) \<and> continuation (bs ! 3)"
    using assms(2) by (auto simp: utf8_front_def char_width_def Let_def split: if_splits)
  then show thesis
  proof (elim disjE conjE)
    assume "n = 1" "unat (hd bs) < 0x80"
    then show thesis using assms(1) one [of "hd bs" "tl bs"] by simp
  next
    assume h: "n = 2" "2 \<le> length bs" "0xc2 \<le> unat (hd bs)" "unat (hd bs) \<le> 0xdf" "continuation (bs ! 1)"
    then obtain a b t where bs: "bs = a # b # t" by (cases bs; cases "tl bs") auto
    show thesis
      using h two [OF bs, of "unat a - 0xc0" "unat b - 0x80"] by (simp add: bs continuation_def) linarith?
  next
    assume h: "n = 3" "3 \<le> length bs" "0xe0 \<le> unat (hd bs)" "unat (hd bs) \<le> 0xef"
      "second_ok (unat (hd bs)) (unat (bs ! 1))" "continuation (bs ! 2)"
    then obtain a b c t where bs: "bs = a # b # c # t" by (cases bs; cases "tl bs"; cases "tl (tl bs)") auto
    have "0x80 \<le> unat b \<and> unat b \<le> 0xbf \<and> (unat a = 0xe0 \<longrightarrow> 0xa0 \<le> unat b)"
      using h(5) by (auto simp: bs second_ok_def split: if_splits)
    then show thesis
      using h three [OF bs, of "unat a - 0xe0" "unat b - 0x80" "unat c - 0x80"]
      by (simp add: bs continuation_def numeral_2_eq_2) linarith?
  next
    assume h: "n = 4" "4 \<le> length bs" "0xf0 \<le> unat (hd bs)" "unat (hd bs) \<le> 0xf4"
      "second_ok (unat (hd bs)) (unat (bs ! 1))" "continuation (bs ! 2)" "continuation (bs ! 3)"
    then obtain a b c d t where bs: "bs = a # b # c # d # t"
      by (cases bs; cases "tl bs"; cases "tl (tl bs)"; cases "tl (tl (tl bs))") auto
    have "0x80 \<le> unat b \<and> unat b \<le> 0xbf \<and> (unat a = 0xf0 \<longrightarrow> 0x90 \<le> unat b) \<and> (unat a = 0xf4 \<longrightarrow> unat b \<le> 0x8f)"
      using h(3,4,5) by (auto simp: bs second_ok_def split: if_splits)
    then show thesis
      using h four [OF bs, of "unat a - 0xf0" "unat b - 0x80" "unat c - 0x80" "unat d - 0x80"]
      by (simp add: bs continuation_def numeral_2_eq_2 numeral_3_eq_3) linarith?
  qed
qed

lemma three_digits:
  assumes "y < 64" "z < 64"
  shows "(x * 0x1000 + y * 0x40 + z) div 0x1000 = x" "(x * 0x1000 + y * 0x40 + z) div 0x40 mod 0x40 = y"
    "(x * 0x1000 + y * 0x40 + z) mod 0x40 = (z :: nat)"
proof -
  have c: "x * 0x1000 + y * 0x40 + z = (x * 0x40 + y) * 0x40 + z" by simp
  have d: "(x * 0x1000 + y * 0x40 + z) div 0x40 = x * 0x40 + y" unfolding c using assms(2) by simp
  have "(x * 0x1000 + y * 0x40 + z) div 0x1000 = (x * 0x1000 + y * 0x40 + z) div 0x40 div 0x40"
    by (simp flip: div_mult2_eq)
  then show "(x * 0x1000 + y * 0x40 + z) div 0x1000 = x" using d assms(1) by simp
  show "(x * 0x1000 + y * 0x40 + z) div 0x40 mod 0x40 = y" using d assms(1) by simp
  show "(x * 0x1000 + y * 0x40 + z) mod 0x40 = z" unfolding c using assms(2) by (metis mod_less mod_mult_self3)
qed

lemma four_digits:
  assumes "y < 64" "z < 64" "u < 64"
  shows "(x * 0x40000 + y * 0x1000 + z * 0x40 + u) div 0x40000 = x"
    "(x * 0x40000 + y * 0x1000 + z * 0x40 + u) div 0x1000 mod 0x40 = y"
    "(x * 0x40000 + y * 0x1000 + z * 0x40 + u) div 0x40 mod 0x40 = z"
    "(x * 0x40000 + y * 0x1000 + z * 0x40 + u) mod 0x40 = (u :: nat)"
proof -
  have c: "x * 0x40000 + y * 0x1000 + z * 0x40 + u = (x * 0x40 + y) * 0x1000 + z * 0x40 + u" by simp
  note d = three_digits [OF assms(2,3), of "x * 0x40 + y"]
  have "(x * 0x40000 + y * 0x1000 + z * 0x40 + u) div 0x40000
      = (x * 0x40000 + y * 0x1000 + z * 0x40 + u) div 0x1000 div 0x40"
    by (simp flip: div_mult2_eq)
  then show "(x * 0x40000 + y * 0x1000 + z * 0x40 + u) div 0x40000 = x" using d(1) assms(1) by (simp add: c)
  show "(x * 0x40000 + y * 0x1000 + z * 0x40 + u) div 0x1000 mod 0x40 = y" using d(1) assms(1) by (simp add: c)
  show "(x * 0x40000 + y * 0x1000 + z * 0x40 + u) div 0x40 mod 0x40 = z"
    "(x * 0x40000 + y * 0x1000 + z * 0x40 + u) mod 0x40 = u"
    using d(2,3) by (simp_all only: c)
qed

lemma of_nat_unat_eq: "unat (b :: u8) = n \<Longrightarrow> of_nat n = b"
  by auto

lemma utf8_front_encode:
  assumes "bs \<noteq> []" "utf8_front bs = Inr n"
  shows "encode_utf8 (scalar (take n bs)) = take n bs"
  using assms
proof (cases rule: utf8_front_shape)
  case (one a t)
  then show ?thesis by (simp add: encode_utf8_def)
next
  case (two a b t x y)
  have "(x * 0x40 + y) div 0x40 = x" "(x * 0x40 + y) mod 0x40 = y" using two by simp_all
  then show ?thesis
    using two of_nat_unat_eq [OF two(3)] of_nat_unat_eq [OF two(4)] by (simp add: encode_utf8_def)
next
  case (three a b c t x y z)
  let ?c = "x * 0x1000 + y * 0x40 + z"
  note three_digits [OF three(7,8), of x]
  moreover have "0x800 \<le> ?c" "?c < 0x10000" using three by (cases "x = 0"; simp)+
  ultimately show ?thesis
    using three of_nat_unat_eq [OF three(3)] of_nat_unat_eq [OF three(4)] of_nat_unat_eq [OF three(5)]
    by (simp add: encode_utf8_def)
next
  case (four a b c d t x y z u)
  let ?c = "x * 0x40000 + y * 0x1000 + z * 0x40 + u"
  note four_digits [OF four(8,9,10), of x]
  moreover have "0x10000 \<le> ?c" using four by (cases "x = 0"; simp)
  ultimately show ?thesis
    using four of_nat_unat_eq [OF four(3)] of_nat_unat_eq [OF four(4)] of_nat_unat_eq [OF four(5)]
      of_nat_unat_eq [OF four(6)]
    by (simp add: encode_utf8_def)
qed

lemma scalar_ffff:
  assumes "bs \<noteq> []" "utf8_front bs = Inr n" "scalar (take n bs) = 0xffff"
  shows "take 3 bs = [0xef, 0xbf, 0xbf]"
  using assms(1,2)
proof (cases rule: utf8_front_shape)
  case (three a b c t x y z)
  then have "x * 0x1000 + y * 0x40 + z = 0xffff" using assms(3) by simp
  then have "x = 15" "y = 63" "z = 63" using three_digits [OF three(7,8), of x] by simp_all
  then show ?thesis
    using three of_nat_unat_eq [OF three(3)] of_nat_unat_eq [OF three(4)] of_nat_unat_eq [OF three(5)]
    by simp
next
  case (four a b c d t x y z u)
  then have "x * 0x40000 + y * 0x1000 + z * 0x40 + u = 0xffff" using assms(3) by simp
  then show ?thesis using four by (cases "x = 0"; simp)
qed (use assms(3) in auto)

text \<open>
  A byte string contains the encoding of U+FFFF somewhere.
\<close>

fun has_ffff :: "bytes \<Rightarrow> bool" where
  "has_ffff [] = False"
| "has_ffff (b # bs) = (take 3 (b # bs) = [0xef, 0xbf, 0xbf] \<or> has_ffff bs)"

lemma has_ffff_drop: "has_ffff (drop n bs) \<Longrightarrow> has_ffff bs"
proof (induction bs arbitrary: n)
  case (Cons b bs)
  then show ?case by (cases n) auto
qed simp

lemma has_ffff_front: "take 3 bs = [0xef, 0xbf, 0xbf] \<Longrightarrow> has_ffff bs"
  by (cases bs) auto

lemma decode_ast_string:
  assumes "\<not> has_ffff bs"
  shows "decode_ast_string_bytes (ast_string_from_bytes bs) = bs"
  using assms
proof (induction "length bs" arbitrary: bs rule: less_induct)
  case less
  note unfold = ast_string_from_bytes.simps [of bs]
  show ?case
  proof (cases "bs = []")
    case False
    have IH: "decode_ast_string_bytes (ast_string_from_bytes (drop n bs)) = drop n bs" if "0 < n" for n
      using less.hyps [of "drop n bs"] less.prems has_ffff_drop that False by fastforce
    show ?thesis
    proof (cases "utf8_front bs")
      case (Inr n)
      have "scalar (take n bs) \<noteq> 0xffff"
        using scalar_ffff [OF False Inr] less.prems has_ffff_front by blast
      then show ?thesis
        using False Inr IH utf8_front_bounds(1) [OF False Inr] utf8_front_encode [OF False Inr]
        by (simp add: unfold decode_plain del: decode_ast_string_bytes.simps)
    next
      case (Inl e)
      define n where "n = (case e of Some n \<Rightarrow> n | None \<Rightarrow> length bs)"
      have "0 < n" using utf8_front_bounds(2) [OF False] Inl False by (auto simp: n_def split: option.splits)
      then show ?thesis
        using False Inl IH by (simp add: unfold decode_markers flip: n_def del: decode_ast_string_bytes.simps)
    qed
  qed (subst ast_string_from_bytes.simps, simp)
qed

section \<open>Spelling bytes in a quoted literal\<close>

text \<open>A byte as itself, as a hexadecimal escape, and as a decimal escape of three digits.\<close>

definition hex_escape :: "u8 \<Rightarrow> bytes" where
  "hex_escape b = [92, 120, of_nat (hex_char (unat b div 16)), of_nat (hex_char (unat b mod 16))]"

definition decimal_escape :: "u8 \<Rightarrow> bytes" where
  "decimal_escape b =
     [92, of_nat (48 + unat b div 100), of_nat (48 + unat b div 10 mod 10), of_nat (48 + unat b mod 10)]"

definition spellings :: "u8 \<Rightarrow> bytes list" where
  "spellings b = (if b = 92 then [] else [[b]]) @ [hex_escape b, decimal_escape b]"

lemma hex_value_char:
  assumes "d < 16"
  shows "hex_value (of_nat (hex_char d)) = Some (of_nat d)"
proof -
  have "\<forall>d \<in> set [0..<16]. hex_value (of_nat (hex_char d)) = Some (of_nat d)" by code_simp
  with assms show ?thesis by simp
qed

lemma loop_plain: "b \<noteq> 92 \<Longrightarrow> fixup_quoted_loop (b # tail) out = fixup_quoted_loop tail (out @ [b])"
  by (simp add: fixup_quoted_loop.simps)

lemma loop_hex: "fixup_quoted_loop (hex_escape b @ tail) out = fixup_quoted_loop tail (out @ [b])"
proof -
  have d: "unat b div 16 < 16" "unat b mod 16 < 16"
    using unat_bounds(1) [of b] by (simp_all add: div_less_iff_less_mult)
  have "(of_nat (unat b div 16) * 16 + of_nat (unat b mod 16) :: u8) = of_nat (unat b div 16 * 16 + unat b mod 16)"
    by (simp only: of_nat_add of_nat_mult of_nat_numeral)
  then have "(of_nat (unat b div 16) * 16 + of_nat (unat b mod 16) :: u8) = b" by simp
  then show ?thesis
    by (simp add: hex_escape_def fixup_quoted_loop.simps(2) apply_escape_def hex_value_char d)
qed

lemma decimal_digit_byte:
  assumes "d < 10"
  shows "(48 :: u8) \<le> of_nat (48 + d) \<and> of_nat (48 + d) \<le> (57 :: u8) \<and> (of_nat (48 + d) :: u8) - 48 = of_nat d
    \<and> (of_nat (48 + d) :: u8) \<notin> {0, 10, 13, 117, 120, 122}"
proof -
  have "\<forall>d \<in> set [0..<10]. (48 :: u8) \<le> of_nat (48 + d) \<and> of_nat (48 + d) \<le> (57 :: u8)
    \<and> (of_nat (48 + d) :: u8) - 48 = of_nat d \<and> (of_nat (48 + d) :: u8) \<notin> {0, 10, 13, 117, 120, 122}" by code_simp
  with assms show ?thesis by simp
qed

lemma loop_decimal: "fixup_quoted_loop (decimal_escape b @ tail) out = fixup_quoted_loop tail (out @ [b])"
proof -
  define x y z where "x = unat b div 100" and "y = unat b div 10 mod 10" and "z = unat b mod 10"
  have "unat b < 1000" by (rule order_less_trans [OF unat_bounds(1)]) simp
  then have d: "x < 10" "y < 10" "z < 10"
    by (simp_all add: x_def y_def z_def div_less_iff_less_mult)
  have "x = unat b div 10 div 10" by (simp add: x_def flip: div_mult2_eq)
  then have "unat b div 10 = x * 10 + y" by (simp add: y_def)
  then have sum: "(x * 10 + y) * 10 + z = unat b" by (metis div_mult_mod_eq z_def)
  have code: "((of_nat x * 10 + of_nat y) * 10 + of_nat z :: u32) = of_nat (unat b)"
    unfolding sum [symmetric] by (simp only: of_nat_add of_nat_mult of_nat_numeral)
  have small: "\<not> 255 < (of_nat (unat b) :: u32)" "(ucast (of_nat (unat b) :: u32) :: u8) = b"
    using unat_bounds(1) [of b]
    by (simp_all add: word_less_nat_alt word_unat_eq_iff unsigned_ucast_eq take_bit_word_eq_self not_less
        less_Suc_eq_le [symmetric] order_le_less_trans [OF take_bit_nat_less_eq_self])
  have wide: "(ucast (of_nat n :: u8) :: u32) = of_nat n" if "n < 10" for n
    using that by (simp add: word_unat_eq_iff unsigned_ucast_eq unsigned_of_nat take_bit_nat_eq_self)
  have esc: "decimal_escape b = [92, of_nat (48 + x), of_nat (48 + y), of_nat (48 + z)]"
    by (simp add: decimal_escape_def x_def y_def z_def)
  show ?thesis
    using decimal_digit_byte [OF d(1)] decimal_digit_byte [OF d(2)] decimal_digit_byte [OF d(3)] small code
    by (simp add: esc fixup_quoted_loop.simps(2) apply_escape_def numeral_2_eq_2 wide d del: of_nat_add)
qed

lemma loop_spelling: "p \<in> set (spellings b) \<Longrightarrow> fixup_quoted_loop (p @ tail) out = fixup_quoted_loop tail (out @ [b])"
  by (auto simp: spellings_def loop_plain loop_hex loop_decimal split: if_splits)

lemma fixup_spellings:
  "list_all2 (\<lambda>b p. p \<in> set (spellings b)) bs ps \<Longrightarrow> fixup_quoted_loop (concat ps) out = Some (out @ bs)"
  by (induction arbitrary: out rule: list_all2_induct) (simp_all add: fixup_quoted_loop.simps(1) loop_spelling)

text \<open>The parser's own UTF-8 encoder is the standard one, extended to surrogates.\<close>

lemma or_high_bits:
  fixes h b :: u8
  assumes "unat b < 2 ^ k" "h AND mask k = 0"
  shows "h OR b = h + b"
proof (rule disjunctive_add [symmetric])
  fix n
  have "b = take_bit k b"
    using assms(1) by (simp add: word_unat_eq_iff unsigned_take_bit_eq take_bit_nat_eq_self)
  then have "bit b n \<Longrightarrow> n < k" by (metis bit_take_bit_iff)
  moreover have "bit (h AND mask k) n = (bit h n \<and> n < k \<and> n < 8)"
    by (auto simp: bit_simps)
  ultimately show "\<not> bit h n \<or> \<not> bit b n"
    using assms(2) bit_imp_le_length [of h n] by auto
qed

lemma codepoint_byte:
  fixes code :: u32
  assumes "unat code div 2 ^ j < 2 ^ k" "h AND mask k = 0" "k \<le> 8"
  shows "(h :: u8) OR ucast (drop_bit j code) = h + of_nat (unat code div 2 ^ j)"
proof -
  have "unat (drop_bit j code) = unat code div 2 ^ j"
    unfolding unat_drop_bit_eq by (simp add: drop_bit_eq_div)
  then have u: "(ucast (drop_bit j code) :: u8) = of_nat (unat code div 2 ^ j)"
    by (metis of_nat_unat)
  have "unat (of_nat (unat code div 2 ^ j) :: u8) = unat code div 2 ^ j"
    using assms(1,3) power_increasing [of k 8 "2 :: nat"] by (intro unat_of_nat_eq) simp
  then show ?thesis unfolding u using assms by (intro or_high_bits) simp_all
qed

lemma low_six: "(ucast (c AND 0x3f) :: u8) = of_nat (unat (c :: u32) mod 64)"
proof -
  have "(0x3f :: u32) = mask 6" by (simp add: mask_eq_exp_minus_1)
  then have "c AND 0x3f = take_bit 6 c" by (simp only: take_bit_eq_mask)
  then have "unat (c AND 0x3f) = unat c mod 64" by (simp add: take_bit_eq_mod unat_mod)
  then show ?thesis by (metis of_nat_unat)
qed

lemma continuation_byte: "(0x80 :: u8) OR ucast (drop_bit j code AND 0x3f) = of_nat (0x80 + unat (code :: u32) div 2 ^ j mod 64)"
proof -
  have "unat (drop_bit j code) = unat code div 2 ^ j"
    unfolding unat_drop_bit_eq by (simp add: drop_bit_eq_div)
  then have u: "(ucast (drop_bit j code AND 0x3f) :: u8) = of_nat (unat code div 2 ^ j mod 64)"
    by (simp add: low_six)
  have "unat (of_nat (unat code div 2 ^ j mod 64) :: u8) < 2 ^ 6"
    by (simp add: unsigned_of_nat take_bit_nat_eq_self_iff take_bit_nat_less_self_iff order_le_less_trans [OF take_bit_nat_less_eq_self])
  then show ?thesis unfolding u by (subst or_high_bits [of _ 6]) (simp_all add: mask_eq_exp_minus_1)
qed

lemma encode_codepoint_eq:
  "encode_luau_codepoint code out = (if code \<le> 0x10ffff then Some (out @ encode_utf8 (unat code)) else None)"
proof -
  have c0: "(0x80 :: u8) OR ucast (code AND 0x3f) = of_nat (0x80 + unat code mod 64)"
    using continuation_byte [of 0 code] by simp
  have lead: "(0xc0 :: u8) OR ucast (drop_bit 6 code) = of_nat (0xc0 + unat code div 64)" if "code \<le> 0x7ff"
    using codepoint_byte [of code 6 5 "0xc0"] that
    by (simp add: word_le_nat_alt mask_eq_exp_minus_1 div_less_iff_less_mult)
  have lead3: "(0xe0 :: u8) OR ucast (drop_bit 12 code) = of_nat (0xe0 + unat code div 0x1000)" if "code \<le> 0xffff"
    using codepoint_byte [of code 12 4 "0xe0"] that
    by (simp add: word_le_nat_alt mask_eq_exp_minus_1 div_less_iff_less_mult)
  have lead4: "(0xf0 :: u8) OR ucast (drop_bit 18 code) = of_nat (0xf0 + unat code div 0x40000)" if "code \<le> 0x10ffff"
    using codepoint_byte [of code 18 3 "0xf0"] that
    by (simp add: word_le_nat_alt mask_eq_exp_minus_1 div_less_iff_less_mult)
  show ?thesis
    using c0 continuation_byte [of 6 code] continuation_byte [of 12 code] lead lead3 lead4
    by (auto simp: encode_luau_codepoint_def encode_utf8_def word_le_nat_alt)
qed

section \<open>Properties of string literals\<close>

text \<open>
  Every byte string can be written as a quoted literal. Whichever way each byte is spelled, as
  itself unless it is the backslash, as a hexadecimal escape or as a three-digit decimal escape,
  the literal stands for exactly those bytes.
\<close>

theorem quoted_literal_roundtrip:
  assumes "list_all2 (\<lambda>b p. p \<in> set (spellings b)) bs ps"
  shows "fixup_quoted_string_bytes (concat ps) = Some bs"
  using fixup_spellings [OF assms, of "[]"] by (simp add: fixup_quoted_string_bytes_def)

theorem quoted_literal_roundtrip_witness:
  "fixup_quoted_string_bytes (concat [[97], hex_escape 92, decimal_escape 0]) = Some [97, 92, 0]"
  by (rule quoted_literal_roundtrip) (simp add: spellings_def)

text \<open>
  The parser's encoder of \<^verbatim>\<open>\u{...}\<close> escapes accepts exactly the code points up to U+10FFFF, surrogates
  included, and appends their UTF-8 encoding.
\<close>

theorem codepoint_encoding:
  "encode_luau_codepoint code out = (if code \<le> 0x10ffff then Some (out @ encode_utf8 (unat code)) else None)"
  by (rule encode_codepoint_eq)

text \<open>
  C40: The text form of a byte string is faithful. For every byte string that does not contain the
  encoding of U+FFFF, valid UTF-8 or not, the builder's decoder gives back exactly the bytes from which
  the parser made the text.
\<close>

theorem ast_string_roundtrip:
  assumes "\<not> has_ffff bs"
  shows "decode_ast_string_bytes (ast_string_from_bytes bs) = bs"
  by (rule decode_ast_string [OF assms])

theorem ast_string_roundtrip_witness:
  "decode_ast_string_bytes (ast_string_from_bytes [97, 0xff, 0xe2, 0x82]) = [97, 0xff, 0xe2, 0x82]"
  by (rule ast_string_roundtrip) simp

text \<open>
  The decoder takes a genuine U+FFFF for a marker. The seven bytes of the literal \<^verbatim>\<open>"\u{FFFF}ffc8"\<close>,
  valid UTF-8 that the parser keeps as it is, come back as the single byte \<^verbatim>\<open>c8\<close>.
\<close>

theorem ast_string_marker_confusion:
  "decode_ast_string_bytes (ast_string_from_bytes [0xef, 0xbf, 0xbf, 0x66, 0x66, 0x63, 0x38]) = [0xc8]"
  by (simp add: ast_string_from_bytes.simps utf8_front_def char_width_def second_ok_def continuation_def
      marked_byte_def encode_utf8_def u8_from_str_radix_16_def hex_digit_def)

end
