(* ===== verification/Arena.thy ===== *)
theory Arena
  imports Prelude
begin

text \<open>
  The generational arena of the VM heap, \<^verbatim>\<open>crates/ruau-vm/src/heap/arena.rs\<close>: slots with a mark colour
  and an age, a generation stamp per index that outlives truncation, a free list used as a stack, and
  the list of young slots. A handle is an index with the generation at which it was issued.

  Whether a reservation of memory is granted is the allocator's decision: the operations that call
  \<^verbatim>\<open>try_reserve\<close> take it as an argument. The byte meter is modelled on its own; capacities of vectors,
  which only the allocator knows, are not part of the state.
\<close>

section \<open>The byte meter\<close>

record memory_meter =
  mm_used :: u64
  mm_peak :: u64

definition meter_increase :: "u64 \<Rightarrow> memory_meter \<Rightarrow> memory_meter" where
  "meter_increase bs m =
     (let used = saturating_add (mm_used m) bs in \<lparr>mm_used = used, mm_peak = max (mm_peak m) used\<rparr>)"

definition meter_charge :: "u64 \<Rightarrow> memory_meter \<Rightarrow> memory_meter" where
  "meter_charge = meter_increase"

definition meter_adjust :: "u64 \<Rightarrow> u64 \<Rightarrow> memory_meter \<Rightarrow> memory_meter" where
  "meter_adjust old new m =
     (if old \<le> new then meter_increase (new - old) m
      else m\<lparr>mm_used := saturating_sub (mm_used m) (old - new)\<rparr>)"

section \<open>Slots\<close>

datatype color = White | Gray | Black

datatype age = Young | Old | OldRemembered

record 'a arena_entry =
  en_color :: color
  en_age :: age
  en_value :: "'a option"

record 'a arena =
  ar_entries :: "'a arena_entry list"
  ar_gens :: "u32 list"
  ar_free :: "u32 list"
  ar_young :: "u32 list"

definition arena_new :: "'a arena" where
  "arena_new = \<lparr>ar_entries = [], ar_gens = [], ar_free = [], ar_young = []\<rparr>"

definition from_snapshot_entries :: "'a arena_entry list \<Rightarrow> u32 list \<Rightarrow> u32 list \<Rightarrow> u32 list \<Rightarrow> 'a arena" where
  "from_snapshot_entries es gs fr yg = \<lparr>ar_entries = es, ar_gens = gs, ar_free = fr, ar_young = yg\<rparr>"

definition fresh_entry :: "'a \<Rightarrow> 'a arena_entry" where
  "fresh_entry v = \<lparr>en_color = White, en_age = Young, en_value = Some v\<rparr>"

section \<open>Allocation and access\<close>

datatype alloc_outcome = Allocated u32 u32 | Reserve_Error | Alloc_Panic

text \<open>The answers to the reservations of the young list, the generations and the entries.\<close>

record reservations =
  young_ok :: bool
  gens_ok :: bool
  entries_ok :: bool

definition arena_alloc :: "reservations \<Rightarrow> 'a \<Rightarrow> 'a arena \<Rightarrow> alloc_outcome \<times> 'a arena" where
  "arena_alloc r v a =
     (if \<not> young_ok r then (Reserve_Error, a)
      else if ar_free a \<noteq> [] then
        (let i = last (ar_free a); k = unat i; a1 = a\<lparr>ar_free := butlast (ar_free a)\<rparr> in
         if length (ar_entries a) \<le> k then (Alloc_Panic, a1)
         else
           (let a2 = a1\<lparr>ar_entries := (ar_entries a)[k := fresh_entry v]\<rparr> in
            if length (ar_gens a) \<le> k then (Alloc_Panic, a2)
            else (Allocated i (ar_gens a ! k), a2\<lparr>ar_young := ar_young a @ [i]\<rparr>)))
      else if 2 ^ 32 \<le> length (ar_entries a) then (Alloc_Panic, a)
      else
        (let k = length (ar_entries a); i = of_nat k in
         if length (ar_gens a) \<le> k \<and> \<not> gens_ok r then (Reserve_Error, a)
         else
           (let a1 = (if length (ar_gens a) \<le> k then a\<lparr>ar_gens := ar_gens a @ [0]\<rparr> else a) in
            if \<not> entries_ok r then (Reserve_Error, a1)
            else if length (ar_gens a1) \<le> k then
              (Alloc_Panic, a1\<lparr>ar_entries := ar_entries a @ [fresh_entry v]\<rparr>)
            else
              (Allocated i (ar_gens a1 ! k),
               a1\<lparr>ar_entries := ar_entries a @ [fresh_entry v], ar_young := ar_young a @ [i]\<rparr>))))"

definition arena_get :: "'a arena \<Rightarrow> u32 \<Rightarrow> u32 \<Rightarrow> 'a option" where
  "arena_get a i g =
     (if get (ar_gens a) (unat i) \<noteq> Some g then None
      else (case get (ar_entries a) (unat i) of None \<Rightarrow> None | Some e \<Rightarrow> en_value e))"

text \<open>Writing through \<^verbatim>\<open>get_mut\<close>: the referenced object is replaced by what the caller makes of it.\<close>

definition arena_get_mut :: "u32 \<Rightarrow> u32 \<Rightarrow> ('a \<Rightarrow> 'a) \<Rightarrow> 'a arena \<Rightarrow> 'a arena" where
  "arena_get_mut i g f a =
     (case arena_get a i g of
        None \<Rightarrow> a
      | Some v \<Rightarrow>
          a\<lparr>ar_entries := (ar_entries a)[unat i := (ar_entries a ! unat i)\<lparr>en_value := Some (f v)\<rparr>]\<rparr>)"

definition arena_free :: "u32 \<Rightarrow> 'a arena \<Rightarrow> 'a arena" where
  "arena_free i a =
     (let k = unat i in
      if k < length (ar_entries a) then
        a\<lparr>ar_entries := (ar_entries a)[k := (ar_entries a ! k)\<lparr>en_value := None\<rparr>],
          ar_gens := (if k < length (ar_gens a) then (ar_gens a)[k := ar_gens a ! k + 1] else ar_gens a),
          ar_free := ar_free a @ [i]\<rparr>
      else a)"

definition arena_len :: "'a arena \<Rightarrow> nat" where
  "arena_len a = length (ar_entries a)"

section \<open>Collector interface\<close>

definition gc_live_footprint_with :: "u64 \<Rightarrow> ('a \<Rightarrow> u64) \<Rightarrow> 'a arena \<Rightarrow> u64" where
  "gc_live_footprint_with entry_bytes payload a =
     fold (\<lambda>e total. case en_value e of
         None \<Rightarrow> total
       | Some v \<Rightarrow> saturating_add (saturating_add total entry_bytes) (payload v)) (ar_entries a) 0"

definition gc_color :: "'a arena \<Rightarrow> u32 \<Rightarrow> color" where
  "gc_color a i = (case get (ar_entries a) (unat i) of None \<Rightarrow> White | Some e \<Rightarrow> en_color e)"

definition update_entry :: "u32 \<Rightarrow> ('a arena_entry \<Rightarrow> 'a arena_entry) \<Rightarrow> 'a arena \<Rightarrow> 'a arena" where
  "update_entry i f a =
     (if unat i < length (ar_entries a)
      then a\<lparr>ar_entries := (ar_entries a)[unat i := f (ar_entries a ! unat i)]\<rparr> else a)"

definition gc_set_color :: "u32 \<Rightarrow> color \<Rightarrow> 'a arena \<Rightarrow> 'a arena" where
  "gc_set_color i c = update_entry i (\<lambda>e. e\<lparr>en_color := c\<rparr>)"

definition gc_age :: "'a arena \<Rightarrow> u32 \<Rightarrow> age" where
  "gc_age a i = (case get (ar_entries a) (unat i) of None \<Rightarrow> Old | Some e \<Rightarrow> en_age e)"

definition gc_set_age :: "u32 \<Rightarrow> age \<Rightarrow> 'a arena \<Rightarrow> 'a arena" where
  "gc_set_age i g = update_entry i (\<lambda>e. e\<lparr>en_age := g\<rparr>)"

definition gc_value :: "'a arena \<Rightarrow> u32 \<Rightarrow> 'a option" where
  "gc_value a i = (case get (ar_entries a) (unat i) of None \<Rightarrow> None | Some e \<Rightarrow> en_value e)"

definition gc_value_mut :: "u32 \<Rightarrow> ('a \<Rightarrow> 'a) \<Rightarrow> 'a arena \<Rightarrow> 'a arena" where
  "gc_value_mut i f = update_entry i (\<lambda>e. e\<lparr>en_value := map_option f (en_value e)\<rparr>)"

text \<open>
  The sweeps return the objects given to \<^verbatim>\<open>on_free\<close>, in order; the count the code returns is their
  number. One round of the major sweep, and of the minor sweep. The major sweep runs over
  \<^verbatim>\<open>0..self.entries.len() as u32\<close>, so the bound is the length cut to 32 bits.
\<close>

definition sweep_slot :: "u32 \<Rightarrow> 'a list \<times> 'a arena \<Rightarrow> 'a list \<times> 'a arena" where
  "sweep_slot i s =
     (let a = snd s in
      case get (ar_entries a) (unat i) of
        None \<Rightarrow> s
      | Some e \<Rightarrow>
          (case en_value e of
             None \<Rightarrow> s
           | Some v \<Rightarrow>
               if en_color e = White then (fst s @ [v], arena_free i a)
               else (fst s, update_entry i (\<lambda>e. e\<lparr>en_color := White, en_age := Old\<rparr>) a)))"

definition gc_sweep_with :: "'a arena \<Rightarrow> 'a list \<times> 'a arena" where
  "gc_sweep_with a =
     (let n = of_nat (length (ar_entries a)) :: u32;
          s = fold sweep_slot (map of_nat [0..<unat n]) ([], a)
      in (fst s, (snd s)\<lparr>ar_young := []\<rparr>))"

definition sweep_young :: "u32 \<Rightarrow> 'a list \<times> 'a arena \<Rightarrow> 'a list \<times> 'a arena" where
  "sweep_young i s =
     (let a = snd s in
      case get (ar_entries a) (unat i) of
        None \<Rightarrow> s
      | Some e \<Rightarrow>
          (case en_value e of
             None \<Rightarrow> s
           | Some v \<Rightarrow>
               if en_age e \<noteq> Young then s
               else if en_color e = White then (fst s @ [v], arena_free i a)
               else (fst s, update_entry i (\<lambda>e. e\<lparr>en_color := White, en_age := Old\<rparr>) a)))"

definition gc_sweep_minor_with :: "'a arena \<Rightarrow> 'a list \<times> 'a arena" where
  "gc_sweep_minor_with a = fold sweep_young (ar_young a) ([], a\<lparr>ar_young := []\<rparr>)"

definition gc_sweep :: "'a arena \<Rightarrow> nat \<times> 'a arena" where
  "gc_sweep a = (let (freed, a') = gc_sweep_with a in (length freed, a'))"

definition gc_sweep_minor :: "'a arena \<Rightarrow> nat \<times> 'a arena" where
  "gc_sweep_minor a = (let (freed, a') = gc_sweep_minor_with a in (length freed, a'))"

definition gc_reset_colors :: "'a arena \<Rightarrow> 'a arena" where
  "gc_reset_colors a =
     a\<lparr>ar_entries := map (\<lambda>e. if en_value e \<noteq> None then e\<lparr>en_color := White\<rparr> else e) (ar_entries a)\<rparr>"

definition dead_entry :: "'a arena_entry \<Rightarrow> bool" where
  "dead_entry e \<longleftrightarrow> en_value e \<noteq> None \<and> en_color e = White"

definition gc_pending_free_count :: "'a arena \<Rightarrow> nat" where
  "gc_pending_free_count a = length (filter dead_entry (ar_entries a))"

definition gc_pending_minor_free_count :: "'a arena \<Rightarrow> nat" where
  "gc_pending_minor_free_count a =
     length (filter (\<lambda>i. case get (ar_entries a) (unat i) of
         None \<Rightarrow> False
       | Some e \<Rightarrow> en_value e \<noteq> None \<and> en_age e = Young \<and> en_color e = White) (ar_young a))"

text \<open>The length up to the last live slot.\<close>

fun live_length :: "'a arena_entry list \<Rightarrow> nat" where
  "live_length [] = 0"
| "live_length (e # es) =
     (let n = live_length es in if n = 0 \<and> en_value e = None then 0 else Suc n)"

definition gc_compact :: "'a arena \<Rightarrow> 'a arena" where
  "gc_compact a =
     (let n = live_length (ar_entries a);
          a1 = (if n < length (ar_entries a)
                then a\<lparr>ar_entries := take n (ar_entries a), ar_free := filter (\<lambda>i. unat i < n) (ar_free a)\<rparr>
                else a)
      in a1\<lparr>ar_free := rev (sort (ar_free a1))\<rparr>)"

end
