(* ===== verification/Values.thy ===== *)
theory Values
  imports Prelude
begin

text \<open>
  Values of the VM, \<^verbatim>\<open>crates/ruau-vm/src/api.rs\<close>, and the normalisation of a value into a table key,
  \<^verbatim>\<open>normalize_key\<close> of \<^verbatim>\<open>crates/ruau-vm/src/table.rs\<close>. A float is its bit pattern; the tests and casts
  that key normalisation makes are defined on the IEEE-754 fields.
\<close>

section \<open>Binary floats by their bits\<close>

type_synonym f64 = "64 word"
type_synonym f32 = "32 word"

definition f64_exponent :: "f64 \<Rightarrow> nat" where
  "f64_exponent b = (unat b div 2 ^ 52) mod 2 ^ 11"

definition f64_mantissa :: "f64 \<Rightarrow> nat" where
  "f64_mantissa b = unat b mod 2 ^ 52"

definition f64_negative :: "f64 \<Rightarrow> bool" where
  "f64_negative b \<longleftrightarrow> 2 ^ 63 \<le> unat b"

definition f64_is_nan :: "f64 \<Rightarrow> bool" where
  "f64_is_nan b \<longleftrightarrow> f64_exponent b = 2047 \<and> f64_mantissa b \<noteq> 0"

definition f64_is_zero :: "f64 \<Rightarrow> bool" where
  "f64_is_zero b \<longleftrightarrow> unat b mod 2 ^ 63 = 0"

text \<open>
  The integer a float equals, if \<^verbatim>\<open>fract()\<close> of it is zero. The value of a finite float is its
  significand times \<open>2 ^ (max 1 e - 1075)\<close>, where \<open>e\<close> is the exponent field.
\<close>

definition f64_significand :: "f64 \<Rightarrow> nat" where
  "f64_significand b = (if f64_exponent b = 0 then f64_mantissa b else f64_mantissa b + 2 ^ 52)"

definition f64_to_int :: "f64 \<Rightarrow> int option" where
  "f64_to_int b =
     (let e = max 1 (f64_exponent b); m = f64_significand b; sgn = (if f64_negative b then - 1 else 1 :: int) in
      if f64_exponent b = 2047 then None
      else if 1075 \<le> e then Some (sgn * int (m * 2 ^ (e - 1075)))
      else if m mod 2 ^ (1075 - e) = 0 then Some (sgn * int (m div 2 ^ (1075 - e)))
      else None)"

text \<open>\<^verbatim>\<open>as f64\<close> on an unsigned integer: round to nearest, ties to even.\<close>

fun bit_length :: "nat \<Rightarrow> nat" where
  "bit_length n = (if n = 0 then 0 else Suc (bit_length (n div 2)))"

declare bit_length.simps [simp del]

definition f64_of_nat :: "nat \<Rightarrow> f64" where
  "f64_of_nat n =
     (if n = 0 then 0
      else
        let e = bit_length n - 1 in
        if e \<le> 52 then of_nat ((e + 1022) * 2 ^ 52 + n * 2 ^ (52 - e))
        else
          let d = 2 ^ (e - 52); q = n div d; r = n mod d;
              q' = (if d < 2 * r \<or> (d = 2 * r \<and> odd q) then q + 1 else q)
          in of_nat ((e + 1022) * 2 ^ 52 + q'))"

definition f64_of_i64 :: "i64 \<Rightarrow> f64" where
  "f64_of_i64 i =
     (if 0 \<le> sint i then f64_of_nat (nat (sint i)) else f64_of_nat (nat (- sint i)) + 2 ^ 63)"

text \<open>\<^verbatim>\<open>as i64\<close> on a float: towards zero, saturating, zero for NaN.\<close>

definition f64_as_i64 :: "f64 \<Rightarrow> i64" where
  "f64_as_i64 b =
     (let e = max 1 (f64_exponent b);
          mag = (if 1075 \<le> e then f64_significand b * 2 ^ (e - 1075) else f64_significand b div 2 ^ (1075 - e));
          huge = (f64_exponent b = 2047)
      in if f64_is_nan b then 0
         else if f64_negative b then (if huge \<or> 2 ^ 63 \<le> mag then of_int (- (2 ^ 63)) else of_int (- int mag))
         else (if huge \<or> 2 ^ 63 \<le> mag then of_int (2 ^ 63 - 1) else of_nat mag))"

text \<open>The order of floats; NaN is not comparable.\<close>

definition f64_rank :: "f64 \<Rightarrow> int" where
  "f64_rank b = (if f64_negative b then - int (unat b - 2 ^ 63) else int (unat b))"

definition f64_less :: "f64 \<Rightarrow> f64 \<Rightarrow> bool" where
  "f64_less a b \<longleftrightarrow> \<not> f64_is_nan a \<and> \<not> f64_is_nan b \<and> f64_rank a < f64_rank b"

definition f32_is_nan :: "f32 \<Rightarrow> bool" where
  "f32_is_nan b \<longleftrightarrow> (unat b div 2 ^ 23) mod 2 ^ 8 = 255 \<and> unat b mod 2 ^ 23 \<noteq> 0"

section \<open>Values\<close>

datatype raw_gc = RawGc (gc_index: u32) (gc_generation: u32) (gc_heap: u64)

datatype raw_value =
    LNil
  | LBoolean bool
  | LNumber f64
  | LInteger i64
  | LVector f32 f32 f32
  | LLightUserdata u32 u8
  | LString raw_gc
  | LTable raw_gc
  | LFunction raw_gc
  | LUserdata raw_gc
  | LThread raw_gc
  | LBuffer raw_gc

section \<open>Table keys\<close>

datatype handle_kind = K_Str | K_Table | K_Function | K_Userdata | K_Thread | K_Buffer

datatype lua_key =
    Key_Boolean bool
  | Key_Integer i64
  | Key_NativeInt i64
  | Key_Number u64
  | Key_Vector u32 u32 u32
  | Key_LightUserdata u32 u8
  | Key_Handle handle_kind u32 u32

datatype key_rejected = Reject_Nil | Reject_NaN

definition key_rejection_message :: "key_rejected \<Rightarrow> string" where
  "key_rejection_message r = (case r of Reject_Nil \<Rightarrow> ''table index is nil'' | Reject_NaN \<Rightarrow> ''table index is NaN'')"

fun key_rejection :: "raw_value \<Rightarrow> key_rejected option" where
  "key_rejection LNil = Some Reject_Nil"
| "key_rejection (LNumber n) = (if f64_is_nan n then Some Reject_NaN else None)"
| "key_rejection (LVector x y z) = (if f32_is_nan x \<or> f32_is_nan y \<or> f32_is_nan z then Some Reject_NaN else None)"
| "key_rejection _ = None"

definition handle_key :: "handle_kind \<Rightarrow> u32 \<Rightarrow> u32 \<Rightarrow> lua_key" where
  "handle_key kind index generation = Key_Handle kind index generation"

definition canon_f32 :: "f32 \<Rightarrow> u32" where
  "canon_f32 b = (if b = 0x80000000 then 0 else b)"

text \<open>\<^verbatim>\<open>n as i64\<close> saturates: the only float in range that the cast changes is \<open>2 ^ 63\<close>.\<close>

definition number_key :: "f64 \<Rightarrow> lua_key" where
  "number_key n =
     (case f64_to_int n of
        Some i \<Rightarrow>
          if - (2 ^ 63) \<le> i \<and> i \<le> 2 ^ 63 then Key_Integer (word_of_int (min i (2 ^ 63 - 1)))
          else Key_Number (if f64_is_zero n then 0 else n)
      | None \<Rightarrow> Key_Number (if f64_is_zero n then 0 else n))"

definition normalize_key :: "raw_value \<Rightarrow> lua_key option" where
  "normalize_key v =
     (if key_rejection v \<noteq> None then None
      else
        (case v of
           LNil \<Rightarrow> None
         | LBoolean b \<Rightarrow> Some (Key_Boolean b)
         | LInteger i \<Rightarrow> Some (Key_NativeInt i)
         | LNumber n \<Rightarrow> Some (number_key n)
         | LVector x y z \<Rightarrow> Some (Key_Vector (canon_f32 x) (canon_f32 y) (canon_f32 z))
         | LLightUserdata h t \<Rightarrow> Some (Key_LightUserdata h t)
         | LString g \<Rightarrow> Some (handle_key K_Str (gc_index g) (gc_generation g))
         | LTable g \<Rightarrow> Some (handle_key K_Table (gc_index g) (gc_generation g))
         | LFunction g \<Rightarrow> Some (handle_key K_Function (gc_index g) (gc_generation g))
         | LUserdata g \<Rightarrow> Some (handle_key K_Userdata (gc_index g) (gc_generation g))
         | LThread g \<Rightarrow> Some (handle_key K_Thread (gc_index g) (gc_generation g))
         | LBuffer g \<Rightarrow> Some (handle_key K_Buffer (gc_index g) (gc_generation g))))"

text \<open>The number key of an array slot.\<close>

definition array_key :: "nat \<Rightarrow> f64" where
  "array_key slot = f64_of_nat (slot + 1)"

section \<open>Integers as floats\<close>

lemma bit_length_bounds:
  assumes "0 < n"
  shows "2 ^ (bit_length n - 1) \<le> n" "n < 2 ^ bit_length n" "0 < bit_length n"
proof -
  have "0 < bit_length n \<and> 2 ^ (bit_length n - 1) \<le> n \<and> n < 2 ^ bit_length n"
    using assms
  proof (induction n rule: less_induct)
    case (less n)
    have s: "bit_length n = Suc (bit_length (n div 2))" using less.prems by (subst bit_length.simps) simp
    show ?case
    proof (cases "n = 1")
      case True
      then show ?thesis by (simp add: s bit_length.simps)
    next
      case False
      with less have IH: "0 < bit_length (n div 2) \<and> 2 ^ (bit_length (n div 2) - 1) \<le> n div 2 \<and> n div 2 < 2 ^ bit_length (n div 2)"
        by auto
      then obtain k where k: "bit_length (n div 2) = Suc k" by (auto simp: gr0_conv_Suc)
      show ?thesis using IH by (auto simp: s k)
    qed
  qed
  then show "2 ^ (bit_length n - 1) \<le> n" "n < 2 ^ bit_length n" "0 < bit_length n" by auto
qed

lemma f64_fields_of_nat:
  assumes "0 < n" "n < 2 ^ 53"
  defines "e \<equiv> bit_length n - 1"
  shows "e \<le> 52" "f64_exponent (f64_of_nat n) = e + 1023" "f64_significand (f64_of_nat n) = n * 2 ^ (52 - e)"
    "\<not> f64_negative (f64_of_nat n)"
proof -
  note b = bit_length_bounds [OF assms(1)]
  have lo: "2 ^ e \<le> n" and hi: "n < 2 ^ Suc e" using b by (auto simp: e_def)
  then have "2 ^ e < (2 :: nat) ^ 53" using assms(2) by linarith
  then have "e < 53" by (rule power_less_imp_less_exp [rotated]) simp
  then show e: "e \<le> 52" by simp
  have p: "2 ^ e * 2 ^ (52 - e) = (2 :: nat) ^ 52" using e by (simp flip: power_add)
  have m1: "2 ^ 52 \<le> n * 2 ^ (52 - e)" using mult_le_mono1 [OF lo, of "2 ^ (52 - e)"] p by simp
  have "n * 2 ^ (52 - e) < 2 ^ Suc e * 2 ^ (52 - e)" using hi by (intro mult_strict_right_mono) auto
  also have "\<dots> = 2 * (2 ^ e * 2 ^ (52 - e))" by (simp only: power_Suc mult.assoc)
  finally have m2: "n * 2 ^ (52 - e) < 2 ^ 53" unfolding p by simp
  let ?m = "n * 2 ^ (52 - e) - 2 ^ 52" and ?x = "(e + 1022) * 2 ^ 52 + n * 2 ^ (52 - e)"
  have x: "?x = (e + 1023) * 2 ^ 52 + ?m" "?m < 2 ^ 52" using m1 m2 by simp_all
  have "(e + 1023) * 2 ^ 52 \<le> (1075 :: nat) * 2 ^ 52" using e by (intro mult_le_mono1) simp
  then have lt: "?x < 2 ^ 63" using x by simp
  have w: "f64_of_nat n = of_nat ?x" unfolding f64_of_nat_def Let_def e_def [symmetric] using assms(1) e by simp
  have "unat (of_nat ?x :: f64) = ?x" by (rule unat_of_nat_eq) (use lt in simp)
  then have u: "unat (f64_of_nat n) = ?x" "unat (f64_of_nat n) < 2 ^ 63" using lt unfolding w by auto
  show "f64_exponent (f64_of_nat n) = e + 1023" "\<not> f64_negative (f64_of_nat n)"
    using u(2) e x(2) unfolding f64_exponent_def f64_negative_def u(1) x(1) by simp_all
  then show "f64_significand (f64_of_nat n) = n * 2 ^ (52 - e)"
    using m1 mod_mult_self3 [of "e + 1023" "2 ^ 52" ?m] mod_less [OF x(2)]
    unfolding f64_significand_def f64_mantissa_def u(1) x(1) by simp
qed

lemma f64_to_int_of_nat:
  assumes "0 < n" "n < 2 ^ 53"
  shows "f64_to_int (f64_of_nat n) = Some (int n)"
proof -
  note f = f64_fields_of_nat [OF assms]
  have "1075 - (bit_length n - 1 + 1023) = 52 - (bit_length n - 1)" by simp
  then show ?thesis using f by (auto simp: f64_to_int_def Let_def)
qed

lemma normalize_array_key:
  assumes "Suc k < 2 ^ 53"
  shows "normalize_key (LNumber (array_key k)) = Some (Key_Integer (of_nat (Suc k)))"
proof -
  have i: "f64_to_int (array_key k) = Some (int (Suc k))"
    using f64_to_int_of_nat [of "Suc k"] assms by (simp add: array_key_def)
  then have "f64_exponent (array_key k) \<noteq> 2047" by (auto simp: f64_to_int_def Let_def)
  then show ?thesis using i assms by (simp add: normalize_key_def f64_is_nan_def number_key_def min_def)
qed

end
