(* ===== verification/Lua_Table.thy ===== *)
theory Lua_Table
  imports Values
begin

text \<open>
  The Lua table, \<^verbatim>\<open>crates/ruau-vm/src/table.rs\<close>: a dense array part, an insertion-ordered vector of
  hash slots with tombstones, and an index from normalised keys to hash slots. An operation that
  indexes a vector out of range panics; the definitions return \<open>None\<close> there. The memory meter and the
  hasher, which no result depends on, are left out.
\<close>

record hash_slot =
  hs_key_value :: raw_value
  hs_value :: "raw_value option"

record lua_table =
  lt_array :: "raw_value list"
  lt_hash :: "hash_slot list"
  lt_index :: "lua_key \<rightharpoonup> nat"
  lt_metatable :: "raw_gc option"
  lt_readonly :: bool
  lt_safeenv :: bool

section \<open>Construction\<close>

definition table_new :: lua_table where
  "table_new = \<lparr>lt_array = [], lt_hash = [], lt_index = Map.empty, lt_metatable = None,
     lt_readonly = False, lt_safeenv = False\<rparr>"

definition with_array :: "raw_value list \<Rightarrow> lua_table" where
  "with_array array = table_new\<lparr>lt_array := array\<rparr>"

definition set_metatable :: "raw_gc option \<Rightarrow> lua_table \<Rightarrow> lua_table" where
  "set_metatable m t = t\<lparr>lt_metatable := m\<rparr>"

section \<open>Reading and writing\<close>

definition array_slot :: "lua_table \<Rightarrow> i64 \<Rightarrow> nat option" where
  "array_slot t i = (if 1 \<le> sint i \<and> unat i \<le> length (lt_array t) then Some (unat (i - 1)) else None)"

definition integer_slot :: "lua_table \<Rightarrow> lua_key \<Rightarrow> nat option" where
  "integer_slot t k = (case k of Key_Integer i \<Rightarrow> array_slot t i | _ \<Rightarrow> None)"

definition table_get :: "lua_table \<Rightarrow> raw_value \<Rightarrow> raw_value option" where
  "table_get t key =
     (case normalize_key key of
        None \<Rightarrow> Some LNil
      | Some norm \<Rightarrow>
          (case integer_slot t norm of
             Some slot \<Rightarrow> get (lt_array t) slot
           | None \<Rightarrow>
               (case lt_index t norm of
                  Some idx \<Rightarrow> map_option (\<lambda>s. case hs_value s of Some v \<Rightarrow> v | None \<Rightarrow> LNil) (get (lt_hash t) idx)
                | None \<Rightarrow> Some LNil)))"

definition live_value :: "raw_value \<Rightarrow> raw_value option" where
  "live_value v = (if v = LNil then None else Some v)"

definition hash_set :: "lua_key \<Rightarrow> raw_value \<Rightarrow> raw_value \<Rightarrow> lua_table \<Rightarrow> lua_table option" where
  "hash_set norm key_value v t =
     (case lt_index t norm of
        Some idx \<Rightarrow>
          if idx < length (lt_hash t)
          then Some (t\<lparr>lt_hash := (lt_hash t)[idx := (lt_hash t ! idx)\<lparr>hs_value := live_value v\<rparr>]\<rparr>)
          else None
      | None \<Rightarrow>
          if v = LNil then Some t
          else Some (t\<lparr>lt_hash := lt_hash t @ [\<lparr>hs_key_value = key_value, hs_value = Some v\<rparr>],
                       lt_index := (lt_index t)(norm \<mapsto> length (lt_hash t))\<rparr>))"

definition next_array_key :: "lua_table \<Rightarrow> lua_key" where
  "next_array_key t = Key_Integer (of_nat (length (lt_array t)) + 1)"

definition absorb_slot :: "nat \<Rightarrow> raw_value \<Rightarrow> lua_table \<Rightarrow> lua_table" where
  "absorb_slot idx v t =
     t\<lparr>lt_array := lt_array t @ [v],
       lt_hash := (lt_hash t)[idx := (lt_hash t ! idx)\<lparr>hs_value := None\<rparr>],
       lt_index := (lt_index t)(next_array_key t := None)\<rparr>"

definition live_slots :: "lua_table \<Rightarrow> nat" where
  "live_slots t = length (filter (\<lambda>s. hs_value s \<noteq> None) (lt_hash t))"

lemma filter_update_less:
  "k < length xs \<Longrightarrow> P (xs ! k) \<Longrightarrow> \<not> P y \<Longrightarrow> length (filter P (xs[k := y])) < length (filter P xs)"
proof (induction xs arbitrary: k)
  case (Cons x xs)
  then show ?case by (cases k) auto
qed simp

lemma absorb_slot_live_slots:
  "idx < length (lt_hash t) \<Longrightarrow> hs_value (lt_hash t ! idx) = Some v \<Longrightarrow> live_slots (absorb_slot idx w t) < live_slots t"
  unfolding live_slots_def absorb_slot_def by (simp add: filter_update_less)

function absorb_from_hash :: "lua_table \<Rightarrow> lua_table option" where
  "absorb_from_hash t =
     (case lt_index t (next_array_key t) of
        None \<Rightarrow> Some t
      | Some idx \<Rightarrow>
          if idx < length (lt_hash t) then
            (case hs_value (lt_hash t ! idx) of
               None \<Rightarrow> Some t
             | Some v \<Rightarrow> absorb_from_hash (absorb_slot idx v t))
          else None)"
  by auto
termination
  by (relation "measure live_slots") (auto intro: absorb_slot_live_slots)

declare absorb_from_hash.simps [simp del]

definition appends :: "lua_key \<Rightarrow> lua_table \<Rightarrow> bool" where
  "appends k t \<longleftrightarrow> (case k of Key_Integer i \<Rightarrow> 1 \<le> sint i \<and> unat i = length (lt_array t) + 1 | _ \<Rightarrow> False)"

definition set_inner :: "raw_value \<Rightarrow> raw_value \<Rightarrow> lua_table \<Rightarrow> (bool \<times> lua_table) option" where
  "set_inner key v t =
     (case normalize_key key of
        None \<Rightarrow> Some (False, t)
      | Some norm \<Rightarrow>
          (case integer_slot t norm of
             Some slot \<Rightarrow> if slot < length (lt_array t) then Some (True, t\<lparr>lt_array := (lt_array t)[slot := v]\<rparr>) else None
           | None \<Rightarrow>
               if appends norm t \<and> v \<noteq> LNil
               then map_option (Pair True) (absorb_from_hash (t\<lparr>lt_array := lt_array t @ [v]\<rparr>))
               else map_option (Pair True) (hash_set norm key v t)))"

definition table_set :: "raw_value \<Rightarrow> raw_value \<Rightarrow> lua_table \<Rightarrow> (bool \<times> lua_table) option" where
  "table_set = set_inner"

definition rehash :: "lua_table \<Rightarrow> lua_table option" where
  "rehash = absorb_from_hash"

definition table_clear :: "lua_table \<Rightarrow> lua_table" where
  "table_clear t = t\<lparr>lt_array := map (\<lambda>_. LNil) (lt_array t), lt_hash := [], lt_index := Map.empty\<rparr>"

definition shallow_clone :: "lua_table \<Rightarrow> lua_table" where
  "shallow_clone t = t\<lparr>lt_readonly := False, lt_safeenv := False\<rparr>"

definition scan_len :: "lua_table \<Rightarrow> nat" where
  "scan_len t = length (lt_array t) + length (lt_hash t)"

section \<open>The border\<close>

fun array_border :: "raw_value list \<Rightarrow> nat \<Rightarrow> nat" where
  "array_border xs 0 = 0"
| "array_border xs (Suc hi) = (if xs ! hi \<noteq> LNil then Suc hi else array_border xs hi)"

definition int_present :: "lua_table \<Rightarrow> u64 \<Rightarrow> bool option" where
  "int_present t i =
     (if 1 \<le> i \<and> unat i \<le> length (lt_array t) then map_option (\<lambda>v. v \<noteq> LNil) (get (lt_array t) (unat (i - 1)))
      else if 2 ^ 63 \<le> unat i then Some False
      else
        (case lt_index t (Key_Integer i) of
           Some idx \<Rightarrow> map_option (\<lambda>s. hs_value s \<noteq> None) (get (lt_hash t) idx)
         | None \<Rightarrow> Some False))"

text \<open>The linear fallback, the doubling search and the bisection of \<^verbatim>\<open>hash_border\<close>.\<close>

partial_function (option) linear_border :: "lua_table \<Rightarrow> u64 \<Rightarrow> u64 option" where
  "linear_border t k =
     Option.bind (int_present t k) (\<lambda>p. if p then linear_border t (k + 1) else Some (k - 1))"

partial_function (option) double_border :: "lua_table \<Rightarrow> u64 \<Rightarrow> u64 \<Rightarrow> u64 \<Rightarrow> (u64 + u64 \<times> u64) option" where
  "double_border t start i j =
     Option.bind (int_present t j) (\<lambda>p.
       if p then
         if 2 ^ 63 \<le> unat j then Option.bind (linear_border t (start + 1)) (\<lambda>n. Some (Inl n))
         else double_border t start j (j * 2)
       else Some (Inr (i, j)))"

partial_function (option) bisect_border :: "lua_table \<Rightarrow> u64 \<Rightarrow> u64 \<Rightarrow> u64 option" where
  "bisect_border t i j =
     (if 1 < j - i then
        (let mid = i + (j - i) div 2 in
         Option.bind (int_present t mid) (\<lambda>p. if p then bisect_border t mid j else bisect_border t i mid))
      else Some i)"

definition hash_border :: "lua_table \<Rightarrow> u64 \<Rightarrow> u64 option" where
  "hash_border t start =
     (case double_border t start start (start + 1) of
        None \<Rightarrow> None
      | Some (Inl n) \<Rightarrow> Some n
      | Some (Inr (i, j)) \<Rightarrow> bisect_border t i j)"

definition table_length :: "lua_table \<Rightarrow> u64 option" where
  "table_length t =
     (let n = length (lt_array t) in
      if 0 < n \<and> lt_array t ! (n - 1) = LNil then Some (of_nat (array_border (lt_array t) n))
      else if lt_index t (next_array_key t) \<noteq> None then hash_border t (of_nat n)
      else Some (of_nat n))"

section \<open>Traversal\<close>

datatype cursor = ArrayStart | ArrayAt nat | HashAt nat

datatype next_step = Pair_Step raw_value raw_value | Done | InvalidKey

fun scan_array :: "nat \<Rightarrow> raw_value list \<Rightarrow> (nat \<times> raw_value) option" where
  "scan_array probe [] = None"
| "scan_array probe (v # vs) = (if v \<noteq> LNil then Some (probe, v) else scan_array (Suc probe) vs)"

fun scan_hash :: "hash_slot list \<Rightarrow> next_step" where
  "scan_hash [] = Done"
| "scan_hash (s # ss) = (case hs_value s of Some v \<Rightarrow> Pair_Step (hs_key_value s) v | None \<Rightarrow> scan_hash ss)"

definition advance_hash :: "lua_table \<Rightarrow> nat \<Rightarrow> next_step" where
  "advance_hash t idx = scan_hash (drop idx (lt_hash t))"

definition advance_array :: "lua_table \<Rightarrow> nat \<Rightarrow> next_step" where
  "advance_array t probe =
     (case scan_array probe (drop probe (lt_array t)) of
        Some (slot, v) \<Rightarrow> Pair_Step (LNumber (array_key slot)) v
      | None \<Rightarrow> advance_hash t 0)"

definition advance :: "lua_table \<Rightarrow> cursor \<Rightarrow> next_step" where
  "advance t c =
     (case c of ArrayStart \<Rightarrow> advance_array t 0 | ArrayAt i \<Rightarrow> advance_array t (i + 1) | HashAt idx \<Rightarrow> advance_hash t (idx + 1))"

definition resolve_cursor :: "lua_table \<Rightarrow> raw_value \<Rightarrow> cursor option" where
  "resolve_cursor t key =
     (if key = LNil then Some ArrayStart
      else
        (case normalize_key key of
           None \<Rightarrow> None
         | Some norm \<Rightarrow>
             (case integer_slot t norm of
                Some slot \<Rightarrow> Some (ArrayAt slot)
              | None \<Rightarrow> map_option HashAt (lt_index t norm))))"

definition table_next :: "lua_table \<Rightarrow> raw_value \<Rightarrow> next_step" where
  "table_next t key = (case resolve_cursor t key of None \<Rightarrow> InvalidKey | Some c \<Rightarrow> advance t c)"

text \<open>The entries \<^verbatim>\<open>for_each_entry\<close> visits, in order.\<close>

fun array_entries :: "nat \<Rightarrow> raw_value list \<Rightarrow> (raw_value \<times> raw_value) list" where
  "array_entries i [] = []"
| "array_entries i (v # vs) = (if v \<noteq> LNil then [(LNumber (array_key i), v)] else []) @ array_entries (Suc i) vs"

definition hash_entries :: "hash_slot list \<Rightarrow> (raw_value \<times> raw_value) list" where
  "hash_entries ss = List.map_filter (\<lambda>s. map_option (Pair (hs_key_value s)) (hs_value s)) ss"

definition for_each_entry :: "lua_table \<Rightarrow> (raw_value \<times> raw_value) list" where
  "for_each_entry t = array_entries 0 (lt_array t) @ hash_entries (lt_hash t)"

definition maxn :: "lua_table \<Rightarrow> f64" where
  "maxn t =
     (let m = fold (\<lambda>(i, v) m. if v \<noteq> LNil then array_key i else m) (List.enumerate 0 (lt_array t)) 0 in
      fold (\<lambda>s m. if hs_value s = None then m
         else (case hs_key_value s of
             LNumber n \<Rightarrow> if f64_less m n then n else m
           | LInteger i \<Rightarrow> if f64_less m (f64_of_i64 i) then f64_of_i64 i else m
           | _ \<Rightarrow> m)) (lt_hash t) m)"

section \<open>Snapshots\<close>

record lua_table_image =
  ti_array :: "raw_value list"
  ti_hash :: "hash_slot list"
  ti_metatable :: "raw_gc option"
  ti_readonly :: bool
  ti_safeenv :: bool

definition table_snapshot_image :: "lua_table \<Rightarrow> lua_table_image" where
  "table_snapshot_image t = \<lparr>ti_array = lt_array t, ti_hash = lt_hash t, ti_metatable = lt_metatable t,
     ti_readonly = lt_readonly t, ti_safeenv = lt_safeenv t\<rparr>"

definition index_slot :: "nat \<Rightarrow> hash_slot \<Rightarrow> (lua_key \<rightharpoonup> nat) \<Rightarrow> (lua_key \<rightharpoonup> nat)" where
  "index_slot idx s index =
     (if hs_value s \<noteq> None
      then (case normalize_key (hs_key_value s) of Some norm \<Rightarrow> index(norm \<mapsto> idx) | None \<Rightarrow> index)
      else index)"

definition table_from_snapshot_image :: "lua_table_image \<Rightarrow> lua_table" where
  "table_from_snapshot_image img =
     \<lparr>lt_array = ti_array img, lt_hash = ti_hash img,
      lt_index = fold_idx index_slot 0 (ti_hash img) Map.empty,
      lt_metatable = ti_metatable img, lt_readonly = ti_readonly img, lt_safeenv = ti_safeenv img\<rparr>"

end
