(* ===== verification/Registry.thy ===== *)
theory Registry
  imports Values
begin

text \<open>
  The registry of pinned values, \<^verbatim>\<open>crates/ruau-vm/src/heap/registry.rs\<close>, with the tokens of
  \<^verbatim>\<open>api.rs\<close>. A token carries the identity of a reference-counted allocation; allocations are
  numbered in the order in which they are made, so that two tokens are equal when their parts and
  identities are.
\<close>

section \<open>Tokens and slots\<close>

record registry_ref =
  rr_slot :: u32
  rr_generation :: u32
  rr_heap :: u64
  rr_token :: nat

record registry_slot =
  rs_value :: raw_value
  rs_generation :: u32
  rs_token :: "registry_ref option"

text \<open>\<open>rg_tokens\<close> counts the identities handed out so far.\<close>

record registry =
  rg_anchors :: "registry_slot list"
  rg_free :: "u32 list"
  rg_tokens :: nat

definition registry_new :: registry where
  "registry_new = \<lparr>rg_anchors = [], rg_free = [], rg_tokens = 0\<rparr>"

definition from_parts :: "u32 \<Rightarrow> u32 \<Rightarrow> u64 \<Rightarrow> registry \<Rightarrow> registry_ref \<times> registry" where
  "from_parts slot generation hid rg =
     (\<lparr>rr_slot = slot, rr_generation = generation, rr_heap = hid, rr_token = rg_tokens rg\<rparr>,
      rg\<lparr>rg_tokens := Suc (rg_tokens rg)\<rparr>)"

section \<open>Operations\<close>

text \<open>The first argument of \<open>registry_pin\<close> says whether the anchor store could be grown.\<close>

definition registry_pin :: "bool \<Rightarrow> raw_value \<Rightarrow> u64 \<Rightarrow> registry \<Rightarrow> registry_ref option \<times> registry" where
  "registry_pin granted v hid rg =
     (if rg_free rg \<noteq> [] then
        (let i = last (rg_free rg); rg1 = rg\<lparr>rg_free := butlast (rg_free rg)\<rparr> in
         if unat i < length (rg_anchors rg) then
           (let slot = rg_anchors rg ! unat i; (ref, rg2) = from_parts i (rs_generation slot) hid rg1 in
            (Some ref, rg2\<lparr>rg_anchors := (rg_anchors rg)[unat i := slot\<lparr>rs_value := v, rs_token := Some ref\<rparr>]\<rparr>))
         else (None, rg1))
      else if \<not> granted then (None, rg)
      else
        (let k = length (rg_anchors rg);
             rg1 = rg\<lparr>rg_anchors := rg_anchors rg @ [\<lparr>rs_value = v, rs_generation = 0, rs_token = None\<rparr>]\<rparr> in
         if 2 ^ 32 \<le> k then (None, rg1)
         else
           (let (ref, rg2) = from_parts (of_nat k) 0 hid rg1 in
            (Some ref, rg2\<lparr>rg_anchors := (rg_anchors rg1)[k := (rg_anchors rg1 ! k)\<lparr>rs_token := Some ref\<rparr>]\<rparr>))))"

definition registry_get :: "registry \<Rightarrow> registry_ref \<Rightarrow> raw_value option" where
  "registry_get rg ref =
     (case get (rg_anchors rg) (unat (rr_slot ref)) of
        None \<Rightarrow> None
      | Some slot \<Rightarrow>
          if rs_generation slot = rr_generation ref \<and> rs_token slot = Some ref then Some (rs_value slot) else None)"

definition registry_unpin :: "registry_ref \<Rightarrow> registry \<Rightarrow> registry" where
  "registry_unpin ref rg =
     (case get (rg_anchors rg) (unat (rr_slot ref)) of
        None \<Rightarrow> rg
      | Some slot \<Rightarrow>
          if rs_generation slot = rr_generation ref \<and> rs_token slot = Some ref then
            rg\<lparr>rg_anchors := (rg_anchors rg)[unat (rr_slot ref) :=
                 slot\<lparr>rs_value := LNil, rs_token := None, rs_generation := rs_generation slot + 1\<rparr>],
               rg_free := rg_free rg @ [rr_slot ref]\<rparr>
          else rg)"

definition registry_anchors :: "registry \<Rightarrow> raw_value list" where
  "registry_anchors rg = filter (\<lambda>v. v \<noteq> LNil) (map rs_value (rg_anchors rg))"

section \<open>Snapshots\<close>

record registry_slot_image =
  si_value :: raw_value
  si_generation :: u32
  si_live :: bool

record registry_image =
  im_anchors :: "registry_slot_image list"
  im_free :: "u32 list"

definition registry_snapshot_image :: "registry \<Rightarrow> registry_image" where
  "registry_snapshot_image rg =
     \<lparr>im_anchors = map (\<lambda>s. \<lparr>si_value = rs_value s, si_generation = rs_generation s, si_live = rs_token s \<noteq> None\<rparr>)
        (rg_anchors rg), im_free = rg_free rg\<rparr>"

text \<open>The two loops of \<^verbatim>\<open>RegistryImage::validate\<close>; \<open>seen\<close> are the free indices met so far.\<close>

fun validate_free :: "registry_slot_image list \<Rightarrow> nat set \<Rightarrow> u32 list \<Rightarrow> string + nat set" where
  "validate_free slots seen [] = Inr seen"
| "validate_free slots seen (i # is) =
     (case get slots (unat i) of
        None \<Rightarrow> Inl ''registry free index out of range''
      | Some slot \<Rightarrow>
          if unat i \<in> seen then Inl ''registry duplicate free index''
          else if si_live slot then Inl ''registry free index references live slot''
          else validate_free slots (insert (unat i) seen) is)"

fun validate_vacant :: "nat set \<Rightarrow> nat \<Rightarrow> registry_slot_image list \<Rightarrow> string + unit" where
  "validate_vacant seen k [] = Inr ()"
| "validate_vacant seen k (slot # slots) =
     (if \<not> si_live slot \<and> k \<notin> seen then Inl ''registry vacant slot missing from free list''
      else if \<not> si_live slot \<and> si_value slot \<noteq> LNil then Inl ''registry vacant slot retains a value''
      else validate_vacant seen (Suc k) slots)"

definition validate_registry_image :: "registry_image \<Rightarrow> string + unit" where
  "validate_registry_image img =
     (case validate_free (im_anchors img) {} (im_free img) of
        Inl e \<Rightarrow> Inl e
      | Inr seen \<Rightarrow> validate_vacant seen 0 (im_anchors img))"

fun restore_slots :: "u64 \<Rightarrow> nat \<Rightarrow> registry_slot_image list \<Rightarrow> registry \<Rightarrow> registry" where
  "restore_slots hid k [] rg = rg"
| "restore_slots hid k (img # imgs) rg =
     (let (token, rg1) =
        (if si_live img then (let (ref, rg') = from_parts (of_nat k) (si_generation img) hid rg in (Some ref, rg'))
         else (None, rg)) in
      restore_slots hid (Suc k) imgs
        (rg1\<lparr>rg_anchors := rg_anchors rg1 @ [\<lparr>rs_value = si_value img, rs_generation = si_generation img, rs_token = token\<rparr>]\<rparr>))"

definition registry_from_snapshot_image :: "registry_image \<Rightarrow> u64 \<Rightarrow> string + registry" where
  "registry_from_snapshot_image img hid =
     (case validate_registry_image img of
        Inl e \<Rightarrow> Inl e
      | Inr _ \<Rightarrow> Inr ((restore_slots hid 0 (im_anchors img) registry_new)\<lparr>rg_free := im_free img\<rparr>))"

section \<open>The invariant\<close>

definition slot_ok :: "registry \<Rightarrow> nat \<Rightarrow> bool" where
  "slot_ok rg k \<longleftrightarrow> (case rs_token (rg_anchors rg ! k) of
       Some ref \<Rightarrow> unat (rr_slot ref) = k \<and> rr_generation ref = rs_generation (rg_anchors rg ! k) \<and> rr_token ref < rg_tokens rg
     | None \<Rightarrow> k < 2 ^ 32 \<longrightarrow> rs_value (rg_anchors rg ! k) = LNil \<and> of_nat k \<in> set (rg_free rg))"

definition registry_ok :: "registry \<Rightarrow> bool" where
  "registry_ok rg \<longleftrightarrow> distinct (rg_free rg) \<and>
     (\<forall>i \<in> set (rg_free rg). unat i < length (rg_anchors rg) \<and> rs_token (rg_anchors rg ! unat i) = None) \<and>
     (\<forall>k < length (rg_anchors rg). slot_ok rg k)"

lemma registry_new_ok [simp]: "registry_ok registry_new"
  by (simp add: registry_ok_def registry_new_def)

lemma registry_token_slot:
  assumes "registry_ok rg" "k < length (rg_anchors rg)" "rs_token (rg_anchors rg ! k) = Some ref"
  shows "unat (rr_slot ref) = k" "rr_generation ref = rs_generation (rg_anchors rg ! k)" "rr_token ref < rg_tokens rg"
proof -
  have "slot_ok rg k" using assms(1,2) by (simp add: registry_ok_def)
  then show "unat (rr_slot ref) = k" "rr_generation ref = rs_generation (rg_anchors rg ! k)" "rr_token ref < rg_tokens rg"
    using assms(3) by (simp_all add: slot_ok_def)
qed

lemma registry_get_held:
  "registry_ok rg \<Longrightarrow> k < length (rg_anchors rg) \<Longrightarrow> rs_token (rg_anchors rg ! k) = Some ref \<Longrightarrow>
    registry_get rg ref = Some (rs_value (rg_anchors rg ! k))"
  using registry_token_slot [of rg k ref] by (simp add: registry_get_def get_def)

lemma registry_get_SomeE:
  assumes "registry_get rg ref = Some v"
  obtains k where "k < length (rg_anchors rg)" "k = unat (rr_slot ref)" "rs_token (rg_anchors rg ! k) = Some ref" "rs_value (rg_anchors rg ! k) = v"
    "rs_generation (rg_anchors rg ! k) = rr_generation ref"
  using assms by (simp add: registry_get_def get_def split: if_splits)

lemma registry_get_known: "registry_ok rg \<Longrightarrow> registry_get rg ref = Some v \<Longrightarrow> rr_token ref < rg_tokens rg"
  by (meson registry_get_SomeE registry_token_slot(3))

lemma of_nat_unat_u32: "k < 2 ^ 32 \<Longrightarrow> unat (of_nat k :: u32) = k"
  by (simp add: unat_of_nat_eq)

subsection \<open>Pinning\<close>

lemma option_eqI:
  assumes "\<And>y. a = Some y \<Longrightarrow> b = Some y" "\<And>y. b = Some y \<Longrightarrow> a = Some y"
  shows "a = b"
  using assms by (cases a; cases b) auto

text \<open>One slot is taken: the token that now names it is new.\<close>

lemma registry_get_taken:
  assumes ok: "registry_ok rg" "registry_ok rg'" and k: "k < length (rg_anchors rg')"
    and len: "length (rg_anchors rg) \<le> length (rg_anchors rg')" "length (rg_anchors rg') \<le> Suc k \<or> length (rg_anchors rg') = length (rg_anchors rg)"
    and other: "\<And>j. j < length (rg_anchors rg) \<Longrightarrow> j \<noteq> k \<Longrightarrow> rg_anchors rg' ! j = rg_anchors rg ! j"
    and vacant: "k < length (rg_anchors rg) \<Longrightarrow> rs_token (rg_anchors rg ! k) = None" "k \<le> length (rg_anchors rg)"
    and new: "rs_token (rg_anchors rg' ! k) = Some ref" "rs_value (rg_anchors rg' ! k) = v" "rr_token ref = rg_tokens rg"
  shows "registry_get rg' = (registry_get rg)(ref \<mapsto> v)"
proof
  fix x
  have fresh: "rs_token (rg_anchors rg ! j) \<noteq> Some ref" if "j < length (rg_anchors rg)" for j
    using ok(1) that new(3) by (auto simp: registry_ok_def slot_ok_def split: option.splits)
  have in_range: "j < length (rg_anchors rg)" if "j < length (rg_anchors rg')" "j \<noteq> k" for j
    using that len vacant(2) by linarith
  show "registry_get rg' x = ((registry_get rg)(ref \<mapsto> v)) x"
  proof (cases "x = ref")
    case True
    then show ?thesis using registry_get_held [OF ok(2) k new(1)] new(2) by simp
  next
    case False
    have "registry_get rg' x = registry_get rg x"
    proof (rule option_eqI)
      fix y assume "registry_get rg' x = Some y"
      then obtain j where j: "j < length (rg_anchors rg')" "rs_token (rg_anchors rg' ! j) = Some x" "rs_value (rg_anchors rg' ! j) = y"
        by (rule registry_get_SomeE)
      then have "j \<noteq> k" using new(1) False by auto
      with j(1) have "j < length (rg_anchors rg)" "rg_anchors rg' ! j = rg_anchors rg ! j" using in_range other by auto
      then show "registry_get rg x = Some y" using registry_get_held [OF ok(1)] j by simp
    next
      fix y assume "registry_get rg x = Some y"
      then obtain j where j: "j < length (rg_anchors rg)" "rs_token (rg_anchors rg ! j) = Some x" "rs_value (rg_anchors rg ! j) = y"
        by (rule registry_get_SomeE)
      then have "j \<noteq> k" using vacant(1) by auto
      then show "registry_get rg' x = Some y" using registry_get_held [OF ok(2), of j x] j other [of j] len(1) by simp
    qed
    then show ?thesis using False by simp
  qed
qed

lemma pin_reuse_ok:
  assumes ok: "registry_ok rg" and fr: "rg_free rg \<noteq> []" and pin: "registry_pin granted v hid rg = (out, rg')"
  shows "registry_ok rg'" "\<exists>ref. out = Some ref \<and> rr_token ref = rg_tokens rg \<and> rg_tokens rg' = Suc (rg_tokens rg) \<and>
    registry_get rg' = (registry_get rg)(ref \<mapsto> v)"
proof -
  let ?i = "last (rg_free rg)" and ?A = "rg_anchors rg"
  let ?ref = "\<lparr>rr_slot = ?i, rr_generation = rs_generation (?A ! unat ?i), rr_heap = hid, rr_token = rg_tokens rg\<rparr>"
  have i: "?i \<in> set (rg_free rg)" using fr by simp
  then have ir: "unat ?i < length ?A" "rs_token (?A ! unat ?i) = None" using ok by (simp_all add: registry_ok_def)
  have rg': "out = Some ?ref" "rg_anchors rg' = ?A[unat ?i := (?A ! unat ?i)\<lparr>rs_value := v, rs_token := Some ?ref\<rparr>]"
    "rg_free rg' = butlast (rg_free rg)" "rg_tokens rg' = Suc (rg_tokens rg)"
    using pin fr ir by (auto simp: registry_pin_def from_parts_def Let_def)
  have free: "distinct (rg_free rg)" using ok by (simp add: registry_ok_def)
  then have sf: "set (butlast (rg_free rg)) = set (rg_free rg) - {?i}"
    using fr by (cases "rg_free rg" rule: rev_cases) auto
  have "slot_ok rg' k" if k: "k < length (rg_anchors rg')" for k
  proof (cases "k = unat ?i")
    case True
    then show ?thesis using ir by (simp add: slot_ok_def rg')
  next
    case False
    then have "slot_ok rg k" "rg_anchors rg' ! k = ?A ! k" using ok k by (auto simp: registry_ok_def rg')
    moreover have "k < 2 ^ 32 \<Longrightarrow> (of_nat k :: u32) \<noteq> ?i" using False of_nat_unat_u32 by metis
    ultimately show ?thesis by (auto simp: slot_ok_def rg' sf split: option.splits)
  qed
  moreover have "unat j < length (rg_anchors rg') \<and> rs_token (rg_anchors rg' ! unat j) = None" if "j \<in> set (rg_free rg')" for j
  proof -
    have "j \<in> set (rg_free rg)" "unat j \<noteq> unat ?i" using that by (auto simp: rg' sf word_unat_eq_iff)
    then show ?thesis using ok by (simp add: rg' registry_ok_def)
  qed
  ultimately show ok': "registry_ok rg'" using free by (auto simp: registry_ok_def rg' distinct_butlast)
  have "registry_get rg' = (registry_get rg)(?ref \<mapsto> v)"
    by (rule registry_get_taken [OF ok ok', of "unat ?i"]) (use ir in \<open>auto simp: rg'\<close>)
  then show "\<exists>ref. out = Some ref \<and> rr_token ref = rg_tokens rg \<and> rg_tokens rg' = Suc (rg_tokens rg) \<and>
      registry_get rg' = (registry_get rg)(ref \<mapsto> v)" using rg' by auto
qed

lemma pin_fresh_ok:
  assumes ok: "registry_ok rg" and fr: "rg_free rg = []" and len: "length (rg_anchors rg) < 2 ^ 32"
    and pin: "registry_pin True v hid rg = (out, rg')"
  shows "registry_ok rg'" "\<exists>ref. out = Some ref \<and> rr_token ref = rg_tokens rg \<and> rg_tokens rg' = Suc (rg_tokens rg) \<and>
    registry_get rg' = (registry_get rg)(ref \<mapsto> v)"
proof -
  let ?k = "length (rg_anchors rg)"
  let ?ref = "\<lparr>rr_slot = of_nat ?k, rr_generation = 0, rr_heap = hid, rr_token = rg_tokens rg\<rparr>"
  have rg': "out = Some ?ref" "rg_anchors rg' = rg_anchors rg @ [\<lparr>rs_value = v, rs_generation = 0, rs_token = Some ?ref\<rparr>]"
    "rg_free rg' = []" "rg_tokens rg' = Suc (rg_tokens rg)"
    using pin fr len by (auto simp: registry_pin_def from_parts_def Let_def)
  have "slot_ok rg' k" if k: "k < length (rg_anchors rg')" for k
  proof (cases "k = ?k")
    case True
    then show ?thesis using len by (simp add: slot_ok_def rg' of_nat_unat_u32)
  next
    case False
    then have "slot_ok rg k" "rg_anchors rg' ! k = rg_anchors rg ! k" using ok k by (auto simp: registry_ok_def rg' nth_append)
    then show ?thesis by (auto simp: slot_ok_def rg' fr split: option.splits)
  qed
  then show ok': "registry_ok rg'" by (simp add: registry_ok_def rg')
  have "registry_get rg' = (registry_get rg)(?ref \<mapsto> v)"
    by (rule registry_get_taken [OF ok ok', of ?k]) (auto simp: rg' nth_append)
  then show "\<exists>ref. out = Some ref \<and> rr_token ref = rg_tokens rg \<and> rg_tokens rg' = Suc (rg_tokens rg) \<and>
      registry_get rg' = (registry_get rg)(ref \<mapsto> v)" using rg' by auto
qed

lemma registry_pin_ok:
  assumes ok: "registry_ok rg" and len: "length (rg_anchors rg) < 2 ^ 32" and pin: "registry_pin granted v hid rg = (out, rg')"
  shows "registry_ok rg' \<and> (case out of
      None \<Rightarrow> rg' = rg
    | Some ref \<Rightarrow> rr_token ref = rg_tokens rg \<and> rg_tokens rg' = Suc (rg_tokens rg) \<and> registry_get rg' = (registry_get rg)(ref \<mapsto> v))"
proof -
  consider "rg_free rg \<noteq> []" | "rg_free rg = []" "granted" | "rg_free rg = []" "\<not> granted" by blast
  then show ?thesis
  proof cases
    case 1
    then show ?thesis using pin_reuse_ok [OF ok 1 pin] by auto
  next
    case 2
    then show ?thesis using pin_fresh_ok [OF ok 2(1) len, of v hid out rg'] pin by auto
  next
    case 3
    then have "out = None" "rg' = rg" using pin by (auto simp: registry_pin_def)
    then show ?thesis using ok by simp
  qed
qed

subsection \<open>Releasing\<close>

lemma registry_unpin_stale: "registry_get rg ref = None \<Longrightarrow> registry_unpin ref rg = rg"
  by (auto simp: registry_unpin_def registry_get_def split: option.splits if_splits)

lemma registry_unpin_ok:
  assumes ok: "registry_ok rg"
  shows "registry_ok (registry_unpin ref rg)" "registry_get (registry_unpin ref rg) = (registry_get rg)(ref := None)"
    "rg_tokens (registry_unpin ref rg) = rg_tokens rg" "length (rg_anchors (registry_unpin ref rg)) = length (rg_anchors rg)"
proof -
  show "rg_tokens (registry_unpin ref rg) = rg_tokens rg" "length (rg_anchors (registry_unpin ref rg)) = length (rg_anchors rg)"
    by (simp_all add: registry_unpin_def split: option.splits)
  have "registry_ok (registry_unpin ref rg) \<and> registry_get (registry_unpin ref rg) = (registry_get rg)(ref := None)"
  proof (cases "registry_get rg ref")
    case None
    then show ?thesis using ok by (simp add: registry_unpin_stale fun_upd_idem)
  next
    case (Some v)
    let ?i = "rr_slot ref" and ?A = "rg_anchors rg" and ?rg = "registry_unpin ref rg"
    have i: "unat ?i < length ?A" "rs_token (?A ! unat ?i) = Some ref" "rs_generation (?A ! unat ?i) = rr_generation ref"
      using Some by (auto simp: registry_get_def get_def split: if_splits)
    have rg': "rg_anchors ?rg = ?A[unat ?i := (?A ! unat ?i)\<lparr>rs_value := LNil, rs_token := None,
        rs_generation := rs_generation (?A ! unat ?i) + 1\<rparr>]" "rg_free ?rg = rg_free rg @ [?i]" "rg_tokens ?rg = rg_tokens rg"
      using i by (simp_all add: registry_unpin_def get_def)
    have notin: "?i \<notin> set (rg_free rg)" using ok i(2) by (auto simp: registry_ok_def)
    have "slot_ok ?rg k" if k: "k < length (rg_anchors ?rg)" for k
    proof (cases "k = unat ?i")
      case True
      then show ?thesis using i(1) by (simp add: slot_ok_def rg')
    next
      case False
      then have "slot_ok rg k" "rg_anchors ?rg ! k = ?A ! k" using ok k by (auto simp: registry_ok_def rg')
      then show ?thesis by (auto simp: slot_ok_def rg' split: option.splits)
    qed
    moreover have "unat j < length (rg_anchors ?rg) \<and> rs_token (rg_anchors ?rg ! unat j) = None" if "j \<in> set (rg_free ?rg)" for j
      using that ok i(1) by (auto simp: rg' registry_ok_def nth_list_update)
    ultimately have ok': "registry_ok ?rg" using ok notin by (auto simp: registry_ok_def rg')
    have "registry_get ?rg x = ((registry_get rg)(ref := None)) x" for x
    proof -
      have "registry_get ?rg x = Some y \<longleftrightarrow> ((registry_get rg)(ref := None)) x = Some y" for y
        using i ok by (cases "x = ref") (auto simp: registry_get_def get_def rg' nth_list_update split: if_splits)
      then show ?thesis by (metis not_Some_eq)
    qed
    then show ?thesis using ok' by blast
  qed
  then show "registry_ok (registry_unpin ref rg)" "registry_get (registry_unpin ref rg) = (registry_get rg)(ref := None)" by auto
qed

subsection \<open>Anchors\<close>

lemma registry_anchors_ran:
  assumes ok: "registry_ok rg" and len: "length (rg_anchors rg) \<le> 2 ^ 32"
  shows "set (registry_anchors rg) = ran (registry_get rg) - {LNil}"
proof (rule set_eqI)
  fix v
  have "v \<in> ran (registry_get rg)" if "k < length (rg_anchors rg)" "rs_value (rg_anchors rg ! k) = v" "v \<noteq> LNil" for k
  proof -
    have "slot_ok rg k" "k < 2 ^ 32" using ok that(1) len by (simp_all add: registry_ok_def)
    then have "rs_token (rg_anchors rg ! k) \<noteq> None" using that(2,3) by (auto simp: slot_ok_def split: option.splits)
    then obtain ref where "rs_token (rg_anchors rg ! k) = Some ref" by blast
    then show ?thesis using registry_get_held [OF ok that(1)] that(2) by (auto simp: ran_def)
  qed
  moreover have "v \<in> rs_value ` set (rg_anchors rg)" if "v \<in> ran (registry_get rg)"
    using that by (auto simp: ran_def elim!: registry_get_SomeE)
  ultimately show "v \<in> set (registry_anchors rg) \<longleftrightarrow> v \<in> ran (registry_get rg) - {LNil}"
    by (auto simp: registry_anchors_def in_set_conv_nth)
qed

subsection \<open>Histories\<close>

text \<open>
  A history of a registry: \<open>issued\<close> are the tokens handed out with what they pin, latest first, and
  \<open>released\<close> the tokens that were released, known or not. The anchor store has fewer than \<open>2\<^sup>32\<close> slots
  when it grows.
\<close>

inductive registry_run :: "registry \<Rightarrow> (registry_ref \<times> raw_value) list \<Rightarrow> registry_ref set \<Rightarrow> bool" where
  start: "registry_run registry_new [] {}"
| pin: "registry_run rg issued released \<Longrightarrow> length (rg_anchors rg) < 2 ^ 32 \<Longrightarrow>
    registry_pin granted v hid rg = (Some ref, rg') \<Longrightarrow> registry_run rg' ((ref, v) # issued) released"
| no_memory: "registry_run rg issued released \<Longrightarrow> length (rg_anchors rg) < 2 ^ 32 \<Longrightarrow>
    registry_pin granted v hid rg = (None, rg') \<Longrightarrow> registry_run rg' issued released"
| unpin: "registry_run rg issued released \<Longrightarrow> ref \<in> fst ` set issued \<Longrightarrow>
    registry_run (registry_unpin ref rg) issued (insert ref released)"

definition registry_books :: "registry \<Rightarrow> (registry_ref \<times> raw_value) list \<Rightarrow> registry_ref set \<Rightarrow> bool" where
  "registry_books rg issued released \<longleftrightarrow> registry_ok rg \<and> length (rg_anchors rg) \<le> 2 ^ 32 \<and>
     (\<forall>ref \<in> fst ` set issued. rr_token ref < rg_tokens rg) \<and> released \<subseteq> fst ` set issued \<and>
     distinct (map (rr_token \<circ> fst) issued) \<and>
     registry_get rg = (\<lambda>ref. if ref \<in> released then None else map_of issued ref)"

lemma registry_pin_len: "registry_pin granted v hid rg = (out, rg') \<Longrightarrow> length (rg_anchors rg') \<le> Suc (length (rg_anchors rg))"
  by (auto simp: registry_pin_def from_parts_def Let_def split: if_splits)

lemma registry_run_books: "registry_run rg issued released \<Longrightarrow> registry_books rg issued released"
proof (induction rule: registry_run.induct)
  case start
  have "registry_get registry_new = (\<lambda>_. None)" by (simp add: registry_get_def registry_new_def get_def fun_eq_iff)
  then show ?case by (simp add: registry_books_def) (simp add: registry_new_def)
next
  case (pin rg issued released granted v hid ref rg')
  note b = pin.IH [unfolded registry_books_def]
  note p = registry_pin_ok [OF conjunct1 [OF b] pin.hyps(2,3)]
  have new: "rr_token ref \<notin> (rr_token \<circ> fst) ` set issued" using b p by fastforce
  then have "ref \<notin> released" using b by (auto simp: image_iff)
  then have "registry_get rg' = (\<lambda>x. if x \<in> released then None else map_of ((ref, v) # issued) x)"
    using b p by (auto simp: fun_eq_iff)
  moreover have "length (rg_anchors rg') \<le> 2 ^ 32" using registry_pin_len [OF pin.hyps(3)] pin.hyps(2) by simp
  moreover have "\<forall>x \<in> fst ` set ((ref, v) # issued). rr_token x < rg_tokens rg'" using b p by auto
  ultimately show ?case using b p new by (simp add: registry_books_def) auto
next
  case (no_memory rg issued released granted v hid rg')
  then show ?case using registry_pin_ok [of rg granted v hid None rg'] by (simp add: registry_books_def)
next
  case (unpin rg issued released ref)
  then show ?case using registry_unpin_ok [of rg ref] by (auto simp: registry_books_def fun_eq_iff)
qed

text \<open>
  C17: over any history of pins and releases, no token is issued twice; a token resolves to the value it
  was issued for until it is released and never again after, also when its slot is reused; a value that
  is no issued token resolves to nothing; and the collector's anchors are exactly the values that
  unreleased tokens hold, \<^verbatim>\<open>nil\<close> aside.
\<close>

theorem registry_pins:
  assumes "registry_run rg issued released"
  shows "distinct (map fst issued) \<and>
    (\<forall>ref. registry_get rg ref = (if ref \<in> released then None else map_of issued ref)) \<and>
    set (registry_anchors rg) = {v. \<exists>ref. (ref, v) \<in> set issued \<and> ref \<notin> released \<and> v \<noteq> LNil}"
proof (intro conjI allI)
  have b: "registry_books rg issued released" by (rule registry_run_books [OF assms])
  then have "distinct (map rr_token (map fst issued))" by (simp add: registry_books_def)
  then show d: "distinct (map fst issued)" by (simp only: distinct_map)
  show "registry_get rg ref = (if ref \<in> released then None else map_of issued ref)" for ref using b by (simp add: registry_books_def)
  show "set (registry_anchors rg) = {v. \<exists>ref. (ref, v) \<in> set issued \<and> ref \<notin> released \<and> v \<noteq> LNil}"
    using b d by (auto simp: registry_books_def registry_anchors_ran ran_def split: if_splits dest: map_of_SomeD)
qed

lemma registry_pins_witness:
  "\<exists>rg a b. registry_run rg [(b, LBoolean False), (a, LBoolean True)] {a} \<and> a \<noteq> b \<and> rr_slot a = rr_slot b \<and>
     registry_get rg a = None \<and> registry_get rg b = Some (LBoolean False) \<and>
     set (registry_anchors rg) = {LBoolean False}"
proof -
  let ?a = "\<lparr>rr_slot = 0, rr_generation = 0, rr_heap = 7, rr_token = 0\<rparr>"
  let ?b = "\<lparr>rr_slot = 0, rr_generation = 1, rr_heap = 7, rr_token = 1\<rparr>"
  let ?r1 = "snd (registry_pin True (LBoolean True) 7 registry_new)"
  let ?r2 = "registry_unpin ?a ?r1"
  let ?r3 = "snd (registry_pin False (LBoolean False) 7 ?r2)"
  have 1: "registry_pin True (LBoolean True) 7 registry_new = (Some ?a, ?r1)"
    by (simp add: registry_pin_def registry_new_def from_parts_def)
  have l: "length (rg_anchors ?r2) = 1" "length (rg_anchors registry_new) = 0"
    by (simp_all add: registry_pin_def registry_new_def from_parts_def registry_unpin_def get_def)
  have 3: "registry_pin False (LBoolean False) 7 ?r2 = (Some ?b, ?r3)"
    by (simp add: registry_pin_def registry_new_def from_parts_def registry_unpin_def get_def)
  have run: "registry_run ?r3 [(?b, LBoolean False), (?a, LBoolean True)] {?a}"
    by (rule registry_run.pin [OF registry_run.unpin [OF registry_run.pin [OF registry_run.start _ 1]] _ 3]) (simp_all add: l)
  show ?thesis
    by (rule exI [of _ ?r3], rule exI [of _ ?a], rule exI [of _ ?b])
      (use run registry_pins [OF run] in \<open>auto\<close>)
qed

end
