(* ===== verification/Heap.thy ===== *)
theory Heap
  imports Arena Lua_Table Registry
begin

text \<open>
  The heap of the VM as the collector sees it: the object kinds of \<^verbatim>\<open>crates/ruau-vm/src\<close>
  (\<^verbatim>\<open>string.rs\<close>, \<^verbatim>\<open>table.rs\<close>, \<^verbatim>\<open>func.rs\<close>, \<^verbatim>\<open>object.rs\<close>, \<^verbatim>\<open>state.rs\<close>) with the handles they
  hold, the eight arenas of \<^verbatim>\<open>heap/store.rs\<close>, and the roots and pacing fields of \<^verbatim>\<open>heap/mod.rs\<close>.
  Fields that neither tracing nor the heap's own operations read (bytecode, line tables, program
  counters, meters) are left out of the object records.
\<close>

section \<open>References\<close>

datatype gc_ref =
    Gc_Str u32 | Gc_Table u32 | Gc_Closure u32 | Gc_Userdata u32
  | Gc_Thread u32 | Gc_Buffer u32 | Gc_Proto u32 | Gc_UpVal u32

fun from_value_gen :: "raw_value \<Rightarrow> (gc_ref \<times> u32) option" where
  "from_value_gen (LString h) = Some (Gc_Str (gc_index h), gc_generation h)"
| "from_value_gen (LTable h) = Some (Gc_Table (gc_index h), gc_generation h)"
| "from_value_gen (LFunction h) = Some (Gc_Closure (gc_index h), gc_generation h)"
| "from_value_gen (LUserdata h) = Some (Gc_Userdata (gc_index h), gc_generation h)"
| "from_value_gen (LThread h) = Some (Gc_Thread (gc_index h), gc_generation h)"
| "from_value_gen (LBuffer h) = Some (Gc_Buffer (gc_index h), gc_generation h)"
| "from_value_gen _ = None"

fun from_value :: "raw_value \<Rightarrow> gc_ref option" where
  "from_value (LString h) = Some (Gc_Str (gc_index h))"
| "from_value (LTable h) = Some (Gc_Table (gc_index h))"
| "from_value (LFunction h) = Some (Gc_Closure (gc_index h))"
| "from_value (LUserdata h) = Some (Gc_Userdata (gc_index h))"
| "from_value (LThread h) = Some (Gc_Thread (gc_index h))"
| "from_value (LBuffer h) = Some (Gc_Buffer (gc_index h))"
| "from_value _ = None"

section \<open>Objects\<close>

record lua_string =
  ls_bytes :: bytes

record closure =
  cl_proto :: raw_gc
  cl_env :: "raw_gc option"
  cl_upvals :: "raw_gc list"

datatype upval = Open raw_gc u32 | Closed raw_value

datatype runtime_constant =
    RC_Value raw_value
  | RC_Import u32
  | RC_Table "(raw_value \<times> raw_value) list"
  | RC_Proto raw_gc

text \<open>\<open>pr_native\<close>: a builtin or a host function stands behind the prototype.\<close>

record lua_proto =
  pr_populated :: bool
  pr_native :: bool
  pr_source :: "raw_gc option"
  pr_debug_name :: "raw_gc option"
  pr_child_protos :: "raw_gc list"
  pr_import_values :: "raw_value option list"
  pr_constants :: "runtime_constant list"

record lua_userdata =
  ud_payload_id :: u64

record lua_buffer =
  lb_data :: bytes

record call_info =
  ci_closure :: raw_gc
  ci_frame_top :: u32
  ci_varargs :: "raw_value list"

record protected_info =
  pi_result_base :: u32
  pi_result_count :: u8
  pi_saved_top :: u32
  pi_handler :: "raw_value option"

record require_info =
  ri_result_base :: u32
  ri_result_count :: u8
  ri_saved_top :: u32

datatype call_stack_entry = Frame call_info | Protected protected_info | Require require_info

record thread =
  th_slots :: "raw_value list"
  th_call_stack :: "call_stack_entry list"
  th_error_frames :: "raw_gc list"
  th_top :: u32
  th_open_upvals :: "raw_gc list"
  th_id :: "raw_gc option"
  th_globals :: "raw_gc option"
  th_entry :: "raw_gc option"
  th_resume_slot :: "(u32 \<times> u8) option"
  th_death_error :: "raw_value option"
  th_resumer :: "raw_gc option"

definition thread_new :: thread where
  "thread_new = \<lparr>th_slots = [], th_call_stack = [], th_error_frames = [], th_top = 0, th_open_upvals = [],
     th_id = None, th_globals = None, th_entry = None, th_resume_slot = None, th_death_error = None,
     th_resumer = None\<rparr>"

section \<open>Tracing one object\<close>

text \<open>The handles an object reports to \<^verbatim>\<open>GcVisit\<close>, in order.\<close>

type_synonym traced = "(gc_ref \<times> u32) list"

definition visit_value :: "raw_value \<Rightarrow> traced" where
  "visit_value v = (case from_value_gen v of Some x \<Rightarrow> [x] | None \<Rightarrow> [])"

definition visit_handle :: "(u32 \<Rightarrow> gc_ref) \<Rightarrow> raw_gc \<Rightarrow> traced" where
  "visit_handle k g = [(k (gc_index g), gc_generation g)]"

definition visit_option :: "('a \<Rightarrow> traced) \<Rightarrow> 'a option \<Rightarrow> traced" where
  "visit_option f x = (case x of None \<Rightarrow> [] | Some y \<Rightarrow> f y)"

definition visit_slot :: "hash_slot \<Rightarrow> traced" where
  "visit_slot s = (case hs_value s of None \<Rightarrow> [] | Some v \<Rightarrow> visit_value (hs_key_value s) @ visit_value v)"

definition table_trace :: "lua_table \<Rightarrow> traced" where
  "table_trace t = concat (map visit_value (lt_array t)) @ concat (map visit_slot (lt_hash t)) @
     visit_option (visit_handle Gc_Table) (lt_metatable t)"

definition closure_trace :: "closure \<Rightarrow> traced" where
  "closure_trace c = visit_handle Gc_Proto (cl_proto c) @ visit_option (visit_handle Gc_Table) (cl_env c) @
     concat (map (visit_handle Gc_UpVal) (cl_upvals c))"

fun upval_trace :: "upval \<Rightarrow> traced" where
  "upval_trace (Open t slot) = visit_handle Gc_Thread t"
| "upval_trace (Closed v) = visit_value v"

fun constant_trace :: "runtime_constant \<Rightarrow> traced" where
  "constant_trace (RC_Value v) = visit_value v"
| "constant_trace (RC_Proto p) = visit_handle Gc_Proto p"
| "constant_trace (RC_Table es) = concat (map (\<lambda>(k, v). visit_value k @ visit_value v) es)"
| "constant_trace (RC_Import _) = []"

definition proto_trace :: "lua_proto \<Rightarrow> traced" where
  "proto_trace p = visit_option (visit_handle Gc_Str) (pr_source p) @
     visit_option (visit_handle Gc_Str) (pr_debug_name p) @
     concat (map (visit_handle Gc_Proto) (pr_child_protos p)) @
     concat (map (visit_option visit_value) (pr_import_values p)) @
     concat (map constant_trace (pr_constants p))"

definition result_top :: "u32 \<Rightarrow> u8 \<Rightarrow> u32" where
  "result_top result_base result_count = saturating_add result_base (ucast (max result_count 1))"

fun entry_top :: "call_stack_entry \<Rightarrow> u32 \<Rightarrow> u32" where
  "entry_top (Frame f) tp = max tp (ci_frame_top f)"
| "entry_top (Protected p) tp = max (max tp (pi_saved_top p)) (result_top (pi_result_base p) (pi_result_count p))"
| "entry_top (Require r) tp = max (max tp (ri_saved_top r)) (result_top (ri_result_base r) (ri_result_count r))"

definition gc_live_top :: "thread \<Rightarrow> u32" where
  "gc_live_top t =
     (let tp = fold entry_top (th_call_stack t) (th_top t) in
      case th_resume_slot t of None \<Rightarrow> tp | Some (b, c) \<Rightarrow> max tp (result_top b c))"

definition gc_slots_up_to :: "thread \<Rightarrow> u32 \<Rightarrow> raw_value list" where
  "gc_slots_up_to t tp = take (min (unat tp) (length (th_slots t))) (th_slots t)"

fun entry_trace :: "call_stack_entry \<Rightarrow> traced" where
  "entry_trace (Frame f) = visit_handle Gc_Closure (ci_closure f) @ concat (map visit_value (ci_varargs f))"
| "entry_trace (Protected p) = visit_option visit_value (pi_handler p)"
| "entry_trace (Require r) = []"

definition thread_trace :: "thread \<Rightarrow> traced" where
  "thread_trace t = concat (map visit_value (gc_slots_up_to t (gc_live_top t))) @
     concat (map entry_trace (th_call_stack t)) @
     concat (map (visit_handle Gc_Closure) (th_error_frames t)) @
     concat (map (visit_handle Gc_UpVal) (th_open_upvals t)) @
     visit_option (visit_handle Gc_Table) (th_globals t) @
     visit_option (visit_handle Gc_Closure) (th_entry t) @
     visit_option visit_value (th_death_error t) @
     visit_option (visit_handle Gc_Thread) (th_resumer t)"

text \<open>A weak table reports its strong components; a string is strong on either side.\<close>

definition weak_visit :: "bool \<Rightarrow> raw_value \<Rightarrow> gc_ref list" where
  "weak_visit weak v =
     (if \<not> weak \<or> (case v of LString _ \<Rightarrow> True | _ \<Rightarrow> False)
      then (case from_value v of Some r \<Rightarrow> [r] | None \<Rightarrow> []) else [])"

definition weak_visit_slot :: "bool \<Rightarrow> bool \<Rightarrow> hash_slot \<Rightarrow> gc_ref list" where
  "weak_visit_slot weak_keys weak_values s =
     (case hs_value s of
        None \<Rightarrow> []
      | Some v \<Rightarrow> weak_visit weak_keys (hs_key_value s) @ weak_visit weak_values v)"

definition gc_trace_weak :: "bool \<Rightarrow> bool \<Rightarrow> lua_table \<Rightarrow> gc_ref list" where
  "gc_trace_weak weak_keys weak_values t =
     concat (map (weak_visit weak_values) (lt_array t)) @
     concat (map (weak_visit_slot weak_keys weak_values) (lt_hash t)) @
     (case lt_metatable t of None \<Rightarrow> [] | Some m \<Rightarrow> [Gc_Table (gc_index m)])"

section \<open>The heap\<close>

record object_store =
  strings :: "lua_string arena"
  tables :: "lua_table arena"
  closures :: "closure arena"
  userdata :: "lua_userdata arena"
  threads :: "thread arena"
  buffers :: "lua_buffer arena"
  protos :: "lua_proto arena"
  upvals :: "upval arena"

record heap = object_store +
  hp_id :: u64
  hp_interner :: "bytes \<rightharpoonup> raw_gc"
  hp_registry :: registry
  hp_named :: "bytes \<rightharpoonup> registry_ref"
  hp_string_metatable :: "raw_gc option"
  hp_vector_metatable :: "raw_gc option"
  hp_error_metatable :: "raw_gc option"
  hp_metamethod_names :: "raw_gc option list"
  hp_remembered :: "gc_ref list"
  hp_force_major :: bool
  hp_threshold :: u64
  hp_major_threshold :: u64
  hp_minors_since_major :: u32
  hp_cycles :: u64
  hp_step_progress :: u64
  hp_taken_out :: u32

subsection \<open>Colours and ages by reference\<close>

definition ref_color :: "'h object_store_scheme \<Rightarrow> gc_ref \<Rightarrow> color" where
  "ref_color h r = (case r of
       Gc_Str i \<Rightarrow> gc_color (strings h) i
     | Gc_Table i \<Rightarrow> gc_color (tables h) i
     | Gc_Closure i \<Rightarrow> gc_color (closures h) i
     | Gc_Userdata i \<Rightarrow> gc_color (userdata h) i
     | Gc_Thread i \<Rightarrow> gc_color (threads h) i
     | Gc_Buffer i \<Rightarrow> gc_color (buffers h) i
     | Gc_Proto i \<Rightarrow> gc_color (protos h) i
     | Gc_UpVal i \<Rightarrow> gc_color (upvals h) i)"

definition set_color :: "gc_ref \<Rightarrow> color \<Rightarrow> 'h object_store_scheme \<Rightarrow> 'h object_store_scheme" where
  "set_color r c h = (case r of
       Gc_Str i \<Rightarrow> h\<lparr>strings := gc_set_color i c (strings h)\<rparr>
     | Gc_Table i \<Rightarrow> h\<lparr>tables := gc_set_color i c (tables h)\<rparr>
     | Gc_Closure i \<Rightarrow> h\<lparr>closures := gc_set_color i c (closures h)\<rparr>
     | Gc_Userdata i \<Rightarrow> h\<lparr>userdata := gc_set_color i c (userdata h)\<rparr>
     | Gc_Thread i \<Rightarrow> h\<lparr>threads := gc_set_color i c (threads h)\<rparr>
     | Gc_Buffer i \<Rightarrow> h\<lparr>buffers := gc_set_color i c (buffers h)\<rparr>
     | Gc_Proto i \<Rightarrow> h\<lparr>protos := gc_set_color i c (protos h)\<rparr>
     | Gc_UpVal i \<Rightarrow> h\<lparr>upvals := gc_set_color i c (upvals h)\<rparr>)"

definition ref_age :: "'h object_store_scheme \<Rightarrow> gc_ref \<Rightarrow> age" where
  "ref_age h r = (case r of
       Gc_Str i \<Rightarrow> gc_age (strings h) i
     | Gc_Table i \<Rightarrow> gc_age (tables h) i
     | Gc_Closure i \<Rightarrow> gc_age (closures h) i
     | Gc_Userdata i \<Rightarrow> gc_age (userdata h) i
     | Gc_Thread i \<Rightarrow> gc_age (threads h) i
     | Gc_Buffer i \<Rightarrow> gc_age (buffers h) i
     | Gc_Proto i \<Rightarrow> gc_age (protos h) i
     | Gc_UpVal i \<Rightarrow> gc_age (upvals h) i)"

definition set_age :: "gc_ref \<Rightarrow> age \<Rightarrow> 'h object_store_scheme \<Rightarrow> 'h object_store_scheme" where
  "set_age r g h = (case r of
       Gc_Str i \<Rightarrow> h\<lparr>strings := gc_set_age i g (strings h)\<rparr>
     | Gc_Table i \<Rightarrow> h\<lparr>tables := gc_set_age i g (tables h)\<rparr>
     | Gc_Closure i \<Rightarrow> h\<lparr>closures := gc_set_age i g (closures h)\<rparr>
     | Gc_Userdata i \<Rightarrow> h\<lparr>userdata := gc_set_age i g (userdata h)\<rparr>
     | Gc_Thread i \<Rightarrow> h\<lparr>threads := gc_set_age i g (threads h)\<rparr>
     | Gc_Buffer i \<Rightarrow> h\<lparr>buffers := gc_set_age i g (buffers h)\<rparr>
     | Gc_Proto i \<Rightarrow> h\<lparr>protos := gc_set_age i g (protos h)\<rparr>
     | Gc_UpVal i \<Rightarrow> h\<lparr>upvals := gc_set_age i g (upvals h)\<rparr>)"

text \<open>\<^verbatim>\<open>is_live_gen\<close>: the slot holds the object the generation names.\<close>

definition is_live_gen :: "'h object_store_scheme \<Rightarrow> gc_ref \<Rightarrow> u32 \<Rightarrow> bool" where
  "is_live_gen h r g = (case r of
       Gc_Str i \<Rightarrow> arena_get (strings h) i g \<noteq> None
     | Gc_Table i \<Rightarrow> arena_get (tables h) i g \<noteq> None
     | Gc_Closure i \<Rightarrow> arena_get (closures h) i g \<noteq> None
     | Gc_Userdata i \<Rightarrow> arena_get (userdata h) i g \<noteq> None
     | Gc_Thread i \<Rightarrow> arena_get (threads h) i g \<noteq> None
     | Gc_Buffer i \<Rightarrow> arena_get (buffers h) i g \<noteq> None
     | Gc_Proto i \<Rightarrow> arena_get (protos h) i g \<noteq> None
     | Gc_UpVal i \<Rightarrow> arena_get (upvals h) i g \<noteq> None)"

text \<open>The handles of the object in a slot; strings, buffers and userdata hold none.\<close>

definition traced_of :: "'h object_store_scheme \<Rightarrow> gc_ref \<Rightarrow> traced" where
  "traced_of h r = (case r of
       Gc_Table i \<Rightarrow> visit_option table_trace (gc_value (tables h) i)
     | Gc_Closure i \<Rightarrow> visit_option closure_trace (gc_value (closures h) i)
     | Gc_Proto i \<Rightarrow> visit_option proto_trace (gc_value (protos h) i)
     | Gc_UpVal i \<Rightarrow> visit_option upval_trace (gc_value (upvals h) i)
     | Gc_Thread i \<Rightarrow> visit_option thread_trace (gc_value (threads h) i)
     | _ \<Rightarrow> [])"

subsection \<open>Access by handle\<close>

definition heap_string :: "heap \<Rightarrow> raw_gc \<Rightarrow> lua_string option" where
  "heap_string h g = (if gc_heap g \<noteq> hp_id h then None else arena_get (strings h) (gc_index g) (gc_generation g))"

definition heap_table :: "heap \<Rightarrow> raw_gc \<Rightarrow> lua_table option" where
  "heap_table h g = (if gc_heap g \<noteq> hp_id h then None else arena_get (tables h) (gc_index g) (gc_generation g))"

definition heap_thread :: "heap \<Rightarrow> raw_gc \<Rightarrow> thread option" where
  "heap_thread h g = (if gc_heap g \<noteq> hp_id h then None else arena_get (threads h) (gc_index g) (gc_generation g))"

subsection \<open>The write barrier and mutation\<close>

text \<open>
  \<^verbatim>\<open>remember\<close>; the first argument says whether the remembered set could be grown. A mutation through a
  \<^verbatim>\<open>_mut\<close> accessor replaces the object by what the caller makes of it.
\<close>

definition remember :: "bool \<Rightarrow> gc_ref \<Rightarrow> heap \<Rightarrow> heap" where
  "remember granted holder h =
     (if ref_age h holder \<noteq> Old then h
      else if granted then set_age holder OldRemembered (h\<lparr>hp_remembered := hp_remembered h @ [holder]\<rparr>)
      else h\<lparr>hp_force_major := True\<rparr>)"

definition table_mut :: "bool \<Rightarrow> raw_gc \<Rightarrow> (lua_table \<Rightarrow> lua_table) \<Rightarrow> heap \<Rightarrow> heap" where
  "table_mut granted g f h =
     (if gc_heap g \<noteq> hp_id h then h
      else
        let h1 = remember granted (Gc_Table (gc_index g)) h in
        h1\<lparr>tables := arena_get_mut (gc_index g) (gc_generation g) f (tables h1)\<rparr>)"

definition closure_mut :: "bool \<Rightarrow> raw_gc \<Rightarrow> (closure \<Rightarrow> closure) \<Rightarrow> heap \<Rightarrow> heap" where
  "closure_mut granted g f h =
     (if gc_heap g \<noteq> hp_id h then h
      else
        let h1 = remember granted (Gc_Closure (gc_index g)) h in
        h1\<lparr>closures := arena_get_mut (gc_index g) (gc_generation g) f (closures h1)\<rparr>)"

definition upval_mut :: "bool \<Rightarrow> raw_gc \<Rightarrow> (upval \<Rightarrow> upval) \<Rightarrow> heap \<Rightarrow> heap" where
  "upval_mut granted g f h =
     (if gc_heap g \<noteq> hp_id h then h
      else
        let h1 = remember granted (Gc_UpVal (gc_index g)) h in
        h1\<lparr>upvals := arena_get_mut (gc_index g) (gc_generation g) f (upvals h1)\<rparr>)"

definition thread_mut :: "raw_gc \<Rightarrow> (thread \<Rightarrow> thread) \<Rightarrow> heap \<Rightarrow> heap" where
  "thread_mut g f h =
     (if gc_heap g \<noteq> hp_id h then h
      else h\<lparr>threads := arena_get_mut (gc_index g) (gc_generation g) f (threads h)\<rparr>)"

end
