(* ===== verification/Heap_Ops.thy ===== *)
theory Heap_Ops
  imports Heap
begin

text \<open>
  The operations of \<^verbatim>\<open>crates/ruau-vm/src/heap/mod.rs\<close> with which the interpreter and the host build
  and change the heap: allocation and interning, prototypes, pins and named pins, the shared
  metatables, and threads taken out of their slots for execution. Charges to the memory meter are left
  out; what they decide, whether a reservation succeeds or the cap would be exceeded, is an argument.
\<close>

section \<open>Allocation\<close>

text \<open>
  The result is \<open>None\<close> for a panic of the arena, and carries no handle when a reservation fails.
\<close>

type_synonym allocation = "(raw_gc option \<times> heap) option"

definition with_handle :: "alloc_outcome \<Rightarrow> heap \<Rightarrow> allocation" where
  "with_handle out h =
     (case out of
        Allocated i g \<Rightarrow> Some (Some (RawGc i g (hp_id h)), h)
      | Reserve_Error \<Rightarrow> Some (None, h)
      | Alloc_Panic \<Rightarrow> None)"

definition intern_str :: "reservations \<Rightarrow> bytes \<Rightarrow> heap \<Rightarrow> allocation" where
  "intern_str r bs h =
     (case hp_interner h bs of
        Some g \<Rightarrow> Some (Some g, h)
      | None \<Rightarrow>
          (let (out, a) = arena_alloc r \<lparr>ls_bytes = bs\<rparr> (strings h) in
           case with_handle out (h\<lparr>strings := a\<rparr>) of
             None \<Rightarrow> None
           | Some (None, h1) \<Rightarrow> Some (None, h1)
           | Some (Some g, h1) \<Rightarrow> Some (Some g, h1\<lparr>hp_interner := (hp_interner h1)(bs \<mapsto> g)\<rparr>)))"

definition alloc_table :: "reservations \<Rightarrow> lua_table \<Rightarrow> heap \<Rightarrow> allocation" where
  "alloc_table r t h = (let (out, a) = arena_alloc r t (tables h) in with_handle out (h\<lparr>tables := a\<rparr>))"

definition alloc_proto :: "reservations \<Rightarrow> lua_proto \<Rightarrow> heap \<Rightarrow> allocation" where
  "alloc_proto r p h = (let (out, a) = arena_alloc r p (protos h) in with_handle out (h\<lparr>protos := a\<rparr>))"

definition alloc_buffer :: "reservations \<Rightarrow> lua_buffer \<Rightarrow> heap \<Rightarrow> allocation" where
  "alloc_buffer r b h = (let (out, a) = arena_alloc r b (buffers h) in with_handle out (h\<lparr>buffers := a\<rparr>))"

definition alloc_userdata :: "reservations \<Rightarrow> lua_userdata \<Rightarrow> heap \<Rightarrow> allocation" where
  "alloc_userdata r u h = (let (out, a) = arena_alloc r u (userdata h) in with_handle out (h\<lparr>userdata := a\<rparr>))"

definition alloc_closure :: "reservations \<Rightarrow> closure \<Rightarrow> heap \<Rightarrow> allocation" where
  "alloc_closure r c h = (let (out, a) = arena_alloc r c (closures h) in with_handle out (h\<lparr>closures := a\<rparr>))"

definition alloc_upval :: "reservations \<Rightarrow> upval \<Rightarrow> heap \<Rightarrow> allocation" where
  "alloc_upval r u h = (let (out, a) = arena_alloc r u (upvals h) in with_handle out (h\<lparr>upvals := a\<rparr>))"

definition alloc_thread :: "reservations \<Rightarrow> thread \<Rightarrow> heap \<Rightarrow> allocation" where
  "alloc_thread r t h = (let (out, a) = arena_alloc r t (threads h) in with_handle out (h\<lparr>threads := a\<rparr>))"

section \<open>Prototypes and buffers\<close>

record proto_buffers =
  pb_constants :: "runtime_constant list"
  pb_child_protos :: "raw_gc list"
  pb_source :: raw_gc
  pb_debug_name :: "raw_gc option"

definition populate :: "proto_buffers \<Rightarrow> lua_proto \<Rightarrow> lua_proto option" where
  "populate b p =
     (if pr_populated p \<or> pr_native p then None
      else Some (p\<lparr>pr_constants := pb_constants b, pr_child_protos := pb_child_protos b,
        pr_source := Some (pb_source b), pr_debug_name := pb_debug_name b, pr_populated := True\<rparr>))"

definition proto_mut :: "raw_gc \<Rightarrow> (lua_proto \<Rightarrow> lua_proto) \<Rightarrow> heap \<Rightarrow> heap" where
  "proto_mut g f h =
     (if gc_heap g \<noteq> hp_id h then h
      else h\<lparr>protos := arena_get_mut (gc_index g) (gc_generation g) f (protos h)\<rparr>)"

definition populate_proto :: "bool \<Rightarrow> raw_gc \<Rightarrow> proto_buffers \<Rightarrow> heap \<Rightarrow> bool \<times> heap" where
  "populate_proto over_cap g b h =
     (if gc_heap g \<noteq> hp_id h \<or> over_cap then (False, h)
      else
        (case Option.bind (arena_get (protos h) (gc_index g) (gc_generation g)) (populate b) of
           None \<Rightarrow> (False, h)
         | Some p \<Rightarrow> (True, h\<lparr>protos := arena_get_mut (gc_index g) (gc_generation g) (\<lambda>_. p) (protos h)\<rparr>)))"

definition cached_import :: "lua_proto \<Rightarrow> u32 \<Rightarrow> raw_value option" where
  "cached_import p i = (case get (pr_import_values p) (unat i) of Some (Some v) \<Rightarrow> Some v | _ \<Rightarrow> None)"

definition cache_import :: "u32 \<Rightarrow> raw_value \<Rightarrow> lua_proto \<Rightarrow> lua_proto" where
  "cache_import i v p =
     (let k = unat i; n = length (pr_constants p); ivs = pr_import_values p in
      if length ivs \<le> k then
        if n \<le> k then p
        else p\<lparr>pr_import_values := (take n ivs @ replicate (n - length ivs) None)[k := Some v]\<rparr>
      else p\<lparr>pr_import_values := ivs[k := Some v]\<rparr>)"

text \<open>The cache write of \<^verbatim>\<open>GETIMPORT\<close>: the barrier follows the store.\<close>

definition remember_import :: "bool \<Rightarrow> raw_gc \<Rightarrow> u32 \<Rightarrow> raw_value \<Rightarrow> heap \<Rightarrow> heap" where
  "remember_import granted g i v h = remember granted (Gc_Proto (gc_index g)) (proto_mut g (cache_import i v) h)"

definition buffer_mut :: "raw_gc \<Rightarrow> (lua_buffer \<Rightarrow> lua_buffer) \<Rightarrow> heap \<Rightarrow> heap" where
  "buffer_mut g f h =
     (if gc_heap g \<noteq> hp_id h then h
      else h\<lparr>buffers := arena_get_mut (gc_index g) (gc_generation g) f (buffers h)\<rparr>)"

section \<open>Pins\<close>

definition pin :: "bool \<Rightarrow> raw_value \<Rightarrow> heap \<Rightarrow> registry_ref option \<times> heap" where
  "pin granted v h = (let (out, rg) = registry_pin granted v (hp_id h) (hp_registry h) in (out, h\<lparr>hp_registry := rg\<rparr>))"

definition unpin :: "registry_ref \<Rightarrow> heap \<Rightarrow> heap" where
  "unpin ref h = (if rr_heap ref = hp_id h then h\<lparr>hp_registry := registry_unpin ref (hp_registry h)\<rparr> else h)"

definition pinned_value :: "heap \<Rightarrow> registry_ref \<Rightarrow> string + raw_value" where
  "pinned_value h ref =
     (if rr_heap ref \<noteq> hp_id h then Inl ''cross-VM host registry pin''
      else (case registry_get (hp_registry h) ref of
              Some v \<Rightarrow> Inr v
            | None \<Rightarrow> Inl ''stale or forged host registry pin''))"

definition named_set :: "bool \<Rightarrow> bytes \<Rightarrow> raw_value \<Rightarrow> heap \<Rightarrow> bool \<times> heap" where
  "named_set granted key v h =
     (case pin granted v h of
        (None, h1) \<Rightarrow> (False, h1)
      | (Some ref, h1) \<Rightarrow>
          (let h2 = h1\<lparr>hp_named := (hp_named h1)(key \<mapsto> ref)\<rparr> in
           (True, case hp_named h1 key of Some old \<Rightarrow> unpin old h2 | None \<Rightarrow> h2)))"

definition named_get :: "heap \<Rightarrow> bytes \<Rightarrow> raw_value option" where
  "named_get h key =
     (case hp_named h key of
        None \<Rightarrow> None
      | Some ref \<Rightarrow> (case pinned_value h ref of Inr v \<Rightarrow> Some v | Inl _ \<Rightarrow> None))"

definition named_remove :: "bytes \<Rightarrow> heap \<Rightarrow> bool \<times> heap" where
  "named_remove key h =
     (case hp_named h key of
        Some ref \<Rightarrow> (True, unpin ref (h\<lparr>hp_named := (hp_named h)(key := None)\<rparr>))
      | None \<Rightarrow> (False, h))"

text \<open>\<open>entries\<close> is the order in which the hash map yields its references; \<open>received\<close> the queued releases.\<close>

definition clear_named :: "registry_ref list \<Rightarrow> heap \<Rightarrow> heap" where
  "clear_named entries h = fold unpin entries (h\<lparr>hp_named := Map.empty\<rparr>)"

definition drain_releases :: "registry_ref list \<Rightarrow> heap \<Rightarrow> heap" where
  "drain_releases received h = fold unpin received h"

section \<open>Shared metatables\<close>

definition set_string_metatable :: "raw_gc \<Rightarrow> heap \<Rightarrow> bool \<times> heap" where
  "set_string_metatable g h = (if heap_table h g = None then (False, h) else (True, h\<lparr>hp_string_metatable := Some g\<rparr>))"

definition set_vector_metatable :: "raw_gc option \<Rightarrow> heap \<Rightarrow> bool \<times> heap" where
  "set_vector_metatable m h =
     (case m of
        Some g \<Rightarrow> if heap_table h g = None then (False, h) else (True, h\<lparr>hp_vector_metatable := m\<rparr>)
      | None \<Rightarrow> (True, h\<lparr>hp_vector_metatable := m\<rparr>))"

definition set_structured_error_metatable :: "raw_gc \<Rightarrow> heap \<Rightarrow> heap" where
  "set_structured_error_metatable g h = h\<lparr>hp_error_metatable := Some g\<rparr>"

section \<open>Threads in execution\<close>

text \<open>
  \<open>None\<close> is a panic: the depth counter overflows, or a thread is put back that was never taken.
\<close>

definition take_thread :: "raw_gc \<Rightarrow> heap \<Rightarrow> (thread option \<times> heap) option" where
  "take_thread g h =
     (case heap_thread h g of
        None \<Rightarrow> Some (None, h)
      | Some t \<Rightarrow>
          if th_id t \<noteq> Some g then Some (None, h)
          else if hp_taken_out h = - 1 then None
          else Some (Some t, (thread_mut g (\<lambda>_. thread_new) h)\<lparr>hp_taken_out := hp_taken_out h + 1\<rparr>))"

definition put_thread :: "raw_gc \<Rightarrow> thread \<Rightarrow> heap \<Rightarrow> (bool \<times> heap) option" where
  "put_thread g t h =
     (if hp_taken_out h = 0 then None
      else if heap_thread h g = None then Some (False, h)
      else Some (True, (thread_mut g (\<lambda>_. t) h)\<lparr>hp_taken_out := hp_taken_out h - 1\<rparr>))"

section \<open>A new heap\<close>

datatype meta_event =
    Ev_Index | Ev_NewIndex | Ev_Add | Ev_Sub | Ev_Mul | Ev_Div | Ev_IDiv | Ev_Mod | Ev_Pow | Ev_Unm | Ev_Eq | Ev_Lt | Ev_Le
  | Ev_Len | Ev_Call | Ev_Concat | Ev_ToString | Ev_Iter

definition meta_events :: "meta_event list" where
  "meta_events = [Ev_Index, Ev_NewIndex, Ev_Add, Ev_Sub, Ev_Mul, Ev_Div, Ev_IDiv, Ev_Mod, Ev_Pow, Ev_Unm, Ev_Eq, Ev_Lt, Ev_Le,
     Ev_Len, Ev_Call, Ev_Concat, Ev_ToString, Ev_Iter]"

text \<open>Event names in ASCII.\<close>

definition ascii :: "string \<Rightarrow> bytes" where
  "ascii = map of_char"

fun event_name :: "meta_event \<Rightarrow> bytes" where
  "event_name Ev_Index = ascii ''__index''"
| "event_name Ev_NewIndex = ascii ''__newindex''"
| "event_name Ev_Add = ascii ''__add''"
| "event_name Ev_Sub = ascii ''__sub''"
| "event_name Ev_Mul = ascii ''__mul''"
| "event_name Ev_Div = ascii ''__div''"
| "event_name Ev_IDiv = ascii ''__idiv''"
| "event_name Ev_Mod = ascii ''__mod''"
| "event_name Ev_Pow = ascii ''__pow''"
| "event_name Ev_Unm = ascii ''__unm''"
| "event_name Ev_Eq = ascii ''__eq''"
| "event_name Ev_Lt = ascii ''__lt''"
| "event_name Ev_Le = ascii ''__le''"
| "event_name Ev_Len = ascii ''__len''"
| "event_name Ev_Call = ascii ''__call''"
| "event_name Ev_Concat = ascii ''__concat''"
| "event_name Ev_ToString = ascii ''__tostring''"
| "event_name Ev_Iter = ascii ''__iter''"

definition GC_MAJOR_STEP_BYTES :: u64 where
  "GC_MAJOR_STEP_BYTES = 4 * 1024 * 1024"

definition GC_STEP_BYTES :: u64 where
  "GC_STEP_BYTES = 256 * 1024"

definition empty_heap :: "u64 \<Rightarrow> heap" where
  "empty_heap hid =
     \<lparr>strings = arena_new, tables = arena_new, closures = arena_new, userdata = arena_new, threads = arena_new,
      buffers = arena_new, protos = arena_new, upvals = arena_new, hp_id = hid, hp_interner = Map.empty,
      hp_registry = registry_new, hp_named = Map.empty, hp_string_metatable = None, hp_vector_metatable = None,
      hp_error_metatable = None, hp_metamethod_names = replicate 18 None, hp_remembered = [], hp_force_major = False,
      hp_threshold = GC_STEP_BYTES, hp_major_threshold = GC_MAJOR_STEP_BYTES, hp_minors_since_major = 0, hp_cycles = 0,
      hp_step_progress = 0, hp_taken_out = 0\<rparr>"

text \<open>The loop of \<^verbatim>\<open>Heap::new\<close>; \<open>rs\<close> answers the reservations of each round.\<close>

fun intern_events :: "(nat \<Rightarrow> reservations) \<Rightarrow> nat \<Rightarrow> meta_event list \<Rightarrow> heap \<Rightarrow> heap option" where
  "intern_events rs k [] h = Some h"
| "intern_events rs k (e # es) h =
     (case intern_str (rs k) (event_name e) h of
        None \<Rightarrow> None
      | Some (g, h1) \<Rightarrow>
          intern_events rs (Suc k) es (h1\<lparr>hp_metamethod_names := (hp_metamethod_names h1)[k := g]\<rparr>))"

definition heap_new :: "u64 \<Rightarrow> (nat \<Rightarrow> reservations) \<Rightarrow> heap option" where
  "heap_new hid rs = intern_events rs 0 meta_events (empty_heap hid)"

end
