(* ===== verification/Gc.thy ===== *)
theory Gc
  imports Heap_Ops
begin

text \<open>
  The collector, \<^verbatim>\<open>crates/ruau-vm/src/gc.rs\<close>: marking, tracing, weak tables, both sweeps, the cycle
  driver with its abort path, and the heap validator.

  Every growth of a work list reserves memory first and aborts the cycle when the reservation fails.
  The number of reservations that succeed before the first failure is an argument, the budget: a cycle
  consults no reservation after the failing one, so every behaviour of the allocator is some budget.
  An abort is a value that carries the heap as the cycle left it. Work lists used as stacks have their top in front. What the memory
  meter reads before a cycle and after it are arguments too; the footprints it releases are not
  modelled. Tables satisfy their invariant, so that reading or clearing a field does not panic.
\<close>

section \<open>Marking\<close>

record marking =
  mk_heap :: heap
  mk_queue :: "gc_ref list"
  mk_budget :: nat

text \<open>\<^verbatim>\<open>Result<_, GcAbort>\<close> with the heap at the abort, and \<^verbatim>\<open>?\<close>.\<close>

type_synonym 'a gc = "heap + 'a"

definition gbind :: "'a gc \<Rightarrow> ('a \<Rightarrow> 'b gc) \<Rightarrow> 'b gc" where
  "gbind m f = (case m of Inl h \<Rightarrow> Inl h | Inr x \<Rightarrow> f x)"

definition reserve :: "nat \<Rightarrow> marking \<Rightarrow> marking gc" where
  "reserve n s = (if n \<le> mk_budget s then Inr (s\<lparr>mk_budget := mk_budget s - n\<rparr>) else Inl (mk_heap s))"

definition mark_gray :: "gc_ref \<Rightarrow> marking \<Rightarrow> marking gc" where
  "mark_gray r s =
     gbind (reserve 1 s) (\<lambda>s1. Inr (s1\<lparr>mk_heap := set_color r Gray (mk_heap s1), mk_queue := r # mk_queue s1\<rparr>))"

definition mark :: "gc_ref \<Rightarrow> marking \<Rightarrow> marking gc" where
  "mark r s = (if ref_color (mk_heap s) r = White then mark_gray r s else Inr s)"

definition is_thread :: "gc_ref \<Rightarrow> bool" where
  "is_thread r = (case r of Gc_Thread _ \<Rightarrow> True | _ \<Rightarrow> False)"

definition mark_minor :: "gc_ref \<Rightarrow> marking \<Rightarrow> marking gc" where
  "mark_minor r s =
     (if ref_color (mk_heap s) r \<noteq> White then Inr s
      else if is_thread r \<or> ref_age (mk_heap s) r \<in> {Young, OldRemembered} then mark_gray r s
      else Inr s)"

fun mark_all :: "(gc_ref \<Rightarrow> marking \<Rightarrow> marking gc) \<Rightarrow> gc_ref list \<Rightarrow> marking \<Rightarrow> marking gc" where
  "mark_all f [] s = Inr s"
| "mark_all f (r # rs) s = gbind (f r s) (mark_all f rs)"

definition handle_roots :: "(u32 \<Rightarrow> gc_ref) \<Rightarrow> raw_gc option \<Rightarrow> gc_ref list" where
  "handle_roots k x = (case x of None \<Rightarrow> [] | Some g \<Rightarrow> [k (gc_index g)])"

definition gc_anchors :: "heap \<Rightarrow> raw_value list" where
  "gc_anchors h = registry_anchors (hp_registry h)"

definition anchor_roots :: "heap \<Rightarrow> gc_ref list" where
  "anchor_roots h = List.map_filter from_value (gc_anchors h)"

definition fixed_roots :: "heap \<Rightarrow> gc_ref list" where
  "fixed_roots h = handle_roots Gc_Table (hp_string_metatable h) @
     concat (map (handle_roots Gc_Str) (hp_metamethod_names h)) @
     handle_roots Gc_Table (hp_vector_metatable h) @ handle_roots Gc_Table (hp_error_metatable h)"

definition mark_heap_roots :: "gc_ref list \<Rightarrow> marking \<Rightarrow> marking gc" where
  "mark_heap_roots roots s =
     gbind (mark_all mark (roots @ fixed_roots (mk_heap s)) s) (\<lambda>s1.
       let anchors = anchor_roots (mk_heap s1) in
       gbind (reserve (length anchors) s1) (mark_all mark anchors))"

section \<open>Tracing\<close>

datatype gc_cycle = Minor | Full

definition collect_children :: "'h object_store_scheme \<Rightarrow> gc_ref \<Rightarrow> gc_ref list" where
  "collect_children h r = map fst (traced_of h r)"

text \<open>\<^verbatim>\<open>bytes.contains(&b'k')\<close> and \<^verbatim>\<open>bytes.contains(&b'v')\<close>; \<open>mode_name\<close> is \<^verbatim>\<open>__mode\<close>.\<close>

definition mode_name :: bytes where
  "mode_name = [0x5f, 0x5f, 0x6d, 0x6f, 0x64, 0x65]"

definition field :: "lua_table \<Rightarrow> raw_value \<Rightarrow> raw_value" where
  "field t key = (case table_get t key of Some v \<Rightarrow> v | None \<Rightarrow> LNil)"

definition weak_mode :: "heap \<Rightarrow> lua_table \<Rightarrow> (bool \<times> bool) option" where
  "weak_mode h t =
     Option.bind (lt_metatable t) (\<lambda>metatable.
     Option.bind (hp_interner h mode_name) (\<lambda>mode_key.
     Option.bind (heap_table h metatable) (\<lambda>m.
     case field m (LString mode_key) of
       LString handle \<Rightarrow>
         Option.bind (heap_string h handle) (\<lambda>s.
           let weak_keys = (0x6b \<in> set (ls_bytes s)); weak_values = (0x76 \<in> set (ls_bytes s)) in
           if weak_keys \<or> weak_values then Some (weak_keys, weak_values) else None)
     | _ \<Rightarrow> None)))"

definition weak_ref :: "heap \<Rightarrow> gc_ref \<Rightarrow> (u32 \<times> bool \<times> bool) option" where
  "weak_ref h r =
     (case r of
        Gc_Table i \<Rightarrow> Option.bind (gc_value (tables h) i) (\<lambda>t. map_option (Pair i) (weak_mode h t))
      | _ \<Rightarrow> None)"

text \<open>The children the loop marks for one reference, and the weak table it records.\<close>

definition trace_children :: "heap \<Rightarrow> gc_ref \<Rightarrow> gc_ref list" where
  "trace_children h r =
     (case weak_ref h r of
        Some (i, weak_keys, weak_values) \<Rightarrow>
          (case gc_value (tables h) i of Some t \<Rightarrow> gc_trace_weak weak_keys weak_values t | None \<Rightarrow> [])
      | None \<Rightarrow> collect_children h r)"

definition marker :: "gc_cycle \<Rightarrow> gc_ref \<Rightarrow> marking \<Rightarrow> marking gc" where
  "marker cycle = (case cycle of Minor \<Rightarrow> mark_minor | Full \<Rightarrow> mark)"

text \<open>One round of the loop, on the reference popped from the queue.\<close>

record tracing =
  tr_marking :: marking
  tr_marked :: "gc_ref list"
  tr_weak :: "(u32 \<times> bool \<times> bool) list"

definition record_weak :: "(u32 \<times> bool \<times> bool) option \<Rightarrow> (u32 \<times> bool \<times> bool) list \<Rightarrow> (u32 \<times> bool \<times> bool) list" where
  "record_weak w ws = (case w of None \<Rightarrow> ws | Some x \<Rightarrow> ws @ [x])"

definition trace_step :: "gc_cycle \<Rightarrow> gc_ref \<Rightarrow> tracing \<Rightarrow> tracing gc" where
  "trace_step cycle r t =
     (let s = tr_marking t; children = trace_children (mk_heap s) r; weak = weak_ref (mk_heap s) r in
      gbind (reserve (length children + (if weak = None then 0 else 1)) s) (\<lambda>s1.
      gbind (mark_all (marker cycle) children s1) (\<lambda>s2.
      let s3 = s2\<lparr>mk_heap := set_color r Black (mk_heap s2)\<rparr>; t1 = t\<lparr>tr_weak := record_weak weak (tr_weak t)\<rparr> in
      (case cycle of
         Full \<Rightarrow> Inr (t1\<lparr>tr_marking := s3\<rparr>)
       | Minor \<Rightarrow> gbind (reserve 1 s3) (\<lambda>s4. Inr (t1\<lparr>tr_marking := s4, tr_marked := tr_marked t @ [r]\<rparr>))))))"

subsection \<open>The loop ends\<close>

text \<open>
  A round that marks a slot uses up a white one. A round that marks none leaves one reference to an
  existing slot fewer in the queue, or, when the popped reference points past its arena, just a shorter
  queue: such a reference has no children.
\<close>

definition white_count :: "'a arena \<Rightarrow> nat" where
  "white_count a = length (filter (\<lambda>e. en_color e = White) (ar_entries a))"

definition whites :: "'h object_store_scheme \<Rightarrow> nat" where
  "whites h = white_count (strings h) + white_count (tables h) + white_count (closures h) + white_count (userdata h) +
     white_count (threads h) + white_count (buffers h) + white_count (protos h) + white_count (upvals h)"

definition in_range :: "'h object_store_scheme \<Rightarrow> gc_ref \<Rightarrow> bool" where
  "in_range h r = (case r of
       Gc_Str i \<Rightarrow> unat i < arena_len (strings h)
     | Gc_Table i \<Rightarrow> unat i < arena_len (tables h)
     | Gc_Closure i \<Rightarrow> unat i < arena_len (closures h)
     | Gc_Userdata i \<Rightarrow> unat i < arena_len (userdata h)
     | Gc_Thread i \<Rightarrow> unat i < arena_len (threads h)
     | Gc_Buffer i \<Rightarrow> unat i < arena_len (buffers h)
     | Gc_Proto i \<Rightarrow> unat i < arena_len (protos h)
     | Gc_UpVal i \<Rightarrow> unat i < arena_len (upvals h))"

lemma update_entry_len [simp]: "arena_len (update_entry i f a) = arena_len a"
  by (simp add: arena_len_def update_entry_def)

lemma gc_set_color_len [simp]: "arena_len (gc_set_color i c a) = arena_len a"
  by (simp add: gc_set_color_def)

lemma length_filter_update_le:
  "(P y \<Longrightarrow> P (xs ! k)) \<Longrightarrow> k < length xs \<Longrightarrow> length (filter P (xs[k := y])) \<le> length (filter P xs)"
proof (induction xs arbitrary: k)
  case (Cons x xs)
  then show ?case by (cases k) auto
qed simp

lemma white_count_set_color:
  "c \<noteq> White \<Longrightarrow> white_count (gc_set_color i c a) \<le> white_count a"
  "c \<noteq> White \<Longrightarrow> unat i < arena_len a \<Longrightarrow> gc_color a i = White \<Longrightarrow> white_count (gc_set_color i c a) < white_count a"
  by (auto simp: white_count_def gc_set_color_def update_entry_def arena_len_def gc_color_def get_def
      intro!: length_filter_update_le filter_update_less)

lemma whites_set_color:
  "c \<noteq> White \<Longrightarrow> whites (set_color r c h) \<le> whites h"
  "c \<noteq> White \<Longrightarrow> in_range h r \<Longrightarrow> ref_color h r = White \<Longrightarrow> whites (set_color r c h) < whites h"
  by (cases r; simp add: whites_def set_color_def white_count_set_color)
    (cases r; simp add: whites_def set_color_def white_count_set_color in_range_def ref_color_def)

lemma in_range_set_color [simp]: "in_range (set_color r' c h) r = in_range h r"
  by (cases r; cases r'; simp add: in_range_def set_color_def)

lemma set_color_out_of_range: "\<not> in_range h r \<Longrightarrow> set_color r c h = h"
  by (cases r) (simp_all add: in_range_def set_color_def gc_set_color_def update_entry_def arena_len_def)

lemma trace_children_out_of_range: "\<not> in_range h r \<Longrightarrow> trace_children h r = []"
  by (cases r) (simp_all add: in_range_def trace_children_def weak_ref_def collect_children_def traced_of_def
      gc_value_def get_def arena_len_def visit_option_def)

text \<open>What a round of marking leaves of the measure.\<close>

definition used_up :: "marking \<Rightarrow> marking \<Rightarrow> bool" where
  "used_up s s' \<longleftrightarrow> (\<forall>r. in_range (mk_heap s') r = in_range (mk_heap s) r) \<and>
     (whites (mk_heap s') < whites (mk_heap s) \<or>
      whites (mk_heap s') = whites (mk_heap s) \<and>
      filter (in_range (mk_heap s)) (mk_queue s') = filter (in_range (mk_heap s)) (mk_queue s))"

lemma used_up_refl: "used_up s s"
  by (simp add: used_up_def)

lemma used_up_trans: "used_up s s' \<Longrightarrow> used_up s' s'' \<Longrightarrow> used_up s s''"
proof -
  assume a: "used_up s s'" "used_up s' s''"
  then have "in_range (mk_heap s') = in_range (mk_heap s)" by (auto simp: used_up_def)
  with a show ?thesis by (auto simp: used_up_def)
qed

lemma used_up_mark_gray:
  assumes "ref_color (mk_heap s) r = White" "mark_gray r s = Inr s'"
  shows "used_up s s'"
proof (cases "in_range (mk_heap s) r")
  case True
  then show ?thesis using assms whites_set_color(2) [of Gray "mk_heap s" r]
    by (auto simp: used_up_def mark_gray_def gbind_def reserve_def split: if_splits)
next
  case False
  then show ?thesis using assms 
    by (auto simp: used_up_def mark_gray_def gbind_def reserve_def set_color_out_of_range split: if_splits)
qed

lemma used_up_marker: "marker cycle r s = Inr s' \<Longrightarrow> used_up s s'"
  by (cases cycle)
    (auto simp: marker_def mark_def mark_minor_def used_up_refl intro: used_up_mark_gray split: if_splits)

lemma used_up_mark_all: "(\<And>r s s'. f r s = Inr s' \<Longrightarrow> used_up s s') \<Longrightarrow> mark_all f rs s = Inr s' \<Longrightarrow> used_up s s'"
proof (induction rs arbitrary: s)
  case (Cons r rs)
  from Cons.prems(2) obtain s1 where s1: "f r s = Inr s1" "mark_all f rs s1 = Inr s'"
    by (cases "f r s") (auto simp: gbind_def)
  have "used_up s s1" by (rule Cons.prems(1) [OF s1(1)])
  moreover have "used_up s1 s'" by (rule Cons.IH [OF Cons.prems(1) s1(2)])
  ultimately show ?case by (rule used_up_trans)
qed (simp add: used_up_refl)

definition trace_measure :: "marking \<Rightarrow> nat \<times> nat \<times> nat" where
  "trace_measure s = (whites (mk_heap s), length (filter (in_range (mk_heap s)) (mk_queue s)), length (mk_queue s))"

lemma gbind_Inr: "gbind m f = Inr y \<longleftrightarrow> (\<exists>x. m = Inr x \<and> f x = Inr y)"
  by (cases m) (auto simp: gbind_def)

lemma gbind_Inl: "gbind m f = Inl h \<longleftrightarrow> m = Inl h \<or> (\<exists>x. m = Inr x \<and> f x = Inl h)"
  by (cases m) (auto simp: gbind_def)

lemma reserve_Inr: "reserve n s = Inr s' \<longleftrightarrow> n \<le> mk_budget s \<and> s' = s\<lparr>mk_budget := mk_budget s - n\<rparr>"
  by (auto simp: reserve_def)

lemma trace_stepE:
  assumes "trace_step cycle r t = Inr t'"
  obtains b s2 where
    "mark_all (marker cycle) (trace_children (mk_heap (tr_marking t)) r) ((tr_marking t)\<lparr>mk_budget := b\<rparr>) = Inr s2"
    "mk_heap (tr_marking t') = set_color r Black (mk_heap s2)" "mk_queue (tr_marking t') = mk_queue s2"
    "tr_marked t' = (if cycle = Minor then tr_marked t @ [r] else tr_marked t)"
    "tr_weak t' = record_weak (weak_ref (mk_heap (tr_marking t)) r) (tr_weak t)"
  using assms by (cases cycle) (auto simp: trace_step_def Let_def gbind_Inr reserve_Inr)

lemma trace_step_decreases:
  assumes "mk_queue (tr_marking t) = r # q" "trace_step cycle r (t\<lparr>tr_marking := (tr_marking t)\<lparr>mk_queue := q\<rparr>\<rparr>) = Inr t'"
  shows "(trace_measure (tr_marking t'), trace_measure (tr_marking t)) \<in> less_than <*lex*> less_than <*lex*> less_than"
proof -
  let ?h = "mk_heap (tr_marking t)" and ?s = "(tr_marking t)\<lparr>mk_queue := q\<rparr>"
  obtain b s1 where m: "mark_all (marker cycle) (trace_children ?h r) (?s\<lparr>mk_budget := b\<rparr>) = Inr s1"
    and s': "mk_heap (tr_marking t') = set_color r Black (mk_heap s1)" "mk_queue (tr_marking t') = mk_queue s1"
    using assms(2) by (rule trace_stepE) simp
  have u: "used_up (?s\<lparr>mk_budget := b\<rparr>) s1" by (rule used_up_mark_all [OF used_up_marker m])
  have ir: "in_range (mk_heap (tr_marking t')) = in_range ?h" using u by (auto simp: used_up_def s')
  have w: "whites (mk_heap (tr_marking t')) \<le> whites (mk_heap s1)" unfolding s' by (rule whites_set_color) simp
  show ?thesis
  proof (cases "in_range ?h r")
    case True
    then show ?thesis using u w by (auto simp: trace_measure_def used_up_def ir assms(1) s'(2))
  next
    case False
    then have "s1 = ?s\<lparr>mk_budget := b\<rparr>" using m by (simp add: trace_children_out_of_range)
    then show ?thesis using False by (simp add: trace_measure_def ir assms(1) s' set_color_out_of_range)
  qed
qed

function trace_loop :: "gc_cycle \<Rightarrow> tracing \<Rightarrow> tracing gc" where
  "trace_loop cycle t =
     (case mk_queue (tr_marking t) of
        [] \<Rightarrow> Inr t
      | r # q \<Rightarrow>
          (case trace_step cycle r (t\<lparr>tr_marking := (tr_marking t)\<lparr>mk_queue := q\<rparr>\<rparr>) of
             Inl h \<Rightarrow> Inl h
           | Inr t' \<Rightarrow> trace_loop cycle t'))"
  by pat_completeness auto
termination
proof (relation "inv_image (less_than <*lex*> less_than <*lex*> less_than) (\<lambda>(_, t). trace_measure (tr_marking t))")
  show "wf (inv_image (less_than <*lex*> less_than <*lex*> less_than)
    (\<lambda>(_ :: gc_cycle, t). trace_measure (tr_marking t)))"
    by (intro wf_inv_image wf_lex_prod wf_less_than)
qed (auto dest: trace_step_decreases)

declare trace_loop.simps [simp del]

section \<open>Weak tables\<close>

definition is_dead_component :: "'h object_store_scheme \<Rightarrow> gc_cycle \<Rightarrow> raw_value \<Rightarrow> bool" where
  "is_dead_component h cycle v =
     (case v of
        LString _ \<Rightarrow> False
      | _ \<Rightarrow>
          (case from_value v of
             None \<Rightarrow> False
           | Some r \<Rightarrow> ref_color h r = White \<and> (cycle = Full \<or> ref_age h r = Young)))"

definition dead_entry_of :: "'h object_store_scheme \<Rightarrow> gc_cycle \<Rightarrow> bool \<Rightarrow> bool \<Rightarrow> raw_value \<times> raw_value \<Rightarrow> bool" where
  "dead_entry_of h cycle weak_keys weak_values e \<longleftrightarrow>
     weak_keys \<and> is_dead_component h cycle (fst e) \<or> weak_values \<and> is_dead_component h cycle (snd e)"

definition clear_field :: "raw_value \<Rightarrow> lua_table \<Rightarrow> lua_table" where
  "clear_field key t = (case table_set key LNil t of Some (_, t') \<Rightarrow> t' | None \<Rightarrow> t)"

definition dead_keys :: "gc_cycle \<Rightarrow> u32 \<times> bool \<times> bool \<Rightarrow> heap \<Rightarrow> raw_value list" where
  "dead_keys cycle w h =
     (case w of (i, weak_keys, weak_values) \<Rightarrow>
        (case gc_value (tables h) i of
           None \<Rightarrow> []
         | Some t \<Rightarrow> map fst (filter (dead_entry_of h cycle weak_keys weak_values) (for_each_entry t))))"

definition clear_weak_table :: "gc_cycle \<Rightarrow> u32 \<times> bool \<times> bool \<Rightarrow> marking \<Rightarrow> marking gc" where
  "clear_weak_table cycle w s =
     (let keys = dead_keys cycle w (mk_heap s) in
      gbind (reserve (length keys) s) (\<lambda>s1.
        Inr (s1\<lparr>mk_heap := (mk_heap s1)\<lparr>tables := gc_value_mut (fst w) (fold clear_field keys) (tables (mk_heap s1))\<rparr>\<rparr>)))"

fun clear_weak_tables :: "gc_cycle \<Rightarrow> (u32 \<times> bool \<times> bool) list \<Rightarrow> marking \<Rightarrow> marking gc" where
  "clear_weak_tables cycle [] s = Inr s"
| "clear_weak_tables cycle (w # ws) s = gbind (clear_weak_table cycle w s) (clear_weak_tables cycle ws)"

definition trace :: "gc_cycle \<Rightarrow> marking \<Rightarrow> tracing gc" where
  "trace cycle s =
     gbind (trace_loop cycle \<lparr>tr_marking = s, tr_marked = [], tr_weak = []\<rparr>) (\<lambda>t.
     gbind (clear_weak_tables cycle (tr_weak t) (tr_marking t)) (\<lambda>s1. Inr (t\<lparr>tr_marking := s1\<rparr>)))"

section \<open>Sweeping\<close>

definition interner_remove :: "lua_string list \<Rightarrow> (bytes \<rightharpoonup> raw_gc) \<Rightarrow> (bytes \<rightharpoonup> raw_gc)" where
  "interner_remove ss m = fold (\<lambda>s m. m(ls_bytes s := None)) ss m"

definition gc_compact_all :: "heap \<Rightarrow> heap" where
  "gc_compact_all h =
     h\<lparr>strings := gc_compact (strings h), tables := gc_compact (tables h), closures := gc_compact (closures h),
       userdata := gc_compact (userdata h), threads := gc_compact (threads h), buffers := gc_compact (buffers h),
       protos := gc_compact (protos h), upvals := gc_compact (upvals h)\<rparr>"

record swept_heap =
  sw_freed :: nat
  sw_reclaimed :: "u64 list"
  sw_heap :: heap

definition sweep_objects :: "gc_cycle \<Rightarrow> heap \<Rightarrow> swept_heap" where
  "sweep_objects cycle h =
     (case cycle of
        Minor \<Rightarrow>
          (let (ts, ta) = gc_sweep_minor_with (tables h); (cs, ca) = gc_sweep_minor_with (closures h);
               (us, ua) = gc_sweep_minor_with (userdata h); (hs, ha) = gc_sweep_minor_with (threads h);
               (bs, ba) = gc_sweep_minor_with (buffers h); (ps, pa) = gc_sweep_minor_with (protos h);
               (vs, va) = gc_sweep_minor_with (upvals h); (ss, sa) = gc_sweep_minor_with (strings h) in
           \<lparr>sw_freed = length ts + length cs + length us + length hs + length bs + length ps + length vs + length ss,
            sw_reclaimed = map ud_payload_id us,
            sw_heap = h\<lparr>strings := sa, tables := ta, closures := ca, userdata := ua, threads := ha, buffers := ba,
              protos := pa, upvals := va, hp_interner := interner_remove ss (hp_interner h)\<rparr>\<rparr>)
      | Full \<Rightarrow>
          (let (ts, ta) = gc_sweep_with (tables h); (cs, ca) = gc_sweep_with (closures h);
               (us, ua) = gc_sweep_with (userdata h); (hs, ha) = gc_sweep_with (threads h);
               (bs, ba) = gc_sweep_with (buffers h); (ps, pa) = gc_sweep_with (protos h);
               (vs, va) = gc_sweep_with (upvals h); (ss, sa) = gc_sweep_with (strings h) in
           \<lparr>sw_freed = length ts + length cs + length us + length hs + length bs + length ps + length vs + length ss,
            sw_reclaimed = map ud_payload_id us,
            sw_heap = gc_compact_all (h\<lparr>strings := sa, tables := ta, closures := ca, userdata := ua, threads := ha,
              buffers := ba, protos := pa, upvals := va, hp_interner := interner_remove ss (hp_interner h)\<rparr>)\<rparr>))"

text \<open>The payload store and the eight free lists reserve first.\<close>

definition sweep :: "gc_cycle \<Rightarrow> marking \<Rightarrow> swept_heap gc" where
  "sweep cycle s = gbind (reserve 9 s) (\<lambda>s1. Inr (sweep_objects cycle (mk_heap s1)))"

section \<open>Cycles\<close>

definition start_marking :: "nat \<Rightarrow> heap \<Rightarrow> marking" where
  "start_marking budget h = \<lparr>mk_heap = h, mk_queue = [], mk_budget = budget\<rparr>"

definition collect_major_inner :: "nat \<Rightarrow> gc_ref list \<Rightarrow> heap \<Rightarrow> swept_heap gc" where
  "collect_major_inner budget roots h =
     gbind (mark_heap_roots roots (start_marking budget h)) (\<lambda>s.
     gbind (trace Full s) (\<lambda>t. sweep Full (tr_marking t)))"

definition thread_roots :: "heap \<Rightarrow> gc_ref list" where
  "thread_roots h = map Gc_Thread (filter (\<lambda>i. gc_value (threads h) i \<noteq> None)
     (map of_nat [0..<unat (of_nat (arena_len (threads h)) :: u32)]))"

definition settle_marked :: "gc_ref \<Rightarrow> heap \<Rightarrow> heap" where
  "settle_marked r h =
     (let h1 = set_color r White h in if ref_age h1 r = OldRemembered then set_age r Old h1 else h1)"

definition collect_minor_inner :: "nat \<Rightarrow> gc_ref list \<Rightarrow> heap \<Rightarrow> swept_heap gc" where
  "collect_minor_inner budget roots h =
     gbind (mark_heap_roots roots (start_marking budget h)) (\<lambda>s.
     gbind (mark_all mark_minor (thread_roots (mk_heap s)) s) (\<lambda>s1.
     gbind (mark_all mark_minor (hp_remembered (mk_heap s1)) s1) (\<lambda>s2.
     gbind (trace Minor s2) (\<lambda>t.
     gbind (sweep Minor (tr_marking t)) (\<lambda>w.
       Inr (w\<lparr>sw_heap := fold settle_marked (tr_marked t) (sw_heap w)\<rparr>))))))"

definition reset_all_colors :: "heap \<Rightarrow> heap" where
  "reset_all_colors h =
     h\<lparr>strings := gc_reset_colors (strings h), tables := gc_reset_colors (tables h),
       closures := gc_reset_colors (closures h), userdata := gc_reset_colors (userdata h),
       threads := gc_reset_colors (threads h), buffers := gc_reset_colors (buffers h),
       protos := gc_reset_colors (protos h), upvals := gc_reset_colors (upvals h)\<rparr>"

definition GC_MAJOR_SAFETY_CAP :: u32 where
  "GC_MAJOR_SAFETY_CAP = 256"

definition gc_should_major :: "u64 \<Rightarrow> heap \<Rightarrow> bool" where
  "gc_should_major used h \<longleftrightarrow>
     hp_force_major h \<or> hp_major_threshold h \<le> used \<or> GC_MAJOR_SAFETY_CAP \<le> hp_minors_since_major h"

definition gc_note_major :: "u64 \<Rightarrow> heap \<Rightarrow> heap" where
  "gc_note_major used h =
     h\<lparr>hp_major_threshold := saturating_add used GC_MAJOR_STEP_BYTES, hp_minors_since_major := 0,
       hp_force_major := False, hp_remembered := []\<rparr>"

definition gc_note_minor :: "heap \<Rightarrow> heap" where
  "gc_note_minor h =
     h\<lparr>hp_minors_since_major := saturating_add (hp_minors_since_major h) 1, hp_remembered := []\<rparr>"

definition note_collection :: "u64 \<Rightarrow> heap \<Rightarrow> heap" where
  "note_collection used h =
     h\<lparr>hp_threshold := saturating_add used GC_STEP_BYTES, hp_cycles := saturating_add (hp_cycles h) 1,
       hp_step_progress := 0\<rparr>"

text \<open>The outcome of a cycle: the number of freed objects, or nothing for an abandoned cycle.\<close>

definition collect :: "nat \<Rightarrow> u64 \<Rightarrow> u64 \<Rightarrow> gc_ref list \<Rightarrow> heap \<Rightarrow> nat option \<times> heap" where
  "collect budget used used' roots h =
     (let major = gc_should_major used h in
      case (if major then collect_major_inner budget roots h else collect_minor_inner budget roots h) of
        Inr w \<Rightarrow>
          (Some (sw_freed w),
           note_collection used' (if major then gc_note_major used' (sw_heap w) else gc_note_minor (sw_heap w)))
      | Inl h' \<Rightarrow> (None, (reset_all_colors h')\<lparr>hp_force_major := True\<rparr>))"

text \<open>
  Collecting while one thread runs outside its slot: its slot and its own handles are roots. The
  buffer for them reserves one place per root.
\<close>

definition active_roots :: "thread \<Rightarrow> gc_ref list" where
  "active_roots t = handle_roots Gc_Thread (th_id t) @ map fst (thread_trace t)"

definition collect_active :: "nat \<Rightarrow> u64 \<Rightarrow> u64 \<Rightarrow> thread \<Rightarrow> heap \<Rightarrow> nat option \<times> heap" where
  "collect_active budget used used' t h =
     (if hp_taken_out h \<noteq> 1 \<or> budget < length (active_roots t) then (None, h)
      else collect (budget - length (active_roots t)) used used' (active_roots t) h)"

section \<open>Validation\<close>

fun show_gc_ref :: "gc_ref \<Rightarrow> string" where
  "show_gc_ref (Gc_Str i) = ''Str('' @ show_word i @ '')''"
| "show_gc_ref (Gc_Table i) = ''Table('' @ show_word i @ '')''"
| "show_gc_ref (Gc_Closure i) = ''Closure('' @ show_word i @ '')''"
| "show_gc_ref (Gc_Userdata i) = ''Userdata('' @ show_word i @ '')''"
| "show_gc_ref (Gc_Thread i) = ''Thread('' @ show_word i @ '')''"
| "show_gc_ref (Gc_Buffer i) = ''Buffer('' @ show_word i @ '')''"
| "show_gc_ref (Gc_Proto i) = ''Proto('' @ show_word i @ '')''"
| "show_gc_ref (Gc_UpVal i) = ''UpVal('' @ show_word i @ '')''"

definition dangling_message :: "gc_ref \<Rightarrow> gc_ref \<times> u32 \<Rightarrow> string" where
  "dangling_message parent c = ''dangling handle '' @ show_gc_ref (fst c) @ '' (generation '' @ show_word (snd c) @
     '') reachable from '' @ show_gc_ref parent"

definition validate_handles_of :: "heap \<Rightarrow> gc_ref \<Rightarrow> string + unit" where
  "validate_handles_of h r =
     (case find (\<lambda>c. \<not> is_live_gen h (fst c) (snd c)) (traced_of h r) of
        Some c \<Rightarrow> Inl (dangling_message r c)
      | None \<Rightarrow> Inr ())"

text \<open>The references a loop over one arena visits: every index below the length cut to 32 bits.\<close>

definition arena_refs :: "(u32 \<Rightarrow> gc_ref) \<Rightarrow> 'a arena \<Rightarrow> gc_ref list" where
  "arena_refs k a = map k (filter (\<lambda>i. gc_value a i \<noteq> None) (map of_nat [0..<unat (of_nat (arena_len a) :: u32)]))"

fun all_ok :: "('a \<Rightarrow> string + unit) \<Rightarrow> 'a list \<Rightarrow> string + unit" where
  "all_ok f [] = Inr ()"
| "all_ok f (x # xs) = (case f x of Inl e \<Rightarrow> Inl e | Inr _ \<Rightarrow> all_ok f xs)"

definition validate_thread :: "heap \<Rightarrow> gc_ref \<Rightarrow> string + unit" where
  "validate_thread h r =
     (case validate_handles_of h r of
        Inl e \<Rightarrow> Inl e
      | Inr _ \<Rightarrow>
          (case r of
             Gc_Thread i \<Rightarrow>
               (case Option.bind (gc_value (threads h) i) th_id of
                  Some g \<Rightarrow> if heap_thread h g = None
                    then Inl (''thread '' @ show_word i @ '' has a dangling self-handle (id)'') else Inr ()
                | None \<Rightarrow> Inr ())
           | _ \<Rightarrow> Inr ()))"

definition validate_metatable :: "heap \<Rightarrow> string \<times> raw_gc option \<Rightarrow> string + unit" where
  "validate_metatable h m =
     (case snd m of
        Some g \<Rightarrow> if heap_table h g = None then Inl (''dangling '' @ fst m @ ''-metatable root'') else Inr ()
      | None \<Rightarrow> Inr ())"

definition validate_anchor :: "heap \<Rightarrow> raw_value \<Rightarrow> string + unit" where
  "validate_anchor h v =
     (case from_value_gen v of
        Some (r, g) \<Rightarrow> if is_live_gen h r g then Inr () else Inl (''dangling registry anchor '' @ show_gc_ref r)
      | None \<Rightarrow> Inr ())"

definition validate :: "heap \<Rightarrow> string + unit" where
  "validate h =
     (case all_ok (validate_handles_of h) (arena_refs Gc_Table (tables h) @ arena_refs Gc_Closure (closures h) @
         arena_refs Gc_Proto (protos h) @ arena_refs Gc_UpVal (upvals h)) of
        Inl e \<Rightarrow> Inl e
      | Inr _ \<Rightarrow>
          (case all_ok (validate_thread h) (arena_refs Gc_Thread (threads h)) of
             Inl e \<Rightarrow> Inl e
           | Inr _ \<Rightarrow>
               (case all_ok (validate_metatable h)
                   [(''string'', hp_string_metatable h), (''vector'', hp_vector_metatable h),
                    (''structured-error'', hp_error_metatable h)] of
                  Inl e \<Rightarrow> Inl e
                | Inr _ \<Rightarrow> all_ok (validate_anchor h) (gc_anchors h))))"

end
