(* ===== verification/Arena_Spec.thy ===== *)
theory Arena_Spec
  imports Arena "HOL-Library.Multiset"
begin

text \<open>
  What the arena promises: an invariant of the slots, the free list and the young list that every
  operation keeps, and the handle table the arena implements.
\<close>

section \<open>The invariant\<close>

definition live_at :: "'a arena \<Rightarrow> nat \<Rightarrow> bool" where
  "live_at a k \<longleftrightarrow> k < length (ar_entries a) \<and> en_value (ar_entries a ! k) \<noteq> None"

definition free_listed :: "'a arena_entry list \<Rightarrow> u32 list \<Rightarrow> bool" where
  "free_listed es fr \<longleftrightarrow> distinct fr \<and>
     (\<forall>i. i \<in> set fr \<longleftrightarrow> unat i < length es \<and> en_value (es ! unat i) = None)"

definition young_listed :: "'a arena_entry list \<Rightarrow> u32 list \<Rightarrow> bool" where
  "young_listed es yg \<longleftrightarrow>
     (\<forall>i. unat i < length es \<longrightarrow> en_value (es ! unat i) \<noteq> None \<longrightarrow> en_age (es ! unat i) = Young \<longrightarrow> i \<in> set yg)"

definition arena_ok :: "'a arena \<Rightarrow> bool" where
  "arena_ok a \<longleftrightarrow>
     length (ar_entries a) \<le> length (ar_gens a) \<and> length (ar_entries a) \<le> 2 ^ 32 \<and>
     free_listed (ar_entries a) (ar_free a) \<and> young_listed (ar_entries a) (ar_young a)"

lemma u32_unat_eq_iff: "unat (i :: u32) = unat j \<longleftrightarrow> i = j"
  by (rule word_unat_eq_iff [symmetric])

lemma unat_of_nat_u32: "n < 4294967296 \<Longrightarrow> unat (of_nat n :: u32) = n"
  using unat_of_nat_eq [where ?'a = 32, of n] by simp

lemma of_nat_eq_u32: "n < 4294967296 \<Longrightarrow> (of_nat n :: u32) = i \<longleftrightarrow> n = unat i"
  by (auto simp: unat_of_nat_u32)

lemma word_of_nat_eq_unat: "unat (i :: u32) = n \<Longrightarrow> i = of_nat n"
  by auto

lemma arena_new_ok [simp]: "arena_ok arena_new"
  by (simp add: arena_ok_def arena_new_def free_listed_def young_listed_def)

lemma fresh_entry_simps [simp]:
  "en_color (fresh_entry v) = White" "en_age (fresh_entry v) = Young" "en_value (fresh_entry v) = Some v"
  by (simp_all add: fresh_entry_def)

subsection \<open>Changing one slot\<close>

lemma free_listed_update_live:
  assumes "free_listed es fr" "k < length es" "en_value e = None \<longleftrightarrow> en_value (es ! k) = None"
  shows "free_listed (es[k := e]) fr"
  using assms by (auto simp: free_listed_def nth_list_update)

lemma free_listed_free:
  assumes "free_listed es fr" "unat i < length es" "en_value (es ! unat i) \<noteq> None" "en_value e = None"
  shows "free_listed (es[unat i := e]) (fr @ [i])"
  using assms by (auto simp: free_listed_def nth_list_update u32_unat_eq_iff)

lemma free_listed_reuse:
  assumes "free_listed es fr" "fr \<noteq> []" "en_value e \<noteq> None"
  shows "free_listed (es[unat (last fr) := e]) (butlast fr)"
proof -
  obtain us j where fr: "fr = us @ [j]" using assms(2) by (metis append_butlast_last_id)
  have "unat j < length es" using assms(1) by (auto simp: fr free_listed_def)
  with assms(1,3) show ?thesis by (auto simp: fr free_listed_def nth_list_update u32_unat_eq_iff)
qed

lemma free_listed_extend:
  assumes "free_listed es fr" "length es < 2 ^ 32" "en_value e \<noteq> None"
  shows "free_listed (es @ [e]) fr"
  using assms by (auto simp: free_listed_def nth_append less_Suc_eq)

lemma free_listed_bound: "free_listed es fr \<Longrightarrow> i \<in> set fr \<Longrightarrow> unat i < length es"
  by (simp add: free_listed_def)

lemma young_listed_update:
  assumes "young_listed es yg" "k < length es"
    "en_value e = None \<or> en_age e \<noteq> Young \<or> en_value (es ! k) \<noteq> None \<and> en_age (es ! k) = Young"
  shows "young_listed (es[k := e]) yg"
  using assms by (auto simp: young_listed_def nth_list_update)

lemma young_listed_push:
  assumes "young_listed es yg" "unat i < length es"
  shows "young_listed (es[unat i := e]) (yg @ [i])"
  using assms by (auto simp: young_listed_def nth_list_update u32_unat_eq_iff)

lemma young_listed_extend:
  assumes "young_listed es yg" "length es < 2 ^ 32"
  shows "young_listed (es @ [e]) (yg @ [of_nat (length es)])"
  using assms by (auto simp: young_listed_def nth_append less_Suc_eq) (metis word_of_nat_eq_unat)

lemma young_listed_mono: "young_listed es yg \<Longrightarrow> set yg \<subseteq> set yg' \<Longrightarrow> young_listed es yg'"
  by (auto simp: young_listed_def)

lemma update_entry_ok:
  assumes "arena_ok a" "\<And>e. en_value (f e) = None \<longleftrightarrow> en_value e = None"
    and "\<And>e. en_age (f e) = Young \<Longrightarrow> en_age e = Young"
  shows "arena_ok (update_entry i f a)"
proof (cases "unat i < length (ar_entries a)")
  case True
  let ?e = "f (ar_entries a ! unat i)"
  have "free_listed ((ar_entries a)[unat i := ?e]) (ar_free a)"
    using assms(1) True by (intro free_listed_update_live) (auto simp: arena_ok_def assms(2))
  moreover have "young_listed ((ar_entries a)[unat i := ?e]) (ar_young a)"
    using assms True by (intro young_listed_update) (auto simp: arena_ok_def)
  ultimately show ?thesis using assms(1) True by (simp add: update_entry_def arena_ok_def)
qed (simp add: update_entry_def assms(1))

lemma gc_set_color_ok: "arena_ok a \<Longrightarrow> arena_ok (gc_set_color i c a)"
  unfolding gc_set_color_def by (rule update_entry_ok) auto

lemma gc_set_age_ok: "arena_ok a \<Longrightarrow> g \<noteq> Young \<Longrightarrow> arena_ok (gc_set_age i g a)"
  unfolding gc_set_age_def by (rule update_entry_ok) auto

lemma gc_value_mut_ok: "arena_ok a \<Longrightarrow> arena_ok (gc_value_mut i f a)"
  unfolding gc_value_mut_def by (rule update_entry_ok) auto

lemma arena_get_mut_eq:
  "arena_get_mut i g f a = (if arena_get a i g = None then a else gc_value_mut i f a)"
  by (auto simp: arena_get_mut_def arena_get_def gc_value_mut_def update_entry_def get_def split: option.splits)

lemma arena_get_mut_ok: "arena_ok a \<Longrightarrow> arena_ok (arena_get_mut i g f a)"
  by (simp add: arena_get_mut_eq gc_value_mut_ok)

lemma arena_free_ok:
  assumes "arena_ok a" "live_at a (unat i)"
  shows "arena_ok (arena_free i a)"
proof -
  let ?e = "(ar_entries a ! unat i)\<lparr>en_value := None\<rparr>"
  have "free_listed ((ar_entries a)[unat i := ?e]) (ar_free a @ [i])"
    using assms by (intro free_listed_free) (auto simp: arena_ok_def live_at_def)
  moreover have "young_listed ((ar_entries a)[unat i := ?e]) (ar_young a)"
    using assms by (intro young_listed_update) (auto simp: arena_ok_def live_at_def)
  ultimately show ?thesis
    using assms by (simp add: arena_free_def arena_ok_def live_at_def Let_def)
qed

subsection \<open>Allocation\<close>

lemma arena_alloc_cases:
  assumes "arena_ok a"
  obtains
    (no_memory) a1 where "arena_alloc r v a = (Reserve_Error, a1)"
      "a1 = a \<or> a1 = a\<lparr>ar_gens := ar_gens a @ [0]\<rparr>"
  | (full) "arena_alloc r v a = (Alloc_Panic, a)" "ar_free a = []" "length (ar_entries a) = 2 ^ 32"
  | (reused) i where "ar_free a \<noteq> []" "i = last (ar_free a)" "unat i < length (ar_entries a)"
      "arena_alloc r v a = (Allocated i (ar_gens a ! unat i),
         a\<lparr>ar_entries := (ar_entries a)[unat i := fresh_entry v], ar_free := butlast (ar_free a),
           ar_young := ar_young a @ [i]\<rparr>)"
  | (grown) i gs where "ar_free a = []" "length (ar_entries a) < 2 ^ 32" "i = of_nat (length (ar_entries a))"
      "gs = (if length (ar_gens a) = length (ar_entries a) then ar_gens a @ [0] else ar_gens a)"
      "arena_alloc r v a = (Allocated i (gs ! length (ar_entries a)),
         a\<lparr>ar_entries := ar_entries a @ [fresh_entry v], ar_gens := gs, ar_young := ar_young a @ [i]\<rparr>)"
proof (cases "young_ok r \<and> ar_free a \<noteq> []")
  case True
  then have "unat (last (ar_free a)) < length (ar_entries a)"
    using assms by (intro free_listed_bound [of _ "ar_free a"]) (auto simp: arena_ok_def)
  with True assms show ?thesis
    by (intro reused [of "last (ar_free a)"]) (auto simp: arena_alloc_def Let_def arena_ok_def)
next
  case False
  show ?thesis
  proof (cases "young_ok r \<and> length (ar_entries a) < 2 ^ 32 \<and>
        (length (ar_entries a) < length (ar_gens a) \<or> gens_ok r) \<and> entries_ok r")
    case True
    with False have e: "ar_free a = []" by simp
    have "length (ar_gens a) \<le> length (ar_entries a) \<longleftrightarrow> length (ar_gens a) = length (ar_entries a)"
      using assms by (auto simp: arena_ok_def)
    then show ?thesis using True e
      by (intro grown [OF e _ refl refl]) (auto simp: arena_alloc_def Let_def)
  next
    case no: False
    then show ?thesis using False assms no_memory [of a] no_memory [of "a\<lparr>ar_gens := ar_gens a @ [0]\<rparr>"] full
      by (cases "young_ok r"; cases "length (ar_entries a) < 2 ^ 32"; cases "entries_ok r";
          cases "length (ar_entries a) < length (ar_gens a)"; cases "gens_ok r")
        (auto simp: arena_alloc_def arena_ok_def not_less not_le)
  qed
qed

lemma arena_alloc_ok:
  assumes "arena_ok a"
  shows "arena_ok (snd (arena_alloc r v a))"
  using assms
proof (cases rule: arena_alloc_cases [where r = r and v = v])
  case (no_memory a1)
  with assms show ?thesis by (auto simp: arena_ok_def)
next
  case (reused i)
  then have "free_listed ((ar_entries a)[unat i := fresh_entry v]) (butlast (ar_free a))"
    using assms by (auto simp: arena_ok_def intro: free_listed_reuse)
  moreover have "young_listed ((ar_entries a)[unat i := fresh_entry v]) (ar_young a @ [i])"
    using assms reused by (intro young_listed_push) (auto simp: arena_ok_def)
  ultimately show ?thesis using assms reused by (simp add: arena_ok_def)
next
  case (grown i gs)
  have "free_listed (ar_entries a @ [fresh_entry v]) (ar_free a)"
    using assms grown by (intro free_listed_extend) (auto simp: arena_ok_def)
  moreover have "young_listed (ar_entries a @ [fresh_entry v]) (ar_young a @ [i])"
    using assms grown by (auto simp: arena_ok_def intro: young_listed_extend)
  ultimately show ?thesis using assms grown by (auto simp: arena_ok_def)
qed (use assms in simp)

section \<open>What a sweep does\<close>

text \<open>The fate of one slot, for a sweep that visits the slots \<open>P\<close> picks out.\<close>

definition swept_entry :: "('a arena_entry \<Rightarrow> bool) \<Rightarrow> 'a arena_entry \<Rightarrow> 'a arena_entry" where
  "swept_entry P e =
     (if en_value e = None \<or> \<not> P e then e
      else if en_color e = White then e\<lparr>en_value := None\<rparr>
      else e\<lparr>en_color := White, en_age := Old\<rparr>)"

abbreviation young_entry :: "'a arena_entry \<Rightarrow> bool" where
  "young_entry e \<equiv> en_age e = Young"

text \<open>Both sweeps are one loop, over all slots or over the young list.\<close>

definition sweep_step :: "('a arena_entry \<Rightarrow> bool) \<Rightarrow> u32 \<Rightarrow> 'a list \<times> 'a arena \<Rightarrow> 'a list \<times> 'a arena" where
  "sweep_step P i s =
     (if live_at (snd s) (unat i) \<and> P (ar_entries (snd s) ! unat i) then
        if en_color (ar_entries (snd s) ! unat i) = White
        then (fst s @ [the (en_value (ar_entries (snd s) ! unat i))], arena_free i (snd s))
        else (fst s, update_entry i (\<lambda>e. e\<lparr>en_color := White, en_age := Old\<rparr>) (snd s))
      else s)"

lemma sweep_slot_step: "sweep_slot = sweep_step (\<lambda>_. True)"
  by (intro ext) (auto simp: sweep_slot_def sweep_step_def get_def live_at_def Let_def split: option.splits)

lemma sweep_young_step: "sweep_young = sweep_step young_entry"
  by (intro ext) (auto simp: sweep_young_def sweep_step_def get_def live_at_def Let_def split: option.splits)

definition doomed :: "('a arena_entry \<Rightarrow> bool) \<Rightarrow> 'a arena \<Rightarrow> u32 \<Rightarrow> bool" where
  "doomed P a i \<longleftrightarrow> live_at a (unat i) \<and> P (ar_entries a ! unat i) \<and> en_color (ar_entries a ! unat i) = White"

text \<open>The slots a sweep visits stay settled: a second visit does nothing.\<close>

lemma swept_entry_idem:
  assumes "\<And>e. en_age e = Old \<Longrightarrow> \<not> P e"
  shows "swept_entry P (swept_entry P e) = swept_entry P e"
  by (simp add: swept_entry_def assms)

lemma live_doomed_swept:
  "en_value (swept_entry P e) \<noteq> None \<longleftrightarrow> en_value e \<noteq> None \<and> \<not> (P e \<and> en_color e = White)"
  by (auto simp: swept_entry_def)

lemma sweep_step_shape:
  assumes "arena_ok (snd s)"
  shows "ar_entries (snd (sweep_step P i s)) =
      (if unat i < length (ar_entries (snd s))
       then (ar_entries (snd s))[unat i := swept_entry P (ar_entries (snd s) ! unat i)] else ar_entries (snd s))"
    and "ar_gens (snd (sweep_step P i s)) =
      (if doomed P (snd s) i then (ar_gens (snd s))[unat i := ar_gens (snd s) ! unat i + 1] else ar_gens (snd s))"
    and "ar_free (snd (sweep_step P i s)) = ar_free (snd s) @ (if doomed P (snd s) i then [i] else [])"
    and "ar_young (snd (sweep_step P i s)) = ar_young (snd s)"
    and "fst (sweep_step P i s) =
      fst s @ (if doomed P (snd s) i then [the (en_value (ar_entries (snd s) ! unat i))] else [])"
  using assms
  by (auto simp: sweep_step_def swept_entry_def doomed_def live_at_def arena_free_def update_entry_def
      arena_ok_def Let_def list_update_same_conv)

lemma sweep_step_ok: "arena_ok (snd s) \<Longrightarrow> arena_ok (snd (sweep_step P i s))"
  unfolding sweep_step_def by (auto intro: arena_free_ok update_entry_ok)

lemma arena_ok_drop_young:
  assumes "arena_ok a" "\<forall>i :: u32. live_at a (unat i) \<longrightarrow> en_age (ar_entries a ! unat i) \<noteq> Young"
  shows "arena_ok (a\<lparr>ar_young := yg\<rparr>)"
  using assms by (auto simp: arena_ok_def young_listed_def live_at_def)

text \<open>What the loop has done once it visited the slots of a list.\<close>

definition swept :: "('a arena_entry \<Rightarrow> bool) \<Rightarrow> u32 list \<Rightarrow> 'a arena \<Rightarrow> 'a arena \<Rightarrow> bool" where
  "swept P is a a' \<longleftrightarrow>
     length (ar_entries a') = length (ar_entries a) \<and> length (ar_gens a') = length (ar_gens a) \<and>
     (\<forall>j. unat j < length (ar_entries a) \<longrightarrow> ar_entries a' ! unat j =
        (if j \<in> set is then swept_entry P (ar_entries a ! unat j) else ar_entries a ! unat j)) \<and>
     (\<forall>j. unat j < length (ar_gens a) \<longrightarrow> ar_gens a' ! unat j =
        (if j \<in> set is \<and> doomed P a j then ar_gens a ! unat j + 1 else ar_gens a ! unat j))"

lemma swept_step:
  assumes "arena_ok a"
  shows "swept P [i] a (snd (sweep_step P i (vs, a)))"
  using assms sweep_step_shape [of "(vs, a)" P i]
  by (auto simp: swept_def nth_list_update u32_unat_eq_iff doomed_def live_at_def arena_ok_def)

lemma swept_doomed_other:
  assumes "swept P is a a'" "j \<notin> set is"
  shows "doomed P a' j = doomed P a j"
  using assms by (auto simp: doomed_def live_at_def swept_def)

lemma swept_doomed_settled:
  assumes "swept P is a a'" "j \<in> set is" "\<forall>e. en_age e = Old \<longrightarrow> \<not> P e"
  shows "\<not> doomed P a' j"
proof (cases "unat j < length (ar_entries a)")
  case True
  with assms(1,2) have "ar_entries a' ! unat j = swept_entry P (ar_entries a ! unat j)"
    by (simp add: swept_def)
  with assms(3) show ?thesis by (auto simp: doomed_def live_at_def swept_entry_def split: if_splits)
next
  case False
  with assms(1) show ?thesis by (simp add: doomed_def live_at_def swept_def)
qed

lemma swept_Cons:
  assumes one: "swept P [i] a a1" and many: "swept P is a1 a2"
    and settled: "i \<in> set is \<Longrightarrow> \<forall>e. en_age e = Old \<longrightarrow> \<not> P e"
  shows "swept P (i # is) a a2"
proof -
  have "ar_entries a2 ! unat j =
      (if j \<in> set (i # is) then swept_entry P (ar_entries a ! unat j) else ar_entries a ! unat j)"
    if "unat j < length (ar_entries a)" for j
    using one many that settled by (cases "j = i") (auto simp: swept_def swept_entry_idem)
  moreover have "ar_gens a2 ! unat j =
      (if j \<in> set (i # is) \<and> doomed P a j then ar_gens a ! unat j + 1 else ar_gens a ! unat j)"
    if "unat j < length (ar_gens a)" for j
    using one many that settled swept_doomed_other [OF one, of j] swept_doomed_settled [OF one, of j]
    by (cases "j = i") (auto simp: swept_def)
  ultimately show ?thesis using one many by (simp add: swept_def)
qed

lemma sweep_fold:
  assumes "arena_ok a" "distinct is \<or> (\<forall>e. en_age e = Old \<longrightarrow> \<not> P e)"
  shows "arena_ok (snd (fold (sweep_step P) is (vs, a))) \<and> swept P is a (snd (fold (sweep_step P) is (vs, a)))"
  using assms
proof (induction "is" arbitrary: a vs)
  case Nil
  then show ?case by (simp add: swept_def)
next
  case (Cons i "is")
  let ?s = "sweep_step P i (vs, a)"
  have ok: "arena_ok (snd ?s)" using Cons.prems(1) by (simp add: sweep_step_ok)
  have one: "swept P [i] a (snd ?s)" by (rule swept_step [OF Cons.prems(1)])
  have "arena_ok (snd (fold (sweep_step P) is (fst ?s, snd ?s))) \<and>
      swept P is (snd ?s) (snd (fold (sweep_step P) is (fst ?s, snd ?s)))"
    using Cons.prems(2) by (intro Cons.IH [OF ok]) auto
  then show ?case using swept_Cons [OF one] Cons.prems(2) by auto
qed

text \<open>The objects handed to \<^verbatim>\<open>on_free\<close> and the slots added to the free list, in visiting order.\<close>

lemma sweep_fold_freed:
  assumes "arena_ok a" "distinct is"
  shows "fst (fold (sweep_step P) is (vs, a)) =
      vs @ map (\<lambda>i. the (en_value (ar_entries a ! unat i))) (filter (doomed P a) is) \<and>
    ar_free (snd (fold (sweep_step P) is (vs, a))) = ar_free a @ filter (doomed P a) is"
  using assms
proof (induction "is" arbitrary: a vs)
  case (Cons i "is")
  let ?s = "sweep_step P i (vs, a)"
  have ok: "arena_ok (snd ?s)" using Cons.prems(1) by (simp add: sweep_step_ok)
  have one: "swept P [i] a (snd ?s)" by (rule swept_step [OF Cons.prems(1)])
  have d: "filter (doomed P (snd ?s)) is = filter (doomed P a) is"
    using Cons.prems(2) by (intro filter_cong refl swept_doomed_other [OF one]) auto
  have v: "map (\<lambda>i. the (en_value (ar_entries (snd ?s) ! unat i))) (filter (doomed P a) is) =
      map (\<lambda>i. the (en_value (ar_entries a ! unat i))) (filter (doomed P a) is)"
    using one Cons.prems(2) by (intro map_cong refl) (auto simp: swept_def doomed_def live_at_def)
  note shape = sweep_step_shape [of "(vs, a)" P i, simplified, OF Cons.prems(1)]
  have "distinct is" using Cons.prems(2) by simp
  note IH = Cons.IH [OF ok this, of "fst ?s", unfolded d v prod.collapse]
  show ?case by (simp add: IH shape(3,5))
qed simp

section \<open>The handle table\<close>

type_synonym handle = "u32 \<times> u32"

definition handles :: "'a arena \<Rightarrow> handle \<rightharpoonup> 'a" where
  "handles a h = arena_get a (fst h) (snd h)"

lemma handles_eq:
  assumes "arena_ok a"
  shows "handles a h = (if live_at a (unat (fst h)) \<and> snd h = ar_gens a ! unat (fst h)
     then en_value (ar_entries a ! unat (fst h)) else None)"
  using assms by (auto simp: handles_def arena_get_def get_def live_at_def arena_ok_def)

lemma dom_handles: "arena_ok a \<Longrightarrow> dom (handles a) = {h. live_at a (unat (fst h)) \<and> snd h = ar_gens a ! unat (fst h)}"
  by (auto simp: handles_eq dom_def live_at_def split: if_splits)

definition young_exact :: "'a arena \<Rightarrow> bool" where
  "young_exact a \<longleftrightarrow> distinct (ar_young a) \<and> (\<forall>i \<in> set (ar_young a). live_at a (unat i))"

definition arena_inv :: "'a arena \<Rightarrow> bool" where
  "arena_inv a \<longleftrightarrow> arena_ok a \<and> young_exact a"

lemma arena_inv_ok [simp]: "arena_inv a \<Longrightarrow> arena_ok a"
  by (simp add: arena_inv_def)

lemma arena_new_inv [simp]: "arena_inv arena_new"
  by (simp add: arena_inv_def young_exact_def) (simp add: arena_new_def)

subsection \<open>Operations on one slot\<close>

lemma update_entry_live:
  assumes "\<And>e. en_value (f e) = None \<longleftrightarrow> en_value e = None"
  shows "live_at (update_entry i f a) k = live_at a k"
  using assms [of "ar_entries a ! unat i"] by (auto simp: update_entry_def live_at_def nth_list_update)

lemma update_entry_frame [simp]:
  "ar_gens (update_entry i f a) = ar_gens a" "ar_young (update_entry i f a) = ar_young a"
  "ar_free (update_entry i f a) = ar_free a" "length (ar_entries (update_entry i f a)) = length (ar_entries a)"
  by (simp_all add: update_entry_def)

lemma update_entry_inv:
  assumes "arena_inv a" "\<And>e. en_value (f e) = None \<longleftrightarrow> en_value e = None"
    and "\<And>e. en_age (f e) = Young \<Longrightarrow> en_age e = Young"
  shows "arena_inv (update_entry i f a)"
  using assms by (simp add: arena_inv_def young_exact_def update_entry_live update_entry_ok)

lemma update_entry_handles:
  assumes "\<And>e. en_value (f e) = en_value e"
  shows "handles (update_entry i f a) = handles a"
  by (intro ext) (auto simp: handles_def arena_get_def update_entry_def get_def nth_list_update assms)

lemma gc_value_mut_handles:
  assumes "arena_ok a" "arena_get a i g = Some v"
  shows "handles (gc_value_mut i f a) = (handles a)((i, g) \<mapsto> f v)"
  using assms
  by (intro ext) (auto simp: handles_def arena_get_def gc_value_mut_def update_entry_def get_def nth_list_update
      u32_unat_eq_iff split: if_splits)

lemma arena_free_handles:
  assumes "arena_ok a" "live_at a (unat i)"
  shows "handles (arena_free i a) = (handles a)((i, ar_gens a ! unat i) := None)"
  using assms
  by (intro ext) (auto simp: handles_def arena_get_def arena_free_def get_def live_at_def nth_list_update arena_ok_def
      u32_unat_eq_iff Let_def)

lemma arena_alloc_handles:
  assumes "arena_ok a" "arena_alloc r v a = (Allocated i g, a')"
  shows "handles a' = (handles a)((i, g) \<mapsto> v)" "\<not> live_at a (unat i)" "live_at a' (unat i)"
    "ar_gens a' ! unat i = g" "\<And>j. j \<noteq> i \<Longrightarrow> live_at a' (unat j) = live_at a (unat j)"
    "ar_young a' = ar_young a @ [i]"
proof -
  have *: "handles a' = (handles a)((i, g) \<mapsto> v) \<and> \<not> live_at a (unat i) \<and> live_at a' (unat i) \<and>
    ar_gens a' ! unat i = g \<and> (\<forall>j. j \<noteq> i \<longrightarrow> live_at a' (unat j) = live_at a (unat j)) \<and> ar_young a' = ar_young a @ [i]"
    using assms(1)
  proof (cases rule: arena_alloc_cases [where r = r and v = v])
    case (reused j)
    then have "i = j" "en_value (ar_entries a ! unat i) = None"
      using assms last_in_set [of "ar_free a"] by (auto simp: arena_ok_def free_listed_def)
    then show ?thesis using reused assms
      by (auto simp: handles_def arena_get_def get_def live_at_def fun_eq_iff nth_list_update u32_unat_eq_iff arena_ok_def)
  next
    case (grown j gs)
    then have i: "i = j" "unat i = length (ar_entries a)" using assms by (auto simp: unat_of_nat_u32)
    have *: "unat k < Suc (length (ar_entries a)) \<longleftrightarrow> unat k < length (ar_entries a) \<or> k = i" for k :: u32
      using i(2) u32_unat_eq_iff by (metis less_Suc_eq)
    have gs: "length (ar_entries a) < length gs" "\<And>k. unat k < length (ar_entries a) \<Longrightarrow> gs ! unat k = ar_gens a ! unat k"
      using grown(4) assms(1) by (auto simp: arena_ok_def nth_append)
    show ?thesis using grown assms i gs
      by (auto simp: handles_def arena_get_def get_def live_at_def fun_eq_iff * nth_append arena_ok_def)
  qed (use assms in auto)
  then show "handles a' = (handles a)((i, g) \<mapsto> v)" "\<not> live_at a (unat i)" "live_at a' (unat i)"
    "ar_gens a' ! unat i = g" "\<And>j. j \<noteq> i \<Longrightarrow> live_at a' (unat j) = live_at a (unat j)"
    "ar_young a' = ar_young a @ [i]" by auto
qed

lemma arena_alloc_inv:
  assumes "arena_inv a" "arena_alloc r v a = (Allocated i g, a')"
  shows "arena_inv a'"
proof -
  have ok: "arena_ok a" using assms(1) by simp
  note al = arena_alloc_handles [OF ok assms(2)]
  have "arena_ok a'" using arena_alloc_ok [OF ok, of r v] assms(2) by simp
  moreover have "young_exact a'"
    using assms(1) al(2,3) unfolding arena_inv_def young_exact_def al(6) by (auto, metis al(5))
  ultimately show ?thesis by (simp add: arena_inv_def)
qed

lemma arena_alloc_failed:
  assumes "arena_ok a" "arena_alloc r v a = (Reserve_Error, a')"
  shows "a' = a \<or> a' = a\<lparr>ar_gens := ar_gens a @ [0]\<rparr>"
  using assms(1) by (cases rule: arena_alloc_cases [where r = r and v = v]) (use assms in auto)

subsection \<open>Sweeps and compaction\<close>

lemma swept_live:
  assumes "swept P is a a'"
  shows "live_at a' (unat j) \<longleftrightarrow> live_at a (unat j) \<and> \<not> (j \<in> set is \<and> doomed P a j)"
  using assms live_doomed_swept [of P "ar_entries a ! unat j"]
  by (cases "unat j < length (ar_entries a)"; cases "j \<in> set is") (auto simp: swept_def live_at_def doomed_def)

lemma swept_handles:
  assumes "arena_ok a" "arena_ok a'" "swept P is a a'" "\<And>j. doomed P a j \<Longrightarrow> j \<in> set is"
  shows "handles a' = handles a |` {h. \<not> doomed P a (fst h)}"
proof
  fix h :: handle
  obtain i g where h: "h = (i, g)" by (cases h)
  show "handles a' h = (handles a |` {h. \<not> doomed P a (fst h)}) h"
  proof (cases "live_at a (unat i) \<and> \<not> doomed P a i")
    case True
    then have "en_value (ar_entries a' ! unat i) = en_value (ar_entries a ! unat i)"
      "ar_gens a' ! unat i = ar_gens a ! unat i" "live_at a' (unat i)"
      using assms(1,3) swept_live [OF assms(3), of i]
      by (auto simp: swept_def live_at_def doomed_def swept_entry_def arena_ok_def)
    with True show ?thesis by (simp add: h handles_eq assms(1,2))
  next
    case False
    then have "\<not> live_at a' (unat i)" using swept_live [OF assms(3), of i] assms(4) [of i] by auto
    with False show ?thesis by (auto simp: h handles_eq assms(1,2) restrict_map_def)
  qed
qed

definition slots :: "'a arena \<Rightarrow> u32 list" where
  "slots a = map of_nat [0..<length (ar_entries a)]"

lemma set_slots: "length (ar_entries a) < 2 ^ 32 \<Longrightarrow> i \<in> set (slots a) \<longleftrightarrow> unat i < length (ar_entries a)"
  by (auto simp: slots_def unat_of_nat_u32 intro: image_eqI [where x = "unat i"])

lemma distinct_slots: "length (ar_entries a) < 2 ^ 32 \<Longrightarrow> distinct (slots a)"
  by (auto simp: slots_def distinct_map inj_on_def of_nat_eq_u32 unat_of_nat_u32)

lemma gc_sweep_with_eq:
  assumes "length (ar_entries a) < 2 ^ 32"
  shows "gc_sweep_with a = (let s = fold (sweep_step (\<lambda>_. True)) (slots a) ([], a) in (fst s, (snd s)\<lparr>ar_young := []\<rparr>))"
  using assms by (simp add: gc_sweep_with_def slots_def sweep_slot_step unat_of_nat_u32 Let_def)

lemma set_young_frame [simp]:
  "live_at (a\<lparr>ar_young := yg\<rparr>) k = live_at a k" "handles (a\<lparr>ar_young := yg\<rparr>) = handles a"
  "doomed P (a\<lparr>ar_young := yg\<rparr>) i = doomed P a i"
  by (auto simp: live_at_def handles_def arena_get_def doomed_def)

text \<open>The handles of the slots a sweep frees.\<close>

definition retired_by :: "('a arena_entry \<Rightarrow> bool) \<Rightarrow> 'a arena \<Rightarrow> handle list" where
  "retired_by P a = map (\<lambda>i. (i, ar_gens a ! unat i)) (filter (doomed P a) (slots a))"

lemma gc_sweep_with_swept:
  assumes "arena_ok a" "length (ar_entries a) < 2 ^ 32"
  defines "a' \<equiv> snd (gc_sweep_with a)"
  shows "arena_inv a'" "swept (\<lambda>_. True) (slots a) a a'" "ar_young a' = []"
    "\<And>i :: u32. live_at a' (unat i) \<Longrightarrow> ar_entries a' ! unat i = (ar_entries a ! unat i)\<lparr>en_color := White, en_age := Old\<rparr>"
proof -
  let ?s = "fold (sweep_step (\<lambda>_. True)) (slots a) ([], a)"
  have f: "arena_ok (snd ?s)" "swept (\<lambda>_. True) (slots a) a (snd ?s)"
    using sweep_fold [OF assms(1), of "slots a" "\<lambda>_. True" "[]"] distinct_slots [OF assms(2)] by auto
  have a': "a' = (snd ?s)\<lparr>ar_young := []\<rparr>" by (simp add: a'_def gc_sweep_with_eq [OF assms(2)] Let_def)
  show "ar_young a' = []" by (simp add: a')
  show "swept (\<lambda>_. True) (slots a) a a'" using f(2) by (simp add: a' swept_def)
  show old: "ar_entries a' ! unat i = (ar_entries a ! unat i)\<lparr>en_color := White, en_age := Old\<rparr>"
    if "live_at a' (unat i)" for i :: u32
    using f(2) that set_slots [OF assms(2), of i]
    by (auto simp: a' swept_def live_at_def swept_entry_def split: if_splits)
  have "arena_ok a'" unfolding a'
    by (rule arena_ok_drop_young [OF f(1)]) (use old in \<open>auto simp: a'\<close>)
  then show "arena_inv a'" by (simp add: arena_inv_def young_exact_def a')
qed

lemma gc_sweep_with_freed:
  assumes "arena_ok a" "length (ar_entries a) < 2 ^ 32"
  shows "fst (gc_sweep_with a) = map (\<lambda>h. the (handles a h)) (retired_by (\<lambda>_. True) a)"
  using sweep_fold_freed [OF assms(1) distinct_slots [OF assms(2)], of "\<lambda>_. True" "[]"]
  by (auto simp: gc_sweep_with_eq [OF assms(2)] Let_def retired_by_def handles_eq assms(1) doomed_def)

text \<open>The minor sweep takes the young list away first; the loop does not look at it.\<close>

lemma sweep_step_young:
  "sweep_step P i (fst s, (snd s)\<lparr>ar_young := yg\<rparr>) =
     (fst (sweep_step P i s), (snd (sweep_step P i s))\<lparr>ar_young := yg\<rparr>)"
  by (auto simp: sweep_step_def live_at_def arena_free_def update_entry_def Let_def)

lemma sweep_fold_young:
  "fold (sweep_step P) is (fst s, (snd s)\<lparr>ar_young := yg\<rparr>) =
     (fst (fold (sweep_step P) is s), (snd (fold (sweep_step P) is s))\<lparr>ar_young := yg\<rparr>)"
  by (induction "is" arbitrary: s) (simp_all add: sweep_step_young)

lemma gc_sweep_minor_with_eq:
  "gc_sweep_minor_with a =
     (let s = fold (sweep_step young_entry) (ar_young a) ([], a) in (fst s, (snd s)\<lparr>ar_young := []\<rparr>))"
  using sweep_fold_young [of young_entry "ar_young a" "([], a)" "[]"]
  by (simp add: gc_sweep_minor_with_def sweep_young_step Let_def)

lemma gc_sweep_minor_swept:
  assumes "arena_ok a"
  defines "a' \<equiv> snd (gc_sweep_minor_with a)"
  shows "arena_inv a'" "swept young_entry (ar_young a) a a'" "ar_young a' = []"
    "\<And>i :: u32. live_at a' (unat i) \<Longrightarrow> ar_entries a' ! unat i =
       (if young_entry (ar_entries a ! unat i) then (ar_entries a ! unat i)\<lparr>en_color := White, en_age := Old\<rparr>
        else ar_entries a ! unat i)"
proof -
  let ?s = "fold (sweep_step young_entry) (ar_young a) ([], a)"
  have f: "arena_ok (snd ?s)" "swept young_entry (ar_young a) a (snd ?s)"
    using sweep_fold [OF assms(1), of "ar_young a" young_entry "[]"] by auto
  have a': "a' = (snd ?s)\<lparr>ar_young := []\<rparr>" by (simp add: a'_def gc_sweep_minor_with_eq Let_def)
  show "ar_young a' = []" by (simp add: a')
  show "swept young_entry (ar_young a) a a'" using f(2) by (simp add: a' swept_def)
  show old: "ar_entries a' ! unat i = (if young_entry (ar_entries a ! unat i)
      then (ar_entries a ! unat i)\<lparr>en_color := White, en_age := Old\<rparr> else ar_entries a ! unat i)"
    if live: "live_at a' (unat i)" for i :: u32
  proof -
    have l: "live_at a (unat i)" using live swept_live [OF f(2), of i] by (simp add: a')
    then have "young_entry (ar_entries a ! unat i) \<Longrightarrow> i \<in> set (ar_young a)"
      using assms(1) by (auto simp: arena_ok_def young_listed_def live_at_def)
    then show ?thesis using f(2) live l
      by (auto simp: a' swept_def live_at_def swept_entry_def split: if_splits)
  qed
  have "arena_ok a'" unfolding a'
    by (rule arena_ok_drop_young [OF f(1)]) (use old in \<open>auto simp: a'\<close>)
  then show "arena_inv a'" by (simp add: arena_inv_def young_exact_def a')
qed

lemma doomed_young_listed:
  "arena_ok a \<Longrightarrow> doomed young_entry a i \<Longrightarrow> i \<in> set (ar_young a)"
  by (auto simp: arena_ok_def young_listed_def doomed_def live_at_def)

lemma gc_sweep_minor_freed:
  assumes "arena_inv a"
  shows "fst (gc_sweep_minor_with a) = map (\<lambda>i. the (gc_value a i)) (filter (doomed young_entry a) (ar_young a))"
proof -
  have "arena_ok a" "distinct (ar_young a)" using assms by (auto simp: arena_inv_def young_exact_def)
  from sweep_fold_freed [OF this, of young_entry "[]"] show ?thesis
    by (auto simp: gc_sweep_minor_with_eq Let_def gc_value_def get_def doomed_def live_at_def)
qed

subsection \<open>Compaction\<close>

lemma live_length_le: "live_length es \<le> length es"
  by (induction es) (auto simp: Let_def)

lemma live_length_beyond: "live_length es \<le> k \<Longrightarrow> k < length es \<Longrightarrow> en_value (es ! k) = None"
proof (induction es arbitrary: k)
  case (Cons e es)
  then show ?case by (cases k) (auto simp: Let_def split: if_splits)
qed simp

lemma live_length_last: "live_length es = Suc n \<Longrightarrow> en_value (es ! n) \<noteq> None"
proof (induction es arbitrary: n)
  case (Cons e es)
  then show ?case by (cases n) (auto simp: Let_def split: if_splits)
qed simp

lemma gc_compact_shape:
  "ar_entries (gc_compact a) = take (live_length (ar_entries a)) (ar_entries a)"
  "ar_gens (gc_compact a) = ar_gens a" "ar_young (gc_compact a) = ar_young a"
  using live_length_le [of "ar_entries a"] by (auto simp: gc_compact_def Let_def)

lemma gc_compact_free:
  assumes "arena_ok a"
  shows "ar_free (gc_compact a) = rev (sort (filter (\<lambda>i. unat i < live_length (ar_entries a)) (ar_free a)))"
proof -
  have "filter (\<lambda>i. unat i < length (ar_entries a)) (ar_free a) = ar_free a"
    using assms by (auto simp: arena_ok_def free_listed_def filter_id_conv)
  then show ?thesis using live_length_le [of "ar_entries a"] by (auto simp: gc_compact_def Let_def)
qed

lemma gc_compact_live [simp]: "live_at (gc_compact a) k = live_at a k"
  using live_length_beyond [of "ar_entries a" k] live_length_le [of "ar_entries a"]
  by (cases "k < live_length (ar_entries a)") (auto simp: live_at_def gc_compact_shape)

lemma gc_compact_entry: "live_at a k \<Longrightarrow> ar_entries (gc_compact a) ! k = ar_entries a ! k"
  using live_length_beyond [of "ar_entries a" k] by (fastforce simp: live_at_def gc_compact_shape not_less)

lemma gc_compact_inv:
  assumes "arena_inv a"
  shows "arena_inv (gc_compact a)"
proof -
  have ok: "arena_ok a" and ex: "young_exact a" using assms by (auto simp: arena_inv_def)
  let ?n = "live_length (ar_entries a)"
  have fr: "set (ar_free (gc_compact a)) = {i \<in> set (ar_free a). unat i < ?n}" "distinct (ar_free (gc_compact a))"
    using ok by (auto simp: gc_compact_free arena_ok_def free_listed_def)
  have "free_listed (ar_entries (gc_compact a)) (ar_free (gc_compact a))"
    using ok live_length_le [of "ar_entries a"] fr unfolding free_listed_def
    by (auto simp: gc_compact_shape arena_ok_def free_listed_def)
  moreover have "young_listed (ar_entries (gc_compact a)) (ar_young (gc_compact a))"
    using ok live_length_le [of "ar_entries a"] by (auto simp: gc_compact_shape young_listed_def arena_ok_def)
  moreover have "young_exact (gc_compact a)" using ex by (simp add: young_exact_def gc_compact_shape(3))
  ultimately show ?thesis
    using ok live_length_le [of "ar_entries a"] by (auto simp: arena_inv_def arena_ok_def gc_compact_shape(1,2))
qed

lemma gc_compact_handles:
  assumes "arena_inv a"
  shows "handles (gc_compact a) = handles a"
proof -
  have "arena_ok a" "arena_ok (gc_compact a)" using assms gc_compact_inv [OF assms] by auto
  then show ?thesis by (auto simp: fun_eq_iff handles_eq gc_compact_shape(2) gc_compact_entry)
qed

definition whitened :: "'a arena_entry \<Rightarrow> 'a arena_entry" where
  "whitened e = (if en_value e \<noteq> None then e\<lparr>en_color := White\<rparr> else e)"

lemma whitened_simps [simp]: "en_value (whitened e) = en_value e" "en_age (whitened e) = en_age e"
  by (simp_all add: whitened_def)

lemma gc_reset_colors_eq: "gc_reset_colors a = a\<lparr>ar_entries := map whitened (ar_entries a)\<rparr>"
  by (simp add: gc_reset_colors_def whitened_def)

lemma gc_reset_colors_gens [simp]: "ar_gens (gc_reset_colors a) = ar_gens a"
  by (simp add: gc_reset_colors_def)

lemma gc_reset_colors_live [simp]: "live_at (gc_reset_colors a) k = live_at a k"
  by (auto simp: live_at_def gc_reset_colors_eq)

lemma gc_reset_colors_inv: "arena_inv a \<Longrightarrow> arena_inv (gc_reset_colors a)"
  by (auto simp: arena_inv_def young_exact_def arena_ok_def free_listed_def young_listed_def gc_reset_colors_eq live_at_def)

lemma gc_reset_colors_handles: "handles (gc_reset_colors a) = handles a"
  by (auto simp: fun_eq_iff handles_def arena_get_def get_def gc_reset_colors_eq)

section \<open>Histories\<close>

text \<open>
  The arena over its whole life, with the handles it issued and the handles whose object it freed,
  latest first. A major sweep runs on an arena of fewer than \<open>2 ^ 32\<close> slots.
\<close>

inductive arena_run :: "'a arena \<Rightarrow> handle list \<Rightarrow> handle list \<Rightarrow> bool" where
  start: "arena_run arena_new [] []"
| alloc: "arena_run a iss ret \<Longrightarrow> arena_alloc r v a = (Allocated i g, a') \<Longrightarrow> arena_run a' ((i, g) # iss) ret"
| no_memory: "arena_run a iss ret \<Longrightarrow> arena_alloc r v a = (Reserve_Error, a') \<Longrightarrow> arena_run a' iss ret"
| mutate: "arena_run a iss ret \<Longrightarrow> arena_run (arena_get_mut i g f a) iss ret"
| mutate_slot: "arena_run a iss ret \<Longrightarrow> arena_run (gc_value_mut i f a) iss ret"
| recolor: "arena_run a iss ret \<Longrightarrow> arena_run (gc_set_color i c a) iss ret"
| settle: "arena_run a iss ret \<Longrightarrow> g \<noteq> Young \<Longrightarrow> arena_run (gc_set_age i g a) iss ret"
| scrub: "arena_run a iss ret \<Longrightarrow> arena_run (gc_reset_colors a) iss ret"
| compact: "arena_run a iss ret \<Longrightarrow> arena_run (gc_compact a) iss ret"
| major: "arena_run a iss ret \<Longrightarrow> length (ar_entries a) < 2 ^ 32 \<Longrightarrow>
    arena_run (snd (gc_sweep_with a)) iss (retired_by (\<lambda>_. True) a @ ret)"
| minor: "arena_run a iss ret \<Longrightarrow> length (ar_entries a) < 2 ^ 32 \<Longrightarrow>
    arena_run (snd (gc_sweep_minor_with a)) iss (retired_by young_entry a @ ret)"

text \<open>How often a slot has been recycled.\<close>

definition recycled :: "handle list \<Rightarrow> u32 \<Rightarrow> nat" where
  "recycled ret i = length (filter (\<lambda>h. fst h = i) ret)"

definition gens_match :: "u32 list \<Rightarrow> handle list \<Rightarrow> bool" where
  "gens_match gs ret \<longleftrightarrow>
     (\<forall>i. if unat i < length gs then gs ! unat i = of_nat (recycled ret i) else recycled ret i = 0)"

lemma gens_match_grow: "gens_match gs ret \<Longrightarrow> gens_match (gs @ [0]) ret"
  unfolding gens_match_def
proof
  fix i :: u32
  assume "\<forall>i. if unat i < length gs then gs ! unat i = of_nat (recycled ret i) else recycled ret i = 0"
  then have "if unat i < length gs then gs ! unat i = of_nat (recycled ret i) else recycled ret i = 0" by blast
  then show "if unat i < length (gs @ [0]) then (gs @ [0]) ! unat i = of_nat (recycled ret i) else recycled ret i = 0"
    by (auto simp: nth_append split: if_splits)
qed

definition books :: "'a arena \<Rightarrow> handle list \<Rightarrow> handle list \<Rightarrow> bool" where
  "books a iss ret \<longleftrightarrow> arena_inv a \<and>
     gens_match (ar_gens a) ret \<and>
     (\<forall>i g. (i, g) \<in> set ret \<longleftrightarrow> (\<exists>n < recycled ret i. g = of_nat n)) \<and>
     set iss = set ret \<union> dom (handles a)"

lemma recycled_append: "recycled ret i \<le> recycled (xs @ ret) i"
  by (simp add: recycled_def)

lemma filter_eq_singleton: "distinct xs \<Longrightarrow> filter (\<lambda>j. j = i) xs = (if i \<in> set xs then [i] else [])"
  by (induction xs) auto

lemma recycled_retired_by:
  assumes "length (ar_entries a) < 2 ^ 32"
  shows "recycled (retired_by P a @ ret) i = (if doomed P a i then Suc (recycled ret i) else recycled ret i)"
proof -
  have "filter (\<lambda>h. fst h = i) (retired_by P a) = map (\<lambda>i. (i, ar_gens a ! unat i)) (filter (\<lambda>j. j = i) (filter (doomed P a) (slots a)))"
    by (simp add: retired_by_def filter_map comp_def)
  moreover have "filter (\<lambda>j. j = i) (filter (doomed P a) (slots a)) = (if doomed P a i then [i] else [])"
    using distinct_slots [OF assms] set_slots [OF assms, of i]
    by (subst filter_eq_singleton) (auto simp: doomed_def live_at_def)
  ultimately show ?thesis by (simp add: recycled_def)
qed

lemma books_frame:
  assumes "books a iss ret" "arena_inv a'" "ar_gens a' = ar_gens a" "dom (handles a') = dom (handles a)"
  shows "books a' iss ret"
  using assms by (simp add: books_def)

lemma update_entry_dom:
  assumes "\<And>e. en_value (f e) = None \<longleftrightarrow> en_value e = None"
  shows "dom (handles (update_entry i f a)) = dom (handles a)"
proof -
  have "handles (update_entry i f a) h = None \<longleftrightarrow> handles a h = None" for h
    using assms [of "ar_entries a ! unat i"]
    by (auto simp: handles_def arena_get_def update_entry_def get_def nth_list_update)
  then show ?thesis by (simp add: dom_def)
qed

lemma books_update_entry:
  assumes "books a iss ret" "\<And>e. en_value (f e) = None \<longleftrightarrow> en_value e = None"
    and "\<And>e. en_age (f e) = Young \<Longrightarrow> en_age e = Young"
  shows "books (update_entry i f a) iss ret"
  using assms by (intro books_frame [OF assms(1)]) (auto simp: books_def update_entry_dom intro: update_entry_inv)

lemma books_grow_gens:
  assumes "books a iss ret"
  shows "books (a\<lparr>ar_gens := ar_gens a @ [0]\<rparr>) iss ret"
proof -
  let ?a = "a\<lparr>ar_gens := ar_gens a @ [0]\<rparr>"
  have inv: "arena_inv a" using assms by (simp add: books_def)
  then have inv': "arena_inv ?a" by (auto simp: arena_inv_def arena_ok_def young_exact_def live_at_def)
  have "dom (handles ?a) = dom (handles a)"
    unfolding dom_handles [OF arena_inv_ok [OF inv]] dom_handles [OF arena_inv_ok [OF inv']]
    using arena_inv_ok [OF inv] by (auto simp: live_at_def nth_append arena_ok_def)
  then show ?thesis using assms inv' by (simp add: books_def gens_match_grow)
qed

lemma arena_alloc_gens:
  assumes "arena_ok a" "arena_alloc r v a = (Allocated i g, a')"
  shows "ar_gens a' = ar_gens a \<or> ar_gens a' = ar_gens a @ [0]"
  using assms(1) by (cases rule: arena_alloc_cases [where r = r and v = v]) (use assms in auto)

lemma books_alloc:
  assumes "books a iss ret" "arena_alloc r v a = (Allocated i g, a')"
  shows "books a' ((i, g) # iss) ret"
proof -
  have ok: "arena_ok a" and inv: "arena_inv a" using assms(1) by (auto simp: books_def)
  have "gens_match (ar_gens a') ret"
    using assms(1) arena_alloc_gens [OF ok assms(2)] by (auto simp: books_def gens_match_grow)
  then show ?thesis using assms(1) arena_alloc_inv [OF inv assms(2)] arena_alloc_handles(1) [OF ok assms(2)]
    by (auto simp: books_def)
qed

lemma retired_by_iff:
  assumes "length (ar_entries a) < 2 ^ 32"
  shows "(i, g) \<in> set (retired_by P a) \<longleftrightarrow> doomed P a i \<and> g = ar_gens a ! unat i"
  using set_slots [OF assms, of i] by (auto simp: retired_by_def doomed_def live_at_def)

lemma books_sweep:
  assumes b: "books a iss ret" and small: "length (ar_entries a) < 2 ^ 32"
    and sw: "swept P is a a'" and all: "\<And>j. doomed P a j \<Longrightarrow> j \<in> set is" and inv': "arena_inv a'"
  shows "books a' iss (retired_by P a @ ret)"
proof -
  let ?ret = "retired_by P a @ ret"
  have ok: "arena_ok a" using b by (simp add: books_def)
  have d: "doomed P a i \<Longrightarrow> unat i < length (ar_gens a)" for i
    using ok by (auto simp: doomed_def live_at_def arena_ok_def)
  have gens: "gens_match (ar_gens a') ?ret"
    unfolding gens_match_def
  proof
    fix i :: u32
    have "if unat i < length (ar_gens a) then ar_gens a ! unat i = of_nat (recycled ret i) else recycled ret i = 0"
      using b by (simp add: books_def gens_match_def)
    then show "if unat i < length (ar_gens a') then ar_gens a' ! unat i = of_nat (recycled ?ret i) else recycled ?ret i = 0"
      using sw all [of i] d [of i] by (auto simp: swept_def recycled_retired_by [OF small] split: if_splits)
  qed
  have ret: "(i, g) \<in> set ?ret \<longleftrightarrow> (\<exists>n < recycled ?ret i. g = of_nat n)" for i g
  proof -
    have "(i, g) \<in> set ret \<longleftrightarrow> (\<exists>n < recycled ret i. g = of_nat n)" using b by (simp add: books_def)
    moreover have "doomed P a i \<Longrightarrow> ar_gens a ! unat i = of_nat (recycled ret i)"
      using b d [of i] by (auto simp: books_def gens_match_def)
    ultimately show ?thesis
      by (auto simp: retired_by_iff [OF small] recycled_retired_by [OF small] less_Suc_eq)
  qed
  have ok': "arena_ok a'" using inv' by simp
  have "dom (handles a') = dom (handles a) \<inter> {h. \<not> doomed P a (fst h)}"
    using swept_handles [OF ok ok' sw all] by (simp add: dom_restrict)
  moreover have "dom (handles a) \<inter> {h. doomed P a (fst h)} = set (retired_by P a)"
    by (auto simp: dom_handles ok retired_by_iff [OF small] doomed_def)
  ultimately show ?thesis using b gens ret inv' by (auto simp: books_def)
qed

lemma arena_run_books: "arena_run a iss ret \<Longrightarrow> books a iss ret"
proof (induction rule: arena_run.induct)
  case start
  show ?case by (simp add: books_def dom_handles) (simp add: arena_new_def gens_match_def recycled_def live_at_def)
next
  case (no_memory a iss ret r v a')
  then have "arena_ok a" by (simp add: books_def)
  from arena_alloc_failed [OF this no_memory.hyps(2)] show ?case
    using books_grow_gens [OF no_memory.IH] no_memory.IH by auto
next
  case (mutate a iss ret i g f)
  then show ?case unfolding arena_get_mut_eq gc_value_mut_def by (auto intro: books_update_entry)
next
  case (compact a iss ret)
  then have "arena_inv a" by (simp add: books_def)
  then show ?case by (intro books_frame [OF compact.IH]) (auto simp: gc_compact_inv gc_compact_handles gc_compact_shape)
next
  case (scrub a iss ret)
  then have "arena_inv a" by (simp add: books_def)
  then show ?case by (intro books_frame [OF scrub.IH]) (auto simp: gc_reset_colors_inv gc_reset_colors_handles)
next
  case (major a iss ret)
  then have ok: "arena_ok a" by (simp add: books_def)
  note sw = gc_sweep_with_swept [OF ok major.hyps(2)]
  show ?case
    by (rule books_sweep [OF major.IH major.hyps(2) sw(2) _ sw(1)])
      (simp add: set_slots [OF major.hyps(2)] doomed_def live_at_def)
next
  case (minor a iss ret)
  then have ok: "arena_ok a" by (simp add: books_def)
  note sw = gc_sweep_minor_swept [OF ok]
  show ?case by (rule books_sweep [OF minor.IH minor.hyps(2) sw(2) doomed_young_listed [OF ok] sw(1)])
next
  case (alloc a iss ret r v i g a')
  then show ?case by (intro books_alloc)
next
  case (mutate_slot a iss ret i f)
  then show ?case unfolding gc_value_mut_def by (intro books_update_entry) auto
next
  case (recolor a iss ret i c)
  then show ?case unfolding gc_set_color_def by (intro books_update_entry) auto
next
  case (settle a iss ret g i)
  then show ?case unfolding gc_set_age_def by (intro books_update_entry) auto
qed

section \<open>Properties\<close>

lemma retired_not_current:
  assumes "books a iss ret" "recycled ret i < 2 ^ 32" "unat i < length (ar_gens a)"
  shows "(i, ar_gens a ! unat i) \<notin> set ret"
proof
  assume "(i, ar_gens a ! unat i) \<in> set ret"
  then obtain n where n: "n < recycled ret i" "ar_gens a ! unat i = of_nat n"
    using assms(1) by (auto simp: books_def)
  have "ar_gens a ! unat i = of_nat (recycled ret i)"
    using assms(1,3) by (simp add: books_def gens_match_def)
  then have "of_nat n = (of_nat (recycled ret i) :: u32)" using n(2) by simp
  then have "unat (of_nat n :: u32) = unat (of_nat (recycled ret i) :: u32)" by simp
  then show False using n(1) assms(2) by (simp add: unat_of_nat_u32)
qed

lemma arena_run_distinct: "arena_run a iss ret \<Longrightarrow> \<forall>i. recycled ret i < 2 ^ 32 \<Longrightarrow> distinct iss"
proof (induction rule: arena_run.induct)
  case (alloc a iss ret r v i g a')
  note b = arena_run_books [OF alloc.hyps(1)] and b' = arena_run_books [OF arena_run.alloc [OF alloc.hyps]]
  have ok: "arena_ok a" using b by (simp add: books_def)
  note al = arena_alloc_handles [OF ok alloc.hyps(2)]
  have "arena_ok a'" using b' by (simp add: books_def)
  then have "unat i < length (ar_gens a')" using al(3) by (auto simp: live_at_def arena_ok_def)
  then have "(i, g) \<notin> set ret" using retired_not_current [OF b'] alloc.prems al(4) by auto
  moreover have "(i, g) \<notin> dom (handles a)" using al(2) by (simp add: dom_handles ok)
  ultimately show ?case using alloc.IH alloc.prems b by (simp add: books_def)
next
  case (major a iss ret)
  then show ?case by (metis recycled_append order_le_less_trans)
next
  case (minor a iss ret)
  then show ?case by (metis recycled_append order_le_less_trans)
qed auto

text \<open>
  C7: Handles are never reissued and never come back to life. Over every history of an arena in which
  no slot was recycled \<open>2 ^ 32\<close> times, the handles it issued are pairwise different, a handle whose
  object was freed resolves to nothing, and the handles that resolve are exactly those issued and not
  freed, whatever allocations, sweeps, truncations and regrowths came between.
\<close>

theorem arena_handles_unique:
  assumes "arena_run a iss ret" "\<forall>i. recycled ret i < 2 ^ 32"
  shows "distinct iss \<and> (\<forall>i g. arena_get a i g \<noteq> None \<longleftrightarrow> (i, g) \<in> set iss - set ret)"
proof
  show "distinct iss" using arena_run_distinct assms by blast
  have b: "books a iss ret" by (rule arena_run_books [OF assms(1)])
  then have ok: "arena_ok a" by (simp add: books_def)
  have "h \<notin> set ret" if "h \<in> dom (handles a)" for h
    using that retired_not_current [OF b, of "fst h"] assms(2) ok
    by (cases h) (auto simp: dom_handles ok live_at_def arena_ok_def)
  then have "dom (handles a) = set iss - set ret" using b by (auto simp: books_def)
  moreover have "arena_get a i g \<noteq> None \<longleftrightarrow> (i, g) \<in> dom (handles a)" for i g
    by (simp add: handles_def dom_def)
  ultimately show "\<forall>i g. arena_get a i g \<noteq> None \<longleftrightarrow> (i, g) \<in> set iss - set ret" by blast
qed

definition demo_reservations :: reservations where
  "demo_reservations = \<lparr>young_ok = True, gens_ok = True, entries_ok = True\<rparr>"

text \<open>An arena after an allocation, a sweep that freed it, and an allocation of the same slot.\<close>

definition demo_arena :: "nat arena" where
  "demo_arena = \<lparr>ar_entries = [fresh_entry 8], ar_gens = [1], ar_free = [], ar_young = [0]\<rparr>"

lemma demo_arena_run: "arena_run demo_arena [(0, 1), (0, 0)] [(0, 0)]"
proof -
  let ?a1 = "\<lparr>ar_entries = [fresh_entry 7], ar_gens = [0], ar_free = [], ar_young = [0]\<rparr> :: nat arena"
  let ?a2 = "\<lparr>ar_entries = [(fresh_entry 7)\<lparr>en_value := None\<rparr>], ar_gens = [1], ar_free = [0], ar_young = []\<rparr> :: nat arena"
  have "arena_alloc demo_reservations (7 :: nat) arena_new = (Allocated 0 0, ?a1)"
    by (simp add: arena_alloc_def arena_new_def demo_reservations_def Let_def)
  from arena_run.alloc [OF arena_run.start this] have "arena_run ?a1 [(0, 0)] []" .
  from arena_run.major [OF this]
  have "arena_run (snd (gc_sweep_with ?a1)) [(0, 0)] (retired_by (\<lambda>_. True) ?a1)" by simp
  moreover have "snd (gc_sweep_with ?a1) = ?a2"
    by (simp add: gc_sweep_with_def sweep_slot_def get_def arena_free_def Let_def upt_rec fresh_entry_def)
  moreover have "retired_by (\<lambda>_. True) ?a1 = [(0, 0)]"
    by (simp add: retired_by_def slots_def doomed_def live_at_def)
  ultimately have "arena_run ?a2 [(0, 0)] [(0, 0)]" by simp
  moreover have "arena_alloc demo_reservations (8 :: nat) ?a2 = (Allocated 0 1, demo_arena)"
    by (simp add: arena_alloc_def demo_arena_def demo_reservations_def Let_def)
  ultimately show ?thesis by (rule arena_run.alloc)
qed

theorem arena_handles_unique_witness:
  "arena_get demo_arena 0 0 = None \<and> arena_get demo_arena 0 1 = Some 8"
proof -
  have "\<forall>i. recycled [(0, 0)] i < 2 ^ 32" by (simp add: recycled_def)
  from arena_handles_unique [OF demo_arena_run this] have "arena_get demo_arena 0 0 = None" by auto
  then show ?thesis by (simp add: arena_get_def demo_arena_def get_def)
qed

lemma doomed_iff:
  "doomed P a i \<longleftrightarrow> gc_value a i \<noteq> None \<and> P (ar_entries a ! unat i) \<and> gc_color a i = White"
  by (auto simp: doomed_def live_at_def gc_value_def gc_color_def get_def)

lemma gc_value_live: "gc_value a i \<noteq> None \<longleftrightarrow> live_at a (unat i)"
  by (auto simp: live_at_def gc_value_def get_def)

lemma handles_gc_value: "arena_ok a \<Longrightarrow> handles a h \<noteq> None \<Longrightarrow> gc_value a (fst h) = handles a h"
  by (auto simp: handles_eq live_at_def gc_value_def get_def split: if_splits)

lemma retired_by_set:
  assumes "arena_ok a" "length (ar_entries a) < 2 ^ 32"
  shows "set (retired_by P a) = {h \<in> dom (handles a). doomed P a (fst h)}"
  by (auto simp: retired_by_iff [OF assms(2)] dom_handles [OF assms(1)] doomed_def)

lemma retired_by_distinct: "length (ar_entries a) < 2 ^ 32 \<Longrightarrow> distinct (retired_by P a)"
  by (simp add: retired_by_def distinct_map distinct_slots inj_on_def)

lemma length_filter_nth: "length (filter p xs) = length (filter (\<lambda>k. p (xs ! k)) [0..<length xs])"
proof -
  have "filter p xs = filter p (map ((!) xs) [0..<length xs])" by (simp only: map_nth)
  then show ?thesis by (simp add: filter_map comp_def)
qed

lemma retired_by_length:
  assumes "length (ar_entries a) < 2 ^ 32"
  shows "length (retired_by (\<lambda>_. True) a) = gc_pending_free_count a"
proof -
  have "filter (\<lambda>k. doomed (\<lambda>_. True) a (of_nat k)) [0..<length (ar_entries a)] =
      filter (\<lambda>k. dead_entry (ar_entries a ! k)) [0..<length (ar_entries a)]"
    using assms by (intro filter_cong refl) (auto simp: doomed_def live_at_def dead_entry_def unat_of_nat_u32)
  then show ?thesis
    using length_filter_nth [of dead_entry "ar_entries a"]
    by (simp add: retired_by_def slots_def gc_pending_free_count_def filter_map comp_def)
qed

text \<open>
  The major sweep is the restriction of the handle table to the marked objects. On a well-formed
  arena of fewer than \<open>2 ^ 32\<close> slots it keeps the invariant, the handles that resolve afterwards are
  exactly those of slots that were not white, with the same objects, the objects reported as freed are
  those of the other handles, as many as \<^verbatim>\<open>gc_pending_free_count\<close> announced, and every
  survivor is white and old.
\<close>

theorem gc_sweep_refines:
  assumes "arena_ok a" "length (ar_entries a) < 2 ^ 32" "gc_sweep_with a = (freed, a')"
  shows "arena_inv a' \<and>
    handles a' = handles a |` {h. gc_color a (fst h) \<noteq> White} \<and>
    mset freed = image_mset (\<lambda>h. the (handles a h)) (mset_set {h \<in> dom (handles a). gc_color a (fst h) = White}) \<and>
    length freed = gc_pending_free_count a \<and>
    (\<forall>i. gc_value a' i \<noteq> None \<longrightarrow> gc_color a' i = White \<and> gc_age a' i = Old)"
proof -
  have a': "a' = snd (gc_sweep_with a)" and freed: "freed = fst (gc_sweep_with a)" using assms(3) by auto
  note sw = gc_sweep_with_swept [OF assms(1,2), folded a']
  have all: "doomed (\<lambda>_. True) a j \<Longrightarrow> j \<in> set (slots a)" for j
    by (simp add: set_slots [OF assms(2)] doomed_def live_at_def)
  have doomed_live: "h \<in> dom (handles a) \<Longrightarrow> doomed (\<lambda>_. True) a (fst h) \<longleftrightarrow> gc_color a (fst h) = White" for h
    using handles_gc_value [OF assms(1), of h] by (auto simp: doomed_iff dom_def)
  have "handles a' = handles a |` {h. \<not> doomed (\<lambda>_. True) a (fst h)}"
    using swept_handles [OF assms(1) _ sw(2) all] sw(1) by simp
  also have "\<dots> = handles a |` {h. gc_color a (fst h) \<noteq> White}"
  proof
    fix h
    show "(handles a |` {h. \<not> doomed (\<lambda>_. True) a (fst h)}) h = (handles a |` {h. gc_color a (fst h) \<noteq> White}) h"
      using doomed_live [of h] by (cases "h \<in> dom (handles a)") (simp add: restrict_map_def, auto simp: restrict_map_def domIff)
  qed
  finally have 1: "handles a' = handles a |` {h. gc_color a (fst h) \<noteq> White}" .
  have "set (retired_by (\<lambda>_. True) a) = {h \<in> dom (handles a). gc_color a (fst h) = White}"
    using doomed_live by (auto simp: retired_by_set [OF assms(1,2)])
  then have "mset (retired_by (\<lambda>_. True) a) = mset_set {h \<in> dom (handles a). gc_color a (fst h) = White}"
    using mset_set_set [OF retired_by_distinct [OF assms(2)], of "\<lambda>_. True"] by simp
  then have 2: "mset freed = image_mset (\<lambda>h. the (handles a h)) (mset_set {h \<in> dom (handles a). gc_color a (fst h) = White})"
    "length freed = gc_pending_free_count a"
    using gc_sweep_with_freed [OF assms(1,2)] retired_by_length [OF assms(2)] by (auto simp: freed)
  have "gc_color a' i = White \<and> gc_age a' i = Old" if "gc_value a' i \<noteq> None" for i
    using sw(4) [OF that [unfolded gc_value_live]] that by (auto simp: gc_color_def gc_age_def get_def gc_value_def)
  with 1 2 sw(1) show ?thesis by blast
qed

theorem gc_sweep_refines_witness:
  "handles (snd (gc_sweep_with (gc_set_color 0 Black demo_arena))) = [(0, 1) \<mapsto> 8]"
proof -
  let ?a = "gc_set_color 0 Black demo_arena"
  have ok: "arena_ok ?a" using arena_run_books [OF demo_arena_run] by (intro gc_set_color_ok) (simp add: books_def)
  have len: "length (ar_entries ?a) < 2 ^ 32" by (simp add: gc_set_color_def demo_arena_def)
  have "handles ?a = [(0, 1) \<mapsto> 8]"
    by (auto simp: fun_eq_iff handles_def arena_get_def get_def gc_set_color_def update_entry_def demo_arena_def unat_eq_0)
  moreover have "gc_color ?a 0 = Black" by (simp add: gc_color_def get_def gc_set_color_def update_entry_def demo_arena_def)
  ultimately show ?thesis
    using gc_sweep_refines [OF ok len prod.collapse [symmetric]] by (auto simp: restrict_map_def fun_eq_iff)
qed

lemma pending_minor_doomed:
  "gc_pending_minor_free_count a = length (filter (doomed young_entry a) (ar_young a))"
  unfolding gc_pending_minor_free_count_def
  by (intro arg_cong [where f = length] filter_cong refl) (auto simp: get_def doomed_def live_at_def)

text \<open>
  The minor sweep restricts the handle table to what is not both young and white, although it
  visits only the young list: the list misses no live young slot and names none twice, so the objects
  reported as freed are as many as \<^verbatim>\<open>gc_pending_minor_free_count\<close> announced. Old slots keep
  colour and age, survivors that were young are white and old, and no live slot is young afterwards.
\<close>

theorem gc_sweep_minor_refines:
  assumes "arena_inv a" "gc_sweep_minor_with a = (freed, a')"
  shows "arena_inv a' \<and>
    handles a' = handles a |` {h. \<not> (gc_age a (fst h) = Young \<and> gc_color a (fst h) = White)} \<and>
    length freed = gc_pending_minor_free_count a \<and>
    (\<forall>i. gc_value a' i \<noteq> None \<longrightarrow> gc_age a' i \<noteq> Young \<and>
       (if gc_age a i = Young then gc_color a' i = White \<and> gc_age a' i = Old
        else gc_color a' i = gc_color a i \<and> gc_age a' i = gc_age a i))"
proof -
  have ok: "arena_ok a" and a': "a' = snd (gc_sweep_minor_with a)" using assms by auto
  note sw = gc_sweep_minor_swept [OF ok, folded a']
  have doomed_live: "h \<in> dom (handles a) \<Longrightarrow>
      doomed young_entry a (fst h) \<longleftrightarrow> gc_age a (fst h) = Young \<and> gc_color a (fst h) = White" for h
    by (auto simp: dom_handles [OF ok] doomed_def gc_age_def gc_color_def get_def live_at_def)
  have "handles a' = handles a |` {h. \<not> doomed young_entry a (fst h)}"
    using swept_handles [OF ok _ sw(2) doomed_young_listed [OF ok]] sw(1) by simp
  also have "\<dots> = handles a |` {h. \<not> (gc_age a (fst h) = Young \<and> gc_color a (fst h) = White)}"
  proof
    fix h
    show "(handles a |` {h. \<not> doomed young_entry a (fst h)}) h =
        (handles a |` {h. \<not> (gc_age a (fst h) = Young \<and> gc_color a (fst h) = White)}) h"
      using doomed_live [of h] by (cases "h \<in> dom (handles a)") (simp add: restrict_map_def, auto simp: restrict_map_def domIff)
  qed
  finally have 1: "handles a' = \<dots>" .
  have 2: "length freed = gc_pending_minor_free_count a"
    using gc_sweep_minor_freed [OF assms(1)] assms(2) by (simp add: pending_minor_doomed)
  have 3: "gc_age a' i \<noteq> Young \<and> (if gc_age a i = Young then gc_color a' i = White \<and> gc_age a' i = Old
        else gc_color a' i = gc_color a i \<and> gc_age a' i = gc_age a i)" if "gc_value a' i \<noteq> None" for i
  proof -
    have "unat i < length (ar_entries a')" "unat i < length (ar_entries a)"
      using that [unfolded gc_value_live] sw(2) by (auto simp: live_at_def swept_def)
    then show ?thesis using sw(4) [OF that [unfolded gc_value_live]]
      by (auto simp: gc_age_def gc_color_def get_def)
  qed
  from 1 2 3 sw(1) show ?thesis by blast
qed

theorem gc_sweep_minor_refines_witness:
  "handles (snd (gc_sweep_minor_with demo_arena)) = Map.empty"
proof -
  have inv: "arena_inv demo_arena" using arena_run_books [OF demo_arena_run] by (simp add: books_def)
  have "handles demo_arena = [(0, 1) \<mapsto> 8]"
    by (auto simp: fun_eq_iff handles_def arena_get_def get_def demo_arena_def unat_eq_0)
  moreover have "gc_color demo_arena 0 = White \<and> gc_age demo_arena 0 = Young"
    by (simp add: gc_color_def gc_age_def get_def demo_arena_def)
  ultimately show ?thesis
    using gc_sweep_minor_refines [OF inv prod.collapse [symmetric]] by (auto simp: restrict_map_def fun_eq_iff)
qed

text \<open>
  Compaction moves nothing and makes reuse lowest-first. Every handle resolves as before, the last
  slot that remains is live, and the next allocation takes the lowest free index (or the first index
  past the end when no slot is free), under the generation that index had reached.
\<close>

theorem gc_compact_lowest_first:
  assumes "arena_inv a" "arena_alloc r v (gc_compact a) = (Allocated i g, a')"
  shows "handles (gc_compact a) = handles a \<and>
    (ar_entries (gc_compact a) \<noteq> [] \<longrightarrow> en_value (last (ar_entries (gc_compact a))) \<noteq> None) \<and>
    \<not> live_at a (unat i) \<and> (\<forall>k < unat i. live_at a k) \<and> handles a' = (handles a)((i, g) \<mapsto> v)"
proof -
  let ?c = "gc_compact a"
  have inv: "arena_inv ?c" by (rule gc_compact_inv [OF assms(1)])
  have ok: "arena_ok a" "arena_ok ?c" using assms(1) inv by auto
  have last: "ar_entries ?c \<noteq> [] \<longrightarrow> en_value (last (ar_entries ?c)) \<noteq> None"
  proof (cases "live_length (ar_entries a)")
    case (Suc n)
    then show ?thesis using live_length_last [OF Suc] live_length_le [of "ar_entries a"]
      by (simp add: gc_compact_shape(1) last_conv_nth)
  qed (simp add: gc_compact_shape(1))
  have srt: "sorted (rev (ar_free ?c))" by (simp add: gc_compact_free [OF ok(1)])
  have "live_at ?c k" if k: "k < unat i" for k
    using ok(2)
  proof (cases rule: arena_alloc_cases [where r = r and v = v])
    case (reused j)
    have k32: "unat (of_nat k :: u32) = k" using k unat_bounds(3) [of i] by (intro unat_of_nat_u32) linarith
    have "of_nat k \<notin> set (ar_free ?c)"
    proof
      assume "of_nat k \<in> set (ar_free ?c)"
      moreover obtain us where us: "ar_free ?c = us @ [i]" using reused assms(2) by (metis append_butlast_last_id Pair_inject alloc_outcome.inject)
      ultimately have "i \<le> of_nat k" using srt by auto
      then show False using k k32 by (simp add: word_le_nat_alt)
    qed
    then show ?thesis using ok(2) k k32 reused assms(2) by (auto simp: live_at_def arena_ok_def free_listed_def)
  next
    case (grown j gs)
    then have k': "k < length (ar_entries ?c)" using k assms(2) by (auto simp: unat_of_nat_u32)
    then have "unat (of_nat k :: u32) = k" using grown(2) by (intro unat_of_nat_u32) simp
    then show ?thesis using ok(2) grown(1) k'
      by (auto simp: live_at_def arena_ok_def free_listed_def dest: spec [of _ "of_nat k :: u32"])
  qed (use assms in auto)
  then show ?thesis
    using arena_alloc_handles [OF ok(2) assms(2)] gc_compact_handles [OF assms(1)] last by simp
qed

theorem gc_compact_lowest_first_witness:
  "\<exists>g a'. arena_alloc demo_reservations 9 (gc_compact (snd (gc_sweep_with demo_arena))) = (Allocated 0 g, a') \<and>
     handles a' = (handles (snd (gc_sweep_with demo_arena)))((0, g) \<mapsto> 9)"
proof -
  let ?a = "snd (gc_sweep_with demo_arena)"
  have inv: "arena_inv ?a" using arena_run_books [OF demo_arena_run]
    by (intro gc_sweep_with_swept(1)) (auto simp: books_def demo_arena_def)
  obtain g a' where *: "arena_alloc demo_reservations 9 (gc_compact ?a) = (Allocated 0 g, a')"
    by (simp add: gc_sweep_with_def sweep_slot_def get_def arena_free_def Let_def fresh_entry_def demo_arena_def
        gc_compact_def arena_alloc_def demo_reservations_def)
  with gc_compact_lowest_first [OF inv *] show ?thesis by blast
qed

end
