(* ===== verification/Lua_Table_Spec.thy ===== *)
theory Lua_Table_Spec
  imports Lua_Table
begin

text \<open>
  What a Lua table promises: it is a finite map from normalised keys to values, whatever its split into
  array and hash part; its length is a border; and \<^verbatim>\<open>next\<close> walks its entries once each.
\<close>

section \<open>The invariant\<close>

definition array_bound :: nat where
  "array_bound = 2 ^ 53"

definition norm_at :: "hash_slot list \<Rightarrow> nat \<Rightarrow> lua_key option" where
  "norm_at hs idx = normalize_key (hs_key_value (hs ! idx))"

definition live_slot :: "hash_slot list \<Rightarrow> nat \<Rightarrow> bool" where
  "live_slot hs idx \<longleftrightarrow> idx < length hs \<and> hs_value (hs ! idx) \<noteq> None"

text \<open>The hash slots that the index names, and those that hold a value.\<close>

definition index_sound :: "hash_slot list \<Rightarrow> (lua_key \<rightharpoonup> nat) \<Rightarrow> bool" where
  "index_sound hs ix \<longleftrightarrow> (\<forall>k idx. ix k = Some idx \<longrightarrow> idx < length hs \<and> norm_at hs idx = Some k)"

definition index_complete :: "hash_slot list \<Rightarrow> (lua_key \<rightharpoonup> nat) \<Rightarrow> bool" where
  "index_complete hs ix \<longleftrightarrow> (\<forall>idx. live_slot hs idx \<longrightarrow> (\<exists>k. norm_at hs idx = Some k \<and> ix k = Some idx))"

text \<open>The integer keys of the array part and the one after it are not in the hash part.\<close>

definition array_claims :: "nat \<Rightarrow> lua_key \<Rightarrow> bool" where
  "array_claims n k \<longleftrightarrow> (case k of Key_Integer i \<Rightarrow> 1 \<le> sint i \<and> unat i \<le> n | _ \<Rightarrow> False)"

definition parts_disjoint :: "nat \<Rightarrow> hash_slot list \<Rightarrow> bool" where
  "parts_disjoint n hs \<longleftrightarrow> (\<forall>idx k. live_slot hs idx \<longrightarrow> norm_at hs idx = Some k \<longrightarrow> \<not> array_claims n k)"

definition no_nil_slots :: "hash_slot list \<Rightarrow> bool" where
  "no_nil_slots hs \<longleftrightarrow> (\<forall>s \<in> set hs. hs_value s \<noteq> Some LNil)"

text \<open>While successors are being absorbed, the key after the array may still be in the hash part.\<close>

definition table_wf :: "lua_table \<Rightarrow> bool" where
  "table_wf t \<longleftrightarrow> index_sound (lt_hash t) (lt_index t) \<and> index_complete (lt_hash t) (lt_index t) \<and>
     no_nil_slots (lt_hash t) \<and> parts_disjoint (length (lt_array t)) (lt_hash t)"

definition table_ok :: "lua_table \<Rightarrow> bool" where
  "table_ok t \<longleftrightarrow> table_wf t \<and> parts_disjoint (length (lt_array t) + 1) (lt_hash t)"

definition table_size :: "lua_table \<Rightarrow> nat" where
  "table_size t = length (lt_array t) + live_slots t"

section \<open>The map a table is\<close>

definition hash_lookup :: "lua_table \<Rightarrow> lua_key \<Rightarrow> raw_value" where
  "hash_lookup t k =
     (case lt_index t k of
        Some idx \<Rightarrow> (case hs_value (lt_hash t ! idx) of Some v \<Rightarrow> v | None \<Rightarrow> LNil)
      | None \<Rightarrow> LNil)"

definition lookup :: "lua_table \<Rightarrow> lua_key \<Rightarrow> raw_value" where
  "lookup t k = (case integer_slot t k of Some slot \<Rightarrow> lt_array t ! slot | None \<Rightarrow> hash_lookup t k)"

lemma table_new_ok [simp]: "table_ok table_new"
  by (simp add: table_ok_def table_wf_def table_new_def index_sound_def index_complete_def no_nil_slots_def
      parts_disjoint_def live_slot_def)

lemma with_array_ok [simp]: "table_ok (with_array vs)"
  by (simp add: table_ok_def table_wf_def with_array_def table_new_def index_sound_def index_complete_def
      no_nil_slots_def parts_disjoint_def live_slot_def)

lemma table_clear_ok: "table_ok (table_clear t)"
  by (simp add: table_ok_def table_wf_def table_clear_def index_sound_def index_complete_def no_nil_slots_def
      parts_disjoint_def live_slot_def)

lemma array_slot_bound: "array_slot t i = Some s \<Longrightarrow> s < length (lt_array t)"
proof -
  assume a: "array_slot t i = Some s"
  then have "1 \<le> sint i" "unat i \<le> length (lt_array t)" "s = unat (i - 1)"
    by (auto simp: array_slot_def split: if_splits)
  moreover from this(1) have "i \<noteq> 0" by auto
  then have "unat (i - 1) = unat i - 1" "0 < unat i" by (auto simp: unat_minus_one unat_gt_0)
  ultimately show ?thesis by linarith
qed

lemma integer_slot_bound: "integer_slot t k = Some s \<Longrightarrow> s < length (lt_array t)"
  by (auto simp: integer_slot_def split: lua_key.splits intro: array_slot_bound)

lemma integer_slot_claims: "integer_slot t k \<noteq> None \<longleftrightarrow> array_claims (length (lt_array t)) k"
  by (auto simp: integer_slot_def array_claims_def array_slot_def split: lua_key.splits)

lemma integer_slot_inj:
  assumes "integer_slot t k = Some s" "integer_slot t k' = Some s"
  shows "k = k'"
proof -
  have "i = j" if "1 \<le> sint i" "1 \<le> sint j" "unat (i - 1) = unat (j - 1)" for i j :: i64
    using that by (simp add: word_unat_eq_iff [symmetric])
  then show ?thesis using assms
    by (auto simp: integer_slot_def array_slot_def split: lua_key.splits if_splits)
qed

text \<open>The key of an array slot.\<close>

lemma sint_of_nat_i64: "n < 2 ^ 63 \<Longrightarrow> sint (of_nat n :: i64) = int n"
  by (simp add: signed_of_nat signed_take_bit_int_eq_self_iff)

lemma integer_slot_of_nat:
  assumes "s < length (lt_array t)" "s < 2 ^ 53"
  shows "integer_slot t (Key_Integer (of_nat (Suc s))) = Some s"
proof -
  have u: "unat (of_nat (Suc s) :: i64) = Suc s" using assms(2) by (intro unat_of_nat_eq) simp
  have "sint (of_nat (Suc s) :: i64) = int (Suc s)"
    using assms(2) by (intro sint_of_nat_i64) simp
  moreover have "unat (of_nat (Suc s) - 1 :: i64) = s"
    using assms(2) unat_of_nat_eq [where ?'a = 64, of s] by simp
  ultimately show ?thesis using assms(1) u by (simp add: integer_slot_def array_slot_def)
qed

section \<open>Reading\<close>

lemma table_get_lookup:
  assumes "table_wf t"
  shows "table_get t key = Some (case normalize_key key of None \<Rightarrow> LNil | Some k \<Rightarrow> lookup t k)"
proof (cases "normalize_key key")
  case (Some k)
  have "lt_index t k = Some idx \<Longrightarrow> idx < length (lt_hash t)" for idx
    using assms by (auto simp: table_wf_def index_sound_def)
  then show ?thesis using Some
    by (auto simp: table_get_def lookup_def hash_lookup_def get_def integer_slot_bound split: option.splits)
qed (simp add: table_get_def)

section \<open>Absorbing successors\<close>

lemma array_claims_Suc:
  assumes "Suc n < 2 ^ 63"
  shows "array_claims (Suc n) k \<longleftrightarrow> array_claims n k \<or> k = Key_Integer (of_nat (Suc n))"
proof -
  have u: "unat (of_nat (Suc n) :: i64) = Suc n" using assms by (intro unat_of_nat_eq) simp
  have s: "sint (of_nat (Suc n) :: i64) = int (Suc n)" using assms by (rule sint_of_nat_i64)
  show ?thesis
  proof (cases k)
    case (Key_Integer i)
    have "unat i \<le> Suc n \<longleftrightarrow> unat i \<le> n \<or> i = of_nat (Suc n)"
      by (metis u le_Suc_eq order_refl word_unat_eq_iff)
    then show ?thesis using s by (auto simp: array_claims_def Key_Integer simp del: of_nat_Suc)
  qed (auto simp: array_claims_def)
qed

lemma next_array_key_eq: "next_array_key t = Key_Integer (of_nat (Suc (length (lt_array t))))"
  by (simp add: next_array_key_def add.commute)

lemma parts_disjoint_less: "parts_disjoint (Suc n) hs \<Longrightarrow> parts_disjoint n hs"
  unfolding parts_disjoint_def array_claims_def by (fastforce split: lua_key.splits)

lemma live_slots_pos: "live_slot (lt_hash t) idx \<Longrightarrow> 0 < live_slots t"
  unfolding live_slots_def live_slot_def length_greater_0_conv filter_empty_conv by (auto intro: nth_mem)

lemma live_slot_index:
  assumes "table_wf t" "live_slot (lt_hash t) j" "norm_at (lt_hash t) j = Some k"
  shows "lt_index t k = Some j"
  using assms by (auto simp: table_wf_def index_complete_def)

lemma absorb_slot_simps [simp]:
  "lt_array (absorb_slot idx v t) = lt_array t @ [v]"
  "lt_hash (absorb_slot idx v t) = (lt_hash t)[idx := (lt_hash t ! idx)\<lparr>hs_value := None\<rparr>]"
  "lt_index (absorb_slot idx v t) = (lt_index t)(next_array_key t := None)"
  by (simp_all add: absorb_slot_def)

lemma live_slot_cleared:
  "live_slot (hs[idx := (hs ! idx)\<lparr>hs_value := None\<rparr>]) j \<longleftrightarrow> live_slot hs j \<and> j \<noteq> idx"
  by (cases "idx < length hs") (auto simp: live_slot_def nth_list_update list_update_beyond)

lemma norm_at_update [simp]: "norm_at (hs[idx := (hs ! idx)\<lparr>hs_value := v\<rparr>]) j = norm_at hs j"
  by (cases "idx < length hs") (auto simp: norm_at_def nth_list_update list_update_beyond)

lemma no_nil_slots_update:
  assumes "no_nil_slots hs" "v \<noteq> Some LNil"
  shows "no_nil_slots (hs[idx := s\<lparr>hs_value := v\<rparr>])"
  using assms set_update_subset_insert [of hs idx "s\<lparr>hs_value := v\<rparr>"] by (auto simp: no_nil_slots_def)

lemma absorb_slot_wf:
  assumes wf: "table_wf t" and size: "table_size t < array_bound"
    and ix: "lt_index t (next_array_key t) = Some idx" and v: "hs_value (lt_hash t ! idx) = Some v"
  shows "table_wf (absorb_slot idx v t)"
proof -
  have idx: "idx < length (lt_hash t)" using wf ix by (auto simp: table_wf_def index_sound_def)
  have len: "Suc (length (lt_array t)) < 2 ^ 63" using size by (simp add: table_size_def array_bound_def)
  have "index_complete (lt_hash (absorb_slot idx v t)) (lt_index (absorb_slot idx v t))"
    unfolding index_complete_def absorb_slot_simps live_slot_cleared norm_at_update
  proof (intro allI impI, elim conjE)
    fix j assume j: "live_slot (lt_hash t) j" "j \<noteq> idx"
    then obtain k where "norm_at (lt_hash t) j = Some k" "lt_index t k = Some j"
      using wf by (auto simp: table_wf_def index_complete_def)
    then show "\<exists>k. norm_at (lt_hash t) j = Some k \<and> ((lt_index t)(next_array_key t := None)) k = Some j"
      using ix j(2) by auto
  qed
  moreover have "index_sound (lt_hash (absorb_slot idx v t)) (lt_index (absorb_slot idx v t))"
    using wf by (auto simp: table_wf_def index_sound_def)
  moreover have "no_nil_slots (lt_hash (absorb_slot idx v t))"
    using wf by (simp add: table_wf_def no_nil_slots_update)
  moreover have "parts_disjoint (length (lt_array (absorb_slot idx v t))) (lt_hash (absorb_slot idx v t))"
    using wf live_slot_index [OF wf] ix
    by (auto simp: parts_disjoint_def live_slot_cleared array_claims_Suc [OF len] table_wf_def next_array_key_eq)
  ultimately show ?thesis by (simp add: table_wf_def)
qed

lemma lookup_claimed: "array_claims (length (lt_array t)) k \<Longrightarrow> lookup t k = lt_array t ! the (integer_slot t k)"
  using integer_slot_claims [of t k] by (auto simp: lookup_def)

lemma lookup_unclaimed: "\<not> array_claims (length (lt_array t)) k \<Longrightarrow> lookup t k = hash_lookup t k"
  using integer_slot_claims [of t k] by (auto simp: lookup_def)

lemma integer_slot_append:
  assumes "array_claims (length (lt_array t)) k" "lt_array t' = lt_array t @ vs"
  shows "integer_slot t' k = integer_slot t k"
  using assms by (auto simp: integer_slot_def array_slot_def array_claims_def split: lua_key.splits)

text \<open>Growing the array part by one value changes the map at the key after it only.\<close>

lemma lookup_append:
  assumes "lt_array t' = lt_array t @ [v]" "Suc (length (lt_array t)) < 2 ^ 53"
    and "\<And>k. \<not> array_claims (Suc (length (lt_array t))) k \<Longrightarrow> hash_lookup t' k = hash_lookup t k"
  shows "lookup t' = (lookup t)(next_array_key t := v)"
proof
  fix k
  let ?n = "length (lt_array t)"
  have c: "array_claims (Suc ?n) k \<longleftrightarrow> array_claims ?n k \<or> k = next_array_key t"
    using array_claims_Suc [of ?n k] assms(2) by (simp add: next_array_key_eq)
  have len': "length (lt_array t') = Suc ?n" using assms(1) by simp
  show "lookup t' k = ((lookup t)(next_array_key t := v)) k"
  proof (cases "array_claims (Suc ?n) k")
    case False
    then show ?thesis using assms(3) [OF False] c len' by (simp add: lookup_unclaimed)
  next
    case True
    show ?thesis
    proof (cases "k = next_array_key t")
      case True
      have "integer_slot t' k = Some ?n"
        unfolding True next_array_key_eq using assms(1,2) by (intro integer_slot_of_nat) auto
      then show ?thesis using True assms(1) by (simp add: lookup_def)
    next
      case False
      with True c have cl: "array_claims ?n k" by simp
      then have "integer_slot t' k = integer_slot t k" by (rule integer_slot_append [OF _ assms(1)])
      moreover obtain s where "integer_slot t k = Some s" using cl integer_slot_claims [of t k] by auto
      ultimately show ?thesis using False assms(1) integer_slot_bound [of t k s]
        by (simp add: lookup_def nth_append)
    qed
  qed
qed

lemma absorb_slot_lookup:
  assumes wf: "table_wf t" and size: "table_size t < array_bound"
    and ix: "lt_index t (next_array_key t) = Some idx" and v: "hs_value (lt_hash t ! idx) = Some v"
  shows "lookup (absorb_slot idx v t) = lookup t"
proof -
  have idx: "idx < length (lt_hash t)" and n: "norm_at (lt_hash t) idx = Some (next_array_key t)"
    using wf ix by (auto simp: table_wf_def index_sound_def)
  have live: "live_slot (lt_hash t) idx" using idx v by (simp add: live_slot_def)
  then have "0 < live_slots t" by (rule live_slots_pos)
  then have len: "Suc (length (lt_array t)) < 2 ^ 53" using size by (simp add: table_size_def array_bound_def)
  have nk: "\<not> array_claims (length (lt_array t)) (next_array_key t)"
    using wf live n by (auto simp: table_wf_def parts_disjoint_def)
  have "lookup (absorb_slot idx v t) = (lookup t)(next_array_key t := v)"
  proof (rule lookup_append [OF absorb_slot_simps(1) len])
    fix k assume k: "\<not> array_claims (Suc (length (lt_array t))) k"
    then have "k \<noteq> next_array_key t" using len by (auto simp: array_claims_Suc next_array_key_eq)
    moreover then have "lt_index t k \<noteq> Some idx" using wf n by (auto simp: table_wf_def index_sound_def)
    ultimately show "hash_lookup (absorb_slot idx v t) k = hash_lookup t k"
      by (auto simp: hash_lookup_def split: option.splits)
  qed
  moreover have "lookup t (next_array_key t) = v"
    using lookup_unclaimed [OF nk] ix v by (simp add: hash_lookup_def)
  ultimately show ?thesis by auto
qed

definition same_frame :: "lua_table \<Rightarrow> lua_table \<Rightarrow> bool" where
  "same_frame t t' \<longleftrightarrow> lt_metatable t' = lt_metatable t \<and> lt_readonly t' = lt_readonly t \<and> lt_safeenv t' = lt_safeenv t"

lemma absorb_from_hash_ok:
  assumes "table_wf t" "table_size t < array_bound"
  shows "\<exists>t'. absorb_from_hash t = Some t' \<and> table_ok t' \<and> lookup t' = lookup t \<and> table_size t' \<le> table_size t \<and> same_frame t t'"
  using assms
proof (induction t rule: absorb_from_hash.induct)
  case (1 t)
  note wf = 1(2)
  have len: "Suc (length (lt_array t)) < 2 ^ 63" using 1(3) by (simp add: table_size_def array_bound_def)
  have settled: "table_ok t" if none: "\<And>idx. lt_index t (next_array_key t) = Some idx \<Longrightarrow> \<not> live_slot (lt_hash t) idx"
  proof -
    have "\<not> array_claims (Suc (length (lt_array t))) k" if j: "live_slot (lt_hash t) j" "norm_at (lt_hash t) j = Some k" for j k
    proof -
      have "\<not> array_claims (length (lt_array t)) k" using wf j by (auto simp: table_wf_def parts_disjoint_def)
      moreover have "k \<noteq> next_array_key t" using none [of j] j live_slot_index [OF wf j] by auto
      ultimately show ?thesis by (simp only: array_claims_Suc [OF len] next_array_key_eq simp_thms)
    qed
    then show ?thesis using wf by (simp add: table_ok_def parts_disjoint_def)
  qed
  show ?case
  proof (cases "lt_index t (next_array_key t)")
    case None
    then show ?thesis using settled by (subst absorb_from_hash.simps) (simp add: same_frame_def)
  next
    case (Some idx)
    then have idx: "idx < length (lt_hash t)" using wf by (auto simp: table_wf_def index_sound_def)
    show ?thesis
    proof (cases "hs_value (lt_hash t ! idx)")
      case None
      then show ?thesis using Some idx settled by (subst absorb_from_hash.simps) (simp add: live_slot_def same_frame_def)
    next
      case v: (Some v)
      have "live_slots (absorb_slot idx v t) < live_slots t" using idx v by (rule absorb_slot_live_slots)
      then have size: "table_size (absorb_slot idx v t) \<le> table_size t" by (simp add: table_size_def)
      have "same_frame t (absorb_slot idx v t)" by (simp add: same_frame_def absorb_slot_def)
      moreover obtain t' where "absorb_from_hash (absorb_slot idx v t) = Some t'" "table_ok t'"
        "lookup t' = lookup (absorb_slot idx v t)" "table_size t' \<le> table_size (absorb_slot idx v t)"
        "same_frame (absorb_slot idx v t) t'"
        using 1(1) [OF Some idx v absorb_slot_wf [OF wf 1(3) Some v]] size 1(3) by auto
      ultimately show ?thesis using Some idx v size absorb_slot_lookup [OF wf 1(3) Some v]
        by (subst absorb_from_hash.simps) (auto simp: same_frame_def)
    qed
  qed
qed

section \<open>Writing\<close>

lemma table_ok_wf [simp]: "table_ok t \<Longrightarrow> table_wf t"
  by (simp add: table_ok_def)

lemma hash_lookup_cong: "lt_hash t' = lt_hash t \<Longrightarrow> lt_index t' k = lt_index t k \<Longrightarrow> hash_lookup t' k = hash_lookup t k"
  by (simp add: hash_lookup_def split: option.split)

lemma integer_slot_cong: "length (lt_array t') = length (lt_array t) \<Longrightarrow> integer_slot t' k = integer_slot t k"
  by (simp add: integer_slot_def array_slot_def split: lua_key.splits)

lemma lookup_array_update:
  assumes "integer_slot t k = Some s"
  shows "lookup (t\<lparr>lt_array := (lt_array t)[s := v]\<rparr>) = (lookup t)(k := v)"
proof
  fix k'
  have i: "integer_slot (t\<lparr>lt_array := (lt_array t)[s := v]\<rparr>) k' = integer_slot t k'"
    by (rule integer_slot_cong) simp
  have h: "hash_lookup (t\<lparr>lt_array := (lt_array t)[s := v]\<rparr>) k' = hash_lookup t k'" by (rule hash_lookup_cong) simp_all
  show "lookup (t\<lparr>lt_array := (lt_array t)[s := v]\<rparr>) k' = ((lookup t)(k := v)) k'"
  proof (cases "k' = k")
    case True
    then show ?thesis using assms integer_slot_bound [OF assms] i by (simp add: lookup_def)
  next
    case False
    then have "integer_slot t k' \<noteq> Some s" using integer_slot_inj [OF assms, of k'] by auto
    then show ?thesis using False i h by (cases "integer_slot t k'") (simp_all add: lookup_def)
  qed
qed

lemma array_update_ok: "table_ok t \<Longrightarrow> table_ok (t\<lparr>lt_array := (lt_array t)[s := v]\<rparr>)"
  by (simp add: table_ok_def table_wf_def)

lemma live_value_not_nil [simp]: "live_value v \<noteq> Some LNil"
  by (simp add: live_value_def)

lemma live_slot_set:
  "idx < length hs \<Longrightarrow> live_slot (hs[idx := (hs ! idx)\<lparr>hs_value := live_value v\<rparr>]) j \<longleftrightarrow>
     (if j = idx then v \<noteq> LNil else live_slot hs j)"
  by (auto simp: live_slot_def nth_list_update live_value_def)

lemma hash_set_known:
  assumes ok: "table_ok t" and k: "normalize_key key = Some k" "\<not> array_claims (length (lt_array t)) k"
    and room: "array_claims (length (lt_array t) + 1) k \<Longrightarrow> v = LNil" and ix: "lt_index t k = Some idx"
  shows "\<exists>t'. hash_set k key v t = Some t' \<and> table_ok t' \<and> lookup t' = (lookup t)(k := v) \<and> same_frame t t'"
proof -
  let ?hs = "(lt_hash t)[idx := (lt_hash t ! idx)\<lparr>hs_value := live_value v\<rparr>]"
  let ?t = "t\<lparr>lt_hash := ?hs\<rparr>"
  have unclaimed: "integer_slot t k = None" using k(2) integer_slot_claims [of t k] by auto
  have idx: "idx < length (lt_hash t)" and n: "norm_at (lt_hash t) idx = Some k"
    using ok ix by (auto simp: table_ok_def table_wf_def index_sound_def)
  have ic: "index_complete (lt_hash t) (lt_index t)" using ok by (simp add: table_ok_def table_wf_def)
  have "index_complete ?hs (lt_index t)"
    unfolding index_complete_def norm_at_update live_slot_set [OF idx]
  proof (intro allI impI)
    fix j assume "if j = idx then v \<noteq> LNil else live_slot (lt_hash t) j"
    then show "\<exists>k. norm_at (lt_hash t) j = Some k \<and> lt_index t k = Some j"
      using ic n ix by (cases "j = idx") (auto simp: index_complete_def)
  qed
  moreover have "index_sound ?hs (lt_index t)" using ok by (simp add: table_ok_def table_wf_def index_sound_def)
  moreover have "no_nil_slots ?hs" using ok by (simp add: table_ok_def table_wf_def no_nil_slots_update)
  moreover have pd: "parts_disjoint (length (lt_array t) + 1) ?hs"
    unfolding parts_disjoint_def norm_at_update live_slot_set [OF idx]
  proof (intro allI impI)
    fix j k' assume j: "if j = idx then v \<noteq> LNil else live_slot (lt_hash t) j" "norm_at (lt_hash t) j = Some k'"
    show "\<not> array_claims (length (lt_array t) + 1) k'"
    proof (cases "j = idx")
      case True
      then show ?thesis using j n room by auto
    next
      case False
      then show ?thesis using j ok unfolding table_ok_def parts_disjoint_def by auto
    qed
  qed
  moreover have "parts_disjoint (length (lt_array t)) ?hs" using pd by (simp add: parts_disjoint_less)
  ultimately have "table_ok ?t" by (simp add: table_ok_def table_wf_def)
  moreover have "lookup ?t = (lookup t)(k := v)"
  proof
    fix k'
    have i: "integer_slot ?t k' = integer_slot t k'" by (rule integer_slot_cong) simp
    have other: "k' \<noteq> k \<Longrightarrow> lt_index t k' \<noteq> Some idx" using ok n by (auto simp: table_ok_def table_wf_def index_sound_def)
    have "hash_lookup ?t k' = (if k' = k then v else hash_lookup t k')"
    proof (cases "k' = k")
      case True
      then show ?thesis using ix idx by (simp add: hash_lookup_def live_value_def)
    next
      case False
      then show ?thesis using other by (cases "lt_index t k'") (simp_all add: hash_lookup_def)
    qed
    then show "lookup ?t k' = ((lookup t)(k := v)) k'"
      using unclaimed i by (cases "k' = k"; cases "integer_slot t k'") (simp_all add: lookup_def)
  qed
  ultimately show ?thesis using ix idx by (simp add: hash_set_def same_frame_def)
qed

lemma hash_lookup_absent: "lt_index t k = None \<Longrightarrow> hash_lookup t k = LNil"
  by (simp add: hash_lookup_def)

lemma hash_set_fresh:
  assumes ok: "table_ok t" and k: "normalize_key key = Some k" "\<not> array_claims (length (lt_array t)) k"
    and room: "array_claims (length (lt_array t) + 1) k \<Longrightarrow> v = LNil" and ix: "lt_index t k = None" and v: "v \<noteq> LNil"
  shows "\<exists>t'. hash_set k key v t = Some t' \<and> table_ok t' \<and> lookup t' = (lookup t)(k := v) \<and> same_frame t t'"
proof -
  let ?s = "\<lparr>hs_key_value = key, hs_value = Some v\<rparr>" and ?n = "length (lt_hash t)"
  let ?t = "t\<lparr>lt_hash := lt_hash t @ [?s], lt_index := (lt_index t)(k \<mapsto> ?n)\<rparr>"
  have unclaimed: "integer_slot t k = None" using k(2) integer_slot_claims [of t k] by auto
  have live: "live_slot (lt_hash t @ [?s]) j \<longleftrightarrow> live_slot (lt_hash t) j \<or> j = ?n" for j
    by (auto simp: live_slot_def nth_append less_Suc_eq)
  have norm: "norm_at (lt_hash t @ [?s]) j = (if j < ?n then norm_at (lt_hash t) j else Some k)" if "j \<le> ?n" for j
    using that k(1) by (auto simp: norm_at_def nth_append)
  have bound: "live_slot (lt_hash t) j \<Longrightarrow> j < ?n" for j by (simp add: live_slot_def)
  have "index_complete (lt_hash ?t) (lt_index ?t)"
    unfolding index_complete_def
  proof (intro allI impI)
    fix j assume "live_slot (lt_hash ?t) j"
    then have "live_slot (lt_hash t) j \<or> j = ?n" using live by simp
    then show "\<exists>k. norm_at (lt_hash ?t) j = Some k \<and> lt_index ?t k = Some j"
    proof
      assume j: "live_slot (lt_hash t) j"
      then obtain k' where "norm_at (lt_hash t) j = Some k'" "lt_index t k' = Some j"
        using ok by (auto simp: table_ok_def table_wf_def index_complete_def)
      then show ?thesis using ix norm [of j] bound [OF j] by auto
    next
      assume "j = ?n"
      then show ?thesis using norm [of j] by simp
    qed
  qed
  moreover have "index_sound (lt_hash ?t) (lt_index ?t)"
    unfolding index_sound_def
  proof (intro allI impI)
    fix k' idx assume a: "lt_index ?t k' = Some idx"
    show "idx < length (lt_hash ?t) \<and> norm_at (lt_hash ?t) idx = Some k'"
    proof (cases "k' = k")
      case True
      then show ?thesis using a norm [of idx] by simp
    next
      case False
      then have "idx < ?n \<and> norm_at (lt_hash t) idx = Some k'"
        using a ok by (auto simp: table_ok_def table_wf_def index_sound_def)
      then show ?thesis using norm [of idx] by simp
    qed
  qed
  moreover have "no_nil_slots (lt_hash ?t)" using ok v by (simp add: table_ok_def table_wf_def no_nil_slots_def)
  moreover have pd: "parts_disjoint (length (lt_array t) + 1) (lt_hash ?t)"
    unfolding parts_disjoint_def
  proof (intro allI impI)
    fix j k' assume j: "live_slot (lt_hash ?t) j" "norm_at (lt_hash ?t) j = Some k'"
    show "\<not> array_claims (length (lt_array t) + 1) k'"
    proof (cases "live_slot (lt_hash t) j")
      case True
      then show ?thesis using ok j(2) norm [of j] bound [OF True] by (auto simp: table_ok_def parts_disjoint_def)
    next
      case False
      then have "k' = k" using j live [of j] norm [of j] by simp
      then show ?thesis using room v by auto
    qed
  qed
  moreover have "parts_disjoint (length (lt_array t)) (lt_hash ?t)" using pd by (simp add: parts_disjoint_less)
  ultimately have "table_ok ?t" by (simp add: table_ok_def table_wf_def)
  moreover have "lookup ?t = (lookup t)(k := v)"
  proof
    fix k'
    have i: "integer_slot ?t k' = integer_slot t k'" by (rule integer_slot_cong) simp
    have "hash_lookup ?t k' = (if k' = k then v else hash_lookup t k')"
    proof (cases "k' = k")
      case False
      have "lt_index t k' = Some idx \<Longrightarrow> idx < ?n" for idx
        using ok by (auto simp: table_ok_def table_wf_def index_sound_def)
      with False show ?thesis by (cases "lt_index t k'") (simp_all add: hash_lookup_def nth_append)
    qed (simp add: hash_lookup_def nth_append)
    then show "lookup ?t k' = ((lookup t)(k := v)) k'"
      using unclaimed i by (cases "k' = k"; cases "integer_slot t k'") (simp_all add: lookup_def)
  qed
  ultimately show ?thesis using ix v by (simp add: hash_set_def same_frame_def)
qed

lemma appends_iff:
  assumes "Suc (length (lt_array t)) < 2 ^ 63"
  shows "appends k t \<longleftrightarrow> k = next_array_key t"
proof (cases k)
  case (Key_Integer i)
  have u: "unat (of_nat (Suc (length (lt_array t))) :: i64) = Suc (length (lt_array t))"
    using assms by (intro unat_of_nat_eq) simp
  have s: "sint (of_nat (Suc (length (lt_array t))) :: i64) = int (Suc (length (lt_array t)))"
    by (rule sint_of_nat_i64 [OF assms])
  have "unat i = Suc (length (lt_array t)) \<longleftrightarrow> i = of_nat (Suc (length (lt_array t)))"
    by (metis u word_unat_eq_iff)
  then show ?thesis using s by (auto simp: appends_def Key_Integer next_array_key_eq simp del: of_nat_Suc)
qed (simp_all add: appends_def next_array_key_eq)

lemma append_wf:
  assumes "table_ok t"
  shows "table_wf (t\<lparr>lt_array := lt_array t @ [v]\<rparr>)"
  using assms by (simp add: table_ok_def table_wf_def)

lemma set_append:
  assumes ok: "table_ok t" and size: "table_size t + 1 < array_bound"
  shows "\<exists>t'. absorb_from_hash (t\<lparr>lt_array := lt_array t @ [v]\<rparr>) = Some t' \<and> table_ok t' \<and>
     lookup t' = (lookup t)(next_array_key t := v) \<and> same_frame t t'"
proof -
  let ?t = "t\<lparr>lt_array := lt_array t @ [v]\<rparr>"
  have "table_size ?t = table_size t + 1" by (simp add: table_size_def live_slots_def)
  then have s: "table_size ?t < array_bound" using size by simp
  have "lookup ?t = (lookup t)(next_array_key t := v)"
    using size by (intro lookup_append) (auto simp: table_size_def array_bound_def intro!: hash_lookup_cong)
  then show ?thesis using absorb_from_hash_ok [OF append_wf [OF ok] s] by (auto simp: same_frame_def)
qed

lemma table_set_ok:
  assumes ok: "table_ok t" and size: "table_size t + 1 < array_bound"
  shows "\<exists>t'. table_set key v t = Some (normalize_key key \<noteq> None, t') \<and> table_ok t' \<and> same_frame t t' \<and>
    lookup t' = (case normalize_key key of None \<Rightarrow> lookup t | Some k \<Rightarrow> (lookup t)(k := v))"
proof (cases "normalize_key key")
  case None
  then show ?thesis using ok by (simp add: table_set_def set_inner_def same_frame_def)
next
  case k: (Some k)
  have len: "Suc (length (lt_array t)) < 2 ^ 63" using size by (simp add: table_size_def array_bound_def)
  show ?thesis
  proof (cases "integer_slot t k")
    case (Some s)
    then show ?thesis using k ok integer_slot_bound [OF Some] lookup_array_update [OF Some, of v] array_update_ok [OF ok, of s v]
      by (simp add: table_set_def set_inner_def same_frame_def)
  next
    case None
    then have un: "\<not> array_claims (length (lt_array t)) k" using integer_slot_claims [of t k] by auto
    show ?thesis
    proof (cases "appends k t \<and> v \<noteq> LNil")
      case True
      then have "k = next_array_key t" using appends_iff [OF len] by simp
      then show ?thesis using True None k set_append [OF ok size, of v]
        by (auto simp: table_set_def set_inner_def)
    next
      case False
      have room: "v = LNil" if "array_claims (length (lt_array t) + 1) k"
        using that un False array_claims_Suc [OF len, of k] appends_iff [OF len, of k] by (auto simp: next_array_key_eq)
      have "\<exists>t'. hash_set k key v t = Some t' \<and> table_ok t' \<and> lookup t' = (lookup t)(k := v) \<and> same_frame t t'"
      proof (cases "lt_index t k")
        case ix: None
        show ?thesis
        proof (cases "v = LNil")
          case True
          moreover have "lookup t k = LNil" using None ix by (simp add: lookup_def hash_lookup_def)
          ultimately show ?thesis using ok ix by (auto simp: hash_set_def same_frame_def)
        qed (use hash_set_fresh [OF ok k un room ix] in auto)
      qed (use hash_set_known [OF ok k un room] in auto)
      then show ?thesis using False None k by (auto simp: table_set_def set_inner_def)
    qed
  qed
qed

section \<open>The border\<close>

lemma array_border_le: "array_border xs n \<le> n"
  by (induction n) auto

lemma array_border_border:
  "array_border xs n = 0 \<or> xs ! (array_border xs n - 1) \<noteq> LNil"
  "array_border xs n < n \<Longrightarrow> xs ! array_border xs n = LNil"
proof -
  show "array_border xs n = 0 \<or> xs ! (array_border xs n - 1) \<noteq> LNil" by (induction n) auto
  show "array_border xs n < n \<Longrightarrow> xs ! array_border xs n = LNil"
    by (induction n) (auto simp: less_Suc_eq le_less dest: order_antisym [OF array_border_le])
qed

lemma lookup_array:
  assumes "s < length (lt_array t)" "s < 2 ^ 53"
  shows "lookup t (Key_Integer (of_nat (Suc s))) = lt_array t ! s"
  using integer_slot_of_nat [OF assms] by (simp add: lookup_def del: of_nat_Suc)

lemma next_array_key_dead:
  assumes ok: "table_ok t" and len: "length (lt_array t) < 2 ^ 53" and ix: "lt_index t (next_array_key t) = Some idx"
  shows "idx < length (lt_hash t)" "hs_value (lt_hash t ! idx) = None"
proof -
  have c: "array_claims (length (lt_array t) + 1) (next_array_key t)"
    using array_claims_Suc [of "length (lt_array t)" "next_array_key t"] len by (simp add: next_array_key_eq)
  show i: "idx < length (lt_hash t)" using ok ix by (auto simp: table_ok_def table_wf_def index_sound_def)
  have "\<not> live_slot (lt_hash t) idx"
    using ok ix c by (auto simp: table_ok_def parts_disjoint_def table_wf_def index_sound_def)
  then show "hs_value (lt_hash t ! idx) = None" using i by (simp add: live_slot_def)
qed

lemma lookup_next_array_key:
  assumes ok: "table_ok t" and len: "length (lt_array t) < 2 ^ 53"
  shows "lookup t (next_array_key t) = LNil"
proof -
  have "unat (of_nat (Suc (length (lt_array t))) :: i64) = Suc (length (lt_array t))"
    using len by (intro unat_of_nat_eq) simp
  then have "\<not> array_claims (length (lt_array t)) (next_array_key t)"
    by (simp add: array_claims_def next_array_key_eq del: of_nat_Suc)
  then show ?thesis
    using next_array_key_dead [OF assms] by (auto simp: lookup_unclaimed hash_lookup_def split: option.splits)
qed

text \<open>The searches of \<^verbatim>\<open>hash_border\<close> end at once: the key after the array part is never present.\<close>

lemma hash_border_array:
  assumes ok: "table_ok t" and len: "length (lt_array t) < 2 ^ 53"
  shows "hash_border t (of_nat (length (lt_array t))) = Some (of_nat (length (lt_array t)))"
proof -
  let ?n = "length (lt_array t)"
  have u: "unat (of_nat (Suc ?n) :: u64) = Suc ?n" using len by (intro unat_of_nat_eq) simp
  have "int_present t (of_nat (Suc ?n)) = Some False"
    using u len next_array_key_dead [OF assms]
    by (auto simp: int_present_def get_def next_array_key_eq simp del: of_nat_Suc split: option.splits)
  then show ?thesis
    by (simp add: hash_border_def double_border.simps bisect_border.simps add.commute)
qed

lemma table_length_cases:
  assumes ok: "table_ok t" and len: "length (lt_array t) < 2 ^ 53"
  defines "n \<equiv> array_border (lt_array t) (length (lt_array t))"
  shows "table_length t = Some (of_nat n)"
proof (cases "length (lt_array t)")
  case 0
  then show ?thesis using hash_border_array [OF assms(1,2)]
    by (simp add: table_length_def Let_def n_def)
next
  case (Suc m)
  then show ?thesis using hash_border_array [OF assms(1,2)]
    by (simp add: table_length_def Let_def n_def)
qed

section \<open>Traversal\<close>

fun step_of :: "(raw_value \<times> raw_value) list \<Rightarrow> next_step" where
  "step_of [] = Done"
| "step_of ((k, v) # es) = Pair_Step k v"

definition array_entry :: "raw_value list \<Rightarrow> nat \<Rightarrow> (raw_value \<times> raw_value) option" where
  "array_entry xs s = (if xs ! s \<noteq> LNil then Some (LNumber (array_key s), xs ! s) else None)"

definition hash_entry :: "hash_slot list \<Rightarrow> nat \<Rightarrow> (raw_value \<times> raw_value) option" where
  "hash_entry hs j = map_option (Pair (hs_key_value (hs ! j))) (hs_value (hs ! j))"

lemma set_map_filter: "set (List.map_filter f xs) = {y. \<exists>x \<in> set xs. f x = Some y}"
  by (induction xs) (auto simp: List.map_filter_simps split: option.splits)

lemma map_filter_cong: "(\<And>x. x \<in> set xs \<Longrightarrow> f x = g x) \<Longrightarrow> List.map_filter f xs = List.map_filter g xs"
  by (induction xs) (auto simp: List.map_filter_simps split: option.splits)

lemma array_entries_positions:
  "p \<le> length xs \<Longrightarrow> array_entries p (drop p xs) = List.map_filter (array_entry xs) [p..<length xs]"
proof (induction p rule: inc_induct)
  case (step p)
  then show ?case
    by (simp add: Cons_nth_drop_Suc [symmetric] upt_conv_Cons List.map_filter_simps array_entry_def)
qed (simp add: List.map_filter_simps)

lemma hash_entries_positions:
  "p \<le> length hs \<Longrightarrow> hash_entries (drop p hs) = List.map_filter (hash_entry hs) [p..<length hs]"
proof (induction p rule: inc_induct)
  case (step p)
  then show ?case
    by (simp add: Cons_nth_drop_Suc [symmetric] upt_conv_Cons List.map_filter_simps hash_entry_def hash_entries_def
        split: option.split)
qed (simp add: hash_entries_def List.map_filter_simps)

text \<open>The entries from a slot of the array part on, and from a slot of the hash part on.\<close>

definition hash_from :: "lua_table \<Rightarrow> nat \<Rightarrow> (raw_value \<times> raw_value) list" where
  "hash_from t p = List.map_filter (hash_entry (lt_hash t)) [p..<length (lt_hash t)]"

definition array_from :: "lua_table \<Rightarrow> nat \<Rightarrow> (raw_value \<times> raw_value) list" where
  "array_from t p = List.map_filter (array_entry (lt_array t)) [p..<length (lt_array t)] @ hash_from t 0"

lemma for_each_entry_from: "for_each_entry t = array_from t 0"
  using array_entries_positions [of 0 "lt_array t"] hash_entries_positions [of 0 "lt_hash t"]
  by (simp add: for_each_entry_def array_from_def hash_from_def)

lemma scan_hash_step: "scan_hash hs = step_of (hash_entries hs)"
  by (induction hs) (auto simp: hash_entries_def List.map_filter_simps split: option.splits)

lemma advance_hash_step: "p \<le> length (lt_hash t) \<Longrightarrow> advance_hash t p = step_of (hash_from t p)"
  by (simp add: advance_hash_def scan_hash_step hash_entries_positions hash_from_def)

lemma scan_array_step:
  "(case scan_array p xs of Some (slot, v) \<Rightarrow> Pair_Step (LNumber (array_key slot)) v | None \<Rightarrow> step_of es) =
     step_of (array_entries p xs @ es)"
  by (induction xs arbitrary: p) auto

lemma advance_array_step: "p \<le> length (lt_array t) \<Longrightarrow> advance_array t p = step_of (array_from t p)"
  using scan_array_step [where p = p and xs = "drop p (lt_array t)" and es = "hash_from t 0"]
    advance_hash_step [of 0 t]
  by (simp only: advance_array_def array_entries_positions array_from_def le0)

lemma next_start: "table_next t LNil = step_of (for_each_entry t)"
  by (simp add: table_next_def resolve_cursor_def advance_def advance_array_step for_each_entry_from)

lemma next_array_slot:
  assumes "s < length (lt_array t)" "length (lt_array t) < 2 ^ 53"
  shows "table_next t (LNumber (array_key s)) = step_of (array_from t (Suc s))"
proof -
  have n: "normalize_key (LNumber (array_key s)) = Some (Key_Integer (of_nat (Suc s)))"
    using assms by (intro normalize_array_key) simp
  have "integer_slot t (Key_Integer (of_nat (Suc s))) = Some s" using assms by (intro integer_slot_of_nat) auto
  with n show ?thesis using assms
    by (simp add: table_next_def resolve_cursor_def advance_def advance_array_step del: of_nat_Suc)
qed

lemma next_hash_slot:
  assumes "normalize_key key = Some k" "integer_slot t k = None" "lt_index t k = Some j" "j < length (lt_hash t)"
  shows "table_next t key = step_of (hash_from t (Suc j))"
proof -
  have "key \<noteq> LNil" using assms(1) by (auto simp: normalize_key_def)
  then show ?thesis using assms by (simp add: table_next_def resolve_cursor_def advance_def advance_hash_step)
qed

lemma map_filter_split:
  "List.map_filter f [p..<n] = pre @ e # post \<Longrightarrow> \<exists>s. p \<le> s \<and> s < n \<and> f s = Some e \<and> post = List.map_filter f [Suc s..<n]"
proof (induction "n - p" arbitrary: p pre)
  case 0
  then show ?case by (simp add: List.map_filter_simps)
next
  case (Suc d)
  then have p: "[p..<n] = p # [Suc p..<n]" by (simp add: upt_conv_Cons)
  show ?case
  proof (cases "\<exists>e'. f p = Some e' \<and> pre = []")
    case True
    then show ?thesis using Suc.prems Suc.hyps(2) by (intro exI [of _ p]) (auto simp: p List.map_filter_simps)
  next
    case False
    then obtain pre' where "List.map_filter f [Suc p..<n] = pre' @ e # post"
      using Suc.prems by (cases pre) (auto simp: p List.map_filter_simps split: option.splits)
    moreover have "d = n - Suc p" using Suc.hyps(2) by simp
    ultimately show ?thesis using Suc.hyps(1) [of "Suc p" pre'] by (metis Suc_leD)
  qed
qed

lemma map_filter_filter:
  assumes "\<And>x. x \<in> set xs \<Longrightarrow> g x = (case f x of None \<Rightarrow> None | Some e \<Rightarrow> if P e then Some e else None)"
  shows "List.map_filter g xs = filter P (List.map_filter f xs)"
  using assms by (induction xs) (auto simp: List.map_filter_simps split: option.splits)

section \<open>Clearing a field\<close>

lemma array_entry_key:
  assumes "x < length (lt_array t)" "length (lt_array t) < 2 ^ 53"
  shows "normalize_key (LNumber (array_key x)) = Some k \<longleftrightarrow> integer_slot t k = Some x"
proof -
  have n: "normalize_key (LNumber (array_key x)) = Some (Key_Integer (of_nat (Suc x)))"
    using assms by (intro normalize_array_key) simp
  have i: "integer_slot t (Key_Integer (of_nat (Suc x))) = Some x" using assms by (intro integer_slot_of_nat) auto
  show ?thesis unfolding n using i integer_slot_inj [OF i, of k] by auto
qed

lemma hash_entry_key:
  assumes "table_wf t" "live_slot (lt_hash t) j"
  shows "norm_at (lt_hash t) j = Some k \<longleftrightarrow> integer_slot t k = None \<and> lt_index t k = Some j"
proof
  assume n: "norm_at (lt_hash t) j = Some k"
  then have "\<not> array_claims (length (lt_array t)) k" using assms by (auto simp: table_wf_def parts_disjoint_def)
  then show "integer_slot t k = None \<and> lt_index t k = Some j"
    using integer_slot_claims [of t k] live_slot_index [OF assms n] by auto
next
  assume "integer_slot t k = None \<and> lt_index t k = Some j"
  then show "norm_at (lt_hash t) j = Some k" using assms by (auto simp: table_wf_def index_sound_def)
qed

text \<open>
  Two tables differ by a cleared field: same slots, same keys, and the values agree but for the one
  under that field, which is gone.
\<close>

definition cleared :: "lua_key option \<Rightarrow> lua_table \<Rightarrow> lua_table \<Rightarrow> bool" where
  "cleared k t t' \<longleftrightarrow>
     length (lt_array t') = length (lt_array t) \<and> length (lt_hash t') = length (lt_hash t) \<and> lt_index t' = lt_index t \<and>
     (\<forall>x < length (lt_array t). lt_array t' ! x =
        (if normalize_key (LNumber (array_key x)) = k then LNil else lt_array t ! x)) \<and>
     (\<forall>j < length (lt_hash t). hs_key_value (lt_hash t' ! j) = hs_key_value (lt_hash t ! j) \<and>
        hs_value (lt_hash t' ! j) = (if norm_at (lt_hash t) j = k then None else hs_value (lt_hash t ! j)))"

lemma cleared_from:
  assumes "cleared k t t'"
  shows "array_from t' p = filter (\<lambda>e. normalize_key (fst e) \<noteq> k) (array_from t p)"
    and "hash_from t' q = filter (\<lambda>e. normalize_key (fst e) \<noteq> k) (hash_from t q)"
proof -
  show h: "hash_from t' q = filter (\<lambda>e. normalize_key (fst e) \<noteq> k) (hash_from t q)" for q
  proof -
    have "List.map_filter (hash_entry (lt_hash t')) [q..<length (lt_hash t)] =
        filter (\<lambda>e. normalize_key (fst e) \<noteq> k) (List.map_filter (hash_entry (lt_hash t)) [q..<length (lt_hash t)])"
      using assms by (intro map_filter_filter) (auto simp: cleared_def hash_entry_def norm_at_def split: option.splits)
    then show ?thesis using assms by (simp add: hash_from_def cleared_def)
  qed
  have "List.map_filter (array_entry (lt_array t')) [p..<length (lt_array t)] =
      filter (\<lambda>e. normalize_key (fst e) \<noteq> k) (List.map_filter (array_entry (lt_array t)) [p..<length (lt_array t)])"
    using assms by (intro map_filter_filter) (auto simp: cleared_def array_entry_def)
  then show "array_from t' p = filter (\<lambda>e. normalize_key (fst e) \<noteq> k) (array_from t p)"
    using assms by (simp add: array_from_def h cleared_def)
qed

lemma norm_at_live:
  assumes "table_wf t" "live_slot (lt_hash t) j"
  shows "norm_at (lt_hash t) j \<noteq> None"
  using assms by (auto simp: table_wf_def index_complete_def)

lemma array_key_normal: "x < length (lt_array t) \<Longrightarrow> length (lt_array t) < 2 ^ 53 \<Longrightarrow> normalize_key (LNumber (array_key x)) \<noteq> None"
  using normalize_array_key [of x] by simp

lemma set_nil_cleared:
  assumes ok: "table_ok t" and len: "length (lt_array t) < 2 ^ 53" and set: "table_set key LNil t = Some (b, t')"
  shows "cleared (normalize_key key) t t'"
proof (cases "normalize_key key")
  case None
  then have "t' = t" using set by (simp add: table_set_def set_inner_def)
  moreover have "normalize_key (LNumber (array_key x)) = None \<Longrightarrow> x < length (lt_array t) \<Longrightarrow> False" for x
    using array_key_normal [OF _ len] by blast
  moreover have "norm_at (lt_hash t) j = None \<Longrightarrow> j < length (lt_hash t) \<Longrightarrow> hs_value (lt_hash t ! j) = None" for j
    using norm_at_live [OF table_ok_wf [OF ok], of j] by (cases "hs_value (lt_hash t ! j)") (auto simp: live_slot_def)
  ultimately show ?thesis using None by (auto simp: cleared_def)
next
  case k: (Some k)
  have wf: "table_wf t" using ok by simp
  note ak = array_entry_key [OF _ len] and hk = hash_entry_key [OF wf]
  have dead: "hs_value (lt_hash t ! j) = None" if "norm_at (lt_hash t) j = Some k" "j < length (lt_hash t)"
    "\<not> (integer_slot t k = None \<and> lt_index t k = Some j)" for j
    using hk [of j k] that by (cases "hs_value (lt_hash t ! j)") (auto simp: live_slot_def)
  show ?thesis
  proof (cases "integer_slot t k")
    case (Some s)
    then have "t' = t\<lparr>lt_array := (lt_array t)[s := LNil]\<rparr>"
      using set k by (simp add: table_set_def set_inner_def split: if_splits)
    then show ?thesis using k Some ak dead by (auto simp: cleared_def nth_list_update)
  next
    case None
    then have hs: "hash_set k key LNil t = Some t'" using set k by (auto simp: table_set_def set_inner_def)
    show ?thesis
    proof (cases "lt_index t k")
      case ix: None
      then have "t' = t" using hs by (simp add: hash_set_def)
      then show ?thesis using k None ix ak dead by (auto simp: cleared_def)
    next
      case (Some idx)
      then have idx: "idx < length (lt_hash t)" and n: "norm_at (lt_hash t) idx = Some k"
        using wf by (auto simp: table_wf_def index_sound_def)
      have "t' = t\<lparr>lt_hash := (lt_hash t)[idx := (lt_hash t ! idx)\<lparr>hs_value := None\<rparr>]\<rparr>"
        using hs Some by (simp add: hash_set_def live_value_def split: if_splits)
      then show ?thesis using k None Some ak dead n idx by (auto simp: cleared_def nth_list_update)
    qed
  qed
qed

lemma cleared_positions:
  assumes "cleared k t t'"
  shows "integer_slot t' n = integer_slot t n" "lt_index t' = lt_index t" "length (lt_hash t') = length (lt_hash t)"
    "length (lt_array t') = length (lt_array t)"
  using assms integer_slot_cong [of t' t] by (auto simp: cleared_def)

text \<open>The entry at which a traversal stands, by its slot.\<close>

lemma entry_position:
  assumes "for_each_entry t = pre @ e # post"
  shows "(\<exists>s < length (lt_array t). array_entry (lt_array t) s = Some e \<and> post = array_from t (Suc s)) \<or>
    (\<exists>j < length (lt_hash t). hash_entry (lt_hash t) j = Some e \<and> post = hash_from t (Suc j))"
proof -
  let ?as = "List.map_filter (array_entry (lt_array t)) [0..<length (lt_array t)]"
  have "?as @ hash_from t 0 = pre @ e # post" using assms by (simp add: for_each_entry_from array_from_def)
  then consider us where "?as = pre @ e # us" "post = us @ hash_from t 0"
    | us where "hash_from t 0 = us @ e # post"
    by (auto simp: append_eq_append_conv2 Cons_eq_append_conv append_eq_Cons_conv)
  then show ?thesis
  proof cases
    case 1
    from map_filter_split [OF 1(1)] show ?thesis using 1(2) by (auto simp: array_from_def)
  next
    case 2
    from map_filter_split [OF 2 [unfolded hash_from_def]] show ?thesis by (auto simp: hash_from_def)
  qed
qed

lemma next_after_clear:
  assumes ok: "table_ok t" and len: "length (lt_array t) < 2 ^ 53"
    and es: "for_each_entry t = pre @ (k, v) # post" and cl: "cleared kc t t'"
  shows "table_next t' k = step_of (filter (\<lambda>e. normalize_key (fst e) \<noteq> kc) post)"
  using entry_position [OF es]
proof (elim disjE exE conjE)
  fix s assume s: "s < length (lt_array t)" "array_entry (lt_array t) s = Some (k, v)" "post = array_from t (Suc s)"
  then have "k = LNumber (array_key s)" by (auto simp: array_entry_def split: if_splits)
  then have "table_next t' k = step_of (array_from t' (Suc s))"
    using s(1) len cleared_positions [OF cl] by (simp add: next_array_slot)
  then show ?thesis by (simp add: s(3) cleared_from [OF cl])
next
  fix j assume j: "j < length (lt_hash t)" "hash_entry (lt_hash t) j = Some (k, v)" "post = hash_from t (Suc j)"
  then have live: "live_slot (lt_hash t) j" and k: "norm_at (lt_hash t) j = normalize_key k"
    by (auto simp: hash_entry_def live_slot_def norm_at_def)
  obtain n where n: "normalize_key k = Some n" using norm_at_live [OF table_ok_wf [OF ok] live] k by auto
  then have "integer_slot t n = None" "lt_index t n = Some j"
    using hash_entry_key [OF table_ok_wf [OF ok] live, of n] k by auto
  then have "table_next t' k = step_of (hash_from t' (Suc j))"
    using n j(1) cleared_positions [OF cl] by (simp add: next_hash_slot)
  then show ?thesis by (simp add: j(3) cleared_from [OF cl])
qed

section \<open>The entries are the map\<close>

lemma array_part_entry:
  "e \<in> set (List.map_filter (array_entry (lt_array t)) [0..<length (lt_array t)]) \<longleftrightarrow>
     (\<exists>s < length (lt_array t). e = (LNumber (array_key s), lt_array t ! s) \<and> lt_array t ! s \<noteq> LNil)"
  by (auto simp: set_map_filter array_entry_def split: if_splits)

lemma hash_part_entry:
  "e \<in> set (hash_from t 0) \<longleftrightarrow>
     (\<exists>j. live_slot (lt_hash t) j \<and> e = (hs_key_value (lt_hash t ! j), the (hs_value (lt_hash t ! j))))"
  by (auto simp: hash_from_def set_map_filter hash_entry_def live_slot_def)

lemma set_for_each_entry:
  "set (for_each_entry t) =
     set (List.map_filter (array_entry (lt_array t)) [0..<length (lt_array t)]) \<union> set (hash_from t 0)"
  by (simp add: for_each_entry_from array_from_def)

lemma live_slot_not_nil:
  assumes "table_wf t" "live_slot (lt_hash t) j"
  shows "the (hs_value (lt_hash t ! j)) \<noteq> LNil"
proof -
  have "lt_hash t ! j \<in> set (lt_hash t)" using assms(2) by (simp add: live_slot_def)
  then have "hs_value (lt_hash t ! j) \<noteq> Some LNil" using assms(1) unfolding table_wf_def no_nil_slots_def by blast
  then show ?thesis using assms(2) by (auto simp: live_slot_def)
qed

lemma entry_lookup:
  assumes ok: "table_ok t" and len: "length (lt_array t) < 2 ^ 53"
  shows "(\<exists>key. (key, v) \<in> set (for_each_entry t) \<and> normalize_key key = Some k) \<longleftrightarrow> lookup t k = v \<and> v \<noteq> LNil"
proof
  have wf: "table_wf t" using ok by simp
  assume "\<exists>key. (key, v) \<in> set (for_each_entry t) \<and> normalize_key key = Some k"
  then obtain key where key: "(key, v) \<in> set (for_each_entry t)" "normalize_key key = Some k" by blast
  from key(1) show "lookup t k = v \<and> v \<noteq> LNil" unfolding set_for_each_entry Un_iff
  proof
    assume "(key, v) \<in> set (List.map_filter (array_entry (lt_array t)) [0..<length (lt_array t)])"
    then show ?thesis using key(2) array_entry_key [OF _ len, of _ k] by (auto simp: array_part_entry lookup_def)
  next
    assume "(key, v) \<in> set (hash_from t 0)"
    then obtain j where j: "live_slot (lt_hash t) j" "key = hs_key_value (lt_hash t ! j)" "v = the (hs_value (lt_hash t ! j))"
      by (auto simp: hash_part_entry)
    then have "integer_slot t k = None \<and> lt_index t k = Some j"
      using key(2) hash_entry_key [OF wf j(1), of k] by (simp add: norm_at_def)
    then show ?thesis using j live_slot_not_nil [OF wf j(1)] by (auto simp: lookup_def hash_lookup_def live_slot_def)
  qed
next
  have wf: "table_wf t" using ok by simp
  assume v: "lookup t k = v \<and> v \<noteq> LNil"
  show "\<exists>key. (key, v) \<in> set (for_each_entry t) \<and> normalize_key key = Some k"
  proof (cases "integer_slot t k")
    case (Some s)
    have s: "s < length (lt_array t)" by (rule integer_slot_bound [OF Some])
    then have "normalize_key (LNumber (array_key s)) = Some k" using array_entry_key [OF s len, of k] Some by simp
    then show ?thesis using s v Some unfolding set_for_each_entry Un_iff array_part_entry by (auto simp: lookup_def)
  next
    case None
    then obtain j where j: "lt_index t k = Some j" "hs_value (lt_hash t ! j) = Some v"
      using v by (auto simp: lookup_def hash_lookup_def split: option.splits)
    then have "j < length (lt_hash t)" "norm_at (lt_hash t) j = Some k"
      using wf by (auto simp: table_wf_def index_sound_def)
    then show ?thesis using j unfolding set_for_each_entry Un_iff hash_part_entry
      by (intro exI [of _ "hs_key_value (lt_hash t ! j)"]) (auto simp: live_slot_def norm_at_def intro!: exI [of _ j])
  qed
qed

lemma distinct_map_filter:
  assumes "distinct xs" "\<And>x y a b. x \<in> set xs \<Longrightarrow> y \<in> set xs \<Longrightarrow> f x = Some a \<Longrightarrow> f y = Some b \<Longrightarrow> g a = g b \<Longrightarrow> x = y"
  shows "distinct (map g (List.map_filter f xs))"
  using assms
proof (induction xs)
  case (Cons x xs)
  have "distinct (map g (List.map_filter f xs))"
    using Cons.prems by (intro Cons.IH) auto
  moreover have "g a \<notin> g ` set (List.map_filter f xs)" if "f x = Some a" for a
    using Cons.prems(1) Cons.prems(2) [of x _ a] that by (fastforce simp: set_map_filter)
  ultimately show ?case by (auto simp: List.map_filter_simps split: option.splits)
qed (simp add: List.map_filter_simps)

lemma entries_distinct:
  assumes ok: "table_ok t" and len: "length (lt_array t) < 2 ^ 53"
  shows "distinct (map (normalize_key \<circ> fst) (for_each_entry t))"
proof -
  have wf: "table_wf t" using ok by simp
  let ?g = "normalize_key \<circ> fst"
  have "distinct (map ?g (List.map_filter (array_entry (lt_array t)) [0..<length (lt_array t)]))"
  proof (rule distinct_map_filter)
    fix x y a b assume *: "x \<in> set [0..<length (lt_array t)]" "y \<in> set [0..<length (lt_array t)]"
      "array_entry (lt_array t) x = Some a" "array_entry (lt_array t) y = Some b" "?g a = ?g b"
    then have "fst a = LNumber (array_key x)" "x < length (lt_array t)" by (auto simp: array_entry_def split: if_splits)
    then obtain k where "?g a = Some k" using array_key_normal [OF _ len, of x] by (metis comp_apply not_None_eq)
    then have "normalize_key (LNumber (array_key x)) = Some k" "normalize_key (LNumber (array_key y)) = Some k"
      using * by (auto simp: array_entry_def split: if_splits)
    then show "x = y" using array_entry_key [OF _ len, of x k] array_entry_key [OF _ len, of y k] * by simp
  qed simp
  moreover have "distinct (map ?g (hash_from t 0))" unfolding hash_from_def
  proof (rule distinct_map_filter)
    fix x y a b assume *: "x \<in> set [0..<length (lt_hash t)]" "y \<in> set [0..<length (lt_hash t)]"
      "hash_entry (lt_hash t) x = Some a" "hash_entry (lt_hash t) y = Some b" "?g a = ?g b"
    then have l: "live_slot (lt_hash t) x" "live_slot (lt_hash t) y" "norm_at (lt_hash t) x = norm_at (lt_hash t) y"
      by (auto simp: hash_entry_def live_slot_def norm_at_def)
    obtain k where "norm_at (lt_hash t) x = Some k" using norm_at_live [OF wf l(1)] by auto
    then show "x = y" using l live_slot_index [OF wf l(1)] live_slot_index [OF wf l(2)] by auto
  qed simp
  moreover have False if e: "e \<in> set (List.map_filter (array_entry (lt_array t)) [0..<length (lt_array t)])"
      "e' \<in> set (hash_from t 0)" "?g e = ?g e'" for e e'
  proof -
    obtain s where s: "s < length (lt_array t)" "fst e = LNumber (array_key s)" using e(1) by (auto simp: array_part_entry)
    then obtain k where k: "?g e = Some k" using array_key_normal [OF s(1) len] by auto
    obtain j where "live_slot (lt_hash t) j" "norm_at (lt_hash t) j = Some k"
      using e(2,3) k by (auto simp: hash_part_entry norm_at_def)
    then show False using hash_entry_key [OF wf, of j k] array_entry_key [OF s(1) len, of k] s(2) k by simp
  qed
  ultimately show ?thesis unfolding for_each_entry_from array_from_def map_append distinct_append by fastforce
qed

section \<open>Properties\<close>

text \<open>
  C6: A table is a map. On a table that satisfies the invariant, with fewer than \<open>2 ^ 53\<close> entries, a
  write never panics, is refused for \<^verbatim>\<open>nil\<close> and NaN keys only, keeps the invariant, and afterwards
  every read sees the written value under every key that normalises to the written one and the old
  value under all others, whichever part the entries live in and whatever was absorbed into the array.
\<close>

theorem table_set_get:
  assumes "table_ok t" "table_size t + 1 < array_bound"
  shows "\<exists>t'. table_set key v t = Some (normalize_key key \<noteq> None, t') \<and> table_ok t' \<and>
    (\<forall>key'. table_get t' key' =
       (if normalize_key key \<noteq> None \<and> normalize_key key' = normalize_key key then Some v else table_get t key'))"
proof -
  obtain t' where t': "table_set key v t = Some (normalize_key key \<noteq> None, t')" "table_ok t'"
    "lookup t' = (case normalize_key key of None \<Rightarrow> lookup t | Some k \<Rightarrow> (lookup t)(k := v))"
    using table_set_ok [OF assms, of key v] by blast
  then show ?thesis by (intro exI [of _ t']) (auto simp: table_get_lookup assms(1) split: option.splits)
qed

definition demo_table :: lua_table where
  "demo_table = table_new\<lparr>lt_hash := [\<lparr>hs_key_value = LNumber (f64_of_nat 2), hs_value = Some (LBoolean True)\<rparr>],
     lt_index := [Key_Integer 2 \<mapsto> 0]\<rparr>"

lemma normalize_small [simp]:
  "normalize_key (LNumber (f64_of_nat (Suc 0))) = Some (Key_Integer 1)"
  "normalize_key (LNumber (f64_of_nat 2)) = Some (Key_Integer 2)"
proof -
  show "normalize_key (LNumber (f64_of_nat (Suc 0))) = Some (Key_Integer 1)"
    using normalize_array_key [of 0] by (simp add: array_key_def)
  have "array_key 1 = f64_of_nat 2" by (simp add: array_key_def flip: numeral_2_eq_2)
  then show "normalize_key (LNumber (f64_of_nat 2)) = Some (Key_Integer 2)"
    using normalize_array_key [of 1] by simp
qed

lemma demo_table_ok: "table_ok demo_table"
  by (auto simp: table_ok_def table_wf_def demo_table_def table_new_def index_sound_def index_complete_def
      no_nil_slots_def parts_disjoint_def live_slot_def norm_at_def array_claims_def less_Suc_eq split: if_splits)

theorem table_set_get_witness:
  "\<exists>t'. table_set (LNumber (f64_of_nat 1)) (LBoolean False) demo_table = Some (True, t') \<and>
     table_get t' (LNumber (f64_of_nat 1)) = Some (LBoolean False) \<and>
     table_get t' (LNumber (f64_of_nat 2)) = Some (LBoolean True)"
proof -
  have size: "table_size demo_table + 1 < array_bound"
    by (simp add: table_size_def live_slots_def array_bound_def demo_table_def table_new_def)
  have "table_get demo_table (LNumber (f64_of_nat 2)) = Some (LBoolean True)"
    by (simp add: table_get_def demo_table_def table_new_def integer_slot_def array_slot_def get_def)
  with table_set_get [OF demo_table_ok size, of "LNumber (f64_of_nat 1)" "LBoolean False"]
  show ?thesis by auto
qed

text \<open>
  C37: The length operator returns a border. It never panics and its searches end; the entry at the
  returned length is not \<^verbatim>\<open>nil\<close> (unless the length is zero) and the entry after it is.
\<close>

theorem table_length_border:
  assumes "table_ok t" "length (lt_array t) < 2 ^ 53"
  shows "\<exists>n. table_length t = Some (of_nat n) \<and> n \<le> length (lt_array t) \<and>
    (n = 0 \<or> lookup t (Key_Integer (of_nat n)) \<noteq> LNil) \<and> lookup t (Key_Integer (of_nat (Suc n))) = LNil"
proof -
  let ?len = "length (lt_array t)" and ?n = "array_border (lt_array t) (length (lt_array t))"
  have le: "?n \<le> ?len" by (rule array_border_le)
  have "?n = 0 \<or> lookup t (Key_Integer (of_nat ?n)) \<noteq> LNil"
  proof (cases ?n)
    case (Suc m)
    then have "m < ?len" "lt_array t ! m \<noteq> LNil" using le array_border_border(1) [of "lt_array t" ?len] by auto
    then show ?thesis using lookup_array [of m t] assms(2) Suc by simp
  qed simp
  moreover have "lookup t (Key_Integer (of_nat (Suc ?n))) = LNil"
  proof (cases "?n < ?len")
    case True
    then show ?thesis using lookup_array [of ?n t] array_border_border(2) [OF True] assms(2) by simp
  next
    case False
    then have "?n = ?len" using le by simp
    then show ?thesis using lookup_next_array_key [OF assms] by (simp add: next_array_key_eq)
  qed
  ultimately show ?thesis using table_length_cases [OF assms] le by blast
qed

theorem table_length_border_witness:
  "\<exists>n. table_length demo_table = Some (of_nat n) \<and> lookup demo_table (Key_Integer (of_nat (Suc n))) = LNil"
proof -
  have "length (lt_array demo_table) < 2 ^ 53" by (simp add: demo_table_def table_new_def)
  from table_length_border [OF demo_table_ok this] show ?thesis by blast
qed

text \<open>
  C28: A traversal visits every entry once, also when fields are cleared on the way. The entries have
  pairwise different normalised keys and are exactly the graph of the map; \<^verbatim>\<open>next\<close> from
  \<^verbatim>\<open>nil\<close> gives the first of them; and after assigning \<^verbatim>\<open>nil\<close> to any field, \<^verbatim>\<open>next\<close> from
  the entry where the traversal stands still gives the first remaining entry after it.
\<close>

theorem next_traverses:
  assumes "table_ok t" "length (lt_array t) < 2 ^ 53" "for_each_entry t = pre @ (k, v) # post"
    "table_set key LNil t = Some (b, t')"
  shows "distinct (map (normalize_key \<circ> fst) (for_each_entry t)) \<and>
    (\<forall>n w. (\<exists>x. (x, w) \<in> set (for_each_entry t) \<and> normalize_key x = Some n) \<longleftrightarrow> lookup t n = w \<and> w \<noteq> LNil) \<and>
    table_next t LNil = step_of (for_each_entry t) \<and>
    table_next t' k = step_of (filter (\<lambda>e. normalize_key (fst e) \<noteq> normalize_key key) post)"
  using entries_distinct [OF assms(1,2)] entry_lookup [OF assms(1,2)] next_start [of t]
    next_after_clear [OF assms(1-3) set_nil_cleared [OF assms(1,2,4)]] by blast

theorem next_traverses_witness:
  "\<exists>b t'. table_set (LNumber (f64_of_nat 2)) LNil demo_table = Some (b, t') \<and>
     table_next t' (LNumber (f64_of_nat 2)) = Done"
proof -
  have es: "for_each_entry demo_table = [] @ (LNumber (f64_of_nat 2), LBoolean True) # []"
    by (simp add: for_each_entry_def demo_table_def table_new_def hash_entries_def List.map_filter_simps)
  have len: "length (lt_array demo_table) < 2 ^ 53" by (simp add: demo_table_def table_new_def)
  obtain b t' where s: "table_set (LNumber (f64_of_nat 2)) LNil demo_table = Some (b, t')"
    using table_set_ok [OF demo_table_ok, of "LNumber (f64_of_nat 2)" LNil]
    by (auto simp: table_size_def live_slots_def array_bound_def demo_table_def table_new_def)
  from next_traverses [OF demo_table_ok len es s] s show ?thesis by auto
qed

end
