(* ===== verification/Gc_Views.thy ===== *)
theory Gc_Views
  imports Gc Arena_Spec Lua_Table_Spec
begin

text \<open>
  The heap seen reference by reference: which slots hold an object, what each operation of the
  collector leaves of colours, ages, generations and outgoing handles.
\<close>

section \<open>Reference views\<close>

definition live_ref :: "'h object_store_scheme \<Rightarrow> gc_ref \<Rightarrow> bool" where
  "live_ref h r = (case r of
       Gc_Str i \<Rightarrow> gc_value (strings h) i \<noteq> None
     | Gc_Table i \<Rightarrow> gc_value (tables h) i \<noteq> None
     | Gc_Closure i \<Rightarrow> gc_value (closures h) i \<noteq> None
     | Gc_Userdata i \<Rightarrow> gc_value (userdata h) i \<noteq> None
     | Gc_Thread i \<Rightarrow> gc_value (threads h) i \<noteq> None
     | Gc_Buffer i \<Rightarrow> gc_value (buffers h) i \<noteq> None
     | Gc_Proto i \<Rightarrow> gc_value (protos h) i \<noteq> None
     | Gc_UpVal i \<Rightarrow> gc_value (upvals h) i \<noteq> None)"

lemma gc_value_in_range: "gc_value a i \<noteq> None \<Longrightarrow> unat i < arena_len a"
  by (auto simp: gc_value_def get_def arena_len_def split: if_splits)

lemma live_in_range: "live_ref h r \<Longrightarrow> in_range h r"
  by (cases r) (auto simp: live_ref_def in_range_def intro: gc_value_in_range)

lemma arena_get_live: "arena_get a i g = Some v \<Longrightarrow> gc_value a i = Some v"
  by (auto simp: arena_get_def gc_value_def split: if_splits)

lemma is_live_gen_live: "is_live_gen h r g \<Longrightarrow> live_ref h r"
  by (cases r) (auto simp: is_live_gen_def live_ref_def dest: arena_get_live)

lemma traced_of_dead: "\<not> live_ref h r \<Longrightarrow> traced_of h r = []"
  by (cases r) (auto simp: live_ref_def traced_of_def visit_option_def)

section \<open>Forgetting colours\<close>

definition decolor_arena :: "'a arena \<Rightarrow> 'a arena" where
  "decolor_arena a = a\<lparr>ar_entries := map (\<lambda>e. e\<lparr>en_color := White\<rparr>) (ar_entries a)\<rparr>"

lemma decolor_arena_simps [simp]:
  "gc_value (decolor_arena a) i = gc_value a i" "gc_age (decolor_arena a) i = gc_age a i"
  "arena_get (decolor_arena a) i g = arena_get a i g" "arena_len (decolor_arena a) = arena_len a"
  by (auto simp: decolor_arena_def gc_value_def gc_age_def arena_get_def arena_len_def get_def)

lemma decolor_set_color [simp]: "decolor_arena (gc_set_color i c a) = decolor_arena a"
  by (auto simp: decolor_arena_def gc_set_color_def update_entry_def map_update list_update_same_conv)

lemma decolor_reset [simp]: "decolor_arena (gc_reset_colors a) = decolor_arena a"
  by (auto simp: decolor_arena_def gc_reset_colors_def)

lemma decolor_arena_inv: "arena_inv (decolor_arena a) = arena_inv a"
  by (simp add: arena_inv_def arena_ok_def young_exact_def free_listed_def young_listed_def live_at_def decolor_arena_def
      cong: conj_cong)

definition decolor :: "heap \<Rightarrow> heap" where
  "decolor h = h\<lparr>strings := decolor_arena (strings h), tables := decolor_arena (tables h),
     closures := decolor_arena (closures h), userdata := decolor_arena (userdata h),
     threads := decolor_arena (threads h), buffers := decolor_arena (buffers h),
     protos := decolor_arena (protos h), upvals := decolor_arena (upvals h)\<rparr>"

lemma decolor_heap_set_color [simp]: "decolor (set_color r c h) = decolor h"
  by (cases r) (simp_all add: set_color_def decolor_def)

lemma decolor_reset_all [simp]: "decolor (reset_all_colors h) = decolor h"
  by (simp add: reset_all_colors_def decolor_def)

lemma decolor_views [simp]:
  "live_ref (decolor h) r = live_ref h r" "ref_age (decolor h) r = ref_age h r"
  "is_live_gen (decolor h) r g = is_live_gen h r g" "traced_of (decolor h) r = traced_of h r"
  "in_range (decolor h) r = in_range h r"
  by (cases r; simp add: decolor_def live_ref_def ref_age_def is_live_gen_def traced_of_def in_range_def)+

lemma decolor_access [simp]:
  "heap_string (decolor h) g = heap_string h g" "heap_table (decolor h) g = heap_table h g"
  "heap_thread (decolor h) g = heap_thread h g" "hp_interner (decolor h) = hp_interner h"
  "gc_value (tables (decolor h)) i = gc_value (tables h) i"
  "gc_value (threads (decolor h)) i = gc_value (threads h) i"
  "arena_len (threads (decolor h)) = arena_len (threads h)"
  by (simp_all add: heap_string_def heap_table_def heap_thread_def decolor_def)

lemma decolor_roots [simp]:
  "fixed_roots (decolor h) = fixed_roots h" "anchor_roots (decolor h) = anchor_roots h"
  "hp_remembered (decolor h) = hp_remembered h" "gc_anchors (decolor h) = gc_anchors h"
  by (simp_all add: fixed_roots_def anchor_roots_def gc_anchors_def decolor_def)

lemma decolor_weak_mode [simp]: "weak_mode (decolor h) t = weak_mode h t"
  by (simp add: weak_mode_def cong: raw_value.case_cong)

lemma decolor_weak_ref [simp]: "weak_ref (decolor h) r = weak_ref h r"
  by (cases r) (simp_all add: weak_ref_def)

lemma decolor_trace_children [simp]: "trace_children (decolor h) r = trace_children h r"
  by (simp add: trace_children_def collect_children_def cong: option.case_cong)

lemma decolor_thread_roots [simp]: "thread_roots (decolor h) = thread_roots h"
  by (simp add: thread_roots_def)

text \<open>Heaps that differ in colours only.\<close>

abbreviation recolored :: "heap \<Rightarrow> heap \<Rightarrow> bool" where
  "recolored h h' \<equiv> decolor h' = decolor h"

lemma recolored_views:
  assumes "recolored h h'"
  shows "live_ref h' r = live_ref h r" "ref_age h' r = ref_age h r" "is_live_gen h' r g = is_live_gen h r g"
    "traced_of h' r = traced_of h r" "in_range h' r = in_range h r" "weak_ref h' r = weak_ref h r"
    "trace_children h' r = trace_children h r" "fixed_roots h' = fixed_roots h" "anchor_roots h' = anchor_roots h"
    "hp_remembered h' = hp_remembered h" "thread_roots h' = thread_roots h"
  using assms decolor_views decolor_weak_ref decolor_trace_children decolor_roots decolor_thread_roots by metis+

lemma gc_color_set_color:
  "gc_color (gc_set_color i c a) j = (if j = i \<and> unat i < arena_len a then c else gc_color a j)"
  by (auto simp: gc_color_def gc_set_color_def update_entry_def get_def arena_len_def nth_list_update u32_unat_eq_iff)

lemma ref_color_set_color:
  "ref_color (set_color r c h) r' = (if r' = r \<and> in_range h r then c else ref_color h r')"
  by (cases r; cases r') (simp_all add: ref_color_def set_color_def in_range_def gc_color_set_color)

end
