(* ===== verification/Gc_Trace.thy ===== *)
theory Gc_Trace
  imports Gc_Views
begin

text \<open>
  What marking and tracing compute: after a loop that was not aborted, the marked objects are those
  reached from the roots through the traced children, where a minor cycle does not enter plain old
  objects. An aborted loop has changed colours only.
\<close>

section \<open>Coverage\<close>

text \<open>The references a cycle enters when it meets them as children.\<close>

definition entered :: "gc_cycle \<Rightarrow> heap \<Rightarrow> gc_ref \<Rightarrow> bool" where
  "entered cycle h r \<longleftrightarrow> cycle = Full \<or> is_thread r \<or> ref_age h r \<noteq> Old"

definition covered :: "gc_cycle \<Rightarrow> heap \<Rightarrow> gc_ref \<Rightarrow> bool" where
  "covered cycle h r \<longleftrightarrow> ref_color h r \<noteq> White \<or> \<not> in_range h r \<or> \<not> entered cycle h r"

lemma entered_Full [simp]: "entered Full h r"
  by (simp add: entered_def)

lemma recolored_entered: "recolored h h' \<Longrightarrow> entered cycle h' r = entered cycle h r"
  using recolored_views(2) [of h h' r] by (simp add: entered_def)

text \<open>Marking: colours only get darker, and what gets darker is queued and belongs to a given set.\<close>

definition darkens :: "gc_ref set \<Rightarrow> marking \<Rightarrow> marking \<Rightarrow> bool" where
  "darkens rs s s' \<longleftrightarrow> recolored (mk_heap s) (mk_heap s') \<and>
     (\<forall>r. ref_color (mk_heap s) r \<noteq> White \<longrightarrow> ref_color (mk_heap s') r \<noteq> White) \<and>
     (\<forall>r. ref_color (mk_heap s') r \<noteq> White \<longrightarrow> ref_color (mk_heap s) r \<noteq> White \<or> r \<in> set (mk_queue s')) \<and>
     set (mk_queue s) \<subseteq> set (mk_queue s') \<and> set (mk_queue s') \<subseteq> set (mk_queue s) \<union> rs \<and>
     (\<forall>r \<in> set (mk_queue s') - set (mk_queue s). covered Full (mk_heap s') r)"

lemma darkens_refl: "darkens rs s s"
  by (simp add: darkens_def)

lemma darkens_mono: "darkens rs s s' \<Longrightarrow> rs \<subseteq> rs' \<Longrightarrow> darkens rs' s s'"
  unfolding darkens_def by blast

lemma darkens_budget [simp]:
  "darkens rs (s\<lparr>mk_budget := b\<rparr>) s' = darkens rs s s'" "darkens rs s (s'\<lparr>mk_budget := b\<rparr>) = darkens rs s s'"
  by (simp_all add: darkens_def)

lemma darkens_recolored: "darkens rs s s' \<Longrightarrow> recolored (mk_heap s) (mk_heap s')"
  by (simp add: darkens_def)

lemmas darkens_views = recolored_views [OF darkens_recolored]

lemma darkens_covered: "darkens rs s s' \<Longrightarrow> covered cycle (mk_heap s) r \<Longrightarrow> covered cycle (mk_heap s') r"
  using recolored_entered [of "mk_heap s" "mk_heap s'" cycle r] darkens_views(5) [of rs s s' r]
  by (auto simp: darkens_def covered_def)

lemma darkens_trans:
  assumes "darkens rs s s'" "darkens rs s' s''"
  shows "darkens rs s s''"
proof -
  have "recolored (mk_heap s) (mk_heap s'')" using assms [THEN darkens_recolored] by simp
  moreover have "covered Full (mk_heap s') r \<Longrightarrow> covered Full (mk_heap s'') r" for r
    by (rule darkens_covered [OF assms(2)])
  ultimately show ?thesis using assms unfolding darkens_def by blast
qed

subsection \<open>The contract of a marking operation\<close>

locale marking_step =
  fixes f :: "gc_ref \<Rightarrow> marking \<Rightarrow> marking gc" and cycle :: gc_cycle
  assumes step_darkens: "f r s = Inr s' \<Longrightarrow> darkens {c. c = r \<and> entered cycle (mk_heap s) c} s s'"
    and step_covers: "f r s = Inr s' \<Longrightarrow> covered cycle (mk_heap s') r"
    and step_aborts: "f r s = Inl h' \<Longrightarrow> h' = mk_heap s"
begin

lemma all_darkens:
  "mark_all f rs s = Inr s' \<Longrightarrow> darkens {c \<in> set rs. entered cycle (mk_heap s) c} s s' \<and>
     (\<forall>r \<in> set rs. covered cycle (mk_heap s') r)"
proof (induction rs arbitrary: s)
  case Nil
  then show ?case by (simp add: darkens_refl)
next
  case (Cons r rs)
  then obtain s1 where s1: "f r s = Inr s1" "mark_all f rs s1 = Inr s'" by (auto simp: gbind_Inr)
  note a = step_darkens [OF s1(1)] and IH = Cons.IH [OF s1(2)]
  have "entered cycle (mk_heap s1) c = entered cycle (mk_heap s) c" for c
    by (rule recolored_entered [OF darkens_recolored [OF a]])
  then have "darkens {c \<in> set (r # rs). entered cycle (mk_heap s) c} s1 s'"
    using IH by (auto intro: darkens_mono)
  moreover have "darkens {c \<in> set (r # rs). entered cycle (mk_heap s) c} s s1"
    using a by (rule darkens_mono) auto
  moreover have "covered cycle (mk_heap s') r"
    using IH step_covers [OF s1(1)] by (blast intro: darkens_covered)
  ultimately show ?case using IH by (auto intro: darkens_trans)
qed

lemma all_aborts: "mark_all f rs s = Inl h' \<Longrightarrow> recolored (mk_heap s) h'"
proof (induction rs arbitrary: s)
  case (Cons r rs)
  then consider "f r s = Inl h'" | s1 where "f r s = Inr s1" "mark_all f rs s1 = Inl h'" by (auto simp: gbind_Inl)
  then show ?case
  proof cases
    case 1
    then show ?thesis using step_aborts [OF 1] by simp
  next
    case (2 s1)
    then show ?thesis using Cons.IH [OF 2(2)] darkens_recolored [OF step_darkens [OF 2(1)]] by simp
  qed
qed simp

end

lemma mark_gray_darkens:
  assumes "mark_gray r s = Inr s'"
  shows "darkens {r} s s'" "in_range (mk_heap s) r \<Longrightarrow> ref_color (mk_heap s') r \<noteq> White"
  using assms
  by (auto simp: mark_gray_def gbind_Inr reserve_Inr darkens_def ref_color_set_color covered_def split: if_splits)

lemma mark_gray_covers: "mark_gray r s = Inr s' \<Longrightarrow> covered cycle (mk_heap s') r"
  using mark_gray_darkens [of r s s'] darkens_views(5) [of "{r}" s s' r] by (auto simp: covered_def)

lemma mark_gray_aborts: "mark_gray r s = Inl h' \<Longrightarrow> h' = mk_heap s"
  by (auto simp: mark_gray_def gbind_Inl reserve_def split: if_splits)

lemma mark_minor_cases:
  "mark_minor r s = (if ref_color (mk_heap s) r = White \<and> entered Minor (mk_heap s) r then mark_gray r s else Inr s)"
  by (cases "ref_age (mk_heap s) r") (auto simp: mark_minor_def entered_def)

interpretation full_marking: marking_step mark Full
proof
  fix r s s'
  assume m: "mark r s = Inr s'"
  show "darkens {c. c = r \<and> entered Full (mk_heap s) c} s s'"
    using m mark_gray_darkens(1) [of r s s'] by (auto simp: mark_def darkens_refl split: if_splits)
  show "covered Full (mk_heap s') r"
    using m mark_gray_covers [of r s s' Full] by (auto simp: mark_def covered_def split: if_splits)
qed (auto simp: mark_def dest: mark_gray_aborts split: if_splits)

interpretation minor_marking: marking_step mark_minor Minor
proof
  fix r s s'
  assume m: "mark_minor r s = Inr s'"
  show "darkens {c. c = r \<and> entered Minor (mk_heap s) c} s s'"
    using m mark_gray_darkens(1) [of r s s']
    by (auto simp: mark_minor_cases darkens_refl elim: darkens_mono split: if_splits)
  show "covered Minor (mk_heap s') r"
    using m mark_gray_covers [of r s s' Minor] by (auto simp: mark_minor_cases covered_def split: if_splits)
qed (auto simp: mark_minor_cases dest: mark_gray_aborts split: if_splits)

lemma marker_all_darkens:
  "mark_all (marker cycle) rs s = Inr s' \<Longrightarrow> darkens {c \<in> set rs. entered cycle (mk_heap s) c} s s' \<and>
     (\<forall>r \<in> set rs. covered cycle (mk_heap s') r)"
  using full_marking.all_darkens minor_marking.all_darkens by (cases cycle) (simp_all add: marker_def)

lemma marker_all_aborts: "mark_all (marker cycle) rs s = Inl h' \<Longrightarrow> recolored (mk_heap s) h'"
  using full_marking.all_aborts minor_marking.all_aborts by (cases cycle) (simp_all add: marker_def)

subsection \<open>Roots\<close>

definition all_roots :: "gc_ref list \<Rightarrow> heap \<Rightarrow> gc_ref set" where
  "all_roots roots h = set roots \<union> set (fixed_roots h) \<union> set (anchor_roots h)"

lemma mark_heap_roots_marks:
  assumes "mark_heap_roots roots s = Inr s'"
  shows "darkens (all_roots roots (mk_heap s)) s s'"
    and "r \<in> all_roots roots (mk_heap s) \<Longrightarrow> covered Full (mk_heap s') r"
proof -
  let ?h = "mk_heap s" and ?R = "all_roots roots (mk_heap s)"
  from assms obtain s1 b where s1: "mark_all mark (roots @ fixed_roots ?h) s = Inr s1"
    and s2: "mark_all mark (anchor_roots (mk_heap s1)) (s1\<lparr>mk_budget := b\<rparr>) = Inr s'"
    by (auto simp: mark_heap_roots_def Let_def gbind_Inr reserve_Inr)
  note d1 = full_marking.all_darkens [OF s1] and d2 = full_marking.all_darkens [OF s2]
  have ar: "anchor_roots (mk_heap s1) = anchor_roots ?h" by (rule darkens_views(9) [OF conjunct1 [OF d1]])
  have d: "darkens ?R s s1" "darkens ?R s1 s'"
    using d1 d2 by (auto simp: all_roots_def ar intro: darkens_mono)
  show "darkens ?R s s'" by (rule darkens_trans [OF d])
  show "covered Full (mk_heap s') r" if "r \<in> ?R"
    using that d1 d2 darkens_covered [OF d(2), of Full r] by (auto simp: all_roots_def ar)
qed

lemma mark_heap_roots_aborts: "mark_heap_roots roots s = Inl h' \<Longrightarrow> recolored (mk_heap s) h'"
proof -
  assume a: "mark_heap_roots roots s = Inl h'"
  consider "mark_all mark (roots @ fixed_roots (mk_heap s)) s = Inl h'"
    | s1 b rs where "mark_all mark (roots @ fixed_roots (mk_heap s)) s = Inr s1"
      "h' = mk_heap s1 \<or> mark_all mark rs (s1\<lparr>mk_budget := b\<rparr>) = Inl h'"
    using a by (auto simp: mark_heap_roots_def Let_def gbind_Inl reserve_def split: if_splits)
  then show ?thesis
  proof cases
    case (2 s1 b rs)
    have "recolored (mk_heap s) (mk_heap s1)" using full_marking.all_darkens [OF 2(1)] darkens_recolored by blast
    then show ?thesis using 2(2) full_marking.all_aborts [of rs "s1\<lparr>mk_budget := b\<rparr>" h'] by auto
  qed (rule full_marking.all_aborts)
qed

section \<open>The tracing loop\<close>

text \<open>What a cycle reaches: the roots, and the children it enters of what it reaches.\<close>

inductive_set gc_reach :: "gc_cycle \<Rightarrow> heap \<Rightarrow> gc_ref set \<Rightarrow> gc_ref set" for cycle h roots where
  reach_root: "r \<in> roots \<Longrightarrow> r \<in> gc_reach cycle h roots"
| reach_child: "r \<in> gc_reach cycle h roots \<Longrightarrow> c \<in> set (trace_children h r) \<Longrightarrow> entered cycle h c \<Longrightarrow>
    c \<in> gc_reach cycle h roots"

definition children_covered :: "gc_cycle \<Rightarrow> heap \<Rightarrow> heap \<Rightarrow> gc_ref \<Rightarrow> bool" where
  "children_covered cycle h0 h r \<longleftrightarrow> (\<forall>c \<in> set (trace_children h0 r). covered cycle h c)"

text \<open>The loop invariant: a marked reference is queued or has been dealt with.\<close>

definition done_with :: "gc_cycle \<Rightarrow> heap \<Rightarrow> tracing \<Rightarrow> gc_ref \<Rightarrow> bool" where
  "done_with cycle h0 t r \<longleftrightarrow> children_covered cycle h0 (mk_heap (tr_marking t)) r \<and>
     (\<forall>w. weak_ref h0 r = Some w \<longrightarrow> w \<in> set (tr_weak t)) \<and> (cycle = Minor \<longrightarrow> live_ref h0 r \<longrightarrow> r \<in> set (tr_marked t))"

definition trace_inv :: "gc_cycle \<Rightarrow> heap \<Rightarrow> gc_ref set \<Rightarrow> tracing \<Rightarrow> bool" where
  "trace_inv cycle h0 roots t \<longleftrightarrow>
     (let h = mk_heap (tr_marking t); q = set (mk_queue (tr_marking t)) in
      recolored h0 h \<and>
      (\<forall>r. ref_color h r \<noteq> White \<longrightarrow> r \<in> q \<or> done_with cycle h0 t r) \<and>
      (\<forall>r. live_ref h0 r \<longrightarrow> ref_color h r \<noteq> White \<longrightarrow> r \<in> gc_reach cycle h0 roots) \<and>
      q \<subseteq> gc_reach cycle h0 roots \<and> (\<forall>r \<in> roots \<union> q. covered Full h r) \<and>
      set (tr_marked t) \<subseteq> gc_reach cycle h0 roots \<and>
      (\<forall>w \<in> set (tr_weak t). weak_ref h0 (Gc_Table (fst w)) = Some w))"

lemma weak_refD: "weak_ref h r = Some w \<Longrightarrow> r = Gc_Table (fst w)"
  by (cases r) (auto simp: weak_ref_def bind_eq_Some_conv)

lemma done_with_mono:
  assumes "done_with cycle h0 t r" "darkens rs (tr_marking t) (tr_marking t')"
    "set (tr_weak t) \<subseteq> set (tr_weak t')" "set (tr_marked t) \<subseteq> set (tr_marked t')"
  shows "done_with cycle h0 t' r"
  using assms darkens_covered [OF assms(2)] unfolding done_with_def children_covered_def by blast

lemma blacken_darkens:
  assumes "darkens rs s s2" "mk_heap s' = set_color r Black (mk_heap s2)" "mk_queue s' = mk_queue s2"
    "covered Full (mk_heap s) r"
  shows "darkens rs s s'"
proof -
  have "in_range (mk_heap s2) r = in_range (mk_heap s) r" by (rule darkens_views(5) [OF assms(1)])
  then show ?thesis using assms by (auto simp: darkens_def ref_color_set_color covered_def)
qed

lemma covered_blacken: "covered cycle h c \<Longrightarrow> covered cycle (set_color r Black h) c"
  using recolored_entered [of h "set_color r Black h" cycle c] by (auto simp: covered_def ref_color_set_color)

lemma trace_step_inv:
  assumes inv: "trace_inv cycle h0 roots t" and q: "mk_queue (tr_marking t) = r # q"
    and step: "trace_step cycle r (t\<lparr>tr_marking := (tr_marking t)\<lparr>mk_queue := q\<rparr>\<rparr>) = Inr t'"
  shows "trace_inv cycle h0 roots t'"
proof -
  let ?s = "(tr_marking t)\<lparr>mk_queue := q\<rparr>" and ?h = "mk_heap (tr_marking t)" and ?h' = "mk_heap (tr_marking t')"
  let ?reach = "gc_reach cycle h0 roots" and ?t = "t\<lparr>tr_marking := (tr_marking t)\<lparr>mk_queue := q\<rparr>\<rparr>"
  have rec: "recolored h0 ?h" using inv by (simp add: trace_inv_def Let_def)
  note v = recolored_views [OF rec]
  obtain b s2 where m: "mark_all (marker cycle) (trace_children h0 r) (?s\<lparr>mk_budget := b\<rparr>) = Inr s2"
    and h': "?h' = set_color r Black (mk_heap s2)" and q': "mk_queue (tr_marking t') = mk_queue s2"
    and marked: "tr_marked t' = (if cycle = Minor then tr_marked t @ [r] else tr_marked t)"
    and weak: "tr_weak t' = record_weak (weak_ref h0 r) (tr_weak t)"
    using step by (rule trace_stepE) (simp add: v)
  let ?new = "{c \<in> set (trace_children h0 r). entered cycle h0 c}"
  have cov: "covered Full ?h r" and reach: "r \<in> ?reach" using inv by (simp_all add: trace_inv_def Let_def q)
  have "darkens ?new ?s s2" using marker_all_darkens [OF m] recolored_entered [OF rec] by simp
  then have D: "darkens ?new ?s (tr_marking t')" by (rule blacken_darkens [OF _ h' q']) (simp add: cov)
  have new: "?new \<subseteq> ?reach" using reach by (auto intro: reach_child)
  have kids: "children_covered cycle h0 ?h' r"
    using marker_all_darkens [OF m] by (simp add: children_covered_def h' covered_blacken)
  have done_r: "done_with cycle h0 t' r"
    using kids by (auto simp: done_with_def weak marked record_weak_def split: option.splits)
  have mono: "set (tr_weak t) \<subseteq> set (tr_weak t')" "set (tr_marked t) \<subseteq> set (tr_marked t')"
    by (auto simp: weak marked record_weak_def split: option.splits)
  have kept: "done_with cycle h0 t' r'" if "done_with cycle h0 t r'" for r'
    using that by (intro done_with_mono [of cycle h0 ?t r' ?new t', OF _ _ ]) (simp_all add: D mono done_with_def)
  have dealt: "r' \<in> set (mk_queue (tr_marking t')) \<or> done_with cycle h0 t' r'" if "ref_color ?h' r' \<noteq> White" for r'
  proof (cases "ref_color ?h r' = White \<or> r' \<in> set q")
    case True
    then show ?thesis using that D by (auto simp: darkens_def)
  next
    case False
    then have "r' = r \<or> done_with cycle h0 t r'" using inv by (auto simp: trace_inv_def Let_def q)
    then show ?thesis using done_r kept by blast
  qed
  have q_reach: "set (mk_queue (tr_marking t')) \<subseteq> ?reach"
    using D new inv by (auto simp: darkens_def trace_inv_def Let_def q)
  have live: "r' \<in> ?reach" if "live_ref h0 r'" "ref_color ?h' r' \<noteq> White" for r'
    using that D q_reach inv by (auto simp: darkens_def trace_inv_def Let_def)
  have covs: "covered Full ?h' r'" if "r' \<in> roots \<union> set (mk_queue (tr_marking t'))" for r'
    using that D inv darkens_covered [OF D, of Full r'] by (auto simp: darkens_def trace_inv_def Let_def q)
  have "set (tr_marked t') \<subseteq> ?reach" using inv reach by (auto simp: trace_inv_def Let_def marked)
  moreover have "weak_ref h0 (Gc_Table (fst w)) = Some w" if "w \<in> set (tr_weak t')" for w
    using that inv weak_refD [of h0 r w]
    by (auto simp: trace_inv_def Let_def weak record_weak_def split: option.splits)
  moreover have "recolored h0 ?h'" using rec darkens_recolored [OF D] by simp
  ultimately show ?thesis using dealt live q_reach covs unfolding trace_inv_def Let_def by blast
qed

lemma trace_step_aborts:
  assumes "trace_step cycle r t = Inl h'"
  shows "recolored (mk_heap (tr_marking t)) h'"
proof -
  let ?s = "tr_marking t" and ?cs = "trace_children (mk_heap (tr_marking t)) r"
  consider "h' = mk_heap ?s"
    | b where "mark_all (marker cycle) ?cs (?s\<lparr>mk_budget := b\<rparr>) = Inl h'"
    | b s2 where "mark_all (marker cycle) ?cs (?s\<lparr>mk_budget := b\<rparr>) = Inr s2" "h' = set_color r Black (mk_heap s2)"
    using assms by (cases cycle) (auto simp: trace_step_def Let_def gbind_Inl reserve_def split: if_splits)
  then show ?thesis
  proof cases
    case (2 b)
    then show ?thesis using marker_all_aborts [OF 2] by simp
  next
    case (3 b s2)
    then show ?thesis using marker_all_darkens [OF 3(1)] darkens_recolored by fastforce
  qed simp
qed

lemma trace_loop_inv:
  "trace_loop cycle t = Inr t' \<Longrightarrow> trace_inv cycle h0 roots t \<Longrightarrow>
     trace_inv cycle h0 roots t' \<and> mk_queue (tr_marking t') = []"
proof (induction cycle t rule: trace_loop.induct)
  case (1 cycle t)
  show ?case
  proof (cases "mk_queue (tr_marking t)")
    case Nil
    then show ?thesis using "1.prems" by (simp add: trace_loop.simps)
  next
    case (Cons r q)
    let ?t = "t\<lparr>tr_marking := (tr_marking t)\<lparr>mk_queue := q\<rparr>\<rparr>"
    obtain t1 where t1: "trace_step cycle r ?t = Inr t1" "trace_loop cycle t1 = Inr t'"
      using "1.prems"(1) by (auto simp: trace_loop.simps [of cycle t] Cons split: sum.splits)
    show ?thesis by (rule "1.IH" [OF Cons t1(1) t1(2) trace_step_inv [OF "1.prems"(2) Cons t1(1)]])
  qed
qed

lemma trace_loop_aborts:
  "trace_loop cycle t = Inl h' \<Longrightarrow> trace_inv cycle h0 roots t \<Longrightarrow> recolored h0 h'"
proof (induction cycle t rule: trace_loop.induct)
  case (1 cycle t)
  show ?case
  proof (cases "mk_queue (tr_marking t)")
    case Nil
    then show ?thesis using "1.prems" by (simp add: trace_loop.simps)
  next
    case (Cons r q)
    let ?t = "t\<lparr>tr_marking := (tr_marking t)\<lparr>mk_queue := q\<rparr>\<rparr>"
    have rec: "recolored h0 (mk_heap (tr_marking t))" using "1.prems"(2) by (simp add: trace_inv_def Let_def)
    show ?thesis
    proof (cases "trace_step cycle r ?t")
      case (Inl h1)
      then have "h1 = h'" using "1.prems"(1) by (simp add: trace_loop.simps [of cycle t] Cons)
      then show ?thesis using trace_step_aborts [OF Inl] rec by simp
    next
      case (Inr t1)
      then have "trace_loop cycle t1 = Inl h'" using "1.prems"(1) by (simp add: trace_loop.simps [of cycle t] Cons)
      then show ?thesis by (rule "1.IH" [OF Cons Inr _ trace_step_inv [OF "1.prems"(2) Cons Inr]])
    qed
  qed
qed

subsection \<open>Its result\<close>

text \<open>A heap with no marks on its objects, and what a completed loop leaves of it.\<close>

definition unmarked :: "heap \<Rightarrow> bool" where
  "unmarked h \<longleftrightarrow> (\<forall>r. live_ref h r \<longrightarrow> ref_color h r = White)"

definition traced_out :: "gc_cycle \<Rightarrow> heap \<Rightarrow> gc_ref set \<Rightarrow> tracing \<Rightarrow> bool" where
  "traced_out cycle h0 roots t \<longleftrightarrow>
     (let h = mk_heap (tr_marking t) in
      recolored h0 h \<and>
      (\<forall>r. live_ref h0 r \<longrightarrow> (ref_color h r \<noteq> White \<longleftrightarrow> r \<in> gc_reach cycle h0 roots)) \<and>
      (\<forall>r. live_ref h0 r \<longrightarrow> r \<in> gc_reach cycle h0 roots \<longrightarrow> done_with cycle h0 t r) \<and>
      set (tr_marked t) \<subseteq> gc_reach cycle h0 roots \<and>
      (\<forall>w \<in> set (tr_weak t). weak_ref h0 (Gc_Table (fst w)) = Some w))"

lemma trace_inv_reach:
  assumes "trace_inv cycle h0 roots t" "mk_queue (tr_marking t) = []" "r \<in> gc_reach cycle h0 roots"
  shows "covered Full (mk_heap (tr_marking t)) r"
  using assms(3)
proof induction
  case (reach_root r)
  then show ?case using assms(1) by (simp add: trace_inv_def Let_def)
next
  case (reach_child r c)
  let ?h = "mk_heap (tr_marking t)"
  have rec: "recolored h0 ?h" using assms(1) by (simp add: trace_inv_def Let_def)
  have "in_range h0 r" using reach_child.hyps(2) trace_children_out_of_range by force
  then have "ref_color ?h r \<noteq> White" using reach_child.IH recolored_views(5) [OF rec, of r] by (simp add: covered_def)
  then have "done_with cycle h0 t r" using assms(1,2) by (auto simp: trace_inv_def Let_def)
  then have "covered cycle ?h c" using reach_child.hyps(2) by (simp add: done_with_def children_covered_def)
  then show ?case using reach_child.hyps(3) recolored_entered [OF rec, of cycle c] by (simp add: covered_def)
qed

lemma trace_inv_traced:
  assumes "trace_inv cycle h0 roots t" "mk_queue (tr_marking t) = []"
  shows "traced_out cycle h0 roots t"
proof -
  let ?h = "mk_heap (tr_marking t)"
  have rec: "recolored h0 ?h" using assms(1) by (simp add: trace_inv_def Let_def)
  have black: "ref_color ?h r \<noteq> White" if "live_ref h0 r" "r \<in> gc_reach cycle h0 roots" for r
    using trace_inv_reach [OF assms that(2)] live_in_range [OF that(1)] recolored_views(5) [OF rec, of r]
    by (simp add: covered_def)
  then have "done_with cycle h0 t r" if "live_ref h0 r" "r \<in> gc_reach cycle h0 roots" for r
    using that assms by (auto simp: trace_inv_def Let_def)
  then show ?thesis using assms(1) black unfolding traced_out_def trace_inv_def Let_def by blast
qed

lemma weak_ref_live: "weak_ref h r = Some w \<Longrightarrow> live_ref h r"
  by (cases r) (auto simp: weak_ref_def live_ref_def bind_eq_Some_conv)

lemma trace_children_dead: "\<not> live_ref h r \<Longrightarrow> trace_children h r = []"
  using weak_ref_live [of h r] traced_of_dead [of h r]
  by (auto simp: trace_children_def collect_children_def split: option.split)

lemma darkens_trace_inv:
  assumes d: "darkens rs (start_marking b h0) s" "unmarked h0"
    and roots: "\<And>r. r \<in> roots \<Longrightarrow> covered Full (mk_heap s) r" "rs \<subseteq> gc_reach cycle h0 roots"
  shows "trace_inv cycle h0 roots \<lparr>tr_marking = s, tr_marked = [], tr_weak = []\<rparr>"
proof -
  let ?t = "\<lparr>tr_marking = s, tr_marked = [], tr_weak = []\<rparr>"
  have dead: "done_with cycle h0 ?t r" if "\<not> live_ref h0 r" for r
    using that trace_children_dead [OF that] by (auto simp: done_with_def children_covered_def dest: weak_ref_live)
  have old: "\<not> live_ref h0 r" if "ref_color (mk_heap s) r \<noteq> White" "r \<notin> set (mk_queue s)" for r
    using d that by (auto simp: darkens_def start_marking_def unmarked_def)
  show ?thesis unfolding trace_inv_def Let_def
  proof (intro conjI allI impI ballI)
    fix r assume "ref_color (mk_heap (tr_marking ?t)) r \<noteq> White"
    then show "r \<in> set (mk_queue (tr_marking ?t)) \<or> done_with cycle h0 ?t r" using dead old by auto
  next
    fix r assume "live_ref h0 r" "ref_color (mk_heap (tr_marking ?t)) r \<noteq> White"
    then show "r \<in> gc_reach cycle h0 roots" using old [of r] d(1) roots(2) by (auto simp: darkens_def start_marking_def)
  next
    fix r assume "r \<in> roots \<union> set (mk_queue (tr_marking ?t))"
    then show "covered Full (mk_heap (tr_marking ?t)) r"
      using roots(1) d(1) by (auto simp: darkens_def start_marking_def)
  qed (use d(1) roots(2) in \<open>auto simp: darkens_def start_marking_def\<close>)
qed

lemma major_trace:
  assumes "unmarked h" "mark_heap_roots roots (start_marking budget h) = Inr s"
  shows "trace_inv Full h (all_roots roots h) \<lparr>tr_marking = s, tr_marked = [], tr_weak = []\<rparr>"
proof -
  have h: "mk_heap (start_marking budget h) = h" by (simp add: start_marking_def)
  show ?thesis
    using mark_heap_roots_marks [OF assms(2)] by (intro darkens_trace_inv) (auto simp: h assms(1) intro: reach_root)
qed

text \<open>A minor cycle also starts from every thread and from the remembered objects it enters.\<close>

definition minor_roots :: "gc_ref list \<Rightarrow> heap \<Rightarrow> gc_ref set" where
  "minor_roots roots h = all_roots roots h \<union> {r \<in> set (thread_roots h) \<union> set (hp_remembered h). entered Minor h r}"

lemma minor_trace:
  assumes un: "unmarked h" and s: "mark_heap_roots roots (start_marking budget h) = Inr s"
    and s1: "mark_all mark_minor (thread_roots (mk_heap s)) s = Inr s1"
    and s2: "mark_all mark_minor (hp_remembered (mk_heap s1)) s1 = Inr s2"
  shows "trace_inv Minor h (minor_roots roots h) \<lparr>tr_marking = s2, tr_marked = [], tr_weak = []\<rparr>"
proof -
  let ?R = "minor_roots roots h"
  have h: "mk_heap (start_marking budget h) = h" by (simp add: start_marking_def)
  note d = mark_heap_roots_marks [OF s, unfolded h]
  note d1 = minor_marking.all_darkens [OF s1] and d2 = minor_marking.all_darkens [OF s2]
  have rec: "recolored h (mk_heap s)" using darkens_recolored [OF d(1)] by (simp add: h)
  then have rec1: "recolored h (mk_heap s1)" using d1 darkens_recolored by fastforce
  note v = recolored_views(11) [OF rec] recolored_views(10) [OF rec1] recolored_entered [OF rec] recolored_entered [OF rec1]
  have D: "darkens ?R (start_marking budget h) s" "darkens ?R s s1" "darkens ?R s1 s2"
    using d(1) d1 d2 by (auto simp: v minor_roots_def intro: darkens_mono)
  have e: "entered Minor (mk_heap s2) r = entered Minor h r" for r
    using recolored_entered [OF darkens_recolored [OF D(3)]] v(4) by simp
  have "covered Full (mk_heap s2) r" if r: "r \<in> ?R" for r
  proof -
    consider "r \<in> all_roots roots h" | "r \<in> set (thread_roots h)" "entered Minor h r"
      | "r \<in> set (hp_remembered h)" "entered Minor h r" using r by (auto simp: minor_roots_def)
    then show ?thesis
    proof cases
      case 1
      then show ?thesis using d(2) D(2,3) by (blast intro: darkens_covered)
    next
      case 2
      then have "covered Minor (mk_heap s2) r" using d1 D(3) by (auto simp: v intro: darkens_covered)
      then show ?thesis using 2(2) by (simp add: covered_def e)
    next
      case 3
      then have "covered Minor (mk_heap s2) r" using d2 by (simp add: v)
      then show ?thesis using 3(2) by (simp add: covered_def e)
    qed
  qed
  then show ?thesis using D un by (intro darkens_trace_inv [of ?R]) (auto intro: darkens_trans reach_root)
qed

end
