(* ===== verification/Gc_Weak.thy ===== *)
theory Gc_Weak
  imports Gc_Trace
begin

text \<open>
  Weak tables: clearing removes exactly the entries with an unreached weak component, and what is left
  of a table reports no other handles.
\<close>

section \<open>Tables by their entries\<close>

lemma visit_value_scalar [simp]:
  "visit_value LNil = []" "visit_value (LNumber x) = []" "weak_visit b LNil = []" "weak_visit b (LNumber x) = []"
  by (simp_all add: visit_value_def weak_visit_def)

definition entry_refs :: "raw_value \<times> raw_value \<Rightarrow> (gc_ref \<times> u32) set" where
  "entry_refs e = set (visit_value (fst e)) \<union> set (visit_value (snd e))"

definition weak_entry_refs :: "bool \<Rightarrow> bool \<Rightarrow> raw_value \<times> raw_value \<Rightarrow> gc_ref set" where
  "weak_entry_refs wk wv e = set (weak_visit wk (fst e)) \<union> set (weak_visit wv (snd e))"

lemma array_entries_set:
  assumes "\<And>x. P (LNumber x) = {}" "Q LNil = {}"
  shows "(\<Union>v \<in> set vs. Q v) = (\<Union>e \<in> set (array_entries i vs). P (fst e) \<union> Q (snd e))"
  by (induction vs arbitrary: i) (auto simp: assms split: if_splits)

lemma hash_entries_set:
  "(\<Union>e \<in> set (hash_entries ss). F e) = (\<Union>s \<in> set ss. case hs_value s of None \<Rightarrow> {} | Some v \<Rightarrow> F (hs_key_value s, v))"
  by (induction ss) (auto simp: hash_entries_def List.map_filter_simps split: option.splits)

lemma table_trace_entries:
  "set (table_trace t) = (\<Union>e \<in> set (for_each_entry t). entry_refs e) \<union>
     set (visit_option (visit_handle Gc_Table) (lt_metatable t))"
proof -
  have "(\<Union>v \<in> set (lt_array t). set (visit_value v)) = (\<Union>e \<in> set (array_entries 0 (lt_array t)). entry_refs e)"
    unfolding entry_refs_def by (rule array_entries_set) simp_all
  moreover have "(\<Union>s \<in> set (lt_hash t). set (visit_slot s)) = (\<Union>e \<in> set (hash_entries (lt_hash t)). entry_refs e)"
    unfolding hash_entries_set by (intro SUP_cong refl) (auto simp: visit_slot_def entry_refs_def split: option.splits)
  ultimately show ?thesis by (simp add: table_trace_def for_each_entry_def Un_assoc)
qed

lemma gc_trace_weak_entries:
  "set (gc_trace_weak wk wv t) = (\<Union>e \<in> set (for_each_entry t). weak_entry_refs wk wv e) \<union>
     fst ` set (visit_option (visit_handle Gc_Table) (lt_metatable t))"
proof -
  have "(\<Union>v \<in> set (lt_array t). set (weak_visit wv v)) = (\<Union>e \<in> set (array_entries 0 (lt_array t)). weak_entry_refs wk wv e)"
    unfolding weak_entry_refs_def by (rule array_entries_set) simp_all
  moreover have "(\<Union>s \<in> set (lt_hash t). set (weak_visit_slot wk wv s)) =
      (\<Union>e \<in> set (hash_entries (lt_hash t)). weak_entry_refs wk wv e)"
    unfolding hash_entries_set
    by (intro SUP_cong refl) (auto simp: weak_visit_slot_def weak_entry_refs_def split: option.splits)
  moreover have "set (case lt_metatable t of None \<Rightarrow> [] | Some m \<Rightarrow> [Gc_Table (gc_index m)]) =
      fst ` set (visit_option (visit_handle Gc_Table) (lt_metatable t))"
    by (cases "lt_metatable t") (simp_all add: visit_option_def visit_handle_def)
  ultimately show ?thesis by (simp add: gc_trace_weak_def for_each_entry_def Un_assoc)
qed

section \<open>Clearing fields\<close>

lemma set_nil_ok:
  assumes "table_ok t"
  shows "\<exists>t'. table_set key LNil t = Some (normalize_key key \<noteq> None, t') \<and> table_ok t' \<and> same_frame t t'"
proof (cases "normalize_key key")
  case None
  then show ?thesis using assms by (simp add: table_set_def set_inner_def same_frame_def)
next
  case (Some k)
  show ?thesis
  proof (cases "integer_slot t k")
    case (Some s)
    then show ?thesis using \<open>normalize_key key = Some k\<close> assms integer_slot_bound [OF Some]
      by (simp add: table_set_def set_inner_def array_update_ok same_frame_def)
  next
    case None
    then have nc: "\<not> array_claims (length (lt_array t)) k" using integer_slot_claims [of t k] by simp
    have "\<exists>t'. hash_set k key LNil t = Some t' \<and> table_ok t' \<and> same_frame t t'"
    proof (cases "lt_index t k")
      case None
      then show ?thesis using assms by (simp add: hash_set_def same_frame_def)
    next
      case (Some idx)
      from hash_set_known [OF assms \<open>normalize_key key = Some k\<close> nc refl Some] show ?thesis by blast
    qed
    then show ?thesis using None \<open>normalize_key key = Some k\<close> by (auto simp: table_set_def set_inner_def)
  qed
qed

text \<open>A table that lost the entries outside \<open>P\<close> and nothing else.\<close>

definition pruned_table :: "(raw_value \<times> raw_value \<Rightarrow> bool) \<Rightarrow> lua_table \<Rightarrow> lua_table \<Rightarrow> bool" where
  "pruned_table P t t' \<longleftrightarrow> table_ok t' \<and> same_frame t t' \<and> length (lt_array t') = length (lt_array t) \<and>
     for_each_entry t' = filter P (for_each_entry t)"

lemma clear_field_pruned:
  assumes "table_ok t" "length (lt_array t) < 2 ^ 53"
  shows "pruned_table (\<lambda>e. normalize_key (fst e) \<noteq> normalize_key key) t (clear_field key t)"
proof -
  obtain t' where t': "table_set key LNil t = Some (normalize_key key \<noteq> None, t')" "table_ok t'" "same_frame t t'"
    using set_nil_ok [OF assms(1)] by blast
  note c = set_nil_cleared [OF assms t'(1)]
  have "length (lt_array t') = length (lt_array t)" by (rule cleared_positions(4) [OF c])
  then show ?thesis using t' cleared_from(1) [OF c, of 0]
    by (simp add: pruned_table_def clear_field_def for_each_entry_from)
qed

lemma pruned_table_trans:
  "pruned_table P t t' \<Longrightarrow> pruned_table Q t' t'' \<Longrightarrow> pruned_table (\<lambda>e. P e \<and> Q e) t t''"
  by (auto simp: pruned_table_def same_frame_def filter_filter intro: filter_cong)

lemma clear_fields_pruned:
  assumes "table_ok t" "length (lt_array t) < 2 ^ 53"
  shows "pruned_table (\<lambda>e. normalize_key (fst e) \<notin> normalize_key ` set keys) t (fold clear_field keys t)"
  using assms
proof (induction keys arbitrary: t)
  case Nil
  then show ?case by (simp add: pruned_table_def same_frame_def)
next
  case (Cons key keys)
  note c = clear_field_pruned [OF Cons.prems, of key]
  have "pruned_table (\<lambda>e. normalize_key (fst e) \<notin> normalize_key ` set keys) (clear_field key t) (fold clear_field keys (clear_field key t))"
    using c Cons.prems(2) by (intro Cons.IH) (simp_all add: pruned_table_def)
  from pruned_table_trans [OF c this] show ?case by (simp add: conj_commute)
qed

lemma filter_keys_exact:
  assumes "distinct (map k xs)"
  shows "filter (\<lambda>e. k e \<notin> k ` set (filter D xs)) xs = filter (\<lambda>e. \<not> D e) xs"
  using assms by (intro filter_cong refl) (auto simp: distinct_map inj_on_def)

lemma clear_dead_pruned:
  assumes "table_ok t" "length (lt_array t) < 2 ^ 53"
  shows "pruned_table (\<lambda>e. \<not> D e) t (fold clear_field (map fst (filter D (for_each_entry t))) t)"
proof -
  have "normalize_key ` set (map fst (filter D (for_each_entry t))) = (normalize_key \<circ> fst) ` set (filter D (for_each_entry t))"
    by (simp add: image_comp)
  then show ?thesis
    using clear_fields_pruned [OF assms, of "map fst (filter D (for_each_entry t))"]
      filter_keys_exact [OF entries_distinct [OF assms], of D]
    by (simp add: pruned_table_def comp_def image_comp)
qed

section \<open>Clearing the weak tables of a heap\<close>

definition tables_ok :: "heap \<Rightarrow> bool" where
  "tables_ok h \<longleftrightarrow> (\<forall>i t. gc_value (tables h) i = Some t \<longrightarrow> table_ok t \<and> length (lt_array t) < 2 ^ 53)"

definition kept_entry :: "gc_cycle \<Rightarrow> (u32 \<times> bool \<times> bool) list \<Rightarrow> heap \<Rightarrow> u32 \<Rightarrow> raw_value \<times> raw_value \<Rightarrow> bool" where
  "kept_entry cycle ws h i e \<longleftrightarrow> (\<forall>wk wv. (i, wk, wv) \<in> set ws \<longrightarrow> \<not> dead_entry_of h cycle wk wv e)"

text \<open>Nothing changes but entries of tables, and of those exactly the dead ones go.\<close>

definition pruned :: "gc_cycle \<Rightarrow> (u32 \<times> bool \<times> bool) list \<Rightarrow> heap \<Rightarrow> heap \<Rightarrow> bool" where
  "pruned cycle ws h h' \<longleftrightarrow>
     (\<exists>es. h' = h\<lparr>tables := (tables h)\<lparr>ar_entries := es\<rparr>\<rparr> \<and> map en_color es = map en_color (ar_entries (tables h)) \<and>
        map en_age es = map en_age (ar_entries (tables h))) \<and>
     (arena_inv (tables h) \<longrightarrow> arena_inv (tables h')) \<and>
     (\<forall>i. rel_option (pruned_table (kept_entry cycle ws h i)) (gc_value (tables h) i) (gc_value (tables h') i))"

lemma gc_value_mut_value:
  "gc_value (gc_value_mut i f a) j = (if j = i then map_option f (gc_value a i) else gc_value a j)"
  by (auto simp: gc_value_def gc_value_mut_def update_entry_def get_def nth_list_update u32_unat_eq_iff)

lemma pruned_table_refl: "table_ok t \<Longrightarrow> (\<And>e. P e) \<Longrightarrow> pruned_table P t t"
  by (simp add: pruned_table_def same_frame_def)

lemma clear_weak_table_pruned:
  assumes ok: "tables_ok (mk_heap s)" and c: "clear_weak_table cycle w s = Inr s'"
  shows "pruned cycle [w] (mk_heap s) (mk_heap s')"
proof -
  let ?h = "mk_heap s"
  obtain i wk wv where w: "w = (i, wk, wv)" by (cases w)
  let ?keys = "dead_keys cycle w ?h" and ?a = "tables ?h"
  have h': "mk_heap s' = ?h\<lparr>tables := gc_value_mut i (fold clear_field ?keys) ?a\<rparr>"
    using c by (auto simp: clear_weak_table_def Let_def gbind_Inr reserve_Inr w)
  let ?es = "ar_entries (gc_value_mut i (fold clear_field ?keys) ?a)"
  have es: "gc_value_mut i (fold clear_field ?keys) ?a = ?a\<lparr>ar_entries := ?es\<rparr>"
    "map en_color ?es = map en_color (ar_entries ?a)" "map en_age ?es = map en_age (ar_entries ?a)"
    by (auto simp: gc_value_mut_def update_entry_def map_update list_update_same_conv)
  have "arena_inv ?a \<longrightarrow> arena_inv (tables (mk_heap s'))"
    by (auto simp: h' gc_value_mut_def intro: update_entry_inv)
  moreover have "rel_option (pruned_table (kept_entry cycle [w] ?h j)) (gc_value ?a j) (gc_value (tables (mk_heap s')) j)" for j
  proof (cases "gc_value ?a j")
    case None
    then show ?thesis by (auto simp: h' gc_value_mut_value)
  next
    case (Some t)
    then have t: "table_ok t" "length (lt_array t) < 2 ^ 53" using ok by (auto simp: tables_ok_def)
    show ?thesis
    proof (cases "j = i")
      case True
      have "pruned_table (\<lambda>e. \<not> dead_entry_of ?h cycle wk wv e) t (fold clear_field ?keys t)"
        using clear_dead_pruned [OF t, of "dead_entry_of ?h cycle wk wv"] Some True by (simp add: w dead_keys_def)
      moreover have "(\<lambda>e. \<not> dead_entry_of ?h cycle wk wv e) = kept_entry cycle [w] ?h i"
        by (simp add: fun_eq_iff kept_entry_def w)
      ultimately show ?thesis using Some True by (simp add: h' gc_value_mut_value)
    next
      case False
      then show ?thesis using Some t by (simp add: h' gc_value_mut_value kept_entry_def w pruned_table_refl)
    qed
  qed
  moreover have "mk_heap s' = ?h\<lparr>tables := ?a\<lparr>ar_entries := ?es\<rparr>\<rparr>" unfolding h' es(1) [symmetric] ..
  ultimately show ?thesis unfolding pruned_def using es(2,3) by blast
qed

lemma pruned_same:
  assumes "pruned cycle ws h h'"
  shows "ref_color h' r = ref_color h r" "ref_age h' r = ref_age h r" "in_range h' r = in_range h r"
    "live_ref h' r = live_ref h r" "is_live_gen h' r g = is_live_gen h r g"
    "\<not> (\<exists>i. r = Gc_Table i) \<Longrightarrow> traced_of h' r = traced_of h r"
proof -
  obtain es where es: "h' = h\<lparr>tables := (tables h)\<lparr>ar_entries := es\<rparr>\<rparr>"
    "map en_color es = map en_color (ar_entries (tables h))" "map en_age es = map en_age (ar_entries (tables h))"
    and rel: "\<And>i. rel_option (pruned_table (kept_entry cycle ws h i)) (gc_value (tables h) i) (gc_value (tables h') i)"
    using assms by (auto simp: pruned_def)
  have len: "length es = length (ar_entries (tables h))" using es(2) map_eq_imp_length_eq by blast
  have col: "en_color (es ! k) = en_color (ar_entries (tables h) ! k)"
    and age: "en_age (es ! k) = en_age (ar_entries (tables h) ! k)" if "k < length es" for k
    using that es(2,3) len nth_map [of k es] nth_map [of k "ar_entries (tables h)"] by (metis)+
  have val: "gc_value (tables h') i \<noteq> None \<longleftrightarrow> gc_value (tables h) i \<noteq> None" for i
    using rel [of i] by (auto simp: option_rel_Some1 option_rel_Some2)
  have gens: "ar_gens (tables h') = ar_gens (tables h)" by (simp add: es(1))
  show "ref_color h' r = ref_color h r" by (cases r) (simp_all add: ref_color_def es(1) gc_color_def get_def len col)
  show "ref_age h' r = ref_age h r" by (cases r) (simp_all add: ref_age_def es(1) gc_age_def get_def len age)
  show "in_range h' r = in_range h r" by (cases r) (simp_all add: in_range_def es(1) arena_len_def len)
  show "live_ref h' r = live_ref h r" using val by (cases r) (simp_all add: live_ref_def, simp_all add: es(1))
  have "arena_get (tables h') i g \<noteq> None \<longleftrightarrow> arena_get (tables h) i g \<noteq> None" for i
    using val [of i] by (auto simp: arena_get_def gc_value_def gens)
  then show "is_live_gen h' r g = is_live_gen h r g" by (cases r) (simp_all add: is_live_gen_def, simp_all add: es(1))
  show "traced_of h' r = traced_of h r" if "\<not> (\<exists>i. r = Gc_Table i)"
    using that by (cases r) (simp_all add: traced_of_def es(1))
qed

lemma pruned_refl:
  assumes "tables_ok h"
  shows "pruned cycle [] h h"
proof -
  have "rel_option (pruned_table (kept_entry cycle [] h i)) (gc_value (tables h) i) (gc_value (tables h) i)" for i
    using assms by (cases "gc_value (tables h) i") (auto simp: tables_ok_def kept_entry_def intro: pruned_table_refl)
  then show ?thesis by (auto simp: pruned_def intro: exI [of _ "ar_entries (tables h)"])
qed

lemma pruned_tables_ok: "pruned cycle ws h h' \<Longrightarrow> tables_ok h \<Longrightarrow> tables_ok h'"
  unfolding pruned_def tables_ok_def
  by (metis (no_types, lifting) option_rel_Some2 pruned_table_def)

lemma kept_entry_pruned: "pruned cycle ws' h h' \<Longrightarrow> kept_entry cycle ws h' i e = kept_entry cycle ws h i e"
  using pruned_same(1,2) [of cycle ws' h h']
  by (auto simp: kept_entry_def dead_entry_of_def is_dead_component_def split: raw_value.splits option.splits)

lemma pruned_trans:
  assumes p: "pruned cycle ws h h'" and p': "pruned cycle ws' h' h''"
  shows "pruned cycle (ws @ ws') h h''"
proof -
  have "rel_option (pruned_table (kept_entry cycle (ws @ ws') h i)) (gc_value (tables h) i) (gc_value (tables h'') i)" for i
  proof -
    have "kept_entry cycle ws' h' i = kept_entry cycle ws' h i"
      by (intro ext) (rule kept_entry_pruned [OF p])
    then have "rel_option (pruned_table (kept_entry cycle ws h i)) (gc_value (tables h) i) (gc_value (tables h') i)"
      "rel_option (pruned_table (kept_entry cycle ws' h i)) (gc_value (tables h') i) (gc_value (tables h'') i)"
      using p p' unfolding pruned_def by metis+
    moreover have "(\<lambda>e. kept_entry cycle ws h i e \<and> kept_entry cycle ws' h i e) = kept_entry cycle (ws @ ws') h i"
      by (auto simp: kept_entry_def fun_eq_iff)
    ultimately show ?thesis
      by (cases "gc_value (tables h) i"; cases "gc_value (tables h') i"; cases "gc_value (tables h'') i")
        (auto dest: pruned_table_trans)
  qed
  then show ?thesis using p p' unfolding pruned_def by auto
qed

lemma clear_weak_tables_pruned:
  "tables_ok (mk_heap s) \<Longrightarrow> clear_weak_tables cycle ws s = Inr s' \<Longrightarrow> pruned cycle ws (mk_heap s) (mk_heap s')"
proof (induction ws arbitrary: s)
  case Nil
  then show ?case by (simp add: pruned_refl)
next
  case (Cons w ws)
  then obtain s1 where s1: "clear_weak_table cycle w s = Inr s1" "clear_weak_tables cycle ws s1 = Inr s'"
    by (auto simp: gbind_Inr)
  note p = clear_weak_table_pruned [OF Cons.prems(1) s1(1)]
  from pruned_trans [OF p Cons.IH [OF pruned_tables_ok [OF p Cons.prems(1)] s1(2)]] show ?case by simp
qed

lemma clear_weak_tables_aborts:
  "tables_ok (mk_heap s) \<Longrightarrow> clear_weak_tables cycle ws s = Inl h' \<Longrightarrow> \<exists>vs. set vs \<subseteq> set ws \<and> pruned cycle vs (mk_heap s) h'"
proof (induction ws arbitrary: s)
  case (Cons w ws)
  from Cons.prems(2) consider "h' = mk_heap s"
    | s1 where "clear_weak_table cycle w s = Inr s1" "clear_weak_tables cycle ws s1 = Inl h'"
    by (auto simp: gbind_Inl clear_weak_table_def Let_def reserve_def split: if_splits)
  then show ?case
  proof cases
    case 1
    then show ?thesis using pruned_refl [OF Cons.prems(1)] by (intro exI [of _ "[]"]) simp
  next
    case (2 s1)
    note p = clear_weak_table_pruned [OF Cons.prems(1) 2(1)]
    obtain vs where "set vs \<subseteq> set ws" "pruned cycle vs (mk_heap s1) h'"
      using Cons.IH [OF pruned_tables_ok [OF p Cons.prems(1)] 2(2)] by blast
    with pruned_trans [OF p] show ?thesis by (intro exI [of _ "[w] @ vs"]) auto
  qed
qed simp

text \<open>The handles of a pruned table are those of the entries that were kept.\<close>

lemma pruned_traced:
  assumes "pruned cycle ws h h'" "c \<in> set (traced_of h' r)"
  shows "c \<in> set (traced_of h r)"
    and "r = Gc_Table i \<Longrightarrow> gc_value (tables h) i = Some t \<Longrightarrow>
      (\<exists>e \<in> set (for_each_entry t). kept_entry cycle ws h i e \<and> c \<in> entry_refs e) \<or>
      c \<in> set (visit_option (visit_handle Gc_Table) (lt_metatable t))"
proof -
  have *: "(\<exists>e \<in> set (for_each_entry t). kept_entry cycle ws h i e \<and> c \<in> entry_refs e) \<or>
      c \<in> set (visit_option (visit_handle Gc_Table) (lt_metatable t))"
    if r: "r = Gc_Table i" "gc_value (tables h) i = Some t" for i t
  proof -
    obtain t' where t': "gc_value (tables h') i = Some t'" "pruned_table (kept_entry cycle ws h i) t t'"
      using assms(1) r(2) by (auto simp: pruned_def option_rel_Some1 dest!: spec [of _ i])
    then have "c \<in> set (table_trace t')" using assms(2) by (simp add: r(1) traced_of_def visit_option_def)
    then show ?thesis using t'(2) by (auto simp: table_trace_entries pruned_table_def same_frame_def)
  qed
  then show "r = Gc_Table i \<Longrightarrow> gc_value (tables h) i = Some t \<Longrightarrow>
      (\<exists>e \<in> set (for_each_entry t). kept_entry cycle ws h i e \<and> c \<in> entry_refs e) \<or>
      c \<in> set (visit_option (visit_handle Gc_Table) (lt_metatable t))" by blast
  show "c \<in> set (traced_of h r)"
  proof (cases "\<exists>i. r = Gc_Table i")
    case True
    then obtain i where i: "r = Gc_Table i" by blast
    have "live_ref h' r" using assms(2) traced_of_dead [of h' r] by (cases "live_ref h' r") auto
    then have "live_ref h r" by (simp add: pruned_same(4) [OF assms(1)])
    then obtain t where "gc_value (tables h) i = Some t" by (auto simp: live_ref_def i)
    then show ?thesis using * [OF i] by (auto simp: i traced_of_def visit_option_def table_trace_entries)
  next
    case False
    then show ?thesis using assms pruned_same(6) [OF assms(1)] by simp
  qed
qed

end
