(* ===== verification/Gc_Sweep.thy ===== *)
theory Gc_Sweep
  imports Gc_Weak
begin

text \<open>
  The sweep of all arenas, reference by reference: what stays, with which age and colour, and what the
  interner keeps.
\<close>

section \<open>One arena\<close>

definition keeps :: "gc_cycle \<Rightarrow> 'a arena \<Rightarrow> u32 \<Rightarrow> bool" where
  "keeps cycle a i \<longleftrightarrow> gc_color a i \<noteq> White \<or> cycle = Minor \<and> gc_age a i \<noteq> Young"

definition arena_sweep :: "gc_cycle \<Rightarrow> 'a arena \<Rightarrow> 'a list \<times> 'a arena" where
  "arena_sweep cycle a = (case cycle of
       Minor \<Rightarrow> gc_sweep_minor_with a
     | Full \<Rightarrow> (fst (gc_sweep_with a), gc_compact (snd (gc_sweep_with a))))"

definition arena_fine :: "'a arena \<Rightarrow> bool" where
  "arena_fine a \<longleftrightarrow> arena_inv a \<and> arena_len a < 2 ^ 32"

lemma arena_fineD: "arena_fine a \<Longrightarrow> arena_inv a" "arena_fine a \<Longrightarrow> arena_ok a" "arena_fine a \<Longrightarrow> length (ar_entries a) < 2 ^ 32"
  by (simp_all add: arena_fine_def arena_len_def)

definition visits :: "gc_cycle \<Rightarrow> 'a arena_entry \<Rightarrow> bool" where
  "visits cycle e \<longleftrightarrow> cycle = Full \<or> young_entry e"

lemma gc_value_at: "live_at a (unat i) \<Longrightarrow> gc_value a i = en_value (ar_entries a ! unat i)"
  "live_at a (unat i) \<Longrightarrow> gc_color a i = en_color (ar_entries a ! unat i)"
  "live_at a (unat i) \<Longrightarrow> gc_age a i = en_age (ar_entries a ! unat i)"
  "\<not> live_at a (unat i) \<Longrightarrow> gc_value a i = None"
  by (auto simp: gc_value_def gc_color_def gc_age_def get_def live_at_def)

lemma doomed_keeps: "live_at a (unat i) \<Longrightarrow> doomed (visits cycle) a i \<longleftrightarrow> \<not> keeps cycle a i"
  by (cases cycle) (auto simp: doomed_def keeps_def visits_def gc_value_at)

text \<open>The arena as the sweep leaves it, before compaction.\<close>

definition raw_sweep :: "gc_cycle \<Rightarrow> 'a arena \<Rightarrow> 'a arena" where
  "raw_sweep cycle a = (case cycle of Minor \<Rightarrow> snd (gc_sweep_minor_with a) | Full \<Rightarrow> snd (gc_sweep_with a))"

lemma raw_sweep_facts:
  assumes "arena_fine a"
  shows "arena_inv (raw_sweep cycle a)" "handles (raw_sweep cycle a) = handles a |` {h. \<not> doomed (visits cycle) a (fst h)}"
    "live_at (raw_sweep cycle a) (unat i) \<longleftrightarrow> live_at a (unat i) \<and> \<not> doomed (visits cycle) a i"
    "live_at (raw_sweep cycle a) (unat i) \<Longrightarrow> ar_entries (raw_sweep cycle a) ! unat i =
       (if visits cycle (ar_entries a ! unat i) then (ar_entries a ! unat i)\<lparr>en_color := White, en_age := Old\<rparr>
        else ar_entries a ! unat i)"
    "length (ar_entries (raw_sweep cycle a)) = length (ar_entries a)"
proof -
  note ok = arena_fineD(2,3) [OF assms]
  have "arena_inv (raw_sweep cycle a) \<and> handles (raw_sweep cycle a) = handles a |` {h. \<not> doomed (visits cycle) a (fst h)} \<and>
    (live_at (raw_sweep cycle a) (unat i) \<longleftrightarrow> live_at a (unat i) \<and> \<not> doomed (visits cycle) a i) \<and>
    (live_at (raw_sweep cycle a) (unat i) \<longrightarrow> ar_entries (raw_sweep cycle a) ! unat i =
       (if visits cycle (ar_entries a ! unat i) then (ar_entries a ! unat i)\<lparr>en_color := White, en_age := Old\<rparr>
        else ar_entries a ! unat i)) \<and> length (ar_entries (raw_sweep cycle a)) = length (ar_entries a)"
  proof (cases cycle)
    case Minor
    have v: "visits Minor = young_entry" by (simp add: visits_def fun_eq_iff)
    note sw = gc_sweep_minor_swept [OF ok(1)]
    have "length (ar_entries (snd (gc_sweep_minor_with a))) = length (ar_entries a)" using sw(2) by (simp add: swept_def)
    moreover have "live_at (snd (gc_sweep_minor_with a)) (unat i) \<longleftrightarrow> live_at a (unat i) \<and> \<not> doomed young_entry a i"
      using swept_live [OF sw(2), of i] doomed_young_listed [OF ok(1), of i] by blast
    ultimately show ?thesis unfolding Minor v raw_sweep_def
      using sw(1) sw(4) [of i] swept_handles [OF ok(1) _ sw(2) doomed_young_listed [OF ok(1)]] by simp
  next
    case Full
    have v: "visits Full = (\<lambda>_. True)" by (simp add: visits_def fun_eq_iff)
    have all: "doomed (\<lambda>_. True) a j \<Longrightarrow> j \<in> set (slots a)" for j
      by (simp add: set_slots [OF ok(2)] doomed_def live_at_def)
    note sw = gc_sweep_with_swept [OF ok]
    have "length (ar_entries (snd (gc_sweep_with a))) = length (ar_entries a)" using sw(2) by (simp add: swept_def)
    moreover have "live_at (snd (gc_sweep_with a)) (unat i) \<longleftrightarrow> live_at a (unat i) \<and> \<not> doomed (\<lambda>_. True) a i"
      using swept_live [OF sw(2), of i] all [of i] by blast
    ultimately show ?thesis unfolding Full v raw_sweep_def
      using sw(1) sw(4) [of i] swept_handles [OF ok(1) _ sw(2) all] by simp
  qed
  then show "arena_inv (raw_sweep cycle a)" "handles (raw_sweep cycle a) = handles a |` {h. \<not> doomed (visits cycle) a (fst h)}"
    "live_at (raw_sweep cycle a) (unat i) \<longleftrightarrow> live_at a (unat i) \<and> \<not> doomed (visits cycle) a i"
    "live_at (raw_sweep cycle a) (unat i) \<Longrightarrow> ar_entries (raw_sweep cycle a) ! unat i =
       (if visits cycle (ar_entries a ! unat i) then (ar_entries a ! unat i)\<lparr>en_color := White, en_age := Old\<rparr>
        else ar_entries a ! unat i)"
    "length (ar_entries (raw_sweep cycle a)) = length (ar_entries a)" by blast+
qed

lemma arena_sweep_raw: "snd (arena_sweep cycle a) = (if cycle = Full then gc_compact (raw_sweep cycle a) else raw_sweep cycle a)"
  by (cases cycle) (simp_all add: arena_sweep_def raw_sweep_def)

lemma sweep_keeps:
  assumes "arena_fine a"
  shows "gc_value (snd (arena_sweep cycle a)) i = (if keeps cycle a i then gc_value a i else None)"
    and "arena_get (snd (arena_sweep cycle a)) i g = (if keeps cycle a i then arena_get a i g else None)"
    and "arena_fine (snd (arena_sweep cycle a))"
    and "gc_value (snd (arena_sweep cycle a)) i \<noteq> None \<Longrightarrow>
      gc_color (snd (arena_sweep cycle a)) i = (if cycle = Full \<or> gc_age a i = Young then White else gc_color a i) \<and>
      gc_age (snd (arena_sweep cycle a)) i = (if cycle = Full \<or> gc_age a i = Young then Old else gc_age a i)"
proof -
  let ?r = "raw_sweep cycle a" and ?a = "snd (arena_sweep cycle a)"
  note raw = raw_sweep_facts [OF assms, where cycle = cycle]
  have inv: "arena_inv ?a" using raw(1) gc_compact_inv by (auto simp: arena_sweep_raw)
  have hd: "handles ?a = handles ?r" using gc_compact_handles [OF raw(1)] by (cases "cycle = Full") (simp_all add: arena_sweep_raw)
  have lv: "live_at ?a k = live_at ?r k" for k by (simp add: arena_sweep_raw)
  have en: "live_at ?r k \<Longrightarrow> ar_entries ?a ! k = ar_entries ?r ! k" for k
    using gc_compact_entry [of ?r k] by (cases "cycle = Full") (simp_all add: arena_sweep_raw)
  have "length (ar_entries ?a) \<le> length (ar_entries ?r)"
    by (simp add: arena_sweep_raw gc_compact_shape)
  then show "arena_fine ?a" using inv raw(5) arena_fineD(3) [OF assms] by (simp add: arena_fine_def arena_len_def)
  have doom: "live_at a (unat i) \<Longrightarrow> doomed (visits cycle) a i = (\<not> keeps cycle a i)"
    by (rule doomed_keeps)
  show "gc_value ?a i = (if keeps cycle a i then gc_value a i else None)"
  proof (cases "live_at a (unat i)")
    case True
    then show ?thesis using raw(3,4) [of i] doom lv [of "unat i"] en [of "unat i"]
      by (cases "keeps cycle a i") (auto simp: gc_value_at)
  next
    case False
    then show ?thesis using raw(3) [of i] lv [of "unat i"] by (simp add: gc_value_at)
  qed
  have "handles a (i, g) = None" if "\<not> live_at a (unat i)"
    using that by (simp add: handles_eq [OF arena_fineD(2) [OF assms]])
  then have "arena_get ?a i g = (if keeps cycle a i then handles a (i, g) else None)"
    using raw(2) hd doom
    by (cases "live_at a (unat i)") (auto simp: handles_def [symmetric, of ?a "(i, g)", simplified] restrict_map_def)
  then show "arena_get ?a i g = (if keeps cycle a i then arena_get a i g else None)" by (simp add: handles_def)
  show "gc_value ?a i \<noteq> None \<Longrightarrow>
      gc_color ?a i = (if cycle = Full \<or> gc_age a i = Young then White else gc_color a i) \<and>
      gc_age ?a i = (if cycle = Full \<or> gc_age a i = Young then Old else gc_age a i)"
    using raw(3,4) [of i] lv [of "unat i"] en [of "unat i"] by (auto simp: gc_value_live gc_value_at visits_def)
qed

lemma sweep_freed:
  assumes "arena_fine a"
  shows "set (fst (arena_sweep cycle a)) = {v. \<exists>i. gc_value a i = Some v \<and> \<not> keeps cycle a i}"
proof (cases cycle)
  case Full
  have "set (fst (gc_sweep_with a)) = (\<lambda>h. the (handles a h)) ` {h \<in> dom (handles a). doomed (\<lambda>_. True) a (fst h)}"
    using gc_sweep_with_freed [OF arena_fineD(2,3) [OF assms]] retired_by_set [OF arena_fineD(2,3) [OF assms]] by simp
  also have "\<dots> = {v. \<exists>i. gc_value a i = Some v \<and> \<not> keeps Full a i}"
  proof (intro equalityI subsetI)
    fix v assume "v \<in> (\<lambda>h. the (handles a h)) ` {h \<in> dom (handles a). doomed (\<lambda>_. True) a (fst h)}"
    then obtain i g where "handles a (i, g) = Some v" "doomed (\<lambda>_. True) a i" by auto
    then show "v \<in> {v. \<exists>i. gc_value a i = Some v \<and> \<not> keeps Full a i}"
      using handles_gc_value [OF arena_fineD(2) [OF assms], of "(i, g)"] by (auto simp: doomed_iff keeps_def)
  next
    fix v assume "v \<in> {v. \<exists>i. gc_value a i = Some v \<and> \<not> keeps Full a i}"
    then obtain i where i: "gc_value a i = Some v" "\<not> keeps Full a i" by auto
    then have l: "live_at a (unat i)" using gc_value_live [of a i] by simp
    then have "handles a (i, ar_gens a ! unat i) = Some v"
      using i(1) by (simp add: handles_eq [OF arena_fineD(2) [OF assms]] gc_value_at)
    moreover have "doomed (\<lambda>_. True) a i" using i by (simp add: doomed_iff keeps_def)
    ultimately show "v \<in> (\<lambda>h. the (handles a h)) ` {h \<in> dom (handles a). doomed (\<lambda>_. True) a (fst h)}"
      by (intro image_eqI [of _ _ "(i, ar_gens a ! unat i)"]) auto
  qed
  finally show ?thesis by (simp add: arena_sweep_def Full)
next
  case Minor
  have "set (fst (gc_sweep_minor_with a)) = (\<lambda>i. the (gc_value a i)) ` {i \<in> set (ar_young a). doomed young_entry a i}"
    by (simp add: gc_sweep_minor_freed [OF arena_fineD(1) [OF assms]])
  also have "\<dots> = {v. \<exists>i. gc_value a i = Some v \<and> \<not> keeps Minor a i}"
  proof -
    have "doomed young_entry a i \<longleftrightarrow> gc_value a i \<noteq> None \<and> \<not> keeps Minor a i" for i
      using doomed_keeps [of a i Minor] gc_value_live [of a i] by (auto simp: visits_def doomed_def)
    then show ?thesis using doomed_young_listed [OF arena_fineD(2) [OF assms]]
      by (auto simp: image_iff) (metis option.sel)
  qed
  finally show ?thesis by (simp add: arena_sweep_def Minor)
qed

section \<open>All arenas\<close>

definition arenas_fine :: "'h object_store_scheme \<Rightarrow> bool" where
  "arenas_fine h \<longleftrightarrow> arena_fine (strings h) \<and> arena_fine (tables h) \<and> arena_fine (closures h) \<and> arena_fine (userdata h) \<and>
     arena_fine (threads h) \<and> arena_fine (buffers h) \<and> arena_fine (protos h) \<and> arena_fine (upvals h)"

definition ref_keeps :: "gc_cycle \<Rightarrow> 'h object_store_scheme \<Rightarrow> gc_ref \<Rightarrow> bool" where
  "ref_keeps cycle h r \<longleftrightarrow> ref_color h r \<noteq> White \<or> cycle = Minor \<and> ref_age h r \<noteq> Young"

lemma arena_sweep_simps:
  "gc_sweep_minor_with a = arena_sweep Minor a"
  "fst (gc_sweep_with a) = fst (arena_sweep Full a)" "gc_compact (snd (gc_sweep_with a)) = snd (arena_sweep Full a)"
  by (simp_all add: arena_sweep_def)

lemma sweep_objects_heap:
  "sw_heap (sweep_objects cycle h) = h\<lparr>strings := snd (arena_sweep cycle (strings h)),
     tables := snd (arena_sweep cycle (tables h)), closures := snd (arena_sweep cycle (closures h)),
     userdata := snd (arena_sweep cycle (userdata h)), threads := snd (arena_sweep cycle (threads h)),
     buffers := snd (arena_sweep cycle (buffers h)), protos := snd (arena_sweep cycle (protos h)),
     upvals := snd (arena_sweep cycle (upvals h)),
     hp_interner := interner_remove (fst (arena_sweep cycle (strings h))) (hp_interner h)\<rparr>"
  by (cases cycle) (simp_all add: sweep_objects_def split_beta Let_def gc_compact_all_def arena_sweep_simps)

lemma sweep_views:
  fixes h :: heap and cycle :: gc_cycle
  assumes fine: "arenas_fine h"
  defines "h' \<equiv> sw_heap (sweep_objects cycle h)"
  shows "live_ref h' r \<longleftrightarrow> live_ref h r \<and> ref_keeps cycle h r"
    and "is_live_gen h' r g \<longleftrightarrow> is_live_gen h r g \<and> ref_keeps cycle h r"
    and "traced_of h' r = (if ref_keeps cycle h r then traced_of h r else [])"
    and "arenas_fine h'"
    and "live_ref h' r \<Longrightarrow> ref_color h' r = (if cycle = Full \<or> ref_age h r = Young then White else ref_color h r)"
    and "live_ref h' r \<Longrightarrow> ref_age h' r = (if cycle = Full \<or> ref_age h r = Young then Old else ref_age h r)"
proof -
  note h' = h'_def sweep_objects_heap
  have f: "arena_fine (strings h)" "arena_fine (tables h)" "arena_fine (closures h)" "arena_fine (userdata h)"
    "arena_fine (threads h)" "arena_fine (buffers h)" "arena_fine (protos h)" "arena_fine (upvals h)"
    using fine by (simp_all add: arenas_fine_def)
  note val = f [THEN sweep_keeps(1)] and get = f [THEN sweep_keeps(2)]
  show "live_ref h' r \<longleftrightarrow> live_ref h r \<and> ref_keeps cycle h r"
    by (cases r) (simp_all add: h' live_ref_def ref_keeps_def ref_color_def ref_age_def val keeps_def)
  show "is_live_gen h' r g \<longleftrightarrow> is_live_gen h r g \<and> ref_keeps cycle h r"
    by (cases r) (simp_all add: h' is_live_gen_def ref_keeps_def ref_color_def ref_age_def get keeps_def)
  show "traced_of h' r = (if ref_keeps cycle h r then traced_of h r else [])"
    by (cases r) (simp_all add: h' traced_of_def ref_keeps_def ref_color_def ref_age_def val keeps_def visit_option_def)
  show "arenas_fine h'" using f [THEN sweep_keeps(3)] by (simp add: h' arenas_fine_def)
  note st = f [THEN sweep_keeps(4)]
  show "live_ref h' r \<Longrightarrow> ref_color h' r = (if cycle = Full \<or> ref_age h r = Young then White else ref_color h r)"
    by (cases r) (simp_all add: h' live_ref_def ref_color_def ref_age_def st)
  show "live_ref h' r \<Longrightarrow> ref_age h' r = (if cycle = Full \<or> ref_age h r = Young then Old else ref_age h r)"
    by (cases r) (simp_all add: h' live_ref_def ref_age_def st)
qed

section \<open>Settling what a minor cycle marked\<close>

lemma gc_age_set:
  "gc_age (gc_set_age i g a) j = (if j = i \<and> unat i < arena_len a then g else gc_age a j)"
  "gc_age (gc_set_color i c a) j = gc_age a j" "gc_color (gc_set_age i g a) j = gc_color a j"
  "gc_value (gc_set_age i g a) j = gc_value a j" "gc_value (gc_set_color i c a) j = gc_value a j"
  "arena_get (gc_set_age i g a) j k = arena_get a j k" "arena_get (gc_set_color i c a) j k = arena_get a j k"
  "arena_len (gc_set_age i g a) = arena_len a"
  by (auto simp: gc_age_def gc_color_def gc_value_def arena_get_def gc_set_age_def gc_set_color_def update_entry_def
      get_def arena_len_def nth_list_update u32_unat_eq_iff)

lemma set_age_views [simp]:
  "ref_color (set_age r a h) r' = ref_color h r'" "live_ref (set_age r a h) r' = live_ref h r'"
  "is_live_gen (set_age r a h) r' g = is_live_gen h r' g" "traced_of (set_age r a h) r' = traced_of h r'"
  "in_range (set_age r a h) r' = in_range h r'"
  by (cases r; cases r'; simp add: set_age_def ref_color_def live_ref_def is_live_gen_def traced_of_def in_range_def gc_age_set)+

lemma ref_age_set_age: "ref_age (set_age r a h) r' = (if r' = r \<and> in_range h r then a else ref_age h r')"
  by (cases r; cases r') (simp_all add: set_age_def ref_age_def in_range_def gc_age_set)

lemma set_color_views [simp]:
  "ref_age (set_color r c h) r' = ref_age h r'" "live_ref (set_color r c h) r' = live_ref h r'"
  "is_live_gen (set_color r c h) r' g = is_live_gen h r' g" "traced_of (set_color r c h) r' = traced_of h r'"
  by (cases r; cases r'; simp add: set_color_def ref_age_def live_ref_def is_live_gen_def traced_of_def gc_age_set)+

lemma set_color_fine [simp]: "arenas_fine h \<Longrightarrow> arenas_fine (set_color r c h)"
  by (cases r) (auto simp: arenas_fine_def set_color_def arena_fine_def gc_set_color_def intro: update_entry_inv)

lemma set_age_fine [simp]: "arenas_fine h \<Longrightarrow> a \<noteq> Young \<Longrightarrow> arenas_fine (set_age r a h)"
  by (cases r) (auto simp: arenas_fine_def set_age_def arena_fine_def gc_set_age_def intro: update_entry_inv)

text \<open>What settling leaves of the fields that are not colours or ages.\<close>

definition same_objects :: "heap \<Rightarrow> heap \<Rightarrow> bool" where
  "same_objects h h' \<longleftrightarrow> (\<forall>r. live_ref h' r = live_ref h r \<and> traced_of h' r = traced_of h r) \<and>
     (\<forall>r g. is_live_gen h' r g = is_live_gen h r g) \<and> (\<forall>r. in_range h' r = in_range h r) \<and>
     (\<forall>i. gc_value (tables h') i = gc_value (tables h) i \<and> gc_value (threads h') i = gc_value (threads h) i) \<and>
     (\<forall>i g. arena_get (strings h') i g = arena_get (strings h) i g) \<and>
     object_store.more h' = object_store.more h"

lemma same_objects_refl [simp]: "same_objects h h"
  by (simp add: same_objects_def)

lemma same_objects_trans: "same_objects h h' \<Longrightarrow> same_objects h' h'' \<Longrightarrow> same_objects h h''"
  by (simp add: same_objects_def)

lemma same_objects_set: "same_objects h (set_color r c h)" "same_objects h (set_age r a h)"
  by (simp_all add: same_objects_def, (cases r, simp_all add: set_color_def set_age_def gc_age_set)+)

lemma settle_same: "same_objects h (settle_marked r h)"
  unfolding settle_marked_def Let_def
  by (auto intro: same_objects_trans [OF same_objects_set(1) same_objects_set(2)] same_objects_set)

lemma settle_views:
  "ref_color (settle_marked r h) r' = (if r' = r \<and> in_range h r then White else ref_color h r')"
  "ref_age (settle_marked r h) r' = (if r' = r \<and> ref_age h r = OldRemembered \<and> in_range h r then Old else ref_age h r')"
  by (auto simp: settle_marked_def Let_def ref_color_set_color ref_age_set_age)

lemma settle_all:
  "same_objects h (fold settle_marked rs h)"
  "ref_color (fold settle_marked rs h) r = (if r \<in> set rs \<and> in_range h r then White else ref_color h r)"
  "ref_age (fold settle_marked rs h) r = (if r \<in> set rs \<and> ref_age h r = OldRemembered \<and> in_range h r then Old else ref_age h r)"
  "arenas_fine h \<Longrightarrow> arenas_fine (fold settle_marked rs h)"
proof (induction rs arbitrary: h)
  case (Cons x rs)
  have ir: "in_range (settle_marked x h) r = in_range h r" for h using settle_same [of h x] by (simp add: same_objects_def)
  { case 1 show ?case using same_objects_trans [OF settle_same Cons(1)] by simp }
  { case 2 show ?case by (auto simp: Cons(2) settle_views ir) }
  { case 3 show ?case by (auto simp: Cons(3) settle_views ir) }
  { case 4
    then have "arenas_fine (settle_marked x h)" by (simp add: settle_marked_def Let_def)
    then show ?case by (simp add: Cons(4)) }
qed simp_all

end
