(* ===== verification/Gc_Safe.thy ===== *)
theory Gc_Safe
  imports Gc_Sweep
begin

text \<open>
  The invariant of the heap between collections, and that every outcome of a cycle keeps it: completed
  or abandoned, major or minor.
\<close>

section \<open>The invariant\<close>

definition no_dangling :: "heap \<Rightarrow> bool" where
  "no_dangling h \<longleftrightarrow> (\<forall>r. \<forall>c \<in> set (traced_of h r). is_live_gen h (fst c) (snd c))"

definition roots_live :: "heap \<Rightarrow> bool" where
  "roots_live h \<longleftrightarrow>
     (\<forall>g. Some g \<in> {hp_string_metatable h, hp_vector_metatable h, hp_error_metatable h} \<longrightarrow> heap_table h g \<noteq> None) \<and>
     (\<forall>g. Some g \<in> set (hp_metamethod_names h) \<longrightarrow> heap_string h g \<noteq> None) \<and>
     (\<forall>v \<in> set (gc_anchors h). \<forall>r g. from_value_gen v = Some (r, g) \<longrightarrow> is_live_gen h r g)"

text \<open>A thread's own identity is its handle.\<close>

definition ids_ok :: "heap \<Rightarrow> bool" where
  "ids_ok h \<longleftrightarrow> (\<forall>i t g. gc_value (threads h) i = Some t \<longrightarrow> th_id t = Some g \<longrightarrow> gc_index g = i \<and> heap_thread h g \<noteq> None)"

text \<open>The interner lists exactly the live strings.\<close>

definition interner_ok :: "heap \<Rightarrow> bool" where
  "interner_ok h \<longleftrightarrow> (\<forall>b g. hp_interner h b = Some g \<longleftrightarrow> (\<exists>s. heap_string h g = Some s \<and> ls_bytes s = b))"

text \<open>
  What a minor cycle relies on: remembered ages are on the list, and unless a major cycle is forced no
  plain old object other than a thread refers to a young one.
\<close>

definition generations_ok :: "heap \<Rightarrow> bool" where
  "generations_ok h \<longleftrightarrow>
     (\<forall>r. live_ref h r \<longrightarrow> ref_age h r = OldRemembered \<longrightarrow> r \<in> set (hp_remembered h)) \<and>
     (hp_force_major h \<or>
      (\<forall>r. live_ref h r \<longrightarrow> ref_age h r = Old \<longrightarrow> \<not> is_thread r \<longrightarrow>
         (\<forall>c \<in> set (traced_of h r). ref_age h (fst c) \<noteq> Young)))"

definition gc_inv :: "heap \<Rightarrow> bool" where
  "gc_inv h \<longleftrightarrow> arenas_fine h \<and> tables_ok h \<and> unmarked h \<and> no_dangling h \<and> roots_live h \<and> ids_ok h \<and>
     interner_ok h \<and> generations_ok h"

lemma gc_invD:
  assumes "gc_inv h"
  shows "arenas_fine h" "tables_ok h" "unmarked h" "no_dangling h" "roots_live h" "ids_ok h" "interner_ok h" "generations_ok h"
  using assms by (simp_all add: gc_inv_def)

section \<open>Marking and clearing\<close>

text \<open>The heap a cycle is left with before it sweeps: colours changed, some weak entries cleared.\<close>

definition weakened :: "gc_cycle \<Rightarrow> (u32 \<times> bool \<times> bool) list \<Rightarrow> heap \<Rightarrow> heap \<Rightarrow> bool" where
  "weakened cycle ws h h' \<longleftrightarrow> (\<exists>h1. recolored h h1 \<and> pruned cycle ws h1 h')"

lemma decolor_fine: "arenas_fine (decolor h) = arenas_fine h"
  by (simp add: arenas_fine_def arena_fine_def decolor_def decolor_arena_inv)

lemma decolor_objects:
  "arena_get (strings (decolor h)) i g = arena_get (strings h) i g"
  "gc_value (threads (decolor h)) i = gc_value (threads h) i"
  "arena_get (threads (decolor h)) i g = arena_get (threads h) i g"
  "arena_get (tables (decolor h)) i g = arena_get (tables h) i g"
  "object_store.more (decolor h) = object_store.more h"
  by (simp_all add: decolor_def)

lemma recolored_objects:
  assumes "recolored h h'"
  shows "arenas_fine h' = arenas_fine h" "tables_ok h' = tables_ok h" "arena_get (strings h') i g = arena_get (strings h) i g"
    "gc_value (threads h') i = gc_value (threads h) i" "arena_get (threads h') i g = arena_get (threads h) i g"
    "gc_value (tables h') i = gc_value (tables h) i"
    "object_store.more h' = object_store.more h"
proof -
  have t: "gc_value (tables h') j = gc_value (tables h) j" for j
    using assms decolor_access(5) by metis
  then show "gc_value (tables h') i = gc_value (tables h) i" .
  show "tables_ok h' = tables_ok h" by (simp add: tables_ok_def t)
  show "arenas_fine h' = arenas_fine h" "arena_get (strings h') i g = arena_get (strings h) i g"
    "gc_value (threads h') i = gc_value (threads h) i" "arena_get (threads h') i g = arena_get (threads h) i g"
    "object_store.more h' = object_store.more h"
    using assms decolor_fine decolor_objects by metis+
qed

lemma pruned_objects:
  assumes "pruned cycle ws h h'"
  shows "arenas_fine h \<Longrightarrow> arenas_fine h'" "strings h' = strings h" "threads h' = threads h"
    "object_store.more h' = object_store.more h"
proof -
  obtain es where es: "h' = h\<lparr>tables := (tables h)\<lparr>ar_entries := es\<rparr>\<rparr>"
    and len: "map en_color es = map en_color (ar_entries (tables h))" using assms by (auto simp: pruned_def)
  have "length es = length (ar_entries (tables h))" using len map_eq_imp_length_eq by blast
  moreover have "arena_inv (tables h) \<Longrightarrow> arena_inv (tables h')" using assms by (simp add: pruned_def)
  ultimately show "arenas_fine h \<Longrightarrow> arenas_fine h'" by (simp add: arenas_fine_def arena_fine_def es arena_len_def)
  show "strings h' = strings h" "threads h' = threads h" "object_store.more h' = object_store.more h" by (simp_all add: es)
qed

lemma weakened_same:
  assumes "weakened cycle ws h h'"
  shows "live_ref h' r = live_ref h r" "ref_age h' r = ref_age h r" "in_range h' r = in_range h r"
    "is_live_gen h' r g = is_live_gen h r g" "c \<in> set (traced_of h' r) \<Longrightarrow> c \<in> set (traced_of h r)"
    "arenas_fine h \<Longrightarrow> arenas_fine h'" "tables_ok h \<Longrightarrow> tables_ok h'" "arena_get (strings h') i k = arena_get (strings h) i k"
    "gc_value (threads h') i = gc_value (threads h) i" "arena_get (threads h') i k = arena_get (threads h) i k"
    "object_store.more h' = object_store.more h"
proof -
  obtain h1 where h1: "recolored h h1" and p: "pruned cycle ws h1 h'" using assms by (auto simp: weakened_def)
  note v = recolored_views [OF h1] recolored_objects [OF h1] and w = pruned_same [OF p] pruned_objects [OF p]
  show "live_ref h' r = live_ref h r" "ref_age h' r = ref_age h r" "in_range h' r = in_range h r"
    "is_live_gen h' r g = is_live_gen h r g" "arena_get (strings h') i k = arena_get (strings h) i k"
    "gc_value (threads h') i = gc_value (threads h) i" "arena_get (threads h') i k = arena_get (threads h) i k"
    "object_store.more h' = object_store.more h" "arenas_fine h \<Longrightarrow> arenas_fine h'"
    by (simp_all add: v w)
  show "c \<in> set (traced_of h' r) \<Longrightarrow> c \<in> set (traced_of h r)" using pruned_traced(1) [OF p] by (simp add: v)
  show "tables_ok h \<Longrightarrow> tables_ok h'" using pruned_tables_ok [OF p] by (simp add: v)
qed

text \<open>Fields that neither marking nor clearing touches.\<close>

lemma more_fields:
  assumes "object_store.more h' = object_store.more h"
  shows "hp_id h' = hp_id h" "hp_interner h' = hp_interner h" "hp_registry h' = hp_registry h"
    "hp_string_metatable h' = hp_string_metatable h" "hp_vector_metatable h' = hp_vector_metatable h"
    "hp_error_metatable h' = hp_error_metatable h" "hp_metamethod_names h' = hp_metamethod_names h"
    "hp_remembered h' = hp_remembered h" "hp_force_major h' = hp_force_major h" "hp_taken_out h' = hp_taken_out h"
  using assms by (cases h; cases h'; simp)+

definition start_tracing :: "marking \<Rightarrow> tracing" where
  "start_tracing s = \<lparr>tr_marking = s, tr_marked = [], tr_weak = []\<rparr>"

lemma recolored_weakened: "tables_ok h \<Longrightarrow> recolored h h' \<Longrightarrow> weakened cycle [] h h'"
  using pruned_refl recolored_objects(2) unfolding weakened_def by blast

lemma trace_completes:
  assumes "trace_inv cycle h roots (start_tracing s)" "tables_ok h" "trace cycle s = Inr t"
  obtains t0 where "traced_out cycle h roots t0" "tr_marked t = tr_marked t0"
    "pruned cycle (tr_weak t0) (mk_heap (tr_marking t0)) (mk_heap (tr_marking t))"
proof -
  obtain t0 s1 where t0: "trace_loop cycle (start_tracing s) = Inr t0"
    and s1: "clear_weak_tables cycle (tr_weak t0) (tr_marking t0) = Inr s1" and t: "t = t0\<lparr>tr_marking := s1\<rparr>"
    using assms(3) by (auto simp: trace_def gbind_Inr start_tracing_def)
  have out: "traced_out cycle h roots t0"
    using trace_loop_inv [OF t0 assms(1)] trace_inv_traced by blast
  then have "recolored h (mk_heap (tr_marking t0))" by (simp add: traced_out_def Let_def)
  then have "tables_ok (mk_heap (tr_marking t0))" using recolored_objects(2) assms(2) by blast
  from clear_weak_tables_pruned [OF this s1] out show ?thesis by (auto simp: t intro: that)
qed

lemma trace_aborts:
  assumes inv: "trace_inv cycle h roots (start_tracing s)" and ok: "tables_ok h" and a: "trace cycle s = Inl h'"
  shows "\<exists>ws. weakened cycle ws h h'"
proof -
  consider "trace_loop cycle (start_tracing s) = Inl h'"
    | t0 where "trace_loop cycle (start_tracing s) = Inr t0" "clear_weak_tables cycle (tr_weak t0) (tr_marking t0) = Inl h'"
    using a by (auto simp: trace_def gbind_Inl start_tracing_def)
  then show ?thesis
  proof cases
    case 1
    then show ?thesis using recolored_weakened [OF ok trace_loop_aborts [OF 1 inv]] by blast
  next
    case (2 t0)
    have rec: "recolored h (mk_heap (tr_marking t0))"
      using trace_loop_inv [OF 2(1) inv] by (simp add: trace_inv_def Let_def)
    then have "tables_ok (mk_heap (tr_marking t0))" using recolored_objects(2) ok by blast
    from clear_weak_tables_aborts [OF this 2(2)] show ?thesis using rec by (auto simp: weakened_def)
  qed
qed

lemma traced_weakened:
  assumes "traced_out cycle h roots t0" "pruned cycle (tr_weak t0) (mk_heap (tr_marking t0)) h'"
  shows "weakened cycle (tr_weak t0) h h'"
  using assms by (auto simp: weakened_def traced_out_def Let_def)

section \<open>What survives\<close>

definition survives :: "gc_cycle \<Rightarrow> heap \<Rightarrow> gc_ref set \<Rightarrow> gc_ref \<Rightarrow> bool" where
  "survives cycle h roots r \<longleftrightarrow> r \<in> gc_reach cycle h roots \<or> cycle = Minor \<and> ref_age h r \<noteq> Young"

lemma keeps_survives:
  assumes "traced_out cycle h roots t0" "pruned cycle ws (mk_heap (tr_marking t0)) h'" "live_ref h r"
  shows "ref_keeps cycle h' r = survives cycle h roots r"
proof -
  have "recolored h (mk_heap (tr_marking t0))" using assms(1) by (simp add: traced_out_def Let_def)
  then have "ref_age (mk_heap (tr_marking t0)) r = ref_age h r" by (rule recolored_views(2))
  then show ?thesis using assms(1,3)
    by (simp add: ref_keeps_def survives_def pruned_same(1,2) [OF assms(2)] traced_out_def Let_def)
qed

lemma covered_survives:
  assumes "traced_out cycle h roots t0" "covered cycle (mk_heap (tr_marking t0)) r" "live_ref h r"
  shows "survives cycle h roots r"
proof -
  let ?h = "mk_heap (tr_marking t0)"
  have rec: "recolored h ?h" using assms(1) by (simp add: traced_out_def Let_def)
  have "in_range ?h r" using live_in_range [OF assms(3)] recolored_views(5) [OF rec] by simp
  then have "ref_color ?h r \<noteq> White \<or> \<not> entered cycle h r"
    using assms(2) recolored_entered [OF rec] by (auto simp: covered_def)
  then show ?thesis using assms(1,3) by (cases cycle) (auto simp: survives_def traced_out_def Let_def entered_def)
qed

text \<open>A component of an entry that was kept is strong, and so was traced, or was reached otherwise.\<close>

lemma component_survives:
  assumes out: "traced_out cycle h roots t0" and live: "live_ref h (fst c)" and c: "c \<in> set (visit_value v)"
    and alive: "\<not> (weak \<and> is_dead_component (mk_heap (tr_marking t0)) cycle v)"
    and traced: "\<And>x. x \<in> set (weak_visit weak v) \<Longrightarrow> covered cycle (mk_heap (tr_marking t0)) x"
  shows "survives cycle h roots (fst c)"
proof (cases "fst c \<in> set (weak_visit weak v)")
  case True
  then show ?thesis using covered_survives [OF out traced live] by blast
next
  case False
  let ?h = "mk_heap (tr_marking t0)"
  have rec: "recolored h ?h" using out by (simp add: traced_out_def Let_def)
  have "from_value v = Some (fst c)" using c by (cases v) (auto simp: visit_value_def)
  then have w: "weak \<and> \<not> (case v of LString _ \<Rightarrow> True | _ \<Rightarrow> False)"
    using False by (cases weak; cases v) (simp_all add: weak_visit_def)
  then have "\<not> is_dead_component ?h cycle v" using alive by blast
  with w have "ref_color ?h (fst c) \<noteq> White \<or> cycle = Minor \<and> ref_age ?h (fst c) \<noteq> Young"
    using \<open>from_value v = Some (fst c)\<close>
    by (cases cycle; cases v) (simp_all add: is_dead_component_def)
  then show ?thesis using out live recolored_views(2) [OF rec]
    by (auto simp: survives_def traced_out_def Let_def)
qed

lemma reached_child_survives:
  assumes out: "traced_out cycle h roots t0" and p: "pruned cycle (tr_weak t0) (mk_heap (tr_marking t0)) h'"
    and r: "r \<in> gc_reach cycle h roots" and c: "c \<in> set (traced_of h' r)" and live: "live_ref h (fst c)"
  shows "survives cycle h roots (fst c)"
proof -
  let ?h = "mk_heap (tr_marking t0)"
  have rec: "recolored h ?h" using out by (simp add: traced_out_def Let_def)
  note v = recolored_views [OF rec] recolored_objects(6) [OF rec]
  have cr: "c \<in> set (traced_of h r)" using pruned_traced(1) [OF p c] by (simp add: v)
  then have "live_ref h r" using traced_of_dead [of h r] by (cases "live_ref h r") auto
  then have d: "done_with cycle h t0 r" using out r by (simp add: traced_out_def Let_def)
  then have cov: "x \<in> set (trace_children h r) \<Longrightarrow> covered cycle ?h x" for x
    by (simp add: done_with_def children_covered_def)
  show ?thesis
  proof (cases "weak_ref h r")
    case None
    then have "fst c \<in> set (trace_children h r)" using cr by (auto simp: trace_children_def collect_children_def)
    then show ?thesis using covered_survives [OF out cov live] by blast
  next
    case (Some w)
    obtain i wk wv where w: "w = (i, wk, wv)" by (cases w)
    have ri: "r = Gc_Table i" using weak_refD [OF Some] by (simp add: w)
    obtain t where t: "gc_value (tables h) i = Some t" using Some by (auto simp: ri weak_ref_def bind_eq_Some_conv)
    have tc: "trace_children h r = gc_trace_weak wk wv t" using Some t by (simp add: trace_children_def w)
    have "w \<in> set (tr_weak t0)" using d Some by (simp add: done_with_def)
    then have kept: "\<not> dead_entry_of ?h cycle wk wv e" if "kept_entry cycle (tr_weak t0) ?h i e" for e
      using that by (auto simp: kept_entry_def w)
    consider e where "e \<in> set (for_each_entry t)" "kept_entry cycle (tr_weak t0) ?h i e" "c \<in> entry_refs e"
      | "c \<in> set (visit_option (visit_handle Gc_Table) (lt_metatable t))"
      using pruned_traced(2) [OF p c ri, of t] t by (auto simp: v)
    then show ?thesis
    proof cases
      case (1 e)
      have e: "x \<in> weak_entry_refs wk wv e \<Longrightarrow> covered cycle ?h x" for x
        using cov 1(1) by (auto simp: tc gc_trace_weak_entries)
      from 1(3) consider "c \<in> set (visit_value (fst e))" | "c \<in> set (visit_value (snd e))" by (auto simp: entry_refs_def)
      then show ?thesis
      proof cases
        case 1
        then show ?thesis using kept [OF \<open>kept_entry _ _ _ _ e\<close>] e
          by (intro component_survives [OF out live, of "fst e" wk]) (auto simp: dead_entry_of_def weak_entry_refs_def)
      next
        case 2
        then show ?thesis using kept [OF \<open>kept_entry _ _ _ _ e\<close>] e
          by (intro component_survives [OF out live, of "snd e" wv]) (auto simp: dead_entry_of_def weak_entry_refs_def)
      qed
    next
      case 2
      then have "fst c \<in> set (trace_children h r)" by (auto simp: tc gc_trace_weak_entries)
      then show ?thesis using covered_survives [OF out cov live] by blast
    qed
  qed
qed

definition cycle_roots :: "gc_cycle \<Rightarrow> gc_ref list \<Rightarrow> heap \<Rightarrow> gc_ref set" where
  "cycle_roots cycle roots h = (case cycle of Full \<Rightarrow> all_roots roots h | Minor \<Rightarrow> minor_roots roots h)"

lemma thread_root:
  assumes "arenas_fine h" "gc_value (threads h) i \<noteq> None"
  shows "Gc_Thread i \<in> set (thread_roots h)"
proof -
  have "unat i < arena_len (threads h)" "arena_len (threads h) < 2 ^ 32"
    using gc_value_in_range [OF assms(2)] assms(1) by (simp_all add: arenas_fine_def arena_fine_def)
  then have "i \<in> set (map of_nat [0..<unat (of_nat (arena_len (threads h)) :: u32)])"
    by (auto simp: unat_of_nat_u32 intro: image_eqI [where x = "unat i"])
  then show ?thesis using assms(2) by (simp add: thread_roots_def)
qed

lemma minor_root_reached:
  assumes "arenas_fine h" "generations_ok h" "live_ref h r" "is_thread r \<or> ref_age h r = OldRemembered"
  shows "r \<in> gc_reach Minor h (minor_roots roots h)"
proof (intro reach_root)
  have e: "entered Minor h r" using assms(4) by (auto simp: entered_def)
  show "r \<in> minor_roots roots h"
  proof (cases "is_thread r")
    case True
    then obtain i where "r = Gc_Thread i" by (cases r) (simp_all add: is_thread_def)
    then show ?thesis using assms(1,3) e thread_root [of h i] by (auto simp: minor_roots_def live_ref_def)
  next
    case False
    then have "r \<in> set (hp_remembered h)" using assms(2,3,4) by (simp add: generations_ok_def)
    then show ?thesis using e by (simp add: minor_roots_def)
  qed
qed

text \<open>An old object the minor cycle does not enter refers to no young one.\<close>

lemma unentered_child_survives:
  assumes inv: "arenas_fine h" "generations_ok h" "\<not> hp_force_major h" and r: "live_ref h r" "ref_age h r \<noteq> Young"
    "r \<notin> gc_reach Minor h (minor_roots roots h)" and c: "c \<in> set (traced_of h r)"
  shows "survives Minor h (minor_roots roots h) (fst c)"
proof -
  have "\<not> is_thread r" "ref_age h r \<noteq> OldRemembered" using minor_root_reached [OF inv(1,2) r(1)] r(3) by blast+
  then have "ref_age h r = Old" "\<not> is_thread r" using r(2) by (cases "ref_age h r"; simp)+
  then have "ref_age h (fst c) \<noteq> Young" using inv(2,3) r(1) c by (auto simp: generations_ok_def)
  then show ?thesis by (simp add: survives_def)
qed

lemma child_survives:
  assumes inv: "gc_inv h" and minor: "cycle = Minor \<Longrightarrow> \<not> hp_force_major h"
    and out: "traced_out cycle h (cycle_roots cycle roots h) t0"
    and p: "pruned cycle (tr_weak t0) (mk_heap (tr_marking t0)) h'"
    and r: "live_ref h r" "survives cycle h (cycle_roots cycle roots h) r" and c: "c \<in> set (traced_of h' r)"
  shows "survives cycle h (cycle_roots cycle roots h) (fst c)"
proof -
  have cr: "c \<in> set (traced_of h r)" by (rule weakened_same(5) [OF traced_weakened [OF out p] c])
  then have "is_live_gen h (fst c) (snd c)" using gc_invD(4) [OF inv] by (simp add: no_dangling_def)
  then have live: "live_ref h (fst c)" by (rule is_live_gen_live)
  show ?thesis
  proof (cases "r \<in> gc_reach cycle h (cycle_roots cycle roots h)")
    case True
    then show ?thesis by (rule reached_child_survives [OF out p _ c live])
  next
    case False
    then have "cycle = Minor" "ref_age h r \<noteq> Young" using r(2) by (auto simp: survives_def)
    then show ?thesis
      using unentered_child_survives [OF gc_invD(1,8) [OF inv] _ r(1), of roots c] False cr minor
      by (simp add: cycle_roots_def)
  qed
qed

section \<open>A completed cycle\<close>

definition finished :: "gc_cycle \<Rightarrow> gc_ref list \<Rightarrow> heap \<Rightarrow> heap" where
  "finished cycle marked h = (case cycle of
       Full \<Rightarrow> sw_heap (sweep_objects Full h)
     | Minor \<Rightarrow> fold settle_marked marked (sw_heap (sweep_objects Minor h)))"

lemma finished_views:
  assumes inv: "gc_inv h" and out: "traced_out cycle h (cycle_roots cycle roots h) t0"
    and p: "pruned cycle (tr_weak t0) (mk_heap (tr_marking t0)) h2"
  defines "h' \<equiv> finished cycle (tr_marked t0) h2" and "R \<equiv> cycle_roots cycle roots h"
  shows "live_ref h' r \<longleftrightarrow> live_ref h r \<and> survives cycle h R r"
    and "is_live_gen h' r g \<longleftrightarrow> is_live_gen h r g \<and> survives cycle h R r"
    and "c \<in> set (traced_of h' r) \<Longrightarrow> c \<in> set (traced_of h2 r)"
    and "arenas_fine h'"
    and "live_ref h' r \<Longrightarrow> ref_color h' r = White \<and> ref_age h' r = Old"
proof -
  let ?h1 = "sw_heap (sweep_objects cycle h2)"
  note w = weakened_same [OF traced_weakened [OF out p]]
  have fine2: "arenas_fine h2" by (rule w(6) [OF gc_invD(1) [OF inv]])
  note sw = sweep_views [OF fine2, where cycle = cycle]
  have same: "same_objects ?h1 h'" by (cases cycle) (simp_all add: h'_def finished_def settle_all)
  have ks: "live_ref h r \<Longrightarrow> ref_keeps cycle h2 r = survives cycle h R r"
    unfolding R_def by (rule keeps_survives [OF out p])
  show live': "live_ref h' r \<longleftrightarrow> live_ref h r \<and> survives cycle h R r"
    using same sw(1) [of r] ks by (auto simp: same_objects_def w)
  show "is_live_gen h' r g \<longleftrightarrow> is_live_gen h r g \<and> survives cycle h R r"
    using same sw(2) [of r g] ks is_live_gen_live [of h r g] by (auto simp: same_objects_def w)
  show "c \<in> set (traced_of h' r) \<Longrightarrow> c \<in> set (traced_of h2 r)"
    using same sw(3) [of r] by (auto simp: same_objects_def split: if_splits)
  show "arenas_fine h'" using sw(4) by (cases cycle) (simp_all add: h'_def finished_def settle_all)
  assume l: "live_ref h' r"
  then have l1: "live_ref ?h1 r" using same by (simp add: same_objects_def)
  show "ref_color h' r = White \<and> ref_age h' r = Old"
  proof (cases cycle)
    case Full
    then show ?thesis using sw(5,6) [OF l1] by (simp add: h'_def finished_def)
  next
    case Minor
    have reach: "r \<in> set (tr_marked t0)" if "r \<in> gc_reach cycle h R"
      using that out l live' by (simp add: R_def traced_out_def Let_def done_with_def Minor)
    have col: "ref_color h2 r \<noteq> White \<Longrightarrow> r \<in> gc_reach cycle h R"
      using out l live' by (simp add: R_def traced_out_def Let_def pruned_same(1) [OF p])
    have rem: "ref_age h2 r = OldRemembered \<Longrightarrow> r \<in> gc_reach cycle h R"
      using minor_root_reached [OF gc_invD(1,8) [OF inv], of r roots] l live'
      by (simp add: w R_def cycle_roots_def Minor)
    have ir: "in_range ?h1 r" by (rule live_in_range [OF l1])
    show ?thesis using sw(5,6) [OF l1] reach col rem ir
      by (cases "ref_age h2 r") (auto simp: h'_def finished_def Minor settle_all)
  qed
qed

lemma finished_objects:
  fixes h :: heap and cycle :: gc_cycle and marked :: "gc_ref list"
  assumes "arenas_fine h"
  defines "h' \<equiv> finished cycle marked h"
  shows "gc_value (tables h') i = Some t \<Longrightarrow> gc_value (tables h) i = Some t"
    and "gc_value (threads h') i = Some u \<Longrightarrow> gc_value (threads h) i = Some u"
    and "arena_get (strings h') i g = (if keeps cycle (strings h) i then arena_get (strings h) i g else None)"
    and "hp_interner h' = interner_remove (fst (arena_sweep cycle (strings h))) (hp_interner h)"
    and "hp_id h' = hp_id h" "hp_registry h' = hp_registry h" "hp_string_metatable h' = hp_string_metatable h"
      "hp_vector_metatable h' = hp_vector_metatable h" "hp_error_metatable h' = hp_error_metatable h"
      "hp_metamethod_names h' = hp_metamethod_names h" "hp_taken_out h' = hp_taken_out h"
proof -
  let ?h1 = "sw_heap (sweep_objects cycle h)"
  have same: "same_objects ?h1 h'" by (cases cycle) (simp_all add: h'_def finished_def settle_all)
  note m = more_fields [of h' ?h1]
  have fine: "arena_fine (tables h)" "arena_fine (threads h)" "arena_fine (strings h)"
    using assms(1) by (simp_all add: arenas_fine_def)
  have "gc_value (tables h') i = gc_value (tables ?h1) i" "gc_value (threads h') i = gc_value (threads ?h1) i"
    "arena_get (strings h') i g = arena_get (strings ?h1) i g" using same by (simp_all add: same_objects_def)
  then show "gc_value (tables h') i = Some t \<Longrightarrow> gc_value (tables h) i = Some t"
    "gc_value (threads h') i = Some u \<Longrightarrow> gc_value (threads h) i = Some u"
    "arena_get (strings h') i g = (if keeps cycle (strings h) i then arena_get (strings h) i g else None)"
    using fine by (simp_all add: sweep_objects_heap sweep_keeps(1,2) split: if_splits)
  have m: "object_store.more h' = object_store.more ?h1" using same by (simp add: same_objects_def)
  show "hp_interner h' = interner_remove (fst (arena_sweep cycle (strings h))) (hp_interner h)"
    "hp_id h' = hp_id h" "hp_registry h' = hp_registry h" "hp_string_metatable h' = hp_string_metatable h"
    "hp_vector_metatable h' = hp_vector_metatable h" "hp_error_metatable h' = hp_error_metatable h"
    "hp_metamethod_names h' = hp_metamethod_names h" "hp_taken_out h' = hp_taken_out h"
    using more_fields [OF m] by (simp_all add: sweep_objects_heap)
qed

lemma heap_handles_live:
  "heap_table h g \<noteq> None \<longleftrightarrow> gc_heap g = hp_id h \<and> is_live_gen h (Gc_Table (gc_index g)) (gc_generation g)"
  "heap_string h g \<noteq> None \<longleftrightarrow> gc_heap g = hp_id h \<and> is_live_gen h (Gc_Str (gc_index g)) (gc_generation g)"
  "heap_thread h g \<noteq> None \<longleftrightarrow> gc_heap g = hp_id h \<and> is_live_gen h (Gc_Thread (gc_index g)) (gc_generation g)"
  by (simp_all add: heap_table_def heap_string_def heap_thread_def is_live_gen_def)

lemma interner_remove_eq: "interner_remove ss m b = (if b \<in> ls_bytes ` set ss then None else m b)"
  unfolding interner_remove_def by (induction ss arbitrary: m) auto

lemma fixed_root_reached:
  "Some g \<in> {hp_string_metatable h, hp_vector_metatable h, hp_error_metatable h} \<Longrightarrow>
     Gc_Table (gc_index g) \<in> gc_reach cycle h (cycle_roots cycle roots h)"
  "Some g \<in> set (hp_metamethod_names h) \<Longrightarrow> Gc_Str (gc_index g) \<in> gc_reach cycle h (cycle_roots cycle roots h)"
  "v \<in> set (gc_anchors h) \<Longrightarrow> from_value_gen v = Some (r, k) \<Longrightarrow> r \<in> gc_reach cycle h (cycle_roots cycle roots h)"
proof -
  have root: "x \<in> gc_reach cycle h (cycle_roots cycle roots h)" if "x \<in> all_roots roots h" for x
    using that by (intro reach_root) (cases cycle; simp add: cycle_roots_def minor_roots_def)
  show "Some g \<in> {hp_string_metatable h, hp_vector_metatable h, hp_error_metatable h} \<Longrightarrow>
      Gc_Table (gc_index g) \<in> gc_reach cycle h (cycle_roots cycle roots h)"
    by (rule root) (auto simp: all_roots_def fixed_roots_def handle_roots_def split: option.splits)
  show "Some g \<in> set (hp_metamethod_names h) \<Longrightarrow> Gc_Str (gc_index g) \<in> gc_reach cycle h (cycle_roots cycle roots h)"
    by (rule root) (force simp: all_roots_def fixed_roots_def handle_roots_def split: option.splits)
  assume v: "v \<in> set (gc_anchors h)" "from_value_gen v = Some (r, k)"
  have "from_value v = Some r" using v(2) by (cases v) auto
  then have "r \<in> set (anchor_roots h)" using v(1) by (auto simp: anchor_roots_def set_map_filter)
  then show "r \<in> gc_reach cycle h (cycle_roots cycle roots h)" by (intro root) (simp add: all_roots_def)
qed

lemma reached_survives: "r \<in> gc_reach cycle h R \<Longrightarrow> survives cycle h R r"
  by (simp add: survives_def)

lemma finished_interner:
  assumes inv: "gc_inv h" and w: "weakened cycle ws h h2"
  shows "interner_ok (finished cycle marked h2)"
proof -
  let ?h' = "finished cycle marked h2"
  have fine: "arenas_fine h2" by (rule weakened_same(6) [OF w gc_invD(1) [OF inv]])
  note f = finished_objects [OF fine, of cycle marked]
  note same = weakened_same [OF w] more_fields [OF weakened_same(11) [OF w]]
  have str: "heap_string ?h' g = Some s \<longleftrightarrow> heap_string h g = Some s \<and> keeps cycle (strings h2) (gc_index g)" for g s
    by (simp add: heap_string_def f same)
  have int: "hp_interner h b = Some g \<longleftrightarrow> (\<exists>s. heap_string h g = Some s \<and> ls_bytes s = b)" for b g
    using gc_invD(7) [OF inv] by (simp add: interner_ok_def)
  have freed: "set (fst (arena_sweep cycle (strings h2))) = {s. \<exists>i. gc_value (strings h2) i = Some s \<and> \<not> keeps cycle (strings h2) i}"
    using fine by (intro sweep_freed) (simp add: arenas_fine_def)
  have handle: "\<exists>g. heap_string h g = Some s \<and> gc_index g = i" if "gc_value (strings h2) i = Some s" for i s
  proof -
    have "arena_ok (strings h2)" using fine by (simp add: arenas_fine_def arena_fineD)
    moreover have "live_at (strings h2) (unat i)" using that gc_value_live [of "strings h2" i] by simp
    ultimately have "handles (strings h2) (i, ar_gens (strings h2) ! unat i) = Some s"
      using that by (simp add: handles_eq gc_value_at)
    then have "heap_string h (RawGc i (ar_gens (strings h2) ! unat i) (hp_id h)) = Some s"
      by (simp add: heap_string_def handles_def same)
    then show ?thesis by (intro exI [of _ "RawGc i (ar_gens (strings h2) ! unat i) (hp_id h)"]) simp
  qed
  show ?thesis unfolding interner_ok_def
  proof (intro allI iffI)
    fix b g assume "hp_interner ?h' b = Some g"
    then have b: "b \<notin> ls_bytes ` set (fst (arena_sweep cycle (strings h2)))" "hp_interner h b = Some g"
      by (simp_all add: f same interner_remove_eq split: if_splits)
    then obtain s where s: "heap_string h g = Some s" "ls_bytes s = b" using int by blast
    then have "gc_value (strings h2) (gc_index g) = Some s"
      using arena_get_live [of "strings h2"] by (auto simp: heap_string_def same split: if_splits)
    then have "keeps cycle (strings h2) (gc_index g)" using b(1) s(2) by (auto simp: freed)
    then show "\<exists>s. heap_string ?h' g = Some s \<and> ls_bytes s = b" using s by (auto simp: str)
  next
    fix b g assume "\<exists>s. heap_string ?h' g = Some s \<and> ls_bytes s = b"
    then obtain s where s: "heap_string h g = Some s" "ls_bytes s = b" "keeps cycle (strings h2) (gc_index g)" by (auto simp: str)
    then have g: "hp_interner h b = Some g" using int by blast
    have "b \<notin> ls_bytes ` set (fst (arena_sweep cycle (strings h2)))"
    proof
      assume "b \<in> ls_bytes ` set (fst (arena_sweep cycle (strings h2)))"
      then obtain i s' where i: "gc_value (strings h2) i = Some s'" "\<not> keeps cycle (strings h2) i" "ls_bytes s' = b"
        by (auto simp: freed)
      obtain g' where "heap_string h g' = Some s'" "gc_index g' = i" using handle [OF i(1)] by blast
      then show False using int [of b g'] i(2,3) g s(3) by auto
    qed
    then show "hp_interner ?h' b = Some g" using g by (simp add: f same interner_remove_eq)
  qed
qed

lemma finished_inv:
  assumes inv: "gc_inv h" and minor: "cycle = Minor \<Longrightarrow> \<not> hp_force_major h"
    and out: "traced_out cycle h (cycle_roots cycle roots h) t0"
    and p: "pruned cycle (tr_weak t0) (mk_heap (tr_marking t0)) h2"
  shows "gc_inv (finished cycle (tr_marked t0) h2)"
proof -
  let ?h' = "finished cycle (tr_marked t0) h2" and ?S = "survives cycle h (cycle_roots cycle roots h)"
  note v = finished_views [OF inv out p]
  have w: "weakened cycle (tr_weak t0) h h2" by (rule traced_weakened [OF out p])
  note same = weakened_same [OF w] more_fields [OF weakened_same(11) [OF w]]
  note f = finished_objects [OF same(6) [OF gc_invD(1) [OF inv]], of cycle "tr_marked t0"]
  have dangle: "is_live_gen ?h' (fst c) (snd c)" if c: "c \<in> set (traced_of ?h' r)" for r c
  proof -
    have c2: "c \<in> set (traced_of h2 r)" by (rule v(3) [OF c])
    have "live_ref ?h' r" using c traced_of_dead [of ?h' r] by (cases "live_ref ?h' r") auto
    then have r: "live_ref h r" "?S r" by (simp_all add: v(1))
    have "is_live_gen h (fst c) (snd c)" using gc_invD(4) [OF inv] same(5) [OF c2] by (simp add: no_dangling_def)
    then show ?thesis using child_survives [OF inv minor out p r c2] by (simp add: v(2))
  qed
  have anchors: "gc_anchors ?h' = gc_anchors h" by (simp add: gc_anchors_def f same)
  have "no_dangling ?h'" using dangle by (simp add: no_dangling_def)
  moreover have "unmarked ?h'" using v(5) by (simp add: unmarked_def)
  moreover have "tables_ok ?h'" using f(1) same(7) [OF gc_invD(2) [OF inv]] by (auto simp: tables_ok_def)
  moreover have "roots_live ?h'"
    using gc_invD(5) [OF inv] fixed_root_reached [where cycle = cycle and roots = roots and h = h]
    unfolding roots_live_def heap_handles_live anchors v(2) survives_def f same by blast
  moreover have "ids_ok ?h'" unfolding ids_ok_def
  proof (intro allI impI)
    fix i t g assume t: "gc_value (threads ?h') i = Some t" "th_id t = Some g"
    then have "gc_value (threads h) i = Some t" using f(2) by (simp add: same)
    then have g: "gc_index g = i" "heap_thread h g \<noteq> None" using gc_invD(6) [OF inv] t(2) by (auto simp: ids_ok_def)
    have "live_ref ?h' (Gc_Thread i)" using t(1) by (simp add: live_ref_def)
    then show "gc_index g = i \<and> heap_thread ?h' g \<noteq> None" using g unfolding heap_handles_live by (simp add: v f same)
  qed
  moreover have "generations_ok ?h'" unfolding generations_ok_def
    using v(5) dangle is_live_gen_live by (metis age.distinct(1,3,5))
  ultimately show ?thesis using v(4) finished_interner [OF inv w] by (simp add: gc_inv_def)
qed

section \<open>Bookkeeping and abandoned cycles\<close>

text \<open>Heaps with the same objects and roots, whatever their pacing fields.\<close>

definition same_heap :: "heap \<Rightarrow> heap \<Rightarrow> bool" where
  "same_heap h h' \<longleftrightarrow> strings h' = strings h \<and> tables h' = tables h \<and> closures h' = closures h \<and> userdata h' = userdata h \<and>
     threads h' = threads h \<and> buffers h' = buffers h \<and> protos h' = protos h \<and> upvals h' = upvals h \<and>
     hp_id h' = hp_id h \<and> hp_interner h' = hp_interner h \<and> hp_registry h' = hp_registry h \<and>
     hp_string_metatable h' = hp_string_metatable h \<and> hp_vector_metatable h' = hp_vector_metatable h \<and>
     hp_error_metatable h' = hp_error_metatable h \<and> hp_metamethod_names h' = hp_metamethod_names h \<and>
     hp_taken_out h' = hp_taken_out h"

lemma same_heap_views:
  assumes "same_heap h h'"
  shows "live_ref h' r = live_ref h r" "is_live_gen h' r g = is_live_gen h r g" "traced_of h' r = traced_of h r"
    "ref_age h' r = ref_age h r" "ref_color h' r = ref_color h r"
  using assms
  by (cases r; simp add: same_heap_def live_ref_def is_live_gen_def traced_of_def ref_age_def ref_color_def)+

lemma same_heap_objects:
  assumes "same_heap h h'"
  shows "heap_table h' g = heap_table h g" "heap_string h' g = heap_string h g" "heap_thread h' g = heap_thread h g"
    "gc_anchors h' = gc_anchors h"
  using assms by (simp_all add: same_heap_def heap_table_def heap_string_def heap_thread_def gc_anchors_def)

lemma same_heap_inv:
  assumes same: "same_heap h h'" and "gc_inv h" "generations_ok h'"
  shows "gc_inv h'"
proof -
  note v = same_heap_views [OF same] same_heap_objects [OF same]
  have "arenas_fine h' = arenas_fine h" "tables_ok h' = tables_ok h" "unmarked h' = unmarked h" "no_dangling h' = no_dangling h"
    using same by (simp_all add: arenas_fine_def tables_ok_def unmarked_def no_dangling_def same_heap_def v)
  moreover have "roots_live h' = roots_live h" "ids_ok h' = ids_ok h" "interner_ok h' = interner_ok h"
    using same by (simp_all add: roots_live_def ids_ok_def interner_ok_def v) (simp_all add: same_heap_def)
  ultimately show ?thesis using assms(2,3) by (simp add: gc_inv_def)
qed

definition all_old :: "heap \<Rightarrow> bool" where
  "all_old h \<longleftrightarrow> (\<forall>r. live_ref h r \<longrightarrow> ref_age h r = Old)"

lemma all_old_generations:
  assumes "same_heap h h'" "gc_inv h" "all_old h"
  shows "generations_ok h'"
proof -
  have "ref_age h (fst c) \<noteq> Young" if "c \<in> set (traced_of h r)" for c r
  proof -
    have "is_live_gen h (fst c) (snd c)" using that gc_invD(4) [OF assms(2)] by (simp add: no_dangling_def)
    then show ?thesis using is_live_gen_live [of h "fst c" "snd c"] assms(3) by (simp add: all_old_def)
  qed
  then show ?thesis using assms(3) by (simp add: generations_ok_def same_heap_views [OF assms(1)] all_old_def)
qed

lemma abandoned_inv:
  assumes inv: "gc_inv h" and w: "weakened cycle ws h h2"
  shows "gc_inv ((reset_all_colors h2)\<lparr>hp_force_major := True\<rparr>)"
proof -
  let ?h1 = "reset_all_colors h2"
  let ?h' = "?h1\<lparr>hp_force_major := True\<rparr>"
  have rec: "recolored h2 ?h1" by simp
  note v = recolored_views [OF rec] recolored_objects [OF rec]
  note same = weakened_same [OF w] more_fields [OF weakened_same(11) [OF w]] more_fields [OF v(18)]
  have sh: "same_heap ?h1 ?h'" by (simp add: same_heap_def)
  note shv = same_heap_views [OF sh]
  have white: "live_ref ?h1 r \<Longrightarrow> ref_color ?h1 r = White" for r
    by (cases r) (auto simp: reset_all_colors_def live_ref_def ref_color_def gc_value_def gc_color_def get_def
        gc_reset_colors_def split: if_splits)
  have "arenas_fine ?h'" using same(6) [OF gc_invD(1) [OF inv]] v(12) sh by (simp add: arenas_fine_def same_heap_def)
  moreover have "tables_ok ?h'" using same(7) [OF gc_invD(2) [OF inv]] v(13) sh by (simp add: tables_ok_def same_heap_def)
  moreover have "unmarked ?h'" using white by (simp add: unmarked_def shv)
  moreover have "no_dangling ?h'" using gc_invD(4) [OF inv] same(5) unfolding no_dangling_def shv v same(4) by blast
  moreover have "roots_live ?h'"
    using gc_invD(5) [OF inv] unfolding roots_live_def heap_handles_live by (simp add: shv v same gc_anchors_def)
  moreover have "ids_ok ?h'"
    using gc_invD(6) [OF inv] unfolding ids_ok_def heap_handles_live by (auto simp: shv v same)
  moreover have "heap_string ?h' g = heap_string h g" for g by (simp add: heap_string_def v same)
  then have "interner_ok ?h'" using gc_invD(7) [OF inv] by (simp add: interner_ok_def same)
  moreover have "generations_ok ?h'"
    using gc_invD(8) [OF inv] by (simp add: generations_ok_def shv v same)
  ultimately show ?thesis by (simp add: gc_inv_def)
qed

end
