(* ===== verification/Gc_Cycle.thy ===== *)
theory Gc_Cycle
  imports Gc_Safe
begin

text \<open>
  Whole collections: what \<^verbatim>\<open>collect\<close> frees, what it keeps, and that it completes when every
  reservation it makes is granted.
\<close>

section \<open>The outcomes of a cycle\<close>

definition chosen_cycle :: "u64 \<Rightarrow> heap \<Rightarrow> gc_cycle" where
  "chosen_cycle used h = (if gc_should_major used h then Full else Minor)"

lemma major_completes:
  assumes inv: "gc_inv h" and c: "collect_major_inner budget roots h = Inr w"
  shows "\<exists>t0 h2. traced_out Full h (cycle_roots Full roots h) t0 \<and>
    pruned Full (tr_weak t0) (mk_heap (tr_marking t0)) h2 \<and> w = sweep_objects Full h2"
proof -
  obtain s t where s: "mark_heap_roots roots (start_marking budget h) = Inr s" and t: "trace Full s = Inr t"
    and w: "w = sweep_objects Full (mk_heap (tr_marking t))"
    using c by (auto simp: collect_major_inner_def sweep_def gbind_Inr reserve_Inr)
  have ti: "trace_inv Full h (cycle_roots Full roots h) (start_tracing s)"
    using major_trace [OF gc_invD(3) [OF inv] s] by (simp add: cycle_roots_def start_tracing_def)
  from trace_completes [OF ti gc_invD(2) [OF inv] t] w show ?thesis by blast
qed

lemma minor_completes:
  assumes inv: "gc_inv h" and c: "collect_minor_inner budget roots h = Inr w"
  shows "\<exists>t0 h2. traced_out Minor h (cycle_roots Minor roots h) t0 \<and>
    pruned Minor (tr_weak t0) (mk_heap (tr_marking t0)) h2 \<and> sw_heap w = finished Minor (tr_marked t0) h2 \<and>
    sw_freed w = sw_freed (sweep_objects Minor h2)"
proof -
  obtain s s1 s2 t where s: "mark_heap_roots roots (start_marking budget h) = Inr s"
    and s1: "mark_all mark_minor (thread_roots (mk_heap s)) s = Inr s1"
    and s2: "mark_all mark_minor (hp_remembered (mk_heap s1)) s1 = Inr s2" and t: "trace Minor s2 = Inr t"
    and w: "sw_heap w = fold settle_marked (tr_marked t) (sw_heap (sweep_objects Minor (mk_heap (tr_marking t))))"
      "sw_freed w = sw_freed (sweep_objects Minor (mk_heap (tr_marking t)))"
    using c by (auto simp: collect_minor_inner_def sweep_def gbind_Inr reserve_Inr)
  have ti: "trace_inv Minor h (cycle_roots Minor roots h) (start_tracing s2)"
    using minor_trace [OF gc_invD(3) [OF inv] s s1 s2] by (simp add: cycle_roots_def start_tracing_def)
  obtain t0 where "traced_out Minor h (cycle_roots Minor roots h) t0" "tr_marked t = tr_marked t0"
    "pruned Minor (tr_weak t0) (mk_heap (tr_marking t0)) (mk_heap (tr_marking t))"
    by (rule trace_completes [OF ti gc_invD(2) [OF inv] t])
  then show ?thesis using w by (auto simp: finished_def)
qed

lemma major_aborts:
  assumes inv: "gc_inv h" and c: "collect_major_inner budget roots h = Inl h'"
  shows "\<exists>ws. weakened Full ws h h'"
proof -
  have m: "mk_heap (start_marking budget h) = h" by (simp add: start_marking_def)
  consider "mark_heap_roots roots (start_marking budget h) = Inl h'"
    | s where "mark_heap_roots roots (start_marking budget h) = Inr s" "trace Full s = Inl h'"
    | s t where "mark_heap_roots roots (start_marking budget h) = Inr s" "trace Full s = Inr t" "h' = mk_heap (tr_marking t)"
    using c by (auto simp: collect_major_inner_def sweep_def gbind_Inl reserve_def split: if_splits)
  then show ?thesis
  proof cases
    case 1
    then show ?thesis using recolored_weakened [OF gc_invD(2) [OF inv]] mark_heap_roots_aborts [OF 1] m by metis
  next
    case (2 s)
    have "trace_inv Full h (all_roots roots h) (start_tracing s)"
      using major_trace [OF gc_invD(3) [OF inv] 2(1)] by (simp add: start_tracing_def)
    from trace_aborts [OF this gc_invD(2) [OF inv] 2(2)] show ?thesis .
  next
    case (3 s t)
    have ti: "trace_inv Full h (all_roots roots h) (start_tracing s)"
      using major_trace [OF gc_invD(3) [OF inv] 3(1)] by (simp add: start_tracing_def)
    show ?thesis by (rule trace_completes [OF ti gc_invD(2) [OF inv] 3(2)]) (use 3(3) traced_weakened in blast)
  qed
qed

lemma minor_aborts:
  assumes inv: "gc_inv h" and c: "collect_minor_inner budget roots h = Inl h'"
  shows "\<exists>ws. weakened Minor ws h h'"
proof -
  let ?s0 = "start_marking budget h"
  have m: "mk_heap ?s0 = h" by (simp add: start_marking_def)
  note ok = gc_invD(2) [OF inv] and un = gc_invD(3) [OF inv]
  show ?thesis
  proof (cases "mark_heap_roots roots ?s0")
    case (Inl h1)
    then have "h1 = h'" using c by (simp add: collect_minor_inner_def gbind_def)
    then show ?thesis using recolored_weakened [OF ok] mark_heap_roots_aborts [OF Inl] m by metis
  next
    case s: (Inr s)
    have rs: "recolored h (mk_heap s)" using darkens_recolored [OF mark_heap_roots_marks(1) [OF s]] by (simp add: m)
    show ?thesis
    proof (cases "mark_all mark_minor (thread_roots (mk_heap s)) s")
      case (Inl h1)
      then have "h1 = h'" using c by (simp add: collect_minor_inner_def gbind_def s)
      then show ?thesis using recolored_weakened [OF ok] minor_marking.all_aborts [OF Inl] rs by metis
    next
      case s1: (Inr s1)
      have rs1: "recolored h (mk_heap s1)" using darkens_recolored minor_marking.all_darkens [OF s1] rs by metis
      show ?thesis
      proof (cases "mark_all mark_minor (hp_remembered (mk_heap s1)) s1")
        case (Inl h1)
        then have "h1 = h'" using c by (simp add: collect_minor_inner_def gbind_def s s1)
        then show ?thesis using recolored_weakened [OF ok] minor_marking.all_aborts [OF Inl] rs1 by metis
      next
        case s2: (Inr s2)
        have ti: "trace_inv Minor h (minor_roots roots h) (start_tracing s2)"
          using minor_trace [OF un s s1 s2] by (simp add: start_tracing_def)
        show ?thesis
        proof (cases "trace Minor s2")
          case (Inl h1)
          then have "h1 = h'" using c by (simp add: collect_minor_inner_def gbind_def s s1 s2)
          then show ?thesis using trace_aborts [OF ti ok Inl] by simp
        next
          case t: (Inr t)
          have "h' = mk_heap (tr_marking t)"
            using c by (auto simp: collect_minor_inner_def sweep_def gbind_def reserve_def s s1 s2 t split: if_splits)
          then show ?thesis using trace_completes [OF ti ok t] traced_weakened by metis
        qed
      qed
    qed
  qed
qed

lemma collect_completes:
  assumes inv: "gc_inv h" and c: "collect budget used used' roots h = (Some n, h')"
  defines "cycle \<equiv> chosen_cycle used h"
  obtains t0 h2 where "traced_out cycle h (cycle_roots cycle roots h) t0"
    "pruned cycle (tr_weak t0) (mk_heap (tr_marking t0)) h2" "same_heap (finished cycle (tr_marked t0) h2) h'"
    "n = sw_freed (sweep_objects cycle h2)"
proof (cases "gc_should_major used h")
  case True
  then obtain w where w: "collect_major_inner budget roots h = Inr w" "n = sw_freed w"
    "h' = note_collection used' (gc_note_major used' (sw_heap w))"
    using c by (auto simp: collect_def split: sum.splits)
  have "same_heap (sw_heap w) h'" by (simp add: w(3) same_heap_def note_collection_def gc_note_major_def)
  then show ?thesis using major_completes [OF inv w(1)] w(2) True
    by (auto simp: cycle_def chosen_cycle_def finished_def intro: that)
next
  case False
  then obtain w where w: "collect_minor_inner budget roots h = Inr w" "n = sw_freed w"
    "h' = note_collection used' (gc_note_minor (sw_heap w))"
    using c by (auto simp: collect_def split: sum.splits)
  have "same_heap (sw_heap w) h'" by (simp add: w(3) same_heap_def note_collection_def gc_note_minor_def)
  then show ?thesis using minor_completes [OF inv w(1)] w(2) False
    by (auto simp: cycle_def chosen_cycle_def intro: that)
qed

lemma collect_abandons:
  assumes inv: "gc_inv h" and c: "collect budget used used' roots h = (None, h')"
  obtains ws h2 where "weakened (chosen_cycle used h) ws h h2" "h' = (reset_all_colors h2)\<lparr>hp_force_major := True\<rparr>"
proof (cases "gc_should_major used h")
  case True
  then obtain h2 where h2: "collect_major_inner budget roots h = Inl h2" "h' = (reset_all_colors h2)\<lparr>hp_force_major := True\<rparr>"
    using c by (auto simp: collect_def split: sum.splits)
  show ?thesis using major_aborts [OF inv h2(1)] that [OF _ h2(2)] True by (auto simp: chosen_cycle_def)
next
  case False
  then obtain h2 where h2: "collect_minor_inner budget roots h = Inl h2" "h' = (reset_all_colors h2)\<lparr>hp_force_major := True\<rparr>"
    using c by (auto simp: collect_def split: sum.splits)
  show ?thesis using minor_aborts [OF inv h2(1)] that [OF _ h2(2)] False by (auto simp: chosen_cycle_def)
qed

lemma chosen_minor: "chosen_cycle used h = Minor \<Longrightarrow> \<not> hp_force_major h"
  by (auto simp: chosen_cycle_def gc_should_major_def split: if_splits)

lemma collect_inv:
  assumes inv: "gc_inv h" and c: "collect budget used used' roots h = (out, h')"
  shows "gc_inv h'"
proof (cases out)
  case None
  show ?thesis by (rule collect_abandons [OF inv c [unfolded None]]) (simp add: abandoned_inv [OF inv])
next
  case (Some n)
  show ?thesis
  proof (rule collect_completes [OF inv c [unfolded Some]])
    fix t0 :: tracing and h2
    let ?f = "finished (chosen_cycle used h) (tr_marked t0) h2"
    assume out: "traced_out (chosen_cycle used h) h (cycle_roots (chosen_cycle used h) roots h) t0"
      and p: "pruned (chosen_cycle used h) (tr_weak t0) (mk_heap (tr_marking t0)) h2" and same: "same_heap ?f h'"
    have fi: "gc_inv ?f" using finished_inv [OF inv _ out p] chosen_minor by blast
    have "all_old ?f" using finished_views(5) [OF inv out p] by (simp add: all_old_def)
    then show "gc_inv h'" by (intro same_heap_inv [OF same fi] all_old_generations [OF same fi])
  qed
qed

lemma collect_survivors:
  assumes inv: "gc_inv h" and c: "collect budget used used' roots h = (Some n, h')"
  defines "cycle \<equiv> chosen_cycle used h"
  shows "live_ref h' r \<longleftrightarrow> live_ref h r \<and> survives cycle h (cycle_roots cycle roots h) r"
    and "is_live_gen h' r g \<longleftrightarrow> is_live_gen h r g \<and> survives cycle h (cycle_roots cycle roots h) r"
proof -
  show "live_ref h' r \<longleftrightarrow> live_ref h r \<and> survives cycle h (cycle_roots cycle roots h) r"
    unfolding cycle_def
    by (rule collect_completes [OF inv c]) (use finished_views(1) [OF inv] same_heap_views(1) in blast)
  show "is_live_gen h' r g \<longleftrightarrow> is_live_gen h r g \<and> survives cycle h (cycle_roots cycle roots h) r"
    unfolding cycle_def
    by (rule collect_completes [OF inv c]) (use finished_views(2) [OF inv] same_heap_views(2) in blast)
qed

lemma collect_abandoned_same:
  assumes inv: "gc_inv h" and c: "collect budget used used' roots h = (None, h')"
  shows "is_live_gen h' r g = is_live_gen h r g" "hp_force_major h'"
proof -
  show "hp_force_major h'" by (rule collect_abandons [OF inv c]) simp
  show "is_live_gen h' r g = is_live_gen h r g"
  proof (rule collect_abandons [OF inv c])
    fix ws h2 assume w: "weakened (chosen_cycle used h) ws h h2" and h': "h' = (reset_all_colors h2)\<lparr>hp_force_major := True\<rparr>"
    have "same_heap (reset_all_colors h2) h'" by (simp add: h' same_heap_def)
    then show ?thesis using same_heap_views(2) recolored_views(3) [of h2 "reset_all_colors h2"] weakened_same(4) [OF w] by simp
  qed
qed

lemma collect_fields:
  assumes inv: "gc_inv h" and c: "collect budget used used' roots h = (out, h')"
  shows "hp_id h' = hp_id h \<and> hp_registry h' = hp_registry h \<and> hp_taken_out h' = hp_taken_out h"
proof (cases out)
  case None
  show ?thesis
  proof (rule collect_abandons [OF inv c [unfolded None]])
    fix ws h2 assume w: "weakened (chosen_cycle used h) ws h h2" and h': "h' = (reset_all_colors h2)\<lparr>hp_force_major := True\<rparr>"
    show ?thesis using more_fields [OF weakened_same(11) [OF w]] by (simp add: h' reset_all_colors_def)
  qed
next
  case (Some n)
  show ?thesis
  proof (rule collect_completes [OF inv c [unfolded Some]])
    fix t0 :: tracing and h2
    assume out: "traced_out (chosen_cycle used h) h (cycle_roots (chosen_cycle used h) roots h) t0"
      and p: "pruned (chosen_cycle used h) (tr_weak t0) (mk_heap (tr_marking t0)) h2"
      and same: "same_heap (finished (chosen_cycle used h) (tr_marked t0) h2) h'"
    note w = weakened_same [OF traced_weakened [OF out p]]
    show ?thesis using finished_objects(5,6,11) [OF w(6) [OF gc_invD(1) [OF inv]]] more_fields [OF w(11)] same
      by (simp add: same_heap_def)
  qed
qed

section \<open>How many objects a cycle frees\<close>

definition dropped :: "gc_cycle \<Rightarrow> 'a arena \<Rightarrow> u32 set" where
  "dropped cycle a = {i. gc_value a i \<noteq> None \<and> \<not> keeps cycle a i}"

lemma sweep_freed_count:
  assumes "arena_fine a"
  shows "length (fst (arena_sweep cycle a)) = card (dropped cycle a)"
proof (cases cycle)
  case Full
  have "doomed (\<lambda>_. True) a i \<longleftrightarrow> i \<in> dropped Full a" for i
    by (auto simp: doomed_iff dropped_def keeps_def)
  moreover have "i \<in> dropped Full a \<Longrightarrow> i \<in> set (slots a)" for i
    using gc_value_in_range [of a i] by (auto simp: dropped_def arena_len_def set_slots [OF arena_fineD(3) [OF assms]])
  ultimately have "set (filter (doomed (\<lambda>_. True) a) (slots a)) = dropped Full a" by auto
  moreover have "distinct (filter (doomed (\<lambda>_. True) a) (slots a))"
    by (simp add: distinct_slots [OF arena_fineD(3) [OF assms]])
  ultimately have "length (filter (doomed (\<lambda>_. True) a) (slots a)) = card (dropped Full a)"
    using distinct_card by metis
  then show ?thesis
    using gc_sweep_with_freed [OF arena_fineD(2,3) [OF assms]] by (simp add: arena_sweep_def Full retired_by_def)
next
  case Minor
  have d: "doomed young_entry a i \<longleftrightarrow> i \<in> dropped Minor a" for i
    using doomed_keeps [of a i Minor] gc_value_live [of a i] by (auto simp: visits_def doomed_def dropped_def)
  then have "set (filter (doomed young_entry a) (ar_young a)) = dropped Minor a"
    using doomed_young_listed [OF arena_fineD(2) [OF assms]] by auto
  moreover have "distinct (filter (doomed young_entry a) (ar_young a))"
    using arena_fineD(1) [OF assms] by (simp add: arena_inv_def young_exact_def)
  ultimately have "length (filter (doomed young_entry a) (ar_young a)) = card (dropped Minor a)"
    using distinct_card by metis
  then show ?thesis using gc_sweep_minor_freed [OF arena_fineD(1) [OF assms]] by (simp add: arena_sweep_def Minor)
qed

lemma images_disjoint: "\<forall>x y. k x \<noteq> k' y \<Longrightarrow> k ` A \<inter> k' ` B = {}"
  by auto

lemma sweep_objects_freed:
  assumes "arenas_fine h"
  shows "sw_freed (sweep_objects cycle h) = card {r. live_ref h r \<and> \<not> ref_keeps cycle h r}"
proof -
  let ?D = "{r. live_ref h r \<and> \<not> ref_keeps cycle h r}"
  have f: "arena_fine (strings h)" "arena_fine (tables h)" "arena_fine (closures h)" "arena_fine (userdata h)"
    "arena_fine (threads h)" "arena_fine (buffers h)" "arena_fine (protos h)" "arena_fine (upvals h)"
    using assms by (simp_all add: arenas_fine_def)
  have fin: "finite (dropped cycle a)" for a :: "'b arena" by (rule finite_subset [of _ UNIV]) simp_all
  have "r \<in> ?D \<longleftrightarrow> r \<in> Gc_Str ` dropped cycle (strings h) \<union> Gc_Table ` dropped cycle (tables h) \<union>
      Gc_Closure ` dropped cycle (closures h) \<union> Gc_Userdata ` dropped cycle (userdata h) \<union>
      Gc_Thread ` dropped cycle (threads h) \<union> Gc_Buffer ` dropped cycle (buffers h) \<union>
      Gc_Proto ` dropped cycle (protos h) \<union> Gc_UpVal ` dropped cycle (upvals h)" for r
    by (cases r) (auto simp: dropped_def live_ref_def ref_keeps_def keeps_def ref_color_def ref_age_def image_iff)
  then have "?D = Gc_Str ` dropped cycle (strings h) \<union> Gc_Table ` dropped cycle (tables h) \<union>
      Gc_Closure ` dropped cycle (closures h) \<union> Gc_Userdata ` dropped cycle (userdata h) \<union>
      Gc_Thread ` dropped cycle (threads h) \<union> Gc_Buffer ` dropped cycle (buffers h) \<union>
      Gc_Proto ` dropped cycle (protos h) \<union> Gc_UpVal ` dropped cycle (upvals h)" by blast
  moreover have "sw_freed (sweep_objects cycle h) = card (dropped cycle (strings h)) + card (dropped cycle (tables h)) +
      card (dropped cycle (closures h)) + card (dropped cycle (userdata h)) + card (dropped cycle (threads h)) +
      card (dropped cycle (buffers h)) + card (dropped cycle (protos h)) + card (dropped cycle (upvals h))"
    by (cases cycle) (simp_all add: sweep_objects_def split_beta Let_def arena_sweep_simps f [THEN sweep_freed_count])
  ultimately show ?thesis
    by (simp add: card_Un_disjoint card_image inj_on_def fin images_disjoint Int_Un_distrib2)
qed

lemma collect_count:
  assumes inv: "gc_inv h" and c: "collect budget used used' roots h = (Some n, h')"
  shows "n = card {r. live_ref h r \<and> \<not> live_ref h' r}"
proof (rule collect_completes [OF inv c])
  fix t0 :: tracing and h2
  let ?c = "chosen_cycle used h"
  assume out: "traced_out ?c h (cycle_roots ?c roots h) t0" and p: "pruned ?c (tr_weak t0) (mk_heap (tr_marking t0)) h2"
    and n: "n = sw_freed (sweep_objects ?c h2)"
  note w = weakened_same [OF traced_weakened [OF out p]]
  have "n = card {r. live_ref h2 r \<and> \<not> ref_keeps ?c h2 r}"
    by (simp add: n sweep_objects_freed [OF w(6) [OF gc_invD(1) [OF inv]]])
  also have "{r. live_ref h2 r \<and> \<not> ref_keeps ?c h2 r} = {r. live_ref h r \<and> \<not> live_ref h' r}"
    using keeps_survives [OF out p] by (auto simp: w collect_survivors(1) [OF inv c])
  finally show ?thesis .
qed

section \<open>What is reachable stays\<close>

lemma trace_children_traced: "set (trace_children h r) \<subseteq> fst ` set (traced_of h r)"
proof (cases "weak_ref h r")
  case None
  then show ?thesis by (simp add: trace_children_def collect_children_def)
next
  case (Some w)
  obtain i wk wv where w: "w = (i, wk, wv)" by (cases w)
  have r: "r = Gc_Table i" using weak_refD [OF Some] by (simp add: w)
  obtain t where t: "gc_value (tables h) i = Some t" using Some by (auto simp: r weak_ref_def bind_eq_Some_conv)
  have "set (weak_visit b v) \<subseteq> fst ` set (visit_value v)" for b v
    by (cases b; cases v) (simp_all add: weak_visit_def visit_value_def)
  then have "weak_entry_refs wk wv e \<subseteq> fst ` entry_refs e" for e
    unfolding weak_entry_refs_def entry_refs_def by blast
  then have "set (gc_trace_weak wk wv t) \<subseteq> fst ` set (table_trace t)"
    unfolding gc_trace_weak_entries table_trace_entries by fastforce
  then show ?thesis using Some t by (simp add: trace_children_def w r traced_of_def visit_option_def)
qed

lemma reach_mono:
  assumes "R \<subseteq> R'"
  shows "gc_reach cycle h R \<subseteq> gc_reach cycle h R'"
proof
  fix r assume "r \<in> gc_reach cycle h R"
  then show "r \<in> gc_reach cycle h R'" by induction (use assms in \<open>auto intro: gc_reach.intros\<close>)
qed

lemma reachable_survives:
  assumes inv: "gc_inv h" and minor: "cycle = Minor \<Longrightarrow> \<not> hp_force_major h"
    and out: "traced_out cycle h (cycle_roots cycle roots h) t0"
    and r: "r \<in> gc_reach Full h (all_roots roots h)" and live: "live_ref h r"
  shows "survives cycle h (cycle_roots cycle roots h) r"
  using r live
proof induction
  case (reach_root r)
  then show ?case by (cases cycle) (auto simp: survives_def cycle_roots_def minor_roots_def intro: gc_reach.reach_root)
next
  case (reach_child r c)
  let ?R = "cycle_roots cycle roots h"
  have "live_ref h r" using reach_child.hyps(2) trace_children_dead [of h r] by (cases "live_ref h r") auto
  note r = this reach_child.IH [OF this]
  show ?case
  proof (cases "r \<in> gc_reach cycle h ?R")
    case True
    then have "done_with cycle h t0 r" using out r(1) by (simp add: traced_out_def Let_def)
    then have "covered cycle (mk_heap (tr_marking t0)) c"
      using reach_child.hyps(2) by (simp add: done_with_def children_covered_def)
    then show ?thesis using covered_survives [OF out _ reach_child.prems] by blast
  next
    case False
    then have m: "cycle = Minor" "ref_age h r \<noteq> Young" using r(2) by (auto simp: survives_def)
    obtain g where "(c, g) \<in> set (traced_of h r)" using reach_child.hyps(2) trace_children_traced by fastforce
    then show ?thesis
      using unentered_child_survives [OF gc_invD(1,8) [OF inv] minor r(1) m(2), of roots "(c, g)"] False m(1)
      by (simp add: cycle_roots_def)
  qed
qed

end
