(* ===== verification/Gc_Liveness.thy ===== *)
theory Gc_Liveness
  imports Gc_Cycle
begin

text \<open>
  A collection completes once enough of its reservations are granted: every part of a cycle makes a
  number of reservations that does not depend on how many more would be granted.
\<close>

definition affords :: "(nat \<Rightarrow> 'a gc) \<Rightarrow> (nat \<Rightarrow> 'a) \<Rightarrow> bool" where
  "affords f y \<longleftrightarrow> (\<exists>n. \<forall>b \<ge> n. f b = Inr (y (b - n)))"

lemma affords_pure: "affords (\<lambda>b. Inr (y b)) y"
  unfolding affords_def by (rule exI [of _ 0]) simp

lemma affords_bind:
  assumes "affords f y" "affords (\<lambda>b. k (y b)) z"
  shows "affords (\<lambda>b. gbind (f b) k) z"
proof -
  obtain n m where "\<And>b. n \<le> b \<Longrightarrow> f b = Inr (y (b - n))" "\<And>b. m \<le> b \<Longrightarrow> k (y b) = Inr (z (b - m))"
    using assms by (auto simp: affords_def)
  then show ?thesis unfolding affords_def by (intro exI [of _ "n + m"]) (auto simp: gbind_def)
qed

text \<open>A marking state with its budget left open.\<close>

definition at_budget :: "marking \<Rightarrow> nat \<Rightarrow> marking" where
  "at_budget s b = s\<lparr>mk_budget := b\<rparr>"

lemma at_budget_simps [simp]:
  "mk_heap (at_budget s b) = mk_heap s" "mk_queue (at_budget s b) = mk_queue s" "mk_budget (at_budget s b) = b"
  "(at_budget s b)\<lparr>mk_heap := h\<rparr> = at_budget (s\<lparr>mk_heap := h\<rparr>) b" "(at_budget s b)\<lparr>mk_queue := q\<rparr> = at_budget (s\<lparr>mk_queue := q\<rparr>) b"
  "(at_budget s b)\<lparr>mk_budget := b'\<rparr> = at_budget s b'"
  by (simp_all add: at_budget_def)

definition affordable :: "(marking \<Rightarrow> marking gc) \<Rightarrow> marking \<Rightarrow> bool" where
  "affordable f s \<longleftrightarrow> (\<exists>s'. affords (\<lambda>b. f (at_budget s b)) (at_budget s'))"

lemma reserve_affords: "affords (\<lambda>b. reserve n (at_budget s b)) (at_budget s)"
  unfolding affords_def by (rule exI [of _ n]) (simp add: reserve_def)

lemma affordable_bind:
  assumes "affordable f s" "\<And>s'. affordable k s'"
  shows "affordable (\<lambda>s. gbind (f s) k) s"
  using assms affords_bind unfolding affordable_def by metis


locale affordable_marking = marking_step +
  assumes step_affordable: "affordable (f r) s"
begin

lemma all_affordable: "affordable (mark_all f rs) s"
proof (induction rs arbitrary: s)
  case Nil
  then show ?case by (auto simp: affordable_def intro: affords_pure)
next
  case (Cons r rs)
  from affordable_bind [OF step_affordable Cons.IH] show ?case by simp
qed

end

lemma mark_gray_affordable: "affordable (mark_gray r) s"
  unfolding affordable_def mark_gray_def
  by (rule exI, rule affords_bind [OF reserve_affords]) (simp, rule affords_pure)

lemma affordable_pure: "(\<And>b. f (at_budget s b) = Inr (at_budget s' b)) \<Longrightarrow> affordable f s"
  unfolding affordable_def by (rule exI [of _ s']) (simp add: affords_pure)

lemma affordable_cong: "(\<And>b. f (at_budget s b) = g (at_budget s b)) \<Longrightarrow> affordable f s = affordable g s"
  by (simp add: affordable_def)

lemma mark_affordable: "affordable (mark r) s"
proof (cases "ref_color (mk_heap s) r = White")
  case True
  then have "affordable (mark r) s = affordable (mark_gray r) s" by (intro affordable_cong) (simp add: mark_def)
  then show ?thesis by (simp add: mark_gray_affordable)
next
  case False
  then show ?thesis by (intro affordable_pure [of _ _ s]) (simp add: mark_def)
qed

lemma mark_minor_affordable: "affordable (mark_minor r) s"
proof (cases "ref_color (mk_heap s) r = White \<and> entered Minor (mk_heap s) r")
  case True
  then have "affordable (mark_minor r) s = affordable (mark_gray r) s" by (intro affordable_cong) (simp add: mark_minor_cases)
  then show ?thesis by (simp add: mark_gray_affordable)
next
  case False
  then show ?thesis by (intro affordable_pure [of _ _ s]) (auto simp: mark_minor_cases)
qed

interpretation affordable_full: affordable_marking mark Full
  by unfold_locales (rule mark_affordable)

interpretation affordable_minor: affordable_marking mark_minor Minor
  by unfold_locales (rule mark_minor_affordable)

lemma marker_all_affordable: "affordable (mark_all (marker cycle) rs) s"
  using affordable_full.all_affordable affordable_minor.all_affordable by (cases cycle) (simp_all add: marker_def)

lemma mark_heap_roots_affordable: "affordable (mark_heap_roots roots) s"
proof -
  have 1: "affordable (\<lambda>s. mark_all mark (roots @ fixed_roots (mk_heap s)) s) s"
    using affordable_full.all_affordable [of "roots @ fixed_roots (mk_heap s)" s] by (simp add: affordable_def)
  have "affordable (\<lambda>s1. let anchors = anchor_roots (mk_heap s1) in gbind (reserve (length anchors) s1) (mark_all mark anchors)) s1" for s1
  proof -
    obtain s' where "affords (\<lambda>b. mark_all mark (anchor_roots (mk_heap s1)) (at_budget s1 b)) (at_budget s')"
      using affordable_full.all_affordable [of "anchor_roots (mk_heap s1)" s1] by (auto simp: affordable_def)
    from affords_bind [OF reserve_affords this] show ?thesis
      unfolding affordable_def Let_def by (intro exI [of _ s']) simp
  qed
  from affordable_bind [OF 1 this] show ?thesis by (simp add: mark_heap_roots_def [abs_def])
qed

section \<open>Tracing\<close>

definition trace_at :: "tracing \<Rightarrow> nat \<Rightarrow> tracing" where
  "trace_at t b = t\<lparr>tr_marking := at_budget (tr_marking t) b\<rparr>"

lemma trace_step_affords: "\<exists>t'. affords (\<lambda>b. trace_step cycle r (trace_at t b)) (trace_at t')"
proof -
  let ?s = "tr_marking t"
  let ?cs = "trace_children (mk_heap ?s) r" and ?w = "weak_ref (mk_heap ?s) r"
  obtain s2 where s2: "affords (\<lambda>b. mark_all (marker cycle) ?cs (at_budget ?s b)) (at_budget s2)"
    using marker_all_affordable [of cycle ?cs ?s] by (auto simp: affordable_def)
  let ?s3 = "s2\<lparr>mk_heap := set_color r Black (mk_heap s2)\<rparr>" and ?t = "t\<lparr>tr_weak := record_weak ?w (tr_weak t)\<rparr>"
  let ?k = "\<lambda>s2. (case cycle of
         Full \<Rightarrow> Inr (?t\<lparr>tr_marking := s2\<lparr>mk_heap := set_color r Black (mk_heap s2)\<rparr>\<rparr>)
       | Minor \<Rightarrow> gbind (reserve 1 (s2\<lparr>mk_heap := set_color r Black (mk_heap s2)\<rparr>)) (\<lambda>s4. Inr (?t\<lparr>tr_marking := s4, tr_marked := tr_marked t @ [r]\<rparr>)))"
  have "\<exists>t'. affords (\<lambda>b. ?k (at_budget s2 b)) (trace_at t')"
  proof (cases cycle)
    case Full
    then show ?thesis
      by (intro exI [of _ "?t\<lparr>tr_marking := ?s3\<rparr>"]) (simp add: trace_at_def [abs_def] affords_pure)
  next
    case Minor
    let ?y = "\<lambda>b. ?t\<lparr>tr_marking := at_budget ?s3 b, tr_marked := tr_marked t @ [r]\<rparr>"
    have eq: "?y = trace_at (?t\<lparr>tr_marking := ?s3, tr_marked := tr_marked t @ [r]\<rparr>)"
      by (rule ext, cases t) (simp add: trace_at_def)
    have "affords (\<lambda>b. gbind (reserve 1 (at_budget ?s3 b)) (\<lambda>s4. Inr (?t\<lparr>tr_marking := s4, tr_marked := tr_marked t @ [r]\<rparr>))) ?y"
      by (rule affords_bind [OF reserve_affords]) (rule affords_pure)
    then have "affords (\<lambda>b. gbind (reserve 1 (at_budget ?s3 b)) (\<lambda>s4. Inr (?t\<lparr>tr_marking := s4, tr_marked := tr_marked t @ [r]\<rparr>)))
        (trace_at (?t\<lparr>tr_marking := ?s3, tr_marked := tr_marked t @ [r]\<rparr>))" unfolding eq .
    then show ?thesis using Minor by auto
  qed
  then obtain t' where t': "affords (\<lambda>b. ?k (at_budget s2 b)) (trace_at t')" by blast
  have "affords (\<lambda>b. gbind (reserve (length ?cs + (if ?w = None then 0 else 1)) (at_budget ?s b))
      (\<lambda>s1. gbind (mark_all (marker cycle) ?cs s1) ?k)) (trace_at t')"
    by (rule affords_bind [OF reserve_affords affords_bind [OF s2 t']])
  moreover have "trace_step cycle r (trace_at t b) = gbind (reserve (length ?cs + (if ?w = None then 0 else 1)) (at_budget ?s b))
      (\<lambda>s1. gbind (mark_all (marker cycle) ?cs s1) ?k)" for b
    by (cases t; cases cycle) (simp_all add: trace_step_def Let_def trace_at_def)
  ultimately show ?thesis by (intro exI [of _ t']) simp
qed

lemma trace_loop_affords: "\<exists>t'. affords (\<lambda>b. trace_loop cycle (trace_at t b)) (trace_at t')"
proof (induction "trace_measure (tr_marking t)" arbitrary: t rule: wf_induct_rule [OF wf_lex_prod [OF wf_less_than wf_lex_prod [OF wf_less_than wf_less_than]]])
  case 1
  show ?case
  proof (cases "mk_queue (tr_marking t)")
    case Nil
    then have "(\<lambda>b. trace_loop cycle (trace_at t b)) = (\<lambda>b. Inr (trace_at t b))"
      by (intro ext) (simp add: trace_loop.simps trace_at_def)
    then show ?thesis using affords_pure [of "trace_at t"] by auto
  next
    case (Cons r q)
    let ?t = "t\<lparr>tr_marking := (tr_marking t)\<lparr>mk_queue := q\<rparr>\<rparr>"
    obtain t1 where t1: "affords (\<lambda>b. trace_step cycle r (trace_at ?t b)) (trace_at t1)" using trace_step_affords by blast
    obtain n where n: "trace_step cycle r (trace_at ?t n) = Inr (trace_at t1 0)" using t1 by (force simp: affords_def)
    have "(trace_measure (tr_marking (trace_at t1 0)), trace_measure (tr_marking (trace_at t n))) \<in> less_than <*lex*> less_than <*lex*> less_than"
      using n by (intro trace_step_decreases [of _ r q cycle]) (simp_all add: Cons trace_at_def)
    then have "(trace_measure (tr_marking t1), trace_measure (tr_marking t)) \<in> less_than <*lex*> less_than <*lex*> less_than"
      by (simp add: trace_measure_def trace_at_def)
    then obtain t' where t': "affords (\<lambda>b. trace_loop cycle (trace_at t1 b)) (trace_at t')" using 1 by blast
    have "(\<lambda>b. trace_loop cycle (trace_at t b)) = (\<lambda>b. gbind (trace_step cycle r (trace_at ?t b)) (trace_loop cycle))"
      by (rule ext, subst trace_loop.simps) (simp add: trace_at_def Cons gbind_def)
    then show ?thesis using affords_bind [OF t1 t'] by auto
  qed
qed

lemma clear_weak_table_affordable: "affordable (clear_weak_table cycle w) s"
  unfolding affordable_def clear_weak_table_def Let_def
  by (rule exI, simp, rule affords_bind [OF reserve_affords]) (simp, rule affords_pure)

lemma clear_weak_tables_affordable: "affordable (clear_weak_tables cycle ws) s"
proof (induction ws arbitrary: s)
  case Nil
  then show ?case by (intro affordable_pure [of _ _ s]) simp
next
  case (Cons w ws)
  from affordable_bind [OF clear_weak_table_affordable Cons.IH] show ?case by simp
qed

lemma trace_affords: "\<exists>t'. affords (\<lambda>b. trace cycle (at_budget s b)) (trace_at t')"
proof -
  obtain t where t: "affords (\<lambda>b. trace_loop cycle (trace_at (start_tracing s) b)) (trace_at t)" using trace_loop_affords by blast
  obtain s1 where s1: "affords (\<lambda>b. clear_weak_tables cycle (tr_weak t) (at_budget (tr_marking t) b)) (at_budget s1)"
    using clear_weak_tables_affordable [of cycle "tr_weak t" "tr_marking t"] by (auto simp: affordable_def)
  let ?k = "\<lambda>t. gbind (clear_weak_tables cycle (tr_weak t) (tr_marking t)) (\<lambda>s1. Inr (t\<lparr>tr_marking := s1\<rparr>))"
  have "affords (\<lambda>b. gbind (clear_weak_tables cycle (tr_weak t) (at_budget (tr_marking t) b)) (\<lambda>s1. Inr (t\<lparr>tr_marking := s1\<rparr>)))
      (trace_at (t\<lparr>tr_marking := s1\<rparr>))"
    by (rule affords_bind [OF s1]) (simp add: trace_at_def [abs_def] affords_pure)
  then have k: "affords (\<lambda>b. ?k (trace_at t b)) (trace_at (t\<lparr>tr_marking := s1\<rparr>))" by (simp add: trace_at_def)
  have st: "trace_at (start_tracing s) b = \<lparr>tr_marking = at_budget s b, tr_marked = [], tr_weak = []\<rparr>" for b
    by (simp add: trace_at_def start_tracing_def)
  show ?thesis using affords_bind [OF t k]
    by (intro exI [of _ "t\<lparr>tr_marking := s1\<rparr>"]) (simp add: trace_def st)
qed

section \<open>Cycles\<close>

lemma sweep_affords: "\<exists>y. affords (\<lambda>b. sweep cycle (tr_marking (trace_at t b))) y"
  unfolding sweep_def trace_at_def
  by (rule exI [of _ "\<lambda>_. sweep_objects cycle (mk_heap (tr_marking t))"], simp, rule affords_bind [OF reserve_affords])
    (simp add: affords_pure)

lemma major_affords: "\<exists>y. affords (\<lambda>b. collect_major_inner b roots h) y"
proof -
  obtain s where s: "affords (\<lambda>b. mark_heap_roots roots (at_budget (start_marking 0 h) b)) (at_budget s)"
    using mark_heap_roots_affordable [of roots "start_marking 0 h"] by (auto simp: affordable_def)
  obtain t where t: "affords (\<lambda>b. trace Full (at_budget s b)) (trace_at t)" using trace_affords by blast
  obtain y where y: "affords (\<lambda>b. sweep Full (tr_marking (trace_at t b))) y" using sweep_affords by blast
  show ?thesis using affords_bind [OF s affords_bind [OF t y]]
    by (intro exI [of _ y]) (simp add: collect_major_inner_def at_budget_def start_marking_def)
qed

lemma minor_affords: "\<exists>y. affords (\<lambda>b. collect_minor_inner b roots h) y"
proof -
  obtain s where s: "affords (\<lambda>b. mark_heap_roots roots (at_budget (start_marking 0 h) b)) (at_budget s)"
    using mark_heap_roots_affordable [of roots "start_marking 0 h"] by (auto simp: affordable_def)
  obtain s1 where s1: "affords (\<lambda>b. mark_all mark_minor (thread_roots (mk_heap s)) (at_budget s b)) (at_budget s1)"
    using affordable_minor.all_affordable [of "thread_roots (mk_heap s)" s] by (auto simp: affordable_def)
  obtain s2 where s2: "affords (\<lambda>b. mark_all mark_minor (hp_remembered (mk_heap s1)) (at_budget s1 b)) (at_budget s2)"
    using affordable_minor.all_affordable [of "hp_remembered (mk_heap s1)" s1] by (auto simp: affordable_def)
  obtain t where t: "affords (\<lambda>b. trace Minor (at_budget s2 b)) (trace_at t)" using trace_affords by blast
  obtain y where y: "affords (\<lambda>b. sweep Minor (tr_marking (trace_at t b))) y" using sweep_affords by blast
  let ?z = "\<lambda>b. (y b)\<lparr>sw_heap := fold settle_marked (tr_marked t) (sw_heap (y b))\<rparr>"
  have "affords (\<lambda>b. gbind (sweep Minor (tr_marking (trace_at t b)))
      (\<lambda>w. Inr (w\<lparr>sw_heap := fold settle_marked (tr_marked t) (sw_heap w)\<rparr>))) ?z"
    by (rule affords_bind [OF y]) (rule affords_pure)
  then have k: "affords (\<lambda>b. (\<lambda>t. gbind (sweep Minor (tr_marking t))
      (\<lambda>w. Inr (w\<lparr>sw_heap := fold settle_marked (tr_marked t) (sw_heap w)\<rparr>))) (trace_at t b)) ?z"
    by (simp add: trace_at_def)
  have k2: "affords (\<lambda>b. (\<lambda>s1. gbind (mark_all mark_minor (hp_remembered (mk_heap s1)) s1) (\<lambda>s2.
      gbind (trace Minor s2) (\<lambda>t. gbind (sweep Minor (tr_marking t))
        (\<lambda>w. Inr (w\<lparr>sw_heap := fold settle_marked (tr_marked t) (sw_heap w)\<rparr>))))) (at_budget s1 b)) ?z"
    using affords_bind [OF s2 affords_bind [OF t k]] by simp
  have k1: "affords (\<lambda>b. (\<lambda>s. gbind (mark_all mark_minor (thread_roots (mk_heap s)) s) (\<lambda>s1.
      gbind (mark_all mark_minor (hp_remembered (mk_heap s1)) s1) (\<lambda>s2.
      gbind (trace Minor s2) (\<lambda>t. gbind (sweep Minor (tr_marking t))
        (\<lambda>w. Inr (w\<lparr>sw_heap := fold settle_marked (tr_marked t) (sw_heap w)\<rparr>)))))) (at_budget s b)) ?z"
    using affords_bind [OF s1 k2] by simp
  show ?thesis using affords_bind [OF s k1]
    by (intro exI [of _ ?z]) (simp add: collect_minor_inner_def at_budget_def start_marking_def)
qed

lemma collect_affords: "\<exists>b0. \<forall>budget \<ge> b0. \<exists>n h'. collect budget used used' roots h = (Some n, h')"
proof (cases "gc_should_major used h")
  case True
  obtain y b0 where "\<forall>b \<ge> b0. collect_major_inner b roots h = Inr (y (b - b0))"
    using major_affords [of roots h] unfolding affords_def by blast
  then show ?thesis using True by (intro exI [of _ b0]) (simp add: collect_def)
next
  case False
  obtain y b0 where "\<forall>b \<ge> b0. collect_minor_inner b roots h = Inr (y (b - b0))"
    using minor_affords [of roots h] unfolding affords_def by blast
  then show ?thesis using False by (intro exI [of _ b0]) (simp add: collect_def)
qed

end
