(* ===== verification/Heap_Safe.thy ===== *)
theory Heap_Safe
  imports Gc_Liveness
begin

text \<open>
  Every operation of the heap keeps the invariant the collector relies on. The eight arenas share one
  interface, the locale \<open>object_arena\<close>; allocation and mutation are treated once there.
\<close>

section \<open>The part of the invariant all arenas share\<close>

definition live_handles :: "heap \<Rightarrow> traced \<Rightarrow> bool" where
  "live_handles h cs \<longleftrightarrow> (\<forall>c \<in> set cs. is_live_gen h (fst c) (snd c))"

lemma live_handles_simps [simp]:
  "live_handles h []" "live_handles h (c # cs) \<longleftrightarrow> is_live_gen h (fst c) (snd c) \<and> live_handles h cs"
  "live_handles h (cs @ ds) \<longleftrightarrow> live_handles h cs \<and> live_handles h ds"
  by (auto simp: live_handles_def)

definition core_inv :: "heap \<Rightarrow> bool" where
  "core_inv h \<longleftrightarrow> arenas_fine h \<and> unmarked h \<and> no_dangling h \<and> roots_live h \<and> generations_ok h"

lemma gc_inv_core: "gc_inv h \<longleftrightarrow> core_inv h \<and> tables_ok h \<and> ids_ok h \<and> interner_ok h"
  by (auto simp: gc_inv_def core_inv_def)

text \<open>The heap's fields outside the arenas that the shared part reads.\<close>

definition same_roots :: "heap \<Rightarrow> heap \<Rightarrow> bool" where
  "same_roots h h' \<longleftrightarrow> hp_id h' = hp_id h \<and> hp_registry h' = hp_registry h \<and> hp_string_metatable h' = hp_string_metatable h \<and>
     hp_vector_metatable h' = hp_vector_metatable h \<and> hp_error_metatable h' = hp_error_metatable h \<and>
     hp_metamethod_names h' = hp_metamethod_names h"

lemma roots_live_mono:
  assumes "roots_live h" "same_roots h h'" "\<And>r g. is_live_gen h r g \<Longrightarrow> is_live_gen h' r g"
  shows "roots_live h'"
  using assms unfolding roots_live_def heap_handles_live same_roots_def gc_anchors_def by metis

text \<open>One object appears: it is young, and no handle of the old heap names its slot.\<close>

lemma core_inv_alloc:
  assumes inv: "core_inv h" and new: "\<not> live_ref h r" "ref_age h' r = Young" "ref_color h' r = White" "live_handles h (traced_of h' r)"
    and gen: "\<And>x g. is_live_gen h x g \<Longrightarrow> is_live_gen h' x g"
    and other: "\<And>x. x \<noteq> r \<Longrightarrow> live_ref h' x = live_ref h x \<and> ref_age h' x = ref_age h x \<and> ref_color h' x = ref_color h x \<and>
      traced_of h' x = traced_of h x"
    and fine: "arenas_fine h'" and roots: "same_roots h h'"
    and book: "hp_remembered h' = hp_remembered h" "hp_force_major h' = hp_force_major h"
  shows "core_inv h'"
proof -
  have "unmarked h'" using inv new(3) other unfolding core_inv_def unmarked_def by metis
  moreover have "no_dangling h'" unfolding no_dangling_def
  proof (intro allI)
    fix x show "\<forall>c \<in> set (traced_of h' x). is_live_gen h' (fst c) (snd c)"
      using inv new(4) gen other [of x] by (cases "x = r") (auto simp: core_inv_def no_dangling_def live_handles_def)
  qed
  moreover have "roots_live h'" by (rule roots_live_mono [OF _ roots gen]) (use inv in \<open>simp_all add: core_inv_def\<close>)
  moreover have "generations_ok h'" unfolding generations_ok_def book
  proof (intro conjI allI impI disj_imp [THEN iffD2] ballI)
    fix x assume "live_ref h' x" "ref_age h' x = OldRemembered"
    then show "x \<in> set (hp_remembered h)" using inv new(2) other [of x] by (cases "x = r") (auto simp: core_inv_def generations_ok_def)
  next
    fix x c assume x: "\<not> hp_force_major h" "live_ref h' x" "ref_age h' x = Old" "\<not> is_thread x" "c \<in> set (traced_of h' x)"
    then have "x \<noteq> r" using new(2) by auto
    then have old: "ref_age h (fst c) \<noteq> Young" "is_live_gen h (fst c) (snd c)"
      using x other [of x] inv by (auto simp: core_inv_def generations_ok_def no_dangling_def)
    then have "fst c \<noteq> r" using new(1) is_live_gen_live by blast
    then show "ref_age h' (fst c) \<noteq> Young" using other old(1) by simp
  qed
  ultimately show ?thesis using fine by (simp add: core_inv_def)
qed

text \<open>One object changes its handles; an old object that is no thread is not a plain old one any more.\<close>

lemma core_inv_store:
  assumes inv: "core_inv h" and store: "live_handles h (traced_of h' r)"
    and old: "ref_age h r \<noteq> Old \<or> is_thread r \<or> hp_force_major h \<or> traced_of h' r = []"
    and same: "\<And>x. live_ref h' x = live_ref h x" "\<And>x. ref_age h' x = ref_age h x" "\<And>x. ref_color h' x = ref_color h x"
      "\<And>x g. is_live_gen h' x g = is_live_gen h x g"
    and other: "\<And>x. x \<noteq> r \<Longrightarrow> traced_of h' x = traced_of h x"
    and fine: "arenas_fine h'" and roots: "same_roots h h'"
    and book: "hp_remembered h' = hp_remembered h" "hp_force_major h' = hp_force_major h"
  shows "core_inv h'"
proof -
  have "unmarked h'" using inv by (auto simp: core_inv_def unmarked_def same)
  moreover have "no_dangling h'" unfolding no_dangling_def
  proof (intro allI)
    fix x show "\<forall>c \<in> set (traced_of h' x). is_live_gen h' (fst c) (snd c)"
      using inv store other [of x] by (cases "x = r") (auto simp: core_inv_def no_dangling_def live_handles_def same)
  qed
  moreover have "roots_live h'" by (rule roots_live_mono [OF _ roots]) (use inv in \<open>simp_all add: core_inv_def same\<close>)
  moreover have "generations_ok h'" unfolding generations_ok_def book same
  proof (intro conjI allI impI disj_imp [THEN iffD2] ballI)
    fix x assume "live_ref h x" "ref_age h x = OldRemembered"
    then show "x \<in> set (hp_remembered h)" using inv by (simp add: core_inv_def generations_ok_def)
  next
    fix x c assume x: "\<not> hp_force_major h" "live_ref h x" "ref_age h x = Old" "\<not> is_thread x" "c \<in> set (traced_of h' x)"
    then have "x \<noteq> r" using old by auto
    then show "ref_age h (fst c) \<noteq> Young"
      using x other [of x] inv unfolding core_inv_def generations_ok_def by metis
  qed
  ultimately show ?thesis using fine by (simp add: core_inv_def)
qed

lemma core_inv_same:
  assumes "core_inv h" "\<And>x. live_ref h' x = live_ref h x" "\<And>x. ref_age h' x = ref_age h x" "\<And>x. ref_color h' x = ref_color h x"
    "\<And>x g. is_live_gen h' x g = is_live_gen h x g" "\<And>x. traced_of h' x = traced_of h x" "arenas_fine h'" "same_roots h h'"
    "hp_remembered h' = hp_remembered h" "hp_force_major h' = hp_force_major h"
  shows "core_inv h'"
proof -
  have "roots_live h'" by (rule roots_live_mono [OF _ assms(8)]) (use assms in \<open>simp_all add: core_inv_def\<close>)
  then show ?thesis using assms by (simp add: core_inv_def unmarked_def no_dangling_def generations_ok_def)
qed

section \<open>The write barrier\<close>

text \<open>A change outside the arenas changes no view of an object.\<close>

definition same_store :: "heap \<Rightarrow> heap \<Rightarrow> bool" where
  "same_store h h' \<longleftrightarrow> strings h' = strings h \<and> tables h' = tables h \<and> closures h' = closures h \<and> userdata h' = userdata h \<and>
     threads h' = threads h \<and> buffers h' = buffers h \<and> protos h' = protos h \<and> upvals h' = upvals h"

lemma same_store_views:
  assumes "same_store h h'"
  shows "live_ref h' x = live_ref h x" "is_live_gen h' x g = is_live_gen h x g" "ref_color h' x = ref_color h x"
    "ref_age h' x = ref_age h x" "traced_of h' x = traced_of h x" "in_range h' x = in_range h x" "arenas_fine h' = arenas_fine h"
    "live_handles h' cs = live_handles h cs" "tables_ok h' = tables_ok h"
proof -
  show gen: "is_live_gen h' x g = is_live_gen h x g" for x g
    using assms by (cases x) (simp_all add: is_live_gen_def same_store_def)
  show "live_handles h' cs = live_handles h cs" by (simp add: live_handles_def gen)
  show "live_ref h' x = live_ref h x" "ref_color h' x = ref_color h x" "ref_age h' x = ref_age h x" "traced_of h' x = traced_of h x"
    "in_range h' x = in_range h x" "arenas_fine h' = arenas_fine h" "tables_ok h' = tables_ok h"
    using assms unfolding same_store_def
    by (cases x; simp add: live_ref_def ref_color_def ref_age_def traced_of_def in_range_def arenas_fine_def tables_ok_def)+
qed

lemma same_store_fields [simp]:
  "same_store h (h\<lparr>hp_remembered := rs\<rparr>)" "same_store h (h\<lparr>hp_force_major := b\<rparr>)" "same_store h (h\<lparr>hp_registry := rg\<rparr>)"
  "same_store h (h\<lparr>hp_named := m\<rparr>)" "same_store h (h\<lparr>hp_string_metatable := t\<rparr>)" "same_store h (h\<lparr>hp_vector_metatable := t\<rparr>)"
  "same_store h (h\<lparr>hp_error_metatable := t\<rparr>)" "same_store h (h\<lparr>hp_metamethod_names := ns\<rparr>)"
  "same_store h (h\<lparr>hp_interner := ib\<rparr>)" "same_store h (h\<lparr>hp_taken_out := n\<rparr>)"
  by (simp_all add: same_store_def)

lemmas heap_field_views [simp] =
  same_store_fields [THEN same_store_views(1)]
  same_store_fields [THEN same_store_views(2)]
  same_store_fields [THEN same_store_views(3)]
  same_store_fields [THEN same_store_views(4)]
  same_store_fields [THEN same_store_views(5)]
  same_store_fields [THEN same_store_views(6)]
  same_store_fields [THEN same_store_views(7)]
  same_store_fields [THEN same_store_views(8)]
  same_store_fields [THEN same_store_views(9)]

lemma remember_cases:
  obtains (young) "ref_age h r \<noteq> Old" "remember granted r h = h"
  | (listed) h1 where "ref_age h r = Old" "h1 = h\<lparr>hp_remembered := hp_remembered h @ [r]\<rparr>" "remember granted r h = set_age r OldRemembered h1"
  | (forced) "ref_age h r = Old" "remember granted r h = h\<lparr>hp_force_major := True\<rparr>"
proof -
  consider "ref_age h r \<noteq> Old" | "ref_age h r = Old" granted | "ref_age h r = Old" "\<not> granted" by blast
  then show ?thesis
  proof cases
    case 1
    then show ?thesis by (intro young) (simp_all add: remember_def)
  next
    case 2
    then show ?thesis by (intro listed [OF _ refl]) (simp_all add: remember_def)
  next
    case 3
    then show ?thesis by (intro forced) (simp_all add: remember_def)
  qed
qed

lemma set_age_rest: "object_store.more (set_age r a h) = object_store.more h"
  by (cases r) (simp_all add: set_age_def)

lemma more_roots: "object_store.more h' = object_store.more h \<Longrightarrow> same_roots h h' \<and> hp_remembered h' = hp_remembered h \<and>
    hp_force_major h' = hp_force_major h \<and> hp_interner h' = hp_interner h"
  using more_fields [of h' h] by (simp add: same_roots_def)

lemma remember_views [simp]:
  "live_ref (remember granted r h) x = live_ref h x" "is_live_gen (remember granted r h) x g = is_live_gen h x g"
  "ref_color (remember granted r h) x = ref_color h x" "traced_of (remember granted r h) x = traced_of h x"
  "hp_id (remember granted r h) = hp_id h" "same_roots h (remember granted r h)" "hp_interner (remember granted r h) = hp_interner h"
  by (cases rule: remember_cases [of h r granted];
      simp add: same_roots_def more_roots [OF set_age_rest, unfolded same_roots_def])+

lemma remember_rest [simp]:
  "hp_registry (remember granted r h) = hp_registry h" "hp_taken_out (remember granted r h) = hp_taken_out h"
  by (cases r; simp add: remember_def set_age_def)+

lemma remember_guards:
  assumes "in_range h r"
  shows "ref_age (remember granted r h) r \<noteq> Old \<or> hp_force_major (remember granted r h)"
  using assms by (auto simp: remember_def ref_age_set_age)

lemma remember_more:
  "tables_ok (remember granted r h) = tables_ok h" "ids_ok (remember granted r h) = ids_ok h"
  "interner_ok (remember granted r h) = interner_ok h"
proof -
  have v: "gc_value (tables (remember granted r h)) i = gc_value (tables h) i"
    "gc_value (threads (remember granted r h)) i = gc_value (threads h) i"
    "arena_get (threads (remember granted r h)) i k = arena_get (threads h) i k"
    "arena_get (strings (remember granted r h)) i k = arena_get (strings h) i k"
    "hp_interner (remember granted r h) = hp_interner h" for i k
    by (cases r; simp add: remember_def set_age_def gc_age_set)+
  show "tables_ok (remember granted r h) = tables_ok h" "ids_ok (remember granted r h) = ids_ok h"
    "interner_ok (remember granted r h) = interner_ok h"
    by (simp_all add: tables_ok_def ids_ok_def interner_ok_def heap_thread_def heap_string_def v)
qed

lemma remember_core:
  assumes inv: "core_inv h"
  shows "core_inv (remember granted r h)"
proof -
  have "arenas_fine (remember granted r h)" using inv by (simp add: core_inv_def remember_def)
  moreover have "unmarked (remember granted r h)" "no_dangling (remember granted r h)"
    using inv by (simp_all add: core_inv_def unmarked_def no_dangling_def)
  moreover have "roots_live (remember granted r h)"
    by (rule roots_live_mono [of h]) (use inv in \<open>simp_all add: core_inv_def\<close>)
  moreover have "generations_ok (remember granted r h)"
  proof (cases rule: remember_cases [of h r granted])
    case young
    then show ?thesis using inv by (simp add: core_inv_def)
  next
    case (listed h1)
    have h1: "hp_remembered (set_age r OldRemembered h1) = hp_remembered h @ [r]" "hp_force_major (set_age r OldRemembered h1) = hp_force_major h"
      using more_roots [of "set_age r OldRemembered h1" h1] set_age_rest [of r OldRemembered h1] by (simp_all add: listed(2))
    have g: "generations_ok h" using inv by (simp add: core_inv_def)
    have age: "ref_age (set_age r OldRemembered h1) x = (if x = r \<and> in_range h r then OldRemembered else ref_age h x)" for x
      by (simp add: ref_age_set_age listed(2))
    have v: "live_ref (set_age r OldRemembered h1) x = live_ref h x" "traced_of (set_age r OldRemembered h1) x = traced_of h x" for x
      by (simp_all add: listed(2))
    show ?thesis unfolding listed(3) generations_ok_def h1 age v using g by (auto simp: generations_ok_def)
  next
    case forced
    then show ?thesis using inv by (simp add: core_inv_def generations_ok_def)
  qed
  ultimately show ?thesis by (simp add: core_inv_def)
qed

section \<open>Allocation and replacement in one arena\<close>

lemma fresh_at:
  assumes "ar_entries a' = (ar_entries a)[unat i := fresh_entry v] \<and> unat i < length (ar_entries a) \<or>
    ar_entries a' = ar_entries a @ [fresh_entry v] \<and> unat i = length (ar_entries a)"
  shows "gc_age a' i = Young" "gc_color a' i = White" "gc_value a' i = Some v"
    "j \<noteq> i \<Longrightarrow> gc_value a' j = gc_value a j \<and> gc_age a' j = gc_age a j \<and> gc_color a' j = gc_color a j"
proof -
  show "gc_age a' i = Young" "gc_color a' i = White" "gc_value a' i = Some v"
    using assms by (auto simp: gc_age_def gc_color_def gc_value_def get_def fresh_entry_def)
  assume "j \<noteq> i"
  then have "unat j \<noteq> unat i" by (simp add: u32_unat_eq_iff)
  then have "get (ar_entries a') (unat j) = get (ar_entries a) (unat j)" using assms by (auto simp: get_def nth_append)
  then show "gc_value a' j = gc_value a j \<and> gc_age a' j = gc_age a j \<and> gc_color a' j = gc_color a j"
    by (simp add: gc_age_def gc_color_def gc_value_def)
qed

lemma arena_alloc_views:
  assumes ok: "arena_ok a" and al: "arena_alloc r v a = (Allocated i g, a')"
  shows "gc_value a i = None" "gc_age a' i = Young" "gc_color a' i = White" "gc_value a' i = Some v"
    "arena_get a j k \<noteq> None \<Longrightarrow> arena_get a' j k \<noteq> None"
    "j \<noteq> i \<Longrightarrow> gc_value a' j = gc_value a j \<and> gc_age a' j = gc_age a j \<and> gc_color a' j = gc_color a j"
    "arena_get a' i g = Some v"
proof -
  note h = arena_alloc_handles [OF ok al]
  show "gc_value a i = None" using h(2) gc_value_live by blast
  have get: "arena_get a' j k = ((handles a)((i, g) \<mapsto> v)) (j, k)" for j k using h(1) by (simp add: handles_def fun_eq_iff)
  then show "arena_get a' i g = Some v" by simp
  show "arena_get a' j k \<noteq> None" if "arena_get a j k \<noteq> None" using that by (simp add: get handles_def)
  have "ar_entries a' = (ar_entries a)[unat i := fresh_entry v] \<and> unat i < length (ar_entries a) \<or>
      ar_entries a' = ar_entries a @ [fresh_entry v] \<and> unat i = length (ar_entries a)"
    using ok
  proof (cases rule: arena_alloc_cases [where r = r and v = v])
    case (reused j)
    then show ?thesis using al by simp
  next
    case (grown j gs)
    then show ?thesis using al by (auto simp: unat_of_nat_u32)
  qed (use al in auto)
  note f = fresh_at [OF this]
  show "gc_age a' i = Young" "gc_color a' i = White" "gc_value a' i = Some v"
    "j \<noteq> i \<Longrightarrow> gc_value a' j = gc_value a j \<and> gc_age a' j = gc_age a j \<and> gc_color a' j = gc_color a j"
    by (rule f)+
qed

lemma get_mut_views:
  "(gc_value (arena_get_mut i g f a) j \<noteq> None) = (gc_value a j \<noteq> None)" "gc_age (arena_get_mut i g f a) j = gc_age a j"
  "gc_color (arena_get_mut i g f a) j = gc_color a j" "arena_len (arena_get_mut i g f a) = arena_len a"
  "arena_get a i g = Some v \<Longrightarrow> gc_value (arena_get_mut i g f a) i = Some (f v)"
  "j \<noteq> i \<Longrightarrow> gc_value (arena_get_mut i g f a) j = gc_value a j"
  "(arena_get (arena_get_mut i g f a) j k \<noteq> None) = (arena_get a j k \<noteq> None)"
  by (auto simp: arena_get_mut_def arena_get_def gc_value_def gc_age_def gc_color_def get_def arena_len_def
      nth_list_update u32_unat_eq_iff split: option.splits if_splits)

lemma grown_gens:
  assumes "arena_inv a"
  shows "arena_inv (a\<lparr>ar_gens := ar_gens a @ [0]\<rparr>)" "arena_get (a\<lparr>ar_gens := ar_gens a @ [0]\<rparr>) i g = arena_get a i g"
  using assms by (auto simp: arena_inv_def arena_ok_def young_exact_def live_at_def arena_get_def get_def nth_append)

lemma get_mut_inv: "arena_inv a \<Longrightarrow> arena_inv (arena_get_mut i g f a)"
  unfolding arena_get_mut_eq gc_value_mut_def by (auto intro!: update_entry_inv)

section \<open>One arena of the heap\<close>

locale object_arena =
  fixes arena :: "heap \<Rightarrow> 'a arena" and put :: "'a arena \<Rightarrow> heap \<Rightarrow> heap" and kind :: "u32 \<Rightarrow> gc_ref"
    and held :: "'a \<Rightarrow> traced"
  assumes kind_inj: "kind i = kind j \<Longrightarrow> i = j"
    and views: "live_ref h (kind i) \<longleftrightarrow> gc_value (arena h) i \<noteq> None" "is_live_gen h (kind i) g \<longleftrightarrow> arena_get (arena h) i g \<noteq> None"
      "ref_age h (kind i) = gc_age (arena h) i" "ref_color h (kind i) = gc_color (arena h) i"
      "traced_of h (kind i) = visit_option held (gc_value (arena h) i)" "in_range h (kind i) \<longleftrightarrow> unat i < arena_len (arena h)"
    and arena_put: "arena (put a h) = a" "put (arena h) h = h"
    and arena_remember: "arena_get (arena (remember granted r h)) i g = arena_get (arena h) i g"
    and other: "r \<notin> range kind \<Longrightarrow> live_ref (put a h) r = live_ref h r" "r \<notin> range kind \<Longrightarrow> is_live_gen (put a h) r g = is_live_gen h r g"
      "r \<notin> range kind \<Longrightarrow> ref_age (put a h) r = ref_age h r" "r \<notin> range kind \<Longrightarrow> ref_color (put a h) r = ref_color h r"
      "r \<notin> range kind \<Longrightarrow> traced_of (put a h) r = traced_of h r"
    and fine: "arenas_fine h \<Longrightarrow> arena_fine (arena h)" "arenas_fine h \<Longrightarrow> arena_fine a \<Longrightarrow> arenas_fine (put a h)"
    and roots: "same_roots h (put a h)" "hp_remembered (put a h) = hp_remembered h" "hp_force_major (put a h) = hp_force_major h"
begin

lemma alloc_core:
  assumes inv: "core_inv h" and al: "arena_alloc r v (arena h) = (Allocated i g, a)" and room: "arena_len a < 2 ^ 32"
    and v: "live_handles h (held v)"
  shows "core_inv (put a h)"
proof (rule core_inv_alloc [OF inv])
  have ok: "arena_inv (arena h)" "arena_ok (arena h)" using fine(1) inv arena_fineD by (auto simp: core_inv_def)
  note al' = arena_alloc_views [OF ok(2) al]
  show "\<not> live_ref h (kind i)" "ref_age (put a h) (kind i) = Young" "ref_color (put a h) (kind i) = White"
    "live_handles h (traced_of (put a h) (kind i))"
    using al' v by (simp_all add: views arena_put visit_option_def)
  show "is_live_gen (put a h) x k" if "is_live_gen h x k" for x k
    using that al'(5) by (cases "x \<in> range kind") (auto simp only: views arena_put other not_False_eq_True)
  show "live_ref (put a h) x = live_ref h x \<and> ref_age (put a h) x = ref_age h x \<and> ref_color (put a h) x = ref_color h x \<and>
      traced_of (put a h) x = traced_of h x" if x: "x \<noteq> kind i" for x
  proof (cases "x \<in> range kind")
    case True
    then obtain j where "x = kind j" "j \<noteq> i" using x by auto
    then show ?thesis using al'(6) [of j] by (simp add: views arena_put)
  qed (simp add: other)
  show "arenas_fine (put a h)"
    using fine(2) inv arena_alloc_inv [OF ok(1) al] room by (auto simp: core_inv_def arena_fine_def)
qed (rule roots)+

lemma failed_core:
  assumes inv: "core_inv h" and al: "arena_alloc r v (arena h) = (Reserve_Error, a)"
  shows "core_inv (put a h)"
proof (rule core_inv_same [OF inv])
  have ok: "arena_inv (arena h)" "arena_ok (arena h)" "arena_len (arena h) < 2 ^ 32"
    using fine(1) inv arena_fineD by (auto simp: core_inv_def arena_fine_def)
  have a: "gc_value a i = gc_value (arena h) i \<and> gc_age a i = gc_age (arena h) i \<and> gc_color a i = gc_color (arena h) i" "arena_inv a"
    "arena_get a i g = arena_get (arena h) i g" "arena_len a = arena_len (arena h)" for i g
    using arena_alloc_failed [OF ok(2) al] grown_gens [OF ok(1)] ok(1)
    by (auto simp: gc_value_def gc_age_def gc_color_def arena_len_def)
  show "live_ref (put a h) x = live_ref h x" "ref_age (put a h) x = ref_age h x" "ref_color (put a h) x = ref_color h x"
    "is_live_gen (put a h) x g = is_live_gen h x g" "traced_of (put a h) x = traced_of h x" for x g
    by (cases "x \<in> range kind"; auto simp: views arena_put other a)+
  show "arenas_fine (put a h)" using fine(2) inv a(2,4) ok(3) by (simp add: core_inv_def arena_fine_def)
qed (rule roots)+

lemma store_core:
  assumes inv: "core_inv h" and old: "ref_age h (kind i) \<noteq> Old \<or> is_thread (kind i) \<or> hp_force_major h \<or> (\<forall>v. held v = [])"
    and f: "\<And>v. arena_get (arena h) i g = Some v \<Longrightarrow> live_handles h (held (f v))"
  shows "core_inv (put (arena_get_mut i g f (arena h)) h)"
proof (rule core_inv_store [OF inv])
  have ok: "arena_inv (arena h)" "arena_len (arena h) < 2 ^ 32" using fine(1) inv by (auto simp: core_inv_def arena_fine_def)
  let ?a = "arena_get_mut i g f (arena h)"
  note m = get_mut_views [where i = i and g = g and f = f and a = "arena h"]
  have eq: "(gc_value ?a j = None) = (gc_value (arena h) j = None)" "(arena_get ?a j k = None) = (arena_get (arena h) j k = None)" for j k
    using m(1) [where j = j] m(7) [where j = j and k = k] by auto
  have x: "(live_ref (put ?a h) x = live_ref h x \<and> ref_age (put ?a h) x = ref_age h x \<and> ref_color (put ?a h) x = ref_color h x) \<and>
      (\<forall>k. is_live_gen (put ?a h) x k = is_live_gen h x k)" for x
    by (cases "x \<in> range kind") (auto simp: views arena_put other m(2,3) eq)
  then show "live_ref (put ?a h) x = live_ref h x" "ref_age (put ?a h) x = ref_age h x"
    "ref_color (put ?a h) x = ref_color h x" "is_live_gen (put ?a h) x k = is_live_gen h x k" for x k by auto
  show "traced_of (put ?a h) x = traced_of h x" if x: "x \<noteq> kind i" for x
  proof (cases "x \<in> range kind")
    case True
    then obtain j where "x = kind j" "j \<noteq> i" using x by auto
    then show ?thesis by (simp add: views arena_put m)
  qed (simp add: other)
  show "ref_age h (kind i) \<noteq> Old \<or> is_thread (kind i) \<or> hp_force_major h \<or> traced_of (put ?a h) (kind i) = []"
    using old by (auto simp: views arena_put visit_option_def split: option.splits)
  show "live_handles h (traced_of (put ?a h) (kind i))"
  proof (cases "arena_get (arena h) i g")
    case None
    then have "?a = arena h" by (simp add: arena_get_mut_def)
    then have "traced_of (put ?a h) (kind i) = traced_of h (kind i)" by (simp add: views arena_put)
    then show ?thesis using inv by (simp add: core_inv_def no_dangling_def live_handles_def)
  next
    case (Some v)
    then show ?thesis using f [OF Some] m(5) by (simp add: views arena_put visit_option_def)
  qed
  show "arenas_fine (put ?a h)"
    using fine(2) inv get_mut_inv [OF ok(1)] ok(2) by (simp add: core_inv_def arena_fine_def m)
qed (rule roots)+

lemma alloc_step:
  assumes inv: "core_inv h" and v: "live_handles h (held v)" and room: "Suc (arena_len (arena h)) < 2 ^ 32"
    and al: "(case arena_alloc r v (arena h) of (res, a) \<Rightarrow> with_handle res (put a h)) = Some (out, h')"
  obtains a where "h' = put a h" "core_inv h'" "\<And>x k. is_live_gen h x k \<Longrightarrow> is_live_gen h' x k"
    "\<And>j w. gc_value a j = Some w \<Longrightarrow> gc_value (arena h) j = Some w \<or> w = v"
    "\<And>j k. arena_get a j k = (if out = Some (RawGc j k (hp_id h)) then Some v else arena_get (arena h) j k)"
    "\<And>g. out = Some g \<Longrightarrow> gc_heap g = hp_id h \<and> \<not> live_ref h (kind (gc_index g))"
proof -
  have ok: "arena_inv (arena h)" "arena_ok (arena h)" using fine(1) inv arena_fineD by (auto simp: core_inv_def)
  obtain res a where ra: "arena_alloc r v (arena h) = (res, a)" by fastforce
  then have w: "with_handle res (put a h) = Some (out, h')" using al by simp
  have id: "hp_id (put a h) = hp_id h" using roots(1) by (simp add: same_roots_def)
  show ?thesis
  proof (cases res)
    case (Allocated i g)
    note ra = ra [unfolded Allocated]
    note al' = arena_alloc_views [OF ok(2) ra]
    have h': "h' = put a h" "out = Some (RawGc i g (hp_id h))" using w Allocated id by (auto simp: with_handle_def)
    have len: "arena_len a < 2 ^ 32"
      using ok(2) by (cases rule: arena_alloc_cases [where r = r and v = v]) (use ra room in \<open>auto simp: arena_len_def\<close>)
    have "\<not> live_ref h (kind i)" using al'(1) by (simp add: views)
    moreover have "is_live_gen h' x k" if "is_live_gen h x k" for x k
      using that al'(5) by (cases "x \<in> range kind") (auto simp only: views arena_put other not_False_eq_True h')
    moreover have "gc_value (arena h) j = Some u \<or> u = v" if "gc_value a j = Some u" for j u
      using that al'(4) al'(6) [of j] by (cases "j = i") auto
    moreover have "arena_get a j k = (if out = Some (RawGc j k (hp_id h)) then Some v else arena_get (arena h) j k)" for j k
      using arena_alloc_handles(1) [OF ok(2) ra] by (simp add: handles_def fun_eq_iff h'(2))
    ultimately show ?thesis using h' alloc_core [OF inv ra len v] by (intro that [OF h'(1)]) auto
  next
    case Reserve_Error
    note ra = ra [unfolded Reserve_Error]
    have h': "h' = put a h" "out = None" using w Reserve_Error by (auto simp: with_handle_def)
    have a: "arena_get a j k = arena_get (arena h) j k" "gc_value a j = gc_value (arena h) j" for j k
      using arena_alloc_failed [OF ok(2) ra] grown_gens(2) [OF ok(1)] by (auto simp: gc_value_def)
    have "is_live_gen h' x k = is_live_gen h x k" for x k
      by (cases "x \<in> range kind") (auto simp: views arena_put other h' a)
    then show ?thesis using h' failed_core [OF inv ra] by (intro that [OF h'(1)]) (simp_all add: a)
  next
    case Alloc_Panic
    then show ?thesis using w by (simp add: with_handle_def)
  qed
qed

text \<open>A mutation behind the write barrier; a stale handle changes nothing but the remembered set.\<close>

lemma barrier_core:
  fixes granted :: bool
  assumes inv: "core_inv h" and f: "\<And>v. arena_get (arena h) i g = Some v \<Longrightarrow> live_handles h (held (f v))"
  defines "h1 \<equiv> remember granted (kind i) h"
  shows "core_inv (put (arena_get_mut i g f (arena h1)) h1)"
proof (cases "arena_get (arena h) i g")
  case None
  then have "put (arena_get_mut i g f (arena h1)) h1 = h1"
    by (simp add: arena_get_mut_def h1_def arena_remember arena_put)
  then show ?thesis using remember_core [OF inv] by (simp add: h1_def)
next
  case (Some v)
  then have "in_range h (kind i)" using gc_value_in_range arena_get_live by (fastforce simp: views)
  show ?thesis
  proof (rule store_core)
    show "core_inv h1" using remember_core [OF inv] by (simp add: h1_def)
    show "ref_age h1 (kind i) \<noteq> Old \<or> is_thread (kind i) \<or> hp_force_major h1 \<or> (\<forall>v. held v = [])"
      using remember_guards [OF \<open>in_range h (kind i)\<close>] by (auto simp: h1_def)
    show "live_handles h1 (held (f w))" if "arena_get (arena h1) i g = Some w" for w
      using f that by (simp add: h1_def arena_remember live_handles_def)
  qed
qed

lemma put_live:
  "is_live_gen (put (arena_get_mut i g f (arena h)) h) x k = is_live_gen h x k"
proof (cases "x \<in> range kind")
  case True
  then obtain j where x: "x = kind j" by blast
  show ?thesis unfolding x views arena_put by (rule get_mut_views(7))
qed (simp add: other)

end

lemmas arena_views = live_ref_def is_live_gen_def ref_age_def ref_color_def traced_of_def in_range_def arenas_fine_def visit_option_def

lemma arena_of_remember:
  "arena_get (strings (remember granted r h)) i g = arena_get (strings h) i g"
  "arena_get (tables (remember granted r h)) i g = arena_get (tables h) i g"
  "arena_get (closures (remember granted r h)) i g = arena_get (closures h) i g"
  "arena_get (userdata (remember granted r h)) i g = arena_get (userdata h) i g"
  "arena_get (threads (remember granted r h)) i g = arena_get (threads h) i g"
  "arena_get (buffers (remember granted r h)) i g = arena_get (buffers h) i g"
  "arena_get (protos (remember granted r h)) i g = arena_get (protos h) i g"
  "arena_get (upvals (remember granted r h)) i g = arena_get (upvals h) i g"
  by (cases r; simp add: remember_def set_age_def gc_age_set)+

interpretation string_arena: object_arena strings "\<lambda>a h. h\<lparr>strings := a\<rparr>" Gc_Str "\<lambda>_. []"
  by unfold_locales (auto simp: arena_views same_roots_def remember_def set_age_def gc_age_set split: gc_ref.splits option.splits)

interpretation table_arena: object_arena tables "\<lambda>a h. h\<lparr>tables := a\<rparr>" Gc_Table table_trace
  by unfold_locales (auto simp: arena_views same_roots_def arena_of_remember split: gc_ref.splits option.splits)

interpretation closure_arena: object_arena closures "\<lambda>a h. h\<lparr>closures := a\<rparr>" Gc_Closure closure_trace
  by unfold_locales (auto simp: arena_views same_roots_def arena_of_remember split: gc_ref.splits option.splits)

interpretation userdata_arena: object_arena userdata "\<lambda>a h. h\<lparr>userdata := a\<rparr>" Gc_Userdata "\<lambda>_. []"
  by unfold_locales (auto simp: arena_views same_roots_def arena_of_remember split: gc_ref.splits option.splits)

interpretation thread_arena: object_arena threads "\<lambda>a h. h\<lparr>threads := a\<rparr>" Gc_Thread thread_trace
  by unfold_locales (auto simp: arena_views same_roots_def arena_of_remember split: gc_ref.splits option.splits)

interpretation buffer_arena: object_arena buffers "\<lambda>a h. h\<lparr>buffers := a\<rparr>" Gc_Buffer "\<lambda>_. []"
  by unfold_locales (auto simp: arena_views same_roots_def arena_of_remember split: gc_ref.splits option.splits)

interpretation proto_arena: object_arena protos "\<lambda>a h. h\<lparr>protos := a\<rparr>" Gc_Proto proto_trace
  by unfold_locales (auto simp: arena_views same_roots_def arena_of_remember split: gc_ref.splits option.splits)

interpretation upval_arena: object_arena upvals "\<lambda>a h. h\<lparr>upvals := a\<rparr>" Gc_UpVal upval_trace
  by unfold_locales (auto simp: arena_views same_roots_def arena_of_remember split: gc_ref.splits option.splits)

section \<open>The operations\<close>

definition heap_ok :: "heap \<Rightarrow> bool" where
  "heap_ok h \<longleftrightarrow> gc_inv h \<and> registry_ok (hp_registry h) \<and> length (rg_anchors (hp_registry h)) \<le> 2 ^ 32"

text \<open>What every operation but a collection does: the heap stays well formed and no object dies.\<close>

definition advances :: "heap \<Rightarrow> heap \<Rightarrow> bool" where
  "advances h h' \<longleftrightarrow> heap_ok h' \<and> hp_id h' = hp_id h \<and> hp_taken_out h' = hp_taken_out h \<and>
     (\<forall>r g. is_live_gen h r g \<longrightarrow> is_live_gen h' r g)"

lemma heap_okD: "heap_ok h \<Longrightarrow> gc_inv h" "heap_ok h \<Longrightarrow> core_inv h" "heap_ok h \<Longrightarrow> registry_ok (hp_registry h)"
  by (simp_all add: heap_ok_def gc_inv_core)

lemma advances_refl [simp]: "advances h h \<longleftrightarrow> heap_ok h"
  by (simp add: advances_def)

lemma advances_trans: "advances h h' \<Longrightarrow> advances h' h'' \<Longrightarrow> advances h h''"
  by (simp add: advances_def)

lemma kept_parts:
  "tables h' = tables h \<Longrightarrow> tables_ok h' = tables_ok h"
  "threads h' = threads h \<Longrightarrow> hp_id h' = hp_id h \<Longrightarrow> ids_ok h' = ids_ok h"
  "strings h' = strings h \<Longrightarrow> hp_id h' = hp_id h \<Longrightarrow> hp_interner h' = hp_interner h \<Longrightarrow> interner_ok h' = interner_ok h"
  by (simp_all add: tables_ok_def ids_ok_def interner_ok_def heap_thread_def heap_string_def)

lemma advancesI:
  assumes "heap_ok h" "core_inv h'" "tables_ok h'" "ids_ok h'" "interner_ok h'" "hp_id h' = hp_id h" "hp_taken_out h' = hp_taken_out h"
    "hp_registry h' = hp_registry h" "\<And>r g. is_live_gen h r g \<Longrightarrow> is_live_gen h' r g"
  shows "advances h h'"
  using assms by (simp add: advances_def heap_ok_def gc_inv_core)

lemma heap_ok_parts: "heap_ok h \<Longrightarrow> tables_ok h" "heap_ok h \<Longrightarrow> ids_ok h" "heap_ok h \<Longrightarrow> interner_ok h"
  by (simp_all add: heap_ok_def gc_inv_core)

subsection \<open>Allocation\<close>

lemma alloc_table_ok:
  assumes h: "heap_ok h" and t: "table_ok t" "length (lt_array t) < 2 ^ 53" "live_handles h (table_trace t)"
    and room: "Suc (arena_len (tables h)) < 2 ^ 32" and al: "alloc_table r t h = Some (out, h')"
  shows "advances h h' \<and> (\<forall>g. out = Some g \<longrightarrow> heap_table h' g = Some t)"
proof -
  obtain a where h': "h' = h\<lparr>tables := a\<rparr>" and c: "core_inv h'" "\<And>x k. is_live_gen h x k \<Longrightarrow> is_live_gen h' x k"
    and a: "\<And>j w. gc_value a j = Some w \<Longrightarrow> gc_value (tables h) j = Some w \<or> w = t"
      "\<And>j k. arena_get a j k = (if out = Some (RawGc j k (hp_id h)) then Some t else arena_get (tables h) j k)"
      "\<And>g. out = Some g \<Longrightarrow> gc_heap g = hp_id h \<and> \<not> live_ref h (Gc_Table (gc_index g))"
    by (rule table_arena.alloc_step [OF heap_okD(2) [OF h] t(3) room al [unfolded alloc_table_def Let_def]]) blast
  have "tables_ok h'" using heap_ok_parts(1) [OF h] a(1) t(1,2) by (auto simp: tables_ok_def h')
  then have "advances h h'"
    using heap_ok_parts [OF h] kept_parts [of h' h] by (intro advancesI [OF h c(1) _ _ _ _ _ _ c(2)]) (simp_all add: h')
  moreover have "heap_table h' g = Some t" if "out = Some g" for g
    using that a(3) [OF that] a(2) by (cases g) (simp add: heap_table_def h')
  ultimately show ?thesis by blast
qed

lemmas alloc_steps = closure_arena.alloc_step userdata_arena.alloc_step buffer_arena.alloc_step proto_arena.alloc_step upval_arena.alloc_step

lemma alloc_closure_ok:
  assumes h: "heap_ok h" and c: "live_handles h (closure_trace c)" and room: "Suc (arena_len (closures h)) < 2 ^ 32"
    and al: "alloc_closure r c h = Some (out, h')"
  shows "advances h h'"
  by (rule closure_arena.alloc_step [OF heap_okD(2) [OF h] c room al [unfolded alloc_closure_def Let_def]])
    (use heap_ok_parts [OF h] kept_parts [of h' h] in \<open>simp_all add: advancesI [OF h]\<close>)

lemma alloc_proto_ok:
  assumes h: "heap_ok h" and p: "live_handles h (proto_trace p)" and room: "Suc (arena_len (protos h)) < 2 ^ 32"
    and al: "alloc_proto r p h = Some (out, h')"
  shows "advances h h'"
  by (rule proto_arena.alloc_step [OF heap_okD(2) [OF h] p room al [unfolded alloc_proto_def Let_def]])
    (use heap_ok_parts [OF h] kept_parts [of h' h] in \<open>simp_all add: advancesI [OF h]\<close>)

lemma alloc_upval_ok:
  assumes h: "heap_ok h" and u: "live_handles h (upval_trace u)" and room: "Suc (arena_len (upvals h)) < 2 ^ 32"
    and al: "alloc_upval r u h = Some (out, h')"
  shows "advances h h'"
  by (rule upval_arena.alloc_step [OF heap_okD(2) [OF h] u room al [unfolded alloc_upval_def Let_def]])
    (use heap_ok_parts [OF h] kept_parts [of h' h] in \<open>simp_all add: advancesI [OF h]\<close>)

lemma alloc_buffer_ok:
  assumes h: "heap_ok h" and room: "Suc (arena_len (buffers h)) < 2 ^ 32" and al: "alloc_buffer r b h = Some (out, h')"
  shows "advances h h'"
  by (rule buffer_arena.alloc_step [OF heap_okD(2) [OF h] live_handles_simps(1) room al [unfolded alloc_buffer_def Let_def]])
    (use heap_ok_parts [OF h] kept_parts [of h' h] in \<open>simp_all add: advancesI [OF h]\<close>)

lemma alloc_userdata_ok:
  assumes h: "heap_ok h" and room: "Suc (arena_len (userdata h)) < 2 ^ 32" and al: "alloc_userdata r u h = Some (out, h')"
  shows "advances h h'"
  by (rule userdata_arena.alloc_step [OF heap_okD(2) [OF h] live_handles_simps(1) room al [unfolded alloc_userdata_def Let_def]])
    (use heap_ok_parts [OF h] kept_parts [of h' h] in \<open>simp_all add: advancesI [OF h]\<close>)

lemma heap_thread_mono:
  assumes "hp_id h' = hp_id h" "\<And>x k. is_live_gen h x k \<Longrightarrow> is_live_gen h' x k"
  shows "heap_thread h g \<noteq> None \<Longrightarrow> heap_thread h' g \<noteq> None"
  unfolding heap_handles_live using assms by metis

text \<open>A new thread has no identity yet.\<close>

lemma alloc_thread_ok:
  assumes h: "heap_ok h" and t: "th_id t = None" "live_handles h (thread_trace t)" and room: "Suc (arena_len (threads h)) < 2 ^ 32"
    and al: "alloc_thread r t h = Some (out, h')"
  shows "advances h h'"
proof (rule thread_arena.alloc_step [OF heap_okD(2) [OF h] t(2) room al [unfolded alloc_thread_def Let_def]])
  fix a assume h': "h' = h\<lparr>threads := a\<rparr>" and c: "core_inv h'" "\<And>x k. is_live_gen h x k \<Longrightarrow> is_live_gen h' x k"
    and a: "\<And>j w. gc_value a j = Some w \<Longrightarrow> gc_value (threads h) j = Some w \<or> w = t"
  have "ids_ok h'" unfolding ids_ok_def
  proof (intro allI impI)
    fix i s g assume s: "gc_value (threads h') i = Some s" "th_id s = Some g"
    then have "gc_value (threads h) i = Some s" using a [of i s] t(1) by (auto simp: h')
    then have "gc_index g = i \<and> heap_thread h g \<noteq> None" using heap_ok_parts(2) [OF h] s(2) by (simp add: ids_ok_def)
    then show "gc_index g = i \<and> heap_thread h' g \<noteq> None" using heap_thread_mono [of h' h, OF _ c(2)] by (simp add: h')
  qed
  then show "advances h h'"
    using heap_ok_parts [OF h] kept_parts [of h' h] by (intro advancesI [OF h c(1) _ _ _ _ _ _ c(2)]) (simp_all add: h')
qed

subsection \<open>Interning\<close>

lemma core_inv_fields:
  assumes "core_inv h"
  shows "core_inv (h\<lparr>hp_interner := m\<rparr>)" "core_inv (h\<lparr>hp_named := nm\<rparr>)" "core_inv (h\<lparr>hp_taken_out := n\<rparr>)"
  by (rule core_inv_same [OF assms]; use assms in \<open>simp add: core_inv_def same_roots_def\<close>)+

lemma intern_str_ok:
  assumes h: "heap_ok h" and room: "Suc (arena_len (strings h)) < 2 ^ 32" and al: "intern_str r bs h = Some (out, h')"
  shows "advances h h' \<and> (\<forall>g. out = Some g \<longrightarrow> hp_interner h' bs = Some g \<and> heap_string h' g \<noteq> None)"
proof (cases "hp_interner h bs")
  case (Some g)
  then have "out = Some g" "h' = h" using al by (simp_all add: intern_str_def)
  moreover have "heap_string h g \<noteq> None" using heap_ok_parts(3) [OF h] Some unfolding interner_ok_def by (metis option.distinct(1))
  ultimately show ?thesis using h Some by simp
next
  case None
  let ?s = "\<lparr>ls_bytes = bs\<rparr>"
  obtain h1 where w: "(case arena_alloc r ?s (strings h) of (res, a) \<Rightarrow> with_handle res (h\<lparr>strings := a\<rparr>)) = Some (out, h1)"
    and h': "h' = (case out of None \<Rightarrow> h1 | Some g \<Rightarrow> h1\<lparr>hp_interner := (hp_interner h1)(bs \<mapsto> g)\<rparr>)"
    using al None by (auto simp: intern_str_def split: prod.splits option.splits)
  obtain a where h1: "h1 = h\<lparr>strings := a\<rparr>" and c: "core_inv h1" "\<And>x k. is_live_gen h x k \<Longrightarrow> is_live_gen h1 x k"
    and a: "\<And>j k. arena_get a j k = (if out = Some (RawGc j k (hp_id h)) then Some ?s else arena_get (strings h) j k)"
      "\<And>g. out = Some g \<Longrightarrow> gc_heap g = hp_id h \<and> \<not> live_ref h (Gc_Str (gc_index g))"
    by (rule string_arena.alloc_step [OF heap_okD(2) [OF h] live_handles_simps(1) room w]) blast
  have str: "heap_string h1 g = (if out = Some g then Some ?s else heap_string h g)" for g
    using a(1) [of "gc_index g" "gc_generation g"] a(2) by (cases g) (auto simp: heap_string_def h1)
  have old: "heap_string h g = Some s \<Longrightarrow> ls_bytes s \<noteq> bs" for g s
    using heap_ok_parts(3) [OF h] None unfolding interner_ok_def by (metis option.distinct(1))
  have fresh: "heap_string h g = None" if "out = Some g" for g
    using a(2) [OF that] arena_get_live [of "strings h" "gc_index g" "gc_generation g"]
    by (cases "arena_get (strings h) (gc_index g) (gc_generation g)") (auto simp: heap_string_def live_ref_def)
  have int: "hp_interner h' b = (if b = bs then out else hp_interner h b)" for b
    using None by (simp add: h' h1 split: option.splits)
  have same: "heap_string h' g = heap_string h1 g" for g by (simp add: h' heap_string_def split: option.splits)
  have "interner_ok h'" unfolding interner_ok_def int same str
    using heap_ok_parts(3) [OF h] old fresh by (auto simp: interner_ok_def)
  moreover have "core_inv h'" using c(1) core_inv_fields(1) by (simp add: h' split: option.splits)
  moreover have "tables_ok h'" "ids_ok h'" "hp_id h' = hp_id h" "hp_taken_out h' = hp_taken_out h" "hp_registry h' = hp_registry h"
    using heap_ok_parts(1,2) [OF h] kept_parts [of h' h] by (simp_all add: h' h1 split: option.splits)
  moreover have "is_live_gen h' x k" if "is_live_gen h x k" for x k using c(2) [OF that] by (simp add: h' split: option.splits)
  ultimately have "advances h h'" by (intro advancesI [OF h])
  then show ?thesis by (simp add: int same str)
qed

subsection \<open>Mutation\<close>

text \<open>Only the tables and the identities of threads carry conditions beyond live handles.\<close>

lemma mutated_values:
  assumes "gc_value (arena_get_mut i g f a) j = Some w"
  shows "gc_value a j = Some w \<or> j = i \<and> (\<exists>v. arena_get a i g = Some v \<and> w = f v)"
  using assms get_mut_views(5,6) [where i = i and g = g and f = f and a = a] by (cases "j = i") (auto simp: arena_get_mut_def split: option.splits)

lemma table_mut_ok:
  assumes h: "heap_ok h"
    and f: "\<And>t. heap_table h g = Some t \<Longrightarrow> table_ok (f t) \<and> length (lt_array (f t)) < 2 ^ 53 \<and> live_handles h (table_trace (f t))"
  shows "advances h (table_mut granted g f h)"
proof (cases "gc_heap g = hp_id h")
  case True
  let ?h1 = "remember granted (Gc_Table (gc_index g)) h"
  have f': "arena_get (tables h) (gc_index g) (gc_generation g) = Some t \<Longrightarrow> table_ok (f t) \<and> length (lt_array (f t)) < 2 ^ 53 \<and>
      live_handles h (table_trace (f t))" for t using f True by (simp add: heap_table_def)
  have m: "table_mut granted g f h = ?h1\<lparr>tables := arena_get_mut (gc_index g) (gc_generation g) f (tables ?h1)\<rparr>"
    using True by (simp add: table_mut_def Let_def)
  have ok: "tables_ok ?h1" "ids_ok ?h1" "interner_ok ?h1" using heap_ok_parts [OF h] by (simp_all add: remember_more)
  have "tables_ok (table_mut granted g f h)"
    using ok(1) f' unfolding tables_ok_def m by (auto dest!: mutated_values simp: arena_of_remember)
  moreover have "core_inv (table_mut granted g f h)" unfolding m
    by (rule table_arena.barrier_core [OF heap_okD(2) [OF h]]) (use f' in blast)
  moreover have "is_live_gen (table_mut granted g f h) x k = is_live_gen h x k" for x k
    unfolding m table_arena.put_live by simp
  ultimately show ?thesis using ok kept_parts [of "table_mut granted g f h" ?h1]
    by (intro advancesI [OF h]) (simp_all add: m remember_rest)
qed (simp add: table_mut_def h)

lemma closure_mut_ok:
  assumes h: "heap_ok h"
    and f: "\<And>c. arena_get (closures h) (gc_index g) (gc_generation g) = Some c \<Longrightarrow> live_handles h (closure_trace (f c))"
  shows "advances h (closure_mut granted g f h)"
proof (cases "gc_heap g = hp_id h")
  case True
  let ?h1 = "remember granted (Gc_Closure (gc_index g)) h"
  have m: "closure_mut granted g f h = ?h1\<lparr>closures := arena_get_mut (gc_index g) (gc_generation g) f (closures ?h1)\<rparr>"
    using True by (simp add: closure_mut_def Let_def)
  have ok: "tables_ok ?h1" "ids_ok ?h1" "interner_ok ?h1" using heap_ok_parts [OF h] by (simp_all add: remember_more)
  have "core_inv (closure_mut granted g f h)" unfolding m
    by (rule closure_arena.barrier_core [OF heap_okD(2) [OF h] f])
  moreover have "is_live_gen (closure_mut granted g f h) x k = is_live_gen h x k" for x k
    unfolding m closure_arena.put_live by simp
  ultimately show ?thesis using ok kept_parts [of "closure_mut granted g f h" ?h1]
    by (intro advancesI [OF h]) (simp_all add: m)
qed (simp add: closure_mut_def h)

lemma upval_mut_ok:
  assumes h: "heap_ok h"
    and f: "\<And>u. arena_get (upvals h) (gc_index g) (gc_generation g) = Some u \<Longrightarrow> live_handles h (upval_trace (f u))"
  shows "advances h (upval_mut granted g f h)"
proof (cases "gc_heap g = hp_id h")
  case True
  let ?h1 = "remember granted (Gc_UpVal (gc_index g)) h"
  have m: "upval_mut granted g f h = ?h1\<lparr>upvals := arena_get_mut (gc_index g) (gc_generation g) f (upvals ?h1)\<rparr>"
    using True by (simp add: upval_mut_def Let_def)
  have ok: "tables_ok ?h1" "ids_ok ?h1" "interner_ok ?h1" using heap_ok_parts [OF h] by (simp_all add: remember_more)
  have "core_inv (upval_mut granted g f h)" unfolding m
    by (rule upval_arena.barrier_core [OF heap_okD(2) [OF h] f])
  moreover have "is_live_gen (upval_mut granted g f h) x k = is_live_gen h x k" for x k
    unfolding m upval_arena.put_live by simp
  ultimately show ?thesis using ok kept_parts [of "upval_mut granted g f h" ?h1]
    by (intro advancesI [OF h]) (simp_all add: m)
qed (simp add: upval_mut_def h)

lemma thread_mut_ok:
  assumes h: "heap_ok h"
    and f: "\<And>t. heap_thread h g = Some t \<Longrightarrow> th_id (f t) \<in> {None, Some g} \<and> live_handles h (thread_trace (f t))"
  shows "advances h (thread_mut g f h)"
proof (cases "gc_heap g = hp_id h")
  case True
  have m: "thread_mut g f h = h\<lparr>threads := arena_get_mut (gc_index g) (gc_generation g) f (threads h)\<rparr>"
    using True by (simp add: thread_mut_def)
  have f': "arena_get (threads h) (gc_index g) (gc_generation g) = Some t \<Longrightarrow> heap_thread h g = Some t" for t
    using True by (simp add: heap_thread_def)
  have core: "core_inv (thread_mut g f h)" unfolding m
    by (rule thread_arena.store_core [OF heap_okD(2) [OF h]]) (use f f' in \<open>auto simp: is_thread_def\<close>)
  have live: "is_live_gen (thread_mut g f h) x k = is_live_gen h x k" for x k
    unfolding m thread_arena.put_live by simp
  have "ids_ok (thread_mut g f h)" unfolding ids_ok_def
  proof (intro allI impI)
    fix i t k assume t: "gc_value (threads (thread_mut g f h)) i = Some t" "th_id t = Some k"
    then consider "gc_value (threads h) i = Some t"
      | v where "i = gc_index g" "arena_get (threads h) (gc_index g) (gc_generation g) = Some v" "t = f v"
      by (auto simp: m dest!: mutated_values)
    then have "gc_index k = i \<and> heap_thread h k \<noteq> None"
    proof cases
      case 1
      then show ?thesis using heap_ok_parts(2) [OF h] t(2) by (simp add: ids_ok_def)
    next
      case 2
      then show ?thesis using f [OF f'] t(2) f' [OF 2(2)] by auto
    qed
    then show "gc_index k = i \<and> heap_thread (thread_mut g f h) k \<noteq> None"
      using heap_thread_mono [of "thread_mut g f h" h k] live by (simp add: m)
  qed
  then show ?thesis using core heap_ok_parts [OF h] kept_parts [of "thread_mut g f h" h] live
    by (intro advancesI [OF h]) (simp_all add: m)
qed (simp add: thread_mut_def h)

lemma buffer_mut_ok: "heap_ok h \<Longrightarrow> advances h (buffer_mut g f h)"
proof (cases "gc_heap g = hp_id h")
  case True
  assume h: "heap_ok h"
  have m: "buffer_mut g f h = h\<lparr>buffers := arena_get_mut (gc_index g) (gc_generation g) f (buffers h)\<rparr>"
    using True by (simp add: buffer_mut_def)
  have live: "is_live_gen (buffer_mut g f h) x k = is_live_gen h x k" for x k
    unfolding m buffer_arena.put_live by simp
  have "core_inv (buffer_mut g f h)" unfolding m
    by (rule buffer_arena.store_core [OF heap_okD(2) [OF h]]) simp_all
  then show ?thesis using heap_ok_parts [OF h] kept_parts [of "buffer_mut g f h" h] live
    by (intro advancesI [OF h]) (simp_all add: m)
qed (simp add: buffer_mut_def)

lemma proto_held_live:
  assumes h: "heap_ok h" and p: "arena_get (protos h) i k = Some p"
  shows "live_handles h (proto_trace p)"
  using heap_okD(2) [OF h] arena_get_live [OF p] unfolding core_inv_def no_dangling_def live_handles_def
  by (auto dest!: spec [of _ "Gc_Proto i"] simp: traced_of_def visit_option_def)

lemma populate_proto_ok:
  assumes h: "heap_ok h" and fresh: "ref_age h (Gc_Proto (gc_index g)) \<noteq> Old"
    and b: "live_handles h (visit_handle Gc_Str (pb_source b))" "live_handles h (visit_option (visit_handle Gc_Str) (pb_debug_name b))"
      "live_handles h (concat (map (visit_handle Gc_Proto) (pb_child_protos b)))" "live_handles h (concat (map constant_trace (pb_constants b)))"
  shows "advances h (snd (populate_proto over_cap g b h))"
proof (cases "gc_heap g \<noteq> hp_id h \<or> over_cap \<or> Option.bind (arena_get (protos h) (gc_index g) (gc_generation g)) (populate b) = None")
  case True
  then have "snd (populate_proto over_cap g b h) = h" by (auto simp: populate_proto_def)
  then show ?thesis using h by simp
next
  case False
  then obtain v p where v: "arena_get (protos h) (gc_index g) (gc_generation g) = Some v" "populate b v = Some p"
    by (auto simp: bind_eq_None_conv)
  let ?h = "h\<lparr>protos := arena_get_mut (gc_index g) (gc_generation g) (\<lambda>_. p) (protos h)\<rparr>"
  have m: "snd (populate_proto over_cap g b h) = ?h" using False v by (simp add: populate_proto_def)
  have "live_handles h (proto_trace v)" by (rule proto_held_live [OF h v(1)])
  then have "live_handles h (proto_trace p)"
    using b v(2) by (auto simp: populate_def proto_trace_def visit_option_def split: if_splits)
  then have "core_inv ?h"
    by (intro proto_arena.store_core [OF heap_okD(2) [OF h]]) (use fresh in auto)
  then show ?thesis unfolding m using heap_ok_parts [OF h] kept_parts [of ?h h] proto_arena.put_live [where h = h]
    by (intro advancesI [OF h]) simp_all
qed

text \<open>The import cache stores first and remembers second, with the same result.\<close>

lemma get_mut_set_age: "gc_set_age i a (arena_get_mut i g f A) = arena_get_mut i g f (gc_set_age i a A)"
proof (cases "arena_get A i g")
  case None
  then show ?thesis by (simp add: arena_get_mut_def gc_age_set)
next
  case (Some v)
  then have "unat i < length (ar_entries A)" by (auto simp: arena_get_def get_def split: if_splits)
  moreover have "arena_get (gc_set_age i a A) i g = Some v" using Some by (simp add: gc_age_set)
  ultimately show ?thesis using Some
    by (simp only: arena_get_mut_def option.case) (cases "ar_entries A ! unat i", simp add: gc_set_age_def update_entry_def)
qed

lemma remember_proto_mut:
  fixes granted :: bool
  assumes "gc_heap g = hp_id h"
  defines "h1 \<equiv> remember granted (Gc_Proto (gc_index g)) h"
  shows "remember granted (Gc_Proto (gc_index g)) (proto_mut g f h) =
    h1\<lparr>protos := arena_get_mut (gc_index g) (gc_generation g) f (protos h1)\<rparr>"
  using assms by (simp add: remember_def proto_mut_def set_age_def ref_age_def get_mut_views get_mut_set_age)

lemma live_handles_concat: "live_handles h (concat xs) \<longleftrightarrow> (\<forall>x \<in> set xs. live_handles h x)"
  by (auto simp: live_handles_def)

lemma cache_import_live:
  assumes p: "live_handles h (proto_trace p)" and v: "live_handles h (visit_value v)"
  shows "live_handles h (proto_trace (cache_import i v p))"
proof -
  let ?ok = "\<lambda>x. live_handles h (visit_option visit_value x)"
  have ok: "?ok None" "?ok (Some v)" using v by (simp_all add: visit_option_def)
  have old: "\<forall>x \<in> set (pr_import_values p). ?ok x" using p by (simp add: proto_trace_def live_handles_concat)
  have "\<forall>x \<in> set (pr_import_values (cache_import i v p)). ?ok x"
  proof
    fix x assume "x \<in> set (pr_import_values (cache_import i v p))"
    then consider "x \<in> set (pr_import_values p)" | "x = None" | "x = Some v"
      by (auto simp: cache_import_def Let_def split: if_splits dest!: set_update_subset_insert [THEN subsetD] in_set_takeD)
    then show "?ok x" using old ok by cases auto
  qed
  moreover have "pr_source (cache_import i v p) = pr_source p" "pr_debug_name (cache_import i v p) = pr_debug_name p"
    "pr_child_protos (cache_import i v p) = pr_child_protos p" "pr_constants (cache_import i v p) = pr_constants p"
    by (simp_all add: cache_import_def Let_def)
  ultimately show ?thesis using p by (simp add: proto_trace_def live_handles_concat)
qed

lemma remember_import_ok:
  assumes h: "heap_ok h" and v: "live_handles h (visit_value v)"
  shows "advances h (remember_import granted g i v h)"
proof (cases "gc_heap g = hp_id h")
  case True
  let ?h1 = "remember granted (Gc_Proto (gc_index g)) h" and ?f = "cache_import i v"
  have m: "remember_import granted g i v h = ?h1\<lparr>protos := arena_get_mut (gc_index g) (gc_generation g) ?f (protos ?h1)\<rparr>"
    unfolding remember_import_def by (rule remember_proto_mut [OF True])
  have ok: "tables_ok ?h1" "ids_ok ?h1" "interner_ok ?h1" using heap_ok_parts [OF h] by (simp_all add: remember_more)
  have "core_inv (remember_import granted g i v h)" unfolding m
    by (rule proto_arena.barrier_core [OF heap_okD(2) [OF h]]) (rule cache_import_live [OF proto_held_live [OF h] v])
  moreover have "is_live_gen (remember_import granted g i v h) x k = is_live_gen h x k" for x k
    unfolding m proto_arena.put_live by simp
  ultimately show ?thesis using ok kept_parts [of "remember_import granted g i v h" ?h1]
    by (intro advancesI [OF h]) (simp_all add: m)
next
  case False
  then have "remember_import granted g i v h = remember granted (Gc_Proto (gc_index g)) h"
    by (simp add: remember_import_def proto_mut_def)
  then show ?thesis using remember_core [OF heap_okD(2) [OF h]] heap_ok_parts [OF h]
    by (intro advancesI [OF h]) (simp_all add: remember_more)
qed

subsection \<open>Pins and shared metatables\<close>

lemma core_inv_registry:
  assumes h: "core_inv h" and rg: "\<And>v r g. v \<in> set (registry_anchors rg) \<Longrightarrow> from_value_gen v = Some (r, g) \<Longrightarrow> is_live_gen h r g"
  shows "core_inv (h\<lparr>hp_registry := rg\<rparr>)"
proof -
  have "roots_live (h\<lparr>hp_registry := rg\<rparr>)"
    using h rg unfolding core_inv_def roots_live_def gc_anchors_def heap_handles_live by simp
  then show ?thesis using h by (simp add: core_inv_def unmarked_def no_dangling_def generations_ok_def)
qed

lemma anchors_live:
  assumes "heap_ok h" "v \<in> set (registry_anchors (hp_registry h))" "from_value_gen v = Some (r, g)"
  shows "is_live_gen h r g"
  using heap_okD(2) [OF assms(1)] assms(2,3) by (simp add: core_inv_def roots_live_def gc_anchors_def)

lemma registry_step_ok:
  assumes h: "heap_ok h" and rg: "registry_ok rg" "length (rg_anchors rg) \<le> 2 ^ 32"
    and sub: "set (registry_anchors rg) \<subseteq> insert v (set (registry_anchors (hp_registry h)))" and v: "live_handles h (visit_value v)"
  shows "advances h (h\<lparr>hp_registry := rg\<rparr>)"
proof -
  have "core_inv (h\<lparr>hp_registry := rg\<rparr>)"
  proof (rule core_inv_registry [OF heap_okD(2) [OF h]])
    fix w r g assume "w \<in> set (registry_anchors rg)" "from_value_gen w = Some (r, g)"
    then show "is_live_gen h r g" using sub anchors_live [OF h] v by (cases "w = v") (auto simp: visit_value_def)
  qed
  then show ?thesis using h rg kept_parts [of "h\<lparr>hp_registry := rg\<rparr>" h]
    by (simp add: advances_def heap_ok_def gc_inv_core)
qed

lemma registry_anchors_pin:
  "registry_pin granted v hid rg = (out, rg') \<Longrightarrow> set (registry_anchors rg') \<subseteq> insert v (set (registry_anchors rg))"
  by (auto simp: registry_pin_def from_parts_def registry_anchors_def Let_def map_update list_update_append
      split: if_splits dest!: set_update_subset_insert [THEN subsetD])

lemma registry_anchors_unpin: "set (registry_anchors (registry_unpin ref rg)) \<subseteq> set (registry_anchors rg)"
  by (auto simp: registry_unpin_def registry_anchors_def map_update split: option.splits if_splits
      dest!: set_update_subset_insert [THEN subsetD])

lemma pin_ok:
  assumes h: "heap_ok h" and v: "live_handles h (visit_value v)" and room: "length (rg_anchors (hp_registry h)) < 2 ^ 32"
    and p: "pin granted v h = (out, h')"
  shows "advances h h'"
proof -
  obtain rg where rg: "registry_pin granted v (hp_id h) (hp_registry h) = (out, rg)" "h' = h\<lparr>hp_registry := rg\<rparr>"
    using p by (auto simp: pin_def split: prod.splits)
  have "registry_ok rg" using registry_pin_ok [OF heap_okD(3) [OF h] room rg(1)] by simp
  moreover have "length (rg_anchors rg) \<le> 2 ^ 32" using registry_pin_len [OF rg(1)] room by simp
  ultimately show ?thesis unfolding rg(2) by (rule registry_step_ok [OF h _ _ registry_anchors_pin [OF rg(1)] v])
qed

lemma unpin_ok:
  assumes h: "heap_ok h"
  shows "advances h (unpin ref h)"
proof (cases "rr_heap ref = hp_id h")
  case True
  have "advances h (h\<lparr>hp_registry := registry_unpin ref (hp_registry h)\<rparr>)"
    by (rule registry_step_ok [OF h, of _ LNil])
      (use registry_unpin_ok [OF heap_okD(3) [OF h]] registry_anchors_unpin [THEN subsetD] h in \<open>auto simp: heap_ok_def visit_value_def\<close>)
  then show ?thesis using True by (simp add: unpin_def)
qed (simp add: unpin_def h)

lemma named_field_ok: "heap_ok h \<Longrightarrow> advances h (h\<lparr>hp_named := m\<rparr>)"
  using core_inv_fields(2) [OF heap_okD(2)] heap_ok_parts kept_parts [of "h\<lparr>hp_named := m\<rparr>" h]
  by (intro advancesI) simp_all

lemma advances_ok: "advances h h' \<Longrightarrow> heap_ok h'"
  by (simp add: advances_def)

lemma unpin_all_ok: "heap_ok h \<Longrightarrow> advances h (fold unpin refs h)"
proof (induction refs arbitrary: h)
  case (Cons ref refs)
  then show ?case using unpin_ok [OF Cons.prems, of ref] advances_trans advances_ok by (auto intro: advances_trans)
qed simp

lemma named_set_ok:
  assumes h: "heap_ok h" and v: "live_handles h (visit_value v)" and room: "length (rg_anchors (hp_registry h)) < 2 ^ 32"
    and n: "named_set granted key v h = (done, h')"
  shows "advances h h'"
proof -
  obtain out h1 where p: "pin granted v h = (out, h1)" by fastforce
  note a = pin_ok [OF h v room p]
  show ?thesis
  proof (cases out)
    case None
    then show ?thesis using n a p by (simp add: named_set_def)
  next
    case (Some ref)
    let ?h2 = "h1\<lparr>hp_named := (hp_named h1)(key \<mapsto> ref)\<rparr>"
    have b: "advances h ?h2" by (rule advances_trans [OF a named_field_ok [OF advances_ok [OF a]]])
    have "h' = (case hp_named h1 key of Some old \<Rightarrow> unpin old ?h2 | None \<Rightarrow> ?h2)" using n p Some by (simp add: named_set_def Let_def)
    then show ?thesis using b advances_trans [OF b unpin_ok [OF advances_ok [OF b]]] by (simp split: option.splits)
  qed
qed

lemma named_remove_ok: "heap_ok h \<Longrightarrow> advances h (snd (named_remove key h))"
  using advances_trans [OF named_field_ok unpin_ok [OF advances_ok [OF named_field_ok]]]
  by (simp add: named_remove_def split: option.splits)

lemma clear_named_ok: "heap_ok h \<Longrightarrow> advances h (clear_named entries h)"
  unfolding clear_named_def by (rule advances_trans [OF named_field_ok unpin_all_ok [OF advances_ok [OF named_field_ok]]])

lemma drain_releases_ok: "heap_ok h \<Longrightarrow> advances h (drain_releases received h)"
  unfolding drain_releases_def by (rule unpin_all_ok)

lemma core_inv_metatables:
  assumes h: "core_inv h" and g: "\<And>g. m = Some g \<Longrightarrow> heap_table h g \<noteq> None"
  shows "core_inv (h\<lparr>hp_string_metatable := m\<rparr>)" "core_inv (h\<lparr>hp_vector_metatable := m\<rparr>)" "core_inv (h\<lparr>hp_error_metatable := m\<rparr>)"
proof -
  have "roots_live (h\<lparr>hp_string_metatable := m\<rparr>) \<and> roots_live (h\<lparr>hp_vector_metatable := m\<rparr>) \<and> roots_live (h\<lparr>hp_error_metatable := m\<rparr>)"
    using h g unfolding core_inv_def roots_live_def gc_anchors_def heap_handles_live by simp
  then show "core_inv (h\<lparr>hp_string_metatable := m\<rparr>)" "core_inv (h\<lparr>hp_vector_metatable := m\<rparr>)" "core_inv (h\<lparr>hp_error_metatable := m\<rparr>)"
    using h by (simp_all add: core_inv_def unmarked_def no_dangling_def generations_ok_def)
qed

lemma set_metatable_ok:
  assumes h: "heap_ok h"
  shows "advances h (snd (set_string_metatable g h))" "advances h (snd (set_vector_metatable m h))"
    "heap_table h g \<noteq> None \<Longrightarrow> advances h (set_structured_error_metatable g h)"
proof -
  have *: "advances h (h\<lparr>hp_string_metatable := m\<rparr>) \<and> advances h (h\<lparr>hp_vector_metatable := m\<rparr>) \<and> advances h (h\<lparr>hp_error_metatable := m\<rparr>)"
    if "\<And>g. m = Some g \<Longrightarrow> heap_table h g \<noteq> None" for m
    using core_inv_metatables [OF heap_okD(2) [OF h] that] heap_ok_parts [OF h]
    by (intro conjI advancesI [OF h]) (simp_all add: kept_parts [of "h\<lparr>hp_string_metatable := m\<rparr>" h]
        kept_parts [of "h\<lparr>hp_vector_metatable := m\<rparr>" h] kept_parts [of "h\<lparr>hp_error_metatable := m\<rparr>" h])
  show "advances h (snd (set_string_metatable g h))" using * [of "Some g"] h by (auto simp: set_string_metatable_def)
  show "advances h (snd (set_vector_metatable m h))"
    using * [of m] h by (auto simp: set_vector_metatable_def split: option.splits)
  show "heap_table h g \<noteq> None \<Longrightarrow> advances h (set_structured_error_metatable g h)"
    using * [of "Some g"] by (simp add: set_structured_error_metatable_def)
qed

end
