(* ===== verification/Heap_Run.thy ===== *)
theory Heap_Run
  imports Heap_Safe
begin

text \<open>
  The life of a heap: from \<^verbatim>\<open>Heap::new\<close> through any sequence of allocations, mutations, pins, take-outs
  and collections. The operations' callers hold only live handles; under that contract every heap the
  program can reach is well formed, also while threads run outside their slots.
\<close>

section \<open>A new heap\<close>

lemma arena_new_fine: "arena_fine arena_new"
  by (simp add: arena_fine_def arena_inv_def arena_ok_def young_exact_def free_listed_def young_listed_def live_at_def arena_new_def arena_len_def)

lemma empty_heap_views [simp]: "\<not> live_ref (empty_heap hid) r" "traced_of (empty_heap hid) r = []" "\<not> is_live_gen (empty_heap hid) r g"
proof -
  show "\<not> live_ref (empty_heap hid) r"
    by (cases r) (simp_all add: live_ref_def empty_heap_def arena_new_def gc_value_def get_def)
  then show "traced_of (empty_heap hid) r = []" "\<not> is_live_gen (empty_heap hid) r g"
    using traced_of_dead is_live_gen_live by blast+
qed

lemma empty_heap_ok: "heap_ok (empty_heap hid)"
proof -
  have "gc_anchors (empty_heap hid) = []" "hp_interner (empty_heap hid) = Map.empty" "hp_registry (empty_heap hid) = registry_new"
    by (simp_all add: gc_anchors_def empty_heap_def registry_anchors_def registry_new_def)
  moreover have "heap_string (empty_heap hid) g = None" for g
    by (simp add: heap_string_def empty_heap_def arena_get_def arena_new_def get_def)
  moreover have "gc_value (tables (empty_heap hid)) i = None" "gc_value (threads (empty_heap hid)) i = None" for i
    by (simp_all add: empty_heap_def arena_new_def gc_value_def get_def)
  moreover have "arenas_fine (empty_heap hid)" by (simp add: arenas_fine_def empty_heap_def arena_new_fine)
  moreover have "hp_string_metatable (empty_heap hid) = None" "hp_vector_metatable (empty_heap hid) = None"
    "hp_error_metatable (empty_heap hid) = None" "hp_metamethod_names (empty_heap hid) = replicate 18 None"
    by (simp_all add: empty_heap_def)
  ultimately show ?thesis
    by (simp add: heap_ok_def gc_inv_def tables_ok_def unmarked_def no_dangling_def roots_live_def ids_ok_def interner_ok_def
        generations_ok_def) (simp add: registry_new_def)
qed

lemma core_inv_names:
  assumes h: "core_inv h" and g: "\<And>g. Some g \<in> set ns \<Longrightarrow> heap_string h g \<noteq> None"
  shows "core_inv (h\<lparr>hp_metamethod_names := ns\<rparr>)"
proof -
  have "roots_live (h\<lparr>hp_metamethod_names := ns\<rparr>)"
    using h g unfolding core_inv_def roots_live_def gc_anchors_def heap_handles_live by simp
  then show ?thesis using h by (simp add: core_inv_def unmarked_def no_dangling_def generations_ok_def)
qed

lemma intern_str_len: "intern_str r bs h = Some (out, h') \<Longrightarrow> arena_len (strings h') \<le> Suc (arena_len (strings h))"
  by (auto simp: intern_str_def arena_alloc_def with_handle_def arena_len_def Let_def split: option.splits if_splits prod.splits)

lemma intern_events_ok:
  assumes "heap_ok h" "arena_len (strings h) + length es < 2 ^ 32" "intern_events rs k es h = Some h'"
  shows "advances h h'"
  using assms
proof (induction es arbitrary: k h)
  case (Cons e es)
  from Cons.prems(3) obtain out h1 where i: "intern_str (rs k) (event_name e) h = Some (out, h1)"
    and r: "intern_events rs (Suc k) es (h1\<lparr>hp_metamethod_names := (hp_metamethod_names h1)[k := out]\<rparr>) = Some h'"
    by (auto split: option.splits)
  let ?h2 = "h1\<lparr>hp_metamethod_names := (hp_metamethod_names h1)[k := out]\<rparr>"
  have a: "advances h h1" "\<And>g. out = Some g \<Longrightarrow> heap_string h1 g \<noteq> None"
    using intern_str_ok [OF Cons.prems(1) _ i] Cons.prems(2) by auto
  have h1: "heap_ok h1" by (rule advances_ok [OF a(1)])
  have "heap_string h1 g \<noteq> None" if "Some g \<in> set ((hp_metamethod_names h1)[k := out])" for g
  proof -
    have "Some g = out \<or> Some g \<in> set (hp_metamethod_names h1)"
      using that set_update_subset_insert [of "hp_metamethod_names h1" k out] by blast
    then show ?thesis using a(2) heap_okD(2) [OF h1] by (auto simp: core_inv_def roots_live_def)
  qed
  then have "core_inv ?h2" by (rule core_inv_names [OF heap_okD(2) [OF h1]])
  then have b: "advances h1 ?h2" using heap_ok_parts [OF h1] kept_parts [of ?h2 h1] by (intro advancesI [OF h1]) simp_all
  have "arena_len (strings ?h2) + length es < 2 ^ 32" using intern_str_len [OF i] Cons.prems(2) by simp
  then have "advances ?h2 h'" by (rule Cons.IH [OF advances_ok [OF b] _ r])
  then show ?case using advances_trans a(1) b by blast
qed simp

lemma heap_new_ok:
  assumes "heap_new hid rs = Some h"
  shows "advances (empty_heap hid) h"
proof (rule intern_events_ok [OF empty_heap_ok])
  show "intern_events rs 0 meta_events (empty_heap hid) = Some h" using assms by (simp add: heap_new_def)
  show "arena_len (strings (empty_heap hid)) + length meta_events < 2 ^ 32"
    by (simp add: meta_events_def empty_heap_def arena_new_def arena_len_def)
qed

section \<open>Threads outside their slots\<close>

type_synonym held = "(raw_gc \<times> thread) list"

definition held_live :: "heap \<Rightarrow> raw_gc \<times> thread \<Rightarrow> bool" where
  "held_live h x \<longleftrightarrow> heap_thread h (fst x) \<noteq> None \<and> th_id (snd x) = Some (fst x) \<and> live_handles h (thread_trace (snd x))"

definition held_ok :: "heap \<Rightarrow> held \<Rightarrow> bool" where
  "held_ok h hs \<longleftrightarrow> unat (hp_taken_out h) = length hs \<and> (\<forall>x \<in> set hs. held_live h x)"

lemma held_live_mono:
  assumes a: "advances h h'" and x: "held_live h x"
  shows "held_live h' x"
proof -
  have "heap_thread h' (fst x) \<noteq> None" by (rule heap_thread_mono [of h' h]) (use a x in \<open>auto simp: advances_def held_live_def\<close>)
  then show ?thesis using a x by (simp add: advances_def held_live_def live_handles_def)
qed

lemma held_ok_advances: "advances h h' \<Longrightarrow> held_ok h hs \<Longrightarrow> held_ok h' hs"
  using held_live_mono [of h h'] by (simp add: held_ok_def advances_def)

lemma thread_new_trace [simp]: "thread_trace thread_new = []"
  by (simp add: thread_trace_def thread_new_def gc_slots_up_to_def visit_option_def)

lemma thread_held_live:
  assumes h: "heap_ok h" and t: "heap_thread h g = Some t"
  shows "live_handles h (thread_trace t)"
proof -
  have "gc_value (threads h) (gc_index g) = Some t" using t arena_get_live by (auto simp: heap_thread_def split: if_splits)
  then have "traced_of h (Gc_Thread (gc_index g)) = thread_trace t" by (simp add: traced_of_def visit_option_def)
  then show ?thesis using heap_okD(2) [OF h] unfolding core_inv_def no_dangling_def live_handles_def by metis
qed

lemma taken_field:
  assumes h: "heap_ok h"
  shows "heap_ok (h\<lparr>hp_taken_out := n\<rparr>)"
proof -
  let ?h = "h\<lparr>hp_taken_out := n\<rparr>"
  have "ids_ok ?h" "interner_ok ?h" using heap_ok_parts [OF h] by (simp_all add: kept_parts(2,3) [of ?h h])
  then show ?thesis using core_inv_fields(3) [OF heap_okD(2) [OF h]] h by (simp add: heap_ok_def gc_inv_core)
qed

lemma held_field [simp]: "held_live (h\<lparr>hp_taken_out := n\<rparr>) x = held_live h x"
  by (simp add: held_live_def heap_thread_def)

lemma take_thread_ok:
  assumes h: "heap_ok h" and hs: "held_ok h hs" and tk: "take_thread g h = Some (Some t, h')"
  shows "heap_ok h' \<and> held_ok h' ((g, t) # hs)"
proof -
  let ?h1 = "thread_mut g (\<lambda>_. thread_new) h"
  have t: "heap_thread h g = Some t" "th_id t = Some g" "hp_taken_out h \<noteq> - 1" and h': "h' = ?h1\<lparr>hp_taken_out := hp_taken_out h + 1\<rparr>"
    using tk by (auto simp: take_thread_def split: option.splits if_splits)
  have a: "advances h ?h1" by (rule thread_mut_ok [OF h]) (simp, simp add: thread_new_def)
  have b: "held_ok ?h1 hs" by (rule held_ok_advances [OF a hs])
  have "held_live h (g, t)" using thread_held_live [OF h t(1)] t by (simp add: held_live_def)
  then have "held_live ?h1 (g, t)" by (rule held_live_mono [OF a])
  moreover have "unat (hp_taken_out h + 1) = Suc (length hs)"
    using t(3) hs unatSuc [of "hp_taken_out h"] by (simp add: held_ok_def add.commute eq_neg_iff_add_eq_0)
  ultimately show ?thesis using b taken_field [OF advances_ok [OF a]] t(2) by (auto simp: held_ok_def h')
qed

lemma put_thread_ok:
  assumes h: "heap_ok h" and hs: "held_ok h ((g, t) # hs)" and p: "put_thread g t h = Some (ok, h')"
  shows "ok \<and> heap_ok h' \<and> held_ok h' hs"
proof -
  let ?h1 = "thread_mut g (\<lambda>_. t) h"
  have t: "heap_thread h g \<noteq> None" "th_id t = Some g" "live_handles h (thread_trace t)" "unat (hp_taken_out h) = Suc (length hs)"
    using hs by (auto simp: held_ok_def held_live_def)
  have h': "ok" "h' = ?h1\<lparr>hp_taken_out := hp_taken_out h - 1\<rparr>" using p t(1) by (auto simp: put_thread_def split: if_splits)
  have a: "advances h ?h1" by (rule thread_mut_ok [OF h]) (use t in auto)
  have b: "held_ok ?h1 ((g, t) # hs)" by (rule held_ok_advances [OF a hs])
  have "unat (hp_taken_out h - 1) = length hs" using t(4) unat_minus_one [of "hp_taken_out h"] by fastforce
  then show ?thesis using b taken_field [OF advances_ok [OF a]] h' by (auto simp: held_ok_def)
qed

section \<open>Collections\<close>

lemma root_survives: "r \<in> set roots \<Longrightarrow> survives cycle h (cycle_roots cycle roots h) r"
  by (cases cycle) (auto simp: survives_def cycle_roots_def minor_roots_def all_roots_def intro: gc_reach.reach_root)

lemma collect_root_live:
  assumes h: "gc_inv h" and c: "collect budget used used' roots h = (out, h')" and r: "r \<in> set roots" "is_live_gen h r g"
  shows "is_live_gen h' r g"
proof (cases out)
  case None
  then show ?thesis using collect_abandoned_same(1) [OF h c [unfolded None]] r(2) by simp
next
  case (Some n)
  show ?thesis using collect_survivors(2) [OF h c [unfolded Some]] root_survives [OF r(1)] r(2) by simp
qed

lemma collect_heap_ok:
  assumes h: "heap_ok h" and c: "collect budget used used' roots h = (out, h')"
  shows "heap_ok h'"
  using collect_inv [OF heap_okD(1) [OF h] c] collect_fields [OF heap_okD(1) [OF h] c] h by (simp add: heap_ok_def)

lemma collect_active_ok:
  assumes h: "heap_ok h" and hs: "held_ok h ((g, t) # hs)" and c: "collect_active budget used used' t h = (out, h')"
  shows "heap_ok h' \<and> held_ok h' ((g, t) # hs)"
proof (cases "hp_taken_out h \<noteq> 1 \<or> budget < length (active_roots t)")
  case True
  then show ?thesis using c h hs by (simp add: collect_active_def)
next
  case False
  then have c': "collect (budget - length (active_roots t)) used used' (active_roots t) h = (out, h')"
    using c by (simp add: collect_active_def)
  have hs': "hs = []" using hs False by (simp add: held_ok_def)
  have x: "heap_thread h g \<noteq> None" "th_id t = Some g" "live_handles h (thread_trace t)" using hs by (auto simp: held_ok_def held_live_def)
  note live = collect_root_live [OF heap_okD(1) [OF h] c']
  have f: "hp_id h' = hp_id h" "hp_taken_out h' = hp_taken_out h" using collect_fields [OF heap_okD(1) [OF h] c'] by auto
  have "Gc_Thread (gc_index g) \<in> set (active_roots t)" using x(2) by (simp add: active_roots_def handle_roots_def)
  then have "heap_thread h' g \<noteq> None" using x(1) live unfolding heap_handles_live f by blast
  moreover have "live_handles h' (thread_trace t)" unfolding live_handles_def
    using x(3) live by (auto simp: live_handles_def active_roots_def)
  ultimately have "held_ok h' ((g, t) # hs)" using hs x(2) f(2) by (simp add: held_ok_def held_live_def hs')
  then show ?thesis using collect_heap_ok [OF h c'] by blast
qed

section \<open>Runs\<close>

text \<open>
  Every rule is one operation. Its side conditions are what its callers guarantee: the handles they
  store are live, tables keep their own invariant, a thread is given no identity but its handle, a
  prototype is populated before it can have aged, and arenas and registry have room for one more slot
  below \<open>2\<^sup>32\<close>. The second argument lists the threads in execution, innermost first; a resident collection
  runs when there is none.
\<close>

inductive heap_run :: "heap \<Rightarrow> held \<Rightarrow> bool" where
  new: "heap_new hid rs = Some h \<Longrightarrow> heap_run h []"
| intern_str: "heap_run h hs \<Longrightarrow> Suc (arena_len (strings h)) < 2 ^ 32 \<Longrightarrow> intern_str r bs h = Some (out, h') \<Longrightarrow> heap_run h' hs"
| alloc_table: "heap_run h hs \<Longrightarrow> table_ok t \<Longrightarrow> length (lt_array t) < 2 ^ 53 \<Longrightarrow> live_handles h (table_trace t) \<Longrightarrow>
    Suc (arena_len (tables h)) < 2 ^ 32 \<Longrightarrow> alloc_table r t h = Some (out, h') \<Longrightarrow> heap_run h' hs"
| alloc_closure: "heap_run h hs \<Longrightarrow> live_handles h (closure_trace c) \<Longrightarrow> Suc (arena_len (closures h)) < 2 ^ 32 \<Longrightarrow>
    alloc_closure r c h = Some (out, h') \<Longrightarrow> heap_run h' hs"
| alloc_proto: "heap_run h hs \<Longrightarrow> live_handles h (proto_trace p) \<Longrightarrow> Suc (arena_len (protos h)) < 2 ^ 32 \<Longrightarrow>
    alloc_proto r p h = Some (out, h') \<Longrightarrow> heap_run h' hs"
| alloc_upval: "heap_run h hs \<Longrightarrow> live_handles h (upval_trace u) \<Longrightarrow> Suc (arena_len (upvals h)) < 2 ^ 32 \<Longrightarrow>
    alloc_upval r u h = Some (out, h') \<Longrightarrow> heap_run h' hs"
| alloc_buffer: "heap_run h hs \<Longrightarrow> Suc (arena_len (buffers h)) < 2 ^ 32 \<Longrightarrow> alloc_buffer r b h = Some (out, h') \<Longrightarrow> heap_run h' hs"
| alloc_userdata: "heap_run h hs \<Longrightarrow> Suc (arena_len (userdata h)) < 2 ^ 32 \<Longrightarrow> alloc_userdata r d h = Some (out, h') \<Longrightarrow> heap_run h' hs"
| alloc_thread: "heap_run h hs \<Longrightarrow> th_id t = None \<Longrightarrow> live_handles h (thread_trace t) \<Longrightarrow> Suc (arena_len (threads h)) < 2 ^ 32 \<Longrightarrow>
    alloc_thread r t h = Some (out, h') \<Longrightarrow> heap_run h' hs"
| table_mut: "heap_run h hs \<Longrightarrow>
    (\<And>t. heap_table h g = Some t \<Longrightarrow> table_ok (ft t) \<and> length (lt_array (ft t)) < 2 ^ 53 \<and> live_handles h (table_trace (ft t))) \<Longrightarrow>
    heap_run (table_mut granted g ft h) hs"
| closure_mut: "heap_run h hs \<Longrightarrow>
    (\<And>c. arena_get (closures h) (gc_index g) (gc_generation g) = Some c \<Longrightarrow> live_handles h (closure_trace (fc c))) \<Longrightarrow>
    heap_run (closure_mut granted g fc h) hs"
| upval_mut: "heap_run h hs \<Longrightarrow>
    (\<And>u. arena_get (upvals h) (gc_index g) (gc_generation g) = Some u \<Longrightarrow> live_handles h (upval_trace (fu u))) \<Longrightarrow>
    heap_run (upval_mut granted g fu h) hs"
| thread_mut: "heap_run h hs \<Longrightarrow>
    (\<And>t. heap_thread h g = Some t \<Longrightarrow> th_id (fh t) \<in> {None, Some g} \<and> live_handles h (thread_trace (fh t))) \<Longrightarrow>
    heap_run (thread_mut g fh h) hs"
| buffer_mut: "heap_run h hs \<Longrightarrow> heap_run (buffer_mut g fb h) hs"
| populate_proto: "heap_run h hs \<Longrightarrow> ref_age h (Gc_Proto (gc_index g)) \<noteq> Old \<Longrightarrow>
    live_handles h (visit_handle Gc_Str (pb_source pb)) \<Longrightarrow> live_handles h (visit_option (visit_handle Gc_Str) (pb_debug_name pb)) \<Longrightarrow>
    live_handles h (concat (map (visit_handle Gc_Proto) (pb_child_protos pb))) \<Longrightarrow>
    live_handles h (concat (map constant_trace (pb_constants pb))) \<Longrightarrow> heap_run (snd (populate_proto over_cap g pb h)) hs"
| remember_import: "heap_run h hs \<Longrightarrow> live_handles h (visit_value v) \<Longrightarrow> heap_run (remember_import granted g i v h) hs"
| pin: "heap_run h hs \<Longrightarrow> live_handles h (visit_value v) \<Longrightarrow> length (rg_anchors (hp_registry h)) < 2 ^ 32 \<Longrightarrow>
    pin granted v h = (ref, h') \<Longrightarrow> heap_run h' hs"
| unpin: "heap_run h hs \<Longrightarrow> heap_run (unpin rf h) hs"
| named_set: "heap_run h hs \<Longrightarrow> live_handles h (visit_value v) \<Longrightarrow> length (rg_anchors (hp_registry h)) < 2 ^ 32 \<Longrightarrow>
    named_set granted key v h = (ok, h') \<Longrightarrow> heap_run h' hs"
| named_remove: "heap_run h hs \<Longrightarrow> heap_run (snd (named_remove key h)) hs"
| clear_named: "heap_run h hs \<Longrightarrow> heap_run (clear_named entries h) hs"
| drain_releases: "heap_run h hs \<Longrightarrow> heap_run (drain_releases received h) hs"
| set_string_metatable: "heap_run h hs \<Longrightarrow> heap_run (snd (set_string_metatable g h)) hs"
| set_vector_metatable: "heap_run h hs \<Longrightarrow> heap_run (snd (set_vector_metatable m h)) hs"
| set_structured_error_metatable: "heap_run h hs \<Longrightarrow> heap_table h g \<noteq> None \<Longrightarrow> heap_run (set_structured_error_metatable g h) hs"
| take_thread: "heap_run h hs \<Longrightarrow> take_thread g h = Some (Some t, h') \<Longrightarrow> heap_run h' ((g, t) # hs)"
| execute: "heap_run h ((g, t) # hs) \<Longrightarrow> th_id t' = th_id t \<Longrightarrow> live_handles h (thread_trace t') \<Longrightarrow> heap_run h ((g, t') # hs)"
| put_thread: "heap_run h ((g, t) # hs) \<Longrightarrow> put_thread g t h = Some (ok, h') \<Longrightarrow> heap_run h' hs"
| collect: "heap_run h [] \<Longrightarrow> collect budget used used' roots h = (freed, h') \<Longrightarrow> heap_run h' []"
| collect_active: "heap_run h ((g, t) # hs) \<Longrightarrow> collect_active budget used used' t h = (freed, h') \<Longrightarrow> heap_run h' ((g, t) # hs)"

lemma heap_run_ok: "heap_run h hs \<Longrightarrow> heap_ok h \<and> held_ok h hs"
proof (induction rule: heap_run.induct)
  have step: "heap_ok h' \<and> held_ok h' hs" if "advances h h'" "heap_ok h \<and> held_ok h hs" for h h' hs
    using that advances_ok held_ok_advances by blast
  { case (new hid rs h)
    have "held_ok (empty_heap hid) []" by (simp add: held_ok_def empty_heap_def)
    then show ?case using step [OF heap_new_ok [OF new]] empty_heap_ok by blast }
  { case (intern_str h hs r bs out h') then show ?case using intern_str_ok step by blast }
  { case (alloc_table h hs t r out h') then show ?case using alloc_table_ok step by blast }
  { case (alloc_closure h hs c r out h') then show ?case using alloc_closure_ok step by blast }
  { case (alloc_proto h hs p r out h') then show ?case using alloc_proto_ok step by blast }
  { case (alloc_upval h hs u r out h') then show ?case using alloc_upval_ok step by blast }
  { case (alloc_buffer h hs r b out h') then show ?case using alloc_buffer_ok step by blast }
  { case (alloc_userdata h hs r d out h') then show ?case using alloc_userdata_ok step by blast }
  { case (alloc_thread h hs t r out h') then show ?case using alloc_thread_ok step by blast }
  { case (table_mut h hs g ft granted) then show ?case by (intro step [OF table_mut_ok]) auto }
  { case (closure_mut h hs g fc granted) then show ?case by (intro step [OF closure_mut_ok]) auto }
  { case (upval_mut h hs g fu granted) then show ?case by (intro step [OF upval_mut_ok]) auto }
  { case (thread_mut h hs g fh) then show ?case by (intro step [OF thread_mut_ok]) auto }
  { case (buffer_mut h hs g fb) then show ?case using buffer_mut_ok step by blast }
  { case (populate_proto h hs g pb over_cap) then show ?case using populate_proto_ok step by blast }
  { case (remember_import h hs v granted g i) then show ?case using remember_import_ok step by blast }
  { case (pin h hs v granted ref h') then show ?case using pin_ok step by blast }
  { case (unpin h hs rf) then show ?case using unpin_ok step by blast }
  { case (named_set h hs v granted key ok h') then show ?case using named_set_ok step by blast }
  { case (named_remove h hs key) then show ?case using named_remove_ok step by blast }
  { case (clear_named h hs entries) then show ?case using clear_named_ok step by blast }
  { case (drain_releases h hs received) then show ?case using drain_releases_ok step by blast }
  { case (set_string_metatable h hs g) then show ?case using set_metatable_ok(1) step by blast }
  { case (set_vector_metatable h hs m) then show ?case using set_metatable_ok(2) step by blast }
  { case (set_structured_error_metatable h hs g) then show ?case using set_metatable_ok(3) step by blast }
  { case (take_thread h hs g t h') then show ?case using take_thread_ok by blast }
  { case (execute h g t hs t') then show ?case by (simp add: held_ok_def held_live_def) }
  { case (put_thread h g t hs ok h') then show ?case using put_thread_ok by blast }
  { case (collect h budget used used' roots freed h')
    then show ?case using collect_heap_ok collect_fields heap_okD(1) by (fastforce simp: held_ok_def) }
  { case (collect_active h g t hs budget used used' freed h') then show ?case using collect_active_ok by blast }
qed

end
