(* ===== verification/Gc_Spec.thy ===== *)
theory Gc_Spec
  imports Heap_Run
begin

text \<open>
  What the collector and the heap promise, over every heap a program can reach: which objects a cycle
  keeps and what is left of their contents, that it completes, and that the heap validator decides
  exactly the absence of dangling handles.
\<close>

section \<open>What is left of the survivors\<close>

text \<open>A component of a weak entry is held when it is a string or no object, or when it survives.\<close>

definition held_component :: "gc_cycle \<Rightarrow> heap \<Rightarrow> gc_ref set \<Rightarrow> raw_value \<Rightarrow> bool" where
  "held_component cycle h R v \<longleftrightarrow>
     (case v of LString _ \<Rightarrow> True | _ \<Rightarrow> (case from_value v of None \<Rightarrow> True | Some r \<Rightarrow> survives cycle h R r))"

definition held_entry :: "gc_cycle \<Rightarrow> heap \<Rightarrow> gc_ref set \<Rightarrow> u32 \<Rightarrow> raw_value \<times> raw_value \<Rightarrow> bool" where
  "held_entry cycle h R i e \<longleftrightarrow>
     (case weak_ref h (Gc_Table i) of
        None \<Rightarrow> True
      | Some (_, weak_keys, weak_values) \<Rightarrow>
          (weak_keys \<longrightarrow> held_component cycle h R (fst e)) \<and> (weak_values \<longrightarrow> held_component cycle h R (snd e)))"

lemma value_ref: "from_value v = Some r \<longleftrightarrow> (\<exists>g. (r, g) \<in> set (visit_value v))"
  by (cases v) (auto simp: visit_value_def)

lemma dead_component_iff:
  assumes out: "traced_out cycle h R t0" and live: "\<And>r. from_value v = Some r \<Longrightarrow> live_ref h r"
  shows "is_dead_component (mk_heap (tr_marking t0)) cycle v \<longleftrightarrow> \<not> held_component cycle h R v"
proof (cases "from_value v")
  case None
  then show ?thesis by (cases v) (simp_all add: is_dead_component_def held_component_def)
next
  case (Some r)
  have rec: "recolored h (mk_heap (tr_marking t0))" using out by (simp add: traced_out_def Let_def)
  have "(ref_color (mk_heap (tr_marking t0)) r = White \<and> (cycle = Full \<or> ref_age (mk_heap (tr_marking t0)) r = Young)) \<longleftrightarrow>
      \<not> survives cycle h R r"
    using out live [OF Some] recolored_views(2) [OF rec, of r] by (cases cycle) (auto simp: survives_def traced_out_def Let_def)
  then show ?thesis using Some by (cases v) (simp_all add: is_dead_component_def held_component_def)
qed

lemma held_component_survives:
  "(\<And>r. from_value v = Some r \<Longrightarrow> survives cycle h R r) \<Longrightarrow> held_component cycle h R v"
  by (cases v) (simp_all add: held_component_def)

lemma entry_live:
  assumes inv: "gc_inv h" and t: "gc_value (tables h) i = Some t" and e: "e \<in> set (for_each_entry t)"
    and v: "v = fst e \<or> v = snd e" and r: "from_value v = Some r"
  shows "live_ref h r" "\<exists>g. (r, g) \<in> set (traced_of h (Gc_Table i))"
proof -
  obtain g where "(r, g) \<in> set (visit_value v)" using r value_ref by blast
  then have "(r, g) \<in> set (table_trace t)" using e v by (auto simp: table_trace_entries entry_refs_def)
  then have c: "(r, g) \<in> set (traced_of h (Gc_Table i))" using t by (simp add: traced_of_def visit_option_def)
  then show "\<exists>g. (r, g) \<in> set (traced_of h (Gc_Table i))" by blast
  have "is_live_gen h r g" using c gc_invD(4) [OF inv] by (fastforce simp: no_dangling_def)
  then show "live_ref h r" by (rule is_live_gen_live)
qed

lemma kept_held:
  assumes inv: "gc_inv h" and minor: "cycle = Minor \<Longrightarrow> \<not> hp_force_major h"
    and out: "traced_out cycle h (cycle_roots cycle roots h) t0"
    and t: "gc_value (tables h) i = Some t" "survives cycle h (cycle_roots cycle roots h) (Gc_Table i)" and e: "e \<in> set (for_each_entry t)"
  shows "kept_entry cycle (tr_weak t0) (mk_heap (tr_marking t0)) i e = held_entry cycle h (cycle_roots cycle roots h) i e"
proof -
  let ?R = "cycle_roots cycle roots h"
  have live: "live_ref h (Gc_Table i)" using t(1) by (simp add: live_ref_def)
  have dead: "is_dead_component (mk_heap (tr_marking t0)) cycle v \<longleftrightarrow> \<not> held_component cycle h ?R v" if v: "v = fst e \<or> v = snd e" for v
    by (rule dead_component_iff [OF out entry_live(1) [OF inv t(1) e v]])
  show ?thesis
  proof (cases "Gc_Table i \<in> gc_reach cycle h ?R")
    case True
    have ws: "w \<in> set (tr_weak t0) \<and> fst w = i \<longleftrightarrow> weak_ref h (Gc_Table i) = Some w" for w
    proof
      assume "weak_ref h (Gc_Table i) = Some w"
      moreover have "done_with cycle h t0 (Gc_Table i)" using out True live by (simp add: traced_out_def Let_def)
      ultimately show "w \<in> set (tr_weak t0) \<and> fst w = i" using weak_refD by (fastforce simp: done_with_def)
    next
      assume "w \<in> set (tr_weak t0) \<and> fst w = i"
      then show "weak_ref h (Gc_Table i) = Some w" using out by (auto simp: traced_out_def Let_def)
    qed
    have "kept_entry cycle (tr_weak t0) (mk_heap (tr_marking t0)) i e \<longleftrightarrow>
        (\<forall>wk wv. weak_ref h (Gc_Table i) = Some (i, wk, wv) \<longrightarrow> \<not> dead_entry_of (mk_heap (tr_marking t0)) cycle wk wv e)"
      by (simp add: kept_entry_def ws [symmetric])
    also have "\<dots> \<longleftrightarrow> held_entry cycle h ?R i e"
    proof (cases "weak_ref h (Gc_Table i)")
      case (Some w)
      then obtain wk wv where "w = (i, wk, wv)" using ws [of w] by (cases w) auto
      then show ?thesis using Some dead [of "fst e"] dead [of "snd e"] by (auto simp: held_entry_def dead_entry_of_def)
    qed (simp add: held_entry_def)
    finally show ?thesis .
  next
    case False
    then have m: "cycle = Minor" "ref_age h (Gc_Table i) \<noteq> Young" using t(2) by (auto simp: survives_def)
    have "held_component cycle h ?R v" if v: "v = fst e \<or> v = snd e" for v
    proof (rule held_component_survives)
      fix r assume "from_value v = Some r"
      then obtain g where "(r, g) \<in> set (traced_of h (Gc_Table i))" using entry_live(2) [OF inv t(1) e v] by blast
      then show "survives cycle h ?R r"
        using unentered_child_survives [OF gc_invD(1,8) [OF inv] minor live m(2), of roots "(r, g)"] False m(1)
        by (simp add: cycle_roots_def)
    qed
    then show ?thesis using dead [of "fst e"] dead [of "snd e"]
      by (auto simp: held_entry_def kept_entry_def dead_entry_of_def split: option.splits)
  qed
qed

text \<open>An object itself, not only the handles in it.\<close>

definition same_value :: "heap \<Rightarrow> heap \<Rightarrow> gc_ref \<Rightarrow> bool" where
  "same_value h h' r \<longleftrightarrow> (case r of
       Gc_Str i \<Rightarrow> gc_value (strings h') i = gc_value (strings h) i
     | Gc_Table i \<Rightarrow> gc_value (tables h') i = gc_value (tables h) i
     | Gc_Closure i \<Rightarrow> gc_value (closures h') i = gc_value (closures h) i
     | Gc_Userdata i \<Rightarrow> gc_value (userdata h') i = gc_value (userdata h) i
     | Gc_Thread i \<Rightarrow> gc_value (threads h') i = gc_value (threads h) i
     | Gc_Buffer i \<Rightarrow> gc_value (buffers h') i = gc_value (buffers h) i
     | Gc_Proto i \<Rightarrow> gc_value (protos h') i = gc_value (protos h) i
     | Gc_UpVal i \<Rightarrow> gc_value (upvals h') i = gc_value (upvals h) i)"

lemma same_value_refl [simp]: "same_value h h r"
  by (cases r) (simp_all add: same_value_def)

lemma same_value_trans: "same_value h h' r \<Longrightarrow> same_value h' h'' r \<Longrightarrow> same_value h h'' r"
  by (cases r) (simp_all add: same_value_def)

lemma same_value_set: "same_value h (set_color q c h) r" "same_value h (set_age q a h) r"
  by (cases q; simp add: same_value_def set_color_def set_age_def gc_age_set split: gc_ref.split)+

lemma same_value_settle: "same_value h (settle_marked q h) r"
  unfolding settle_marked_def Let_def by (auto intro: same_value_trans [OF same_value_set(1) same_value_set(2)] same_value_set)

lemma same_value_settle_all: "same_value h (fold settle_marked qs h) r"
  by (induction qs arbitrary: h) (auto intro: same_value_trans [OF same_value_settle])

lemma same_value_recolored: "recolored h h' \<Longrightarrow> same_value h h' r"
proof -
  have "same_value h (decolor h) r" "same_value (decolor h') h' r"
    by (cases r; simp add: same_value_def decolor_def)+
  then show "recolored h h' \<Longrightarrow> same_value h h' r" using same_value_trans by metis
qed

lemma same_value_pruned: "pruned cycle ws h h' \<Longrightarrow> \<not> (\<exists>i. r = Gc_Table i) \<Longrightarrow> same_value h h' r"
  by (cases r) (auto simp: pruned_def same_value_def)

lemma same_value_sweep:
  assumes "arenas_fine h" "live_ref (sw_heap (sweep_objects cycle h)) r"
  shows "same_value h (sw_heap (sweep_objects cycle h)) r"
  using assms
  by (cases r) (simp_all add: same_value_def live_ref_def arenas_fine_def sweep_objects_heap sweep_keeps(1) split: if_splits)

lemma same_value_heap: "same_heap h h' \<Longrightarrow> same_value h h' r"
  by (cases r) (simp_all add: same_value_def same_heap_def)

lemma collect_contents:
  assumes inv: "gc_inv h" and c: "collect budget used used' roots h = (Some n, h')"
  defines "cycle \<equiv> chosen_cycle used h"
  shows "gc_value (tables h') i = Some t' \<Longrightarrow> \<exists>t. gc_value (tables h) i = Some t \<and> same_frame t t' \<and> length (lt_array t') = length (lt_array t) \<and>
      for_each_entry t' = filter (held_entry cycle h (cycle_roots cycle roots h) i) (for_each_entry t)"
    and "live_ref h' r \<Longrightarrow> \<not> (\<exists>i. r = Gc_Table i) \<Longrightarrow> same_value h h' r"
proof -
  obtain t0 h2 where out: "traced_out cycle h (cycle_roots cycle roots h) t0"
    and p: "pruned cycle (tr_weak t0) (mk_heap (tr_marking t0)) h2" and same: "same_heap (finished cycle (tr_marked t0) h2) h'"
    unfolding cycle_def by (rule collect_completes [OF inv c])
  let ?f = "finished cycle (tr_marked t0) h2" and ?h1 = "mk_heap (tr_marking t0)"
  have rec: "recolored h ?h1" using out by (simp add: traced_out_def Let_def)
  have fine2: "arenas_fine h2" by (rule weakened_same(6) [OF traced_weakened [OF out p] gc_invD(1) [OF inv]])
  have minor: "cycle = Minor \<Longrightarrow> \<not> hp_force_major h" using chosen_minor by (simp add: cycle_def)
  { assume t': "gc_value (tables h') i = Some t'"
    then have "gc_value (tables ?f) i = Some t'" using same by (simp add: same_heap_def)
    then have "gc_value (tables h2) i = Some t'" by (rule finished_objects(1) [OF fine2])
    then obtain t where t: "gc_value (tables ?h1) i = Some t" "pruned_table (kept_entry cycle (tr_weak t0) ?h1 i) t t'"
      using p by (auto simp: pruned_def option_rel_Some2 dest!: spec [of _ i])
    have th: "gc_value (tables h) i = Some t" using t(1) recolored_objects(6) [OF rec] by simp
    have "live_ref h' (Gc_Table i)" using t' by (simp add: live_ref_def)
    then have s: "survives cycle h (cycle_roots cycle roots h) (Gc_Table i)"
      using collect_survivors(1) [OF inv c] by (simp add: cycle_def)
    have "for_each_entry t' = filter (held_entry cycle h (cycle_roots cycle roots h) i) (for_each_entry t)"
      using t(2) kept_held [OF inv minor out th s] by (simp add: pruned_table_def cong: filter_cong)
    then show "\<exists>t. gc_value (tables h) i = Some t \<and> same_frame t t' \<and> length (lt_array t') = length (lt_array t) \<and>
        for_each_entry t' = filter (held_entry cycle h (cycle_roots cycle roots h) i) (for_each_entry t)"
      using th t(2) by (auto simp: pruned_table_def) }
  { assume r: "live_ref h' r" "\<not> (\<exists>i. r = Gc_Table i)"
    have so: "same_objects (sw_heap (sweep_objects cycle h2)) ?f"
      by (cases cycle) (simp_all add: finished_def settle_all)
    have "live_ref (sw_heap (sweep_objects cycle h2)) r" using r(1) so same_heap_views(1) [OF same] by (simp add: same_objects_def)
    then have "same_value h2 (sw_heap (sweep_objects cycle h2)) r" by (rule same_value_sweep [OF fine2])
    moreover have "same_value (sw_heap (sweep_objects cycle h2)) ?f r"
      by (cases cycle) (simp_all add: finished_def same_value_settle_all)
    ultimately show "same_value h h' r"
      using same_value_recolored [OF rec] same_value_pruned [OF p r(2)] same_value_heap [OF same] same_value_trans by metis }
qed

lemma collect_reachable:
  assumes inv: "gc_inv h" and c: "collect budget used used' roots h = (Some n, h')"
    and r: "r \<in> gc_reach Full h (all_roots roots h)" "live_ref h r"
  shows "survives (chosen_cycle used h) h (cycle_roots (chosen_cycle used h) roots h) r"
  by (rule collect_completes [OF inv c]) (rule reachable_survives [OF inv chosen_minor _ r], blast)

lemma collect_ages:
  assumes inv: "gc_inv h" and c: "collect budget used used' roots h = (Some n, h')" and r: "live_ref h' r"
  shows "ref_age h' r = Old"
proof (rule collect_completes [OF inv c])
  fix t0 :: tracing and h2
  assume out: "traced_out (chosen_cycle used h) h (cycle_roots (chosen_cycle used h) roots h) t0"
    and p: "pruned (chosen_cycle used h) (tr_weak t0) (mk_heap (tr_marking t0)) h2"
    and same: "same_heap (finished (chosen_cycle used h) (tr_marked t0) h2) h'"
  show ?thesis using finished_views(5) [OF inv out p] r same_heap_views(1,4) [OF same] by simp
qed

section \<open>The validator\<close>

lemma all_ok_iff: "all_ok f xs = Inr () \<longleftrightarrow> (\<forall>x \<in> set xs. f x = Inr ())"
  by (induction xs) (auto split: sum.splits)

lemma validate_handles_iff: "validate_handles_of h r = Inr () \<longleftrightarrow> (\<forall>c \<in> set (traced_of h r). is_live_gen h (fst c) (snd c))"
  by (auto simp: validate_handles_of_def find_None_iff find_Some_iff split: option.splits)

lemma ball_arena_refs:
  assumes a: "arena_fine a"
  shows "(\<forall>r \<in> set (arena_refs k a). P r) \<longleftrightarrow> (\<forall>i. gc_value a i \<noteq> None \<longrightarrow> P (k i))"
proof -
  have "i \<in> set (map of_nat [0..<unat (of_nat (arena_len a) :: u32)])" if "gc_value a i \<noteq> None" for i
    using gc_value_in_range [OF that] a
    by (auto simp: unat_of_nat_u32 arena_fine_def intro: image_eqI [where x = "unat i"])
  then show ?thesis by (auto simp: arena_refs_def)
qed

text \<open>What the validator decides.\<close>

definition heap_sound :: "heap \<Rightarrow> bool" where
  "heap_sound h \<longleftrightarrow> no_dangling h \<and>
     (\<forall>i t g. gc_value (threads h) i = Some t \<longrightarrow> th_id t = Some g \<longrightarrow> heap_thread h g \<noteq> None) \<and>
     (\<forall>g. Some g \<in> {hp_string_metatable h, hp_vector_metatable h, hp_error_metatable h} \<longrightarrow> heap_table h g \<noteq> None) \<and>
     (\<forall>v \<in> set (gc_anchors h). \<forall>r g. from_value_gen v = Some (r, g) \<longrightarrow> is_live_gen h r g)"

lemma no_dangling_by_kind:
  "no_dangling h \<longleftrightarrow>
     ((\<forall>i. gc_value (tables h) i \<noteq> None \<longrightarrow> validate_handles_of h (Gc_Table i) = Inr ()) \<and>
      (\<forall>i. gc_value (closures h) i \<noteq> None \<longrightarrow> validate_handles_of h (Gc_Closure i) = Inr ()) \<and>
      (\<forall>i. gc_value (protos h) i \<noteq> None \<longrightarrow> validate_handles_of h (Gc_Proto i) = Inr ()) \<and>
      (\<forall>i. gc_value (upvals h) i \<noteq> None \<longrightarrow> validate_handles_of h (Gc_UpVal i) = Inr ())) \<and>
     (\<forall>i. gc_value (threads h) i \<noteq> None \<longrightarrow> validate_handles_of h (Gc_Thread i) = Inr ())"
  (is "_ \<longleftrightarrow> ?A")
proof
  assume "no_dangling h"
  then show ?A by (simp add: no_dangling_def validate_handles_iff)
next
  assume a: ?A
  have "validate_handles_of h r = Inr ()" for r
  proof (cases "live_ref h r")
    case True
    have "validate_handles_of h (Gc_Str i) = Inr ()" "validate_handles_of h (Gc_Userdata i) = Inr ()"
      "validate_handles_of h (Gc_Buffer i) = Inr ()" for i by (simp_all add: validate_handles_iff traced_of_def)
    then show ?thesis using a True by (cases r) (simp_all add: live_ref_def)
  next
    case False
    then show ?thesis by (simp add: validate_handles_iff traced_of_dead)
  qed
  then show "no_dangling h" by (simp add: no_dangling_def validate_handles_iff)
qed

lemma validate_thread_iff:
  "validate_thread h (Gc_Thread i) = Inr () \<longleftrightarrow> validate_handles_of h (Gc_Thread i) = Inr () \<and>
     (\<forall>t g. gc_value (threads h) i = Some t \<longrightarrow> th_id t = Some g \<longrightarrow> heap_thread h g \<noteq> None)"
  by (cases "validate_handles_of h (Gc_Thread i)"; cases "gc_value (threads h) i"; cases "th_id (the (gc_value (threads h) i))")
    (simp_all add: validate_thread_def)

lemma validate_sound:
  assumes fine: "arenas_fine h"
  shows "validate h = Inr () \<longleftrightarrow> heap_sound h"
proof -
  let ?objects = "arena_refs Gc_Table (tables h) @ arena_refs Gc_Closure (closures h) @ arena_refs Gc_Proto (protos h) @ arena_refs Gc_UpVal (upvals h)"
  have f: "arena_fine (tables h)" "arena_fine (closures h)" "arena_fine (protos h)" "arena_fine (upvals h)" "arena_fine (threads h)"
    using fine by (simp_all add: arenas_fine_def)
  note refs = f [THEN ball_arena_refs]
  have thr: "all_ok (validate_thread h) (arena_refs Gc_Thread (threads h)) = Inr () \<longleftrightarrow>
      (\<forall>i. gc_value (threads h) i \<noteq> None \<longrightarrow> validate_handles_of h (Gc_Thread i) = Inr ()) \<and>
      (\<forall>i t g. gc_value (threads h) i = Some t \<longrightarrow> th_id t = Some g \<longrightarrow> heap_thread h g \<noteq> None)"
    unfolding all_ok_iff refs validate_thread_iff by (metis option.distinct(1))
  have obj: "all_ok (validate_handles_of h) ?objects = Inr () \<longleftrightarrow>
      ((\<forall>i. gc_value (tables h) i \<noteq> None \<longrightarrow> validate_handles_of h (Gc_Table i) = Inr ()) \<and>
      (\<forall>i. gc_value (closures h) i \<noteq> None \<longrightarrow> validate_handles_of h (Gc_Closure i) = Inr ()) \<and>
      (\<forall>i. gc_value (protos h) i \<noteq> None \<longrightarrow> validate_handles_of h (Gc_Proto i) = Inr ()) \<and>
      (\<forall>i. gc_value (upvals h) i \<noteq> None \<longrightarrow> validate_handles_of h (Gc_UpVal i) = Inr ()))"
    by (simp only: all_ok_iff List.set_append ball_Un refs)
  have met: "all_ok (validate_metatable h) [(s1, hp_string_metatable h), (s2, hp_vector_metatable h), (s3, hp_error_metatable h)] = Inr () \<longleftrightarrow>
      (\<forall>g. Some g \<in> {hp_string_metatable h, hp_vector_metatable h, hp_error_metatable h} \<longrightarrow> heap_table h g \<noteq> None)" for s1 s2 s3
    unfolding all_ok_iff by (auto simp: validate_metatable_def split: option.splits)
  have anc: "all_ok (validate_anchor h) (gc_anchors h) = Inr () \<longleftrightarrow>
      (\<forall>v \<in> set (gc_anchors h). \<forall>r g. from_value_gen v = Some (r, g) \<longrightarrow> is_live_gen h r g)"
    unfolding all_ok_iff by (force simp: validate_anchor_def split: option.splits)
  have "validate h = Inr () \<longleftrightarrow> all_ok (validate_handles_of h) ?objects = Inr () \<and>
      all_ok (validate_thread h) (arena_refs Gc_Thread (threads h)) = Inr () \<and>
      all_ok (validate_metatable h) [(''string'', hp_string_metatable h), (''vector'', hp_vector_metatable h),
        (''structured-error'', hp_error_metatable h)] = Inr () \<and> all_ok (validate_anchor h) (gc_anchors h) = Inr ()"
    unfolding validate_def by (simp split: sum.splits)
  then show ?thesis unfolding thr obj met anc heap_sound_def no_dangling_by_kind by satx
qed

lemma gc_inv_sound: "gc_inv h \<Longrightarrow> heap_sound h"
  by (auto simp: gc_inv_def heap_sound_def roots_live_def ids_ok_def)

section \<open>Cycles\<close>

lemma heap_run_inv: "heap_run h hs \<Longrightarrow> gc_inv h"
  using heap_run_ok heap_okD(1) by blast

text \<open>
  C1: in every heap that operations on live handles can produce, the validator finds nothing: no object
  and no root holds a dangling handle. The depth counter is the number of threads in execution, and every
  handle such a thread holds outside its slot is live, also after a collection.
\<close>

theorem heap_run_safe:
  assumes "heap_run h hs"
  shows "validate h = Inr () \<and> unat (hp_taken_out h) = length hs \<and>
    (\<forall>x \<in> set hs. th_id (snd x) = Some (fst x) \<and> (\<forall>c \<in> set (thread_trace (snd x)). is_live_gen h (fst c) (snd c)))"
proof -
  have inv: "gc_inv h" and held: "held_ok h hs" using heap_run_ok [OF assms] heap_okD(1) by blast+
  have "validate h = Inr ()" using validate_sound [OF gc_invD(1) [OF inv]] gc_inv_sound [OF inv] by simp
  then show ?thesis using held by (simp add: held_ok_def held_live_def live_handles_def)
qed

text \<open>
  C31: when the arenas are well formed and shorter than \<open>2\<^sup>32\<close>, the validator accepts a heap exactly when
  every handle of every object, every thread's own handle, the shared metatables and the registry's
  anchors resolve to live objects.
\<close>

theorem validate_exact:
  assumes "arenas_fine h"
  shows "validate h = Inr () \<longleftrightarrow> heap_sound h"
  by (rule validate_sound [OF assms])

text \<open>
  C2: a completed major cycle keeps exactly the objects reachable from the caller's roots, the shared
  metatables, the metamethod names and the registry, where weak tables reach only their strong
  components, and reports the number of objects it freed.
\<close>

theorem gc_major_exact:
  assumes "heap_run h hs" "gc_should_major used h" "collect budget used used' roots h = (Some n, h')"
  shows "(\<forall>r g. is_live_gen h' r g \<longleftrightarrow> is_live_gen h r g \<and> r \<in> gc_reach Full h (all_roots roots h)) \<and>
    n = card {r. live_ref h r \<and> \<not> live_ref h' r}"
proof -
  have inv: "gc_inv h" by (rule heap_run_inv [OF assms(1)])
  have c: "chosen_cycle used h = Full" using assms(2) by (simp add: chosen_cycle_def)
  show ?thesis using collect_survivors(2) [OF inv assms(3)] collect_count [OF inv assms(3)]
    by (simp add: c survives_def cycle_roots_def)
qed

text \<open>
  C3: a completed minor cycle frees exactly the young objects it does not reach from the roots, the
  threads and the remembered set, so that everything reachable in the whole heap survives, and it leaves
  nothing young or remembered.
\<close>

theorem gc_minor_exact:
  assumes "heap_run h hs" "\<not> gc_should_major used h" "collect budget used used' roots h = (Some n, h')"
  shows "(\<forall>r g. is_live_gen h' r g \<longleftrightarrow>
      is_live_gen h r g \<and> (ref_age h r \<noteq> Young \<or> r \<in> gc_reach Minor h (minor_roots roots h))) \<and>
    (\<forall>r g. is_live_gen h r g \<longrightarrow> r \<in> gc_reach Full h (all_roots roots h) \<longrightarrow> is_live_gen h' r g) \<and>
    (\<forall>r. live_ref h' r \<longrightarrow> ref_age h' r = Old) \<and> n = card {r. live_ref h r \<and> \<not> live_ref h' r}"
proof -
  have inv: "gc_inv h" by (rule heap_run_inv [OF assms(1)])
  have c: "chosen_cycle used h = Minor" using assms(2) by (simp add: chosen_cycle_def)
  have s: "is_live_gen h' r g \<longleftrightarrow> is_live_gen h r g \<and> survives Minor h (cycle_roots Minor roots h) r" for r g
    using collect_survivors(2) [OF inv assms(3)] by (simp add: c)
  have "is_live_gen h' r g" if "is_live_gen h r g" "r \<in> gc_reach Full h (all_roots roots h)" for r g
    using collect_reachable [OF inv assms(3) that(2) is_live_gen_live [OF that(1)]] s that(1) by (simp add: c)
  moreover have "is_live_gen h' r g \<longleftrightarrow> is_live_gen h r g \<and> (ref_age h r \<noteq> Young \<or> r \<in> gc_reach Minor h (minor_roots roots h))" for r g
    using s by (auto simp: survives_def cycle_roots_def)
  ultimately show ?thesis using collect_ages [OF inv assms(3)] collect_count [OF inv assms(3)] by blast
qed

text \<open>
  C8: whatever the outcome of a collection, completed or abandoned for lack of memory, minor or major,
  the heap stays valid, every object reachable from the roots stays live under its handle, and an
  abandoned cycle frees nothing and makes the next one a major.
\<close>

theorem gc_collect_safe:
  assumes "heap_run h hs" "collect budget used used' roots h = (out, h')"
  shows "validate h' = Inr () \<and>
    (\<forall>r g. is_live_gen h r g \<longrightarrow> r \<in> gc_reach Full h (all_roots roots h) \<longrightarrow> is_live_gen h' r g) \<and>
    (out = None \<longrightarrow> (\<forall>r g. is_live_gen h' r g = is_live_gen h r g) \<and> gc_should_major used'' h')"
proof -
  have inv: "gc_inv h" by (rule heap_run_inv [OF assms(1)])
  have inv': "gc_inv h'" by (rule collect_inv [OF inv assms(2)])
  have v: "validate h' = Inr ()" using validate_sound [OF gc_invD(1) [OF inv']] gc_inv_sound [OF inv'] by simp
  show ?thesis
  proof (cases out)
    case None
    then show ?thesis using v collect_abandoned_same [OF inv assms(2) [unfolded None]] by (simp add: gc_should_major_def)
  next
    case (Some n)
    note c = assms(2) [unfolded Some]
    show ?thesis
      using v Some collect_survivors(2) [OF inv c] collect_reachable [OF inv c] is_live_gen_live [of h] by simp
  qed
qed

text \<open>
  C9: A completed cycle changes no surviving object but tables, and a table only in its entries: every other
  surviving string, closure, upvalue, userdata, thread, buffer and prototype is what it was; a surviving table
  keeps its metatable and flags and, in order, exactly the entries whose weak components survive, strings
  and plain values counting as strong, so that a table that is not weak keeps all of them.
\<close>

theorem gc_contents_exact:
  assumes "heap_run h hs" "collect budget used used' roots h = (Some n, h')"
  shows "(\<forall>i t'. gc_value (tables h') i = Some t' \<longrightarrow>
      (\<exists>t. gc_value (tables h) i = Some t \<and> same_frame t t' \<and> length (lt_array t') = length (lt_array t) \<and>
        for_each_entry t' = filter (held_entry (chosen_cycle used h) h (cycle_roots (chosen_cycle used h) roots h) i) (for_each_entry t) \<and>
        (weak_mode h t = None \<longrightarrow> for_each_entry t' = for_each_entry t))) \<and>
    (\<forall>r. live_ref h' r \<longrightarrow> (\<forall>i. r \<noteq> Gc_Table i) \<longrightarrow> same_value h h' r)"
proof -
  have strong: "held_entry cycle h R i e" if "gc_value (tables h) i = Some t" "weak_mode h t = None" for cycle R i e t
    using that by (simp add: held_entry_def weak_ref_def)
  show ?thesis
    using collect_contents [OF heap_run_inv [OF assms(1)] assms(2)] strong by (fastforce simp: filter_id_conv)
qed

text \<open>
  C20: a collection always ends, and it completes whenever enough reservations are granted: some number of
  them suffices for every larger one.
\<close>

theorem gc_completes: "\<exists>needed. \<forall>budget \<ge> needed. \<exists>n h'. collect budget used used' roots h = (Some n, h')"
  by (rule collect_affords)

section \<open>A small heap\<close>

text \<open>A new heap with two empty tables of which the first is pinned.\<close>

lemma intern_str_total:
  assumes "heap_ok h" "arena_len (strings h) < 2 ^ 32"
  shows "\<exists>out h'. intern_str r bs h = Some (out, h')"
proof -
  have "arena_ok (strings h)" using heap_okD(1) [OF assms(1)] arena_fineD by (auto simp: gc_inv_def arenas_fine_def)
  then have "\<exists>out h'. with_handle (fst (arena_alloc r v (strings h))) h1 = Some (out, h')" for v h1
    by (cases rule: arena_alloc_cases [where r = r and v = v]) (use assms(2) in \<open>auto simp: with_handle_def arena_len_def\<close>)
  then show ?thesis by (auto simp: intern_str_def split: option.splits prod.splits) (metis fst_conv option.distinct(1))
qed

lemma intern_str_keeps:
  "intern_str r bs h = Some (out, h') \<Longrightarrow> tables h' = tables h \<and> hp_registry h' = hp_registry h \<and> hp_force_major h' = hp_force_major h \<and>
     hp_major_threshold h' = hp_major_threshold h \<and> hp_minors_since_major h' = hp_minors_since_major h \<and>
     hp_string_metatable h' = hp_string_metatable h \<and> hp_vector_metatable h' = hp_vector_metatable h \<and>
     hp_error_metatable h' = hp_error_metatable h"
  by (auto simp: intern_str_def with_handle_def split: option.splits prod.splits alloc_outcome.splits)

lemma intern_events_total:
  assumes "heap_ok h" "arena_len (strings h) + length es < 2 ^ 32"
  shows "\<exists>h'. intern_events rs k es h = Some h' \<and> tables h' = tables h \<and> hp_registry h' = hp_registry h \<and>
     hp_force_major h' = hp_force_major h \<and> hp_major_threshold h' = hp_major_threshold h \<and>
     hp_minors_since_major h' = hp_minors_since_major h \<and> hp_string_metatable h' = hp_string_metatable h \<and>
     hp_vector_metatable h' = hp_vector_metatable h \<and> hp_error_metatable h' = hp_error_metatable h \<and>
     arena_len (strings h') \<le> arena_len (strings h) + length es"
  using assms
proof (induction es arbitrary: k h)
  case (Cons e es)
  obtain out h1 where i: "intern_str (rs k) (event_name e) h = Some (out, h1)"
    using intern_str_total [OF Cons.prems(1)] Cons.prems(2) by fastforce
  let ?h2 = "h1\<lparr>hp_metamethod_names := (hp_metamethod_names h1)[k := out]\<rparr>"
  have one: "intern_events rs k [e] h = Some ?h2" by (simp add: i)
  have "heap_ok ?h2" by (rule advances_ok [OF intern_events_ok [OF Cons.prems(1) _ one]]) (use Cons.prems(2) in simp)
  moreover have "arena_len (strings ?h2) + length es < 2 ^ 32" using intern_str_len [OF i] Cons.prems(2) by simp
  ultimately show ?case using Cons.IH [of ?h2 "Suc k"] intern_str_keeps [OF i] intern_str_len [OF i] by (auto simp: i)
qed simp

lemma new_heap_exists:
  "\<exists>h. heap_new 7 (\<lambda>_. demo_reservations) = Some h \<and> tables h = arena_new \<and> hp_registry h = registry_new \<and> \<not> hp_force_major h \<and>
     hp_major_threshold h = GC_MAJOR_STEP_BYTES \<and> hp_minors_since_major h = 0 \<and> hp_string_metatable h = None \<and>
     hp_vector_metatable h = None \<and> hp_error_metatable h = None \<and> arena_len (strings h) \<le> 18"
proof -
  have "arena_len (strings (empty_heap 7)) = 0" "length meta_events = 18" by (simp_all add: empty_heap_def arena_len_def arena_new_def meta_events_def)
  then show ?thesis using intern_events_total [OF empty_heap_ok, of 7 meta_events "\<lambda>_. demo_reservations" 0] unfolding heap_new_def
    by (auto simp: empty_heap_def)
qed

definition two_tables :: "heap \<Rightarrow> bool" where
  "two_tables h \<longleftrightarrow> heap_run h [] \<and> gc_value (tables h) 0 = Some table_new \<and> is_live_gen h (Gc_Table 0) 0 \<and> is_live_gen h (Gc_Table 1) 0 \<and>
     ref_age h (Gc_Table 0) = Young \<and> ref_age h (Gc_Table 1) = Young \<and> gc_anchors h = [LTable (RawGc 0 0 (hp_id h))] \<and> \<not> hp_force_major h \<and>
     hp_major_threshold h = GC_MAJOR_STEP_BYTES \<and> hp_minors_since_major h = 0 \<and> hp_string_metatable h = None \<and>
     hp_vector_metatable h = None \<and> hp_error_metatable h = None"

lemma two_tables_exists: "\<exists>h. two_tables h"
proof -
  obtain h0 where h0: "heap_new 7 (\<lambda>_. demo_reservations) = Some h0" "tables h0 = arena_new" "hp_registry h0 = registry_new"
    "\<not> hp_force_major h0" "hp_major_threshold h0 = GC_MAJOR_STEP_BYTES" "hp_minors_since_major h0 = 0"
    "hp_string_metatable h0 = None" "hp_vector_metatable h0 = None" "hp_error_metatable h0 = None"
    using new_heap_exists by blast
  let ?a1 = "\<lparr>ar_entries = [fresh_entry table_new], ar_gens = [0], ar_free = [], ar_young = [0]\<rparr>"
  let ?a2 = "\<lparr>ar_entries = [fresh_entry table_new, fresh_entry table_new], ar_gens = [0, 0], ar_free = [], ar_young = [0, 1]\<rparr>"
  let ?h1 = "h0\<lparr>tables := ?a1\<rparr>" and ?h2 = "h0\<lparr>tables := ?a2\<rparr>"
  have al: "arena_alloc demo_reservations table_new arena_new = (Allocated 0 0, ?a1)"
    "arena_alloc demo_reservations table_new ?a1 = (Allocated 1 0, ?a2)"
    by (simp_all add: arena_alloc_def demo_reservations_def arena_new_def)
  have 1: "alloc_table demo_reservations table_new h0 = Some (Some (RawGc 0 0 (hp_id h0)), ?h1)"
    by (simp add: alloc_table_def h0(2) al with_handle_def)
  have 2: "alloc_table demo_reservations table_new ?h1 = Some (Some (RawGc 1 0 (hp_id h0)), ?h2)"
    by (simp add: alloc_table_def al with_handle_def)
  have t: "table_ok table_new" "length (lt_array table_new) < 2 ^ 53" "table_trace table_new = []"
    by (simp, simp_all add: table_new_def table_trace_def visit_option_def)
  have r1: "heap_run ?h1 []"
    by (rule heap_run.alloc_table [OF heap_run.new [OF h0(1)] t(1,2) _ _ 1]) (simp_all add: t(3) h0(2) arena_new_def arena_len_def)
  have r2: "heap_run ?h2 []"
    by (rule heap_run.alloc_table [OF r1 t(1,2) _ _ 2]) (simp_all add: t(3) arena_len_def)
  let ?v = "LTable (RawGc 0 0 (hp_id h0))"
  obtain ref rg where p: "registry_pin True ?v (hp_id h0) registry_new = (Some ref, rg)" "registry_anchors rg = [?v]"
    by (simp add: registry_pin_def registry_new_def from_parts_def registry_anchors_def)
  have live: "is_live_gen ?h2 (Gc_Table 0) 0" "is_live_gen ?h2 (Gc_Table 1) 0"
    by (simp_all add: is_live_gen_def arena_get_def get_def fresh_entry_def)
  have r3: "heap_run (?h2\<lparr>hp_registry := rg\<rparr>) []"
    by (rule heap_run.pin [OF r2, of ?v True "Some ref"])
      (simp_all add: live visit_value_def pin_def h0(3) p(1), simp add: registry_new_def)
  have "two_tables (?h2\<lparr>hp_registry := rg\<rparr>)"
    unfolding two_tables_def using r3 live h0 p(2)
    by (simp add: gc_anchors_def gc_value_def get_def fresh_entry_def ref_age_def gc_age_def)
  then show ?thesis by blast
qed

lemma two_tables_reach:
  assumes h: "two_tables h"
  shows "Gc_Table 0 \<in> gc_reach cycle h (all_roots [] h)" "Gc_Table 1 \<notin> gc_reach Full h (all_roots [] h)"
proof -
  have roots: "all_roots [] h = {Gc_Table 0} \<union> set (concat (map (handle_roots Gc_Str) (hp_metamethod_names h)))"
    using h by (simp add: two_tables_def all_roots_def fixed_roots_def anchor_roots_def handle_roots_def map_filter_def)
  show "Gc_Table 0 \<in> gc_reach cycle h (all_roots [] h)" by (rule gc_reach.reach_root) (simp add: roots)
  have none: "trace_children h (Gc_Table 0) = []" "trace_children h (Gc_Str i) = []" for i
    using h by (simp_all add: two_tables_def trace_children_def weak_ref_def weak_mode_def table_new_def collect_children_def traced_of_def
        visit_option_def table_trace_def)
  have "r = Gc_Table 0 \<or> (\<exists>i. r = Gc_Str i)" if "r \<in> gc_reach Full h (all_roots [] h)" for r
    using that
  proof induction
    case (reach_root r)
    then show ?case by (auto simp: roots handle_roots_def split: option.splits)
  next
    case (reach_child r c)
    then show ?case using none by auto
  qed
  then show "Gc_Table 1 \<notin> gc_reach Full h (all_roots [] h)" by fastforce
qed

subsection \<open>Witnesses\<close>

theorem heap_run_safe_witness: "\<exists>h. two_tables h \<and> validate h = Inr () \<and> hp_taken_out h = 0"
proof -
  obtain h where h: "two_tables h" using two_tables_exists by blast
  then have "heap_run h []" by (simp add: two_tables_def)
  from heap_run_safe [OF this] have "validate h = Inr () \<and> hp_taken_out h = 0" by (simp add: unat_eq_0)
  then show ?thesis using h by blast
qed

theorem validate_exact_witness:
  "arenas_fine ((empty_heap 7)\<lparr>hp_string_metatable := Some (RawGc 0 0 7)\<rparr>) \<and>
   validate ((empty_heap 7)\<lparr>hp_string_metatable := Some (RawGc 0 0 7)\<rparr>) \<noteq> Inr ()"
proof -
  let ?h = "(empty_heap 7)\<lparr>hp_string_metatable := Some (RawGc 0 0 7)\<rparr>"
  have fine: "arenas_fine ?h" using heap_okD(1) [OF empty_heap_ok] by (simp add: gc_inv_def)
  have "\<not> heap_sound ?h" by (simp add: heap_sound_def heap_table_def empty_heap_def arena_new_def arena_get_def get_def)
  then show ?thesis using validate_exact [OF fine] fine by blast
qed

lemma two_tables_collect:
  assumes "two_tables h"
  shows "gc_should_major (- 1) h" "\<not> gc_should_major 0 h"
  using assms by (simp_all add: two_tables_def gc_should_major_def GC_MAJOR_STEP_BYTES_def GC_MAJOR_SAFETY_CAP_def word_order.extremum)

theorem gc_major_exact_witness:
  "\<exists>h n h'. two_tables h \<and> collect n (- 1) 0 [] h = (Some (card {r. live_ref h r \<and> \<not> live_ref h' r}), h') \<and>
     is_live_gen h' (Gc_Table 0) 0 \<and> \<not> is_live_gen h' (Gc_Table 1) 0"
proof -
  obtain h where h: "two_tables h" using two_tables_exists by blast
  then have run: "heap_run h []" by (simp add: two_tables_def)
  obtain b n h' where c: "collect b (- 1) 0 [] h = (Some n, h')" using collect_affords [of "- 1" 0 "[]" h] by blast
  have "is_live_gen h' (Gc_Table 0) 0 \<and> \<not> is_live_gen h' (Gc_Table 1) 0 \<and> n = card {r. live_ref h r \<and> \<not> live_ref h' r}"
    using gc_major_exact [OF run two_tables_collect(1) [OF h] c] two_tables_reach [OF h] h by (simp add: two_tables_def)
  then show ?thesis using h c by blast
qed

theorem gc_minor_exact_witness:
  "\<exists>h b n h'. two_tables h \<and> collect b 0 0 [] h = (Some n, h') \<and> is_live_gen h' (Gc_Table 0) 0 \<and>
     ref_age h (Gc_Table 0) = Young \<and> ref_age h' (Gc_Table 0) = Old"
proof -
  obtain h where h: "two_tables h" using two_tables_exists by blast
  then have t: "heap_run h []" "is_live_gen h (Gc_Table 0) 0" "ref_age h (Gc_Table 0) = Young" by (simp_all add: two_tables_def)
  obtain b n h' where c: "collect b 0 0 [] h = (Some n, h')" using collect_affords [of 0 0 "[]" h] by blast
  note m = gc_minor_exact [OF t(1) two_tables_collect(2) [OF h] c]
  have live: "is_live_gen h' (Gc_Table 0) 0" using m t(2) two_tables_reach(1) [OF h] by blast
  then have "ref_age h' (Gc_Table 0) = Old" using m is_live_gen_live by blast
  then show ?thesis using h c t(3) live by blast
qed

lemma mark_all_broke: "mk_budget s = 0 \<Longrightarrow> mark_all mark rs s = Inr s' \<Longrightarrow> s' = s"
proof (induction rs)
  case (Cons r rs)
  have "mark r s = Inr s \<or> (\<exists>h. mark r s = Inl h)" using Cons.prems(1) by (simp add: mark_def mark_gray_def reserve_def gbind_def)
  then show ?case using Cons by (auto simp: gbind_def)
qed simp

lemma two_tables_broke:
  assumes h: "two_tables h"
  shows "\<exists>h'. collect 0 0 0 [] h = (None, h')"
proof -
  let ?s = "start_marking 0 h"
  have s: "mk_budget ?s = 0" "mk_heap ?s = h" by (simp_all add: start_marking_def)
  have "length (anchor_roots h) = 1" using h by (simp add: two_tables_def anchor_roots_def map_filter_def)
  then have "\<exists>h'. mark_heap_roots [] ?s = Inl h'"
    using mark_all_broke [OF s(1), of "[] @ fixed_roots h"] s
    by (cases "mark_all mark ([] @ fixed_roots h) ?s") (auto simp: mark_heap_roots_def gbind_def Let_def reserve_def)
  then show ?thesis using two_tables_collect(2) [OF h] by (auto simp: collect_def collect_minor_inner_def gbind_def)
qed

theorem gc_collect_safe_witness:
  "\<exists>h h'. two_tables h \<and> collect 0 0 0 [] h = (None, h') \<and> validate h' = Inr () \<and> is_live_gen h' (Gc_Table 0) 0 \<and>
     is_live_gen h' (Gc_Table 1) 0 \<and> gc_should_major 0 h'"
proof -
  obtain h where h: "two_tables h" using two_tables_exists by blast
  then have t: "heap_run h []" "is_live_gen h (Gc_Table 0) 0" "is_live_gen h (Gc_Table 1) 0" by (simp_all add: two_tables_def)
  obtain h' where c: "collect 0 0 0 [] h = (None, h')" using two_tables_broke [OF h] by blast
  show ?thesis using gc_collect_safe [OF t(1) c, of 0] h c t(2,3) by blast
qed

text \<open>
  A heap whose table 2 is pinned, has weak values through its metatable, table 1, and maps 1 to table 0,
  which nothing else holds.
\<close>

definition weak_table :: "u64 \<Rightarrow> lua_table" where
  "weak_table hid = (with_array [LTable (RawGc 0 0 hid)])\<lparr>lt_metatable := Some (RawGc 1 0 hid)\<rparr>"

definition weak_meta :: "raw_gc \<Rightarrow> raw_gc \<Rightarrow> lua_table" where
  "weak_meta k v = (case table_set (LString k) (LString v) table_new of Some (_, t) \<Rightarrow> t | None \<Rightarrow> table_new)"

definition weak_tables :: "heap \<Rightarrow> raw_gc \<Rightarrow> raw_gc \<Rightarrow> bool" where
  "weak_tables h k v \<longleftrightarrow> heap_run h [] \<and>
     tables h = \<lparr>ar_entries = map fresh_entry [table_new, weak_meta k v, weak_table (hp_id h)], ar_gens = [0, 0, 0], ar_free = [], ar_young = [0, 1, 2]\<rparr> \<and>
     gc_anchors h = [LTable (RawGc 2 0 (hp_id h))] \<and> hp_interner h mode_name = Some k \<and> heap_string h v = Some \<lparr>ls_bytes = [0x76]\<rparr> \<and>
     \<not> hp_force_major h \<and> hp_string_metatable h = None \<and> hp_vector_metatable h = None \<and> hp_error_metatable h = None"

lemma weak_meta_views:
  "table_ok (weak_meta k v)" "lt_array (weak_meta k v) = []" "lt_metatable (weak_meta k v) = None"
  "lt_hash (weak_meta k v) = [\<lparr>hs_key_value = LString k, hs_value = Some (LString v)\<rparr>]" "field (weak_meta k v) (LString k) = LString v"
  "for_each_entry (weak_meta k v) = [(LString k, LString v)]" "set (table_trace (weak_meta k v)) = set (visit_value (LString k)) \<union> set (visit_value (LString v))"
proof -
  have t: "weak_meta k v = table_new\<lparr>lt_hash := [\<lparr>hs_key_value = LString k, hs_value = Some (LString v)\<rparr>],
     lt_index := Map.empty(handle_key K_Str (gc_index k) (gc_generation k) \<mapsto> 0)\<rparr>"
    by (simp add: weak_meta_def table_set_def set_inner_def normalize_key_def handle_key_def integer_slot_def
        appends_def hash_set_def table_new_def)
  have small: "table_size table_new + 1 < array_bound" by (simp add: table_size_def table_new_def live_slots_def array_bound_def)
  show "table_ok (weak_meta k v)"
    using table_set_ok [OF table_new_ok, of "LString k" "LString v"] small by (auto simp: weak_meta_def)
  show "lt_array (weak_meta k v) = []" "lt_metatable (weak_meta k v) = None"
    "lt_hash (weak_meta k v) = [\<lparr>hs_key_value = LString k, hs_value = Some (LString v)\<rparr>]" by (simp_all add: t table_new_def)
  show "field (weak_meta k v) (LString k) = LString v"
    by (simp add: t field_def table_get_def normalize_key_def handle_key_def integer_slot_def table_new_def
        get_def)
  show e: "for_each_entry (weak_meta k v) = [(LString k, LString v)]" by (simp add: t for_each_entry_def table_new_def hash_entries_def List.map_filter_simps)
  show "set (table_trace (weak_meta k v)) = set (visit_value (LString k)) \<union> set (visit_value (LString v))"
    by (simp add: table_trace_entries e entry_refs_def) (simp add: t table_new_def visit_option_def)
qed

lemma weak_table_views:
  "table_ok (weak_table hid)" "lt_array (weak_table hid) = [LTable (RawGc 0 0 hid)]" "lt_metatable (weak_table hid) = Some (RawGc 1 0 hid)"
  "for_each_entry (weak_table hid) = [(LNumber (array_key 0), LTable (RawGc 0 0 hid))]"
  "set (table_trace (weak_table hid)) = {(Gc_Table 0, 0), (Gc_Table 1, 0)}" "set (gc_trace_weak False True (weak_table hid)) = {Gc_Table 1}"
proof -
  show "table_ok (weak_table hid)"
    by (simp add: weak_table_def with_array_def table_new_def table_ok_def table_wf_def parts_disjoint_def
        index_sound_def index_complete_def no_nil_slots_def live_slot_def)
  show "lt_array (weak_table hid) = [LTable (RawGc 0 0 hid)]" "lt_metatable (weak_table hid) = Some (RawGc 1 0 hid)"
    by (simp_all add: weak_table_def with_array_def table_new_def)
  show e: "for_each_entry (weak_table hid) = [(LNumber (array_key 0), LTable (RawGc 0 0 hid))]"
    by (simp add: weak_table_def with_array_def table_new_def for_each_entry_def hash_entries_def List.map_filter_simps)
  show "set (table_trace (weak_table hid)) = {(Gc_Table 0, 0), (Gc_Table 1, 0)}"
    by (simp add: table_trace_entries e entry_refs_def) (auto simp: weak_table_def with_array_def table_new_def visit_option_def visit_handle_def visit_value_def)
  show "set (gc_trace_weak False True (weak_table hid)) = {Gc_Table 1}"
    by (simp add: gc_trace_weak_entries e weak_entry_refs_def)
      (simp add: weak_table_def with_array_def table_new_def visit_option_def visit_handle_def weak_visit_def visit_value_def)
qed

lemma alloc_granted: "arena_ok a \<Longrightarrow> arena_len a < 2 ^ 32 \<Longrightarrow> \<exists>i g a'. arena_alloc demo_reservations v a = (Allocated i g, a')"
  by (cases rule: arena_alloc_cases [where r = demo_reservations and v = v and a = a])
    (auto simp: arena_len_def, auto simp: arena_alloc_def demo_reservations_def Let_def split: if_splits)

lemma intern_str_granted:
  assumes run: "heap_run h hs" and room: "Suc (arena_len (strings h)) < 2 ^ 32"
  obtains g h' where "intern_str demo_reservations bs h = Some (Some g, h')" "heap_run h' hs" "hp_interner h' bs = Some g"
    "\<And>b. b \<noteq> bs \<Longrightarrow> hp_interner h' b = hp_interner h b"
proof -
  have ok: "heap_ok h" using heap_run_ok [OF run] by blast
  have "arena_ok (strings h)" using heap_okD(1) [OF ok] arena_fineD by (auto simp: gc_inv_def arenas_fine_def)
  then obtain i k a where "arena_alloc demo_reservations \<lparr>ls_bytes = bs\<rparr> (strings h) = (Allocated i k, a)"
    using alloc_granted [of "strings h" "\<lparr>ls_bytes = bs\<rparr>"] room by auto
  then obtain g h' where i: "intern_str demo_reservations bs h = Some (Some g, h')"
    by (cases "hp_interner h bs") (auto simp: intern_str_def with_handle_def)
  then have "hp_interner h' b = hp_interner h b" if "b \<noteq> bs" for b
    using that by (auto simp: intern_str_def with_handle_def split: option.splits prod.splits alloc_outcome.splits)
  then show ?thesis using that i heap_run.intern_str [OF run room i] intern_str_ok [OF ok room i] by blast
qed

lemma interned_string: "heap_run h hs \<Longrightarrow> hp_interner h bs = Some g \<Longrightarrow> heap_string h g = Some \<lparr>ls_bytes = bs\<rparr>"
  using heap_run_ok [of h hs] heap_ok_parts(3) [of h] by (auto simp: interner_ok_def)

lemma weak_strings_exist:
  "\<exists>h k v. heap_run h [] \<and> tables h = arena_new \<and> hp_registry h = registry_new \<and> hp_interner h mode_name = Some k \<and>
     hp_interner h [0x76] = Some v \<and> \<not> hp_force_major h \<and> hp_string_metatable h = None \<and> hp_vector_metatable h = None \<and> hp_error_metatable h = None"
proof -
  obtain h0 where h0: "heap_new 7 (\<lambda>_. demo_reservations) = Some h0" "tables h0 = arena_new" "hp_registry h0 = registry_new"
    "\<not> hp_force_major h0" "hp_string_metatable h0 = None" "hp_vector_metatable h0 = None" "hp_error_metatable h0 = None"
    "arena_len (strings h0) \<le> 18"
    using new_heap_exists by blast
  have r0: "heap_run h0 []" by (rule heap_run.new [OF h0(1)])
  obtain k h1 where h1: "intern_str demo_reservations mode_name h0 = Some (Some k, h1)" "heap_run h1 []" "hp_interner h1 mode_name = Some k"
    using intern_str_granted [OF r0, of mode_name thesis] h0(8) by simp
  obtain v h2 where h2: "intern_str demo_reservations [0x76] h1 = Some (Some v, h2)" "heap_run h2 []" "hp_interner h2 [0x76] = Some v"
      "\<And>b. b \<noteq> [0x76] \<Longrightarrow> hp_interner h2 b = hp_interner h1 b"
    using intern_str_granted [OF h1(2), of "[0x76]" thesis] h0(8) intern_str_len [OF h1(1)] by simp
  have "hp_interner h2 mode_name = Some k" using h1(3) h2(4) [of mode_name] by (simp add: mode_name_def)
  then show ?thesis using h0 h2 intern_str_keeps [OF h1(1)] intern_str_keeps [OF h2(1)] by auto
qed

lemma weak_tables_exists: "\<exists>h k v. weak_tables h k v"
proof -
  obtain h0 k v where h0: "heap_run h0 []" "tables h0 = arena_new" "hp_registry h0 = registry_new" "hp_interner h0 mode_name = Some k"
    "hp_interner h0 [0x76] = Some v" "\<not> hp_force_major h0" "hp_string_metatable h0 = None" "hp_vector_metatable h0 = None"
    "hp_error_metatable h0 = None"
    using weak_strings_exist by blast
  have str: "heap_string h0 k \<noteq> None" "heap_string h0 v = Some \<lparr>ls_bytes = [0x76]\<rparr>" using interned_string [OF h0(1)] h0(4,5) by simp_all
  let ?m = "weak_meta k v" and ?w = "weak_table (hp_id h0)"
  let ?a1 = "\<lparr>ar_entries = map fresh_entry [table_new], ar_gens = [0], ar_free = [], ar_young = [0]\<rparr>"
  let ?a2 = "\<lparr>ar_entries = map fresh_entry [table_new, ?m], ar_gens = [0, 0], ar_free = [], ar_young = [0, 1]\<rparr>"
  let ?a3 = "\<lparr>ar_entries = map fresh_entry [table_new, ?m, ?w], ar_gens = [0, 0, 0], ar_free = [], ar_young = [0, 1, 2]\<rparr>"
  have al: "arena_alloc demo_reservations table_new arena_new = (Allocated 0 0, ?a1)"
    "arena_alloc demo_reservations ?m ?a1 = (Allocated 1 0, ?a2)" "arena_alloc demo_reservations ?w ?a2 = (Allocated 2 0, ?a3)"
    by (simp_all add: arena_alloc_def demo_reservations_def arena_new_def)
  have step: "heap_run (h0\<lparr>tables := a'\<rparr>) []"
    if "heap_run (h0\<lparr>tables := a\<rparr>) []" "arena_alloc demo_reservations t a = (Allocated i 0, a')" "table_ok t" "length (lt_array t) \<le> 1"
      "arena_len a \<le> 2" "\<And>r g. (r, g) \<in> set (table_trace t) \<Longrightarrow> is_live_gen (h0\<lparr>tables := a\<rparr>) r g" for a a' t i
    by (rule heap_run.alloc_table [OF that(1,3), where r = demo_reservations and out = "Some (RawGc i 0 (hp_id h0))"]) (use that in \<open>auto simp: alloc_table_def with_handle_def live_handles_def\<close>)
  have r1: "heap_run (h0\<lparr>tables := ?a1\<rparr>) []"
  proof (rule step [OF _ al(1)])
    have "h0\<lparr>tables := arena_new\<rparr> = h0" by (simp flip: h0(2))
    then show "heap_run (h0\<lparr>tables := arena_new\<rparr>) []" using h0(1) by simp
  qed (simp, simp_all add: table_new_def table_trace_def visit_option_def arena_len_def arena_new_def)
  have live: "is_live_gen (h0\<lparr>tables := a\<rparr>) (Gc_Str (gc_index g)) (gc_generation g)" if "g \<in> {k, v}" for a g
    using that str heap_handles_live(2) [of h0] by (auto simp: is_live_gen_def)
  have r2: "heap_run (h0\<lparr>tables := ?a2\<rparr>) []"
    by (rule step [OF r1 al(2)]) (auto simp: weak_meta_views live visit_value_def arena_len_def)
  have r3: "heap_run (h0\<lparr>tables := ?a3\<rparr>) []"
    by (rule step [OF r2 al(3)]) (auto simp: weak_table_views arena_len_def is_live_gen_def arena_get_def get_def fresh_entry_def)
  let ?v = "LTable (RawGc 2 0 (hp_id h0))"
  obtain ref rg where p: "registry_pin True ?v (hp_id h0) registry_new = (Some ref, rg)" "registry_anchors rg = [?v]"
    by (simp add: registry_pin_def registry_new_def from_parts_def registry_anchors_def)
  have r4: "heap_run (h0\<lparr>tables := ?a3, hp_registry := rg\<rparr>) []"
    by (rule heap_run.pin [OF r3, of ?v True "Some ref"])
      (simp_all add: visit_value_def pin_def h0(3) p(1) is_live_gen_def arena_get_def get_def fresh_entry_def, simp add: registry_new_def)
  have "weak_tables (h0\<lparr>tables := ?a3, hp_registry := rg\<rparr>) k v"
    unfolding weak_tables_def using r4 h0 p(2) str(2) by (simp add: gc_anchors_def heap_string_def split: if_splits)
  then show ?thesis by blast
qed

lemma weak_tables_views:
  assumes h: "weak_tables h k v"
  shows "gc_value (tables h) 0 = Some table_new" "gc_value (tables h) 1 = Some (weak_meta k v)" "gc_value (tables h) 2 = Some (weak_table (hp_id h))"
    "weak_mode h (weak_meta k v) = None" "weak_mode h (weak_table (hp_id h)) = Some (False, True)"
proof -
  have "heap_table h (RawGc 1 0 (hp_id h)) = Some (weak_meta k v)"
    using h by (simp add: weak_tables_def heap_table_def arena_get_def get_def fresh_entry_def)
  then show "weak_mode h (weak_table (hp_id h)) = Some (False, True)"
    using h by (simp add: weak_tables_def weak_mode_def weak_table_views weak_meta_views)
qed (use h in \<open>simp_all add: weak_tables_def gc_value_def get_def fresh_entry_def weak_mode_def weak_meta_views\<close>)

lemma weak_tables_reach:
  assumes h: "weak_tables h k v"
  shows "Gc_Table 0 \<notin> gc_reach Full h (all_roots [] h)" "Gc_Table 1 \<in> gc_reach Full h (all_roots [] h)"
    "Gc_Table 2 \<in> gc_reach Full h (all_roots [] h)" "Gc_Str (gc_index v) \<in> gc_reach Full h (all_roots [] h)"
proof -
  have roots: "all_roots [] h = {Gc_Table 2} \<union> set (concat (map (handle_roots Gc_Str) (hp_metamethod_names h)))"
    using h by (simp add: weak_tables_def all_roots_def fixed_roots_def anchor_roots_def handle_roots_def map_filter_def)
  note views = weak_tables_views [OF h]
  have kids: "set (trace_children h (Gc_Table 2)) = {Gc_Table 1}" "trace_children h (Gc_Str i) = []"
    "set (trace_children h (Gc_Table 1)) = {Gc_Str (gc_index v), Gc_Str (gc_index k)}" for i
    using views weak_meta_views(7) [of k v]
    by (simp_all add: trace_children_def weak_ref_def weak_table_views collect_children_def traced_of_def visit_option_def visit_value_def)
  have "r = Gc_Table 2 \<or> r = Gc_Table 1 \<or> (\<exists>i. r = Gc_Str i)" if "r \<in> gc_reach Full h (all_roots [] h)" for r
    using that
  proof induction
    case (reach_root r)
    then show ?case by (auto simp: roots handle_roots_def split: option.splits)
  next
    case (reach_child r c)
    then show ?case using kids by auto
  qed
  then show "Gc_Table 0 \<notin> gc_reach Full h (all_roots [] h)" by fastforce
  show 2: "Gc_Table 2 \<in> gc_reach Full h (all_roots [] h)" by (rule gc_reach.reach_root) (simp add: roots)
  show 1: "Gc_Table 1 \<in> gc_reach Full h (all_roots [] h)" by (rule gc_reach.reach_child [OF 2]) (simp_all add: kids entered_def)
  show "Gc_Str (gc_index v) \<in> gc_reach Full h (all_roots [] h)" by (rule gc_reach.reach_child [OF 1]) (simp_all add: kids entered_def)
qed

theorem gc_contents_exact_witness:
  "\<exists>h k v b n h' m t. weak_tables h k v \<and> collect b (- 1) 0 [] h = (Some n, h') \<and>
     for_each_entry (weak_table (hp_id h)) = [(LNumber (array_key 0), LTable (RawGc 0 0 (hp_id h)))] \<and>
     gc_value (tables h') 2 = Some t \<and> for_each_entry t = [] \<and> lt_metatable t = Some (RawGc 1 0 (hp_id h)) \<and>
     gc_value (tables h') 1 = Some m \<and> for_each_entry m = [(LString k, LString v)] \<and>
     gc_value (strings h') (gc_index v) = Some \<lparr>ls_bytes = [0x76]\<rparr>"
proof -
  obtain h k v where h: "weak_tables h k v" using weak_tables_exists by blast
  then have run: "heap_run h []" by (simp add: weak_tables_def)
  have full: "chosen_cycle (- 1) h = Full"
    by (simp add: chosen_cycle_def gc_should_major_def GC_MAJOR_STEP_BYTES_def GC_MAJOR_SAFETY_CAP_def word_order.extremum)
  obtain b n h' where c: "collect b (- 1) 0 [] h = (Some n, h')" using collect_affords [of "- 1" 0 "[]" h] by blast
  note reach = weak_tables_reach [OF h] and views = weak_tables_views [OF h]
  have live: "live_ref h' r" if "live_ref h r" "r \<in> gc_reach Full h (all_roots [] h)" for r
    using that collect_survivors(1) [OF heap_run_inv [OF run] c] by (simp add: full survives_def cycle_roots_def)
  have s: "gc_value (strings h) (gc_index v) = Some \<lparr>ls_bytes = [0x76]\<rparr>"
    using h arena_get_live [of "strings h" "gc_index v" "gc_generation v"] by (auto simp: weak_tables_def heap_string_def split: if_splits)
  note kept = gc_contents_exact [OF run c, unfolded full]
  obtain t m where t: "gc_value (tables h') 2 = Some t" "gc_value (tables h') 1 = Some m"
    using live [OF _ reach(3)] live [OF _ reach(2)] views by (auto simp: live_ref_def)
  have "live_ref h' (Gc_Str (gc_index v))" using live [OF _ reach(4)] s by (simp add: live_ref_def)
  moreover have "\<not> held_entry Full h (cycle_roots Full [] h) 2 (LNumber (array_key 0), LTable (RawGc 0 0 (hp_id h)))"
    using reach(1) views by (simp add: held_entry_def weak_ref_def held_component_def survives_def cycle_roots_def)
  moreover have "held_entry Full h (cycle_roots Full [] h) 1 (LString k, LString v)" using views by (simp add: held_entry_def weak_ref_def)
  ultimately have "for_each_entry t = []" "lt_metatable t = Some (RawGc 1 0 (hp_id h))" "for_each_entry m = [(LString k, LString v)]"
    "gc_value (strings h') (gc_index v) = Some \<lparr>ls_bytes = [0x76]\<rparr>"
    using kept [THEN conjunct1, rule_format, OF t(1)] kept [THEN conjunct1, rule_format, OF t(2)]
      kept [THEN conjunct2, rule_format, of "Gc_Str (gc_index v)"] views s
    by (auto simp: weak_table_views weak_meta_views same_value_def same_frame_def)
  then show ?thesis using h c t weak_table_views(4) by blast
qed

theorem gc_completes_witness: "\<exists>needed n h'. collect needed 0 0 [] (empty_heap 7) = (Some n, h')"
  using gc_completes [of 0 0 "[]" "empty_heap 7"] by blast

end
