(* ===== verification/Pattern.thy ===== *)
theory Pattern
  imports Prelude
begin

text \<open>
  The string-pattern matcher of the VM (\<^verbatim>\<open>ruau-vm/src/pattern.rs\<close>): a backtracking matcher
  with a step budget shared by all attempts of one library call and a cap on its recursion
  depth.

  The immutable fields of \<^verbatim>\<open>Matcher\<close> (source, pattern, limits) are the record \<open>matcher\<close>, the
  mutable ones (captures and step counter) the record \<open>matching\<close>, which every operation
  threads; it is returned with errors too, because the step counter belongs to the caller. The
  counter \<^verbatim>\<open>depth\<close> is raised on entry of \<^verbatim>\<open>do_match\<close> and lowered on every way out of it, so it is
  the nesting depth of the call; the model counts the levels that are left, and \<open>do_match\<close> is
  recursive on them. An index or slice that is out of range is the outcome \<open>Panic\<close>. Positions
  are \<open>nat\<close> (a Rust slice has at most \<^verbatim>\<open>isize::MAX\<close> bytes); the step counter and the nesting
  counter of \<^verbatim>\<open>%b\<close> wrap at 32 bits, and a capture length is read back as an unsigned 64-bit
  number as in the code.
\<close>

section \<open>Data\<close>

definition L_ESC :: u8 where
  "L_ESC = 0x25"

definition CAP_UNFINISHED :: int where
  "CAP_UNFINISHED = - 1"

definition CAP_POSITION :: int where
  "CAP_POSITION = - 2"

record pattern_limits =
  pl_max_steps :: u32
  pl_max_depth :: u32
  pl_max_captures :: nat

datatype capture =
    Cap_Bytes nat nat
  | Cap_Position nat

record match_result =
  mr_start :: nat
  mr_end :: nat
  mr_captures :: "capture list"

record matcher =
  mt_src :: bytes
  mt_pat :: bytes
  mt_limits :: pattern_limits

record matching =
  mt_caps :: "(nat \<times> int) list"
  mt_steps :: u32

text \<open>The errors of the matcher, in the order of the source, and what is no error value: a panic.\<close>

datatype pattern_error =
    Match_Too_Complex
  | Ends_With_Escape
  | Missing_Bracket
  | Missing_Balance_Arguments
  | Too_Many_Captures
  | Invalid_Pattern_Capture
  | Invalid_Capture_Index
  | Pattern_Too_Deep
  | Missing_Frontier_Set
  | Unfinished_Capture

datatype pattern_stop =
    Fail pattern_error
  | Panic

type_synonym 'a exec = "(pattern_stop + 'a) \<times> matching"
type_synonym continuation = "nat \<Rightarrow> nat \<Rightarrow> matching \<Rightarrow> nat option exec"

fun pattern_message :: "pattern_error \<Rightarrow> string" where
  "pattern_message Match_Too_Complex = ''pattern match is too complex''"
| "pattern_message Ends_With_Escape = ''malformed pattern (ends with '%')''"
| "pattern_message Missing_Bracket = ''malformed pattern (missing ']')''"
| "pattern_message Missing_Balance_Arguments = ''malformed pattern (missing arguments to '%b')''"
| "pattern_message Too_Many_Captures = ''too many captures in pattern''"
| "pattern_message Invalid_Pattern_Capture = ''invalid pattern capture''"
| "pattern_message Invalid_Capture_Index = ''invalid capture index in pattern''"
| "pattern_message Pattern_Too_Deep = ''pattern too complex (too deep)''"
| "pattern_message Missing_Frontier_Set = ''missing '[' after '%f' in pattern''"
| "pattern_message Unfinished_Capture = ''unfinished capture in pattern''"

text \<open>Rust's \<^verbatim>\<open>?\<close> on a value without and with the matcher's state, and checked indexing.\<close>

definition sbind :: "pattern_stop + 'a \<Rightarrow> ('a \<Rightarrow> pattern_stop + 'b) \<Rightarrow> pattern_stop + 'b" where
  "sbind r f = (case r of Inl e \<Rightarrow> Inl e | Inr x \<Rightarrow> f x)"

definition ebind :: "'a exec \<Rightarrow> ('a \<Rightarrow> matching \<Rightarrow> 'b exec) \<Rightarrow> 'b exec" where
  "ebind r f = (case r of (Inl e, st) \<Rightarrow> (Inl e, st) | (Inr x, st) \<Rightarrow> f x st)"

definition byte_at :: "bytes \<Rightarrow> nat \<Rightarrow> pattern_stop + u8" where
  "byte_at xs i = (if i < length xs then Inr (xs ! i) else Inl Panic)"

definition slice :: "bytes \<Rightarrow> nat \<Rightarrow> nat \<Rightarrow> pattern_stop + bytes" where
  "slice xs a b = (if a \<le> b \<and> b \<le> length xs then Inr (take (b - a) (drop a xs)) else Inl Panic)"

lemma sbind_simps [simp]: "sbind (Inl e) f = Inl e" "sbind (Inr x) f = f x"
  by (simp_all add: sbind_def)

lemma ebind_simps [simp]: "ebind (Inl e, st) f = (Inl e, st)" "ebind (Inr x, st) f = f x st"
  by (simp_all add: ebind_def)

lemma sbind_cong [fundef_cong]:
  "r = r' \<Longrightarrow> (\<And>x. r' = Inr x \<Longrightarrow> f x = g x) \<Longrightarrow> sbind r f = sbind r' g"
  by (auto simp: sbind_def split: sum.splits)

lemma ebind_cong [fundef_cong]:
  "r = r' \<Longrightarrow> (\<And>x st. r' = (Inr x, st) \<Longrightarrow> f x st = g x st) \<Longrightarrow> ebind r f = ebind r' g"
  by (auto simp: ebind_def split: prod.splits sum.splits)

section \<open>Character classes\<close>

text \<open>The \<^verbatim>\<open>u8::is_ascii_*\<close> tests of the standard library.\<close>

definition is_ascii_lowercase :: "u8 \<Rightarrow> bool" where
  "is_ascii_lowercase c = (0x61 \<le> c \<and> c \<le> 0x7A)"

definition is_ascii_uppercase :: "u8 \<Rightarrow> bool" where
  "is_ascii_uppercase c = (0x41 \<le> c \<and> c \<le> 0x5A)"

definition is_ascii_alphabetic :: "u8 \<Rightarrow> bool" where
  "is_ascii_alphabetic c = (is_ascii_lowercase c \<or> is_ascii_uppercase c)"

definition is_ascii_digit :: "u8 \<Rightarrow> bool" where
  "is_ascii_digit c = (0x30 \<le> c \<and> c \<le> 0x39)"

definition is_ascii_alphanumeric :: "u8 \<Rightarrow> bool" where
  "is_ascii_alphanumeric c = (is_ascii_alphabetic c \<or> is_ascii_digit c)"

definition is_ascii_control :: "u8 \<Rightarrow> bool" where
  "is_ascii_control c = (c \<le> 0x1F \<or> c = 0x7F)"

definition is_ascii_graphic :: "u8 \<Rightarrow> bool" where
  "is_ascii_graphic c = (0x21 \<le> c \<and> c \<le> 0x7E)"

definition is_ascii_punctuation :: "u8 \<Rightarrow> bool" where
  "is_ascii_punctuation c = (is_ascii_graphic c \<and> \<not> is_ascii_alphanumeric c)"

definition is_ascii_hexdigit :: "u8 \<Rightarrow> bool" where
  "is_ascii_hexdigit c = (is_ascii_digit c \<or> (0x61 \<le> c \<and> c \<le> 0x66) \<or> (0x41 \<le> c \<and> c \<le> 0x46))"

definition to_ascii_lowercase :: "u8 \<Rightarrow> u8" where
  "to_ascii_lowercase c = (if is_ascii_uppercase c then c + 0x20 else c)"

definition match_class :: "u8 \<Rightarrow> u8 \<Rightarrow> bool" where
  "match_class c cl =
     (let lower = to_ascii_lowercase cl;
          signed = (\<lambda>res. if is_ascii_uppercase cl then \<not> res else res)
      in if lower = 0x61 then signed (is_ascii_alphabetic c)
         else if lower = 0x63 then signed (is_ascii_control c)
         else if lower = 0x64 then signed (is_ascii_digit c)
         else if lower = 0x67 then signed (is_ascii_graphic c)
         else if lower = 0x6C then signed (is_ascii_lowercase c)
         else if lower = 0x70 then signed (is_ascii_punctuation c)
         else if lower = 0x73 then signed (c = 0x20 \<or> (0x09 \<le> c \<and> c \<le> 0x0D))
         else if lower = 0x75 then signed (is_ascii_uppercase c)
         else if lower = 0x77 then signed (is_ascii_alphanumeric c)
         else if lower = 0x78 then signed (is_ascii_hexdigit c)
         else if lower = 0x7A then signed (c = 0)
         else cl = c)"

section \<open>Single items of a pattern\<close>

text \<open>
  \<^verbatim>\<open>class_end\<close>: the index behind the class, set or literal at \<open>p\<close>; the loop is the scan of a
  set for its closing bracket, whose first member may be a bracket.
\<close>

function class_end_loop :: "bytes \<Rightarrow> nat \<Rightarrow> pattern_stop + nat" where
  "class_end_loop pat p =
     (if length pat \<le> p then Inl (Fail Missing_Bracket)
      else let cc = pat ! p;
               q = (if cc = L_ESC \<and> p + 1 < length pat then p + 2 else p + 1)
           in if q < length pat \<and> pat ! q = 0x5D then Inr (q + 1) else class_end_loop pat q)"
  by pat_completeness auto
termination
  by (relation "measure (\<lambda>(pat, p). length pat - p)") auto

declare class_end_loop.simps [simp del]

definition class_end :: "bytes \<Rightarrow> nat \<Rightarrow> pattern_stop + nat" where
  "class_end pat p = sbind (byte_at pat p) (\<lambda>c.
     if c = L_ESC then (if length pat \<le> p + 1 then Inl (Fail Ends_With_Escape) else Inr (p + 2))
     else if c = 0x5B then
       class_end_loop pat (if get pat (p + 1) = Some 0x5E then p + 2 else p + 1)
     else Inr (p + 1))"

text \<open>
  \<^verbatim>\<open>match_bracket_class\<close>: \<open>range_at\<close> is the condition that the member at \<open>p\<close> is a range; the
  loop runs over the members up to the closing bracket at \<open>ec\<close>.
\<close>

definition range_at :: "bytes \<Rightarrow> nat \<Rightarrow> nat \<Rightarrow> pattern_stop + bool" where
  "range_at pat ec p =
     (if p + 2 < ec then sbind (byte_at pat (p + 1)) (\<lambda>b. Inr (b = 0x2D)) else Inr False)"

definition in_range_at :: "bytes \<Rightarrow> u8 \<Rightarrow> u8 \<Rightarrow> nat \<Rightarrow> pattern_stop + bool" where
  "in_range_at pat c b p =
     (if b \<le> c then sbind (byte_at pat (p + 2)) (\<lambda>hi. Inr (c \<le> hi)) else Inr False)"

function bracket_loop :: "bytes \<Rightarrow> u8 \<Rightarrow> bool \<Rightarrow> nat \<Rightarrow> nat \<Rightarrow> pattern_stop + bool" where
  "bracket_loop pat c sig ec p =
     (if p < ec then
        sbind (byte_at pat p) (\<lambda>b.
        if b = L_ESC then
          sbind (byte_at pat (p + 1)) (\<lambda>cl.
          if match_class c cl then Inr sig else bracket_loop pat c sig ec (p + 2))
        else sbind (range_at pat ec p) (\<lambda>is_range.
          if is_range then
            sbind (in_range_at pat c b p) (\<lambda>inside.
            if inside then Inr sig else bracket_loop pat c sig ec (p + 3))
          else if b = c then Inr sig else bracket_loop pat c sig ec (p + 1)))
      else Inr (\<not> sig))"
  by pat_completeness auto
termination
  by (relation "measure (\<lambda>(pat, c, sig, ec, p). ec - p)") auto

declare bracket_loop.simps [simp del]

definition match_bracket_class :: "bytes \<Rightarrow> u8 \<Rightarrow> nat \<Rightarrow> nat \<Rightarrow> pattern_stop + bool" where
  "match_bracket_class pat c p ec =
     (if get pat (p + 1) = Some 0x5E then bracket_loop pat c False ec (p + 2)
      else bracket_loop pat c True ec (p + 1))"

definition single_match :: "matcher \<Rightarrow> nat \<Rightarrow> nat \<Rightarrow> nat \<Rightarrow> pattern_stop + bool" where
  "single_match m s p ep =
     (case get (mt_src m) s of
        None \<Rightarrow> Inr False
      | Some c \<Rightarrow>
          sbind (byte_at (mt_pat m) p) (\<lambda>b.
          if b = 0x2E then Inr True
          else if b = L_ESC then sbind (byte_at (mt_pat m) (p + 1)) (\<lambda>cl. Inr (match_class c cl))
          else if b = 0x5B then match_bracket_class (mt_pat m) c p (ep - 1)
          else Inr (b = c)))"

section \<open>The step budget and the items with loops of their own\<close>

definition tick :: "matcher \<Rightarrow> matching \<Rightarrow> unit exec" where
  "tick m st =
     (let st1 = st\<lparr>mt_steps := mt_steps st + 1\<rparr>
      in if pl_max_steps (mt_limits m) < mt_steps st1 then (Inl (Fail Match_Too_Complex), st1)
         else (Inr (), st1))"

text \<open>\<^verbatim>\<open>match_balance\<close>: the loop keeps the number of open brackets in an \<^verbatim>\<open>i32\<close>.\<close>

function balance_loop :: "matcher \<Rightarrow> u8 \<Rightarrow> u8 \<Rightarrow> i32 \<Rightarrow> nat \<Rightarrow> matching \<Rightarrow> nat option exec" where
  "balance_loop m opn cls cont s st =
     (if s < length (mt_src m) then
        ebind (tick m st) (\<lambda>_ st1.
        if mt_src m ! s = cls then
          (if cont - 1 = 0 then (Inr (Some (s + 1)), st1)
           else balance_loop m opn cls (cont - 1) (s + 1) st1)
        else if mt_src m ! s = opn then balance_loop m opn cls (cont + 1) (s + 1) st1
        else balance_loop m opn cls cont (s + 1) st1)
      else (Inr None, st))"
  by pat_completeness auto
termination
  by (relation "measure (\<lambda>(m, x, y, cont, s, st). length (mt_src m) - s)") auto

declare balance_loop.simps [simp del]

definition match_balance :: "matcher \<Rightarrow> nat \<Rightarrow> nat \<Rightarrow> matching \<Rightarrow> nat option exec" where
  "match_balance m s p st =
     (let pat = mt_pat m
      in if length pat \<le> p + 1 then (Inl (Fail Missing_Balance_Arguments), st)
         else if get (mt_src m) s \<noteq> Some (pat ! p) then (Inr None, st)
         else balance_loop m (pat ! p) (pat ! (p + 1)) 1 (s + 1) st)"

text \<open>
  \<^verbatim>\<open>max_expand\<close> and \<^verbatim>\<open>min_expand\<close>; the recursive calls of \<^verbatim>\<open>do_match\<close> are the argument \<open>rec\<close> of these
  operations and of the ones below.
\<close>

function expand_count :: "matcher \<Rightarrow> nat \<Rightarrow> nat \<Rightarrow> nat \<Rightarrow> nat \<Rightarrow> matching \<Rightarrow> nat exec" where
  "expand_count m s p ep count st =
     (case single_match m (s + count) p ep of
        Inl e \<Rightarrow> (Inl e, st)
      | Inr b \<Rightarrow>
          if b then ebind (tick m st) (\<lambda>_ st1. expand_count m s p ep (count + 1) st1)
          else (Inr count, st))"
  by pat_completeness auto

lemma single_match_inside: "single_match m s p ep = Inr True \<Longrightarrow> s < length (mt_src m)"
  by (auto simp: single_match_def get_def split: if_splits)

termination expand_count
  by (relation "measure (\<lambda>(m, s, p, ep, count, st). length (mt_src m) - (s + count))")
    (auto dest!: single_match_inside)

declare expand_count.simps [simp del]

primrec back_off :: "continuation \<Rightarrow> nat \<Rightarrow> nat \<Rightarrow> nat \<Rightarrow> matching \<Rightarrow> nat option exec" where
  "back_off rec s ep 0 st = rec s (ep + 1) st"
| "back_off rec s ep (Suc count) st =
     ebind (rec (s + Suc count) (ep + 1) st) (\<lambda>res st1.
     case res of Some e \<Rightarrow> (Inr (Some e), st1) | None \<Rightarrow> back_off rec s ep count st1)"

definition max_expand :: "matcher \<Rightarrow> continuation \<Rightarrow> nat \<Rightarrow> nat \<Rightarrow> nat \<Rightarrow> matching \<Rightarrow> nat option exec" where
  "max_expand m rec s p ep st =
     ebind (expand_count m s p ep 0 st) (\<lambda>count st1. back_off rec s ep count st1)"

function min_expand :: "matcher \<Rightarrow> continuation \<Rightarrow> nat \<Rightarrow> nat \<Rightarrow> nat \<Rightarrow> matching \<Rightarrow> nat option exec" where
  "min_expand m rec s p ep st =
     ebind (rec s (ep + 1) st) (\<lambda>res st1.
     case res of
       Some e \<Rightarrow> (Inr (Some e), st1)
     | None \<Rightarrow>
         (case single_match m s p ep of
            Inl e \<Rightarrow> (Inl e, st1)
          | Inr b \<Rightarrow> if b then min_expand m rec (s + 1) p ep st1 else (Inr None, st1)))"
  by pat_completeness auto
termination
  by (relation "measure (\<lambda>(m, rec, s, p, ep, st). length (mt_src m) - s)")
    (auto dest!: single_match_inside)

declare min_expand.simps [simp del]

section \<open>Captures\<close>

definition start_capture :: "matcher \<Rightarrow> continuation \<Rightarrow> nat \<Rightarrow> nat \<Rightarrow> int \<Rightarrow> matching \<Rightarrow> nat option exec" where
  "start_capture m rec s p what st =
     (if pl_max_captures (mt_limits m) \<le> length (mt_caps st) then (Inl (Fail Too_Many_Captures), st)
      else ebind (rec s p (st\<lparr>mt_caps := mt_caps st @ [(s, what)]\<rparr>)) (\<lambda>res st1.
        (Inr res, if res = None then st1\<lparr>mt_caps := butlast (mt_caps st1)\<rparr> else st1)))"

text \<open>\<^verbatim>\<open>rposition\<close> of an unfinished capture: the index of the last one.\<close>

fun last_unfinished :: "(nat \<times> int) list \<Rightarrow> nat option" where
  "last_unfinished [] = None"
| "last_unfinished ((init, len) # caps) =
     (case last_unfinished caps of
        Some l \<Rightarrow> Some (Suc l)
      | None \<Rightarrow> if len = CAP_UNFINISHED then Some 0 else None)"

definition set_cap_len :: "nat \<Rightarrow> int \<Rightarrow> (nat \<times> int) list \<Rightarrow> (nat \<times> int) list" where
  "set_cap_len l len caps = caps[l := (fst (caps ! l), len)]"

definition end_capture :: "continuation \<Rightarrow> nat \<Rightarrow> nat \<Rightarrow> matching \<Rightarrow> nat option exec" where
  "end_capture rec s p st =
     (case last_unfinished (mt_caps st) of
        None \<Rightarrow> (Inl (Fail Invalid_Pattern_Capture), st)
      | Some l \<Rightarrow>
          ebind (rec s p (st\<lparr>mt_caps :=
            set_cap_len l (int s - int (fst (mt_caps st ! l))) (mt_caps st)\<rparr>)) (\<lambda>res st1.
          if res = None then
            (if l < length (mt_caps st1)
             then (Inr None, st1\<lparr>mt_caps := set_cap_len l CAP_UNFINISHED (mt_caps st1)\<rparr>)
             else (Inl Panic, st1))
          else (Inr res, st1)))"

text \<open>\<^verbatim>\<open>usize\<close> arithmetic at its width.\<close>

definition as_usize :: "int \<Rightarrow> int" where
  "as_usize i = i mod 2 ^ 64"

definition match_capture :: "matcher \<Rightarrow> (nat \<times> int) list \<Rightarrow> nat \<Rightarrow> nat \<Rightarrow> pattern_stop + nat option" where
  "match_capture m caps s idx =
     (if length caps \<le> idx \<or> snd (caps ! idx) = CAP_UNFINISHED then Inl (Fail Invalid_Capture_Index)
      else let src = mt_src m; start = fst (caps ! idx); len = as_usize (snd (caps ! idx))
           in if len \<le> as_usize (int (length src) - int s)
              then sbind (slice src start (nat (as_usize (int start + len)))) (\<lambda>old.
                   sbind (slice src s (nat (as_usize (int s + len)))) (\<lambda>new.
                   Inr (if old = new then Some (nat (as_usize (int s + len))) else None)))
              else Inr None)"

section \<open>The matcher\<close>

text \<open>\<^verbatim>\<open>%f\<close>: whether the frontier set at \<open>p\<close> excludes the byte before \<open>s\<close> and includes the one at \<open>s\<close>.\<close>

definition frontier :: "matcher \<Rightarrow> nat \<Rightarrow> nat \<Rightarrow> pattern_stop + nat option" where
  "frontier m s p =
     (if get (mt_pat m) p \<noteq> Some 0x5B then Inl (Fail Missing_Frontier_Set)
      else sbind (class_end (mt_pat m) p) (\<lambda>ep.
        sbind (if s = 0 then Inr 0 else byte_at (mt_src m) (s - 1)) (\<lambda>prev.
        sbind (match_bracket_class (mt_pat m) prev p (ep - 1)) (\<lambda>prev_in.
        if prev_in then Inr None
        else sbind (match_bracket_class (mt_pat m)
               (case get (mt_src m) s of Some c \<Rightarrow> c | None \<Rightarrow> 0) p (ep - 1)) (\<lambda>cur_in.
             Inr (if cur_in then Some ep else None))))))"

definition back_reference :: "matcher \<Rightarrow> (nat \<times> int) list \<Rightarrow> nat \<Rightarrow> nat \<Rightarrow> pattern_stop + nat option" where
  "back_reference m caps s p =
     (if mt_pat m ! (p + 1) = 0x30 then Inl (Fail Invalid_Capture_Index)
      else match_capture m caps s (unat (mt_pat m ! (p + 1) - 0x31)))"

definition next_is :: "matcher \<Rightarrow> nat \<Rightarrow> (u8 \<Rightarrow> bool) \<Rightarrow> bool" where
  "next_is m p P = (case get (mt_pat m) p of Some b \<Rightarrow> P b | None \<Rightarrow> False)"

lemma class_end_loop_bounds: "class_end_loop pat p = Inr ep \<Longrightarrow> p + 1 < ep \<and> ep \<le> length pat"
proof (induction pat p rule: class_end_loop.induct)
  case (1 pat p)
  define q where "q = (if pat ! p = L_ESC \<and> p + 1 < length pat then p + 2 else p + 1)"
  have inside: "p < length pat" using "1.prems" by (auto simp: class_end_loop.simps split: if_splits)
  have q: "p < q" by (simp add: q_def)
  have step: "class_end_loop pat p =
      (if q < length pat \<and> pat ! q = 0x5D then Inr (q + 1) else class_end_loop pat q)"
    using inside unfolding q_def by (subst class_end_loop.simps) (simp add: Let_def)
  show ?case
  proof (cases "q < length pat \<and> pat ! q = 0x5D")
    case True
    then show ?thesis using "1.prems" step q by auto
  next
    case False
    then have "q + 1 < ep \<and> ep \<le> length pat"
      using "1.IH" [OF _ refl q_def] inside "1.prems" step by auto
    then show ?thesis using q by simp
  qed
qed

lemma class_end_bounds: "class_end pat p = Inr ep \<Longrightarrow> p < ep \<and> ep \<le> length pat"
  by (auto simp: class_end_def byte_at_def sbind_def split: if_splits dest: class_end_loop_bounds)

lemma frontier_bounds: "frontier m s p = Inr (Some ep) \<Longrightarrow> p < ep \<and> ep \<le> length (mt_pat m)"
  by (auto simp: frontier_def sbind_def split: if_splits sum.splits dest: class_end_bounds)

function match_inner :: "matcher \<Rightarrow> continuation \<Rightarrow> nat \<Rightarrow> nat \<Rightarrow> matching \<Rightarrow> nat option exec" where
  "match_inner m rec s p st =
     (let pat = mt_pat m
      in if length pat \<le> p then (Inr (Some s), st)
         else if pat ! p = 0x28 then
           (if get pat (p + 1) = Some 0x29 then start_capture m rec s (p + 2) CAP_POSITION st
            else start_capture m rec s (p + 1) CAP_UNFINISHED st)
         else if pat ! p = 0x29 then end_capture rec s (p + 1) st
         else if pat ! p = 0x24 \<and> p + 1 = length pat then
           (Inr (if s = length (mt_src m) then Some s else None), st)
         else if pat ! p = L_ESC \<and> get pat (p + 1) = Some 0x62 then
           ebind (match_balance m s (p + 2) st) (\<lambda>res st1.
           case res of Some news \<Rightarrow> match_inner m rec news (p + 4) st1 | None \<Rightarrow> (Inr None, st1))
         else if pat ! p = L_ESC \<and> get pat (p + 1) = Some 0x66 then
           (case frontier m s (p + 2) of
              Inl e \<Rightarrow> (Inl e, st)
            | Inr None \<Rightarrow> (Inr None, st)
            | Inr (Some ep) \<Rightarrow> match_inner m rec s ep st)
         else if pat ! p = L_ESC \<and> next_is m (p + 1) is_ascii_digit then
           (case back_reference m (mt_caps st) s p of
              Inl e \<Rightarrow> (Inl e, st)
            | Inr None \<Rightarrow> (Inr None, st)
            | Inr (Some news) \<Rightarrow> match_inner m rec news (p + 2) st)
         else
           (case class_end pat p of
              Inl e \<Rightarrow> (Inl e, st)
            | Inr ep \<Rightarrow>
                (case single_match m s p ep of
                   Inl e \<Rightarrow> (Inl e, st)
                 | Inr b \<Rightarrow>
                     if b then
                       (if get pat ep = Some 0x3F then
                          ebind (rec (s + 1) (ep + 1) st) (\<lambda>res st1.
                          case res of
                            Some e \<Rightarrow> (Inr (Some e), st1)
                          | None \<Rightarrow> match_inner m rec s (ep + 1) st1)
                        else if get pat ep = Some 0x2B then max_expand m rec (s + 1) p ep st
                        else if get pat ep = Some 0x2A then max_expand m rec s p ep st
                        else if get pat ep = Some 0x2D then min_expand m rec s p ep st
                        else match_inner m rec (s + 1) ep st)
                     else if next_is m ep (\<lambda>q. q = 0x2A \<or> q = 0x3F \<or> q = 0x2D) then
                       match_inner m rec s (ep + 1) st
                     else (Inr None, st))))"
  by pat_completeness auto
termination
  by (relation "measure (\<lambda>(m, rec, s, p, st). length (mt_pat m) - p)")
    (auto dest: class_end_bounds frontier_bounds)

declare match_inner.simps [simp del]

text \<open>\<open>room\<close> is the number of levels that \<^verbatim>\<open>max_depth\<close> leaves.\<close>

primrec do_match :: "matcher \<Rightarrow> nat \<Rightarrow> continuation" where
  "do_match m 0 = (\<lambda>s p st. ebind (tick m st) (\<lambda>_ st1. (Inl (Fail Pattern_Too_Deep), st1)))"
| "do_match m (Suc room) = (\<lambda>s p st. ebind (tick m st) (\<lambda>_ st1. match_inner m (do_match m room) s p st1))"

fun collect_caps :: "(nat \<times> int) list \<Rightarrow> pattern_stop + capture list" where
  "collect_caps [] = Inr []"
| "collect_caps ((init, len) # caps) =
     (if len = CAP_UNFINISHED then Inl (Fail Unfinished_Capture)
      else sbind (collect_caps caps) (\<lambda>rest.
        Inr ((if len = CAP_POSITION then Cap_Position (init + 1) else Cap_Bytes init (nat (max len 0))) # rest)))"

section \<open>The entry points\<close>

definition matched :: "nat \<Rightarrow> nat \<Rightarrow> matching \<Rightarrow> match_result option exec" where
  "matched start e st =
     (case collect_caps (mt_caps st) of
        Inl x \<Rightarrow> (Inl x, st)
      | Inr caps \<Rightarrow> (Inr (Some \<lparr>mr_start = start, mr_end = e, mr_captures = caps\<rparr>), st))"

function find_loop :: "matcher \<Rightarrow> bool \<Rightarrow> nat \<Rightarrow> nat \<Rightarrow> matching \<Rightarrow> match_result option exec" where
  "find_loop m anchored pstart start st =
     ebind (do_match m (unat (pl_max_depth (mt_limits m))) start pstart (st\<lparr>mt_caps := []\<rparr>)) (\<lambda>res st1.
     case res of
       Some e \<Rightarrow> matched start e st1
     | None \<Rightarrow>
         if anchored \<or> length (mt_src m) \<le> start then (Inr None, st1)
         else find_loop m anchored pstart (start + 1) st1)"
  by pat_completeness auto
termination
  by (relation "measure (\<lambda>(m, anchored, pstart, start, st). length (mt_src m) - start)") auto

declare find_loop.simps [simp del]

definition anchored :: "bytes \<Rightarrow> bool" where
  "anchored pat = (get pat 0 = Some 0x5E)"

definition find_match :: "bytes \<Rightarrow> bytes \<Rightarrow> nat \<Rightarrow> u32 \<Rightarrow> pattern_limits \<Rightarrow> match_result option exec" where
  "find_match src pat init steps limits =
     find_loop \<lparr>mt_src = src, mt_pat = pat, mt_limits = limits\<rparr> (anchored pat)
       (if anchored pat then 1 else 0) (min init (length src)) \<lparr>mt_caps = [], mt_steps = steps\<rparr>"

definition match_at :: "bytes \<Rightarrow> bytes \<Rightarrow> nat \<Rightarrow> u32 \<Rightarrow> pattern_limits \<Rightarrow> match_result option exec" where
  "match_at src pat pos steps limits =
     ebind (do_match \<lparr>mt_src = src, mt_pat = pat, mt_limits = limits\<rparr> (unat (pl_max_depth limits))
       pos 0 \<lparr>mt_caps = [], mt_steps = steps\<rparr>) (\<lambda>res st1.
     case res of Some e \<Rightarrow> matched pos e st1 | None \<Rightarrow> (Inr None, st1))"

end
