(* ===== verification/Pattern_Spec.thy ===== *)
theory Pattern_Spec
  imports Pattern
begin

text \<open>
  What a pattern means, apart from how the matcher searches: \<open>pattern_step\<close> reads one item of
  the pattern from one configuration (pattern position, source position, captures) to a next one
  and is nondeterministic in how often a quantified item repeats; \<open>pattern_matches\<close> says that some
  choice of repetitions reaches the end of the pattern; \<open>pattern_prefers\<close> singles out the match
  in which every item repeats as the quantifiers prefer: \<^verbatim>\<open>*\<close>, \<^verbatim>\<open>+\<close> and \<^verbatim>\<open>?\<close> as often as a match
  allows, \<^verbatim>\<open>-\<close> as rarely as a match allows, decided from left to right. None of the three knows
  steps, depth or any other limit.
\<close>

section \<open>Items\<close>

text \<open>\<open>closes\<close>: a run that closes \<open>k\<close> open brackets and leaves none open, its last byte being the first to do so.\<close>

fun closes :: "u8 \<Rightarrow> u8 \<Rightarrow> nat \<Rightarrow> bytes \<Rightarrow> bool" where
  "closes opn cls k [] = (k = 0)"
| "closes opn cls k (b # bs) =
     (0 < k \<and> closes opn cls (if b = cls then k - 1 else if b = opn then k + 1 else k) bs)"

definition balanced_run :: "u8 \<Rightarrow> u8 \<Rightarrow> bytes \<Rightarrow> bool" where
  "balanced_run opn cls run = (\<exists>rest. run = opn # rest \<and> closes opn cls 1 rest)"

definition admits :: "u8 option \<Rightarrow> nat \<Rightarrow> bool" where
  "admits q k =
     (if q = Some 0x3F then k \<le> 1 else if q = Some 0x2A \<or> q = Some 0x2D then True
      else if q = Some 0x2B then 1 \<le> k else k = 1)"

definition quantified :: "u8 option \<Rightarrow> bool" where
  "quantified q \<longleftrightarrow> q \<in> {Some 0x3F, Some 0x2A, Some 0x2B, Some 0x2D}"

definition item_run :: "matcher \<Rightarrow> nat \<Rightarrow> nat \<Rightarrow> nat \<Rightarrow> nat \<Rightarrow> bool" where
  "item_run m p ep s k = (\<forall>i<k. single_match m (s + i) p ep = Inr True)"

text \<open>The positions of a pattern that are not a single class, set or literal.\<close>

definition escaped :: "matcher \<Rightarrow> nat \<Rightarrow> (u8 \<Rightarrow> bool) \<Rightarrow> bool" where
  "escaped m p P = (p < length (mt_pat m) \<and> mt_pat m ! p = L_ESC \<and> next_is m (p + 1) P)"

definition end_anchor :: "matcher \<Rightarrow> nat \<Rightarrow> bool" where
  "end_anchor m p = (mt_pat m ! p = 0x24 \<and> p + 1 = length (mt_pat m))"

definition plain_item :: "matcher \<Rightarrow> nat \<Rightarrow> bool" where
  "plain_item m p \<longleftrightarrow>
     p < length (mt_pat m) \<and> mt_pat m ! p \<noteq> 0x28 \<and> mt_pat m ! p \<noteq> 0x29 \<and> \<not> end_anchor m p \<and>
     \<not> escaped m p (\<lambda>b. b = 0x62 \<or> b = 0x66 \<or> is_ascii_digit b)"

section \<open>Steps and matches\<close>

inductive pattern_step ::
  "matcher \<Rightarrow> nat \<Rightarrow> nat \<Rightarrow> (nat \<times> int) list \<Rightarrow> nat \<Rightarrow> nat \<Rightarrow> nat \<Rightarrow> (nat \<times> int) list \<Rightarrow> bool" for m
where
  position_step:
    "p < length (mt_pat m) \<Longrightarrow> mt_pat m ! p = 0x28 \<Longrightarrow> get (mt_pat m) (p + 1) = Some 0x29 \<Longrightarrow>
     pattern_step m p s caps 0 (p + 2) s (caps @ [(s, CAP_POSITION)])"
| open_step:
    "p < length (mt_pat m) \<Longrightarrow> mt_pat m ! p = 0x28 \<Longrightarrow> get (mt_pat m) (p + 1) \<noteq> Some 0x29 \<Longrightarrow>
     pattern_step m p s caps 0 (p + 1) s (caps @ [(s, CAP_UNFINISHED)])"
| close_step:
    "p < length (mt_pat m) \<Longrightarrow> mt_pat m ! p = 0x29 \<Longrightarrow> last_unfinished caps = Some l \<Longrightarrow>
     pattern_step m p s caps 0 (p + 1) s (set_cap_len l (int s - int (fst (caps ! l))) caps)"
| balance_step:
    "escaped m p (\<lambda>b. b = 0x62) \<Longrightarrow> p + 3 < length (mt_pat m) \<Longrightarrow>
     s \<le> news \<Longrightarrow> news \<le> length (mt_src m) \<Longrightarrow>
     balanced_run (mt_pat m ! (p + 2)) (mt_pat m ! (p + 3)) (take (news - s) (drop s (mt_src m))) \<Longrightarrow>
     pattern_step m p s caps 0 (p + 4) news caps"
| frontier_step:
    "escaped m p (\<lambda>b. b = 0x66) \<Longrightarrow> frontier m s (p + 2) = Inr (Some ep) \<Longrightarrow>
     pattern_step m p s caps 0 ep s caps"
| reference_step:
    "escaped m p (\<lambda>b. is_ascii_digit b \<and> b \<noteq> 0x30) \<Longrightarrow>
     caps ! unat (mt_pat m ! (p + 1) - 0x31) = (start, int len) \<Longrightarrow>
     unat (mt_pat m ! (p + 1) - 0x31) < length caps \<Longrightarrow> s + len \<le> length (mt_src m) \<Longrightarrow>
     take len (drop start (mt_src m)) = take len (drop s (mt_src m)) \<Longrightarrow>
     pattern_step m p s caps 0 (p + 2) (s + len) caps"
| item_step:
    "plain_item m p \<Longrightarrow> class_end (mt_pat m) p = Inr ep \<Longrightarrow> admits (get (mt_pat m) ep) k \<Longrightarrow>
     item_run m p ep s k \<Longrightarrow>
     pattern_step m p s caps k (if quantified (get (mt_pat m) ep) then ep + 1 else ep) (s + k) caps"

definition accepting :: "matcher \<Rightarrow> nat \<Rightarrow> nat \<Rightarrow> bool" where
  "accepting m p s \<longleftrightarrow> length (mt_pat m) \<le> p \<or> end_anchor m p \<and> s = length (mt_src m)"

inductive pattern_matches ::
  "matcher \<Rightarrow> nat \<Rightarrow> nat \<Rightarrow> (nat \<times> int) list \<Rightarrow> nat \<Rightarrow> (nat \<times> int) list \<Rightarrow> bool" for m
where
  matches_end: "accepting m p s \<Longrightarrow> pattern_matches m p s caps s caps"
| matches_step:
    "pattern_step m p s caps k p' s' caps' \<Longrightarrow> pattern_matches m p' s' caps' e final \<Longrightarrow>
     pattern_matches m p s caps e final"

abbreviation matchable :: "matcher \<Rightarrow> nat \<Rightarrow> nat \<Rightarrow> (nat \<times> int) list \<Rightarrow> bool" where
  "matchable m p s caps \<equiv> (\<exists>e final. pattern_matches m p s caps e final)"

text \<open>Whether the item at \<open>p\<close> would rather repeat \<open>k'\<close> than \<open>k\<close> times.\<close>

definition rather :: "matcher \<Rightarrow> nat \<Rightarrow> nat \<Rightarrow> nat \<Rightarrow> bool" where
  "rather m p k' k =
     (case class_end (mt_pat m) p of
        Inr ep \<Rightarrow> if get (mt_pat m) ep = Some 0x2D then k' < k else k < k'
      | Inl _ \<Rightarrow> False)"

inductive pattern_prefers ::
  "matcher \<Rightarrow> nat \<Rightarrow> nat \<Rightarrow> (nat \<times> int) list \<Rightarrow> nat \<Rightarrow> (nat \<times> int) list \<Rightarrow> bool" for m
where
  prefers_end: "accepting m p s \<Longrightarrow> pattern_prefers m p s caps s caps"
| prefers_step:
    "pattern_step m p s caps k p' s' caps' \<Longrightarrow>
     (\<forall>j q t caps''. pattern_step m p s caps j q t caps'' \<longrightarrow> rather m p j k \<longrightarrow> \<not> matchable m q t caps'') \<Longrightarrow>
     pattern_prefers m p' s' caps' e final \<Longrightarrow>
     pattern_prefers m p s caps e final"

lemma prefers_matches: "pattern_prefers m p s caps e final \<Longrightarrow> pattern_matches m p s caps e final"
  by (induction rule: pattern_prefers.induct) (auto intro: pattern_matches.intros)

section \<open>One step at a time\<close>

lemma escaped_iff:
  "p < length (mt_pat m) \<Longrightarrow> escaped m p P \<longleftrightarrow> mt_pat m ! p = L_ESC \<and> next_is m (p + 1) P"
  by (simp add: escaped_def)

lemma step_not_accepting: "pattern_step m p s caps k p' s' caps' \<Longrightarrow> \<not> accepting m p s"
  by (induction rule: pattern_step.induct)
    (auto simp: accepting_def end_anchor_def escaped_def plain_item_def L_ESC_def)

lemma matches_accepting:
  "accepting m p s \<Longrightarrow> pattern_matches m p s caps e final \<longleftrightarrow> e = s \<and> final = caps"
  by (auto elim: pattern_matches.cases dest: step_not_accepting intro: matches_end)

lemma matches_iff_step:
  assumes "\<not> accepting m p s"
  shows "matchable m p s caps \<longleftrightarrow>
    (\<exists>k p' s' caps'. pattern_step m p s caps k p' s' caps' \<and> matchable m p' s' caps')"
proof
  assume "matchable m p s caps"
  then obtain e final where "pattern_matches m p s caps e final" by blast
  then show "\<exists>k p' s' caps'. pattern_step m p s caps k p' s' caps' \<and> matchable m p' s' caps'"
    using assms by cases blast+
qed (blast intro: matches_step)

definition only_step ::
  "matcher \<Rightarrow> nat \<Rightarrow> nat \<Rightarrow> (nat \<times> int) list \<Rightarrow> nat \<Rightarrow> nat \<Rightarrow> nat \<Rightarrow> (nat \<times> int) list \<Rightarrow> bool" where
  "only_step m p s caps k p' s' caps' \<longleftrightarrow>
     pattern_step m p s caps k p' s' caps' \<and>
     (\<forall>j q t caps''. pattern_step m p s caps j q t caps'' \<longrightarrow> j = k \<and> q = p' \<and> t = s' \<and> caps'' = caps')"

lemma rather_irrefl [simp]: "\<not> rather m p k k"
  by (simp add: rather_def split: sum.splits)

lemma only_step_matchable:
  "only_step m p s caps k p' s' caps' \<Longrightarrow> matchable m p s caps \<longleftrightarrow> matchable m p' s' caps'"
  unfolding only_step_def by (metis matches_iff_step step_not_accepting)

lemma only_step_prefers:
  assumes "only_step m p s caps k p' s' caps'" "pattern_prefers m p' s' caps' e final"
  shows "pattern_prefers m p s caps e final"
proof (rule prefers_step)
  show "pattern_step m p s caps k p' s' caps'" using assms(1) by (simp add: only_step_def)
  show "\<forall>j q t caps''. pattern_step m p s caps j q t caps'' \<longrightarrow> rather m p j k \<longrightarrow> \<not> matchable m q t caps''"
    using assms(1) unfolding only_step_def by (metis rather_irrefl)
qed (rule assms(2))

lemma no_step_unmatchable:
  "\<not> accepting m p s \<Longrightarrow> (\<And>k p' s' caps'. \<not> pattern_step m p s caps k p' s' caps') \<Longrightarrow> \<not> matchable m p s caps"
  by (simp add: matches_iff_step)

text \<open>What the steps are at each kind of position.\<close>

inductive_cases stepE: "pattern_step m p s caps k p' s' caps'"

lemmas step_facts = escaped_def plain_item_def end_anchor_def next_is_def L_ESC_def

lemma item_steps:
  assumes "plain_item m p" "class_end (mt_pat m) p = Inr ep"
  shows "pattern_step m p s caps k p' s' caps' \<longleftrightarrow>
    admits (get (mt_pat m) ep) k \<and> item_run m p ep s k \<and>
    p' = (if quantified (get (mt_pat m) ep) then ep + 1 else ep) \<and> s' = s + k \<and> caps' = caps"
proof
  assume "pattern_step m p s caps k p' s' caps'"
  then show "admits (get (mt_pat m) ep) k \<and> item_run m p ep s k \<and>
      p' = (if quantified (get (mt_pat m) ep) then ep + 1 else ep) \<and> s' = s + k \<and> caps' = caps"
    using assms by (elim stepE) (auto simp: step_facts split: option.splits)
qed (use item_step [OF assms] in simp)

lemma position_only_step:
  assumes "p < length (mt_pat m)" "mt_pat m ! p = 0x28" "get (mt_pat m) (p + 1) = Some 0x29"
  shows "only_step m p s caps 0 (p + 2) s (caps @ [(s, CAP_POSITION)])"
  using position_step [OF assms, of s caps] assms by (auto simp: only_step_def step_facts elim!: stepE)

lemma open_only_step:
  assumes "p < length (mt_pat m)" "mt_pat m ! p = 0x28" "get (mt_pat m) (p + 1) \<noteq> Some 0x29"
  shows "only_step m p s caps 0 (p + 1) s (caps @ [(s, CAP_UNFINISHED)])"
  using open_step [OF assms, of s caps] assms by (auto simp: only_step_def step_facts elim!: stepE)

lemma close_only_step:
  assumes "p < length (mt_pat m)" "mt_pat m ! p = 0x29" "last_unfinished caps = Some l"
  shows "only_step m p s caps 0 (p + 1) s (set_cap_len l (int s - int (fst (caps ! l))) caps)"
  using close_step [OF assms, of s] assms by (auto simp: only_step_def step_facts elim!: stepE)

lemma closes_unique:
  "closes opn cls k (take n bs) \<Longrightarrow> closes opn cls k (take n' bs) \<Longrightarrow>
   n \<le> length bs \<Longrightarrow> n' \<le> length bs \<Longrightarrow> n = n'"
proof (induction bs arbitrary: k n n')
  case (Cons b bs)
  show ?case
  proof (cases "n = 0 \<or> n' = 0")
    case True
    with Cons.prems show ?thesis by (cases n; cases n') auto
  next
    case False
    then obtain i j where "n = Suc i" "n' = Suc j" by (metis not0_implies_Suc)
    with Cons.prems Cons.IH [of _ i j] show ?thesis by auto
  qed
qed simp

lemma balanced_run_at:
  assumes "s \<le> length src"
  shows "balanced_run opn cls (take n (drop s src)) \<longleftrightarrow>
    get src s = Some opn \<and> 0 < n \<and> closes opn cls 1 (take (n - 1) (drop (s + 1) src))"
proof (cases "s < length src")
  case True
  then have "drop s src = src ! s # drop (s + 1) src" by (simp add: Cons_nth_drop_Suc)
  with True show ?thesis by (cases n) (auto simp: balanced_run_def get_def)
qed (simp add: balanced_run_def get_def)

lemma balance_steps:
  assumes "escaped m p (\<lambda>b. b = 0x62)" "p + 3 < length (mt_pat m)" "s \<le> length (mt_src m)"
  shows "pattern_step m p s caps k p' s' caps' \<longleftrightarrow>
    k = 0 \<and> p' = p + 4 \<and> caps' = caps \<and> s < s' \<and> s' \<le> length (mt_src m) \<and>
    get (mt_src m) s = Some (mt_pat m ! (p + 2)) \<and>
    closes (mt_pat m ! (p + 2)) (mt_pat m ! (p + 3)) 1 (take (s' - (s + 1)) (drop (s + 1) (mt_src m)))"
    (is "_ \<longleftrightarrow> ?rhs")
proof
  assume "pattern_step m p s caps k p' s' caps'"
  then show ?rhs
    using assms by (elim stepE) (auto simp: step_facts is_ascii_digit_def balanced_run_at split: option.splits)
next
  assume r: ?rhs
  then have "balanced_run (mt_pat m ! (p + 2)) (mt_pat m ! (p + 3)) (take (s' - s) (drop s (mt_src m)))"
    using assms(3) by (simp add: balanced_run_at)
  with r balance_step [OF assms(1,2), of s s' caps] show "pattern_step m p s caps k p' s' caps'"
    by simp
qed

lemma frontier_steps:
  assumes "escaped m p (\<lambda>b. b = 0x66)"
  shows "pattern_step m p s caps k p' s' caps' \<longleftrightarrow>
    k = 0 \<and> frontier m s (p + 2) = Inr (Some p') \<and> s' = s \<and> caps' = caps"
    (is "_ \<longleftrightarrow> ?rhs")
proof
  assume "pattern_step m p s caps k p' s' caps'"
  then show ?rhs
    using assms by (elim stepE) (auto simp: step_facts is_ascii_digit_def split: option.splits)
qed (use frontier_step [OF assms] in auto)

lemma reference_steps:
  assumes "escaped m p is_ascii_digit" "i = unat (mt_pat m ! (p + 1) - 0x31)"
  shows "pattern_step m p s caps k p' s' caps' \<longleftrightarrow>
    k = 0 \<and> p' = p + 2 \<and> caps' = caps \<and> mt_pat m ! (p + 1) \<noteq> 0x30 \<and> i < length caps \<and>
    s \<le> s' \<and> s' \<le> length (mt_src m) \<and> snd (caps ! i) = int (s' - s) \<and>
    take (s' - s) (drop (fst (caps ! i)) (mt_src m)) = take (s' - s) (drop s (mt_src m))"
    (is "_ \<longleftrightarrow> ?rhs")
proof
  assume "pattern_step m p s caps k p' s' caps'"
  then show ?rhs
    using assms by (elim stepE) (auto simp: step_facts is_ascii_digit_def get_def split: option.splits if_splits)
next
  assume r: ?rhs
  have "escaped m p (\<lambda>b. is_ascii_digit b \<and> b \<noteq> 0x30)"
    using assms r by (auto simp: escaped_def next_is_def get_def split: if_splits)
  from reference_step [OF this, of caps "fst (caps ! i)" "s' - s" s] r assms(2)
  show "pattern_step m p s caps k p' s' caps'" by (simp add: prod_eq_iff)
qed

end
