(* ===== verification/Pattern_Exact.thy ===== *)
theory Pattern_Exact
  imports Pattern_Spec
begin

text \<open>
  The matcher finds what \<open>Pattern_Spec\<close> defines. \<open>run_ok\<close> is the contract of every part of the
  matcher: from a sensible state it does not panic, it stays in its budget, a failed attempt
  gives the captures back as they were, and a successful one ends inside the source with captures
  inside what was matched. The locale \<open>exact_matcher\<close> is the contract \<open>do_match\<close> has for its
  callers, under which each operation is proved once; \<open>do_match\<close> at every depth is its instance.
\<close>

section \<open>The contract\<close>

abbreviation max_steps :: "matcher \<Rightarrow> u32" where
  "max_steps m \<equiv> pl_max_steps (mt_limits m)"

definition cap_in :: "nat \<Rightarrow> nat \<Rightarrow> nat \<times> int \<Rightarrow> bool" where
  "cap_in lo hi cap \<longleftrightarrow>
     lo \<le> fst cap \<and> fst cap \<le> hi \<and>
     (snd cap = CAP_UNFINISHED \<or> snd cap = CAP_POSITION \<or> 0 \<le> snd cap \<and> int (fst cap) + snd cap \<le> int hi)"

definition caps_in :: "nat \<Rightarrow> nat \<Rightarrow> (nat \<times> int) list \<Rightarrow> bool" where
  "caps_in lo hi caps = list_all (cap_in lo hi) caps"

definition sized :: "matcher \<Rightarrow> bool" where
  "sized m \<longleftrightarrow> length (mt_src m) < 2 ^ 63 \<and> max_steps m < - 1"

definition ready :: "matcher \<Rightarrow> nat \<Rightarrow> nat \<Rightarrow> matching \<Rightarrow> bool" where
  "ready m lo s st \<longleftrightarrow>
     sized m \<and> lo \<le> s \<and> s \<le> length (mt_src m) \<and> caps_in lo s (mt_caps st) \<and> mt_steps st \<le> max_steps m"

definition spends :: "matcher \<Rightarrow> matching \<Rightarrow> (pattern_stop + 'a) \<times> matching \<Rightarrow> bool" where
  "spends m st out \<longleftrightarrow>
     fst out \<noteq> Inl Panic \<and> mt_steps st \<le> mt_steps (snd out) \<and>
     (if fst out = Inl (Fail Match_Too_Complex) then mt_steps (snd out) = max_steps m + 1
      else mt_steps (snd out) \<le> max_steps m)"

definition run_ok ::
  "matcher \<Rightarrow> nat \<Rightarrow> nat \<Rightarrow> matching \<Rightarrow> bool \<Rightarrow> (nat \<Rightarrow> (nat \<times> int) list \<Rightarrow> bool) \<Rightarrow> nat option exec \<Rightarrow> bool" where
  "run_ok m lo s st N S out \<longleftrightarrow>
     spends m st out \<and>
     (fst out = Inr None \<longrightarrow> N \<and> mt_caps (snd out) = mt_caps st) \<and>
     (\<forall>e. fst out = Inr (Some e) \<longrightarrow>
        S e (mt_caps (snd out)) \<and> s \<le> e \<and> e \<le> length (mt_src m) \<and> caps_in lo e (mt_caps (snd out)))"

abbreviation exact :: "matcher \<Rightarrow> nat \<Rightarrow> nat \<Rightarrow> nat \<Rightarrow> matching \<Rightarrow> nat option exec \<Rightarrow> bool" where
  "exact m lo p s st out \<equiv>
     run_ok m lo s st (\<not> matchable m p s (mt_caps st)) (pattern_prefers m p s (mt_caps st)) out"

lemma spends_later: "spends m st1 out \<Longrightarrow> mt_steps st \<le> mt_steps st1 \<Longrightarrow> spends m st out"
  by (auto simp: spends_def)

lemma cap_in_mono: "cap_in lo hi cap \<Longrightarrow> hi \<le> hi' \<Longrightarrow> cap_in lo hi' cap"
  by (auto simp: cap_in_def)

lemma caps_in_mono: "caps_in lo hi caps \<Longrightarrow> hi \<le> hi' \<Longrightarrow> caps_in lo hi' caps"
  by (auto simp: caps_in_def list_all_iff intro: cap_in_mono)

lemma ready_mono: "ready m lo s st \<Longrightarrow> s \<le> s' \<Longrightarrow> s' \<le> length (mt_src m) \<Longrightarrow> ready m lo s' st"
  by (auto simp: ready_def intro: caps_in_mono)

lemma run_ok_mono:
  "run_ok m lo s st N S out \<Longrightarrow> (N \<Longrightarrow> N') \<Longrightarrow> (\<And>e c. S e c \<Longrightarrow> S' e c) \<Longrightarrow> run_ok m lo s st N' S' out"
  by (auto simp: run_ok_def)

text \<open>A run that goes on from a later state or position is a run from the earlier one.\<close>

lemma run_ok_later:
  assumes "run_ok m lo s' st1 N S out" "s \<le> s'" "mt_caps st1 = mt_caps st" "mt_steps st \<le> mt_steps st1"
  shows "run_ok m lo s st N S out"
  using assms by (auto simp: run_ok_def spends_def)

lemma run_ok_stop: "ready m lo s st \<Longrightarrow> N \<Longrightarrow> run_ok m lo s st N S (Inr None, st)"
  by (simp add: run_ok_def spends_def ready_def)

lemma run_ok_fail:
  "ready m lo s st \<Longrightarrow> e \<noteq> Panic \<Longrightarrow> e \<noteq> Fail Match_Too_Complex \<Longrightarrow> run_ok m lo s st N S (Inl e, st)"
  by (simp add: run_ok_def spends_def ready_def)

lemma run_ok_done: "ready m lo s st \<Longrightarrow> S s (mt_caps st) \<Longrightarrow> run_ok m lo s st N S (Inr (Some s), st)"
  by (simp add: run_ok_def spends_def ready_def)

text \<open>A second attempt after a failed first one.\<close>

lemma run_ok_orelse:
  assumes first: "run_ok m lo s' st N1 S out" and "s \<le> s'" "ready m lo s st"
    and second: "\<And>st1. N1 \<Longrightarrow> ready m lo s st1 \<Longrightarrow> mt_caps st1 = mt_caps st \<Longrightarrow> run_ok m lo s st1 N S (k st1)"
  shows "run_ok m lo s st N S
    (ebind out (\<lambda>res st1. case res of Some e \<Rightarrow> (Inr (Some e), st1) | None \<Rightarrow> k st1))"
proof -
  obtain r st1 where out: "out = (r, st1)" by (cases out)
  show ?thesis
  proof (cases "r = Inr None")
    case True
    then have *: "N1" "mt_caps st1 = mt_caps st" "mt_steps st \<le> mt_steps st1" "mt_steps st1 \<le> max_steps m"
      using first out by (auto simp: run_ok_def spends_def)
    then have "ready m lo s st1" using assms(3) by (simp add: ready_def)
    from run_ok_later [OF second [OF *(1) this *(2)] _ *(2,3)] show ?thesis
      using True out by simp
  next
    case False
    then have "ebind out (\<lambda>res st1. case res of Some e \<Rightarrow> (Inr (Some e), st1) | None \<Rightarrow> k st1) = out"
      by (auto simp: out ebind_def split: sum.splits option.splits)
    with first False out show ?thesis using \<open>s \<le> s'\<close>
      by (auto simp: run_ok_def)
  qed
qed

section \<open>The step budget\<close>

lemma tick_cases:
  assumes "sized m" "mt_steps st \<le> max_steps m"
  obtains (spent) st1 where "tick m st = (Inl (Fail Match_Too_Complex), st1)" "mt_caps st1 = mt_caps st"
      "mt_steps st \<le> mt_steps st1" "mt_steps st1 = max_steps m + 1"
  | (left) st1 where "tick m st = (Inr (), st1)" "mt_caps st1 = mt_caps st"
      "unat (mt_steps st1) = Suc (unat (mt_steps st))" "mt_steps st < mt_steps st1" "mt_steps st1 \<le> max_steps m"
proof -
  have "mt_steps st < - 1" using assms order.strict_trans1 by (auto simp: sized_def)
  then have "1 + mt_steps st \<noteq> 0" by (auto simp: add_eq_0_iff)
  then have unat_up: "unat (mt_steps st + 1) = Suc (unat (mt_steps st))" by (metis unatSuc add.commute)
  then have up: "mt_steps st < mt_steps st + 1" by (simp add: word_less_nat_alt)
  show ?thesis
  proof (cases "max_steps m < mt_steps st + 1")
    case True
    then have "mt_steps st = max_steps m" using assms(2) unat_up
      by (simp add: word_less_nat_alt word_le_nat_alt word_unat_eq_iff)
    then show ?thesis using spent [of "st\<lparr>mt_steps := mt_steps st + 1\<rparr>"] True up
      by (simp add: tick_def Let_def)
  next
    case False
    then show ?thesis using left [of "st\<lparr>mt_steps := mt_steps st + 1\<rparr>"] up unat_up
      by (simp add: tick_def Let_def)
  qed
qed

lemma run_ok_tick:
  assumes "ready m lo s st"
    and "\<And>st1. ready m lo s st1 \<Longrightarrow> mt_caps st1 = mt_caps st \<Longrightarrow> run_ok m lo s st1 N S (k st1)"
  shows "run_ok m lo s st N S (ebind (tick m st) (\<lambda>_ st1. k st1))"
proof -
  have "sized m" "mt_steps st \<le> max_steps m" using assms(1) by (simp_all add: ready_def)
  then show ?thesis
  proof (cases rule: tick_cases)
    case (spent st1)
    then show ?thesis by (simp add: run_ok_def spends_def)
  next
    case (left st1)
    then have "ready m lo s st1" using assms(1) by (simp add: ready_def)
    from run_ok_later [OF assms(2) [OF this left(2)] order_refl left(2)] left show ?thesis by simp
  qed
qed

section \<open>Single items do not panic\<close>

definition harmless :: "pattern_stop \<Rightarrow> bool" where
  "harmless e \<longleftrightarrow> e \<noteq> Panic \<and> e \<noteq> Fail Match_Too_Complex"

lemma harmless_simps [simp]: "\<not> harmless Panic" "harmless (Fail x) \<longleftrightarrow> x \<noteq> Match_Too_Complex"
  by (simp_all add: harmless_def)

lemma run_ok_harmless: "ready m lo s st \<Longrightarrow> harmless e \<Longrightarrow> run_ok m lo s st N S (Inl e, st)"
  by (simp add: run_ok_fail harmless_def)

lemma class_end_loop_harmless: "class_end_loop pat p = Inl e \<Longrightarrow> harmless e"
proof (induction pat p rule: class_end_loop.induct)
  case (1 pat p)
  define q where "q = (if pat ! p = L_ESC \<and> p + 1 < length pat then p + 2 else p + 1)"
  have "class_end_loop pat p =
      (if length pat \<le> p then Inl (Fail Missing_Bracket)
       else if q < length pat \<and> pat ! q = 0x5D then Inr (q + 1) else class_end_loop pat q)"
    unfolding q_def by (subst class_end_loop.simps) (simp add: Let_def)
  then show ?case using "1.prems" "1.IH" [OF _ refl q_def] by (auto split: if_splits)
qed

lemma class_end_harmless: "p < length pat \<Longrightarrow> class_end pat p = Inl e \<Longrightarrow> harmless e"
  by (auto simp: class_end_def byte_at_def split: if_splits dest: class_end_loop_harmless)

lemma bracket_loop_total: "ec < length pat \<Longrightarrow> \<exists>b. bracket_loop pat c sig ec p = Inr b"
proof (induction pat c sig ec p rule: bracket_loop.induct)
  case (1 pat c sig ec p)
  show ?case
  proof (cases "p < ec")
    case True
    then have in_pat: "p < length pat" "p + 1 < length pat" using "1.prems" by auto
    note IH = "1.IH" [OF True, of "pat ! p"]
    show ?thesis using True in_pat "1.prems" IH
      by (subst bracket_loop.simps) (auto simp: byte_at_def range_at_def in_range_at_def)
  qed (simp add: bracket_loop.simps)
qed

lemma match_bracket_class_total: "ec < length pat \<Longrightarrow> \<exists>b. match_bracket_class pat c p ec = Inr b"
  by (simp add: match_bracket_class_def bracket_loop_total)

lemma single_match_total:
  assumes "class_end (mt_pat m) p = Inr ep"
  shows "\<exists>b. single_match m s p ep = Inr b"
proof -
  have "p < length (mt_pat m)" "ep - 1 < length (mt_pat m)" using class_end_bounds [OF assms] by auto
  moreover have "mt_pat m ! p = L_ESC \<Longrightarrow> p + 1 < length (mt_pat m)"
    using assms by (auto simp: class_end_def byte_at_def split: if_splits)
  ultimately show ?thesis
    using match_bracket_class_total
    by (auto simp: single_match_def byte_at_def split: option.splits)
qed

lemma frontier_harmless:
  assumes "s \<le> length (mt_src m)" "frontier m s p = Inl e"
  shows "harmless e"
proof (cases "get (mt_pat m) p = Some 0x5B")
  case True
  then have p: "p < length (mt_pat m)" by (simp add: get_eq_Some)
  show ?thesis
  proof (cases "class_end (mt_pat m) p")
    case (Inl x)
    then show ?thesis using True assms(2) class_end_harmless [OF p Inl] by (simp add: frontier_def)
  next
    case (Inr ep)
    then have "ep - 1 < length (mt_pat m)" using class_end_bounds [OF Inr] by auto
    then have total: "\<exists>b. match_bracket_class (mt_pat m) c p (ep - 1) = Inr b" for c
      by (rule match_bracket_class_total)
    have "\<exists>prev. (if s = 0 then Inr 0 else byte_at (mt_src m) (s - 1)) = Inr prev"
      using assms(1) by (auto simp: byte_at_def)
    then obtain prev where prev: "(if s = 0 then Inr 0 else byte_at (mt_src m) (s - 1)) = Inr prev" ..
    obtain b where b: "match_bracket_class (mt_pat m) prev p (ep - 1) = Inr b" using total by blast
    obtain b' where b':
      "match_bracket_class (mt_pat m) (case get (mt_src m) s of Some c \<Rightarrow> c | None \<Rightarrow> 0) p (ep - 1) = Inr b'"
      using total by blast
    show ?thesis using assms(2) unfolding frontier_def prev
      by (simp add: True Inr b [simplified] b' [simplified] split: if_splits)
  qed
next
  case False
  then show ?thesis using assms(2) by (auto simp: frontier_def)
qed

section \<open>Back-references\<close>

lemma as_usize_small: "0 \<le> i \<Longrightarrow> i < 2 ^ 64 \<Longrightarrow> as_usize i = i"
  by (simp add: as_usize_def)

lemma match_capture_closed:
  assumes "i < length caps" "caps ! i = (start, int len)" "start + len \<le> s" "s \<le> length (mt_src m)"
    "length (mt_src m) < 2 ^ 63"
  shows "match_capture m caps s i =
    Inr (if s + len \<le> length (mt_src m) \<and>
           take len (drop start (mt_src m)) = take len (drop s (mt_src m)) then Some (s + len) else None)"
proof -
  have [simp]: "as_usize (int len) = int len" "as_usize (int start + int len) = int start + int len"
    "as_usize (int (length (mt_src m)) - int s) = int (length (mt_src m)) - int s"
    using assms by (simp_all add: as_usize_small)
  have "s + len \<le> length (mt_src m) \<Longrightarrow> as_usize (int s + int len) = int s + int len"
    using assms by (simp add: as_usize_small)
  then show ?thesis using assms
    by (auto simp: match_capture_def CAP_UNFINISHED_def Let_def slice_def nat_add_distrib)
qed

lemma match_capture_position:
  assumes "i < length caps" "snd (caps ! i) = CAP_POSITION" "s \<le> length (mt_src m)" "length (mt_src m) < 2 ^ 63"
  shows "match_capture m caps s i = Inr None"
proof -
  have "as_usize (int (length (mt_src m)) - int s) = int (length (mt_src m)) - int s"
    using assms by (simp add: as_usize_small)
  moreover have "as_usize CAP_POSITION = 2 ^ 64 - 2" by (simp add: as_usize_def CAP_POSITION_def)
  ultimately show ?thesis
    using assms by (simp add: match_capture_def CAP_UNFINISHED_def CAP_POSITION_def Let_def)
qed

lemma back_reference_cases:
  assumes "escaped m p is_ascii_digit" "caps_in lo s caps" "s \<le> length (mt_src m)" "length (mt_src m) < 2 ^ 63"
  shows "(\<exists>e. back_reference m caps s p = Inl e \<and> harmless e) \<or>
    back_reference m caps s p = Inr None \<and> (\<forall>k p' s' caps'. \<not> pattern_step m p s caps k p' s' caps') \<or>
    (\<exists>s'. back_reference m caps s p = Inr (Some s') \<and> only_step m p s caps 0 (p + 2) s' caps \<and>
       s \<le> s' \<and> s' \<le> length (mt_src m))"
proof -
  let ?i = "unat (mt_pat m ! (p + 1) - 0x31)"
  note steps = reference_steps [OF assms(1) refl]
  show ?thesis
  proof (cases "mt_pat m ! (p + 1) = 0x30 \<or> length caps \<le> ?i \<or> snd (caps ! ?i) = CAP_UNFINISHED")
    case True
    then show ?thesis by (auto simp: back_reference_def match_capture_def)
  next
    case False
    then have i: "?i < length caps" "mt_pat m ! (p + 1) \<noteq> 0x30" by auto
    then have cap: "cap_in lo s (caps ! ?i)" using assms(2) by (simp add: caps_in_def list_all_length)
    show ?thesis
    proof (cases "snd (caps ! ?i) = CAP_POSITION")
      case True
      then have "back_reference m caps s p = Inr None"
        using i match_capture_position [OF i(1) True assms(3,4)] by (simp add: back_reference_def)
      moreover have "\<not> pattern_step m p s caps k p' s' caps'" for k p' s' caps'
        using True by (simp add: steps CAP_POSITION_def)
      ultimately show ?thesis by blast
    next
      case closed: False
      define start len where "start = fst (caps ! ?i)" and "len = nat (snd (caps ! ?i))"
      have at: "caps ! ?i = (start, int len)" "start + len \<le> s"
        using cap closed False by (auto simp: cap_in_def start_def len_def prod_eq_iff)
      have r: "back_reference m caps s p =
          Inr (if s + len \<le> length (mt_src m) \<and>
            take len (drop start (mt_src m)) = take len (drop s (mt_src m)) then Some (s + len) else None)"
        using i match_capture_closed [OF i(1) at assms(3,4)] by (simp add: back_reference_def)
      show ?thesis
      proof (cases "s + len \<le> length (mt_src m) \<and> take len (drop start (mt_src m)) = take len (drop s (mt_src m))")
        case True
        then have "only_step m p s caps 0 (p + 2) (s + len) caps"
          unfolding only_step_def steps using i at by auto
        with True r show ?thesis by auto
      next
        case no: False
        then have "\<not> pattern_step m p s caps k p' s' caps'" for k p' s' caps'
          unfolding steps using i at by auto
        with no r show ?thesis by auto
      qed
    qed
  qed
qed

section \<open>Balanced runs\<close>

definition balance_ok :: "matcher \<Rightarrow> u8 \<Rightarrow> u8 \<Rightarrow> nat \<Rightarrow> nat \<Rightarrow> matching \<Rightarrow> nat option exec \<Rightarrow> bool" where
  "balance_ok m opn cls k s st out \<longleftrightarrow>
     spends m st out \<and> (\<forall>e. fst out = Inl e \<longrightarrow> e = Fail Match_Too_Complex) \<and>
     mt_caps (snd out) = mt_caps st \<and>
     (fst out = Inr None \<longrightarrow>
        (\<forall>n. n \<le> length (mt_src m) - s \<longrightarrow> \<not> closes opn cls k (take n (drop s (mt_src m))))) \<and>
     (\<forall>e. fst out = Inr (Some e) \<longrightarrow>
        s < e \<and> e \<le> length (mt_src m) \<and> closes opn cls k (take (e - s) (drop s (mt_src m))))"

text \<open>One byte of the scan: the run from the next byte on decides the run from this one.\<close>

lemma balance_ok_step:
  assumes "s < length (mt_src m)" "0 < k"
    and "balance_ok m opn cls (if mt_src m ! s = cls then k - 1 else if mt_src m ! s = opn then k + 1 else k) (s + 1) st1 out"
    and "mt_steps st \<le> mt_steps st1" "mt_caps st1 = mt_caps st"
  shows "balance_ok m opn cls k s st out"
proof -
  have drop: "drop s (mt_src m) = mt_src m ! s # drop (s + 1) (mt_src m)"
    using assms(1) by (simp add: Cons_nth_drop_Suc)
  have none: "\<not> closes opn cls k (take n (drop s (mt_src m)))"
    if "fst out = Inr None" "n \<le> length (mt_src m) - s" for n
  proof (cases n)
    case (Suc n')
    then have "n' \<le> length (mt_src m) - (s + 1)" using that(2) by simp
    with assms(3) that(1) show ?thesis by (simp add: balance_ok_def drop Suc)
  qed (use assms(2) in simp)
  have some: "closes opn cls k (take (e - s) (drop s (mt_src m)))"
    if "fst out = Inr (Some e)" for e
  proof -
    have "s + 1 < e" using assms(3) that by (simp add: balance_ok_def)
    then have "e - s = Suc (e - (s + 1))" by simp
    with assms(2,3) that show ?thesis by (simp add: balance_ok_def drop)
  qed
  have "spends m st out"
    using assms(3) [unfolded balance_ok_def, THEN conjunct1] assms(4) by (rule spends_later)
  moreover have "s < e \<and> e \<le> length (mt_src m)" if "fst out = Inr (Some e)" for e
    using assms(3) that by (simp add: balance_ok_def)
  ultimately show ?thesis using assms(3,5) none some by (simp add: balance_ok_def)
qed

lemma balance_loop_ok:
  assumes "sized m" "mt_steps st \<le> max_steps m" "0 < unat cont"
    and "unat cont + (unat (max_steps m) - unat (mt_steps st)) < 2 ^ 32"
  shows "balance_ok m opn cls (unat cont) s st (balance_loop m opn cls cont s st)"
  using assms
proof (induction "length (mt_src m) - s" arbitrary: s cont st rule: less_induct)
  case less
  show ?case
  proof (cases "s < length (mt_src m)")
    case False
    then show ?thesis using less.prems
      by (subst balance_loop.simps) (simp add: balance_ok_def spends_def)
  next
    case True
    let ?b = "mt_src m ! s"
    show ?thesis using less.prems(1,2)
    proof (cases rule: tick_cases)
      case (spent st1)
      then show ?thesis using True
        by (subst balance_loop.simps) (simp add: balance_ok_def spends_def)
    next
      case (left st1)
      have st1: "unat (mt_steps st1) = unat (mt_steps st) + 1" "unat (mt_steps st1) \<le> unat (max_steps m)"
        using left(3,5) by (simp_all add: word_le_nat_alt)
      have up: "unat (cont + 1) = unat cont + 1" and down: "unat (cont - 1) = unat cont - 1"
        using less.prems(3,4) st1 unat_sub [of 1 cont] by (simp_all add: unat_word_ariths word_le_nat_alt)
      define k' where "k' = (if ?b = cls then cont - 1 else if ?b = opn then cont + 1 else cont)"
      have k': "unat k' = (if ?b = cls then unat cont - 1 else if ?b = opn then unat cont + 1 else unat cont)"
        by (simp add: k'_def up down)
      show ?thesis
      proof (cases "?b = cls \<and> cont - 1 = 0")
        case now: True
        then have "unat cont = 1" using down less.prems(3) by simp
        moreover have "balance_loop m opn cls cont s st = (Inr (Some (s + 1)), st1)"
          using True left now by (subst balance_loop.simps) simp
        ultimately show ?thesis using True left now
          by (simp add: balance_ok_def spends_def take_Suc_conv_app_nth Cons_nth_drop_Suc [symmetric])
      next
        case on: False
        have "0 < unat k'"
        proof (cases "?b = cls")
          case True
          then have "k' \<noteq> 0" using on by (simp add: k'_def)
          then show ?thesis by (simp add: unat_gt_0)
        qed (use k' less.prems(3) in simp)
        moreover have "unat k' + (unat (max_steps m) - unat (mt_steps st1)) < 2 ^ 32"
          using k' less.prems(4) st1 by (auto split: if_splits)
        ultimately have "balance_ok m opn cls (unat k') (s + 1) st1 (balance_loop m opn cls k' (s + 1) st1)"
          using less.hyps [of "s + 1" st1 k'] True less.prems(1) left(5) by simp
        then have "balance_ok m opn cls (unat cont) s st (balance_loop m opn cls k' (s + 1) st1)"
          unfolding k' by (rule balance_ok_step [OF True less.prems(3)]) (use left in simp_all)
        moreover have "balance_loop m opn cls cont s st = balance_loop m opn cls k' (s + 1) st1"
          using True left on by (subst balance_loop.simps) (auto simp: k'_def)
        ultimately show ?thesis by simp
      qed
    qed
  qed
qed

end
