(* ===== verification/Pattern_Engine.thy ===== *)
theory Pattern_Engine
  imports Pattern_Exact
begin

text \<open>
  Every operation of the matcher meets its contract when its recursive calls do (locale
  \<open>exact_matcher\<close>), hence \<open>do_match\<close> does at every depth.
\<close>

section \<open>From one position to the next\<close>

lemma exact_step:
  assumes "only_step m p s (mt_caps st) k p' s' (mt_caps st)" "s \<le> s'"
    and "mt_caps st1 = mt_caps st" "mt_steps st \<le> mt_steps st1" "exact m lo p' s' st1 out"
  shows "exact m lo p s st out"
proof (rule run_ok_later [OF _ assms(2-4)], rule run_ok_mono [OF assms(5)])
  show "\<not> matchable m p s (mt_caps st)" if "\<not> matchable m p' s' (mt_caps st1)"
    using that only_step_matchable [OF assms(1)] assms(3) by simp
  show "pattern_prefers m p s (mt_caps st) e c" if "pattern_prefers m p' s' (mt_caps st1) e c" for e c
    using that only_step_prefers [OF assms(1)] assms(3) by simp
qed

lemma exact_stuck:
  assumes "ready m lo s st" "\<not> accepting m p s"
    and "\<And>k p' s' caps'. \<not> pattern_step m p s (mt_caps st) k p' s' caps'"
  shows "exact m lo p s st (Inr None, st)"
  by (rule run_ok_stop [OF assms(1)]) (rule no_step_unmatchable [OF assms(2,3)])

section \<open>Repeated items\<close>

lemma single_match_outside: "length (mt_src m) \<le> s \<Longrightarrow> single_match m s p ep = Inr False"
  by (simp add: single_match_def get_def)

lemma item_run_0 [simp]: "item_run m p ep s 0"
  by (simp add: item_run_def)

lemma item_run_Suc: "item_run m p ep s (Suc k) \<longleftrightarrow> item_run m p ep s k \<and> single_match m (s + k) p ep = Inr True"
  by (auto simp: item_run_def less_Suc_eq)

lemma item_run_front:
  "item_run m p ep s (Suc k) \<longleftrightarrow> single_match m s p ep = Inr True \<and> item_run m p ep (s + 1) k"
  unfolding item_run_def by (auto simp: All_less_Suc2)

lemma item_run_maximal:
  assumes "item_run m p ep s n" "single_match m (s + n) p ep = Inr False"
  shows "item_run m p ep s j \<longleftrightarrow> j \<le> n"
  using assms unfolding item_run_def
  by (metis Inr_inject leI less_le_trans)

lemma expand_count_cases:
  assumes "class_end (mt_pat m) p = Inr ep" "ready m lo s st" "item_run m p ep s count" "s + count \<le> length (mt_src m)"
  obtains (spent) st1 where "expand_count m s p ep count st = (Inl (Fail Match_Too_Complex), st1)"
      "mt_steps st \<le> mt_steps st1" "mt_steps st1 = max_steps m + 1"
  | (counted) n st1 where "expand_count m s p ep count st = (Inr n, st1)" "ready m lo s st1"
      "mt_caps st1 = mt_caps st" "mt_steps st \<le> mt_steps st1"
      "item_run m p ep s n" "single_match m (s + n) p ep = Inr False" "s + n \<le> length (mt_src m)"
  using assms(2-)
proof (induction "length (mt_src m) - (s + count)" arbitrary: count st thesis rule: less_induct)
  case less
  obtain b where b: "single_match m (s + count) p ep = Inr b" using single_match_total [OF assms(1)] by blast
  note unfold = expand_count.simps [of m s p ep count st]
  show thesis
  proof (cases b)
    case False
    then show thesis using less.prems(2) [of count st] less.prems(3-) b unfold by simp
  next
    case True
    then have in_src: "s + count < length (mt_src m)" using single_match_inside b by simp
    have "sized m" "mt_steps st \<le> max_steps m" using less.prems(3) by (simp_all add: ready_def)
    then show thesis
    proof (cases rule: tick_cases)
      case (spent st1)
      then show thesis using less.prems(1) b True unfold by simp
    next
      case (left st1)
      have next_run: "expand_count m s p ep count st = expand_count m s p ep (count + 1) st1"
        using b True unfold left by simp
      have "ready m lo s st1" using left less.prems(3) by (simp add: ready_def)
      moreover have "item_run m p ep s (count + 1)" using less.prems(4) b True by (simp add: item_run_Suc)
      ultimately show thesis
      proof (rule less.hyps [of "count + 1" st1, rotated 3])
        show "s + (count + 1) \<le> length (mt_src m)" "length (mt_src m) - (s + (count + 1)) < length (mt_src m) - (s + count)"
          using in_src by simp_all
      next
        fix st2 assume "expand_count m s p ep (count + 1) st1 = (Inl (Fail Match_Too_Complex), st2)"
          "mt_steps st1 \<le> mt_steps st2" "mt_steps st2 = max_steps m + 1"
        then show thesis using less.prems(1) [of st2] next_run left by auto
      next
        fix n st2 assume "expand_count m s p ep (count + 1) st1 = (Inr n, st2)" "ready m lo s st2"
          "mt_caps st2 = mt_caps st1" "mt_steps st1 \<le> mt_steps st2"
          "item_run m p ep s n" "single_match m (s + n) p ep = Inr False" "s + n \<le> length (mt_src m)"
        then show thesis using less.prems(2) [of n st2] next_run left by auto
      qed
    qed
  qed
qed

section \<open>Captures\<close>

lemma last_unfinished_at: "last_unfinished caps = Some l \<Longrightarrow> l < length caps \<and> snd (caps ! l) = CAP_UNFINISHED"
  by (induction caps arbitrary: l rule: last_unfinished.induct) (auto split: option.splits if_splits)

lemma caps_in_push:
  "caps_in lo s caps \<Longrightarrow> lo \<le> s \<Longrightarrow> what = CAP_POSITION \<or> what = CAP_UNFINISHED \<Longrightarrow> caps_in lo s (caps @ [(s, what)])"
  by (auto simp: caps_in_def cap_in_def)

lemma caps_in_close:
  assumes "caps_in lo s caps" "l < length caps"
  shows "caps_in lo s (set_cap_len l (int s - int (fst (caps ! l))) caps)"
proof -
  have "cap_in lo s (caps ! l)" using assms by (simp add: caps_in_def list_all_length)
  then have "cap_in lo s (fst (caps ! l), int s - int (fst (caps ! l)))" by (auto simp: cap_in_def)
  with assms show ?thesis by (auto simp: caps_in_def set_cap_len_def list_all_length nth_list_update)
qed

lemma set_cap_len_undo:
  "l < length caps \<Longrightarrow> snd (caps ! l) = len \<Longrightarrow> set_cap_len l len (set_cap_len l x caps) = caps"
  by (auto simp: set_cap_len_def list_update_overwrite intro: list_update_same_conv [THEN iffD2])

lemma run_ok_ebind:
  assumes "spends m st out"
    and "\<And>res st1. out = (Inr res, st1) \<Longrightarrow> run_ok m lo s st N S (k res st1)"
  shows "run_ok m lo s st N S (ebind out k)"
proof -
  obtain r st1 where out: "out = (r, st1)" by (cases out)
  show ?thesis
  proof (cases r)
    case (Inl e)
    then show ?thesis using assms(1) out by (auto simp: run_ok_def spends_def)
  next
    case (Inr res)
    then show ?thesis using assms(2) [of res st1] out by simp
  qed
qed

section \<open>Quantified items\<close>

abbreviation behind :: "matcher \<Rightarrow> nat \<Rightarrow> nat" where
  "behind m ep \<equiv> (if quantified (get (mt_pat m) ep) then ep + 1 else ep)"

lemma plain_not_accepting: "plain_item m p \<Longrightarrow> \<not> accepting m p s"
  by (simp add: plain_item_def accepting_def)

definition item_fails :: "matcher \<Rightarrow> nat \<Rightarrow> nat \<Rightarrow> nat \<Rightarrow> (nat \<times> int) list \<Rightarrow> bool" where
  "item_fails m p ep s caps \<longleftrightarrow>
     (\<forall>k. admits (get (mt_pat m) ep) k \<longrightarrow> item_run m p ep s k \<longrightarrow> \<not> matchable m (behind m ep) (s + k) caps)"

definition item_prefers ::
  "matcher \<Rightarrow> nat \<Rightarrow> nat \<Rightarrow> nat \<Rightarrow> (nat \<times> int) list \<Rightarrow> nat \<Rightarrow> (nat \<times> int) list \<Rightarrow> bool" where
  "item_prefers m p ep s caps e c \<longleftrightarrow>
     (\<exists>k. admits (get (mt_pat m) ep) k \<and> item_run m p ep s k \<and> pattern_prefers m (behind m ep) (s + k) caps e c \<and>
        (\<forall>j. admits (get (mt_pat m) ep) j \<longrightarrow> item_run m p ep s j \<longrightarrow> rather m p j k \<longrightarrow>
           \<not> matchable m (behind m ep) (s + j) caps))"

lemma item_exactI:
  assumes plain: "plain_item m p" "class_end (mt_pat m) p = Inr ep"
    and run: "run_ok m lo s st (item_fails m p ep s (mt_caps st)) (item_prefers m p ep s (mt_caps st)) out"
  shows "exact m lo p s st out"
proof (rule run_ok_mono [OF run])
  note steps = item_steps [OF plain, of s "mt_caps st"]
  show "\<not> matchable m p s (mt_caps st)" if "item_fails m p ep s (mt_caps st)"
    using that unfolding matches_iff_step [OF plain_not_accepting [OF plain(1)]] steps item_fails_def by blast
  show "pattern_prefers m p s (mt_caps st) e c" if best: "item_prefers m p ep s (mt_caps st) e c" for e c
  proof -
    from best obtain k where k: "admits (get (mt_pat m) ep) k" "item_run m p ep s k"
        "pattern_prefers m (behind m ep) (s + k) (mt_caps st) e c"
      and best: "\<forall>j. admits (get (mt_pat m) ep) j \<longrightarrow> item_run m p ep s j \<longrightarrow> rather m p j k \<longrightarrow>
           \<not> matchable m (behind m ep) (s + j) (mt_caps st)"
      unfolding item_prefers_def by blast
    show ?thesis
    proof (rule prefers_step)
      show "pattern_step m p s (mt_caps st) k (behind m ep) (s + k) (mt_caps st)" using k by (simp add: steps)
      show "\<forall>j q t caps. pattern_step m p s (mt_caps st) j q t caps \<longrightarrow> rather m p j k \<longrightarrow> \<not> matchable m q t caps"
        using best unfolding steps by blast
    qed (rule k(3))
  qed
qed

lemma plain_item_iff:
  assumes "p < length (mt_pat m)" "mt_pat m ! p \<noteq> 0x28" "mt_pat m ! p \<noteq> 0x29"
    "\<not> (mt_pat m ! p = 0x24 \<and> p + 1 = length (mt_pat m))"
    "\<not> (mt_pat m ! p = L_ESC \<and> get (mt_pat m) (p + 1) = Some 0x62)"
    "\<not> (mt_pat m ! p = L_ESC \<and> get (mt_pat m) (p + 1) = Some 0x66)"
    "\<not> (mt_pat m ! p = L_ESC \<and> next_is m (p + 1) is_ascii_digit)"
  shows "plain_item m p"
  using assms by (auto simp: plain_item_def end_anchor_def escaped_def next_is_def split: option.splits)

lemma plain_itemD:
  assumes "plain_item m p"
  shows "p < length (mt_pat m)" "mt_pat m ! p \<noteq> 0x28" "mt_pat m ! p \<noteq> 0x29"
    "mt_pat m ! p = 0x24 \<Longrightarrow> p + 1 \<noteq> length (mt_pat m)"
    "mt_pat m ! p = L_ESC \<Longrightarrow> get (mt_pat m) (p + 1) \<noteq> Some 0x62"
    "mt_pat m ! p = L_ESC \<Longrightarrow> get (mt_pat m) (p + 1) \<noteq> Some 0x66"
    "mt_pat m ! p = L_ESC \<Longrightarrow> \<not> next_is m (p + 1) is_ascii_digit"
  using assms by (auto simp: plain_item_def end_anchor_def escaped_def next_is_def split: option.splits)

lemma match_inner_item:
  assumes "plain_item m p"
  shows "match_inner m rec s p st =
    (case class_end (mt_pat m) p of
       Inl e \<Rightarrow> (Inl e, st)
     | Inr ep \<Rightarrow>
         (case single_match m s p ep of
            Inl e \<Rightarrow> (Inl e, st)
          | Inr b \<Rightarrow>
              if b then
                (if get (mt_pat m) ep = Some 0x3F then
                   ebind (rec (s + 1) (ep + 1) st) (\<lambda>res st1.
                   case res of Some e \<Rightarrow> (Inr (Some e), st1) | None \<Rightarrow> match_inner m rec s (ep + 1) st1)
                 else if get (mt_pat m) ep = Some 0x2B then max_expand m rec (s + 1) p ep st
                 else if get (mt_pat m) ep = Some 0x2A then max_expand m rec s p ep st
                 else if get (mt_pat m) ep = Some 0x2D then min_expand m rec s p ep st
                 else match_inner m rec (s + 1) ep st)
              else if next_is m ep (\<lambda>q. q = 0x2A \<or> q = 0x3F \<or> q = 0x2D) then match_inner m rec s (ep + 1) st
              else (Inr None, st)))"
proof -
  note d = plain_itemD [OF assms]
  have neg: "\<not> length (mt_pat m) \<le> p" "\<not> (mt_pat m ! p = 0x24 \<and> p + 1 = length (mt_pat m))"
    "\<not> (mt_pat m ! p = L_ESC \<and> get (mt_pat m) (p + 1) = Some 0x62)"
    "\<not> (mt_pat m ! p = L_ESC \<and> get (mt_pat m) (p + 1) = Some 0x66)"
    "\<not> (mt_pat m ! p = L_ESC \<and> next_is m (p + 1) is_ascii_digit)"
    using d by auto
  show ?thesis
    by (subst match_inner.simps) (simp only: Let_def neg d(2,3) if_False)
qed

lemma escaped_next: 
  "p < length (mt_pat m) \<Longrightarrow> mt_pat m ! p = L_ESC \<Longrightarrow> get (mt_pat m) (p + 1) = Some b \<Longrightarrow> escaped m p (\<lambda>c. c = b)"
  by (simp add: escaped_def next_is_def)

lemma not_accepting_escape: "escaped m p P \<Longrightarrow> \<not> accepting m p s"
  by (auto simp: accepting_def escaped_def end_anchor_def L_ESC_def)

section \<open>The operations under the contract of their recursive calls\<close>

locale exact_matcher =
  fixes m :: matcher and rec :: continuation
  assumes rec_exact: "ready m lo s st \<Longrightarrow> exact m lo p s st (rec s p st)"
begin

text \<open>Backing off tries the repetitions from the longest one down.\<close>

lemma back_off_ok:
  assumes "ready m lo s st" "s + count \<le> length (mt_src m)"
  shows "run_ok m lo s st
    (\<forall>j\<le>count. \<not> matchable m (ep + 1) (s + j) (mt_caps st))
    (\<lambda>e c. \<exists>j\<le>count. pattern_prefers m (ep + 1) (s + j) (mt_caps st) e c \<and>
       (\<forall>i. j < i \<longrightarrow> i \<le> count \<longrightarrow> \<not> matchable m (ep + 1) (s + i) (mt_caps st)))
    (back_off rec s ep count st)"
  using assms
proof (induction count arbitrary: st)
  case 0
  show ?case using run_ok_mono [OF rec_exact [OF "0.prems"(1), of "ep + 1"]] by simp
next
  case (Suc count)
  have "ready m lo (s + Suc count) st" using Suc.prems by (auto intro: ready_mono)
  note first = rec_exact [OF this, of "ep + 1"]
  show ?case
  proof (simp only: back_off.simps, rule run_ok_orelse [OF run_ok_mono [OF first]])
    fix st1
    assume none: "\<not> matchable m (ep + 1) (s + Suc count) (mt_caps st)"
      and st1: "ready m lo s st1" "mt_caps st1 = mt_caps st"
    have "s + count \<le> length (mt_src m)" using Suc.prems by simp
    note IH = Suc.IH [OF st1(1) this, unfolded st1(2)]
    show "run_ok m lo s st1
      (\<forall>j\<le>Suc count. \<not> matchable m (ep + 1) (s + j) (mt_caps st))
      (\<lambda>e c. \<exists>j\<le>Suc count. pattern_prefers m (ep + 1) (s + j) (mt_caps st) e c \<and>
         (\<forall>i. j < i \<longrightarrow> i \<le> Suc count \<longrightarrow> \<not> matchable m (ep + 1) (s + i) (mt_caps st)))
      (back_off rec s ep count st1)"
      by (rule run_ok_mono [OF IH]) (metis none le_Suc_eq)+
  qed (use Suc.prems in auto)
qed

lemma max_expand_ok:
  assumes "class_end (mt_pat m) p = Inr ep" "ready m lo s st"
  shows "run_ok m lo s st
    (\<forall>j. item_run m p ep s j \<longrightarrow> \<not> matchable m (ep + 1) (s + j) (mt_caps st))
    (\<lambda>e c. \<exists>j. item_run m p ep s j \<and> pattern_prefers m (ep + 1) (s + j) (mt_caps st) e c \<and>
       (\<forall>i. j < i \<longrightarrow> item_run m p ep s i \<longrightarrow> \<not> matchable m (ep + 1) (s + i) (mt_caps st)))
    (max_expand m rec s p ep st)"
proof -
  have "s + 0 \<le> length (mt_src m)" using assms(2) by (simp add: ready_def)
  from assms item_run_0 this show ?thesis
  proof (cases rule: expand_count_cases)
    case (spent st1)
    then show ?thesis by (simp add: max_expand_def run_ok_def spends_def)
  next
    case (counted n st1)
    note runs = item_run_maximal [OF counted(5,6)]
    have "max_expand m rec s p ep st = back_off rec s ep n st1" using counted(1) by (simp add: max_expand_def)
    then show ?thesis
      using run_ok_later [OF back_off_ok [OF counted(2,7), of ep] order_refl counted(3,4)]
      unfolding runs counted(3) by simp
  qed
qed

text \<open>Lazy repetition tries them from the shortest one up.\<close>

lemma min_expand_ok:
  assumes "class_end (mt_pat m) p = Inr ep" "ready m lo s st"
  shows "run_ok m lo s st
    (\<forall>j. item_run m p ep s j \<longrightarrow> \<not> matchable m (ep + 1) (s + j) (mt_caps st))
    (\<lambda>e c. \<exists>j. item_run m p ep s j \<and> pattern_prefers m (ep + 1) (s + j) (mt_caps st) e c \<and>
       (\<forall>i<j. \<not> matchable m (ep + 1) (s + i) (mt_caps st)))
    (min_expand m rec s p ep st)"
  using assms(2)
proof (induction "length (mt_src m) - s" arbitrary: s st rule: less_induct)
  case less
  let ?N = "\<lambda>s caps. \<forall>j. item_run m p ep s j \<longrightarrow> \<not> matchable m (ep + 1) (s + j) caps"
  let ?S = "\<lambda>s caps e c. \<exists>j. item_run m p ep s j \<and> pattern_prefers m (ep + 1) (s + j) caps e c \<and>
       (\<forall>i<j. \<not> matchable m (ep + 1) (s + i) caps)"
  obtain b where b: "single_match m s p ep = Inr b" using single_match_total [OF assms(1)] by blast
  have first: "run_ok m lo s st (\<not> matchable m (ep + 1) s (mt_caps st)) (?S s (mt_caps st)) (rec s (ep + 1) st)"
    by (rule run_ok_mono [OF rec_exact [OF less.prems]]) (use item_run_0 in force)+
  show ?case
  proof (subst min_expand.simps, rule run_ok_orelse [OF first order_refl less.prems])
    fix st1
    assume none: "\<not> matchable m (ep + 1) s (mt_caps st)"
      and st1: "ready m lo s st1" "mt_caps st1 = mt_caps st"
    show "run_ok m lo s st1 (?N s (mt_caps st)) (?S s (mt_caps st))
      (case single_match m s p ep of Inl e \<Rightarrow> (Inl e, st1)
       | Inr b \<Rightarrow> if b then min_expand m rec (s + 1) p ep st1 else (Inr None, st1))"
    proof (cases b)
      case False
      then have "item_run m p ep s j \<longleftrightarrow> j = 0" for j
        using b by (cases j) (auto simp: item_run_front)
      then show ?thesis using False b none run_ok_stop [OF st1(1)] by simp
    next
      case True
      then have in_src: "s < length (mt_src m)" using b single_match_inside by simp
      then have "ready m lo (s + 1) st1" using st1(1) by (auto intro: ready_mono)
      then have IH: "run_ok m lo (s + 1) st1 (?N (s + 1) (mt_caps st)) (?S (s + 1) (mt_caps st))
          (min_expand m rec (s + 1) p ep st1)"
        using less.hyps [of "s + 1" st1] in_src st1(2) by simp
      have "run_ok m lo (s + 1) st1 (?N s (mt_caps st)) (?S s (mt_caps st)) (min_expand m rec (s + 1) p ep st1)"
      proof (rule run_ok_mono [OF IH])
        assume N: "?N (s + 1) (mt_caps st)"
        show "?N s (mt_caps st)"
        proof (intro allI impI)
          fix j assume "item_run m p ep s j"
          then show "\<not> matchable m (ep + 1) (s + j) (mt_caps st)"
            using none N by (cases j) (auto simp: item_run_front)
        qed
      next
        fix e c assume "?S (s + 1) (mt_caps st) e c"
        then obtain j where "item_run m p ep (s + 1) j" "pattern_prefers m (ep + 1) (s + Suc j) (mt_caps st) e c"
          "\<forall>i<j. \<not> matchable m (ep + 1) (s + Suc i) (mt_caps st)" by auto
        then have "item_run m p ep s (Suc j) \<and> pattern_prefers m (ep + 1) (s + Suc j) (mt_caps st) e c \<and>
            (\<forall>i<Suc j. \<not> matchable m (ep + 1) (s + i) (mt_caps st))"
          using none True b by (auto simp: item_run_front All_less_Suc2)
        then show "?S s (mt_caps st) e c" by blast
      qed
      from run_ok_later [OF this] b True show ?thesis by simp
    qed
  qed
qed

lemma start_capture_ok:
  assumes "ready m lo s st" "what = CAP_POSITION \<or> what = CAP_UNFINISHED"
    and step: "only_step m p s (mt_caps st) 0 p' s (mt_caps st @ [(s, what)])"
  shows "exact m lo p s st (start_capture m rec s p' what st)"
proof (cases "pl_max_captures (mt_limits m) \<le> length (mt_caps st)")
  case True
  then show ?thesis using run_ok_harmless [OF assms(1)] by (simp add: start_capture_def)
next
  case False
  define st' where "st' = st\<lparr>mt_caps := mt_caps st @ [(s, what)]\<rparr>"
  have "ready m lo s st'" using assms(1,2) by (simp add: st'_def ready_def caps_in_push)
  note run = rec_exact [OF this, of p']
  have "spends m st (rec s p' st')" using run by (simp add: run_ok_def spends_def st'_def)
  then have "exact m lo p s st (ebind (rec s p' st') (\<lambda>res st1.
        (Inr res, if res = None then st1\<lparr>mt_caps := butlast (mt_caps st1)\<rparr> else st1)))"
  proof (rule run_ok_ebind)
    fix res st1 assume out: "rec s p' st' = (Inr res, st1)"
    show "exact m lo p s st (Inr res, if res = None then st1\<lparr>mt_caps := butlast (mt_caps st1)\<rparr> else st1)"
      using run only_step_matchable [OF step] only_step_prefers [OF step]
      unfolding out by (cases res) (auto simp: run_ok_def spends_def st'_def)
  qed
  then show ?thesis using False by (simp add: start_capture_def st'_def)
qed

lemma end_capture_ok:
  assumes "ready m lo s st" and at: "p < length (mt_pat m)" "mt_pat m ! p = 0x29"
  shows "exact m lo p s st (end_capture rec s (p + 1) st)"
proof (cases "last_unfinished (mt_caps st)")
  case None
  then show ?thesis using run_ok_harmless [OF assms(1)] by (simp add: end_capture_def)
next
  case (Some l)
  define st' where "st' = st\<lparr>mt_caps := set_cap_len l (int s - int (fst (mt_caps st ! l))) (mt_caps st)\<rparr>"
  note l = last_unfinished_at [OF Some]
  note step = close_only_step [OF at Some, of s]
  have "ready m lo s st'" using assms(1) l by (simp add: st'_def ready_def caps_in_close)
  note run = rec_exact [OF this, of "p + 1"]
  have len: "length (mt_caps st') = length (mt_caps st)" by (simp add: st'_def set_cap_len_def)
  have undo: "set_cap_len l CAP_UNFINISHED (mt_caps st') = mt_caps st"
    using l by (simp add: st'_def set_cap_len_undo)
  have "spends m st (rec s (p + 1) st')" using run by (simp add: run_ok_def spends_def st'_def)
  then have "exact m lo p s st (ebind (rec s (p + 1) st') (\<lambda>res st1.
      if res = None then
        (if l < length (mt_caps st1)
         then (Inr None, st1\<lparr>mt_caps := set_cap_len l CAP_UNFINISHED (mt_caps st1)\<rparr>)
         else (Inl Panic, st1))
      else (Inr res, st1)))"
  proof (rule run_ok_ebind)
    fix res st1 assume out: "rec s (p + 1) st' = (Inr res, st1)"
    have same: "mt_caps st1 = mt_caps st'" if "res = None" using run [unfolded out] that by (simp add: run_ok_def)
    show "exact m lo p s st (if res = None then
        (if l < length (mt_caps st1)
         then (Inr None, st1\<lparr>mt_caps := set_cap_len l CAP_UNFINISHED (mt_caps st1)\<rparr>)
         else (Inl Panic, st1))
      else (Inr res, st1))"
    proof (cases res)
      case None
      then show ?thesis using run only_step_matchable [OF step] same len undo l
        unfolding out by (simp add: run_ok_def spends_def st'_def [symmetric]) (simp add: st'_def)
    next
      case (Some e)
      then show ?thesis using run only_step_prefers [OF step]
        unfolding out by (auto simp: run_ok_def spends_def st'_def)
    qed
  qed
  then show ?thesis using Some by (simp add: end_capture_def st'_def)
qed

text \<open>
  The cases of \<open>match_inner\<close>. The loop goes on with a later pattern position, for which the
  contract holds by induction (\<open>IH\<close>).
\<close>

lemma balance_exact:
  assumes esc: "escaped m p (\<lambda>b. b = 0x62)" and r: "ready m lo s st"
    and IH: "\<And>s st. ready m lo s st \<Longrightarrow> exact m lo (p + 4) s st (match_inner m rec s (p + 4) st)"
  shows "exact m lo p s st (ebind (match_balance m s (p + 2) st) (\<lambda>res st1.
    case res of Some news \<Rightarrow> match_inner m rec news (p + 4) st1 | None \<Rightarrow> (Inr None, st1)))"
proof (cases "p + 3 < length (mt_pat m)")
  case False
  then show ?thesis using run_ok_harmless [OF r] by (simp add: match_balance_def)
next
  case True
  let ?o = "mt_pat m ! (p + 2)" and ?c = "mt_pat m ! (p + 3)"
  have s: "s \<le> length (mt_src m)" using r by (simp add: ready_def)
  note steps = balance_steps [OF esc True s, of "mt_caps st"]
  show ?thesis
  proof (cases "get (mt_src m) s = Some ?o")
    case False
    then have "exact m lo p s st (Inr None, st)"
      using exact_stuck [OF r not_accepting_escape [OF esc]] steps by blast
    then show ?thesis using True False by (simp add: match_balance_def)
  next
    case at_open: True
    have sz: "sized m" "mt_steps st \<le> max_steps m" using r by (simp_all add: ready_def)
    have "unat (max_steps m) < 2 ^ 32 - 1"
      using sz(1) by (simp add: sized_def word_less_nat_alt unsigned_minus_1_eq_mask mask_eq_exp_minus_1)
    then have "unat (1 :: i32) + (unat (max_steps m) - unat (mt_steps st)) < 2 ^ 32" by simp
    from balance_loop_ok [OF sz _ this, of ?o ?c "s + 1"]
    have ok: "balance_ok m ?o ?c 1 (s + 1) st (balance_loop m ?o ?c 1 (s + 1) st)" by simp
    have eq: "match_balance m s (p + 2) st = balance_loop m ?o ?c 1 (s + 1) st"
      using True at_open by (simp add: match_balance_def Let_def numeral_3_eq_3)
    show ?thesis unfolding eq
    proof (rule run_ok_ebind)
      show "spends m st (balance_loop m ?o ?c 1 (s + 1) st)" using ok by (simp add: balance_ok_def)
      fix res st1 assume out: "balance_loop m ?o ?c 1 (s + 1) st = (Inr res, st1)"
      note ok1 = ok [unfolded out]
      have st1: "mt_caps st1 = mt_caps st" "mt_steps st \<le> mt_steps st1" "ready m lo s st1"
        using ok1 r by (simp_all add: balance_ok_def spends_def ready_def)
      show "exact m lo p s st
          (case res of Some news \<Rightarrow> match_inner m rec news (p + 4) st1 | None \<Rightarrow> (Inr None, st1))"
      proof (cases res)
        case None
        have "\<not> closes ?o ?c 1 (take (s' - (s + 1)) (drop (s + 1) (mt_src m)))" if "s' \<le> length (mt_src m)" for s'
          using ok1 None that by (simp add: balance_ok_def)
        then have stuck: "\<not> pattern_step m p s (mt_caps st1) k p' s' caps'" for k p' s' caps'
          using steps st1(1) by auto
        from exact_stuck [OF st1(3) not_accepting_escape [OF esc] stuck]
        have "run_ok m lo s st1 (\<not> matchable m p s (mt_caps st)) (pattern_prefers m p s (mt_caps st)) (Inr None, st1)"
          by (simp add: st1(1))
        from run_ok_later [OF this order_refl st1(1,2)] None show ?thesis by simp
      next
        case (Some news)
        have news: "s + 1 < news" "news \<le> length (mt_src m)" "closes ?o ?c 1 (take (news - (s + 1)) (drop (s + 1) (mt_src m)))"
          using ok1 Some by (simp_all add: balance_ok_def)
        have unique: "t = news" if t: "s < t" "t \<le> length (mt_src m)"
          "closes ?o ?c 1 (take (t - (s + 1)) (drop (s + 1) (mt_src m)))" for t
        proof -
          have "t - (s + 1) = news - (s + 1)"
            by (rule closes_unique [OF t(3) news(3)]) (use t(2) news(2) in simp_all)
          then show ?thesis using t(1) news(1) by simp
        qed
        have "only_step m p s (mt_caps st) 0 (p + 4) news (mt_caps st)"
          unfolding only_step_def steps using at_open news unique by auto
        moreover have "ready m lo news st1" using ready_mono [OF st1(3)] news by simp
        ultimately show ?thesis using exact_step [OF _ _ st1(1,2) IH] news Some by simp
      qed
    qed
  qed
qed

lemma frontier_exact:
  assumes esc: "escaped m p (\<lambda>b. b = 0x66)" and r: "ready m lo s st"
    and IH: "\<And>ep. p < ep \<Longrightarrow> exact m lo ep s st (match_inner m rec s ep st)"
  shows "exact m lo p s st (case frontier m s (p + 2) of
      Inl e \<Rightarrow> (Inl e, st) | Inr None \<Rightarrow> (Inr None, st) | Inr (Some ep) \<Rightarrow> match_inner m rec s ep st)"
proof (cases "frontier m s (p + 2)")
  case (Inl e)
  then show ?thesis using run_ok_harmless [OF r] frontier_harmless [OF _ Inl] r by (simp add: ready_def)
next
  case (Inr res)
  note steps = frontier_steps [OF esc, of s "mt_caps st"]
  show ?thesis
  proof (cases res)
    case None
    then have "\<not> pattern_step m p s (mt_caps st) k p' s' caps'" for k p' s' caps' using Inr steps by simp
    from exact_stuck [OF r not_accepting_escape [OF esc] this] None Inr show ?thesis by simp
  next
    case (Some ep)
    then have "only_step m p s (mt_caps st) 0 ep s (mt_caps st)" using Inr steps by (simp add: only_step_def)
    from exact_step [OF this order_refl refl order_refl IH] Some Inr frontier_bounds [of m s "p + 2" ep]
    show ?thesis by simp
  qed
qed

lemma reference_exact:
  assumes esc: "escaped m p is_ascii_digit" and r: "ready m lo s st"
    and IH: "\<And>s. ready m lo s st \<Longrightarrow> exact m lo (p + 2) s st (match_inner m rec s (p + 2) st)"
  shows "exact m lo p s st (case back_reference m (mt_caps st) s p of
      Inl e \<Rightarrow> (Inl e, st) | Inr None \<Rightarrow> (Inr None, st) | Inr (Some news) \<Rightarrow> match_inner m rec news (p + 2) st)"
proof -
  have "caps_in lo s (mt_caps st)" "s \<le> length (mt_src m)" "length (mt_src m) < 2 ^ 63"
    using r by (simp_all add: ready_def sized_def)
  from back_reference_cases [OF esc this]
  consider e where "back_reference m (mt_caps st) s p = Inl e" "harmless e"
    | "back_reference m (mt_caps st) s p = Inr None" "\<forall>k p' s' caps'. \<not> pattern_step m p s (mt_caps st) k p' s' caps'"
    | s' where "back_reference m (mt_caps st) s p = Inr (Some s')" "only_step m p s (mt_caps st) 0 (p + 2) s' (mt_caps st)"
        "s \<le> s'" "s' \<le> length (mt_src m)"
    by blast
  then show ?thesis
  proof cases
    case 1
    then show ?thesis using run_ok_harmless [OF r] by simp
  next
    case 2
    then show ?thesis using exact_stuck [OF r not_accepting_escape [OF esc]] by simp
  next
    case 3
    then show ?thesis using exact_step [OF 3(2,3) refl order_refl IH [OF ready_mono [OF r 3(3,4)]]] by simp
  qed
qed

text \<open>A single class, set or literal with its quantifier.\<close>

lemma opt_exact:
  assumes plain: "plain_item m p" "class_end (mt_pat m) p = Inr ep" and r: "ready m lo s st"
    and IH: "\<And>st. ready m lo s st \<Longrightarrow> exact m lo (ep + 1) s st (match_inner m rec s (ep + 1) st)"
    and b: "single_match m s p ep = Inr True" and q: "get (mt_pat m) ep = Some 0x3F"
  shows "exact m lo p s st (ebind (rec (s + 1) (ep + 1) st) (\<lambda>res st1.
    case res of Some e \<Rightarrow> (Inr (Some e), st1) | None \<Rightarrow> match_inner m rec s (ep + 1) st1))"
proof (rule item_exactI [OF plain])
  have s1: "ready m lo (s + 1) st" using ready_mono [OF r, of "s + 1"] single_match_inside [OF b] by simp
  have choices: "admits (Some 0x3F) k \<longleftrightarrow> k = 0 \<or> k = 1" "quantified (Some 0x3F)" for k
    by (auto simp: admits_def quantified_def)
  have one: "item_run m p ep s 1" using b by (simp add: item_run_def)
  have fails: "item_fails m p ep s caps \<longleftrightarrow> \<not> matchable m (ep + 1) s caps \<and> \<not> matchable m (ep + 1) (s + 1) caps" for caps
    using one by (auto simp: item_fails_def q choices)
  have prefers: "item_prefers m p ep s caps e c \<longleftrightarrow> pattern_prefers m (ep + 1) (s + 1) caps e c \<or>
      pattern_prefers m (ep + 1) s caps e c \<and> \<not> matchable m (ep + 1) (s + 1) caps" for caps e c
    using one by (auto simp: item_prefers_def q choices rather_def plain(2))
  show "run_ok m lo s st (item_fails m p ep s (mt_caps st)) (item_prefers m p ep s (mt_caps st))
      (ebind (rec (s + 1) (ep + 1) st) (\<lambda>res st1.
       case res of Some e \<Rightarrow> (Inr (Some e), st1) | None \<Rightarrow> match_inner m rec s (ep + 1) st1))"
  proof (rule run_ok_orelse [OF run_ok_mono [OF rec_exact [OF s1]]])
    fix st1 assume none: "\<not> matchable m (ep + 1) (s + 1) (mt_caps st)" and st1: "ready m lo s st1" "mt_caps st1 = mt_caps st"
    show "run_ok m lo s st1 (item_fails m p ep s (mt_caps st)) (item_prefers m p ep s (mt_caps st))
        (match_inner m rec s (ep + 1) st1)"
      using none st1(2) by (intro run_ok_mono [OF IH [OF st1(1)]]) (simp_all add: fails prefers)
  qed (use r prefers in auto)
qed

lemma plus_exact:
  assumes plain: "plain_item m p" "class_end (mt_pat m) p = Inr ep" and r: "ready m lo s st"
    and b: "single_match m s p ep = Inr True" and q: "get (mt_pat m) ep = Some 0x2B"
  shows "exact m lo p s st (max_expand m rec (s + 1) p ep st)"
proof (rule item_exactI [OF plain], rule run_ok_later [OF run_ok_mono [OF max_expand_ok [OF plain(2)]]])
  show "ready m lo (s + 1) st" using ready_mono [OF r, of "s + 1"] single_match_inside [OF b] by simp
  have choices: "admits (Some 0x2B) k \<longleftrightarrow> (\<exists>j. k = Suc j)" "quantified (Some 0x2B)" for k
    by (auto simp: admits_def quantified_def Suc_le_eq gr0_conv_Suc)
  have runs: "item_run m p ep s (Suc j) \<longleftrightarrow> item_run m p ep (s + 1) j" for j by (simp add: item_run_front b)
  show "item_fails m p ep s (mt_caps st)"
    if "\<forall>j. item_run m p ep (s + 1) j \<longrightarrow> \<not> matchable m (ep + 1) (s + 1 + j) (mt_caps st)"
    using that by (auto simp: item_fails_def q choices runs)
  show "item_prefers m p ep s (mt_caps st) e c"
    if "\<exists>j. item_run m p ep (s + 1) j \<and> pattern_prefers m (ep + 1) (s + 1 + j) (mt_caps st) e c \<and>
       (\<forall>i. j < i \<longrightarrow> item_run m p ep (s + 1) i \<longrightarrow> \<not> matchable m (ep + 1) (s + 1 + i) (mt_caps st))" for e c
  proof -
    from that obtain j where "item_run m p ep s (Suc j)" "pattern_prefers m (ep + 1) (s + Suc j) (mt_caps st) e c"
      "\<forall>i. j < i \<longrightarrow> item_run m p ep s (Suc i) \<longrightarrow> \<not> matchable m (ep + 1) (s + Suc i) (mt_caps st)"
      unfolding runs by auto
    then show ?thesis
      unfolding item_prefers_def by (intro exI [of _ "Suc j"]) (auto simp: q choices rather_def plain(2))
  qed
qed simp_all

lemma star_exact:
  assumes plain: "plain_item m p" "class_end (mt_pat m) p = Inr ep" and r: "ready m lo s st"
    and q: "get (mt_pat m) ep = Some 0x2A"
  shows "exact m lo p s st (max_expand m rec s p ep st)"
proof (rule item_exactI [OF plain], rule run_ok_mono [OF max_expand_ok [OF plain(2) r]])
  have choices: "admits (Some 0x2A) k" "quantified (Some 0x2A)" for k
    by (auto simp: admits_def quantified_def)
  note defs = item_fails_def item_prefers_def q choices rather_def plain(2)
  show "item_fails m p ep s (mt_caps st)"
    if "\<forall>j. item_run m p ep s j \<longrightarrow> \<not> matchable m (ep + 1) (s + j) (mt_caps st)"
    using that by (simp add: defs)
  show "item_prefers m p ep s (mt_caps st) e c"
    if "\<exists>j. item_run m p ep s j \<and> pattern_prefers m (ep + 1) (s + j) (mt_caps st) e c \<and>
       (\<forall>i. j < i \<longrightarrow> item_run m p ep s i \<longrightarrow> \<not> matchable m (ep + 1) (s + i) (mt_caps st))" for e c
    using that by (simp add: defs) blast
qed

lemma lazy_exact:
  assumes plain: "plain_item m p" "class_end (mt_pat m) p = Inr ep" and r: "ready m lo s st"
    and q: "get (mt_pat m) ep = Some 0x2D"
  shows "exact m lo p s st (min_expand m rec s p ep st)"
proof (rule item_exactI [OF plain], rule run_ok_mono [OF min_expand_ok [OF plain(2) r]])
  have choices: "admits (Some 0x2D) k" "quantified (Some 0x2D)" for k
    by (auto simp: admits_def quantified_def)
  note defs = item_fails_def item_prefers_def q choices rather_def plain(2)
  show "item_fails m p ep s (mt_caps st)"
    if "\<forall>j. item_run m p ep s j \<longrightarrow> \<not> matchable m (ep + 1) (s + j) (mt_caps st)"
    using that by (simp add: defs)
  show "item_prefers m p ep s (mt_caps st) e c"
    if "\<exists>j. item_run m p ep s j \<and> pattern_prefers m (ep + 1) (s + j) (mt_caps st) e c \<and>
       (\<forall>i<j. \<not> matchable m (ep + 1) (s + i) (mt_caps st))" for e c
    using that by (simp add: defs) blast
qed

lemma item_exact:
  assumes plain: "plain_item m p" "class_end (mt_pat m) p = Inr ep" and r: "ready m lo s st"
    and IH: "\<And>p' s st. p < p' \<Longrightarrow> ready m lo s st \<Longrightarrow> exact m lo p' s st (match_inner m rec s p' st)"
  shows "exact m lo p s st
    (case single_match m s p ep of
       Inl e \<Rightarrow> (Inl e, st)
     | Inr b \<Rightarrow>
         if b then
           (if get (mt_pat m) ep = Some 0x3F then
              ebind (rec (s + 1) (ep + 1) st) (\<lambda>res st1.
              case res of Some e \<Rightarrow> (Inr (Some e), st1) | None \<Rightarrow> match_inner m rec s (ep + 1) st1)
            else if get (mt_pat m) ep = Some 0x2B then max_expand m rec (s + 1) p ep st
            else if get (mt_pat m) ep = Some 0x2A then max_expand m rec s p ep st
            else if get (mt_pat m) ep = Some 0x2D then min_expand m rec s p ep st
            else match_inner m rec (s + 1) ep st)
         else if next_is m ep (\<lambda>q. q = 0x2A \<or> q = 0x3F \<or> q = 0x2D) then match_inner m rec s (ep + 1) st
         else (Inr None, st))"
proof -
  have ep: "p < ep" "p < ep + 1" using class_end_bounds [OF plain(2)] by simp_all
  obtain b where b: "single_match m s p ep = Inr b" using single_match_total [OF plain(2)] by blast
  note steps = item_steps [OF plain, of s "mt_caps st"]
  show ?thesis
  proof (cases b)
    case True
    have s1: "ready m lo (s + 1) st" using ready_mono [OF r, of "s + 1"] single_match_inside [of m s p ep] b True by simp
    have "only_step m p s (mt_caps st) 1 ep (s + 1) (mt_caps st)" if "\<not> quantified (get (mt_pat m) ep)"
      unfolding only_step_def steps using b True that by (auto simp: admits_def quantified_def item_run_def)
    from exact_step [OF this _ refl order_refl IH [OF ep(1) s1]] True b show ?thesis
      using opt_exact [OF plain r IH [OF ep(2)]] plus_exact [OF plain r] star_exact [OF plain r] lazy_exact [OF plain r]
      by (auto simp: quantified_def)
  next
    case False
    have runs: "item_run m p ep s k \<longleftrightarrow> k = 0" for k using b False by (cases k) (auto simp: item_run_front)
    show ?thesis
    proof (cases "next_is m ep (\<lambda>q. q = 0x2A \<or> q = 0x3F \<or> q = 0x2D)")
      case True
      then have "only_step m p s (mt_caps st) 0 (ep + 1) s (mt_caps st)"
        unfolding only_step_def steps runs
        by (auto simp: next_is_def admits_def quantified_def split: option.splits)
      from exact_step [OF this order_refl refl order_refl IH [OF ep(2) r]] True b False show ?thesis by simp
    next
      case no: False
      then have "\<not> pattern_step m p s (mt_caps st) k p' s' caps'" for k p' s' caps'
        unfolding steps runs by (auto simp: next_is_def admits_def split: option.splits if_splits)
      from exact_stuck [OF r plain_not_accepting [OF plain(1)] this] no b False show ?thesis by simp
    qed
  qed
qed

lemma match_inner_exact: "ready m lo s st \<Longrightarrow> exact m lo p s st (match_inner m rec s p st)"
proof (induction "length (mt_pat m) - p" arbitrary: p s st rule: less_induct)
  case less
  let ?pat = "mt_pat m"
  have IH: "exact m lo p' s st (match_inner m rec s p' st)" if "p < length ?pat" "p < p'" "ready m lo s st" for p' s st
    using that by (intro less.hyps) auto
  note unfold = match_inner.simps [of m rec s p st]
  consider (fin) "length ?pat \<le> p" | (pos) "p < length ?pat" "?pat ! p = 0x28" "get ?pat (p + 1) = Some 0x29"
    | (opn) "p < length ?pat" "?pat ! p = 0x28" "get ?pat (p + 1) \<noteq> Some 0x29"
    | (cls) "p < length ?pat" "?pat ! p = 0x29" | (anchor) "p < length ?pat" "end_anchor m p"
    | (bal) "p < length ?pat" "?pat ! p = L_ESC" "get ?pat (p + 1) = Some 0x62"
    | (frontier) "p < length ?pat" "?pat ! p = L_ESC" "get ?pat (p + 1) = Some 0x66"
    | (ref) "p < length ?pat" "?pat ! p = L_ESC" "next_is m (p + 1) is_ascii_digit"
    | (item) "p < length ?pat" "plain_item m p"
    using plain_item_iff [of p m] unfolding end_anchor_def by (meson linorder_not_less)
  then show ?case
  proof cases
    case fin
    then show ?thesis using unfold run_ok_done [OF less.prems] by (simp add: prefers_end accepting_def)
  next
    case pos
    then show ?thesis using unfold start_capture_ok [OF less.prems _ position_only_step] by simp
  next
    case opn
    then show ?thesis using unfold start_capture_ok [OF less.prems _ open_only_step] by simp
  next
    case cls
    then show ?thesis using unfold end_capture_ok [OF less.prems] by simp
  next
    case anchor
    have "exact m lo p s st (Inr None, st)" if "s \<noteq> length (mt_src m)"
    proof (rule exact_stuck [OF less.prems])
      show "\<not> accepting m p s" using anchor that by (simp add: accepting_def)
      show "\<not> pattern_step m p s (mt_caps st) k p' s' caps'" for k p' s' caps'
        using anchor(2) by (auto elim!: stepE simp: step_facts)
    qed
    moreover have "exact m lo p s st (Inr (Some s), st)" if "s = length (mt_src m)"
      using anchor that by (intro run_ok_done [OF less.prems] prefers_end) (simp add: accepting_def)
    ultimately show ?thesis using unfold anchor by (auto simp: end_anchor_def)
  next
    case bal
    have "exact m lo p s st (ebind (match_balance m s (p + 2) st) (\<lambda>res st1.
        case res of Some news \<Rightarrow> match_inner m rec news (p + 4) st1 | None \<Rightarrow> (Inr None, st1)))"
      by (rule balance_exact [OF escaped_next [OF bal] less.prems IH]) (use bal in simp_all)
    then show ?thesis using unfold bal by (simp add: L_ESC_def)
  next
    case frontier
    have "exact m lo p s st (case frontier m s (p + 2) of
        Inl e \<Rightarrow> (Inl e, st) | Inr None \<Rightarrow> (Inr None, st) | Inr (Some ep) \<Rightarrow> match_inner m rec s ep st)"
      by (rule frontier_exact [OF escaped_next [OF frontier] less.prems IH [OF frontier(1) _ less.prems]])
    then show ?thesis using unfold frontier by (simp add: L_ESC_def)
  next
    case ref
    then have "escaped m p is_ascii_digit" by (simp add: escaped_def)
    note run = reference_exact [OF this less.prems IH [OF ref(1)]]
    have "get ?pat (p + 1) \<noteq> Some 0x62" "get ?pat (p + 1) \<noteq> Some 0x66"
      using ref(3) by (auto simp: next_is_def is_ascii_digit_def)
    then show ?thesis using unfold ref run by (simp add: L_ESC_def)
  next
    case item
    show ?thesis
    proof (cases "class_end ?pat p")
      case (Inl e)
      then show ?thesis
        using match_inner_item [OF item(2)] run_ok_harmless [OF less.prems class_end_harmless [OF item(1) Inl]] by simp
    next
      case (Inr ep)
      from item_exact [OF item(2) Inr less.prems IH [OF item(1)]] show ?thesis
        unfolding match_inner_item [OF item(2), of rec s st] Inr sum.case .
    qed
  qed
qed

end

section \<open>The matcher at every depth\<close>

lemma do_match_exact: "ready m lo s st \<Longrightarrow> exact m lo p s st (do_match m room s p st)"
proof (induction room arbitrary: lo s p st)
  case 0
  then show ?case using run_ok_harmless by (simp only: do_match.simps) (rule run_ok_tick, simp_all)
next
  case (Suc room)
  have engine: "exact_matcher m (do_match m room)" by unfold_locales (rule Suc.IH)
  show ?case unfolding do_match.simps
  proof (rule run_ok_tick [OF Suc.prems])
    fix st1 assume "ready m lo s st1" "mt_caps st1 = mt_caps st"
    then show "run_ok m lo s st1 (\<not> matchable m p s (mt_caps st)) (pattern_prefers m p s (mt_caps st))
        (match_inner m (do_match m room) s p st1)"
      using exact_matcher.match_inner_exact [OF engine, of lo s st1 p] by (simp only:)
  qed
qed

interpretation engine: exact_matcher m "do_match m room" for m room
  by unfold_locales (rule do_match_exact)

end
