(* ===== verification/Pattern_Find.thy ===== *)
theory Pattern_Find
  imports Pattern_Engine
begin

text \<open>
  The entry points \<^verbatim>\<open>find\<close> and \<^verbatim>\<open>match_at\<close> of the matcher: what they return is the preferred match
  at the first position that has one, it lies inside the source, and the step budget of the
  library call bounds all attempts together.
\<close>

section \<open>Captures of a result\<close>

fun capture_within :: "nat \<Rightarrow> nat \<Rightarrow> capture \<Rightarrow> bool" where
  "capture_within lo hi (Cap_Bytes start len) \<longleftrightarrow> lo \<le> start \<and> start + len \<le> hi"
| "capture_within lo hi (Cap_Position pos) \<longleftrightarrow> lo < pos \<and> pos \<le> hi + 1"

definition within_source :: "bytes \<Rightarrow> match_result \<Rightarrow> bool" where
  "within_source src r \<longleftrightarrow>
     mr_start r \<le> mr_end r \<and> mr_end r \<le> length src \<and>
     list_all (capture_within (mr_start r) (mr_end r)) (mr_captures r)"

text \<open>\<open>r\<close> is what the pattern prefers at its start, and no earlier one of the candidate starts matches.\<close>

definition first_match :: "matcher \<Rightarrow> nat \<Rightarrow> nat set \<Rightarrow> match_result \<Rightarrow> bool" where
  "first_match m p starts r \<longleftrightarrow>
     mr_start r \<in> starts \<and> (\<forall>t\<in>starts. t < mr_start r \<longrightarrow> \<not> matchable m p t []) \<and>
     (\<exists>caps. pattern_prefers m p (mr_start r) [] (mr_end r) caps \<and> collect_caps caps = Inr (mr_captures r))"

lemma collect_caps_harmless: "collect_caps caps = Inl e \<Longrightarrow> harmless e"
  by (induction caps rule: collect_caps.induct) (auto simp: sbind_def split: if_splits sum.splits)

lemma collect_caps_within:
  "caps_in lo hi caps \<Longrightarrow> collect_caps caps = Inr cs \<Longrightarrow> list_all (capture_within lo hi) cs"
proof (induction caps arbitrary: cs rule: collect_caps.induct)
  case (2 init len caps)
  from "2.prems" "2.IH" show ?case
    by (auto simp: sbind_def caps_in_def cap_in_def CAP_UNFINISHED_def CAP_POSITION_def split: if_splits sum.splits)
qed simp

definition result_ok :: "matcher \<Rightarrow> nat \<Rightarrow> nat set \<Rightarrow> matching \<Rightarrow> match_result option exec \<Rightarrow> bool" where
  "result_ok m p starts st out \<longleftrightarrow>
     spends m st out \<and>
     (fst out = Inr None \<longrightarrow> (\<forall>t\<in>starts. \<not> matchable m p t [])) \<and>
     (\<forall>r. fst out = Inr (Some r) \<longrightarrow> first_match m p starts r \<and> within_source (mt_src m) r)"

lemma matched_ok:
  assumes "exact m s p s st (Inr (Some e), st1)" "mt_caps st = []"
  shows "result_ok m p {s} st (matched s e st1)"
proof -
  have *: "spends m st (Inr (Some e) :: pattern_stop + nat option, st1)" "pattern_prefers m p s [] e (mt_caps st1)"
      "s \<le> e" "e \<le> length (mt_src m)" "caps_in s e (mt_caps st1)"
    using assms by (simp_all add: run_ok_def)
  show ?thesis
  proof (cases "collect_caps (mt_caps st1)")
    case (Inl x)
    with * collect_caps_harmless [OF Inl] show ?thesis by (auto simp: matched_def result_ok_def spends_def harmless_def)
  next
    case (Inr cs)
    with * collect_caps_within [OF *(5) Inr] show ?thesis
      by (auto simp: matched_def result_ok_def spends_def first_match_def within_source_def)
  qed
qed

lemma attempt_ok:
  assumes "sized m" "s \<le> length (mt_src m)" "mt_caps st = []" "mt_steps st \<le> max_steps m"
  shows "result_ok m p {s} st (ebind (do_match m room s p st) (\<lambda>res st1.
    case res of Some e \<Rightarrow> matched s e st1 | None \<Rightarrow> (Inr None, st1)))"
proof -
  have "ready m s s st" using assms by (simp add: ready_def caps_in_def)
  from do_match_exact [OF this] have run: "exact m s p s st (do_match m room s p st)" .
  obtain r st1 where out: "do_match m room s p st = (r, st1)" by (cases "do_match m room s p st")
  show ?thesis
  proof (cases r)
    case (Inl e)
    with run out show ?thesis by (auto simp: run_ok_def result_ok_def spends_def)
  next
    case (Inr res)
    show ?thesis
    proof (cases res)
      case None
      with run out Inr show ?thesis using assms(3) by (simp add: run_ok_def result_ok_def spends_def)
    next
      case (Some e)
      with matched_ok [OF _ assms(3)] run out Inr show ?thesis by simp
    qed
  qed
qed

text \<open>Scanning on from a start without a match.\<close>

lemma result_ok_scan:
  assumes "result_ok m p T st1 out" "mt_steps st \<le> mt_steps st1" "\<not> matchable m p s []" "\<forall>t\<in>T. s < t"
  shows "result_ok m p (insert s T) st out"
proof -
  have "spends m st out" using assms(1,2) by (auto simp: result_ok_def intro: spends_later)
  then show ?thesis using assms(1,3,4) by (auto simp: result_ok_def first_match_def)
qed

lemma result_ok_widen:
  assumes "result_ok m p {s} st out" "fst out \<noteq> Inr None" "\<forall>t\<in>T. s < t"
  shows "result_ok m p (insert s T) st out"
  using assms by (auto simp: result_ok_def first_match_def)

lemma find_loop_ok:
  assumes "sized m" "start \<le> length (mt_src m)" "mt_steps st \<le> max_steps m"
  shows "result_ok m p (if anch then {start} else {start..length (mt_src m)}) st (find_loop m anch p start st)"
  using assms(2,3)
proof (induction "length (mt_src m) - start" arbitrary: start st rule: less_induct)
  case less
  let ?room = "unat (pl_max_depth (mt_limits m))" and ?st = "st\<lparr>mt_caps := []\<rparr>"
  let ?T = "if anch then {} else {start + 1..length (mt_src m)}"
  have starts: "(if anch then {start} else {start..length (mt_src m)}) = insert start ?T"
    using less.prems(1) by auto
  have "result_ok m p {start} ?st (ebind (do_match m ?room start p ?st) (\<lambda>res st1.
      case res of Some e \<Rightarrow> matched start e st1 | None \<Rightarrow> (Inr None, st1)))"
    using attempt_ok [OF assms(1) less.prems(1), of ?st] less.prems(2) by simp
  then have tried: "result_ok m p {start} st (ebind (do_match m ?room start p ?st) (\<lambda>res st1.
      case res of Some e \<Rightarrow> matched start e st1 | None \<Rightarrow> (Inr None, st1)))"
    by (simp add: result_ok_def spends_def)
  note unfold = find_loop.simps [of m anch p start st]
  obtain r st1 where out: "do_match m ?room start p ?st = (r, st1)" by (cases "do_match m ?room start p ?st")
  show ?case
  proof (cases "r = Inr None")
    case True
    then have none: "\<not> matchable m p start []" "mt_steps st \<le> mt_steps st1" "mt_steps st1 \<le> max_steps m"
      using tried out by (auto simp: result_ok_def spends_def)
    show ?thesis
    proof (cases "anch \<or> length (mt_src m) \<le> start")
      case stop: True
      then have "?T = {}" by auto
      with tried out True unfold stop show ?thesis unfolding starts by simp
    next
      case False
      then have on: "\<not> anch" "start < length (mt_src m)" by auto
      then have "result_ok m p ?T st1 (find_loop m anch p (start + 1) st1)"
        using less.hyps [of "start + 1" st1] none by (simp add: diff_less_mono2)
      from result_ok_scan [OF this none(2,1)] False unfold out True show ?thesis unfolding starts by simp
    qed
  next
    case False
    have same: "ebind (do_match m ?room start p ?st) (\<lambda>res st1.
        case res of Some e \<Rightarrow> matched start e st1 | None \<Rightarrow> (Inr None, st1)) = find_loop m anch p start st"
      using False by (simp add: unfold out ebind_def split: sum.splits option.splits)
    have some: "fst (find_loop m anch p start st) \<noteq> Inr None"
      using False by (auto simp: unfold out ebind_def matched_def split: sum.splits option.splits)
    show ?thesis unfolding starts
      by (rule result_ok_widen [OF tried [unfolded same] some]) (auto split: if_splits)
  qed
qed

section \<open>Claims\<close>

text \<open>The starts \<^verbatim>\<open>find\<close> tries, and where the pattern proper begins.\<close>

definition search_starts :: "bytes \<Rightarrow> bytes \<Rightarrow> nat \<Rightarrow> nat set" where
  "search_starts src pat init =
     (let first = min init (length src) in if anchored pat then {first} else {first..length src})"

definition body_start :: "bytes \<Rightarrow> nat" where
  "body_start pat = (if anchored pat then 1 else 0)"

lemma find_match_ok:
  assumes "length src < 2 ^ 63" "pl_max_steps lim < - 1" "steps \<le> pl_max_steps lim"
  shows "result_ok \<lparr>mt_src = src, mt_pat = pat, mt_limits = lim\<rparr> (body_start pat) (search_starts src pat init)
    \<lparr>mt_caps = [], mt_steps = steps\<rparr> (find_match src pat init steps lim)"
  using find_loop_ok [of "\<lparr>mt_src = src, mt_pat = pat, mt_limits = lim\<rparr>" "min init (length src)"
      "\<lparr>mt_caps = [], mt_steps = steps\<rparr>" "body_start pat" "anchored pat"] assms
  by (cases "anchored pat") (simp_all add: find_match_def search_starts_def body_start_def sized_def Let_def)

text \<open>Searching \<^verbatim>\<open>xaab\<close> for \<^verbatim>\<open>(a+)b\<close>.\<close>

definition demo_limits :: pattern_limits where
  "demo_limits = \<lparr>pl_max_steps = 100, pl_max_depth = 10, pl_max_captures = 2\<rparr>"

lemma demo_find:
  "find_match [0x78, 0x61, 0x61, 0x62] [0x28, 0x61, 0x2B, 0x29, 0x62] 0 0 demo_limits =
   (Inr (Some \<lparr>mr_start = 1, mr_end = 4, mr_captures = [Cap_Bytes 1 2]\<rparr>),
    \<lparr>mt_caps = [(1, 2)], mt_steps = 7\<rparr>)"
  by code_simp

text \<open>
  C11: Whatever the source, the pattern and the limits, \<^verbatim>\<open>find\<close> does not panic; a match it returns and
  every capture of it lie inside the source, the captures inside the match; and the step counter
  only grows and passes the budget by one step at most, exactly when the call ends with the
  error "pattern match is too complex".
\<close>

theorem find_in_bounds:
  assumes "length src < 2 ^ 63" "pl_max_steps lim < - 1" "steps \<le> pl_max_steps lim"
    and "find_match src pat init steps lim = (out, st)"
  shows "out \<noteq> Inl Panic \<and> (\<forall>r. out = Inr (Some r) \<longrightarrow> within_source src r) \<and> steps \<le> mt_steps st \<and>
    (if out = Inl (Fail Match_Too_Complex) then mt_steps st = pl_max_steps lim + 1
     else mt_steps st \<le> pl_max_steps lim)"
  using find_match_ok [OF assms(1-3), of pat init] unfolding assms(4) result_ok_def spends_def
  by (simp split: if_splits)

theorem find_in_bounds_witness:
  "within_source [0x78, 0x61, 0x61, 0x62] \<lparr>mr_start = 1, mr_end = 4, mr_captures = [Cap_Bytes 1 2]\<rparr> \<and>
   (7 :: u32) \<le> pl_max_steps demo_limits"
  using find_in_bounds [OF _ _ _ demo_find] by (simp add: demo_limits_def)

text \<open>
  C10: \<^verbatim>\<open>find\<close> finds exactly what the pattern means. When it returns a match, the match starts at the
  first candidate position (the first one only, when the pattern is anchored) from which the pattern
  matches at all, and its end and captures are those the quantifiers prefer there; when it returns
  nothing, the pattern matches from no candidate position.
\<close>

theorem find_first_match:
  assumes "length src < 2 ^ 63" "pl_max_steps lim < - 1" "steps \<le> pl_max_steps lim"
    and "find_match src pat init steps lim = (Inr res, st)"
  shows "case res of
      None \<Rightarrow> \<forall>t\<in>search_starts src pat init.
        \<not> matchable \<lparr>mt_src = src, mt_pat = pat, mt_limits = lim\<rparr> (body_start pat) t []
    | Some r \<Rightarrow> first_match \<lparr>mt_src = src, mt_pat = pat, mt_limits = lim\<rparr> (body_start pat)
        (search_starts src pat init) r"
  using find_match_ok [OF assms(1-3), of pat init] unfolding assms(4) result_ok_def
  by (cases res) simp_all

theorem find_first_match_witness:
  "first_match \<lparr>mt_src = [0x78, 0x61, 0x61, 0x62], mt_pat = [0x28, 0x61, 0x2B, 0x29, 0x62], mt_limits = demo_limits\<rparr>
     0 (search_starts [0x78, 0x61, 0x61, 0x62] [0x28, 0x61, 0x2B, 0x29, 0x62] 0)
     \<lparr>mr_start = 1, mr_end = 4, mr_captures = [Cap_Bytes 1 2]\<rparr>"
  using find_first_match [OF _ _ _ demo_find] by (simp add: demo_limits_def body_start_def anchored_def get_def)

end
