(* ===== verification/Pattern_Limits.thy ===== *)
theory Pattern_Limits
  imports Pattern
begin

text \<open>
  The limits of the matcher only cut runs short: whatever a run under small limits returns, other
  than that a limit was hit, the same run returns under larger ones. The locale \<open>limited_engine\<close> is
  this relation between the recursive calls of two matchers, and \<open>do_match\<close> at two depths is its
  instance.
\<close>

definition limit_stop :: "pattern_stop + 'a \<Rightarrow> bool" where
  "limit_stop r \<longleftrightarrow>
     r \<in> {Inl (Fail Match_Too_Complex), Inl (Fail Pattern_Too_Deep), Inl (Fail Too_Many_Captures)}"

definition limits_le :: "pattern_limits \<Rightarrow> pattern_limits \<Rightarrow> bool" where
  "limits_le a b \<longleftrightarrow>
     pl_max_steps a \<le> pl_max_steps b \<and> pl_max_depth a \<le> pl_max_depth b \<and> pl_max_captures a \<le> pl_max_captures b"

definition cut_short :: "'a exec \<Rightarrow> 'a exec \<Rightarrow> bool" where
  "cut_short out out' \<longleftrightarrow> limit_stop (fst out) \<or> out' = out"

lemma cut_short_refl [simp]: "cut_short out out"
  by (simp add: cut_short_def)

lemma cut_short_ebind:
  assumes "cut_short out out'" "\<And>x st. cut_short (k x st) (k' x st)"
  shows "cut_short (ebind out k) (ebind out' k')"
proof -
  obtain r st where out: "out = (r, st)" by (cases out)
  show ?thesis
  proof (cases r)
    case (Inl e)
    then show ?thesis using assms(1) by (auto simp: out cut_short_def limit_stop_def)
  next
    case (Inr x)
    then have "out' = out" using assms(1) by (simp add: out cut_short_def limit_stop_def)
    then show ?thesis using assms(2) [of x st] Inr by (simp add: out)
  qed
qed

lemma cut_short_if:
  "(b \<Longrightarrow> cut_short x x') \<Longrightarrow> (\<not> b \<Longrightarrow> cut_short y y') \<Longrightarrow>
   cut_short (if b then x else y) (if b then x' else y')"
  by simp

lemma cut_short_option:
  "(r = None \<Longrightarrow> cut_short n n') \<Longrightarrow> (\<And>x. r = Some x \<Longrightarrow> cut_short (k x) (k' x)) \<Longrightarrow>
   cut_short (case r of None \<Rightarrow> n | Some x \<Rightarrow> k x) (case r of None \<Rightarrow> n' | Some x \<Rightarrow> k' x)"
  by (cases r) auto

lemma cut_short_sum:
  "(\<And>e. r = Inl e \<Longrightarrow> cut_short (f e) (f' e)) \<Longrightarrow> (\<And>x. r = Inr x \<Longrightarrow> cut_short (k x) (k' x)) \<Longrightarrow>
   cut_short (case r of Inl e \<Rightarrow> f e | Inr x \<Rightarrow> k x) (case r of Inl e \<Rightarrow> f' e | Inr x \<Rightarrow> k' x)"
  by (cases r) auto

lemmas cut_short_intros = cut_short_refl cut_short_if cut_short_option cut_short_sum cut_short_ebind

lemma tick_cut_short: "limits_le (mt_limits m) lim \<Longrightarrow> cut_short (tick m st) (tick (m\<lparr>mt_limits := lim\<rparr>) st)"
  by (auto simp: cut_short_def tick_def Let_def limit_stop_def limits_le_def)

text \<open>What reads only the source and the pattern.\<close>

lemma kept_fields: "mt_src (m\<lparr>mt_limits := lim\<rparr>) = mt_src m" "mt_pat (m\<lparr>mt_limits := lim\<rparr>) = mt_pat m"
  by simp_all

lemma reads_no_limits [simp]:
  "single_match (m\<lparr>mt_limits := lim\<rparr>) = single_match m"
  "frontier (m\<lparr>mt_limits := lim\<rparr>) = frontier m"
  "back_reference (m\<lparr>mt_limits := lim\<rparr>) = back_reference m"
  "next_is (m\<lparr>mt_limits := lim\<rparr>) = next_is m"
  unfolding fun_eq_iff single_match_def frontier_def back_reference_def match_capture_def next_is_def kept_fields
  by (rule refl allI)+

lemma balance_loop_cut_short:
  assumes "limits_le (mt_limits m) lim"
  shows "cut_short (balance_loop m opn cls cont s st) (balance_loop (m\<lparr>mt_limits := lim\<rparr>) opn cls cont s st)"
proof (induction "length (mt_src m) - s" arbitrary: s cont st rule: less_induct)
  case less
  show ?case
  proof (cases "s < length (mt_src m)")
    case True
    then have "length (mt_src m) - (s + 1) < length (mt_src m) - s" by simp
    note IH = less [OF this]
    show ?thesis
      by (subst (1 2) balance_loop.simps, unfold kept_fields)
        (intro cut_short_intros tick_cut_short [OF assms] IH)
  qed (simp add: balance_loop.simps)
qed

lemma match_balance_cut_short:
  "limits_le (mt_limits m) lim \<Longrightarrow>
   cut_short (match_balance m s p st) (match_balance (m\<lparr>mt_limits := lim\<rparr>) s p st)"
  by (simp add: match_balance_def Let_def balance_loop_cut_short)

lemma expand_count_cut_short:
  assumes "limits_le (mt_limits m) lim"
  shows "cut_short (expand_count m s p ep count st) (expand_count (m\<lparr>mt_limits := lim\<rparr>) s p ep count st)"
proof (induction "length (mt_src m) - (s + count)" arbitrary: count st rule: less_induct)
  case less
  show ?case
  proof (cases "single_match m (s + count) p ep = Inr True")
    case True
    then have "length (mt_src m) - (s + (count + 1)) < length (mt_src m) - (s + count)"
      using single_match_inside by fastforce
    note IH = less [OF this]
    show ?thesis
      by (subst (1 2) expand_count.simps, unfold reads_no_limits)
        (intro cut_short_intros tick_cut_short [OF assms] IH)
  next
    case False
    then show ?thesis by (subst (1 2) expand_count.simps) (auto split: sum.splits)
  qed
qed

locale limited_engine =
  fixes m :: matcher and lim :: pattern_limits and rec rec' :: continuation
  assumes limits: "limits_le (mt_limits m) lim"
    and rec_cut_short: "cut_short (rec s p st) (rec' s p st)"
begin

lemma back_off_cut_short: "cut_short (back_off rec s ep count st) (back_off rec' s ep count st)"
  by (induction count arbitrary: st) (auto intro!: rec_cut_short cut_short_ebind cut_short_option)

lemma max_expand_cut_short:
  "cut_short (max_expand m rec s p ep st) (max_expand (m\<lparr>mt_limits := lim\<rparr>) rec' s p ep st)"
  unfolding max_expand_def
  by (intro cut_short_ebind expand_count_cut_short [OF limits] back_off_cut_short)

lemma min_expand_cut_short:
  "cut_short (min_expand m rec s p ep st) (min_expand (m\<lparr>mt_limits := lim\<rparr>) rec' s p ep st)"
proof (induction "length (mt_src m) - s" arbitrary: s st rule: less_induct)
  case less
  have IH: "cut_short (min_expand m rec (s + 1) p ep st) (min_expand (m\<lparr>mt_limits := lim\<rparr>) rec' (s + 1) p ep st)"
    if "single_match m s p ep = Inr True" for st
    using less [of "s + 1"] single_match_inside [OF that] by simp
  show ?case
    by (subst (1 2) min_expand.simps, unfold reads_no_limits)
      (intro cut_short_intros rec_cut_short IH, simp)
qed

lemma start_capture_cut_short:
  "cut_short (start_capture m rec s p what st) (start_capture (m\<lparr>mt_limits := lim\<rparr>) rec' s p what st)"
proof (cases "pl_max_captures (mt_limits m) \<le> length (mt_caps st)")
  case True
  then show ?thesis by (simp add: start_capture_def cut_short_def limit_stop_def)
next
  case False
  then have "\<not> pl_max_captures lim \<le> length (mt_caps st)" using limits by (simp add: limits_le_def)
  with False show ?thesis by (auto simp: start_capture_def intro!: cut_short_ebind rec_cut_short)
qed

lemma end_capture_cut_short: "cut_short (end_capture rec s p st) (end_capture rec' s p st)"
  by (auto simp: end_capture_def split: option.splits intro!: cut_short_ebind rec_cut_short)

lemmas parts_cut_short =
  max_expand_cut_short min_expand_cut_short start_capture_cut_short end_capture_cut_short
  match_balance_cut_short [OF limits] rec_cut_short

lemma match_inner_cut_short:
  "cut_short (match_inner m rec s p st) (match_inner (m\<lparr>mt_limits := lim\<rparr>) rec' s p st)"
proof (induction "length (mt_pat m) - p" arbitrary: p s st rule: less_induct)
  case less
  have IH: "cut_short (match_inner m rec s p' st) (match_inner (m\<lparr>mt_limits := lim\<rparr>) rec' s p' st)"
    if "p < length (mt_pat m)" "p < p'" for p' s st
    using less that by simp
  have ep: "p < ep" if "class_end (mt_pat m) p = Inr ep" for ep using class_end_bounds [OF that] by simp
  have fr: "p < ep" if "frontier m s (p + 2) = Inr (Some ep)" for ep using frontier_bounds [OF that] by simp
  show ?case
  proof (cases "p < length (mt_pat m)")
    case True
    note go = IH [OF True]
    show ?thesis
      by (subst (1 2) match_inner.simps, unfold Let_def kept_fields reads_no_limits)
        (intro cut_short_intros parts_cut_short go; auto dest: ep fr [simplified])
  qed (simp add: match_inner.simps)
qed

end

lemma do_match_cut_short:
  assumes "limits_le (mt_limits m) lim" "room \<le> room'"
  shows "cut_short (do_match m room s p st) (do_match (m\<lparr>mt_limits := lim\<rparr>) room' s p st)"
  using assms(2)
proof (induction room arbitrary: room' s p st)
  case 0
  show ?case
    using tick_cut_short [OF assms(1), of st]
    by (cases room'; cases "tick m st")
      (auto simp: cut_short_def limit_stop_def ebind_def split: sum.splits)
next
  case (Suc room)
  then obtain r where r: "room' = Suc r" "room \<le> r" by (cases room') auto
  have "limited_engine m lim (do_match m room) (do_match (m\<lparr>mt_limits := lim\<rparr>) r)"
    using assms(1) Suc.IH [OF r(2)] by unfold_locales
  from limited_engine.match_inner_cut_short [OF this] show ?case
    by (auto simp: r(1) intro!: cut_short_ebind tick_cut_short [OF assms(1)])
qed

text \<open>Every larger limits are a join, and every larger depth is a sum.\<close>

definition limits_join :: "pattern_limits \<Rightarrow> pattern_limits \<Rightarrow> pattern_limits" where
  "limits_join a b =
     \<lparr>pl_max_steps = max (pl_max_steps a) (pl_max_steps b), pl_max_depth = max (pl_max_depth a) (pl_max_depth b),
      pl_max_captures = max (pl_max_captures a) (pl_max_captures b)\<rparr>"

lemma limits_le_join: "limits_le a (limits_join a b)"
  by (simp add: limits_le_def limits_join_def)

interpretation limited: limited_engine m "limits_join (mt_limits m) lim" "do_match m room"
    "do_match (m\<lparr>mt_limits := limits_join (mt_limits m) lim\<rparr>) (room + extra)" for m lim room extra
  by unfold_locales (simp_all add: limits_le_join do_match_cut_short)

lemma find_loop_cut_short:
  assumes "limits_le (mt_limits m) lim"
  shows "cut_short (find_loop m anch p start st) (find_loop (m\<lparr>mt_limits := lim\<rparr>) anch p start st)"
proof (induction "length (mt_src m) - start" arbitrary: start st rule: less_induct)
  case less
  have depth: "unat (pl_max_depth (mt_limits m)) \<le> unat (pl_max_depth (mt_limits (m\<lparr>mt_limits := lim\<rparr>)))"
    using assms by (simp add: limits_le_def word_le_nat_alt)
  show ?case
    by (subst (1 2) find_loop.simps, unfold kept_fields)
      (intro cut_short_intros do_match_cut_short [OF assms depth] less; auto)
qed

section \<open>Claim\<close>

text \<open>
  C22: Limits only turn a verdict into an error. If \<^verbatim>\<open>find\<close> under some limits ends in anything but one
  of the three limit errors (too many steps, too deep, too many captures), then under any larger
  limits it ends in the same way, with the same match, the same captures and the same step count.
\<close>

theorem find_limits_agree:
  assumes "limits_le lim lim'" "find_match src pat init steps lim = (out, st)" "\<not> limit_stop out"
  shows "find_match src pat init steps lim' = (out, st)"
proof -
  have "cut_short (find_match src pat init steps lim) (find_match src pat init steps lim')"
    using find_loop_cut_short [of "\<lparr>mt_src = src, mt_pat = pat, mt_limits = lim\<rparr>" lim'] assms(1)
    by (simp add: find_match_def)
  then show ?thesis using assms(2,3) by (simp add: cut_short_def)
qed

theorem find_limits_agree_witness:
  "find_match [0x61] [0x61, 0x2A] 0 0 \<lparr>pl_max_steps = 1000, pl_max_depth = 200, pl_max_captures = 32\<rparr> =
   (Inr (Some \<lparr>mr_start = 0, mr_end = 1, mr_captures = []\<rparr>), \<lparr>mt_caps = [], mt_steps = 3\<rparr>)"
proof (rule find_limits_agree)
  show "limits_le \<lparr>pl_max_steps = 3, pl_max_depth = 2, pl_max_captures = 0\<rparr>
      \<lparr>pl_max_steps = 1000, pl_max_depth = 200, pl_max_captures = 32\<rparr>"
    by (simp add: limits_le_def)
  show "find_match [0x61] [0x61, 0x2A] 0 0 \<lparr>pl_max_steps = 3, pl_max_depth = 2, pl_max_captures = 0\<rparr> =
      (Inr (Some \<lparr>mr_start = 0, mr_end = 1, mr_captures = []\<rparr>), \<lparr>mt_caps = [], mt_steps = 3\<rparr>)"
    by code_simp
qed (simp add: limit_stop_def)

end
