(* ===== verification/String_Search.thy ===== *)
theory String_Search
  imports Pattern_Find Pattern_Limits
begin

text \<open>
  The searching functions of the string library (\<^verbatim>\<open>ruau-vm/src/builtins/string_lib.rs\<close>) on top of the
  matcher: \<^verbatim>\<open>string.find\<close> with its shortcut for patterns without special bytes, from the point where the
  arguments have been read as byte strings and integers to the point where the results are interned.
\<close>

section \<open>Positions\<close>

text \<open>\<^verbatim>\<open>posrelat\<close> of \<^verbatim>\<open>builtins/common.rs\<close>, on \<^verbatim>\<open>i64\<close> with the wrap-around of its negation.\<close>

definition posrelat :: "i64 \<Rightarrow> i64 \<Rightarrow> i64" where
  "posrelat pos len =
     (if 0 \<le> sint pos then pos else if sint len < sint (- pos) then 0 else len + pos + 1)"

lemma sint_of_len: "n < 2 ^ 63 \<Longrightarrow> sint (of_nat n :: i64) = int n"
  by (simp add: signed_of_nat signed_take_bit_int_eq_self)

lemma posrelat_in_range:
  assumes "n < 2 ^ 62" "sint pos \<noteq> - (2 ^ 63)"
  shows "sint (posrelat pos (of_nat n)) =
    (if 0 \<le> sint pos then sint pos else if int n < - sint pos then 0 else int n + sint pos + 1)"
proof -
  have len: "sint (of_nat n :: i64) = int n" using assms(1) by (simp add: sint_of_len)
  have bounds: "- (2 ^ 63) \<le> sint pos" "sint pos < 2 ^ 63"
    using sint_greater_eq [of pos] sint_lt [of pos] by simp_all
  then have neg: "sint (- pos) = - sint pos" if "sint pos < 0"
    using that assms(2) by (simp add: sint_word_ariths signed_take_bit_int_eq_self)
  have "sint (of_nat n + pos + 1) = int n + sint pos + 1" if "sint pos < 0"
    using that bounds assms(1) len by (simp add: sint_word_ariths signed_take_bit_int_eq_self)
  then show ?thesis using neg len by (simp add: posrelat_def)
qed

section \<open>string.find\<close>

definition pattern_has_special :: "bytes \<Rightarrow> bool" where
  "pattern_has_special pat =
     list_ex (\<lambda>b. b \<in> {0x5E, 0x24, 0x2A, 0x2B, 0x3F, 0x2E, 0x28, 0x5B, 0x25, 0x2D}) pat"

text \<open>\<^verbatim>\<open>haystack.windows(needle.len()).position(|window| window == needle)\<close>.\<close>

definition window_position :: "bytes \<Rightarrow> bytes \<Rightarrow> nat option" where
  "window_position hay needle =
     List.find (\<lambda>i. take (length needle) (drop i hay) = needle) [0..<Suc (length hay) - length needle]"

datatype find_result =
    Find_Nil
  | Find_Range nat nat "capture list"

definition string_find :: "bytes \<Rightarrow> bytes \<Rightarrow> i64 \<Rightarrow> bool \<Rightarrow> pattern_limits \<Rightarrow> pattern_stop + find_result" where
  "string_find src pat init_arg plain lim =
     (let len = of_nat (length src);
          rel = posrelat init_arg len;
          init = (if sint rel < 1 then 1 else rel)
      in if int (length src) + 1 < sint init then Inr Find_Nil
         else let init0 = nat (sint init - 1)
         in if plain \<or> \<not> pattern_has_special pat then
              (if pat = [] then Inr (Find_Range (init0 + 1) init0 [])
               else case window_position (drop init0 src) pat of
                      Some at \<Rightarrow> Inr (Find_Range (init0 + at + 1) (init0 + at + length pat) [])
                    | None \<Rightarrow> Inr Find_Nil)
            else (case fst (find_match src pat init0 0 lim) of
                    Inl e \<Rightarrow> Inl e
                  | Inr None \<Rightarrow> Inr Find_Nil
                  | Inr (Some r) \<Rightarrow> Inr (Find_Range (mr_start r + 1) (mr_end r) (mr_captures r))))"

section \<open>Literal patterns\<close>

definition literal_byte :: "u8 \<Rightarrow> bool" where
  "literal_byte b \<longleftrightarrow> b \<notin> {0x5E, 0x24, 0x2A, 0x2B, 0x3F, 0x2E, 0x28, 0x29, 0x5B, 0x25, 0x2D}"

lemma literal_plain_item:
  "p < length (mt_pat m) \<Longrightarrow> literal_byte (mt_pat m ! p) \<Longrightarrow> plain_item m p"
  by (auto simp: literal_byte_def plain_item_def end_anchor_def escaped_def L_ESC_def)

lemma literal_class_end: "p < length pat \<Longrightarrow> literal_byte (pat ! p) \<Longrightarrow> class_end pat p = Inr (p + 1)"
  by (simp add: literal_byte_def class_end_def byte_at_def L_ESC_def)

lemma literal_single_match:
  "p < length (mt_pat m) \<Longrightarrow> literal_byte (mt_pat m ! p) \<Longrightarrow>
   single_match m s p ep = Inr (get (mt_src m) s = Some (mt_pat m ! p))"
  by (auto simp: literal_byte_def single_match_def byte_at_def L_ESC_def split: option.splits)

lemma literal_match_inner:
  assumes "list_all literal_byte (mt_pat m)" "p \<le> length (mt_pat m)"
  shows "match_inner m rec s p st =
    (Inr (if take (length (mt_pat m) - p) (drop s (mt_src m)) = drop p (mt_pat m)
          then Some (s + (length (mt_pat m) - p)) else None), st)"
  using assms(2)
proof (induction "length (mt_pat m) - p" arbitrary: p s rule: less_induct)
  case less
  let ?pat = "mt_pat m" and ?src = "mt_src m"
  show ?case
  proof (cases "p = length ?pat")
    case True
    then show ?thesis by (simp add: match_inner.simps)
  next
    case False
    then have p: "p < length ?pat" using less.prems by simp
    then have lit: "literal_byte (?pat ! p)" using assms(1) by (simp add: list_all_length)
    have next_lit: "literal_byte b" if "get ?pat (p + 1) = Some b" for b
      using assms(1) that by (auto simp: list_all_length get_eq_Some)
    have quant: "get ?pat (p + 1) \<noteq> Some 0x3F" "get ?pat (p + 1) \<noteq> Some 0x2B" "get ?pat (p + 1) \<noteq> Some 0x2A"
      "get ?pat (p + 1) \<noteq> Some 0x2D" "\<not> next_is m (p + 1) (\<lambda>q. q = 0x2A \<or> q = 0x3F \<or> q = 0x2D)"
      using next_lit by (auto simp: literal_byte_def next_is_def split: option.splits)
    have IH: "match_inner m rec (s + 1) (p + 1) st =
        (Inr (if take (length ?pat - (p + 1)) (drop (s + 1) ?src) = drop (p + 1) ?pat
              then Some (s + 1 + (length ?pat - (p + 1))) else None), st)"
      using p by (intro less.hyps) simp_all
    have unfold: "match_inner m rec s p st =
        (if get ?src s = Some (?pat ! p) then match_inner m rec (s + 1) (p + 1) st else (Inr None, st))"
      using quant by (simp add: match_inner_item [OF literal_plain_item [OF p lit]] literal_class_end [OF p lit]
          literal_single_match [OF p lit])
    have pat: "drop p ?pat = ?pat ! p # drop (p + 1) ?pat" using p by (simp add: Cons_nth_drop_Suc)
    have len: "length ?pat - p = Suc (length ?pat - (p + 1))" using p by simp
    show ?thesis
    proof (cases "s < length ?src")
      case True
      then have "drop s ?src = ?src ! s # drop (s + 1) ?src" by (simp add: Cons_nth_drop_Suc)
      then show ?thesis using True unfold IH pat len by (auto simp: get_def)
    next
      case False
      then show ?thesis using unfold pat len by (simp add: get_def)
    qed
  qed
qed

lemma find_map_index: "List.find P (map f xs) = map_option f (List.find (P \<circ> f) xs)"
  by (induction xs) auto

lemma window_position_step:
  "window_position hay needle =
     (if take (length needle) hay = needle then Some 0
      else case hay of [] \<Rightarrow> None | _ # rest \<Rightarrow> map_option Suc (window_position rest needle))"
proof (cases "length needle \<le> length hay")
  case True
  let ?n = "length hay - length needle"
  have "[0..<Suc (length hay) - length needle] = 0 # map Suc [0..<?n]"
    using True by (simp add: Suc_diff_le upt_conv_Cons map_Suc_upt del: upt_Suc)
  then have eq: "window_position hay needle =
      (if take (length needle) hay = needle then Some 0
       else map_option Suc (List.find (\<lambda>i. take (length needle) (drop (Suc i) hay) = needle) [0..<?n]))"
    by (simp add: window_position_def find_map_index comp_def)
  show ?thesis
  proof (cases hay)
    case (Cons b rest)
    then show ?thesis using eq by (simp add: window_position_def)
  qed (use eq True in auto)
next
  case False
  then have none: "take (length needle) hay \<noteq> needle" by (metis linorder_linear take_all)
  moreover have "window_position xs needle = None" if "length xs < length needle" for xs
    using that by (simp add: window_position_def)
  ultimately show ?thesis using False by (cases hay) simp_all
qed

lemma literal_find_loop:
  assumes "list_all literal_byte (mt_pat m)" "0 < unat (pl_max_depth (mt_limits m))"
    and "start \<le> length (mt_src m)" "unat (mt_steps st) + (length (mt_src m) - start) < unat (max_steps m)"
  shows "fst (find_loop m False 0 start st) =
    Inr (map_option (\<lambda>i. \<lparr>mr_start = start + i, mr_end = start + i + length (mt_pat m), mr_captures = []\<rparr>)
      (window_position (drop start (mt_src m)) (mt_pat m)))"
  using assms(3,4)
proof (induction "length (mt_src m) - start" arbitrary: start st rule: less_induct)
  case less
  let ?src = "mt_src m" and ?pat = "mt_pat m" and ?st1 = "st\<lparr>mt_caps := [], mt_steps := mt_steps st + 1\<rparr>"
  obtain room where room: "unat (pl_max_depth (mt_limits m)) = Suc room" using assms(2) gr0_conv_Suc by blast
  have up: "unat (mt_steps st + 1) = unat (mt_steps st) + 1"
  proof -
    have "unat (mt_steps st) + 1 < 4294967296" using less.prems(2) unat_bounds(3) [of "max_steps m"] by linarith
    then show ?thesis by (simp add: unat_word_ariths)
  qed
  then have "tick m (st\<lparr>mt_caps := []\<rparr>) = (Inr (), ?st1)"
    using less.prems(2) by (simp add: tick_def Let_def word_less_nat_alt)
  then have try_here: "do_match m (Suc room) start 0 (st\<lparr>mt_caps := []\<rparr>) =
      (Inr (if take (length ?pat) (drop start ?src) = ?pat then Some (start + length ?pat) else None), ?st1)"
    by (simp add: literal_match_inner [OF assms(1)])
  note unfold = find_loop.simps [of m False 0 start st, unfolded room try_here]
  note window = window_position_step [of "drop start ?src" ?pat]
  show ?case
  proof (cases "take (length ?pat) (drop start ?src) = ?pat")
    case True
    then show ?thesis using unfold window by (simp add: matched_def)
  next
    case no: False
    show ?thesis
    proof (cases "start < length ?src")
      case True
      have "fst (find_loop m False 0 (start + 1) ?st1) = Inr (map_option
          (\<lambda>i. \<lparr>mr_start = start + 1 + i, mr_end = start + 1 + i + length ?pat, mr_captures = []\<rparr>)
          (window_position (drop (start + 1) ?src) ?pat))"
        using True less.prems(2) up by (intro less.hyps) simp_all
      moreover have "drop start ?src = ?src ! start # drop (start + 1) ?src"
        using True by (simp add: Cons_nth_drop_Suc)
      ultimately show ?thesis using unfold window no True by (simp add: option.map_comp comp_def)
    next
      case False
      then show ?thesis using unfold window no less.prems(1) by simp
    qed
  qed
qed

section \<open>Claims about string.find\<close>

text \<open>
  C34: The shortcut of \<^verbatim>\<open>string.find\<close> is sound. For a pattern without special bytes (and without a
  closing parenthesis, which the shortcut takes literally and the matcher rejects) the matcher,
  given one step for every start, returns exactly the first window of the source that equals the
  pattern, with no captures: what the shortcut computes without the matcher.
\<close>

theorem plain_search_agrees:
  assumes "\<not> pattern_has_special pat" "0x29 \<notin> set pat" "init0 \<le> length src"
    and "0 < pl_max_depth lim" "length src - init0 < unat (pl_max_steps lim)"
  shows "fst (find_match src pat init0 0 lim) =
    Inr (map_option (\<lambda>i. \<lparr>mr_start = init0 + i, mr_end = init0 + i + length pat, mr_captures = []\<rparr>)
      (window_position (drop init0 src) pat))"
proof -
  have lits: "list_all literal_byte pat"
    using assms(1,2) by (auto simp: pattern_has_special_def literal_byte_def list_all_iff list_ex_iff)
  then have "\<not> anchored pat"
    by (auto simp: anchored_def get_eq_Some literal_byte_def list_all_length)
  then show ?thesis
    using literal_find_loop [of "\<lparr>mt_src = src, mt_pat = pat, mt_limits = lim\<rparr>" init0 "\<lparr>mt_caps = [], mt_steps = 0\<rparr>"]
      lits assms(3-5) by (simp add: find_match_def unat_gt_0 min_absorb1 word_less_nat_alt)
qed

theorem plain_search_agrees_witness:
  "fst (find_match [0x61, 0x62, 0x63] [0x62, 0x63] 0 0 demo_limits) =
   Inr (Some \<lparr>mr_start = 1, mr_end = 3, mr_captures = []\<rparr>)"
  using plain_search_agrees [of "[0x62, 0x63]" 0 "[0x61, 0x62, 0x63]" demo_limits]
  by (simp add: pattern_has_special_def demo_limits_def window_position_def upt_rec)

end
