(* ===== verification/Pack.thy ===== *)
theory Pack
  imports Values Pattern String_Search
begin

text \<open>
  The binary format engine behind \<^verbatim>\<open>string.pack\<close>, \<^verbatim>\<open>string.packsize\<close> and \<^verbatim>\<open>string.unpack\<close>:
  \<^verbatim>\<open>ruau-vm/src/pack.rs\<close> (the format parser with its alignment rules, and the integer codec) and the
  loops over a format in \<^verbatim>\<open>builtins/string_lib.rs\<close>. Numbers are floats by their bits, as in \<open>Values\<close>;
  the conversions between the two float widths and the number formatter are parameters. The
  \<^verbatim>\<open>i32\<close> sizes are \<open>int\<close>: a size specifier is at most \<open>2 ^ 30\<close>. Running out of memory while a result is
  interned is left out.
\<close>

section \<open>Format strings\<close>

datatype koption = K_Int | K_Uint | K_Float | K_Char | K_Str | K_Zstr | K_Padding | K_PaddAlign | K_Nop

record pack_header =
  ph_little :: bool
  ph_maxalign :: int

record pack_fmt =
  pf_bytes :: bytes
  pf_pos :: nat

datatype pack_error =
    Size_Too_Large
  | Size_Out_Of_Limits int
  | Missing_Char_Size
  | Invalid_Option u8
  | Invalid_Next_Option
  | Alignment_Not_Power
  | Does_Not_Fit nat
  | Pack_Too_Large
  | Integer_Overflow
  | Unsigned_Overflow
  | Longer_Than_Size
  | Length_Does_Not_Fit
  | Contains_Zeros
  | Number_Expected
  | String_Expected
  | Variable_Length
  | Format_Too_Large
  | Position_Out_Of_String
  | Too_Many_Results
  | Data_Too_Short
  | Unfinished_Zstring
  | Pack_Panic

definition MAXSSIZE :: int where
  "MAXSSIZE = 2 ^ 30"

definition MAXINTSIZE :: int where
  "MAXINTSIZE = 16"

definition MAXALIGN :: int where
  "MAXALIGN = 8"

definition header_new :: pack_header where
  "header_new = \<lparr>ph_little = True, ph_maxalign = 1\<rparr>"

definition fmt_new :: "bytes \<Rightarrow> pack_fmt" where
  "fmt_new bs = \<lparr>pf_bytes = bs, pf_pos = 0\<rparr>"

definition peek :: "pack_fmt \<Rightarrow> u8 option" where
  "peek f = get (pf_bytes f) (pf_pos f)"

definition bump :: "pack_fmt \<Rightarrow> u8 option \<times> pack_fmt" where
  "bump f = (peek f, if peek f = None then f else f\<lparr>pf_pos := pf_pos f + 1\<rparr>)"

definition fmt_at_end :: "pack_fmt \<Rightarrow> bool" where
  "fmt_at_end f \<longleftrightarrow> length (pf_bytes f) \<le> pf_pos f"

definition peek_digit :: "pack_fmt \<Rightarrow> bool" where
  "peek_digit f = (case peek f of Some c \<Rightarrow> is_ascii_digit c | None \<Rightarrow> False)"

text \<open>The digits of a numeral; the second component is where the loop stopped.\<close>

function digits_loop :: "pack_fmt \<Rightarrow> int \<Rightarrow> int \<times> pack_fmt" where
  "digits_loop f a =
     (case peek f of
        None \<Rightarrow> (a, f)
      | Some c \<Rightarrow>
          let a' = a * 10 + (uint c - 0x30); f' = snd (bump f)
          in if peek_digit f' \<and> a' \<le> (2 ^ 31 - 1 - 9) div 10 then digits_loop f' a' else (a', f'))"
  by pat_completeness auto
termination
  by (relation "measure (\<lambda>(f, a). length (pf_bytes f) - pf_pos f)")
    (auto simp: bump_def peek_def get_eq_Some)

declare digits_loop.simps [simp del]

definition getnum :: "pack_fmt \<Rightarrow> int \<Rightarrow> pack_error + int \<times> pack_fmt" where
  "getnum f df =
     (if \<not> peek_digit f then Inr (df, f)
      else let (a, f') = digits_loop f 0
           in if MAXSSIZE < a \<or> peek_digit f' then Inl Size_Too_Large else Inr (a, f'))"

definition getnumlimit :: "pack_fmt \<Rightarrow> int \<Rightarrow> pack_error + int \<times> pack_fmt" where
  "getnumlimit f df =
     (case getnum f df of
        Inl e \<Rightarrow> Inl e
      | Inr (sz, f') \<Rightarrow> if MAXINTSIZE < sz \<or> sz \<le> 0 then Inl (Size_Out_Of_Limits sz) else Inr (sz, f'))"

text \<open>The options whose size a numeral may give.\<close>

definition sized_option ::
  "koption \<Rightarrow> pack_header \<Rightarrow> pack_fmt \<Rightarrow> pack_error + koption \<times> int \<times> pack_header \<times> pack_fmt" where
  "sized_option k h f = map_sum id (\<lambda>(sz, f'). (k, sz, h, f')) (getnumlimit f 4)"

definition getoption :: "pack_header \<Rightarrow> pack_fmt \<Rightarrow> pack_error + koption \<times> int \<times> pack_header \<times> pack_fmt" where
  "getoption h f0 =
     (let opt = (case peek f0 of Some c \<Rightarrow> c | None \<Rightarrow> 0x20); f = snd (bump f0)
      in if opt = 0x62 then Inr (K_Int, 1, h, f)
         else if opt = 0x42 then Inr (K_Uint, 1, h, f)
         else if opt = 0x68 then Inr (K_Int, 2, h, f)
         else if opt = 0x48 then Inr (K_Uint, 2, h, f)
         else if opt = 0x6C then Inr (K_Int, 8, h, f)
         else if opt = 0x4C then Inr (K_Uint, 8, h, f)
         else if opt = 0x6A then Inr (K_Int, 4, h, f)
         else if opt = 0x4A \<or> opt = 0x54 then Inr (K_Uint, 4, h, f)
         else if opt = 0x66 then Inr (K_Float, 4, h, f)
         else if opt = 0x64 \<or> opt = 0x6E then Inr (K_Float, 8, h, f)
         else if opt = 0x69 then sized_option K_Int h f
         else if opt = 0x49 then sized_option K_Uint h f
         else if opt = 0x73 then sized_option K_Str h f
         else if opt = 0x63 then
           (case getnum f (- 1) of
              Inl e \<Rightarrow> Inl e
            | Inr (sz, f') \<Rightarrow> if sz = - 1 then Inl Missing_Char_Size else Inr (K_Char, sz, h, f'))
         else if opt = 0x7A then Inr (K_Zstr, 0, h, f)
         else if opt = 0x78 then Inr (K_Padding, 1, h, f)
         else if opt = 0x58 then Inr (K_PaddAlign, 0, h, f)
         else if opt = 0x20 then Inr (K_Nop, 0, h, f)
         else if opt = 0x3C \<or> opt = 0x3D then Inr (K_Nop, 0, h\<lparr>ph_little := True\<rparr>, f)
         else if opt = 0x3E then Inr (K_Nop, 0, h\<lparr>ph_little := False\<rparr>, f)
         else if opt = 0x21 then
           (case getnumlimit f MAXALIGN of
              Inl e \<Rightarrow> Inl e
            | Inr (al, f') \<Rightarrow> Inr (K_Nop, 0, h\<lparr>ph_maxalign := al\<rparr>, f'))
         else Inl (Invalid_Option opt))"

text \<open>The padding in front of an item of alignment \<open>align\<close> at offset \<open>totalsize\<close>.\<close>

definition padding_for :: "koption \<Rightarrow> int \<Rightarrow> int \<Rightarrow> int \<Rightarrow> pack_error + int" where
  "padding_for opt align maxalign totalsize =
     (if align \<le> 1 \<or> opt = K_Char then Inr 0
      else let al = (if maxalign < align then maxalign else align)
           in if al AND (al - 1) \<noteq> 0 then Inl Alignment_Not_Power
              else Inr ((al - (totalsize AND (al - 1))) AND (al - 1)))"

definition getdetails ::
  "pack_header \<Rightarrow> int \<Rightarrow> pack_fmt \<Rightarrow> pack_error + koption \<times> int \<times> int \<times> pack_header \<times> pack_fmt" where
  "getdetails h totalsize f =
     (case getoption h f of
        Inl e \<Rightarrow> Inl e
      | Inr (opt, sz, h1, f1) \<Rightarrow>
          if opt = K_PaddAlign then
            (if fmt_at_end f1 then Inl Invalid_Next_Option
             else case getoption h1 f1 of
                    Inl e \<Rightarrow> Inl e
                  | Inr (opt2, a, h2, f2) \<Rightarrow>
                      if opt2 = K_Char \<or> a = 0 then Inl Invalid_Next_Option
                      else map_sum id (\<lambda>n. (opt, sz, n, h2, f2)) (padding_for opt a (ph_maxalign h2) totalsize))
          else map_sum id (\<lambda>n. (opt, sz, n, h1, f1)) (padding_for opt sz (ph_maxalign h1) totalsize))"

section \<open>Integers\<close>

definition slot :: "bool \<Rightarrow> nat \<Rightarrow> nat \<Rightarrow> nat" where
  "slot little sz i = (if little then i else sz - 1 - i)"

text \<open>\<^verbatim>\<open>packint\<close>: the buffer of sixteen bytes is filled from the least significant byte on.\<close>

definition packint :: "u64 \<Rightarrow> bool \<Rightarrow> nat \<Rightarrow> bool \<Rightarrow> bytes" where
  "packint n little sz neg =
     (let buff0 = (replicate 16 0)[slot little sz 0 := ucast (n AND 0xFF)];
          buff1 = snd (fold (\<lambda>i (n, buff). (drop_bit 8 n, buff[slot little sz i := ucast (drop_bit 8 n AND 0xFF)]))
            [1..<sz] (n, buff0));
          buff2 = (if neg \<and> 8 < sz then fold (\<lambda>i buff. buff[slot little sz i := 0xFF]) [8..<sz] buff1 else buff1)
      in take sz buff2)"

definition unpack_low :: "bytes \<Rightarrow> bool \<Rightarrow> nat \<Rightarrow> nat \<Rightarrow> u64" where
  "unpack_low data little sz limit =
     fold (\<lambda>i res. push_bit 8 res OR ucast (data ! slot little sz i)) (rev [0..<limit]) 0"

definition unpackint :: "bytes \<Rightarrow> bool \<Rightarrow> nat \<Rightarrow> bool \<Rightarrow> pack_error + i64" where
  "unpackint data little sz is_signed =
     (if length data < sz then Inl Pack_Panic
      else let limit = min sz 8; res = unpack_low data little sz limit
           in if sz < 8 then
                (let mask = push_bit (sz * 8 - 1) (1 :: u64)
                 in Inr (if is_signed then (res XOR mask) - mask else res))
              else if 8 < sz then
                (let fill = (if \<not> is_signed \<or> 0 \<le> sint res then 0 else 0xFF :: u8)
                 in if list_all (\<lambda>i. data ! slot little sz i = fill) [limit..<sz] then Inr res
                    else Inl (Does_Not_Fit sz))
              else Inr res)"

section \<open>The integer codec\<close>

definition pack_byte :: "u64 \<Rightarrow> bool \<Rightarrow> nat \<Rightarrow> u8" where
  "pack_byte n neg i = (if neg \<and> 8 \<le> i then 0xFF else ucast (drop_bit (8 * i) n))"

lemma slot_less: "i < sz \<Longrightarrow> slot little sz i < sz"
  by (simp add: slot_def)

lemma slot_inj: "i < sz \<Longrightarrow> j < sz \<Longrightarrow> slot little sz i = slot little sz j \<longleftrightarrow> i = j"
  by (auto simp: slot_def)

lemma low_byte: "ucast (n AND 0xFF :: u64) = (ucast n :: u8)"
proof -
  have mask: "(0xFF :: u64) = mask 8" by (simp add: mask_eq_exp_minus_1)
  show ?thesis unfolding mask by (rule bit_word_eqI) (auto simp: bit_simps)
qed

lemma drop_bit_beyond: "64 \<le> k \<Longrightarrow> drop_bit k (n :: u64) = 0"
  using bit_imp_le_length [of n] by (intro bit_word_eqI) (fastforce simp: bit_simps)

lemma packint_fill:
  assumes "sz \<le> length buff" "k \<le> sz" "j < sz"
  shows "length (fold (\<lambda>i buff. buff[slot little sz i := x]) [a..<k] buff) = length buff \<and>
    fold (\<lambda>i buff. buff[slot little sz i := x]) [a..<k] buff ! slot little sz j =
      (if a \<le> j \<and> j < k then x else buff ! slot little sz j)"
  using assms(2)
proof (induction k)
  case (Suc k)
  show ?case
  proof (cases "a \<le> k")
    case True
    then show ?thesis using Suc assms slot_less [of j sz little] slot_inj [of k sz j little]
      by (auto simp: nth_list_update less_Suc_eq)
  qed (use Suc assms in auto)
qed simp

lemma packint_shift:
  fixes n :: u64 and buff :: bytes
  assumes "sz \<le> length buff" "0 < k" "k \<le> sz" "j < sz" "buff ! slot little sz 0 = ucast n"
  shows "let (n', buff') = fold (\<lambda>i (n, buff). (drop_bit 8 n, buff[slot little sz i := ucast (drop_bit 8 n AND 0xFF)]))
      [1..<k] (n, buff)
    in n' = drop_bit (8 * (k - 1)) n \<and> length buff' = length buff \<and>
       buff' ! slot little sz j = (if j < k then ucast (drop_bit (8 * j) n) else buff ! slot little sz j)"
  using assms(2,3)
proof (induction k)
  case (Suc k)
  show ?case
  proof (cases "k = 0")
    case True
    then show ?thesis using assms by auto
  next
    case False
    let ?f = "fold (\<lambda>i (n, buff). (drop_bit 8 n, buff[slot little sz i := ucast (drop_bit 8 n AND 0xFF)]))
      [1..<k] (n, buff)"
    obtain n' buff' where f: "?f = (n', buff')" by (cases ?f)
    have IH: "n' = drop_bit (8 * (k - 1)) n" "length buff' = length buff"
      "buff' ! slot little sz j = (if j < k then ucast (drop_bit (8 * j) n) else buff ! slot little sz j)"
      using Suc.IH [unfolded f Let_def prod.case] Suc.prems False by simp_all
    have upt: "[1..<Suc k] = [1..<k] @ [k]" using False by simp
    have n': "drop_bit 8 n' = drop_bit (8 * k) n"
      using False IH(1) by (cases k) (simp_all add: algebra_simps)
    have "buff'[slot little sz k := ucast (drop_bit (8 * k) n)] ! slot little sz j =
        (if j < Suc k then ucast (drop_bit (8 * j) n) else buff ! slot little sz j)"
      using IH(2,3) Suc.prems assms(1,4) slot_less [of j sz little] slot_inj [of k sz j little]
      by (auto simp: nth_list_update less_Suc_eq)
    then show ?thesis using IH(2) unfolding upt fold_append comp_apply f by (simp add: n' low_byte [of "drop_bit (8 * k) n"])
  qed
qed simp

lemma packint_nth:
  assumes "0 < sz" "sz \<le> 16" "i < sz"
  shows "length (packint n little sz neg) = sz \<and> packint n little sz neg ! slot little sz i = pack_byte n neg i"
proof -
  let ?b0 = "(replicate 16 (0 :: u8))[slot little sz 0 := ucast (n AND 0xFF)]"
  let ?f = "fold (\<lambda>i (n, buff). (drop_bit 8 n, buff[slot little sz i := ucast (drop_bit 8 n AND 0xFF)]))
      [1..<sz] (n, ?b0)"
  obtain n' b1 where f: "?f = (n', b1)" by (cases ?f)
  have b0: "?b0 ! slot little sz 0 = ucast n" using assms slot_less [of 0 sz little] by (simp add: low_byte)
  have len0: "sz \<le> length ?b0" using assms by simp
  note shift = packint_shift [OF len0 assms(1) order_refl assms(3) b0, unfolded f Let_def prod.case]
  have b1: "length b1 = 16" "b1 ! slot little sz i = ucast (drop_bit (8 * i) n)"
    using shift assms(3) by simp_all
  have b2: "length (fold (\<lambda>i buff. buff[slot little sz i := 0xFF]) [8..<sz] b1) = 16"
    "fold (\<lambda>i buff. buff[slot little sz i := 0xFF]) [8..<sz] b1 ! slot little sz i =
      (if 8 \<le> i then 0xFF else b1 ! slot little sz i)"
    using packint_fill [of sz b1 sz i little "0xFF" 8] assms b1(1) by simp_all
  show ?thesis using assms b1 b2 f slot_less [OF assms(3), of little]
    by (auto simp: packint_def Let_def pack_byte_def)
qed

lemma fold_bytes:
  "fold (\<lambda>i res. push_bit 8 res OR ucast (ucast (drop_bit (8 * i) n) :: u8)) (rev [0..<k]) (r :: u64) =
   push_bit (8 * k) r OR take_bit (8 * k) n"
proof (induction k arbitrary: r)
  case (Suc k)
  have "push_bit (8 * k) (push_bit 8 r OR ucast (ucast (drop_bit (8 * k) n) :: u8)) OR take_bit (8 * k) n =
      push_bit (8 * Suc k) r OR take_bit (8 * Suc k) n"
    by (rule bit_word_eqI) (auto simp: bit_simps ac_simps)
  then show ?case using Suc by simp
qed simp

lemma unpack_low_packed:
  assumes "0 < sz" "sz \<le> 16" "length data = sz" "limit \<le> sz" "limit \<le> 8"
    and "\<And>i. i < sz \<Longrightarrow> data ! slot little sz i = pack_byte n neg i"
  shows "unpack_low data little sz limit = take_bit (8 * limit) n"
proof -
  have "unpack_low data little sz limit =
      fold (\<lambda>i res. push_bit 8 res OR ucast (ucast (drop_bit (8 * i) n) :: u8)) (rev [0..<limit]) 0"
    unfolding unpack_low_def
    by (rule fold_cong) (use assms in \<open>auto simp: pack_byte_def\<close>)
  then show ?thesis by (simp add: fold_bytes)
qed

text \<open>Folding the sign bit of the low bytes out over the whole word.\<close>

lemma sign_extend: "(take_bit (Suc k) n XOR push_bit k 1) - push_bit k 1 = (signed_take_bit k n :: u64)"
proof (cases "bit n k")
  case True
  have "take_bit (Suc k) n XOR push_bit k 1 = take_bit k n"
    using True by (intro bit_word_eqI) (auto simp: bit_simps less_Suc_eq)
  moreover have "take_bit k n + NOT (mask k) = take_bit k n OR NOT (mask k)"
    by (intro disjunctive_add_eq_or bit_word_eqI) (auto simp: bit_simps)
  ultimately show ?thesis
    using True by (simp add: signed_take_bit_eq_if_negative push_bit_of_1 diff_conv_add_uminus minus_exp_eq_not_mask
        del: add_uminus_conv_diff)
next
  case False
  have "take_bit (Suc k) n XOR push_bit k 1 = take_bit k n XOR push_bit k 1"
    using False by (intro bit_word_eqI) (auto simp: bit_simps less_Suc_eq)
  also have "\<dots> = take_bit k n + push_bit k 1"
    by (intro disjunctive_add_eq_xor [symmetric] bit_word_eqI) (auto simp: bit_simps)
  finally show ?thesis using False by (simp add: signed_take_bit_eq_if_positive)
qed

lemma signed_take_bit_small:
  assumes "k < 64" "- (2 ^ k) \<le> sint n" "sint n < 2 ^ k"
  shows "signed_take_bit k n = (n :: u64)"
proof -
  have "63 \<le> k \<Longrightarrow> k = 63" using assms(1) by simp
  then have "signed_take_bit k n = word_of_int (signed_take_bit k (sint n))"
    by (intro bit_word_eqI) (auto simp: bit_simps min_def)
  also have "signed_take_bit k (sint n) = sint n" using assms(2,3) by (rule signed_take_bit_int_eq_self)
  finally show ?thesis by simp
qed

definition fits_signed :: "nat \<Rightarrow> i64 \<Rightarrow> bool" where
  "fits_signed sz n \<longleftrightarrow> 8 \<le> sz \<or> - (2 ^ (8 * sz - 1)) \<le> sint n \<and> sint n < 2 ^ (8 * sz - 1)"

definition fits_unsigned :: "nat \<Rightarrow> u64 \<Rightarrow> bool" where
  "fits_unsigned sz n \<longleftrightarrow> 8 \<le> sz \<or> unat n < 2 ^ (8 * sz)"

lemma take_bit_all [simp]: "take_bit 64 (n :: u64) = n"
  by (simp add: take_bit_word_eq_self)

lemma unpackint_packed:
  assumes "0 < sz" "sz \<le> 16" "length data = sz"
    and "\<And>i. i < sz \<Longrightarrow> data ! slot little sz i = pack_byte n neg i"
    and "if is_signed then neg = (sint n < 0) \<and> fits_signed sz n else \<not> neg \<and> fits_unsigned sz n"
  shows "unpackint data little sz is_signed = Inr n"
proof -
  have low: "unpack_low data little sz (min sz 8) = take_bit (8 * min sz 8) n"
    using unpack_low_packed [OF assms(1-3) _ _ assms(4), of "min sz 8"] by simp
  consider (short) "sz < 8" | (word) "sz = 8" | (wide) "8 < sz" by linarith
  then show ?thesis
  proof cases
    case short
    define k where "k = 8 * sz - 1"
    have k: "8 * sz = Suc k" "sz * 8 - 1 = k" "8 * sz - 1 = k" "k < 64" using assms(1) short by (simp_all add: k_def)
    have "take_bit (8 * sz) n = n" if "\<not> is_signed"
      using assms(5) that short by (simp add: fits_unsigned_def word_unat_eq_iff unsigned_take_bit_eq take_bit_nat_eq_self)
    moreover have "(take_bit (8 * sz) n XOR push_bit (sz * 8 - 1) 1) - push_bit (sz * 8 - 1) 1 = n" if "is_signed"
      unfolding k(1,2) sign_extend
      by (rule signed_take_bit_small [OF k(4)]) (use assms(5) that short in \<open>simp_all add: fits_signed_def k_def\<close>)
    ultimately show ?thesis using short low assms(3) by (auto simp: unpackint_def Let_def min_def)
  next
    case word
    then show ?thesis using low assms(3) by (simp add: unpackint_def Let_def)
  next
    case wide
    then have "list_all (\<lambda>i. data ! slot little sz i = (if \<not> is_signed \<or> 0 \<le> sint n then 0 else 0xFF)) [8..<sz]"
      using assms(4,5) by (auto simp: list_all_iff pack_byte_def drop_bit_beyond split: if_splits)
    then show ?thesis using wide low assms(3) by (simp add: unpackint_def Let_def min_def)
  qed
qed

text \<open>Reading from a position of a longer string, in either byte order.\<close>

lemma unpackint_prefix:
  "sz \<le> length data \<Longrightarrow> unpackint data little sz is_signed = unpackint (take sz data) little sz is_signed"
proof -
  assume sz: "sz \<le> length data"
  have low: "unpack_low data little sz (min sz 8) = unpack_low (take sz data) little sz (min sz 8)"
    unfolding unpack_low_def by (rule fold_cong) (auto simp: slot_def)
  have high: "list_all (\<lambda>i. data ! slot little sz i = x) [a..<sz] = list_all (\<lambda>i. take sz data ! slot little sz i = x) [a..<sz]" for a x
    by (auto simp: list_all_iff slot_def)
  have "\<not> length data < sz" "\<not> length (take sz data) < sz" using sz by simp_all
  then show ?thesis unfolding unpackint_def Let_def by (simp only: low high)
qed

lemma unpackint_packint:
  assumes "0 < sz" "sz \<le> 16"
    and "if is_signed then neg = (sint n < 0) \<and> fits_signed sz n else \<not> neg \<and> fits_unsigned sz n"
  shows "unpackint (packint n little sz neg @ rest) little sz is_signed = Inr n"
proof -
  have len: "length (packint n little sz neg) = sz" using packint_nth [OF assms(1,2,1)] by simp
  have "unpackint (packint n little sz neg) little sz is_signed = Inr n"
    using packint_nth [OF assms(1,2)] by (intro unpackint_packed [OF assms(1,2) len _ assms(3)]) auto
  then show ?thesis using unpackint_prefix [of sz "packint n little sz neg @ rest"] len by simp
qed

end
