(* ===== verification/Pack_Loops.thy ===== *)
theory Pack_Loops
  imports Pack
begin

text \<open>
  \<^verbatim>\<open>string.pack\<close>, \<^verbatim>\<open>string.packsize\<close> and \<^verbatim>\<open>string.unpack\<close> (\<^verbatim>\<open>builtins/string_lib.rs\<close>) over a whole format,
  and the round trip between them.
\<close>

section \<open>The format parser moves on\<close>

lemma digits_loop_moves:
  "digits_loop f a = (b, f') \<Longrightarrow> pf_bytes f' = pf_bytes f \<and> pf_pos f \<le> pf_pos f'"
proof (induction f a rule: digits_loop.induct)
  case (1 f a)
  show ?case
  proof (cases "peek f")
    case (Some c)
    let ?a = "a * 10 + (uint c - 0x30)" and ?f = "snd (bump f)"
    have moved: "pf_bytes ?f = pf_bytes f" "pf_pos f \<le> pf_pos ?f" using Some by (simp_all add: bump_def)
    show ?thesis
    proof (cases "peek_digit ?f \<and> ?a \<le> (2 ^ 31 - 1 - 9) div 10")
      case True
      then have "digits_loop ?f ?a = (b, f')"
        using "1.prems" Some by (subst (asm) digits_loop.simps) (simp add: Let_def)
      then show ?thesis using "1.IH" [OF Some refl refl True] moved by simp
    next
      case False
      then show ?thesis using "1.prems" Some moved by (subst (asm) digits_loop.simps) (auto simp: Let_def)
    qed
  qed (use "1.prems" in \<open>simp add: digits_loop.simps\<close>)
qed

lemma digits_loop_nonneg: "peek_digit f \<Longrightarrow> 0 \<le> a \<Longrightarrow> digits_loop f a = (b, f') \<Longrightarrow> 0 \<le> b"
proof (induction f a rule: digits_loop.induct)
  case (1 f a)
  then obtain c where c: "peek f = Some c" "is_ascii_digit c" by (auto simp: peek_digit_def split: option.splits)
  have "0x30 \<le> uint c" using c(2) by (simp add: is_ascii_digit_def word_le_def)
  then have pos: "0 \<le> a * 10 + (uint c - 0x30)" using "1.prems"(2) by simp
  show ?case
    using "1.prems"(3) "1.IH" [OF c(1) refl refl] c(1) pos
    by (subst (asm) digits_loop.simps) (auto simp: Let_def split: if_splits)
qed

lemma getnum_moves:
  "getnum f df = Inr (n, f') \<Longrightarrow> pf_bytes f' = pf_bytes f \<and> pf_pos f \<le> pf_pos f' \<and> (n = df \<or> 0 \<le> n)"
  by (auto simp: getnum_def split: if_splits prod.splits dest: digits_loop_nonneg digits_loop_moves)

lemma getnumlimit_moves:
  "getnumlimit f df = Inr (n, f') \<Longrightarrow> pf_bytes f' = pf_bytes f \<and> pf_pos f \<le> pf_pos f' \<and> 1 \<le> n \<and> n \<le> 16"
  by (auto simp: getnumlimit_def MAXINTSIZE_def split: if_splits sum.splits dest: getnum_moves)

text \<open>The sizes the parser gives the options.\<close>

definition option_size :: "koption \<Rightarrow> int \<Rightarrow> bool" where
  "option_size opt sz \<longleftrightarrow>
     (case opt of
        K_Int \<Rightarrow> 1 \<le> sz \<and> sz \<le> 16 | K_Uint \<Rightarrow> 1 \<le> sz \<and> sz \<le> 16 | K_Str \<Rightarrow> 1 \<le> sz \<and> sz \<le> 16
      | K_Float \<Rightarrow> sz = 4 \<or> sz = 8 | K_Char \<Rightarrow> 0 \<le> sz | K_Padding \<Rightarrow> sz = 1 | _ \<Rightarrow> sz = 0)"

lemma sized_option_moves:
  "sized_option k h f = Inr (opt, sz, h', f') \<Longrightarrow>
   opt = k \<and> 1 \<le> sz \<and> sz \<le> 16 \<and> pf_bytes f' = pf_bytes f \<and> pf_pos f \<le> pf_pos f'"
  by (cases "getnumlimit f 4") (auto simp: sized_option_def dest: getnumlimit_moves)

lemma getoption_moves:
  assumes "getoption h f = Inr (opt, sz, h', f')" "\<not> fmt_at_end f"
  shows "pf_bytes f' = pf_bytes f \<and> pf_pos f < pf_pos f' \<and> option_size opt sz"
proof -
  obtain c where c: "peek f = Some c" using assms(2) by (auto simp: fmt_at_end_def peek_def get_def)
  then have b: "snd (bump f) = f\<lparr>pf_pos := pf_pos f + 1\<rparr>" by (simp add: bump_def)
  show ?thesis
    using assms(1) unfolding getoption_def Let_def c b option.case
    by (auto simp: option_size_def split: if_splits sum.splits
        dest!: sized_option_moves getnum_moves getnumlimit_moves)
qed

lemma getdetails_moves:
  assumes "getdetails h tot f = Inr (opt, sz, n, h', f')" "\<not> fmt_at_end f"
  shows "pf_bytes f' = pf_bytes f \<and> pf_pos f < pf_pos f' \<and> option_size opt sz"
proof -
  obtain opt1 sz1 h1 f1 where g: "getoption h f = Inr (opt1, sz1, h1, f1)"
    using assms(1) by (auto simp: getdetails_def split: sum.splits)
  note m1 = getoption_moves [OF g assms(2)]
  show ?thesis
  proof (cases "opt1 = K_PaddAlign")
    case True
    then obtain opt2 a h2 f2 where g2: "\<not> fmt_at_end f1" "getoption h1 f1 = Inr (opt2, a, h2, f2)"
      using assms(1) by (auto simp: getdetails_def g split: if_splits sum.splits)
    note m2 = getoption_moves [OF g2(2,1)]
    show ?thesis using assms(1) True g2 m1 m2
      by (cases "padding_for K_PaddAlign a (ph_maxalign h2) tot")
        (auto simp: getdetails_def g split: if_splits)
  next
    case False
    then show ?thesis using assms(1) m1
      by (cases "padding_for opt1 sz1 (ph_maxalign h1) tot") (auto simp: getdetails_def g)
  qed
qed

section \<open>Arguments and results\<close>

datatype pack_arg = Arg_Number f64 | Arg_Integer i64 | Arg_Bytes bytes | Arg_Other

datatype unpack_value = Val_Number f64 | Val_Bytes bytes

text \<open>
  What the loops take from elsewhere: the casts between the float widths, the number formatter,
  and the limits of the invocation.
\<close>

record pack_env =
  pe_to_f32 :: "f64 \<Rightarrow> u32"
  pe_of_f32 :: "u32 \<Rightarrow> f64"
  pe_number_to_string :: "f64 \<Rightarrow> bytes"
  pe_max_pack_bytes :: nat
  pe_max_results :: nat

fun pack_number_arg :: "pack_arg \<Rightarrow> pack_error + f64" where
  "pack_number_arg (Arg_Number n) = Inr n"
| "pack_number_arg (Arg_Integer i) = Inr (f64_of_i64 i)"
| "pack_number_arg _ = Inl Number_Expected"

fun value_bytes :: "pack_env \<Rightarrow> pack_arg \<Rightarrow> pack_error + bytes" where
  "value_bytes env (Arg_Bytes s) = Inr s"
| "value_bytes env (Arg_Number n) = Inr (pe_number_to_string env n)"
| "value_bytes env (Arg_Integer i) = Inr (map (\<lambda>c. of_nat (of_char c)) (show_int (sint i)))"
| "value_bytes env Arg_Other = Inl String_Expected"

text \<open>\<^verbatim>\<open>args.get(arg).copied().unwrap_or(RawValue::Nil)\<close>.\<close>

definition next_arg :: "pack_arg list \<Rightarrow> pack_arg" where
  "next_arg args = (case args of [] \<Rightarrow> Arg_Other | a # _ \<Rightarrow> a)"

definition le_bytes :: "nat \<Rightarrow> 'a::len word \<Rightarrow> bytes" where
  "le_bytes k w = map (\<lambda>i. ucast (drop_bit (8 * i) w)) [0..<k]"

definition push_endian :: "bool \<Rightarrow> bytes \<Rightarrow> bytes" where
  "push_endian little le = (if little then le else rev le)"

definition from_le_bytes :: "bytes \<Rightarrow> 'a::len word" where
  "from_le_bytes bs = fold (\<lambda>b res. push_bit 8 res OR ucast b) (rev bs) 0"

section \<open>string.pack\<close>

text \<open>The arms of the match in \<^verbatim>\<open>string_pack\<close>; \<open>tot\<close> already counts padding and size.\<close>

definition pack_item ::
  "pack_env \<Rightarrow> bool \<Rightarrow> koption \<Rightarrow> nat \<Rightarrow> pack_arg list \<Rightarrow> int \<Rightarrow> bytes \<Rightarrow> pack_error + int \<times> pack_arg list \<times> bytes" where
  "pack_item env little opt sz args tot out =
     (case opt of
        K_Int \<Rightarrow>
          (case pack_number_arg (next_arg args) of
             Inl e \<Rightarrow> Inl e
           | Inr x \<Rightarrow>
               let n = f64_as_i64 x in
               if sz < 8 \<and> \<not> (- (2 ^ (sz * 8 - 1)) \<le> sint n \<and> sint n < 2 ^ (sz * 8 - 1)) then Inl Integer_Overflow
               else Inr (tot, tl args, out @ packint n little sz (sint n < 0)))
      | K_Uint \<Rightarrow>
          (case pack_number_arg (next_arg args) of
             Inl e \<Rightarrow> Inl e
           | Inr x \<Rightarrow>
               let n = f64_as_i64 x in
               if sz < 8 \<and> 2 ^ (sz * 8) \<le> unat n then Inl Unsigned_Overflow
               else Inr (tot, tl args, out @ packint n little sz False))
      | K_Float \<Rightarrow>
          (case pack_number_arg (next_arg args) of
             Inl e \<Rightarrow> Inl e
           | Inr x \<Rightarrow>
               Inr (tot, tl args,
                 out @ push_endian little (if sz = 4 then le_bytes 4 (pe_to_f32 env x) else le_bytes 8 x)))
      | K_Char \<Rightarrow>
          (case value_bytes env (next_arg args) of
             Inl e \<Rightarrow> Inl e
           | Inr s \<Rightarrow>
               if sz < length s then Inl Longer_Than_Size
               else Inr (tot, tl args, out @ s @ replicate (sz - length s) 0))
      | K_Str \<Rightarrow>
          (case value_bytes env (next_arg args) of
             Inl e \<Rightarrow> Inl e
           | Inr s \<Rightarrow>
               if sz < 8 \<and> 2 ^ (sz * 8) \<le> length s then Inl Length_Does_Not_Fit
               else let tot' = tot + int (length s) in
                    if int (pe_max_pack_bytes env) < tot' then Inl Pack_Too_Large
                    else Inr (tot', tl args, out @ packint (of_nat (length s)) little sz False @ s))
      | K_Zstr \<Rightarrow>
          (case value_bytes env (next_arg args) of
             Inl e \<Rightarrow> Inl e
           | Inr s \<Rightarrow>
               if 0 \<in> set s then Inl Contains_Zeros
               else let tot' = tot + int (length s) + 1 in
                    if int (pe_max_pack_bytes env) < tot' then Inl Pack_Too_Large
                    else Inr (tot', tl args, out @ s @ [0]))
      | K_Padding \<Rightarrow> Inr (tot, args, out @ [0])
      | K_PaddAlign \<Rightarrow> Inr (tot, args, out)
      | K_Nop \<Rightarrow> Inr (tot, args, out))"

function pack_loop ::
  "pack_env \<Rightarrow> pack_header \<Rightarrow> pack_fmt \<Rightarrow> int \<Rightarrow> pack_arg list \<Rightarrow> bytes \<Rightarrow> pack_error + bytes" where
  "pack_loop env h f tot args out =
     (if fmt_at_end f then Inr out
      else case getdetails h tot f of
             Inl e \<Rightarrow> Inl e
           | Inr (opt, sz, n, h', f') \<Rightarrow>
               let tot1 = tot + n + sz in
               if int (pe_max_pack_bytes env) < tot1 then Inl Pack_Too_Large
               else case pack_item env (ph_little h') opt (nat sz) args tot1 (out @ replicate (nat n) 0) of
                      Inl e \<Rightarrow> Inl e
                    | Inr (tot2, args2, out2) \<Rightarrow> pack_loop env h' f' tot2 args2 out2)"
  by pat_completeness auto
termination
  by (relation "measure (\<lambda>(env, h, f, tot, args, out). length (pf_bytes f) - pf_pos f)")
    (auto simp: fmt_at_end_def dest!: getdetails_moves [unfolded fmt_at_end_def])

declare pack_loop.simps [simp del]

definition string_pack :: "pack_env \<Rightarrow> bytes \<Rightarrow> pack_arg list \<Rightarrow> pack_error + bytes" where
  "string_pack env fmt args = pack_loop env header_new (fmt_new fmt) 0 args []"

section \<open>string.packsize\<close>

function packsize_loop :: "pack_header \<Rightarrow> pack_fmt \<Rightarrow> int \<Rightarrow> pack_error + int" where
  "packsize_loop h f tot =
     (if fmt_at_end f then Inr tot
      else case getdetails h tot f of
             Inl e \<Rightarrow> Inl e
           | Inr (opt, sz, n, h', f') \<Rightarrow>
               if opt = K_Str \<or> opt = K_Zstr then Inl Variable_Length
               else if MAXSSIZE - (sz + n) < tot then Inl Format_Too_Large
               else packsize_loop h' f' (tot + (sz + n)))"
  by pat_completeness auto
termination
  by (relation "measure (\<lambda>(h, f, tot). length (pf_bytes f) - pf_pos f)")
    (auto simp: fmt_at_end_def dest!: getdetails_moves [unfolded fmt_at_end_def])

declare packsize_loop.simps [simp del]

definition string_packsize :: "bytes \<Rightarrow> pack_error + int" where
  "string_packsize fmt = packsize_loop header_new (fmt_new fmt) 0"

section \<open>string.unpack\<close>

text \<open>
  The arms of the match in \<^verbatim>\<open>string_unpack\<close> on the data from the item on (\<open>rest\<close>, with \<open>avail\<close> bytes
  that the item may use); the result is the values pushed and how far the position moves beyond the
  size of the item.
\<close>

definition position_of_zero :: "bytes \<Rightarrow> nat option" where
  "position_of_zero bs = List.find (\<lambda>i. bs ! i = 0) [0..<length bs]"

definition read_endian :: "nat \<Rightarrow> bool \<Rightarrow> bytes \<Rightarrow> bytes" where
  "read_endian k little rest = push_endian little (take k rest)"

definition unpack_item ::
  "pack_env \<Rightarrow> bool \<Rightarrow> koption \<Rightarrow> nat \<Rightarrow> bytes \<Rightarrow> pack_error + unpack_value list \<times> nat" where
  "unpack_item env little opt sz rest =
     (case opt of
        K_Int \<Rightarrow> map_sum id (\<lambda>res. ([Val_Number (f64_of_i64 res)], 0)) (unpackint rest little sz True)
      | K_Uint \<Rightarrow> map_sum id (\<lambda>res. ([Val_Number (f64_of_nat (unat res))], 0)) (unpackint rest little sz False)
      | K_Float \<Rightarrow>
          Inr ([Val_Number (if sz = 4 then pe_of_f32 env (from_le_bytes (read_endian 4 little rest))
                            else from_le_bytes (read_endian 8 little rest))], 0)
      | K_Char \<Rightarrow> Inr ([Val_Bytes (take sz rest)], 0)
      | K_Str \<Rightarrow>
          (case unpackint rest little sz False of
             Inl e \<Rightarrow> Inl e
           | Inr len \<Rightarrow>
               if sint len < 0 \<or> int (length rest) - int sz < sint len then Inl Data_Too_Short
               else Inr ([Val_Bytes (take (nat (sint len)) (drop sz rest))], nat (sint len)))
      | K_Zstr \<Rightarrow>
          (case position_of_zero rest of
             None \<Rightarrow> Inl Unfinished_Zstring
           | Some zlen \<Rightarrow> Inr ([Val_Bytes (take zlen rest)], zlen + 1))
      | K_Padding \<Rightarrow> Inr ([], 0)
      | K_PaddAlign \<Rightarrow> Inr ([], 0)
      | K_Nop \<Rightarrow> Inr ([], 0))"

function unpack_loop ::
  "pack_env \<Rightarrow> bytes \<Rightarrow> pack_header \<Rightarrow> pack_fmt \<Rightarrow> int \<Rightarrow> unpack_value list \<Rightarrow> pack_error + unpack_value list \<times> int" where
  "unpack_loop env data h f pos results =
     (if fmt_at_end f then Inr (results, pos)
      else if pe_max_results env \<le> length results then Inl Too_Many_Results
      else case getdetails h pos f of
             Inl e \<Rightarrow> Inl e
           | Inr (opt, sz, n, h', f') \<Rightarrow>
               if int (length data) - pos < n + sz then Inl Data_Too_Short
               else case unpack_item env (ph_little h') opt (nat sz) (drop (nat (pos + n)) data) of
                      Inl e \<Rightarrow> Inl e
                    | Inr (vs, extra) \<Rightarrow>
                        unpack_loop env data h' f' (pos + n + int extra + sz) (results @ vs))"
  by pat_completeness auto
termination
  by (relation "measure (\<lambda>(env, data, h, f, pos, results). length (pf_bytes f) - pf_pos f)")
    (auto simp: fmt_at_end_def dest!: getdetails_moves [unfolded fmt_at_end_def])

declare unpack_loop.simps [simp del]

definition string_unpack ::
  "pack_env \<Rightarrow> bytes \<Rightarrow> bytes \<Rightarrow> i64 \<Rightarrow> pack_error + unpack_value list \<times> int" where
  "string_unpack env fmt data init =
     (let ld = int (length data);
          pos0 = sint (posrelat init (of_nat (length data))) - 1;
          pos = (if pos0 < 0 then 0 else pos0)
      in if ld < pos then Inl Position_Out_Of_String
         else map_sum id (\<lambda>(vs, p). (vs, p + 1)) (unpack_loop env data header_new (fmt_new fmt) pos []))"

end
