(* ===== verification/Pack_Spec.thy ===== *)
theory Pack_Spec
  imports Pack_Loops
begin

text \<open>
  Packing and unpacking are inverse: what \<^verbatim>\<open>string.unpack\<close> reads from the output of \<^verbatim>\<open>string.pack\<close>
  under the same format are the packed values, as the format keeps them, and the position behind them.
\<close>

section \<open>What a format keeps of its arguments\<close>

definition arg_number :: "pack_arg \<Rightarrow> f64" where
  "arg_number a = (case pack_number_arg a of Inr x \<Rightarrow> x | Inl _ \<Rightarrow> 0)"

definition arg_bytes :: "pack_env \<Rightarrow> pack_arg \<Rightarrow> bytes" where
  "arg_bytes env a = (case value_bytes env a of Inr s \<Rightarrow> s | Inl _ \<Rightarrow> [])"

definition takes_value :: "koption \<Rightarrow> bool" where
  "takes_value opt \<longleftrightarrow> opt \<notin> {K_Padding, K_PaddAlign, K_Nop}"

text \<open>
  Integers are truncated to 64 bits, floats of four bytes rounded, fixed-size strings padded with
  zeros; strings with a length or a terminator and floats of eight bytes are kept as they are.
\<close>

definition read_back_item :: "pack_env \<Rightarrow> koption \<Rightarrow> nat \<Rightarrow> pack_arg \<Rightarrow> unpack_value list" where
  "read_back_item env opt sz a =
     (case opt of
        K_Int \<Rightarrow> [Val_Number (f64_of_i64 (f64_as_i64 (arg_number a)))]
      | K_Uint \<Rightarrow> [Val_Number (f64_of_nat (unat (f64_as_i64 (arg_number a))))]
      | K_Float \<Rightarrow> [Val_Number (if sz = 4 then pe_of_f32 env (pe_to_f32 env (arg_number a)) else arg_number a)]
      | K_Char \<Rightarrow> [Val_Bytes (arg_bytes env a @ replicate (sz - length (arg_bytes env a)) 0)]
      | K_Str \<Rightarrow> [Val_Bytes (arg_bytes env a)]
      | K_Zstr \<Rightarrow> [Val_Bytes (arg_bytes env a)]
      | _ \<Rightarrow> [])"

function read_back :: "pack_env \<Rightarrow> pack_header \<Rightarrow> pack_fmt \<Rightarrow> pack_arg list \<Rightarrow> unpack_value list" where
  "read_back env h f args =
     (if fmt_at_end f then []
      else case getdetails h 0 f of
             Inl _ \<Rightarrow> []
           | Inr (opt, sz, n, h', f') \<Rightarrow>
               read_back_item env opt (nat sz) (next_arg args) @
               read_back env h' f' (if takes_value opt then tl args else args))"
  by pat_completeness auto
termination
  by (relation "measure (\<lambda>(env, h, f, args). length (pf_bytes f) - pf_pos f)")
    (auto simp: fmt_at_end_def dest!: getdetails_moves [unfolded fmt_at_end_def])

declare read_back.simps [simp del]

section \<open>Details of an option\<close>

lemma getoption_maxalign:
  assumes "getoption h f = Inr (opt, sz, h', f')" "1 \<le> ph_maxalign h"
  shows "1 \<le> ph_maxalign h'"
  using assms unfolding getoption_def Let_def sized_option_def
  by (auto split: if_splits sum.splits dest!: getnumlimit_moves simp: map_sum_def)

lemma padding_nonneg: "padding_for opt al m tot = Inr n \<Longrightarrow> 1 \<le> m \<Longrightarrow> 0 \<le> n"
  by (auto simp: padding_for_def Let_def split: if_splits)

lemma padding_any_total:
  "padding_for opt al m tot = Inr n \<Longrightarrow> \<exists>n'. padding_for opt al m tot' = Inr n'"
  by (auto simp: padding_for_def Let_def split: if_splits)

lemma getdetails_maxalign:
  assumes "getdetails h tot f = Inr (opt, sz, n, h', f')" "1 \<le> ph_maxalign h"
  shows "1 \<le> ph_maxalign h' \<and> 0 \<le> n"
proof -
  obtain opt1 sz1 h1 f1 where g: "getoption h f = Inr (opt1, sz1, h1, f1)"
    using assms(1) by (auto simp: getdetails_def split: sum.splits)
  note m1 = getoption_maxalign [OF g assms(2)]
  show ?thesis
  proof (cases "opt1 = K_PaddAlign")
    case True
    then obtain opt2 a h2 f2 where g2: "getoption h1 f1 = Inr (opt2, a, h2, f2)"
      using assms(1) by (auto simp: getdetails_def g split: if_splits sum.splits)
    show ?thesis using assms(1) True g2 getoption_maxalign [OF g2 m1]
      by (cases "padding_for K_PaddAlign a (ph_maxalign h2) tot")
        (auto simp: getdetails_def g split: if_splits dest: padding_nonneg)
  next
    case False
    then show ?thesis using assms(1) m1
      by (cases "padding_for opt1 sz1 (ph_maxalign h1) tot") (auto simp: getdetails_def g dest: padding_nonneg)
  qed
qed

lemma getdetails_any_total:
  assumes "getdetails h tot f = Inr (opt, sz, n, h', f')"
  shows "\<exists>n'. getdetails h tot' f = Inr (opt, sz, n', h', f')"
proof -
  obtain opt1 sz1 h1 f1 where g: "getoption h f = Inr (opt1, sz1, h1, f1)"
    using assms by (auto simp: getdetails_def split: sum.splits)
  show ?thesis
  proof (cases "opt1 = K_PaddAlign")
    case True
    then obtain opt2 a h2 f2 where g2: "getoption h1 f1 = Inr (opt2, a, h2, f2)"
      using assms by (auto simp: getdetails_def g split: if_splits sum.splits)
    have "padding_for K_PaddAlign a (ph_maxalign h2) tot \<noteq> Inl e" for e
      using assms True g2 by (auto simp: getdetails_def g split: if_splits)
    then obtain k where k: "padding_for K_PaddAlign a (ph_maxalign h2) tot = Inr k"
      by (cases "padding_for K_PaddAlign a (ph_maxalign h2) tot") auto
    then obtain k' where "padding_for K_PaddAlign a (ph_maxalign h2) tot' = Inr k'"
      using padding_any_total by blast
    then show ?thesis using assms True g2 k by (auto simp: getdetails_def g split: if_splits)
  next
    case False
    have "padding_for opt1 sz1 (ph_maxalign h1) tot \<noteq> Inl e" for e
      using assms False by (auto simp: getdetails_def g)
    then obtain k where k: "padding_for opt1 sz1 (ph_maxalign h1) tot = Inr k"
      by (cases "padding_for opt1 sz1 (ph_maxalign h1) tot") auto
    then obtain k' where "padding_for opt1 sz1 (ph_maxalign h1) tot' = Inr k'"
      using padding_any_total by blast
    then show ?thesis using assms False k by (auto simp: getdetails_def g)
  qed
qed

section \<open>One item\<close>

lemma fold_le_bytes:
  "fold (\<lambda>b res. push_bit 8 res OR ucast b) (rev (le_bytes k w)) (r :: 'a::len word) =
   push_bit (8 * k) r OR take_bit (8 * k) w"
proof (induction k arbitrary: r)
  case (Suc k)
  have "push_bit (8 * k) (push_bit 8 r OR ucast (ucast (drop_bit (8 * k) w) :: u8)) OR take_bit (8 * k) w =
      push_bit (8 * Suc k) r OR take_bit (8 * Suc k) w"
    by (rule bit_word_eqI) (auto simp: bit_simps ac_simps)
  then show ?case using Suc by (simp add: le_bytes_def)
qed (simp add: le_bytes_def)

lemma from_le_bytes_le_bytes: "LENGTH('a) \<le> 8 * k \<Longrightarrow> from_le_bytes (le_bytes k w) = (w :: 'a::len word)"
  by (simp add: from_le_bytes_def fold_le_bytes take_bit_word_eq_self)

lemma read_endian_push:
  "length bs = k \<Longrightarrow> read_endian k little (push_endian little bs @ rest) = bs"
  by (simp add: read_endian_def push_endian_def)

lemma position_of_zero_behind: "0 \<notin> set s \<Longrightarrow> position_of_zero (s @ 0 # rest) = Some (length s)"
proof -
  assume s: "0 \<notin> set s"
  have "[0..<length (s @ 0 # rest)] = [0..<length s] @ length s # [Suc (length s)..<length (s @ 0 # rest)]"
    using upt_add_eq_append [of 0 "length s" "Suc (length rest)"] upt_conv_Cons [of "length s" "length s + Suc (length rest)"]
    by (simp del: upt_Suc)
  moreover have "List.find (\<lambda>i. (s @ 0 # rest) ! i = 0) [0..<length s] = None"
    using s by (auto simp: find_None_iff nth_append in_set_conv_nth)
  moreover have "List.find P (xs @ ys) = (case List.find P xs of None \<Rightarrow> List.find P ys | Some x \<Rightarrow> Some x)" for P :: "nat \<Rightarrow> bool" and xs ys
    by (induction xs) auto
  ultimately show ?thesis by (simp add: position_of_zero_def del: upt_Suc)
qed

lemma packint_length: "0 < sz \<Longrightarrow> sz \<le> 16 \<Longrightarrow> length (packint n little sz neg) = sz"
  using packint_nth [of sz 0] by simp

lemma pack_item_inverse:
  assumes "pack_item env little opt sz args tot out = Inr (tot', args', out')" "option_size opt (int sz)"
    and "length out' < 2 ^ 62"
  shows "\<exists>bs extra. out' = out @ bs \<and> length bs = sz + extra \<and> tot' = tot + int extra \<and>
    args' = (if takes_value opt then tl args else args) \<and>
    (\<forall>rest. unpack_item env little opt sz (bs @ rest) = Inr (read_back_item env opt sz (next_arg args), extra))"
proof (cases opt)
  case K_Int
  then obtain x where x: "pack_number_arg (next_arg args) = Inr x"
    using assms(1) by (auto simp: pack_item_def split: sum.splits)
  define n where "n = f64_as_i64 x"
  have sz: "0 < sz" "sz \<le> 16" using assms(2) K_Int by (auto simp: option_size_def)
  have fits: "fits_signed sz n"
    using assms(1) K_Int x by (auto simp: pack_item_def fits_signed_def n_def Let_def mult.commute split: if_splits)
  have out: "out' = out @ packint n little sz (sint n < 0)" "tot' = tot" "args' = tl args"
    using assms(1) K_Int x by (auto simp: pack_item_def n_def Let_def split: if_splits)
  have "unpackint (packint n little sz (sint n < 0) @ rest) little sz True = Inr n" for rest
    using unpackint_packint [OF sz, of True "sint n < 0" n] fits by simp
  then show ?thesis using out sz K_Int x
    by (intro exI [of _ "packint n little sz (sint n < 0)"] exI [of _ 0])
      (simp add: packint_length takes_value_def unpack_item_def read_back_item_def arg_number_def n_def)
next
  case K_Uint
  then obtain x where x: "pack_number_arg (next_arg args) = Inr x"
    using assms(1) by (auto simp: pack_item_def split: sum.splits)
  define n where "n = f64_as_i64 x"
  have sz: "0 < sz" "sz \<le> 16" using assms(2) K_Uint by (auto simp: option_size_def)
  have fits: "fits_unsigned sz n"
    using assms(1) K_Uint x by (auto simp: pack_item_def fits_unsigned_def n_def Let_def mult.commute split: if_splits)
  have out: "out' = out @ packint n little sz False" "tot' = tot" "args' = tl args"
    using assms(1) K_Uint x by (auto simp: pack_item_def n_def Let_def split: if_splits)
  have "unpackint (packint n little sz False @ rest) little sz False = Inr n" for rest
    using unpackint_packint [OF sz, of False False n] fits by simp
  then show ?thesis using out sz K_Uint x
    by (intro exI [of _ "packint n little sz False"] exI [of _ 0])
      (simp add: packint_length takes_value_def unpack_item_def read_back_item_def arg_number_def n_def)
next
  case K_Float
  then obtain x where x: "pack_number_arg (next_arg args) = Inr x"
    using assms(1) by (auto simp: pack_item_def split: sum.splits)
  have sz: "sz = 4 \<or> sz = 8" using assms(2) K_Float by (auto simp: option_size_def)
  define bs where "bs = (if sz = 4 then le_bytes 4 (pe_to_f32 env x) else le_bytes 8 x)"
  have len: "length bs = sz" using sz by (auto simp: bs_def le_bytes_def)
  have out: "out' = out @ push_endian little bs" "tot' = tot" "args' = tl args"
    using assms(1) K_Float x by (auto simp: pack_item_def bs_def)
  have "read_endian sz little (push_endian little bs @ rest) = bs" for rest using read_endian_push [OF len] .
  moreover have "from_le_bytes (le_bytes 4 (pe_to_f32 env x)) = pe_to_f32 env x" "from_le_bytes (le_bytes 8 x) = x"
    by (rule from_le_bytes_le_bytes, simp)+
  ultimately show ?thesis using out K_Float x len sz
    by (intro exI [of _ "push_endian little bs"] exI [of _ 0])
      (auto simp: push_endian_def takes_value_def unpack_item_def read_back_item_def arg_number_def bs_def)
next
  case K_Char
  then obtain s where s: "value_bytes env (next_arg args) = Inr s" "length s \<le> sz"
    "out' = out @ s @ replicate (sz - length s) 0" "tot' = tot" "args' = tl args"
    using assms(1) by (auto simp: pack_item_def split: sum.splits if_splits)
  then show ?thesis using K_Char
    by (intro exI [of _ "s @ replicate (sz - length s) 0"] exI [of _ 0])
      (simp add: takes_value_def unpack_item_def read_back_item_def arg_bytes_def)
next
  case K_Str
  then obtain s where s: "value_bytes env (next_arg args) = Inr s" "\<not> (sz < 8 \<and> 2 ^ (sz * 8) \<le> length s)"
    "out' = out @ packint (of_nat (length s)) little sz False @ s" "tot' = tot + int (length s)" "args' = tl args"
    using assms(1) by (auto simp: pack_item_def Let_def split: sum.splits if_splits)
  have sz: "0 < sz" "sz \<le> 16" using assms(2) K_Str by (auto simp: option_size_def)
  have "length s < 2 ^ 62" using assms(3) s(3) by simp
  then have len: "unat (of_nat (length s) :: u64) = length s" "sint (of_nat (length s) :: i64) = int (length s)"
    by (simp_all add: unat_of_nat_eq sint_of_len)
  then have "fits_unsigned sz (of_nat (length s))" using s(2) by (auto simp: fits_unsigned_def mult.commute)
  then have "unpackint (packint (of_nat (length s)) little sz False @ rest) little sz False = Inr (of_nat (length s))" for rest
    using unpackint_packint [OF sz, of False False "of_nat (length s)"] by simp
  then show ?thesis using s K_Str sz len
    by (intro exI [of _ "packint (of_nat (length s)) little sz False @ s"] exI [of _ "length s"])
      (simp add: packint_length takes_value_def unpack_item_def read_back_item_def arg_bytes_def)
next
  case K_Zstr
  then obtain s where s: "value_bytes env (next_arg args) = Inr s" "0 \<notin> set s"
    "out' = out @ s @ [0]" "tot' = tot + int (length s) + 1" "args' = tl args"
    using assms(1) by (auto simp: pack_item_def Let_def split: sum.splits if_splits)
  then show ?thesis using K_Zstr assms(2)
    by (intro exI [of _ "s @ [0]"] exI [of _ "length s + 1"])
      (simp add: takes_value_def unpack_item_def read_back_item_def arg_bytes_def option_size_def position_of_zero_behind)
qed (use assms in \<open>auto simp: pack_item_def unpack_item_def read_back_item_def takes_value_def option_size_def\<close>)

section \<open>Whole formats\<close>

lemma pack_item_prefix:
  "pack_item env little opt sz args tot out = Inr (tot', args', out') \<Longrightarrow> \<exists>bs. out' = out @ bs"
  by (auto simp: pack_item_def Let_def split: koption.splits sum.splits if_splits)

text \<open>One round of the packing loop.\<close>

lemma pack_loop_round:
  assumes "pack_loop env h f tot args out = Inr res" "\<not> fmt_at_end f"
  obtains opt sz n h' f' tot2 args2 out2 where "getdetails h tot f = Inr (opt, sz, n, h', f')"
    "pack_item env (ph_little h') opt (nat sz) args (tot + n + sz) (out @ replicate (nat n) 0) = Inr (tot2, args2, out2)"
    "pack_loop env h' f' tot2 args2 out2 = Inr res"
  using assms by (subst (asm) pack_loop.simps) (auto simp: Let_def split: sum.splits if_splits prod.splits)

lemma pack_loop_prefix: "pack_loop env h f tot args out = Inr res \<Longrightarrow> \<exists>bs. res = out @ bs"
proof (induction "length (pf_bytes f) - pf_pos f" arbitrary: h f tot args out rule: less_induct)
  case less
  show ?case
  proof (cases "fmt_at_end f")
    case True
    then show ?thesis using less.prems by (simp add: pack_loop.simps)
  next
    case False
    from less.prems False show ?thesis
    proof (cases rule: pack_loop_round)
      case (1 opt sz n h' f' tot2 args2 out2)
      have "length (pf_bytes f') - pf_pos f' < length (pf_bytes f) - pf_pos f"
        using getdetails_moves [OF 1(1) False] False by (auto simp: fmt_at_end_def)
      from less.hyps [OF this 1(3)] pack_item_prefix [OF 1(2)] show ?thesis by auto
    qed
  qed
qed

lemma pack_loop_inverse:
  assumes "pack_loop env h f tot args out = Inr res" "tot = int (length out)" "1 \<le> ph_maxalign h"
    and "length res < 2 ^ 62" "length results + length (read_back env h f args) < pe_max_results env"
  shows "unpack_loop env res h f tot results = Inr (results @ read_back env h f args, int (length res))"
  using assms(1-3,5)
proof (induction "length (pf_bytes f) - pf_pos f" arbitrary: h f tot args out results rule: less_induct)
  case less
  show ?case
  proof (cases "fmt_at_end f")
    case True
    then show ?thesis using less.prems by (simp add: pack_loop.simps unpack_loop.simps read_back.simps)
  next
    case False
    from less.prems(1) False show ?thesis
    proof (cases rule: pack_loop_round)
      case (1 opt sz n h' f' tot2 args2 out2)
      note moves = getdetails_moves [OF 1(1) False] and al = getdetails_maxalign [OF 1(1) less.prems(3)]
      have sz: "0 \<le> sz" using moves by (auto simp: option_size_def split: koption.splits)
      obtain tail where tail: "res = out2 @ tail" using pack_loop_prefix [OF 1(3)] ..
      have "option_size opt (int (nat sz))" "length out2 < 2 ^ 62" using moves sz tail assms(4) by simp_all
      from pack_item_inverse [OF 1(2) this] obtain bs extra where
        out2: "out2 = (out @ replicate (nat n) 0) @ bs" "length bs = nat sz + extra" "tot2 = tot + n + sz + int extra"
          "args2 = (if takes_value opt then tl args else args)"
        and item: "\<And>rest. unpack_item env (ph_little h') opt (nat sz) (bs @ rest) =
            Inr (read_back_item env opt (nat sz) (next_arg args), extra)"
        by blast
      obtain n' where "getdetails h 0 f = Inr (opt, sz, n', h', f')" using getdetails_any_total [OF 1(1)] by blast
      then have rb: "read_back env h f args =
          read_back_item env opt (nat sz) (next_arg args) @ read_back env h' f' args2"
        using False out2(4) by (subst read_back.simps) simp
      have res: "drop (nat (tot + n)) res = bs @ tail" "int (length res) = tot + n + sz + int extra + int (length tail)"
        using less.prems(2) al sz by (simp_all add: tail out2(1,2) nat_add_distrib)
      have shorter: "length (pf_bytes f') - pf_pos f' < length (pf_bytes f) - pf_pos f"
        using moves False by (auto simp: fmt_at_end_def)
      have "unpack_loop env res h f tot results =
          unpack_loop env res h' f' tot2 (results @ read_back_item env opt (nat sz) (next_arg args))"
        using False less.prems(4) 1(1) item res out2(3)
        by (subst unpack_loop.simps) (simp add: algebra_simps)
      also have "\<dots> = Inr ((results @ read_back_item env opt (nat sz) (next_arg args)) @ read_back env h' f' args2,
          int (length res))"
      proof (rule less.hyps [OF shorter 1(3)])
        show "tot2 = int (length out2)" using out2 less.prems(2) al sz by simp
        show "1 \<le> ph_maxalign h'" using al by simp
        show "length (results @ read_back_item env opt (nat sz) (next_arg args)) + length (read_back env h' f' args2)
            < pe_max_results env"
          using less.prems(4) by (simp add: rb)
      qed
      finally show ?thesis by (simp add: rb)
    qed
  qed
qed

section \<open>Claims\<close>

text \<open>
  Packed integers read back. A signed integer that fits the size (any one, when the size is
  eight bytes or more) and an unsigned one packed in 1 to 16 bytes are read back as they were, in either
  byte order and whatever follows them, sign extension beyond eight bytes included.
\<close>

theorem packint_roundtrip:
  assumes "1 \<le> sz" "sz \<le> 16"
    and "if is_signed then neg = (sint n < 0) \<and> fits_signed sz n else \<not> neg \<and> fits_unsigned sz n"
  shows "length (packint n little sz neg) = sz \<and>
    unpackint (packint n little sz neg @ rest) little sz is_signed = Inr n"
  using assms packint_length [of sz] unpackint_packint [OF _ assms(2,3)] by simp

text \<open>The number \<open>-2\<close> in three and in nine bytes, most significant byte first.\<close>

theorem packint_roundtrip_witness:
  "unpackint (packint (- 2) False 3 True @ [0x41]) False 3 True = Inr (- 2) \<and>
   unpackint (packint (- 2) False 9 True @ []) False 9 True = Inr (- 2)"
  using packint_roundtrip [of 3 True True "- 2" False "[0x41]"] packint_roundtrip [of 9 True True "- 2" False "[]"]
  by (simp add: fits_signed_def)

text \<open>
  C12: \<^verbatim>\<open>string.unpack\<close> inverts \<^verbatim>\<open>string.pack\<close>. Whatever the format with its byte orders, alignments and
  size specifiers, if packing the arguments succeeds, then unpacking the result under the same
  format from its start gives, in order, the arguments as the format keeps them, and the position
  just behind the packed data.
\<close>

theorem pack_unpack_roundtrip:
  assumes "string_pack env fmt args = Inr out" "length out < 2 ^ 62"
    and "length (read_back env header_new (fmt_new fmt) args) < pe_max_results env"
  shows "string_unpack env fmt out 1 = Inr (read_back env header_new (fmt_new fmt) args, int (length out) + 1)"
proof -
  have "unpack_loop env out header_new (fmt_new fmt) 0 [] =
      Inr ([] @ read_back env header_new (fmt_new fmt) args, int (length out))"
    by (rule pack_loop_inverse [where out = "[]"])
      (use assms in \<open>simp_all add: string_pack_def header_new_def\<close>)
  then show ?thesis by (simp add: string_unpack_def posrelat_def Let_def)
qed

definition demo_env :: pack_env where
  "demo_env = \<lparr>pe_to_f32 = (\<lambda>_. 0), pe_of_f32 = (\<lambda>_. 0), pe_number_to_string = (\<lambda>_. []),
     pe_max_pack_bytes = 100, pe_max_results = 10\<rparr>"

text \<open>The format \<^verbatim>\<open>>xdzs1\<close>: most significant byte first, a byte of padding, a float, a terminated string and one with a one-byte length.\<close>

theorem pack_unpack_roundtrip_witness:
  "string_unpack demo_env [0x3E, 0x78, 0x64, 0x7A, 0x73, 0x31]
     [0x00, 0x40, 0x09, 0x00, 0x00, 0x00, 0x00, 0x00, 0x00, 0x68, 0x00, 0x01, 0x69] 1 =
   Inr ([Val_Number 0x4009000000000000, Val_Bytes [0x68], Val_Bytes [0x69]], 14)"
proof -
  let ?fmt = "[0x3E, 0x78, 0x64, 0x7A, 0x73, 0x31]"
  let ?args = "[Arg_Number 0x4009000000000000, Arg_Bytes [0x68], Arg_Bytes [0x69]]"
  have "string_pack demo_env ?fmt ?args =
      Inr [0x00, 0x40, 0x09, 0x00, 0x00, 0x00, 0x00, 0x00, 0x00, 0x68, 0x00, 0x01, 0x69]" by code_simp
  moreover have "read_back demo_env header_new (fmt_new ?fmt) ?args =
      [Val_Number 0x4009000000000000, Val_Bytes [0x68], Val_Bytes [0x69]]" by code_simp
  ultimately show ?thesis
    using pack_unpack_roundtrip [of demo_env ?fmt ?args
      "[0x00, 0x40, 0x09, 0x00, 0x00, 0x00, 0x00, 0x00, 0x00, 0x68, 0x00, 0x01, 0x69]"]
    by (simp add: demo_env_def)
qed

end
