(* ===== verification/String_Gsub.thy ===== *)
theory String_Gsub
  imports String_Search Values
begin

text \<open>
  \<^verbatim>\<open>string.gsub\<close> of \<^verbatim>\<open>ruau-vm/src/builtins/string_lib.rs\<close>, with all its replacements: a template, a table and a
  function. The function is modelled from the point where the subject and the pattern have been read as
  byte strings. What it calls of the rest of the machine is a parameter that runs on a state of its
  own: interning a string, looking a key up in the replacement table and calling the replacement
  function (both run the interpreter), the number formatter, and the meter that bounds the growth of
  the result.
\<close>

section \<open>Replacement values\<close>

text \<open>
  Values as \<^verbatim>\<open>gsub\<close> sees them: a string is its bytes, none where the handle is stale; a table or function is
  a number that only the parameters interpret.
\<close>

datatype repl_value =
    Rv_Nil
  | Rv_Boolean bool
  | Rv_Number f64
  | Rv_Integer i64
  | Rv_String "bytes option"
  | Rv_Table nat
  | Rv_Function nat
  | Rv_Other

datatype gsub_stop =
    Gsub_Pattern pattern_stop
  | Gsub_Bad_Capture
  | Gsub_Bad_Escape
  | Gsub_Bad_Value
  | Gsub_Bad_Argument
  | Gsub_Bad_Replacement
  | Gsub_Too_Large
  | Gsub_Memory
  | Gsub_Raised string

record 'w gsub_host =
  gh_number_to_string :: "f64 \<Rightarrow> bytes"
  gh_fits :: "nat \<Rightarrow> 'w \<Rightarrow> bool"
  gh_intern :: "bytes \<Rightarrow> 'w \<Rightarrow> bool \<times> 'w"
  gh_index :: "nat \<Rightarrow> repl_value \<Rightarrow> 'w \<Rightarrow> (string + repl_value) \<times> 'w"
  gh_call :: "nat \<Rightarrow> repl_value list \<Rightarrow> 'w \<Rightarrow> (string + repl_value list) \<times> 'w"

type_synonym ('w, 'a) gsub = "'w \<Rightarrow> (gsub_stop + 'a) \<times> 'w"

definition hreturn :: "'a \<Rightarrow> ('w, 'a) gsub" where
  "hreturn x w = (Inr x, w)"

definition hstop :: "gsub_stop \<Rightarrow> ('w, 'a) gsub" where
  "hstop e w = (Inl e, w)"

definition hbind :: "('w, 'a) gsub \<Rightarrow> ('a \<Rightarrow> ('w, 'b) gsub) \<Rightarrow> ('w, 'b) gsub" where
  "hbind m f w = (case m w of (Inl e, w1) \<Rightarrow> (Inl e, w1) | (Inr x, w1) \<Rightarrow> f x w1)"

definition raised :: "('w \<Rightarrow> (string + 'a) \<times> 'w) \<Rightarrow> ('w, 'a) gsub" where
  "raised m w = (case m w of (Inl message, w1) \<Rightarrow> (Inl (Gsub_Raised message), w1) | (Inr x, w1) \<Rightarrow> (Inr x, w1))"

definition source_text :: "bytes \<Rightarrow> nat \<Rightarrow> nat \<Rightarrow> ('w, bytes) gsub" where
  "source_text src a b = (case slice src a b of Inl e \<Rightarrow> hstop (Gsub_Pattern e) | Inr t \<Rightarrow> hreturn t)"

definition intern_text :: "'w gsub_host \<Rightarrow> bytes \<Rightarrow> ('w, repl_value) gsub" where
  "intern_text host t w = (case gh_intern host t w of (ok, w1) \<Rightarrow> (if ok then Inr (Rv_String (Some t)) else Inl Gsub_Memory, w1))"

definition capture_value :: "'w gsub_host \<Rightarrow> bytes \<Rightarrow> match_result \<Rightarrow> nat \<Rightarrow> ('w, repl_value) gsub" where
  "capture_value host src r idx =
     (if mr_captures r = [] then
        (if idx = 0 then hbind (source_text src (mr_start r) (mr_end r)) (intern_text host) else hstop Gsub_Bad_Capture)
      else case get (mr_captures r) idx of
             None \<Rightarrow> hstop Gsub_Bad_Capture
           | Some (Cap_Position pos) \<Rightarrow> hreturn (Rv_Number (f64_of_nat pos))
           | Some (Cap_Bytes start len) \<Rightarrow> hbind (source_text src start (start + len)) (intern_text host))"

text \<open>\<^verbatim>\<open>i64::to_string\<close> as bytes.\<close>

definition integer_bytes :: "i64 \<Rightarrow> bytes" where
  "integer_bytes i = map of_char ((if sint i < 0 then ''-'' else []) @ show_nat (nat \<bar>sint i\<bar>))"

definition repl_value_bytes :: "'w gsub_host \<Rightarrow> repl_value \<Rightarrow> gsub_stop + bytes" where
  "repl_value_bytes host v =
     (case v of
        Rv_String s \<Rightarrow> Inr (case s of None \<Rightarrow> [] | Some t \<Rightarrow> t)
      | Rv_Number n \<Rightarrow> Inr (gh_number_to_string host n)
      | Rv_Integer i \<Rightarrow> Inr (integer_bytes i)
      | _ \<Rightarrow> Inl Gsub_Bad_Argument)"

definition append_repl_value :: "'w gsub_host \<Rightarrow> bytes \<Rightarrow> repl_value \<Rightarrow> bytes \<Rightarrow> ('w, bytes) gsub" where
  "append_repl_value host out v whole =
     (case v of
        Rv_Nil \<Rightarrow> hreturn (out @ whole)
      | Rv_Boolean b \<Rightarrow> if b then hstop Gsub_Bad_Value else hreturn (out @ whole)
      | Rv_String s \<Rightarrow> hreturn (out @ (case s of None \<Rightarrow> [] | Some t \<Rightarrow> t))
      | Rv_Number n \<Rightarrow> hreturn (out @ gh_number_to_string host n)
      | Rv_Integer i \<Rightarrow> hreturn (out @ integer_bytes i)
      | _ \<Rightarrow> hstop Gsub_Bad_Value)"

fun expand_template :: "'w gsub_host \<Rightarrow> bytes \<Rightarrow> match_result \<Rightarrow> bytes \<Rightarrow> bytes \<Rightarrow> bytes \<Rightarrow> ('w, bytes) gsub" where
  "expand_template host src r whole [] out = hreturn out"
| "expand_template host src r whole [c] out = hreturn (out @ [c])"
| "expand_template host src r whole (c # d # rest) out =
     (if c = 0x25 then
        (if d = 0x25 then expand_template host src r whole rest (out @ [0x25])
         else if d = 0x30 then expand_template host src r whole rest (out @ whole)
         else if is_ascii_digit d then
           hbind (capture_value host src r (unat (d - 0x31))) (\<lambda>v.
           hbind (append_repl_value host out v whole) (\<lambda>out1. expand_template host src r whole rest out1))
         else hstop Gsub_Bad_Escape)
      else expand_template host src r whole (d # rest) (out @ [c]))"

primrec capture_values :: "'w gsub_host \<Rightarrow> bytes \<Rightarrow> match_result \<Rightarrow> nat list \<Rightarrow> ('w, repl_value list) gsub" where
  "capture_values host src r [] = hreturn []"
| "capture_values host src r (idx # idxs) =
     hbind (capture_value host src r idx) (\<lambda>v. hbind (capture_values host src r idxs) (\<lambda>vs. hreturn (v # vs)))"

definition gsub_append :: "'w gsub_host \<Rightarrow> bytes \<Rightarrow> match_result \<Rightarrow> repl_value \<Rightarrow> bytes \<Rightarrow> ('w, bytes) gsub" where
  "gsub_append host src r repl out =
     hbind (source_text src (mr_start r) (mr_end r)) (\<lambda>whole.
     case repl of
       Rv_Table t \<Rightarrow>
         hbind (capture_value host src r 0) (\<lambda>key.
         hbind (raised (gh_index host t key)) (\<lambda>v.
         append_repl_value host out v whole))
     | Rv_Function f \<Rightarrow>
         hbind (capture_values host src r [0..<max 1 (length (mr_captures r))]) (\<lambda>call_args.
         hbind (raised (gh_call host f call_args)) (\<lambda>results.
         append_repl_value host out (case results of [] \<Rightarrow> Rv_Nil | v # _ \<Rightarrow> v) whole))
     | Rv_Nil \<Rightarrow> hstop Gsub_Bad_Replacement
     | Rv_Boolean _ \<Rightarrow> hstop Gsub_Bad_Replacement
     | Rv_Other \<Rightarrow> hstop Gsub_Bad_Replacement
     | _ \<Rightarrow>
         (case repl_value_bytes host repl of
            Inl e \<Rightarrow> hstop e
          | Inr template \<Rightarrow> expand_template host src r whole template out))"

section \<open>The loop\<close>

text \<open>What one replacement leaves: the next position and the output with the byte an empty match steps over.\<close>

definition gsub_advance :: "bytes \<Rightarrow> match_result \<Rightarrow> nat \<Rightarrow> bytes \<Rightarrow> nat \<times> bytes" where
  "gsub_advance src r pos out =
     (if pos < mr_end r then (mr_end r, out)
      else (pos + 1, if pos < length src then out @ [src ! pos] else out))"

lemma gsub_advance_forward: "pos < fst (gsub_advance src r pos out)"
  by (simp add: gsub_advance_def)

record 'w gsub_call =
  gs_host :: "'w gsub_host"
  gs_src :: bytes
  gs_body :: bytes
  gs_anchored :: bool
  gs_repl :: repl_value
  gs_max_n :: int
  gs_limits :: pattern_limits

function gsub_loop :: "'w gsub_call \<Rightarrow> nat \<Rightarrow> int \<Rightarrow> u32 \<Rightarrow> bytes \<Rightarrow> 'w \<Rightarrow> (gsub_stop + nat \<times> int \<times> bytes) \<times> 'w" where
  "gsub_loop g pos count steps out w =
     (if count < gs_max_n g then
        (case match_at (gs_src g) (gs_body g) pos steps (gs_limits g) of
           (Inl e, st) \<Rightarrow> (Inl (Gsub_Pattern e), w)
         | (Inr (Some r), st) \<Rightarrow>
             (case gsub_append (gs_host g) (gs_src g) r (gs_repl g) out w of
                (Inl e, w1) \<Rightarrow> (Inl e, w1)
              | (Inr out1, w1) \<Rightarrow>
                  if \<not> gh_fits (gs_host g) (length out1) w1 then (Inl Gsub_Too_Large, w1)
                  else let (pos', out2) = gsub_advance (gs_src g) r pos out1
                       in if gs_anchored g \<or> length (gs_src g) < pos' then (Inr (pos', count + 1, out2), w1)
                          else gsub_loop g pos' (count + 1) (mt_steps st) out2 w1)
         | (Inr None, st) \<Rightarrow>
             if pos < length (gs_src g) then
               (if gs_anchored g then (Inr (pos + 1, count, out @ [gs_src g ! pos]), w)
                else gsub_loop g (pos + 1) count (mt_steps st) (out @ [gs_src g ! pos]) w)
             else (Inr (pos, count, out), w))
      else (Inr (pos, count, out), w))"
  by pat_completeness auto
termination
  by (relation "measure (\<lambda>(g, pos, count, steps, out, w). Suc (length (gs_src g)) - pos)")
    (auto simp: gsub_advance_def split: if_splits)

declare gsub_loop.simps [simp del]

text \<open>\<^verbatim>\<open>string_gsub\<close>: the loop, the rest of the source, and the result interned.\<close>

definition string_gsub ::
  "'w gsub_host \<Rightarrow> pattern_limits \<Rightarrow> bytes \<Rightarrow> bytes \<Rightarrow> repl_value \<Rightarrow> int \<Rightarrow> 'w \<Rightarrow> (gsub_stop + bytes \<times> int) \<times> 'w" where
  "string_gsub host lim src pat repl max_n =
     (let g = \<lparr>gs_host = host, gs_src = src,
           gs_body = (if anchored pat then drop 1 pat else pat), gs_anchored = anchored pat,
           gs_repl = repl, gs_max_n = max_n, gs_limits = lim\<rparr>
      in hbind (gsub_loop g 0 0 0 []) (\<lambda>(pos, count, out).
         hbind (\<lambda>w. if pos < length src then
             (let out1 = out @ drop pos src in (if gh_fits host (length out1) w then Inr out1 else Inl Gsub_Too_Large, w))
           else (Inr out, w)) (\<lambda>out1.
         hbind (intern_text host out1) (\<lambda>_. hreturn (out1, count)))))"

section \<open>No panic\<close>

lemma hbind_Inr:
  assumes "hbind m f w = (Inr y, w')"
  obtains x w1 where "m w = (Inr x, w1)" "f x w1 = (Inr y, w')"
  using assms by (auto simp: hbind_def split: prod.splits sum.splits)

definition panic_free :: "('w, 'a) gsub \<Rightarrow> bool" where
  "panic_free m \<longleftrightarrow> (\<forall>w e w'. m w = (Inl e, w') \<longrightarrow> e \<noteq> Gsub_Pattern Panic)"

lemma panic_free_bind: "panic_free m \<Longrightarrow> (\<And>x. panic_free (f x)) \<Longrightarrow> panic_free (hbind m f)"
  unfolding panic_free_def hbind_def by (auto split: prod.splits sum.splits)

lemma panic_free_simps [simp]:
  "panic_free (hreturn x)" "panic_free (hstop e) \<longleftrightarrow> e \<noteq> Gsub_Pattern Panic" "panic_free (raised h)" "panic_free (intern_text host t)"
  "panic_free (append_repl_value host out v whole)"
  by (auto simp: panic_free_def hreturn_def hstop_def raised_def intern_text_def append_repl_value_def
      split: prod.splits sum.splits if_splits repl_value.splits)

lemma match_at_cases:
  assumes "length src < 2 ^ 63" "pl_max_steps lim < - 1" "steps \<le> pl_max_steps lim" "pos \<le> length src"
  obtains (stop) e st where "match_at src pat pos steps lim = (Inl e, st)" "e \<noteq> Panic"
  | (none) st where "match_at src pat pos steps lim = (Inr None, st)" "mt_steps st \<le> pl_max_steps lim"
  | (some) r st where "match_at src pat pos steps lim = (Inr (Some r), st)" "mt_steps st \<le> pl_max_steps lim"
      "mr_start r = pos" "within_source src r"
proof -
  let ?m = "\<lparr>mt_src = src, mt_pat = pat, mt_limits = lim\<rparr>" and ?st = "\<lparr>mt_caps = [], mt_steps = steps\<rparr>"
  obtain out st where out: "match_at src pat pos steps lim = (out, st)" by (cases "match_at src pat pos steps lim")
  have ok: "result_ok ?m 0 {pos} ?st (out, st)"
    using attempt_ok [of ?m pos ?st 0 "unat (pl_max_depth lim)"] assms
    by (simp add: sized_def out [symmetric] match_at_def)
  show thesis
  proof (cases out)
    case (Inl e)
    then show thesis using stop out ok by (auto simp: result_ok_def spends_def)
  next
    case (Inr res)
    then have "mt_steps st \<le> pl_max_steps lim" using ok by (simp add: result_ok_def spends_def)
    with Inr show thesis using none some out ok
      by (cases res) (auto simp: result_ok_def first_match_def)
  qed
qed

lemma source_text_within: "a \<le> b \<Longrightarrow> b \<le> length src \<Longrightarrow> source_text src a b = hreturn (take (b - a) (drop a src))"
  by (simp add: source_text_def slice_def)

lemma capture_value_no_panic:
  assumes "within_source src r"
  shows "panic_free (capture_value host src r i)"
proof (cases "get (mr_captures r) i")
  case None
  then show ?thesis using assms
    by (auto simp: capture_value_def within_source_def source_text_within intro!: panic_free_bind)
next
  case (Some c)
  then have "capture_within (mr_start r) (mr_end r) c"
    using assms by (auto simp: within_source_def list_all_length get_eq_Some)
  moreover have "mr_captures r \<noteq> []" using Some by (auto simp: get_eq_Some)
  ultimately show ?thesis using Some assms
    by (cases c) (auto simp: capture_value_def within_source_def source_text_within intro!: panic_free_bind)
qed

lemma expand_template_no_panic:
  "within_source src r \<Longrightarrow> panic_free (expand_template host src r whole template out)"
  by (induction host src r whole template out rule: expand_template.induct)
    (auto intro!: panic_free_bind capture_value_no_panic)

lemma capture_values_no_panic: "within_source src r \<Longrightarrow> panic_free (capture_values host src r idxs)"
  by (induction idxs) (auto intro!: panic_free_bind capture_value_no_panic)

lemma gsub_append_no_panic:
  fixes host :: "'w gsub_host"
  assumes "within_source src r"
  shows "panic_free (gsub_append host src r repl out)"
proof -
  have "(source_text src (mr_start r) (mr_end r) :: ('w, bytes) gsub) = hreturn (take (mr_end r - mr_start r) (drop (mr_start r) src))"
    using assms by (intro source_text_within) (auto simp: within_source_def)
  then show ?thesis using assms unfolding gsub_append_def
    by (cases repl) (auto simp: repl_value_bytes_def intro!: panic_free_bind capture_value_no_panic expand_template_no_panic capture_values_no_panic)
qed

lemma gsub_advance_inside:
  "within_source src r \<Longrightarrow> pos \<le> length src \<Longrightarrow> fst (gsub_advance src r pos out) \<le> length src + 1"
  by (simp add: gsub_advance_def within_source_def)

text \<open>An invariant of position and output that every round keeps holds of what the loop returns.\<close>

lemma gsub_loop_invariant:
  assumes src: "length (gs_src g) < 2 ^ 63" and lim: "pl_max_steps (gs_limits g) < - 1"
    and hit: "\<And>pos out r out1 w w1. pos \<le> length (gs_src g) \<Longrightarrow> I pos out \<Longrightarrow> mr_start r = pos \<Longrightarrow>
      within_source (gs_src g) r \<Longrightarrow> gsub_append (gs_host g) (gs_src g) r (gs_repl g) out w = (Inr out1, w1) \<Longrightarrow>
      I (fst (gsub_advance (gs_src g) r pos out1)) (snd (gsub_advance (gs_src g) r pos out1))"
    and miss: "\<And>pos out. pos < length (gs_src g) \<Longrightarrow> I pos out \<Longrightarrow> I (pos + 1) (out @ [gs_src g ! pos])"
    and "pos \<le> length (gs_src g)" "I pos out" "steps \<le> pl_max_steps (gs_limits g)"
  shows "case gsub_loop g pos count steps out w of
      (Inl e, w') \<Rightarrow> e \<noteq> Gsub_Pattern Panic
    | (Inr (pos', count', out'), w') \<Rightarrow> I pos' out' \<and> pos' \<le> length (gs_src g) + 1"
  using assms(5-)
proof (induction "Suc (length (gs_src g)) - pos" arbitrary: pos count steps out w rule: less_induct)
  case less
  note unfold = gsub_loop.simps [of g pos count steps out w]
  show ?case
  proof (cases "count < gs_max_n g")
    case False
    then show ?thesis using unfold less.prems by simp
  next
    case count: True
    from src lim less.prems(3,1) show ?thesis
    proof (cases rule: match_at_cases [where pat = "gs_body g"])
      case (stop e st)
      then show ?thesis using unfold count by simp
    next
      case (none st)
      show ?thesis
      proof (cases "pos < length (gs_src g) \<and> \<not> gs_anchored g")
        case True
        then have eq: "gsub_loop g pos count steps out w =
            gsub_loop g (pos + 1) count (mt_steps st) (out @ [gs_src g ! pos]) w"
          using unfold count none by simp
        show ?thesis unfolding eq
          by (rule less.hyps) (use True miss less.prems none in auto)
      next
        case False
        then show ?thesis using unfold count none miss less.prems by auto
      qed
    next
      case (some r st)
      let ?adv = "gsub_advance (gs_src g) r pos"
      obtain res w1 where app: "gsub_append (gs_host g) (gs_src g) r (gs_repl g) out w = (res, w1)"
        by (cases "gsub_append (gs_host g) (gs_src g) r (gs_repl g) out w")
      show ?thesis
      proof (cases res)
        case (Inl e)
        then show ?thesis using unfold count some app gsub_append_no_panic [OF some(4), of "gs_host g" "gs_repl g" out]
          by (auto simp: panic_free_def)
      next
        case (Inr out1)
        note I = hit [OF less.prems(1,2) some(3,4) app [unfolded Inr]]
        obtain pos' out2 where adv: "?adv out1 = (pos', out2)" by (cases "?adv out1")
        have pos': "pos < pos'" "pos' \<le> length (gs_src g) + 1"
          using gsub_advance_forward [of pos "gs_src g" r out1] gsub_advance_inside [OF some(4) less.prems(1), of out1]
          by (simp_all add: adv)
        show ?thesis
        proof (cases "gh_fits (gs_host g) (length out1) w1 \<and> \<not> gs_anchored g \<and> pos' \<le> length (gs_src g)")
          case True
          then have eq: "gsub_loop g pos count steps out w = gsub_loop g pos' (count + 1) (mt_steps st) out2 w1"
            using unfold count some app Inr adv by simp
          show ?thesis unfolding eq
            by (rule less.hyps) (use True pos' I adv some in auto)
        next
          case False
          then show ?thesis using unfold count some app Inr adv I pos' by auto
        qed
      qed
    qed
  qed
qed

section \<open>Claims\<close>

text \<open>
  Replacements that stand for the match itself: the template \<^verbatim>\<open>%0\<close>, and a table or function that answers nil
  or false, where it answers.
\<close>

definition declined :: "repl_value \<Rightarrow> bool" where
  "declined v \<longleftrightarrow> v = Rv_Nil \<or> v = Rv_Boolean False"

definition keeps_match :: "'w gsub_host \<Rightarrow> repl_value \<Rightarrow> bool" where
  "keeps_match host repl \<longleftrightarrow>
     (case repl of
        Rv_String s \<Rightarrow> s = Some [0x25, 0x30]
      | Rv_Table t \<Rightarrow> \<forall>key w v w'. gh_index host t key w = (Inr v, w') \<longrightarrow> declined v
      | Rv_Function f \<Rightarrow> \<forall>args w vs w'. gh_call host f args w = (Inr vs, w') \<longrightarrow> vs = [] \<or> declined (hd vs)
      | _ \<Rightarrow> False)"

lemma append_declined: "declined v \<Longrightarrow> append_repl_value host out v whole = hreturn (out @ whole)"
  by (auto simp: declined_def append_repl_value_def)

lemma gsub_append_keeps:
  fixes host :: "'w gsub_host"
  assumes "within_source src r" "keeps_match host repl" "gsub_append host src r repl out w = (Inr out1, w1)"
  shows "out1 = out @ take (mr_end r - mr_start r) (drop (mr_start r) src)"
proof -
  let ?whole = "take (mr_end r - mr_start r) (drop (mr_start r) src)"
  have matched: "(source_text src (mr_start r) (mr_end r) :: ('w, bytes) gsub) = hreturn ?whole"
    using assms(1) by (intro source_text_within) (auto simp: within_source_def)
  have table: "declined v" if "repl = Rv_Table t" "raised (gh_index host t key) w2 = (Inr v, w3)" for t key w2 v w3
    using that assms(2) by (auto simp: keeps_match_def raised_def split: prod.splits sum.splits)
  have call: "declined (case vs of [] \<Rightarrow> Rv_Nil | v # _ \<Rightarrow> v)" if "repl = Rv_Function f" "raised (gh_call host f args) w2 = (Inr vs, w3)" for f args w2 vs w3
  proof -
    have "gh_call host f args w2 = (Inr vs, w3)" using that(2) by (auto simp: raised_def split: prod.splits sum.splits)
    then have "vs = [] \<or> declined (hd vs)" using that(1) assms(2) by (auto simp: keeps_match_def)
    then show ?thesis by (cases vs) (auto simp: declined_def)
  qed
  show ?thesis
  proof (cases repl)
    case (Rv_Table t)
    then show ?thesis using assms(3) table [OF Rv_Table] unfolding gsub_append_def matched
      by (auto simp: hbind_def [of "hreturn ?whole"] hreturn_def [of ?whole] append_declined elim!: hbind_Inr) (auto simp: hreturn_def)
  next
    case (Rv_Function f)
    then show ?thesis using assms(3) call [OF Rv_Function] unfolding gsub_append_def matched
      by (auto simp: hbind_def [of "hreturn ?whole"] hreturn_def [of ?whole] append_declined elim!: hbind_Inr) (auto simp: hreturn_def)
  next
    case (Rv_String s)
    then show ?thesis using assms(2,3) unfolding gsub_append_def matched
      by (simp add: keeps_match_def repl_value_bytes_def hbind_def hreturn_def)
  qed (use assms(2) in \<open>simp_all add: keeps_match_def\<close>)
qed

text \<open>
  C25: \<^verbatim>\<open>string.gsub\<close> never panics, whatever the pattern, the source and the replacement, a template, a table or
  a function, and whatever the lookups and calls it makes answer, provided they raise errors and do not
  panic themselves and the step limit of the matcher is below the largest \<^verbatim>\<open>u32\<close>. Replacing every match by
  itself, with the template \<^verbatim>\<open>%0\<close> or a table or function that answers nil or false, gives back the source
  unchanged: no byte is lost, doubled or reordered around matches, empty matches and the end of the source.
\<close>

theorem gsub_keeps_source:
  assumes "length src < 2 ^ 63" "pl_max_steps lim < - 1" "string_gsub host lim src pat repl max_n w = (res, w')"
  shows "res \<noteq> Inl (Gsub_Pattern Panic) \<and> (\<forall>out count. keeps_match host repl \<longrightarrow> res = Inr (out, count) \<longrightarrow> out = src)"
proof -
  define g where "g = \<lparr>gs_host = host, gs_src = src, gs_body = (if anchored pat then drop 1 pat else pat), gs_anchored = anchored pat,
     gs_repl = repl, gs_max_n = max_n, gs_limits = lim\<rparr>"
  let ?I = "\<lambda>pos out. keeps_match host repl \<longrightarrow> out = take pos src"
  have run: "case gsub_loop g 0 0 0 [] w of (Inl e, w1) \<Rightarrow> e \<noteq> Gsub_Pattern Panic
    | (Inr (pos, count, out), w1) \<Rightarrow> ?I pos out \<and> pos \<le> length (gs_src g) + 1"
  proof (rule gsub_loop_invariant)
    fix pos out r out1 w w1
    assume a: "pos \<le> length (gs_src g)" "?I pos out" "mr_start r = pos" "within_source (gs_src g) r"
      "gsub_append (gs_host g) (gs_src g) r (gs_repl g) out w = (Inr out1, w1)"
    have "out1 = take (mr_end r) src" if "keeps_match host repl"
    proof -
      have "out1 = take pos src @ take (mr_end r - pos) (drop pos src)"
        using gsub_append_keeps [of src r host repl out w out1 w1] a that by (simp add: g_def)
      also have "\<dots> = take (pos + (mr_end r - pos)) src" by (simp only: take_add)
      finally show ?thesis using a(3,4) by (simp add: within_source_def g_def)
    qed
    then show "?I (fst (gsub_advance (gs_src g) r pos out1)) (snd (gsub_advance (gs_src g) r pos out1))"
      using a by (auto simp: g_def gsub_advance_def within_source_def take_Suc_conv_app_nth)
  next
    show "?I (pos + 1) (out @ [gs_src g ! pos])" if "pos < length (gs_src g)" "?I pos out" for pos out
      using that by (simp add: g_def take_Suc_conv_app_nth)
  qed (use assms(1,2) in \<open>simp_all add: g_def\<close>)
  obtain lres w1 where l: "gsub_loop g 0 0 0 [] w = (lres, w1)" by (cases "gsub_loop g 0 0 0 [] w")
  have res: "(res, w') = string_gsub host lim src pat repl max_n w" using assms(3) by simp
  show ?thesis
  proof (cases lres)
    case (Inl e)
    then show ?thesis using run l res by (simp add: string_gsub_def g_def hbind_def)
  next
    case (Inr x)
    obtain pos count out where x: "x = (pos, count, out)" by (cases x)
    let ?out = "if pos < length src then out @ drop pos src else out"
    have I: "?I pos out" using run l Inr x by simp
    have "res \<noteq> Inl (Gsub_Pattern Panic) \<and> (\<forall>y. res = Inr y \<longrightarrow> y = (?out, count))"
      using res l Inr x by (auto simp: string_gsub_def g_def hbind_def hreturn_def intern_text_def Let_def split: if_splits prod.splits)
    then show ?thesis using I by (auto split: if_splits)
  qed
qed

text \<open>A host that interns everything, formats nothing and holds no tables; its functions answer nothing.\<close>

definition demo_host :: "unit gsub_host" where
  "demo_host = \<lparr>gh_number_to_string = (\<lambda>_. []), gh_fits = (\<lambda>n _. n < 100), gh_intern = (\<lambda>_ w. (True, w)),
     gh_index = (\<lambda>_ _ w. (Inl ''attempt to index a nil value'', w)), gh_call = (\<lambda>_ _ w. (Inr [], w))\<rparr>"

text \<open>Replacing \<^verbatim>\<open>b*\<close> in \<^verbatim>\<open>abc\<close> by what a function that returns nothing answers.\<close>

theorem gsub_keeps_source_witness:
  "keeps_match demo_host (Rv_Function 0) \<and>
   string_gsub demo_host demo_limits [0x61, 0x62, 0x63] [0x62, 0x2A] (Rv_Function 0) 100 () = (Inr ([0x61, 0x62, 0x63], 4), ())"
proof -
  have run: "string_gsub demo_host demo_limits [0x61, 0x62, 0x63] [0x62, 0x2A] (Rv_Function 0) 100 () = (Inr ([0x61, 0x62, 0x63], 4), ())"
    by code_simp
  have "keeps_match demo_host (Rv_Function 0)" by (simp add: keeps_match_def demo_host_def)
  with gsub_keeps_source [OF _ _ run] run show ?thesis by (simp add: demo_limits_def)
qed

end
