(* ===== verification/Metering.thy ===== *)
theory Metering
  imports Values
begin

text \<open>
  The instruction budget of an invocation: gas, logical deadline, gas profile and preemption quantum
  (\<^verbatim>\<open>heap/mod.rs\<close>, \<^verbatim>\<open>gas_profile.rs\<close>), how an invocation sets them up (\<^verbatim>\<open>lib.rs\<close>) and the batched safepoint
  of the dispatch loop that reads them (\<^verbatim>\<open>execute/mod.rs\<close>). The theorems follow any sequence of
  metered events through one invocation.
\<close>

section \<open>The gas profile\<close>

record gas_site =
  site_proto :: raw_gc
  site_source :: "raw_gc option"
  site_line :: "u32 option"

record gas_recorder =
  gr_current :: "gas_site option"
  gr_counters :: "(gas_site \<times> u64) list"

definition recorder_new :: gas_recorder where
  "recorder_new = \<lparr>gr_current = None, gr_counters = []\<rparr>"

definition set_current_site :: "gas_site \<Rightarrow> gas_recorder \<Rightarrow> gas_recorder" where
  "set_current_site site r = r\<lparr>gr_current := Some site\<rparr>"

definition clear_current_site :: "gas_recorder \<Rightarrow> gas_recorder" where
  "clear_current_site r = r\<lparr>gr_current := None\<rparr>"

fun count_at :: "gas_site \<Rightarrow> u64 \<Rightarrow> (gas_site \<times> u64) list \<Rightarrow> (gas_site \<times> u64) list" where
  "count_at site units [] = [(site, units)]"
| "count_at site units ((s, gas) # counters) =
     (if s = site then (s, saturating_add gas units) # counters else (s, gas) # count_at site units counters)"

definition record_units :: "u64 \<Rightarrow> gas_recorder \<Rightarrow> gas_recorder" where
  "record_units units r =
     (if units = 0 then r
      else case gr_current r of
             None \<Rightarrow> r
           | Some site \<Rightarrow> r\<lparr>gr_counters := count_at site units (gr_counters r)\<rparr>)"


section \<open>The meter\<close>

record meter =
  gm_gas :: "u64 option"
  gm_logical_deadline :: "u64 option"
  gm_spent :: u64
  gm_active_profile :: "gas_recorder option"
  gm_profile :: "(gas_site \<times> u64) list option"
  gm_quantum :: "u64 option"
  gm_quantum_remaining :: u64

definition set_gas :: "u64 option \<Rightarrow> meter \<Rightarrow> meter" where
  "set_gas gas m = m\<lparr>gm_gas := gas\<rparr>"

definition set_logical_deadline :: "u64 option \<Rightarrow> meter \<Rightarrow> meter" where
  "set_logical_deadline deadline m = m\<lparr>gm_logical_deadline := deadline\<rparr>"

definition logical_deadline_exceeded :: "meter \<Rightarrow> bool" where
  "logical_deadline_exceeded m = (case gm_logical_deadline m of None \<Rightarrow> False | Some d \<Rightarrow> d \<le> gm_spent m)"

definition reset_gas_spent :: "meter \<Rightarrow> meter" where
  "reset_gas_spent m = m\<lparr>gm_spent := 0\<rparr>"

definition begin_gas_profile :: "bool \<Rightarrow> meter \<Rightarrow> meter" where
  "begin_gas_profile enabled m =
     m\<lparr>gm_profile := None, gm_active_profile := (if enabled then Some recorder_new else None)\<rparr>"


text \<open>The argument is the site of the running instruction, \<open>None\<close> when its prototype is not resident.\<close>

definition set_current_gas_site :: "gas_site option \<Rightarrow> meter \<Rightarrow> meter" where
  "set_current_gas_site site m =
     (case gm_active_profile m of
        None \<Rightarrow> m
      | Some r \<Rightarrow>
          m\<lparr>gm_active_profile := Some (case site of None \<Rightarrow> clear_current_site r | Some s \<Rightarrow> set_current_site s r)\<rparr>)"

definition record_gas_profile :: "u64 \<Rightarrow> meter \<Rightarrow> meter" where
  "record_gas_profile units m = m\<lparr>gm_active_profile := map_option (record_units units) (gm_active_profile m)\<rparr>"

definition tick_gas_unprofiled :: "meter \<Rightarrow> bool \<times> meter" where
  "tick_gas_unprofiled m =
     (case gm_gas m of
        None \<Rightarrow> (True, m)
      | Some remaining \<Rightarrow>
          if remaining = 0 then (False, m)
          else (True, m\<lparr>gm_gas := Some (remaining - 1), gm_spent := saturating_add (gm_spent m) 1\<rparr>))"

definition tick_gas_profiled :: "meter \<Rightarrow> bool \<times> meter" where
  "tick_gas_profiled m =
     (case tick_gas_unprofiled m of
        (False, m1) \<Rightarrow> (False, m1)
      | (True, m1) \<Rightarrow> (True, if gm_gas m1 \<noteq> None then record_gas_profile 1 m1 else m1))"

definition tick_gas :: "meter \<Rightarrow> bool \<times> meter" where
  "tick_gas m = (if gm_active_profile m \<noteq> None then tick_gas_profiled m else tick_gas_unprofiled m)"

definition charge_gas :: "u64 \<Rightarrow> meter \<Rightarrow> bool \<times> meter" where
  "charge_gas units m =
     (case gm_gas m of
        None \<Rightarrow> (True, m)
      | Some remaining \<Rightarrow>
          if remaining < units then
            (False, record_gas_profile remaining
               (m\<lparr>gm_gas := Some 0, gm_spent := saturating_add (gm_spent m) remaining\<rparr>))
          else
            (True, record_gas_profile units
               (m\<lparr>gm_gas := Some (remaining - units), gm_spent := saturating_add (gm_spent m) units\<rparr>)))"

definition set_quantum :: "u64 option \<Rightarrow> meter \<Rightarrow> meter" where
  "set_quantum quantum m =
     (let q = (case quantum of Some turn \<Rightarrow> if turn \<noteq> 0 then Some turn else None | None \<Rightarrow> None)
      in m\<lparr>gm_quantum := q, gm_quantum_remaining := (case q of None \<Rightarrow> 0 | Some turn \<Rightarrow> turn)\<rparr>)"

definition consume_quantum :: "u32 \<Rightarrow> meter \<Rightarrow> bool \<times> meter" where
  "consume_quantum units m =
     (case gm_quantum m of
        None \<Rightarrow> (False, m)
      | Some turn \<Rightarrow>
          (case checked_sub (gm_quantum_remaining m) (ucast units) of
             Some rest \<Rightarrow> (False, m\<lparr>gm_quantum_remaining := rest\<rparr>)
           | None \<Rightarrow> (True, m\<lparr>gm_quantum_remaining := turn\<rparr>)))"

section \<open>An invocation\<close>

text \<open>The limits of an invocation that concern the meter, and \<^verbatim>\<open>apply_invocation_limits\<close> on them.\<close>

record meter_limits =
  ml_gas :: "u64 option"
  ml_logical_deadline :: "u64 option"
  ml_quantum :: "u64 option"
  ml_gas_profile :: bool

definition invocation_gas :: "meter_limits \<Rightarrow> u64 option" where
  "invocation_gas l =
     (case (ml_gas l, ml_logical_deadline l) of (None, Some _) \<Rightarrow> Some (- 1) | (gas, _) \<Rightarrow> gas)"

definition apply_invocation_limits :: "meter_limits \<Rightarrow> meter \<Rightarrow> meter" where
  "apply_invocation_limits l m =
     set_quantum (ml_quantum l) (set_logical_deadline (ml_logical_deadline l) (set_gas (invocation_gas l) m))"

definition begin_invocation :: "meter_limits \<Rightarrow> meter \<Rightarrow> meter" where
  "begin_invocation l m =
     apply_invocation_limits l (begin_gas_profile (ml_gas_profile l) (reset_gas_spent m))"


text \<open>
  The batched safepoint. Cancellation comes from outside; \<open>may_preempt\<close> is the dispatch mode's answer.
\<close>

datatype safepoint = Stopped | Deadline_Exceeded | Preempt | Proceed

definition batched_safepoint :: "bool \<Rightarrow> bool \<Rightarrow> u32 \<Rightarrow> meter \<Rightarrow> safepoint \<times> meter" where
  "batched_safepoint cancelled may_preempt elapsed m =
     (if cancelled then (Stopped, m)
      else if logical_deadline_exceeded m then (Deadline_Exceeded, m)
      else if may_preempt then
        (case consume_quantum elapsed m of (True, m1) \<Rightarrow> (Preempt, m1) | (False, m1) \<Rightarrow> (Proceed, m1))
      else (Proceed, m))"

text \<open>What happens to the meter between the two ends of an invocation, and the answers it gives.\<close>

datatype meter_event =
    Tick
  | Charge u64
  | Enter_Site "gas_site option"
  | Safepoint bool bool u32

fun meter_step :: "meter_event \<Rightarrow> meter \<Rightarrow> bool \<times> meter" where
  "meter_step Tick m = tick_gas m"
| "meter_step (Charge units) m = charge_gas units m"
| "meter_step (Enter_Site site) m = (True, set_current_gas_site site m)"
| "meter_step (Safepoint cancelled may_preempt elapsed) m =
     (case batched_safepoint cancelled may_preempt elapsed m of (s, m1) \<Rightarrow> (s \<in> {Preempt, Proceed}, m1))"

fun meter_run :: "meter_event list \<Rightarrow> meter \<Rightarrow> bool list \<times> meter" where
  "meter_run [] m = ([], m)"
| "meter_run (e # es) m =
     (let (ok, m1) = meter_step e m; (oks, m2) = meter_run es m1 in (ok # oks, m2))"

section \<open>The accounts of an invocation\<close>

fun event_units :: "meter_event \<Rightarrow> nat" where
  "event_units Tick = 1"
| "event_units (Charge units) = unat units"
| "event_units _ = 0"

definition requested :: "meter_event list \<Rightarrow> nat" where
  "requested es = (\<Sum>e\<leftarrow>es. event_units e)"

definition spends_gas :: "meter_event \<Rightarrow> bool" where
  "spends_gas e \<longleftrightarrow> (case e of Tick \<Rightarrow> True | Charge _ \<Rightarrow> True | _ \<Rightarrow> False)"

text \<open>A budget of \<open>g\<close> units after \<open>n\<close> were asked for: what is covered is spent, the rest remains.\<close>

definition accounts :: "u64 \<Rightarrow> nat \<Rightarrow> meter \<Rightarrow> bool" where
  "accounts g n m \<longleftrightarrow> unat (gm_spent m) = min (unat g) n \<and> gm_gas m = Some (g - gm_spent m)"

lemma requested_simps [simp]: "requested [] = 0" "requested (e # es) = event_units e + requested es"
  by (simp_all add: requested_def)

lemma record_gas_profile_frame [simp]:
  "gm_gas (record_gas_profile u m) = gm_gas m" "gm_spent (record_gas_profile u m) = gm_spent m"
  "gm_logical_deadline (record_gas_profile u m) = gm_logical_deadline m"
  "gm_quantum (record_gas_profile u m) = gm_quantum m"
  "gm_quantum_remaining (record_gas_profile u m) = gm_quantum_remaining m"
  by (simp_all add: record_gas_profile_def)

lemma set_current_gas_site_frame [simp]:
  "gm_gas (set_current_gas_site s m) = gm_gas m" "gm_spent (set_current_gas_site s m) = gm_spent m"
  "gm_logical_deadline (set_current_gas_site s m) = gm_logical_deadline m"
  by (simp_all add: set_current_gas_site_def split: option.split)

lemma batched_safepoint_frame:
  "gm_gas (snd (batched_safepoint c p u m)) = gm_gas m" "gm_spent (snd (batched_safepoint c p u m)) = gm_spent m"
  "gm_logical_deadline (snd (batched_safepoint c p u m)) = gm_logical_deadline m"
  "gm_active_profile (snd (batched_safepoint c p u m)) = gm_active_profile m"
  by (simp_all add: batched_safepoint_def consume_quantum_def split: option.split)

lemma saturating_add_spent:
  assumes "unat (s :: u64) + unat u \<le> unat (g :: u64)"
  shows "saturating_add s u = s + u" "unat (s + u) = unat s + unat u"
proof -
  have "unat s + unat u < 2 ^ 64" using order_le_less_trans [OF assms unat_bounds(4)] by simp
  then show "saturating_add s u = s + u" "unat (s + u) = unat s + unat u"
    by (simp_all add: saturating_add_def unat_word_ariths)
qed

text \<open>Both ways to spend: cover the units, or take what is left.\<close>

lemma accounts_cover:
  assumes "accounts g n m" "n + unat u \<le> unat g"
  shows "accounts g (n + unat u) (m\<lparr>gm_gas := Some (the (gm_gas m) - u), gm_spent := saturating_add (gm_spent m) u\<rparr>)"
  using assms saturating_add_spent [of "gm_spent m" u g] by (simp add: accounts_def)

lemma accounts_exhaust:
  assumes "accounts g n m" "unat g < n + k"
  shows "accounts g (n + k) (m\<lparr>gm_gas := Some 0, gm_spent := saturating_add (gm_spent m) (the (gm_gas m))\<rparr>)"
proof -
  have le: "gm_spent m \<le> g" using assms(1) by (auto simp: accounts_def word_le_nat_alt)
  then have "unat (gm_spent m) + unat (g - gm_spent m) = unat g" by (simp add: unat_sub word_le_nat_alt)
  then show ?thesis using assms saturating_add_spent [of "gm_spent m" "g - gm_spent m" g] by (simp add: accounts_def)
qed

lemma accounts_remaining:
  assumes "accounts g n m" "gm_gas m = Some r"
  shows "unat r = unat g - n"
proof -
  have "gm_spent m \<le> g" using assms(1) by (auto simp: accounts_def word_le_nat_alt)
  then have "unat (g - gm_spent m) = unat g - unat (gm_spent m)" by (simp add: unat_sub)
  then show ?thesis using assms by (auto simp: accounts_def)
qed

lemma accounts_saturated: "accounts g n m \<Longrightarrow> unat g \<le> n \<Longrightarrow> accounts g (n + k) m"
  unfolding accounts_def by linarith

lemma accounts_profile [simp]: "accounts g n (record_gas_profile u m) = accounts g n m"
  by (simp add: accounts_def)

lemma charge_gas_accounts:
  assumes "accounts g n m"
  shows "accounts g (n + unat u) (snd (charge_gas u m)) \<and> (fst (charge_gas u m) \<longleftrightarrow> n + unat u \<le> unat g \<or> u = 0)"
proof -
  obtain r where r: "gm_gas m = Some r" using assms by (auto simp: accounts_def)
  note left = accounts_remaining [OF assms r]
  show ?thesis
  proof (cases "r < u")
    case True
    then have "unat g < n + unat u" "u \<noteq> 0" using left by (auto simp: word_less_nat_alt)
    then show ?thesis using True accounts_exhaust [OF assms] by (simp add: charge_gas_def r)
  next
    case False
    then consider "n + unat u \<le> unat g" | "u = 0"
      using left unat_gt_0 [of u] by (fastforce simp: word_less_nat_alt)
    then show ?thesis
    proof cases
      case 1
      then show ?thesis using False accounts_cover [OF assms 1] by (simp add: charge_gas_def r)
    next
      case 2
      then have "m\<lparr>gm_gas := Some r, gm_spent := saturating_add (gm_spent m) 0\<rparr> = m"
        using r by (simp add: saturating_add_def)
      then show ?thesis using 2 assms by (simp add: charge_gas_def r)
    qed
  qed
qed

lemma tick_gas_accounts:
  assumes "accounts g n m"
  shows "accounts g (n + 1) (snd (tick_gas m)) \<and> (fst (tick_gas m) \<longleftrightarrow> n + 1 \<le> unat g)"
proof -
  obtain r where r: "gm_gas m = Some r" using assms by (auto simp: accounts_def)
  note left = accounts_remaining [OF assms r]
  have "accounts g (n + 1) (snd (tick_gas_unprofiled m)) \<and> (fst (tick_gas_unprofiled m) \<longleftrightarrow> n + 1 \<le> unat g)"
  proof (cases "r = 0")
    case True
    then have "unat g \<le> n" using left by simp
    then show ?thesis using True accounts_saturated [OF assms, of 1] by (simp add: tick_gas_unprofiled_def r)
  next
    case False
    then have "n + unat (1 :: u64) \<le> unat g" using left unat_gt_0 [of r] by simp
    then show ?thesis using False accounts_cover [OF assms, of 1] by (simp add: tick_gas_unprofiled_def r)
  qed
  moreover have "fst (tick_gas m) = fst (tick_gas_unprofiled m)"
    "accounts g k (snd (tick_gas m)) = accounts g k (snd (tick_gas_unprofiled m))" for k
    by (simp_all add: tick_gas_def tick_gas_profiled_def prod.case_eq_if split: bool.split)
  ultimately show ?thesis by simp
qed

lemma meter_step_accounts:
  assumes "accounts g n m"
  shows "accounts g (n + event_units e) (snd (meter_step e m)) \<and>
    (spends_gas e \<longrightarrow> (fst (meter_step e m) \<longleftrightarrow> n + event_units e \<le> unat g \<or> event_units e = 0))"
proof (cases e)
  case (Charge u)
  then show ?thesis using charge_gas_accounts [OF assms, of u] by (simp add: unat_eq_0)
qed (use tick_gas_accounts [OF assms] assms in
  \<open>simp_all add: spends_gas_def accounts_def batched_safepoint_frame prod.case_eq_if\<close>)

lemma meter_step_deadline [simp]: "gm_logical_deadline (snd (meter_step e m)) = gm_logical_deadline m"
  by (cases e) (simp_all add: batched_safepoint_frame prod.case_eq_if tick_gas_def tick_gas_profiled_def
      tick_gas_unprofiled_def charge_gas_def split: option.split)

lemma meter_run_Cons:
  "meter_run (e # es) m = (fst (meter_step e m) # fst (meter_run es (snd (meter_step e m))), snd (meter_run es (snd (meter_step e m))))"
  by (simp add: Let_def split: prod.splits)

declare meter_run.simps(2) [simp del] meter_run_Cons [simp]

lemma meter_run_accounts:
  assumes "accounts g n m"
  shows "accounts g (n + requested es) (snd (meter_run es m)) \<and>
    length (fst (meter_run es m)) = length es \<and>
    (\<forall>i < length es. spends_gas (es ! i) \<longrightarrow>
      (fst (meter_run es m) ! i \<longleftrightarrow> n + requested (take (Suc i) es) \<le> unat g \<or> event_units (es ! i) = 0))"
  using assms
proof (induction es arbitrary: n m)
  case (Cons e es)
  from meter_step_accounts [OF Cons.prems, of e] Cons.IH [of "n + event_units e" "snd (meter_step e m)"]
  show ?case by (auto simp: nth_Cons add.assoc split: nat.split)
qed simp

lemma meter_run_deadline [simp]: "gm_logical_deadline (snd (meter_run es m)) = gm_logical_deadline m"
  by (induction es arbitrary: m) simp_all

lemma begin_invocation_fields [simp]:
  "gm_gas (begin_invocation l m) = invocation_gas l" "gm_spent (begin_invocation l m) = 0"
  "gm_logical_deadline (begin_invocation l m) = ml_logical_deadline l"
  "gm_active_profile (begin_invocation l m) = (if ml_gas_profile l then Some recorder_new else None)"
  by (simp_all add: begin_invocation_def apply_invocation_limits_def set_quantum_def Let_def set_logical_deadline_def
      set_gas_def begin_gas_profile_def reset_gas_spent_def)

text \<open>
  C13: The budget of an invocation is exact. Over any sequence of ticks, bulk charges, safepoints and
  site changes, the gas spent is the number of units asked for, up to the budget, and the rest remains;
  a tick or charge is granted exactly when everything asked for up to and including it fits the budget
  (a charge of nothing always is), so nothing runs after the budget is exhausted; and the logical
  deadline is reported exactly once that many units were spent. Without a gas ceiling a logical
  deadline counts against a budget of \<open>2\<^sup>64 - 1\<close> units.
\<close>

theorem gas_metering_exact:
  assumes "invocation_gas l = Some g" and "meter_run es (begin_invocation l m0) = (oks, m)"
  shows "unat (gm_spent m) = min (unat g) (requested es) \<and> gm_gas m = Some (g - gm_spent m) \<and>
    (\<forall>i < length es. spends_gas (es ! i) \<longrightarrow>
      (oks ! i \<longleftrightarrow> requested (take (Suc i) es) \<le> unat g \<or> event_units (es ! i) = 0)) \<and>
    (logical_deadline_exceeded m \<longleftrightarrow>
      (\<exists>d. ml_logical_deadline l = Some d \<and> unat d \<le> min (unat g) (requested es)))"
proof -
  have "accounts g 0 (begin_invocation l m0)" using assms(1) by (simp add: accounts_def)
  from meter_run_accounts [OF this, of es] meter_run_deadline [of es "begin_invocation l m0"] show ?thesis
    unfolding assms(2) by (auto simp: accounts_def logical_deadline_exceeded_def word_le_nat_alt split: option.split)
qed

definition demo_limits_meter :: meter_limits where
  "demo_limits_meter = \<lparr>ml_gas = Some 5, ml_logical_deadline = Some 4, ml_quantum = Some 2, ml_gas_profile = True\<rparr>"

definition demo_meter :: meter where
  "demo_meter = \<lparr>gm_gas = None, gm_logical_deadline = None, gm_spent = 9, gm_active_profile = None, gm_profile = None,
     gm_quantum = None, gm_quantum_remaining = 0\<rparr>"

lemma demo_meter_run:
  "meter_run [Tick, Charge 3, Safepoint False True 4, Charge 2, Tick] (begin_invocation demo_limits_meter demo_meter) =
   ([True, True, False, False, False],
    \<lparr>gm_gas = Some 0, gm_logical_deadline = Some 4, gm_spent = 5, gm_active_profile = Some recorder_new, gm_profile = None,
     gm_quantum = Some 2, gm_quantum_remaining = 2\<rparr>)"
  by (simp add: demo_limits_meter_def demo_meter_def begin_invocation_def apply_invocation_limits_def invocation_gas_def
      set_quantum_def set_logical_deadline_def set_gas_def begin_gas_profile_def reset_gas_spent_def tick_gas_def
      tick_gas_profiled_def tick_gas_unprofiled_def charge_gas_def record_gas_profile_def record_units_def recorder_new_def
      saturating_add_def batched_safepoint_def logical_deadline_exceeded_def)

theorem gas_metering_exact_witness:
  "unat (5 :: u64) = min 5 (requested [Tick, Charge 3, Safepoint False True 4, Charge 2, Tick])"
  using gas_metering_exact [OF _ demo_meter_run, of 5] by (simp add: invocation_gas_def demo_limits_meter_def)

section \<open>Attribution of gas\<close>

definition counted :: "(gas_site \<times> u64) list \<Rightarrow> nat" where
  "counted cs = (\<Sum>(site, gas)\<leftarrow>cs. unat gas)"

lemma counted_simps [simp]: "counted [] = 0" "counted (c # cs) = unat (snd c) + counted cs"
  by (simp_all add: counted_def prod.case_eq_if)

lemma counted_filter [simp]: "counted (filter (\<lambda>(site, gas). 0 < gas) cs) = counted cs"
  by (induction cs) (auto simp: word_gt_0 unat_eq_0)













definition units_at :: "gas_site \<Rightarrow> (gas_site \<times> nat) list \<Rightarrow> nat" where
  "units_at s cs = (\<Sum>(site, units)\<leftarrow>cs. if site = s then units else 0)"


lemma units_at_append [simp]: "units_at s [] = 0" "units_at s (cs @ ds) = units_at s cs + units_at s ds"
  by (simp_all add: units_at_def)














end
