(* ===== verification/Table_Lib.thy ===== *)
theory Table_Lib
  imports Heap Metering
begin

text \<open>
  The table library, \<^verbatim>\<open>builtins/table_lib.rs\<close>: reads and writes by position, \<^verbatim>\<open>insert\<close>, \<^verbatim>\<open>remove\<close>, \<^verbatim>\<open>getn\<close>,
  \<^verbatim>\<open>maxn\<close>, \<^verbatim>\<open>clear\<close>, \<^verbatim>\<open>isfrozen\<close>, \<^verbatim>\<open>unpack\<close>, \<^verbatim>\<open>sort\<close> and \<^verbatim>\<open>move\<close>. A builtin runs on the heap and the meter and
  returns its results or an error. The comparison of \<^verbatim>\<open>sort\<close>, which runs the interpreter, is a
  parameter; so are the limits of the invocation and the answer of the memory meter.
\<close>

section \<open>State, errors, arguments\<close>

record lib_state =
  ls_heap :: heap
  ls_meter :: meter
  ls_grants :: "nat \<Rightarrow> bool"

datatype lib_error =
    Lib_Err string
  | Lib_Gas
  | Lib_Memory_Limit
  | Lib_Memory string
  | Lib_Panic

record lib_env =
  le_max_table_elements :: nat
  le_would_exceed_cap :: "nat \<Rightarrow> bool"
  le_value_size :: nat
  le_pair_size :: nat

type_synonym 'a lib = "lib_state \<Rightarrow> (lib_error + 'a) \<times> lib_state"

definition lbind :: "'a lib \<Rightarrow> ('a \<Rightarrow> 'b lib) \<Rightarrow> 'b lib" where
  "lbind m f st = (case m st of (Inl e, st1) \<Rightarrow> (Inl e, st1) | (Inr x, st1) \<Rightarrow> f x st1)"

definition lreturn :: "'a \<Rightarrow> 'a lib" where
  "lreturn x st = (Inr x, st)"

definition lfail :: "lib_error \<Rightarrow> 'a lib" where
  "lfail e st = (Inl e, st)"

text \<open>An expression of the source that panics where the model of it has no value.\<close>

definition lvalue :: "(lib_state \<Rightarrow> 'a option) \<Rightarrow> 'a lib" where
  "lvalue f st = (case f st of None \<Rightarrow> (Inl Lib_Panic, st) | Some x \<Rightarrow> (Inr x, st))"

primrec lfor :: "('a \<Rightarrow> unit lib) \<Rightarrow> 'a list \<Rightarrow> unit lib" where
  "lfor f [] = lreturn ()"
| "lfor f (x # xs) = lbind (f x) (\<lambda>_. lfor f xs)"

definition spend_gas :: "u64 \<Rightarrow> unit lib" where
  "spend_gas units st =
     (case charge_gas units (ls_meter st) of
        (ok, m) \<Rightarrow> (if ok then Inr () else Inl Lib_Gas, st\<lparr>ls_meter := m\<rparr>))"

definition spend_tick :: "unit lib" where
  "spend_tick st =
     (case tick_gas (ls_meter st) of (ok, m) \<Rightarrow> (if ok then Inr () else Inl Lib_Gas, st\<lparr>ls_meter := m\<rparr>))"

definition arg_value :: "raw_value list \<Rightarrow> nat \<Rightarrow> raw_value" where
  "arg_value args index = (case get args index of Some v \<Rightarrow> v | None \<Rightarrow> LNil)"

definition arg_int :: "raw_value list \<Rightarrow> nat \<Rightarrow> i64 option" where
  "arg_int args index =
     (case get args index of
        Some (LNumber n) \<Rightarrow> Some (f64_as_i64 n)
      | Some (LInteger i) \<Rightarrow> Some i
      | _ \<Rightarrow> None)"

definition require_int :: "raw_value list \<Rightarrow> nat \<Rightarrow> string \<Rightarrow> i64 lib" where
  "require_int args index message =
     (case arg_int args index of None \<Rightarrow> lfail (Lib_Err message) | Some i \<Rightarrow> lreturn i)"

definition arg_table :: "raw_value list \<Rightarrow> nat \<Rightarrow> string \<Rightarrow> raw_gc lib" where
  "arg_table args index name =
     (case arg_value args index of
        LTable g \<Rightarrow> lreturn g
      | _ \<Rightarrow> lfail (Lib_Err (''bad argument #'' @ show_nat (index + 1) @ '' to 'table.'' @ name @ [CHR 0x27] @ '' (table expected)'')))"

text \<open>\<^verbatim>\<open>first..=last\<close> over \<^verbatim>\<open>i64\<close>.\<close>

definition i64_range :: "i64 \<Rightarrow> i64 \<Rightarrow> i64 list" where
  "i64_range a b = map word_of_int [sint a..sint b]"

section \<open>Positions\<close>

definition get_index :: "raw_gc \<Rightarrow> i64 \<Rightarrow> raw_value lib" where
  "get_index g index =
     lvalue (\<lambda>st. case heap_table (ls_heap st) g of
        None \<Rightarrow> Some LNil
      | Some t \<Rightarrow> table_get t (LNumber (f64_of_i64 index)))"

text \<open>The write barrier asks for room in the remembered set; \<open>ls_grants\<close> holds the answers to come.\<close>

definition set_index :: "raw_gc \<Rightarrow> i64 \<Rightarrow> raw_value \<Rightarrow> unit lib" where
  "set_index g index v st =
     (let granted = ls_grants st 0; st1 = st\<lparr>ls_grants := (\<lambda>n. ls_grants st (Suc n))\<rparr> in
      case heap_table (ls_heap st) g of
        None \<Rightarrow> (Inl (Lib_Err ''table not resident''), st1\<lparr>ls_heap := table_mut granted g id (ls_heap st)\<rparr>)
      | Some t \<Rightarrow>
          (case table_set (LNumber (f64_of_i64 index)) v t of
             None \<Rightarrow> (Inl Lib_Panic, st1)
           | Some (b, t') \<Rightarrow> (Inr (), st1\<lparr>ls_heap := table_mut granted g (\<lambda>_. t') (ls_heap st)\<rparr>)))"

definition require_writable :: "raw_gc \<Rightarrow> unit lib" where
  "require_writable g st =
     (case heap_table (ls_heap st) g of
        Some t \<Rightarrow> if lt_readonly t then (Inl (Lib_Err ''attempt to modify a readonly table''), st) else (Inr (), st)
      | None \<Rightarrow> (Inr (), st))"

definition table_len :: "raw_gc \<Rightarrow> u64 lib" where
  "table_len g = lvalue (\<lambda>st. case heap_table (ls_heap st) g of None \<Rightarrow> Some 0 | Some t \<Rightarrow> table_length t)"

section \<open>Insertion and removal\<close>

definition table_insert :: "raw_value list \<Rightarrow> raw_value list lib" where
  "table_insert args =
     lbind (arg_table args 0 ''insert'') (\<lambda>g.
     lbind (require_writable g) (\<lambda>_.
     lbind (table_len g) (\<lambda>len.
     lbind
       (if length args = 2 then set_index g (len + 1) (args ! 1)
        else if length args = 3 then
          lbind (require_int args 1 (''bad argument #2 to 'table.insert'' @ [CHR 0x27])) (\<lambda>pos.
          lbind
            (if 1 \<le> sint pos \<and> sint pos \<le> sint (len + 1) then
               lfor (\<lambda>i. lbind (get_index g i) (\<lambda>moved. set_index g (i + 1) moved)) (rev (i64_range pos len))
             else lreturn ()) (\<lambda>_.
          set_index g pos (args ! 2)))
        else lfail (Lib_Err (''wrong number of arguments to 'table.insert'' @ [CHR 0x27])))
     (\<lambda>_. lreturn []))))"

definition table_remove :: "raw_value list \<Rightarrow> raw_value list lib" where
  "table_remove args =
     lbind (arg_table args 0 ''remove'') (\<lambda>g.
     lbind (table_len g) (\<lambda>len.
     let pos = (case arg_int args 1 of Some i \<Rightarrow> i | None \<Rightarrow> len) in
     if \<not> (1 \<le> sint pos \<and> sint pos \<le> sint len) then lreturn []
     else
       lbind (require_writable g) (\<lambda>_.
       lbind (get_index g pos) (\<lambda>removed.
       lbind (lfor (\<lambda>i. lbind (get_index g (i + 1)) (\<lambda>moved. set_index g i moved)) (i64_range pos (len - 1))) (\<lambda>_.
       lbind (set_index g len LNil) (\<lambda>_.
       lreturn [removed]))))))"

section \<open>Whole tables\<close>

definition table_getn :: "raw_value list \<Rightarrow> raw_value list lib" where
  "table_getn args =
     lbind (arg_table args 0 ''getn'') (\<lambda>g. lbind (table_len g) (\<lambda>len. lreturn [LNumber (f64_of_nat (unat len))]))"

definition table_maxn :: "raw_value list \<Rightarrow> raw_value list lib" where
  "table_maxn args =
     lbind (arg_table args 0 ''maxn'') (\<lambda>g.
     lbind (\<lambda>st. spend_gas (case heap_table (ls_heap st) g of None \<Rightarrow> 0 | Some t \<Rightarrow> of_nat (scan_len t)) st) (\<lambda>_ st.
     (Inr [LNumber (case heap_table (ls_heap st) g of None \<Rightarrow> 0 | Some t \<Rightarrow> maxn t)], st)))"

definition table_isfrozen :: "raw_value list \<Rightarrow> raw_value list lib" where
  "table_isfrozen args =
     lbind (arg_table args 0 ''isfrozen'') (\<lambda>g st.
     (Inr [LBoolean (case heap_table (ls_heap st) g of None \<Rightarrow> False | Some t \<Rightarrow> lt_readonly t)], st))"

definition table_clear_builtin :: "raw_value list \<Rightarrow> raw_value list lib" where
  "table_clear_builtin args =
     lbind (arg_table args 0 ''clear'') (\<lambda>g st.
     let granted = ls_grants st 0; st1 = st\<lparr>ls_grants := (\<lambda>n. ls_grants st (Suc n))\<rparr> in
     case heap_table (ls_heap st) g of
       None \<Rightarrow> (Inl (Lib_Err ''table.clear on a non-resident table''), st1\<lparr>ls_heap := table_mut granted g id (ls_heap st)\<rparr>)
     | Some t \<Rightarrow>
         if lt_readonly t
         then (Inl (Lib_Err ''attempt to modify a readonly table''), st1\<lparr>ls_heap := table_mut granted g id (ls_heap st)\<rparr>)
         else (Inr [], st1\<lparr>ls_heap := table_mut granted g table_clear (ls_heap st)\<rparr>))"

section \<open>Unpacking\<close>

text \<open>The loop of \<^verbatim>\<open>table_unpack\<close>; \<open>None\<close> when it does not end.\<close>

partial_function (option) table_unpack_loop :: "(i64 \<Rightarrow> raw_value option) \<Rightarrow> i64 \<Rightarrow> i64 \<Rightarrow> raw_value list \<Rightarrow> (lib_error + raw_value list) option" where
  "table_unpack_loop read k j out =
     (if sint k \<le> sint j then
        (case read k of None \<Rightarrow> Some (Inl Lib_Panic) | Some v \<Rightarrow> table_unpack_loop read (k + 1) j (out @ [v]))
      else Some (Inr out))"

definition usize_try_from_i64 :: "i64 \<Rightarrow> nat" where
  "usize_try_from_i64 i = (if 0 \<le> sint i then unat i else 2 ^ 64 - 1)"

definition table_unpack :: "lib_env \<Rightarrow> raw_value list \<Rightarrow> lib_state \<Rightarrow> ((lib_error + raw_value list) \<times> lib_state) option" where
  "table_unpack env args st =
     (let i = (case arg_int args 1 of Some i \<Rightarrow> i | None \<Rightarrow> 1) in
      case lbind (arg_table args 0 ''unpack'') (\<lambda>g.
        lbind (table_len g) (\<lambda>len.
        let j = (case arg_int args 2 of Some j \<Rightarrow> j | None \<Rightarrow> len) in
        if sint j < sint i then lreturn (g, j, True)
        else
          let count = usize_try_from_i64 (j - i + 1) in
          if le_max_table_elements env < count then lfail (Lib_Err ''too many results to unpack'')
          else if le_would_exceed_cap env (min (count * le_value_size env) (2 ^ 64 - 1)) then lfail Lib_Memory_Limit
          else lbind (spend_gas (of_nat count)) (\<lambda>_. lreturn (g, j, False)))) st of
        (Inl e, st1) \<Rightarrow> Some (Inl e, st1)
      | (Inr (g, j, nothing), st1) \<Rightarrow>
          if nothing then Some (Inr [], st1)
          else map_option (\<lambda>r. (r, st1))
            (table_unpack_loop (\<lambda>k. case get_index g k st1 of (Inl _, _) \<Rightarrow> None | (Inr v, _) \<Rightarrow> Some v) i j []))"

section \<open>Sorting\<close>

text \<open>
  The comparison is a parameter: the call of a comparator, or the operator \<^verbatim>\<open><\<close> with its metamethods.
  It may change the heap and fail.
\<close>

type_synonym comparison = "raw_value \<Rightarrow> raw_value \<Rightarrow> bool lib"

definition sort_less :: "comparison \<Rightarrow> comparison" where
  "sort_less cmp a b = lbind spend_tick (\<lambda>_. cmp a b)"

text \<open>The merge of \<open>elems[..mid]\<close> and \<open>elems[mid..]\<close>; \<open>out\<close> is the filled part of the scratch buffer.\<close>

function merge_loop :: "comparison \<Rightarrow> raw_value list \<Rightarrow> nat \<Rightarrow> nat \<Rightarrow> nat \<Rightarrow> raw_value list \<Rightarrow> raw_value list lib" where
  "merge_loop cmp elems mid i j out =
     (if i < mid \<and> j < length elems then
        lbind (sort_less cmp (elems ! j) (elems ! i)) (\<lambda>less.
        if less then merge_loop cmp elems mid i (j + 1) (out @ [elems ! j])
        else merge_loop cmp elems mid (i + 1) j (out @ [elems ! i]))
      else lreturn (out @ take (mid - i) (drop i elems) @ drop j elems))"
  by pat_completeness auto
termination
  by (relation "measure (\<lambda>(cmp, elems, mid, i, j, out). (mid - i) + (length elems - j))") auto

declare merge_loop.simps [simp del]

function merge_sort :: "comparison \<Rightarrow> raw_value list \<Rightarrow> raw_value list lib" where
  "merge_sort cmp elems =
     (if length elems \<le> 1 then lreturn elems
      else
        let mid = length elems div 2 in
        lbind (merge_sort cmp (take mid elems)) (\<lambda>left.
        lbind (merge_sort cmp (drop mid elems)) (\<lambda>right.
        merge_loop cmp (left @ right) mid 0 mid [])))"
  by pat_completeness auto
termination
  by (relation "measure (\<lambda>(cmp, elems). length elems)") auto

declare merge_sort.simps [simp del]

primrec read_indices :: "raw_gc \<Rightarrow> i64 list \<Rightarrow> raw_value list lib" where
  "read_indices g [] = lreturn []"
| "read_indices g (i # is) = lbind (get_index g i) (\<lambda>v. lbind (read_indices g is) (\<lambda>vs. lreturn (v # vs)))"

definition table_sort :: "lib_env \<Rightarrow> (raw_value \<Rightarrow> comparison) \<Rightarrow> raw_value list \<Rightarrow> raw_value list lib" where
  "table_sort env compare args =
     lbind (arg_table args 0 ''sort'') (\<lambda>g.
     lbind (require_writable g) (\<lambda>_.
     let cmp = arg_value args 1 in
     if \<not> (case cmp of LNil \<Rightarrow> True | LFunction _ \<Rightarrow> True | _ \<Rightarrow> False) then
       lfail (Lib_Err ''bad argument #2 to 'table.sort' (function expected)'')
     else
       lbind (table_len g) (\<lambda>len.
       if le_max_table_elements env < unat len then lfail (Lib_Err ''table is too large to sort'')
       else if le_would_exceed_cap env (min (unat len * (2 * le_value_size env)) (2 ^ 64 - 1)) then lfail Lib_Memory_Limit
       else
         lbind (read_indices g (i64_range 1 len)) (\<lambda>elems.
         lbind (merge_sort (compare cmp) elems) (\<lambda>sorted_elems.
         lbind (lfor (\<lambda>(i, v). set_index g (of_nat i + 1) v) (enumerate 0 sorted_elems)) (\<lambda>_.
         lreturn []))))))"

section \<open>Moving\<close>

definition live_entry_count :: "raw_gc \<Rightarrow> nat lib" where
  "live_entry_count g st =
     (case heap_table (ls_heap st) g of
        None \<Rightarrow> (Inl (Lib_Err ''table not resident''), st)
      | Some t \<Rightarrow> (Inr (length (for_each_entry t)), st))"

definition f64_le :: "f64 \<Rightarrow> f64 \<Rightarrow> bool" where
  "f64_le a b \<longleftrightarrow> \<not> f64_is_nan a \<and> \<not> f64_is_nan b \<and> f64_rank a \<le> f64_rank b"

definition integer_key_in_range :: "raw_value \<Rightarrow> i64 \<Rightarrow> i64 \<Rightarrow> i64 option" where
  "integer_key_in_range key a b =
     (case key of
        LInteger index \<Rightarrow> if sint a \<le> sint index \<and> sint index \<le> sint b then Some index else None
      | LNumber index \<Rightarrow>
          if f64_to_int index \<noteq> None \<and> f64_le (f64_of_i64 a) index \<and> f64_le index (f64_of_i64 b)
          then Some (f64_as_i64 index) else None
      | _ \<Rightarrow> None)"

definition entries_in_range :: "lua_table \<Rightarrow> i64 \<Rightarrow> i64 \<Rightarrow> (i64 \<times> raw_value) list" where
  "entries_in_range t a b =
     List.map_filter (\<lambda>(key, v). map_option (\<lambda>i. (i, v)) (integer_key_in_range key a b)) (for_each_entry t)"

definition resident :: "raw_gc \<Rightarrow> lua_table lib" where
  "resident g st =
     (case heap_table (ls_heap st) g of None \<Rightarrow> (Inl (Lib_Err ''table not resident''), st) | Some t \<Rightarrow> (Inr t, st))"

definition i64_try_from :: "int \<Rightarrow> i64 lib" where
  "i64_try_from x =
     (if - (2 ^ 63) \<le> x \<and> x < 2 ^ 63 then lreturn (word_of_int x) else lfail (Lib_Err ''destination wrap around''))"

text \<open>
  \<^verbatim>\<open>sparse_table_move\<close>. The temporary vectors are counted as one pair of index and value per source
  entry and one index per destination entry.
\<close>

definition sparse_table_move :: "lib_env \<Rightarrow> raw_gc \<Rightarrow> raw_gc \<Rightarrow> i64 \<Rightarrow> i64 \<Rightarrow> i64 \<Rightarrow> nat \<Rightarrow> nat \<Rightarrow> unit lib" where
  "sparse_table_move env src dst a b t src_entries dst_entries =
     (let temporary_bytes = src_entries * le_pair_size env + dst_entries * 8 in
      if 2 ^ 64 \<le> temporary_bytes \<or> le_would_exceed_cap env temporary_bytes then lfail Lib_Memory_Limit
      else
        lbind (resident src) (\<lambda>ts.
        let source = entries_in_range ts a b in
        lbind (i64_try_from (sint t + (sint b - sint a))) (\<lambda>target_last.
        lbind (resident dst) (\<lambda>td.
        let destination_keys = map fst (entries_in_range td t target_last) in
        lbind (spend_gas (of_nat (src_entries + dst_entries + length source + length destination_keys))) (\<lambda>_.
        lbind (lfor (\<lambda>index. set_index dst index LNil) destination_keys) (\<lambda>_.
        lfor (\<lambda>(index, v). lbind (i64_try_from (sint t + (sint index - sint a))) (\<lambda>d. set_index dst d v)) source))))))"

definition copy_index :: "raw_gc \<Rightarrow> raw_gc \<Rightarrow> i64 \<Rightarrow> i64 \<Rightarrow> i64 \<Rightarrow> unit lib" where
  "copy_index src dst a t offset = lbind (get_index src (a + offset)) (\<lambda>v. set_index dst (t + offset) v)"

definition dense_table_move :: "lib_env \<Rightarrow> raw_gc \<Rightarrow> raw_gc \<Rightarrow> i64 \<Rightarrow> i64 \<Rightarrow> i64 \<Rightarrow> unit lib" where
  "dense_table_move env src dst a b t =
     (let span = b - a; count = (if 0 \<le> sint span then unat span + 1 else 2 ^ 64 - 1) in
      if le_max_table_elements env < count then lfail (Lib_Err ''too many elements to move'')
      else if le_would_exceed_cap env (min (count * le_value_size env) (2 ^ 64 - 1)) then lfail Lib_Memory_Limit
      else
        lbind (spend_gas (of_nat count)) (\<lambda>_.
        if src = dst \<and> sint a < sint t \<and> sint t \<le> sint b
        then lfor (copy_index src dst a t) (rev (i64_range 0 span))
        else lfor (copy_index src dst a t) (i64_range 0 span)))"

definition table_move :: "lib_env \<Rightarrow> raw_value list \<Rightarrow> raw_value list lib" where
  "table_move env args =
     lbind (arg_table args 0 ''move'') (\<lambda>src.
     lbind (require_int args 1 ''bad argument #2 to 'table.move' (number expected)'') (\<lambda>a.
     lbind (require_int args 2 ''bad argument #3 to 'table.move' (number expected)'') (\<lambda>b.
     lbind (require_int args 3 ''bad argument #4 to 'table.move' (number expected)'') (\<lambda>t.
     lbind (case arg_value args 4 of
              LTable g \<Rightarrow> lreturn g
            | LNil \<Rightarrow> lreturn src
            | _ \<Rightarrow> lfail (Lib_Err ''bad argument #5 to 'table.move' (table expected)'')) (\<lambda>dst.
     if sint b < sint a then lreturn [LTable dst]
     else
       lbind (require_writable dst) (\<lambda>_.
       let n = sint b - sint a + 1 in
       if \<not> (0 < sint a \<or> sint b < (2 ^ 31 - 1) + sint a) then lfail (Lib_Err ''too many elements to move'')
       else if (2 ^ 31 - 1) - n + 1 < sint t then lfail (Lib_Err ''destination wrap around'')
       else
         lbind (if 32 < n then
                  lbind (live_entry_count src) (\<lambda>src_entries.
                  lbind (if src = dst then lreturn src_entries else live_entry_count dst) (\<lambda>dst_entries.
                  if int (max src_entries dst_entries) < n div 2
                  then lbind (sparse_table_move env src dst a b t src_entries dst_entries) (\<lambda>_. lreturn True)
                  else lreturn False))
                else lreturn False) (\<lambda>moved.
         lbind (if moved then lreturn () else dense_table_move env src dst a b t) (\<lambda>_.
         lreturn [LTable dst]))))))))"

end
