(* ===== verification/Table_Positions.thy ===== *)
theory Table_Positions
  imports Table_Lib Lua_Table_Spec Arena_Spec
begin

text \<open>
  Reading and writing tables by position. Positions up to \<open>2\<^sup>53\<close> in either direction are exact as floats,
  so \<^verbatim>\<open>get_index\<close> and \<^verbatim>\<open>set_index\<close> act on the map a table is. The locale \<open>positional_tables\<close> states that as
  an interface and proves what loops of such accesses do; the interpretation discharges it for the
  model's heap.
\<close>

section \<open>Running a builtin\<close>

lemma lbind_ok: "m st = (Inr x, st1) \<Longrightarrow> lbind m f st = f x st1"
  by (simp add: lbind_def)

lemma lbind_stop: "m st = (Inl e, st1) \<Longrightarrow> lbind m f st = (Inl e, st1)"
  by (simp add: lbind_def)

lemma lbind_lreturn [simp]: "lbind (lreturn x) f = f x"
  by (rule ext) (simp add: lbind_def lreturn_def)

lemma lbind_lfail [simp]: "lbind (lfail e) f = lfail e"
  by (rule ext) (simp add: lbind_def lfail_def)

section \<open>Positions as keys\<close>

definition near :: "i64 \<Rightarrow> bool" where
  "near i \<longleftrightarrow> - (2 ^ 53) < sint i \<and> sint i < 2 ^ 53"

lemma f64_fields_negated:
  assumes "\<not> f64_negative x"
  shows "f64_exponent (x + 2 ^ 63) = f64_exponent x" "f64_significand (x + 2 ^ 63) = f64_significand x"
    "f64_negative (x + 2 ^ 63)"
proof -
  have lt: "unat x < 2 ^ 63" using assms by (simp add: f64_negative_def)
  have "unat (x + 2 ^ 63) = unat x + 2 ^ 63" using lt by (simp add: unat_word_ariths)
  moreover have "(n + 2 ^ 63) div 2 ^ 52 mod 2 ^ 11 = n div 2 ^ 52 mod 2 ^ 11" for n :: nat
    using div_mult_self1 [of "2 ^ 52" n "2 ^ 11"] by simp
  ultimately show "f64_exponent (x + 2 ^ 63) = f64_exponent x" "f64_negative (x + 2 ^ 63)"
    by (simp_all add: f64_exponent_def f64_negative_def)
  then show "f64_significand (x + 2 ^ 63) = f64_significand x"
    using \<open>unat (x + 2 ^ 63) = unat x + 2 ^ 63\<close> mod_mult_self1 [of "unat x" "2 ^ 11" "2 ^ 52"]
    by (simp add: f64_significand_def f64_mantissa_def)
qed

lemma f64_to_int_negated: "\<not> f64_negative x \<Longrightarrow> f64_to_int x = Some i \<Longrightarrow> f64_to_int (x + 2 ^ 63) = Some (- i)"
  using f64_fields_negated [of x] by (auto simp: f64_to_int_def Let_def split: if_splits)

lemma f64_to_int_index:
  assumes "near i"
  shows "f64_to_int (f64_of_i64 i) = Some (sint i)"
proof -
  let ?n = "nat \<bar>sint i\<bar>"
  consider "sint i = 0" | "0 < sint i" | "sint i < 0" by linarith
  then show ?thesis
  proof cases
    case 1
    then show ?thesis
      by (simp add: f64_of_i64_def f64_of_nat_def f64_to_int_def f64_exponent_def f64_significand_def f64_mantissa_def)
  next
    case 2
    then show ?thesis using assms f64_to_int_of_nat [of ?n] by (simp add: f64_of_i64_def near_def nat_less_iff)
  next
    case 3
    then have n: "0 < ?n" "?n < 2 ^ 53" using assms by (auto simp: near_def nat_less_iff)
    show ?thesis using 3 f64_to_int_negated [OF f64_fields_of_nat(4) [OF n] f64_to_int_of_nat [OF n]]
      by (simp add: f64_of_i64_def)
  qed
qed

lemma f64_to_int_finite: "f64_to_int x = Some i \<Longrightarrow> \<not> f64_is_nan x"
  by (auto simp: f64_to_int_def f64_is_nan_def Let_def)

lemma normalize_integral:
  assumes "f64_to_int x = Some i" "\<bar>i\<bar> < 2 ^ 53"
  shows "normalize_key (LNumber x) = Some (Key_Integer (word_of_int i))"
proof -
  have "- (2 ^ 63) \<le> i \<and> i \<le> 2 ^ 63" "min i (2 ^ 63 - 1) = i" using assms(2) by auto
  then show ?thesis using assms(1) f64_to_int_finite [OF assms(1)] by (simp add: normalize_key_def number_key_def)
qed

lemma normalize_index: "near i \<Longrightarrow> normalize_key (LNumber (f64_of_i64 i)) = Some (Key_Integer i)"
  using normalize_integral [OF f64_to_int_index, of i] by (simp add: near_def abs_less_iff)

section \<open>Writes and room\<close>

lemma table_size_hash_set:
  assumes "hash_set k key v t = Some t'"
  shows "table_size t' \<le> table_size t + 1"
proof -
  have upd: "length (filter P (hs[i := s])) \<le> length (filter P hs) + 1" for P i s and hs :: "hash_slot list"
  proof (cases "i < length hs")
    case True
    then have "length (filter P (hs[i := s])) = length (filter P (take i hs)) + length (filter P (s # drop (Suc i) hs))"
      by (simp add: upd_conv_take_nth_drop)
    moreover have "length (filter P hs) = length (filter P (take i hs)) + length (filter P (hs ! i # drop (Suc i) hs))"
      using True by (metis append_take_drop_id Cons_nth_drop_Suc filter_append length_append)
    ultimately show ?thesis by simp
  qed (simp add: list_update_beyond)
  show ?thesis using assms upd
    by (auto simp: hash_set_def table_size_def live_slots_def split: option.splits if_splits)
qed

lemma table_set_size:
  assumes ok: "table_ok t" and room: "table_size t + 1 < array_bound" and set: "table_set key v t = Some (b, t')"
  shows "table_size t' \<le> table_size t + 1"
proof (cases "normalize_key key")
  case (Some k)
  let ?t = "t\<lparr>lt_array := lt_array t @ [v]\<rparr>"
  have s: "table_size ?t = table_size t + 1" by (simp add: table_size_def live_slots_def)
  have absorb: "table_size t1 \<le> table_size t + 1" if "absorb_from_hash ?t = Some t1" for t1
    using absorb_from_hash_ok [OF append_wf [OF ok, of v]] room s that by auto
  show ?thesis using set Some table_size_hash_set absorb
    by (fastforce simp: table_set_def set_inner_def table_size_def live_slots_def split: option.splits if_splits)
next
  case None
  then show ?thesis using set by (simp add: table_set_def set_inner_def)
qed

section \<open>The heap under a write\<close>

lemma arena_get_get_mut:
  "arena_get (arena_get_mut i g f a) j k = (if j = i \<and> k = g then map_option f (arena_get a i g) else arena_get a j k)"
proof (cases "arena_get a i g")
  case None
  then show ?thesis by (auto simp: arena_get_mut_def)
next
  case (Some v)
  then have "get (ar_gens a) (unat i) = Some g" "unat i < length (ar_entries a)"
    by (auto simp: arena_get_def get_def split: if_splits option.splits)
  then show ?thesis using Some by (auto simp: arena_get_mut_def arena_get_def get_def nth_list_update word_unat_eq_iff)
qed

lemma heap_table_remember [simp]:
  "heap_table (remember granted r h) g = heap_table h g" "hp_id (remember granted r h) = hp_id h"
  by (auto simp: remember_def heap_table_def set_age_def arena_get_def gc_set_age_def update_entry_def get_def nth_list_update
      split: gc_ref.split option.split)

lemma heap_table_table_mut:
  "heap_table (table_mut granted g f h) g' = (if g' = g then map_option f (heap_table h g) else heap_table h g')"
proof (cases "gc_heap g = hp_id h")
  case True
  let ?h1 = "remember granted (Gc_Table (gc_index g)) h"
  have "arena_get (tables ?h1) i k = arena_get (tables h) i k" for i k
    using heap_table_remember(1) [of granted "Gc_Table (gc_index g)" h "RawGc i k (hp_id h)"] by (simp add: heap_table_def)
  then show ?thesis using True
    by (cases g; cases g') (auto simp: table_mut_def Let_def heap_table_def arena_get_get_mut)
next
  case False
  then show ?thesis by (auto simp: table_mut_def heap_table_def)
qed

section \<open>The interface\<close>

text \<open>
  A set of tables seen as maps from keys, with room for some more writes. A read gives the value of
  the map, a write updates it and takes at most one unit of room; neither touches anything else.
\<close>

locale positional_tables =
  fixes rd :: "raw_gc \<Rightarrow> i64 \<Rightarrow> raw_value lib"
    and wr :: "raw_gc \<Rightarrow> i64 \<Rightarrow> raw_value \<Rightarrow> unit lib"
    and ready :: "raw_gc set \<Rightarrow> nat \<Rightarrow> lib_state \<Rightarrow> bool"
    and view :: "lib_state \<Rightarrow> raw_gc \<Rightarrow> lua_key \<Rightarrow> raw_value"
    and rest :: "lib_state \<Rightarrow> 'm"
  assumes reads: "ready G n st \<Longrightarrow> g \<in> G \<Longrightarrow> near i \<Longrightarrow> rd g i st = (Inr (view st g (Key_Integer i)), st)"
    and writes: "ready G (Suc n) st \<Longrightarrow> g \<in> G \<Longrightarrow> near i \<Longrightarrow>
      \<exists>st'. wr g i v st = (Inr (), st') \<and> ready G n st' \<and> rest st' = rest st \<and>
        (\<forall>g' \<in> G. view st' g' = (if g' = g then (view st g)(Key_Integer i := v) else view st g'))"
    and ready_less: "ready G n st \<Longrightarrow> m \<le> n \<Longrightarrow> ready G m st"
begin

text \<open>What a loop of writes leaves, given what it writes where.\<close>

definition written :: "raw_gc set \<Rightarrow> raw_gc \<Rightarrow> (i64 \<times> raw_value) list \<Rightarrow> lib_state \<Rightarrow> lib_state \<Rightarrow> bool" where
  "written G g ws st st' \<longleftrightarrow> rest st' = rest st \<and>
     (\<forall>g' \<in> G. view st' g' = (if g' = g then fold (\<lambda>(i, v) f. f(Key_Integer i := v)) ws (view st g) else view st g'))"

lemma written_Nil: "written G g [] st st"
  by (simp add: written_def)

lemma written_Cons:
  assumes "written G g [w] st st1" "written G g ws st1 st2" "g \<in> G"
  shows "written G g (w # ws) st st2"
  using assms by (auto simp: written_def split: prod.splits)

lemma write_one:
  assumes "ready G (Suc n) st" "g \<in> G" "near i"
  obtains st' where "wr g i v st = (Inr (), st')" "ready G n st'" "written G g [(i, v)] st st'"
  using writes [OF assms, of v] by (auto simp: written_def)

lemma write_loop:
  assumes "ready G (length ws + n) st" "g \<in> G" "\<forall>(i, v) \<in> set ws. near i"
  shows "\<exists>st'. lfor (\<lambda>(i, v). wr g i v) ws st = (Inr (), st') \<and> ready G n st' \<and> written G g ws st st'"
  using assms
proof (induction ws arbitrary: st)
  case Nil
  then show ?case by (simp add: lreturn_def written_Nil)
next
  case (Cons w ws)
  obtain i v where w: "w = (i, v)" by (cases w)
  have "ready G (Suc (length ws + n)) st" "near i" using Cons.prems w by auto
  from write_one [OF this(1) assms(2) this(2), of v] obtain st1
    where 1: "wr g i v st = (Inr (), st1)" "ready G (length ws + n) st1" "written G g [w] st st1" using w by blast
  from Cons.IH [OF 1(2) assms(2)] Cons.prems(3) obtain st2
    where 2: "lfor (\<lambda>(i, v). wr g i v) ws st1 = (Inr (), st2)" "ready G n st2" "written G g ws st1 st2" by auto
  show ?case using 1(1) 2 written_Cons [OF 1(3) 2(3) assms(2)] by (auto simp: lbind_def w)
qed

text \<open>
  A loop that copies within or between tables: no position is read after it was written, so what is
  copied are the values from before.
\<close>

lemma copy_loop:
  fixes from_index to_index :: "'b \<Rightarrow> i64"
  assumes "ready G (length os + n) st" "src \<in> G" "dst \<in> G"
    and "\<forall>k \<in> set os. near (from_index k) \<and> near (to_index k)"
    and "src = dst \<Longrightarrow> \<forall>pre k post. os = pre @ k # post \<longrightarrow> from_index k \<notin> to_index ` set pre"
  shows "\<exists>st'. lfor (\<lambda>k. lbind (rd src (from_index k)) (\<lambda>v. wr dst (to_index k) v)) os st = (Inr (), st') \<and>
    ready G n st' \<and> written G dst (map (\<lambda>k. (to_index k, view st src (Key_Integer (from_index k)))) os) st st'"
  using assms
proof (induction os arbitrary: st)
  case Nil
  then show ?case by (simp add: lreturn_def written_Nil)
next
  case (Cons k os)
  let ?v = "view st src (Key_Integer (from_index k))"
  have near: "near (from_index k)" "near (to_index k)" using Cons.prems(4) by auto
  have r: "ready G (Suc (length os + n)) st" using Cons.prems(1) by simp
  have get: "rd src (from_index k) st = (Inr ?v, st)" by (rule reads [OF Cons.prems(1,2) near(1)])
  from write_one [OF r Cons.prems(3) near(2), of ?v] obtain st1
    where 1: "wr dst (to_index k) ?v st = (Inr (), st1)" "ready G (length os + n) st1" "written G dst [(to_index k, ?v)] st st1"
    by blast
  have unread: "from_index l \<noteq> to_index k" if "src = dst" "l \<in> set os" for l
  proof -
    obtain pre post where "os = pre @ l # post" using \<open>l \<in> set os\<close> by (auto simp: in_set_conv_decomp)
    then show ?thesis using Cons.prems(5) [OF that(1), rule_format, of "k # pre" l post] by auto
  qed
  have same: "view st1 src (Key_Integer (from_index l)) = view st src (Key_Integer (from_index l))" if "l \<in> set os" for l
    using 1(3) unread [OF _ that] Cons.prems(2) by (auto simp: written_def)
  have "src = dst \<Longrightarrow> \<forall>pre l post. os = pre @ l # post \<longrightarrow> from_index l \<notin> to_index ` set pre"
  proof (intro allI impI)
    fix pre l post assume "src = dst" "os = pre @ l # post"
    then show "from_index l \<notin> to_index ` set pre" using Cons.prems(5) [rule_format, of "k # pre" l post] by auto
  qed
  from Cons.IH [OF 1(2) Cons.prems(2,3) _ this] Cons.prems(4) obtain st2
    where 2: "lfor (\<lambda>k. lbind (rd src (from_index k)) (\<lambda>v. wr dst (to_index k) v)) os st1 = (Inr (), st2)" "ready G n st2"
      "written G dst (map (\<lambda>k. (to_index k, view st1 src (Key_Integer (from_index k)))) os) st1 st2" by auto
  have "map (\<lambda>k. (to_index k, view st1 src (Key_Integer (from_index k)))) os =
      map (\<lambda>k. (to_index k, view st src (Key_Integer (from_index k)))) os" using same by simp
  with 2(3) have "written G dst (map (\<lambda>k. (to_index k, view st src (Key_Integer (from_index k)))) (k # os)) st st2"
    using written_Cons [OF 1(3) _ Cons.prems(3)] by simp
  moreover have "lbind (rd src (from_index k)) (\<lambda>v. wr dst (to_index k) v) st = (Inr (), st1)"
    using lbind_ok [where m = "rd src (from_index k)" and f = "wr dst (to_index k)", OF get] 1(1) by simp
  ultimately show ?case using 2(1,2) by (auto simp: lbind_ok [where st = st and x = "()" and ?st1.0 = st1])
qed

lemma read_loop:
  assumes "ready G n st" "g \<in> G" "\<forall>i \<in> set is. near i"
  shows "foldr (\<lambda>i m. lbind (rd g i) (\<lambda>v. lbind m (\<lambda>vs. lreturn (v # vs)))) is (lreturn []) st =
    (Inr (map (\<lambda>i. view st g (Key_Integer i)) is), st)"
  using assms by (induction "is") (auto simp: lreturn_def lbind_def reads)

end

section \<open>The heap provides it\<close>

definition tables_ready :: "raw_gc set \<Rightarrow> nat \<Rightarrow> lib_state \<Rightarrow> bool" where
  "tables_ready G n st \<longleftrightarrow>
     (\<forall>g \<in> G. \<exists>t. heap_table (ls_heap st) g = Some t \<and> table_ok t \<and> table_size t + n < array_bound)"

definition table_view :: "lib_state \<Rightarrow> raw_gc \<Rightarrow> lua_key \<Rightarrow> raw_value" where
  "table_view st g = (case heap_table (ls_heap st) g of None \<Rightarrow> (\<lambda>_. LNil) | Some t \<Rightarrow> lookup t)"

lemma get_index_ready:
  assumes "tables_ready G n st" "g \<in> G" "near i"
  shows "get_index g i st = (Inr (table_view st g (Key_Integer i)), st)"
proof -
  obtain t where t: "heap_table (ls_heap st) g = Some t" "table_ok t" using assms by (auto simp: tables_ready_def)
  then show ?thesis using normalize_index [OF assms(3)] table_get_lookup [of t]
    by (simp add: get_index_def lvalue_def table_view_def)
qed

lemma set_index_ready:
  assumes "tables_ready G (Suc n) st" "g \<in> G" "near i"
  shows "\<exists>st'. set_index g i v st = (Inr (), st') \<and> tables_ready G n st' \<and> ls_meter st' = ls_meter st \<and>
    (\<forall>g' \<in> G. table_view st' g' = (if g' = g then (table_view st g)(Key_Integer i := v) else table_view st g'))"
proof -
  obtain t where t: "heap_table (ls_heap st) g = Some t" "table_ok t" "table_size t + Suc n < array_bound"
    using assms by (auto simp: tables_ready_def)
  then have room: "table_size t + 1 < array_bound" by simp
  from table_set_ok [OF t(2) room, of "LNumber (f64_of_i64 i)" v] obtain t' where
    t': "table_set (LNumber (f64_of_i64 i)) v t = Some (True, t')" "table_ok t'" "lookup t' = (lookup t)(Key_Integer i := v)"
    by (auto simp: normalize_index [OF assms(3)])
  have size: "table_size t' + n < array_bound" using table_set_size [OF t(2) room t'(1)] t(3) by simp
  let ?st = "st\<lparr>ls_grants := (\<lambda>n. ls_grants st (Suc n)), ls_heap := table_mut (ls_grants st 0) g (\<lambda>_. t') (ls_heap st)\<rparr>"
  have "tables_ready G n ?st" using assms(1) t(1) t'(2) size
    by (fastforce simp: tables_ready_def heap_table_table_mut)
  moreover have "table_view ?st g' = (if g' = g then (table_view st g)(Key_Integer i := v) else table_view st g')" for g'
    using t(1) t'(3) by (simp add: table_view_def heap_table_table_mut)
  ultimately show ?thesis using t(1) t'(1) by (simp add: set_index_def)
qed

interpretation positions: positional_tables get_index set_index tables_ready table_view ls_meter
proof
  show "tables_ready G n st \<Longrightarrow> g \<in> G \<Longrightarrow> near i \<Longrightarrow> get_index g i st = (Inr (table_view st g (Key_Integer i)), st)" for G n st g i
    by (rule get_index_ready)
  show "tables_ready G (Suc n) st \<Longrightarrow> g \<in> G \<Longrightarrow> near i \<Longrightarrow>
      \<exists>st'. set_index g i v st = (Inr (), st') \<and> tables_ready G n st' \<and> ls_meter st' = ls_meter st \<and>
        (\<forall>g' \<in> G. table_view st' g' = (if g' = g then (table_view st g)(Key_Integer i := v) else table_view st g'))" for G n st g i v
    by (rule set_index_ready)
  show "tables_ready G n st \<Longrightarrow> m \<le> n \<Longrightarrow> tables_ready G m st" for G n st m
    by (fastforce simp: tables_ready_def)
qed

end
