(* ===== verification/Table_Move.thy ===== *)
theory Table_Move
  imports Table_Positions Heap_Ops
begin

text \<open>
  \<^verbatim>\<open>table.move\<close> copies a range of positions as if at once, whichever of its three ways it takes: forwards,
  backwards for an overlap in place, or over the live entries when the range is much wider than the
  tables. The last one needs the order of floats, which is the order of the integers they are.
\<close>

section \<open>Floats that are integers\<close>

definition float_unit :: nat where
  "float_unit = 2 ^ 1074"

definition f64_magnitude :: "f64 \<Rightarrow> nat" where
  "f64_magnitude x = f64_significand x * 2 ^ (max 1 (f64_exponent x) - 1)"

lemma mod_mult_div: "n mod (c * d) div c = n div c mod (d :: nat)"
  by (cases "c = 0") (simp_all add: mod_mult2_eq)

lemma less_div_mod:
  fixes a b c :: nat
  assumes "a < b"
  shows "a div c = b div c \<and> a mod c < b mod c \<or> a div c < b div c"
proof (cases "a div c = b div c")
  case True
  then show ?thesis using assms div_mult_mod_eq [of a c] div_mult_mod_eq [of b c] by (metis add_less_cancel_left)
next
  case False
  then show ?thesis using div_le_mono [OF less_imp_le [OF assms], of c] by simp
qed

lemma magnitude_bits:
  "f64_exponent x = unat x mod 2 ^ 63 div 2 ^ 52" "f64_mantissa x = unat x mod 2 ^ 63 mod 2 ^ 52"
  using mod_mult_div [of "unat x" "2 ^ 52" "2 ^ 11"] mod_mod_cancel [of "2 ^ 52" "2 ^ 63 :: nat" "unat x"]
  by (simp_all add: f64_exponent_def f64_mantissa_def)

lemma magnitude_less:
  assumes "unat x mod 2 ^ 63 < unat y mod 2 ^ 63"
  shows "f64_magnitude x < f64_magnitude y"
proof -
  let ?m = "\<lambda>z. unat z mod 2 ^ 63 mod 2 ^ 52" and ?e = "\<lambda>z. unat z mod 2 ^ 63 div 2 ^ 52"
  consider "?e x = ?e y" "?m x < ?m y" | "?e x < ?e y" using less_div_mod [OF assms, of "2 ^ 52"] by blast
  then show ?thesis
  proof cases
    case 1
    then show ?thesis unfolding f64_magnitude_def f64_significand_def magnitude_bits by simp
  next
    case 2
    let ?ex = "max 1 (f64_exponent x) - 1" and ?ey = "f64_exponent y - 1"
    have e: "f64_exponent x < f64_exponent y" using 2 unfolding magnitude_bits .
    have sy: "2 ^ 52 \<le> f64_significand y" using e by (simp add: f64_significand_def)
    have m: "f64_mantissa x < 2 ^ 52" by (simp add: f64_mantissa_def)
    have "f64_magnitude x < 2 ^ 52 * 2 ^ ?ey"
    proof (cases "f64_exponent x = 0")
      case True
      then show ?thesis using m by (simp add: f64_magnitude_def f64_significand_def order_less_le_trans)
    next
      case False
      then have "f64_magnitude x < 2 ^ 53 * 2 ^ ?ex"
        using m unfolding f64_magnitude_def f64_significand_def by (intro mult_strict_right_mono) auto
      also have "2 ^ 53 * 2 ^ ?ex = 2 ^ 52 * (2 :: nat) ^ Suc ?ex" by (simp only: power_Suc) simp
      also have "\<dots> \<le> 2 ^ 52 * 2 ^ ?ey" using e False by (intro mult_le_mono2 power_increasing) auto
      finally show ?thesis .
    qed
    also have "\<dots> \<le> f64_magnitude y" using sy e by (simp add: f64_magnitude_def max_def)
    finally show ?thesis .
  qed
qed

lemma magnitude_le: "f64_magnitude x \<le> f64_magnitude y \<longleftrightarrow> unat x mod 2 ^ 63 \<le> unat y mod 2 ^ 63"
proof (cases "unat x mod 2 ^ 63" "unat y mod 2 ^ 63" rule: linorder_cases)
  case equal
  then show ?thesis unfolding f64_magnitude_def f64_significand_def magnitude_bits by simp
qed (use magnitude_less [of x y] magnitude_less [of y x] in auto)

lemma f64_rank_eq: "f64_rank x = (if f64_negative x then - int (unat x mod 2 ^ 63) else int (unat x mod 2 ^ 63))"
proof -
  have "unat x - 9223372036854775808 < 9223372036854775808" using unat_bounds(4) [of x] by linarith
  then have "unat x - 2 ^ 63 = unat x mod 2 ^ 63" if "2 ^ 63 \<le> unat x" using le_mod_geq [OF that] by simp
  then show ?thesis by (auto simp: f64_rank_def f64_negative_def)
qed

lemma f64_to_int_magnitude:
  assumes "f64_to_int x = Some i"
  shows "(if f64_negative x then - int (f64_magnitude x) else int (f64_magnitude x)) = i * int float_unit"
proof -
  let ?e = "max 1 (f64_exponent x)" and ?s = "f64_significand x"
  have "\<exists>n. i = (if f64_negative x then - 1 else 1) * int n \<and> f64_magnitude x = n * float_unit"
  proof (cases "1075 \<le> ?e")
    case True
    then have "?s * 2 ^ (?e - 1) = ?s * 2 ^ (?e - 1075) * 2 ^ 1074"
      by (simp only: mult.assoc power_add [symmetric]) simp
    then show ?thesis using assms True
      by (intro exI [of _ "?s * 2 ^ (?e - 1075)"]) (auto simp only: f64_to_int_def Let_def f64_magnitude_def float_unit_def if_True split: if_splits)
  next
    case False
    then have d: "?s mod 2 ^ (1075 - ?e) = 0" and i: "i = (if f64_negative x then - 1 else 1) * int (?s div 2 ^ (1075 - ?e))"
      using assms by (auto simp: f64_to_int_def Let_def split: if_splits)
    have p: "(2 :: nat) ^ (1075 - ?e) * 2 ^ (?e - 1) = 2 ^ 1074" using False by (simp only: power_add [symmetric]) simp
    have "?s * 2 ^ (?e - 1) = ?s div 2 ^ (1075 - ?e) * (2 ^ (1075 - ?e) * 2 ^ (?e - 1))"
      using d by (simp only: mult.assoc [symmetric]) (simp add: mod_0_imp_dvd)
    then show ?thesis using i unfolding p f64_magnitude_def float_unit_def by blast
  qed
  then show ?thesis by auto
qed

lemma f64_rank_integral:
  assumes "f64_to_int x = Some i" "f64_to_int y = Some j"
  shows "f64_rank x \<le> f64_rank y \<longleftrightarrow> i \<le> j"
proof -
  have u: "0 < int float_unit" by (simp add: float_unit_def)
  have z: "f64_magnitude z = 0 \<longleftrightarrow> unat z mod 2 ^ 63 = 0" for z
    using magnitude_le [of z 0] by (simp add: f64_magnitude_def f64_significand_def f64_mantissa_def f64_exponent_def)
  have "i \<le> j \<longleftrightarrow> i * int float_unit \<le> j * int float_unit" using u by simp
  also have "\<dots> \<longleftrightarrow> f64_rank x \<le> f64_rank y"
    unfolding f64_to_int_magnitude [OF assms(1), symmetric] f64_to_int_magnitude [OF assms(2), symmetric] f64_rank_eq
    using magnitude_le [of x y] magnitude_le [of y x] z [of x] z [of y] by auto
  finally show ?thesis by simp
qed

lemma f64_le_integral:
  "f64_to_int x = Some i \<Longrightarrow> f64_to_int y = Some j \<Longrightarrow> f64_le x y \<longleftrightarrow> i \<le> j"
  by (simp add: f64_le_def f64_rank_integral f64_to_int_finite)

lemma f64_as_i64_integral:
  assumes "f64_to_int x = Some i" "\<bar>i\<bar> < 2 ^ 63"
  shows "f64_as_i64 x = word_of_int i"
proof -
  define m where "m = (if 1075 \<le> max 1 (f64_exponent x) then f64_significand x * 2 ^ (max 1 (f64_exponent x) - 1075)
    else f64_significand x div 2 ^ (1075 - max 1 (f64_exponent x)))"
  have i: "i = (if f64_negative x then - int m else int m)" and e: "f64_exponent x \<noteq> 2047"
    using assms(1) by (auto simp: f64_to_int_def Let_def m_def split: if_splits)
  then have "int m < 2 ^ 63" using assms(2) by (simp split: if_splits)
  then have "m < 2 ^ 63" by (simp add: zero_le)
  then show ?thesis using i e f64_to_int_finite [OF assms(1)]
    unfolding f64_as_i64_def Let_def m_def [symmetric] by simp
qed

section \<open>Writes as a map\<close>

lemma lbind_assoc: "lbind (lbind m f) g = lbind m (\<lambda>x. lbind (f x) g)"
  by (rule ext) (simp add: lbind_def split: prod.split sum.split)

lemma lbind_return_value: "lbind m (\<lambda>_. lreturn y) st = (Inr x, st') \<Longrightarrow> x = y"
  by (auto simp: lbind_def lreturn_def split: prod.splits sum.splits)

lemma lfor_map: "lfor f (map g xs) = lfor (\<lambda>x. f (g x)) xs"
  by (induction xs) simp_all

lemma lfor_cong: "(\<And>x. x \<in> set xs \<Longrightarrow> f x = g x) \<Longrightarrow> lfor f xs st = lfor g xs st"
proof -
  assume "\<And>x. x \<in> set xs \<Longrightarrow> f x = g x"
  then have "lfor f xs = lfor g xs" by (induction xs) simp_all
  then show ?thesis by simp
qed

lemma sint_word_of_int: "- (2 ^ 63) \<le> k \<Longrightarrow> k < 2 ^ 63 \<Longrightarrow> sint (word_of_int k :: i64) = k"
  by (simp add: signed_of_int signed_take_bit_int_eq_self_iff)

lemma sint_plus: "- (2 ^ 63) \<le> sint x + sint y \<Longrightarrow> sint x + sint y < 2 ^ 63 \<Longrightarrow> sint (x + y :: i64) = sint x + sint y"
  using sint_word_of_int [of "sint x + sint y"] by simp

lemma sint_minus: "- (2 ^ 63) \<le> sint x - sint y \<Longrightarrow> sint x - sint y < 2 ^ 63 \<Longrightarrow> sint (x - y :: i64) = sint x - sint y"
  using sint_word_of_int [of "sint x - sint y"] by simp

lemma unat_sint: "0 \<le> sint x \<Longrightarrow> int (unat (x :: i64)) = sint x"
  using sint_lt [of x] by (simp add: uint_sint take_bit_int_eq_self_iff)

lemma set_i64_range: "i \<in> set (i64_range a b) \<longleftrightarrow> sint a \<le> sint i \<and> sint i \<le> sint b"
proof
  assume "i \<in> set (i64_range a b)"
  then obtain k where k: "i = word_of_int k" "sint a \<le> k" "k \<le> sint b" by (auto simp: i64_range_def)
  have "- (2 ^ 63) \<le> k" "k < 2 ^ 63" using k(2,3) sint_ge [of a] sint_lt [of b] by simp_all
  then show "sint a \<le> sint i \<and> sint i \<le> sint b" using k sint_word_of_int by simp
next
  assume "sint a \<le> sint i \<and> sint i \<le> sint b"
  then show "i \<in> set (i64_range a b)" by (auto simp: i64_range_def intro!: image_eqI [of _ _ "sint i"])
qed

lemma length_i64_range [simp]: "length (i64_range a b) = nat (sint b - sint a + 1)"
  by (simp add: i64_range_def)

lemma distinct_i64_range: "distinct (i64_range a b)"
proof -
  have "map sint (i64_range a b) = [sint a..sint b]"
  proof -
    have "sint (word_of_int k :: i64) = k" if "k \<in> set [sint a..sint b]" for k
      using that sint_ge [of a] sint_lt [of b] by (intro sint_word_of_int) auto
    then show ?thesis unfolding i64_range_def map_map by (intro map_idI) simp
  qed
  then have "distinct (map sint (i64_range a b))" by simp
  then show ?thesis using distinct_map by blast
qed

lemma fold_writes:
  assumes "distinct (map fst ws)"
  shows "fold (\<lambda>(i, v) f. f(Key_Integer i := v)) ws f k =
    (case k of Key_Integer i \<Rightarrow> (case map_of ws i of Some v \<Rightarrow> v | None \<Rightarrow> f k) | _ \<Rightarrow> f k)"
  using assms
proof (induction ws arbitrary: f)
  case (Cons w ws)
  obtain i v where w: "w = (i, v)" by (cases w)
  have "map_of ws i = None" using Cons.prems by (simp add: w map_of_eq_None_iff)
  then show ?case using Cons.IH [of "f(Key_Integer i := v)"] Cons.prems by (simp add: w split: lua_key.split option.split)
qed (simp split: lua_key.split)

lemma fold_clears:
  "fold (\<lambda>(i, v) f. f(Key_Integer i := v)) (map (\<lambda>i. (i, LNil)) is) f k =
    (if k \<in> Key_Integer ` set is then LNil else f k)"
  by (induction "is" arbitrary: f) auto

lemma map_of_shift: "map_of (map (\<lambda>k. (t + k, f k)) os) i = (if i - t \<in> set os then Some (f (i - t)) else None)" for t :: i64
  by (induction os) auto

section \<open>What a move does\<close>

definition moved :: "(lua_key \<Rightarrow> raw_value) \<Rightarrow> (lua_key \<Rightarrow> raw_value) \<Rightarrow> i64 \<Rightarrow> i64 \<Rightarrow> i64 \<Rightarrow> lua_key \<Rightarrow> raw_value" where
  "moved fs fd a b t k =
     (case k of
        Key_Integer i \<Rightarrow>
          if sint t \<le> sint i \<and> sint i \<le> sint t + (sint b - sint a) then fs (Key_Integer (a + (i - t))) else fd k
      | _ \<Rightarrow> fd k)"

definition move_outcome :: "raw_gc \<Rightarrow> raw_gc \<Rightarrow> i64 \<Rightarrow> i64 \<Rightarrow> i64 \<Rightarrow> lib_state \<Rightarrow> (lib_error + 'a) \<times> lib_state \<Rightarrow> bool" where
  "move_outcome src dst a b t st out \<longleftrightarrow>
     (case out of
        (Inl e, st') \<Rightarrow> e \<noteq> Lib_Panic \<and> table_view st' src = table_view st src \<and> table_view st' dst = table_view st dst
      | (Inr _, st') \<Rightarrow> table_view st' dst = moved (table_view st src) (table_view st dst) a b t \<and>
          (src \<noteq> dst \<longrightarrow> table_view st' src = table_view st src))"

lemma table_view_meter [simp]: "table_view (st\<lparr>ls_meter := m\<rparr>) = table_view st"
  by (simp add: table_view_def [abs_def])

lemma move_outcome_meter [simp]: "move_outcome src dst a b t (st\<lparr>ls_meter := m\<rparr>) out = move_outcome src dst a b t st out"
  unfolding move_outcome_def table_view_meter ..

definition move_range :: "i64 \<Rightarrow> i64 \<Rightarrow> i64 \<Rightarrow> bool" where
  "move_range a b t \<longleftrightarrow> near a \<and> near b \<and> near t \<and> sint a \<le> sint b \<and> sint t + (sint b - sint a) < 2 ^ 53"

lemma move_offset:
  assumes "move_range a b t" "k \<in> set (i64_range 0 (b - a))"
  shows "0 \<le> sint k" "sint k \<le> sint b - sint a" "sint (a + k) = sint a + sint k" "sint (t + k) = sint t + sint k"
    "near (a + k)" "near (t + k)"
proof -
  have s: "sint (b - a) = sint b - sint a" by (rule sint_minus) (use assms(1) in \<open>auto simp: move_range_def near_def\<close>)
  then show k: "0 \<le> sint k" "sint k \<le> sint b - sint a" using assms(2) by (auto simp: set_i64_range)
  show "sint (a + k) = sint a + sint k" "sint (t + k) = sint t + sint k"
    using k assms(1) by (auto simp: move_range_def near_def intro!: sint_plus)
  then show "near (a + k)" "near (t + k)" using k assms(1) by (auto simp: move_range_def near_def)
qed

lemma offsets_of:
  assumes "move_range a b t"
  shows "i - t \<in> set (i64_range 0 (b - a)) \<longleftrightarrow> sint t \<le> sint i \<and> sint i \<le> sint t + (sint b - sint a)"
proof
  assume k: "i - t \<in> set (i64_range 0 (b - a))"
  show "sint t \<le> sint i \<and> sint i \<le> sint t + (sint b - sint a)" using move_offset [OF assms k] by simp
next
  assume i: "sint t \<le> sint i \<and> sint i \<le> sint t + (sint b - sint a)"
  have s: "sint (b - a) = sint b - sint a" by (rule sint_minus) (use assms in \<open>auto simp: move_range_def near_def\<close>)
  have "sint (i - t) = sint i - sint t" by (rule sint_minus) (use i assms in \<open>auto simp: move_range_def near_def\<close>)
  then show "i - t \<in> set (i64_range 0 (b - a))" using i s by (simp add: set_i64_range)
qed

lemma writes_moved:
  assumes "move_range a b t" "set os = set (i64_range 0 (b - a))" "distinct os"
  shows "fold (\<lambda>(i, v) f. f(Key_Integer i := v)) (map (\<lambda>k. (t + k, fs (Key_Integer (a + k)))) os) fd = moved fs fd a b t"
proof
  fix k
  have "distinct (map fst (map (\<lambda>k. (t + k, fs (Key_Integer (a + k)))) os))"
    using assms(3) by (simp add: comp_def distinct_map inj_on_def)
  from fold_writes [OF this, of fd k] show "fold (\<lambda>(i, v) f. f(Key_Integer i := v)) (map (\<lambda>k. (t + k, fs (Key_Integer (a + k)))) os) fd k = moved fs fd a b t k"
    by (auto simp: map_of_shift [where f = "\<lambda>k. fs (Key_Integer (a + k))"] moved_def assms(2) offsets_of [OF assms(1)] split: lua_key.split)
qed

section \<open>The dense ways\<close>

lemma copy_offsets:
  assumes r: "move_range a b t" and ready: "tables_ready {src, dst} n st" and n: "nat (sint b - sint a + 1) \<le> n"
    and os: "set os = set (i64_range 0 (b - a))" "distinct os"
    and order: "src = dst \<Longrightarrow> \<forall>pre k post. os = pre @ k # post \<longrightarrow> a + k \<notin> (\<lambda>k. t + k) ` set pre"
  shows "move_outcome src dst a b t st (lfor (copy_index src dst a t) os st)"
proof -
  have len: "length os = nat (sint b - sint a + 1)"
  proof -
    have "sint (b - a) = sint b - sint a" by (rule sint_minus) (use r in \<open>auto simp: move_range_def near_def\<close>)
    then show ?thesis using distinct_card [OF os(2)] distinct_card [OF distinct_i64_range [of 0 "b - a"]] os(1) by simp
  qed
  have "tables_ready {src, dst} (length os + 0) st" using positions.ready_less [OF ready] n len by simp
  from positions.copy_loop [where src = src and dst = dst and from_index = "\<lambda>k. a + k" and to_index = "\<lambda>k. t + k", OF this _ _ _ order] obtain st' where
    st': "lfor (copy_index src dst a t) os st = (Inr (), st')"
      "positions.written {src, dst} dst (map (\<lambda>k. (t + k, table_view st src (Key_Integer (a + k)))) os) st st'"
    using move_offset(5,6) [OF r] os(1) by (auto simp: copy_index_def [abs_def])
  then show ?thesis
    using writes_moved [OF r os, of "table_view st src"] by (auto simp: move_outcome_def positions.written_def)
qed

lemma dense_table_move_outcome:
  assumes r: "move_range a b t" and ready: "tables_ready {src, dst} n st" and n: "le_max_table_elements env \<le> n"
  shows "move_outcome src dst a b t st (dense_table_move env src dst a b t st)"
proof -
  have s: "sint (b - a) = sint b - sint a" by (rule sint_minus) (use r in \<open>auto simp: move_range_def near_def\<close>)
  then have u: "int (unat (b - a)) = sint b - sint a" using r unat_sint [of "b - a"] by (simp add: move_range_def)
  define count where "count = unat (b - a) + 1"
  have c: "(if 0 \<le> sint (b - a) then unat (b - a) + 1 else 2 ^ 64 - 1) = count" using s r by (simp add: move_range_def count_def)
  show ?thesis
  proof (cases "le_max_table_elements env < count \<or> le_would_exceed_cap env (min (count * le_value_size env) (2 ^ 64 - 1))")
    case True
    then show ?thesis by (auto simp: dense_table_move_def Let_def c lfail_def move_outcome_def)
  next
    case False
    obtain ok m where m: "charge_gas (of_nat count) (ls_meter st) = (ok, m)" by (cases "charge_gas (of_nat count) (ls_meter st)")
    let ?st = "st\<lparr>ls_meter := m\<rparr>" and ?down_path = "src = dst \<and> sint a < sint t \<and> sint t \<le> sint b"
    have views: "table_view ?st = table_view st" "tables_ready {src, dst} n ?st"
      using ready by (simp_all add: table_view_def [abs_def] tables_ready_def)
    have "nat (sint b - sint a + 1) = count" unfolding u [symmetric] count_def by linarith
    then have n': "nat (sint b - sint a + 1) \<le> n" using False n by linarith
    have run: "dense_table_move env src dst a b t st =
        (if ok then lfor (copy_index src dst a t) (if ?down_path then rev (i64_range 0 (b - a)) else i64_range 0 (b - a)) ?st
         else (Inl Lib_Gas, ?st))"
      using False unfolding dense_table_move_def Let_def c by (simp add: lbind_def spend_gas_def m)
    let ?os = "if ?down_path then rev (i64_range 0 (b - a)) else i64_range 0 (b - a)"
    have sorted: "sorted (map sint (i64_range 0 (b - a)))"
    proof -
      have "map sint (i64_range 0 (b - a)) = [sint (0 :: i64)..sint (b - a)]"
      proof -
        have "sint (word_of_int k :: i64) = k" if "k \<in> set [0..sint (b - a)]" for k
          using that sint_lt [of "b - a"] by (intro sint_word_of_int) auto
        then show ?thesis unfolding i64_range_def map_map by (intro map_idI) simp
      qed
      then show ?thesis by simp
    qed
    have "move_outcome src dst a b t ?st (lfor (copy_index src dst a t) ?os ?st)"
    proof (rule copy_offsets [OF r views(2) n'])
      show "set ?os = set (i64_range 0 (b - a))" "distinct ?os" by (simp_all add: distinct_i64_range)
      assume same: "src = dst"
      show "\<forall>pre k post. ?os = pre @ k # post \<longrightarrow> a + k \<notin> (\<lambda>k. t + k) ` set pre"
      proof (intro allI impI notI)
        fix pre k post assume os: "?os = pre @ k # post" and "a + k \<in> (\<lambda>k. t + k) ` set pre"
        then obtain l where l: "l \<in> set pre" "a + k = t + l" by auto
        have "k \<in> set ?os" "l \<in> set ?os" unfolding os using l(1) by auto
        then have mem: "k \<in> set (i64_range 0 (b - a))" "l \<in> set (i64_range 0 (b - a))" by (simp_all split: if_splits)
        have eq: "sint a + sint k = sint t + sint l" using move_offset(3,4) [OF r] mem l(2) by metis
        have neq: "k \<noteq> l" using os l(1) distinct_i64_range [of 0 "b - a"] by (auto simp: rev_swap split: if_splits)
        then have "sint k \<noteq> sint l" using word_eq_iff_signed by blast
        moreover have "if ?down_path then sint k \<le> sint l else sint l \<le> sint k"
        proof (cases ?down_path)
          case True
          then have "i64_range 0 (b - a) = rev post @ k # rev pre" using os by (simp add: rev_swap)
          then show ?thesis using True sorted l(1) by (auto simp: sorted_append)
        next
          case False
          then have "i64_range 0 (b - a) = pre @ k # post" using os by (simp only: if_False)
          then show ?thesis using False sorted l(1) by (auto simp: sorted_append)
        qed
        moreover have "sint k \<le> sint b - sint a" "0 \<le> sint l" using move_offset(1,2) [OF r] mem by blast+
        ultimately show False using eq same by (auto split: if_splits)
      qed
    qed
    then show ?thesis unfolding run move_outcome_meter by (cases ok) (simp_all add: move_outcome_def)
  qed
qed

section \<open>The sparse way\<close>

lemma key_in_range_number:
  assumes "near a" "near b"
  shows "integer_key_in_range (LNumber x) a b = Some i \<longleftrightarrow>
    normalize_key (LNumber x) = Some (Key_Integer i) \<and> sint a \<le> sint i \<and> sint i \<le> sint b"
proof
  assume "integer_key_in_range (LNumber x) a b = Some i"
  then obtain j where j: "f64_to_int x = Some j" "i = f64_as_i64 x" "f64_le (f64_of_i64 a) x" "f64_le x (f64_of_i64 b)"
    by (auto simp: integer_key_in_range_def split: if_splits)
  then have range: "sint a \<le> j" "j \<le> sint b"
    using f64_le_integral [OF f64_to_int_index [OF assms(1)] j(1)] f64_le_integral [OF j(1) f64_to_int_index [OF assms(2)]] by simp_all
  then have small: "\<bar>j\<bar> < 2 ^ 53" using assms by (auto simp: near_def)
  then have i: "i = word_of_int j" using f64_as_i64_integral [OF j(1)] j(2) by simp
  have "- (2 ^ 63) \<le> j" "j < 2 ^ 63" using small by auto
  then have "sint i = j" using sint_word_of_int unfolding i by blast
  then show "normalize_key (LNumber x) = Some (Key_Integer i) \<and> sint a \<le> sint i \<and> sint i \<le> sint b"
    using normalize_integral [OF j(1) small] i range by simp
next
  assume n: "normalize_key (LNumber x) = Some (Key_Integer i) \<and> sint a \<le> sint i \<and> sint i \<le> sint b"
  then have i53: "\<bar>sint i\<bar> < 2 ^ 53" using assms by (auto simp: near_def)
  from n obtain j where j: "f64_to_int x = Some j" "- (2 ^ 63) \<le> j" "j \<le> 2 ^ 63" "i = word_of_int (min j (2 ^ 63 - 1))"
    by (auto simp: normalize_key_def number_key_def split: if_splits option.splits)
  have "sint i = min j (2 ^ 63 - 1)" unfolding j(4) by (rule sint_word_of_int) (use j(2) in auto)
  then have "j = sint i" using i53 by (auto simp: min_def split: if_splits)
  then have x: "f64_to_int x = Some (sint i)" using j(1) by simp
  have "f64_as_i64 x = i" using f64_as_i64_integral [OF x] i53 by simp
  then show "integer_key_in_range (LNumber x) a b = Some i"
    using x n f64_le_integral [OF f64_to_int_index [OF assms(1)] x] f64_le_integral [OF x f64_to_int_index [OF assms(2)]]
    by (simp add: integer_key_in_range_def)
qed

text \<open>Native integers are keys of their own; the sparse way takes them for positions.\<close>

definition no_native_keys :: "lua_table \<Rightarrow> i64 \<Rightarrow> i64 \<Rightarrow> bool" where
  "no_native_keys t a b \<longleftrightarrow>
     (\<forall>(key, v) \<in> set (for_each_entry t). case key of LInteger i \<Rightarrow> \<not> (sint a \<le> sint i \<and> sint i \<le> sint b) | _ \<Rightarrow> True)"

lemma key_in_range:
  assumes "near a" "near b" "\<And>i. key = LInteger i \<Longrightarrow> \<not> (sint a \<le> sint i \<and> sint i \<le> sint b)"
  shows "integer_key_in_range key a b = Some i \<longleftrightarrow>
    normalize_key key = Some (Key_Integer i) \<and> sint a \<le> sint i \<and> sint i \<le> sint b"
proof (cases key)
  case (LNumber x)
  then show ?thesis using key_in_range_number [OF assms(1,2)] by simp
qed (use assms(3) in \<open>auto simp: integer_key_in_range_def normalize_key_def handle_key_def split: if_splits\<close>)

lemma entries_in_range_set:
  assumes ok: "table_ok t" "length (lt_array t) < 2 ^ 53" and near: "near a" "near b" and native: "no_native_keys t a b"
  shows "(i, v) \<in> set (entries_in_range t a b) \<longleftrightarrow>
      sint a \<le> sint i \<and> sint i \<le> sint b \<and> lookup t (Key_Integer i) = v \<and> v \<noteq> LNil"
    and "distinct (map fst (entries_in_range t a b))"
proof -
  have key: "integer_key_in_range key a b = Some i \<longleftrightarrow> normalize_key key = Some (Key_Integer i) \<and> sint a \<le> sint i \<and> sint i \<le> sint b"
    if "(key, v) \<in> set (for_each_entry t)" for key v i
    using that native by (intro key_in_range [OF near]) (auto simp: no_native_keys_def)
  show "(i, v) \<in> set (entries_in_range t a b) \<longleftrightarrow>
      sint a \<le> sint i \<and> sint i \<le> sint b \<and> lookup t (Key_Integer i) = v \<and> v \<noteq> LNil"
  proof -
    have "(i, v) \<in> set (entries_in_range t a b) \<longleftrightarrow> (\<exists>key. (key, v) \<in> set (for_each_entry t) \<and> integer_key_in_range key a b = Some i)"
      by (force simp: entries_in_range_def set_map_filter)
    then show ?thesis using entry_lookup [OF ok, of v "Key_Integer i"] key by blast
  qed
  have "distinct (map (normalize_key \<circ> fst) (for_each_entry t))" by (rule entries_distinct [OF ok])
  then have d: "distinct (for_each_entry t)" "inj_on (normalize_key \<circ> fst) (set (for_each_entry t))" by (simp_all add: distinct_map)
  show "distinct (map fst (entries_in_range t a b))" unfolding entries_in_range_def
  proof (rule distinct_map_filter [OF d(1)])
    have norm: "normalize_key (fst e) = Some (Key_Integer (fst r))"
      if "e \<in> set (for_each_entry t)" "(case e of (key, v) \<Rightarrow> map_option (\<lambda>i. (i, v)) (integer_key_in_range key a b)) = Some r" for e r
      using key [of "fst e" "snd e" "fst r"] that by (auto simp: case_prod_beta)
    fix x y p q
    assume xy: "x \<in> set (for_each_entry t)" "y \<in> set (for_each_entry t)"
      and p: "(case x of (key, v) \<Rightarrow> map_option (\<lambda>i. (i, v)) (integer_key_in_range key a b)) = Some p"
      and q: "(case y of (key, v) \<Rightarrow> map_option (\<lambda>i. (i, v)) (integer_key_in_range key a b)) = Some q" and "fst p = fst q"
    then show "x = y" using norm [OF xy(1) p] norm [OF xy(2) q] inj_onD [OF d(2) _ xy] by simp
  qed
qed

lemma live_key_in_range:
  assumes "table_ok t" "length (lt_array t) < 2 ^ 53" "near a" "near b"
    and "lookup t (Key_Integer i) \<noteq> LNil" "sint a \<le> sint i" "sint i \<le> sint b"
  shows "i \<in> set (map fst (entries_in_range t a b))"
proof -
  obtain key where key: "(key, lookup t (Key_Integer i)) \<in> set (for_each_entry t)" "normalize_key key = Some (Key_Integer i)"
    using entry_lookup [OF assms(1,2), of _ "Key_Integer i"] assms(5) by blast
  then obtain x where "key = LNumber x" by (cases key) (auto simp: normalize_key_def handle_key_def split: if_splits)
  then have "integer_key_in_range key a b = Some i" using key_in_range_number [OF assms(3,4)] key(2) assms(6,7) by simp
  then show ?thesis using key(1) by (force simp: entries_in_range_def set_map_filter)
qed

lemma map_of_dest: "map_of (map (\<lambda>(j, v). (t + (j - a), v)) ws) i = map_of ws (a + (i - t))" for t :: i64
  by (induction ws) (auto simp: algebra_simps)

lemma map_of_entries:
  assumes "distinct (map fst ws)" "\<And>v. (j, v) \<in> set ws \<longleftrightarrow> w = v \<and> v \<noteq> LNil"
  shows "map_of ws j = (if w = LNil then None else Some w)"
proof (cases "w = LNil")
  case True
  then have "j \<notin> fst ` set ws" using assms(2) by force
  then show ?thesis using True by (simp add: map_of_eq_None_iff)
qed (use assms in \<open>simp add: map_of_is_SomeI\<close>)

lemma sparse_table_move_outcome:
  assumes r: "move_range a b t" and ready: "tables_ready {src, dst} n st"
    and ts: "heap_table (ls_heap st) src = Some ts" and td: "heap_table (ls_heap st) dst = Some td"
    and n: "length (for_each_entry ts) + length (for_each_entry td) \<le> n" and native: "no_native_keys ts a b"
  shows "move_outcome src dst a b t st (sparse_table_move env src dst a b t se de st)"
proof -
  define target_last where "target_last = t + (b - a)"
  have s: "sint (b - a) = sint b - sint a" by (rule sint_minus) (use r in \<open>auto simp: move_range_def near_def\<close>)
  have last: "sint target_last = sint t + (sint b - sint a)" "near target_last"
    unfolding target_last_def using sint_plus [of t "b - a"] s r by (auto simp: move_range_def near_def)
  let ?source = "entries_in_range ts a b" and ?keys = "map fst (entries_in_range td t target_last)"
  have map_filter_len: "length (List.map_filter f xs) \<le> length xs" for f :: "raw_value \<times> raw_value \<Rightarrow> (i64 \<times> raw_value) option" and xs
    by (induction xs) (auto simp: List.map_filter_simps split: option.split)
  have "length ?keys \<le> length (for_each_entry td)" "length ?source \<le> length (for_each_entry ts)"
    unfolding length_map entries_in_range_def by (rule map_filter_len)+
  then have room: "length ?keys + length ?source \<le> n" using n by linarith
  have oks: "table_ok ts" "length (lt_array ts) < 2 ^ 53" "table_ok td" "length (lt_array td) < 2 ^ 53"
    using ready ts td by (auto simp: tables_ready_def table_size_def array_bound_def)
  have near: "near a" "near b" "near t" using r by (auto simp: move_range_def)
  obtain ok m where m: "charge_gas (of_nat (se + de + length ?source + length ?keys)) (ls_meter st) = (ok, m)"
    by (cases "charge_gas (of_nat (se + de + length ?source + length ?keys)) (ls_meter st)")
  let ?st = "st\<lparr>ls_meter := m\<rparr>" and ?dest = "\<lambda>i. t + (i - a)"
  have views: "table_view ?st = table_view st" "tables_ready {src, dst} n ?st" "heap_table (ls_heap ?st) = heap_table (ls_heap st)"
    using ready by (simp_all add: table_view_def [abs_def] tables_ready_def)
  have try_last: "i64_try_from (sint t + (sint b - sint a)) = lreturn target_last"
    using last s r by (auto simp: i64_try_from_def target_last_def move_range_def near_def)
  have in_source: "(i, v) \<in> set ?source \<longleftrightarrow> sint a \<le> sint i \<and> sint i \<le> sint b \<and> lookup ts (Key_Integer i) = v \<and> v \<noteq> LNil" for i v
    by (rule entries_in_range_set(1) [OF oks(1,2) near(1,2) native])
  have dest: "sint (?dest i) = sint t + (sint i - sint a)" "near (?dest i)" "i64_try_from (sint t + (sint i - sint a)) = lreturn (?dest i)"
    if "(i, v) \<in> set ?source" for i v
  proof -
    have i: "sint a \<le> sint i" "sint i \<le> sint b" using that in_source by auto
    have "sint (i - a) = sint i - sint a" by (rule sint_minus) (use i r in \<open>auto simp: move_range_def near_def\<close>)
    then show d: "sint (?dest i) = sint t + (sint i - sint a)" using sint_plus [of t "i - a"] i r by (auto simp: move_range_def near_def)
    then show "near (?dest i)" using i r by (auto simp: move_range_def near_def)
    show "i64_try_from (sint t + (sint i - sint a)) = lreturn (?dest i)" using i r by (auto simp: i64_try_from_def move_range_def near_def)
  qed
  let ?clear = "lfor (\<lambda>index. set_index dst index LNil) ?keys"
    and ?fill = "lfor (\<lambda>(index, v). lbind (i64_try_from (sint t + (sint index - sint a))) (\<lambda>d. set_index dst d v)) ?source"
  have run: "sparse_table_move env src dst a b t se de st =
      (if 2 ^ 64 \<le> se * le_pair_size env + de * 8 \<or> le_would_exceed_cap env (se * le_pair_size env + de * 8) then (Inl Lib_Memory_Limit, st)
       else if \<not> ok then (Inl Lib_Gas, ?st)
       else lbind ?clear (\<lambda>_. ?fill) ?st)"
    unfolding sparse_table_move_def Let_def try_last
    by (simp add: lfail_def lbind_ok [where m = "resident src" and x = ts] lbind_ok [where m = "resident dst" and x = td]
        resident_def ts td lbind_def [where m = "spend_gas u" for u] spend_gas_def m
        del: of_nat_add length_map)
  show ?thesis
  proof (cases "2 ^ 64 \<le> se * le_pair_size env + de * 8 \<or> le_would_exceed_cap env (se * le_pair_size env + de * 8) \<or> \<not> ok")
    case True
    then show ?thesis unfolding run by (auto simp: move_outcome_def)
  next
    case False
    have ready1: "tables_ready {src, dst} (length (map (\<lambda>i. (i, LNil)) ?keys) + length ?source) ?st"
      using positions.ready_less [OF views(2)] room by simp
    have "integer_key_in_range key t target_last = Some i \<Longrightarrow> sint t \<le> sint i \<and> sint i \<le> sint target_last" for key i
      using key_in_range_number [OF near(3) last(2), of _ i] by (cases key) (auto simp: integer_key_in_range_def split: if_splits)
    then have keys: "sint t \<le> sint i \<and> sint i \<le> sint target_last" if "i \<in> set ?keys" for i
      using that by (fastforce simp: entries_in_range_def set_map_filter)
    then have "\<forall>(i, v) \<in> set (map (\<lambda>i. (i, LNil)) ?keys). near i" using near(3) last(2) by (fastforce simp: near_def)
    from positions.write_loop [OF ready1 _ this, of dst] obtain st1 where
      1: "?clear ?st = (Inr (), st1)" "tables_ready {src, dst} (length ?source) st1"
        "positions.written {src, dst} dst (map (\<lambda>i. (i, LNil)) ?keys) ?st st1"
      by (auto simp: lfor_map comp_def)
    let ?ws = "map (\<lambda>(i, v). (?dest i, v)) ?source"
    have "?fill st1 = lfor (\<lambda>(i, v). set_index dst i v) ?ws st1"
      unfolding lfor_map by (rule lfor_cong) (use dest(3) in \<open>auto\<close>)
    moreover have "tables_ready {src, dst} (length ?ws + 0) st1" using 1(2) by simp
    from positions.write_loop [OF this, of dst] dest(2) obtain st2 where
      "lfor (\<lambda>(i, v). set_index dst i v) ?ws st1 = (Inr (), st2)" "positions.written {src, dst} dst ?ws st1 st2" by fastforce
    ultimately have 2: "?fill st1 = (Inr (), st2)" "positions.written {src, dst} dst ?ws st1 st2" by auto
    have view_s: "table_view st src = lookup ts" and view_d: "table_view st dst = lookup td"
      using ts td by (simp_all add: table_view_def)
    have cleared: "table_view st1 dst k = (if k \<in> Key_Integer ` set ?keys then LNil else lookup td k)" for k
      using 1(3) fold_clears [of ?keys "lookup td" k] by (simp add: positions.written_def view_d del: map_map)
    have "map fst ?ws = map ?dest (map fst ?source)" by auto
    moreover have "inj_on ?dest X" for X by (simp add: inj_on_def)
    ultimately have "distinct (map fst ?ws)"
      using entries_in_range_set(2) [OF oks(1,2) near(1,2) native] by (simp only: distinct_map)
    from fold_writes [OF this, of "table_view st1 dst"]
    have filled: "table_view st2 dst k = (case k of Key_Integer i \<Rightarrow>
        (case map_of ?source (a + (i - t)) of Some v \<Rightarrow> v | None \<Rightarrow> table_view st1 dst k) | _ \<Rightarrow> table_view st1 dst k)" for k
      using 2(2) by (simp add: positions.written_def map_of_dest split: lua_key.split)
    have "table_view st2 dst k = moved (lookup ts) (lookup td) a b t k" for k
    proof (cases "\<exists>i. k = Key_Integer i \<and> sint t \<le> sint i \<and> sint i \<le> sint t + (sint b - sint a)")
      case True
      then obtain i where i: "k = Key_Integer i" "sint t \<le> sint i" "sint i \<le> sint t + (sint b - sint a)" by blast
      then have off: "i - t \<in> set (i64_range 0 (b - a))" using offsets_of [OF r] by blast
      let ?j = "a + (i - t)"
      have j: "sint a \<le> sint ?j" "sint ?j \<le> sint b" using move_offset(1,2,3) [OF r off] by simp_all
      have "lookup td k = LNil \<or> i \<in> set ?keys"
        using live_key_in_range [OF oks(3,4) near(3) last(2), of i] i by (auto simp only: last(1))
      then have old: "table_view st1 dst k = LNil" using i(1) cleared [of k] by (metis image_eqI)
      have "map_of ?source ?j = (if lookup ts (Key_Integer ?j) = LNil then None else Some (lookup ts (Key_Integer ?j)))"
        by (rule map_of_entries [OF entries_in_range_set(2) [OF oks(1,2) near(1,2) native]]) (use in_source j in auto)
      then show ?thesis using i old filled [of k] by (simp add: moved_def)
    next
      case False
      have "map_of ?source (a + (i - t)) = None" if "k = Key_Integer i" for i
      proof (rule ccontr)
        assume "map_of ?source (a + (i - t)) \<noteq> None"
        then obtain v where v: "(a + (i - t), v) \<in> set ?source" by (auto dest: map_of_SomeD)
        then have "sint i = sint t + (sint (a + (i - t)) - sint a)" using dest(1) [OF v] by simp
        then show False using in_source [of "a + (i - t)" v] v False that by auto
      qed
      moreover have "k \<notin> Key_Integer ` set ?keys" using keys False last(1) by auto
      ultimately show ?thesis using filled [of k] cleared [of k] False by (auto simp: moved_def split: lua_key.splits)
    qed
    then show ?thesis using False 1(1) 2(1,2) 1(3) unfolding run
      by (auto simp: move_outcome_def lbind_ok [where m = ?clear and ?st1.0 = st1] view_s view_d positions.written_def)
  qed
qed

section \<open>Claims\<close>

text \<open>
  What the claim asks of the tables: both are live, well-formed, and have room for the writes a move
  can make; and where the move goes over the live entries, which it does for a range of more than 32
  positions of which less than half can be live, the source has no native-integer keys in the range.
\<close>

definition sparse_path :: "i64 \<Rightarrow> i64 \<Rightarrow> lua_table \<Rightarrow> lua_table \<Rightarrow> bool" where
  "sparse_path a b ts td \<longleftrightarrow> 32 < sint b - sint a + 1 \<and>
     int (max (length (for_each_entry ts)) (length (for_each_entry td))) < (sint b - sint a + 1) div 2"

definition move_ready :: "lib_env \<Rightarrow> raw_gc \<Rightarrow> raw_gc \<Rightarrow> i64 \<Rightarrow> i64 \<Rightarrow> lib_state \<Rightarrow> bool" where
  "move_ready env src dst a b st \<longleftrightarrow>
     (\<exists>ts td. heap_table (ls_heap st) src = Some ts \<and> heap_table (ls_heap st) dst = Some td \<and>
       (sparse_path a b ts td \<longrightarrow> no_native_keys ts a b) \<and>
       tables_ready {src, dst} (le_max_table_elements env + length (for_each_entry ts) + length (for_each_entry td)) st)"

lemma move_outcome_empty: "sint b < sint a \<Longrightarrow> move_outcome src dst a b t st (Inr x, st)"
  by (auto simp: move_outcome_def moved_def fun_eq_iff split: lua_key.split)

lemma move_outcome_fail: "e \<noteq> Lib_Panic \<Longrightarrow> move_outcome src dst a b t st (Inl e, st)"
  by (simp add: move_outcome_def)

lemma move_outcome_return:
  "move_outcome src dst a b t st (lbind m (\<lambda>_. lreturn y) st) = move_outcome src dst a b t st (m st)"
  by (cases "m st"; cases "fst (m st)") (auto simp: lbind_def lreturn_def move_outcome_def)

text \<open>
  C14: \<^verbatim>\<open>table.move\<close> copies as if at once. For positions within \<open>2\<^sup>53\<close> of zero, a call either fails and leaves both
  tables as they were, or returns the destination, in which every position of the target range holds
  what the corresponding source position held before the call, nil included, while every other key
  keeps its value; a source other than the destination is unchanged. That holds for the forward copy and
  for the backward copy of an overlapping range, and for the path over live entries provided the
  source has no native-integer keys in the range, which that path takes for positions.
\<close>

theorem table_move_exact:
  assumes "arg_value args 0 = LTable src" "arg_int args 1 = Some a" "arg_int args 2 = Some b" "arg_int args 3 = Some t"
    and "arg_value args 4 = LTable dst \<or> arg_value args 4 = LNil \<and> dst = src"
    and "near a" "near b" "near t" and "move_ready env src dst a b st"
  shows "case table_move env args st of
      (Inr results, st') \<Rightarrow> results = [LTable dst] \<and>
        table_view st' dst = moved (table_view st src) (table_view st dst) a b t \<and>
        (src \<noteq> dst \<longrightarrow> table_view st' src = table_view st src)
    | (Inl e, st') \<Rightarrow> e \<noteq> Lib_Panic \<and> table_view st' src = table_view st src \<and> table_view st' dst = table_view st dst"
proof -
  obtain ts td where ts: "heap_table (ls_heap st) src = Some ts" "heap_table (ls_heap st) dst = Some td"
    and native: "sparse_path a b ts td \<longrightarrow> no_native_keys ts a b"
    and ready: "tables_ready {src, dst} (le_max_table_elements env + length (for_each_entry ts) + length (for_each_entry td)) st"
    using assms(9) by (auto simp: move_ready_def)
  let ?rest = "if sint b < sint a then lreturn [LTable dst]
     else lbind (require_writable dst) (\<lambda>_.
       let n = sint b - sint a + 1 in
       if \<not> (0 < sint a \<or> sint b < (2 ^ 31 - 1) + sint a) then lfail (Lib_Err ''too many elements to move'')
       else if (2 ^ 31 - 1) - n + 1 < sint t then lfail (Lib_Err ''destination wrap around'')
       else
         lbind (if 32 < n then
                  lbind (live_entry_count src) (\<lambda>src_entries.
                  lbind (if src = dst then lreturn src_entries else live_entry_count dst) (\<lambda>dst_entries.
                  if int (max src_entries dst_entries) < n div 2
                  then lbind (sparse_table_move env src dst a b t src_entries dst_entries) (\<lambda>_. lreturn True)
                  else lreturn False))
                else lreturn False) (\<lambda>moved.
         lbind (if moved then lreturn () else dense_table_move env src dst a b t) (\<lambda>_.
         lreturn [LTable dst])))"
  have run: "table_move env args st = ?rest st"
    using assms(5) unfolding table_move_def arg_table_def require_int_def assms(1-4) by auto
  have "move_outcome src dst a b t st (?rest st) \<and> (\<forall>x st'. ?rest st = (Inr x, st') \<longrightarrow> x = [LTable dst])"
  proof (cases "sint b < sint a \<or> lt_readonly td \<or> \<not> (0 < sint a \<or> sint b < (2 ^ 31 - 1) + sint a) \<or>
      (2 ^ 31 - 1) - (sint b - sint a + 1) + 1 < sint t")
    case True
    then show ?thesis using ts(2)
      by (auto simp: lreturn_def lfail_def lbind_def require_writable_def Let_def intro: move_outcome_empty move_outcome_fail)
  next
    case False
    then have r: "move_range a b t" using assms(6-8) by (auto simp: move_range_def)
    let ?se = "length (for_each_entry ts)" and ?de = "length (for_each_entry td)" and ?n = "sint b - sint a + 1"
    let ?sparse = "sparse_path a b ts td"
    let ?move = "if ?sparse then sparse_table_move env src dst a b t ?se ?de else dense_table_move env src dst a b t"
    have "?rest st = lbind ?move (\<lambda>_. lreturn [LTable dst]) st"
      using False ts by (cases "src = dst")
        (auto simp: lbind_assoc lbind_ok [where m = "require_writable dst" and st = st and x = "()" and ?st1.0 = st]
          lbind_ok [where m = "live_entry_count src" and st = st and ?st1.0 = st and x = ?se]
          lbind_ok [where m = "live_entry_count dst" and st = st and ?st1.0 = st and x = ?de]
          require_writable_def live_entry_count_def Let_def sparse_path_def)
    moreover have "move_outcome src dst a b t st (?move st)"
      using sparse_table_move_outcome [OF r ready ts] native dense_table_move_outcome [OF r ready] by simp
    ultimately show ?thesis by (auto simp: move_outcome_return lreturn_def dest: lbind_return_value)
  qed
  then show ?thesis unfolding run by (auto simp: move_outcome_def split: sum.splits)
qed

definition demo_state :: lib_state where
  "demo_state =
     \<lparr>ls_heap = (empty_heap 0)\<lparr>tables :=
        \<lparr>ar_entries = [fresh_entry (with_array [LBoolean True, LBoolean False])], ar_gens = [0], ar_free = [], ar_young = [0]\<rparr>\<rparr>,
      ls_meter = demo_meter, ls_grants = (\<lambda>_. True)\<rparr>"

definition demo_lib_env :: lib_env where
  "demo_lib_env = \<lparr>le_max_table_elements = 100, le_would_exceed_cap = (\<lambda>_. False), le_value_size = 16, le_pair_size = 24\<rparr>"

lemma demo_state_table: "heap_table (ls_heap demo_state) (RawGc 0 0 0) = Some (with_array [LBoolean True, LBoolean False])"
  by (simp add: demo_state_def heap_table_def arena_get_def get_def empty_heap_def fresh_entry_def)

theorem table_move_exact_witness:
  "case table_move demo_lib_env [LTable (RawGc 0 0 0), LInteger 1, LInteger 2, LInteger 2] demo_state of
      (Inr results, st') \<Rightarrow> results = [LTable (RawGc 0 0 0)] \<and>
        table_view st' (RawGc 0 0 0) = moved (table_view demo_state (RawGc 0 0 0)) (table_view demo_state (RawGc 0 0 0)) 1 2 2
    | (Inl e, st') \<Rightarrow> e \<noteq> Lib_Panic"
proof -
  have "move_ready demo_lib_env (RawGc 0 0 0) (RawGc 0 0 0) 1 2 demo_state"
    by (simp add: move_ready_def demo_state_table tables_ready_def no_native_keys_def with_array_def table_new_def for_each_entry_def
        hash_entries_def List.map_filter_simps table_size_def live_slots_def array_bound_def demo_lib_env_def table_ok_def table_wf_def
        index_sound_def index_complete_def no_nil_slots_def parts_disjoint_def live_slot_def)
  from table_move_exact [OF _ _ _ _ _ _ _ _ this, of "[LTable (RawGc 0 0 0), LInteger 1, LInteger 2, LInteger 2]" 2] show ?thesis
    by (simp add: arg_value_def arg_int_def get_def near_def split: prod.splits sum.splits)
qed

text \<open>
  What the proviso leaves out: a value under the native integer 5 is no element at position 5, but the
  path over live entries takes it for one.
\<close>

lemma sparse_move_takes_native_keys:
  "let t = table_new\<lparr>lt_hash := [\<lparr>hs_key_value = LInteger 5, hs_value = Some (LBoolean True)\<rparr>], lt_index := [Key_NativeInt 5 \<mapsto> 0]\<rparr>
   in table_ok t \<and> lookup t (Key_Integer 5) = LNil \<and> entries_in_range t 1 100 = [(5, LBoolean True)]"
  by (simp add: Let_def table_new_def entries_in_range_def for_each_entry_def hash_entries_def List.map_filter_simps
      integer_key_in_range_def lookup_def integer_slot_def array_slot_def hash_lookup_def table_ok_def table_wf_def index_sound_def
      index_complete_def no_nil_slots_def parts_disjoint_def live_slot_def norm_at_def normalize_key_def array_claims_def)

end
