(* ===== verification/Compare.thy ===== *)
theory Compare
  imports Table_Lib Heap_Ops "HOL-Library.List_Lexorder"
begin

text \<open>
  The operator \<^verbatim>\<open><\<close> (\<^verbatim>\<open>less_than_op\<close> of \<^verbatim>\<open>execute/mod.rs\<close> with \<^verbatim>\<open>vmutils.rs\<close> and \<^verbatim>\<open>tm.rs\<close>) and the comparison \<^verbatim>\<open>table.sort\<close>
  makes with it or with a comparator. Running a function and the metatables of host types belong to
  parts that are not modelled, so both are parameters.
\<close>

record interpreter =
  in_call_value :: "raw_value \<Rightarrow> raw_value list \<Rightarrow> raw_value list lib"
  in_userdata_metatable :: "heap \<Rightarrow> raw_gc \<Rightarrow> raw_gc option"

section \<open>Metamethods\<close>

definition metatable :: "interpreter \<Rightarrow> heap \<Rightarrow> raw_value \<Rightarrow> raw_gc option" where
  "metatable run h v =
     (case v of
        LTable g \<Rightarrow> Option.bind (heap_table h g) lt_metatable
      | LString _ \<Rightarrow> hp_string_metatable h
      | LVector _ _ _ \<Rightarrow> hp_vector_metatable h
      | LUserdata g \<Rightarrow> in_userdata_metatable run h g
      | _ \<Rightarrow> None)"

definition event_index :: "meta_event \<Rightarrow> nat" where
  "event_index e = length (takeWhile (\<lambda>x. x \<noteq> e) meta_events)"

definition metamethod_name :: "heap \<Rightarrow> meta_event \<Rightarrow> raw_gc option option" where
  "metamethod_name h e = get (hp_metamethod_names h) (event_index e)"

definition get_metamethod :: "interpreter \<Rightarrow> raw_value \<Rightarrow> meta_event \<Rightarrow> raw_value option lib" where
  "get_metamethod run v e st =
     (case metatable run (ls_heap st) v of
        None \<Rightarrow> lreturn None st
      | Some mt \<Rightarrow>
          lbind (lvalue (\<lambda>st. metamethod_name (ls_heap st) e)) (\<lambda>name.
          case name of
            None \<Rightarrow> lfail (Lib_Memory ''out of memory interning a metamethod name'')
          | Some key \<Rightarrow>
              lbind (lvalue (\<lambda>st. case heap_table (ls_heap st) mt of None \<Rightarrow> Some LNil | Some t \<Rightarrow> table_get t (LString key)))
                (\<lambda>handler. lreturn (if handler = LNil then None else Some handler))) st)"

text \<open>The derived equality of values: by bits except for floats.\<close>

definition f64_eq :: "f64 \<Rightarrow> f64 \<Rightarrow> bool" where
  "f64_eq a b \<longleftrightarrow> \<not> f64_is_nan a \<and> \<not> f64_is_nan b \<and> f64_rank a = f64_rank b"

definition f32_eq :: "f32 \<Rightarrow> f32 \<Rightarrow> bool" where
  "f32_eq a b \<longleftrightarrow> \<not> f32_is_nan a \<and> \<not> f32_is_nan b \<and> canon_f32 a = canon_f32 b"

definition raw_equal :: "raw_value \<Rightarrow> raw_value \<Rightarrow> bool" where
  "raw_equal lhs rhs \<longleftrightarrow>
     (case (lhs, rhs) of
        (LNumber a, LNumber b) \<Rightarrow> f64_eq a b
      | (LVector x y z, LVector x' y' z') \<Rightarrow> f32_eq x x' \<and> f32_eq y y' \<and> f32_eq z z'
      | _ \<Rightarrow> lhs = rhs)"

definition matching_metamethod :: "interpreter \<Rightarrow> raw_value \<Rightarrow> raw_value \<Rightarrow> meta_event \<Rightarrow> raw_value option lib" where
  "matching_metamethod run a b e =
     lbind (get_metamethod run a e) (\<lambda>h1. case h1 of None \<Rightarrow> lreturn None | Some x \<Rightarrow>
     lbind (get_metamethod run b e) (\<lambda>h2. case h2 of None \<Rightarrow> lreturn None | Some y \<Rightarrow>
     lreturn (if raw_equal x y then Some x else None)))"

section \<open>The operator\<close>

definition truthy :: "raw_value \<Rightarrow> bool" where
  "truthy v \<longleftrightarrow> v \<noteq> LNil \<and> v \<noteq> LBoolean False"

definition first_result :: "raw_value list \<Rightarrow> raw_value" where
  "first_result results = (case results of [] \<Rightarrow> LNil | v # _ \<Rightarrow> v)"

definition call_compare :: "interpreter \<Rightarrow> raw_value \<Rightarrow> raw_value \<Rightarrow> raw_value \<Rightarrow> bool lib" where
  "call_compare run handler lhs rhs =
     lbind (in_call_value run handler [lhs, rhs]) (\<lambda>results. lreturn (truthy (first_result results)))"

definition as_number :: "raw_value \<Rightarrow> f64 option" where
  "as_number v = (case v of LNumber n \<Rightarrow> Some n | _ \<Rightarrow> None)"

text \<open>\<^verbatim>\<open>vmutils::less_than\<close>, for two numbers.\<close>

definition number_less_than :: "raw_value \<Rightarrow> raw_value \<Rightarrow> bool option" where
  "number_less_than lhs rhs = Option.bind (as_number lhs) (\<lambda>a. Option.bind (as_number rhs) (\<lambda>b. Some (f64_less a b)))"

definition numeric_f64 :: "raw_value \<Rightarrow> f64 option" where
  "numeric_f64 v = (case v of LNumber n \<Rightarrow> Some n | LInteger i \<Rightarrow> Some (f64_of_i64 i) | _ \<Rightarrow> None)"

text \<open>\<^verbatim>\<open>string_cmp(..).is_lt()\<close>: the bytes in lexicographic order, none where the handle is stale.\<close>

definition string_bytes :: "heap \<Rightarrow> raw_gc \<Rightarrow> bytes" where
  "string_bytes h g = (case heap_string h g of None \<Rightarrow> [] | Some s \<Rightarrow> ls_bytes s)"

definition string_less :: "heap \<Rightarrow> raw_gc \<Rightarrow> raw_gc \<Rightarrow> bool" where
  "string_less h a b \<longleftrightarrow> string_bytes h a < string_bytes h b"

definition tag :: "raw_value \<Rightarrow> nat" where
  "tag v = (case v of LNil \<Rightarrow> 0 | LBoolean _ \<Rightarrow> 1 | LNumber _ \<Rightarrow> 2 | LInteger _ \<Rightarrow> 3 | LVector _ _ _ \<Rightarrow> 4 | LLightUserdata _ _ \<Rightarrow> 5
     | LString _ \<Rightarrow> 6 | LTable _ \<Rightarrow> 7 | LFunction _ \<Rightarrow> 8 | LUserdata _ \<Rightarrow> 9 | LThread _ \<Rightarrow> 10 | LBuffer _ \<Rightarrow> 11)"

definition same_tag :: "raw_value \<Rightarrow> raw_value \<Rightarrow> bool" where
  "same_tag lhs rhs \<longleftrightarrow> tag lhs = tag rhs"

definition type_name :: "raw_value \<Rightarrow> string" where
  "type_name v = (case v of LNil \<Rightarrow> ''nil'' | LBoolean _ \<Rightarrow> ''boolean'' | LNumber _ \<Rightarrow> ''number'' | LInteger _ \<Rightarrow> ''integer''
     | LVector _ _ _ \<Rightarrow> ''vector'' | LString _ \<Rightarrow> ''string'' | LTable _ \<Rightarrow> ''table'' | LFunction _ \<Rightarrow> ''function''
     | LUserdata _ \<Rightarrow> ''userdata'' | LLightUserdata _ _ \<Rightarrow> ''userdata'' | LThread _ \<Rightarrow> ''thread'' | LBuffer _ \<Rightarrow> ''buffer'')"

definition order_error :: "string \<Rightarrow> raw_value \<Rightarrow> raw_value \<Rightarrow> lib_error" where
  "order_error op lhs rhs = Lib_Err (''attempt to compare '' @ type_name lhs @ '' '' @ op @ '' '' @ type_name rhs)"

definition less_than_op :: "interpreter \<Rightarrow> raw_value \<Rightarrow> raw_value \<Rightarrow> bool lib" where
  "less_than_op run lhs rhs st =
     (case number_less_than lhs rhs of
        Some result \<Rightarrow> lreturn result st
      | None \<Rightarrow>
     (case (lhs, rhs) of
        (LString a, LString b) \<Rightarrow> lreturn (string_less (ls_heap st) a b) st
      | _ \<Rightarrow>
     (case (numeric_f64 lhs, numeric_f64 rhs) of
        (Some a, Some b) \<Rightarrow> lreturn (f64_less a b) st
      | _ \<Rightarrow>
      if \<not> same_tag lhs rhs then lfail (order_error ''<'' lhs rhs) st
      else
        lbind (matching_metamethod run lhs rhs Ev_Lt) (\<lambda>handler.
        case handler of
          Some f \<Rightarrow> call_compare run f lhs rhs
        | None \<Rightarrow> lfail (order_error ''<'' lhs rhs)) st)))"

text \<open>What \<^verbatim>\<open>sort_less\<close> asks after its tick.\<close>

definition sort_compare :: "interpreter \<Rightarrow> raw_value \<Rightarrow> comparison" where
  "sort_compare run cmp a b =
     (case cmp of
        LFunction _ \<Rightarrow> lbind (in_call_value run cmp [a, b]) (\<lambda>results. lreturn (truthy (first_result results)))
      | _ \<Rightarrow> less_than_op run a b)"

section \<open>Where the operator is an order\<close>

text \<open>
  On numbers without NaN, integers among them, and on strings, the operator answers by the rank of
  the operands in a total order and leaves the state as it is.
\<close>

definition number_value :: "raw_value \<Rightarrow> bool" where
  "number_value v \<longleftrightarrow> (\<exists>n. numeric_f64 v = Some n \<and> \<not> f64_is_nan n)"

definition number_rank :: "raw_value \<Rightarrow> int" where
  "number_rank v = (case numeric_f64 v of None \<Rightarrow> 0 | Some n \<Rightarrow> f64_rank n)"

lemma less_than_numbers:
  assumes "number_value a" "number_value b"
  shows "less_than_op run a b st = (Inr (number_rank a < number_rank b), st)"
  using assms
  by (auto simp: number_value_def less_than_op_def number_less_than_def as_number_def numeric_f64_def number_rank_def f64_less_def lreturn_def
      split: raw_value.splits)

lemma less_than_strings:
  "less_than_op run (LString a) (LString b) st = (Inr (string_bytes (ls_heap st) a < string_bytes (ls_heap st) b), st)"
  by (simp add: less_than_op_def number_less_than_def as_number_def string_less_def lreturn_def)

text \<open>Values of different kinds are not ordered, whatever their metatables say.\<close>

lemma less_than_mixed:
  assumes "\<not> same_tag a b" "numeric_f64 a = None \<or> numeric_f64 b = None"
  shows "less_than_op run a b st = (Inl (order_error ''<'' a b), st)"
  using assms
  by (auto simp: less_than_op_def number_less_than_def as_number_def numeric_f64_def same_tag_def tag_def lfail_def split: raw_value.splits)

end
