(* ===== verification/Table_Sort.thy ===== *)
theory Table_Sort
  imports Table_Move Compare "HOL-Library.Multiset"
begin

text \<open>
  \<^verbatim>\<open>table.sort\<close>. Whatever the comparator answers, the merge sort rearranges its elements and nothing
  else; where its answers on the elements follow a strict weak order it is the stable sort, whatever else
  the comparator does; and it asks at most \<open>n\<close> times the rounded-up binary logarithm of \<open>n\<close> questions, each
  of which costs one unit of gas beside what the comparator spends.
\<close>

section \<open>Any comparator\<close>

lemma lbind_Inr:
  assumes "lbind m f st = (Inr y, st')"
  obtains x st1 where "m st = (Inr x, st1)" "f x st1 = (Inr y, st')"
  using assms by (auto simp: lbind_def split: prod.splits sum.splits)

lemma lbind_Inl:
  assumes "lbind m f st = (Inl e, st')"
  obtains "m st = (Inl e, st')" | x st1 where "m st = (Inr x, st1)" "f x st1 = (Inl e, st')"
  using assms by (auto simp: lbind_def split: prod.splits sum.splits)

lemma merge_loop_mset:
  assumes "merge_loop cmp elems mid i j out st = (Inr r, st')" "mid \<le> j"
  shows "mset r = mset out + mset (take (mid - i) (drop i elems)) + mset (drop j elems)"
  using assms
proof (induction cmp elems mid i j out arbitrary: st rule: merge_loop.induct)
  case (1 cmp elems mid i j out)
  show ?case
  proof (cases "i < mid \<and> j < length elems")
    case True
    then obtain less st1 where run: "(if less then merge_loop cmp elems mid i (j + 1) (out @ [elems ! j])
        else merge_loop cmp elems mid (i + 1) j (out @ [elems ! i])) st1 = (Inr r, st')"
      using "1.prems"(1) by (subst (asm) merge_loop.simps) (auto elim!: lbind_Inr)
    have d: "drop j elems = elems ! j # drop (j + 1) elems" using True by (simp add: Cons_nth_drop_Suc)
    have "i < length elems" using True "1.prems"(2) by simp
    then have t: "take (mid - i) (drop i elems) = elems ! i # take (mid - (i + 1)) (drop (i + 1) elems)"
      using True by (metis Cons_nth_drop_Suc Suc_diff_Suc Suc_eq_plus1 take_Suc_Cons)
    show ?thesis
    proof (cases less)
      case True
      then show ?thesis using "1.IH"(1) [OF \<open>i < mid \<and> j < length elems\<close> True, of st1] run "1.prems"(2) by (simp add: d)
    next
      case False
      then show ?thesis using "1.IH"(2) [OF \<open>i < mid \<and> j < length elems\<close> False, of st1] run "1.prems"(2) by (simp add: t)
    qed
  next
    case False
    then show ?thesis using "1.prems"(1) by (subst (asm) merge_loop.simps) (auto simp: lreturn_def)
  qed
qed

lemma merge_sort_mset:
  assumes "merge_sort cmp elems st = (Inr r, st')"
  shows "mset r = mset elems"
  using assms
proof (induction cmp elems arbitrary: st st' r rule: merge_sort.induct)
  case (1 cmp elems)
  show ?case
  proof (cases "length elems \<le> 1")
    case True
    then show ?thesis using "1.prems" by (subst (asm) merge_sort.simps) (simp add: lreturn_def)
  next
    case False
    let ?mid = "length elems div 2"
    obtain xs st1 ys st2 where run: "merge_sort cmp (take ?mid elems) st = (Inr xs, st1)"
        "merge_sort cmp (drop ?mid elems) st1 = (Inr ys, st2)" "merge_loop cmp (xs @ ys) ?mid 0 ?mid [] st2 = (Inr r, st')"
      using "1.prems" False by (subst (asm) merge_sort.simps) (auto simp: Let_def elim!: lbind_Inr)
    have m: "mset xs = mset (take ?mid elems)" "mset ys = mset (drop ?mid elems)"
      using "1.IH" [OF False refl] run(1,2) by blast+
    have len: "length xs = ?mid" using mset_eq_length [OF m(1)] by simp
    have "mset r = mset xs + mset ys" using merge_loop_mset [OF run(3)] len by simp
    also have "\<dots> = mset (take ?mid elems @ drop ?mid elems)" unfolding m by (rule mset_append [symmetric])
    finally show ?thesis unfolding append_take_drop_id .
  qed
qed

section \<open>A strict weak order\<close>

text \<open>
  A comparator may run any code. What it is asked about are elements of \<open>V\<close>; \<open>J n\<close> is what is known of the
  state after \<open>n\<close> answers and \<open>E n\<close> of the error and the state where the question after them is not
  answered.
\<close>

definition answers ::
  "comparison \<Rightarrow> (raw_value \<Rightarrow> raw_value \<Rightarrow> bool) \<Rightarrow> raw_value set \<Rightarrow> (nat \<Rightarrow> lib_state \<Rightarrow> bool) \<Rightarrow>
   (nat \<Rightarrow> lib_error \<Rightarrow> lib_state \<Rightarrow> bool) \<Rightarrow> bool" where
  "answers cmp lt V J E \<longleftrightarrow> (\<forall>n st. J n st \<longrightarrow> (\<forall>x \<in> V. \<forall>y \<in> V.
     case sort_less cmp x y st of (Inr b, st1) \<Rightarrow> b = lt x y \<and> J (Suc n) st1 | (Inl e, st1) \<Rightarrow> E n e st1))"

definition weak_order :: "raw_value set \<Rightarrow> (raw_value \<Rightarrow> raw_value \<Rightarrow> bool) \<Rightarrow> bool" where
  "weak_order V lt \<longleftrightarrow> (\<forall>x \<in> V. \<forall>y \<in> V. lt x y \<longrightarrow> \<not> lt y x) \<and>
     (\<forall>x \<in> V. \<forall>y \<in> V. \<forall>z \<in> V. \<not> lt x y \<longrightarrow> \<not> lt y z \<longrightarrow> \<not> lt x z)"

lemma weak_order_subset: "weak_order V lt \<Longrightarrow> W \<subseteq> V \<Longrightarrow> weak_order W lt"
  unfolding weak_order_def by blast

lemma weak_order_rank: "weak_order V (\<lambda>x y. f x < (f y :: 'k :: linorder))"
  by (auto simp: weak_order_def)

definition ties :: "(raw_value \<Rightarrow> raw_value \<Rightarrow> bool) \<Rightarrow> raw_value \<Rightarrow> raw_value \<Rightarrow> bool" where
  "ties lt x y \<longleftrightarrow> \<not> lt x y \<and> \<not> lt y x"

text \<open>The stable sort of a list, by what it is: sorted, with every class of ties in its old order.\<close>

definition stable_sorted :: "(raw_value \<Rightarrow> raw_value \<Rightarrow> bool) \<Rightarrow> raw_value list \<Rightarrow> raw_value list \<Rightarrow> bool" where
  "stable_sorted lt xs ys \<longleftrightarrow> mset ys = mset xs \<and> sorted_wrt (\<lambda>x y. \<not> lt y x) ys \<and>
     (\<forall>z \<in> set xs. filter (ties lt z) ys = filter (ties lt z) xs)"

fun merge_lists :: "(raw_value \<Rightarrow> raw_value \<Rightarrow> bool) \<Rightarrow> raw_value list \<Rightarrow> raw_value list \<Rightarrow> raw_value list" where
  "merge_lists lt (x # xs) (y # ys) = (if lt y x then y # merge_lists lt (x # xs) ys else x # merge_lists lt xs (y # ys))"
| "merge_lists lt [] ys = ys"
| "merge_lists lt xs [] = xs"

lemma merge_lists_Nil [simp]: "merge_lists lt xs [] = xs"
  by (cases xs) simp_all

lemma mset_merge_lists: "mset (merge_lists lt xs ys) = mset xs + mset ys"
  by (induction lt xs ys rule: merge_lists.induct) simp_all

lemma set_merge_lists: "set (merge_lists lt xs ys) = set xs \<union> set ys"
  using arg_cong [OF mset_merge_lists [of lt xs ys], of set_mset] by simp

lemma merge_lists_sorted:
  assumes w: "weak_order V lt" "set xs \<subseteq> V" "set ys \<subseteq> V"
    and "sorted_wrt (\<lambda>x y. \<not> lt y x) xs" "sorted_wrt (\<lambda>x y. \<not> lt y x) ys"
  shows "sorted_wrt (\<lambda>x y. \<not> lt y x) (merge_lists lt xs ys) \<and>
    (\<forall>z \<in> V. filter (ties lt z) (merge_lists lt xs ys) = filter (ties lt z) xs @ filter (ties lt z) ys)"
  using assms
proof (induction lt xs ys rule: merge_lists.induct)
  case (1 lt x xs y ys)
  have trans: "a \<in> V \<Longrightarrow> b \<in> V \<Longrightarrow> c \<in> V \<Longrightarrow> \<not> lt a b \<Longrightarrow> \<not> lt b c \<Longrightarrow> \<not> lt a c" and
    asym: "a \<in> V \<Longrightarrow> b \<in> V \<Longrightarrow> lt a b \<Longrightarrow> \<not> lt b a" for a b c
    using "1.prems"(1) unfolding weak_order_def by blast+
  have V: "x \<in> V" "y \<in> V" "set xs \<subseteq> V" "set ys \<subseteq> V" using "1.prems"(2,3) by auto
  show ?case
  proof (cases "lt y x")
    case True
    have late: "\<not> lt v y" if "v \<in> set (x # xs) \<union> set ys" for v
      using that "1.prems"(4,5) trans [of v x y] asym [OF V(2,1) True] V by auto
    have "\<not> ties lt z v" if "z \<in> V" "ties lt z y" "v \<in> set (x # xs)" for z v
    proof -
      have v: "v \<in> V" using that(3) V by auto
      have "lt y v" using trans [of y v x] True that(3) "1.prems"(4) V v by auto
      then show ?thesis using that(1,2) trans [of y z v] V v by (auto simp: ties_def)
    qed
    then have none: "filter (ties lt z) (x # xs) = []" if "z \<in> V" "ties lt z y" for z using that by (auto simp: filter_empty_conv)
    show ?thesis using True "1.IH"(1) [OF True "1.prems"(1,2)] "1.prems"(3-5) late none by (auto simp: set_merge_lists)
  next
    case False
    have "\<not> lt v x" if "v \<in> set xs \<union> set (y # ys)" for v
      using that "1.prems"(4,5) trans [of v y x] False V by auto
    then show ?thesis using False "1.IH"(2) [OF False "1.prems"(1)] "1.prems"(2-5) by (auto simp: set_merge_lists)
  qed
qed simp_all

lemma stable_sorted_merge:
  assumes "weak_order V lt" "set (xs @ ys) \<subseteq> V" "stable_sorted lt xs us" "stable_sorted lt ys vs"
  shows "stable_sorted lt (xs @ ys) (merge_lists lt us vs)"
proof -
  have sets: "set us = set xs" "set vs = set ys"
    using assms(3,4) mset_eq_setD by (auto simp: stable_sorted_def)
  have ties_same: "filter (ties lt z) ws = filter (ties lt z) zs" if "stable_sorted lt zs ws" "set zs \<subseteq> V" "z \<in> V" for z zs ws
  proof (cases "\<exists>v \<in> set zs. ties lt z v")
    case True
    then obtain v where v: "v \<in> set zs" "ties lt z v" by blast
    have "ties lt z u = ties lt v u" if "u \<in> set zs" for u
      using assms(1) v that \<open>z \<in> V\<close> \<open>set zs \<subseteq> V\<close> unfolding weak_order_def ties_def by (meson in_mono)
    moreover have "set ws = set zs" using that(1) mset_eq_setD by (auto simp: stable_sorted_def)
    ultimately have "filter (ties lt z) ws = filter (ties lt v) ws" "filter (ties lt z) zs = filter (ties lt v) zs" by (auto intro: filter_cong)
    then show ?thesis using that(1) v(1) by (simp add: stable_sorted_def)
  next
    case False
    moreover have "set ws = set zs" using that(1) mset_eq_setD by (auto simp: stable_sorted_def)
    ultimately show ?thesis by (simp add: filter_empty_conv)
  qed
  show ?thesis
    using assms merge_lists_sorted [OF assms(1), of us vs] sets ties_same [OF assms(3)] ties_same [OF assms(4)]
    by (auto simp: stable_sorted_def mset_merge_lists)
qed

section \<open>The sort and its cost\<close>

definition sort_cost :: "nat \<Rightarrow> nat" where
  "sort_cost n = n * bit_length (n - 1)"

lemma bit_length_half: "0 < n \<Longrightarrow> bit_length n = Suc (bit_length (n div 2))"
  by (subst bit_length.simps) simp

lemma bit_length_mono: "m \<le> n \<Longrightarrow> bit_length m \<le> bit_length n"
proof (induction n arbitrary: m rule: less_induct)
  case (less n)
  show ?case
  proof (cases "m = 0")
    case True
    then show ?thesis by (simp add: bit_length.simps)
  next
    case False
    then show ?thesis using less.prems less.IH [of "n div 2" "m div 2"] by (simp add: bit_length_half div_le_mono)
  qed
qed

lemma sort_cost_halves:
  assumes "1 < n"
  shows "sort_cost (n div 2) + sort_cost (n - n div 2) + n \<le> sort_cost n"
proof -
  let ?l = "bit_length ((n - 1) div 2)"
  have "bit_length (n div 2 - 1) \<le> ?l" by (rule bit_length_mono) (use assms in linarith)
  moreover have "n - n div 2 - 1 = (n - 1) div 2" using assms by linarith
  ultimately have "sort_cost (n div 2) + sort_cost (n - n div 2) + n \<le> (n div 2) * ?l + (n - n div 2) * ?l + n"
    by (simp add: sort_cost_def)
  also have "\<dots> = n * Suc ?l" using assms by (simp flip: add_mult_distrib)
  also have "\<dots> = sort_cost n" using assms bit_length_half [of "n - 1"] by (simp add: sort_cost_def)
  finally show ?thesis .
qed

text \<open>
  One contract for both loops: they end normally with a good result after at most \<open>cost\<close> further answers, or
  where one of that many questions is not answered.
\<close>

definition within_cost ::
  "(nat \<Rightarrow> lib_state \<Rightarrow> bool) \<Rightarrow> (nat \<Rightarrow> lib_error \<Rightarrow> lib_state \<Rightarrow> bool) \<Rightarrow> nat \<Rightarrow> nat \<Rightarrow> (raw_value list \<Rightarrow> bool) \<Rightarrow>
   (lib_error + raw_value list) \<times> lib_state \<Rightarrow> bool" where
  "within_cost J E k cost good res \<longleftrightarrow>
     (case res of
        (Inr r, st) \<Rightarrow> good r \<and> (\<exists>used \<le> cost. J (k + used) st)
      | (Inl e, st) \<Rightarrow> \<exists>used < cost. E (k + used) e st)"

lemma within_cost_return: "J k st \<Longrightarrow> good r \<Longrightarrow> within_cost J E k cost good (lreturn r st)"
  unfolding within_cost_def lreturn_def by auto

lemma within_cost_after:
  assumes "within_cost J E (k + used) c good res" "used + c \<le> d"
  shows "within_cost J E k d good res"
proof -
  have "\<exists>n \<le> d. J (k + n) st" if "more \<le> c" "J (k + used + more) st" for more st
    using that assms(2) by (intro exI [of _ "used + more"]) (simp add: add.assoc)
  moreover have "\<exists>n < d. E (k + n) e st" if "more < c" "E (k + used + more) e st" for more e st
    using that assms(2) by (intro exI [of _ "used + more"]) (simp add: add.assoc)
  ultimately show ?thesis using assms(1) unfolding within_cost_def by (auto split: prod.splits sum.splits)
qed

lemma within_cost_weaken: "within_cost J E k c good1 res \<Longrightarrow> (\<And>r. good1 r \<Longrightarrow> good r) \<Longrightarrow> c \<le> d \<Longrightarrow> within_cost J E k d good res"
  unfolding within_cost_def by (auto split: prod.splits sum.splits) (meson order_trans less_le_trans)+

lemma within_cost_bind:
  assumes m: "within_cost J E k c1 good1 (m st)" and c: "c1 + c2 \<le> c"
    and f: "\<And>used st1 r. J (k + used) st1 \<Longrightarrow> good1 r \<Longrightarrow> within_cost J E (k + used) c2 good (f r st1)"
  shows "within_cost J E k c good (lbind m f st)"
proof (cases "m st")
  case (Pair out st1)
  show ?thesis
  proof (cases out)
    case (Inl e)
    then have "\<exists>used < c1. E (k + used) e st1" using m Pair by (simp add: within_cost_def)
    then have "\<exists>used < c. E (k + used) e st1" using c by (meson le_add1 less_le_trans order_trans)
    then show ?thesis using Pair Inl by (simp add: lbind_def within_cost_def)
  next
    case (Inr r)
    then obtain used where "good1 r" "used \<le> c1" "J (k + used) st1" using m Pair by (auto simp: within_cost_def)
    then show ?thesis using within_cost_after [OF f, of used st1 r c] c Pair Inr by (simp add: lbind_def)
  qed
qed

lemma within_cost_ask:
  assumes "answers cmp lt V J E" "x \<in> V" "y \<in> V" "J k st" "Suc c \<le> d"
    and f: "\<And>st1. J (k + 1) st1 \<Longrightarrow> within_cost J E (k + 1) c good (f (lt x y) st1)"
  shows "within_cost J E k d good (lbind (sort_less cmp x y) f st)"
proof (cases "sort_less cmp x y st")
  case (Pair out st1)
  have ans: "case (out, st1) of (Inr b, st1) \<Rightarrow> b = lt x y \<and> J (Suc k) st1 | (Inl e, st1) \<Rightarrow> E k e st1"
    using assms(1) [unfolded answers_def, rule_format, OF assms(4,2,3)] by (simp add: Pair)
  show ?thesis
  proof (cases out)
    case (Inl e)
    then have "\<exists>used < d. E (k + used) e st1" using ans assms(5) by (intro exI [of _ 0]) simp
    then show ?thesis using Pair Inl by (simp add: lbind_def within_cost_def)
  next
    case (Inr b)
    then show ?thesis using within_cost_after [OF f, of st1 d] ans Pair assms(5) by (simp add: lbind_def)
  qed
qed

lemma merge_loop_within:
  assumes "answers cmp lt V J E" "J k st" "mid \<le> j" "set elems \<subseteq> V"
  shows "within_cost J E k ((mid - i) + (length elems - j))
    (\<lambda>r. r = out @ merge_lists lt (take (mid - i) (drop i elems)) (drop j elems)) (merge_loop cmp elems mid i j out st)"
  using assms
proof (induction cmp elems mid i j out arbitrary: k st rule: merge_loop.induct)
  case (1 cmp elems mid i j out)
  show ?case
  proof (cases "i < mid \<and> j < length elems")
    case True
    let ?c = "(mid - i) + (length elems - j) - 1"
    have d: "drop j elems = elems ! j # drop (j + 1) elems" using True by (simp add: Cons_nth_drop_Suc)
    have i: "i < length elems" using True "1.prems"(3) by simp
    then have t: "take (mid - i) (drop i elems) = elems ! i # take (mid - (i + 1)) (drop (i + 1) elems)"
      using True by (metis Cons_nth_drop_Suc Suc_diff_Suc Suc_eq_plus1 take_Suc_Cons)
    have in_V: "elems ! i \<in> V" "elems ! j \<in> V" using True i "1.prems"(4) nth_mem by blast+
    have c: "mid - i + (length elems - (j + 1)) = ?c" "mid - (i + 1) + (length elems - j) = ?c" using True by auto
    have step: "within_cost J E (k + 1) ?c (\<lambda>r. r = out @ merge_lists lt (take (mid - i) (drop i elems)) (drop j elems))
       ((if lt (elems ! j) (elems ! i) then merge_loop cmp elems mid i (j + 1) (out @ [elems ! j])
         else merge_loop cmp elems mid (i + 1) j (out @ [elems ! i])) st1)"
      if "J (k + 1) st1" for st1
      using "1.IH"(1) [OF True _ "1.prems"(1) that] "1.IH"(2) [OF True _ "1.prems"(1) that] "1.prems"(3,4) unfolding c
      by (cases "lt (elems ! j) (elems ! i)") (simp_all add: d t)
    have "Suc ?c \<le> (mid - i) + (length elems - j)" using True by linarith
    then have "within_cost J E k ((mid - i) + (length elems - j)) (\<lambda>r. r = out @ merge_lists lt (take (mid - i) (drop i elems)) (drop j elems))
        (lbind (sort_less cmp (elems ! j) (elems ! i)) (\<lambda>less. if less then merge_loop cmp elems mid i (j + 1) (out @ [elems ! j])
          else merge_loop cmp elems mid (i + 1) j (out @ [elems ! i])) st)"
      by (rule within_cost_ask [OF "1.prems"(1) in_V(2,1) "1.prems"(2)]) (use step in simp)
    then show ?thesis using True by (subst merge_loop.simps) simp
  next
    case False
    then have "merge_lists lt (take (mid - i) (drop i elems)) (drop j elems) = take (mid - i) (drop i elems) @ drop j elems" by auto
    then show ?thesis using False "1.prems"(2) by (subst merge_loop.simps) (auto simp: within_cost_return)
  qed
qed

lemma merge_sort_within:
  assumes "answers cmp lt V J E" "weak_order V lt" "J k st" "set elems \<subseteq> V"
  shows "within_cost J E k (sort_cost (length elems)) (stable_sorted lt elems) (merge_sort cmp elems st)"
  using assms
proof (induction cmp elems arbitrary: k st rule: merge_sort.induct)
  case (1 cmp elems)
  show ?case
  proof (cases "length elems \<le> 1")
    case True
    then have "stable_sorted lt elems elems" by (cases elems) (auto simp: stable_sorted_def)
    then show ?thesis using True "1.prems"(3) by (subst merge_sort.simps) (simp add: within_cost_return)
  next
    case False
    let ?mid = "length elems div 2" and ?n = "length elems"
    have halves: "set (take ?mid elems) \<subseteq> V" "set (drop ?mid elems) \<subseteq> V"
      using "1.prems"(4) set_take_subset [of ?mid elems] set_drop_subset [of ?mid elems] by blast+
    note IH = "1.IH" [OF False refl "1.prems"(1,2)]
    have merge: "within_cost J E k' ?n (stable_sorted lt elems) (merge_loop cmp (us @ vs) ?mid 0 ?mid [] st')"
      if "J k' st'" "stable_sorted lt (take ?mid elems) us" "stable_sorted lt (drop ?mid elems) vs" for k' st' us vs
    proof -
      have len: "length us = ?mid" "length vs = ?n - ?mid" and sets: "set (us @ vs) \<subseteq> V"
        using that(2,3) mset_eq_length [of us "take ?mid elems"] mset_eq_length [of vs "drop ?mid elems"] halves
          mset_eq_setD [of us "take ?mid elems"] mset_eq_setD [of vs "drop ?mid elems"]
        by (auto simp: stable_sorted_def)
      have "stable_sorted lt elems (merge_lists lt us vs)"
        using stable_sorted_merge [OF "1.prems"(2) _ that(2,3)] "1.prems"(4) by simp
      then show ?thesis using len
        by (intro within_cost_weaken [OF merge_loop_within [OF "1.prems"(1) that(1) order_refl sets, of ?mid 0 "[]"]]) simp_all
    qed
    have "within_cost J E k (sort_cost ?n) (stable_sorted lt elems)
      (lbind (merge_sort cmp (take ?mid elems)) (\<lambda>left. lbind (merge_sort cmp (drop ?mid elems)) (\<lambda>right.
        merge_loop cmp (left @ right) ?mid 0 ?mid [])) st)"
    proof (rule within_cost_bind)
      show "within_cost J E k (sort_cost ?mid) (stable_sorted lt (take ?mid elems)) (merge_sort cmp (take ?mid elems) st)"
        using IH(1) [OF "1.prems"(3) halves(1)] by simp
      show "sort_cost ?mid + (sort_cost (?n - ?mid) + ?n) \<le> sort_cost ?n" using sort_cost_halves [of ?n] False by simp
      fix used us and st1 :: lib_state
      assume J: "J (k + used) st1" and us: "stable_sorted lt (take ?mid elems) us"
      show "within_cost J E (k + used) (sort_cost (?n - ?mid) + ?n) (stable_sorted lt elems)
          (lbind (merge_sort cmp (drop ?mid elems)) (\<lambda>right. merge_loop cmp (us @ right) ?mid 0 ?mid []) st1)"
      proof (rule within_cost_bind [where ?c2.0 = ?n])
        show "within_cost J E (k + used) (sort_cost (?n - ?mid)) (stable_sorted lt (drop ?mid elems)) (merge_sort cmp (drop ?mid elems) st1)"
          using IH(2) [OF J halves(2)] by simp
      qed (use merge us in auto)
    qed
    then show ?thesis using False by (subst merge_sort.simps) (simp add: Let_def)
  qed
qed

section \<open>Claims\<close>

definition stop_cause :: "comparison \<Rightarrow> lib_error \<Rightarrow> bool" where
  "stop_cause cmp e \<longleftrightarrow> e = Lib_Gas \<or> (\<exists>x y st1 st2. cmp x y st1 = (Inl e, st2))"

lemma sort_less_stop: "sort_less cmp x y st = (Inl e, st1) \<Longrightarrow> stop_cause cmp e"
  by (auto simp: sort_less_def spend_tick_def stop_cause_def elim!: lbind_Inl split: prod.splits if_splits)

lemma merge_loop_stop: "merge_loop cmp elems mid i j out st = (Inl e, st') \<Longrightarrow> stop_cause cmp e"
proof (induction cmp elems mid i j out arbitrary: st rule: merge_loop.induct)
  case (1 cmp elems mid i j out)
  show ?case
  proof (cases "i < mid \<and> j < length elems")
    case True
    then have "lbind (sort_less cmp (elems ! j) (elems ! i)) (\<lambda>less. if less then merge_loop cmp elems mid i (j + 1) (out @ [elems ! j])
        else merge_loop cmp elems mid (i + 1) j (out @ [elems ! i])) st = (Inl e, st')"
      using "1.prems" by (subst (asm) merge_loop.simps) simp
    then show ?thesis using "1.IH" [OF True] by (auto elim!: lbind_Inl intro: sort_less_stop split: if_splits)
  next
    case False
    then show ?thesis using "1.prems" by (subst (asm) merge_loop.simps) (auto simp: lreturn_def)
  qed
qed

lemma merge_sort_stop: "merge_sort cmp elems st = (Inl e, st') \<Longrightarrow> stop_cause cmp e"
proof (induction cmp elems arbitrary: st st' rule: merge_sort.induct)
  case (1 cmp elems)
  show ?case
  proof (cases "length elems \<le> 1")
    case True
    then show ?thesis using "1.prems" by (subst (asm) merge_sort.simps) (simp add: lreturn_def)
  next
    case False
    then show ?thesis using "1.prems" "1.IH" [OF False refl]
      by (subst (asm) merge_sort.simps) (auto simp: Let_def elim!: lbind_Inl intro: merge_loop_stop)
  qed
qed

text \<open>
  C35: No comparator can make \<^verbatim>\<open>table.sort\<close> lose, duplicate or invent elements, or panic: if the merge sort
  ends normally its result is a rearrangement of the elements, however inconsistent the comparator's
  answers were and whatever it did to the heap; if not, the budget was exhausted or the comparator failed.
\<close>

theorem merge_sort_any_comparator:
  assumes "merge_sort cmp elems st = (out, st')"
  shows "case out of
      Inr r \<Rightarrow> mset r = mset elems
    | Inl e \<Rightarrow> e = Lib_Gas \<or> (\<exists>x y st1 st2. cmp x y st1 = (Inl e, st2))"
proof (cases out)
  case (Inl e)
  then show ?thesis using merge_sort_stop [of cmp elems st e st'] assms by (simp add: stop_cause_def)
qed (use assms merge_sort_mset in auto)

text \<open>A comparator that always says yes.\<close>

theorem merge_sort_any_comparator_witness:
  "\<exists>r st'. merge_sort (\<lambda>x y. lreturn True) [LBoolean True, LBoolean False] demo_state = (Inr r, st') \<and>
     mset r = {#LBoolean True, LBoolean False#}"
proof -
  have "spend_tick demo_state = (Inr (), demo_state)"
    by (simp add: spend_tick_def demo_state_def demo_meter_def tick_gas_def tick_gas_unprofiled_def)
  then obtain r st' where run: "merge_sort (\<lambda>x y. lreturn True) [LBoolean True, LBoolean False] demo_state = (Inr r, st')"
    by (simp add: merge_sort.simps merge_loop.simps sort_less_def lbind_def lreturn_def)
  show ?thesis using merge_sort_any_comparator [OF run] run by simp
qed

lemma i64_range_from_one:
  assumes "unat len < 2 ^ 63"
  shows "i64_range 1 len = map (\<lambda>i. of_nat i + 1) [0..<unat len]"
proof -
  have l: "sint len = int (unat len)" using sint_of_nat_i64 [OF assms] by simp
  have "[1..int n] = map (\<lambda>i. int i + 1) [0..<n]" for n
    by (rule nth_equalityI) auto
  from this [of "unat len"] show ?thesis by (simp add: i64_range_def l [simplified] comp_def)
qed

lemma read_indices_ready:
  assumes "tables_ready G n st" "g \<in> G" "\<forall>i \<in> set is. near i"
  shows "read_indices g is st = (Inr (map (\<lambda>i. table_view st g (Key_Integer i)) is), st)"
  using assms by (induction "is") (simp_all add: lreturn_def lbind_def get_index_ready)

lemma write_sorted:
  assumes "tables_ready G (length vs) st" "g \<in> G" "length vs < 2 ^ 53"
  shows "\<exists>st'. lfor (\<lambda>(i, v). set_index g (of_nat i + 1) v) (enumerate 0 vs) st = (Inr (), st') \<and> ls_meter st' = ls_meter st \<and>
    (\<forall>g' \<in> G. table_view st' g' = (if g' = g then fold (\<lambda>(i, v) f. f(Key_Integer (of_nat i + 1) := v)) (enumerate 0 vs) (table_view st g)
      else table_view st g'))"
proof -
  let ?ws = "map (\<lambda>(i, v). (of_nat i + 1 :: i64, v)) (enumerate 0 vs)"
  have "near (of_nat i + 1)" if "i < length vs" for i
    using that assms(3) sint_of_nat_i64 [of "Suc i"] by (simp add: near_def add.commute)
  then have near: "\<forall>(i, v) \<in> set ?ws. near i" by (auto simp: in_set_enumerate_eq)
  have r: "tables_ready G (length ?ws + 0) st" using assms(1) by simp
  have "lfor (\<lambda>(i, v). set_index g (of_nat i + 1) v) (enumerate 0 vs) = lfor (\<lambda>(i, v). set_index g i v) ?ws"
    by (simp add: lfor_map case_prod_beta')
  with positions.write_loop [OF r assms(2) near] show ?thesis
    by (auto simp: positions.written_def fold_map comp_def case_prod_beta')
qed

text \<open>How a call ends before any comparison.\<close>

definition sort_refused :: "lib_env \<Rightarrow> lua_table \<Rightarrow> nat \<Rightarrow> lib_error option" where
  "sort_refused env t n =
     (if lt_readonly t then Some (Lib_Err ''attempt to modify a readonly table'')
      else if le_max_table_elements env < n then Some (Lib_Err ''table is too large to sort'')
      else if le_would_exceed_cap env (min (n * (2 * le_value_size env)) (2 ^ 64 - 1)) then Some Lib_Memory_Limit
      else None)"

lemma table_sort_runs:
  assumes "arg_value args 0 = LTable g" "arg_value args 1 = LNil \<or> arg_value args 1 = LFunction f"
    and "heap_table (ls_heap st) g = Some t" "table_length t = Some len" "tables_ready G (le_max_table_elements env) st" "g \<in> G"
  shows "table_sort env compare args st =
    (case sort_refused env t (unat len) of
       Some e \<Rightarrow> (Inl e, st)
     | None \<Rightarrow> lbind (merge_sort (compare (arg_value args 1)) (map (\<lambda>i. lookup t (Key_Integer (of_nat i + 1))) [0..<unat len])) (\<lambda>sorted_elems.
         lbind (lfor (\<lambda>(i, v). set_index g (of_nat i + 1) v) (enumerate 0 sorted_elems)) (\<lambda>_. lreturn [])) st)"
proof -
  let ?vals = "map (\<lambda>i. lookup t (Key_Integer (of_nat i + 1))) [0..<unat len]"
  let ?n = "le_max_table_elements env"
  have size: "?n < 2 ^ 53" using assms(5,6) by (auto simp: tables_ready_def array_bound_def)
  have view: "table_view st g = lookup t" using assms(3) by (simp add: table_view_def)
  have writable: "require_writable g st = (if lt_readonly t then Inl (Lib_Err ''attempt to modify a readonly table'') else Inr (), st)"
    and tl: "table_len g st = (Inr len, st)"
    using assms(3,4) by (simp_all add: require_writable_def table_len_def lvalue_def)
  show ?thesis
  proof (cases "sort_refused env t (unat len)")
    case None
    then have fits: "\<not> lt_readonly t" "unat len \<le> ?n" "\<not> le_would_exceed_cap env (min (unat len * (2 * le_value_size env)) (2 ^ 64 - 1))"
      by (auto simp: sort_refused_def split: if_splits)
    have len: "unat len < 2 ^ 63" "unat len < 2 ^ 53" using fits(2) size by simp_all
    have "near (of_nat i + 1)" if "i < unat len" for i
      using that len sint_of_nat_i64 [of "Suc i"] by (simp add: near_def add.commute)
    then have "read_indices g (i64_range 1 len) st = (Inr ?vals, st)"
      using read_indices_ready [OF assms(5,6), of "i64_range 1 len"] by (simp add: i64_range_from_one [OF len(1)] view)
    then show ?thesis using None fits assms(1,2)
      by (auto simp: table_sort_def arg_table_def Let_def lbind_ok [where m = "require_writable g" and st = st and x = "()" and ?st1.0 = st]
          lbind_ok [where m = "table_len g" and st = st and x = len and ?st1.0 = st] writable tl
          lbind_ok [where m = "read_indices g (i64_range 1 len)" and st = st and x = ?vals and ?st1.0 = st])
  next
    case (Some e)
    then show ?thesis using assms(1,2)
      by (auto simp: sort_refused_def table_sort_def arg_table_def Let_def lbind_ok [where m = "require_writable g" and st = st and x = "()" and ?st1.0 = st]
          lbind_ok [where m = "table_len g" and st = st and x = len and ?st1.0 = st] writable tl lfail_def
          lbind_stop [where m = "require_writable g" and st = st and ?st1.0 = st] split: if_splits)
  qed
qed

text \<open>
  C15: \<^verbatim>\<open>table.sort\<close> sorts stably in \<open>n \<lceil>log\<^sub>2 n\<rceil>\<close> comparisons, with the operator \<^verbatim>\<open><\<close> or a comparator function, for any
  strict weak order that the answers on the values of the table follow. The comparisons may run code: they
  may spend gas, fail, and change the heap, this table included, as long as the table stays resident and
  within the size limits. A call that returns has written the sorted sequence of the values that were in
  the table at its start, ties in their old order, over the positions up to the length the table had then,
  and left everything else as the last comparison did. A call that fails was refused with nothing
  changed, because the table is frozen or too large or memory is short, or one of those comparisons was
  not answered, and then it wrote nothing.
\<close>

theorem table_sort_exact:
  assumes "arg_value args 0 = LTable g" "arg_value args 1 = LNil \<or> arg_value args 1 = LFunction f"
    and "heap_table (ls_heap st) g = Some t" "table_length t = Some len"
    and "vals = map (\<lambda>i. lookup t (Key_Integer (of_nat i + 1))) [0..<unat len]" "weak_order (set vals) lt"
    and "answers (sort_compare run (arg_value args 1)) lt (set vals) J E" "J 0 st"
    and "\<And>n st1. J n st1 \<Longrightarrow> tables_ready G (le_max_table_elements env) st1" "g \<in> G"
  shows "case table_sort env (sort_compare run) args st of
      (Inr results, st') \<Rightarrow> results = [] \<and>
        (\<exists>vs used st1. stable_sorted lt vals vs \<and> used \<le> sort_cost (unat len) \<and> J used st1 \<and> ls_meter st' = ls_meter st1 \<and>
          (\<forall>g' \<in> G. table_view st' g' =
            (if g' = g then fold (\<lambda>(i, v) f. f(Key_Integer (of_nat i + 1) := v)) (enumerate 0 vs) (table_view st1 g) else table_view st1 g')))
    | (Inl e, st') \<Rightarrow> sort_refused env t (unat len) = Some e \<and> st' = st \<or>
        sort_refused env t (unat len) = None \<and> (\<exists>used < sort_cost (unat len). E used e st')"
proof -
  let ?cmp = "sort_compare run (arg_value args 1)"
  note run = table_sort_runs [OF assms(1-4) assms(9) [OF assms(8)] assms(10), of "sort_compare run", folded assms(5)]
  show ?thesis
  proof (cases "sort_refused env t (unat len)")
    case None
    have small: "unat len \<le> le_max_table_elements env" "le_max_table_elements env < 2 ^ 53"
      using None assms(9) [OF assms(8)] assms(10) by (auto simp: sort_refused_def tables_ready_def array_bound_def split: if_splits)
    have n: "length vals = unat len" by (simp add: assms(5))
    have ms: "within_cost J E 0 (sort_cost (unat len)) (stable_sorted lt vals) (merge_sort ?cmp vals st)"
      using merge_sort_within [OF assms(7,6,8) order_refl] n by simp
    obtain out st1 where out: "merge_sort ?cmp vals st = (out, st1)" by (cases "merge_sort ?cmp vals st")
    show ?thesis
    proof (cases out)
      case (Inl e)
      then show ?thesis using ms out by (simp add: run None lbind_def within_cost_def)
    next
      case (Inr vs)
      obtain used where vs: "stable_sorted lt vals vs" "used \<le> sort_cost (unat len)" "J used st1"
        using ms out Inr by (auto simp: within_cost_def)
      have len: "length vs = unat len" using vs(1) n mset_eq_length [of vs vals] by (simp add: stable_sorted_def)
      have "tables_ready G (length vs) st1" using assms(9) [OF vs(3)] small(1) by (fastforce simp: len tables_ready_def)
      from write_sorted [OF this assms(10)] obtain st' where st':
        "lfor (\<lambda>(i, v). set_index g (of_nat i + 1) v) (enumerate 0 vs) st1 = (Inr (), st')" "ls_meter st' = ls_meter st1"
        "\<forall>g' \<in> G. table_view st' g' =
          (if g' = g then fold (\<lambda>(i, v) f. f(Key_Integer (of_nat i + 1) := v)) (enumerate 0 vs) (table_view st1 g) else table_view st1 g')"
        using small by (auto simp: len)
      have "table_sort env (sort_compare run) args st = (Inr [], st')"
        using out Inr st'(1)
        by (simp add: run None lbind_def lreturn_def)
      then show ?thesis using vs st'(2,3) by auto
    qed
  qed (simp add: run)
qed

section \<open>Comparisons that answer\<close>

text \<open>A meter without a budget, or with one of which \<open>k\<close> units were asked for.\<close>

definition funded :: "u64 option \<Rightarrow> nat \<Rightarrow> meter \<Rightarrow> bool" where
  "funded budget k m = (case budget of None \<Rightarrow> gm_gas m = None | Some g \<Rightarrow> accounts g k m)"

definition covers :: "u64 option \<Rightarrow> nat \<Rightarrow> bool" where
  "covers budget k = (case budget of None \<Rightarrow> True | Some g \<Rightarrow> k \<le> unat g)"

lemma spend_funded:
  assumes "funded budget k (ls_meter st)"
  shows "\<exists>m. spend_tick st = (if covers budget (k + 1) then Inr () else Inl Lib_Gas, st\<lparr>ls_meter := m\<rparr>) \<and> funded budget (k + 1) m"
    and "\<exists>ok m. spend_gas u st = (if ok then Inr () else Inl Lib_Gas, st\<lparr>ls_meter := m\<rparr>) \<and> funded budget (k + unat u) m \<and>
      (covers budget (k + unat u) \<longrightarrow> ok)"
proof -
  have "fst (tick_gas (ls_meter st)) = covers budget (k + 1) \<and> funded budget (k + 1) (snd (tick_gas (ls_meter st)))"
    using assms tick_gas_accounts [of _ k "ls_meter st"]
    by (auto simp: funded_def covers_def tick_gas_def tick_gas_profiled_def tick_gas_unprofiled_def split: option.splits)
  then show "\<exists>m. spend_tick st = (if covers budget (k + 1) then Inr () else Inl Lib_Gas, st\<lparr>ls_meter := m\<rparr>) \<and> funded budget (k + 1) m"
    by (intro exI [of _ "snd (tick_gas (ls_meter st))"]) (simp add: spend_tick_def prod.case_eq_if)
  have "(covers budget (k + unat u) \<longrightarrow> fst (charge_gas u (ls_meter st))) \<and> funded budget (k + unat u) (snd (charge_gas u (ls_meter st)))"
    using assms charge_gas_accounts [of _ k "ls_meter st" u] by (auto simp: funded_def covers_def charge_gas_def split: option.splits)
  then show "\<exists>ok m. spend_gas u st = (if ok then Inr () else Inl Lib_Gas, st\<lparr>ls_meter := m\<rparr>) \<and> funded budget (k + unat u) m \<and>
      (covers budget (k + unat u) \<longrightarrow> ok)"
    by (intro exI [of _ "fst (charge_gas u (ls_meter st))"] exI [of _ "snd (charge_gas u (ls_meter st))"])
      (simp add: spend_gas_def prod.case_eq_if)
qed

text \<open>Only the meter moves, and only gas stops it.\<close>

definition only_spends :: "lib_state \<Rightarrow> u64 option \<Rightarrow> nat \<Rightarrow> lib_state \<Rightarrow> bool" where
  "only_spends st0 budget k st \<longleftrightarrow> (\<exists>m. st = st0\<lparr>ls_meter := m\<rparr> \<and> funded budget k m)"

definition unpaid :: "lib_state \<Rightarrow> u64 option \<Rightarrow> nat \<Rightarrow> lib_error \<Rightarrow> lib_state \<Rightarrow> bool" where
  "unpaid st0 budget k e st \<longleftrightarrow> e = Lib_Gas \<and> \<not> covers budget k \<and> (\<exists>m. st = st0\<lparr>ls_meter := m\<rparr>)"

lemma only_spends_start: "funded budget k (ls_meter st) \<Longrightarrow> only_spends st budget k st"
  unfolding only_spends_def by (intro exI [of _ "ls_meter st"]) simp

text \<open>
  A comparison that reads the heap at most is asked for one unit each; one that spends \<open>u\<close> units of its own
  costs as many more.
\<close>

lemma spending_answers:
  assumes cmp: "\<And>x y st. x \<in> V \<Longrightarrow> y \<in> V \<Longrightarrow> ls_heap st = ls_heap st0 \<Longrightarrow> cmp x y st = lbind (spend_gas u) (\<lambda>_. lreturn (lt x y)) st"
  shows "answers cmp lt V (\<lambda>n. only_spends st0 budget (k + n * Suc (unat u))) (\<lambda>n. unpaid st0 budget (k + Suc n * Suc (unat u)))"
  unfolding answers_def
proof (intro allI impI ballI)
  fix n st x y
  let ?k = "k + n * Suc (unat u)"
  assume "only_spends st0 budget ?k st" and xy: "x \<in> V" "y \<in> V"
  then obtain m0 where st: "st = st0\<lparr>ls_meter := m0\<rparr>" "funded budget ?k m0" by (auto simp: only_spends_def)
  obtain m1 where m1: "spend_tick st = (if covers budget (?k + 1) then Inr () else Inl Lib_Gas, st0\<lparr>ls_meter := m1\<rparr>)" "funded budget (?k + 1) m1"
    using spend_funded(1) [of budget ?k st] st by auto
  let ?st = "st0\<lparr>ls_meter := m1\<rparr>"
  obtain ok m2 where m2: "spend_gas u ?st = (if ok then Inr () else Inl Lib_Gas, st0\<lparr>ls_meter := m2\<rparr>)" "funded budget (?k + 1 + unat u) m2"
      "covers budget (?k + 1 + unat u) \<longrightarrow> ok"
    using spend_funded(2) [of budget "?k + 1" ?st u] m1(2) by auto
  have k: "?k + 1 + unat u = k + Suc n * Suc (unat u)" by simp
  have less: "covers budget (k + Suc n * Suc (unat u)) \<Longrightarrow> covers budget (?k + 1)" by (auto simp: covers_def split: option.splits)
  have "sort_less cmp x y st = (if covers budget (?k + 1) then (if ok then Inr (lt x y) else Inl Lib_Gas, st0\<lparr>ls_meter := m2\<rparr>)
      else (Inl Lib_Gas, ?st))"
    using m1(1) m2(1) cmp [OF xy, of ?st] by (simp add: sort_less_def lbind_def lreturn_def)
  then show "case sort_less cmp x y st of (Inr b, st1) \<Rightarrow> b = lt x y \<and> only_spends st0 budget (k + Suc n * Suc (unat u)) st1
     | (Inl e, st1) \<Rightarrow> unpaid st0 budget (k + Suc n * Suc (unat u)) e st1"
    using m2(2,3) less unfolding k by (auto simp: only_spends_def unpaid_def)
qed

lemma charge_nothing: "charge_gas 0 m = (True, m)"
proof (cases "gm_gas m")
  case (Some g)
  have "map_option (record_units 0) (gm_active_profile m) = gm_active_profile m"
    by (cases "gm_active_profile m") (simp_all add: record_units_def)
  then have "record_gas_profile 0 m = m" by (simp add: record_gas_profile_def)
  moreover have "m\<lparr>gm_gas := Some g, gm_spent := saturating_add (gm_spent m) 0\<rparr> = m" using Some by (simp add: saturating_add_def)
  ultimately show ?thesis using Some by (simp add: charge_gas_def)
qed (simp add: charge_gas_def)

lemma pure_answers:
  assumes "\<And>x y st. x \<in> V \<Longrightarrow> y \<in> V \<Longrightarrow> ls_heap st = ls_heap st0 \<Longrightarrow> cmp x y st = (Inr (lt x y), st)"
  shows "answers cmp lt V (\<lambda>n. only_spends st0 budget (k + n)) (\<lambda>n. unpaid st0 budget (k + Suc n))"
proof -
  have free: "spend_gas 0 st = (Inr (), st)" for st by (simp add: spend_gas_def charge_nothing)
  have "answers cmp lt V (\<lambda>n. only_spends st0 budget (k + n * Suc (unat (0 :: u64)))) (\<lambda>n. unpaid st0 budget (k + Suc n * Suc (unat (0 :: u64))))"
  proof (rule spending_answers)
    fix x y and st :: lib_state assume "x \<in> V" "y \<in> V" "ls_heap st = ls_heap st0"
    then have "cmp x y st = (Inr (lt x y), st)" by (rule assms)
    also have "\<dots> = lbind (spend_gas 0) (\<lambda>_. lreturn (lt x y)) st" by (simp add: lbind_def free lreturn_def)
    finally show "cmp x y st = lbind (spend_gas 0) (\<lambda>_. lreturn (lt x y)) st" .
  qed
  then show ?thesis by simp
qed

text \<open>
  The operator on numbers without NaN, integers among them, and on strings; and a comparator function
  that spends \<open>u\<close> units of gas and answers by \<open>lt\<close>.
\<close>

lemma number_answers:
  assumes "\<And>v. v \<in> V \<Longrightarrow> number_value v"
  shows "answers (sort_compare run LNil) (\<lambda>x y. number_rank x < number_rank y) V
    (\<lambda>n. only_spends st0 budget (k + n)) (\<lambda>n. unpaid st0 budget (k + Suc n))"
  by (rule pure_answers) (simp add: sort_compare_def less_than_numbers assms)

definition text_of :: "heap \<Rightarrow> raw_value \<Rightarrow> bytes" where
  "text_of h v = (case v of LString g \<Rightarrow> string_bytes h g | _ \<Rightarrow> [])"

lemma string_answers:
  assumes "\<And>v. v \<in> V \<Longrightarrow> \<exists>g. v = LString g"
  shows "answers (sort_compare run LNil) (\<lambda>x y. text_of (ls_heap st0) x < text_of (ls_heap st0) y) V
    (\<lambda>n. only_spends st0 budget (k + n)) (\<lambda>n. unpaid st0 budget (k + Suc n))"
proof (rule pure_answers)
  fix x y and st :: lib_state assume "x \<in> V" "y \<in> V" and h: "ls_heap st = ls_heap st0"
  then obtain a b where "x = LString a" "y = LString b" using assms by blast
  then show "sort_compare run LNil x y st = (Inr (text_of (ls_heap st0) x < text_of (ls_heap st0) y), st)"
    by (simp add: sort_compare_def less_than_strings text_of_def h)
qed

lemma comparator_answers:
  assumes "\<And>x y. in_call_value run (LFunction f) [x, y] = lbind (spend_gas u) (\<lambda>_. lreturn [LBoolean (lt x y)])"
  shows "answers (sort_compare run (LFunction f)) lt V
    (\<lambda>n. only_spends st0 budget (k + n * Suc (unat u))) (\<lambda>n. unpaid st0 budget (k + Suc n * Suc (unat u)))"
  by (rule spending_answers)
    (simp add: sort_compare_def assms lbind_def lreturn_def truthy_def first_result_def split: prod.split sum.split)

text \<open>
  The numbers 2 and 1, sorted by the operator within a budget of five units, of which the
  comparison takes one.
\<close>

definition sort_state :: lib_state where
  "sort_state =
     \<lparr>ls_heap = (empty_heap 0)\<lparr>tables :=
        \<lparr>ar_entries = [fresh_entry (with_array [LNumber 0x4000000000000000, LNumber 0x3FF0000000000000])], ar_gens = [0], ar_free = [], ar_young = [0]\<rparr>\<rparr>,
      ls_meter = begin_invocation demo_limits_meter demo_meter, ls_grants = (\<lambda>_. True)\<rparr>"

lemma sort_state_table: "heap_table (ls_heap sort_state) (RawGc 0 0 0) = Some (with_array [LNumber 0x4000000000000000, LNumber 0x3FF0000000000000])"
  by (simp add: sort_state_def heap_table_def arena_get_def get_def empty_heap_def fresh_entry_def)

definition demo_interpreter :: interpreter where
  "demo_interpreter = \<lparr>in_call_value = (\<lambda>_ _. lfail (Lib_Err ''attempt to call a nil value'')), in_userdata_metatable = (\<lambda>_ _. None)\<rparr>"

lemma sort_demo_ranks:
  "number_value (LNumber 0x4000000000000000)" "number_value (LNumber 0x3FF0000000000000)" "number_rank (LNumber 0x3FF0000000000000) < number_rank (LNumber 0x4000000000000000)"
  by (simp_all add: number_value_def number_rank_def numeric_f64_def f64_is_nan_def f64_exponent_def f64_rank_def f64_negative_def)

theorem table_sort_exact_witness:
  "case table_sort demo_lib_env (sort_compare demo_interpreter) [LTable (RawGc 0 0 0)] sort_state of
     (Inr results, st') \<Rightarrow> results = [] \<and> table_view st' (RawGc 0 0 0) (Key_Integer 1) = LNumber 0x3FF0000000000000 \<and>
       table_view st' (RawGc 0 0 0) (Key_Integer 2) = LNumber 0x4000000000000000
   | (Inl e, st') \<Rightarrow> False"
proof -
  let ?two = "LNumber 0x4000000000000000" and ?one = "LNumber 0x3FF0000000000000" and ?g = "RawGc 0 0 0" and ?lt = "\<lambda>x y. number_rank x < number_rank y"
  let ?t = "with_array [?two, ?one]" and ?J = "\<lambda>n. only_spends sort_state (Some 5) (0 + n)" and ?E = "\<lambda>n. unpaid sort_state (Some 5) (0 + Suc n)"
  have len: "table_length ?t = Some 2"
    using table_length_cases [OF with_array_ok, of "[?two, ?one]"] by (simp add: with_array_def table_new_def)
  have args: "arg_value [LTable ?g] 0 = LTable ?g" "arg_value [LTable ?g] 1 = LNil"
    by (simp_all add: arg_value_def get_def)
  have vals: "[?two, ?one] = map (\<lambda>i. lookup ?t (Key_Integer (of_nat i + 1))) [0..<unat (2 :: u64)]"
    using lookup_array [of 0 ?t] lookup_array [of 1 ?t] by (simp add: with_array_def table_new_def upt_rec)
  have ans: "answers (sort_compare demo_interpreter (arg_value [LTable ?g] 1)) ?lt (set [?two, ?one]) ?J ?E"
    unfolding args(2) by (rule number_answers) (use sort_demo_ranks(1,2) in auto)
  have start: "?J 0 sort_state"
    by (rule only_spends_start) (simp add: sort_state_def funded_def accounts_def invocation_gas_def demo_limits_meter_def)
  have ready: "?J n st1 \<Longrightarrow> tables_ready {?g} (le_max_table_elements demo_lib_env) st1" for n st1
    using sort_state_table with_array_ok [of "[?two, ?one]"]
    by (auto simp: only_spends_def tables_ready_def table_size_def live_slots_def array_bound_def demo_lib_env_def with_array_def table_new_def)
  have cost: "sort_cost (unat (2 :: u64)) = 2" "sort_refused demo_lib_env ?t (unat (2 :: u64)) = None"
    by (simp_all add: sort_cost_def bit_length.simps sort_refused_def demo_lib_env_def with_array_def table_new_def)
  have paid: "\<not> ?E n e st'" if "n < 2" for n e st' using that by (simp add: unpaid_def covers_def)
  have sorted: "vs = [?one, ?two]" if "stable_sorted ?lt [?two, ?one] vs" for vs
  proof -
    have "mset vs = {#?two, ?one#}" "sorted_wrt (\<lambda>x y. \<not> ?lt y x) vs" "length vs = 2"
      using that mset_eq_length [of vs "[?two, ?one]"] by (simp_all add: stable_sorted_def)
    moreover from this(3) obtain a b where "vs = [a, b]" by (auto simp: length_Suc_conv numeral_2_eq_2)
    ultimately show ?thesis using sort_demo_ranks(3) by (auto simp: add_eq_conv_diff)
  qed
  note result = table_sort_exact [OF args(1) disjI1 [OF args(2)] sort_state_table len vals weak_order_rank ans start ready singletonI]
  obtain out st' where call: "table_sort demo_lib_env (sort_compare demo_interpreter) [LTable ?g] sort_state = (out, st')"
    by (cases "table_sort demo_lib_env (sort_compare demo_interpreter) [LTable ?g] sort_state")
  show ?thesis
  proof (cases out)
    case (Inl e)
    then show ?thesis using result [of "\<lambda>n _. n"] paid unfolding call cost by auto
  next
    case (Inr results)
    then obtain vs st1 where "results = []" "stable_sorted ?lt [?two, ?one] vs"
        "table_view st' ?g = fold (\<lambda>(i, v) f. f(Key_Integer (of_nat i + 1) := v)) (enumerate 0 vs) (table_view st1 ?g)"
      using result [of "\<lambda>n _. n"] unfolding call cost by auto
    then show ?thesis using sorted [of vs] unfolding call Inr by simp
  qed
qed

end
