(* ===== verification/Table_Edits.thy ===== *)
theory Table_Edits
  imports Table_Move
begin

text \<open>
  \<^verbatim>\<open>table.insert\<close> and \<^verbatim>\<open>table.remove\<close> shift a range of positions by one and are read off the copying loop of
  \<open>Table_Positions\<close>; \<^verbatim>\<open>table.unpack\<close> reads a range, and ends unless its last position is the largest
  \<^verbatim>\<open>i64\<close>, where its counter wraps (in a build that checks arithmetic it panics there).
\<close>

section \<open>Shifting\<close>

lemma shift_loop:
  assumes r: "move_range a b t" and ready: "tables_ready {g} (n + m) st" and n: "nat (sint b - sint a + 1) \<le> n"
    and os: "set os = set (i64_range a b)" "distinct os"
    and order: "\<forall>pre k post. os = pre @ k # post \<longrightarrow> k \<notin> (\<lambda>k. t + (k - a)) ` set pre"
  shows "\<exists>st'. lfor (\<lambda>i. lbind (get_index g i) (\<lambda>v. set_index g (t + (i - a)) v)) os st = (Inr (), st') \<and>
    tables_ready {g} m st' \<and> table_view st' g = moved (table_view st g) (table_view st g) a b t \<and> ls_meter st' = ls_meter st"
proof -
  have s: "sint (b - a) = sint b - sint a" by (rule sint_minus) (use r in \<open>auto simp: move_range_def near_def\<close>)
  have off: "k - a \<in> set (i64_range 0 (b - a)) \<longleftrightarrow> k \<in> set (i64_range a b)" for k
    using offsets_of [of a b a k] r by (auto simp: move_range_def near_def set_i64_range)
  have near: "near k" "near (t + (k - a))" if "k \<in> set os" for k
    using move_offset(5,6) [OF r, of "k - a"] that off os(1) by auto
  have len: "length os = nat (sint b - sint a + 1)"
    using distinct_card [OF os(2)] distinct_card [OF distinct_i64_range [of a b]] os(1) by simp
  have "tables_ready {g} (length os + m) st" using positions.ready_less [OF ready] n len by simp
  from positions.copy_loop [where src = g and dst = g and from_index = "\<lambda>k. k" and to_index = "\<lambda>k. t + (k - a)", OF this _ _ _ order]
  obtain st' where st': "lfor (\<lambda>i. lbind (get_index g i) (\<lambda>v. set_index g (t + (i - a)) v)) os st = (Inr (), st')" "tables_ready {g} m st'"
      "positions.written {g} g (map (\<lambda>k. (t + (k - a), table_view st g (Key_Integer k))) os) st st'"
    using near by auto
  let ?os = "map (\<lambda>k. k - a) os"
  have "set ?os = set (i64_range 0 (b - a))"
  proof -
    have "k \<in> set (i64_range 0 (b - a)) \<longleftrightarrow> k + a \<in> set os" for k using off [of "k + a"] os(1) by simp
    then show ?thesis by (force simp: image_iff)
  qed
  from writes_moved [OF r this, of "table_view st g" "table_view st g"] os(2)
  have "fold (\<lambda>(i, v) f. f(Key_Integer i := v)) (map (\<lambda>k. (t + (k - a), table_view st g (Key_Integer k))) os) (table_view st g) =
      moved (table_view st g) (table_view st g) a b t"
    by (simp add: distinct_map inj_on_def comp_def)
  then show ?thesis using st' by (auto simp: positions.written_def)
qed

lemma range_order:
  assumes "i64_range a b = pre @ k # post"
  shows "l \<in> set pre \<Longrightarrow> sint l < sint k" "l \<in> set post \<Longrightarrow> sint k < sint l"
proof -
  have "map sint (i64_range a b) = [sint a..sint b]"
  proof -
    have "sint (word_of_int k :: i64) = k" if "k \<in> set [sint a..sint b]" for k
      using that sint_ge [of a] sint_lt [of b] by (intro sint_word_of_int) auto
    then show ?thesis unfolding i64_range_def map_map by (intro map_idI) simp
  qed
  then have "sorted_wrt (<) (map sint (pre @ k # post))" using assms by (simp add: strict_sorted_iff)
  then show "l \<in> set pre \<Longrightarrow> sint l < sint k" "l \<in> set post \<Longrightarrow> sint k < sint l" by (auto simp: sorted_wrt_append)
qed

section \<open>Reading a range\<close>

lemma unpack_loop_exact:
  assumes "sint j < 2 ^ 63 - 1" "\<forall>k \<in> set (i64_range i j). read_at k \<noteq> None"
  shows "\<exists>vs. table_unpack_loop read_at i j out = Some (Inr (out @ vs)) \<and> map Some vs = map read_at (i64_range i j)"
  using assms(2)
proof (induction "nat (sint j - sint i + 1)" arbitrary: i out)
  case 0
  then show ?case by (subst table_unpack_loop.simps) (auto simp: i64_range_def)
next
  case (Suc n)
  have le: "sint i \<le> sint j" using Suc.hyps(2) by linarith
  have i1: "sint (i + 1) = sint i + 1" using le assms(1) sint_ge [of i] by (intro sint_plus [of i 1, simplified]) auto
  have r: "i64_range i j = i # i64_range (i + 1) j" using le i1 upto.simps [of "sint i" "sint j"] by (simp add: i64_range_def)
  obtain v where v: "read_at i = Some v" using Suc.prems r by auto
  have "n = nat (sint j - sint (i + 1) + 1)" using Suc.hyps(2) i1 by linarith
  from Suc.hyps(1) [OF this, of "out @ [v]"] Suc.prems r obtain vs
    where "table_unpack_loop read_at (i + 1) j (out @ [v]) = Some (Inr (out @ v # vs))" "map Some vs = map read_at (i64_range (i + 1) j)"
    by auto
  then show ?case using le v r by (subst table_unpack_loop.simps) (auto intro: exI [of _ "v # vs"])
qed

lemma unpack_count:
  assumes "sint i \<le> sint j" "sint j < 2 ^ 63 - 1"
  shows "length (i64_range i j) \<le> usize_try_from_i64 (j - i + 1)"
proof -
  have len: "length (i64_range i j) = nat (sint j - sint i + 1)" by (simp add: i64_range_def)
  have b: "0 \<le> sint j - sint i + 1" "sint j - sint i + 1 < 2 ^ 64" using assms sint_ge [of i] by auto
  have "uint (j - i + 1) = (sint j - sint i + 1) mod 2 ^ 64"
    using uint_word_of_int [of "sint j - sint i + 1", where ?'a = 64] by simp
  then have "unat (j - i + 1) = nat (sint j - sint i + 1)" using b by (simp flip: nat_uint_eq)
  then show ?thesis using b len by (auto simp: usize_try_from_i64_def)
qed

text \<open>The largest position is below no other, so the loop to it never sees its end.\<close>

lemma unpack_loop_wraps:
  assumes "\<forall>k. read_at k \<noteq> None"
  shows "table_unpack_loop read_at i (2 ^ 63 - 1) out = None"
proof -
  have top: "sint i \<le> sint (2 ^ 63 - 1 :: i64)" for i :: i64 using sint_lt [of i] by simp
  have "j = 2 ^ 63 - 1 \<longrightarrow> (\<exists>k. read_at k = None)" if "table_unpack_loop read_at i j out = Some y" for read_at i j out y
    by (rule table_unpack_loop.raw_induct [OF _ that]) (use top in \<open>auto split: if_splits option.splits\<close>)
  then have "\<exists>k. read_at k = None" if "table_unpack_loop read_at i (2 ^ 63 - 1) out = Some y" for y using that by blast
  then show ?thesis using assms by (cases "table_unpack_loop read_at i (2 ^ 63 - 1) out") blast+
qed

section \<open>Claims\<close>

text \<open>
  C27: \<^verbatim>\<open>table.insert\<close> at a position from one to just behind the end moves the elements from there on up by
  one and puts the value in the gap; at any other position it writes that one key. No other key
  changes, and a frozen table is refused.
\<close>

theorem table_insert_exact:
  assumes "args = [LTable g, p, v]" "arg_int args 1 = Some pos" "near pos"
    and "heap_table (ls_heap st) g = Some t" "table_ok t" "table_length t = Some len"
    and "table_size t + unat len + 2 < array_bound" "\<not> lt_readonly t"
  shows "\<exists>st'. table_insert args st = (Inr [], st') \<and>
    table_view st' g =
      (if 1 \<le> sint pos \<and> sint pos \<le> sint len + 1 then moved (lookup t) (lookup t) pos len (pos + 1) else lookup t)
        (Key_Integer pos := v)"
proof -
  have view: "table_view st g = lookup t" using assms(4) by (simp add: table_view_def)
  define n where "n = unat len"
  have ready: "tables_ready {g} (n + 1) st" using assms(4,5,7) by (simp add: tables_ready_def n_def)
  have l53: "n + 2 < 2 ^ 53" using assms(7) by (simp add: array_bound_def n_def)
  have ln: "len = of_nat n" by (simp add: n_def)
  have len: "sint len = int n" using sint_of_nat_i64 [of n] l53 by (simp add: ln)
  have len1: "sint (len + 1) = int n + 1" using sint_of_nat_i64 [of "Suc n"] l53 by (simp add: ln add.commute)
  have writable: "require_writable g st = (Inr (), st)" and tl: "table_len g st = (Inr len, st)"
    using assms(4,6,8) by (simp_all add: require_writable_def table_len_def lvalue_def)
  let ?shift = "if 1 \<le> sint pos \<and> sint pos \<le> sint (len + 1)
    then lfor (\<lambda>i. lbind (get_index g i) (\<lambda>moved. set_index g (i + 1) moved)) (rev (i64_range pos len)) else lreturn ()"
  have "\<exists>st1. ?shift st = (Inr (), st1) \<and> tables_ready {g} 1 st1 \<and> table_view st1 g =
      (if 1 \<le> sint pos \<and> sint pos \<le> sint len + 1 then moved (lookup t) (lookup t) pos len (pos + 1) else lookup t)"
  proof (cases "1 \<le> sint pos \<and> sint pos \<le> sint len")
    case True
    have p1: "sint (pos + 1) = sint pos + 1" using True len l53 by (intro sint_plus [of pos 1, simplified]) auto
    have r: "move_range pos len (pos + 1)" using True assms(3) len l53 p1 by (auto simp: move_range_def near_def)
    have t: "pos + 1 + (i - pos) = i + 1" for i by simp
    have "\<forall>pre k post. rev (i64_range pos len) = pre @ k # post \<longrightarrow> k \<notin> (\<lambda>k. pos + 1 + (k - pos)) ` set pre"
    proof (intro allI impI notI)
      fix pre k post assume "rev (i64_range pos len) = pre @ k # post" "k \<in> (\<lambda>k. pos + 1 + (k - pos)) ` set pre"
      then obtain l where l: "l \<in> set pre" "k = l + 1" and rl: "i64_range pos len = rev post @ k # rev pre" by (auto simp: rev_swap)
      have "sint k < sint l" using range_order(2) [OF rl] l(1) by simp
      moreover have "l \<in> set (i64_range pos len)" using rl l(1) by simp
      then have "sint (l + 1) = sint l + 1" using len l53 True by (intro sint_plus [of l 1, simplified]) (auto simp: set_i64_range)
      ultimately show False using l(2) by simp
    qed
    moreover have "nat (sint len - sint pos + 1) \<le> n" using True len by linarith
    ultimately show ?thesis using shift_loop [OF r, of g n 1 st "rev (i64_range pos len)"]
      True ready distinct_i64_range [of pos len] len len1 by (auto simp: t view)
  next
    case False
    have "moved (lookup t) (lookup t) pos len (pos + 1) = lookup t" if "sint pos = sint len + 1"
    proof -
      have "sint (pos + 1) = sint pos + 1" using that len l53 by (intro sint_plus [of pos 1, simplified]) auto
      then show ?thesis using that by (auto simp: moved_def fun_eq_iff split: lua_key.split)
    qed
    moreover have "i64_range pos len = []" if "sint pos = sint len + 1" using that by (simp add: i64_range_def)
    moreover have "tables_ready {g} 1 st" using positions.ready_less [OF ready] by simp
    ultimately show ?thesis using False len len1 view by (auto simp: lreturn_def)
  qed
  then obtain st1 where 1: "?shift st = (Inr (), st1)" "tables_ready {g} 1 st1" "table_view st1 g =
      (if 1 \<le> sint pos \<and> sint pos \<le> sint len + 1 then moved (lookup t) (lookup t) pos len (pos + 1) else lookup t)" by blast
  obtain st2 where 2: "set_index g pos v st1 = (Inr (), st2)" "table_view st2 g = (table_view st1 g)(Key_Integer pos := v)"
    using set_index_ready [of "{g}" 0 st1 g pos v] 1(2) assms(3) by auto
  have "table_insert args st = lbind (lbind ?shift (\<lambda>_. set_index g pos v)) (\<lambda>_. lreturn []) st"
    using assms(1,2) by (simp add: table_insert_def arg_table_def arg_value_def get_def require_int_def
        lbind_ok [where m = "require_writable g" and st = st and x = "()" and ?st1.0 = st] writable
        lbind_ok [where m = "table_len g" and st = st and x = len and ?st1.0 = st] tl)
  also have "\<dots> = (Inr [], st2)" using 1(1) 2(1)
    by (simp add: lbind_assoc lbind_ok [where m = ?shift and st = st and x = "()" and ?st1.0 = st1]
        lbind_ok [where m = "set_index g pos v" and st = st1 and x = "()" and ?st1.0 = st2] lreturn_def)
  finally show ?thesis using 2(2) 1(3) by auto
qed

lemma demo_state_length: "table_length (with_array [LBoolean True, LBoolean False]) = Some 2"
  using table_length_cases [OF with_array_ok, of "[LBoolean True, LBoolean False]"] by (simp add: with_array_def table_new_def)

theorem table_insert_exact_witness:
  "\<exists>st'. table_insert [LTable (RawGc 0 0 0), LInteger 1, LNil] demo_state = (Inr [], st') \<and>
     table_view st' (RawGc 0 0 0) (Key_Integer 2) = LBoolean True"
proof -
  let ?t = "with_array [LBoolean True, LBoolean False]"
  have "table_size ?t + unat (2 :: i64) + 2 < array_bound" "\<not> lt_readonly ?t"
    by (simp_all add: table_size_def live_slots_def array_bound_def with_array_def table_new_def)
  from table_insert_exact [OF refl _ _ demo_state_table with_array_ok demo_state_length this, of "LInteger 1" LNil 1]
  obtain st' where "table_insert [LTable (RawGc 0 0 0), LInteger 1, LNil] demo_state = (Inr [], st')"
    "table_view st' (RawGc 0 0 0) = (moved (lookup ?t) (lookup ?t) 1 2 2)(Key_Integer 1 := LNil)"
    by (auto simp: arg_int_def get_def near_def)
  moreover have "lookup ?t (Key_Integer 1) = LBoolean True"
    using lookup_array [of 0 ?t] by (simp add: with_array_def table_new_def)
  ultimately show ?thesis by (auto simp: moved_def)
qed

text \<open>
  \<^verbatim>\<open>table.remove\<close> at a position within the table returns the value there, moves the elements behind it
  down by one, and clears the last position; no other key changes. At any other position it returns
  nothing and changes nothing, also on a frozen table.
\<close>

theorem table_remove_exact:
  assumes "args = [LTable g, p]" "arg_int args 1 = Some pos"
    and "heap_table (ls_heap st) g = Some t" "table_ok t" "table_length t = Some len"
    and "table_size t + unat len + 2 < array_bound"
  shows "if 1 \<le> sint pos \<and> sint pos \<le> sint len then
      (if lt_readonly t then table_remove args st = (Inl (Lib_Err ''attempt to modify a readonly table''), st)
       else \<exists>st'. table_remove args st = (Inr [lookup t (Key_Integer pos)], st') \<and>
         table_view st' g = (moved (lookup t) (lookup t) (pos + 1) len pos)(Key_Integer len := LNil))
    else table_remove args st = (Inr [], st)"
proof -
  have view: "table_view st g = lookup t" using assms(3) by (simp add: table_view_def)
  define n where "n = unat len"
  have ready: "tables_ready {g} (n + 1) st" using assms(3,4,6) by (simp add: tables_ready_def n_def)
  have l53: "n + 2 < 2 ^ 53" using assms(6) by (simp add: array_bound_def n_def)
  have len: "sint len = int n" using sint_of_nat_i64 [of n] l53 by (simp add: n_def)
  have writable: "require_writable g st = (if lt_readonly t then Inl (Lib_Err ''attempt to modify a readonly table'') else Inr (), st)"
    and tl: "table_len g st = (Inr len, st)"
    using assms(3,5) by (simp_all add: require_writable_def table_len_def lvalue_def)
  let ?loop = "lfor (\<lambda>i. lbind (get_index g (i + 1)) (\<lambda>moved. set_index g i moved)) (i64_range pos (len - 1))"
  have start: "table_remove args st =
      (if \<not> (1 \<le> sint pos \<and> sint pos \<le> sint len) then (Inr [], st)
       else lbind (require_writable g) (\<lambda>_. lbind (get_index g pos) (\<lambda>removed. lbind ?loop (\<lambda>_. lbind (set_index g len LNil) (\<lambda>_. lreturn [removed])))) st)"
    using assms(1,2) by (simp add: table_remove_def arg_table_def arg_value_def get_def Let_def lreturn_def
        lbind_ok [where m = "table_len g" and st = st and x = len and ?st1.0 = st] tl)
  show ?thesis
  proof (cases "1 \<le> sint pos \<and> sint pos \<le> sint len \<and> \<not> lt_readonly t")
    case False
    then show ?thesis by (auto simp: start writable lbind_stop [where m = "require_writable g" and st = st and ?st1.0 = st])
  next
    case True
    have np: "near pos" "near len" using True len l53 by (auto simp: near_def)
    have l1: "sint (len - 1) = int n - 1" using len l53 by (subst sint_minus [of len 1, simplified]) auto
    have "\<exists>st1. ?loop st = (Inr (), st1) \<and> tables_ready {g} 1 st1 \<and> table_view st1 g = moved (lookup t) (lookup t) (pos + 1) len pos"
    proof (cases "sint pos = sint len")
      case eq: True
      have "sint (pos + 1) = sint pos + 1" using eq len l53 by (intro sint_plus [of pos 1, simplified]) auto
      then have "moved (lookup t) (lookup t) (pos + 1) len pos = lookup t"
        using eq by (auto simp: moved_def fun_eq_iff split: lua_key.split)
      moreover have "i64_range pos (len - 1) = []" using eq len l1 by (simp add: i64_range_def)
      moreover have "tables_ready {g} 1 st" using positions.ready_less [OF ready] by simp
      ultimately show ?thesis using view by (simp add: lreturn_def)
    next
      case neq: False
      have p1: "sint (pos + 1) = sint pos + 1" using True len l53 by (intro sint_plus [of pos 1, simplified]) auto
      have r: "move_range (pos + 1) len pos" using True neq np len l53 p1 by (auto simp: move_range_def near_def)
      let ?os = "map (\<lambda>i. i + 1) (i64_range pos (len - 1))"
      have plus: "sint (i + 1) = sint i + 1" if "i \<in> set (i64_range pos (len - 1))" for i
        using that l1 l53 True by (intro sint_plus [of i 1, simplified]) (auto simp: set_i64_range)
      have os: "set ?os = set (i64_range (pos + 1) len)"
      proof -
        have "k - 1 \<in> set (i64_range pos (len - 1))" if "k \<in> set (i64_range (pos + 1) len)" for k
          using that sint_minus [of k 1] p1 l1 len l53 True by (auto simp: set_i64_range)
        then have "set (i64_range (pos + 1) len) \<subseteq> set ?os" by (force simp: image_iff)
        moreover have "set ?os \<subseteq> set (i64_range (pos + 1) len)" using plus p1 l1 len by (auto simp: set_i64_range)
        ultimately show ?thesis by blast
      qed
      have "\<forall>pre k post. ?os = pre @ k # post \<longrightarrow> k \<notin> (\<lambda>k. pos + (k - (pos + 1))) ` set pre"
      proof (intro allI impI notI)
        fix pre k post assume o: "?os = pre @ k # post" and "k \<in> (\<lambda>k. pos + (k - (pos + 1))) ` set pre"
        then obtain l where l: "l \<in> set pre" "k = l - 1" by auto
        obtain us k' vs where r': "i64_range pos (len - 1) = us @ k' # vs" "k = k' + 1" "pre = map (\<lambda>i. i + 1) us"
          using o by (auto simp: map_eq_append_conv map_eq_Cons_conv)
        then obtain l' where l': "l' \<in> set us" "l = l' + 1" using l(1) by auto
        then have "l' = k' + 1" using l(2) r'(2) by simp
        then show False using range_order(1) [OF r'(1) l'(1)] plus [of k'] r'(1) by simp
      qed
      moreover have "nat (sint len - sint (pos + 1) + 1) \<le> n" using True len p1 by linarith
      moreover have "distinct ?os" by (simp add: distinct_map distinct_i64_range)
      moreover have "lfor (\<lambda>i. lbind (get_index g i) (\<lambda>v. set_index g (pos + (i - (pos + 1))) v)) ?os = ?loop"
        by (simp add: lfor_map)
      ultimately show ?thesis using shift_loop [OF r, of g n 1 st ?os] ready os view by auto
    qed
    then obtain st1 where 1: "?loop st = (Inr (), st1)" "tables_ready {g} 1 st1" "table_view st1 g = moved (lookup t) (lookup t) (pos + 1) len pos"
      by blast
    obtain st2 where 2: "set_index g len LNil st1 = (Inr (), st2)" "table_view st2 g = (table_view st1 g)(Key_Integer len := LNil)"
      using set_index_ready [of "{g}" 0 st1 g len LNil] 1(2) np(2) by auto
    have get: "get_index g pos st = (Inr (lookup t (Key_Integer pos)), st)" using get_index_ready [OF ready, of g pos] np(1) view by simp
    have "table_remove args st = (Inr [lookup t (Key_Integer pos)], st2)"
      using True by (simp add: start lbind_ok [where m = "require_writable g" and st = st and x = "()" and ?st1.0 = st] writable
          lbind_ok [where m = "get_index g pos" and st = st and x = "lookup t (Key_Integer pos)" and ?st1.0 = st] get
          lbind_ok [where m = ?loop and st = st and x = "()" and ?st1.0 = st1] 1(1)
          lbind_ok [where m = "set_index g len LNil" and st = st1 and x = "()" and ?st1.0 = st2] 2(1) lreturn_def)
    then show ?thesis using True 1(3) 2(2) by auto
  qed
qed

theorem table_remove_exact_witness:
  "\<exists>st'. table_remove [LTable (RawGc 0 0 0), LInteger 1] demo_state = (Inr [LBoolean True], st') \<and>
     table_view st' (RawGc 0 0 0) (Key_Integer 1) = LBoolean False"
proof -
  let ?t = "with_array [LBoolean True, LBoolean False]"
  have "table_size ?t + unat (2 :: i64) + 2 < array_bound" and w: "\<not> lt_readonly ?t"
    by (simp_all add: table_size_def live_slots_def array_bound_def with_array_def table_new_def)
  from table_remove_exact [OF refl _ demo_state_table with_array_ok demo_state_length this(1), of "LInteger 1" 1] w
  obtain st' where "table_remove [LTable (RawGc 0 0 0), LInteger 1] demo_state = (Inr [lookup ?t (Key_Integer 1)], st')"
    "table_view st' (RawGc 0 0 0) = (moved (lookup ?t) (lookup ?t) 2 2 1)(Key_Integer 2 := LNil)"
    by (auto simp: arg_int_def get_def)
  moreover have "lookup ?t (Key_Integer 1) = LBoolean True" "lookup ?t (Key_Integer 2) = LBoolean False"
    using lookup_array [of 0 ?t] lookup_array [of 1 ?t] by (simp_all add: with_array_def table_new_def)
  ultimately show ?thesis by (auto simp: moved_def)
qed

text \<open>
  C26: \<^verbatim>\<open>table.unpack\<close> always ends when its last position is not the largest \<^verbatim>\<open>i64\<close>. It returns the values at
  the positions of the range, in order and no more than the limit on elements allows, or it stops with
  one of its three errors before it reads anything; the heap is as before.
\<close>

theorem table_unpack_ends:
  assumes "arg_value args 0 = LTable g" "heap_table (ls_heap st) g = Some t" "table_ok t" "table_length t = Some len"
    and "i = (case arg_int args 1 of Some i \<Rightarrow> i | None \<Rightarrow> 1)" "j = (case arg_int args 2 of Some j \<Rightarrow> j | None \<Rightarrow> len)"
    and "sint j < 2 ^ 63 - 1"
  shows "\<exists>r st'. table_unpack env args st = Some (r, st') \<and> ls_heap st' = ls_heap st \<and>
    (case r of
       Inr vs \<Rightarrow> map Some vs = map (\<lambda>k. table_get t (LNumber (f64_of_i64 k))) (i64_range i j) \<and>
         length vs \<le> le_max_table_elements env
     | Inl e \<Rightarrow> e \<in> {Lib_Err ''too many results to unpack'', Lib_Memory_Limit, Lib_Gas})"
proof -
  let ?count = "usize_try_from_i64 (j - i + 1)"
  have tl: "table_len g st = (Inr len, st)" using assms(2,4) by (simp add: table_len_def lvalue_def)
  have read_at: "(case get_index g k st1 of (Inl _, _) \<Rightarrow> None | (Inr v, _) \<Rightarrow> Some v) = table_get t (LNumber (f64_of_i64 k))"
    "table_get t (LNumber (f64_of_i64 k)) \<noteq> None" if "ls_heap st1 = ls_heap st" for st1 k
    using that assms(2,3) table_get_lookup [of t] by (auto simp: get_index_def lvalue_def split: option.splits)
  have count: "length (i64_range i j) \<le> ?count" if "sint i \<le> sint j"
    using that unpack_count assms(7) by simp
  have start: "table_unpack env args st =
      (if sint j < sint i then Some (Inr [], st)
       else if le_max_table_elements env < ?count then Some (Inl (Lib_Err ''too many results to unpack''), st)
       else if le_would_exceed_cap env (min (?count * le_value_size env) (2 ^ 64 - 1)) then Some (Inl Lib_Memory_Limit, st)
       else case spend_gas (of_nat ?count) st of
          (Inl e, st1) \<Rightarrow> Some (Inl e, st1)
        | (Inr _, st1) \<Rightarrow> map_option (\<lambda>r. (r, st1))
            (table_unpack_loop (\<lambda>k. case get_index g k st1 of (Inl _, _) \<Rightarrow> None | (Inr v, _) \<Rightarrow> Some v) i j []))"
    using assms(1) unfolding table_unpack_def assms(5) [symmetric] arg_table_def
    by (simp add: lbind_ok [where m = "table_len g" and st = st and x = len and ?st1.0 = st] tl Let_def assms(6) [symmetric]
        lreturn_def lfail_def lbind_def split: prod.splits sum.splits)
  show ?thesis
  proof (cases "sint j < sint i \<or> le_max_table_elements env < ?count \<or> le_would_exceed_cap env (min (?count * le_value_size env) (2 ^ 64 - 1))")
    case True
    then show ?thesis by (auto simp: start i64_range_def)
  next
    case False
    obtain r st1 where gas: "spend_gas (of_nat ?count) st = (r, st1)" by fastforce
    then have st1: "ls_heap st1 = ls_heap st" "\<And>e. r = Inl e \<Longrightarrow> e = Lib_Gas"
      by (auto simp: spend_gas_def split: prod.splits if_splits)
    from unpack_loop_exact [OF assms(7), of i "\<lambda>k. table_get t (LNumber (f64_of_i64 k))" "[]"] read_at(2) [OF refl]
    obtain vs where "table_unpack_loop (\<lambda>k. table_get t (LNumber (f64_of_i64 k))) i j [] = Some (Inr vs)"
      and vs: "map Some vs = map (\<lambda>k. table_get t (LNumber (f64_of_i64 k))) (i64_range i j)" by auto
    then show ?thesis using False gas st1 count read_at(1) [OF st1(1)] map_eq_imp_length_eq [OF vs]
      by (cases r) (auto simp: start)
  qed
qed

theorem table_unpack_ends_witness:
  "\<exists>r st'. table_unpack demo_lib_env [LTable (RawGc 0 0 0)] demo_state = Some (r, st')"
proof -
  have "sint (2 :: i64) < 2 ^ 63 - 1" by simp
  from table_unpack_ends [OF _ demo_state_table with_array_ok demo_state_length refl refl, of "[LTable (RawGc 0 0 0)]" demo_lib_env] this
  show ?thesis by (auto simp: arg_value_def arg_int_def get_def)
qed

text \<open>
  What the proviso leaves out: a range of one position, the largest, passes every limit and is then
  read for ever.
\<close>

lemma table_unpack_wraps:
  "table_unpack demo_lib_env [LTable (RawGc 0 0 0), LInteger (2 ^ 63 - 1), LInteger (2 ^ 63 - 1)] demo_state = None"
proof -
  let ?t = "with_array [LBoolean True, LBoolean False]"
  have "table_get ?t (LNumber (f64_of_i64 k)) \<noteq> None" for k using table_get_lookup [of ?t] with_array_ok by simp
  then have "table_unpack_loop (\<lambda>k. case get_index (RawGc 0 0 0) k st of (Inl _, _) \<Rightarrow> None | (Inr v, _) \<Rightarrow> Some v) i (2 ^ 63 - 1) [] = None"
    if "ls_heap st = ls_heap demo_state" for st i
    using that demo_state_table by (intro unpack_loop_wraps) (auto simp: get_index_def lvalue_def split: option.split)
  moreover have "table_len (RawGc 0 0 0) demo_state = (Inr 2, demo_state)"
    using demo_state_length demo_state_table by (simp add: table_len_def lvalue_def)
  moreover have "spend_gas 1 demo_state = (Inr (), demo_state\<lparr>ls_meter := snd (charge_gas 1 demo_meter)\<rparr>)"
    by (simp add: spend_gas_def demo_state_def demo_meter_def charge_gas_def Let_def split: prod.split)
  ultimately show ?thesis
    by (simp add: table_unpack_def arg_table_def arg_value_def arg_int_def get_def lbind_def lreturn_def Let_def usize_try_from_i64_def
        demo_lib_env_def)
qed

end
