(* ===== verification/Module_Paths.thy ===== *)
theory Module_Paths
  imports Prelude "HOL-Library.Sublist"
begin

text \<open>
  Module names and paths: normalisation and requests of \<^verbatim>\<open>ruau-source/src/lib.rs\<close>, the checks and candidate
  paths of \<^verbatim>\<open>ruau-filesystem/src/lib.rs\<close>. A string is the list of its UTF-8 bytes; everything the source
  compares or splits at is ASCII. Platform paths are those of Unix. \<open>place\<close> says what a path means.
\<close>

section \<open>Text\<close>

definition is_separator :: "char \<Rightarrow> bool" where
  "is_separator c \<longleftrightarrow> c = CHR ''/'' \<or> c = CHR 0x5c"

primrec split_on :: "(char \<Rightarrow> bool) \<Rightarrow> string \<Rightarrow> string list" where
  "split_on sep [] = [[]]"
| "split_on sep (c # cs) =
     (if sep c then [] # split_on sep cs else (c # hd (split_on sep cs)) # tl (split_on sep cs))"

definition split_slash :: "string \<Rightarrow> string list" where
  "split_slash = split_on (\<lambda>c. c = CHR ''/'')"

fun join_slash :: "string list \<Rightarrow> string" where
  "join_slash [] = []"
| "join_slash [w] = w"
| "join_slash (w # v # vs) = w @ CHR ''/'' # join_slash (v # vs)"

definition strip_prefix :: "string \<Rightarrow> string \<Rightarrow> string option" where
  "strip_prefix s p = (if prefix p s then Some (drop (length p) s) else None)"

definition strip_suffix :: "string \<Rightarrow> string \<Rightarrow> string option" where
  "strip_suffix s p = (if suffix p s then Some (take (length s - length p) s) else None)"

definition trim_end_slashes :: "string \<Rightarrow> string" where
  "trim_end_slashes s = rev (dropWhile (\<lambda>c. c = CHR ''/'') (rev s))"

text \<open>\<^verbatim>\<open>rsplit_once("/")\<close> followed by the choice of the front: all before the last slash.\<close>

definition before_last_slash :: "string \<Rightarrow> string" where
  "before_last_slash s = join_slash (butlast (split_slash s))"

definition is_ascii_alphabetic :: "char \<Rightarrow> bool" where
  "is_ascii_alphabetic c \<longleftrightarrow>
     (65 \<le> (of_char c :: nat) \<and> (of_char c :: nat) \<le> 90) \<or> (97 \<le> (of_char c :: nat) \<and> (of_char c :: nat) \<le> 122)"

section \<open>Normalisation\<close>

definition has_windows_drive_prefix :: "string \<Rightarrow> bool" where
  "has_windows_drive_prefix s \<longleftrightarrow> (case s of a # b # _ \<Rightarrow> is_ascii_alphabetic a \<and> b = CHR '':'' | _ \<Rightarrow> False)"

definition is_absolute_path :: "string \<Rightarrow> bool" where
  "is_absolute_path path \<longleftrightarrow>
     (case path of a # b # c # _ \<Rightarrow> is_ascii_alphabetic a \<and> b = CHR '':'' \<and> is_separator c | _ \<Rightarrow> False) \<or>
     (case path of c # _ \<Rightarrow> is_separator c | [] \<Rightarrow> False)"

text \<open>The loop body of \<^verbatim>\<open>normalize_path\<close>, its arms in order.\<close>

definition normalize_step :: "bool \<Rightarrow> string list \<Rightarrow> string \<Rightarrow> string list" where
  "normalize_step is_absolute normalized component =
     (if component = ''..'' \<and> normalized = [] \<and> \<not> is_absolute then normalized @ [''..'']
      else if component = ''..'' \<and> normalized \<noteq> [] \<and> last normalized = ''..'' then normalized @ [''..'']
      else if component = ''..'' \<and> normalized \<noteq> [] then butlast normalized
      else if component = ''..'' \<and> is_absolute then normalized
      else if component = [] \<or> component = ''.'' then normalized
      else normalized @ [component])"

definition normalize_path :: "string \<Rightarrow> string" where
  "normalize_path path =
     (let components = split_on is_separator path;
          is_absolute = is_absolute_path path;
          normalized_components =
            foldl (normalize_step is_absolute) [] (drop (if is_absolute then 1 else 0) components);
          front = (if is_absolute then hd components @ ''/''
                   else if normalized_components \<noteq> [] \<and> hd normalized_components = ''..'' then []
                   else ''./'');
          normalized = front @ join_slash normalized_components
      in if suffix ''..'' normalized then normalized @ ''/'' else normalized)"

definition strip_source_extension :: "string \<Rightarrow> string option" where
  "strip_source_extension name =
     (case strip_suffix name ''.luau'' of Some s \<Rightarrow> Some s | None \<Rightarrow> strip_suffix name ''.lua'')"

text \<open>\<^verbatim>\<open>ModuleName::normalize\<close>, \<^verbatim>\<open>join\<close> and \<^verbatim>\<open>parent\<close>.\<close>

definition module_normalize :: "string \<Rightarrow> string" where
  "module_normalize name =
     (let normalized = normalize_path name;
          trimmed = (case strip_prefix normalized ''./'' of Some s \<Rightarrow> s | None \<Rightarrow> normalized);
          trimmed = (case strip_source_extension trimmed of Some s \<Rightarrow> s | None \<Rightarrow> trimmed)
      in trim_end_slashes trimmed)"

definition module_join :: "string \<Rightarrow> string \<Rightarrow> string" where
  "module_join lhs rhs = (if lhs = [] then module_normalize rhs else module_normalize (lhs @ ''/'' @ rhs))"

definition module_parent :: "string \<Rightarrow> string" where
  "module_parent name = before_last_slash name"

definition join_paths :: "string \<Rightarrow> string \<Rightarrow> string" where
  "join_paths lhs rhs = (if lhs \<noteq> [] \<and> \<not> is_separator (last lhs) then lhs @ ''/'' else lhs) @ rhs"

definition parent_path :: "string \<Rightarrow> string option" where
  "parent_path path =
     (if path \<in> {[], ''.'', ''/''} then None
      else if \<forall>c \<in> set path. \<not> is_separator c then Some []
      else
        (let front = rev (tl (dropWhile (\<lambda>c. \<not> is_separator c) (rev path)))
         in Some (if front = [] then ''/'' else front)))"

definition resolve_path :: "string \<Rightarrow> string \<Rightarrow> string option" where
  "resolve_path path base_file_path =
     map_option (\<lambda>parent. normalize_path (join_paths parent path)) (parent_path base_file_path)"

definition is_relative_request :: "string \<Rightarrow> bool" where
  "is_relative_request request \<longleftrightarrow>
     request = ''.'' \<or> request = ''..'' \<or> prefix ''./'' request \<or> prefix ''../'' request \<or>
     prefix (''.'' @ [CHR 0x5c]) request \<or> prefix (''..'' @ [CHR 0x5c]) request"

section \<open>Module files\<close>

text \<open>\<^verbatim>\<open>Path::components\<close> of Unix: empty and later dot components are dropped.\<close>

datatype path_component = Root_Dir | Cur_Dir | Parent_Dir | Normal_Name string

definition component_of :: "string \<Rightarrow> path_component" where
  "component_of s = (if s = ''..'' then Parent_Dir else if s = ''.'' then Cur_Dir else Normal_Name s)"

definition path_components :: "string \<Rightarrow> path_component list" where
  "path_components path =
     (let parts = split_slash path in
      (if hd parts = [] \<and> path \<noteq> [] then [Root_Dir] else if hd parts = ''.'' then [Cur_Dir] else []) @
      map component_of (filter (\<lambda>s. s \<noteq> [] \<and> s \<noteq> ''.'') parts))"

definition file_name :: "string \<Rightarrow> string option" where
  "file_name path =
     (case rev (path_components path) of Normal_Name s # _ \<Rightarrow> Some s | _ \<Rightarrow> None)"

text \<open>\<^verbatim>\<open>Path::extension\<close>: behind the last dot of the file name, unless that dot is its first byte.\<close>

definition extension :: "string \<Rightarrow> string option" where
  "extension path =
     (case file_name path of
        None \<Rightarrow> None
      | Some name \<Rightarrow>
          let parts = split_on (\<lambda>c. c = CHR ''.'') name in
          if length parts < 2 \<or> (length parts = 2 \<and> hd parts = []) then None else Some (last parts))"

definition module_name_escapes_root :: "string \<Rightarrow> bool" where
  "module_name_escapes_root name \<longleftrightarrow>
     (\<exists>c \<in> set (path_components name). c = Root_Dir \<or> c = Parent_Dir) \<or>
     (\<exists>component \<in> set (filter (\<lambda>s. s \<noteq> []) (split_on is_separator name)).
        component = ''..'' \<or> suffix '':'' component \<or> has_windows_drive_prefix component)"

definition is_direct_init_module :: "string \<Rightarrow> bool" where
  "is_direct_init_module name \<longleftrightarrow> last (split_slash name) = ''init''"

text \<open>Components have no slash, so that pushing them one by one joins them.\<close>

definition module_name_to_path :: "string \<Rightarrow> string" where
  "module_name_to_path name = join_slash (filter (\<lambda>s. s \<noteq> []) (split_slash name))"

definition path_join :: "string \<Rightarrow> string \<Rightarrow> string" where
  "path_join base name =
     (if base = [] then name else if last base = CHR ''/'' then base @ name else base @ ''/'' @ name)"

definition has_source_extension :: "string \<Rightarrow> bool" where
  "has_source_extension path \<longleftrightarrow> extension path = Some ''luau'' \<or> extension path = Some ''lua''"

definition append_extension :: "string \<Rightarrow> string \<Rightarrow> string" where
  "append_extension path ext = path @ ''.'' @ ext"

definition source_file_candidates :: "string \<Rightarrow> string list" where
  "source_file_candidates base =
     (if has_source_extension base then [base] else [append_extension base ''luau'', append_extension base ''lua''])"

definition init_file_candidates :: "string \<Rightarrow> string list" where
  "init_file_candidates base = [path_join base ''init.luau'', path_join base ''init.lua'']"

definition config_search_directories :: "string \<Rightarrow> string list" where
  "config_search_directories parent =
     map join_slash (prefixes (filter (\<lambda>s. s \<noteq> []) (split_slash parent)))"

end
