(* ===== verification/Path_Meaning.thy ===== *)
theory Path_Meaning
  imports Module_Paths
begin

text \<open>
  What a path means: a place reached by entering its components one by one, relative to where one
  stands or to a root. \<^verbatim>\<open>normalize_path\<close> prints the place of its argument, so that two paths have the same
  normal form exactly when they mean the same place.
\<close>

section \<open>Splitting and joining\<close>

lemma split_on_nonempty [simp]: "split_on sep s \<noteq> []"
  by (induction s) auto

lemma split_on_none: "\<forall>c \<in> set s. \<not> sep c \<Longrightarrow> split_on sep s = [s]"
  by (induction s) auto

lemma split_on_append: "sep c \<Longrightarrow> split_on sep (a @ c # b) = split_on sep a @ split_on sep b"
  by (induction a) auto

lemma split_on_parts: "w \<in> set (split_on sep s) \<Longrightarrow> c \<in> set w \<Longrightarrow> \<not> sep c"
proof (induction s arbitrary: w)
  case (Cons d s)
  have "hd (split_on sep s) \<in> set (split_on sep s)" "set (tl (split_on sep s)) \<subseteq> set (split_on sep s)"
    using set_drop_subset [of 1 "split_on sep s"] by (simp_all add: drop_Suc)
  moreover from this(1) have "c \<in> set (hd (split_on sep s)) \<Longrightarrow> \<not> sep c" using Cons.IH Cons.prems(2) by blast
  ultimately show ?case using Cons by (auto split: if_splits)
qed simp

lemma split_join:
  assumes "ws \<noteq> []" "sep (CHR ''/'')" "\<forall>w \<in> set ws. \<forall>c \<in> set w. \<not> sep c"
  shows "split_on sep (join_slash ws) = ws"
  using assms by (induction ws rule: join_slash.induct) (auto simp: split_on_none split_on_append)

lemma hd_split_on_front: "sep c \<Longrightarrow> hd (split_on sep (a @ c # b)) = hd (split_on sep a)"
  by (simp add: split_on_append hd_append)

lemma separator_slash [simp]: "is_separator (CHR ''/'')" "\<not> is_separator (CHR ''.'')" "\<not> is_separator (CHR '':'')"
  by (simp_all add: is_separator_def)

section \<open>Places\<close>

datatype place = Place (place_root: "string option") (place_ups: nat) (place_names: "string list")

fun enter :: "place \<Rightarrow> string \<Rightarrow> place" where
  "enter (Place r u ns) s =
     (if s = [] \<or> s = ''.'' then Place r u ns
      else if s \<noteq> ''..'' then Place r u (ns @ [s])
      else if ns \<noteq> [] then Place r u (butlast ns)
      else if r = None then Place r (u + 1) []
      else Place r u [])"

definition walk :: "place \<Rightarrow> string list \<Rightarrow> place" where
  "walk = foldl enter"

definition place_of :: "string \<Rightarrow> place" where
  "place_of path =
     (let components = split_on is_separator path in
      if is_absolute_path path then walk (Place (Some (hd components)) 0 []) (tl components)
      else walk (Place None 0 []) components)"

text \<open>How a place is written.\<close>

definition place_components :: "place \<Rightarrow> string list" where
  "place_components x = replicate (place_ups x) ''..'' @ place_names x"

definition place_front :: "place \<Rightarrow> string" where
  "place_front x = (case place_root x of Some d \<Rightarrow> d @ ''/'' | None \<Rightarrow> if 0 < place_ups x then [] else ''./'')"

definition place_text :: "place \<Rightarrow> string" where
  "place_text x =
     (let s = place_front x @ join_slash (place_components x) in if suffix ''..'' s then s @ ''/'' else s)"

definition plain_name :: "string \<Rightarrow> bool" where
  "plain_name s \<longleftrightarrow> s \<notin> {[], ''.'', ''..''} \<and> (\<forall>c \<in> set s. \<not> is_separator c)"

text \<open>The root of an absolute path is empty or a drive.\<close>

definition root_text :: "string \<Rightarrow> bool" where
  "root_text d \<longleftrightarrow> d = [] \<or> (\<exists>a. is_ascii_alphabetic a \<and> d = [a, CHR '':''])"

definition place_ok :: "place \<Rightarrow> bool" where
  "place_ok x \<longleftrightarrow> (\<forall>s \<in> set (place_names x). plain_name s) \<and>
     (case place_root x of None \<Rightarrow> True | Some d \<Rightarrow> place_ups x = 0 \<and> root_text d)"

lemma walk_simps [simp]: "walk x [] = x" "walk x (s # ss) = walk (enter x s) ss"
  by (simp_all add: walk_def)

lemma walk_append: "walk x (ss @ ts) = walk (walk x ss) ts"
  by (simp add: walk_def)

lemma walk_names:
  assumes "\<forall>s \<in> set ss. plain_name s"
  shows "walk (Place r u ns) ss = Place r u (ns @ ss)"
  using assms by (induction ss arbitrary: ns) (auto simp: plain_name_def)

lemma walk_ups: "walk (Place None u []) (replicate n ''..'') = Place None (u + n) []"
  by (induction n arbitrary: u) auto

lemma enter_ok:
  assumes "place_ok x" "\<forall>c \<in> set s. \<not> is_separator c"
  shows "place_ok (enter x s)" "place_root (enter x s) = place_root x"
  using assms by (cases x; auto simp: place_ok_def plain_name_def dest: in_set_butlastD split: option.splits)+

lemma walk_ok:
  assumes "place_ok x" "\<forall>s \<in> set ss. \<forall>c \<in> set s. \<not> is_separator c"
  shows "place_ok (walk x ss)"
  using assms by (induction ss arbitrary: x) (simp_all add: enter_ok)

lemma walk_root:
  assumes "place_ok x" "\<forall>s \<in> set ss. \<forall>c \<in> set s. \<not> is_separator c"
  shows "place_root (walk x ss) = place_root x"
  using assms by (induction ss arbitrary: x) (simp_all add: enter_ok)

lemma leads_up:
  assumes "place_ok x"
  shows "place_components x \<noteq> [] \<and> hd (place_components x) = ''..'' \<longleftrightarrow> 0 < place_ups x"
  using assms by (cases "place_ups x"; cases "place_names x") (auto simp: place_components_def place_ok_def plain_name_def)

lemma absolute_root:
  assumes "is_absolute_path path"
  shows "root_text (hd (split_on is_separator path))"
  using assms by (auto simp: is_absolute_path_def root_text_def split: list.splits if_splits)

lemma place_of_ok: "place_ok (place_of path)"
proof -
  have parts: "\<forall>s \<in> set (split_on is_separator path). \<forall>c \<in> set s. \<not> is_separator c" using split_on_parts by blast
  then have rest: "\<forall>s \<in> set (tl (split_on is_separator path)). \<forall>c \<in> set s. \<not> is_separator c" by (meson list.set_sel(2) split_on_nonempty)
  have "is_absolute_path path \<Longrightarrow> place_ok (Place (Some (hd (split_on is_separator path))) 0 [])" "place_ok (Place None 0 [])"
    using absolute_root by (simp_all add: place_ok_def)
  then show ?thesis using walk_ok [OF _ parts] walk_ok [OF _ rest] by (simp add: place_of_def Let_def)
qed

section \<open>Normal forms\<close>

lemma normalize_step_enter:
  assumes "place_ok x"
  shows "normalize_step (place_root x \<noteq> None) (place_components x) s = place_components (enter x s)"
proof (cases x)
  case (Place r u ns)
  have ns: "last ns \<noteq> ''..''" if "ns \<noteq> []" using assms Place last_in_set [OF that] by (auto simp: place_ok_def plain_name_def)
  have u: "r \<noteq> None \<Longrightarrow> u = 0" using assms Place by (auto simp: place_ok_def)
  have l: "replicate u ''..'' = [] \<or> last (replicate u ''..'') = ''..''" by (cases u) (simp_all add: last_replicate)
  consider "s = ''..''" "ns \<noteq> []" | "s = ''..''" "ns = []" | "s \<noteq> ''..''" by blast
  then show ?thesis
  proof cases
    case 1
    then show ?thesis using ns by (simp add: Place place_components_def normalize_step_def butlast_append)
  next
    case 2
    then show ?thesis using u l
      by (cases r; cases u) (simp_all add: Place place_components_def normalize_step_def replicate_append_same)
  next
    case 3
    then show ?thesis by (simp add: Place place_components_def normalize_step_def)
  qed
qed

lemma normalize_fold:
  assumes "place_ok x" "\<forall>s \<in> set ss. \<forall>c \<in> set s. \<not> is_separator c"
  shows "foldl (normalize_step (place_root x \<noteq> None)) (place_components x) ss = place_components (walk x ss)"
  using assms
proof (induction ss arbitrary: x)
  case (Cons s ss)
  then show ?case using normalize_step_enter [OF Cons.prems(1), of s] enter_ok [OF Cons.prems(1), of s] Cons.IH [of "enter x s"] by simp
qed simp

lemma normalize_path_place: "normalize_path path = place_text (place_of path)"
proof -
  let ?cs = "split_on is_separator path"
  have parts: "\<forall>s \<in> set ?cs. \<forall>c \<in> set s. \<not> is_separator c" using split_on_parts by blast
  then have rest: "\<forall>s \<in> set (tl ?cs). \<forall>c \<in> set s. \<not> is_separator c" by (meson list.set_sel(2) split_on_nonempty)
  show ?thesis
  proof (cases "is_absolute_path path")
    case True
    let ?x = "Place (Some (hd ?cs)) 0 []"
    have ok: "place_ok ?x" using absolute_root [OF True] by (simp add: place_ok_def)
    have "foldl (normalize_step True) [] (tl ?cs) = place_components (walk ?x (tl ?cs))"
      using normalize_fold [OF ok rest] by (simp add: place_components_def)
    then show ?thesis using True walk_root [OF ok rest]
      by (simp add: normalize_path_def place_text_def place_of_def place_front_def Let_def drop_Suc)
  next
    case False
    let ?x = "walk (Place None 0 []) ?cs"
    have ok: "place_ok (Place None 0 [])" by (simp add: place_ok_def)
    have "foldl (normalize_step False) [] ?cs = place_components ?x"
      using normalize_fold [OF ok parts] by (simp add: place_components_def)
    moreover have "place_components ?x \<noteq> [] \<and> hd (place_components ?x) = ''..'' \<longleftrightarrow> 0 < place_ups ?x"
      using walk_ok [OF ok parts] by (rule leads_up)
    moreover have "place_root ?x = None" using walk_root [OF ok parts] by simp
    ultimately show ?thesis using False
      by (simp add: normalize_path_def place_text_def place_of_def place_front_def Let_def)
  qed
qed

text \<open>A written place is read back.\<close>

lemma enter_empty [simp]: "enter x [] = x"
  by (cases x) simp

lemma walk_split_join:
  assumes "\<forall>s \<in> set ss. \<forall>c \<in> set s. \<not> is_separator c"
  shows "walk x (split_on is_separator (join_slash ss)) = walk x ss"
  using split_join [OF _ separator_slash(1) assms] by (cases "ss = []") auto

lemma dotted_relative [simp]: "\<not> is_absolute_path (CHR ''.'' # s)"
  by (auto simp: is_absolute_path_def is_ascii_alphabetic_def split: list.splits)

lemma join_slash_Cons: "\<exists>s. join_slash ((c # w) # ws) = c # s"
  by (cases ws) auto

lemma place_text_relative:
  assumes "place_ok x" "place_root x = None"
  obtains s where "place_front x @ join_slash (place_components x) = CHR ''.'' # s"
    "walk (Place None 0 []) (split_on is_separator (CHR ''.'' # s)) = x"
proof -
  obtain u ns where x: "x = Place None u ns" using assms(2) by (cases x) auto
  have ns: "\<forall>s \<in> set ns. plain_name s" using assms(1) x by (simp add: place_ok_def)
  then have cs: "\<forall>s \<in> set (place_components x). \<forall>c \<in> set s. \<not> is_separator c"
    by (auto simp: x place_components_def plain_name_def)
  show thesis
  proof (cases "u = 0")
    case True
    have dot: "split_on is_separator (CHR ''.'' # CHR ''/'' # join_slash ns) = ''.'' # split_on is_separator (join_slash ns)" by simp
    have names: "walk (Place None 0 []) (split_on is_separator (join_slash ns)) = x"
      using cs True walk_names [OF ns] by (simp add: walk_split_join x place_components_def)
    have "walk (Place None 0 []) (split_on is_separator (CHR ''.'' # CHR ''/'' # join_slash ns)) = x"
      unfolding dot using names by simp
    moreover have "place_front x @ join_slash (place_components x) = CHR ''.'' # CHR ''/'' # join_slash ns"
      using True by (simp add: x place_front_def place_components_def)
    ultimately show thesis using that by blast
  next
    case False
    then obtain v where u: "u = Suc v" by (cases u) auto
    then have "place_components x = (CHR ''.'' # ''.'') # replicate v ''..'' @ ns" by (simp add: x place_components_def)
    then obtain s where s: "join_slash (place_components x) = CHR ''.'' # s" using join_slash_Cons by metis
    have "walk (Place None 0 []) (place_components x) = x"
      using walk_ups [of 0 u] walk_names [OF ns] by (simp add: x place_components_def walk_append)
    then have "walk (Place None 0 []) (split_on is_separator (CHR ''.'' # s)) = x"
      using walk_split_join [OF cs, of "Place None 0 []"] unfolding s by (rule trans [rotated])
    moreover have "place_front x = []" using False by (simp add: x place_front_def)
    ultimately show thesis using that [of s] s by simp
  qed
qed

lemma place_of_text:
  assumes "place_ok x"
  shows "place_of (place_text x) = x"
proof (cases "place_root x")
  case None
  from place_text_relative [OF assms None] obtain s where
    "place_front x @ join_slash (place_components x) = CHR ''.'' # s"
    "walk (Place None 0 []) (split_on is_separator (CHR ''.'' # s)) = x" by blast
  then show ?thesis using split_on_append [of is_separator "CHR ''/''" "CHR ''.'' # s" "[]"]
    by (simp add: place_text_def place_of_def Let_def walk_append del: split_on.simps(2))
next
  case (Some d)
  then obtain ns where x: "x = Place (Some d) 0 ns" using assms by (cases x) (auto simp: place_ok_def)
  have ns: "\<forall>s \<in> set ns. plain_name s" and d: "root_text d" using assms x by (simp_all add: place_ok_def)
  have abs: "is_absolute_path (d @ CHR ''/'' # s)" for s using d by (auto simp: root_text_def is_absolute_path_def)
  have "\<forall>c \<in> set d. \<not> is_separator c" using d by (auto simp: root_text_def is_separator_def is_ascii_alphabetic_def)
  then have split_d: "split_on is_separator (d @ CHR ''/'' # s) = d # split_on is_separator s" for s
    using split_on_append [of is_separator "CHR ''/''" d s] by (simp add: split_on_none)
  have "\<forall>s \<in> set ns. \<forall>c \<in> set s. \<not> is_separator c" using ns by (simp add: plain_name_def)
  then have "walk (Place (Some d) 0 []) (split_on is_separator (join_slash ns)) = x"
    using walk_names [OF ns] by (simp add: walk_split_join x)
  moreover have "split_on is_separator (join_slash ns @ ''/'') = split_on is_separator (join_slash ns) @ [[]]"
    using split_on_append [of is_separator "CHR ''/''" "join_slash ns" "[]"] by simp
  ultimately show ?thesis using abs split_d
    by (simp add: x place_text_def place_front_def place_components_def place_of_def Let_def walk_append)
qed

section \<open>Claims\<close>

text \<open>
  C24: \<^verbatim>\<open>normalize_path\<close> returns a path that means the same place as its argument, and two paths have the same
  normal form exactly when they mean the same place. In particular a normal form is its own.
\<close>

theorem normalize_path_exact:
  "place_of (normalize_path path) = place_of path \<and>
   (normalize_path path = normalize_path other \<longleftrightarrow> place_of path = place_of other)"
  using place_of_text [OF place_of_ok] by (metis normalize_path_place)

text \<open>
  Removing the extension is not part of that: a name with two of them is normalised differently the
  second time, and a name of dots becomes the parent directory.
\<close>

lemma module_normalize_again:
  "module_normalize ''a.lua.lua'' = ''a.lua''" "module_normalize ''a.lua'' = ''a''" "module_normalize ''...lua'' = ''..''"
  by (simp_all add: module_normalize_def normalize_path_def is_absolute_path_def is_separator_def is_ascii_alphabetic_def
      normalize_step_def strip_prefix_def strip_source_extension_def strip_suffix_def suffix_def trim_end_slashes_def Let_def)

end
