(* ===== verification/Module_Files.thy ===== *)
theory Module_Files
  imports Path_Meaning
begin

text \<open>
  How \<^verbatim>\<open>ruau-filesystem/src/lib.rs\<close> finds the file of a module and the configuration above it. Opening a
  file below the root is a parameter, as are the parsers of configuration files. The theorem says that
  the parameter is only ever asked for paths that stay below the root.
\<close>

section \<open>Opening modules\<close>

datatype 'f io_result = Opened 'f | Not_A_File | Not_Found string | Io_Failed string

datatype resolver_error =
    Missing_Module string "string option"
  | Ambiguous_Module string string
  | Unresolvable_Relative_Request string
  | Invalid_Alias string string
  | Init_File_Required_Directly string
  | Module_Escapes_Root string
  | Config_Ambiguity string
  | Config_Error string string
  | Source_Provider "string option" string
  | Resolver_Io string string

record 'f opened_source =
  os_module :: string
  os_display_path :: string
  os_file :: 'f

definition open_candidate ::
  "(string \<Rightarrow> 'f io_result) \<Rightarrow> string \<Rightarrow> string \<Rightarrow> resolver_error + 'f opened_source option" where
  "open_candidate open_file module_name display_path =
     (case open_file display_path of
        Opened f \<Rightarrow>
          Inr (Some \<lparr>os_module = module_normalize module_name, os_display_path = display_path, os_file = f\<rparr>)
      | Not_A_File \<Rightarrow> Inr None
      | Not_Found _ \<Rightarrow> Inr None
      | Io_Failed e \<Rightarrow> Inl (Resolver_Io display_path e))"

fun open_candidates ::
  "(string \<Rightarrow> 'f io_result) \<Rightarrow> string \<Rightarrow> string list \<Rightarrow> resolver_error + 'f opened_source list" where
  "open_candidates open_file module_name [] = Inr []"
| "open_candidates open_file module_name (path # paths) =
     (case open_candidate open_file module_name path of
        Inl e \<Rightarrow> Inl e
      | Inr opened \<Rightarrow>
          (case open_candidates open_file module_name paths of
             Inl e \<Rightarrow> Inl e
           | Inr candidates \<Rightarrow> Inr (case opened of Some x \<Rightarrow> x # candidates | None \<Rightarrow> candidates)))"

definition open_module ::
  "string \<Rightarrow> (string \<Rightarrow> 'f io_result) \<Rightarrow> string \<Rightarrow> resolver_error + 'f opened_source" where
  "open_module root open_file name =
     (let module_name = module_normalize name in
      if module_name_escapes_root module_name then Inl (Module_Escapes_Root module_name)
      else if is_direct_init_module module_name then Inl (Init_File_Required_Directly name)
      else
        let base = module_name_to_path module_name in
        case open_candidates open_file module_name (source_file_candidates base @ init_file_candidates base) of
          Inl e \<Rightarrow> Inl e
        | Inr candidates \<Rightarrow>
            (case candidates of
               [] \<Rightarrow> Inl (Missing_Module name (Some (path_join root base)))
             | [opened] \<Rightarrow> Inr opened
             | _ \<Rightarrow> Inl (Ambiguous_Module name (path_join root base))))"

text \<open>\<^verbatim>\<open>resolve_requested_module_name\<close> of the type checker, and \<^verbatim>\<open>resolve_request\<close> of the resolver on it.\<close>

definition resolve_requested_module_name :: "string option \<Rightarrow> string \<Rightarrow> resolver_error + string" where
  "resolve_requested_module_name context request =
     (if \<not> is_relative_request request then Inr (module_normalize request)
      else case context of
             None \<Rightarrow> Inl (Unresolvable_Relative_Request request)
           | Some name \<Rightarrow> Inr (module_join (module_parent name) request))"

definition resolve_module_request ::
  "string \<Rightarrow> (string \<Rightarrow> 'f io_result) \<Rightarrow> string option \<Rightarrow> string \<Rightarrow> resolver_error + string" where
  "resolve_module_request root open_file context request =
     (case resolve_requested_module_name context request of
        Inl e \<Rightarrow> Inl e
      | Inr requested \<Rightarrow>
          (case open_module root open_file requested of
             Inl e \<Rightarrow> Inl e
           | Inr opened \<Rightarrow> Inr (os_module opened)))"

section \<open>Configuration\<close>

record ('f, 'c) config_parsers =
  cp_luaurc :: "string \<Rightarrow> 'f \<Rightarrow> nat \<Rightarrow> resolver_error + 'c"
  cp_config_luau :: "string \<Rightarrow> 'f \<Rightarrow> nat \<Rightarrow> resolver_error + 'c"
  cp_merged_with :: "'c \<Rightarrow> 'c \<Rightarrow> 'c"
  cp_new :: 'c

definition open_config :: "(string \<Rightarrow> 'f io_result) \<Rightarrow> string \<Rightarrow> string \<Rightarrow> resolver_error + 'f option" where
  "open_config open_file display_root relative =
     (case open_file relative of
        Opened f \<Rightarrow> Inr (Some f)
      | Not_A_File \<Rightarrow> Inr None
      | Not_Found e \<Rightarrow> Inl (Resolver_Io (path_join display_root relative) e)
      | Io_Failed e \<Rightarrow> Inl (Resolver_Io (path_join display_root relative) e))"

definition load_config_from_directory ::
  "('f, 'c) config_parsers \<Rightarrow> (string \<Rightarrow> 'f io_result) \<Rightarrow> string \<Rightarrow> string \<Rightarrow> nat \<Rightarrow> resolver_error + 'c option" where
  "load_config_from_directory parsers open_file display_root directory max_read_bytes =
     (case open_config open_file display_root (path_join directory ''.luaurc'') of
        Inl e \<Rightarrow> Inl e
      | Inr luaurc \<Rightarrow>
          (case open_config open_file display_root (path_join directory ''.config.luau'') of
             Inl e \<Rightarrow> Inl e
           | Inr config_luau \<Rightarrow>
               (case (luaurc, config_luau) of
                  (None, None) \<Rightarrow> Inr None
                | (Some _, Some _) \<Rightarrow> Inl (Config_Ambiguity (path_join display_root directory))
                | (Some f, None) \<Rightarrow> map_sum id Some (cp_luaurc parsers (path_join display_root (path_join directory ''.luaurc'')) f max_read_bytes)
                | (None, Some f) \<Rightarrow> map_sum id Some (cp_config_luau parsers (path_join display_root (path_join directory ''.config.luau'')) f max_read_bytes))))"

fun merge_configs ::
  "('f, 'c) config_parsers \<Rightarrow> (string \<Rightarrow> 'f io_result) \<Rightarrow> string \<Rightarrow> nat \<Rightarrow> string list \<Rightarrow> 'c \<Rightarrow> resolver_error + 'c" where
  "merge_configs parsers open_file display_root max_read_bytes [] config = Inr config"
| "merge_configs parsers open_file display_root max_read_bytes (directory # directories) config =
     (case load_config_from_directory parsers open_file display_root directory max_read_bytes of
        Inl e \<Rightarrow> Inl e
      | Inr found \<Rightarrow>
          merge_configs parsers open_file display_root max_read_bytes directories
            (case found of None \<Rightarrow> config | Some c \<Rightarrow> cp_merged_with parsers config c))"

definition config_for_module ::
  "('f, 'c) config_parsers \<Rightarrow> (string \<Rightarrow> 'f io_result) \<Rightarrow> string \<Rightarrow> nat \<Rightarrow> string \<Rightarrow> resolver_error + 'c" where
  "config_for_module parsers open_file display_root max_read_bytes name =
     (let module_name = module_normalize name in
      if module_name_escapes_root module_name then Inl (Module_Escapes_Root module_name)
      else merge_configs parsers open_file display_root max_read_bytes
             (config_search_directories (module_parent module_name)) (cp_new parsers))"

section \<open>Staying below the root\<close>

text \<open>A path stays inside when it is relative and no number of its components leads out of where it starts.\<close>

definition stays_inside :: "string \<Rightarrow> bool" where
  "stays_inside path \<longleftrightarrow> \<not> prefix ''/'' path \<and>
     (\<forall>dir k. prefix dir (place_names (walk (Place (Some []) 0 dir) (take k (split_slash path)))))"

lemma walk_inside:
  assumes "''..'' \<notin> set cs"
  shows "walk (Place r u dir) cs = Place r u (dir @ filter (\<lambda>s. s \<noteq> [] \<and> s \<noteq> ''.'') cs)"
  using assms by (induction cs arbitrary: dir) auto

lemma stays_insideI:
  assumes "\<not> prefix ''/'' path" "''..'' \<notin> set (split_slash path)"
  shows "stays_inside path"
proof -
  have "''..'' \<notin> set (take k (split_slash path))" for k using assms(2) set_take_subset by fastforce
  then show ?thesis using assms(1) by (simp add: stays_inside_def walk_inside)
qed

definition file_component :: "string \<Rightarrow> bool" where
  "file_component w \<longleftrightarrow> w \<noteq> [] \<and> w \<noteq> ''..'' \<and> CHR ''/'' \<notin> set w"

lemma joined_inside:
  assumes "\<forall>w \<in> set ws. file_component w"
  shows "stays_inside (join_slash ws)"
proof (rule stays_insideI)
  show "\<not> prefix ''/'' (join_slash ws)"
  proof (cases ws)
    case (Cons w ws')
    then obtain c w' where w: "w = c # w'" "c \<noteq> CHR ''/''" using assms by (cases w) (auto simp: file_component_def)
    then show ?thesis using join_slash_Cons [of c w' ws'] Cons by auto
  qed simp
  have "split_slash (join_slash ws) = (if ws = [] then [[]] else ws)"
    using assms split_join [of ws "\<lambda>c. c = CHR ''/''"] by (auto simp: split_slash_def file_component_def)
  then show "''..'' \<notin> set (split_slash (join_slash ws))" using assms by (auto simp: file_component_def)
qed

lemma join_slash_append:
  assumes "us \<noteq> []" "vs \<noteq> []"
  shows "join_slash (us @ vs) = join_slash us @ CHR ''/'' # join_slash vs"
  using assms by (induction us rule: join_slash.induct) (cases vs; auto)+

lemma join_slash_last:
  assumes "ws \<noteq> []"
  shows "join_slash ws @ s = join_slash (butlast ws @ [last ws @ s])"
  using assms by (induction ws rule: join_slash.induct) (auto simp: join_slash_append neq_Nil_conv)

lemma path_join_joined:
  assumes "\<forall>w \<in> set ws. file_component w"
  shows "path_join (join_slash ws) n = join_slash (ws @ [n])"
proof (cases "ws = []")
  case False
  have last: "last (join_slash (us @ [w])) = last w \<and> join_slash (us @ [w]) \<noteq> []" if "w \<noteq> []" for us w
    using that by (cases "us = []") (simp_all add: join_slash_append)
  obtain us w where ws: "ws = us @ [w]" using False by (metis append_butlast_last_id)
  have "w \<noteq> []" "CHR ''/'' \<notin> set w" using assms ws by (auto simp: file_component_def)
  then have "last w \<noteq> CHR ''/''" using last_in_set by metis
  then show ?thesis using last [OF \<open>w \<noteq> []\<close>, of us] join_slash_append [OF False, of "[n]"] by (auto simp: path_join_def ws)
qed (simp add: path_join_def)

lemma candidates_inside:
  assumes "\<forall>w \<in> set ws. file_component w" "path \<in> set (source_file_candidates (join_slash ws) @ init_file_candidates (join_slash ws))"
  shows "stays_inside path"
proof -
  have ext: "stays_inside (append_extension (join_slash ws) e)" if "e \<in> {''luau'', ''lua''}" for e
  proof (cases "ws = []")
    case True
    then show ?thesis using that joined_inside [of "[''.'' @ e]"] by (auto simp: append_extension_def file_component_def)
  next
    case False
    have "file_component (last ws @ ''.'' @ e)" using assms(1) False that by (auto simp: file_component_def append_eq_Cons_conv)
    moreover have "\<forall>w \<in> set (butlast ws). file_component w" using assms(1) by (auto dest: in_set_butlastD)
    ultimately show ?thesis using joined_inside [of "butlast ws @ [last ws @ ''.'' @ e]"] join_slash_last [OF False]
      by (simp add: append_extension_def)
  qed
  have init: "stays_inside (path_join (join_slash ws) n)" if "file_component n" for n
    using joined_inside [of "ws @ [n]"] assms(1) that by (simp add: path_join_joined)
  have "file_component ''init.luau''" "file_component ''init.lua''" by (simp_all add: file_component_def)
  then show ?thesis using assms(2) ext init joined_inside [OF assms(1)]
    by (auto simp: source_file_candidates_def init_file_candidates_def split: if_splits)
qed

text \<open>What the check for escapes leaves.\<close>

lemma admitted_components:
  assumes "\<not> module_name_escapes_root name"
  shows "\<forall>w \<in> set (filter (\<lambda>s. s \<noteq> []) (split_slash name)). file_component w"
proof
  fix w assume w: "w \<in> set (filter (\<lambda>s. s \<noteq> []) (split_slash name))"
  have "w \<noteq> ''..''"
  proof
    assume "w = ''..''"
    then have "Parent_Dir \<in> set (path_components name)"
      using w by (force simp: path_components_def Let_def component_of_def image_iff)
    then show False using assms by (auto simp: module_name_escapes_root_def)
  qed
  moreover have "CHR ''/'' \<notin> set w" using w split_on_parts [of w "\<lambda>c. c = CHR ''/''" name] by (auto simp: split_slash_def)
  ultimately show "file_component w" using w by (simp add: file_component_def)
qed

lemma parent_components:
  "set (filter (\<lambda>s. s \<noteq> []) (split_slash (module_parent name))) \<subseteq> set (filter (\<lambda>s. s \<noteq> []) (split_slash name))"
proof (cases "butlast (split_slash name) = []")
  case True
  then show ?thesis by (simp add: module_parent_def before_last_slash_def split_slash_def)
next
  case False
  have "\<forall>w \<in> set (butlast (split_slash name)). \<forall>c \<in> set w. \<not> c = CHR ''/''"
    unfolding split_slash_def by (blast dest: in_set_butlastD split_on_parts)
  from split_join [OF False _ this] have "split_slash (module_parent name) = butlast (split_slash name)"
    by (simp add: module_parent_def before_last_slash_def split_slash_def)
  then show ?thesis by (auto dest: in_set_butlastD)
qed

lemma config_paths_inside:
  assumes "\<forall>w \<in> set (filter (\<lambda>s. s \<noteq> []) (split_slash parent)). file_component w"
    and "dir \<in> set (config_search_directories parent)" "file_component n"
  shows "stays_inside (path_join dir n)"
proof -
  obtain ws where ws: "dir = join_slash ws" "prefix ws (filter (\<lambda>s. s \<noteq> []) (split_slash parent))"
    using assms(2) by (auto simp: config_search_directories_def)
  then have "\<forall>w \<in> set ws. file_component w" using assms(1) set_mono_prefix by blast
  then show ?thesis using ws(1) joined_inside [of "ws @ [n]"] assms(3) by (simp add: path_join_joined)
qed

section \<open>Claims\<close>

lemma open_candidates_cong:
  assumes "\<forall>path \<in> set paths. f path = g path"
  shows "open_candidates f name paths = open_candidates g name paths"
  using assms
proof (induction paths)
  case (Cons path paths)
  then have "open_candidate f name path = open_candidate g name path" by (simp add: open_candidate_def)
  then show ?case using Cons by (simp split: sum.split)
qed simp

lemma merge_configs_cong:
  assumes "\<forall>dir \<in> set dirs. f (path_join dir ''.luaurc'') = g (path_join dir ''.luaurc'')"
    and "\<forall>dir \<in> set dirs. f (path_join dir ''.config.luau'') = g (path_join dir ''.config.luau'')"
  shows "merge_configs parsers f root limit dirs config = merge_configs parsers g root limit dirs config"
  using assms
proof (induction dirs arbitrary: config)
  case (Cons dir dirs)
  then have "open_config f root (path_join dir n) = open_config g root (path_join dir n)" if "n \<in> {''.luaurc'', ''.config.luau''}" for n
    using that by (auto simp: open_config_def)
  then have "load_config_from_directory parsers f root dir limit = load_config_from_directory parsers g root dir limit"
    by (simp add: load_config_from_directory_def split: sum.split)
  then show ?case using Cons by (simp split: sum.split)
qed simp

lemma open_module_cong:
  assumes "\<forall>path. stays_inside path \<longrightarrow> f path = g path"
  shows "open_module root f name = open_module root g name"
proof (cases "module_name_escapes_root (module_normalize name)")
  case False
  let ?base = "module_name_to_path (module_normalize name)"
  have "\<forall>path \<in> set (source_file_candidates ?base @ init_file_candidates ?base). f path = g path"
    using candidates_inside [OF admitted_components [OF False]] assms by (simp add: module_name_to_path_def)
  from open_candidates_cong [OF this] show ?thesis by (simp add: open_module_def Let_def)
qed (simp add: open_module_def)

lemma config_for_module_cong:
  assumes "\<forall>path. stays_inside path \<longrightarrow> f path = g path"
  shows "config_for_module parsers f display_root max_read_bytes name = config_for_module parsers g display_root max_read_bytes name"
proof (cases "module_name_escapes_root (module_normalize name)")
  case False
  have n: "\<forall>w \<in> set (filter (\<lambda>s. s \<noteq> []) (split_slash (module_parent (module_normalize name)))). file_component w"
    using admitted_components [OF False] parent_components by blast
  have "file_component ''.luaurc''" "file_component ''.config.luau''" by (simp_all add: file_component_def)
  then show ?thesis using False assms config_paths_inside [OF n] by (simp add: config_for_module_def Let_def merge_configs_cong)
qed (simp add: config_for_module_def)

text \<open>
  C23: Whatever a module is called, opening it, resolving a request to it and loading the configuration
  above it depend on the file system only through paths that stay below the root: file systems that
  agree there give the same results.
\<close>

theorem module_files_inside:
  assumes "\<forall>path. stays_inside path \<longrightarrow> f path = g path"
  shows "open_module root f name = open_module root g name \<and>
    resolve_module_request root f context request = resolve_module_request root g context request \<and>
    config_for_module parsers f display_root max_read_bytes name = config_for_module parsers g display_root max_read_bytes name"
  using open_module_cong [OF assms] config_for_module_cong [OF assms, of parsers display_root max_read_bytes name]
  by (simp add: resolve_module_request_def split: sum.split)

theorem module_files_inside_witness:
  "open_module ''/r'' (\<lambda>p. if p = ''lib/util.luau'' then Opened (1 :: nat) else if prefix ''/'' p then Opened 2 else Not_A_File)
     ''lib/x/../util.luau'' =
   Inr \<lparr>os_module = ''lib/util'', os_display_path = ''lib/util.luau'', os_file = 1\<rparr>"
proof -
  let ?f = "\<lambda>p. if p = ''lib/util.luau'' then Opened (1 :: nat) else Not_A_File"
  let ?g = "\<lambda>p. if p = ''lib/util.luau'' then Opened (1 :: nat) else if prefix ''/'' p then Opened 2 else Not_A_File"
  have "\<forall>path. stays_inside path \<longrightarrow> ?g path = ?f path" by (simp add: stays_inside_def)
  from module_files_inside [OF this] have "open_module ''/r'' ?g ''lib/x/../util.luau'' = open_module ''/r'' ?f ''lib/x/../util.luau''" by blast
  also have "open_module ''/r'' ?f ''lib/x/../util.luau'' =
      Inr \<lparr>os_module = ''lib/util'', os_display_path = ''lib/util.luau'', os_file = 1\<rparr>" by code_simp
  finally show ?thesis .
qed

end
