(* ===== verification/Spec2Isabelle.thy ===== *)
theory Spec2Isabelle
  imports Input_Safety Validated Builder_Runs String_Literals Gc_Spec Pack_Spec String_Gsub Table_Sort Table_Edits Module_Files
begin

text \<open>
  \<^bold>\<open>A verification library for ruau.\<close> Ruau is an embeddable Luau engine in Rust: \<^verbatim>\<open>ruau-syntax\<close> parses
  source text, \<^verbatim>\<open>ruau-typecheck\<close> checks it, the compiler of \<^verbatim>\<open>ruau-bytecode\<close> lowers it through a chunk
  builder to bytecode that the codec writes and reads and the validator admits, and \<^verbatim>\<open>ruau-vm\<close> loads
  validated chunks into a heap of generational arenas and runs them, collecting garbage between
  instructions. The remaining crates drive these parts (sessions, executor, file system, declarations).
  The library models the trusted data path: everything from bytes to a validated chunk, the
  construction of chunks, the heap with its tables, registry and collector, the gas meter, the parts
  of the table and string libraries that run on untrusted ranges, comparators, patterns and formats,
  and the names and paths by which modules are found.

  \<^bold>\<open>Bytecode\<close> (\<^verbatim>\<open>src/crates/ruau-bytecode/src\<close>).
  \<^item> \<open>Prelude\<close>: machine-integer names, list and option lemmas, number formatting shared by all parts.
  \<^item> \<open>Opcodes\<close> (\<^verbatim>\<open>opcodes.rs\<close>), \<open>Instructions\<close>, \<open>Line_Info\<close>, \<open>Chunk\<close> (\<^verbatim>\<open>types.rs\<close>, \<^verbatim>\<open>version_policy.rs\<close>): the
    header word and its decoded views, jump targets and word offsets, line packing, the chunk records.
  \<^item> \<open>Wire\<close> and \<open>Codec\<close> (\<^verbatim>\<open>codec.rs\<close>): readers and writers as state transformers with error values. Encoding
    and decoding are inverse on well-formed chunks, whatever decodes is canonical; \<open>Input_Safety\<close> adds that
    truncated input is refused and that what the decoder builds is bounded by its input.
  \<^item> \<open>Validate\<close> (\<^verbatim>\<open>validate.rs\<close>), \<open>Validate_Spec\<close>, \<open>Validated\<close>: every check with its error kind; the validator
    accepts exactly the chunks of a declarative specification, and what that means for jumps, closures
    and imports, with two registers it does not check.
  \<^item> \<open>Builder\<close>, \<open>Jump_Folding\<close>, \<open>Builder_Spec\<close>, \<open>Builder_Runs\<close> (\<^verbatim>\<open>builder.rs\<close>): every operation of the builder;
    runs as a step relation with an invariant; jump folding preserves control flow; what a run finishes
    to survives the codec of the version it set.
  \<^item> \<open>String_Literals\<close> (\<^verbatim>\<open>ruau-syntax/src/parser/common.rs\<close>): escapes of string literals, and the text form
    in which the parser hands byte strings to the builder.

  \<^bold>\<open>Heap\<close> (\<^verbatim>\<open>src/crates/ruau-vm/src\<close>).
  \<^item> \<open>Values\<close>, \<open>Lua_Table\<close>, \<open>Lua_Table_Spec\<close> (\<^verbatim>\<open>api.rs\<close>, \<^verbatim>\<open>table.rs\<close>): values with IEEE-754 bit patterns, tables with
    array and hash part; a table refines a map from normalised keys, its length is a border, and \<^verbatim>\<open>next\<close>
    visits every entry once.
  \<^item> \<open>Arena\<close>, \<open>Arena_Spec\<close> (\<^verbatim>\<open>heap/arena.rs\<close>): slots with colours, ages and generations; a handle never names
    two objects over the life of an arena whose slots are recycled fewer than \<open>2\<^sup>32\<close> times.
  \<^item> \<open>Registry\<close> (\<^verbatim>\<open>heap/registry.rs\<close>): pins and their tokens, over all histories.
  \<^item> \<open>Heap\<close>, \<open>Heap_Ops\<close> (\<^verbatim>\<open>heap/mod.rs\<close>, \<^verbatim>\<open>heap/store.rs\<close>, \<^verbatim>\<open>object.rs\<close>, \<^verbatim>\<open>func.rs\<close>, \<^verbatim>\<open>state.rs\<close>, \<^verbatim>\<open>string.rs\<close>, \<^verbatim>\<open>tm.rs\<close>): the
    objects with the handles they hold, the heap record, the write barrier, and the operations on it.
  \<^item> \<open>Gc\<close> (\<^verbatim>\<open>gc.rs\<close>): marking, tracing, weak tables, sweeps, the cycle driver, the validator. \<open>Gc_Views\<close>,
    \<open>Gc_Trace\<close>, \<open>Gc_Weak\<close>, \<open>Gc_Sweep\<close>, \<open>Gc_Safe\<close> and \<open>Gc_Cycle\<close> prove each phase; \<open>Gc_Liveness\<close> that a cycle completes.
    \<open>Heap_Safe\<close> proves once, in the locale \<open>object_arena\<close> interpreted on all eight arenas, that operations
    keep the collector's invariant; \<open>Heap_Run\<close> puts them together as the life of a heap; \<open>Gc_Spec\<close> states
    what the collector promises for every reachable heap.

  \<^bold>\<open>Budgets and tables\<close> (\<^verbatim>\<open>src/crates/ruau-vm/src\<close>).
  \<^item> \<open>Metering\<close> (\<^verbatim>\<open>heap/mod.rs\<close>, \<^verbatim>\<open>gas_profile.rs\<close>, \<^verbatim>\<open>lib.rs\<close>, \<^verbatim>\<open>execute/mod.rs\<close>): gas, logical deadline, profile and quantum
    of an invocation. Over any sequence of metered events the budget is spent exactly, and the profile
    lists for each site exactly the gas charged while it was current.
  \<^item> \<open>Table_Lib\<close> (\<^verbatim>\<open>builtins/table_lib.rs\<close>): builtins of the table library as functions on heap and meter.
    \<open>Table_Positions\<close> states access by position as a locale, interpreted on the heap, with the loops of
    such accesses; on it \<open>Table_Move\<close> proves that every path of \<^verbatim>\<open>table.move\<close> is the simultaneous copy, the
    sparse one where no native-integer keys are in the range, \<open>Table_Sort\<close> that \<^verbatim>\<open>table.sort\<close> sorts stably within
    its number of comparisons and survives any comparator, \<open>Table_Edits\<close> what \<^verbatim>\<open>insert\<close>, \<^verbatim>\<open>remove\<close> and \<^verbatim>\<open>unpack\<close> do.
    \<open>Compare\<close> (\<^verbatim>\<open>execute/mod.rs\<close>, \<^verbatim>\<open>vmutils.rs\<close>, \<^verbatim>\<open>tm.rs\<close>) is the operator \<^verbatim>\<open><\<close> that \<^verbatim>\<open>table.sort\<close> uses without a comparator.
    Calls of functions, the limits and the memory meter's answer are parameters; the positions of a range
    are below \<open>2\<^sup>53\<close>, where they are exact as floats.

  \<^bold>\<open>Strings\<close> (\<^verbatim>\<open>src/crates/ruau-vm/src\<close>).
  \<^item> \<open>Pattern\<close> (\<^verbatim>\<open>pattern.rs\<close>): the backtracking matcher of Lua patterns with its captures, step budget and depth
    cap. \<open>Pattern_Spec\<close> says what a pattern means, as a step relation with the preference of each quantifier
    written out and no budget. \<open>Pattern_Exact\<close> states the contract of one attempt, \<open>Pattern_Engine\<close> proves it in
    a locale over the recursive call, interpreted on \<open>do_match\<close> at every depth; \<open>Pattern_Find\<close> concludes that a
    search is in bounds and returns the preferred match at the first matching start; \<open>Pattern_Limits\<close>,
    that limits turn verdicts into errors and never into other verdicts.
  \<^item> \<open>String_Search\<close> and \<open>String_Gsub\<close> (\<^verbatim>\<open>builtins/string_lib.rs\<close>): \<^verbatim>\<open>string.find\<close>, whose plain search is the matcher
    on literal patterns, and \<^verbatim>\<open>string.gsub\<close> with a template, a table or a function.
  \<^item> \<open>Pack\<close>, \<open>Pack_Loops\<close>, \<open>Pack_Spec\<close> (\<^verbatim>\<open>pack.rs\<close>, \<^verbatim>\<open>builtins/string_lib.rs\<close>): format options, alignment and integers of
    one to sixteen bytes; \<^verbatim>\<open>string.unpack\<close> reads back what \<^verbatim>\<open>string.pack\<close> wrote.

  \<^bold>\<open>Modules\<close> (\<^verbatim>\<open>ruau-source/src/lib.rs\<close>, \<^verbatim>\<open>ruau-filesystem/src/lib.rs\<close>).
  \<^item> \<open>Module_Paths\<close>, \<open>Path_Meaning\<close>: path normalisation, module names and requests; a path means a place, and
    normalisation prints it. \<open>Module_Files\<close>: candidate files and configuration of a module. Opening a file
    below the root is a parameter, and it is only asked for paths that stay below the root.

  \<^bold>\<open>How code is rendered.\<close> Records follow the structs, errors are values of sum types with the source's
  messages, machine integers are words of their width. Panics are values too (\<open>None\<close> or a panic
  outcome), and theorems say where they cannot occur. Memory: an allocation whose reservation can fail
  takes the answer as an argument; a collection takes the number of reservations granted before the
  first failure, because it makes none after one fails. Loops are functions with termination proofs;
  \<open>follow_jumps\<close>, \<open>hash_border\<close> and \<open>table_unpack_loop\<close> return an option for running forever, and the theorems
  say when they return. Arithmetic wraps where a release build wraps.

  \<^bold>\<open>Bounds.\<close> Word offsets of code stay below \<open>2\<^sup>31\<close> because the validator and the builder limit functions;
  arenas and the registry stay below \<open>2\<^sup>32\<close> slots, array parts below \<open>2\<^sup>53\<close>, which exceed any address space
  that the slots and values would have to share. Strings are shorter than \<open>2\<^sup>63\<close> bytes, as Rust slices
  are, and the step budget of patterns is below \<open>2\<^sup>32 - 1\<close>, where its counter would wrap. The depth of the
  pattern matcher is carried as the levels left, so its recursion is structural. Each theorem states
  the bounds it uses.

  \<^bold>\<open>Not modelled.\<close> The parser beyond string literals, the type checker, the compiler's lowering, the
  interpreter loop and the host interface: large bodies of code whose data types the models here are
  the ground for. Byte counts charged to the memory meter (they depend on allocator capacities),
  hashing (no result depends on it), serde adapters, procedural macros and file-system or async I/O,
  among it the providers, mounts and captured graphs of module sources, the executor and the sessions.
  Of the table library, \<^verbatim>\<open>concat\<close>, \<^verbatim>\<open>pack\<close>, \<^verbatim>\<open>create\<close>, \<^verbatim>\<open>find\<close>, \<^verbatim>\<open>freeze\<close>, \<^verbatim>\<open>clone\<close> and the \<^verbatim>\<open>foreach\<close> functions; the
  failure of the allocator to reserve the temporaries of \<^verbatim>\<open>table.move\<close>, and the scratch buffer of \<^verbatim>\<open>table.sort\<close>, of
  which the model keeps the filled part. Paths are those of Unix: drive letters and prefixes are left out.
\<close>

end
